(* ===== verification/Sgdb_Prelude.thy ===== *)
theory Sgdb_Prelude
  imports Main "HOL-Library.Word" "HOL-Library.List_Lexorder" "HOL-Library.Sublist"
begin

text \<open>
  What every component of the library shares: the machine types of the crate, Rust's
  \<open>Result\<close> with an explicit panic, bounds-checked slices, little-endian codecs,
  UTF-8 validity (\<open>core::str::from_utf8\<close>), and the sorted association list that
  stands for \<open>alloc::collections::BTreeMap\<close>.

  Conventions.  A Rust \<open>&[u8]\<close>, \<open>Vec<u8>\<close>, \<open>&str\<close> or \<open>String\<close> is a list of
  \<open>8 word\<close>; a \<open>str\<close> is one for which \<open>utf8_valid\<close> holds.  \<open>usize\<close> is \<open>nat\<close>: the model
  is of a 64-bit target, where an offset into a buffer plus a 32-bit length does not
  overflow.  An \<open>f32\<close> that is only stored and sent is its 32-bit pattern.
\<close>

type_synonym u8 = "8 word"
type_synonym u16 = "16 word"
type_synonym u32 = "32 word"
type_synonym u64 = "64 word"
type_synonym bytes = "8 word list"

abbreviation u64_max :: u64 where
  "u64_max \<equiv> - 1"

named_theorems codec \<open>reading back what an encoder has written\<close>
named_theorems calm \<open>operations that cannot panic\<close>

section \<open>Results\<close>

text \<open>
  \<open>Result<T, &'static str>\<close>: \<open>Err m\<close> is the error value with message \<open>m\<close>, \<open>Panic\<close> is the
  abort of an out-of-range slice or index, which no \<open>Err\<close> branch of the source produces.
\<close>

datatype fault = Err string | Panic

type_synonym 'a result = "fault + 'a"

fun and_then :: "'e + 'a \<Rightarrow> ('a \<Rightarrow> 'e + 'b) \<Rightarrow> 'e + 'b" where
  "and_then (Inl e) f = Inl e"
| "and_then (Inr x) f = f x"

definition ok_or :: "'a option \<Rightarrow> string \<Rightarrow> 'a result" where
  "ok_or x m = (case x of None \<Rightarrow> Inl (Err m) | Some v \<Rightarrow> Inr v)"

definition map_err :: "'a result \<Rightarrow> string \<Rightarrow> 'a result" where
  "map_err r m = (case r of Inl (Err _) \<Rightarrow> Inl (Err m) | Inl Panic \<Rightarrow> Inl Panic | Inr v \<Rightarrow> Inr v)"

definition ensure :: "bool \<Rightarrow> string \<Rightarrow> unit result" where
  "ensure b m = (if b then Inr () else Inl (Err m))"

definition slice_at :: "'a list \<Rightarrow> nat \<Rightarrow> nat \<Rightarrow> 'a list result" where
  "slice_at xs a b =
     (if a \<le> b \<and> b \<le> length xs then Inr (take (b - a) (drop a xs)) else Inl Panic)"

definition index_at :: "'a list \<Rightarrow> nat \<Rightarrow> 'a result" where
  "index_at xs i = (if i < length xs then Inr (xs ! i) else Inl Panic)"

definition get_at :: "'a list \<Rightarrow> nat \<Rightarrow> 'a option" where
  "get_at xs i = (if i < length xs then Some (xs ! i) else None)"

definition calm :: "'a result \<Rightarrow> bool" where
  "calm r \<longleftrightarrow> r \<noteq> Inl Panic"

lemma and_then_Inr_iff: "and_then r f = Inr y \<longleftrightarrow> (\<exists>x. r = Inr x \<and> f x = Inr y)"
  by (cases r) auto

lemma and_then_Inl_iff:
  "and_then r f = Inl e \<longleftrightarrow> r = Inl e \<or> (\<exists>x. r = Inr x \<and> f x = Inl e)"
  by (cases r) auto

lemma ok_or_simps [simp]: "ok_or None m = Inl (Err m)" "ok_or (Some v) m = Inr v"
  by (simp_all add: ok_or_def)

lemma ok_or_Inr_iff [simp]: "ok_or x m = Inr v \<longleftrightarrow> x = Some v"
  by (cases x) auto

lemma ensure_True [simp]: "ensure True m = Inr ()"
  by (simp add: ensure_def)

lemma ensure_False [simp]: "ensure False m = Inl (Err m)"
  by (simp add: ensure_def)

lemma ensure_Inr_iff [simp]: "ensure b m = Inr u \<longleftrightarrow> b"
  by (simp add: ensure_def)

lemma map_err_Inr [simp]: "map_err (Inr v) m = Inr v"
  by (simp add: map_err_def)

lemma map_err_Inr_iff [simp]: "map_err r m = Inr v \<longleftrightarrow> r = Inr v"
  by (auto simp: map_err_def split: sum.splits fault.splits)

lemma calm_Inr [calm, simp]: "calm (Inr v)"
  by (simp add: calm_def)

lemma calm_Err [calm, simp]: "calm (Inl (Err m))"
  by (simp add: calm_def)

lemma calm_Panic [simp]: "\<not> calm (Inl Panic)"
  by (simp add: calm_def)

lemma calm_ok_or [calm, simp]: "calm (ok_or x m)"
  by (cases x) auto

lemma calm_ensure [calm, simp]: "calm (ensure b m)"
  by (simp add: ensure_def)

lemma calm_map_err [calm]: "calm r \<Longrightarrow> calm (map_err r m)"
  by (auto simp: map_err_def calm_def split: sum.splits fault.splits)

lemma calm_and_then [calm]:
  "calm r \<Longrightarrow> (\<And>x. r = Inr x \<Longrightarrow> calm (f x)) \<Longrightarrow> calm (and_then r f)"
  by (cases r) (auto simp: calm_def)

lemma calm_slice_at [calm]: "a \<le> b \<Longrightarrow> b \<le> length xs \<Longrightarrow> calm (slice_at xs a b)"
  by (simp add: slice_at_def)

lemma calm_index_at [calm]: "i < length xs \<Longrightarrow> calm (index_at xs i)"
  by (simp add: index_at_def)

lemma slice_at_Inr: "slice_at xs a b = Inr ys \<Longrightarrow> ys = take (b - a) (drop a xs) \<and> length ys = b - a"
  by (auto simp: slice_at_def split: if_splits)

section \<open>Lists read at an offset\<close>

text \<open>
  A decoder of the source keeps an offset into the buffer.  The buffer \<^emph>\<open>holds\<close> the bytes
  \<open>w\<close> at \<open>off\<close> when they stand there; reading them moves the offset past them.
\<close>

definition holds_at :: "'a list \<Rightarrow> nat \<Rightarrow> 'a list \<Rightarrow> bool" where
  "holds_at xs off w \<longleftrightarrow> (\<exists>pre suf. xs = pre @ w @ suf \<and> length pre = off)"

lemma holds_atI: "xs = pre @ w @ suf \<Longrightarrow> length pre = off \<Longrightarrow> holds_at xs off w"
  by (auto simp: holds_at_def)

lemma holds_at_append_iff:
  "holds_at xs off (v @ w) \<longleftrightarrow> holds_at xs off v \<and> holds_at xs (off + length v) w"
proof
  assume "holds_at xs off (v @ w)"
  then obtain pre suf where "xs = pre @ (v @ w) @ suf" "length pre = off"
    by (auto simp: holds_at_def)
  then have "xs = pre @ v @ (w @ suf)" "xs = (pre @ v) @ w @ suf" "length (pre @ v) = off + length v"
    by simp_all
  then show "holds_at xs off v \<and> holds_at xs (off + length v) w"
    using \<open>length pre = off\<close> by (blast intro: holds_atI)
next
  assume "holds_at xs off v \<and> holds_at xs (off + length v) w"
  then obtain pre suf where a: "xs = pre @ v @ suf" "length pre = off"
    by (auto simp: holds_at_def)
  from \<open>holds_at xs off v \<and> holds_at xs (off + length v) w\<close>
  obtain pre' suf' where b: "xs = pre' @ w @ suf'" "length pre' = off + length v"
    by (auto simp: holds_at_def)
  have "(pre @ v) @ suf = pre' @ (w @ suf')" using a(1) b(1) by simp
  moreover have "length (pre @ v) = length pre'" using a(2) b(2) by simp
  ultimately have "suf = w @ suf'" by (metis append_eq_append_conv)
  then have "xs = pre @ (v @ w) @ suf'" using a by simp
  then show "holds_at xs off (v @ w)" using a(2) by (rule holds_atI)
qed

lemma holds_at_len: "holds_at xs off w \<Longrightarrow> off + length w \<le> length xs"
  by (auto simp: holds_at_def)

lemma holds_at_take_drop: "holds_at xs off w \<Longrightarrow> take (length w) (drop off xs) = w"
  by (auto simp: holds_at_def)

lemma holds_at_self: "holds_at xs 0 xs"
  by (rule holds_atI [where pre = "[]" and suf = "[]"]) auto

lemma holds_at_prefix: "holds_at (xs @ ys) 0 xs"
  by (rule holds_atI [where pre = "[]"]) auto

lemma holds_at_suffix: "holds_at (xs @ ys) (length xs) ys"
  by (rule holds_atI [where suf = "[]"]) auto

lemma holds_at_appendL: "holds_at xs off w \<Longrightarrow> holds_at (xs @ ys) off w"
  unfolding holds_at_def by (metis append.assoc)

lemma slice_at_holds:
  "holds_at xs off w \<Longrightarrow> n = length w \<Longrightarrow> slice_at xs off (off + n) = Inr w"
  using holds_at_len [of xs off w] holds_at_take_drop [of xs off w]
  by (simp add: slice_at_def)

lemma index_at_holds: "holds_at xs off [b] \<Longrightarrow> index_at xs off = Inr b"
  by (auto simp: holds_at_def index_at_def)

lemma get_at_holds: "holds_at xs off [b] \<Longrightarrow> get_at xs off = Some b"
  by (auto simp: holds_at_def get_at_def)

lemma get_at_Some_iff: "get_at xs i = Some b \<longleftrightarrow> i < length xs \<and> xs ! i = b"
  by (auto simp: get_at_def)

section \<open>Little-endian integers\<close>

text \<open>
  \<open>le_enc n x\<close> is \<open>x.to_le_bytes()\<close> of an \<open>n\<close>-byte integer; an \<open>x\<close> that does not fit
  loses its high bytes, as the source's \<open>x as u16\<close> and \<open>x as u32\<close> do.  \<open>le_val\<close> is
  \<open>from_le_bytes\<close>.
\<close>

fun le_enc :: "nat \<Rightarrow> nat \<Rightarrow> bytes" where
  "le_enc 0 x = []"
| "le_enc (Suc n) x = of_nat (x mod 256) # le_enc n (x div 256)"

fun le_val :: "bytes \<Rightarrow> nat" where
  "le_val [] = 0"
| "le_val (b # bs) = unat b + 256 * le_val bs"

lemma length_le_enc [simp]: "length (le_enc n x) = n"
  by (induction n x rule: le_enc.induct) auto

lemma le_val_enc: "le_val (le_enc n x) = x mod 256 ^ n"
proof (induction n x rule: le_enc.induct)
  case (1 x)
  then show ?case by simp
next
  case (2 n x)
  have "unat (of_nat (x mod 256) :: u8) = x mod 256"
    by (simp add: unat_of_nat)
  then show ?case
    using 2 by (simp add: mod_mult2_eq [of x 256 "256 ^ n"])
qed

lemma le_val_enc_small [simp]: "x < 256 ^ n \<Longrightarrow> le_val (le_enc n x) = x"
  by (simp add: le_val_enc)

lemma unat_byte_less [simp]: "unat (b :: u8) < 256"
  using unsigned_less [of b] by simp

lemma le_val_bound: "le_val bs < 256 ^ length bs"
proof (induction bs)
  case Nil
  then show ?case by simp
next
  case (Cons b bs)
  have "unat b < 256" by (rule unat_byte_less)
  then have "unat b + 256 * le_val bs < 256 * (1 + le_val bs)" by simp
  also have "\<dots> \<le> 256 * 256 ^ length bs" using Cons by (intro mult_le_mono2) simp
  finally show ?case by simp
qed

lemma le_enc_val [simp]: "n = length bs \<Longrightarrow> le_enc n (le_val bs) = bs"
proof (induction bs arbitrary: n)
  case Nil
  then show ?case by simp
next
  case (Cons b bs)
  have b: "unat b < 256" by (rule unat_byte_less)
  then have "(unat b + 256 * le_val bs) mod 256 = unat b"
    and "(unat b + 256 * le_val bs) div 256 = le_val bs" by simp_all
  with Cons show ?case by simp
qed

text \<open>The bounds-checked readers \<open>rd_u16\<close>, \<open>rd_u32\<close>, \<open>rd_u64\<close> of \<open>memory_doc.rs\<close>.\<close>

definition rd_le :: "nat \<Rightarrow> bytes \<Rightarrow> nat \<Rightarrow> nat option" where
  "rd_le n data off =
     (if off + n \<le> length data then Some (le_val (take n (drop off data))) else None)"

lemma rd_le_holds:
  assumes "holds_at data off (le_enc n x)" and "x < 256 ^ n"
  shows "rd_le n data off = Some x"
  using holds_at_len [OF assms(1)] holds_at_take_drop [OF assms(1)] assms(2)
  by (simp add: rd_le_def)

lemma rd_le_Some: "rd_le n data off = Some x \<Longrightarrow> off + n \<le> length data \<and> x < 256 ^ n"
  using le_val_bound [of "take n (drop off data)"]
  by (auto simp: rd_le_def split: if_splits)

lemma rd_le_appendL: "rd_le n xs off = Some x \<Longrightarrow> rd_le n (xs @ ys) off = Some x"
  by (auto simp: rd_le_def split: if_splits)

lemma u64_unat_succ: "c \<noteq> u64_max \<Longrightarrow> unat (c + 1) = Suc (unat c)"
proof -
  assume "c \<noteq> u64_max"
  then have "1 + c \<noteq> 0" by (metis add.commute add_eq_0_iff2)
  then have "unat (1 + c) = Suc (unat c)" by (rule unatSuc)
  then show ?thesis by (simp add: add.commute)
qed

lemma u64_less_succ: "c \<noteq> u64_max \<Longrightarrow> c < c + 1"
  by (simp add: word_less_nat_alt u64_unat_succ)

text \<open>Fixed-width elements one after the other.\<close>

lemma concat_chunk:
  "i < length xs \<Longrightarrow> (\<And>x. x \<in> set xs \<Longrightarrow> length (f x) = w) \<Longrightarrow>
   take w (drop (i * w) (concat (map f xs) @ rest)) = f (xs ! i)"
proof (induction xs arbitrary: i)
  case Nil
  then show ?case by simp
next
  case (Cons x xs)
  then show ?case by (cases i) (simp_all add: algebra_simps)
qed

lemma length_concat_const:
  "(\<And>x. x \<in> set xs \<Longrightarrow> length (f x) = w) \<Longrightarrow> length (concat (map f xs)) = w * length xs"
  by (induction xs) auto

lemma of_nat_le_val_enc [simp]:
  "of_nat (le_val (le_enc 8 (unat c))) = (c :: u64)"
  "of_nat (le_val (le_enc 4 (unat d))) = (d :: u32)"
proof -
  have "unat c < 256 ^ 8" "unat d < 256 ^ 4"
    using unsigned_less [of c] unsigned_less [of d] by simp_all
  then show "of_nat (le_val (le_enc 8 (unat c))) = c" "of_nat (le_val (le_enc 4 (unat d))) = d"
    by simp_all
qed

section \<open>UTF-8\<close>

text \<open>
  \<open>core::str::from_utf8\<close> accepts exactly the well-formed UTF-8 of the Unicode standard
  (table 3-7): no overlong form, no surrogate, nothing above U+10FFFF.
\<close>

definition cont_byte :: "u8 \<Rightarrow> bool" where
  "cont_byte b \<longleftrightarrow> 0x80 \<le> b \<and> b \<le> 0xBF"

definition second3 :: "u8 \<Rightarrow> u8 \<Rightarrow> bool" where
  "second3 a b \<longleftrightarrow>
     (if a = 0xE0 then 0xA0 \<le> b \<and> b \<le> 0xBF
      else if a = 0xED then 0x80 \<le> b \<and> b \<le> 0x9F
      else cont_byte b)"

definition second4 :: "u8 \<Rightarrow> u8 \<Rightarrow> bool" where
  "second4 a b \<longleftrightarrow>
     (if a = 0xF0 then 0x90 \<le> b \<and> b \<le> 0xBF
      else if a = 0xF4 then 0x80 \<le> b \<and> b \<le> 0x8F
      else cont_byte b)"

fun utf8_valid :: "bytes \<Rightarrow> bool" where
  "utf8_valid [] = True"
| "utf8_valid (a # r) =
     (if a < 0x80 then utf8_valid r
      else if 0xC2 \<le> a \<and> a \<le> 0xDF then
        (case r of b # r' \<Rightarrow> cont_byte b \<and> utf8_valid r' | [] \<Rightarrow> False)
      else if 0xE0 \<le> a \<and> a \<le> 0xEF then
        (case r of b # c # r' \<Rightarrow> second3 a b \<and> cont_byte c \<and> utf8_valid r' | _ \<Rightarrow> False)
      else if 0xF0 \<le> a \<and> a \<le> 0xF4 then
        (case r of b # c # d # r' \<Rightarrow>
           second4 a b \<and> cont_byte c \<and> cont_byte d \<and> utf8_valid r' | _ \<Rightarrow> False)
      else False)"

lemma utf8_valid_append: "utf8_valid xs \<Longrightarrow> utf8_valid ys \<Longrightarrow> utf8_valid (xs @ ys)"
proof (induction xs rule: utf8_valid.induct)
  case 1
  then show ?case by simp
next
  case (2 a r)
  consider "a < 0x80" | "\<not> a < 0x80" "0xC2 \<le> a \<and> a \<le> 0xDF"
    | "\<not> a < 0x80" "\<not> (0xC2 \<le> a \<and> a \<le> 0xDF)" "0xE0 \<le> a \<and> a \<le> 0xEF"
    | "\<not> a < 0x80" "\<not> (0xC2 \<le> a \<and> a \<le> 0xDF)" "\<not> (0xE0 \<le> a \<and> a \<le> 0xEF)"
    by blast
  then show ?case
  proof cases
    case 1
    with 2 show ?thesis by simp
  next
    case 2
    with "2.prems" "2.IH"(2) show ?thesis
      by (simp only: utf8_valid.simps append_Cons if_False if_True)
        (auto split: list.splits)
  next
    case 3
    with "2.prems" "2.IH"(3) show ?thesis
      by (simp only: utf8_valid.simps append_Cons if_False if_True)
        (auto split: list.splits)
  next
    case 4
    with "2.prems" "2.IH"(4) show ?thesis
      by (simp only: utf8_valid.simps append_Cons if_False if_True)
        (auto split: list.splits if_splits)
  qed
qed

declare utf8_valid.simps(2) [simp del]

lemma utf8_valid_ascii: "(\<And>b. b \<in> set xs \<Longrightarrow> b < 0x80) \<Longrightarrow> utf8_valid xs"
  by (induction xs) (auto simp: utf8_valid.simps(2))

text \<open>\<open>from_utf8(..).map_err(|_| m)\<close>: the same bytes, read as a \<open>str\<close>.\<close>

definition from_utf8 :: "bytes \<Rightarrow> string \<Rightarrow> bytes result" where
  "from_utf8 bs m = (if utf8_valid bs then Inr bs else Inl (Err m))"

lemma from_utf8_ok [simp]: "utf8_valid bs \<Longrightarrow> from_utf8 bs m = Inr bs"
  by (simp add: from_utf8_def)

lemma from_utf8_Inr: "from_utf8 bs m = Inr s \<longleftrightarrow> s = bs \<and> utf8_valid bs"
  by (auto simp: from_utf8_def)

lemma calm_from_utf8 [calm, simp]: "calm (from_utf8 bs m)"
  by (simp add: from_utf8_def)

text \<open>An ASCII literal of the source.\<close>

definition ascii :: "string \<Rightarrow> bytes" where
  "ascii s = map of_char s"

lemma ascii_append: "ascii (s @ t) = ascii s @ ascii t"
  by (simp add: ascii_def)

lemma length_ascii [simp]: "length (ascii s) = length s"
  by (simp add: ascii_def)

section \<open>Searching a list\<close>

text \<open>\<open>iter().position(p)\<close>, and the first hit of a \<open>for i in 0..n\<close> loop that returns.\<close>

fun position :: "('a \<Rightarrow> bool) \<Rightarrow> 'a list \<Rightarrow> nat option" where
  "position P [] = None"
| "position P (x # xs) = (if P x then Some 0 else map_option Suc (position P xs))"

lemma position_None_iff: "position P xs = None \<longleftrightarrow> (\<forall>x \<in> set xs. \<not> P x)"
  by (induction xs) auto

lemma position_Some: "position P xs = Some i \<Longrightarrow> i < length xs \<and> P (xs ! i)"
  by (induction xs arbitrary: i) (auto split: if_splits)

lemma position_eqD: "position (\<lambda>y. y = n) xs = Some i \<Longrightarrow> i < length xs \<and> xs ! i = n"
  using position_Some by fastforce

lemma position_zip:
  "length xs = length ys \<Longrightarrow>
   map_of (zip xs ys) n = map_option (\<lambda>i. ys ! i) (position (\<lambda>y. y = n) xs)"
  by (induction xs ys rule: list_induct2) (auto simp: option.map_comp comp_def)

lemma position_update_hit:
  "i < length xs \<Longrightarrow> n \<notin> set xs \<Longrightarrow> position (\<lambda>y. y = n) (xs[i := n]) = Some i"
  by (induction xs arbitrary: i) (auto split: nat.split)

lemma position_update_miss:
  "i < length xs \<Longrightarrow> m \<noteq> n \<Longrightarrow> m \<noteq> xs ! i \<Longrightarrow>
   position (\<lambda>y. y = m) (xs[i := n]) = position (\<lambda>y. y = m) xs"
  by (induction xs arbitrary: i) (auto split: nat.split)

lemma position_eq_iff_distinct:
  "distinct xs \<Longrightarrow> i < length xs \<Longrightarrow> position (\<lambda>y. y = xs ! i) xs = Some i"
proof (induction xs arbitrary: i)
  case Nil
  then show ?case by simp
next
  case (Cons x xs)
  then show ?case by (cases i) (auto simp: nth_mem)
qed

end
