(* ===== verification/Vector_Clock.thy ===== *)
theory Vector_Clock
  imports Sgdb_Prelude "HOL-Library.AList"
begin

text \<open>
  \<open>VectorClock\<close> of \<open>src/src/memory_doc.rs\<close>: eight fixed (node, counter) slots, the only part
  that goes on the wire, and an overflow registry for further nodes.  A clock stands for
  the function from nodes to counters that \<open>counter_of\<close> reads; the lemmas show that on
  well-formed clocks every operation is the textbook one on these functions, that the
  registry bound is never reached, and that happened-before is a strict partial order
  with merge as join.
\<close>

section \<open>State\<close>

text \<open>The byte \<open>0xFF\<close> marks an unused slot.\<close>

definition no_node :: u8 where
  "no_node = 0xFF"

record vector_clock =
  vc_nodes :: "u8 list"
  vc_counts :: "u64 list"
  vc_overflow :: "(u8 \<times> u64) list"

definition vc_new :: vector_clock where
  "vc_new = \<lparr>vc_nodes = replicate 8 no_node, vc_counts = replicate 8 0, vc_overflow = []\<rparr>"

definition MAX_OVERFLOW_NODES :: nat where
  "MAX_OVERFLOW_NODES = 248"

section \<open>Operations\<close>

definition iter_nodes :: "vector_clock \<Rightarrow> (u8 \<times> u64) list" where
  "iter_nodes vc = filter (\<lambda>(n, c). n \<noteq> no_node) (zip (vc_nodes vc) (vc_counts vc)) @ vc_overflow vc"

definition vc_entries :: "vector_clock \<Rightarrow> (u8 \<times> u64) list" where
  "vc_entries vc = iter_nodes vc"

definition counter_of :: "vector_clock \<Rightarrow> u8 \<Rightarrow> u64" where
  "counter_of vc node =
     (case position (\<lambda>n. n = node) (vc_nodes vc) of
        Some i \<Rightarrow> vc_counts vc ! i
      | None \<Rightarrow> (case map_of (vc_overflow vc) node of Some c \<Rightarrow> c | None \<Rightarrow> 0))"

definition is_vacuous :: "vector_clock \<Rightarrow> bool" where
  "is_vacuous vc = list_all (\<lambda>(_, c). c = 0) (iter_nodes vc)"

definition is_zero_at :: "vector_clock \<Rightarrow> u8 \<Rightarrow> bool" where
  "is_zero_at vc node \<longleftrightarrow> counter_of vc node = 0"

definition set_counter :: "vector_clock \<Rightarrow> u8 \<Rightarrow> u64 \<Rightarrow> vector_clock" where
  "set_counter vc node count =
     (case position (\<lambda>n. n = node) (vc_nodes vc) of
        Some i \<Rightarrow> vc\<lparr>vc_counts := (vc_counts vc)[i := count]\<rparr>
      | None \<Rightarrow>
          (case position (\<lambda>n. n = no_node) (vc_nodes vc) of
             Some free \<Rightarrow> vc\<lparr>vc_nodes := (vc_nodes vc)[free := node],
                             vc_counts := (vc_counts vc)[free := count]\<rparr>
           | None \<Rightarrow>
               if node \<in> fst ` set (vc_overflow vc)
               then vc\<lparr>vc_overflow := AList.update node count (vc_overflow vc)\<rparr>
               else if length (vc_overflow vc) < MAX_OVERFLOW_NODES
               then vc\<lparr>vc_overflow := vc_overflow vc @ [(node, count)]\<rparr>
               else vc))"

text \<open>\<open>c.saturating_add(1)\<close> after the early return at \<open>u64::MAX\<close> is an addition that does not wrap.\<close>

definition vc_tick :: "vector_clock \<Rightarrow> u8 \<Rightarrow> vector_clock" where
  "vc_tick vc node =
     (let c = counter_of vc node in if c = u64_max then vc else set_counter vc node (c + 1))"

definition vc_eq :: "vector_clock \<Rightarrow> vector_clock \<Rightarrow> bool" where
  "vc_eq a b \<longleftrightarrow>
     list_all (\<lambda>(n, c). counter_of b n = c) (iter_nodes a) \<and>
     list_all (\<lambda>(n, c). counter_of a n = c) (iter_nodes b)"

definition happens_before :: "vector_clock \<Rightarrow> vector_clock \<Rightarrow> bool" where
  "happens_before a b \<longleftrightarrow>
     (if vc_eq a b then False
      else if list_ex (\<lambda>(n, c). counter_of b n < c) (iter_nodes a) then False
      else list_ex (\<lambda>(n, c). c < counter_of b n) (iter_nodes a) \<or>
           list_ex (\<lambda>(n, c). counter_of a n < c) (iter_nodes b))"

definition vc_concurrent :: "vector_clock \<Rightarrow> vector_clock \<Rightarrow> bool" where
  "vc_concurrent a b \<longleftrightarrow> \<not> vc_eq a b \<and> \<not> happens_before a b \<and> \<not> happens_before b a"

definition vc_merge :: "vector_clock \<Rightarrow> vector_clock \<Rightarrow> vector_clock" where
  "vc_merge a b =
     fold (\<lambda>(n, c) s. if counter_of s n < c then set_counter s n c else s) (iter_nodes b) a"

definition vc_encode :: "vector_clock \<Rightarrow> bytes" where
  "vc_encode vc = vc_nodes vc @ concat (map (\<lambda>c. le_enc 8 (unat c)) (vc_counts vc))"

definition vc_decode :: "bytes \<Rightarrow> (vector_clock \<times> nat) option" where
  "vc_decode data =
     (if length data < 8 + 8 * 8 then None
      else Some (\<lparr>vc_nodes = take 8 data,
                  vc_counts = map (\<lambda>i. of_nat (le_val (take 8 (drop (8 + i * 8) data)))) [0..<8],
                  vc_overflow = []\<rparr>, 8 + 64))"

section \<open>Well-formed clocks\<close>

text \<open>
  The invariant the source states in prose: a node is in the fixed slots or in the
  overflow, once; a free slot (\<open>no_node\<close>) counts 0; the overflow is used only when no slot
  is free.  \<open>no_node\<close> itself is no node.
\<close>

definition live_nodes :: "vector_clock \<Rightarrow> u8 list" where
  "live_nodes vc = filter (\<lambda>n. n \<noteq> no_node) (vc_nodes vc) @ map fst (vc_overflow vc)"

definition vc_wf :: "vector_clock \<Rightarrow> bool" where
  "vc_wf vc \<longleftrightarrow> length (vc_nodes vc) = 8 \<and> length (vc_counts vc) = 8 \<and>
     distinct (live_nodes vc) \<and> no_node \<notin> set (live_nodes vc) \<and>
     list_all (\<lambda>(n, c). n = no_node \<longrightarrow> c = 0) (zip (vc_nodes vc) (vc_counts vc)) \<and>
     (vc_overflow vc \<noteq> [] \<longrightarrow> no_node \<notin> set (vc_nodes vc))"

lemma vc_wf_new: "vc_wf vc_new"
  by (simp add: vc_wf_def vc_new_def live_nodes_def list_all_iff in_set_zip)

lemma vc_wf_lengths:
  "vc_wf vc \<Longrightarrow> length (vc_nodes vc) = 8" "vc_wf vc \<Longrightarrow> length (vc_counts vc) = 8"
  by (simp_all add: vc_wf_def)

lemma vc_wf_zip_zero: "vc_wf vc \<Longrightarrow> (n, c) \<in> set (zip (vc_nodes vc) (vc_counts vc)) \<Longrightarrow> n = no_node \<Longrightarrow> c = 0"
  unfolding vc_wf_def list_all_iff by blast

lemma map_fst_iter_nodes:
  assumes "length (vc_nodes vc) = length (vc_counts vc)"
  shows "map fst (iter_nodes vc) = live_nodes vc"
proof -
  have "map fst (filter (\<lambda>(n, c). n \<noteq> no_node) (zip ns cs)) = filter (\<lambda>n. n \<noteq> no_node) ns"
    if "length ns = length cs" for ns :: "u8 list" and cs :: "u64 list"
    using that by (induction ns cs rule: list_induct2) auto
  with assms show ?thesis by (simp add: iter_nodes_def live_nodes_def)
qed

lemma map_of_filter_key: "P k \<Longrightarrow> map_of (filter (\<lambda>(k, v). P k) al) k = map_of al k"
  by (induction al) auto

lemma counter_of_alist:
  assumes "length (vc_nodes vc) = length (vc_counts vc)" and "n \<noteq> no_node"
  shows "counter_of vc n = (case map_of (iter_nodes vc) n of Some c \<Rightarrow> c | None \<Rightarrow> 0)"
proof -
  have "map_of (filter (\<lambda>(n, c). n \<noteq> no_node) (zip (vc_nodes vc) (vc_counts vc))) n =
        map_of (zip (vc_nodes vc) (vc_counts vc)) n"
    using assms(2) by (rule map_of_filter_key)
  then show ?thesis
    using assms(1)
    by (auto simp: counter_of_def iter_nodes_def map_add_def position_zip split: option.splits)
qed

lemma counter_of_free_slot:
  assumes "vc_wf vc" shows "counter_of vc no_node = 0"
proof (cases "position (\<lambda>n. n = no_node) (vc_nodes vc)")
  case None
  have "no_node \<notin> fst ` set (vc_overflow vc)" using assms by (auto simp: vc_wf_def live_nodes_def)
  then have "map_of (vc_overflow vc) no_node = None" by (simp add: map_of_eq_None_iff)
  with None show ?thesis by (simp add: counter_of_def)
next
  case (Some i)
  then have "i < 8" "vc_nodes vc ! i = no_node" using position_eqD [OF Some] vc_wf_lengths [OF assms] by simp_all
  then have "(no_node, vc_counts vc ! i) \<in> set (zip (vc_nodes vc) (vc_counts vc))"
    using vc_wf_lengths [OF assms] by (force simp: in_set_zip)
  then have "vc_counts vc ! i = 0" using vc_wf_zip_zero [OF assms] by blast
  with Some show ?thesis by (simp add: counter_of_def)
qed

text \<open>On a well-formed clock the entries and the counters say the same.\<close>

lemma iter_nodes_iff:
  assumes "vc_wf vc"
  shows "(n, c) \<in> set (iter_nodes vc) \<longleftrightarrow> n \<in> set (live_nodes vc) \<and> counter_of vc n = c"
proof -
  have keys: "map fst (iter_nodes vc) = live_nodes vc"
    using vc_wf_lengths [OF assms] by (simp add: map_fst_iter_nodes)
  then have d: "distinct (map fst (iter_nodes vc))" using assms by (simp add: vc_wf_def)
  have ks: "set (live_nodes vc) = fst ` set (iter_nodes vc)"
    by (simp flip: keys)
  have nff: "n \<in> set (live_nodes vc) \<Longrightarrow> n \<noteq> no_node" using assms by (auto simp: vc_wf_def)
  show ?thesis
  proof
    assume "(n, c) \<in> set (iter_nodes vc)"
    moreover from this have "n \<in> set (live_nodes vc)" unfolding ks by force
    ultimately show "n \<in> set (live_nodes vc) \<and> counter_of vc n = c"
      using d nff vc_wf_lengths [OF assms] by (simp add: counter_of_alist)
  next
    assume n: "n \<in> set (live_nodes vc) \<and> counter_of vc n = c"
    then obtain c' where "(n, c') \<in> set (iter_nodes vc)" unfolding ks by force
    with n show "(n, c) \<in> set (iter_nodes vc)"
      using d nff vc_wf_lengths [OF assms] by (simp add: counter_of_alist)
  qed
qed

lemma counter_of_not_live:
  assumes "vc_wf vc" and "n \<notin> set (live_nodes vc)" shows "counter_of vc n = 0"
proof (cases "n = no_node")
  case True
  with assms show ?thesis by (simp add: counter_of_free_slot)
next
  case False
  have "n \<notin> fst ` set (iter_nodes vc)"
    using assms(2) map_fst_iter_nodes [of vc] vc_wf_lengths [OF assms(1)] by (metis image_set)
  then have "map_of (iter_nodes vc) n = None" by (simp add: map_of_eq_None_iff)
  with False vc_wf_lengths [OF assms(1)] show ?thesis by (simp add: counter_of_alist)
qed

section \<open>Operations keep clocks well-formed\<close>

lemma vc_wfI:
  assumes "length (vc_nodes vc) = 8" "length (vc_counts vc) = 8"
    and "distinct (live_nodes vc)" "no_node \<notin> set (live_nodes vc)"
    and "\<And>i. i < 8 \<Longrightarrow> vc_nodes vc ! i = no_node \<Longrightarrow> vc_counts vc ! i = 0"
    and "vc_overflow vc \<noteq> [] \<Longrightarrow> no_node \<notin> set (vc_nodes vc)"
  shows "vc_wf vc"
  using assms by (simp add: vc_wf_def list_all_length)

lemma vc_wf_free_zero:
  assumes "vc_wf vc" "i < 8" "vc_nodes vc ! i = no_node"
  shows "vc_counts vc ! i = 0"
  using assms by (simp add: vc_wf_def list_all_length)

lemma distinct_filter_fill:
  assumes "i < length xs" "xs ! i = f" "n \<notin> set xs" "n \<noteq> f" "distinct (filter (\<lambda>x. x \<noteq> f) xs)"
  shows "distinct (filter (\<lambda>x. x \<noteq> f) (xs[i := n]))"
  using assms by (induction xs arbitrary: i) (auto split: nat.splits dest: set_update_subset_insert [THEN subsetD])

lemma no_node_room:
  assumes wf: "vc_wf vc" and full: "no_node \<notin> set (vc_nodes vc)"
    and n: "n \<noteq> no_node" "n \<notin> set (live_nodes vc)"
  shows "length (vc_overflow vc) < MAX_OVERFLOW_NODES"
proof -
  have "set (live_nodes vc) \<subseteq> UNIV - {no_node, n}" using wf n by (auto simp: vc_wf_def)
  then have "card (set (live_nodes vc)) \<le> card (UNIV - {no_node, n} :: u8 set)"
    by (intro card_mono) simp_all
  also have "\<dots> = 254" using n(1) by (simp add: card_Diff_subset card_word)
  finally have "length (live_nodes vc) \<le> 254"
    using wf by (simp add: vc_wf_def distinct_card)
  moreover have "filter (\<lambda>n. n \<noteq> no_node) (vc_nodes vc) = vc_nodes vc"
    using full by (auto simp: filter_id_conv)
  ultimately show ?thesis
    using wf by (simp add: live_nodes_def MAX_OVERFLOW_NODES_def vc_wf_def)
qed

text \<open>
  The four ways \<open>set_counter\<close> goes on a well-formed clock: the node has a slot, a slot is
  free, the node is registered, or it is registered now.  The bound is never what decides.
\<close>

lemma set_counter_cases:
  assumes wf: "vc_wf vc" and n: "n \<noteq> no_node"
  obtains
    (slot) i where "position (\<lambda>m. m = n) (vc_nodes vc) = Some i"
      "set_counter vc n c = vc\<lparr>vc_counts := (vc_counts vc)[i := c]\<rparr>"
  | (free) i where "n \<notin> set (vc_nodes vc)" "i < 8" "vc_nodes vc ! i = no_node"
      "vc_overflow vc = []"
      "set_counter vc n c = vc\<lparr>vc_nodes := (vc_nodes vc)[i := n], vc_counts := (vc_counts vc)[i := c]\<rparr>"
  | (registered) "n \<notin> set (vc_nodes vc)" "no_node \<notin> set (vc_nodes vc)"
      "set_counter vc n c = vc\<lparr>vc_overflow := AList.update n c (vc_overflow vc)\<rparr>"
proof (cases "position (\<lambda>m. m = n) (vc_nodes vc)")
  case (Some i)
  then show thesis by (intro slot) (simp_all add: set_counter_def)
next
  case None
  then have n_out: "n \<notin> set (vc_nodes vc)" by (auto simp: position_None_iff)
  show thesis
  proof (cases "position (\<lambda>m. m = no_node) (vc_nodes vc)")
    case (Some i)
    have i: "i < 8" "vc_nodes vc ! i = no_node"
      using position_eqD [OF Some] vc_wf_lengths [OF wf] by simp_all
    then have "no_node \<in> set (vc_nodes vc)" using vc_wf_lengths [OF wf] by (metis nth_mem)
    then have "vc_overflow vc = []" using wf by (auto simp: vc_wf_def)
    with i n_out None Some show thesis by (intro free) (simp_all add: set_counter_def)
  next
    case free_None: None
    then have full: "no_node \<notin> set (vc_nodes vc)" by (auto simp: position_None_iff)
    have upd: "xs @ [(n, c)] = AList.update n c xs" if "n \<notin> fst ` set xs" for xs :: "(u8 \<times> u64) list"
      using that by (induction xs) auto
    have "n \<in> fst ` set (vc_overflow vc) \<or> length (vc_overflow vc) < MAX_OVERFLOW_NODES"
      using no_node_room [OF wf full n] n_out by (auto simp: live_nodes_def)
    with None free_None n_out full show thesis
      by (intro registered) (auto simp: set_counter_def upd)
  qed
qed

lemma vc_wf_set_counter:
  assumes wf: "vc_wf vc" and n: "n \<noteq> no_node"
  shows "vc_wf (set_counter vc n c)"
  using wf n
proof (cases rule: set_counter_cases [where c = c])
  case (slot i)
  then have i: "i < 8" "vc_nodes vc ! i = n"
    using position_eqD [OF slot(1)] vc_wf_lengths [OF wf] by simp_all
  show ?thesis unfolding slot(2)
  proof (rule vc_wfI)
    fix j assume "j < 8" "vc_nodes (vc\<lparr>vc_counts := (vc_counts vc)[i := c]\<rparr>) ! j = no_node"
    then show "vc_counts (vc\<lparr>vc_counts := (vc_counts vc)[i := c]\<rparr>) ! j = 0"
      using vc_wf_free_zero [OF wf, of j] i n by (cases "j = i") auto
  qed (use wf in \<open>auto simp: vc_wf_def live_nodes_def\<close>)
next
  case (free i)
  have d: "distinct (filter (\<lambda>n. n \<noteq> no_node) (vc_nodes vc))"
    using wf by (simp add: vc_wf_def live_nodes_def)
  show ?thesis unfolding free(5)
  proof (rule vc_wfI)
    fix j assume j: "j < 8"
      and "vc_nodes (vc\<lparr>vc_nodes := (vc_nodes vc)[i := n], vc_counts := (vc_counts vc)[i := c]\<rparr>) ! j
           = no_node"
    then show "vc_counts (vc\<lparr>vc_nodes := (vc_nodes vc)[i := n], vc_counts := (vc_counts vc)[i := c]\<rparr>) ! j = 0"
      using vc_wf_free_zero [OF wf j] vc_wf_lengths [OF wf] n free(2) by (cases "j = i") auto
  qed (use vc_wf_lengths [OF wf] distinct_filter_fill [OF _ free(3,1) n d] free(2,4)
       in \<open>auto simp: live_nodes_def\<close>)
next
  case registered
  then show ?thesis
    using wf n by (auto simp: vc_wf_def live_nodes_def update_keys dest!: in_set_takeD)
qed

lemma counter_of_set_counter:
  assumes wf: "vc_wf vc" and n: "n \<noteq> no_node"
  shows "counter_of (set_counter vc n c) m = (if m = n then c else counter_of vc m)"
proof (cases "m = no_node")
  case True
  with n show ?thesis
    by (simp add: counter_of_free_slot [OF wf] counter_of_free_slot [OF vc_wf_set_counter [OF wf n]])
next
  case m: False
  from wf n show ?thesis
  proof (cases rule: set_counter_cases [where c = c])
    case (slot i)
    have "i < 8" using position_eqD [OF slot(1)] vc_wf_lengths [OF wf] by simp
    moreover have "j \<noteq> i" if "position (\<lambda>y. y = m) (vc_nodes vc) = Some j" "m \<noteq> n" for j
      using position_eqD [OF that(1)] position_eqD [OF slot(1)] that(2) by auto
    ultimately show ?thesis
      using slot vc_wf_lengths [OF wf] by (auto simp: counter_of_def split: option.splits)
  next
    case (free i)
    have "j \<noteq> i" if "position (\<lambda>y. y = m) (vc_nodes vc) = Some j" for j
      using position_eqD [OF that] free(3) m by auto
    moreover have "position (\<lambda>y. y = n) (vc_nodes vc) = None"
      using free(1) by (auto simp: position_None_iff)
    ultimately show ?thesis
      using free(1-4) m vc_wf_lengths [OF wf]
      by (auto simp: counter_of_def free(5) position_update_hit position_update_miss split: option.splits)
  next
    case registered
    then have "position (\<lambda>y. y = n) (vc_nodes vc) = None"
      by (auto simp: position_None_iff)
    then show ?thesis
      by (auto simp: counter_of_def registered(3) update_conv' split: option.splits)
  qed
qed

lemma vc_wf_tick: "vc_wf vc \<Longrightarrow> n \<noteq> no_node \<Longrightarrow> vc_wf (vc_tick vc n)"
  by (simp add: vc_tick_def Let_def vc_wf_set_counter)

lemma counter_of_tick:
  assumes "vc_wf vc" "n \<noteq> no_node"
  shows "counter_of (vc_tick vc n) m =
    (if m = n \<and> counter_of vc n \<noteq> u64_max then counter_of vc n + 1 else counter_of vc m)"
  using assms by (simp add: vc_tick_def Let_def counter_of_set_counter)

section \<open>The counters decide\<close>

lemma all_entries_iff:
  assumes wf: "vc_wf vc" and P: "\<And>n. n \<notin> set (live_nodes vc) \<Longrightarrow> P n 0"
  shows "(\<forall>(n, c) \<in> set (iter_nodes vc). P n c) \<longleftrightarrow> (\<forall>n. P n (counter_of vc n))"
proof -
  have "P n (counter_of vc n)"
    if "\<forall>(n, c) \<in> set (iter_nodes vc). P n c" for n
    using that iter_nodes_iff [OF wf, of n "counter_of vc n"] P [of n] counter_of_not_live [OF wf, of n]
    by (cases "n \<in> set (live_nodes vc)") auto
  then show ?thesis using iter_nodes_iff [OF wf] by (auto simp: split_beta)
qed

lemma vc_eq_iff:
  assumes "vc_wf a" "vc_wf b"
  shows "vc_eq a b \<longleftrightarrow> (\<forall>n. counter_of a n = counter_of b n)"
proof
  assume "vc_eq a b"
  then have a: "\<And>n c. (n, c) \<in> set (iter_nodes a) \<Longrightarrow> counter_of b n = c"
    and b: "\<And>n c. (n, c) \<in> set (iter_nodes b) \<Longrightarrow> counter_of a n = c"
    by (auto simp: vc_eq_def list_all_iff)
  show "\<forall>n. counter_of a n = counter_of b n"
    using a b iter_nodes_iff [OF assms(1)] iter_nodes_iff [OF assms(2)]
      counter_of_not_live [OF assms(1)] counter_of_not_live [OF assms(2)] by metis
next
  assume "\<forall>n. counter_of a n = counter_of b n"
  then show "vc_eq a b"
    using iter_nodes_iff [OF assms(1)] iter_nodes_iff [OF assms(2)]
    by (auto simp: vc_eq_def list_all_iff)
qed

lemma happens_before_iff:
  assumes "vc_wf a" "vc_wf b"
  shows "happens_before a b \<longleftrightarrow>
    (\<forall>n. counter_of a n \<le> counter_of b n) \<and> (\<exists>n. counter_of a n < counter_of b n)"
proof -
  have no_gt: "\<not> list_ex (\<lambda>(n, c). counter_of b n < c) (iter_nodes a) \<longleftrightarrow>
      (\<forall>n. counter_of a n \<le> counter_of b n)"
    using all_entries_iff [OF assms(1), of "\<lambda>n c. c \<le> counter_of b n"]
    by (auto simp: list_ex_iff not_less split_beta)
  have "(\<forall>(n, c) \<in> set (iter_nodes b). c \<le> counter_of a n) \<longleftrightarrow>
      (\<forall>n. counter_of b n \<le> counter_of a n)"
    by (rule all_entries_iff [OF assms(2)]) simp
  then have "list_ex (\<lambda>(n, c). counter_of a n < c) (iter_nodes b) \<longleftrightarrow>
      (\<exists>n. counter_of a n < counter_of b n)"
    unfolding list_ex_iff split_beta not_le [symmetric] by blast
  moreover have "list_ex (\<lambda>(n, c). c < counter_of b n) (iter_nodes a) \<Longrightarrow>
      \<exists>n. counter_of a n < counter_of b n"
    using iter_nodes_iff [OF assms(1)] by (auto simp: list_ex_iff)
  ultimately show ?thesis
    using no_gt vc_eq_iff [OF assms] by (auto simp: happens_before_def)
qed

lemma merge_fold:
  assumes "vc_wf a" and "\<And>n c. (n, c) \<in> set es \<Longrightarrow> n \<noteq> no_node" and "distinct (map fst es)"
  defines "m \<equiv> fold (\<lambda>(n, c) s. if counter_of s n < c then set_counter s n c else s) es a"
  shows "vc_wf m \<and> (\<forall>n. counter_of m n =
    max (counter_of a n) (case map_of es n of Some c \<Rightarrow> c | None \<Rightarrow> 0))"
  using assms(1-3) unfolding m_def
proof (induction es arbitrary: a)
  case Nil
  then show ?case by simp
next
  case (Cons e es)
  obtain n c where e: "e = (n, c)" by (cases e)
  let ?a = "if counter_of a n < c then set_counter a n c else a"
  have n: "n \<noteq> no_node" using Cons.prems(2) e by auto
  have wf: "vc_wf ?a" using Cons.prems(1) n by (simp add: vc_wf_set_counter)
  have cnt: "counter_of ?a m = (if m = n then max (counter_of a n) c else counter_of a m)" for m
    using Cons.prems(1) n by (auto simp: counter_of_set_counter max_def)
  have "map_of es n = None" using Cons.prems(3) e by (simp add: map_of_eq_None_iff)
  moreover have "distinct (map fst es)" "\<And>n c. (n, c) \<in> set es \<Longrightarrow> n \<noteq> no_node"
    using Cons.prems(2,3) by auto
  ultimately show ?case
    using Cons.IH [OF wf] e by (simp add: cnt)
qed

lemma merge_correct:
  assumes "vc_wf a" "vc_wf b"
  shows "vc_wf (vc_merge a b) \<and>
    counter_of (vc_merge a b) n = max (counter_of a n) (counter_of b n)"
proof -
  have keys: "map fst (iter_nodes b) = live_nodes b"
    using vc_wf_lengths [OF assms(2)] by (simp add: map_fst_iter_nodes)
  then have d: "distinct (map fst (iter_nodes b))" using assms(2) by (simp add: vc_wf_def)
  have nn: "m \<noteq> no_node" if "(m, c) \<in> set (iter_nodes b)" for m c
    using that assms(2) iter_nodes_iff [OF assms(2)] by (auto simp: vc_wf_def)
  have "(case map_of (iter_nodes b) n of Some c \<Rightarrow> c | None \<Rightarrow> 0) = counter_of b n"
  proof (cases "n = no_node")
    case True
    then have "n \<notin> fst ` set (iter_nodes b)" by (auto dest: nn)
    then have "map_of (iter_nodes b) n = None" by (simp add: map_of_eq_None_iff)
    then show ?thesis using True counter_of_free_slot [OF assms(2)] by simp
  next
    case False
    then show ?thesis using vc_wf_lengths [OF assms(2)] by (simp add: counter_of_alist)
  qed
  moreover have "\<And>m c. (m, c) \<in> set (iter_nodes b) \<Longrightarrow> m \<noteq> no_node" by (rule nn)
  ultimately show ?thesis
    using merge_fold [OF assms(1) _ d] by (simp add: vc_merge_def)
qed

lemma vc_wf_merge: "vc_wf a \<Longrightarrow> vc_wf b \<Longrightarrow> vc_wf (vc_merge a b)"
  by (simp add: merge_correct)

lemma counter_of_merge:
  "vc_wf a \<Longrightarrow> vc_wf b \<Longrightarrow> counter_of (vc_merge a b) n = max (counter_of a n) (counter_of b n)"
  by (simp add: merge_correct)

section \<open>The causal order, as an interface\<close>

text \<open>
  What the replication code relies on: states with a counter for each node, an equality
  and an order that the counters decide, and a join that takes their maximum.
\<close>

locale causal_clock =
  fixes wf :: "'c \<Rightarrow> bool" and cnt :: "'c \<Rightarrow> 'n \<Rightarrow> 'v :: linorder"
    and eqv :: "'c \<Rightarrow> 'c \<Rightarrow> bool" and hb :: "'c \<Rightarrow> 'c \<Rightarrow> bool" and join :: "'c \<Rightarrow> 'c \<Rightarrow> 'c"
  assumes eqv_iff: "wf a \<Longrightarrow> wf b \<Longrightarrow> eqv a b \<longleftrightarrow> (\<forall>n. cnt a n = cnt b n)"
    and hb_iff: "wf a \<Longrightarrow> wf b \<Longrightarrow>
      hb a b \<longleftrightarrow> (\<forall>n. cnt a n \<le> cnt b n) \<and> (\<exists>n. cnt a n < cnt b n)"
    and wf_join: "wf a \<Longrightarrow> wf b \<Longrightarrow> wf (join a b)"
    and cnt_join: "wf a \<Longrightarrow> wf b \<Longrightarrow> cnt (join a b) n = max (cnt a n) (cnt b n)"
begin

lemma hb_irrefl: "wf a \<Longrightarrow> \<not> hb a a"
  by (simp add: hb_iff)

lemma hb_trans: "wf a \<Longrightarrow> wf b \<Longrightarrow> wf c \<Longrightarrow> hb a b \<Longrightarrow> hb b c \<Longrightarrow> hb a c"
  by (simp add: hb_iff) (meson order.trans le_less_trans)

lemma hb_asym: "wf a \<Longrightarrow> wf b \<Longrightarrow> hb a b \<Longrightarrow> \<not> hb b a"
  using hb_irrefl hb_trans by blast

lemma hb_eqv: "wf a \<Longrightarrow> wf b \<Longrightarrow> eqv a b \<Longrightarrow> \<not> hb a b"
  by (simp add: hb_iff eqv_iff)

lemma join_comm: "wf a \<Longrightarrow> wf b \<Longrightarrow> eqv (join a b) (join b a)"
  by (simp add: eqv_iff wf_join cnt_join max.commute)

lemma join_assoc: "wf a \<Longrightarrow> wf b \<Longrightarrow> wf c \<Longrightarrow> eqv (join (join a b) c) (join a (join b c))"
  by (simp add: eqv_iff wf_join cnt_join max.assoc)

lemma join_idem: "wf a \<Longrightarrow> eqv (join a a) a"
  by (simp add: eqv_iff wf_join cnt_join)

lemma join_upper: "wf a \<Longrightarrow> wf b \<Longrightarrow> hb a (join a b) \<or> eqv a (join a b)"
  by (simp add: hb_iff eqv_iff wf_join cnt_join) (metis max.cobounded1 order_le_less)

lemma join_least:
  assumes "wf a" "wf b" "wf c" and "hb a c \<or> eqv a c" "hb b c \<or> eqv b c"
  shows "hb (join a b) c \<or> eqv (join a b) c"
proof -
  have "cnt a n \<le> cnt c n" "cnt b n \<le> cnt c n" for n
    using assms by (auto simp: hb_iff eqv_iff)
  then have le: "cnt (join a b) n \<le> cnt c n" for n
    using assms(1,2) by (simp add: cnt_join)
  then show ?thesis
    using assms(1-3) by (simp add: hb_iff eqv_iff wf_join) (metis order_le_less)
qed

lemma join_of_concurrent:
  assumes "wf a" "wf b" and "\<not> eqv a b" "\<not> hb a b" "\<not> hb b a"
  shows "hb a (join a b) \<and> hb b (join a b)"
proof -
  have "\<exists>n. cnt b n < cnt a n" "\<exists>n. cnt a n < cnt b n"
    using assms by (auto simp: hb_iff eqv_iff not_le) (metis not_less_iff_gr_or_eq)+
  then show ?thesis
    using assms(1,2) by (auto simp: hb_iff wf_join cnt_join less_max_iff_disj)
qed

end

interpretation vclock: causal_clock vc_wf counter_of vc_eq happens_before vc_merge
  by unfold_locales (auto simp: vc_eq_iff happens_before_iff vc_wf_merge counter_of_merge)

section \<open>The 72 bytes on the wire\<close>

lemma length_vc_encode:
  "length (vc_nodes vc) = 8 \<Longrightarrow> length (vc_counts vc) = 8 \<Longrightarrow> length (vc_encode vc) = 72"
  by (simp add: vc_encode_def length_concat_const [where w = 8])

lemma vc_decode_encode [codec]:
  assumes "length (vc_nodes vc) = 8" "length (vc_counts vc) = 8"
  shows "vc_decode (vc_encode vc @ rest) = Some (vc\<lparr>vc_overflow := []\<rparr>, 72)"
proof -
  let ?f = "\<lambda>c :: u64. le_enc 8 (unat c)"
  have "take 8 (drop (8 + i * 8) (vc_encode vc @ rest)) = ?f (vc_counts vc ! i)" if "i < 8" for i
  proof -
    have "drop (8 + i * 8) (vc_encode vc @ rest) =
        drop (i * 8) (concat (map ?f (vc_counts vc)) @ rest)"
      using assms(1) by (simp add: vc_encode_def)
    then show ?thesis using that assms(2) concat_chunk [of i "vc_counts vc" ?f 8 rest] by simp
  qed
  then have "map (\<lambda>i. of_nat (le_val (take 8 (drop (8 + i * 8) (vc_encode vc @ rest))))) [0..<8]
      = vc_counts vc"
    using assms(2) by (intro nth_equalityI) simp_all
  moreover have "take 8 (vc_encode vc @ rest) = vc_nodes vc" using assms(1) by (simp add: vc_encode_def)
  ultimately show ?thesis
    using assms length_vc_encode [OF assms] by (simp add: vc_decode_def)
qed

lemma vc_decode_Some:
  "vc_decode data = Some (vc, n) \<Longrightarrow>
   length data \<ge> 72 \<and> n = 72 \<and> length (vc_nodes vc) = 8 \<and> length (vc_counts vc) = 8"
  by (auto simp: vc_decode_def split: if_splits)

section \<open>Properties\<close>

text \<open>
  C25: \<open>happens_before\<close> of well-formed clocks is the vector-clock order: every counter of the
  first is at most that of the second and one is smaller.  So it is irreflexive and
  transitive, and of any two clocks exactly one holds: equal, before, after, concurrent.
\<close>

theorem clock_causal_order:
  assumes "vc_wf a" "vc_wf b" "vc_wf c"
  shows "(happens_before a b \<longleftrightarrow>
      (\<forall>n. counter_of a n \<le> counter_of b n) \<and> (\<exists>n. counter_of a n < counter_of b n)) \<and>
    \<not> happens_before a a \<and>
    (happens_before a b \<and> happens_before b c \<longrightarrow> happens_before a c) \<and>
    length (filter id [vc_eq a b, happens_before a b, happens_before b a, vc_concurrent a b]) = 1"
proof -
  have "\<not> (vc_eq a b \<and> happens_before a b)" "\<not> (vc_eq a b \<and> happens_before b a)"
    "\<not> (happens_before a b \<and> happens_before b a)"
    using vclock.hb_eqv [OF assms(1,2)] vclock.hb_eqv [OF assms(2,1)] vclock.hb_asym [OF assms(1,2)]
      vclock.eqv_iff [OF assms(1,2)] vclock.eqv_iff [OF assms(2,1)] by metis+
  then have "length (filter id [vc_eq a b, happens_before a b, happens_before b a, vc_concurrent a b]) = 1"
    by (auto simp: vc_concurrent_def)
  then show ?thesis
    using vclock.hb_iff [OF assms(1,2)] vclock.hb_irrefl [OF assms(1)] vclock.hb_trans [OF assms]
    by blast
qed

definition clock_ab :: "vector_clock \<times> vector_clock" where
  "clock_ab = (vc_tick vc_new 1, vc_tick (vc_tick vc_new 1) 2)"

lemma clock_ab_wf: "vc_wf (fst clock_ab)" "vc_wf (snd clock_ab)"
  by (simp_all add: clock_ab_def vc_wf_tick vc_wf_new no_node_def)

theorem clock_causal_order_witness:
  "happens_before vc_new (fst clock_ab) \<and> happens_before (fst clock_ab) (snd clock_ab) \<and>
   happens_before vc_new (snd clock_ab)"
proof -
  have "happens_before vc_new (fst clock_ab)" "happens_before (fst clock_ab) (snd clock_ab)"
    by code_simp+
  with clock_causal_order [OF vc_wf_new clock_ab_wf] show ?thesis by blast
qed

text \<open>
  Registering a counter never loses a node: on a well-formed clock \<open>set_counter\<close> of any
  node but \<open>0xFF\<close> keeps the clock well-formed, stores the counter and leaves every other one
  alone, since eight slots and 248 registry entries hold all 255 nodes.
\<close>

theorem set_counter_stores:
  assumes "vc_wf vc" and "node \<noteq> 0xFF"
  shows "vc_wf (set_counter vc node count) \<and>
    counter_of (set_counter vc node count) = (counter_of vc)(node := count)"
  using assms by (auto simp: vc_wf_set_counter counter_of_set_counter no_node_def)

theorem set_counter_stores_witness:
  "vc_wf (set_counter vc_new 7 5) \<and> counter_of (set_counter vc_new 7 5) 7 = 5"
  using set_counter_stores [OF vc_wf_new, of 7 5] by simp

text \<open>
  A tick of a node moves the clock strictly forward in the causal order until the node's
  counter has reached \<open>u64::MAX\<close>, where the clock stays as it is.
\<close>

theorem tick_advances:
  assumes "vc_wf vc" and "node \<noteq> 0xFF"
  shows "vc_wf (vc_tick vc node) \<and>
    (if counter_of vc node = u64_max then vc_tick vc node = vc
     else happens_before vc (vc_tick vc node))"
proof (cases "counter_of vc node = u64_max")
  case True
  with assms show ?thesis by (simp add: vc_tick_def)
next
  case False
  have n: "node \<noteq> no_node" using assms(2) by (simp add: no_node_def)
  have "counter_of vc node < counter_of vc node + 1"
    using False by (rule u64_less_succ)
  then show ?thesis
    using False vc_wf_tick [OF assms(1) n] assms(1)
    by (auto simp: vclock.hb_iff counter_of_tick [OF assms(1) n] intro!: exI [of _ node])
qed

theorem tick_advances_witness:
  "happens_before vc_new (vc_tick vc_new 3)"
proof -
  have "counter_of vc_new 3 \<noteq> u64_max" by code_simp
  with tick_advances [OF vc_wf_new, of 3] show ?thesis by simp
qed

text \<open>
  C26: \<open>merge\<close> is the join of the causal order: it takes the larger counter of every node, is
  at or after both clocks, below every clock that is, commutative, associative and
  idempotent up to the clock equality, and strictly after both when they are concurrent.
\<close>

theorem merge_is_join:
  assumes "vc_wf a" "vc_wf b" "vc_wf c"
  shows "vc_wf (vc_merge a b) \<and>
    (\<forall>n. counter_of (vc_merge a b) n = max (counter_of a n) (counter_of b n)) \<and>
    vc_eq (vc_merge a b) (vc_merge b a) \<and>
    vc_eq (vc_merge (vc_merge a b) c) (vc_merge a (vc_merge b c)) \<and>
    vc_eq (vc_merge a a) a \<and>
    ((happens_before a c \<or> vc_eq a c) \<and> (happens_before b c \<or> vc_eq b c) \<longrightarrow>
      happens_before (vc_merge a b) c \<or> vc_eq (vc_merge a b) c) \<and>
    (vc_concurrent a b \<longrightarrow> happens_before a (vc_merge a b) \<and> happens_before b (vc_merge a b))"
  using vclock.wf_join [OF assms(1,2)] vclock.cnt_join [OF assms(1,2)]
    vclock.join_comm [OF assms(1,2)] vclock.join_assoc [OF assms] vclock.join_idem [OF assms(1)]
    vclock.join_least [OF assms] vclock.join_of_concurrent [OF assms(1,2)]
  by (simp add: vc_concurrent_def)

theorem merge_is_join_witness:
  "vc_concurrent (vc_tick vc_new 1) (vc_tick vc_new 2) \<and>
   happens_before (vc_tick vc_new 1) (vc_merge (vc_tick vc_new 1) (vc_tick vc_new 2))"
proof -
  have w: "vc_wf (vc_tick vc_new 1)" "vc_wf (vc_tick vc_new 2)"
    by (simp_all add: vc_wf_tick vc_wf_new no_node_def)
  have "vc_concurrent (vc_tick vc_new 1) (vc_tick vc_new 2)" by code_simp
  with merge_is_join [OF w vc_wf_new] show ?thesis by blast
qed

text \<open>
  The sentinel \<open>0xFF\<close> is not a usable node id, though the type admits it: ticking it on a
  fresh clock makes \<open>counter_of\<close> answer 1 while the clock still equals the empty one and is
  not after it, and the next node that takes the slot erases the count.
\<close>

theorem tick_of_sentinel_is_lost:
  "counter_of (vc_tick vc_new 0xFF) 0xFF = 1 \<and>
   vc_eq (vc_tick vc_new 0xFF) vc_new \<and> is_vacuous (vc_tick vc_new 0xFF) \<and>
   \<not> happens_before vc_new (vc_tick vc_new 0xFF) \<and>
   counter_of (vc_tick (vc_tick vc_new 0xFF) 1) 0xFF = 0"
  by code_simp

definition twice_listed :: bytes where
  "twice_listed = [3, 3, 0xFF, 0xFF, 0xFF, 0xFF, 0xFF, 0xFF] @ le_enc 8 1 @ le_enc 8 2 @ replicate 48 0"

text \<open>
  C14: \<open>decode\<close> takes any 72 bytes as a clock, also one that lists a node twice; such a clock is
  not equal to itself and is concurrent with itself, so a document that carries it is in
  conflict with its own copy.
\<close>

theorem decoded_clock_may_differ_from_itself:
  "map_option (\<lambda>(vc, n). (n, vc_eq vc vc, vc_concurrent vc vc)) (vc_decode twice_listed) =
   Some (72, False, True)"
  by code_simp

text \<open>
  The 72 wire bytes give back the eight slots and their counters; the overflow registry is
  not on the wire.
\<close>

theorem clock_wire_roundtrip:
  assumes "vc_wf vc"
  shows "length (vc_encode vc) = 72 \<and>
    vc_decode (vc_encode vc @ rest) = Some (vc\<lparr>vc_overflow := []\<rparr>, 72)"
  using vc_wf_lengths [OF assms] by (simp add: length_vc_encode vc_decode_encode)

theorem clock_wire_roundtrip_witness:
  "vc_decode (vc_encode vc_new @ [1, 2]) = Some (vc_new, 72)"
  using clock_wire_roundtrip [OF vc_wf_new, of "[1, 2]"] by (simp add: vc_new_def)

end
