(* ===== verification/Wire.thy ===== *)
theory Wire
  imports Sgdb_Prelude
begin

text \<open>
  The decoders of the crate walk a buffer with an offset: each field is read at \<open>off\<close>, with
  the bounds checked first, and \<open>off\<close> moves past it.  A reader is such a step: from the
  buffer and the offset to an error, or the value read and the next offset.  The lemmas say
  when a reader reads back what an encoder wrote (\<open>reads\<close>) and that it neither panics nor
  runs past the buffer (\<open>calm_reader\<close>); both pass through the sequencing of readers, so a
  decoder inherits them from its fields.
\<close>

type_synonym 'a reader = "bytes \<Rightarrow> nat \<Rightarrow> ('a \<times> nat) result"

section \<open>Readers\<close>

definition rret :: "'a \<Rightarrow> 'a reader" where
  "rret x data off = Inr (x, off)"

definition rfail :: "string \<Rightarrow> 'a reader" where
  "rfail m data off = Inl (Err m)"

definition rbind :: "'a reader \<Rightarrow> ('a \<Rightarrow> 'b reader) \<Rightarrow> 'b reader" where
  "rbind r f data off = and_then (r data off) (\<lambda>(x, off'). f x data off')"

text \<open>One byte, \<open>*data.get(off).ok_or(m)?\<close>, and an \<open>n\<close>-byte integer, \<open>rd_uN(data, off).ok_or(m)?\<close>.\<close>

definition rd_byte :: "string \<Rightarrow> u8 reader" where
  "rd_byte m data off = and_then (ok_or (get_at data off) m) (\<lambda>b. Inr (b, off + 1))"

definition rd_uint :: "nat \<Rightarrow> string \<Rightarrow> nat reader" where
  "rd_uint n m data off = and_then (ok_or (rd_le n data off) m) (\<lambda>x. Inr (x, off + n))"

definition rd_u64 :: "string \<Rightarrow> u64 reader" where
  "rd_u64 m = rbind (rd_uint 8 m) (\<lambda>x. rret (of_nat x))"

text \<open>An \<open>f32\<close> is carried as its bits.\<close>

definition rd_f32 :: "string \<Rightarrow> u32 reader" where
  "rd_f32 m = rbind (rd_uint 4 m) (\<lambda>x. rret (of_nat x))"

text \<open>\<open>if off + n > data.len() { return Err(m) }\<close>, then \<open>&data[off..off + n]\<close>.\<close>

definition rd_take :: "nat \<Rightarrow> string \<Rightarrow> bytes reader" where
  "rd_take n m data off =
     (if off + n > length data then Inl (Err m)
      else and_then (slice_at data off (off + n)) (\<lambda>w. Inr (w, off + n)))"

text \<open>A string behind its length: \<open>k\<close> bytes of length, bounds check, UTF-8 check.\<close>

definition rd_str :: "nat \<Rightarrow> string \<Rightarrow> string \<Rightarrow> string \<Rightarrow> bytes reader" where
  "rd_str k m_len m_trunc m_utf8 =
     rbind (rd_uint k m_len) (\<lambda>n. rbind (rd_take n m_trunc) (\<lambda>s data off.
       and_then (from_utf8 s m_utf8) (\<lambda>s. Inr (s, off))))"

fun rd_many :: "nat \<Rightarrow> 'a reader \<Rightarrow> 'a list reader" where
  "rd_many 0 r = rret []"
| "rd_many (Suc n) r = rbind r (\<lambda>x. rbind (rd_many n r) (\<lambda>xs. rret (x # xs)))"

definition enc_str :: "nat \<Rightarrow> bytes \<Rightarrow> bytes" where
  "enc_str k s = le_enc k (length s) @ s"

text \<open>\<open>if off + n > data.len() { return Err(m) }\<close>, without a read.\<close>

definition rd_room :: "nat \<Rightarrow> string \<Rightarrow> unit reader" where
  "rd_room n m data off = (if off + n > length data then Inl (Err m) else Inr ((), off))"

section \<open>Reading back\<close>

definition reads :: "'a reader \<Rightarrow> bytes \<Rightarrow> 'a \<Rightarrow> bool" where
  "reads r w v \<longleftrightarrow>
     (\<forall>data off. holds_at data off w \<longrightarrow> r data off = Inr (v, off + length w))"

lemma readsD: "reads r w v \<Longrightarrow> holds_at data off w \<Longrightarrow> r data off = Inr (v, off + length w)"
  by (simp add: reads_def)

lemma reads_rret [codec]: "reads (rret v) [] v"
  by (simp add: reads_def rret_def)

lemma reads_rbind [codec]:
  "reads r w v \<Longrightarrow> reads (f v) w' v' \<Longrightarrow> reads (rbind r f) (w @ w') v'"
  by (auto simp: reads_def rbind_def holds_at_append_iff)

lemma reads_rbind_last:
  "reads r w v \<Longrightarrow> reads (f v) [] v' \<Longrightarrow> reads (rbind r f) w v'"
  using reads_rbind [of r w v f "[]" v'] by simp

lemma reads_rd_byte [codec]: "reads (rd_byte m) [b] b"
  by (simp add: reads_def rd_byte_def get_at_holds)

lemma reads_rd_uint [codec]: "x < 256 ^ n \<Longrightarrow> reads (rd_uint n m) (le_enc n x) x"
  by (simp add: reads_def rd_uint_def rd_le_holds)

lemma unat_u64_less: "unat (c :: u64) < 256 ^ 8"
  using unsigned_less [of c] by simp

lemma unat_u32_less: "unat (c :: u32) < 256 ^ 4"
  using unsigned_less [of c] by simp

lemma reads_rd_u64 [codec]: "reads (rd_u64 m) (le_enc 8 (unat c)) c"
  unfolding rd_u64_def
  by (rule reads_rbind_last, rule reads_rd_uint [OF unat_u64_less]) (use reads_rret in simp)

lemma reads_rd_f32 [codec]: "reads (rd_f32 m) (le_enc 4 (unat c)) c"
  unfolding rd_f32_def
  by (rule reads_rbind_last, rule reads_rd_uint [OF unat_u32_less]) (use reads_rret in simp)

lemma reads_rd_take [codec]: "reads (rd_take (length w) m) w w"
  by (auto simp: reads_def rd_take_def slice_at_holds dest: holds_at_len)

lemma reads_rd_str [codec]:
  assumes "utf8_valid s" "length s < 256 ^ k"
  shows "reads (rd_str k m1 m2 m3) (enc_str k s) s"
  unfolding rd_str_def enc_str_def
proof (rule reads_rbind [OF reads_rd_uint [OF assms(2)]], rule reads_rbind_last [OF reads_rd_take])
  show "reads (\<lambda>data off. and_then (from_utf8 s m3) (\<lambda>s. Inr (s, off))) [] s"
    using assms(1) by (simp add: reads_def)
qed

lemma reads_rd_many [codec]:
  "(\<And>x. x \<in> set xs \<Longrightarrow> reads r (enc x) x) \<Longrightarrow>
   reads (rd_many (length xs) r) (concat (map enc xs)) xs"
proof (induction xs)
  case Nil
  then show ?case by (simp add: reads_rret)
next
  case (Cons x xs)
  then have "reads r (enc x) x" "reads (rd_many (length xs) r) (concat (map enc xs)) xs"
    by simp_all
  then show ?case
    by (auto intro!: reads_rbind reads_rbind_last [OF _ reads_rret])
qed

lemma reads_after: "reads r w v \<Longrightarrow> length h = off \<Longrightarrow> r (h @ w) off = Inr (v, off + length w)"
  using readsD [of r w v "h @ w" off] holds_at_suffix [of h w] by simp

lemma reads_guard: "b \<Longrightarrow> reads r w v \<Longrightarrow> reads (if \<not> b then s else r) w v"
  by simp

section \<open>No panic\<close>

definition calm_reader :: "'a reader \<Rightarrow> bool" where
  "calm_reader r \<longleftrightarrow> (\<forall>data off. off \<le> length data \<longrightarrow>
     calm (r data off) \<and> (\<forall>v off'. r data off = Inr (v, off') \<longrightarrow> off \<le> off' \<and> off' \<le> length data))"

lemma calm_readerD: "calm_reader r \<Longrightarrow> off \<le> length data \<Longrightarrow> calm (r data off)"
  unfolding calm_reader_def by blast

lemma calm_reader_next:
  "calm_reader r \<Longrightarrow> off \<le> length data \<Longrightarrow> r data off = Inr (v, off') \<Longrightarrow>
   off \<le> off' \<and> off' \<le> length data"
  unfolding calm_reader_def by blast

lemma calm_rret [calm]: "calm_reader (rret v)"
  by (simp add: calm_reader_def rret_def)

lemma calm_rfail [calm]: "calm_reader (rfail m)"
  by (simp add: calm_reader_def rfail_def)

lemma calm_rbind [calm]:
  assumes "calm_reader r" "\<And>x. calm_reader (f x)"
  shows "calm_reader (rbind r f)"
  unfolding calm_reader_def rbind_def
proof (intro allI impI conjI)
  fix data :: bytes and off :: nat assume o: "off \<le> length data"
  show "calm (and_then (r data off) (\<lambda>(x, off'). f x data off'))"
    using calm_readerD [OF assms(1) o] calm_reader_next [OF assms(1) o] calm_readerD [OF assms(2)]
    by (auto intro!: calm_and_then)
next
  fix data :: bytes and off off' :: nat and v
  assume o: "off \<le> length data"
    and "and_then (r data off) (\<lambda>(x, off'). f x data off') = Inr (v, off')"
  then obtain x o2 where r: "r data off = Inr (x, o2)" and f: "f x data o2 = Inr (v, off')"
    by (auto simp: and_then_Inr_iff)
  note n = calm_reader_next [OF assms(1) o r]
  note n2 = calm_reader_next [OF assms(2) _ f]
  show "off \<le> off'" "off' \<le> length data" using n n2 by auto
qed

lemma calm_rd_byte [calm]: "calm_reader (rd_byte m)"
  by (auto simp: calm_reader_def rd_byte_def and_then_Inr_iff get_at_Some_iff intro!: calm_and_then)

lemma calm_rd_uint [calm]: "calm_reader (rd_uint n m)"
  by (auto simp: calm_reader_def rd_uint_def and_then_Inr_iff dest!: rd_le_Some intro!: calm_and_then)

lemma calm_rd_u64 [calm]: "calm_reader (rd_u64 m)"
  unfolding rd_u64_def by (intro calm)

lemma calm_rd_f32 [calm]: "calm_reader (rd_f32 m)"
  unfolding rd_f32_def by (intro calm)

lemma calm_rd_take [calm]: "calm_reader (rd_take n m)"
  by (auto simp: calm_reader_def rd_take_def slice_at_def)

lemma calm_utf8_tail [calm]:
  "calm_reader (\<lambda>data off. and_then (from_utf8 s m) (\<lambda>s. Inr (g s, off)))"
  by (auto simp: calm_reader_def and_then_Inr_iff intro!: calm_and_then)

lemma calm_rd_str [calm]: "calm_reader (rd_str k m1 m2 m3)"
  unfolding rd_str_def by (intro calm)

lemma calm_reader_prod [calm]:
  "(\<And>a b. calm_reader (f a b)) \<Longrightarrow> calm_reader (case p of (a, b) \<Rightarrow> f a b)"
  by (cases p) simp

lemma calm_rd_many [calm]: "calm_reader r \<Longrightarrow> calm_reader (rd_many n r)"
  by (induction n) (auto intro!: calm)

lemma calm_reader_if [calm]:
  "(b \<Longrightarrow> calm_reader r) \<Longrightarrow> (\<not> b \<Longrightarrow> calm_reader s) \<Longrightarrow> calm_reader (if b then r else s)"
  by simp

lemma calm_rd_room [calm]: "calm_reader (rd_room n m)"
  by (simp add: calm_reader_def rd_room_def)

lemma reads_rd_room:
  assumes "reads (f ()) w v" "n \<le> length w"
  shows "reads (rbind (rd_room n m) f) w v"
  unfolding reads_def
proof (intro allI impI)
  fix data off assume h: "holds_at data off w"
  then have "\<not> length data < off + n" using holds_at_len [OF h] assms(2) by simp
  then show "rbind (rd_room n m) f data off = Inr (v, off + length w)"
    using readsD [OF assms(1) h] by (simp add: rbind_def rd_room_def)
qed

section \<open>More input does not change what was read\<close>

named_theorems steady \<open>readers whose success does not depend on what follows\<close>

definition steady_reader :: "'a reader \<Rightarrow> bool" where
  "steady_reader r \<longleftrightarrow>
     (\<forall>data ext off v off'. r data off = Inr (v, off') \<longrightarrow> r (data @ ext) off = Inr (v, off'))"

lemma steady_readerD: "steady_reader r \<Longrightarrow> r data off = Inr (v, off') \<Longrightarrow> r (data @ ext) off = Inr (v, off')"
  unfolding steady_reader_def by blast

lemma steady_rret [steady]: "steady_reader (rret v)"
  by (simp add: steady_reader_def rret_def)

lemma steady_rfail [steady]: "steady_reader (rfail m)"
  by (simp add: steady_reader_def rfail_def)

lemma steady_rbind [steady]:
  "steady_reader r \<Longrightarrow> (\<And>x. steady_reader (f x)) \<Longrightarrow> steady_reader (rbind r f)"
  unfolding steady_reader_def rbind_def by (fastforce simp: and_then_Inr_iff)

lemma steady_rd_byte [steady]: "steady_reader (rd_byte m)"
  by (auto simp: steady_reader_def rd_byte_def and_then_Inr_iff get_at_Some_iff nth_append)

lemma steady_rd_uint [steady]: "steady_reader (rd_uint n m)"
  by (auto simp: steady_reader_def rd_uint_def and_then_Inr_iff intro!: rd_le_appendL)

lemma steady_rd_u64 [steady]: "steady_reader (rd_u64 m)"
  unfolding rd_u64_def by (intro steady)

lemma steady_rd_f32 [steady]: "steady_reader (rd_f32 m)"
  unfolding rd_f32_def by (intro steady)

lemma steady_rd_take [steady]: "steady_reader (rd_take n m)"
  by (auto simp: steady_reader_def rd_take_def slice_at_def split: if_splits)

lemma steady_rd_room [steady]: "steady_reader (rd_room n m)"
  by (auto simp: steady_reader_def rd_room_def split: if_splits)

lemma steady_utf8_tail [steady]:
  "steady_reader (\<lambda>data off. and_then (from_utf8 s m) (\<lambda>s. Inr (g s, off)))"
  by (simp add: steady_reader_def)

lemma steady_rd_str [steady]: "steady_reader (rd_str k m1 m2 m3)"
  unfolding rd_str_def by (intro steady)

lemma steady_rd_many [steady]: "steady_reader r \<Longrightarrow> steady_reader (rd_many n r)"
  by (induction n) (auto intro!: steady)

lemma steady_reader_if [steady]:
  "(b \<Longrightarrow> steady_reader r) \<Longrightarrow> (\<not> b \<Longrightarrow> steady_reader s) \<Longrightarrow> steady_reader (if b then r else s)"
  by simp

text \<open>
  A reader that reads back an encoding, is calm and is steady rejects every proper prefix of
  the encoding with an error.
\<close>

lemma proper_prefix_rejected:
  assumes "reads r w v" "calm_reader r" "steady_reader r" and off: "off = length pre"
    and p: "pre @ w = p @ q" "q \<noteq> []" "length pre \<le> length p"
  shows "\<exists>m. r p off = Inl (Err m)"
proof (cases "r p off")
  case (Inl e)
  then show ?thesis
    using calm_readerD [OF assms(2), of off p] p(3) off by (cases e) (auto simp: calm_def)
next
  case (Inr y)
  obtain u off' where y: "y = (u, off')" by (cases y)
  have "r (p @ q) off = Inr (u, off')" using steady_readerD [OF assms(3)] Inr y by blast
  moreover have "r (p @ q) off = Inr (v, off + length w)"
    using readsD [OF assms(1)] holds_at_suffix [of pre w] off p(1) by metis
  moreover have "off' \<le> length p"
    using calm_reader_next [OF assms(2), of off p u off'] Inr y p(3) off by simp
  moreover have "length p < off + length w"
    using arg_cong [OF p(1), of length] p(2) off by (cases q) auto
  ultimately show ?thesis by simp
qed

end
