(* ===== verification/Memory_Types.thy ===== *)
theory Memory_Types
  imports Wire
begin

unbundle bit_operations_syntax

text \<open>
  The plain data of \<open>src/src/memory_doc.rs\<close>: cognitive layers, logical states, relation kinds,
  multi-dimensional scopes and their filters, and the deterministic memory id.  Enums are
  read from external bytes and labels only by the parsers here, which reject anything else.
\<close>

section \<open>Enums\<close>

datatype memory_layer =
    L0Sensory | L1Working | L2EpisodicShort | L3EpisodicLong
  | L4Semantic | L5Procedural | L6Reserved | L7Identity

definition ALL_LAYERS :: "memory_layer list" where
  "ALL_LAYERS = [L0Sensory, L1Working, L2EpisodicShort, L3EpisodicLong,
                 L4Semantic, L5Procedural, L6Reserved, L7Identity]"

fun layer_u8 :: "memory_layer \<Rightarrow> u8" where
  "layer_u8 L0Sensory = 0"
| "layer_u8 L1Working = 1"
| "layer_u8 L2EpisodicShort = 2"
| "layer_u8 L3EpisodicLong = 3"
| "layer_u8 L4Semantic = 4"
| "layer_u8 L5Procedural = 5"
| "layer_u8 L6Reserved = 6"
| "layer_u8 L7Identity = 7"

definition layer_from_u8 :: "u8 \<Rightarrow> memory_layer option" where
  "layer_from_u8 v =
     (if v = 0 then Some L0Sensory else if v = 1 then Some L1Working
      else if v = 2 then Some L2EpisodicShort else if v = 3 then Some L3EpisodicLong
      else if v = 4 then Some L4Semantic else if v = 5 then Some L5Procedural
      else if v = 6 then Some L6Reserved else if v = 7 then Some L7Identity
      else None)"

fun layer_as_str :: "memory_layer \<Rightarrow> bytes" where
  "layer_as_str L0Sensory = ascii ''L0''"
| "layer_as_str L1Working = ascii ''L1''"
| "layer_as_str L2EpisodicShort = ascii ''L2''"
| "layer_as_str L3EpisodicLong = ascii ''L3''"
| "layer_as_str L4Semantic = ascii ''L4''"
| "layer_as_str L5Procedural = ascii ''L5''"
| "layer_as_str L6Reserved = ascii ''L6''"
| "layer_as_str L7Identity = ascii ''L7''"

fun long_name :: "memory_layer \<Rightarrow> bytes" where
  "long_name L0Sensory = ascii ''L0Sensory''"
| "long_name L1Working = ascii ''L1Working''"
| "long_name L2EpisodicShort = ascii ''L2EpisodicShort''"
| "long_name L3EpisodicLong = ascii ''L3EpisodicLong''"
| "long_name L4Semantic = ascii ''L4Semantic''"
| "long_name L5Procedural = ascii ''L5Procedural''"
| "long_name L6Reserved = ascii ''L6Reserved''"
| "long_name L7Identity = ascii ''L7Identity''"

definition layer_from_label :: "bytes \<Rightarrow> memory_layer option" where
  "layer_from_label s =
     (if length s = 2 \<and> s ! 0 = of_char CHR ''L'' then layer_from_u8 (s ! 1 - of_char CHR ''0'')
      else find (\<lambda>l. long_name l = s) ALL_LAYERS)"

datatype memory_state = Active | Superseded | Archived | Invalidated | Decayed

fun state_u8 :: "memory_state \<Rightarrow> u8" where
  "state_u8 Active = 0"
| "state_u8 Superseded = 1"
| "state_u8 Archived = 2"
| "state_u8 Invalidated = 3"
| "state_u8 Decayed = 4"

definition state_from_u8 :: "u8 \<Rightarrow> memory_state option" where
  "state_from_u8 v =
     (if v = 0 then Some Active else if v = 1 then Some Superseded
      else if v = 2 then Some Archived else if v = 3 then Some Invalidated
      else if v = 4 then Some Decayed else None)"

datatype relation_kind = RelatedTo | Causes | Supports | Contradicts | DerivedFrom | Supersedes

definition ALL_RELATIONS :: "relation_kind list" where
  "ALL_RELATIONS = [RelatedTo, Causes, Supports, Contradicts, DerivedFrom, Supersedes]"

fun relation_u8 :: "relation_kind \<Rightarrow> u8" where
  "relation_u8 RelatedTo = 0"
| "relation_u8 Causes = 1"
| "relation_u8 Supports = 2"
| "relation_u8 Contradicts = 3"
| "relation_u8 DerivedFrom = 4"
| "relation_u8 Supersedes = 5"

definition relation_from_u8 :: "u8 \<Rightarrow> relation_kind option" where
  "relation_from_u8 v =
     (if v = 0 then Some RelatedTo else if v = 1 then Some Causes
      else if v = 2 then Some Supports else if v = 3 then Some Contradicts
      else if v = 4 then Some DerivedFrom else if v = 5 then Some Supersedes else None)"

fun relation_as_str :: "relation_kind \<Rightarrow> bytes" where
  "relation_as_str RelatedTo = ascii ''related_to''"
| "relation_as_str Causes = ascii ''causes''"
| "relation_as_str Supports = ascii ''supports''"
| "relation_as_str Contradicts = ascii ''contradicts''"
| "relation_as_str DerivedFrom = ascii ''derived_from''"
| "relation_as_str Supersedes = ascii ''supersedes''"

definition relation_from_str :: "bytes \<Rightarrow> relation_kind option" where
  "relation_from_str s = find (\<lambda>k. relation_as_str k = s) ALL_RELATIONS"

text \<open>The bits of the \<open>f32\<close> literals \<open>1.0\<close>, \<open>0.8\<close>, \<open>0.4\<close>, \<open>0.2\<close>, \<open>0.0\<close>, \<open>0.5\<close>.\<close>

fun default_importance :: "memory_layer \<Rightarrow> u32" where
  "default_importance L4Semantic = 0x3F800000"
| "default_importance L7Identity = 0x3F800000"
| "default_importance L5Procedural = 0x3F4CCCCD"
| "default_importance L3EpisodicLong = 0x3ECCCCCD"
| "default_importance L2EpisodicShort = 0x3E4CCCCD"
| "default_importance L0Sensory = 0"
| "default_importance L1Working = 0"
| "default_importance L6Reserved = 0x3F000000"

definition carries_embedding :: "memory_layer \<Rightarrow> bool" where
  "carries_embedding l \<longleftrightarrow> l = L4Semantic \<or> l = L5Procedural"

lemma layer_from_u8_layer [simp]: "layer_from_u8 (layer_u8 l) = Some l"
  by (cases l) (simp_all add: layer_from_u8_def)

lemma layer_u8_from: "layer_from_u8 v = Some l \<Longrightarrow> layer_u8 l = v"
  by (auto simp: layer_from_u8_def split: if_splits)

lemma state_from_u8_state [simp]: "state_from_u8 (state_u8 s) = Some s"
  by (cases s) (simp_all add: state_from_u8_def)

lemma relation_from_u8_relation [simp]: "relation_from_u8 (relation_u8 k) = Some k"
  by (cases k) (simp_all add: relation_from_u8_def)

lemma relation_from_str_as_str [simp]: "relation_from_str (relation_as_str k) = Some k"
  by (cases k) (simp_all add: relation_from_str_def ALL_RELATIONS_def ascii_def)

section \<open>Scopes\<close>

record scope_dims =
  sd_user :: bytes
  sd_agent :: bytes
  sd_app :: bytes
  sd_run :: bytes

definition dims_new :: scope_dims where
  "dims_new = \<lparr>sd_user = [], sd_agent = [], sd_app = [], sd_run = []\<rparr>"

definition dims_is_global :: "scope_dims \<Rightarrow> bool" where
  "dims_is_global d \<longleftrightarrow> sd_user d = [] \<and> sd_agent d = [] \<and> sd_app d = [] \<and> sd_run d = []"

definition unwrap_or :: "'a option \<Rightarrow> 'a \<Rightarrow> 'a" where
  "unwrap_or x d = (case x of Some v \<Rightarrow> v | None \<Rightarrow> d)"

definition dims_from_args ::
  "bytes option \<Rightarrow> bytes option \<Rightarrow> bytes option \<Rightarrow> bytes option \<Rightarrow> scope_dims option" where
  "dims_from_args user agent app run =
     (let u = unwrap_or user []; a = unwrap_or agent []; ap = unwrap_or app []; r = unwrap_or run []
      in if u = [] \<and> a = [] \<and> ap = [] \<and> r = [] then None
         else Some \<lparr>sd_user = u, sd_agent = a, sd_app = ap, sd_run = r\<rparr>)"

definition dims_label :: "scope_dims \<Rightarrow> bytes" where
  "dims_label d = sd_user d @ ascii ''/'' @ sd_agent d @ ascii ''/'' @ sd_app d @ ascii ''/'' @ sd_run d"

fun join_with :: "bytes \<Rightarrow> bytes list \<Rightarrow> bytes" where
  "join_with sep [] = []"
| "join_with sep [x] = x"
| "join_with sep (x # xs) = x @ sep @ join_with sep xs"

definition dims_display :: "scope_dims \<Rightarrow> bytes" where
  "dims_display d =
     (let parts = (if sd_user d \<noteq> [] then [ascii ''user='' @ sd_user d] else [])
                @ (if sd_agent d \<noteq> [] then [ascii ''agent='' @ sd_agent d] else [])
                @ (if sd_app d \<noteq> [] then [ascii ''app='' @ sd_app d] else [])
                @ (if sd_run d \<noteq> [] then [ascii ''run='' @ sd_run d] else [])
      in if parts = [] then ascii ''global'' else join_with (ascii ''+'') parts)"

record scope_filter =
  sf_user :: "bytes option"
  sf_agent :: "bytes option"
  sf_app :: "bytes option"
  sf_run :: "bytes option"

definition filter_global :: scope_filter where
  "filter_global = \<lparr>sf_user = None, sf_agent = None, sf_app = None, sf_run = None\<rparr>"

definition filter_single :: "bytes \<Rightarrow> scope_filter" where
  "filter_single scope =
     (if scope = [] then filter_global
      else \<lparr>sf_user = Some scope, sf_agent = None, sf_app = None, sf_run = None\<rparr>)"

definition is_global_only :: "scope_filter \<Rightarrow> bool" where
  "is_global_only f \<longleftrightarrow> sf_user f = None \<and> sf_agent f = None \<and> sf_app f = None \<and> sf_run f = None"

definition dim_ok :: "bytes option \<Rightarrow> bytes \<Rightarrow> bool" where
  "dim_ok want have = (case want of Some w \<Rightarrow> have = w | None \<Rightarrow> True)"

definition dims_matches :: "scope_dims \<Rightarrow> scope_filter \<Rightarrow> bool" where
  "dims_matches d f \<longleftrightarrow>
     dim_ok (sf_user f) (sd_user d) \<and> dim_ok (sf_agent f) (sd_agent d) \<and>
     dim_ok (sf_app f) (sd_app d) \<and> dim_ok (sf_run f) (sd_run d)"

section \<open>Memory ids\<close>

definition FNV_OFFSET :: u64 where
  "FNV_OFFSET = 0xcbf29ce484222325"

definition FNV_PRIME :: u64 where
  "FNV_PRIME = 0x100000001b3"

definition fnv_step :: "u8 \<Rightarrow> u64 \<Rightarrow> u64" where
  "fnv_step b h = (h XOR ucast b) * FNV_PRIME"

definition hex_digit :: "nat \<Rightarrow> u8" where
  "hex_digit n = ascii ''0123456789abcdef'' ! n"

definition hex_byte :: "u8 \<Rightarrow> bytes" where
  "hex_byte b = [hex_digit (unat (drop_bit 4 b)), hex_digit (unat (b AND 0x0F))]"

definition generate_memory_id :: "u8 \<Rightarrow> u64 \<Rightarrow> memory_layer \<Rightarrow> bytes \<Rightarrow> bytes" where
  "generate_memory_id node_id created_tick layer key =
     (let mixed = [node_id] @ le_enc 8 (unat created_tick) @ [layer_u8 layer] @ key;
          h0 = fold fnv_step mixed FNV_OFFSET;
          h1 = fold fnv_step mixed (FNV_OFFSET XOR 0x9e3779b97f4a7c15)
      in concat (map hex_byte (le_enc 8 (unat h0) @ le_enc 8 (unat h1))))"

lemma hex_digit_ascii: "n < 16 \<Longrightarrow> hex_digit n < 0x80"
proof -
  assume "n < 16"
  then have "n \<in> set [0..<16]" by simp
  moreover have "\<forall>m \<in> set [0..<16]. hex_digit m < 0x80" by code_simp
  ultimately show ?thesis by blast
qed

lemma hex_byte_nibbles: "unat (drop_bit 4 (b :: u8)) < 16" "unat (b AND 0x0F) < 16"
proof -
  show "unat (drop_bit 4 b) < 16"
    by (simp add: drop_bit_eq_div unat_div less_mult_imp_div_less)
  have "b AND 0x0F \<le> 0x0F" by (rule word_and_le1)
  then show "unat (b AND 0x0F) < 16" by (simp add: word_le_nat_alt)
qed

lemma hex_byte_utf8: "utf8_valid (hex_byte b)"
  by (rule utf8_valid_ascii) (auto simp: hex_byte_def intro!: hex_digit_ascii hex_byte_nibbles)

lemma utf8_valid_concat: "(\<And>x. x \<in> set xs \<Longrightarrow> utf8_valid x) \<Longrightarrow> utf8_valid (concat xs)"
  by (induction xs) (auto intro: utf8_valid_append)

lemma memory_id_shape:
  "length (generate_memory_id node t l key) = 32 \<and> utf8_valid (generate_memory_id node t l key)"
  by (auto simp: generate_memory_id_def Let_def hex_byte_def length_concat_const [where w = 2]
      intro!: utf8_valid_concat utf8_valid_ascii hex_digit_ascii hex_byte_nibbles)

end
