(* ===== verification/Memory_Meta.thy ===== *)
theory Memory_Meta
  imports Memory_Types
begin

text \<open>
  \<open>MemoryMeta\<close> of \<open>src/src/memory_doc.rs\<close>: identity and provenance of a memory, kept in the side
  table \<open>sys/meta/\<close>, and its wire format MDM1 in versions 1 to 8.  The decoder is split at the
  version that introduced each field; a field the version does not have gets the documented
  default.
\<close>

section \<open>Data\<close>

record memory_meta =
  mm_memory_id :: bytes
  mm_version_id :: bytes
  mm_source :: u8
  mm_confidence :: u32
  mm_importance :: u32
  mm_created_tick :: u64
  mm_parent_ids :: "bytes list"
  mm_clock_overflow :: "(u8 \<times> u64) list"
  mm_last_reinforced :: u64
  mm_scope :: bytes
  mm_entities :: "bytes list"
  mm_content_type :: "bytes option"
  mm_scope_dims :: scope_dims
  mm_model_id :: bytes
  mm_authority :: u8

definition META_MAGIC :: bytes where
  "META_MAGIC = ascii ''MDM1''"

definition META_VERSION :: u8 where
  "META_VERSION = 8"

section \<open>Encoding\<close>

definition enc_over :: "u8 \<times> u64 \<Rightarrow> bytes" where
  "enc_over = (\<lambda>(n, c). [n] @ le_enc 8 (unat c))"

definition enc_content_type :: "bytes option \<Rightarrow> bytes" where
  "enc_content_type ct = (case ct of Some s \<Rightarrow> enc_str 2 s | None \<Rightarrow> le_enc 2 0)"

definition enc_dims :: "scope_dims \<Rightarrow> bytes" where
  "enc_dims d = enc_str 2 (sd_user d) @ enc_str 2 (sd_agent d) @ enc_str 2 (sd_app d) @ enc_str 2 (sd_run d)"

text \<open>The fields behind magic and version, up to the version that has them.\<close>

definition meta_body_v1 :: "memory_meta \<Rightarrow> bytes" where
  "meta_body_v1 m =
     enc_str 2 (mm_memory_id m) @ [mm_source m] @
     le_enc 4 (unat (mm_confidence m)) @ le_enc 4 (unat (mm_importance m)) @
     le_enc 8 (unat (mm_created_tick m)) @
     (le_enc 2 (length (mm_parent_ids m)) @ concat (map (enc_str 2) (mm_parent_ids m))) @
     (le_enc 2 (length (mm_clock_overflow m)) @ concat (map enc_over (mm_clock_overflow m)))"

definition meta_body_v8 :: "memory_meta \<Rightarrow> bytes" where
  "meta_body_v8 m =
     enc_str 2 (mm_version_id m) @
     le_enc 8 (unat (mm_last_reinforced m)) @
     enc_str 2 (mm_scope m) @
     (le_enc 2 (length (mm_entities m)) @ concat (map (enc_str 2) (mm_entities m))) @
     enc_content_type (mm_content_type m) @
     enc_dims (mm_scope_dims m) @
     enc_str 2 (mm_model_id m) @
     [mm_authority m]"

definition meta_encode :: "memory_meta \<Rightarrow> bytes" where
  "meta_encode m = META_MAGIC @ [META_VERSION] @ meta_body_v1 m @ meta_body_v8 m"

section \<open>Decoding\<close>

definition rd_strs :: "string \<Rightarrow> string \<Rightarrow> string \<Rightarrow> string \<Rightarrow> bytes list reader" where
  "rd_strs m_n m_len m_trunc m_utf8 =
     rbind (rd_uint 2 m_n) (\<lambda>n. rd_many n (rd_str 2 m_len m_trunc m_utf8))"

definition rd_over :: "(u8 \<times> u64) list reader" where
  "rd_over = rbind (rd_uint 2 ''trunc nover'') (\<lambda>n. rd_many n
     (rbind (rd_byte ''trunc over node'') (\<lambda>node.
      rbind (rd_u64 ''trunc over count'') (\<lambda>c. rret (node, c)))))"

definition rd_version_id :: "nat \<Rightarrow> bytes \<Rightarrow> bytes reader" where
  "rd_version_id ver memory_id =
     (if 2 \<le> ver then rd_str 2 ''trunc vidlen'' ''trunc vid'' ''utf8 vid'' else rret memory_id)"

definition rd_last_reinforced :: "nat \<Rightarrow> u64 reader" where
  "rd_last_reinforced ver = (if 3 \<le> ver then rd_u64 ''trunc last_reinforced'' else rret 0)"

definition rd_scope :: "nat \<Rightarrow> bytes reader" where
  "rd_scope ver = (if 4 \<le> ver then rd_str 2 ''trunc scopelen'' ''trunc scope'' ''utf8 scope'' else rret [])"

definition rd_entities :: "nat \<Rightarrow> bytes list reader" where
  "rd_entities ver =
     (if 5 \<le> ver then rd_strs ''trunc nentities'' ''trunc entlen'' ''trunc entity'' ''utf8 ent''
      else rret [])"

definition rd_content_type :: "nat \<Rightarrow> bytes option reader" where
  "rd_content_type ver =
     (if 6 \<le> ver then
        rbind (rd_uint 2 ''trunc ctlen'') (\<lambda>clen.
          if clen = 0 then rret None
          else rbind (rd_take clen ''trunc content_type'') (\<lambda>s data off.
            and_then (from_utf8 s ''utf8 ct'') (\<lambda>s. Inr (Some s, off))))
      else rret None)"

definition rd_dim :: "bytes reader" where
  "rd_dim = rd_str 2 ''trunc scopedimlen'' ''trunc scopedim'' ''utf8 scopedim''"

definition rd_dims_model :: "nat \<Rightarrow> (scope_dims \<times> bytes) reader" where
  "rd_dims_model ver =
     (if 7 \<le> ver then
        rbind rd_dim (\<lambda>u. rbind rd_dim (\<lambda>a. rbind rd_dim (\<lambda>ap. rbind rd_dim (\<lambda>r.
        rbind (rd_str 2 ''trunc modelidlen'' ''trunc modelid'' ''utf8 modelid'') (\<lambda>mid.
        rret (\<lparr>sd_user = u, sd_agent = a, sd_app = ap, sd_run = r\<rparr>, mid))))))
      else rret (dims_new, []))"

definition rd_authority :: "nat \<Rightarrow> u8 reader" where
  "rd_authority ver = (if 8 \<le> ver then rd_byte ''trunc authority'' else rret 0)"

text \<open>The legacy scope stands for the user dimension where no dimension is set.\<close>

definition legacy_dims :: "scope_dims \<Rightarrow> bytes \<Rightarrow> scope_dims" where
  "legacy_dims dims scope =
     (if dims_is_global dims \<and> scope \<noteq> []
      then \<lparr>sd_user = scope, sd_agent = [], sd_app = [], sd_run = []\<rparr> else dims)"

definition rd_meta_body :: "nat \<Rightarrow> memory_meta reader" where
  "rd_meta_body ver =
     rbind (rd_str 2 ''trunc idlen'' ''trunc id'' ''utf8 id'') (\<lambda>memory_id.
     rbind (rd_byte ''trunc source'') (\<lambda>source.
     rbind (rd_f32 ''trunc confidence'') (\<lambda>confidence.
     rbind (rd_f32 ''trunc importance'') (\<lambda>importance.
     rbind (rd_u64 ''trunc created'') (\<lambda>created_tick.
     rbind (rd_strs ''trunc nparents'' ''trunc plen'' ''trunc parent'' ''utf8 p'') (\<lambda>parent_ids.
     rbind rd_over (\<lambda>clock_overflow.
     rbind (rd_version_id ver memory_id) (\<lambda>version_id.
     rbind (rd_last_reinforced ver) (\<lambda>last_reinforced.
     rbind (rd_scope ver) (\<lambda>scope.
     rbind (rd_entities ver) (\<lambda>entities.
     rbind (rd_content_type ver) (\<lambda>content_type.
     rbind (rd_dims_model ver) (\<lambda>(scope_dims, model_id).
     rbind (rd_authority ver) (\<lambda>authority.
     rret \<lparr>mm_memory_id = memory_id, mm_version_id = version_id, mm_source = source,
           mm_confidence = confidence, mm_importance = importance,
           mm_created_tick = created_tick, mm_parent_ids = parent_ids,
           mm_clock_overflow = clock_overflow, mm_last_reinforced = last_reinforced,
           mm_scope = scope, mm_entities = entities, mm_content_type = content_type,
           mm_scope_dims = legacy_dims scope_dims scope, mm_model_id = model_id,
           mm_authority = authority\<rparr>))))))))))))))"

definition meta_decode :: "bytes \<Rightarrow> memory_meta result" where
  "meta_decode data =
     (if length data < 5 \<or> take 4 data \<noteq> META_MAGIC then Inl (Err ''bad meta magic'')
      else let ver = unat (data ! 4) in
        if \<not> (1 \<le> ver \<and> ver \<le> 8) then Inl (Err ''bad meta version'')
        else and_then (rd_meta_body ver data 5) (\<lambda>(m, off). Inr m))"

section \<open>Layouts of the eight versions\<close>

text \<open>
  The documented layouts: version 1, and for each later version the field it adds at the end.
  \<open>meta_upgrade\<close> is what a reader of today makes of a record that a given version wrote.
\<close>

definition meta_layout :: "nat \<Rightarrow> memory_meta \<Rightarrow> bytes" where
  "meta_layout ver m = meta_body_v1 m @
     (if 2 \<le> ver then enc_str 2 (mm_version_id m) else []) @
     (if 3 \<le> ver then le_enc 8 (unat (mm_last_reinforced m)) else []) @
     (if 4 \<le> ver then enc_str 2 (mm_scope m) else []) @
     (if 5 \<le> ver then le_enc 2 (length (mm_entities m)) @ concat (map (enc_str 2) (mm_entities m)) else []) @
     (if 6 \<le> ver then enc_content_type (mm_content_type m) else []) @
     (if 7 \<le> ver then enc_dims (mm_scope_dims m) @ enc_str 2 (mm_model_id m) else []) @
     (if 8 \<le> ver then [mm_authority m] else [])"

definition meta_upgrade :: "nat \<Rightarrow> memory_meta \<Rightarrow> memory_meta" where
  "meta_upgrade ver m = m\<lparr>
     mm_version_id := (if 2 \<le> ver then mm_version_id m else mm_memory_id m),
     mm_last_reinforced := (if 3 \<le> ver then mm_last_reinforced m else 0),
     mm_scope := (if 4 \<le> ver then mm_scope m else []),
     mm_entities := (if 5 \<le> ver then mm_entities m else []),
     mm_content_type := (if 6 \<le> ver \<and> mm_content_type m \<noteq> Some [] then mm_content_type m else None),
     mm_scope_dims := legacy_dims (if 7 \<le> ver then mm_scope_dims m else dims_new)
                                  (if 4 \<le> ver then mm_scope m else []),
     mm_model_id := (if 7 \<le> ver then mm_model_id m else []),
     mm_authority := (if 8 \<le> ver then mm_authority m else 0)\<rparr>"

text \<open>The strings and lists that the 16-bit length fields can carry.\<close>

definition wire_str :: "bytes \<Rightarrow> bool" where
  "wire_str s \<longleftrightarrow> utf8_valid s \<and> length s < 65536"

definition meta_fits :: "memory_meta \<Rightarrow> bool" where
  "meta_fits m \<longleftrightarrow>
     list_all wire_str ([mm_memory_id m, mm_version_id m, mm_scope m, mm_model_id m] @
       [sd_user (mm_scope_dims m), sd_agent (mm_scope_dims m), sd_app (mm_scope_dims m),
        sd_run (mm_scope_dims m)] @ mm_parent_ids m @ mm_entities m) \<and>
     (case mm_content_type m of Some s \<Rightarrow> wire_str s | None \<Rightarrow> True) \<and>
     length (mm_parent_ids m) < 65536 \<and> length (mm_clock_overflow m) < 65536 \<and>
     length (mm_entities m) < 65536"

lemma meta_encode_layout: "meta_encode m = META_MAGIC @ [META_VERSION] @ meta_layout 8 m"
  by (simp add: meta_encode_def meta_layout_def meta_body_v8_def)

lemma reads_wire_str [codec]: "wire_str s \<Longrightarrow> reads (rd_str 2 m1 m2 m3) (enc_str 2 s) s"
  by (simp add: wire_str_def reads_rd_str)

lemma reads_rd_strs [codec]:
  assumes "list_all wire_str xs" "length xs < 65536"
  shows "reads (rd_strs m1 m2 m3 m4) (le_enc 2 (length xs) @ concat (map (enc_str 2) xs)) xs"
  unfolding rd_strs_def
proof (rule reads_rbind)
  show "reads (rd_uint 2 m1) (le_enc 2 (length xs)) (length xs)"
    using assms(2) by (intro reads_rd_uint) simp
  show "reads (rd_many (length xs) (rd_str 2 m2 m3 m4)) (concat (map (enc_str 2) xs)) xs"
    using assms(1) by (intro reads_rd_many reads_wire_str) (simp add: list_all_iff)
qed

lemma reads_rd_over [codec]:
  assumes "length xs < 65536"
  shows "reads rd_over (le_enc 2 (length xs) @ concat (map enc_over xs)) xs"
  unfolding rd_over_def
proof (rule reads_rbind)
  show "reads (rd_uint 2 ''trunc nover'') (le_enc 2 (length xs)) (length xs)"
    using assms by (intro reads_rd_uint) simp
  have "reads (rbind (rd_byte ''trunc over node'') (\<lambda>node.
      rbind (rd_u64 ''trunc over count'') (\<lambda>c. rret (node, c)))) (enc_over x) x" for x
    by (cases x) (auto simp: enc_over_def intro!: reads_rbind [OF reads_rd_byte, of _ _ "le_enc 8 w" for w, simplified]
        reads_rbind_last [OF reads_rd_u64 reads_rret])
  then show "reads (rd_many (length xs) (rbind (rd_byte ''trunc over node'') (\<lambda>node.
      rbind (rd_u64 ''trunc over count'') (\<lambda>c. rret (node, c))))) (concat (map enc_over xs)) xs"
    by (rule reads_rd_many)
qed

lemma reads_rd_content_type [codec]:
  assumes "case ct of Some s \<Rightarrow> wire_str s | None \<Rightarrow> True" "6 \<le> ver"
  shows "reads (rd_content_type ver) (enc_content_type ct) (if ct = Some [] then None else ct)"
proof (cases "ct = None \<or> ct = Some []")
  case True
  then have "enc_content_type ct = le_enc 2 0" by (auto simp: enc_content_type_def enc_str_def)
  with True assms(2) show ?thesis
    by (auto simp: rd_content_type_def intro!: reads_rbind_last [OF reads_rd_uint] reads_rret)
next
  case False
  then obtain s where s: "ct = Some s" "s \<noteq> []" by auto
  have "reads (\<lambda>data off. and_then (from_utf8 s ''utf8 ct'') (\<lambda>s. Inr (Some s, off))) [] (Some s)"
    using assms(1) s(1) by (simp add: reads_def wire_str_def)
  then have "reads (rbind (rd_take (length s) ''trunc content_type'') (\<lambda>s data off.
        and_then (from_utf8 s ''utf8 ct'') (\<lambda>s. Inr (Some s, off)))) s (Some s)"
    by (rule reads_rbind_last [OF reads_rd_take])
  with s assms show ?thesis
    by (auto simp: rd_content_type_def enc_content_type_def enc_str_def wire_str_def
        intro!: reads_rbind reads_rd_uint)
qed

lemma reads_rd_dims_model [codec]:
  assumes "wire_str (sd_user d)" "wire_str (sd_agent d)" "wire_str (sd_app d)" "wire_str (sd_run d)"
    and "wire_str mid" and "7 \<le> ver"
  shows "reads (rd_dims_model ver) (enc_dims d @ enc_str 2 mid) (d, mid)"
proof -
  have "reads (rret (\<lparr>sd_user = sd_user d, sd_agent = sd_agent d, sd_app = sd_app d,
      sd_run = sd_run d\<rparr>, mid)) [] (d, mid)"
    by (cases d) (simp add: reads_rret)
  then have "reads (rd_dims_model ver)
      (enc_str 2 (sd_user d) @ enc_str 2 (sd_agent d) @ enc_str 2 (sd_app d) @ enc_str 2 (sd_run d) @
       enc_str 2 mid) (d, mid)"
    using assms unfolding rd_dims_model_def rd_dim_def
    by (simp only: if_True)
      (intro reads_rbind [OF reads_wire_str] reads_rbind_last [OF reads_wire_str])
  then show ?thesis by (simp add: enc_dims_def)
qed

lemma reads_versioned:
  "reads (rd_version_id ver (mm_memory_id m))
     (if 2 \<le> ver then enc_str 2 (mm_version_id m) else [])
     (if 2 \<le> ver then mm_version_id m else mm_memory_id m)"
  if "wire_str (mm_version_id m)"
  using that by (simp add: rd_version_id_def reads_rret reads_wire_str)

lemma reads_last_reinforced:
  "reads (rd_last_reinforced ver) (if 3 \<le> ver then le_enc 8 (unat c) else []) (if 3 \<le> ver then c else 0)"
  by (simp add: rd_last_reinforced_def reads_rret reads_rd_u64)

lemma reads_scope:
  "wire_str s \<Longrightarrow>
   reads (rd_scope ver) (if 4 \<le> ver then enc_str 2 s else []) (if 4 \<le> ver then s else [])"
  by (simp add: rd_scope_def reads_rret reads_wire_str)

lemma reads_entities:
  "list_all wire_str xs \<Longrightarrow> length xs < 65536 \<Longrightarrow>
   reads (rd_entities ver)
     (if 5 \<le> ver then le_enc 2 (length xs) @ concat (map (enc_str 2) xs) else [])
     (if 5 \<le> ver then xs else [])"
  by (simp add: rd_entities_def reads_rret reads_rd_strs)

lemma reads_content_type:
  "(case ct of Some s \<Rightarrow> wire_str s | None \<Rightarrow> True) \<Longrightarrow>
   reads (rd_content_type ver) (if 6 \<le> ver then enc_content_type ct else [])
     (if 6 \<le> ver \<and> ct \<noteq> Some [] then ct else None)"
  using reads_rd_content_type [of ct ver]
  by (cases "6 \<le> ver") (auto simp: rd_content_type_def reads_rret split: if_splits)

lemma reads_dims_model:
  "wire_str (sd_user d) \<Longrightarrow> wire_str (sd_agent d) \<Longrightarrow> wire_str (sd_app d) \<Longrightarrow> wire_str (sd_run d) \<Longrightarrow>
   wire_str mid \<Longrightarrow>
   reads (rd_dims_model ver) (if 7 \<le> ver then enc_dims d @ enc_str 2 mid else [])
     (if 7 \<le> ver then d else dims_new, if 7 \<le> ver then mid else [])"
  using reads_rd_dims_model [of d mid ver]
  by (cases "7 \<le> ver") (simp_all add: rd_dims_model_def reads_rret)

lemma reads_authority:
  "reads (rd_authority ver) (if 8 \<le> ver then [a] else []) (if 8 \<le> ver then a else 0)"
  by (simp add: rd_authority_def reads_rret reads_rd_byte)

lemma reads_meta_body:
  assumes "meta_fits m"
  shows "reads (rd_meta_body ver) (meta_layout ver m) (meta_upgrade ver m)"
proof -
  have f: "wire_str (mm_memory_id m)" "wire_str (mm_version_id m)" "wire_str (mm_scope m)"
    "wire_str (mm_model_id m)" "wire_str (sd_user (mm_scope_dims m))"
    "wire_str (sd_agent (mm_scope_dims m))" "wire_str (sd_app (mm_scope_dims m))"
    "wire_str (sd_run (mm_scope_dims m))" "list_all wire_str (mm_parent_ids m)"
    "list_all wire_str (mm_entities m)" "length (mm_parent_ids m) < 65536"
    "length (mm_clock_overflow m) < 65536" "length (mm_entities m) < 65536"
    "case mm_content_type m of Some s \<Rightarrow> wire_str s | None \<Rightarrow> True"
    using assms by (simp_all add: meta_fits_def)
  have layout: "meta_layout ver m =
     enc_str 2 (mm_memory_id m) @ [mm_source m] @
     le_enc 4 (unat (mm_confidence m)) @ le_enc 4 (unat (mm_importance m)) @
     le_enc 8 (unat (mm_created_tick m)) @
     (le_enc 2 (length (mm_parent_ids m)) @ concat (map (enc_str 2) (mm_parent_ids m))) @
     (le_enc 2 (length (mm_clock_overflow m)) @ concat (map enc_over (mm_clock_overflow m))) @
     (if 2 \<le> ver then enc_str 2 (mm_version_id m) else []) @
     (if 3 \<le> ver then le_enc 8 (unat (mm_last_reinforced m)) else []) @
     (if 4 \<le> ver then enc_str 2 (mm_scope m) else []) @
     (if 5 \<le> ver then le_enc 2 (length (mm_entities m)) @ concat (map (enc_str 2) (mm_entities m)) else []) @
     (if 6 \<le> ver then enc_content_type (mm_content_type m) else []) @
     (if 7 \<le> ver then enc_dims (mm_scope_dims m) @ enc_str 2 (mm_model_id m) else []) @
     (if 8 \<le> ver then [mm_authority m] else [])"
    by (simp add: meta_layout_def meta_body_v1_def)
  show ?thesis
    unfolding rd_meta_body_def layout
    by (intro reads_rbind [OF reads_wire_str] reads_rbind [OF reads_rd_byte]
        reads_rbind [OF reads_rd_f32] reads_rbind [OF reads_rd_u64] reads_rbind [OF reads_rd_strs]
        reads_rbind [OF reads_rd_over] reads_rbind [OF reads_versioned]
        reads_rbind [OF reads_last_reinforced] reads_rbind [OF reads_scope]
        reads_rbind [OF reads_entities] reads_rbind [OF reads_content_type]
        reads_rbind [OF reads_dims_model] f,
      simp only: prod.case, rule reads_rbind_last [OF reads_authority],
      cases m, simp add: meta_upgrade_def reads_rret)
qed

lemma meta_decode_layout:
  assumes "meta_fits m" "1 \<le> ver" "ver \<le> 8"
  shows "meta_decode (META_MAGIC @ [of_nat ver] @ meta_layout ver m @ rest) = Inr (meta_upgrade ver m)"
proof -
  let ?d = "META_MAGIC @ [of_nat ver] @ meta_layout ver m @ rest"
  have v: "unat (?d ! 4) = ver" using assms(2,3) by (simp add: META_MAGIC_def unat_of_nat nth_append)
  have "holds_at ?d 5 (meta_layout ver m)"
    by (rule holds_atI [where pre = "META_MAGIC @ [of_nat ver]"]) (simp_all add: META_MAGIC_def)
  then have "rd_meta_body ver ?d 5 = Inr (meta_upgrade ver m, 5 + length (meta_layout ver m))"
    using reads_meta_body [OF assms(1)] by (rule readsD [rotated])
  then show ?thesis
    using v assms(2,3) by (simp add: meta_decode_def META_MAGIC_def)
qed

lemma calm_rd_meta_body [calm]: "calm_reader (rd_meta_body ver)"
  unfolding rd_meta_body_def rd_strs_def rd_over_def rd_version_id_def rd_last_reinforced_def
    rd_scope_def rd_entities_def rd_content_type_def rd_dims_model_def rd_dim_def rd_authority_def
  by (intro calm)

lemma calm_meta_decode [calm]: "calm (meta_decode data)"
  by (auto simp: meta_decode_def Let_def intro!: calm_and_then calm_readerD [OF calm_rd_meta_body])

section \<open>Properties\<close>

text \<open>
  Every version of MDM1 decodes to the documented migration: a record that version \<open>ver\<close>
  wrote is read back with its fields as they were, the version id of version 1 is the memory
  id, a field the version does not have gets its default, and a legacy scope becomes the user
  dimension where no dimension is set.  What \<open>encode\<close> writes is the layout of version 8.
\<close>

theorem meta_versions_roundtrip:
  assumes "meta_fits m" "1 \<le> ver" "ver \<le> 8"
  shows "meta_decode (META_MAGIC @ [of_nat ver] @ meta_layout ver m) = Inr (meta_upgrade ver m) \<and>
    meta_decode (meta_encode m) = Inr (meta_upgrade 8 m)"
  using meta_decode_layout [OF assms, of "[]"] meta_decode_layout [OF assms(1), of 8 "[]"]
  by (simp add: meta_encode_layout META_VERSION_def)

definition sample_meta :: memory_meta where
  "sample_meta = \<lparr>mm_memory_id = ascii ''id'', mm_version_id = ascii ''v2'', mm_source = 1,
     mm_confidence = 0x3F800000, mm_importance = 0, mm_created_tick = 7,
     mm_parent_ids = [ascii ''v1''], mm_clock_overflow = [(9, 4)], mm_last_reinforced = 3,
     mm_scope = ascii ''ana'', mm_entities = [ascii ''cafe'', ascii ''Brasil''],
     mm_content_type = Some (ascii ''text''), mm_scope_dims = dims_new,
     mm_model_id = ascii ''demo-256'', mm_authority = 255\<rparr>"

lemma sample_meta_fits: "meta_fits sample_meta"
  by (simp add: meta_fits_def sample_meta_def wire_str_def dims_new_def ascii_def utf8_valid.simps)

theorem meta_versions_roundtrip_witness:
  "meta_decode (META_MAGIC @ [1] @ meta_layout 1 sample_meta) =
     Inr (meta_upgrade 1 sample_meta) \<and>
   mm_version_id (meta_upgrade 1 sample_meta) = ascii ''id'' \<and>
   sd_user (mm_scope_dims (meta_upgrade 8 sample_meta)) = ascii ''ana''"
proof -
  have "meta_decode (META_MAGIC @ [1] @ meta_layout 1 sample_meta) = Inr (meta_upgrade 1 sample_meta)"
    using meta_versions_roundtrip [OF sample_meta_fits, of 1] by simp
  moreover have "mm_version_id (meta_upgrade 1 sample_meta) = ascii ''id''"
    and "sd_user (mm_scope_dims (meta_upgrade 8 sample_meta)) = ascii ''ana''"
    by code_simp+
  ultimately show ?thesis by blast
qed

definition too_many_entities :: "bytes list" where
  "too_many_entities = replicate 65536 (ascii ''a'')"

text \<open>
  The counts are written as 16 bits without a check, so a list of 65536 entities is written
  with the count 0 and its first entries are read as the fields that follow: the entities are
  gone and the declared type, the scope dimensions, the model id and the authority are what
  the entity bytes happen to spell.
\<close>

theorem meta_entity_count_wraps:
  assumes "meta_fits (m\<lparr>mm_entities := []\<rparr>)" and "mm_entities m = too_many_entities"
  shows "meta_decode (meta_encode m) = Inr (m\<lparr>mm_entities := [],
    mm_content_type := Some (ascii ''a''),
    mm_scope_dims := \<lparr>sd_user = ascii ''a'', sd_agent = ascii ''a'', sd_app = ascii ''a'', sd_run = ascii ''a''\<rparr>,
    mm_model_id := ascii ''a'', mm_authority := 1\<rparr>)"
proof -
  let ?a = "ascii ''a''"
  let ?m = "m\<lparr>mm_entities := [], mm_content_type := Some ?a,
    mm_scope_dims := \<lparr>sd_user = ?a, sd_agent = ?a, sd_app = ?a, sd_run = ?a\<rparr>,
    mm_model_id := ?a, mm_authority := 1\<rparr>"
  have a: "wire_str ?a" by (simp add: wire_str_def ascii_def utf8_valid.simps)
  have fits: "meta_fits ?m" using assms(1) a by (simp add: meta_fits_def)
  define ea where "ea = enc_str 2 ?a"
  have ea: "ea = [1, 0] @ ?a" by (simp add: ea_def enc_str_def numeral_2_eq_2)
  obtain K where "concat (map (enc_str 2) (mm_entities m)) = ea @ ea @ ea @ ea @ ea @ ea @ ea @ K"
  proof
    have "(7::nat) + 65529 = 65536" by simp
    then have t: "too_many_entities = replicate 7 ?a @ replicate 65529 ?a"
      using replicate_add [of 7 65529 ?a] unfolding too_many_entities_def by (simp only:)
    have r: "replicate 7 ?a = [?a, ?a, ?a, ?a, ?a, ?a, ?a]" by (simp add: eval_nat_numeral)
    show "concat (map (enc_str 2) (mm_entities m)) =
        ea @ ea @ ea @ ea @ ea @ ea @ ea @ concat (map (enc_str 2) (replicate 65529 ?a))"
      unfolding assms(2) ea_def t r by (simp only: map_append list.map concat_append concat.simps append_assoc append_Cons append_Nil)
  qed
  note many = this
  have zero: "le_enc 2 (length (mm_entities m)) = le_enc 2 0"
    unfolding assms(2) too_many_entities_def length_replicate by (simp add: numeral_2_eq_2)
  have "meta_layout 8 m = meta_layout 8 ?m @ ([0] @ ?a @ K @ enc_content_type (mm_content_type m) @
      enc_dims (mm_scope_dims m) @ enc_str 2 (mm_model_id m) @ [mm_authority m])"
    by (simp add: meta_layout_def meta_body_v1_def many zero enc_content_type_def enc_dims_def
        flip: ea_def) (simp add: ea)
  then have "\<exists>rest. meta_layout 8 m = meta_layout 8 ?m @ rest" ..
  then obtain rest where "meta_layout 8 m = meta_layout 8 ?m @ rest" ..
  then have "meta_decode (meta_encode m) = Inr (meta_upgrade 8 ?m)"
    using meta_decode_layout [OF fits, of 8 rest] by (simp add: meta_encode_layout META_VERSION_def)
  moreover have "meta_upgrade 8 ?m = ?m"
    by (simp add: meta_upgrade_def legacy_dims_def dims_is_global_def ascii_def)
  ultimately show ?thesis by simp
qed

theorem meta_entity_count_wraps_witness:
  "map_sum id mm_authority (meta_decode (meta_encode
     (sample_meta\<lparr>mm_entities := too_many_entities\<rparr>))) = Inr 1"
proof -
  have "meta_fits ((sample_meta\<lparr>mm_entities := too_many_entities\<rparr>)\<lparr>mm_entities := []\<rparr>)"
    using sample_meta_fits by (simp add: meta_fits_def)
  from meta_entity_count_wraps [OF this] show ?thesis by simp
qed

end
