(* ===== verification/Memory_Doc.thy ===== *)
theory Memory_Doc
  imports Vector_Clock Memory_Meta
begin

text \<open>
  \<open>MemoryDoc\<close> (format NMD1), \<open>MemoryRecord\<close> (format MDR1) and the zero-copy
  \<open>MemoryDocView\<close> of \<open>src/src/memory_doc.rs\<close>, with their decoders' error messages.
\<close>

section \<open>Documents\<close>

record memory_doc =
  md_layer :: memory_layer
  md_key :: bytes
  md_clock :: vector_clock
  md_payload :: bytes
  md_bitvec :: "u64 list option"
  md_meta :: "memory_meta option"

definition MAGIC :: bytes where
  "MAGIC = ascii ''NMD1''"

definition MAX_KLEN :: nat where
  "MAX_KLEN = 4096"

definition MAX_VLEN :: nat where
  "MAX_VLEN = 1024 * 1024"

definition doc_new :: "memory_layer \<Rightarrow> bytes \<Rightarrow> bytes \<Rightarrow> memory_doc" where
  "doc_new layer key payload =
     \<lparr>md_layer = layer, md_key = key, md_clock = vc_new, md_payload = payload,
      md_bitvec = None, md_meta = None\<rparr>"

definition storage_key :: "memory_doc \<Rightarrow> bytes" where
  "storage_key d = ascii ''md/'' @ layer_as_str (md_layer d) @ ascii ''/'' @ md_key d"

definition patch_payload :: "memory_doc \<Rightarrow> bytes \<Rightarrow> u8 \<Rightarrow> memory_doc" where
  "patch_payload d new_payload node_id =
     d\<lparr>md_payload := new_payload, md_clock := vc_tick (md_clock d) node_id\<rparr>"

text \<open>\<open>{:016x}\<close> of a \<open>u64\<close>: sixteen hex digits, the high ones first.\<close>

definition hex16 :: "u64 \<Rightarrow> bytes" where
  "hex16 t = concat (map hex_byte (rev (le_enc 8 (unat t))))"

definition sortable_ts_key :: "u64 \<Rightarrow> bytes" where
  "sortable_ts_key tick = ascii ''ts/'' @ hex16 tick"

definition enc_bitvec :: "u64 list option \<Rightarrow> bytes" where
  "enc_bitvec b =
     (case b of Some bv \<Rightarrow> [1] @ le_enc 4 (length bv) @ concat (map (\<lambda>w. le_enc 8 (unat w)) bv)
      | None \<Rightarrow> [0])"

definition doc_encode :: "memory_doc \<Rightarrow> bytes" where
  "doc_encode d = MAGIC @ [layer_u8 (md_layer d)] @ enc_str 4 (md_key d) @
     vc_encode (md_clock d) @ enc_str 4 (md_payload d) @ enc_bitvec (md_bitvec d)"

definition try_encode :: "memory_doc \<Rightarrow> bytes result" where
  "try_encode d =
     (if length (md_key d) > MAX_KLEN then Inl (Err ''key exceeds MAX_KLEN'')
      else if length (md_payload d) > MAX_VLEN then Inl (Err ''payload exceeds MAX_VLEN'')
      else Inr (doc_encode d))"

definition rd_clock :: "vector_clock reader" where
  "rd_clock data off =
     and_then (slice_at data off (length data)) (\<lambda>rest.
     and_then (ok_or (vc_decode rest) ''trunc clock'') (\<lambda>(clock, n). Inr (clock, off + n)))"

definition rd_bitvec :: "u64 list option reader" where
  "rd_bitvec =
     rbind (rd_byte ''trunc bitflag'') (\<lambda>has_bv.
       if has_bv = 1 then
         rbind (rd_uint 4 ''trunc bvlen'') (\<lambda>n.
         rbind (rd_room (n * 8) ''trunc bv'') (\<lambda>_.
         rbind (rd_many n (rd_u64 ''trunc bv'')) (\<lambda>bv. rret (Some bv))))
       else rret None)"

definition rd_doc_body :: "memory_layer \<Rightarrow> memory_doc reader" where
  "rd_doc_body layer =
     rbind (rd_str 4 ''trunc keylen'' ''trunc key'' ''utf8'') (\<lambda>key.
     rbind rd_clock (\<lambda>clock.
     rbind (rd_uint 4 ''trunc plen'') (\<lambda>plen.
     rbind (rd_take plen ''trunc payload'') (\<lambda>payload.
     rbind rd_bitvec (\<lambda>bitvec.
     rret \<lparr>md_layer = layer, md_key = key, md_clock = clock, md_payload = payload,
           md_bitvec = bitvec, md_meta = None\<rparr>)))))"

definition doc_decode :: "bytes \<Rightarrow> memory_doc result" where
  "doc_decode data =
     (if length data < 5 \<or> take 4 data \<noteq> MAGIC then Inl (Err ''bad magic'')
      else and_then (ok_or (layer_from_u8 (data ! 4)) ''bad layer'') (\<lambda>layer.
           and_then (rd_doc_body layer data 5) (\<lambda>(d, off). Inr d)))"

section \<open>Records\<close>

record memory_record =
  mr_doc :: memory_doc
  mr_state :: memory_state
  mr_validity :: "(u64 \<times> u64) option"

definition REC_MAGIC :: bytes where
  "REC_MAGIC = ascii ''MDR1''"

definition enc_validity :: "(u64 \<times> u64) option \<Rightarrow> bytes" where
  "enc_validity v =
     (case v of Some (from, until) \<Rightarrow> [1] @ le_enc 8 (unat from) @ le_enc 8 (unat until)
      | None \<Rightarrow> [0])"

definition enc_meta :: "memory_meta option \<Rightarrow> bytes" where
  "enc_meta m = (case m of Some m \<Rightarrow> [1] @ enc_str 4 (meta_encode m) | None \<Rightarrow> [0])"

definition record_encode :: "memory_record \<Rightarrow> bytes" where
  "record_encode r = REC_MAGIC @ [state_u8 (mr_state r)] @ enc_validity (mr_validity r) @
     enc_meta (md_meta (mr_doc r)) @ doc_encode (mr_doc r)"

definition rd_validity :: "u8 \<Rightarrow> (u64 \<times> u64) option reader" where
  "rd_validity vflag =
     (if vflag = 0 then rret None
      else if vflag = 1 then
        rbind (rd_room 16 ''trunc validity'') (\<lambda>_.
        rbind (rd_u64 ''v'') (\<lambda>from. rbind (rd_u64 ''v'') (\<lambda>until. rret (Some (from, until)))))
      else rfail ''bad validity flag'')"

definition rd_meta_blob :: "memory_meta option reader" where
  "rd_meta_blob =
     rbind (rd_uint 4 ''trunc metalen'') (\<lambda>mlen.
     rbind (rd_take mlen ''trunc meta'') (\<lambda>blob data off.
       and_then (map_err (meta_decode blob) ''bad meta'') (\<lambda>m. Inr (Some m, off))))"

definition rd_meta_opt :: "memory_meta option reader" where
  "rd_meta_opt =
     rbind (rd_byte ''trunc metaflag'') (\<lambda>flag.
       if flag = 0 then rret None
       else if flag = 1 then rd_meta_blob
       else rfail ''bad meta flag'')"

definition rd_record_head :: "u8 \<Rightarrow> ((u64 \<times> u64) option \<times> memory_meta option) reader" where
  "rd_record_head vflag =
     rbind (rd_validity vflag) (\<lambda>validity. rbind rd_meta_opt (\<lambda>meta. rret (validity, meta)))"

definition record_decode :: "bytes \<Rightarrow> memory_record result" where
  "record_decode data =
     (if length data < 6 \<or> take 4 data \<noteq> REC_MAGIC then Inl (Err ''bad record magic'')
      else and_then (ok_or (state_from_u8 (data ! 4)) ''bad record state'') (\<lambda>state.
           and_then (rd_record_head (data ! 5) data 6) (\<lambda>((validity, meta), off).
           and_then (slice_at data off (length data)) (\<lambda>rest.
           and_then (map_err (doc_decode rest) ''trunc nmd1'') (\<lambda>doc.
           Inr \<lparr>mr_doc = doc\<lparr>md_meta := meta\<rparr>, mr_state = state, mr_validity = validity\<rparr>)))))"

section \<open>Views\<close>

record doc_view =
  vw_data :: bytes
  vw_layer :: memory_layer
  vw_key :: bytes
  vw_payload :: bytes
  vw_clock_off :: nat

definition rd_view :: "bytes \<Rightarrow> memory_layer \<Rightarrow> doc_view reader" where
  "rd_view whole layer =
     rbind (rd_str 4 ''trunc keylen'' ''trunc key'' ''utf8'') (\<lambda>key data clock_off.
       rbind (rd_take 72 ''trunc clock'') (\<lambda>_.
       rbind (rd_uint 4 ''trunc plen'') (\<lambda>plen.
       rbind (rd_take plen ''trunc payload'') (\<lambda>payload.
       rret \<lparr>vw_data = whole, vw_layer = layer, vw_key = key, vw_payload = payload,
             vw_clock_off = clock_off\<rparr>))) data clock_off)"

definition view_parse :: "bytes \<Rightarrow> doc_view result" where
  "view_parse data =
     (if length data < 5 \<or> take 4 data \<noteq> MAGIC then Inl (Err ''bad magic'')
      else and_then (ok_or (layer_from_u8 (data ! 4)) ''bad layer'') (\<lambda>layer.
           and_then (rd_view data layer data 5) (\<lambda>(v, off). Inr v)))"

definition clock_bytes :: "doc_view \<Rightarrow> bytes result" where
  "clock_bytes v = slice_at (vw_data v) (vw_clock_off v) (vw_clock_off v + 72)"

definition to_owned_doc :: "doc_view \<Rightarrow> memory_doc result" where
  "to_owned_doc v = doc_decode (vw_data v)"

section \<open>Documents read back\<close>

text \<open>What the 32-bit lengths of NMD1 can carry; the clock has its eight slots.\<close>

definition doc_fits :: "memory_doc \<Rightarrow> bool" where
  "doc_fits d \<longleftrightarrow> utf8_valid (md_key d) \<and> length (md_key d) < 2 ^ 32 \<and>
     length (vc_nodes (md_clock d)) = 8 \<and> length (vc_counts (md_clock d)) = 8 \<and>
     length (md_payload d) < 2 ^ 32 \<and>
     (case md_bitvec d of Some bv \<Rightarrow> length bv < 2 ^ 32 | None \<Rightarrow> True)"

text \<open>What NMD1 carries of a document: not the clock's overflow and not the meta.\<close>

definition nmd1_part :: "memory_doc \<Rightarrow> memory_doc" where
  "nmd1_part d = d\<lparr>md_clock := (md_clock d)\<lparr>vc_overflow := []\<rparr>, md_meta := None\<rparr>"

definition doc_body :: "memory_doc \<Rightarrow> bytes" where
  "doc_body d = enc_str 4 (md_key d) @ vc_encode (md_clock d) @
     le_enc 4 (length (md_payload d)) @ md_payload d @ enc_bitvec (md_bitvec d)"

lemma doc_encode_body: "doc_encode d = (MAGIC @ [layer_u8 (md_layer d)]) @ doc_body d"
  by (simp add: doc_encode_def doc_body_def enc_str_def)

lemma length_MAGIC [simp]: "length MAGIC = 4"
  by (simp add: MAGIC_def)

lemma length_REC_MAGIC [simp]: "length REC_MAGIC = 4"
  by (simp add: REC_MAGIC_def)

lemma reads_rd_clock [codec]:
  assumes "length (vc_nodes vc) = 8" "length (vc_counts vc) = 8"
  shows "reads rd_clock (vc_encode vc) (vc\<lparr>vc_overflow := []\<rparr>)"
  unfolding reads_def
proof (intro allI impI)
  fix data off assume "holds_at data off (vc_encode vc)"
  then obtain pre suf where d: "data = pre @ vc_encode vc @ suf" "length pre = off"
    by (auto simp: holds_at_def)
  then have "slice_at data off (length data) = Inr (vc_encode vc @ suf)"
    by (auto simp: slice_at_def)
  then show "rd_clock data off = Inr (vc\<lparr>vc_overflow := []\<rparr>, off + length (vc_encode vc))"
    using assms by (simp add: rd_clock_def vc_decode_encode length_vc_encode)
qed

lemma calm_rd_clock [calm]: "calm_reader rd_clock"
  unfolding calm_reader_def rd_clock_def
  by (auto simp: slice_at_def and_then_Inr_iff intro!: calm_and_then dest!: vc_decode_Some)

lemma vc_decode_append: "vc_decode xs = Some (vc, n) \<Longrightarrow> vc_decode (xs @ ys) = Some (vc, n)"
  by (auto simp: vc_decode_def split: if_splits)

lemma steady_rd_clock [steady]: "steady_reader rd_clock"
  unfolding steady_reader_def rd_clock_def
  by (auto simp: slice_at_def and_then_Inr_iff vc_decode_append split: if_splits)

lemma reads_rd_bitvec [codec]:
  assumes "case b of Some bv \<Rightarrow> length bv < 2 ^ 32 | None \<Rightarrow> True"
  shows "reads rd_bitvec (enc_bitvec b) b"
proof (cases b)
  case None
  have "reads rd_bitvec [0] None"
    unfolding rd_bitvec_def by (rule reads_rbind_last [OF reads_rd_byte]) (simp add: reads_rret)
  with None show ?thesis by (simp add: enc_bitvec_def)
next
  case (Some bv)
  let ?ws = "concat (map (\<lambda>w. le_enc 8 (unat w)) bv)"
  have "reads (rbind (rd_many (length bv) (rd_u64 ''trunc bv'')) (\<lambda>bv. rret (Some bv))) ?ws (Some bv)"
    by (rule reads_rbind_last [OF reads_rd_many reads_rret]) (rule reads_rd_u64)
  then have "reads (rbind (rd_room (length bv * 8) ''trunc bv'') (\<lambda>_.
      rbind (rd_many (length bv) (rd_u64 ''trunc bv'')) (\<lambda>bv. rret (Some bv)))) ?ws (Some bv)"
    by (rule reads_rd_room) (simp add: length_concat_const [where w = 8])
  then have "reads rd_bitvec ([1] @ le_enc 4 (length bv) @ ?ws) (Some bv)"
    unfolding rd_bitvec_def
    by (intro reads_rbind [OF reads_rd_byte])
      (use assms Some in \<open>auto intro!: reads_rbind [OF reads_rd_uint]\<close>)
  with Some show ?thesis by (simp add: enc_bitvec_def)
qed

lemma calm_rd_bitvec [calm]: "calm_reader rd_bitvec"
  unfolding rd_bitvec_def by (intro calm)

lemma steady_rd_bitvec [steady]: "steady_reader rd_bitvec"
  unfolding rd_bitvec_def by (intro steady)

lemma reads_doc_body:
  assumes "doc_fits d"
  shows "reads (rd_doc_body (md_layer d)) (doc_body d) (nmd1_part d)"
proof -
  have f: "utf8_valid (md_key d)" "length (md_key d) < 256 ^ 4"
    "length (vc_nodes (md_clock d)) = 8" "length (vc_counts (md_clock d)) = 8"
    "length (md_payload d) < 256 ^ 4"
    "case md_bitvec d of Some bv \<Rightarrow> length bv < 2 ^ 32 | None \<Rightarrow> True"
    using assms by (simp_all add: doc_fits_def)
  show ?thesis
    unfolding rd_doc_body_def doc_body_def
    by (intro reads_rbind [OF reads_rd_str] reads_rbind [OF reads_rd_clock]
        reads_rbind [OF reads_rd_uint] reads_rbind [OF reads_rd_take]
        reads_rbind_last [OF reads_rd_bitvec] f)
      (cases d, simp add: nmd1_part_def reads_rret)
qed

lemma calm_rd_doc_body [calm]: "calm_reader (rd_doc_body l)"
  unfolding rd_doc_body_def by (intro calm)

lemma steady_rd_doc_body [steady]: "steady_reader (rd_doc_body l)"
  unfolding rd_doc_body_def by (intro steady)

lemma calm_doc_decode [calm]: "calm (doc_decode data)"
  by (auto simp: doc_decode_def intro!: calm_and_then calm_readerD [OF calm_rd_doc_body])

lemma doc_decode_encode [codec]:
  assumes "doc_fits d"
  shows "doc_decode (doc_encode d @ rest) = Inr (nmd1_part d)"
proof -
  have "holds_at (doc_encode d @ rest) 5 (doc_body d)"
    unfolding doc_encode_body by (rule holds_atI [OF append_assoc]) simp
  then have "rd_doc_body (md_layer d) (doc_encode d @ rest) 5 = Inr (nmd1_part d, 5 + length (doc_body d))"
    by (rule readsD [OF reads_doc_body [OF assms]])
  then show ?thesis
    by (simp add: doc_decode_def doc_encode_body nth_append)
qed

section \<open>Records read back\<close>

definition record_fits :: "memory_record \<Rightarrow> bool" where
  "record_fits r \<longleftrightarrow> doc_fits (mr_doc r) \<and>
     (case md_meta (mr_doc r) of
        Some m \<Rightarrow> meta_fits m \<and> length (meta_encode m) < 2 ^ 32
      | None \<Rightarrow> True)"

lemma reads_rd_validity:
  "reads (rd_validity (case v of Some _ \<Rightarrow> 1 | None \<Rightarrow> 0))
     (case v of Some (from, until) \<Rightarrow> le_enc 8 (unat from) @ le_enc 8 (unat until) | None \<Rightarrow> []) v"
proof (cases v)
  case None
  then show ?thesis by (simp add: rd_validity_def reads_rret)
next
  case (Some p)
  then show ?thesis
    by (cases p) (auto simp: rd_validity_def
        intro!: reads_rd_room reads_rbind [OF reads_rd_u64] reads_rbind_last [OF reads_rd_u64] reads_rret)
qed

lemma reads_rd_meta_blob:
  assumes "meta_fits m" "length (meta_encode m) < 2 ^ 32"
  shows "reads rd_meta_blob (enc_str 4 (meta_encode m)) (Some (meta_upgrade 8 m))"
proof -
  have "meta_decode (meta_encode m) = Inr (meta_upgrade 8 m)"
    using meta_decode_layout [OF assms(1), of 8 "[]"] by (simp add: meta_encode_layout META_VERSION_def)
  then have "reads (\<lambda>data off. and_then (map_err (meta_decode (meta_encode m)) ''bad meta'')
      (\<lambda>m. Inr (Some m, off))) [] (Some (meta_upgrade 8 m))"
    by (simp add: reads_def)
  then show ?thesis
    unfolding rd_meta_blob_def enc_str_def
    by (intro reads_rbind [OF reads_rd_uint] reads_rbind_last [OF reads_rd_take])
      (use assms(2) in simp_all)
qed

lemma reads_rd_meta_opt:
  assumes "case m of Some m \<Rightarrow> meta_fits m \<and> length (meta_encode m) < 2 ^ 32 | None \<Rightarrow> True"
  shows "reads rd_meta_opt (enc_meta m) (map_option (meta_upgrade 8) m)"
proof (cases m)
  case None
  have "reads rd_meta_opt [0] None"
    unfolding rd_meta_opt_def by (rule reads_rbind_last [OF reads_rd_byte]) (simp add: reads_rret)
  with None show ?thesis by (simp add: enc_meta_def)
next
  case (Some m')
  then have "reads rd_meta_opt ([1] @ enc_str 4 (meta_encode m')) (Some (meta_upgrade 8 m'))"
    unfolding rd_meta_opt_def using assms
    by (intro reads_rbind [OF reads_rd_byte]) (simp add: reads_rd_meta_blob)
  with Some show ?thesis by (simp add: enc_meta_def)
qed

lemma calm_rd_meta_blob [calm]: "calm_reader rd_meta_blob"
  unfolding rd_meta_blob_def
proof (intro calm_rbind calm_rd_uint calm_rd_take)
  fix blob :: bytes
  show "calm_reader (\<lambda>data off. and_then (map_err (meta_decode blob) ''bad meta'') (\<lambda>m. Inr (Some m, off)))"
    by (auto simp: calm_reader_def and_then_Inr_iff intro!: calm_and_then calm_map_err calm_meta_decode)
qed

lemma calm_rd_record_head [calm]: "calm_reader (rd_record_head vflag)"
  unfolding rd_record_head_def rd_validity_def rd_meta_opt_def by (intro calm)

lemma calm_record_decode [calm]: "calm (record_decode data)"
  by (auto simp: record_decode_def split_beta
      intro!: calm_and_then calm_readerD [OF calm_rd_record_head] calm_map_err calm_doc_decode calm_slice_at
      dest!: calm_reader_next [OF calm_rd_record_head, rotated])

text \<open>What MDR1 carries of a record: NMD1's part of the document, and the meta as version 8.\<close>

definition mdr1_part :: "memory_record \<Rightarrow> memory_record" where
  "mdr1_part r = r\<lparr>mr_doc := (nmd1_part (mr_doc r))\<lparr>md_meta :=
     map_option (meta_upgrade 8) (md_meta (mr_doc r))\<rparr>\<rparr>"

lemma record_decode_encode [codec]:
  assumes "record_fits r"
  shows "record_decode (record_encode r) = Inr (mdr1_part r)"
proof -
  let ?vflag = "(case mr_validity r of Some _ \<Rightarrow> 1 | None \<Rightarrow> 0) :: u8"
  let ?vw = "case mr_validity r of Some (from, until) \<Rightarrow> le_enc 8 (unat from) @ le_enc 8 (unat until) | None \<Rightarrow> []"
  let ?m = "md_meta (mr_doc r)"
  have enc: "record_encode r = (REC_MAGIC @ [state_u8 (mr_state r), ?vflag]) @
      (?vw @ enc_meta ?m) @ doc_encode (mr_doc r)"
    by (auto simp: record_encode_def enc_validity_def split: option.split)
  have "reads (rd_record_head ?vflag) (?vw @ enc_meta ?m) (mr_validity r, map_option (meta_upgrade 8) ?m)"
    unfolding rd_record_head_def
    by (intro reads_rbind [OF reads_rd_validity] reads_rbind_last [OF reads_rd_meta_opt] reads_rret)
      (use assms in \<open>simp add: record_fits_def split: option.splits\<close>)
  moreover have "holds_at (record_encode r) 6 (?vw @ enc_meta ?m)"
    unfolding enc by (rule holds_atI [OF refl]) simp
  ultimately have head: "rd_record_head ?vflag (record_encode r) 6 =
      Inr ((mr_validity r, map_option (meta_upgrade 8) ?m), 6 + length (?vw @ enc_meta ?m))"
    by (rule readsD)
  have rest: "slice_at (record_encode r) (6 + length (?vw @ enc_meta ?m)) (length (record_encode r)) =
      Inr (doc_encode (mr_doc r))"
    by (simp add: enc slice_at_def)
  have doc: "doc_decode (doc_encode (mr_doc r)) = Inr (nmd1_part (mr_doc r))"
    using doc_decode_encode [of "mr_doc r" "[]"] assms by (simp add: record_fits_def)
  have flag: "record_encode r ! 4 = state_u8 (mr_state r)" "record_encode r ! 5 = ?vflag"
    "take 4 (record_encode r) = REC_MAGIC" "\<not> length (record_encode r) < 6"
    by (simp_all add: enc nth_append REC_MAGIC_def ascii_def)
  show ?thesis
    unfolding record_decode_def flag using head rest doc flag(4) by (simp add: mdr1_part_def)
qed

section \<open>Views agree with documents\<close>

lemma vc_decode_take: "vc_decode data = Some r \<Longrightarrow> vc_decode (take 72 data) = Some r"
  by (auto simp: vc_decode_def min_def drop_take split: if_splits)

lemma rd_clock_Inr:
  assumes "rd_clock data off = Inr (clock, off')"
  shows "off' = off + 72 \<and> off + 72 \<le> length data \<and>
    vc_decode (take 72 (drop off data)) = Some (clock, 72)"
  using assms vc_decode_take [of "drop off data"]
  by (auto simp: rd_clock_def and_then_Inr_iff slice_at_def split: if_splits dest: vc_decode_Some)

lemma rbind_InrE:
  assumes "rbind r f data off = Inr y"
  obtains x off' where "r data off = Inr (x, off')" "f x data off' = Inr y"
  using assms by (auto simp: rbind_def and_then_Inr_iff)

lemma view_of_decoded:
  assumes "doc_decode data = Inr d"
  shows "\<exists>v. view_parse data = Inr v \<and> vw_layer v = md_layer d \<and> vw_key v = md_key d \<and>
    vw_payload v = md_payload d \<and> to_owned_doc v = Inr d \<and>
    (\<exists>w. clock_bytes v = Inr w \<and> vc_decode w = Some (md_clock d, 72))"
proof -
  from assms obtain layer off where m: "\<not> (length data < 5 \<or> take 4 data \<noteq> MAGIC)"
    and l: "layer_from_u8 (data ! 4) = Some layer" and b: "rd_doc_body layer data 5 = Inr (d, off)"
    by (auto simp: doc_decode_def and_then_Inr_iff split: if_splits)
  from b obtain key o1 clock o2 plen o3 payload o4 bitvec o5 where
    k: "rd_str 4 ''trunc keylen'' ''trunc key'' ''utf8'' data 5 = Inr (key, o1)"
    and c: "rd_clock data o1 = Inr (clock, o2)"
    and p: "rd_uint 4 ''trunc plen'' data o2 = Inr (plen, o3)"
    and pl: "rd_take plen ''trunc payload'' data o3 = Inr (payload, o4)"
    and d: "d = \<lparr>md_layer = layer, md_key = key, md_clock = clock, md_payload = payload,
        md_bitvec = bitvec, md_meta = None\<rparr>"
    unfolding rd_doc_body_def by (elim rbind_InrE) (auto simp: rret_def)
  note c' = rd_clock_Inr [OF c]
  have t: "rd_take 72 ''trunc clock'' data o1 = Inr (take 72 (drop o1 data), o2)"
    using c' by (simp add: rd_take_def slice_at_def)
  let ?v = "\<lparr>vw_data = data, vw_layer = layer, vw_key = key, vw_payload = payload, vw_clock_off = o1\<rparr>"
  have "rd_view data layer data 5 = Inr (?v, o4)"
    unfolding rd_view_def by (simp add: rbind_def k t p pl rret_def)
  then have "view_parse data = Inr ?v" using m l by (simp add: view_parse_def)
  moreover have "clock_bytes ?v = Inr (take 72 (drop o1 data))"
    using c' by (simp add: clock_bytes_def slice_at_def)
  ultimately show ?thesis using assms c' d by (auto simp: to_owned_doc_def)
qed

section \<open>Time keys sort as their ticks\<close>

lemma less_div_mod:
  fixes x y k :: nat
  shows "x < y \<longleftrightarrow> x div k < y div k \<or> x div k = y div k \<and> x mod k < y mod k"
proof
  assume "x < y"
  then have "x div k \<le> y div k" by (simp add: div_le_mono)
  moreover have "x mod k < y mod k" if "x div k = y div k"
    using \<open>x < y\<close> that div_mult_mod_eq [of x k] div_mult_mod_eq [of y k]
    by (metis add_less_cancel_left)
  ultimately show "x div k < y div k \<or> x div k = y div k \<and> x mod k < y mod k" by auto
next
  assume "x div k < y div k \<or> x div k = y div k \<and> x mod k < y mod k"
  then show "x < y"
    using div_le_mono [of y x k] div_mult_mod_eq [of x k] div_mult_mod_eq [of y k]
    by (metis add_less_cancel_left not_less)
qed

lemma lex_append:
  fixes u :: "('a :: linorder) list"
  shows "length u = length v \<Longrightarrow> u @ r < v @ s \<longleftrightarrow> u < v \<or> u = v \<and> r < s"
  by (induction u v rule: list_induct2) auto

lemma le_enc_inj: "x < 256 ^ n \<Longrightarrow> y < 256 ^ n \<Longrightarrow> le_enc n x = le_enc n y \<longleftrightarrow> x = y"
  by (metis le_val_enc_small)

lemma le_enc_rev_less:
  "x < 256 ^ n \<Longrightarrow> y < 256 ^ n \<Longrightarrow> rev (le_enc n x) < rev (le_enc n y) \<longleftrightarrow> x < y"
proof (induction n arbitrary: x y)
  case 0
  then show ?case by simp
next
  case (Suc n)
  have d: "x div 256 < 256 ^ n" "y div 256 < 256 ^ n"
    using Suc.prems by (simp_all add: less_mult_imp_div_less)
  have "(of_nat (x mod 256) :: u8) < of_nat (y mod 256) \<longleftrightarrow> x mod 256 < y mod 256"
    by (simp add: word_less_nat_alt unat_of_nat)
  moreover have "x < y \<longleftrightarrow> x div 256 < y div 256 \<or> x div 256 = y div 256 \<and> x mod 256 < y mod 256"
    by (rule less_div_mod)
  ultimately show ?case
    using Suc.IH [OF d] le_enc_inj [OF d] by (simp add: lex_append)
qed

lemma hex_digit_less: "m < 16 \<Longrightarrow> n < 16 \<Longrightarrow> hex_digit m < hex_digit n \<longleftrightarrow> m < n"
proof -
  assume "m < 16" "n < 16"
  then have "m \<in> set [0..<16]" "n \<in> set [0..<16]" by simp_all
  moreover have "\<forall>m \<in> set [0..<16]. \<forall>n \<in> set [0..<16]. (hex_digit m < hex_digit n) = (m < n)"
    by code_simp
  ultimately show ?thesis by blast
qed

lemma hex_byte_less: "hex_byte a < hex_byte b \<longleftrightarrow> a < b"
proof -
  have nib: "unat (drop_bit 4 w) = unat w div 16" "unat (w AND 0x0F) = unat w mod 16" for w :: u8
  proof -
    show "unat (drop_bit 4 w) = unat w div 16" by (simp add: drop_bit_eq_div unat_div)
    have "w AND 0x0F = take_bit 4 w" by (simp add: take_bit_eq_mask mask_eq_exp_minus_1)
    then show "unat (w AND 0x0F) = unat w mod 16" by (simp add: unsigned_take_bit_eq take_bit_eq_mod unat_mod)
  qed
  have "unat a div 16 < 16" "unat b div 16 < 16" by (simp_all add: less_mult_imp_div_less)
  moreover from this have "hex_digit (unat a div 16) = hex_digit (unat b div 16) \<longleftrightarrow>
      unat a div 16 = unat b div 16"
    by (metis hex_digit_less not_less_iff_gr_or_eq)
  moreover have "unat a < unat b \<longleftrightarrow>
      unat a div 16 < unat b div 16 \<or> unat a div 16 = unat b div 16 \<and> unat a mod 16 < unat b mod 16"
    by (rule less_div_mod)
  ultimately show ?thesis
    by (simp add: hex_byte_def nib hex_digit_less word_less_nat_alt [of a b])
qed

lemma hex_concat_less:
  "length xs = length ys \<Longrightarrow> concat (map hex_byte xs) < concat (map hex_byte ys) \<longleftrightarrow> xs < ys"
proof (induction xs ys rule: list_induct2)
  case Nil
  then show ?case by simp
next
  case (Cons x xs y ys)
  have "length (hex_byte x) = length (hex_byte y)" by (simp add: hex_byte_def)
  moreover have "hex_byte x = hex_byte y \<longleftrightarrow> x = y"
    by (metis hex_byte_less not_less_iff_gr_or_eq)
  ultimately show ?case using Cons by (simp add: lex_append hex_byte_less)
qed

lemma hex16_less: "hex16 a < hex16 b \<longleftrightarrow> a < b"
  using le_enc_rev_less [OF unat_u64_less unat_u64_less, of a b]
  by (simp add: hex16_def hex_concat_less word_less_nat_alt)

lemma length_hex16 [simp]: "length (hex16 t) = 16"
  by (simp add: hex16_def hex_byte_def length_concat_const [where w = 2])

section \<open>Properties\<close>

text \<open>
  C38: NMD1 round trip: the encoding of a document whose key is UTF-8 and whose lengths fit in
  32 bits decodes to the document, less what NMD1 does not carry (the clock's overflow
  registry and the meta), whatever bytes follow it.
\<close>

theorem doc_roundtrip:
  assumes "doc_fits d"
  shows "doc_decode (doc_encode d @ rest) =
    Inr (d\<lparr>md_clock := (md_clock d)\<lparr>vc_overflow := []\<rparr>, md_meta := None\<rparr>)"
  using doc_decode_encode [OF assms] by (simp add: nmd1_part_def)

definition sample_doc :: memory_doc where
  "sample_doc = (doc_new L4Semantic (ascii ''turn:1'') [0, 0, 0x80, 0x3F])
     \<lparr>md_clock := vc_tick vc_new 1, md_bitvec := Some [5]\<rparr>"

lemma sample_doc_fits: "doc_fits sample_doc"
  by (simp add: sample_doc_def doc_fits_def doc_new_def ascii_def utf8_valid.simps vc_tick_def
      set_counter_def counter_of_def vc_new_def no_node_def Let_def position_None_iff
      split: option.splits)

theorem doc_roundtrip_witness:
  "doc_decode (doc_encode sample_doc @ [9]) = Inr sample_doc"
proof -
  have "sample_doc\<lparr>md_clock := (md_clock sample_doc)\<lparr>vc_overflow := []\<rparr>, md_meta := None\<rparr> = sample_doc"
    by code_simp
  with doc_roundtrip [OF sample_doc_fits, of "[9]"] show ?thesis by simp
qed

text \<open>
  No decoder of the crate's wire types panics, on any input: every slice and index of the
  NMD1, MDM1 and MDR1 decoders is in range, so a bad buffer is always an error value.
\<close>

theorem decoders_never_panic:
  "doc_decode data \<noteq> Inl Panic \<and> meta_decode data \<noteq> Inl Panic \<and> record_decode data \<noteq> Inl Panic"
  using calm_doc_decode calm_meta_decode calm_record_decode unfolding calm_def by blast

text \<open>
  A torn NMD1 buffer is never taken for a document: every proper prefix of an encoding is
  rejected with an error.
\<close>

theorem torn_doc_rejected:
  assumes "doc_fits d" and "n < length (doc_encode d)"
  shows "\<exists>m. doc_decode (take n (doc_encode d)) = Inl (Err m)"
proof (cases "n < 5")
  case True
  then show ?thesis by (auto simp: doc_decode_def)
next
  case False
  let ?pre = "MAGIC @ [layer_u8 (md_layer d)]" and ?p = "take n (doc_encode d)"
  have split: "?pre @ doc_body d = ?p @ drop n (doc_encode d)"
    unfolding append_take_drop_id using doc_encode_body [of d] by simp
  have "drop n (doc_encode d) \<noteq> []" "length ?pre \<le> length ?p" using False assms(2) by simp_all
  with split obtain m where "rd_doc_body (md_layer d) ?p 5 = Inl (Err m)"
    using proper_prefix_rejected [OF reads_doc_body [OF assms(1)] calm_rd_doc_body steady_rd_doc_body,
        of 5 ?pre ?p "drop n (doc_encode d)"] by auto
  moreover have "?p ! 4 = layer_u8 (md_layer d)" "take 4 ?p = MAGIC" "\<not> length ?p < 5"
    using False assms(2) by (auto simp: doc_encode_body nth_append min_def)
  ultimately show ?thesis by (simp add: doc_decode_def del: length_take take_take)
qed

theorem torn_doc_rejected_witness:
  "\<exists>m. doc_decode (take 50 (doc_encode sample_doc)) = Inl (Err m)"
proof -
  have "50 < length (doc_encode sample_doc)" by code_simp
  from torn_doc_rejected [OF sample_doc_fits this] show ?thesis .
qed

text \<open>
  MDR1 round trip: a record travels as one unit; state, validity window and meta come back
  with the document (the meta as a version 8 reader sees it).
\<close>

theorem record_roundtrip:
  assumes "record_fits r"
  shows "record_decode (record_encode r) = Inr (mdr1_part r)"
  using assms by (rule record_decode_encode)

definition sample_record :: memory_record where
  "sample_record = \<lparr>mr_doc = sample_doc, mr_state = Superseded, mr_validity = Some (3, 9)\<rparr>"

theorem record_roundtrip_witness:
  "record_decode (record_encode sample_record) = Inr sample_record"
proof -
  have "record_fits sample_record"
    using sample_doc_fits by (simp add: record_fits_def sample_record_def sample_doc_def doc_new_def)
  moreover have "mdr1_part sample_record = sample_record" by code_simp
  ultimately show ?thesis using record_roundtrip by simp
qed

text \<open>
  The zero-copy view agrees with the decoder: where \<open>decode\<close> accepts a buffer, \<open>parse\<close> does
  too, with the same layer, key and payload, a clock slice that decodes to the document's
  clock, and \<open>to_owned_doc\<close> gives the document.
\<close>

theorem view_agrees_with_decode:
  assumes "doc_decode data = Inr d"
  shows "\<exists>v. view_parse data = Inr v \<and> vw_layer v = md_layer d \<and> vw_key v = md_key d \<and>
    vw_payload v = md_payload d \<and> to_owned_doc v = Inr d \<and>
    (\<exists>w. clock_bytes v = Inr w \<and> vc_decode w = Some (md_clock d, 72))"
  using assms by (rule view_of_decoded)

theorem view_agrees_with_decode_witness:
  "\<exists>v. view_parse (doc_encode sample_doc) = Inr v \<and> vw_payload v = [0, 0, 0x80, 0x3F]"
proof -
  have "doc_decode (doc_encode sample_doc) = Inr (nmd1_part sample_doc)"
    using doc_decode_encode [OF sample_doc_fits, of "[]"] by simp
  from view_agrees_with_decode [OF this] show ?thesis
    by (auto simp: nmd1_part_def sample_doc_def doc_new_def)
qed

text \<open>
  Temporal keys sort as their ticks: \<open>ts/\<close> and sixteen hex digits compare byte by byte as
  the numbers do, so a prefix scan of the store lists facts in time order.
\<close>

theorem ts_keys_sort_by_tick:
  "(sortable_ts_key a < sortable_ts_key b \<longleftrightarrow> a < b) \<and> length (sortable_ts_key a) = 19"
  by (simp add: sortable_ts_key_def lex_append hex16_less)

end
