(* ===== verification/Btree.thy ===== *)
theory Btree
  imports Sgdb_Prelude
begin

text \<open>
  \<open>alloc::collections::BTreeMap\<close> as the crate uses it: a finite map that iterates in key
  order.  It is an association list with strictly increasing keys; two such lists with the
  same lookups are equal, so equations between maps of the model are equations of states.
\<close>

fun bt_insert :: "'k :: linorder \<Rightarrow> 'v \<Rightarrow> ('k \<times> 'v) list \<Rightarrow> ('k \<times> 'v) list" where
  "bt_insert k v [] = [(k, v)]"
| "bt_insert k v (e # m) =
     (if fst e < k then e # bt_insert k v m
      else if fst e = k then (k, v) # m
      else (k, v) # e # m)"

definition bt_remove :: "'k :: linorder \<Rightarrow> ('k \<times> 'v) list \<Rightarrow> ('k \<times> 'v) list" where
  "bt_remove k m = filter (\<lambda>e. fst e \<noteq> k) m"

abbreviation bt_get :: "('k \<times> 'v) list \<Rightarrow> 'k \<Rightarrow> 'v option" where
  "bt_get \<equiv> map_of"

definition bt_wf :: "('k :: linorder \<times> 'v) list \<Rightarrow> bool" where
  "bt_wf m \<longleftrightarrow> sorted_wrt (<) (map fst m)"

lemma bt_wf_Nil [simp]: "bt_wf []"
  by (simp add: bt_wf_def)

lemma bt_wf_Cons: "bt_wf (e # m) \<longleftrightarrow> (\<forall>e' \<in> set m. fst e < fst e') \<and> bt_wf m"
  by (simp add: bt_wf_def)

lemma set_bt_insert: "set (bt_insert k v m) \<subseteq> insert (k, v) (set m)"
  by (induction m) auto

lemma bt_wf_insert [simp, intro]: "bt_wf m \<Longrightarrow> bt_wf (bt_insert k v m)"
proof (induction m)
  case Nil
  then show ?case by (simp add: bt_wf_Cons)
next
  case (Cons e m)
  then show ?case using set_bt_insert [of k v m] by (auto simp: bt_wf_Cons)
qed

lemma bt_wf_filter [simp, intro]: "bt_wf m \<Longrightarrow> bt_wf (filter P m)"
  by (induction m) (auto simp: bt_wf_Cons)

lemma bt_wf_remove [simp, intro]: "bt_wf m \<Longrightarrow> bt_wf (bt_remove k m)"
  by (simp add: bt_remove_def)

lemma bt_wf_distinct: "bt_wf m \<Longrightarrow> distinct (map fst m)"
  by (induction m) (auto simp: bt_wf_Cons)

lemma bt_get_insert [simp]: "bt_wf m \<Longrightarrow> bt_get (bt_insert k v m) = (bt_get m)(k \<mapsto> v)"
proof (induction m)
  case Nil
  then show ?case by simp
next
  case (Cons e m)
  obtain a b where e: "e = (a, b)" by (cases e)
  show ?case
  proof (cases "a < k")
    case True
    with Cons e show ?thesis by (auto simp: bt_wf_Cons)
  next
    case False
    show ?thesis
    proof (cases "a = k")
      case True
      with e show ?thesis by auto
    next
      case ne: False
      with False Cons.prems e show ?thesis by auto
    qed
  qed
qed

lemma bt_get_remove [simp]: "bt_get (bt_remove k m) = (bt_get m)(k := None)"
  unfolding bt_remove_def by (induction m) (auto simp: fun_eq_iff)

lemma bt_get_filter_key: "bt_get (filter (\<lambda>e. P (fst e)) m) k = (if P k then bt_get m k else None)"
  by (induction m) auto

lemma bt_get_iff: "bt_wf m \<Longrightarrow> bt_get m k = Some v \<longleftrightarrow> (k, v) \<in> set m"
  by (simp add: bt_wf_distinct)

lemma bt_eqI:
  assumes "bt_wf m" "bt_wf m'" "bt_get m = bt_get m'"
  shows "m = m'"
proof -
  have s: "set m = set m'"
    using assms(3) bt_get_iff [OF assms(1)] bt_get_iff [OF assms(2)] by (auto simp: set_eq_iff)
  have "sorted (map fst m)" "sorted (map fst m')"
    using assms(1,2) by (auto simp: bt_wf_def intro: sorted_wrt_mono_rel [of _ "(<)" "(\<le>)"])
  moreover have "set (map fst m) = set (map fst m')" using s by simp
  ultimately have k: "map fst m = map fst m'"
    using bt_wf_distinct assms(1,2) by (intro sorted_distinct_set_unique)
  have "map (bt_get m) (map fst m) = map (bt_get m') (map fst m')"
    using k assms(3) by simp
  moreover have "map (bt_get m) (map fst m) = map (Some \<circ> snd) m"
    using bt_get_iff [OF assms(1)] by (auto simp: comp_def)
  moreover have "map (bt_get m') (map fst m') = map (Some \<circ> snd) m'"
    using bt_get_iff [OF assms(2)] by (auto simp: comp_def)
  ultimately have "map snd m = map snd m'"
    by (simp flip: map_map add: inj_map_eq_map)
  with k show ?thesis by (metis zip_map_fst_snd)
qed

lemma bt_insert_insert: "bt_wf m \<Longrightarrow> bt_insert k v (bt_insert k w m) = bt_insert k v m"
  by (intro bt_eqI) simp_all

lemma bt_insert_remove: "bt_wf m \<Longrightarrow> bt_insert k v (bt_remove k m) = bt_insert k v m"
  by (intro bt_eqI) simp_all

lemma bt_insert_last: "(\<And>e. e \<in> set m \<Longrightarrow> fst e < k) \<Longrightarrow> bt_insert k v m = m @ [(k, v)]"
  by (induction m) auto

lemma bt_wf_append: "bt_wf (m @ m') \<longleftrightarrow> bt_wf m \<and> bt_wf m' \<and> (\<forall>e \<in> set m. \<forall>e' \<in> set m'. fst e < fst e')"
  by (induction m) (auto simp: bt_wf_Cons)

text \<open>Inserting the entries of a map one after the other rebuilds it.\<close>

lemma bt_rebuild:
  "bt_wf (m0 @ m) \<Longrightarrow> fold (\<lambda>(k, v). bt_insert k v) m m0 = m0 @ m"
proof (induction m arbitrary: m0)
  case Nil
  then show ?case by simp
next
  case (Cons e m)
  obtain k v where e: "e = (k, v)" by (cases e)
  have "bt_insert k v m0 = m0 @ [e]"
    using Cons.prems e by (intro bt_insert_last [of m0 k v, unfolded e [symmetric]]) (auto simp: bt_wf_append)
  then show ?case using Cons.IH [of "m0 @ [e]"] Cons.prems e by simp
qed

end
