(* ===== verification/Storage.thy ===== *)
theory Storage
  imports Btree Memory_Doc
begin

text \<open>
  \<open>src/src/storage.rs\<close> without the file backend: errors and their stable codes, the
  \<open>Storage\<close> trait as a locale with its client lemmas, CRC-32, and the two RAM backends
  \<open>InMemory\<close> and \<open>SnapshotStorage\<close>.
\<close>

section \<open>Errors\<close>

datatype sgdb_error = SE_Storage string | SE_Corrupt | SE_Invalid string

datatype error_code = EC_Storage | EC_Corrupt | EC_KeyRejected | EC_NotFound

definition not_found_messages :: "string list" where
  "not_found_messages = [''no memory'', ''not found'', ''no doc'', ''no ckpt'']"

fun error_code_of :: "sgdb_error \<Rightarrow> error_code" where
  "error_code_of (SE_Storage _) = EC_Storage"
| "error_code_of SE_Corrupt = EC_Corrupt"
| "error_code_of (SE_Invalid m) =
     (if list_ex (\<lambda>p. sublist p m) not_found_messages then EC_NotFound else EC_KeyRejected)"

fun error_display :: "sgdb_error \<Rightarrow> string" where
  "error_display (SE_Storage m) = ''storage: '' @ m"
| "error_display SE_Corrupt = ''corrupt record''"
| "error_display (SE_Invalid m) = ''invalid: '' @ m"

fun error_code_display :: "error_code \<Rightarrow> string" where
  "error_code_display EC_Storage = ''storage''"
| "error_code_display EC_Corrupt = ''corrupt''"
| "error_code_display EC_KeyRejected = ''key_rejected''"
| "error_code_display EC_NotFound = ''not_found''"

datatype durability = Buffered | Flushed | Durable

section \<open>The trait\<close>

text \<open>
  An operation returns its \<open>Result\<close> and the state after it, since an \<open>Err\<close> does not undo
  what was done before it.  \<open>put_many\<close> is the trait's default: a loop that stops at the
  first error.
\<close>

type_synonym 's outcome = "(sgdb_error + unit) \<times> 's"

fun put_many :: "('s \<Rightarrow> bytes \<Rightarrow> bytes \<Rightarrow> 's outcome) \<Rightarrow> 's \<Rightarrow> (bytes \<times> bytes) list \<Rightarrow> 's outcome" where
  "put_many put s [] = (Inr (), s)"
| "put_many put s ((k, v) # items) =
     (case put s k v of
        (Inl e, s') \<Rightarrow> (Inl e, s')
      | (Inr _, s') \<Rightarrow> put_many put s' items)"

text \<open>
  The laws a client of the trait relies on: \<open>view\<close> is the map a backend stands for, \<open>fits\<close>
  the entries it takes, \<open>means v\<close> what it keeps of a stored value (a log backend keeps no
  entry for an empty one).
\<close>

locale kv_store =
  fixes inv :: "'s \<Rightarrow> bool"
    and view :: "'s \<Rightarrow> bytes \<Rightarrow> bytes option"
    and put :: "'s \<Rightarrow> bytes \<Rightarrow> bytes \<Rightarrow> 's outcome"
    and get :: "'s \<Rightarrow> bytes \<Rightarrow> bytes option"
    and scan :: "'s \<Rightarrow> bytes \<Rightarrow> (bytes \<times> bytes) list"
    and del :: "'s \<Rightarrow> bytes \<Rightarrow> 's outcome"
    and fits :: "bytes \<Rightarrow> bytes \<Rightarrow> bool"
    and means :: "bytes \<Rightarrow> bytes option"
  assumes get_view: "inv s \<Longrightarrow> fits k [] \<Longrightarrow> get s k = view s k"
    and put_ok: "inv s \<Longrightarrow> fits k v \<Longrightarrow>
      \<exists>s'. put s k v = (Inr (), s') \<and> inv s' \<and> view s' = (view s)(k := means v)"
    and del_ok: "inv s \<Longrightarrow> fits k [] \<Longrightarrow>
      \<exists>s'. del s k = (Inr (), s') \<and> inv s' \<and> view s' = (view s)(k := None)"
    and scan_sorted: "inv s \<Longrightarrow> sorted_wrt (<) (map fst (scan s p))"
    and scan_set: "inv s \<Longrightarrow> utf8_valid p \<Longrightarrow>
      set (scan s p) = {(k, v). view s k = Some v \<and> prefix p k}"
    and fits_key: "fits k v \<Longrightarrow> fits k []"
begin

lemma put_result:
  assumes "inv s" "fits k v"
  shows "fst (put s k v) = Inr ()" "inv (snd (put s k v))"
    "view (snd (put s k v)) = (view s)(k := means v)"
  using put_ok [OF assms] by auto

lemma del_result:
  assumes "inv s" "fits k []"
  shows "fst (del s k) = Inr ()" "inv (snd (del s k))" "view (snd (del s k)) = (view s)(k := None)"
  using del_ok [OF assms] by auto

lemma get_after_put:
  assumes "inv s" "fits k v" "fits k' w"
  shows "get (snd (put s k v)) k' = (if k' = k then means v else get s k')"
  using put_result [OF assms(1,2)] get_view fits_key [OF assms(3)] assms(1) by simp

lemma get_after_del:
  assumes "inv s" "fits k []" "fits k' w"
  shows "get (snd (del s k)) k' = (if k' = k then None else get s k')"
  using del_result [OF assms(1,2)] get_view fits_key [OF assms(3)] assms(1) by simp

lemma scan_distinct: "inv s \<Longrightarrow> distinct (map fst (scan s p))"
  using scan_sorted [of s p] by (simp add: strict_sorted_iff)

lemma scan_get:
  assumes "inv s" "utf8_valid p" "fits k []" "prefix p k"
  shows "map_of (scan s p) k = get s k"
proof -
  have "map_of (scan s p) k = Some v \<longleftrightarrow> view s k = Some v" for v
    using map_of_eq_Some_iff [OF scan_distinct [OF assms(1)], of p k v] scan_set [OF assms(1,2)] assms(4)
    by auto
  then have "map_of (scan s p) k = view s k" by (metis option.exhaust)
  then show ?thesis using get_view [OF assms(1,3)] by simp
qed

lemma put_many_result:
  "inv s \<Longrightarrow> (\<And>k v. (k, v) \<in> set items \<Longrightarrow> fits k v) \<Longrightarrow>
   \<exists>s'. put_many put s items = (Inr (), s') \<and> inv s' \<and>
     view s' = fold (\<lambda>(k, v) m. m(k := means v)) items (view s)"
proof (induction items arbitrary: s)
  case Nil
  then show ?case by simp
next
  case (Cons e items)
  obtain k v where e: "e = (k, v)" by (cases e)
  from put_ok [OF Cons.prems(1), of k v] Cons.prems(2) e
  obtain s1 where s1: "put s k v = (Inr (), s1)" "inv s1" "view s1 = (view s)(k := means v)" by auto
  have "\<And>k v. (k, v) \<in> set items \<Longrightarrow> fits k v" using Cons.prems(2) by simp
  from Cons.IH [OF s1(2) this] show ?case using e s1 by simp
qed

end

text \<open>A backend that refuses what does not fit, and leaves its state alone when it does.\<close>

locale bounded_store = kv_store +
  assumes put_bad: "inv s \<Longrightarrow> \<not> fits k v \<Longrightarrow> \<exists>e. put s k v = (Inl e, s)"
begin

lemma put_many_stops:
  assumes "inv s" "\<And>k v. (k, v) \<in> set items \<Longrightarrow> fits k v" "\<not> fits k v"
  shows "\<exists>e s'. put_many put s (items @ (k, v) # others) = (Inl e, s') \<and> inv s' \<and>
     view s' = fold (\<lambda>(k, v) m. m(k := means v)) items (view s)"
  using assms(1,2)
proof (induction items arbitrary: s)
  case Nil
  then show ?case using put_bad [OF Nil.prems(1) assms(3)] by auto
next
  case (Cons e items)
  obtain k1 v1 where e: "e = (k1, v1)" by (cases e)
  from put_ok [OF Cons.prems(1), of k1 v1] Cons.prems(2) e
  obtain s1 where s1: "put s k1 v1 = (Inr (), s1)" "inv s1" "view s1 = (view s)(k1 := means v1)" by auto
  have "\<And>k v. (k, v) \<in> set items \<Longrightarrow> fits k v" using Cons.prems(2) by simp
  from Cons.IH [OF s1(2) this] show ?case using e s1 by simp
qed

end

section \<open>RAM backends\<close>

type_synonym store = "(bytes \<times> bytes) list"

record in_memory =
  im_map :: store

definition in_memory_new :: in_memory where
  "in_memory_new = \<lparr>im_map = []\<rparr>"

definition in_memory_put :: "in_memory \<Rightarrow> bytes \<Rightarrow> bytes \<Rightarrow> in_memory outcome" where
  "in_memory_put s k v = (Inr (), s\<lparr>im_map := bt_insert k v (im_map s)\<rparr>)"

definition in_memory_get :: "in_memory \<Rightarrow> bytes \<Rightarrow> bytes option" where
  "in_memory_get s k = bt_get (im_map s) k"

definition in_memory_scan :: "in_memory \<Rightarrow> bytes \<Rightarrow> (bytes \<times> bytes) list" where
  "in_memory_scan s p = filter (\<lambda>(k, v). prefix p k) (im_map s)"

definition in_memory_delete :: "in_memory \<Rightarrow> bytes \<Rightarrow> in_memory outcome" where
  "in_memory_delete s k = (Inr (), s\<lparr>im_map := bt_remove k (im_map s)\<rparr>)"

definition in_memory_used_bytes :: "in_memory \<Rightarrow> nat option" where
  "in_memory_used_bytes s = Some (sum_list (map (\<lambda>(k, v). length v) (im_map s)))"

definition in_memory_durability :: durability where
  "in_memory_durability = Buffered"

record snapshot_storage =
  ss_map :: store

definition snapshot_new :: snapshot_storage where
  "snapshot_new = \<lparr>ss_map = []\<rparr>"

definition snapshot_put :: "snapshot_storage \<Rightarrow> bytes \<Rightarrow> bytes \<Rightarrow> snapshot_storage outcome" where
  "snapshot_put s k v = (Inr (), s\<lparr>ss_map := bt_insert k v (ss_map s)\<rparr>)"

definition snapshot_get :: "snapshot_storage \<Rightarrow> bytes \<Rightarrow> bytes option" where
  "snapshot_get s k = bt_get (ss_map s) k"

definition snapshot_scan :: "snapshot_storage \<Rightarrow> bytes \<Rightarrow> (bytes \<times> bytes) list" where
  "snapshot_scan s p = filter (\<lambda>(k, v). prefix p k) (ss_map s)"

definition snapshot_delete :: "snapshot_storage \<Rightarrow> bytes \<Rightarrow> snapshot_storage outcome" where
  "snapshot_delete s k = (Inr (), s\<lparr>ss_map := bt_remove k (ss_map s)\<rparr>)"

definition to_bytes :: "snapshot_storage \<Rightarrow> bytes" where
  "to_bytes s = le_enc 4 (length (ss_map s)) @
     concat (map (\<lambda>(k, v). enc_str 4 k @ enc_str 4 v) (ss_map s))"

text \<open>One length-prefixed item of the snapshot; every failure of \<open>from_bytes\<close> is \<open>Corrupt\<close>.\<close>

definition snap_item :: "nat \<Rightarrow> bytes reader" where
  "snap_item limit =
     rbind (rd_uint 4 ''corrupt'') (\<lambda>n.
       if n > limit then rfail ''corrupt'' else rd_take n ''corrupt'')"

fun snap_load :: "nat \<Rightarrow> store \<Rightarrow> store reader" where
  "snap_load 0 m = rret m"
| "snap_load (Suc n) m =
     rbind (snap_item MAX_KLEN) (\<lambda>k. rbind (snap_item MAX_VLEN) (\<lambda>v. snap_load n (bt_insert k v m)))"

definition snap_body :: "store reader" where
  "snap_body =
     rbind (rd_uint 4 ''corrupt'') (\<lambda>n. if n > 1000000 then rfail ''corrupt'' else snap_load n [])"

definition from_bytes :: "bytes \<Rightarrow> sgdb_error + snapshot_storage" where
  "from_bytes bs =
     (case snap_body bs 0 of
        Inl _ \<Rightarrow> Inl SE_Corrupt
      | Inr (m, off) \<Rightarrow> if off \<noteq> length bs then Inl SE_Corrupt else Inr \<lparr>ss_map = m\<rparr>)"

lemma scan_filter_set:
  "bt_wf m \<Longrightarrow> set (filter (\<lambda>(k, v). prefix p k) m) = {(k, v). bt_get m k = Some v \<and> prefix p k}"
  by (auto simp: bt_get_iff)

lemma scan_filter_sorted: "bt_wf m \<Longrightarrow> sorted_wrt (<) (map fst (filter P m))"
  using bt_wf_filter [of m P] by (simp add: bt_wf_def)

interpretation mem: kv_store "\<lambda>s. bt_wf (im_map s)" "\<lambda>s. bt_get (im_map s)"
  in_memory_put in_memory_get in_memory_scan in_memory_delete "\<lambda>_ _. True" Some
  by unfold_locales
    (auto simp: in_memory_put_def in_memory_get_def in_memory_scan_def in_memory_delete_def
      bt_get_iff scan_filter_sorted)

interpretation snap: kv_store "\<lambda>s. bt_wf (ss_map s)" "\<lambda>s. bt_get (ss_map s)"
  snapshot_put snapshot_get snapshot_scan snapshot_delete "\<lambda>_ _. True" Some
  by unfold_locales
    (auto simp: snapshot_put_def snapshot_get_def snapshot_scan_def snapshot_delete_def
      bt_get_iff scan_filter_sorted)

section \<open>Snapshots read back\<close>

definition snap_entry_ok :: "bytes \<times> bytes \<Rightarrow> bool" where
  "snap_entry_ok e \<longleftrightarrow> length (fst e) \<le> MAX_KLEN \<and> length (snd e) \<le> MAX_VLEN"

definition enc_entry :: "bytes \<times> bytes \<Rightarrow> bytes" where
  "enc_entry = (\<lambda>(k, v). enc_str 4 k @ enc_str 4 v)"

lemma limits_32: "MAX_KLEN < 256 ^ 4" "MAX_VLEN < 256 ^ 4"
  by (simp_all add: MAX_KLEN_def MAX_VLEN_def)

lemma snap_item_reads: "length x \<le> limit \<Longrightarrow> length x < 256 ^ 4 \<Longrightarrow> reads (snap_item limit) (enc_str 4 x) x"
  unfolding snap_item_def enc_str_def by (rule reads_rbind [OF reads_rd_uint]) (simp_all add: reads_rd_take)

lemma snap_item_too_long:
  assumes "holds_at data off (enc_str 4 x)" "limit < length x" "length x < 256 ^ 4"
  shows "snap_item limit data off = Inl (Err ''corrupt'')"
proof -
  have "holds_at data off (le_enc 4 (length x))"
    using assms(1) by (simp add: enc_str_def holds_at_append_iff)
  then have "rd_uint 4 ''corrupt'' data off = Inr (length x, off + 4)"
    using readsD [OF reads_rd_uint [OF assms(3)]] by fastforce
  with assms(2) show ?thesis by (simp add: snap_item_def rbind_def rfail_def)
qed

lemma snap_load_ok:
  "list_all snap_entry_ok es \<Longrightarrow>
   reads (snap_load (length es) m) (concat (map enc_entry es)) (fold (\<lambda>(k, v). bt_insert k v) es m)"
proof (induction es arbitrary: m)
  case Nil
  then show ?case by (simp add: reads_rret)
next
  case (Cons e es)
  obtain k v where e: "e = (k, v)" by (cases e)
  have "length k \<le> MAX_KLEN" "length v \<le> MAX_VLEN" using Cons.prems e by (simp_all add: snap_entry_ok_def)
  moreover have "length k < 256 ^ 4" "length v < 256 ^ 4"
    using calculation limits_32 by linarith+
  ultimately have "reads (snap_load (Suc (length es)) m) (enc_str 4 k @ enc_str 4 v @ concat (map enc_entry es))
      (fold (\<lambda>(k, v). bt_insert k v) es (bt_insert k v m))"
    unfolding snap_load.simps
    by (intro reads_rbind [OF snap_item_reads]) (use Cons in auto)
  then show ?case using e by (simp add: enc_entry_def)
qed

lemma snap_load_bad:
  assumes "holds_at data off (concat (map enc_entry es))"
    and "list_all (\<lambda>e. length (fst e) < 256 ^ 4 \<and> length (snd e) < 256 ^ 4) es"
    and "\<not> list_all snap_entry_ok es"
  shows "\<exists>e. snap_load (length es) m data off = Inl e"
  using assms
proof (induction es arbitrary: off m)
  case Nil
  then show ?case by simp
next
  case (Cons e es)
  obtain k v where e: "e = (k, v)" by (cases e)
  have h: "holds_at data off (enc_str 4 k)" "holds_at data (off + length (enc_str 4 k)) (enc_str 4 v)"
    "holds_at data (off + length (enc_str 4 k) + length (enc_str 4 v)) (concat (map enc_entry es))"
    using Cons.prems(1) e by (simp_all add: enc_entry_def holds_at_append_iff add.assoc)
  have small: "length k < 256 ^ 4" "length v < 256 ^ 4" using Cons.prems(2) e by simp_all
  show ?case
  proof (cases "length k \<le> MAX_KLEN")
    case False
    then have "snap_item MAX_KLEN data off = Inl (Err ''corrupt'')"
      using snap_item_too_long [OF h(1) _ small(1)] by simp
    then show ?thesis by (simp add: rbind_def)
  next
    case True
    then have k: "snap_item MAX_KLEN data off = Inr (k, off + length (enc_str 4 k))"
      using readsD [OF snap_item_reads [OF _ small(1)] h(1)] by simp
    show ?thesis
    proof (cases "length v \<le> MAX_VLEN")
      case False
      then have "snap_item MAX_VLEN data (off + length (enc_str 4 k)) = Inl (Err ''corrupt'')"
        using snap_item_too_long [OF h(2) _ small(2)] by simp
      with k show ?thesis by (simp add: rbind_def)
    next
      case v_ok: True
      then have v: "snap_item MAX_VLEN data (off + length (enc_str 4 k)) =
          Inr (v, off + length (enc_str 4 k) + length (enc_str 4 v))"
        using readsD [OF snap_item_reads [OF _ small(2)] h(2)] by simp
      have "snap_entry_ok e" using True v_ok e by (simp add: snap_entry_ok_def)
      then have "\<not> list_all snap_entry_ok es" using Cons.prems(3) by simp
      then have "\<exists>e. snap_load (length es) (bt_insert k v m) data
          (off + length (enc_str 4 k) + length (enc_str 4 v)) = Inl e"
        using Cons.IH [OF h(3)] Cons.prems(2) by simp
      with k v show ?thesis by (auto simp: rbind_def)
    qed
  qed
qed

lemma calm_snap_load [calm]: "calm_reader (snap_load n m)"
  by (induction n arbitrary: m) (auto simp: snap_item_def intro!: calm)

lemma calm_snap_body [calm]: "calm_reader snap_body"
  unfolding snap_body_def by (intro calm)

lemma to_bytes_entries: "to_bytes s = le_enc 4 (length (ss_map s)) @ concat (map enc_entry (ss_map s))"
  by (simp add: to_bytes_def enc_entry_def)

definition snapshot_small :: "snapshot_storage \<Rightarrow> bool" where
  "snapshot_small s \<longleftrightarrow> length (ss_map s) < 256 ^ 4 \<and>
     list_all (\<lambda>e. length (fst e) < 256 ^ 4 \<and> length (snd e) < 256 ^ 4) (ss_map s)"

lemma from_to_bytes:
  assumes wf: "bt_wf (ss_map s)" and small: "snapshot_small s"
  shows "from_bytes (to_bytes s) =
    (if length (ss_map s) \<le> 1000000 \<and> list_all snap_entry_ok (ss_map s)
     then Inr s else Inl SE_Corrupt)"
proof -
  let ?m = "ss_map s" and ?d = "to_bytes s"
  have h: "holds_at ?d 0 (le_enc 4 (length ?m))" "holds_at ?d 4 (concat (map enc_entry ?m))"
    using holds_at_self [of ?d] by (simp_all add: to_bytes_entries holds_at_append_iff)
  have n: "rd_uint 4 ''corrupt'' ?d 0 = Inr (length ?m, 4)"
    using readsD [OF reads_rd_uint h(1)] small by (simp add: snapshot_small_def)
  have len: "length ?d = 4 + length (concat (map enc_entry ?m))"
    by (simp add: to_bytes_entries)
  show ?thesis
  proof (cases "length ?m \<le> 1000000")
    case False
    then have "snap_body ?d 0 = Inl (Err ''corrupt'')" by (simp add: snap_body_def rbind_def n rfail_def)
    with False show ?thesis by (simp add: from_bytes_def)
  next
    case few: True
    then have body: "snap_body ?d 0 = snap_load (length ?m) [] ?d 4"
      by (simp add: snap_body_def rbind_def n)
    show ?thesis
    proof (cases "list_all snap_entry_ok ?m")
      case True
      then have "snap_load (length ?m) [] ?d 4 = Inr (?m, length ?d)"
        using readsD [OF snap_load_ok [OF True] h(2), of "[]"] bt_rebuild [of "[]" ?m] wf len by simp
      with few True body show ?thesis by (cases s) (simp add: from_bytes_def)
    next
      case False
      then obtain e where "snap_load (length ?m) [] ?d 4 = Inl e"
        using snap_load_bad [OF h(2) _ False] small by (auto simp: snapshot_small_def)
      with False body show ?thesis by (simp add: from_bytes_def)
    qed
  qed
qed

section \<open>Properties\<close>

text \<open>
  A snapshot that \<open>from_bytes\<close> can read back is read back to the same store; a store with
  an oversize key or value, or with more than a million entries, is written all the same and
  the whole snapshot is then refused as corrupt.
\<close>

theorem snapshot_reads_back:
  assumes "bt_wf (ss_map s)" "snapshot_small s"
  shows "from_bytes (to_bytes s) =
    (if length (ss_map s) \<le> 1000000 \<and> list_all snap_entry_ok (ss_map s)
     then Inr s else Inl SE_Corrupt)"
  by (rule from_to_bytes [OF assms])

lemma snapshot_reads_back_witness:
  "from_bytes (to_bytes \<lparr>ss_map = [([1], [2, 3]), ([4], [])]\<rparr>) =
    Inr \<lparr>ss_map = [([1], [2, 3]), ([4], [])]\<rparr>"
  using snapshot_reads_back [of "\<lparr>ss_map = [([1], [2, 3]), ([4], [])]\<rparr>"]
  by (simp add: bt_wf_def snapshot_small_def snap_entry_ok_def MAX_KLEN_def MAX_VLEN_def)

end
