(* ===== verification/Crc32.thy ===== *)
theory Crc32
  imports Sgdb_Prelude
begin

unbundle bit_operations_syntax

text \<open>
  CRC-32 of \<open>src/src/storage.rs\<close> (IEEE 802.3, reflected polynomial \<open>0xEDB88320\<close>): the table the
  code builds at compile time, the table-driven update, and the split form that checks key and
  value without joining them.  The reference is the definition bit by bit.
\<close>

section \<open>The code\<close>

text \<open>One round of the inner loop of \<open>crc32_table\<close>.\<close>

definition crc_round :: "u32 \<Rightarrow> u32" where
  "crc_round crc = (if crc AND 1 \<noteq> 0 then (drop_bit 1 crc) XOR 0xEDB88320 else drop_bit 1 crc)"

definition CRC32_TABLE :: "u32 list" where
  "CRC32_TABLE = map (\<lambda>i. (crc_round ^^ 8) (of_nat i)) [0..<256]"

definition crc32_update :: "u32 \<Rightarrow> bytes \<Rightarrow> u32" where
  "crc32_update crc data =
     fold (\<lambda>b crc. drop_bit 8 crc XOR CRC32_TABLE ! unat ((crc XOR ucast b) AND 0xFF)) data crc"

definition crc32 :: "bytes \<Rightarrow> u32" where
  "crc32 data = NOT (crc32_update 0xFFFFFFFF data)"

definition crc32_parts :: "bytes \<Rightarrow> bytes \<Rightarrow> u32" where
  "crc32_parts a b = NOT (crc32_update (crc32_update 0xFFFFFFFF a) b)"

section \<open>The reference\<close>

definition crc32_bitwise :: "bytes \<Rightarrow> u32" where
  "crc32_bitwise data = NOT (fold (\<lambda>b crc. (crc_round ^^ 8) (crc XOR ucast b)) data 0xFFFFFFFF)"

section \<open>The table is the reference\<close>

lemma odd_and_1: "(w :: u32) AND 1 \<noteq> 0 \<longleftrightarrow> bit w 0"
  by (simp add: and_one_eq bit_0 odd_iff_mod_2_eq_one)

lemma crc_round_alt: "crc_round w = drop_bit 1 w XOR (if bit w 0 then 0xEDB88320 else 0)"
  by (simp add: crc_round_def odd_and_1)

lemma crc_round_xor: "crc_round (a XOR b) = crc_round a XOR crc_round b"
proof (cases "bit a 0"; cases "bit b 0")
qed (simp_all add: crc_round_alt bit_xor_iff drop_bit_xor ac_simps)

lemma crc_rounds_xor: "(crc_round ^^ n) (a XOR b) = (crc_round ^^ n) a XOR (crc_round ^^ n) b"
  by (induction n) (simp_all add: crc_round_xor)

lemma crc_rounds_shift:
  "take_bit n w = 0 \<Longrightarrow> (crc_round ^^ n) w = drop_bit n w"
proof (induction n arbitrary: w)
  case 0
  then show ?case by simp
next
  case (Suc n)
  have b: "\<not> bit w 0"
    using Suc.prems by (metis bit_0_eq bit_take_bit_iff bot_apply bot_bool_def zero_less_Suc)
  then have r: "crc_round w = drop_bit 1 w" by (simp add: crc_round_alt)
  have "take_bit n (drop_bit 1 w) = 0"
    using Suc.prems by (simp add: take_bit_drop_bit)
  then have "(crc_round ^^ n) (crc_round w) = drop_bit n (drop_bit 1 w)"
    using Suc.IH r by simp
  then show ?case by (simp add: funpow_swap1 drop_bit_drop_bit)
qed

lemma crc_table_step:
  "drop_bit 8 crc XOR CRC32_TABLE ! unat (crc AND 0xFF) = (crc_round ^^ 8) (crc :: u32)"
proof -
  have low: "crc AND 0xFF = take_bit 8 crc"
    by (simp add: take_bit_eq_mask mask_eq_exp_minus_1)
  have "unat (take_bit 8 crc) < 256"
    by (simp add: unsigned_take_bit_eq take_bit_eq_mod unat_mod)
  then have t: "CRC32_TABLE ! unat (crc AND 0xFF) = (crc_round ^^ 8) (take_bit 8 crc)"
    by (simp add: CRC32_TABLE_def low)
  let ?high = "push_bit 8 (drop_bit 8 crc)"
  have split: "crc = ?high XOR take_bit 8 crc"
    by (rule bit_eqI) (auto simp: bit_simps)
  have "take_bit 8 ?high = 0" by (rule bit_eqI) (auto simp: bit_simps)
  then have "(crc_round ^^ 8) ?high = drop_bit 8 ?high" by (rule crc_rounds_shift)
  also have "\<dots> = drop_bit 8 crc"
    by (rule bit_eqI) (auto simp: bit_simps dest: bit_imp_le_length)
  finally have "(crc_round ^^ 8) (?high XOR take_bit 8 crc) =
      drop_bit 8 crc XOR (crc_round ^^ 8) (take_bit 8 crc)"
    by (simp add: crc_rounds_xor)
  then show ?thesis using t split by metis
qed

lemma crc32_update_append: "crc32_update crc (a @ b) = crc32_update (crc32_update crc a) b"
  by (simp add: crc32_update_def)

lemma crc32_parts_append [simp]: "crc32_parts a b = crc32 (a @ b)"
  by (simp add: crc32_parts_def crc32_def crc32_update_append)

lemma high_ucast_byte: "drop_bit 8 (crc XOR ucast (b :: u8)) = drop_bit 8 (crc :: u32)"
  by (rule bit_eqI) (auto simp: bit_simps dest: bit_imp_le_length)

section \<open>Properties\<close>

text \<open>
  The table-driven CRC-32 computes the bit-by-bit definition, and the split form is the CRC
  of the concatenation.
\<close>

theorem crc32_is_bitwise:
  "crc32 data = crc32_bitwise data \<and> crc32_parts a b = crc32 (a @ b)"
proof -
  have "drop_bit 8 crc XOR CRC32_TABLE ! unat ((crc XOR ucast b) AND 0xFF) =
      (crc_round ^^ 8) (crc XOR ucast b)" for crc :: u32 and b :: u8
    using crc_table_step [of "crc XOR ucast b"] unfolding high_ucast_byte .
  then show ?thesis by (simp add: crc32_def crc32_update_def crc32_bitwise_def)
qed

end
