(* ===== verification/File_Storage.thy ===== *)
theory File_Storage
  imports Storage Crc32
begin

text \<open>
  \<open>FileStorage\<close> of \<open>src/src/storage.rs\<close>: an append log of CRC-checked records, its recovery at
  \<open>open\<close>, \<open>put\<close>, \<open>delete\<close>, \<open>put_batch\<close> and \<open>compact\<close>.  The file is the byte list
  \<open>fs_disk\<close>; what the operating system may do to a write is a parameter of the operation.
\<close>

section \<open>State and log records\<close>

record file_storage =
  fs_disk :: bytes
  fs_map :: store
  fs_file :: bool

definition TOMBSTONE :: nat where
  "TOMBSTONE = 2 ^ 32 - 1"

definition log_record :: "bytes \<Rightarrow> bytes \<Rightarrow> bytes" where
  "log_record key val =
     le_enc 4 (length key) @ le_enc 4 (if val = [] then TOMBSTONE else length val) @
     le_enc 4 (unat (crc32_parts key val)) @ key @ val"

text \<open>\<open>le32(&data[off..off + 4])\<close> where the four bytes are there.\<close>

definition le32_at :: "bytes \<Rightarrow> nat \<Rightarrow> nat" where
  "le32_at data off = le_val (take 4 (drop off data))"

section \<open>Recovery\<close>

text \<open>
  The loop of \<open>open\<close>: from \<open>off\<close> with the map so far and the end of the last valid record, to
  the recovered map and the length the file is cut to.
\<close>

function recover :: "bytes \<Rightarrow> nat \<Rightarrow> store \<Rightarrow> nat \<Rightarrow> store \<times> nat" where
  "recover data off m valid_end =
     (if off + 12 \<le> length data then
        let klen = le32_at data off; vlen = le32_at data (off + 4);
            crc = (of_nat (le32_at data (off + 8)) :: u32)
        in if klen > MAX_KLEN then (m, valid_end)
           else if vlen = TOMBSTONE then
             if off + 12 + klen > length data then (m, valid_end)
             else let tomb_key = take klen (drop (off + 12) data) in
               if crc32 tomb_key \<noteq> crc then (m, valid_end)
               else recover data (off + 12 + klen) (bt_remove tomb_key m) (off + 12 + klen)
           else if vlen > MAX_VLEN then (m, valid_end)
           else let stop = off + 12 + klen + vlen in
             if stop > length data then (m, valid_end)
             else let key = take klen (drop (off + 12) data);
                      val = take vlen (drop (off + 12 + klen) data) in
               if crc32_parts key val \<noteq> crc then (m, valid_end)
               else recover data stop (bt_insert key val m) stop
      else (m, valid_end))"
  by pat_completeness auto
termination
  by (relation "measure (\<lambda>(data, off, m, valid_end). length data - off)") auto

declare recover.simps [simp del]

definition fs_open :: "bytes \<Rightarrow> file_storage" where
  "fs_open data =
     (let (m, valid_end) = recover data 0 [] 0
      in \<lparr>fs_disk = (if valid_end < length data then take valid_end data else data),
          fs_map = m, fs_file = False\<rparr>)"

section \<open>Operations\<close>

text \<open>
  What happens to an append: it succeeds, the file does not open (only when the lazy handle is
  not there yet), the write stops after some bytes, or the flush fails.
\<close>

datatype append_io = Append_ok | Open_fails | Write_stops nat | Flush_fails

definition append_bytes :: "append_io \<Rightarrow> file_storage \<Rightarrow> bytes \<Rightarrow> file_storage outcome" where
  "append_bytes io s buf =
     (if \<not> fs_file s \<and> io = Open_fails then (Inl (SE_Storage ''open append''), s)
      else let s = s\<lparr>fs_file := True\<rparr> in
        (case io of
           Write_stops n \<Rightarrow> (Inl (SE_Storage ''write''), s\<lparr>fs_disk := fs_disk s @ take n buf\<rparr>)
         | Flush_fails \<Rightarrow> (Inl (SE_Storage ''flush''), s\<lparr>fs_disk := fs_disk s @ buf\<rparr>)
         | _ \<Rightarrow> (Inr (), s\<lparr>fs_disk := fs_disk s @ buf\<rparr>)))"

definition fs_append :: "append_io \<Rightarrow> file_storage \<Rightarrow> bytes \<Rightarrow> bytes \<Rightarrow> file_storage outcome" where
  "fs_append io s key val =
     (if length key > MAX_KLEN \<or> length val > MAX_VLEN then (Inl (SE_Storage ''limits''), s)
      else append_bytes io s (log_record key val))"

definition log_apply :: "bytes \<times> bytes \<Rightarrow> store \<Rightarrow> store" where
  "log_apply = (\<lambda>(key, val) m. if val = [] then bt_remove key m else bt_insert key val m)"

definition fs_put :: "append_io \<Rightarrow> file_storage \<Rightarrow> bytes \<Rightarrow> bytes \<Rightarrow> file_storage outcome" where
  "fs_put io s key val =
     (case fs_append io s key val of
        (Inl e, s') \<Rightarrow> (Inl e, s')
      | (Inr _, s') \<Rightarrow> (Inr (), s'\<lparr>fs_map := log_apply (key, val) (fs_map s')\<rparr>))"

definition fs_delete :: "append_io \<Rightarrow> file_storage \<Rightarrow> bytes \<Rightarrow> file_storage outcome" where
  "fs_delete io s key =
     (case fs_append io s key [] of
        (Inl e, s') \<Rightarrow> (Inl e, s')
      | (Inr _, s') \<Rightarrow> (Inr (), s'\<lparr>fs_map := bt_remove key (fs_map s')\<rparr>))"

definition fs_get :: "file_storage \<Rightarrow> bytes \<Rightarrow> bytes option" where
  "fs_get s key = bt_get (fs_map s) key"

definition fs_scan :: "file_storage \<Rightarrow> bytes \<Rightarrow> (bytes \<times> bytes) list" where
  "fs_scan s p = filter (\<lambda>(k, v). prefix p k) (fs_map s)"

definition fs_put_batch :: "append_io \<Rightarrow> file_storage \<Rightarrow> (bytes \<times> bytes) list \<Rightarrow> file_storage outcome" where
  "fs_put_batch io s items =
     (if items = [] then (Inr (), s)
      else if list_ex (\<lambda>(k, v). length k > MAX_KLEN \<or> length v > MAX_VLEN) items
      then (Inl (SE_Storage ''limits''), s)
      else case append_bytes io s (concat (map (\<lambda>(k, v). log_record k v) items)) of
        (Inl e, s') \<Rightarrow> (Inl e, s')
      | (Inr _, s') \<Rightarrow> (Inr (), s'\<lparr>fs_map := fold log_apply items (fs_map s')\<rparr>))"

datatype compact_io = Compact_ok | Create_fails | Temp_write_fails | Temp_flush_fails | Rename_fails

definition fs_compact :: "compact_io \<Rightarrow> file_storage \<Rightarrow> file_storage outcome" where
  "fs_compact io s =
     (case io of
        Create_fails \<Rightarrow> (Inl (SE_Storage ''compact create''), s)
      | Temp_write_fails \<Rightarrow> (Inl (SE_Storage ''compact write''), s)
      | Temp_flush_fails \<Rightarrow> (Inl (SE_Storage ''compact flush''), s)
      | Rename_fails \<Rightarrow> (Inl (SE_Storage ''compact rename''), s\<lparr>fs_file := False\<rparr>)
      | Compact_ok \<Rightarrow>
          (Inr (), s\<lparr>fs_disk := concat (map (\<lambda>(k, v). log_record k v) (fs_map s)), fs_file := False\<rparr>))"

definition fs_used_bytes :: "file_storage \<Rightarrow> nat option" where
  "fs_used_bytes s = Some (length (fs_disk s))"

definition fs_durability :: durability where
  "fs_durability = Flushed"

section \<open>Reading one record\<close>

definition op_fits :: "bytes \<times> bytes \<Rightarrow> bool" where
  "op_fits op \<longleftrightarrow> length (fst op) \<le> MAX_KLEN \<and> length (snd op) \<le> MAX_VLEN"

definition op_record :: "bytes \<times> bytes \<Rightarrow> bytes" where
  "op_record = (\<lambda>(k, v). log_record k v)"

lemma length_log_record: "length (log_record k v) = 12 + length k + length v"
  by (simp add: log_record_def)

lemma le32_at_holds: "holds_at data off (le_enc 4 x) \<Longrightarrow> x < 256 ^ 4 \<Longrightarrow> le32_at data off = x"
  using holds_at_take_drop [of data off "le_enc 4 x"] by (simp add: le32_at_def)

lemma TOMBSTONE_bounds: "TOMBSTONE < 256 ^ 4" "MAX_VLEN < TOMBSTONE"
  by (simp_all add: TOMBSTONE_def MAX_VLEN_def)

lemma crc_back: "of_nat (unat (c :: u32)) = c"
  by simp

lemma record_header:
  assumes "length k \<le> MAX_KLEN" "length v \<le> MAX_VLEN" and "holds_at data off (take 12 (log_record k v))"
  shows "le32_at data off = length k"
    and "le32_at data (off + 4) = (if v = [] then TOMBSTONE else length v)"
    and "le32_at data (off + 8) = unat (crc32 (k @ v))"
proof -
  have "take 12 (log_record k v) = le_enc 4 (length k) @
      le_enc 4 (if v = [] then TOMBSTONE else length v) @ le_enc 4 (unat (crc32_parts k v))"
    by (simp add: log_record_def)
  with assms(3) have h: "holds_at data off (le_enc 4 (length k))"
    "holds_at data (off + 4) (le_enc 4 (if v = [] then TOMBSTONE else length v))"
    "holds_at data (off + 8) (le_enc 4 (unat (crc32 (k @ v))))"
    by (simp_all add: holds_at_append_iff add.assoc)
  have b: "length k < 256 ^ 4" "(if v = [] then TOMBSTONE else length v) < 256 ^ 4"
    using assms(1,2) limits_32 TOMBSTONE_bounds by auto
  show "le32_at data off = length k"
    and "le32_at data (off + 4) = (if v = [] then TOMBSTONE else length v)"
    and "le32_at data (off + 8) = unat (crc32 (k @ v))"
    using le32_at_holds [OF h(1) b(1)] le32_at_holds [OF h(2) b(2)]
      le32_at_holds [OF h(3) unat_u32_less [of "crc32 (k @ v)", unfolded One_nat_def]]
    by simp_all
qed

lemma recover_record:
  assumes "length k \<le> MAX_KLEN" "length v \<le> MAX_VLEN" "holds_at data off (log_record k v)"
  shows "recover data off m ve =
    recover data (off + length (log_record k v)) (log_apply (k, v) m) (off + length (log_record k v))"
proof -
  have rec: "log_record k v = take 12 (log_record k v) @ k @ v" by (simp add: log_record_def)
  then have h: "holds_at data off (take 12 (log_record k v))" "holds_at data (off + 12) k"
    "holds_at data (off + 12 + length k) v"
    using assms(3) holds_at_append_iff [of data off "take 12 (log_record k v)" "k @ v"]
    by (simp_all add: holds_at_append_iff length_log_record add.assoc)
  note hd = record_header [OF assms(1,2) h(1)]
  have kv: "take (length k) (drop (off + 12) data) = k"
    "take (length v) (drop (off + 12 + length k) data) = v"
    using holds_at_take_drop h(2,3) by blast+
  have len: "off + 12 + length k + length v \<le> length data"
    using holds_at_len [OF assms(3)] by (simp add: length_log_record)
  show ?thesis
    using assms(1,2) len kv TOMBSTONE_bounds(2)
    by (subst recover.simps) (auto simp: hd Let_def log_apply_def length_log_record add.assoc)
qed

section \<open>Reading a log\<close>

definition log_bytes :: "(bytes \<times> bytes) list \<Rightarrow> bytes" where
  "log_bytes ops = concat (map op_record ops)"

lemma log_bytes_simps [simp]:
  "log_bytes [] = []" "log_bytes (op # ops) = op_record op @ log_bytes ops"
  "log_bytes (ops @ ops') = log_bytes ops @ log_bytes ops'"
  by (simp_all add: log_bytes_def)

lemma recover_ops:
  "list_all op_fits ops \<Longrightarrow> holds_at data off (log_bytes ops) \<Longrightarrow>
   recover data off m off =
   recover data (off + length (log_bytes ops)) (fold log_apply ops m) (off + length (log_bytes ops))"
proof (induction ops arbitrary: off m)
  case Nil
  then show ?case by simp
next
  case (Cons op ops)
  obtain k v where op: "op = (k, v)" by (cases op)
  have h: "holds_at data off (log_record k v)"
    "holds_at data (off + length (log_record k v)) (log_bytes ops)"
    using Cons.prems(2) op by (simp_all add: op_record_def holds_at_append_iff)
  have "recover data off m off =
      recover data (off + length (log_record k v)) (log_apply (k, v) m) (off + length (log_record k v))"
    using Cons.prems(1) op h(1) by (intro recover_record) (simp_all add: op_fits_def)
  also have "\<dots> = recover data (off + length (log_record k v) + length (log_bytes ops))
      (fold log_apply ops (log_apply (k, v) m)) (off + length (log_record k v) + length (log_bytes ops))"
    using Cons.prems(1) h(2) by (intro Cons.IH) simp_all
  finally show ?case using op by (simp add: op_record_def add.assoc)
qed

text \<open>A record that is cut off, in its header or in its body, ends the recovery.\<close>

lemma recover_torn:
  assumes "length k \<le> MAX_KLEN" "length v \<le> MAX_VLEN"
    and "data = pre @ take n (log_record k v)" "n < length (log_record k v)"
  shows "recover data (length pre) m ve = (m, ve)"
proof (cases "n < 12")
  case True
  then have "\<not> length pre + 12 \<le> length data" using assms(3,4) by simp
  then show ?thesis by (subst recover.simps) simp
next
  case False
  then have "take n (log_record k v) = take 12 (log_record k v) @ take (n - 12) (drop 12 (log_record k v))"
    by (metis append_take_drop_id le_add_diff_inverse not_less take_add)
  then have "holds_at data (length pre) (take 12 (log_record k v))"
    using assms(3) by (intro holds_atI [OF _ refl]) simp
  note hd = record_header [OF assms(1,2) this]
  have "length data < length pre + 12 + length k + length v"
    using assms(3,4) by (simp add: length_log_record)
  then show ?thesis
    using assms(1,2) TOMBSTONE_bounds(2)
    by (subst recover.simps) (auto simp: hd Let_def)
qed

lemma recover_end: "recover data (length data) m ve = (m, ve)"
  by (subst recover.simps) simp

lemma recover_log:
  assumes "list_all op_fits ops"
  shows "recover (log_bytes ops) 0 [] 0 = (fold log_apply ops [], length (log_bytes ops))"
  using recover_ops [OF assms holds_at_self] recover_end [of "log_bytes ops"] by simp

lemma recover_log_torn:
  assumes "list_all op_fits ops" "op_fits op" "n < length (op_record op)"
  shows "recover (log_bytes ops @ take n (op_record op)) 0 [] 0 =
    (fold log_apply ops [], length (log_bytes ops))"
proof -
  obtain k v where op: "op = (k, v)" by (cases op)
  have "recover (log_bytes ops @ take n (op_record op)) 0 [] 0 =
      recover (log_bytes ops @ take n (op_record op)) (length (log_bytes ops))
        (fold log_apply ops []) (length (log_bytes ops))"
    using recover_ops [OF assms(1) holds_at_prefix] by simp
  then show ?thesis
    using recover_torn [of k v _ "log_bytes ops" n] assms(2,3) op by (simp add: op_fits_def op_record_def)
qed

text \<open>Where a crash can cut a log: between two records, or inside one.\<close>

lemma cut_log:
  "n \<le> length (log_bytes ops) \<Longrightarrow>
   \<exists>j r. j \<le> length ops \<and> n = length (log_bytes (take j ops)) + r \<and>
     (if j < length ops
      then r < length (op_record (ops ! j)) \<and>
        take n (log_bytes ops) = log_bytes (take j ops) @ take r (op_record (ops ! j))
      else r = 0 \<and> take n (log_bytes ops) = log_bytes ops)"
proof (induction ops arbitrary: n)
  case Nil
  then show ?case by simp
next
  case (Cons op ops)
  show ?case
  proof (cases "n < length (op_record op)")
    case True
    then show ?thesis by (intro exI [of _ 0] exI [of _ n]) simp
  next
    case False
    then have "n - length (op_record op) \<le> length (log_bytes ops)" using Cons.prems by simp
    from Cons.IH [OF this] obtain j r where j: "j \<le> length ops"
      "n - length (op_record op) = length (log_bytes (take j ops)) + r"
      "if j < length ops
       then r < length (op_record (ops ! j)) \<and>
         take (n - length (op_record op)) (log_bytes ops) =
           log_bytes (take j ops) @ take r (op_record (ops ! j))
       else r = 0 \<and> take (n - length (op_record op)) (log_bytes ops) = log_bytes ops" by blast
    have "n = length (op_record op) + (length (log_bytes (take j ops)) + r)"
      using j(2) False by linarith
    with j(1,3) show ?thesis
      by (intro exI [of _ "Suc j"] exI [of _ r]) (auto split: if_splits)
  qed
qed

lemma recover_cut:
  assumes "list_all op_fits ops" "n \<le> length (log_bytes ops)"
  shows "\<exists>j. j \<le> length ops \<and> length (log_bytes (take j ops)) \<le> n \<and>
    (j < length ops \<longrightarrow> n < length (log_bytes (take (Suc j) ops))) \<and>
    recover (take n (log_bytes ops)) 0 [] 0 =
      (fold log_apply (take j ops) [], length (log_bytes (take j ops)))"
proof -
  from cut_log [OF assms(2)] obtain j r where j: "j \<le> length ops"
    "n = length (log_bytes (take j ops)) + r"
    "if j < length ops
     then r < length (op_record (ops ! j)) \<and>
       take n (log_bytes ops) = log_bytes (take j ops) @ take r (op_record (ops ! j))
     else r = 0 \<and> take n (log_bytes ops) = log_bytes ops" by blast
  have fit: "list_all op_fits (take j ops)"
    using assms(1) by (auto simp: list_all_iff dest: in_set_takeD)
  show ?thesis
  proof (cases "j < length ops")
    case True
    then have "op_fits (ops ! j)" using assms(1) by (simp add: list_all_length)
    then have "recover (take n (log_bytes ops)) 0 [] 0 =
        (fold log_apply (take j ops) [], length (log_bytes (take j ops)))"
      using recover_log_torn [OF fit] True j(3) by simp
    moreover have "n < length (log_bytes (take (Suc j) ops))"
      using True j(2,3) by (simp add: take_Suc_conv_app_nth)
    ultimately show ?thesis using j(1,2) by (intro exI [of _ j]) simp
  next
    case False
    then have "recover (take n (log_bytes ops)) 0 [] 0 =
        (fold log_apply (take j ops) [], length (log_bytes (take j ops)))"
      using recover_log [OF assms(1)] j by simp
    then show ?thesis using False j by (intro exI [of _ j]) simp
  qed
qed

section \<open>The invariant: the file is a log whose replay is the map\<close>

definition fs_inv :: "file_storage \<Rightarrow> bool" where
  "fs_inv s \<longleftrightarrow> (\<exists>ops. list_all op_fits ops \<and> fs_disk s = log_bytes ops \<and>
     fs_map s = fold log_apply ops [])"

definition live :: "store \<Rightarrow> bool" where
  "live m \<longleftrightarrow> bt_wf m \<and> (\<forall>(k, v) \<in> set m. v \<noteq> [] \<and> op_fits (k, v))"

lemma live_apply: "live m \<Longrightarrow> op_fits op \<Longrightarrow> live (log_apply op m)"
proof -
  assume a: "live m" "op_fits op"
  obtain k v where op: "op = (k, v)" by (cases op)
  have s: "set (bt_insert k v m) \<subseteq> insert (k, v) (set m)" by (rule set_bt_insert)
  have "set (bt_remove k m) \<subseteq> set m" by (auto simp: bt_remove_def)
  with a s op show "live (log_apply op m)"
    by (auto simp: live_def log_apply_def)
qed

lemma live_Nil [simp]: "live []"
  by (simp add: live_def)

lemma live_fold: "list_all op_fits ops \<Longrightarrow> live m \<Longrightarrow> live (fold log_apply ops m)"
  by (induction ops arbitrary: m) (simp_all add: live_apply)

lemma fs_inv_live: "fs_inv s \<Longrightarrow> live (fs_map s)"
  using live_fold [of _ "[]"] by (auto simp: fs_inv_def)

lemma log_apply_live: "live m \<Longrightarrow> fold log_apply m [] = m"
proof -
  assume a: "live m"
  have "fold log_apply m [] = fold (\<lambda>(k, v). bt_insert k v) m []"
    using a by (intro fold_cong refl) (auto simp: log_apply_def live_def)
  also have "\<dots> = m" using bt_rebuild [of "[]" m] a by (simp add: live_def)
  finally show ?thesis .
qed

lemma fs_open_log:
  "list_all op_fits ops \<Longrightarrow> fs_open (log_bytes ops) =
    \<lparr>fs_disk = log_bytes ops, fs_map = fold log_apply ops [], fs_file = False\<rparr>"
  by (simp add: fs_open_def recover_log)

lemma fs_inv_extend:
  assumes "fs_inv s" "list_all op_fits ops"
  shows "fs_inv \<lparr>fs_disk = fs_disk s @ log_bytes ops, fs_map = fold log_apply ops (fs_map s), fs_file = b\<rparr>"
proof -
  from assms(1) obtain ops0 where "list_all op_fits ops0" "fs_disk s = log_bytes ops0"
    "fs_map s = fold log_apply ops0 []" by (auto simp: fs_inv_def)
  with assms(2) show ?thesis
    unfolding fs_inv_def by (intro exI [of _ "ops0 @ ops"]) simp
qed

lemma fs_inv_file: "fs_inv (s\<lparr>fs_file := b\<rparr>) = fs_inv s"
  by (simp add: fs_inv_def)

lemma fs_open_inv: "fs_inv s \<Longrightarrow> fs_open (fs_disk s) = s\<lparr>fs_file := False\<rparr>"
  unfolding fs_inv_def by (cases s) (auto simp: fs_open_log)

lemma fs_inv_empty: "fs_inv (fs_open [])"
  using fs_open_log [of "[]"] unfolding fs_inv_def by (intro exI [of _ "[]"]) simp

section \<open>Each operation keeps it\<close>

lemma fs_put_ok:
  assumes "op_fits (k, v)"
  shows "fs_put Append_ok s k v =
    (Inr (), \<lparr>fs_disk = fs_disk s @ log_bytes [(k, v)], fs_map = log_apply (k, v) (fs_map s), fs_file = True\<rparr>)"
  using assms by (simp add: fs_put_def fs_append_def append_bytes_def op_fits_def op_record_def)

lemma fs_delete_put: "fs_delete io s k = fs_put io s k []"
  by (simp add: fs_delete_def fs_put_def log_apply_def split: prod.splits sum.splits)

lemma fs_put_unfit:
  "\<not> op_fits (k, v) \<Longrightarrow> fs_put io s k v = (Inl (SE_Storage ''limits''), s)"
  by (auto simp: fs_put_def fs_append_def op_fits_def)

lemma fs_put_no_file:
  "\<not> fs_file s \<Longrightarrow> op_fits (k, v) \<Longrightarrow>
   fs_put Open_fails s k v = (Inl (SE_Storage ''open append''), s)"
  by (simp add: fs_put_def fs_append_def op_fits_def append_bytes_def)

lemma open_fails_ok: "fs_file s \<Longrightarrow> append_bytes Open_fails s buf = append_bytes Append_ok s buf"
  by (simp add: append_bytes_def)

lemma fs_put_open_fails: "fs_file s \<Longrightarrow> fs_put Open_fails s k v = fs_put Append_ok s k v"
  by (simp add: fs_put_def fs_append_def open_fails_ok)

lemma fs_batch_ok:
  assumes "list_all op_fits items" "items \<noteq> []"
  shows "fs_put_batch Append_ok s items =
    (Inr (), \<lparr>fs_disk = fs_disk s @ log_bytes items, fs_map = fold log_apply items (fs_map s), fs_file = True\<rparr>)"
proof -
  have "\<not> list_ex (\<lambda>(k, v). length k > MAX_KLEN \<or> length v > MAX_VLEN) items"
    using assms(1) by (auto simp: list_ex_iff list_all_iff op_fits_def)
  with assms(2) show ?thesis
    by (simp add: fs_put_batch_def append_bytes_def log_bytes_def op_record_def)
qed

lemma fs_batch_unfit:
  "\<not> list_all op_fits items \<Longrightarrow> fs_put_batch io s items = (Inl (SE_Storage ''limits''), s)"
  by (auto simp: fs_put_batch_def list_ex_iff list_all_iff op_fits_def)

lemma fs_batch_no_file:
  "\<not> fs_file s \<Longrightarrow> items \<noteq> [] \<Longrightarrow> list_all op_fits items \<Longrightarrow>
   fs_put_batch Open_fails s items = (Inl (SE_Storage ''open append''), s)"
  by (auto simp: fs_put_batch_def append_bytes_def list_ex_iff list_all_iff op_fits_def)

lemma fs_batch_open_fails: "fs_file s \<Longrightarrow> fs_put_batch Open_fails s items = fs_put_batch Append_ok s items"
  by (simp add: fs_put_batch_def open_fails_ok)

text \<open>An append that either works or does not start.\<close>

definition clean_io :: "append_io \<Rightarrow> bool" where
  "clean_io io \<longleftrightarrow> io = Append_ok \<or> io = Open_fails"

lemma fs_put_inv:
  assumes "fs_inv s" "clean_io io"
  shows "fs_inv (snd (fs_put io s k v))"
proof (cases "op_fits (k, v)")
  case True
  then have "fs_inv (snd (fs_put Append_ok s k v))"
    using fs_inv_extend [OF assms(1), of "[(k, v)]"] by (simp add: fs_put_ok)
  with assms True show ?thesis
    by (cases "fs_file s") (auto simp: clean_io_def fs_put_no_file fs_put_open_fails)
next
  case False
  then show ?thesis using assms(1) by (simp add: fs_put_unfit)
qed

lemma fs_batch_inv:
  assumes "fs_inv s" "clean_io io"
  shows "fs_inv (snd (fs_put_batch io s items))"
proof (cases "list_all op_fits items \<and> items \<noteq> []")
  case True
  then have "fs_inv (snd (fs_put_batch Append_ok s items))"
    using fs_inv_extend [OF assms(1)] by (simp add: fs_batch_ok)
  with assms True show ?thesis
    by (cases "fs_file s") (auto simp: clean_io_def fs_batch_no_file fs_batch_open_fails)
next
  case False
  then show ?thesis
    using assms(1) by (cases "items = []") (auto simp: fs_put_batch_def [of _ _ "[]"] fs_batch_unfit)
qed

lemma fs_compact_disk: "live (fs_map s) \<Longrightarrow>
   fs_inv \<lparr>fs_disk = log_bytes (fs_map s), fs_map = fs_map s, fs_file = b\<rparr>"
  unfolding fs_inv_def
  by (intro exI [of _ "fs_map s"]) (auto simp: log_apply_live list_all_iff live_def)

lemma fs_compact_ok: "fs_compact Compact_ok s =
   (Inr (), \<lparr>fs_disk = log_bytes (fs_map s), fs_map = fs_map s, fs_file = False\<rparr>)"
  by (simp add: fs_compact_def log_bytes_def op_record_def)

lemma fs_compact_inv: "fs_inv s \<Longrightarrow> fs_inv (snd (fs_compact io s))"
  using fs_compact_disk [OF fs_inv_live] fs_compact_ok [of s]
  by (cases io) (simp_all add: fs_compact_def [of _ s, unfolded log_bytes_def] fs_inv_file)


section \<open>The trait on a healthy file\<close>

definition fs_fits :: "bytes \<Rightarrow> bytes \<Rightarrow> bool" where
  "fs_fits k v \<longleftrightarrow> op_fits (k, v)"

definition fs_means :: "bytes \<Rightarrow> bytes option" where
  "fs_means v = (if v = [] then None else Some v)"

lemma log_apply_get: "bt_wf m \<Longrightarrow> bt_get (log_apply (k, v) m) = (bt_get m)(k := fs_means v)"
  by (simp add: log_apply_def fs_means_def)

lemma fs_inv_wf: "fs_inv s \<Longrightarrow> bt_wf (fs_map s)"
  using fs_inv_live by (auto simp: live_def)

interpretation flog: bounded_store fs_inv "\<lambda>s. bt_get (fs_map s)"
  "fs_put Append_ok" fs_get fs_scan "fs_delete Append_ok" fs_fits fs_means
proof unfold_locales
  fix s :: file_storage and k v
  assume s: "fs_inv s"
  show "fs_get s k = bt_get (fs_map s) k" by (simp add: fs_get_def)
  show "sorted_wrt (<) (map fst (fs_scan s v))"
    using scan_filter_sorted [OF fs_inv_wf [OF s]] by (simp add: fs_scan_def)
  show "set (fs_scan s v) = {(k, w). bt_get (fs_map s) k = Some w \<and> prefix v k}"
    using scan_filter_set [OF fs_inv_wf [OF s]] by (simp add: fs_scan_def)
  have put: "\<exists>s'. fs_put Append_ok s k v = (Inr (), s') \<and> fs_inv s' \<and>
      bt_get (fs_map s') = (bt_get (fs_map s))(k := fs_means v)" if "op_fits (k, v)" for v
    using fs_put_ok [OF that, of s] fs_put_inv [OF s, of Append_ok k v] log_apply_get [OF fs_inv_wf [OF s]]
    by (simp add: clean_io_def)
  show "\<exists>s'. fs_put Append_ok s k v = (Inr (), s') \<and> fs_inv s' \<and>
      bt_get (fs_map s') = (bt_get (fs_map s))(k := fs_means v)" if "fs_fits k v"
    using put [of v] that by (simp add: fs_fits_def)
  show "\<exists>s'. fs_delete Append_ok s k = (Inr (), s') \<and> fs_inv s' \<and>
      bt_get (fs_map s') = (bt_get (fs_map s))(k := None)" if "fs_fits k []"
    using put [of "[]"] that by (simp add: fs_fits_def fs_delete_put fs_means_def)
  show "\<exists>e. fs_put Append_ok s k v = (Inl e, s)" if "\<not> fs_fits k v"
    using that by (auto simp: fs_fits_def fs_put_unfit)
next
  fix k v show "fs_fits k v \<Longrightarrow> fs_fits k []" by (simp add: fs_fits_def op_fits_def)
qed

section \<open>Sessions with crashes\<close>

text \<open>
  One step of a store's life: an operation that works or does not start, a write the process
  dies in (with a batch, a put or a delete under way) followed by \<open>open\<close>, or a plain reopen.
\<close>

inductive fs_step :: "file_storage \<Rightarrow> file_storage \<Rightarrow> bool" where
  put: "clean_io io \<Longrightarrow> fs_step s (snd (fs_put io s k v))"
| delete: "clean_io io \<Longrightarrow> fs_step s (snd (fs_delete io s k))"
| batch: "clean_io io \<Longrightarrow> fs_step s (snd (fs_put_batch io s items))"
| compact: "fs_step s (snd (fs_compact io s))"
| crash_put: "fs_step s (fs_open (fs_disk (snd (fs_put (Write_stops n) s k v))))"
| crash_batch: "fs_step s (fs_open (fs_disk (snd (fs_put_batch (Write_stops n) s items))))"
| reopen: "fs_step s (fs_open (fs_disk s))"

inductive_cases fs_stepE: "fs_step s s'"

inductive fs_reachable :: "file_storage \<Rightarrow> bool" where
  init: "fs_reachable (fs_open [])"
| step: "fs_reachable s \<Longrightarrow> fs_step s s' \<Longrightarrow> fs_reachable s'"

lemma torn_open:
  assumes "fs_inv s" "list_all op_fits items" "n \<le> length (log_bytes items)"
  shows "\<exists>j. j \<le> length items \<and> length (log_bytes (take j items)) \<le> n \<and>
    (j < length items \<longrightarrow> n < length (log_bytes (take (Suc j) items))) \<and>
    fs_open (fs_disk s @ take n (log_bytes items)) =
      \<lparr>fs_disk = fs_disk s @ log_bytes (take j items),
       fs_map = fold log_apply (take j items) (fs_map s), fs_file = False\<rparr>"
proof -
  from assms(1) obtain ops where ops: "list_all op_fits ops" "fs_disk s = log_bytes ops"
    "fs_map s = fold log_apply ops []" by (auto simp: fs_inv_def)
  from cut_log [OF assms(3)] obtain j r where j: "j \<le> length items"
    "n = length (log_bytes (take j items)) + r"
    "if j < length items
     then r < length (op_record (items ! j)) \<and>
       take n (log_bytes items) = log_bytes (take j items) @ take r (op_record (items ! j))
     else r = 0 \<and> take n (log_bytes items) = log_bytes items" by blast
  have fit: "list_all op_fits (ops @ take j items)"
    using assms(2) ops(1) by (auto simp: list_all_iff dest: in_set_takeD)
  show ?thesis
  proof (cases "j < length items")
    case True
    then have "op_fits (items ! j)" using assms(2) by (simp add: list_all_length)
    then have "recover (log_bytes (ops @ take j items) @ take r (op_record (items ! j))) 0 [] 0 =
        (fold log_apply (ops @ take j items) [], length (log_bytes (ops @ take j items)))"
      using recover_log_torn [OF fit] True j(3) by presburger
    then have "fs_open (fs_disk s @ take n (log_bytes items)) =
        \<lparr>fs_disk = fs_disk s @ log_bytes (take j items),
         fs_map = fold log_apply (take j items) (fs_map s), fs_file = False\<rparr>"
      using True j(3) ops by (simp add: fs_open_def)
    moreover have "n < length (log_bytes (take (Suc j) items))"
      using True j(2,3) by (simp add: take_Suc_conv_app_nth)
    ultimately show ?thesis using j(1,2) by (intro exI [of _ j]) simp
  next
    case False
    then have "j = length items" "take n (log_bytes items) = log_bytes items" using j by auto
    moreover from this have "fs_open (log_bytes (ops @ items)) = \<lparr>fs_disk = log_bytes (ops @ items),
        fs_map = fold log_apply (ops @ items) [], fs_file = False\<rparr>"
      using fit by (intro fs_open_log) simp
    ultimately show ?thesis using ops j(2) by (intro exI [of _ j]) simp
  qed
qed

lemma torn_open_inv:
  assumes "fs_inv s" "list_all op_fits items"
  shows "fs_inv (fs_open (fs_disk s @ take n (log_bytes items)))"
proof -
  have t: "take n (log_bytes items) = take (min n (length (log_bytes items))) (log_bytes items)"
    by (simp add: min_def)
  from torn_open [OF assms, of "min n (length (log_bytes items))"] obtain j where
    "fs_open (fs_disk s @ take n (log_bytes items)) =
      \<lparr>fs_disk = fs_disk s @ log_bytes (take j items),
       fs_map = fold log_apply (take j items) (fs_map s), fs_file = False\<rparr>" unfolding t by auto
  moreover have "list_all op_fits (take j items)"
    using assms(2) by (auto simp: list_all_iff dest: in_set_takeD)
  ultimately show ?thesis using fs_inv_extend [OF assms(1)] by simp
qed

lemma torn_put_disk:
  "op_fits (k, v) \<Longrightarrow> fs_disk (snd (fs_put (Write_stops n) s k v)) = fs_disk s @ take n (log_bytes [(k, v)])"
  by (simp add: fs_put_def fs_append_def append_bytes_def op_fits_def op_record_def)

lemma torn_batch_disk:
  "list_all op_fits items \<Longrightarrow>
   fs_disk (snd (fs_put_batch (Write_stops n) s items)) = fs_disk s @ take n (log_bytes items)"
  by (auto simp: fs_put_batch_def append_bytes_def op_fits_def op_record_def log_bytes_def
      list_ex_iff list_all_iff)

lemma fs_open_fs_inv: "fs_inv s \<Longrightarrow> fs_inv (fs_open (fs_disk s))"
  by (simp add: fs_open_inv fs_inv_file)

lemma fs_step_inv: "fs_step s s' \<Longrightarrow> fs_inv s \<Longrightarrow> fs_inv s'"
proof (induction rule: fs_step.induct)
  case (crash_put s n k v)
  then show ?case
    using torn_open_inv [of s "[(k, v)]" n]
    by (cases "op_fits (k, v)") (simp_all add: torn_put_disk fs_put_unfit fs_open_fs_inv)
next
  case (crash_batch s n items)
  then show ?case
    using torn_open_inv [of s items n]
    by (cases "list_all op_fits items") (simp_all add: torn_batch_disk fs_batch_unfit fs_open_fs_inv)
qed (simp_all add: fs_put_inv fs_delete_put fs_batch_inv fs_compact_inv fs_open_fs_inv)

lemma fs_reachable_inv: "fs_reachable s \<Longrightarrow> fs_inv s"
  by (induction rule: fs_reachable.induct) (auto simp: fs_inv_empty intro: fs_step_inv)

section \<open>Properties\<close>

text \<open>
  C3: in every state a file store reaches by operations that work or do not start, by crashes in
  the middle of a write and by reopening, closing and opening it again gives the map it had,
  with nothing of the file cut off.
\<close>

theorem file_store_durable:
  assumes "fs_reachable s"
  shows "fs_open (fs_disk s) = s\<lparr>fs_file := False\<rparr>"
  using fs_open_inv [OF fs_reachable_inv [OF assms]] .

text \<open>
  C14: a crash \<open>n\<close> bytes into the write of a batch leaves a file that opens with exactly the
  entries whose records were written in full, in order: no record is half applied.
\<close>

theorem crash_keeps_whole_records:
  assumes "fs_reachable s" "list_all op_fits items" "n \<le> length (log_bytes items)"
  shows "\<exists>j. j \<le> length items \<and> length (log_bytes (take j items)) \<le> n \<and>
    (j < length items \<longrightarrow> n < length (log_bytes (take (Suc j) items))) \<and>
    fs_map (fs_open (fs_disk (snd (fs_put_batch (Write_stops n) s items)))) =
      fold log_apply (take j items) (fs_map s)"
  using torn_open [OF fs_reachable_inv [OF assms(1)] assms(2,3)] torn_batch_disk [OF assms(2), of n s]
  by auto

text \<open>
  C9: \<open>compact\<close> keeps every entry, in the session and at the next \<open>open\<close>, and leaves a file
  with one record per live key.
\<close>

theorem compact_keeps_the_map:
  assumes "fs_reachable s"
  shows "fs_map (snd (fs_compact Compact_ok s)) = fs_map s \<and>
    fs_map (fs_open (fs_disk (snd (fs_compact Compact_ok s)))) = fs_map s \<and>
    fs_disk (snd (fs_compact Compact_ok s)) = log_bytes (fs_map s)"
  using fs_open_inv [OF fs_compact_inv [OF fs_reachable_inv [OF assms], of Compact_ok]]
  by (simp_all add: fs_compact_ok)

text \<open>
  C13: \<open>put_batch\<close> writes all its entries with the effect of putting them one by one, the
  trait's own \<open>put_many\<close>; where one of them is too long it writes none.
\<close>

theorem put_batch_is_put_many:
  "fs_put_batch Append_ok s items =
   (if list_all op_fits items then put_many (fs_put Append_ok) s items
    else (Inl (SE_Storage ''limits''), s))"
proof -
  have many: "put_many (fs_put Append_ok) s items = (Inr (), if items = [] then s else
      \<lparr>fs_disk = fs_disk s @ log_bytes items, fs_map = fold log_apply items (fs_map s), fs_file = True\<rparr>)"
    if "list_all op_fits items" for items s
    using that
  proof (induction items arbitrary: s)
    case Nil
    then show ?case by simp
  next
    case (Cons op items)
    then show ?case by (cases op) (auto simp: fs_put_ok)
  qed
  show ?thesis
    by (cases "items = []")
      (simp_all add: many fs_batch_ok fs_batch_unfit, simp add: fs_put_batch_def)
qed

text \<open>
  A value put into a file store is read back, by \<open>get\<close> at once and after a reopen, an
  empty value being a delete; the other keys keep theirs.
\<close>

theorem file_get_after_put:
  assumes "fs_reachable s" "fs_fits k v"
  shows "fst (fs_put Append_ok s k v) = Inr () \<and>
    fs_get (snd (fs_put Append_ok s k v)) k' = (if k' = k then fs_means v else fs_get s k') \<and>
    fs_get (fs_open (fs_disk (snd (fs_put Append_ok s k v)))) k' =
      fs_get (snd (fs_put Append_ok s k v)) k'"
proof -
  note r = flog.put_result [OF fs_reachable_inv [OF assms(1)] assms(2)]
  show ?thesis using r(1,3) fs_open_inv [OF r(2)] by (simp add: fs_get_def)
qed

lemma torn_byte:
  assumes "fs_inv s"
  shows "fs_open (fs_disk s @ take 1 (log_record [a] [x]) @ log_record [b] [y]) = s\<lparr>fs_file := False\<rparr>"
proof -
  let ?data = "fs_disk s @ take 1 (log_record [a] [x]) @ log_record [b] [y]"
  from assms obtain ops where ops: "list_all op_fits ops" "fs_disk s = log_bytes ops"
    "fs_map s = fold log_apply ops []" by (auto simp: fs_inv_def)
  have four: "(4 :: nat) = Suc (Suc (Suc (Suc 0)))" by simp
  have enc: "le_enc 4 1 = [1, 0, 0, 0]" unfolding four by simp
  have bytes: "take 1 (log_record [a] [x]) @ log_record [b] [y] =
      [1, 1, 0, 0, 0, 1, 0, 0, 0] @ le_enc 4 (unat (crc32_parts [b] [y])) @ [b, y]"
    unfolding log_record_def using enc by simp
  have "le32_at ?data (length (fs_disk s)) = 257"
    and "le32_at ?data (length (fs_disk s) + 4) = 256"
    unfolding le32_at_def bytes by simp_all
  moreover have "length ?data = length (fs_disk s) + 15" by (simp add: length_log_record)
  ultimately have stop: "recover ?data (length (fs_disk s)) m ve = (m, ve)" for m ve
    by (subst recover.simps) (simp add: Let_def TOMBSTONE_def)
  have "recover ?data 0 [] 0 = recover ?data (length (fs_disk s)) (fs_map s) (length (fs_disk s))"
    using recover_ops [OF ops(1), of ?data 0 "[]"] ops(2,3) holds_at_prefix [of "fs_disk s"] by simp
  with stop show ?thesis by (cases s) (simp add: fs_open_def length_log_record)
qed

text \<open>
  C9: \<open>append\<close> does not cut a failed write off: after a write that stopped one byte in, a later
  put succeeds and is read back, and is gone at the next \<open>open\<close>.
\<close>

theorem put_after_torn_write_is_lost:
  assumes "fs_reachable s" "bt_get (fs_map s) [b] \<noteq> Some [y]"
  shows "\<exists>s1 s2. fs_put (Write_stops 1) s [a] [x] = (Inl (SE_Storage ''write''), s1) \<and>
    fs_put Append_ok s1 [b] [y] = (Inr (), s2) \<and>
    fs_get s2 [b] = Some [y] \<and> fs_get (fs_open (fs_disk s2)) [b] \<noteq> Some [y]"
proof -
  have fit: "op_fits ([c], [d])" for c d by (simp add: op_fits_def MAX_KLEN_def MAX_VLEN_def)
  let ?s1 = "s\<lparr>fs_file := True, fs_disk := fs_disk s @ take 1 (log_record [a] [x])\<rparr>"
  have 1: "fs_put (Write_stops 1) s [a] [x] = (Inl (SE_Storage ''write''), ?s1)"
    using fit [of a x] by (simp add: fs_put_def fs_append_def append_bytes_def op_fits_def)
  let ?s2 = "snd (fs_put Append_ok ?s1 [b] [y])"
  have 2: "fs_put Append_ok ?s1 [b] [y] = (Inr (), ?s2)"
    and d: "fs_disk ?s2 = fs_disk s @ take 1 (log_record [a] [x]) @ log_record [b] [y]"
    and m: "fs_map ?s2 = log_apply ([b], [y]) (fs_map s)"
    by (simp_all add: fs_put_ok [OF fit] op_record_def)
  have "fs_get ?s2 [b] = Some [y]"
    using fs_inv_wf [OF fs_reachable_inv [OF assms(1)]]
    unfolding fs_get_def m by (simp add: log_apply_get fs_means_def)
  moreover have "fs_get (fs_open (fs_disk ?s2)) [b] \<noteq> Some [y]"
    using torn_byte [OF fs_reachable_inv [OF assms(1)]] assms(2) unfolding fs_get_def d by simp
  ultimately show ?thesis using 1 2 by blast
qed

text \<open>What a log backend keeps of what a RAM backend keeps.\<close>

lemma means_view:
  "(\<lambda>j. Option.bind ((m(k := Some v)) j) fs_means) = (\<lambda>j. Option.bind (m j) fs_means)(k := fs_means v)"
  by (simp add: fun_eq_iff)

lemma views_agree:
  "fold (\<lambda>(k, v) m. m(k := fs_means v)) items (\<lambda>j. Option.bind (m j) fs_means) =
   (\<lambda>j. Option.bind (fold (\<lambda>(k, v) m. m(k := Some v)) items m j) fs_means)"
proof (induction items arbitrary: m)
  case Nil
  then show ?case by simp
next
  case (Cons e items)
  obtain k v where e: "e = (k, v)" by (cases e)
  show ?case using Cons.IH [of "m(k := Some v)"] unfolding means_view e fold_simps(2) by (simp only: prod.case)
qed

text \<open>
  The same puts leave the same entries in the two RAM backends and in the file store, except
  that the file store has no entry for a key whose last value is empty.
\<close>

theorem backends_agree:
  assumes "\<And>k v. (k, v) \<in> set items \<Longrightarrow> fs_fits k v"
  shows "\<exists>a b c. put_many in_memory_put in_memory_new items = (Inr (), a) \<and>
    put_many snapshot_put snapshot_new items = (Inr (), b) \<and>
    put_many (fs_put Append_ok) (fs_open []) items = (Inr (), c) \<and>
    (\<forall>k. in_memory_get a k = snapshot_get b k \<and>
         fs_get c k = Option.bind (in_memory_get a k) fs_means)"
proof -
  have "bt_wf (im_map in_memory_new)" "bt_wf (ss_map snapshot_new)"
    by (simp_all add: in_memory_new_def snapshot_new_def)
  from mem.put_many_result [OF this(1), of items] snap.put_many_result [OF this(2), of items]
    flog.put_many_result [OF fs_inv_empty assms]
  obtain a b c where abc: "put_many in_memory_put in_memory_new items = (Inr (), a)"
    "put_many snapshot_put snapshot_new items = (Inr (), b)"
    "put_many (fs_put Append_ok) (fs_open []) items = (Inr (), c)"
    and views: "bt_get (im_map a) = fold (\<lambda>(k, v) m. m(k := Some v)) items (bt_get (im_map in_memory_new))"
    "bt_get (ss_map b) = fold (\<lambda>(k, v) m. m(k := Some v)) items (bt_get (ss_map snapshot_new))"
    "bt_get (fs_map c) = fold (\<lambda>(k, v) m. m(k := fs_means v)) items (bt_get (fs_map (fs_open [])))"
    by blast
  have "bt_get (fs_map (fs_open [])) = (\<lambda>k. Option.bind (bt_get (im_map in_memory_new) k) fs_means)"
    by (simp add: fs_open_def in_memory_new_def recover_end [of "[]", simplified])
  with abc views show ?thesis
    using views_agree [of items "bt_get (im_map in_memory_new)"]
    by (auto simp: in_memory_get_def snapshot_get_def fs_get_def in_memory_new_def snapshot_new_def)
qed

section \<open>Witnesses\<close>

lemma empty_reachable: "fs_reachable (fs_open [])"
  by (rule fs_reachable.init)

lemma fs_open_empty: "fs_open [] = \<lparr>fs_disk = [], fs_map = [], fs_file = False\<rparr>"
  using fs_open_log [of "[]"] by simp

lemma one_put_reachable: "fs_reachable (snd (fs_put Append_ok (fs_open []) [7] [8]))"
  by (rule fs_reachable.step [OF fs_reachable.init fs_step.put]) (simp add: clean_io_def)

lemma small_fit: "op_fits ([c], [d])"
  by (simp add: op_fits_def MAX_KLEN_def MAX_VLEN_def)

lemma one_put_state: "snd (fs_put Append_ok (fs_open []) [7] [8]) =
    \<lparr>fs_disk = log_bytes [([7], [8])], fs_map = [([7], [8])], fs_file = True\<rparr>"
  by (simp add: fs_open_empty fs_put_ok [OF small_fit] log_apply_def)

lemma file_store_durable_witness:
  "fs_open (log_bytes [([7], [8])]) =
    \<lparr>fs_disk = log_bytes [([7], [8])], fs_map = [([7], [8])], fs_file = False\<rparr>"
  using file_store_durable [OF one_put_reachable] unfolding one_put_state by simp

lemma crash_keeps_whole_records_witness:
  "fs_map (fs_open (fs_disk (snd (fs_put_batch (Write_stops 15) (fs_open []) [([7], [8]), ([9], [1])])))) =
    [([7], [8])]"
proof -
  let ?items = "[([7], [8]), ([9], [1])] :: (bytes \<times> bytes) list"
  have fit: "list_all op_fits ?items" by (simp add: small_fit)
  have "15 \<le> length (log_bytes ?items)" by (simp add: op_record_def length_log_record)
  from crash_keeps_whole_records [OF empty_reachable fit this]
  obtain j where j: "j \<le> length ?items" "length (log_bytes (take j ?items)) \<le> 15"
    "j < length ?items \<longrightarrow> 15 < length (log_bytes (take (Suc j) ?items))"
    "fs_map (fs_open (fs_disk (snd (fs_put_batch (Write_stops 15) (fs_open []) ?items)))) =
      fold log_apply (take j ?items) (fs_map (fs_open []))" by blast
  have "j = 0 \<or> j = 1 \<or> j = 2" using j(1) by auto
  then have "j = 1" using j(2,3) by (auto simp: op_record_def length_log_record)
  then show ?thesis using j(4) by (simp add: log_apply_def fs_open_empty)
qed

lemma compact_keeps_the_map_witness:
  "fs_map (snd (fs_compact Compact_ok (snd (fs_put Append_ok (fs_open []) [7] [8])))) = [([7], [8])]"
  using compact_keeps_the_map [OF one_put_reachable] by (simp add: one_put_state)

lemma file_get_after_put_witness:
  "fs_get (snd (fs_put Append_ok (fs_open []) [7] [8])) [7] = Some [8]"
  using file_get_after_put [OF empty_reachable, of "[7]" "[8]" "[7]"] small_fit [of 7 8]
  by (simp add: fs_fits_def fs_means_def)

lemma put_after_torn_write_is_lost_witness:
  "\<exists>s1 s2. fs_put (Write_stops 1) (fs_open []) [7] [8] = (Inl (SE_Storage ''write''), s1) \<and>
    fs_put Append_ok s1 [9] [1] = (Inr (), s2) \<and>
    fs_get s2 [9] = Some [1] \<and> fs_get (fs_open (fs_disk s2)) [9] \<noteq> Some [1]"
  using put_after_torn_write_is_lost [OF empty_reachable, of 9 1 7 8] by (simp add: fs_open_empty)

lemma backends_agree_witness:
  "\<exists>a b c. put_many in_memory_put in_memory_new [([7], [])] = (Inr (), a) \<and>
    put_many snapshot_put snapshot_new [([7], [])] = (Inr (), b) \<and>
    put_many (fs_put Append_ok) (fs_open []) [([7], [])] = (Inr (), c) \<and>
    (\<forall>k. in_memory_get a k = snapshot_get b k \<and>
         fs_get c k = Option.bind (in_memory_get a k) fs_means)"
  by (rule backends_agree) (simp add: fs_fits_def op_fits_def MAX_KLEN_def)

end
