(* ===== verification/Tickv.thy ===== *)
theory Tickv
  imports File_Storage
begin

text \<open>
  The TKLV volume format of \<open>src/src/tickv.rs\<close>: records, the checkpoint body, the full scan
  and the mount from a checkpoint.  A volume is a byte list, an offset a \<open>nat\<close> (the code's
  \<open>u64\<close>; a volume of \<open>2 ^ 64\<close> bytes does not exist).
\<close>

unbundle bit_operations_syntax

section \<open>Records\<close>

definition TKLV :: bytes where
  "TKLV = ascii ''TKLV''"

definition MAGIC_PREFIX :: bytes where
  "MAGIC_PREFIX = ascii ''TKL''"

definition HEADER :: nat where
  "HEADER = 16"

definition CKPT_KEY :: bytes where
  "CKPT_KEY = ascii ''sys/tickv_ckpt''"

text \<open>\<open>(n + (a - 1)) & !(a - 1)\<close> for a power of two \<open>a\<close>.\<close>

definition align_up :: "nat \<Rightarrow> nat \<Rightarrow> nat" where
  "align_up a n = (n + (a - 1)) div a * a"

definition record_size :: "nat \<Rightarrow> nat \<Rightarrow> nat" where
  "record_size klen vlen =
     (let body_padded = align_up 16 (klen + vlen) in align_up 512 (HEADER + body_padded))"

definition encode_record :: "bytes \<Rightarrow> bytes \<Rightarrow> bytes" where
  "encode_record key val =
     (let body_len = length key + length val;
          body_padded = align_up 16 body_len;
          body = key @ val @ replicate (body_padded - body_len) 0;
          crc = crc32 (take body_len body);
          total = record_size (length key) (length val)
      in TKLV @ le_enc 4 (length key) @ le_enc 4 (length val) @ le_enc 4 (unat crc) @
         body @ replicate (total - (HEADER + body_padded)) 0)"

section \<open>Checkpoint bodies\<close>

type_synonym index = "(bytes \<times> nat) list"

definition fnv1a64 :: "bytes \<Rightarrow> u64" where
  "fnv1a64 data = fold fnv_step data FNV_OFFSET"

definition fnv1a64_entries :: "index \<Rightarrow> u64" where
  "fnv1a64_entries entries =
     fold (\<lambda>(k, off) h.
        if k = CKPT_KEY then h else fold fnv_step (le_enc 8 off) (fold fnv_step k h))
       entries FNV_OFFSET"

definition enc_ckpt_entry :: "bytes \<times> nat \<Rightarrow> bytes" where
  "enc_ckpt_entry = (\<lambda>(k, off). le_enc 2 (length k) @ k @ le_enc 8 off)"

definition TKCK :: bytes where
  "TKCK = ascii ''TKCK''"

definition encode_ckpt :: "nat \<Rightarrow> index \<Rightarrow> bytes" where
  "encode_ckpt append_off entries =
     (let writable = filter (\<lambda>(k, off). length k \<le> 65535 \<and> k \<noteq> CKPT_KEY) entries
      in TKCK @ le_enc 8 append_off @ le_enc 8 (unat (fnv1a64_entries writable)) @
         le_enc 4 (length writable) @ concat (map enc_ckpt_entry writable))"

section \<open>The full scan\<close>

record scan_result =
  sc_map :: store
  sc_corrupt :: nat
  sc_truncated :: bool
  sc_offsets :: index
  sc_append_off :: nat

definition scan_start :: scan_result where
  "scan_start = \<lparr>sc_map = [], sc_corrupt = 0, sc_truncated = False, sc_offsets = [], sc_append_off = 0\<rparr>"

definition hdr_shaped :: "bytes \<Rightarrow> bool" where
  "hdr_shaped hdr \<longleftrightarrow> 4 \<le> length hdr \<and> take 3 hdr = MAGIC_PREFIX \<and>
     (hdr ! 3 = of_char CHR ''V'' \<or> hdr ! 3 = 1 \<or> hdr ! 3 = 0)"

text \<open>A window of erased bytes: the scan takes it for the end of the volume.\<close>

definition erased :: "bytes \<Rightarrow> bool" where
  "erased w \<longleftrightarrow> list_all (\<lambda>b. b = 0 \<or> b = 0xFF) w"

text \<open>\<open>(off + 512) & !511\<close>: the next sector, where the scan looks again after a bad header.\<close>

definition next_sector :: "nat \<Rightarrow> nat" where
  "next_sector off = (off + 512) div 512 * 512"

text \<open>What a valid record does to the index.\<close>

definition index_record :: "nat \<Rightarrow> nat \<Rightarrow> bytes \<Rightarrow> scan_result \<Rightarrow> scan_result" where
  "index_record off klen body out =
     (if utf8_valid (take klen body) then
        let key = take klen body; val = drop klen body in
        if key = CKPT_KEY then out
        else if val = [] then
          out\<lparr>sc_map := bt_remove key (sc_map out), sc_offsets := bt_remove key (sc_offsets out)\<rparr>
        else out\<lparr>sc_map := bt_insert key val (sc_map out),
                 sc_offsets := bt_insert key off (sc_offsets out)\<rparr>
      else out\<lparr>sc_corrupt := sc_corrupt out + 1\<rparr>)"

lemma next_sector_gt: "off < next_sector off"
proof -
  have "(off + 512) div 512 = off div 512 + 1" by simp
  then show ?thesis using dividend_less_div_times [of 512 off] by (simp add: next_sector_def)
qed

lemma sector_measure: "off + 16 \<le> len \<Longrightarrow> len - next_sector off < len - off"
  using next_sector_gt [of off] by linarith

lemma align_up_ge: "0 < a \<Longrightarrow> n \<le> align_up a n"
proof -
  assume a: "0 < a"
  have "(n + (a - 1)) mod a < a" using a by simp
  moreover have "(n + (a - 1)) div a * a + (n + (a - 1)) mod a = n + (a - 1)"
    by simp
  ultimately show ?thesis unfolding align_up_def using a by linarith
qed

lemma record_size_ge: "HEADER + (klen + vlen) \<le> record_size klen vlen"
  using align_up_ge [of 16 "klen + vlen"] align_up_ge [of 512 "HEADER + align_up 16 (klen + vlen)"]
  by (simp add: record_size_def)

lemma record_size_pos: "0 < record_size klen vlen"
  using record_size_ge [of klen vlen] by (simp add: HEADER_def)

lemma record_measure: "off + 16 \<le> len \<Longrightarrow> len - (off + record_size k v) < len - off"
  using record_size_pos [of k v] by linarith

text \<open>
  The loop of \<open>scan_volume\<close>: it answers the result so far, the offset where it stopped and
  whether it stopped at an erased window.
\<close>

function scan_loop :: "bytes \<Rightarrow> nat \<Rightarrow> scan_result \<Rightarrow> scan_result \<times> nat \<times> bool" where
  "scan_loop data off out =
     (if off + HEADER \<le> length data then
        let hdr = take HEADER (drop off data) in
        if \<not> hdr_shaped hdr then
          if erased hdr then (out, off, True)
          else scan_loop data (next_sector off) (out\<lparr>sc_corrupt := sc_corrupt out + 1\<rparr>)
        else
          let klen = le32_at data (off + 4); vlen = le32_at data (off + 8) in
          if klen > MAX_KLEN \<or> vlen > MAX_VLEN then
            scan_loop data (next_sector off) (out\<lparr>sc_corrupt := sc_corrupt out + 1\<rparr>)
          else
            let total = record_size klen vlen in
            if off + total > length data then (out\<lparr>sc_truncated := True\<rparr>, off, False)
            else if hdr ! 3 = 0 then
              scan_loop data (off + total) (out\<lparr>sc_append_off := max (sc_append_off out) (off + total)\<rparr>)
            else
              let body = take (klen + vlen) (drop (off + HEADER) data);
                  want = (of_nat (le32_at data (off + 12)) :: u32) in
              if crc32 body \<noteq> want then
                scan_loop data (next_sector off) (out\<lparr>sc_corrupt := sc_corrupt out + 1\<rparr>)
              else
                scan_loop data (off + total)
                  (index_record off klen body
                    (out\<lparr>sc_append_off := max (sc_append_off out) (off + total)\<rparr>))
      else (out, off, False))"
  by pat_completeness auto
termination
  by (relation "measure (\<lambda>(data, off, out). length data - off)") (auto simp: HEADER_def record_measure sector_measure)

declare scan_loop.simps [simp del]

definition scan_volume :: "bytes \<Rightarrow> scan_result" where
  "scan_volume data =
     (let (out, off, eof) = scan_loop data 0 scan_start
      in if \<not> eof \<and> off < length data then out\<lparr>sc_truncated := True\<rparr> else out)"

section \<open>Mounting from a checkpoint\<close>

text \<open>The last checkpoint record of the volume: its offset, its end and its body.\<close>

function find_ckpt :: "bytes \<Rightarrow> nat \<Rightarrow> (nat \<times> nat \<times> bytes) option \<Rightarrow> (nat \<times> nat \<times> bytes) option" where
  "find_ckpt data off ckpt =
     (if off + HEADER \<le> length data then
        let hdr = take HEADER (drop off data) in
        if \<not> hdr_shaped hdr then
          if erased hdr then ckpt else find_ckpt data (next_sector off) ckpt
        else
          let klen = le32_at data (off + 4); vlen = le32_at data (off + 8) in
          if klen > MAX_KLEN \<or> vlen > MAX_VLEN then find_ckpt data (next_sector off) ckpt
          else
            let total = record_size klen vlen in
            if off + total > length data then ckpt
            else if hdr ! 3 = 0 then find_ckpt data (off + total) ckpt
            else
              let body = take (klen + vlen) (drop (off + HEADER) data) in
              if crc32 body \<noteq> (of_nat (le32_at data (off + 12)) :: u32)
              then find_ckpt data (next_sector off) ckpt
              else find_ckpt data (off + total)
                (if utf8_valid (take klen body) \<and> take klen body = CKPT_KEY
                 then Some (off, off + total, drop klen body) else ckpt)
      else ckpt)"
  by pat_completeness auto
termination
  by (relation "measure (\<lambda>(data, off, ckpt). length data - off)") (auto simp: HEADER_def record_measure sector_measure)

declare find_ckpt.simps [simp del]

definition rd_ckpt_entry :: "(bytes \<times> nat) reader" where
  "rd_ckpt_entry =
     rbind (rd_uint 2 ''klen'') (\<lambda>n. rbind (rd_room (n + 8) ''entry'') (\<lambda>_.
     rbind (rd_take n ''key'') (\<lambda>s. rbind (\<lambda>data off. and_then (from_utf8 s ''utf8'') (\<lambda>s. Inr (s, off))) (\<lambda>key.
     rbind (rd_uint 8 ''off'') (\<lambda>off. rret (key, off))))))"

text \<open>One entry of the checkpoint against the record it points to.\<close>

definition mount_entry ::
  "bytes \<Rightarrow> nat \<Rightarrow> bytes \<times> nat \<Rightarrow> store \<times> index \<times> nat \<Rightarrow> (store \<times> index \<times> nat) option" where
  "mount_entry data ckpt_off = (\<lambda>(key, r) (map, offsets, append_off).
     if r + HEADER > length data \<or> r \<ge> ckpt_off then None
     else let hdr = take HEADER (drop r data) in
       if take 3 hdr \<noteq> MAGIC_PREFIX \<or> hdr ! 3 \<noteq> of_char CHR ''V'' then None
       else let klen = le32_at data (r + 4); vlen = le32_at data (r + 8);
                total = record_size klen vlen in
         if klen > MAX_KLEN \<or> vlen > MAX_VLEN \<or> vlen = 0 \<or> r + total > length data then None
         else let body = take (klen + vlen) (drop (r + HEADER) data) in
           if crc32 body \<noteq> (of_nat (le32_at data (r + 12)) :: u32) then None
           else if \<not> utf8_valid (take klen body) \<or> take klen body \<noteq> key then None
           else Some (bt_insert key (drop klen body) map, bt_insert key r offsets,
                      max append_off (r + total)))"

fun mount_entries ::
  "bytes \<Rightarrow> nat \<Rightarrow> index \<Rightarrow> store \<times> index \<times> nat \<Rightarrow> (store \<times> index \<times> nat) option" where
  "mount_entries data ckpt_off [] acc = Some acc"
| "mount_entries data ckpt_off (e # es) acc =
     (case mount_entry data ckpt_off e acc of
        None \<Rightarrow> None
      | Some acc' \<Rightarrow> mount_entries data ckpt_off es acc')"

definition try_mount_from_ckpt :: "bytes \<Rightarrow> (store \<times> index \<times> nat) option" where
  "try_mount_from_ckpt data =
     (case find_ckpt data 0 None of
        None \<Rightarrow> None
      | Some (ckpt_off, ckpt_end, body) \<Rightarrow>
          if \<not> erased (drop ckpt_end data) then None
          else if length body < 24 \<or> take 4 body \<noteq> TKCK then None
          else let stored_hash = (of_nat (le_val (take 8 (drop 12 body))) :: u64);
                   n = le32_at body 20 in
            (case rd_many n rd_ckpt_entry body 24 of
               Inl _ \<Rightarrow> None
             | Inr (entries, _) \<Rightarrow>
                 if fnv1a64_entries entries \<noteq> stored_hash then None
                 else mount_entries data ckpt_off entries ([], [], ckpt_end)))"

section \<open>One record read back\<close>

text \<open>
  A volume the code writes is a sequence of slots: a record, and whether its fourth magic byte
  was zeroed later.
\<close>

type_synonym slot = "bool \<times> bytes \<times> bytes"

definition slot_bytes :: "slot \<Rightarrow> bytes" where
  "slot_bytes = (\<lambda>(dead, k, v). if dead then (encode_record k v)[3 := 0] else encode_record k v)"

definition slot_ok :: "slot \<Rightarrow> bool" where
  "slot_ok = (\<lambda>(dead, k, v). op_fits (k, v))"

lemma length_record: "length (encode_record k v) = record_size (length k) (length v)"
proof -
  have "length k + length v \<le> align_up 16 (length k + length v)" by (rule align_up_ge) simp
  moreover have "HEADER + align_up 16 (length k + length v) \<le> record_size (length k) (length v)"
    using align_up_ge [of 512 "HEADER + align_up 16 (length k + length v)"] by (simp add: record_size_def)
  ultimately show ?thesis
    by (simp add: encode_record_def Let_def TKLV_def HEADER_def)
qed

lemma length_slot: "length (slot_bytes (d, k, v)) = record_size (length k) (length v)"
  by (simp add: slot_bytes_def length_record)

lemma TKLV_bytes: "TKLV = MAGIC_PREFIX @ [of_char CHR ''V'']"
  by (simp add: TKLV_def MAGIC_PREFIX_def ascii_def)

lemma length_MAGIC_PREFIX: "length MAGIC_PREFIX = 3"
  by (simp add: MAGIC_PREFIX_def)

definition slot_mark :: "bool \<Rightarrow> u8" where
  "slot_mark d = (if d then 0 else of_char CHR ''V'')"

lemma slot_layout: "\<exists>pad. slot_bytes (d, k, v) =
  (MAGIC_PREFIX @ [slot_mark d] @ le_enc 4 (length k) @ le_enc 4 (length v) @
   le_enc 4 (unat (crc32 (k @ v)))) @ (k @ v) @ pad"
proof -
  have "\<exists>pad. encode_record k v = (MAGIC_PREFIX @ [of_char CHR ''V''] @ le_enc 4 (length k) @
      le_enc 4 (length v) @ le_enc 4 (unat (crc32 (k @ v)))) @ (k @ v) @ pad"
    by (simp add: encode_record_def Let_def TKLV_bytes)
  then obtain pad where "encode_record k v = (MAGIC_PREFIX @ [of_char CHR ''V''] @ le_enc 4 (length k) @
      le_enc 4 (length v) @ le_enc 4 (unat (crc32 (k @ v)))) @ (k @ v) @ pad" by blast
  then show ?thesis
    by (intro exI [of _ pad]) (simp add: slot_bytes_def slot_mark_def list_update_append length_MAGIC_PREFIX)
qed

lemma holds_at_Cons: "holds_at xs off (b # w) \<longleftrightarrow> holds_at xs off [b] \<and> holds_at xs (off + 1) w"
  using holds_at_append_iff [of xs off "[b]" w] by simp

lemma slot_header:
  assumes "op_fits (k, v)" "holds_at data off (slot_bytes (d, k, v))"
  shows "off + HEADER \<le> length data"
    and "off + record_size (length k) (length v) \<le> length data"
    and "hdr_shaped (take HEADER (drop off data))"
    and "take 3 (take HEADER (drop off data)) = MAGIC_PREFIX"
    and "take HEADER (drop off data) ! 3 = slot_mark d"
    and "le32_at data (off + 4) = length k"
    and "le32_at data (off + 8) = length v"
    and "le32_at data (off + 12) = unat (crc32 (k @ v))"
    and "take (length k + length v) (drop (off + HEADER) data) = k @ v"
proof -
  let ?h = "MAGIC_PREFIX @ [slot_mark d] @ le_enc 4 (length k) @ le_enc 4 (length v) @
      le_enc 4 (unat (crc32 (k @ v)))"
  obtain pad where "slot_bytes (d, k, v) = ?h @ (k @ v) @ pad" using slot_layout by blast
  with assms(2) have "holds_at data off (?h @ (k @ v) @ pad)" by (simp only:)
  moreover have lh: "length ?h = HEADER" by (simp add: length_MAGIC_PREFIX HEADER_def)
  ultimately have h: "holds_at data off ?h" "holds_at data (off + HEADER) (k @ v)"
    using holds_at_append_iff [of data off ?h "(k @ v) @ pad"] holds_at_append_iff [of data _ "k @ v" pad]
    by metis+
  have hdr: "take HEADER (drop off data) = ?h" using holds_at_take_drop [OF h(1)] lh by simp
  show "off + HEADER \<le> length data" using holds_at_len [OF h(1)] lh by simp
  show "off + record_size (length k) (length v) \<le> length data"
    using holds_at_len [OF assms(2)] by (simp add: length_slot)
  show "take 3 (take HEADER (drop off data)) = MAGIC_PREFIX"
    unfolding hdr by (simp add: length_MAGIC_PREFIX)
  show mark: "take HEADER (drop off data) ! 3 = slot_mark d"
    unfolding hdr by (simp add: nth_append length_MAGIC_PREFIX)
  show "hdr_shaped (take HEADER (drop off data))"
    using mark unfolding hdr_shaped_def hdr by (simp add: length_MAGIC_PREFIX slot_mark_def)
  have f: "holds_at data (off + 4) (le_enc 4 (length k))" "holds_at data (off + 8) (le_enc 4 (length v))"
    "holds_at data (off + 12) (le_enc 4 (unat (crc32 (k @ v))))"
    using h(1) by (simp_all add: holds_at_append_iff holds_at_Cons [of data "off + 3" "slot_mark d"
        "le_enc 4 (length k) @ le_enc 4 (length v) @ le_enc 4 (unat (crc32 (k @ v)))"] length_MAGIC_PREFIX ac_simps)
  have b: "length k < 256 ^ 4" "length v < 256 ^ 4"
    using assms(1) limits_32 by (auto simp: op_fits_def)
  show "le32_at data (off + 4) = length k" by (rule le32_at_holds [OF f(1) b(1)])
  show "le32_at data (off + 8) = length v" by (rule le32_at_holds [OF f(2) b(2)])
  show "le32_at data (off + 12) = unat (crc32 (k @ v))"
    by (rule le32_at_holds [OF f(3) unat_u32_less])
  show "take (length k + length v) (drop (off + HEADER) data) = k @ v"
    using holds_at_take_drop [OF h(2)] by simp
qed

section \<open>The scan of a written volume\<close>

definition slot_scan :: "nat \<Rightarrow> slot \<Rightarrow> scan_result \<Rightarrow> scan_result" where
  "slot_scan off = (\<lambda>(dead, k, v) out.
     let out = out\<lparr>sc_append_off := max (sc_append_off out) (off + record_size (length k) (length v))\<rparr>
     in if dead then out else index_record off (length k) (k @ v) out)"

lemma mark_zero: "slot_mark d = 0 \<longleftrightarrow> d"
  by (simp add: slot_mark_def)

lemma scan_slot:
  assumes "slot_ok s" "holds_at data off (slot_bytes s)"
  shows "scan_loop data off out = scan_loop data (off + length (slot_bytes s)) (slot_scan off s out)"
proof -
  obtain d k v where s: "s = (d, k, v)" by (cases s)
  have fit: "op_fits (k, v)" using assms(1) s by (simp add: slot_ok_def)
  note h = slot_header [OF fit assms(2) [unfolded s]]
  have lim: "\<not> length k > MAX_KLEN" "\<not> length v > MAX_VLEN" using fit by (auto simp: op_fits_def)
  have room: "\<not> length data < off + record_size (length k) (length v)" using h(2) by simp
  show ?thesis
    unfolding s length_slot
    by (subst scan_loop.simps)
      (simp add: h lim room Let_def slot_scan_def mark_zero)
qed

fun scan_slots :: "nat \<Rightarrow> slot list \<Rightarrow> scan_result \<Rightarrow> scan_result" where
  "scan_slots off [] out = out"
| "scan_slots off (s # ss) out = scan_slots (off + length (slot_bytes s)) ss (slot_scan off s out)"

definition volume :: "slot list \<Rightarrow> bytes" where
  "volume ss = concat (map slot_bytes ss)"

lemma volume_simps [simp]:
  "volume [] = []" "volume (s # ss) = slot_bytes s @ volume ss"
  "volume (ss @ ss') = volume ss @ volume ss'"
  by (simp_all add: volume_def)

lemma scan_loop_slots:
  "list_all slot_ok ss \<Longrightarrow> holds_at data off (volume ss) \<Longrightarrow>
   scan_loop data off out = scan_loop data (off + length (volume ss)) (scan_slots off ss out)"
proof (induction ss arbitrary: off out)
  case Nil
  then show ?case by simp
next
  case (Cons s ss)
  have h: "holds_at data off (slot_bytes s)" "holds_at data (off + length (slot_bytes s)) (volume ss)"
    using Cons.prems(2) by (simp_all add: holds_at_append_iff)
  have "scan_loop data off out = scan_loop data (off + length (slot_bytes s)) (slot_scan off s out)"
    using Cons.prems(1) h(1) by (intro scan_slot) simp_all
  also have "\<dots> = scan_loop data (off + length (slot_bytes s) + length (volume ss))
      (scan_slots (off + length (slot_bytes s)) ss (slot_scan off s out))"
    using Cons.prems(1) h(2) by (intro Cons.IH) simp_all
  finally show ?case by (simp add: add.assoc)
qed

lemma scan_loop_end: "length data < off + HEADER \<Longrightarrow> scan_loop data off out = (out, off, False)"
  by (subst scan_loop.simps) simp

lemma scan_volume_slots:
  assumes "list_all slot_ok ss"
  shows "scan_volume (volume ss) = scan_slots 0 ss scan_start"
  using scan_loop_slots [OF assms holds_at_self] scan_loop_end [of "volume ss" "length (volume ss)"]
  by (simp add: scan_volume_def HEADER_def)

section \<open>The index of a written volume\<close>

definition slot_wf :: "slot \<Rightarrow> bool" where
  "slot_wf = (\<lambda>(dead, k, v). op_fits (k, v) \<and> utf8_valid k)"

definition slot_index :: "nat \<Rightarrow> slot \<Rightarrow> store \<times> index \<Rightarrow> store \<times> index" where
  "slot_index off = (\<lambda>(dead, k, v) (m, idx).
     if dead \<or> k = CKPT_KEY then (m, idx)
     else if v = [] then (bt_remove k m, bt_remove k idx)
     else (bt_insert k v m, bt_insert k off idx))"

fun index_from :: "nat \<Rightarrow> slot list \<Rightarrow> store \<times> index \<Rightarrow> store \<times> index" where
  "index_from off [] p = p"
| "index_from off (s # ss) p = index_from (off + length (slot_bytes s)) ss (slot_index off s p)"

abbreviation index_of :: "slot list \<Rightarrow> store \<times> index" where
  "index_of ss \<equiv> index_from 0 ss ([], [])"

lemma index_from_append:
  "index_from off (ss @ ss') p = index_from (off + length (volume ss)) ss' (index_from off ss p)"
  by (induction ss arbitrary: off p) (simp_all add: add.assoc)

lemma slot_wf_ok: "slot_wf s \<Longrightarrow> slot_ok s"
  by (auto simp: slot_wf_def slot_ok_def)

lemma slots_wf_ok: "list_all slot_wf ss \<Longrightarrow> list_all slot_ok ss"
  by (auto simp: list_all_iff slot_wf_ok)

lemma slot_scan_index:
  assumes "slot_wf s" "sc_append_off out = off"
  shows "slot_scan off s out =
    out\<lparr>sc_map := fst (slot_index off s (sc_map out, sc_offsets out)),
        sc_offsets := snd (slot_index off s (sc_map out, sc_offsets out)),
        sc_append_off := off + length (slot_bytes s)\<rparr>"
proof -
  obtain d k v where s: "s = (d, k, v)" by (cases s)
  have "utf8_valid k" using assms(1) s by (simp add: slot_wf_def)
  then show ?thesis
    using assms(2) s by (simp add: slot_scan_def slot_index_def index_record_def Let_def length_slot)
qed

lemma scan_slots_index:
  "list_all slot_wf ss \<Longrightarrow> sc_append_off out = off \<Longrightarrow>
   scan_slots off ss out =
     out\<lparr>sc_map := fst (index_from off ss (sc_map out, sc_offsets out)),
         sc_offsets := snd (index_from off ss (sc_map out, sc_offsets out)),
         sc_append_off := off + length (volume ss)\<rparr>"
proof (induction ss arbitrary: off out)
  case Nil
  then show ?case by simp
next
  case (Cons s ss)
  let ?out = "slot_scan off s out"
  have o: "?out = out\<lparr>sc_map := fst (slot_index off s (sc_map out, sc_offsets out)),
      sc_offsets := snd (slot_index off s (sc_map out, sc_offsets out)),
      sc_append_off := off + length (slot_bytes s)\<rparr>"
    using Cons.prems by (intro slot_scan_index) simp_all
  have a: "sc_append_off ?out = off + length (slot_bytes s)" by (simp add: o)
  have "list_all slot_wf ss" using Cons.prems by simp
  from Cons.IH [OF this a] have "scan_slots (off + length (slot_bytes s)) ss ?out =
      ?out\<lparr>sc_map := fst (index_from (off + length (slot_bytes s)) ss (sc_map ?out, sc_offsets ?out)),
        sc_offsets := snd (index_from (off + length (slot_bytes s)) ss (sc_map ?out, sc_offsets ?out)),
        sc_append_off := off + length (slot_bytes s) + length (volume ss)\<rparr>" .
  then show ?case by (simp add: o add.assoc)
qed

text \<open>A volume followed by the first bytes of one more record, as a crash leaves it.\<close>

lemma torn_header:
  assumes "op_fits (k, v)" "HEADER \<le> n" "n < length (encode_record k v)"
    and data: "data = pre @ take n (encode_record k v)"
  shows "length pre + HEADER \<le> length data"
    and "hdr_shaped (take HEADER (drop (length pre) data))"
    and "le32_at data (length pre + 4) = length k"
    and "le32_at data (length pre + 8) = length v"
    and "length data < length pre + record_size (length k) (length v)"
proof -
  let ?full = "pre @ encode_record k v"
  have "slot_bytes (False, k, v) = encode_record k v" by (simp add: slot_bytes_def)
  then have "holds_at ?full (length pre) (slot_bytes (False, k, v))" by (simp add: holds_at_suffix)
  note h = slot_header [OF assms(1) this]
  have same: "take j (drop (length pre + i) data) = take j (drop (length pre + i) ?full)" if "i + j \<le> 16" for i j
    using assms(2,3) that by (simp add: data take_drop HEADER_def min_def)
  show "length pre + HEADER \<le> length data" using assms(2,3) by (simp add: data)
  show "hdr_shaped (take HEADER (drop (length pre) data))"
    using h(3) same [of 0 16] by (simp add: HEADER_def)
  show "le32_at data (length pre + 4) = length k" "le32_at data (length pre + 8) = length v"
    using h(6,7) same [of 4 4] same [of 8 4] by (simp_all add: le32_at_def)
  show "length data < length pre + record_size (length k) (length v)"
    using assms(3) by (simp add: data length_record)
qed

lemma scan_loop_torn:
  assumes "op_fits (k, v)" "n < length (encode_record k v)"
    and "data = pre @ take n (encode_record k v)"
  shows "\<exists>b. scan_loop data (length pre) out = (out\<lparr>sc_truncated := sc_truncated out \<or> b\<rparr>, length pre, False)
    \<and> (b \<longrightarrow> 0 < n)"
proof (cases "HEADER \<le> n")
  case False
  then have "scan_loop data (length pre) out = (out, length pre, False)"
    using assms by (intro scan_loop_end) simp
  then show ?thesis by (intro exI [of _ False]) simp
next
  case True
  note h = torn_header [OF assms(1) True assms(2,3)]
  have "\<not> length k > MAX_KLEN" "\<not> length v > MAX_VLEN" using assms(1) by (auto simp: op_fits_def)
  with h have "scan_loop data (length pre) out = (out\<lparr>sc_truncated := True\<rparr>, length pre, False)"
    by (subst scan_loop.simps) (simp add: Let_def)
  then show ?thesis using True by (intro exI [of _ True]) (simp add: HEADER_def)
qed

lemma scan_torn:
  assumes "list_all slot_wf ss" "op_fits (k, v)" "n < length (encode_record k v)"
  shows "scan_volume (volume ss @ take n (encode_record k v)) =
    \<lparr>sc_map = fst (index_of ss), sc_corrupt = 0, sc_truncated = (0 < n),
     sc_offsets = snd (index_of ss), sc_append_off = length (volume ss)\<rparr>"
proof -
  let ?data = "volume ss @ take n (encode_record k v)" and ?off = "length (volume ss)"
  let ?out = "scan_slots 0 ss scan_start"
  have len: "length ?data = ?off + n" using assms(3) by simp
  have l: "scan_loop ?data 0 scan_start = scan_loop ?data ?off ?out"
    using scan_loop_slots [OF slots_wf_ok [OF assms(1)], of ?data 0 scan_start] by (simp add: holds_at_prefix)
  obtain b where "scan_loop ?data ?off ?out = (?out\<lparr>sc_truncated := sc_truncated ?out \<or> b\<rparr>, ?off, False)"
    "b \<longrightarrow> 0 < n"
    using scan_loop_torn [OF assms(2,3) refl] by blast
  moreover have "?out = \<lparr>sc_map = fst (index_of ss), sc_corrupt = 0, sc_truncated = False,
      sc_offsets = snd (index_of ss), sc_append_off = ?off\<rparr>"
    by (simp add: scan_slots_index [OF assms(1)] scan_start_def)
  ultimately show ?thesis using l len by (auto simp: scan_volume_def)
qed

lemma scan_whole:
  assumes "list_all slot_wf ss"
  shows "scan_volume (volume ss) =
    \<lparr>sc_map = fst (index_of ss), sc_corrupt = 0, sc_truncated = False,
     sc_offsets = snd (index_of ss), sc_append_off = length (volume ss)\<rparr>"
  by (simp add: scan_volume_slots [OF slots_wf_ok [OF assms]] scan_slots_index [OF assms] scan_start_def)

section \<open>Where the index points\<close>

definition slot_at :: "slot list \<Rightarrow> nat \<Rightarrow> slot \<Rightarrow> bool" where
  "slot_at ss r s \<longleftrightarrow> (\<exists>pre suf. ss = pre @ s # suf \<and> r = length (volume pre))"

lemma slot_at_append: "slot_at ss r s \<Longrightarrow> slot_at (ss @ ss') r s"
  unfolding slot_at_def by force

lemma slot_at_last: "slot_at (ss @ [s]) (length (volume ss)) s"
  unfolding slot_at_def by blast

lemma slot_at_holds: "slot_at ss r s \<Longrightarrow> holds_at (volume ss) r (slot_bytes s)"
  unfolding slot_at_def using holds_at_suffix holds_at_appendL
  by (fastforce simp: holds_at_append_iff)

definition pointed :: "slot list \<Rightarrow> bytes \<Rightarrow> bytes option \<Rightarrow> nat option \<Rightarrow> bool" where
  "pointed ss k x y \<longleftrightarrow> (x = None \<and> y = None) \<or>
     (\<exists>v r. x = Some v \<and> y = Some r \<and> k \<noteq> CKPT_KEY \<and> v \<noteq> [] \<and> slot_at ss r (False, k, v))"

definition points :: "slot list \<Rightarrow> store \<times> index \<Rightarrow> bool" where
  "points ss = (\<lambda>(m, idx). bt_wf m \<and> bt_wf idx \<and> (\<forall>k. pointed ss k (bt_get m k) (bt_get idx k)))"

lemma pointed_append: "pointed ss k x y \<Longrightarrow> pointed (ss @ ss') k x y"
  unfolding pointed_def using slot_at_append by blast

lemma pointed_None: "pointed ss k None None"
  by (simp add: pointed_def)

lemma pointed_last:
  "k \<noteq> CKPT_KEY \<Longrightarrow> v \<noteq> [] \<Longrightarrow>
   pointed (ss @ [(False, k, v)]) k (Some v) (Some (length (volume ss)))"
  unfolding pointed_def using slot_at_last by blast

lemma points_snoc:
  assumes "points ss (m, idx)"
  shows "points (ss @ [s]) (slot_index (length (volume ss)) s (m, idx))"
proof -
  obtain d k v where s: "s = (d, k, v)" by (cases s)
  have wf: "bt_wf m" "bt_wf idx" using assms by (simp_all add: points_def)
  have old: "pointed (ss @ [s]) j (bt_get m j) (bt_get idx j)" for j
    using assms pointed_append by (simp add: points_def)
  consider "d \<or> k = CKPT_KEY" | "\<not> (d \<or> k = CKPT_KEY)" "v = []" | "\<not> (d \<or> k = CKPT_KEY)" "v \<noteq> []"
    by blast
  then show ?thesis
  proof cases
    case 1
    then show ?thesis using wf old s by (simp add: points_def slot_index_def)
  next
    case 2
    then show ?thesis using wf old s by (simp add: points_def slot_index_def pointed_None)
  next
    case 3
    then have "pointed (ss @ [s]) k (Some v) (Some (length (volume ss)))"
      using pointed_last [of k v ss] s by simp
    with 3 show ?thesis using wf old s by (simp add: points_def slot_index_def)
  qed
qed

lemma index_points: "points ss (index_of ss)"
proof (induction ss rule: rev_induct)
  case Nil
  then show ?case by (simp add: points_def pointed_None)
next
  case (snoc s ss)
  then show ?case
    using points_snoc [of ss "fst (index_of ss)" "snd (index_of ss)" s]
    by (simp add: index_from_append)
qed

section \<open>The mount of a written volume\<close>

lemma CKPT_KEY_utf8: "utf8_valid CKPT_KEY"
  unfolding CKPT_KEY_def ascii_def by (rule utf8_valid_ascii) auto

definition slot_find :: "nat \<Rightarrow> slot \<Rightarrow> (nat \<times> nat \<times> bytes) option \<Rightarrow> (nat \<times> nat \<times> bytes) option" where
  "slot_find off = (\<lambda>(dead, k, v) c.
     if \<not> dead \<and> k = CKPT_KEY then Some (off, off + record_size (length k) (length v), v) else c)"

fun find_from :: "nat \<Rightarrow> slot list \<Rightarrow> (nat \<times> nat \<times> bytes) option \<Rightarrow> (nat \<times> nat \<times> bytes) option" where
  "find_from off [] c = c"
| "find_from off (s # ss) c = find_from (off + length (slot_bytes s)) ss (slot_find off s c)"

lemma find_from_snoc:
  "find_from off (ss @ [s]) c = slot_find (off + length (volume ss)) s (find_from off ss c)"
  by (induction ss arbitrary: off c) (simp_all add: add.assoc)

lemma find_slot:
  assumes "slot_ok s" "holds_at data off (slot_bytes s)"
  shows "find_ckpt data off c = find_ckpt data (off + length (slot_bytes s)) (slot_find off s c)"
proof -
  obtain d k v where s: "s = (d, k, v)" by (cases s)
  have fit: "op_fits (k, v)" using assms(1) s by (simp add: slot_ok_def)
  note h = slot_header [OF fit assms(2) [unfolded s]]
  have lim: "\<not> length k > MAX_KLEN" "\<not> length v > MAX_VLEN" using fit by (auto simp: op_fits_def)
  have room: "\<not> length data < off + record_size (length k) (length v)" using h(2) by simp
  show ?thesis
    unfolding s length_slot
    by (subst find_ckpt.simps)
      (auto simp: h lim room Let_def slot_find_def mark_zero CKPT_KEY_utf8)
qed

lemma find_slots:
  "list_all slot_ok ss \<Longrightarrow> holds_at data off (volume ss) \<Longrightarrow>
   find_ckpt data off c = find_ckpt data (off + length (volume ss)) (find_from off ss c)"
proof (induction ss arbitrary: off c)
  case Nil
  then show ?case by simp
next
  case (Cons s ss)
  have h: "holds_at data off (slot_bytes s)" "holds_at data (off + length (slot_bytes s)) (volume ss)"
    using Cons.prems(2) by (simp_all add: holds_at_append_iff)
  have "find_ckpt data off c = find_ckpt data (off + length (slot_bytes s)) (slot_find off s c)"
    using Cons.prems(1) h(1) by (intro find_slot) simp_all
  also have "\<dots> = find_ckpt data (off + length (slot_bytes s) + length (volume ss))
      (find_from (off + length (slot_bytes s)) ss (slot_find off s c))"
    using Cons.prems(1) h(2) by (intro Cons.IH) simp_all
  finally show ?case by (simp add: add.assoc)
qed

lemma find_ckpt_end: "length data < off + HEADER \<Longrightarrow> find_ckpt data off c = c"
  by (subst find_ckpt.simps) simp

lemma find_ckpt_torn:
  assumes "op_fits (k, v)" "n < length (encode_record k v)"
    and "data = pre @ take n (encode_record k v)"
  shows "find_ckpt data (length pre) c = c"
proof (cases "HEADER \<le> n")
  case False
  then show ?thesis using assms by (intro find_ckpt_end) simp
next
  case True
  note h = torn_header [OF assms(1) True assms(2,3)]
  have "\<not> length k > MAX_KLEN" "\<not> length v > MAX_VLEN" using assms(1) by (auto simp: op_fits_def)
  with h show ?thesis by (subst find_ckpt.simps) (simp add: Let_def)
qed

lemma find_volume_torn:
  assumes "list_all slot_wf ss" "op_fits (k, v)" "n < length (encode_record k v)"
  shows "find_ckpt (volume ss @ take n (encode_record k v)) 0 None = find_from 0 ss None"
  using find_slots [OF slots_wf_ok [OF assms(1)] holds_at_prefix]
    find_ckpt_torn [OF assms(2,3) refl, of "volume ss"] by simp

lemma find_volume:
  assumes "list_all slot_wf ss"
  shows "find_ckpt (volume ss) 0 None = find_from 0 ss None"
  using find_slots [OF slots_wf_ok [OF assms] holds_at_self] find_ckpt_end [of "volume ss" "length (volume ss)"]
  by (simp add: HEADER_def)

lemma find_from_Some:
  "find_from 0 ss None = Some (a, e, b) \<Longrightarrow>
   \<exists>pre post. ss = pre @ (False, CKPT_KEY, b) # post \<and> a = length (volume pre) \<and>
     e = length (volume (pre @ [(False, CKPT_KEY, b)]))"
proof (induction ss rule: rev_induct)
  case Nil
  then show ?case by simp
next
  case (snoc s ss)
  obtain d k v where s: "s = (d, k, v)" by (cases s)
  show ?case
  proof (cases "\<not> d \<and> k = CKPT_KEY")
    case True
    then have eq: "s = (False, CKPT_KEY, b)" "a = length (volume ss)"
      "e = length (volume ss) + length (slot_bytes s)"
      using snoc.prems s by (auto simp: find_from_snoc slot_find_def length_slot)
    have "e = length (volume (ss @ [(False, CKPT_KEY, b)]))" using eq by simp
    with eq(1,2) show ?thesis by blast
  next
    case False
    then have "find_from 0 ss None = Some (a, e, b)"
      using snoc.prems s by (auto simp: find_from_snoc slot_find_def)
    with snoc.IH show ?thesis by fastforce
  qed
qed

lemma not_erased: "\<not> erased (slot_bytes s @ rest)"
proof -
  obtain d k v where s: "s = (d, k, v)" by (cases s)
  obtain pad where "slot_bytes (d, k, v) = (MAGIC_PREFIX @ [slot_mark d] @ le_enc 4 (length k) @
      le_enc 4 (length v) @ le_enc 4 (unat (crc32 (k @ v)))) @ (k @ v) @ pad" using slot_layout by blast
  then show ?thesis by (simp add: s erased_def MAGIC_PREFIX_def ascii_def)
qed

lemma not_erased_torn: "0 < n \<Longrightarrow> \<not> erased (take n (encode_record k v))"
  by (cases n) (simp_all add: erased_def encode_record_def Let_def TKLV_def ascii_def)

text \<open>A volume that goes on behind its last checkpoint is not mounted from it.\<close>

lemma mount_torn:
  assumes "list_all slot_wf ss" "op_fits (k, v)" "0 < n" "n < length (encode_record k v)"
  shows "try_mount_from_ckpt (volume ss @ take n (encode_record k v)) = None"
proof (cases "find_from 0 ss None")
  case None
  then show ?thesis by (simp add: try_mount_from_ckpt_def find_volume_torn [OF assms(1,2,4)])
next
  case (Some c)
  then obtain a e b where c: "find_from 0 ss None = Some (a, e, b)" by (cases c) auto
  from find_from_Some [OF c] obtain pre post where "ss = pre @ (False, CKPT_KEY, b) # post"
    "e = length (volume (pre @ [(False, CKPT_KEY, b)]))" by blast
  then have "drop e (volume ss @ take n (encode_record k v)) = volume post @ take n (encode_record k v)"
    by simp
  moreover have "\<not> erased (volume post @ take n (encode_record k v))"
    using not_erased not_erased_torn [OF assms(3)] by (cases post) simp_all
  ultimately show ?thesis
    using c by (simp add: try_mount_from_ckpt_def find_volume_torn [OF assms(1,2,4)])
qed

lemma mount_no_ckpt:
  assumes "list_all slot_wf ss" "\<And>pre b. ss \<noteq> pre @ [(False, CKPT_KEY, b)]"
  shows "try_mount_from_ckpt (volume ss) = None"
proof (cases "find_from 0 ss None")
  case None
  then show ?thesis by (simp add: try_mount_from_ckpt_def find_volume [OF assms(1)])
next
  case (Some c)
  then obtain a e b where c: "find_from 0 ss None = Some (a, e, b)" by (cases c) auto
  from find_from_Some [OF c] obtain pre post where ss: "ss = pre @ (False, CKPT_KEY, b) # post"
    "e = length (volume (pre @ [(False, CKPT_KEY, b)]))" by blast
  then have "post \<noteq> []" using assms(2) [of pre b] by auto
  then have "\<not> erased (drop e (volume ss))" using ss not_erased by (cases post) simp_all
  then show ?thesis using c by (simp add: try_mount_from_ckpt_def find_volume [OF assms(1)])
qed

section \<open>The body of a checkpoint read back\<close>

definition entry_ok :: "bytes \<times> nat \<Rightarrow> bool" where
  "entry_ok = (\<lambda>(k, r). utf8_valid k \<and> length k \<le> 65535 \<and> k \<noteq> CKPT_KEY \<and> r < 256 ^ 8)"

lemma encode_ckpt_ok:
  assumes "list_all entry_ok idx"
  shows "encode_ckpt a idx = TKCK @ le_enc 8 a @ le_enc 8 (unat (fnv1a64_entries idx)) @
    le_enc 4 (length idx) @ concat (map enc_ckpt_entry idx)"
proof -
  have "filter (\<lambda>(k, off). length k \<le> 65535 \<and> k \<noteq> CKPT_KEY) idx = idx"
    using assms by (intro filter_True) (auto simp: list_all_iff entry_ok_def)
  then show ?thesis by (simp add: encode_ckpt_def)
qed

lemma reads_utf8:
  "utf8_valid s \<Longrightarrow> reads (\<lambda>data off. and_then (from_utf8 s m) (\<lambda>s. Inr (s, off))) [] s"
  by (simp add: reads_def)

lemma reads_ckpt_entry: "entry_ok e \<Longrightarrow> reads rd_ckpt_entry (enc_ckpt_entry e) e"
proof -
  assume ok: "entry_ok e"
  obtain k r where e: "e = (k, r)" by (cases e)
  have "reads (rbind (rd_uint 8 ''off'') (\<lambda>off. rret (k, off))) (le_enc 8 r) (k, r)"
    using ok e by (intro reads_rbind_last [OF reads_rd_uint] reads_rret) (simp add: entry_ok_def)
  then have "reads (rbind (\<lambda>data off. and_then (from_utf8 k ''utf8'') (\<lambda>s. Inr (s, off)))
      (\<lambda>key. rbind (rd_uint 8 ''off'') (\<lambda>off. rret (key, off)))) ([] @ le_enc 8 r) (k, r)"
    using ok e by (intro reads_rbind [OF reads_utf8]) (simp_all add: entry_ok_def)
  then have "reads (rbind (rd_take (length k) ''key'') (\<lambda>s.
      rbind (\<lambda>data off. and_then (from_utf8 s ''utf8'') (\<lambda>s. Inr (s, off)))
      (\<lambda>key. rbind (rd_uint 8 ''off'') (\<lambda>off. rret (key, off))))) (k @ le_enc 8 r) (k, r)"
    by (intro reads_rbind [OF reads_rd_take]) simp
  then have "reads (rbind (rd_room (length k + 8) ''entry'') (\<lambda>_. rbind (rd_take (length k) ''key'') (\<lambda>s.
      rbind (\<lambda>data off. and_then (from_utf8 s ''utf8'') (\<lambda>s. Inr (s, off)))
      (\<lambda>key. rbind (rd_uint 8 ''off'') (\<lambda>off. rret (key, off)))))) (k @ le_enc 8 r) (k, r)"
    by (rule reads_rd_room) simp
  moreover have "length k < 256 ^ 2" using ok e by (simp add: entry_ok_def)
  ultimately show "reads rd_ckpt_entry (enc_ckpt_entry e) e"
    unfolding rd_ckpt_entry_def e enc_ckpt_entry_def prod.case
    by (intro reads_rbind [OF reads_rd_uint])
qed

lemma ckpt_body:
  fixes a :: nat
  assumes "list_all entry_ok idx" "length idx < 256 ^ 4"
  defines "b \<equiv> encode_ckpt a idx"
  shows "24 \<le> length b" and "take 4 b = TKCK"
    and "le_val (take 8 (drop 12 b)) = unat (fnv1a64_entries idx)"
    and "le32_at b 20 = length idx"
    and "rd_many (length idx) rd_ckpt_entry b 24 = Inr (idx, length b)"
proof -
  have b: "b = TKCK @ le_enc 8 a @ le_enc 8 (unat (fnv1a64_entries idx)) @
      le_enc 4 (length idx) @ concat (map enc_ckpt_entry idx)"
    unfolding b_def by (rule encode_ckpt_ok [OF assms(1)])
  have l4: "length TKCK = 4" by (simp add: TKCK_def)
  show len: "24 \<le> length b" and "take 4 b = TKCK" by (simp_all add: b l4)
  have h: "holds_at b 12 (le_enc 8 (unat (fnv1a64_entries idx)))" "holds_at b 20 (le_enc 4 (length idx))"
    "holds_at b 24 (concat (map enc_ckpt_entry idx))"
    using holds_at_self [of b] unfolding b by (simp_all add: holds_at_append_iff l4)
  show "le_val (take 8 (drop 12 b)) = unat (fnv1a64_entries idx)"
    using holds_at_take_drop [OF h(1)] unat_u64_less [of "fnv1a64_entries idx"] by simp
  show "le32_at b 20 = length idx" by (rule le32_at_holds [OF h(2) assms(2)])
  have "reads (rd_many (length idx) rd_ckpt_entry) (concat (map enc_ckpt_entry idx)) idx"
    using assms(1) by (intro reads_rd_many reads_ckpt_entry) (simp add: list_all_iff)
  from readsD [OF this h(3)] show "rd_many (length idx) rd_ckpt_entry b 24 = Inr (idx, length b)"
    by (simp add: b l4)
qed

lemma ckpt_body_length: "list_all entry_ok idx \<Longrightarrow> length idx \<le> length (encode_ckpt a idx)"
proof -
  assume ok: "list_all entry_ok idx"
  have "length idx \<le> length (concat (map enc_ckpt_entry idx))"
    by (induction idx) (auto simp: enc_ckpt_entry_def)
  then show ?thesis by (simp add: encode_ckpt_ok [OF ok])
qed

lemma erased_window: "erased w \<Longrightarrow> \<not> hdr_shaped w"
  by (cases w) (auto simp: erased_def hdr_shaped_def MAGIC_PREFIX_def ascii_def)

lemma erased_take: "erased w \<Longrightarrow> erased (take n w)"
  unfolding erased_def list_all_iff by (auto dest: in_set_takeD)

text \<open>Erased bytes behind the slots, as a pre-formatted region has them, end both loops.\<close>

lemma find_ckpt_erased: "erased tail \<Longrightarrow> find_ckpt (pre @ tail) (length pre) c = c"
  by (subst find_ckpt.simps) (simp add: Let_def erased_window erased_take)

lemma scan_loop_erased:
  "erased tail \<Longrightarrow> HEADER \<le> length tail \<Longrightarrow>
   scan_loop (pre @ tail @ rest) (length pre) out = (out, length pre, True)"
  by (subst scan_loop.simps) (simp add: Let_def erased_window erased_take)

lemma find_ckpt_erased_more:
  "erased tail \<Longrightarrow> HEADER \<le> length tail \<Longrightarrow> find_ckpt (pre @ tail @ rest) (length pre) c = c"
  by (subst find_ckpt.simps) (simp add: Let_def erased_window erased_take)

lemma mount_ckpt_last:
  assumes wf: "list_all slot_wf (pre @ [(False, CKPT_KEY, encode_ckpt a idx)])"
    and ok: "list_all entry_ok idx" and tail: "erased tail"
  defines "ss \<equiv> pre @ [(False, CKPT_KEY, encode_ckpt a idx)]"
  shows "try_mount_from_ckpt (volume ss @ tail) =
    mount_entries (volume ss @ tail) (length (volume pre)) idx ([], [], length (volume ss))"
proof -
  let ?b = "encode_ckpt a idx"
  have "length ?b \<le> MAX_VLEN" using wf by (simp add: slot_wf_def op_fits_def)
  then have small: "length idx < 256 ^ 4" using ckpt_body_length [OF ok, of a] limits_32 by linarith
  note body = ckpt_body [OF ok small, of a]
  have "list_all slot_wf ss" using wf by (simp add: ss_def)
  then have find: "find_ckpt (volume ss @ tail) 0 None =
      Some (length (volume pre), length (volume ss), ?b)"
    using find_slots [OF slots_wf_ok holds_at_prefix, of ss tail None] find_ckpt_erased [OF tail]
    by (simp add: ss_def find_from_snoc slot_find_def length_slot del: volume_simps append_assoc)
      (simp add: length_slot)
  have hash: "of_nat (le_val (take 8 (drop 12 ?b))) = fnv1a64_entries idx"
    unfolding body(3) by simp
  have "\<not> length ?b < 24" using body(1) by simp
  with body(2,5) hash tail show ?thesis
    unfolding try_mount_from_ckpt_def find by (simp add: body(4) Let_def)
qed

text \<open>Each entry of an index that points into the slots is mounted.\<close>

lemma mount_entry_ok:
  assumes "holds_at data r (slot_bytes (False, k, v))" "v \<noteq> []" "slot_wf (False, k, v)"
    and "r + record_size (length k) (length v) \<le> c"
  shows "mount_entry data c (k, r) (m, idx, e) =
    Some (bt_insert k v m, bt_insert k r idx, max e (r + record_size (length k) (length v)))"
proof -
  have fit: "op_fits (k, v)" "utf8_valid k" using assms(3) by (simp_all add: slot_wf_def)
  note h = slot_header [OF fit(1) assms(1)]
  have lim: "\<not> length k > MAX_KLEN" "\<not> length v > MAX_VLEN" using fit by (auto simp: op_fits_def)
  have "\<not> c \<le> r" using record_size_pos [of "length k" "length v"] assms(4) by linarith
  moreover have "\<not> length data < r + HEADER" "\<not> length data < r + record_size (length k) (length v)"
    using h(1,2) by simp_all
  ultimately show ?thesis
    using assms(2) fit(2) lim h(4) [simplified] by (simp add: mount_entry_def h Let_def slot_mark_def)
qed

lemma mount_entry_dead:
  assumes "holds_at data r (slot_bytes (True, k, v))" "slot_wf (True, k, v)"
  shows "mount_entry data c (k', r) acc = None"
proof -
  have "op_fits (k, v)" using assms(2) by (simp add: slot_wf_def)
  note h = slot_header [OF this assms(1)]
  show ?thesis by (cases acc) (simp add: mount_entry_def h Let_def slot_mark_def)
qed

lemma slot_at_inside:
  "slot_at ss r (d, k, v) \<Longrightarrow> r + record_size (length k) (length v) \<le> length (volume ss)"
  using holds_at_len [OF slot_at_holds, of ss r "(d, k, v)"] by (simp add: length_slot)

lemma mount_entries_None:
  "e \<in> set es \<Longrightarrow> (\<And>acc. mount_entry data c e acc = None) \<Longrightarrow> mount_entries data c es acc = None"
  by (induction es arbitrary: acc) (auto split: option.splits)

lemma mount_entries_ok:
  "(\<And>k r. (k, r) \<in> set es \<Longrightarrow> \<exists>v. v \<noteq> [] \<and> slot_at pre r (False, k, v) \<and> slot_wf (False, k, v) \<and> f k = v) \<Longrightarrow>
   length (volume pre) \<le> e \<Longrightarrow>
   mount_entries (volume pre @ rest) (length (volume pre)) es (m, idx, e) =
     Some (fold (\<lambda>(k, v). bt_insert k v) (map (\<lambda>(k, r). (k, f k)) es) m,
           fold (\<lambda>(k, r). bt_insert k r) es idx, e)"
proof (induction es arbitrary: m idx)
  case Nil
  then show ?case by simp
next
  case (Cons x es)
  obtain k r where x: "x = (k, r)" by (cases x)
  from Cons.prems(1) [of k r] x obtain v where v: "v \<noteq> []" "slot_at pre r (False, k, v)"
    "slot_wf (False, k, v)" "f k = v" by auto
  note in_pre = slot_at_inside [OF v(2)]
  note me = mount_entry_ok [OF holds_at_appendL [OF slot_at_holds [OF v(2)]] v(1,3) in_pre, of rest]
  have "max e (r + record_size (length k) (length v)) = e" using in_pre Cons.prems(2) by simp
  then show ?case
    using Cons.IH Cons.prems x v(4) by (simp add: me)
qed

lemma points_wf: "points ss (m, idx) \<Longrightarrow> bt_wf m" "points ss (m, idx) \<Longrightarrow> bt_wf idx"
  by (simp_all add: points_def)

lemma points_index:
  assumes "points ss (m, idx)"
  shows "map (\<lambda>(k, r). (k, the (bt_get m k))) idx = m"
proof (rule bt_eqI)
  have wf: "bt_wf m" "bt_wf idx" using assms by (simp_all add: points_def)
  have keys: "map fst (map (\<lambda>(k, r). (k, the (bt_get m k))) idx) = map fst idx"
    by (simp add: comp_def case_prod_unfold)
  show "bt_wf (map (\<lambda>(k, r). (k, the (bt_get m k))) idx)"
    using wf(2) by (simp add: bt_wf_def comp_def case_prod_unfold)
  show "bt_wf m" by (rule wf(1))
  have "bt_get (map (\<lambda>(k, r). (k, the (bt_get m k))) idx) k = map_option (\<lambda>r. the (bt_get m k)) (bt_get idx k)" for k
    by (induction idx) auto
  moreover have "map_option (\<lambda>r. the (bt_get m k)) (bt_get idx k) = bt_get m k" for k
    using assms by (auto simp: points_def pointed_def dest!: spec [of _ k])
  ultimately show "bt_get (map (\<lambda>(k, r). (k, the (bt_get m k))) idx) = bt_get m" by auto
qed

lemma slot_at_member: "slot_at ss r s \<Longrightarrow> s \<in> set ss"
  by (auto simp: slot_at_def)

lemma index_entry:
  assumes "list_all slot_wf ss" "(k, r) \<in> set (snd (index_of ss))"
  shows "\<exists>v. v \<noteq> [] \<and> slot_at ss r (False, k, v) \<and> slot_wf (False, k, v) \<and> k \<noteq> CKPT_KEY \<and>
    the (bt_get (fst (index_of ss)) k) = v"
proof -
  obtain m idx where p: "index_of ss = (m, idx)" by (cases "index_of ss")
  have pt: "points ss (m, idx)" using index_points [of ss] p by simp
  then have "bt_wf idx" by (simp add: points_def)
  then have g: "bt_get idx k = Some r" using assms(2) p bt_get_iff [of idx k r] by simp
  from pt have "pointed ss k (bt_get m k) (bt_get idx k)" by (simp add: points_def)
  with g obtain v where v: "bt_get m k = Some v" "k \<noteq> CKPT_KEY" "v \<noteq> []" "slot_at ss r (False, k, v)"
    by (auto simp: pointed_def)
  moreover have "slot_wf (False, k, v)"
    using slot_at_member [OF v(4)] assms(1) by (simp add: list_all_iff)
  ultimately show ?thesis using p by simp
qed

lemma index_entries_ok:
  assumes "list_all slot_wf ss" "length (volume ss) < 256 ^ 8"
  shows "list_all entry_ok (snd (index_of ss))"
proof -
  have "entry_ok (k, r)" if kr: "(k, r) \<in> set (snd (index_of ss))" for k r
  proof -
    from index_entry [OF assms(1) kr] obtain v where v: "slot_at ss r (False, k, v)"
      "slot_wf (False, k, v)" "k \<noteq> CKPT_KEY" by blast
    have "r \<le> length (volume ss)" using holds_at_len [OF slot_at_holds [OF v(1)]] by simp
    with v assms(2) show ?thesis
      by (simp add: entry_ok_def slot_wf_def op_fits_def MAX_KLEN_def)
  qed
  then show ?thesis by (auto simp: list_all_iff)
qed

text \<open>A checkpoint of the index, last in the volume, mounts to what a scan would find.\<close>

lemma mount_whole:
  assumes wf: "list_all slot_wf (ss @ [(False, CKPT_KEY, encode_ckpt a (snd (index_of ss)))])"
    and small: "length (volume ss) < 256 ^ 8" and tail: "erased tail"
  defines "all \<equiv> ss @ [(False, CKPT_KEY, encode_ckpt a (snd (index_of ss)))]"
  shows "try_mount_from_ckpt (volume all @ tail) =
    Some (fst (index_of ss), snd (index_of ss), length (volume all))"
proof -
  let ?m = "fst (index_of ss)" and ?idx = "snd (index_of ss)"
  let ?c = "(False, CKPT_KEY, encode_ckpt a ?idx) :: slot"
  have wfs: "list_all slot_wf ss" using wf by simp
  have pt: "points ss (?m, ?idx)" using index_points [of ss] by simp
  have "mount_entries (volume ss @ slot_bytes ?c @ tail) (length (volume ss)) ?idx ([], [], length (volume all)) =
    Some (fold (\<lambda>(k, v). bt_insert k v) (map (\<lambda>(k, r). (k, the (bt_get ?m k))) ?idx) [],
          fold (\<lambda>(k, r). bt_insert k r) ?idx [], length (volume all))"
    using index_entry [OF wfs] by (intro mount_entries_ok) (blast, simp add: all_def)
  also have "\<dots> = Some (?m, ?idx, length (volume all))"
    unfolding points_index [OF pt]
    using bt_rebuild [of "[]" ?m] bt_rebuild [of "[]" ?idx] points_wf [OF pt] by simp
  finally show ?thesis
    using mount_ckpt_last [OF wf index_entries_ok [OF wfs small] tail] by (simp add: all_def)
qed

text \<open>Data behind the erased bytes keeps the mount from happening, and the scan does not reach it.\<close>

lemma mount_hidden:
  assumes "list_all slot_wf ss" "erased tail" "HEADER \<le> length tail"
  shows "try_mount_from_ckpt (volume ss @ tail @ encode_record k v) = None"
proof -
  let ?data = "volume ss @ tail @ encode_record k v"
  have find: "find_ckpt ?data 0 None = find_from 0 ss None"
    using find_slots [OF slots_wf_ok [OF assms(1)] holds_at_prefix] find_ckpt_erased_more [OF assms(2,3)]
    by simp
  have "encode_record k v = slot_bytes (False, k, v)" by (simp add: slot_bytes_def)
  then have ne: "\<not> erased (volume post @ tail @ encode_record k v)" for post
    using not_erased [of "(False, k, v)" "[]"] by (auto simp: erased_def)
  show ?thesis
  proof (cases "find_from 0 ss None")
    case None
    then show ?thesis by (simp add: try_mount_from_ckpt_def find)
  next
    case (Some c)
    then obtain a e b where c: "find_from 0 ss None = Some (a, e, b)" by (cases c) auto
    from find_from_Some [OF c] obtain pre post where ss: "ss = pre @ (False, CKPT_KEY, b) # post"
      "e = length (volume (pre @ [(False, CKPT_KEY, b)]))" by blast
    then have "\<not> erased (drop e ?data)" using ne [of post] by simp
    then show ?thesis using c by (simp add: try_mount_from_ckpt_def find)
  qed
qed

lemma scan_hidden:
  assumes "list_all slot_wf ss" "erased tail" "HEADER \<le> length tail"
  shows "scan_volume (volume ss @ tail @ rest) =
    \<lparr>sc_map = fst (index_of ss), sc_corrupt = 0, sc_truncated = False,
     sc_offsets = snd (index_of ss), sc_append_off = length (volume ss)\<rparr>"
  using scan_loop_slots [OF slots_wf_ok [OF assms(1)] holds_at_prefix, of "tail @ rest" scan_start]
    scan_loop_erased [OF assms(2,3), of "volume ss" rest]
  by (simp add: scan_volume_def scan_slots_index [OF assms(1)] scan_start_def)

lemma scan_erased_tail:
  assumes "list_all slot_wf ss" "erased tail"
  shows "scan_volume (volume ss @ tail) =
    \<lparr>sc_map = fst (index_of ss), sc_corrupt = 0, sc_truncated = (0 < length tail \<and> length tail < HEADER),
     sc_offsets = snd (index_of ss), sc_append_off = length (volume ss)\<rparr>"
proof (cases "HEADER \<le> length tail")
  case True
  then show ?thesis using scan_hidden [OF assms True, of "[]"] by simp
next
  case False
  then have "scan_loop (volume ss @ tail) (length (volume ss)) out = (out, length (volume ss), False)" for out
    by (subst scan_loop.simps) simp
  then show ?thesis
    using False scan_loop_slots [OF slots_wf_ok [OF assms(1)] holds_at_prefix, of tail scan_start]
    by (simp add: scan_volume_def scan_slots_index [OF assms(1)] scan_start_def)
qed

section \<open>Properties\<close>

text \<open>
  A record is a multiple of 512 bytes long, has room for its header, key and value, and
  wastes less than 527 bytes.
\<close>

theorem record_size_bounds:
  "record_size klen vlen mod 512 = 0 \<and> 16 + klen + vlen \<le> record_size klen vlen \<and>
   record_size klen vlen < 16 + klen + vlen + 527 \<and>
   length (encode_record key val) = record_size (length key) (length val)"
proof -
  have up: "align_up a n < n + a" if "0 < a" for a n
  proof -
    have "(n + (a - 1)) div a * a \<le> n + (a - 1)" by (rule div_times_less_eq_dividend)
    then show ?thesis unfolding align_up_def using that by linarith
  qed
  have "record_size klen vlen < 16 + klen + vlen + 527"
    using up [of 16 "klen + vlen"] up [of 512 "16 + align_up 16 (klen + vlen)"]
    by (simp add: record_size_def HEADER_def)
  moreover have "record_size klen vlen mod 512 = 0"
    by (simp add: record_size_def align_up_def)
  ultimately show ?thesis
    using record_size_ge [of klen vlen] by (simp add: HEADER_def length_record)
qed

text \<open>
  The scan of a volume written record by record, with records invalidated in place, finds the
  last live value of every key and its offset; a record cut off at the end by a crash changes
  nothing but the \<open>truncated\<close> flag.
\<close>

theorem scan_reads_volume:
  assumes "list_all slot_wf ss" "op_fits (k, v)" "n < length (encode_record k v)"
  shows "scan_volume (volume ss @ take n (encode_record k v)) =
    \<lparr>sc_map = fst (index_of ss), sc_corrupt = 0, sc_truncated = (0 < n),
     sc_offsets = snd (index_of ss), sc_append_off = length (volume ss)\<rparr>"
  by (rule scan_torn [OF assms])

text \<open>
  C30: a volume whose last record is the checkpoint of its index, with any number of erased bytes
  behind it, mounts from the checkpoint, and to what the full scan of the same bytes finds: the last
  live value of every key, its offset, and the end of the records, where the next one goes.
\<close>

theorem fast_mount_is_scan:
  assumes "list_all slot_wf (ss @ [(False, CKPT_KEY, encode_ckpt a (snd (index_of ss)))])"
    and "length (volume ss) < 256 ^ 8" and "erased tail"
    and "data = volume (ss @ [(False, CKPT_KEY, encode_ckpt a (snd (index_of ss)))]) @ tail"
  shows "try_mount_from_ckpt data =
      Some (sc_map (scan_volume data), sc_offsets (scan_volume data), sc_append_off (scan_volume data)) \<and>
    sc_map (scan_volume data) = fst (index_of ss) \<and> sc_offsets (scan_volume data) = snd (index_of ss) \<and>
    sc_append_off (scan_volume data) + length tail = length data"
proof -
  let ?all = "ss @ [(False, CKPT_KEY, encode_ckpt a (snd (index_of ss)))]"
  have "index_of ?all = index_of ss" by (cases "index_of ss") (simp add: index_from_append slot_index_def)
  then show ?thesis
    using mount_whole [OF assms(1-3)] scan_erased_tail [OF assms(1,3)] unfolding assms(4) by simp
qed

section \<open>Witnesses\<close>

lemma scan_reads_volume_witness:
  "scan_volume (volume [(False, [97], [1])] @ take 20 (encode_record [98] [2])) =
    \<lparr>sc_map = [([97], [1])], sc_corrupt = 0, sc_truncated = True,
     sc_offsets = [([97], 0)], sc_append_off = 512\<rparr>"
proof -
  have "list_all slot_wf [(False, [97], [1])]"
    by (simp add: slot_wf_def op_fits_def MAX_KLEN_def MAX_VLEN_def utf8_valid.simps(2))
  moreover have "op_fits ([98], [2])" by (simp add: small_fit)
  moreover have "record_size (Suc 0) (Suc 0) = 512"
    by (simp add: record_size_def align_up_def HEADER_def)
  moreover have "[97] \<noteq> CKPT_KEY" by (simp add: CKPT_KEY_def ascii_def)
  ultimately show ?thesis
    using scan_reads_volume [of "[(False, [97], [1])]" "[98]" "[2]" 20]
    by (simp add: length_record length_slot slot_index_def)
qed

text \<open>One record, its checkpoint, and a sector of erased flash.\<close>

lemma fast_mount_is_scan_witness:
  "\<exists>data n. data = volume [(False, [97], [1]), (False, CKPT_KEY, encode_ckpt 512 [([97], 0)])] @ replicate 512 0xFF \<and>
     try_mount_from_ckpt data = Some ([([97], [1])], [([97], 0)], n) \<and>
     sc_map (scan_volume data) = [([97], [1])] \<and> n + 512 = length data"
proof -
  let ?ss = "[(False, [97], [1])]"
  let ?data = "volume [(False, [97], [1]), (False, CKPT_KEY, encode_ckpt 512 [([97], 0)])] @ replicate 512 0xFF"
  have sizes: "length CKPT_KEY \<le> MAX_KLEN" "record_size (Suc 0) (Suc 0) = 512"
    by (simp_all add: CKPT_KEY_def MAX_KLEN_def record_size_def align_up_def HEADER_def)
  have key: "[97] \<noteq> CKPT_KEY" by (simp add: CKPT_KEY_def ascii_def)
  then have idx: "index_of ?ss = ([([97], [1])], [([97], 0)])" by (simp add: slot_index_def)
  have "list_all entry_ok [([97], 0)]" using key by (simp add: entry_ok_def utf8_valid.simps(2))
  then have "length (encode_ckpt 512 [([97], 0)]) \<le> MAX_VLEN"
    by (simp add: encode_ckpt_ok enc_ckpt_entry_def TKCK_def MAX_VLEN_def)
  then have wf: "list_all slot_wf (?ss @ [(False, CKPT_KEY, encode_ckpt 512 (snd (index_of ?ss)))])"
    unfolding idx using sizes key by (simp add: slot_wf_def op_fits_def MAX_VLEN_def MAX_KLEN_def CKPT_KEY_utf8 utf8_valid.simps(2))
  have small: "length (volume ?ss) < 256 ^ 8" using sizes by (simp add: length_slot)
  have e: "erased (replicate 512 0xFF)" by (simp add: erased_def list_all_length)
  have d: "?data = volume (?ss @ [(False, CKPT_KEY, encode_ckpt 512 (snd (index_of ?ss)))]) @ replicate 512 0xFF"
    by (simp only: idx snd_conv append.simps)
  from fast_mount_is_scan [OF wf small e d] show ?thesis
    by (intro exI [of _ ?data] exI [of _ "sc_append_off (scan_volume ?data)"]) (simp only: idx fst_conv snd_conv length_replicate simp_thms)
qed

end
