(* ===== verification/Tickv_File.thy ===== *)
theory Tickv_File
  imports Tickv
begin

text \<open>
  \<open>TickvFile\<close> of \<open>src/src/tickv.rs\<close>: the storage backend over a TKLV volume, with its in-place
  invalidation, checkpoint and compaction.  Each system call that may fail is an argument of
  the operation.  \<open>File::flush\<close> of the standard library does nothing, so bytes written
  through the persistent handle of the buffered mode are in the file model at once.
\<close>

section \<open>Keys as strings\<close>

text \<open>\<open>String::from_utf8_lossy\<close>: each maximal broken part becomes U+FFFD.\<close>

definition REPLACEMENT :: bytes where
  "REPLACEMENT = [0xEF, 0xBF, 0xBD]"

fun utf8_lossy :: "bytes \<Rightarrow> bytes" where
  "utf8_lossy [] = []"
| "utf8_lossy (a # r) =
     (if a < 0x80 then a # utf8_lossy r
      else if 0xC2 \<le> a \<and> a \<le> 0xDF then
        (case r of b # r1 \<Rightarrow> if cont_byte b then a # b # utf8_lossy r1 else REPLACEMENT @ utf8_lossy r
         | [] \<Rightarrow> REPLACEMENT)
      else if 0xE0 \<le> a \<and> a \<le> 0xEF then
        (case r of b # r1 \<Rightarrow>
           if second3 a b then
             (case r1 of c # r2 \<Rightarrow>
                if cont_byte c then a # b # c # utf8_lossy r2 else REPLACEMENT @ utf8_lossy r1
              | [] \<Rightarrow> REPLACEMENT)
           else REPLACEMENT @ utf8_lossy r
         | [] \<Rightarrow> REPLACEMENT)
      else if 0xF0 \<le> a \<and> a \<le> 0xF4 then
        (case r of b # r1 \<Rightarrow>
           if second4 a b then
             (case r1 of c # r2 \<Rightarrow>
                if cont_byte c then
                  (case r2 of d # r3 \<Rightarrow>
                     if cont_byte d then a # b # c # d # utf8_lossy r3 else REPLACEMENT @ utf8_lossy r2
                   | [] \<Rightarrow> REPLACEMENT)
                else REPLACEMENT @ utf8_lossy r1
              | [] \<Rightarrow> REPLACEMENT)
           else REPLACEMENT @ utf8_lossy r
         | [] \<Rightarrow> REPLACEMENT)
      else REPLACEMENT @ utf8_lossy r)"

lemma utf8_lossy_valid [simp]: "utf8_valid s \<Longrightarrow> utf8_lossy s = s"
proof (induction s rule: utf8_valid.induct)
  case 1
  then show ?case by simp
next
  case (2 a r)
  have "a < 0x80 \<or> (0xC2 \<le> a \<and> a \<le> 0xDF) \<or> (0xE0 \<le> a \<and> a \<le> 0xEF) \<or> (0xF0 \<le> a \<and> a \<le> 0xF4)"
  proof (rule ccontr)
    assume "\<not> ?thesis"
    then have n: "\<not> a < 0x80" "\<not> (0xC2 \<le> a \<and> a \<le> 0xDF)" "\<not> (0xE0 \<le> a \<and> a \<le> 0xEF)"
      "\<not> (0xF0 \<le> a \<and> a \<le> 0xF4)" by blast+
    show False
      using "2.prems" unfolding utf8_valid.simps if_not_P [OF n(1)] if_not_P [OF n(2)]
        if_not_P [OF n(3)] if_not_P [OF n(4)] .
  qed
  then consider "a < 0x80" | "\<not> a < 0x80" "(0xC2 \<le> a \<and> a \<le> 0xDF) = True"
    | "\<not> a < 0x80" "(0xC2 \<le> a \<and> a \<le> 0xDF) = False" "(0xE0 \<le> a \<and> a \<le> 0xEF) = True"
    | "\<not> a < 0x80" "(0xC2 \<le> a \<and> a \<le> 0xDF) = False" "(0xE0 \<le> a \<and> a \<le> 0xEF) = False"
      "(0xF0 \<le> a \<and> a \<le> 0xF4) = True"
    by blast
  then show ?case
  proof cases
    case 1
    with "2.prems" "2.IH"(1) show ?thesis
      by (simp only: utf8_valid.simps utf8_lossy.simps if_True)
  next
    case 2
    have ih: "utf8_valid r' \<Longrightarrow> utf8_lossy r' = r'" if "r = b # r'" for b r'
      using "2.IH"(2) 2 that by blast
    from "2.prems" have "case r of b # r' \<Rightarrow> cont_byte b \<and> utf8_valid r' | [] \<Rightarrow> False"
      unfolding utf8_valid.simps if_not_P [OF 2(1)] 2(2) if_True .
    then obtain b r' where "r = b # r'" "cont_byte b" "utf8_valid r'" by (auto split: list.splits)
    then show ?thesis using ih unfolding utf8_lossy.simps if_not_P [OF 2(1)] 2(2) if_True by simp
  next
    case 3
    have ih: "utf8_valid r' \<Longrightarrow> utf8_lossy r' = r'" if "r = b # c # r'" for b c r'
      using "2.IH"(3) 3 that by blast
    from "2.prems" have "case r of b # c # r' \<Rightarrow> second3 a b \<and> cont_byte c \<and> utf8_valid r' | _ \<Rightarrow> False"
      unfolding utf8_valid.simps if_not_P [OF 3(1)] 3(2,3) if_True if_False .
    then obtain b c r' where "r = b # c # r'" "second3 a b" "cont_byte c" "utf8_valid r'"
      by (auto split: list.splits)
    then show ?thesis using ih unfolding utf8_lossy.simps if_not_P [OF 3(1)] 3(2,3) if_True if_False by simp
  next
    case 4
    have ih: "utf8_valid r' \<Longrightarrow> utf8_lossy r' = r'" if "r = b # c # d # r'" for b c d r'
      using "2.IH"(4) 4 that by blast
    from "2.prems" have "case r of b # c # d # r' \<Rightarrow>
        second4 a b \<and> cont_byte c \<and> cont_byte d \<and> utf8_valid r' | _ \<Rightarrow> False"
      unfolding utf8_valid.simps if_not_P [OF 4(1)] 4(2,3,4) if_True if_False .
    then obtain b c d r' where "r = b # c # d # r'" "second4 a b" "cont_byte c" "cont_byte d" "utf8_valid r'"
      by (auto split: list.splits)
    then show ?thesis using ih unfolding utf8_lossy.simps if_not_P [OF 4(1)] 4(2,3,4) if_True if_False by simp
  qed
qed

declare utf8_lossy.simps(2) [simp del]

section \<open>State\<close>

record tickv_file =
  tv_disk :: bytes
  tv_map :: store
  tv_offsets :: index
  tv_append_off :: nat
  tv_buffered :: bool
  tv_had_buffered_handle :: bool

definition tv_open :: "bytes \<Rightarrow> tickv_file" where
  "tv_open data =
     (case try_mount_from_ckpt data of
        Some (m, idx, a) \<Rightarrow>
          \<lparr>tv_disk = data, tv_map = m, tv_offsets = idx, tv_append_off = a,
           tv_buffered = False, tv_had_buffered_handle = False\<rparr>
      | None \<Rightarrow>
          let scan = scan_volume data; a = sc_append_off scan in
          \<lparr>tv_disk = (if a < length data then take a data else data),
           tv_map = sc_map scan, tv_offsets = sc_offsets scan, tv_append_off = a,
           tv_buffered = False, tv_had_buffered_handle = False\<rparr>)"

definition tv_open_buffered :: "bytes \<Rightarrow> tickv_file" where
  "tv_open_buffered data = (tv_open data)\<lparr>tv_buffered := True, tv_had_buffered_handle := True\<rparr>"

definition flush_buffered :: "bool \<Rightarrow> tickv_file \<Rightarrow> tickv_file outcome" where
  "flush_buffered ok s =
     (if tv_buffered s \<and> \<not> ok then (Inl (SE_Storage ''flush buffered''), s) else (Inr (), s))"

section \<open>Writing\<close>

text \<open>\<open>write_all(&[b])\<close> after a seek: past the end, the gap reads as zeros.\<close>

definition write_at :: "bytes \<Rightarrow> nat \<Rightarrow> u8 \<Rightarrow> bytes" where
  "write_at data pos b =
     (if pos < length data then data[pos := b] else data @ replicate (pos - length data) 0 @ [b])"

datatype inval_io = Inval_ok | Inval_flush_buffered | Inval_open | Inval_seek | Inval_write | Inval_flush

definition invalidate_in_place :: "inval_io \<Rightarrow> tickv_file \<Rightarrow> nat \<Rightarrow> tickv_file outcome" where
  "invalidate_in_place io s off =
     (case flush_buffered (io \<noteq> Inval_flush_buffered) s of
        (Inl e, s) \<Rightarrow> (Inl e, s)
      | (Inr _, s) \<Rightarrow>
          let s' = s\<lparr>tv_disk := write_at (tv_disk s) (off + 3) 0\<rparr> in
          (case io of
             Inval_open \<Rightarrow> (Inl (SE_Storage ''open invalidate''), s)
           | Inval_seek \<Rightarrow> (Inl (SE_Storage ''seek invalidate''), s)
           | Inval_write \<Rightarrow> (Inl (SE_Storage ''write invalidate''), s)
           | Inval_flush \<Rightarrow> (Inl (SE_Storage ''flush invalidate''), s')
           | _ \<Rightarrow> (Inr (), s')))"

definition tv_append ::
  "append_io \<Rightarrow> tickv_file \<Rightarrow> bytes \<Rightarrow> bytes \<Rightarrow> (sgdb_error + nat) \<times> tickv_file" where
  "tv_append io s key val =
     (let rec = encode_record key val;
          off = tv_append_off s;
          s' = s\<lparr>tv_disk := tv_disk s @ rec\<rparr>;
          done = (Inr off, s'\<lparr>tv_append_off := off + length rec\<rparr>)
      in case io of
           Write_stops n \<Rightarrow> (Inl (SE_Storage ''write''), s\<lparr>tv_disk := tv_disk s @ take n rec\<rparr>)
         | Open_fails \<Rightarrow> if tv_buffered s then done else (Inl (SE_Storage ''open append''), s)
         | Flush_fails \<Rightarrow> if tv_buffered s then done else (Inl (SE_Storage ''flush''), s')
         | Append_ok \<Rightarrow> done)"

text \<open>The invalidation of the record a key has, if it has one.\<close>

definition invalidate_old :: "inval_io \<Rightarrow> tickv_file \<Rightarrow> bytes \<Rightarrow> tickv_file outcome" where
  "invalidate_old io s ks =
     (case bt_get (tv_offsets s) ks of
        Some old_off \<Rightarrow> invalidate_in_place io s old_off
      | None \<Rightarrow> (Inr (), s))"

definition tv_put :: "inval_io \<Rightarrow> append_io \<Rightarrow> tickv_file \<Rightarrow> bytes \<Rightarrow> bytes \<Rightarrow> tickv_file outcome" where
  "tv_put inval io s key val =
     (if length key > MAX_KLEN \<or> length val > MAX_VLEN then (Inl (SE_Storage ''tickv limits''), s)
      else let ks = utf8_lossy key in
        case invalidate_old inval s ks of
          (Inl e, s) \<Rightarrow> (Inl e, s)
        | (Inr _, s) \<Rightarrow>
            (case tv_append io s key val of
               (Inl e, s) \<Rightarrow> (Inl e, s)
             | (Inr off, s) \<Rightarrow>
                 (Inr (), if val = []
                          then s\<lparr>tv_map := bt_remove ks (tv_map s), tv_offsets := bt_remove ks (tv_offsets s)\<rparr>
                          else s\<lparr>tv_offsets := bt_insert ks off (tv_offsets s),
                                 tv_map := bt_insert ks val (tv_map s)\<rparr>)))"

definition tv_delete :: "inval_io \<Rightarrow> append_io \<Rightarrow> tickv_file \<Rightarrow> bytes \<Rightarrow> tickv_file outcome" where
  "tv_delete inval io s key =
     (let ks = utf8_lossy key in
        case invalidate_old inval s ks of
          (Inl e, s) \<Rightarrow> (Inl e, s)
        | (Inr _, s) \<Rightarrow>
            (case tv_append io s key [] of
               (Inl e, s) \<Rightarrow> (Inl e, s)
             | (Inr _, s) \<Rightarrow>
                 (Inr (), s\<lparr>tv_map := bt_remove ks (tv_map s), tv_offsets := bt_remove ks (tv_offsets s)\<rparr>)))"

definition tv_get :: "tickv_file \<Rightarrow> bytes \<Rightarrow> bytes option" where
  "tv_get s key = bt_get (tv_map s) (utf8_lossy key)"

definition tv_scan_prefix :: "tickv_file \<Rightarrow> bytes \<Rightarrow> (bytes \<times> bytes) list" where
  "tv_scan_prefix s p = filter (\<lambda>(k, v). prefix (utf8_lossy p) k) (tv_map s)"

definition tv_checkpoint :: "bool \<Rightarrow> append_io \<Rightarrow> bool \<Rightarrow> tickv_file \<Rightarrow> tickv_file outcome" where
  "tv_checkpoint flush1 io flush2 s =
     (case flush_buffered flush1 s of
        (Inl e, s) \<Rightarrow> (Inl e, s)
      | (Inr _, s) \<Rightarrow>
          (case tv_append io s CKPT_KEY (encode_ckpt (tv_append_off s) (tv_offsets s)) of
             (Inl e, s) \<Rightarrow> (Inl e, s)
           | (Inr _, s) \<Rightarrow> flush_buffered flush2 s))"

text \<open>The offsets and the end of the records \<open>compact\<close> writes.\<close>

fun compact_offsets :: "store \<Rightarrow> nat \<Rightarrow> index \<Rightarrow> index \<times> nat" where
  "compact_offsets [] off idx = (idx, off)"
| "compact_offsets ((k, v) # m) off idx =
     compact_offsets m (off + length (encode_record k v)) (bt_insert k off idx)"

datatype tv_compact_io = TC_ok | TC_flush_buffered | TC_create | TC_write | TC_flush | TC_rename | TC_reopen

definition tv_compact :: "tv_compact_io \<Rightarrow> tickv_file \<Rightarrow> tickv_file outcome" where
  "tv_compact io s =
     (case flush_buffered (io \<noteq> TC_flush_buffered) s of
        (Inl e, s) \<Rightarrow> (Inl e, s)
      | (Inr _, s) \<Rightarrow>
          let s = s\<lparr>tv_buffered := False\<rparr>;
              (idx, a) = compact_offsets (tv_map s) 0 [];
              ckpt_rec = encode_record CKPT_KEY (encode_ckpt a idx);
              s' = s\<lparr>tv_disk := concat (map (\<lambda>(k, v). encode_record k v) (tv_map s)) @ ckpt_rec,
                     tv_offsets := idx, tv_append_off := a + length ckpt_rec\<rparr>
          in (case io of
                TC_create \<Rightarrow> (Inl (SE_Storage ''compact create''), s)
              | TC_write \<Rightarrow> (Inl (SE_Storage ''compact write''), s)
              | TC_flush \<Rightarrow> (Inl (SE_Storage ''compact flush''), s)
              | TC_rename \<Rightarrow> (Inl (SE_Storage ''compact rename''), s)
              | TC_reopen \<Rightarrow>
                  if tv_had_buffered_handle s then (Inl (SE_Storage ''open append''), s') else (Inr (), s')
              | _ \<Rightarrow>
                  (Inr (), if tv_had_buffered_handle s then s'\<lparr>tv_buffered := True\<rparr> else s')))"

definition tv_durability :: "tickv_file \<Rightarrow> durability" where
  "tv_durability s = (if tv_buffered s then Buffered else Flushed)"

definition tv_used_bytes :: "tickv_file \<Rightarrow> nat option" where
  "tv_used_bytes s = Some (length (tv_disk s))"

definition tv_sync_durable :: "bool \<Rightarrow> tickv_file \<Rightarrow> tickv_file outcome" where
  "tv_sync_durable ok s = flush_buffered ok s"

section \<open>Invalidating a slot\<close>

lemma index_at_slot: "slot_at ss r s \<longleftrightarrow> (\<exists>i < length ss. ss ! i = s \<and> r = length (volume (take i ss)))"
proof
  assume "slot_at ss r s"
  then obtain pre suf where "ss = pre @ s # suf" "r = length (volume pre)" by (auto simp: slot_at_def)
  then show "\<exists>i < length ss. ss ! i = s \<and> r = length (volume (take i ss))"
    by (intro exI [of _ "length pre"]) simp
next
  assume "\<exists>i < length ss. ss ! i = s \<and> r = length (volume (take i ss))"
  then show "slot_at ss r s"
    unfolding slot_at_def using id_take_nth_drop by blast
qed

definition kill :: "nat \<Rightarrow> slot list \<Rightarrow> slot list" where
  "kill i ss = ss[i := (True, snd (ss ! i))]"

lemma length_kill [simp]: "length (kill i ss) = length ss"
  by (simp add: kill_def)

lemma length_slot_kill: "length (slot_bytes (True, kv)) = length (slot_bytes (d, kv))"
  by (cases kv) (simp add: length_slot)

lemma length_volume_kill: "i < length ss \<Longrightarrow> length (volume (kill i ss)) = length (volume ss)"
proof -
  assume i: "i < length ss"
  have "length (slot_bytes (True, snd (ss ! i))) = length (slot_bytes (ss ! i))"
    using length_slot_kill [of "snd (ss ! i)" "fst (ss ! i)"] by simp
  then show ?thesis
    unfolding kill_def upd_conv_take_nth_drop [OF i]
    by (subst (3) id_take_nth_drop [OF i]) simp
qed

lemma length_take_kill: "length (volume (take j (kill i ss))) = length (volume (take j ss))"
proof (cases "i < j \<and> i < length ss")
  case True
  then have "take j (kill i ss) = kill i (take j ss)" by (simp add: kill_def take_update_swap)
  then show ?thesis using True length_volume_kill [of i "take j ss"] by simp
next
  case False
  then have "take j (kill i ss) = take j ss"
    by (cases "i < length ss") (auto simp: kill_def list_update_beyond)
  then show ?thesis by simp
qed

lemma slot_bytes_kill: "slot_bytes (True, kv) = (slot_bytes (False, kv))[3 := 0]"
  by (cases kv) (simp add: slot_bytes_def)

lemma volume_kill:
  assumes "i < length ss" "fst (ss ! i) = False"
  shows "write_at (volume ss) (length (volume (take i ss)) + 3) 0 = volume (kill i ss)"
proof -
  obtain kv where s: "ss ! i = (False, kv)" using assms(2) by (cases "ss ! i") auto
  have v: "volume ss = volume (take i ss) @ slot_bytes (False, kv) @ volume (drop (Suc i) ss)"
    by (subst (1) id_take_nth_drop [OF assms(1)]) (simp add: s)
  have "3 < length (slot_bytes (False, kv))"
    using record_size_ge [of "length (fst kv)" "length (snd kv)"]
    by (cases kv) (simp add: length_slot HEADER_def)
  then show ?thesis
    unfolding kill_def upd_conv_take_nth_drop [OF assms(1)] v
    by (simp add: write_at_def s list_update_append slot_bytes_kill)
qed

lemma slots_wf_kill: "list_all slot_wf ss \<Longrightarrow> i < length ss \<Longrightarrow> list_all slot_wf (kill i ss)"
proof -
  assume a: "list_all slot_wf ss" "i < length ss"
  then have "slot_wf (ss ! i)" by (simp add: list_all_length)
  then have "slot_wf (True, snd (ss ! i))" by (auto simp: slot_wf_def split: prod.splits)
  with a show ?thesis by (simp add: kill_def list_all_length nth_list_update)
qed

text \<open>Two indices that differ at one key at most.\<close>

definition agree :: "bytes \<Rightarrow> store \<times> index \<Rightarrow> store \<times> index \<Rightarrow> bool" where
  "agree k p q \<longleftrightarrow> bt_wf (fst p) \<and> bt_wf (snd p) \<and> bt_wf (fst q) \<and> bt_wf (snd q) \<and>
     (\<forall>j. j \<noteq> k \<longrightarrow> bt_get (fst p) j = bt_get (fst q) j \<and> bt_get (snd p) j = bt_get (snd q) j)"

lemma agree_slot: "agree k p q \<Longrightarrow> agree k (slot_index off s p) (slot_index off s q)"
  by (cases p; cases q; cases s) (auto simp: agree_def slot_index_def)

lemma agree_killed: "agree k p q \<Longrightarrow> agree k p (slot_index off (d, k, v) q)"
  by (cases p; cases q) (auto simp: agree_def slot_index_def)

lemma agree_index:
  "agree k p q \<Longrightarrow> agree k (index_from off ss p) (index_from off ss q)"
proof (induction ss arbitrary: off p q)
  case Nil
  then show ?case by simp
next
  case (Cons s ss)
  show ?case unfolding index_from.simps by (rule Cons.IH [OF agree_slot [OF Cons.prems]])
qed

lemma agree_kill:
  assumes "fst (snd (ss ! i)) = k" "i < length ss" "agree k p q"
  shows "agree k (index_from off (kill i ss) p) (index_from off ss q)"
proof -
  obtain d v where s: "ss ! i = (d, k, v)" using assms(1) by (cases "ss ! i") auto
  have len: "length (slot_bytes (True, k, v)) = length (slot_bytes (d, k, v))"
    using length_slot_kill [of "(k, v)" d] .
  have "agree k (index_from off (take i ss) p) (index_from off (take i ss) q)"
    by (rule agree_index [OF assms(3)])
  moreover have "slot_index o' (True, k, v) x = x" for o' x
    by (cases x) (simp add: slot_index_def)
  ultimately have "agree k (slot_index o' (True, k, v) (index_from off (take i ss) p))
      (slot_index o' (d, k, v) (index_from off (take i ss) q))" for o'
    using agree_killed by simp
  then show ?thesis
    unfolding kill_def upd_conv_take_nth_drop [OF assms(2)]
    by (subst (2) id_take_nth_drop [OF assms(2)])
      (simp add: index_from_append s len agree_index)
qed

section \<open>The invariant\<close>

text \<open>
  A checkpoint that ends the volume is of the index of what is before it, or one of its entries
  points to a record that was invalidated since.
\<close>

definition ckpt_sound :: "slot list \<Rightarrow> bool" where
  "ckpt_sound ss \<longleftrightarrow> (\<forall>pre b. ss = pre @ [(False, CKPT_KEY, b)] \<longrightarrow>
     (\<exists>a idx. b = encode_ckpt a idx \<and> list_all entry_ok idx \<and>
       (idx = snd (index_of pre) \<and> length (volume pre) < 256 ^ 8 \<or>
        (\<exists>k r k' v. (k, r) \<in> set idx \<and> slot_at pre r (True, k', v)))))"

lemma ckpt_soundD: "ckpt_sound (pre @ [(False, CKPT_KEY, b)]) \<Longrightarrow>
  \<exists>a idx. b = encode_ckpt a idx \<and> list_all entry_ok idx \<and>
    (idx = snd (index_of pre) \<and> length (volume pre) < 256 ^ 8 \<or>
     (\<exists>k r k' v. (k, r) \<in> set idx \<and> slot_at pre r (True, k', v)))"
  unfolding ckpt_sound_def by blast

definition tv_state :: "slot list \<Rightarrow> bool \<Rightarrow> bool \<Rightarrow> tickv_file" where
  "tv_state ss buf had =
     \<lparr>tv_disk = volume ss, tv_map = fst (index_of ss), tv_offsets = snd (index_of ss),
      tv_append_off = length (volume ss), tv_buffered = buf, tv_had_buffered_handle = had\<rparr>"

text \<open>An overwritten or deleted record is marked: a live one is the one the index points to.\<close>

definition current :: "slot list \<Rightarrow> bool" where
  "current ss \<longleftrightarrow> (\<forall>i < length ss. \<forall>k v. ss ! i = (False, k, v) \<and> k \<noteq> CKPT_KEY \<and> v \<noteq> [] \<longrightarrow>
     bt_get (snd (index_of ss)) k = Some (length (volume (take i ss))))"

definition slots_inv :: "slot list \<Rightarrow> bool" where
  "slots_inv ss \<longleftrightarrow> list_all slot_wf ss \<and> ckpt_sound ss \<and> current ss"

definition tv_inv :: "tickv_file \<Rightarrow> bool" where
  "tv_inv s \<longleftrightarrow> (\<exists>ss. slots_inv ss \<and>
     s = tv_state ss (tv_buffered s) (tv_had_buffered_handle s))"

lemma tv_invI: "slots_inv ss \<Longrightarrow> tv_inv (tv_state ss b h)"
  unfolding tv_inv_def by (intro exI [of _ ss]) (simp add: tv_state_def)

lemma tv_invE:
  assumes "tv_inv s"
  obtains ss where "slots_inv ss"
    "s = tv_state ss (tv_buffered s) (tv_had_buffered_handle s)"
  using assms unfolding tv_inv_def by blast

lemma ckpt_index: "index_of (pre @ [(False, CKPT_KEY, b)]) = index_of pre"
  by (cases "index_of pre") (simp add: index_from_append slot_index_def)

text \<open>Mounting a sound volume: from the checkpoint or by the scan, the same state.\<close>

lemma tv_open_volume:
  assumes wf: "list_all slot_wf ss" and sound: "ckpt_sound ss"
  shows "tv_open (volume ss) = tv_state ss False False"
proof -
  have "try_mount_from_ckpt (volume ss) = None \<or> try_mount_from_ckpt (volume ss) =
      Some (fst (index_of ss), snd (index_of ss), length (volume ss))"
  proof (cases "\<exists>pre b. ss = pre @ [(False, CKPT_KEY, b)]")
    case False
    then show ?thesis using mount_no_ckpt [OF wf] by blast
  next
    case True
    then obtain pre b where ss: "ss = pre @ [(False, CKPT_KEY, b)]" by blast
    from sound ss obtain a idx where b: "b = encode_ckpt a idx" and ok: "list_all entry_ok idx"
      and alt: "idx = snd (index_of pre) \<and> length (volume pre) < 256 ^ 8 \<or>
        (\<exists>k r k' v. (k, r) \<in> set idx \<and> slot_at pre r (True, k', v))"
      unfolding ckpt_sound_def by blast
    have e: "erased []" by (simp add: erased_def)
    from alt show ?thesis
    proof
      assume "idx = snd (index_of pre) \<and> length (volume pre) < 256 ^ 8"
      then show ?thesis
        using mount_whole [of pre a "[]"] wf e unfolding ss b ckpt_index by simp
    next
      assume "\<exists>k r k' v. (k, r) \<in> set idx \<and> slot_at pre r (True, k', v)"
      then obtain k r k' v where d: "(k, r) \<in> set idx" "slot_at pre r (True, k', v)" by blast
      have "slot_wf (True, k', v)"
        using slot_at_member [OF d(2)] wf ss by (simp add: list_all_iff)
      then have "mount_entry (volume ss) c (k, r) acc = None" for c acc
        using mount_entry_dead [OF slot_at_holds [OF slot_at_append [OF d(2)]]] unfolding ss by blast
      then have "mount_entries (volume ss) c idx acc = None" for c acc
        using mount_entries_None [OF d(1)] by blast
      then show ?thesis using mount_ckpt_last [of pre a idx "[]"] wf ok e ss b by simp
    qed
  qed
  then show ?thesis
    using scan_whole [OF wf] by (auto simp: tv_open_def tv_state_def Let_def)
qed

lemma tv_open_torn:
  assumes "list_all slot_wf ss" "ckpt_sound ss" "op_fits (k, v)" "n < length (encode_record k v)"
  shows "tv_open (volume ss @ take n (encode_record k v)) = tv_state ss False False"
proof (cases "n = 0")
  case True
  then show ?thesis using tv_open_volume [OF assms(1,2)] by simp
next
  case False
  then show ?thesis
    using mount_torn [OF assms(1,3) _ assms(4)] scan_torn [OF assms(1,3,4)]
    by (simp add: tv_open_def tv_state_def Let_def)
qed

lemma ckpt_sound_last: "k \<noteq> CKPT_KEY \<or> d \<Longrightarrow> ckpt_sound (ss @ [(d, k, v)])"
  by (auto simp: ckpt_sound_def)

lemma ckpt_sound_Nil: "ckpt_sound []"
  by (simp add: ckpt_sound_def)

lemma ckpt_sound_ckpt:
  assumes "list_all slot_wf ss" "length (volume ss) < 256 ^ 8"
  shows "ckpt_sound (ss @ [(False, CKPT_KEY, encode_ckpt a (snd (index_of ss)))])"
  using index_entries_ok [OF assms] assms(2) unfolding ckpt_sound_def by blast

lemma slot_at_kill:
  "slot_at ss r (True, kv) \<Longrightarrow> slot_at (kill i ss) r (True, kv)"
proof -
  assume "slot_at ss r (True, kv)"
  then obtain j where j: "j < length ss" "ss ! j = (True, kv)" "r = length (volume (take j ss))"
    unfolding index_at_slot by blast
  then have "kill i ss ! j = (True, kv)" by (cases "i = j") (simp_all add: kill_def)
  with j show ?thesis
    unfolding index_at_slot by (intro exI [of _ j]) (simp add: length_take_kill)
qed

lemma slot_at_killed:
  "i < length ss \<Longrightarrow> slot_at (kill i ss) (length (volume (take i ss))) (True, snd (ss ! i))"
  unfolding index_at_slot
  by (intro exI [of _ i]) (simp add: length_take_kill, simp add: kill_def)

lemma ckpt_sound_kill:
  assumes "ckpt_sound ss" "i < length ss" "ss ! i = (False, k, v)" "k \<noteq> CKPT_KEY"
    and "bt_get (snd (index_of ss)) k = Some (length (volume (take i ss)))"
  shows "ckpt_sound (kill i ss)"
  unfolding ckpt_sound_def
proof (intro allI impI)
  fix pre b assume last: "kill i ss = pre @ [(False, CKPT_KEY, b)]"
  have len: "length ss = Suc (length pre)" using arg_cong [OF last, of length] by simp
  have i: "i < length pre"
  proof (rule ccontr)
    assume "\<not> i < length pre"
    then have "i = length pre" using assms(2) len by simp
    then have "kill i ss ! i = (False, CKPT_KEY, b)" using last by simp
    then show False using assms(2) by (simp add: kill_def)
  qed
  have last_ss: "ss ! length pre = (False, CKPT_KEY, b)"
    using arg_cong [OF last, of "\<lambda>xs. xs ! length pre"] i by (simp add: kill_def)
  let ?pre = "take (length pre) ss"
  have ss: "ss = ?pre @ [(False, CKPT_KEY, b)]"
    using take_Suc_conv_app_nth [of "length pre" ss] last_ss len by simp
  have pre: "pre = kill i ?pre"
    using arg_cong [OF last, of "take (length pre)"] i by (simp add: kill_def take_update_swap)
  have ipre: "i < length ?pre" "?pre ! i = (False, k, v)" "take i ?pre = take i ss"
    using i len assms(3) by (simp_all add: min_def)
  have "ckpt_sound (?pre @ [(False, CKPT_KEY, b)])" by (subst ss [symmetric]) (rule assms(1))
  from ckpt_soundD [OF this] obtain a idx where b: "b = encode_ckpt a idx" and ok: "list_all entry_ok idx"
    and alt: "idx = snd (index_of ?pre) \<and> length (volume ?pre) < 256 ^ 8 \<or>
        (\<exists>k r k' v. (k, r) \<in> set idx \<and> slot_at ?pre r (True, k', v))" by blast
  from alt have "\<exists>k r k' v. (k, r) \<in> set idx \<and> slot_at pre r (True, k', v)"
  proof
    assume "idx = snd (index_of ?pre) \<and> length (volume ?pre) < 256 ^ 8"
    then have "idx = snd (index_of ss)" using ckpt_index [of ?pre b] ss by simp
    then have "(k, length (volume (take i ss))) \<in> set idx" using assms(5) map_of_SomeD by metis
    moreover have "slot_at pre (length (volume (take i ss))) (True, k, v)"
      using slot_at_killed [OF ipre(1)] pre ipre by simp
    ultimately show ?thesis by blast
  next
    assume "\<exists>k r k' v. (k, r) \<in> set idx \<and> slot_at ?pre r (True, k', v)"
    then show ?thesis using slot_at_kill [of ?pre _ _ i] pre by metis
  qed
  with b ok show "\<exists>a idx. b = encode_ckpt a idx \<and> list_all entry_ok idx \<and>
      (idx = snd (index_of pre) \<and> length (volume pre) < 256 ^ 8 \<or>
       (\<exists>k r k' v. (k, r) \<in> set idx \<and> slot_at pre r (True, k', v)))" by blast
qed

section \<open>At most one live record per key\<close>

lemma volume_pos_less: "i < j \<Longrightarrow> j \<le> length ss \<Longrightarrow> length (volume (take i ss)) < length (volume (take j ss))"
proof -
  assume ij: "i < j" "j \<le> length ss"
  then have "take (Suc i) ss = take i ss @ [ss ! i]" by (simp add: take_Suc_conv_app_nth)
  then have "length (volume (take (Suc i) ss)) = length (volume (take i ss)) + length (slot_bytes (ss ! i))"
    by simp
  moreover have "0 < length (slot_bytes (ss ! i))"
    using record_size_pos by (cases "ss ! i") (simp only: length_slot)
  moreover have "take j ss = take (Suc i) ss @ drop (Suc i) (take j ss)"
    using ij by (metis Suc_leI append_take_drop_id min.absorb1 take_take)
  then have "length (volume (take (Suc i) ss)) \<le> length (volume (take j ss))"
    by (metis length_append le_add1 volume_simps(3))
  ultimately show ?thesis by linarith
qed

lemma volume_pos_inj:
  "i < length ss \<Longrightarrow> j < length ss \<Longrightarrow> length (volume (take i ss)) = length (volume (take j ss)) \<Longrightarrow> i = j"
  using volume_pos_less [of i j ss] volume_pos_less [of j i ss] by (cases i j rule: linorder_cases) auto

lemma index_pointed: "pointed ss k (bt_get (fst (index_of ss)) k) (bt_get (snd (index_of ss)) k)"
  using index_points [of ss] by (cases "index_of ss") (simp add: points_def)

lemma index_wf: "bt_wf (fst (index_of ss))" "bt_wf (snd (index_of ss))"
  using index_points [of ss] by (cases "index_of ss", simp add: points_def)+

lemma kill_index:
  assumes "current ss" "i < length ss" "ss ! i = (False, k, v)" "v \<noteq> []" "k \<noteq> CKPT_KEY"
  shows "index_of (kill i ss) = (bt_remove k (fst (index_of ss)), bt_remove k (snd (index_of ss)))"
proof -
  have ag: "agree k (index_of (kill i ss)) (index_of ss)"
    using assms(2,3) by (intro agree_kill) (simp_all add: agree_def)
  have none: "bt_get (fst (index_of (kill i ss))) k = None \<and> bt_get (snd (index_of (kill i ss))) k = None"
  proof (rule ccontr)
    assume "\<not> ?thesis"
    then obtain w r where w: "w \<noteq> []" "slot_at (kill i ss) r (False, k, w)"
      using index_pointed [of "kill i ss" k] by (auto simp: pointed_def)
    then obtain j where j: "j < length ss" "kill i ss ! j = (False, k, w)"
      unfolding index_at_slot by auto
    then have "j \<noteq> i" by (auto simp: kill_def)
    then have "ss ! j = (False, k, w)" using j by (simp add: kill_def)
    then have "length (volume (take j ss)) = length (volume (take i ss))"
      using assms j(1) w(1) unfolding current_def by (metis option.inject)
    then show False using volume_pos_inj j(1) assms(2) \<open>j \<noteq> i\<close> by blast
  qed
  have "fst (index_of (kill i ss)) = bt_remove k (fst (index_of ss))"
    and "snd (index_of (kill i ss)) = bt_remove k (snd (index_of ss))"
    using ag none index_wf by (auto simp: agree_def fun_eq_iff intro!: bt_eqI)
  then show ?thesis by (simp add: prod_eq_iff)
qed

lemma current_kill:
  assumes "current ss" "i < length ss" "ss ! i = (False, k, v)" "v \<noteq> []" "k \<noteq> CKPT_KEY"
  shows "current (kill i ss)"
  unfolding current_def kill_index [OF assms] length_take_kill
proof (intro allI impI, elim conjE)
  fix j k' w assume j: "j < length (kill i ss)" "kill i ss ! j = (False, k', w)" "k' \<noteq> CKPT_KEY" "w \<noteq> []"
  then have "j \<noteq> i" by (auto simp: kill_def)
  then have s: "ss ! j = (False, k', w)" using j by (simp add: kill_def)
  then have g: "bt_get (snd (index_of ss)) k' = Some (length (volume (take j ss)))"
    using assms(1) j unfolding current_def by simp
  have "k' \<noteq> k"
  proof
    assume "k' = k"
    then have "length (volume (take j ss)) = length (volume (take i ss))"
      using g assms unfolding current_def by (metis option.inject)
    then show False using volume_pos_inj [of j ss i] j(1) assms(2) \<open>j \<noteq> i\<close> by simp
  qed
  then show "bt_get (snd (bt_remove k (fst (index_of ss)), bt_remove k (snd (index_of ss)))) k' =
      Some (length (volume (take j ss)))" using g by simp
qed

lemma index_of_snoc: "index_of (ss @ [s]) = slot_index (length (volume ss)) s (index_of ss)"
  by (simp add: index_from_append)

lemma current_snoc:
  assumes "current ss" "k = CKPT_KEY \<or> bt_get (snd (index_of ss)) k = None"
  shows "current (ss @ [(False, k, v)])"
  unfolding current_def
proof (intro allI impI, elim conjE)
  fix j k' w
  assume j: "j < length (ss @ [(False, k, v)])" "(ss @ [(False, k, v)]) ! j = (False, k', w)"
    "k' \<noteq> CKPT_KEY" "w \<noteq> []"
  show "bt_get (snd (index_of (ss @ [(False, k, v)]))) k' = Some (length (volume (take j (ss @ [(False, k, v)]))))"
  proof (cases "j < length ss")
    case True
    then have g: "bt_get (snd (index_of ss)) k' = Some (length (volume (take j ss)))"
      using assms(1) j unfolding current_def by (simp add: nth_append)
    then have "k = CKPT_KEY \<or> k' \<noteq> k" using assms(2) by auto
    then show ?thesis
      using g True index_wf(2) [of ss] j(3) by (cases "index_of ss") (auto simp: index_of_snoc slot_index_def)
  next
    case False
    then have "j = length ss" "k' = k" "w = v" using j by (auto simp: nth_append)
    then show ?thesis
      using j index_wf(2) [of ss] by (cases "index_of ss") (simp add: index_of_snoc slot_index_def)
  qed
qed

section \<open>The operations on a healthy volume\<close>

definition tv_fits :: "bytes \<Rightarrow> bytes \<Rightarrow> bool" where
  "tv_fits k v \<longleftrightarrow> op_fits (k, v) \<and> utf8_valid k \<and> k \<noteq> CKPT_KEY"

text \<open>After the invalidation, the volume is that of the store without the key.\<close>

lemma invalidated:
  assumes "slots_inv ss" "k \<noteq> CKPT_KEY"
  obtains ss' where "slots_inv ss'" "length (volume ss') = length (volume ss)"
    "index_of ss' = (bt_remove k (fst (index_of ss)), bt_remove k (snd (index_of ss)))"
    "invalidate_old Inval_ok (tv_state ss b h) k = (Inr (), (tv_state ss b h)\<lparr>tv_disk := volume ss'\<rparr>)"
proof (cases "bt_get (snd (index_of ss)) k")
  case None
  then have "bt_get (fst (index_of ss)) k = None"
    using index_pointed [of ss k] by (auto simp: pointed_def)
  then have "index_of ss = (bt_remove k (fst (index_of ss)), bt_remove k (snd (index_of ss)))"
    using None index_wf by (auto simp: prod_eq_iff fun_eq_iff intro!: bt_eqI)
  moreover have "invalidate_old Inval_ok (tv_state ss b h) k = (Inr (), (tv_state ss b h)\<lparr>tv_disk := volume ss\<rparr>)"
    using None by (simp add: invalidate_old_def tv_state_def)
  ultimately show ?thesis using that [of ss] assms(1) by simp
next
  case (Some r)
  then obtain v where v: "v \<noteq> []" "slot_at ss r (False, k, v)"
    using index_pointed [of ss k] by (auto simp: pointed_def)
  then obtain i where i: "i < length ss" "ss ! i = (False, k, v)" "r = length (volume (take i ss))"
    unfolding index_at_slot by blast
  have inv: "list_all slot_wf ss" "ckpt_sound ss" "current ss"
    using assms(1) by (simp_all add: slots_inv_def)
  have "slots_inv (kill i ss)"
    using slots_wf_kill [OF inv(1) i(1)] ckpt_sound_kill [OF inv(2) i(1,2) assms(2)] Some i(3)
      current_kill [OF inv(3) i(1,2) v(1) assms(2)] by (simp add: slots_inv_def)
  moreover have "invalidate_old Inval_ok (tv_state ss b h) k =
      (Inr (), (tv_state ss b h)\<lparr>tv_disk := volume (kill i ss)\<rparr>)"
    using Some i volume_kill [OF i(1)]
    by (simp add: invalidate_old_def invalidate_in_place_def flush_buffered_def tv_state_def Let_def)
  ultimately show ?thesis
    using that [of "kill i ss"] kill_index [OF inv(3) i(1,2) v(1) assms(2)] length_volume_kill [OF i(1)] by simp
qed

lemma tv_append_ok:
  "tv_append Append_ok s k v = (Inr (tv_append_off s), s\<lparr>tv_disk := tv_disk s @ encode_record k v,
     tv_append_off := tv_append_off s + length (encode_record k v)\<rparr>)"
  by (simp add: tv_append_def Let_def)

lemma record_slot: "slot_bytes (False, k, v) = encode_record k v"
  by (simp add: slot_bytes_def)

lemma slot_index_removed:
  assumes "bt_wf m" "bt_wf idx" "k \<noteq> CKPT_KEY"
  shows "slot_index off (False, k, v) (bt_remove k m, bt_remove k idx) =
    (if v = [] then (bt_remove k m, bt_remove k idx) else (bt_insert k v m, bt_insert k off idx))"
proof -
  have "bt_remove k (bt_remove k m) = bt_remove k m" "bt_remove k (bt_remove k idx) = bt_remove k idx"
    by (simp_all add: bt_remove_def)
  then show ?thesis using assms by (simp add: slot_index_def bt_insert_remove)
qed

lemma put_slots:
  assumes "slots_inv ss'" "tv_fits k v" "bt_get (snd (index_of ss')) k = None"
  shows "slots_inv (ss' @ [(False, k, v)])"
  using assms ckpt_sound_last [of k False ss' v] current_snoc [of ss' k v]
  by (simp add: slots_inv_def slot_wf_def tv_fits_def)

lemma tv_put_ok:
  assumes "slots_inv ss" "tv_fits k v"
  obtains ss' where "slots_inv ss'" "slots_inv (ss' @ [(False, k, v)])"
    "index_of ss' = (bt_remove k (fst (index_of ss)), bt_remove k (snd (index_of ss)))"
    "tv_put Inval_ok Append_ok (tv_state ss b h) k v = (Inr (), tv_state (ss' @ [(False, k, v)]) b h)"
    "\<And>n. tv_disk (snd (tv_put Inval_ok (Write_stops n) (tv_state ss b h) k v)) =
      volume ss' @ take n (encode_record k v)"
proof -
  have k: "k \<noteq> CKPT_KEY" "utf8_valid k" "length k \<le> MAX_KLEN" "length v \<le> MAX_VLEN"
    using assms(2) by (simp_all add: tv_fits_def op_fits_def)
  obtain ss' where ss': "slots_inv ss'" "length (volume ss') = length (volume ss)"
    "index_of ss' = (bt_remove k (fst (index_of ss)), bt_remove k (snd (index_of ss)))"
    "invalidate_old Inval_ok (tv_state ss b h) k = (Inr (), (tv_state ss b h)\<lparr>tv_disk := volume ss'\<rparr>)"
    using invalidated [OF assms(1) k(1)] by blast
  have new: "slots_inv (ss' @ [(False, k, v)])"
    using put_slots [OF ss'(1) assms(2)] by (simp add: ss'(3))
  have "tv_put Inval_ok Append_ok (tv_state ss b h) k v = (Inr (), tv_state (ss' @ [(False, k, v)]) b h)"
    using k ss'(2,4) slot_index_removed [OF index_wf k(1)]
    by (simp add: tv_put_def tv_append_ok index_of_snoc ss'(3) record_slot)
      (simp add: tv_state_def index_of_snoc ss'(3) record_slot)
  moreover have "tv_disk (snd (tv_put Inval_ok (Write_stops n) (tv_state ss b h) k v)) =
      volume ss' @ take n (encode_record k v)" for n
    using k ss'(4) by (simp add: tv_put_def tv_append_def Let_def)
  ultimately show ?thesis using that ss'(1,3) new by blast
qed

lemma tv_delete_put: "length k \<le> MAX_KLEN \<Longrightarrow> tv_delete inval io s k = tv_put inval io s k []"
  by (simp add: tv_delete_def tv_put_def Let_def split: prod.splits sum.splits)

lemma tv_put_inv:
  assumes "tv_inv s" "utf8_valid k" "k \<noteq> CKPT_KEY"
  shows "tv_inv (snd (tv_put Inval_ok Append_ok s k v))"
proof (cases "op_fits (k, v)")
  case True
  then have "tv_fits k v" using assms(2,3) by (simp add: tv_fits_def)
  with assms(1) show ?thesis by (metis tv_invE tv_put_ok tv_invI snd_conv)
next
  case False
  then show ?thesis using assms(1) by (auto simp: tv_put_def op_fits_def)
qed

text \<open>A failure of the invalidation before it writes changes nothing.\<close>

lemma invalidate_fails:
  "io \<noteq> Inval_flush \<Longrightarrow> (\<exists>e. invalidate_old io s k = (Inl e, s)) \<or> invalidate_old io s k = invalidate_old Inval_ok s k"
  by (cases io) (auto simp: invalidate_old_def invalidate_in_place_def flush_buffered_def Let_def
      split: option.splits)

lemma tv_put_fails:
  assumes "io \<noteq> Inval_flush"
  shows "snd (tv_put io a s k v) = s \<or> tv_put io a s k v = tv_put Inval_ok a s k v"
  using invalidate_fails [OF assms, of s "utf8_lossy k"] by (auto simp: tv_put_def)

lemma tv_checkpoint_ok:
  "tv_checkpoint True Append_ok True (tv_state ss b h) =
    (Inr (), tv_state (ss @ [(False, CKPT_KEY, encode_ckpt (length (volume ss)) (snd (index_of ss)))]) b h)"
  unfolding tv_state_def ckpt_index
  by (simp add: tv_checkpoint_def flush_buffered_def tv_append_ok record_slot)

definition ckpt_fits :: "nat \<Rightarrow> index \<Rightarrow> bool" where
  "ckpt_fits a idx \<longleftrightarrow> length (encode_ckpt a idx) \<le> MAX_VLEN \<and> a < 256 ^ 8"

lemma ckpt_slots:
  assumes "slots_inv ss" "ckpt_fits (length (volume ss)) (snd (index_of ss))"
  shows "slots_inv (ss @ [(False, CKPT_KEY, encode_ckpt (length (volume ss)) (snd (index_of ss)))])"
proof -
  have "length CKPT_KEY \<le> MAX_KLEN" by (simp add: CKPT_KEY_def MAX_KLEN_def)
  then show ?thesis
    using assms ckpt_sound_ckpt [of ss] current_snoc [of ss CKPT_KEY]
    by (simp add: slots_inv_def slot_wf_def op_fits_def ckpt_fits_def CKPT_KEY_utf8)
qed

text \<open>The records \<open>compact\<close> writes.\<close>

definition fresh :: "store \<Rightarrow> slot list" where
  "fresh m = map (\<lambda>(k, v). (False, k, v)) m"

lemma fresh_index:
  "(\<And>k v. (k, v) \<in> set m \<Longrightarrow> k \<noteq> CKPT_KEY \<and> v \<noteq> []) \<Longrightarrow>
   index_from off (fresh m) (m0, idx0) =
     (fold (\<lambda>(k, v). bt_insert k v) m m0, fst (compact_offsets m off idx0)) \<and>
   snd (compact_offsets m off idx0) = off + length (volume (fresh m))"
proof (induction m arbitrary: off m0 idx0)
  case Nil
  then show ?case by (simp add: fresh_def)
next
  case (Cons e m)
  obtain k v where e: "e = (k, v)" by (cases e)
  have kv: "k \<noteq> CKPT_KEY" "v \<noteq> []" using Cons.prems e by auto
  have "\<And>k v. (k, v) \<in> set m \<Longrightarrow> k \<noteq> CKPT_KEY \<and> v \<noteq> []" using Cons.prems by auto
  from Cons.IH [OF this] kv e show ?case
    by (simp add: fresh_def slot_index_def record_slot add.assoc)
qed

lemma live_slot:
  assumes "list_all slot_wf ss" "(k, v) \<in> set (fst (index_of ss))"
  shows "k \<noteq> CKPT_KEY \<and> v \<noteq> [] \<and> slot_wf (False, k, v)"
proof -
  have "bt_get (fst (index_of ss)) k = Some v" using assms(2) bt_get_iff [OF index_wf(1)] by simp
  then obtain r where "k \<noteq> CKPT_KEY" "v \<noteq> []" "slot_at ss r (False, k, v)"
    using index_pointed [of ss k] by (auto simp: pointed_def)
  with slot_at_member assms(1) show ?thesis by (metis list_all_iff)
qed

lemma fresh_slots:
  assumes "slots_inv ss"
  defines "m \<equiv> fst (index_of ss)"
  shows "index_of (fresh m) = (m, fst (compact_offsets m 0 []))"
    and "snd (compact_offsets m 0 []) = length (volume (fresh m))"
    and "slots_inv (fresh m)"
proof -
  have wf: "list_all slot_wf ss" using assms(1) by (simp add: slots_inv_def)
  have l: "k \<noteq> CKPT_KEY \<and> v \<noteq> [] \<and> slot_wf (False, k, v)" if "(k, v) \<in> set m" for k v
    using live_slot [OF wf] that by (simp add: m_def)
  have wfm: "bt_wf m" unfolding m_def by (rule index_wf)
  have "fold (\<lambda>(k, v). bt_insert k v) m [] = m" using bt_rebuild [of "[]" m] wfm by simp
  then show idx: "index_of (fresh m) = (m, fst (compact_offsets m 0 []))"
    and "snd (compact_offsets m 0 []) = length (volume (fresh m))"
    using fresh_index [of m 0 "[]" "[]"] l by auto
  have s: "list_all slot_wf (fresh m)" using l by (auto simp: fresh_def list_all_iff)
  have keys: "map (\<lambda>s. fst (snd s)) (fresh m) = map fst m" by (simp add: fresh_def comp_def case_prod_unfold)
  have "current (fresh m)"
    unfolding current_def
  proof (intro allI impI, elim conjE)
    fix i k v assume i: "i < length (fresh m)" "fresh m ! i = (False, k, v)" "k \<noteq> CKPT_KEY" "v \<noteq> []"
    then have im: "i < length m" "m ! i = (k, v)" by (auto simp: fresh_def split: prod.splits)
    then have "bt_get m k = Some v" using bt_get_iff [OF wfm] by (metis nth_mem)
    then obtain r where r: "bt_get (snd (index_of (fresh m))) k = Some r" "slot_at (fresh m) r (False, k, v)"
      using index_pointed [of "fresh m" k] idx by (auto simp: pointed_def)
    then obtain j where j: "j < length (fresh m)" "fresh m ! j = (False, k, v)"
      "r = length (volume (take j (fresh m)))" unfolding index_at_slot by blast
    have "map fst m ! j = k" "map fst m ! i = k" "j < length m"
      using i j unfolding keys [symmetric] by (simp_all add: fresh_def)
    then have "j = i" using bt_wf_distinct [OF wfm] im(1) by (metis length_map nth_eq_iff_index_eq)
    then show "bt_get (snd (index_of (fresh m))) k = Some (length (volume (take i (fresh m))))"
      using r(1) j(3) by simp
  qed
  moreover have "ckpt_sound (fresh m)"
    unfolding ckpt_sound_def
  proof (intro allI impI)
    fix pre b assume "fresh m = pre @ [(False, CKPT_KEY, b)]"
    then have "(False, CKPT_KEY, b) \<in> set (fresh m)" by simp
    then have "(CKPT_KEY, b) \<in> set m" by (auto simp: fresh_def)
    then show "\<exists>a idx. b = encode_ckpt a idx \<and> list_all entry_ok idx \<and>
        (idx = snd (index_of pre) \<and> length (volume pre) < 256 ^ 8 \<or>
         (\<exists>k r k' v. (k, r) \<in> set idx \<and> slot_at pre r (True, k', v)))"
      using l by blast
  qed
  ultimately show "slots_inv (fresh m)" using s by (simp add: slots_inv_def)
qed

lemma volume_fresh: "volume (fresh m) = concat (map (\<lambda>(k, v). encode_record k v) m)"
  by (induction m) (auto simp: fresh_def record_slot)

definition compact_fits :: "store \<Rightarrow> bool" where
  "compact_fits m \<longleftrightarrow> ckpt_fits (snd (compact_offsets m 0 [])) (fst (compact_offsets m 0 []))"

lemma tv_compact_state:
  assumes "slots_inv ss"
  defines "m \<equiv> fst (index_of ss)"
  defines "ck \<equiv> (False, CKPT_KEY, encode_ckpt (length (volume (fresh m))) (snd (index_of (fresh m))))"
  shows "tv_compact TC_ok (tv_state ss b h) = (Inr (), tv_state (fresh m @ [ck]) h h)"
    and "snd (tv_compact io (tv_state ss b h)) \<in>
      {tv_state ss b h, tv_state ss False h, tv_state (fresh m @ [ck]) False h, tv_state (fresh m @ [ck]) h h}"
proof -
  note f = fresh_slots [OF assms(1), folded m_def]
  have st: "(tv_state ss b h)\<lparr>tv_buffered := b', tv_disk := volume (fresh m) @ encode_record CKPT_KEY
        (encode_ckpt (length (volume (fresh m))) (snd (index_of (fresh m)))),
      tv_offsets := snd (index_of (fresh m)),
      tv_append_off := length (volume (fresh m)) + length (encode_record CKPT_KEY
        (encode_ckpt (length (volume (fresh m))) (snd (index_of (fresh m)))))\<rparr> =
    tv_state (fresh m @ [ck]) b' h" for b'
    using f(1) unfolding tv_state_def ck_def ckpt_index by (simp add: record_slot m_def)
  show "tv_compact TC_ok (tv_state ss b h) = (Inr (), tv_state (fresh m @ [ck]) h h)"
    using st [of h] st [of False] f(1,2)
    by (simp add: tv_compact_def flush_buffered_def Let_def case_prod_unfold volume_fresh tv_state_def m_def)
  show "snd (tv_compact io (tv_state ss b h)) \<in>
      {tv_state ss b h, tv_state ss False h, tv_state (fresh m @ [ck]) False h, tv_state (fresh m @ [ck]) h h}"
    using st [of h] st [of False] f(1,2)
    by (cases io) (simp_all add: tv_compact_def flush_buffered_def Let_def case_prod_unfold volume_fresh
        tv_state_def m_def)
qed

section \<open>The trait on a healthy volume\<close>

lemma tv_inv_get: "tv_fits k v \<Longrightarrow> tv_get s k = bt_get (tv_map s) k"
  by (simp add: tv_get_def tv_fits_def)

lemma tv_state_simps [simp]:
  "tv_map (tv_state ss b h) = fst (index_of ss)" "tv_disk (tv_state ss b h) = volume ss"
  "tv_offsets (tv_state ss b h) = snd (index_of ss)" "tv_append_off (tv_state ss b h) = length (volume ss)"
  "tv_buffered (tv_state ss b h) = b" "tv_had_buffered_handle (tv_state ss b h) = h"
  by (simp_all add: tv_state_def)

lemma written_map:
  assumes "index_of ss' = (bt_remove k (fst (index_of ss)), bt_remove k (snd (index_of ss)))" "k \<noteq> CKPT_KEY"
  shows "fst (index_of (ss' @ [(False, k, v)])) = log_apply (k, v) (fst (index_of ss))"
  using slot_index_removed [OF index_wf assms(2)] by (simp add: index_of_snoc assms(1) log_apply_def)

lemma tv_put_result:
  assumes "tv_inv s" "tv_fits k v"
  shows "\<exists>s'. tv_put Inval_ok Append_ok s k v = (Inr (), s') \<and> tv_inv s' \<and>
    tv_map s' = log_apply (k, v) (tv_map s) \<and> bt_wf (tv_map s)"
proof -
  obtain ss where ss: "slots_inv ss" "s = tv_state ss (tv_buffered s) (tv_had_buffered_handle s)"
    using tv_invE [OF assms(1)] by blast
  obtain ss' where ss': "slots_inv (ss' @ [(False, k, v)])"
    "index_of ss' = (bt_remove k (fst (index_of ss)), bt_remove k (snd (index_of ss)))"
    "tv_put Inval_ok Append_ok (tv_state ss (tv_buffered s) (tv_had_buffered_handle s)) k v =
      (Inr (), tv_state (ss' @ [(False, k, v)]) (tv_buffered s) (tv_had_buffered_handle s))"
    using tv_put_ok [OF ss(1) assms(2)] by metis
  have "tv_map s = fst (index_of ss)" using ss(2) by (metis tv_state_simps(1))
  moreover have "k \<noteq> CKPT_KEY" using assms(2) by (simp add: tv_fits_def)
  ultimately show ?thesis
    using ss'(3) ss(2) tv_invI [OF ss'(1)] written_map [OF ss'(2)] index_wf(1) [of ss] by simp
qed

lemma tv_inv_wf: "tv_inv s \<Longrightarrow> bt_wf (tv_map s)"
  by (erule tv_invE) (metis index_wf(1) tv_state_simps(1))

interpretation tvol: kv_store tv_inv "\<lambda>s. bt_get (tv_map s)"
  "tv_put Inval_ok Append_ok" tv_get tv_scan_prefix "tv_delete Inval_ok Append_ok" tv_fits fs_means
proof unfold_locales
  fix s :: tickv_file and k v p
  assume s: "tv_inv s"
  show "tv_get s k = bt_get (tv_map s) k" if "tv_fits k []" by (rule tv_inv_get [OF that])
  show "\<exists>s'. tv_put Inval_ok Append_ok s k v = (Inr (), s') \<and> tv_inv s' \<and>
      bt_get (tv_map s') = (bt_get (tv_map s))(k := fs_means v)" if "tv_fits k v"
    using tv_put_result [OF s that] log_apply_get by fastforce
  show "\<exists>s'. tv_delete Inval_ok Append_ok s k = (Inr (), s') \<and> tv_inv s' \<and>
      bt_get (tv_map s') = (bt_get (tv_map s))(k := None)" if "tv_fits k []"
  proof -
    have "length k \<le> MAX_KLEN" using that by (simp add: tv_fits_def op_fits_def)
    then show ?thesis
      using tv_put_result [OF s that] by (auto simp: tv_delete_put log_apply_def)
  qed
  show "sorted_wrt (<) (map fst (tv_scan_prefix s p))"
    using scan_filter_sorted [OF tv_inv_wf [OF s]] by (simp add: tv_scan_prefix_def)
  show "set (tv_scan_prefix s p) = {(k, v). bt_get (tv_map s) k = Some v \<and> prefix p k}" if "utf8_valid p"
    using scan_filter_set [OF tv_inv_wf [OF s]] that by (simp add: tv_scan_prefix_def)
next
  fix k v show "tv_fits k v \<Longrightarrow> tv_fits k []" by (simp add: tv_fits_def op_fits_def)
qed

section \<open>Sessions with crashes\<close>

text \<open>
  The steps of a session.  A put or delete appends its record in full, or fails before the old record is
  marked, or is cut off by a crash anywhere in the append; a checkpoint may fail to flush or be cut off
  in the same way; a compaction may fail at any point; the file is opened again, with or without a
  buffer, at any time.  The keys are the UTF-8 strings other than the checkpoint's, those of a delete
  not longer than \<open>MAX_KLEN\<close>, and the body of a checkpoint, written or left by a compaction, is one
  that a scan accepts.  Not among the steps are the cases the volume does not survive: an append that
  fails in a process that goes on, leaving its bytes between records, and a delete of a longer key or
  a checkpoint of a larger index, which are written and not read back as records.
\<close>

inductive tv_step :: "tickv_file \<Rightarrow> tickv_file \<Rightarrow> bool" where
  put: "utf8_valid k \<Longrightarrow> k \<noteq> CKPT_KEY \<Longrightarrow> io \<noteq> Inval_flush \<Longrightarrow>
    tv_step s (snd (tv_put io Append_ok s k v))"
| delete: "utf8_valid k \<Longrightarrow> k \<noteq> CKPT_KEY \<Longrightarrow> length k \<le> MAX_KLEN \<Longrightarrow> io \<noteq> Inval_flush \<Longrightarrow>
    tv_step s (snd (tv_delete io Append_ok s k))"
| checkpoint: "ckpt_fits (tv_append_off s) (tv_offsets s) \<Longrightarrow>
    tv_step s (snd (tv_checkpoint flush1 Append_ok flush2 s))"
| compact: "compact_fits (tv_map s) \<Longrightarrow> tv_step s (snd (tv_compact io s))"
| crash: "tv_fits k v \<Longrightarrow> tv_step s (tv_open (tv_disk (snd (tv_put Inval_ok (Write_stops n) s k v))))"
| crash_delete: "tv_fits k [] \<Longrightarrow> tv_step s (tv_open (tv_disk (snd (tv_delete Inval_ok (Write_stops n) s k))))"
| crash_checkpoint: "ckpt_fits (tv_append_off s) (tv_offsets s) \<Longrightarrow>
    tv_step s (tv_open (tv_disk (snd (tv_checkpoint True (Write_stops n) True s))))"
| reopen: "tv_step s (tv_open (tv_disk s))"
| reopen_buffered: "tv_step s (tv_open_buffered (tv_disk s))"

inductive tv_reachable :: "tickv_file \<Rightarrow> bool" where
  init: "tv_reachable (tv_open [])"
| step: "tv_reachable s \<Longrightarrow> tv_step s s' \<Longrightarrow> tv_reachable s'"

lemma tv_open_inv:
  "tv_inv s \<Longrightarrow> tv_open (tv_disk s) = s\<lparr>tv_buffered := False, tv_had_buffered_handle := False\<rparr>"
proof -
  assume "tv_inv s"
  then obtain ss where ss: "slots_inv ss" "s = tv_state ss (tv_buffered s) (tv_had_buffered_handle s)"
    by (rule tv_invE)
  have "tv_disk s = volume ss" using ss(2) by (metis tv_state_simps(2))
  then have "tv_open (tv_disk s) = tv_state ss False False"
    using tv_open_volume ss(1) by (simp add: slots_inv_def)
  also have "\<dots> = (tv_state ss (tv_buffered s) (tv_had_buffered_handle s))
      \<lparr>tv_buffered := False, tv_had_buffered_handle := False\<rparr>" by (simp add: tv_state_def)
  finally show ?thesis using ss(2) by metis
qed

lemma tv_inv_flags: "tv_inv (s\<lparr>tv_buffered := b, tv_had_buffered_handle := h\<rparr>) = tv_inv s"
  by (cases s) (simp add: tv_inv_def tv_state_def)

lemma tv_reopen_inv: "tv_inv s \<Longrightarrow> tv_inv (tv_open (tv_disk s))"
  by (simp add: tv_open_inv tv_inv_flags)

lemma torn_put_open:
  assumes "slots_inv ss" "tv_fits k v"
  shows "\<exists>ss'. slots_inv ss' \<and>
    tv_open (tv_disk (snd (tv_put Inval_ok (Write_stops n) (tv_state ss b h) k v))) = tv_state ss' False False \<and>
    fst (index_of ss') = (if n < length (encode_record k v) then bt_remove k (fst (index_of ss))
                          else log_apply (k, v) (fst (index_of ss)))"
proof -
  obtain ss' where ss': "slots_inv ss'" "slots_inv (ss' @ [(False, k, v)])"
    "index_of ss' = (bt_remove k (fst (index_of ss)), bt_remove k (snd (index_of ss)))"
    "\<And>n. tv_disk (snd (tv_put Inval_ok (Write_stops n) (tv_state ss b h) k v)) =
      volume ss' @ take n (encode_record k v)"
    using tv_put_ok [OF assms] by metis
  have k: "op_fits (k, v)" "k \<noteq> CKPT_KEY" using assms(2) by (simp_all add: tv_fits_def)
  show ?thesis
  proof (cases "n < length (encode_record k v)")
    case True
    then have "tv_open (volume ss' @ take n (encode_record k v)) = tv_state ss' False False"
      using tv_open_torn [OF _ _ k(1)] ss'(1) by (simp add: slots_inv_def)
    then show ?thesis using True ss'(1,3,4) by (intro exI [of _ ss']) simp
  next
    case False
    then have "volume ss' @ take n (encode_record k v) = volume (ss' @ [(False, k, v)])"
      by (simp add: record_slot)
    moreover have "tv_open (volume (ss' @ [(False, k, v)])) = tv_state (ss' @ [(False, k, v)]) False False"
      using ss'(2) by (intro tv_open_volume) (simp_all only: slots_inv_def)
    ultimately show ?thesis
      using False ss'(2,4) written_map [OF ss'(3) k(2)]
      by (intro exI [of _ "ss' @ [(False, k, v)]"]) (simp del: volume_simps)
  qed
qed

lemma tv_ckpt_record: "length CKPT_KEY \<le> MAX_KLEN"
  by (simp add: CKPT_KEY_def MAX_KLEN_def)

lemma torn_checkpoint_open:
  assumes "slots_inv ss" "ckpt_fits (length (volume ss)) (snd (index_of ss))"
  shows "tv_inv (tv_open (tv_disk (snd (tv_checkpoint True (Write_stops n) True (tv_state ss b h)))))"
proof -
  let ?b = "encode_ckpt (length (volume ss)) (snd (index_of ss))"
  let ?r = "encode_record CKPT_KEY ?b"
  have wf: "list_all slot_wf ss" "ckpt_sound ss" using assms(1) by (simp_all add: slots_inv_def)
  have fits: "op_fits (CKPT_KEY, ?b)" using assms(2) tv_ckpt_record by (simp add: op_fits_def ckpt_fits_def)
  have disk: "tv_disk (snd (tv_checkpoint True (Write_stops n) True (tv_state ss b h))) = volume ss @ take n ?r"
    by (simp add: tv_checkpoint_def flush_buffered_def tv_append_def tv_state_def Let_def)
  show ?thesis
  proof (cases "n < length ?r")
    case True
    then show ?thesis unfolding disk tv_open_torn [OF wf fits True] using tv_invI [OF assms(1)] by simp
  next
    case False
    have all: "slots_inv (ss @ [(False, CKPT_KEY, ?b)])" by (rule ckpt_slots [OF assms])
    have "volume ss @ take n ?r = volume (ss @ [(False, CKPT_KEY, ?b)])" using False by (simp add: record_slot)
    moreover have "tv_open (volume (ss @ [(False, CKPT_KEY, ?b)])) = tv_state (ss @ [(False, CKPT_KEY, ?b)]) False False"
      using all by (intro tv_open_volume) (simp_all only: slots_inv_def)
    ultimately show ?thesis unfolding disk using tv_invI [OF all] by simp
  qed
qed

lemma checkpoint_flushes:
  "snd (tv_checkpoint flush1 Append_ok flush2 s) = s \<or>
   snd (tv_checkpoint flush1 Append_ok flush2 s) = snd (tv_checkpoint True Append_ok True s)"
  by (auto simp: tv_checkpoint_def flush_buffered_def tv_append_def Let_def split: prod.splits sum.splits)

lemma tv_step_inv: "tv_step s s' \<Longrightarrow> tv_inv s \<Longrightarrow> tv_inv s'"
proof (induction rule: tv_step.induct)
  case (put k io s v)
  then show ?case using tv_put_inv tv_put_fails [OF put(3), of Append_ok s k v] by metis
next
  case (delete k io s)
  then show ?case
    unfolding tv_delete_put [OF delete(3)]
    using tv_put_inv tv_put_fails [OF delete(4), of Append_ok s k "[]"] by metis
next
  case (checkpoint s flush1 flush2)
  then obtain ss where ss: "slots_inv ss" "s = tv_state ss (tv_buffered s) (tv_had_buffered_handle s)"
    using tv_invE by blast
  have "ckpt_fits (length (volume ss)) (snd (index_of ss))"
    using checkpoint(1) ss(2) by (metis tv_state_simps(3,4))
  from ckpt_slots [OF ss(1) this] have "tv_inv (snd (tv_checkpoint True Append_ok True s))"
    by (subst ss(2)) (simp only: tv_checkpoint_ok snd_conv tv_invI)
  then show ?case using checkpoint_flushes [of flush1 flush2 s] checkpoint(2) by metis
next
  case (compact s io)
  then obtain ss where ss: "slots_inv ss" "s = tv_state ss (tv_buffered s) (tv_had_buffered_handle s)"
    using tv_invE by blast
  have m: "tv_map s = fst (index_of ss)" using ss(2) by (metis tv_state_simps(1))
  note f = fresh_slots [OF ss(1)]
  have "ckpt_fits (length (volume (fresh (fst (index_of ss))))) (snd (index_of (fresh (fst (index_of ss)))))"
    using compact(1) f(1,2) by (simp add: compact_fits_def m)
  from ckpt_slots [OF f(3) this] tv_compact_state(2) [OF ss(1), of io "tv_buffered s" "tv_had_buffered_handle s"]
  show ?case by (subst ss(2)) (auto simp only: insert_iff empty_iff intro: tv_invI [OF ss(1)] tv_invI)
next
  case (crash k v s n)
  then obtain ss where ss: "slots_inv ss" "s = tv_state ss (tv_buffered s) (tv_had_buffered_handle s)"
    using tv_invE by blast
  from torn_put_open [OF ss(1) crash(1), of n "tv_buffered s" "tv_had_buffered_handle s"] ss(2)
  show ?case by (metis tv_invI)
next
  case (crash_delete k s n)
  then obtain ss where ss: "slots_inv ss" "s = tv_state ss (tv_buffered s) (tv_had_buffered_handle s)"
    using tv_invE by blast
  have "length k \<le> MAX_KLEN" using crash_delete(1) by (simp add: tv_fits_def op_fits_def)
  from torn_put_open [OF ss(1) crash_delete(1), of n "tv_buffered s" "tv_had_buffered_handle s"] ss(2)
  show ?case unfolding tv_delete_put [OF \<open>length k \<le> MAX_KLEN\<close>] by (metis tv_invI)
next
  case (crash_checkpoint s n)
  then obtain ss where ss: "slots_inv ss" "s = tv_state ss (tv_buffered s) (tv_had_buffered_handle s)"
    using tv_invE by blast
  have "ckpt_fits (length (volume ss)) (snd (index_of ss))"
    using crash_checkpoint(1) ss(2) by (metis tv_state_simps(3,4))
  from torn_checkpoint_open [OF ss(1) this, of n "tv_buffered s" "tv_had_buffered_handle s"] ss(2)
  show ?case by metis
qed (simp_all add: tv_reopen_inv tv_open_buffered_def tv_inv_flags)

lemma tv_reachable_inv: "tv_reachable s \<Longrightarrow> tv_inv s"
proof (induction rule: tv_reachable.induct)
  case init
  have "slots_inv []" by (simp add: slots_inv_def ckpt_sound_Nil current_def)
  then show ?case
    using tv_open_volume [of "[]"] by (simp add: slots_inv_def tv_invI)
next
  case (step s s')
  then show ?case using tv_step_inv by blast
qed

section \<open>A key that carries a record\<close>

definition crafted_key :: "bytes \<Rightarrow> bytes \<Rightarrow> bytes \<Rightarrow> bytes \<Rightarrow> bytes" where
  "crafted_key pad k v zeros = pad @ encode_record k v @ zeros"

lemma crafted_volume:
  assumes "length pad = 496" "erased zeros" "16 \<le> length zeros" "tv_fits k v" "v \<noteq> []"
    and "MAX_KLEN < length (crafted_key pad k v zeros)" "length (crafted_key pad k v zeros) < 256 ^ 4"
  defines "data \<equiv> encode_record (crafted_key pad k v zeros) []"
  shows "scan_volume data = \<lparr>sc_map = [(k, v)], sc_corrupt = 1, sc_truncated = False,
      sc_offsets = [(k, 512)], sc_append_off = 512 + length (encode_record k v)\<rparr>"
    and "try_mount_from_ckpt data = None"
proof -
  let ?key = "crafted_key pad k v zeros" and ?out = "scan_start\<lparr>sc_corrupt := 1\<rparr>"
  have k: "op_fits (k, v)" "utf8_valid k" "k \<noteq> CKPT_KEY" using assms(4) by (simp_all add: tv_fits_def)
  define h where "h = MAGIC_PREFIX @ [slot_mark False] @ le_enc 4 (length ?key) @ le_enc 4 0 @
      le_enc 4 (unat (crc32 (?key @ [])))"
  have lh: "length h = 16" by (simp add: h_def length_MAGIC_PREFIX)
  have hsh: "hdr_shaped h" by (simp add: h_def hdr_shaped_def length_MAGIC_PREFIX slot_mark_def nth_append)
  obtain pad2 where "data = h @ ?key @ pad2"
    using slot_layout [of False ?key "[]"] by (auto simp: h_def data_def record_slot)
  then have data: "data = (h @ pad) @ encode_record k v @ zeros @ pad2" by (simp add: crafted_key_def)
  have hdr: "take HEADER (drop 0 data) = h" using lh by (simp add: data HEADER_def)
  have "holds_at data 4 (le_enc 4 (length ?key))"
    by (rule holds_atI [where pre = "MAGIC_PREFIX @ [slot_mark False]" and
        suf = "le_enc 4 0 @ le_enc 4 (unat (crc32 (?key @ []))) @ pad @ encode_record k v @ zeros @ pad2"])
      (simp_all add: data h_def length_MAGIC_PREFIX)
  then have kl: "le32_at data (0 + 4) = length ?key" using le32_at_holds assms(7) by simp
  have len: "0 + HEADER \<le> length data" using lh by (simp add: data HEADER_def)
  have n512: "next_sector 0 = 512" by (simp add: next_sector_def)
  have at: "holds_at data 512 (slot_bytes (False, k, v))"
    by (rule holds_atI [OF data [folded record_slot]]) (simp add: lh assms(1))
  have ok: "slot_ok (False, k, v)" using k by (simp add: slot_ok_def)
  have pos: "length ((h @ pad) @ encode_record k v) = 512 + length (encode_record k v)"
    by (simp add: lh assms(1))
  have er: "scan_loop data (512 + length (encode_record k v)) o' = (o', 512 + length (encode_record k v), True)" for o'
    using scan_loop_erased [OF assms(2), of "(h @ pad) @ encode_record k v" pad2 o'] assms(3) pos
    unfolding data HEADER_def by (simp only: append_assoc)
  have "scan_loop data 0 scan_start = scan_loop data 512 ?out"
    using len hdr hsh kl assms(6) n512 by (subst scan_loop.simps) (simp add: Let_def scan_start_def)
  also have "\<dots> = scan_loop data (512 + length (encode_record k v)) (slot_scan 512 (False, k, v) ?out)"
    using scan_slot [OF ok at] by (simp add: record_slot)
  finally show "scan_volume data = \<lparr>sc_map = [(k, v)], sc_corrupt = 1, sc_truncated = False,
      sc_offsets = [(k, 512)], sc_append_off = 512 + length (encode_record k v)\<rparr>"
    using k assms(5) er by (simp add: scan_volume_def slot_scan_def index_record_def Let_def scan_start_def length_record)
  have fe: "find_ckpt data (512 + length (encode_record k v)) None = None"
    using find_ckpt_erased_more [OF assms(2), of "(h @ pad) @ encode_record k v" pad2 None] assms(3) pos
    unfolding data HEADER_def by (simp only: append_assoc)
  have "find_ckpt data 0 None = find_ckpt data 512 None"
    using len hdr hsh kl assms(6) n512 by (subst find_ckpt.simps) (simp add: Let_def)
  also have "\<dots> = None" using find_slot [OF ok at] k(3) fe by (simp add: record_slot slot_find_def)
  finally show "try_mount_from_ckpt data = None" by (simp add: try_mount_from_ckpt_def)
qed

section \<open>Properties\<close>

text \<open>
  C4: in every state that the steps above reach from an empty volume, opening the volume again gives
  the same map, offsets and end, whether it mounts from a checkpoint or by the scan.  The steps are
  puts and deletes whose append succeeds or whose invalidation fails before it writes, checkpoints with
  or without errors of their flushes, compactions that work or fail at any point, crashes anywhere in
  the append of a put, a delete or a checkpoint, followed by an opening, and openings with or without a
  buffer.  They are restricted to UTF-8 keys other than the checkpoint's, to keys of deletes of at most
  \<open>MAX_KLEN\<close> bytes and to checkpoints and compactions whose checkpoint body has at most \<open>MAX_VLEN\<close> bytes.
  Outside of these bounds the claim fails: a delete of a longer key is not checked by the code and can
  inject a record at the next opening.
\<close>

theorem tickv_durable:
  assumes "tv_reachable s"
  shows "tv_open (tv_disk s) = s\<lparr>tv_buffered := False, tv_had_buffered_handle := False\<rparr>"
  by (rule tv_open_inv [OF tv_reachable_inv [OF assms]])

text \<open>
  C15: after a crash \<open>n\<close> bytes into the append of a put, the volume opens to the other keys
  unchanged and, for the key itself, to the new value where the record was complete; otherwise
  the key has no value at all, since its old record was invalidated before.
\<close>

theorem tickv_crash_in_put:
  assumes "tv_reachable s" "tv_fits k v"
  shows "tv_map (tv_open (tv_disk (snd (tv_put Inval_ok (Write_stops n) s k v)))) =
    (if n < length (encode_record k v) then bt_remove k (tv_map s) else log_apply (k, v) (tv_map s))"
proof -
  obtain ss where ss: "slots_inv ss" "s = tv_state ss (tv_buffered s) (tv_had_buffered_handle s)"
    using tv_invE [OF tv_reachable_inv [OF assms(1)]] by blast
  have "tv_map s = fst (index_of ss)" using ss(2) by (metis tv_state_simps(1))
  with torn_put_open [OF ss(1) assms(2), of n "tv_buffered s" "tv_had_buffered_handle s"] ss(2)
  show ?thesis by (metis tv_state_simps(1))
qed

text \<open>
  A put, with the record it replaces marked in place, is read back by \<open>get\<close>, an empty value
  being a delete, and every other key keeps its value.
\<close>

theorem tickv_get_after_put:
  assumes "tv_reachable s" "tv_fits k v" "tv_fits k' w"
  shows "fst (tv_put Inval_ok Append_ok s k v) = Inr () \<and>
    tv_get (snd (tv_put Inval_ok Append_ok s k v)) k' = (if k' = k then fs_means v else tv_get s k')"
  using tvol.put_result(1) [OF tv_reachable_inv [OF assms(1)] assms(2)]
    tvol.get_after_put [OF tv_reachable_inv [OF assms(1)] assms(2,3)] by simp

text \<open>
  C15: \<open>compact\<close> keeps the map, and the volume it leaves mounts from its checkpoint, without a
  full scan, to that map.
\<close>

theorem tickv_compact_mounts:
  assumes "tv_reachable s" "compact_fits (tv_map s)"
  shows "\<exists>s'. tv_compact TC_ok s = (Inr (), s') \<and> tv_map s' = tv_map s \<and>
    try_mount_from_ckpt (tv_disk s') = Some (tv_map s, tv_offsets s', length (tv_disk s'))"
proof -
  obtain ss where ss: "slots_inv ss" "s = tv_state ss (tv_buffered s) (tv_had_buffered_handle s)"
    using tv_invE [OF tv_reachable_inv [OF assms(1)]] by blast
  have m: "tv_map s = fst (index_of ss)" using ss(2) by (metis tv_state_simps(1))
  note f = fresh_slots [OF ss(1)]
  let ?fr = "fresh (fst (index_of ss))"
  have fits: "ckpt_fits (length (volume ?fr)) (snd (index_of ?fr))"
    using assms(2) f(1,2) by (simp add: compact_fits_def m)
  have wf: "list_all slot_wf (?fr @ [(False, CKPT_KEY, encode_ckpt (length (volume ?fr)) (snd (index_of ?fr)))])"
    using ckpt_slots [OF f(3) fits] by (simp only: slots_inv_def)
  have "length (volume ?fr) < 256 ^ 8" using fits by (simp only: ckpt_fits_def)
  from mount_whole [OF wf this, of "[]"]
  have mount: "try_mount_from_ckpt (volume (?fr @ [(False, CKPT_KEY, encode_ckpt (length (volume ?fr)) (snd (index_of ?fr)))])) =
      Some (fst (index_of ss), snd (index_of ?fr),
        length (volume (?fr @ [(False, CKPT_KEY, encode_ckpt (length (volume ?fr)) (snd (index_of ?fr)))])))"
    unfolding f(1) by (simp add: erased_def)
  show ?thesis
    unfolding m
    by (subst ss(2)) (simp only: tv_compact_state(1) [OF ss(1)] prod.inject ex_simps simp_thms
        tv_state_simps ckpt_index mount, simp add: f(1))
qed

text \<open>
  C13: \<open>open\<close> does not cut the erased bytes behind a checkpoint it mounts from; a put then goes
  behind them, succeeds and is read back, and is gone at the next \<open>open\<close>.
\<close>

theorem put_behind_erased_tail_is_lost:
  assumes "tv_reachable s" "ckpt_fits (tv_append_off s) (tv_offsets s)"
    and "erased tail" "16 \<le> length tail" "tv_fits k v" "v \<noteq> []" "bt_get (tv_map s) k = None"
  shows "\<exists>s' t u. tv_checkpoint True Append_ok True s = (Inr (), s') \<and> t = tv_open (tv_disk s' @ tail) \<and>
    tv_map t = tv_map s \<and> tv_put Inval_ok Append_ok t k v = (Inr (), u) \<and>
    tv_get u k = Some v \<and> tv_get (tv_open (tv_disk u)) k = None"
proof -
  obtain ss where ss: "slots_inv ss" "s = tv_state ss (tv_buffered s) (tv_had_buffered_handle s)"
    using tv_invE [OF tv_reachable_inv [OF assms(1)]] by blast
  let ?ss = "ss @ [(False, CKPT_KEY, encode_ckpt (length (volume ss)) (snd (index_of ss)))]"
  let ?s' = "tv_state ?ss (tv_buffered s) (tv_had_buffered_handle s)"
  have eqs: "tv_map s = fst (index_of ss)" "tv_append_off s = length (volume ss)" "tv_offsets s = snd (index_of ss)"
    using ss(2) by (metis tv_state_simps(1), metis tv_state_simps(4), metis tv_state_simps(3))
  have c: "tv_checkpoint True Append_ok True s = (Inr (), ?s')"
    by (subst ss(2)) (rule tv_checkpoint_ok)
  have fits: "ckpt_fits (length (volume ss)) (snd (index_of ss))" using assms(2) eqs by simp
  have wf: "list_all slot_wf ?ss" using ckpt_slots [OF ss(1) fits] by (simp only: slots_inv_def)
  have "length (volume ss) < 256 ^ 8" using fits by (simp only: ckpt_fits_def)
  from mount_whole [OF wf this assms(3)] have mount: "try_mount_from_ckpt (volume ?ss @ tail) =
      Some (fst (index_of ss), snd (index_of ss), length (volume ?ss))" .
  let ?t = "tv_open (volume ?ss @ tail)"
  have t: "?t = \<lparr>tv_disk = volume ?ss @ tail, tv_map = fst (index_of ss), tv_offsets = snd (index_of ss),
      tv_append_off = length (volume ?ss), tv_buffered = False, tv_had_buffered_handle = False\<rparr>"
    unfolding tv_open_def mount by (simp del: volume_simps)
  have k: "op_fits (k, v)" "utf8_valid k" using assms(5) by (simp_all add: tv_fits_def)
  have none: "bt_get (snd (index_of ss)) k = None"
    using index_pointed [of ss k] assms(7) eqs(1) by (auto simp: pointed_def)
  obtain u where u: "tv_put Inval_ok Append_ok ?t k v = (Inr (), u)"
    "tv_disk u = volume ?ss @ tail @ encode_record k v" "tv_map u = bt_insert k v (fst (index_of ss))"
    unfolding t using k none assms(6)
    by (simp add: tv_put_def invalidate_old_def tv_append_ok op_fits_def del: volume_simps)
  have "tv_get u k = Some v" using k(2) index_wf(1) [of ss] by (simp add: tv_get_def u(3))
  moreover have "tv_map (tv_open (tv_disk u)) = fst (index_of ss)"
    using mount_hidden [OF wf assms(3), of k v] scan_hidden [OF wf assms(3), of "encode_record k v"] assms(4)
    unfolding u(2) by (simp add: tv_open_def HEADER_def Let_def ckpt_index del: volume_simps)
  then have "tv_get (tv_open (tv_disk u)) k = None"
    using k(2) assms(7) eqs(1) by (simp add: tv_get_def)
  ultimately show ?thesis using c u(1) t eqs(1) by (intro exI [of _ ?s'] exI [of _ ?t] exI [of _ u]) simp
qed

text \<open>
  C18: \<open>delete\<close> does not check the length of its key: deleting a crafted key over the limit from
  an empty store puts into the volume a record of any other key, which the next \<open>open\<close> indexes.
\<close>

theorem delete_injects_record:
  assumes "length pad = 496" "erased zeros" "16 \<le> length zeros" "tv_fits k v" "v \<noteq> []"
    and "MAX_KLEN < length (crafted_key pad k v zeros)" "length (crafted_key pad k v zeros) < 256 ^ 4"
  shows "\<exists>s. tv_delete Inval_ok Append_ok (tv_open []) (crafted_key pad k v zeros) = (Inr (), s) \<and>
    tv_get s k = None \<and> tv_get (tv_open (tv_disk s)) k = Some v"
proof -
  have e: "tv_open [] = tv_state [] False False"
    using tv_open_volume [of "[]"] by (simp add: ckpt_sound_Nil)
  let ?key = "crafted_key pad k v zeros"
  obtain s where s: "tv_delete Inval_ok Append_ok (tv_open []) ?key = (Inr (), s)"
    "tv_disk s = encode_record ?key []" "tv_map s = []"
    by (simp add: e tv_delete_def invalidate_old_def tv_append_ok tv_state_def bt_remove_def)
  have k: "utf8_valid k" using assms(4) by (simp add: tv_fits_def)
  have "tv_map (tv_open (tv_disk s)) = [(k, v)]"
    using crafted_volume [OF assms] by (simp add: tv_open_def s(2) Let_def)
  with s k show ?thesis by (intro exI [of _ s]) (simp add: tv_get_def)
qed

section \<open>Witnesses\<close>

lemma a_fits: "tv_fits [97] [b]"
  by (simp add: tv_fits_def op_fits_def MAX_KLEN_def MAX_VLEN_def CKPT_KEY_def ascii_def utf8_valid.simps(2))

lemma tv_open_empty: "tv_open [] = tv_state [] False False"
  using tv_open_volume [of "[]"] by (simp add: ckpt_sound_Nil)

lemma tv_empty_map: "tv_map (tv_open []) = []"
  by (simp add: tv_open_empty)

definition tv_one :: tickv_file where
  "tv_one = snd (tv_put Inval_ok Append_ok (tv_open []) [97] [1])"

lemma tv_one_reachable: "tv_reachable tv_one"
  unfolding tv_one_def
  by (rule tv_reachable.step [OF tv_reachable.init tv_step.put])
    (use a_fits in \<open>simp_all add: tv_fits_def\<close>)

lemma tv_one_map: "tv_map tv_one = [([97], [1])]"
proof -
  obtain s' where "tv_put Inval_ok Append_ok (tv_open []) [97] [1] = (Inr (), s')"
    "tv_map s' = log_apply ([97], [1]) (tv_map (tv_open []))"
    using tv_put_result [OF tv_reachable_inv [OF tv_reachable.init] a_fits [of 1]] by blast
  then show ?thesis by (simp add: tv_one_def tv_empty_map log_apply_def)
qed

lemma tickv_durable_witness: "tv_map (tv_open (tv_disk tv_one)) = [([97], [1])]"
  using tickv_durable [OF tv_one_reachable] by (simp add: tv_one_map)

lemma tickv_crash_in_put_witness:
  "tv_map (tv_open (tv_disk (snd (tv_put Inval_ok (Write_stops 20) tv_one [97] [2])))) = []"
proof -
  have "20 < length (encode_record [97] [2])"
    by (simp add: length_record record_size_def align_up_def HEADER_def)
  then show ?thesis
    using tickv_crash_in_put [OF tv_one_reachable a_fits, of 20 2] by (simp add: tv_one_map bt_remove_def)
qed

lemma tickv_get_after_put_witness:
  "tv_get (snd (tv_put Inval_ok Append_ok tv_one [97] [2])) [97] = Some [2]"
  using tickv_get_after_put [OF tv_one_reachable a_fits [of 2] a_fits [of 3]] by (simp add: fs_means_def)

lemma empty_ckpt_fits: "ckpt_fits 0 []"
  by (simp add: ckpt_fits_def encode_ckpt_def TKCK_def MAX_VLEN_def)

lemma tickv_compact_mounts_witness:
  "\<exists>s'. tv_compact TC_ok (tv_open []) = (Inr (), s') \<and> tv_map s' = [] \<and>
    try_mount_from_ckpt (tv_disk s') = Some ([], tv_offsets s', length (tv_disk s'))"
proof -
  have "compact_fits (tv_map (tv_open []))"
    unfolding tv_empty_map compact_fits_def using empty_ckpt_fits by simp
  from tickv_compact_mounts [OF tv_reachable.init this] show ?thesis unfolding tv_empty_map .
qed

lemma put_behind_erased_tail_is_lost_witness:
  "\<exists>s' t u. tv_checkpoint True Append_ok True (tv_open []) = (Inr (), s') \<and>
    t = tv_open (tv_disk s' @ [0, 0, 0, 0, 0, 0, 0, 0, 0, 0, 0, 0, 0, 0, 0, 0]) \<and> tv_map t = [] \<and>
    tv_put Inval_ok Append_ok t [97] [1] = (Inr (), u) \<and>
    tv_get u [97] = Some [1] \<and> tv_get (tv_open (tv_disk u)) [97] = None"
proof -
  have "ckpt_fits (tv_append_off (tv_open [])) (tv_offsets (tv_open []))"
    using empty_ckpt_fits by (simp add: tv_open_empty)
  moreover have "erased [0, 0, 0, 0, 0, 0, 0, 0, 0, 0, 0, 0, 0, 0, 0, 0]" by (simp add: erased_def)
  ultimately show ?thesis
    using put_behind_erased_tail_is_lost [OF tv_reachable.init, of "[0, 0, 0, 0, 0, 0, 0, 0, 0, 0, 0, 0, 0, 0, 0, 0]" "[97]" "[1]"]
      a_fits [of 1] by (simp add: tv_empty_map)
qed

definition ones :: bytes where
  "ones = replicate 496 1"

definition zeros :: bytes where
  "zeros = replicate 4000 0"

lemma delete_injects_record_witness:
  "\<exists>s. tv_delete Inval_ok Append_ok (tv_open []) (crafted_key ones [97] [1] zeros) = (Inr (), s) \<and>
    tv_get s [97] = None \<and> tv_get (tv_open (tv_disk s)) [97] = Some [1]"
proof -
  have o: "length ones = 496" unfolding ones_def by (rule length_replicate)
  have z: "length zeros = 4000" unfolding zeros_def by (rule length_replicate)
  have e: "erased zeros" unfolding erased_def zeros_def list_all_iff by (auto dest: in_set_replicate [THEN iffD1])
  have "length (encode_record [97] [1]) = 512"
    by (simp add: length_record record_size_def align_up_def HEADER_def)
  then have "length (crafted_key ones [97] [1] zeros) = 5008" by (simp add: crafted_key_def o z)
  then show ?thesis
    using delete_injects_record [OF o e _ a_fits, of 1] by (simp add: z MAX_KLEN_def)
qed

end
