(* ===== verification/Crdt_Wire.thy ===== *)
theory Crdt_Wire
  imports Storage
begin

text \<open>
  The wire formats of replication: versions, deltas (MDLT), snapshots (MSNP), the durable CRDT
  state and the signed envelope of \<open>src/src/crdt.rs\<close>, and the conflict records (CFL1) of
  \<open>src/src/conflict.rs\<close>.
\<close>

section \<open>Versions and records\<close>

record memory_version =
  mv_node_id :: u8
  mv_version :: u64

definition encode_versions :: "memory_version list \<Rightarrow> bytes result" where
  "encode_versions vs =
     (if length vs > 65535 then Inl (Err ''versions too many'')
      else Inr (le_enc 2 (length vs) @
        concat (map (\<lambda>v. [mv_node_id v] @ le_enc 8 (unat (mv_version v))) vs)))"

definition rd_version :: "string \<Rightarrow> memory_version reader" where
  "rd_version m =
     rbind (rd_byte m) (\<lambda>node. rbind (rd_u64 m) (\<lambda>v. rret \<lparr>mv_node_id = node, mv_version = v\<rparr>))"

definition decode_versions :: "string \<Rightarrow> memory_version list reader" where
  "decode_versions m = rbind (rd_uint 2 m) (\<lambda>n. rd_many n (rd_version m))"

fun encode_record_list :: "memory_record list \<Rightarrow> bytes result" where
  "encode_record_list [] = Inr []"
| "encode_record_list (r # rs) =
     (let enc = record_encode r in
      if length enc > 4294967295 then Inl (Err ''record too long'')
      else and_then (encode_record_list rs) (\<lambda>rest. Inr (le_enc 4 (length enc) @ enc @ rest)))"

definition encode_records :: "memory_record list \<Rightarrow> bytes result" where
  "encode_records recs =
     (if length recs > 65535 then Inl (Err ''records too many'')
      else and_then (encode_record_list recs) (\<lambda>body. Inr (le_enc 2 (length recs) @ body)))"

definition rd_record :: "string \<Rightarrow> memory_record reader" where
  "rd_record m =
     rbind (rd_uint 4 m) (\<lambda>n. rbind (rd_take n m) (\<lambda>body data off.
       and_then (map_err (record_decode body) m) (\<lambda>r. Inr (r, off))))"

definition decode_records :: "string \<Rightarrow> memory_record list reader" where
  "decode_records m = rbind (rd_uint 2 m) (\<lambda>n. rd_many n (rd_record m))"

section \<open>Deltas and snapshots\<close>

record memory_delta =
  dl_base :: "memory_version list"
  dl_records :: "memory_record list"

record memory_snapshot =
  sn_versions :: "memory_version list"
  sn_records :: "memory_record list"

definition DELTA_MAGIC :: bytes where
  "DELTA_MAGIC = ascii ''MDLT''"

definition SNAP_MAGIC :: bytes where
  "SNAP_MAGIC = ascii ''MSNP''"

text \<open>\<open>try_encode().expect(..)\<close>: an error of the encoder is a panic.\<close>

definition expect :: "'a result \<Rightarrow> 'a result" where
  "expect r = (case r of Inl _ \<Rightarrow> Inl Panic | Inr v \<Rightarrow> Inr v)"

definition delta_try_encode :: "memory_delta \<Rightarrow> bytes result" where
  "delta_try_encode d =
     and_then (encode_versions (dl_base d)) (\<lambda>vs.
     and_then (encode_records (dl_records d)) (\<lambda>rs. Inr (DELTA_MAGIC @ [1] @ vs @ rs)))"

definition delta_encode :: "memory_delta \<Rightarrow> bytes result" where
  "delta_encode d = expect (delta_try_encode d)"

definition delta_decode :: "bytes \<Rightarrow> memory_delta result" where
  "delta_decode data =
     (if length data < 5 \<or> take 4 data \<noteq> DELTA_MAGIC then Inl (Err ''bad delta magic'')
      else if data ! 4 \<noteq> 1 then Inl (Err ''bad delta version'')
      else and_then (decode_versions ''trunc delta base'' data 5) (\<lambda>(base, off).
           and_then (decode_records ''trunc delta records'' data off) (\<lambda>(recs, _).
           Inr \<lparr>dl_base = base, dl_records = recs\<rparr>)))"

definition snapshot_try_encode :: "memory_snapshot \<Rightarrow> bytes result" where
  "snapshot_try_encode s =
     and_then (encode_versions (sn_versions s)) (\<lambda>vs.
     and_then (encode_records (sn_records s)) (\<lambda>rs. Inr (SNAP_MAGIC @ [1] @ vs @ rs)))"

definition snapshot_encode :: "memory_snapshot \<Rightarrow> bytes result" where
  "snapshot_encode s = expect (snapshot_try_encode s)"

definition snapshot_decode :: "bytes \<Rightarrow> memory_snapshot result" where
  "snapshot_decode data =
     (if length data < 5 \<or> take 4 data \<noteq> SNAP_MAGIC then Inl (Err ''bad snapshot magic'')
      else if data ! 4 \<noteq> 1 then Inl (Err ''bad snapshot version'')
      else and_then (decode_versions ''trunc snap versions'' data 5) (\<lambda>(vs, off).
           and_then (decode_records ''trunc snap records'' data off) (\<lambda>(recs, _).
           Inr \<lparr>sn_versions = vs, sn_records = recs\<rparr>)))"

section \<open>Envelopes\<close>

record signed_envelope =
  env_node_id :: u8
  env_payload :: bytes
  env_auth :: bytes

definition envelope_try_encode :: "signed_envelope \<Rightarrow> bytes result" where
  "envelope_try_encode e =
     (if length (env_payload e) > 4294967295 \<or> length (env_auth e) > 4294967295
      then Inl (Err ''envelope field overflow'')
      else Inr ([env_node_id e] @ le_enc 4 (length (env_payload e)) @ le_enc 4 (length (env_auth e)) @
        env_payload e @ env_auth e))"

definition envelope_encode :: "signed_envelope \<Rightarrow> bytes result" where
  "envelope_encode e = expect (envelope_try_encode e)"

definition envelope_decode :: "bytes \<Rightarrow> (signed_envelope \<times> nat) option" where
  "envelope_decode data =
     (if length data < 9 then None
      else let plen = le_val (take 4 (drop 1 data)); alen = le_val (take 4 (drop 5 data));
               stop = 9 + plen + alen
        in if stop > length data then None
           else Some (\<lparr>env_node_id = data ! 0, env_payload = take plen (drop 9 data),
                       env_auth = take alen (drop (9 + plen) data)\<rparr>, stop))"

section \<open>Durable CRDT state\<close>

record crdt_state =
  cs_node_id :: u8
  cs_local_version :: u64
  cs_own_writes :: u64
  cs_node_versions :: "(u8 \<times> u64) list"

definition CRDT_MAGIC :: bytes where
  "CRDT_MAGIC = ascii ''CRDT''"

definition CRDT_VERSION :: u8 where
  "CRDT_VERSION = 1"

definition enc_node_version :: "u8 \<times> u64 \<Rightarrow> bytes" where
  "enc_node_version = (\<lambda>(n, v). [n] @ le_enc 8 (unat v))"

definition state_try_encode :: "crdt_state \<Rightarrow> bytes result" where
  "state_try_encode s =
     (if length (cs_node_versions s) > 65535 then Inl (Err ''crdt node_versions overflow'')
      else Inr (CRDT_MAGIC @ [CRDT_VERSION, cs_node_id s] @ le_enc 8 (unat (cs_local_version s)) @
        le_enc 8 (unat (cs_own_writes s)) @ le_enc 2 (length (cs_node_versions s)) @
        concat (map enc_node_version (cs_node_versions s))))"

definition state_encode :: "crdt_state \<Rightarrow> bytes result" where
  "state_encode s = expect (state_try_encode s)"

definition rd_node_version :: "(u8 \<times> u64) reader" where
  "rd_node_version =
     rbind (rd_byte ''trunc crdt node'') (\<lambda>n. rbind (rd_u64 ''trunc crdt v'') (\<lambda>v. rret (n, v)))"

definition rd_state :: "u8 \<Rightarrow> crdt_state reader" where
  "rd_state node =
     rbind (rd_u64 ''trunc crdt local'') (\<lambda>lv. rbind (rd_u64 ''trunc crdt own'') (\<lambda>own.
     rbind (rd_uint 2 ''trunc crdt n'') (\<lambda>n. rbind (rd_many n rd_node_version) (\<lambda>vs.
     rret \<lparr>cs_node_id = node, cs_local_version = lv, cs_own_writes = own, cs_node_versions = vs\<rparr>))))"

definition state_decode :: "bytes \<Rightarrow> crdt_state result" where
  "state_decode data =
     (if length data < 15 \<or> take 4 data \<noteq> CRDT_MAGIC then Inl (Err ''bad crdt magic'')
      else if data ! 4 \<noteq> CRDT_VERSION then Inl (Err ''bad crdt version'')
      else and_then (rd_state (data ! 5) data 6) (\<lambda>(s, _). Inr s))"

section \<open>Conflict records\<close>

datatype conflict_status = Open | Resolved

fun status_u8 :: "conflict_status \<Rightarrow> u8" where
  "status_u8 Open = 0"
| "status_u8 Resolved = 1"

definition status_from_u8 :: "u8 \<Rightarrow> conflict_status option" where
  "status_from_u8 v = (if v = 0 then Some Open else if v = 1 then Some Resolved else None)"

record conflict_record =
  cr_conflict_id :: bytes
  cr_subject :: bytes
  cr_candidates :: "bytes list"
  cr_nodes :: "u8 list"
  cr_created_tick :: u64
  cr_status :: conflict_status
  cr_resolved_winner :: "bytes option"
  cr_records :: "bytes list"

definition CFL_MAGIC :: bytes where
  "CFL_MAGIC = ascii ''CFL1''"

definition CFL_VERSION :: u8 where
  "CFL_VERSION = 1"

definition push_str :: "bytes \<Rightarrow> bytes result" where
  "push_str s = (if length s > 65535 then Inl (Err ''cfl str too long'') else Inr (enc_str 2 s))"

fun push_strs :: "bytes list \<Rightarrow> bytes result" where
  "push_strs [] = Inr []"
| "push_strs (s # ss) = and_then (push_str s) (\<lambda>a. and_then (push_strs ss) (\<lambda>b. Inr (a @ b)))"

definition read_str :: "bytes reader" where
  "read_str = rd_str 2 ''trunc slen'' ''trunc s'' ''utf8 s''"

definition conflict_try_encode :: "conflict_record \<Rightarrow> bytes result" where
  "conflict_try_encode c =
     (if length (cr_conflict_id c) > 65535 \<or> length (cr_subject c) > 65535 \<or>
         length (cr_candidates c) > 65535 \<or> length (cr_nodes c) > 255 \<or> length (cr_records c) > 255
      then Inl (Err ''cfl field count overflow'')
      else if list_ex (\<lambda>s. length s > 65535) (cr_candidates c) then Inl (Err ''cfl candidate too long'')
      else if (case cr_resolved_winner c of Some w \<Rightarrow> length w > 65535 | None \<Rightarrow> False)
      then Inl (Err ''cfl winner too long'')
      else if list_ex (\<lambda>r. length r > 4294967295) (cr_records c) then Inl (Err ''cfl record too long'')
      else
        and_then (push_str (cr_conflict_id c)) (\<lambda>cid.
        and_then (push_str (cr_subject c)) (\<lambda>subj.
        and_then (push_strs (cr_candidates c)) (\<lambda>cands.
        and_then (case cr_resolved_winner c of Some w \<Rightarrow> push_str w | None \<Rightarrow> Inr []) (\<lambda>win.
        Inr (CFL_MAGIC @ [CFL_VERSION, status_u8 (cr_status c),
               (case cr_resolved_winner c of Some _ \<Rightarrow> 1 | None \<Rightarrow> 0)] @
             le_enc 8 (unat (cr_created_tick c)) @ cid @ subj @
             le_enc 2 (length (cr_candidates c)) @ cands @
             [of_nat (length (cr_nodes c))] @ cr_nodes c @ win @
             [of_nat (length (cr_records c))] @ concat (map (enc_str 4) (cr_records c))))))))"

definition conflict_encode :: "conflict_record \<Rightarrow> bytes result" where
  "conflict_encode c = expect (conflict_try_encode c)"

definition rd_blob :: "bytes reader" where
  "rd_blob = rbind (rd_uint 4 ''trunc cfl rl'') (\<lambda>n. rd_take n ''trunc cfl rec'')"

definition rd_conflict :: "conflict_status \<Rightarrow> bool \<Rightarrow> conflict_record reader" where
  "rd_conflict status has_winner =
     rbind (rd_u64 ''trunc cfl created'') (\<lambda>created. rbind read_str (\<lambda>cid. rbind read_str (\<lambda>subj.
     rbind (rd_uint 2 ''trunc cfl n'') (\<lambda>n. rbind (rd_many n read_str) (\<lambda>cands.
     rbind (rd_byte ''trunc cfl nn'') (\<lambda>nn. rbind (rd_many (unat nn) (rd_byte ''trunc cfl node'')) (\<lambda>nodes.
     rbind (if has_winner then rbind read_str (\<lambda>w. rret (Some w)) else rret None) (\<lambda>winner.
     rbind (rd_byte ''trunc cfl nr'') (\<lambda>nr. rbind (rd_many (unat nr) rd_blob) (\<lambda>recs.
     rret \<lparr>cr_conflict_id = cid, cr_subject = subj, cr_candidates = cands, cr_nodes = nodes,
           cr_created_tick = created, cr_status = status, cr_resolved_winner = winner,
           cr_records = recs\<rparr>))))))))))"

definition conflict_decode :: "bytes \<Rightarrow> conflict_record result" where
  "conflict_decode data =
     (if length data < 15 \<or> take 4 data \<noteq> CFL_MAGIC then Inl (Err ''bad cfl magic'')
      else if data ! 4 \<noteq> CFL_VERSION then Inl (Err ''bad cfl version'')
      else and_then (ok_or (status_from_u8 (data ! 5)) ''bad cfl status'') (\<lambda>status.
           and_then (rd_conflict status (data ! 6 \<noteq> 0) data 7) (\<lambda>(c, _). Inr c)))"

text \<open>\<open>candidates.sort(); candidates.dedup()\<close>, then the two FNV lanes over subject and candidates.\<close>

definition canonical :: "bytes list \<Rightarrow> bytes list" where
  "canonical cs = remdups_adj (sort cs)"

definition feed :: "u8 \<Rightarrow> u64 \<times> u64 \<Rightarrow> u64 \<times> u64" where
  "feed b = (\<lambda>(h0, h1). let h0 = fnv_step b h0 in (h0, fnv_step b h1 + h0))"

definition generate_conflict_id :: "bytes \<Rightarrow> bytes list \<Rightarrow> bytes \<times> bytes list" where
  "generate_conflict_id subject candidates =
     (let cs = canonical candidates;
          (h0, h1) = fold feed (subject @ concat (map (\<lambda>c. 0xFF # c) cs)) (FNV_OFFSET, FNV_OFFSET)
      in (concat (map hex_byte (le_enc 8 (unat h0) @ le_enc 8 (unat h1))), cs))"

section \<open>Reading back\<close>

lemma reads_version:
  "reads (rd_version m) ([mv_node_id v] @ le_enc 8 (unat (mv_version v))) v"
  unfolding rd_version_def
  by (intro reads_rbind [OF reads_rd_byte] reads_rbind_last [OF reads_rd_u64])
    (cases v, simp add: reads_rret)

lemma reads_versions: "encode_versions vs = Inr w \<Longrightarrow> reads (decode_versions m) w vs"
proof -
  assume a: "encode_versions vs = Inr w"
  then have n: "length vs < 256 ^ 2" by (simp add: encode_versions_def split: if_splits)
  have w: "w = le_enc 2 (length vs) @ concat (map (\<lambda>v. [mv_node_id v] @ le_enc 8 (unat (mv_version v))) vs)"
    using a by (simp add: encode_versions_def split: if_splits)
  show ?thesis
    unfolding w decode_versions_def
    by (rule reads_rbind [OF reads_rd_uint [OF n]]) (rule reads_rd_many [OF reads_version])
qed

lemma reads_record:
  assumes "record_fits r" "length (record_encode r) < 256 ^ 4"
  shows "reads (rd_record m) (le_enc 4 (length (record_encode r)) @ record_encode r) (mdr1_part r)"
  unfolding rd_record_def
proof (rule reads_rbind [OF reads_rd_uint [OF assms(2)]], rule reads_rbind_last [OF reads_rd_take])
  show "reads (\<lambda>data off. and_then (map_err (record_decode (record_encode r)) m) (\<lambda>r. Inr (r, off)))
      [] (mdr1_part r)"
    by (simp add: record_decode_encode [OF assms(1)] reads_def)
qed

lemma reads_record_list:
  "encode_record_list rs = Inr w \<Longrightarrow> list_all record_fits rs \<Longrightarrow>
   reads (rd_many (length rs) (rd_record m)) w (map mdr1_part rs)"
proof (induction rs arbitrary: w)
  case Nil
  then show ?case by (simp add: reads_rret)
next
  case (Cons r rs)
  from Cons.prems(1) obtain rest where len: "length (record_encode r) < 256 ^ 4"
    and rest: "encode_record_list rs = Inr rest"
    and w: "w = (le_enc 4 (length (record_encode r)) @ record_encode r) @ rest"
    by (auto simp: Let_def and_then_Inr_iff split: if_splits)
  have tail: "reads (rd_many (length rs) (rd_record m)) rest (map mdr1_part rs)"
    using Cons.IH [OF rest] Cons.prems(2) by simp
  show ?case
    unfolding w length_Cons rd_many.simps list.map
    by (rule reads_rbind [OF reads_record reads_rbind_last [OF tail reads_rret]])
      (use Cons.prems(2) len in simp_all)
qed

lemma reads_records:
  assumes "encode_records rs = Inr w" "list_all record_fits rs"
  shows "reads (decode_records m) w (map mdr1_part rs)"
proof -
  from assms(1) obtain body where n: "length rs < 256 ^ 2" and b: "encode_record_list rs = Inr body"
    and w: "w = le_enc 2 (length rs) @ body"
    by (auto simp: encode_records_def and_then_Inr_iff split: if_splits)
  show ?thesis
    unfolding w decode_records_def
    by (rule reads_rbind [OF reads_rd_uint [OF n]]) (rule reads_record_list [OF b assms(2)])
qed

lemma magic_lengths [simp]:
  "length DELTA_MAGIC = 4" "length SNAP_MAGIC = 4" "length CRDT_MAGIC = 4" "length CFL_MAGIC = 4"
  by (simp_all add: DELTA_MAGIC_def SNAP_MAGIC_def CRDT_MAGIC_def CFL_MAGIC_def)

text \<open>Versions and records behind a five-byte header.\<close>

lemma read_body:
  assumes "length h = 5" "encode_versions vs = Inr v" "encode_records rs = Inr r" "list_all record_fits rs"
  shows "decode_versions m (h @ v @ r) 5 = Inr (vs, 5 + length v)"
    and "decode_records m' (h @ v @ r) (5 + length v) = Inr (map mdr1_part rs, 5 + length v + length r)"
proof -
  have h: "holds_at (h @ v @ r) 5 (v @ r)" using holds_at_suffix [of h "v @ r"] assms(1) by simp
  then show "decode_versions m (h @ v @ r) 5 = Inr (vs, 5 + length v)"
    using readsD [OF reads_versions [OF assms(2)]] by (simp add: holds_at_append_iff)
  show "decode_records m' (h @ v @ r) (5 + length v) = Inr (map mdr1_part rs, 5 + length v + length r)"
    using h readsD [OF reads_records [OF assms(3,4)]] by (simp add: holds_at_append_iff)
qed

lemma delta_decode_encode:
  assumes "delta_try_encode d = Inr w" "list_all record_fits (dl_records d)"
  shows "delta_decode w = Inr (d\<lparr>dl_records := map mdr1_part (dl_records d)\<rparr>)"
proof -
  from assms(1) obtain v r where v: "encode_versions (dl_base d) = Inr v"
    and r: "encode_records (dl_records d) = Inr r" and w: "w = (DELTA_MAGIC @ [1]) @ v @ r"
    by (auto simp: delta_try_encode_def and_then_Inr_iff)
  note b = read_body [OF _ v r assms(2), of "DELTA_MAGIC @ [1]", folded w]
  have "take 4 w = DELTA_MAGIC" "w ! 4 = 1" by (simp_all add: w nth_append)
  then show ?thesis using b by (simp add: delta_decode_def) (simp add: w)
qed

lemma snapshot_decode_encode:
  assumes "snapshot_try_encode s = Inr w" "list_all record_fits (sn_records s)"
  shows "snapshot_decode w = Inr (s\<lparr>sn_records := map mdr1_part (sn_records s)\<rparr>)"
proof -
  from assms(1) obtain v r where v: "encode_versions (sn_versions s) = Inr v"
    and r: "encode_records (sn_records s) = Inr r" and w: "w = (SNAP_MAGIC @ [1]) @ v @ r"
    by (auto simp: snapshot_try_encode_def and_then_Inr_iff)
  note b = read_body [OF _ v r assms(2), of "SNAP_MAGIC @ [1]", folded w]
  have "take 4 w = SNAP_MAGIC" "w ! 4 = 1" by (simp_all add: w nth_append)
  then show ?thesis using b by (simp add: snapshot_decode_def) (simp add: w)
qed

lemma envelope_decode_encode:
  assumes "envelope_try_encode e = Inr w"
  shows "envelope_decode (w @ rest) = Some (e, length w)"
proof -
  from assms have len: "length (env_payload e) < 256 ^ 4" "length (env_auth e) < 256 ^ 4"
    and w: "w = [env_node_id e] @ le_enc 4 (length (env_payload e)) @ le_enc 4 (length (env_auth e)) @
        env_payload e @ env_auth e"
    by (simp_all add: envelope_try_encode_def split: if_splits)
  have h: "holds_at (w @ rest) 1 (le_enc 4 (length (env_payload e)))"
    "holds_at (w @ rest) 5 (le_enc 4 (length (env_auth e)))"
    "holds_at (w @ rest) 9 (env_payload e)" "holds_at (w @ rest) (9 + length (env_payload e)) (env_auth e)"
    using holds_at_suffix [of "[env_node_id e]" "le_enc 4 (length (env_payload e)) @
        le_enc 4 (length (env_auth e)) @ env_payload e @ env_auth e @ rest"]
    unfolding w by (simp_all add: holds_at_append_iff)
  have l: "le_val (take 4 (drop 1 (w @ rest))) = length (env_payload e)"
    "le_val (take 4 (drop 5 (w @ rest))) = length (env_auth e)"
    using holds_at_take_drop [OF h(1)] holds_at_take_drop [OF h(2)] len by simp_all
  have "(w @ rest) ! 0 = env_node_id e" "length w = 9 + length (env_payload e) + length (env_auth e)"
    by (simp_all add: w)
  then show ?thesis
    using l holds_at_take_drop [OF h(3)] holds_at_take_drop [OF h(4)]
    by (cases e) (simp add: envelope_decode_def Let_def del: drop_append take_append)
qed

lemma reads_node_version: "reads rd_node_version (enc_node_version e) e"
  unfolding rd_node_version_def enc_node_version_def case_prod_unfold
  by (intro reads_rbind [OF reads_rd_byte] reads_rbind_last [OF reads_rd_u64])
    (cases e, simp add: reads_rret)

lemma state_decode_encode:
  assumes "state_try_encode s = Inr w"
  shows "state_decode w = Inr s"
proof -
  let ?b = "le_enc 8 (unat (cs_local_version s)) @ le_enc 8 (unat (cs_own_writes s)) @
      le_enc 2 (length (cs_node_versions s)) @ concat (map enc_node_version (cs_node_versions s))"
  from assms have n: "length (cs_node_versions s) < 256 ^ 2"
    and w: "w = (CRDT_MAGIC @ [CRDT_VERSION, cs_node_id s]) @ ?b"
    by (simp_all add: state_try_encode_def split: if_splits)
  have "reads (rd_state (cs_node_id s)) ?b s"
    unfolding rd_state_def
    by (intro reads_rbind [OF reads_rd_u64] reads_rbind [OF reads_rd_uint [OF n]]
        reads_rbind_last [OF reads_rd_many [OF reads_node_version]])
      (cases s, simp add: reads_rret)
  from reads_after [OF this, of "CRDT_MAGIC @ [CRDT_VERSION, cs_node_id s]" 6]
  have "rd_state (cs_node_id s) w 6 = Inr (s, 6 + length ?b)" unfolding w by simp
  moreover have "take 4 w = CRDT_MAGIC" "w ! 4 = CRDT_VERSION" "w ! 5 = cs_node_id s"
    by (simp_all add: w nth_append)
  ultimately show ?thesis by (simp add: state_decode_def) (simp add: w)
qed

definition conflict_strings :: "conflict_record \<Rightarrow> bool" where
  "conflict_strings c \<longleftrightarrow> utf8_valid (cr_conflict_id c) \<and> utf8_valid (cr_subject c) \<and>
     list_all utf8_valid (cr_candidates c) \<and>
     (case cr_resolved_winner c of Some w \<Rightarrow> utf8_valid w | None \<Rightarrow> True)"

lemma reads_push_str: "push_str s = Inr w \<Longrightarrow> utf8_valid s \<Longrightarrow> reads read_str w s"
  unfolding read_str_def by (auto simp: push_str_def split: if_splits intro!: reads_rd_str)

lemma reads_push_strs: "push_strs ss = Inr w \<Longrightarrow> list_all utf8_valid ss \<Longrightarrow> reads (rd_many (length ss) read_str) w ss"
proof (induction ss arbitrary: w)
  case Nil
  then show ?case by (simp add: reads_rret)
next
  case (Cons s ss)
  from Cons.prems(1) obtain a b where a: "push_str s = Inr a" and b: "push_strs ss = Inr b" and w: "w = a @ b"
    by (auto simp: and_then_Inr_iff)
  have "reads (rd_many (length ss) read_str) b ss" using Cons.IH [OF b] Cons.prems(2) by simp
  then show ?case
    unfolding w length_Cons rd_many.simps
    using Cons.prems(2) by (intro reads_rbind [OF reads_push_str [OF a]] reads_rbind_last [OF _ reads_rret]) simp_all
qed

lemma reads_blob: "length r < 256 ^ 4 \<Longrightarrow> reads rd_blob (enc_str 4 r) r"
  unfolding rd_blob_def enc_str_def by (intro reads_rbind [OF reads_rd_uint] reads_rd_take)

lemma reads_bytes: "reads (rd_many (length ns) (rd_byte m)) ns ns"
  using reads_rd_many [of ns "rd_byte m" "\<lambda>n. [n]"] by (simp add: reads_rd_byte)

lemma unat_of_nat_byte: "n \<le> 255 \<Longrightarrow> unat (of_nat n :: u8) = n"
  by (simp add: unat_of_nat)

lemma reads_winner:
  "(case x of Some w \<Rightarrow> push_str w | None \<Rightarrow> Inr []) = Inr win \<Longrightarrow>
   (case x of Some w \<Rightarrow> utf8_valid w | None \<Rightarrow> True) \<Longrightarrow>
   reads (if x \<noteq> None then rbind read_str (\<lambda>w. rret (Some w)) else rret None) win x"
  by (cases x) (auto intro: reads_rret reads_rbind_last [OF reads_push_str])

lemma conflict_decode_encode:
  assumes "conflict_try_encode c = Inr w" "conflict_strings c"
  shows "conflict_decode w = Inr c"
proof -
  let ?x = "cr_resolved_winner c"
  let ?has = "(case ?x of Some _ \<Rightarrow> 1 | None \<Rightarrow> 0) :: u8"
  let ?h = "CFL_MAGIC @ [CFL_VERSION, status_u8 (cr_status c), ?has]"
  from assms(1) obtain cid subj cands win where lens: "length (cr_candidates c) \<le> 65535"
      "length (cr_nodes c) \<le> 255" "length (cr_records c) \<le> 255"
      "\<not> list_ex (\<lambda>r. length r > 4294967295) (cr_records c)"
    and s: "push_str (cr_conflict_id c) = Inr cid" "push_str (cr_subject c) = Inr subj"
      "push_strs (cr_candidates c) = Inr cands" "(case ?x of Some w \<Rightarrow> push_str w | None \<Rightarrow> Inr []) = Inr win"
    and w: "w = ?h @ (le_enc 8 (unat (cr_created_tick c)) @ cid @ subj @
        le_enc 2 (length (cr_candidates c)) @ cands @ [of_nat (length (cr_nodes c))] @ cr_nodes c @ win @
        [of_nat (length (cr_records c))] @ concat (map (enc_str 4) (cr_records c)))"
    by (auto simp: conflict_try_encode_def and_then_Inr_iff split: if_splits)
  note u = assms(2) [unfolded conflict_strings_def]
  have blobs: "reads (rd_many (unat (of_nat (length (cr_records c)) :: u8)) rd_blob) (concat (map (enc_str 4) (cr_records c))) (cr_records c)"
    unfolding unat_of_nat_byte [OF lens(3)]
    using lens(4) by (intro reads_rd_many reads_blob) (auto simp: list_ex_iff not_less)
  have nodes: "reads (rd_many (unat (of_nat (length (cr_nodes c)) :: u8)) (rd_byte ''trunc cfl node''))
      (cr_nodes c) (cr_nodes c)"
    unfolding unat_of_nat_byte [OF lens(2)] by (rule reads_bytes)
  have n2: "length (cr_candidates c) < 256 ^ 2" using lens(1) by simp
  have "reads (rd_conflict (cr_status c) (?x \<noteq> None)) (le_enc 8 (unat (cr_created_tick c)) @ cid @ subj @
        le_enc 2 (length (cr_candidates c)) @ cands @ [of_nat (length (cr_nodes c))] @ cr_nodes c @ win @
        [of_nat (length (cr_records c))] @ concat (map (enc_str 4) (cr_records c))) c"
    unfolding rd_conflict_def
    by (intro reads_rbind [OF reads_rd_u64] reads_rbind [OF reads_push_str [OF s(1)]]
        reads_rbind [OF reads_push_str [OF s(2)]] reads_rbind [OF reads_rd_uint [OF n2]]
        reads_rbind [OF reads_push_strs [OF s(3)]] reads_rbind [OF reads_rd_byte]
        reads_rbind [OF nodes]
        reads_rbind [OF reads_winner [OF s(4)]]
        reads_rbind_last [OF blobs])
      (use u in simp, use u in simp, use u in simp, use u in simp, cases c, simp add: reads_rret)
  from reads_after [OF this, of ?h 7] have body: "\<exists>n. rd_conflict (cr_status c) (?x \<noteq> None) w 7 = Inr (c, n)"
    unfolding w by simp
  have hd: "take 4 w = CFL_MAGIC" "w ! 4 = CFL_VERSION" "w ! 5 = status_u8 (cr_status c)" "w ! 6 = ?has"
    "\<not> length w < 15"
    by (simp_all add: w nth_append)
  have "status_from_u8 (status_u8 (cr_status c)) = Some (cr_status c)" "(?has \<noteq> 0) = (?x \<noteq> None)"
    by (cases "cr_status c"; simp add: status_from_u8_def) (simp split: option.split)
  then show ?thesis using body hd by (auto simp: conflict_decode_def)
qed

section \<open>No panic\<close>

lemma calm_decode_versions [calm]: "calm_reader (decode_versions m)"
  unfolding decode_versions_def rd_version_def by (intro calm)

lemma calm_rd_record [calm]: "calm_reader (rd_record m)"
  unfolding rd_record_def
  by (intro calm) (auto simp: calm_reader_def and_then_Inr_iff intro!: calm_and_then calm_map_err calm_record_decode)

lemma calm_decode_records [calm]: "calm_reader (decode_records m)"
  unfolding decode_records_def by (intro calm)

lemma calm_two_readers:
  assumes "calm_reader r" "calm_reader s" "off \<le> length data"
  shows "calm (and_then (r data off) (\<lambda>(x, o2). and_then (s data o2) (\<lambda>(y, _). Inr (f x y))))"
proof (intro calm_and_then calm_readerD [OF assms(1,3)])
  fix p assume p: "r data off = Inr p"
  obtain x o2 where xo: "p = (x, o2)" by (cases p)
  then have "o2 \<le> length data" using calm_reader_next [OF assms(1,3)] p by blast
  then have "calm (s data o2)" by (rule calm_readerD [OF assms(2)])
  then show "calm (case p of (x, o2) \<Rightarrow> and_then (s data o2) (\<lambda>(y, _). Inr (f x y)))"
    unfolding xo prod.case by (intro calm_and_then) (auto split: prod.split)
qed

lemma calm_delta_decode [calm]: "calm (delta_decode data)"
  unfolding delta_decode_def
  by (auto intro!: calm_two_readers [OF calm_decode_versions calm_decode_records])

lemma calm_snapshot_decode [calm]: "calm (snapshot_decode data)"
  unfolding snapshot_decode_def
  by (auto intro!: calm_two_readers [OF calm_decode_versions calm_decode_records])

lemma calm_rd_state [calm]: "calm_reader (rd_state node)"
  unfolding rd_state_def rd_node_version_def by (intro calm)

lemma calm_state_decode [calm]: "calm (state_decode data)"
  unfolding state_decode_def
  by (auto intro!: calm_and_then calm_readerD [OF calm_rd_state] split: prod.splits)

lemma calm_rd_conflict [calm]: "calm_reader (rd_conflict status w)"
  unfolding rd_conflict_def read_str_def rd_blob_def by (intro calm)

lemma calm_conflict_decode [calm]: "calm (conflict_decode data)"
  unfolding conflict_decode_def
  by (auto intro!: calm_and_then calm_readerD [OF calm_rd_conflict] split: prod.splits)

section \<open>Canonical candidates\<close>

lemma sorted_remdups_adj_distinct: "sorted xs \<Longrightarrow> distinct (remdups_adj xs)"
  by (induction xs rule: remdups_adj.induct) auto

lemma canonical_set: "set cs = set ds \<Longrightarrow> canonical cs = canonical ds"
  unfolding canonical_def
  by (intro sorted_distinct_set_unique) (simp_all add: sorted_remdups_adj_distinct sorted_remdups_adj)

section \<open>Properties\<close>

text \<open>
  Whatever the encoders of deltas, snapshots, durable states and envelopes accept, the
  decoders give back: records as MDR1 carries them, an envelope also from a longer stream; the
  encoders refuse what does not fit the wire.
\<close>

theorem replication_wire_roundtrip:
  assumes "list_all record_fits (dl_records d)" "list_all record_fits (sn_records s)"
    and "delta_try_encode d = Inr w1" "snapshot_try_encode s = Inr w2"
    and "state_try_encode st = Inr w3" "envelope_try_encode e = Inr w4"
  shows "delta_decode w1 = Inr (d\<lparr>dl_records := map mdr1_part (dl_records d)\<rparr>) \<and>
    snapshot_decode w2 = Inr (s\<lparr>sn_records := map mdr1_part (sn_records s)\<rparr>) \<and>
    state_decode w3 = Inr st \<and> envelope_decode (w4 @ rest) = Some (e, length w4)"
  using delta_decode_encode [OF assms(3,1)] snapshot_decode_encode [OF assms(4,2)]
    state_decode_encode [OF assms(5)] envelope_decode_encode [OF assms(6)] by blast

text \<open>
  A conflict record is either refused by the encoder or decoded to itself: no field is
  truncated on the wire, and the preserved candidate records come back byte for byte.
\<close>

theorem conflict_record_roundtrip:
  assumes "conflict_strings c"
  shows "case conflict_try_encode c of Inr w \<Rightarrow> conflict_decode w = Inr c | Inl e \<Rightarrow> e \<noteq> Panic"
proof (cases "conflict_try_encode c")
  case (Inr w)
  then show ?thesis using conflict_decode_encode [OF _ assms] by simp
next
  case (Inl e)
  have ps: "calm (push_str s)" for s by (simp add: push_str_def)
  have pss: "calm (push_strs ss)" for ss by (induction ss) (auto intro!: calm_and_then ps)
  have "calm (conflict_try_encode c)"
    unfolding conflict_try_encode_def
    by (auto intro!: calm_and_then ps pss split: option.split)
  then show ?thesis using Inl by (simp add: calm_def)
qed

text \<open>
  The id of a conflict depends on the subject and the set of candidates alone, so merging the
  same versions again, in any order and with repetitions, meets the same record.
\<close>

theorem conflict_id_order_free:
  assumes "set cs = set ds"
  shows "generate_conflict_id subject cs = generate_conflict_id subject ds \<and>
    sorted (snd (generate_conflict_id subject cs)) \<and> distinct (snd (generate_conflict_id subject cs)) \<and>
    set (snd (generate_conflict_id subject cs)) = set cs"
  using canonical_set [OF assms] assms
  by (simp_all add: generate_conflict_id_def Let_def case_prod_unfold canonical_def
      sorted_remdups_adj_distinct sorted_remdups_adj)

section \<open>Witnesses\<close>

lemma replication_wire_roundtrip_witness:
  "delta_decode (DELTA_MAGIC @ [1] @ [1, 0, 7, 9, 0, 0, 0, 0, 0, 0, 0] @ [0, 0]) =
     Inr \<lparr>dl_base = [\<lparr>mv_node_id = 7, mv_version = 9\<rparr>], dl_records = []\<rparr> \<and>
   state_decode (CRDT_MAGIC @ [1, 5] @ [3, 0, 0, 0, 0, 0, 0, 0] @ [2, 0, 0, 0, 0, 0, 0, 0] @ [0, 0]) =
     Inr \<lparr>cs_node_id = 5, cs_local_version = 3, cs_own_writes = 2, cs_node_versions = []\<rparr>"
proof -
  have le: "le_enc 2 (Suc 0) = [1, 0]" "le_enc 2 0 = [0, 0]"
    "le_enc 8 9 = [9, 0, 0, 0, 0, 0, 0, 0]" "le_enc 8 3 = [3, 0, 0, 0, 0, 0, 0, 0]"
    "le_enc 8 2 = [2, 0, 0, 0, 0, 0, 0, 0]"
  proof -
    have n: "(2 :: nat) = Suc (Suc 0)" "(8 :: nat) = Suc (Suc (Suc (Suc (Suc (Suc (Suc (Suc 0)))))))" by simp_all
    show "le_enc 2 (Suc 0) = [1, 0]" "le_enc 2 0 = [0, 0]" unfolding n by simp_all
    show "le_enc 8 9 = [9, 0, 0, 0, 0, 0, 0, 0]" "le_enc 8 3 = [3, 0, 0, 0, 0, 0, 0, 0]" unfolding n(2) by simp_all
    show "le_enc 8 2 = [2, 0, 0, 0, 0, 0, 0, 0]" unfolding n(2) by simp
  qed
  let ?d = "\<lparr>dl_base = [\<lparr>mv_node_id = 7, mv_version = 9\<rparr>], dl_records = []\<rparr>"
  let ?s = "\<lparr>sn_versions = [], sn_records = []\<rparr>"
  let ?st = "\<lparr>cs_node_id = 5, cs_local_version = 3, cs_own_writes = 2, cs_node_versions = []\<rparr>"
  let ?e = "\<lparr>env_node_id = 0, env_payload = [], env_auth = []\<rparr>"
  have "delta_try_encode ?d = Inr (DELTA_MAGIC @ [1] @ [1, 0, 7, 9, 0, 0, 0, 0, 0, 0, 0] @ [0, 0])"
    by (simp add: delta_try_encode_def encode_versions_def encode_records_def le)
  moreover have "snapshot_try_encode ?s = Inr (SNAP_MAGIC @ [1] @ [0, 0] @ [0, 0])"
    by (simp add: snapshot_try_encode_def encode_versions_def encode_records_def le)
  moreover have "state_try_encode ?st = Inr (CRDT_MAGIC @ [1, 5] @ [3, 0, 0, 0, 0, 0, 0, 0] @
      [2, 0, 0, 0, 0, 0, 0, 0] @ [0, 0])"
    by (simp add: state_try_encode_def CRDT_VERSION_def le)
  moreover have "envelope_try_encode ?e = Inr ([0] @ le_enc 4 0 @ le_enc 4 0)"
    by (simp add: envelope_try_encode_def)
  ultimately show ?thesis
    using replication_wire_roundtrip [of ?d ?s _ _ ?st _ ?e] by simp
qed

definition sample_conflict :: conflict_record where
  "sample_conflict = \<lparr>cr_conflict_id = ascii ''c1'', cr_subject = ascii ''mem/x'',
     cr_candidates = [ascii ''v1'', ascii ''v2''], cr_nodes = [1, 2], cr_created_tick = 40,
     cr_status = Resolved, cr_resolved_winner = Some (ascii ''v2''), cr_records = [[1, 2], []]\<rparr>"

lemma conflict_record_roundtrip_witness:
  "\<exists>w. conflict_try_encode sample_conflict = Inr w \<and> conflict_decode w = Inr sample_conflict"
proof -
  have "conflict_strings sample_conflict"
    by (simp add: conflict_strings_def sample_conflict_def ascii_def utf8_valid.simps(2))
  moreover obtain w where "conflict_try_encode sample_conflict = Inr w"
    by (simp add: conflict_try_encode_def sample_conflict_def push_str_def)
  ultimately show ?thesis using conflict_record_roundtrip [of sample_conflict] by simp
qed

lemma conflict_id_order_free_witness:
  "generate_conflict_id [1] [[3], [2], [3]] = generate_conflict_id [1] [[2], [3]]"
  using conflict_id_order_free [of "[[3], [2], [3]]" "[[2], [3]]" "[1]"] by auto

end
