(* ===== verification/Crdt_Sync.thy ===== *)
theory Crdt_Sync
  imports Crdt_Wire
begin

text \<open>
  The version-synchronisation agent \<open>CrdtMemorySync\<close> of \<open>src/src/crdt.rs\<close>, with the merge
  policy of the layers.  The transport is a parameter: \<open>recv_crdt\<close> is the list of versions it
  delivers, and sending is a function from the transport's state and a packet.
\<close>

section \<open>Policies and verdicts\<close>

datatype merge_verdict =
  Self_packet | Stale | Duplicate | Applied | Conflict | Rejected | Rejected_by_authority

datatype merge_policy =
  Local_only | Local_working | Multi_value_register | Causal_lww_with_history | Controlled_lww | Reserved

fun for_layer :: "memory_layer \<Rightarrow> merge_policy" where
  "for_layer L0Sensory = Local_only"
| "for_layer L1Working = Local_working"
| "for_layer L2EpisodicShort = Multi_value_register"
| "for_layer L3EpisodicLong = Multi_value_register"
| "for_layer L4Semantic = Causal_lww_with_history"
| "for_layer L5Procedural = Controlled_lww"
| "for_layer L7Identity = Controlled_lww"
| "for_layer L6Reserved = Reserved"

definition accepts_remote :: "merge_policy \<Rightarrow> bool" where
  "accepts_remote p \<longleftrightarrow> p \<noteq> Local_only \<and> p \<noteq> Local_working \<and> p \<noteq> Reserved"

fun policy_description :: "merge_policy \<Rightarrow> bytes" where
  "policy_description Local_only = ascii ''L0 sensory: strictly local, remote never adopted''"
| "policy_description Local_working = ascii ''L1 working: local-only working memory''"
| "policy_description Multi_value_register =
     ascii ''L2/L3 episodic: concurrent versions both retained (multi-value)''"
| "policy_description Causal_lww_with_history =
     ascii ''L4 semantic: causally-dominant wins, older superseded with history''"
| "policy_description Controlled_lww =
     ascii ''L5/L7 procedural/identity: LWW with safeguards, history preserved''"
| "policy_description Reserved = ascii ''L6 reserved: no merge semantics defined''"

section \<open>The agent\<close>

record crdt_sync =
  cy_node_id :: u8
  cy_local_version :: u64
  cy_own_writes :: u64
  cy_node_versions :: "(u8 \<times> u64) list"
  cy_conflicts :: "memory_version list"
  cy_pending :: "u64 list"
  cy_last_sync_at :: "u64 option"
  cy_active :: bool

definition SYNC_INTERVAL :: u64 where
  "SYNC_INTERVAL = 200"

definition sync_new :: "u8 \<Rightarrow> crdt_sync" where
  "sync_new node = \<lparr>cy_node_id = node, cy_local_version = 0, cy_own_writes = 0, cy_node_versions = [],
     cy_conflicts = [], cy_pending = [], cy_last_sync_at = None, cy_active = False\<rparr>"

definition announce :: "crdt_sync \<Rightarrow> (u8 \<times> u64) list" where
  "announce s = (cy_node_id s, cy_local_version s) # cy_node_versions s"

definition known_clock :: "crdt_sync \<Rightarrow> (u8 \<times> u64) list" where
  "known_clock s = announce s"

definition sync_state :: "crdt_sync \<Rightarrow> crdt_state" where
  "sync_state s = \<lparr>cs_node_id = cy_node_id s, cs_local_version = cy_local_version s,
     cs_own_writes = cy_own_writes s, cs_node_versions = cy_node_versions s\<rparr>"

definition sync_restore :: "crdt_sync \<Rightarrow> crdt_state \<Rightarrow> bool \<times> crdt_sync" where
  "sync_restore s st =
     (if cs_node_id st \<noteq> cy_node_id s then (False, s)
      else (True, s\<lparr>cy_local_version := cs_local_version st, cy_own_writes := cs_own_writes st,
                    cy_node_versions := cs_node_versions st\<rparr>))"

definition saturating_inc :: "u64 \<Rightarrow> u64" where
  "saturating_inc x = (if x = u64_max then u64_max else x + 1)"

definition record_change :: "crdt_sync \<Rightarrow> crdt_sync" where
  "record_change s =
     (let v = saturating_inc (cy_local_version s)
      in s\<lparr>cy_local_version := v, cy_own_writes := saturating_inc (cy_own_writes s),
           cy_pending := cy_pending s @ [v]\<rparr>)"

definition pending_deltas :: "crdt_sync \<Rightarrow> nat" where
  "pending_deltas s = length (cy_pending s)"

fun upsert_version :: "u8 \<Rightarrow> u64 \<Rightarrow> (u8 \<times> u64) list \<Rightarrow> (u8 \<times> u64) list" where
  "upsert_version node v [] = [(node, v)]"
| "upsert_version node v (e # es) =
     (if fst e = node then (node, v) # es else e # upsert_version node v es)"

definition apply_remote_version :: "crdt_sync \<Rightarrow> u8 \<Rightarrow> u64 \<Rightarrow> merge_verdict \<times> crdt_sync" where
  "apply_remote_version s node v =
     (if node = cy_node_id s then (Self_packet, s)
      else if v = 0 then (Duplicate, s)
      else
        let known = map_of (cy_node_versions s) node in
        if (case known of Some k \<Rightarrow> v < k | None \<Rightarrow> False) then (Stale, s)
        else if known = Some v then (Duplicate, s)
        else
          let has_other_state = cy_own_writes s > 0 \<or> length (cy_node_versions s) > 1 \<or>
                (length (cy_node_versions s) = 1 \<and> \<not> list_ex (\<lambda>e. fst e = node) (cy_node_versions s));
              s' = s\<lparr>cy_node_versions := upsert_version node v (cy_node_versions s)\<rparr>
          in if has_other_state then
               let c = \<lparr>mv_node_id = node, mv_version = v\<rparr> in
               (Conflict, if c \<in> set (cy_conflicts s') then s' else s'\<lparr>cy_conflicts := cy_conflicts s' @ [c]\<rparr>)
             else (Applied, s'))"

definition apply_with_policy ::
  "crdt_sync \<Rightarrow> u8 \<Rightarrow> u64 \<Rightarrow> merge_policy \<Rightarrow> merge_verdict \<times> crdt_sync" where
  "apply_with_policy s node v p =
     (if \<not> accepts_remote p then (Rejected, s) else apply_remote_version s node v)"

definition version_or_zero :: "(u8 \<times> u64) list \<Rightarrow> u8 \<Rightarrow> u64" where
  "version_or_zero vs n = (case map_of vs n of Some v \<Rightarrow> v | None \<Rightarrow> 0)"

definition version_key :: "memory_version \<Rightarrow> nat" where
  "version_key mv = unat (mv_node_id mv) * 2 ^ 64 + unat (mv_version mv)"

definition missing_after :: "crdt_sync \<Rightarrow> (u8 \<times> u64) list \<Rightarrow> memory_version list" where
  "missing_after s peer =
     sort_key version_key
       (map (\<lambda>(n, k). \<lparr>mv_node_id = n, mv_version = k\<rparr>)
          (filter (\<lambda>(n, k). version_or_zero peer n < k) (cy_node_versions s)) @
        (if version_or_zero peer (cy_node_id s) < cy_local_version s
         then [\<lparr>mv_node_id = cy_node_id s, mv_version = cy_local_version s\<rparr>] else []))"

section \<open>One round\<close>

datatype packet = Pk_delta u8 u64 bytes | Pk_crdt u8 u64

text \<open>The receive loop of \<open>sync\<close>: the log lines apart, it applies every version.\<close>

definition receive :: "crdt_sync \<Rightarrow> (u8 \<times> u64) list \<Rightarrow> crdt_sync" where
  "receive s msgs = fold (\<lambda>(n, v) s. snd (apply_remote_version s n v)) msgs s"

fun send_pending ::
  "('t \<Rightarrow> packet \<Rightarrow> (sgdb_error + unit) \<times> 't) \<Rightarrow> crdt_sync \<Rightarrow> u64 list \<Rightarrow> 't \<Rightarrow> (sgdb_error + unit) \<times> 't" where
  "send_pending send s [] t = (Inr (), t)"
| "send_pending send s (v # vs) t =
     (if cy_node_versions s = [] \<or> list_ex (\<lambda>(_, k). k < v) (cy_node_versions s) then
        (case send t (Pk_delta (cy_node_id s) v []) of
           (Inl e, t) \<Rightarrow> (Inl e, t)
         | (Inr _, t) \<Rightarrow> send_pending send s vs t)
      else send_pending send s vs t)"

definition crdt_sync_round ::
  "('t \<Rightarrow> packet \<Rightarrow> (sgdb_error + unit) \<times> 't) \<Rightarrow> (u8 \<times> u64) list \<Rightarrow> u64 \<Rightarrow> crdt_sync \<Rightarrow> 't \<Rightarrow>
   (sgdb_error + unit) \<times> crdt_sync \<times> 't" where
  "crdt_sync_round send recvd now s t =
     (let s = receive s recvd in
      if (case cy_last_sync_at s of Some prev \<Rightarrow> now - prev < SYNC_INTERVAL | None \<Rightarrow> False)
      then (Inr (), s, t)
      else
        let pending = cy_pending s;
            s = s\<lparr>cy_last_sync_at := Some now, cy_active := True, cy_pending := []\<rparr>
        in (case send_pending send s pending t of
              (Inl e, t) \<Rightarrow> (Inl e, s, t)
            | (Inr _, t) \<Rightarrow>
                (case send t (Pk_crdt (cy_node_id s) (cy_local_version s)) of
                   (r, t) \<Rightarrow> (r, s, t))))"

definition crdt_demo :: bool where
  "crdt_demo =
     (let s = sync_new 1 in
      if cy_active s \<or> cy_local_version s \<noteq> 0 then False
      else let s = record_change s in
        if cy_local_version s \<noteq> 1 then False
        else let s = record_change s in
          cy_local_version s = 2 \<and> cy_node_versions s = [])"

section \<open>The default of the transport trait\<close>

definition send_delta_default ::
  "('t \<Rightarrow> u8 \<Rightarrow> u64 \<Rightarrow> (sgdb_error + unit) \<times> 't) \<Rightarrow> 't \<Rightarrow> u8 \<Rightarrow> u64 \<Rightarrow> bytes \<Rightarrow> (sgdb_error + unit) \<times> 't" where
  "send_delta_default send_crdt t node v payload = send_crdt t node v"

text \<open>The datagrams of \<open>UdpTransport\<close>: nine bytes out; anything of nine bytes or more in.\<close>

definition udp_encode :: "u8 \<Rightarrow> u64 \<Rightarrow> bytes" where
  "udp_encode node v = [node] @ le_enc 8 (unat v)"

definition udp_decode :: "bytes \<Rightarrow> (u8 \<times> u64) option" where
  "udp_decode d = (if length d \<ge> 9 then Some (d ! 0, of_nat (le_val (take 8 (drop 1 d)))) else None)"

section \<open>What a node knows\<close>

definition known :: "crdt_sync \<Rightarrow> u8 \<Rightarrow> u64" where
  "known s n = version_or_zero (cy_node_versions s) n"

lemma map_of_upsert: "map_of (upsert_version node v es) = (map_of es)(node \<mapsto> v)"
  by (induction es) (auto simp: fun_eq_iff)

lemma keys_upsert: "fst ` set (upsert_version node v es) = insert node (fst ` set es)"
  by (induction es) auto

lemma distinct_upsert: "distinct (map fst es) \<Longrightarrow> distinct (map fst (upsert_version node v es))"
proof (induction es)
  case Nil
  then show ?case by simp
next
  case (Cons e es)
  then show ?case using keys_upsert [of node v es] by auto
qed

definition sync_wf :: "crdt_sync \<Rightarrow> bool" where
  "sync_wf s \<longleftrightarrow> distinct (map fst (cy_node_versions s)) \<and> cy_node_id s \<notin> fst ` set (cy_node_versions s) \<and>
     (\<forall>(n, v) \<in> set (cy_node_versions s). v \<noteq> 0)"

lemma node_id_apply [simp]: "cy_node_id (snd (apply_remote_version s n v)) = cy_node_id s"
  by (simp add: apply_remote_version_def Let_def split: option.splits)

lemma own_apply [simp]:
  "cy_local_version (snd (apply_remote_version s n v)) = cy_local_version s"
  "cy_own_writes (snd (apply_remote_version s n v)) = cy_own_writes s"
  "cy_pending (snd (apply_remote_version s n v)) = cy_pending s"
  by (simp_all add: apply_remote_version_def Let_def split: option.splits)

text \<open>One version moves the knowledge about its node to the maximum.\<close>

lemma known_apply:
  "known (snd (apply_remote_version s node v)) n =
     (if n = node \<and> n \<noteq> cy_node_id s then max (known s n) v else known s n)"
proof (cases "node = cy_node_id s \<or> v = 0")
  case True
  then show ?thesis by (auto simp: apply_remote_version_def)
next
  case False
  have m: "max a b = (if a < b then b else a)" for a b :: u64
    by (cases a b rule: linorder_cases) (auto simp: max_def)
  show ?thesis
  proof (cases "map_of (cy_node_versions s) node")
    case None
    then show ?thesis
      using False by (auto simp: apply_remote_version_def Let_def known_def version_or_zero_def map_of_upsert)
  next
    case (Some k)
    then show ?thesis
      using False by (auto simp: apply_remote_version_def Let_def known_def version_or_zero_def map_of_upsert m)
  qed
qed

lemma receive_simps [simp]:
  "receive s [] = s" "receive s ((n, v) # msgs) = receive (snd (apply_remote_version s n v)) msgs"
  by (simp_all add: receive_def)

lemma node_id_receive [simp]: "cy_node_id (receive s msgs) = cy_node_id s"
  by (induction msgs arbitrary: s) auto

lemma own_receive [simp]:
  "cy_local_version (receive s msgs) = cy_local_version s"
  "cy_own_writes (receive s msgs) = cy_own_writes s" "cy_pending (receive s msgs) = cy_pending s"
  by (induction msgs arbitrary: s) auto

lemma known_receive:
  "known (receive s msgs) n =
     (if n = cy_node_id s then known s n else Max (insert (known s n) {v. (n, v) \<in> set msgs}))"
proof (induction msgs arbitrary: s)
  case Nil
  then show ?case by simp
next
  case (Cons e msgs)
  obtain node v where e: "e = (node, v)" by (cases e)
  have fin: "finite {w. (n, w) \<in> set msgs}"
    by (rule finite_subset [of _ "snd ` set msgs"]) force+
  show ?case
  proof (cases "n = node \<and> n \<noteq> cy_node_id s")
    case True
    have "{w. (n, w) \<in> set (e # msgs)} = insert v {w. (n, w) \<in> set msgs}" using True e by auto
    moreover have "Max (insert (max (known s n) v) {w. (n, w) \<in> set msgs}) =
        Max (insert (known s n) (insert v {w. (n, w) \<in> set msgs}))"
      using fin by (cases "{w. (n, w) \<in> set msgs} = {}") (simp_all add: max.assoc)
    ultimately show ?thesis using True e Cons.IH by (simp add: known_apply)
  next
    case False
    then have "n \<noteq> cy_node_id s \<Longrightarrow> {w. (n, w) \<in> set (e # msgs)} = {w. (n, w) \<in> set msgs}"
      using e by auto
    then show ?thesis using False e Cons.IH by (auto simp: known_apply)
  qed
qed

lemma sync_wf_new: "sync_wf (sync_new n)"
  by (simp add: sync_wf_def sync_new_def)

lemma set_upsert: "set (upsert_version node v es) \<subseteq> insert (node, v) (set es)"
  by (induction es) auto

lemma sync_wf_apply: "sync_wf s \<Longrightarrow> sync_wf (snd (apply_remote_version s node v))"
  using set_upsert [of node v "cy_node_versions s"] keys_upsert [of node v "cy_node_versions s"]
  by (auto simp: apply_remote_version_def Let_def sync_wf_def distinct_upsert split: option.splits)

lemma sync_wf_receive: "sync_wf s \<Longrightarrow> sync_wf (receive s msgs)"
  by (induction msgs arbitrary: s) (auto simp: sync_wf_apply)

lemma sync_wf_change: "sync_wf s \<Longrightarrow> sync_wf (record_change s)"
  by (simp add: record_change_def sync_wf_def Let_def)

section \<open>Exchange\<close>

text \<open>The clock a node announces: its own version, and what it knows of the others.\<close>

definition clock_of :: "crdt_sync \<Rightarrow> u8 \<Rightarrow> u64" where
  "clock_of s n = version_or_zero (known_clock s) n"

lemma clock_of_alt: "clock_of s n = (if n = cy_node_id s then cy_local_version s else known s n)"
  by (simp add: clock_of_def known_clock_def announce_def version_or_zero_def known_def)

definition as_msgs :: "memory_version list \<Rightarrow> (u8 \<times> u64) list" where
  "as_msgs = map (\<lambda>mv. (mv_node_id mv, mv_version mv))"

lemma map_of_known:
  assumes "sync_wf s"
  shows "map_of (cy_node_versions s) n = (if known s n = 0 then None else Some (known s n))"
proof (cases "map_of (cy_node_versions s) n")
  case None
  then show ?thesis by (simp add: known_def version_or_zero_def)
next
  case (Some v)
  then have "v \<noteq> 0" using map_of_SomeD [OF Some] assms by (auto simp: sync_wf_def)
  with Some show ?thesis by (simp add: known_def version_or_zero_def)
qed

lemma known_iff: "sync_wf s \<Longrightarrow> v \<noteq> 0 \<Longrightarrow> (n, v) \<in> set (cy_node_versions s) \<longleftrightarrow> known s n = v"
  using map_of_known [of s n] map_of_eq_Some_iff [of "cy_node_versions s" n v]
  by (auto simp: sync_wf_def split: if_splits)

lemma known_key: "sync_wf s \<Longrightarrow> n \<in> fst ` set (cy_node_versions s) \<longleftrightarrow> known s n \<noteq> 0"
  using map_of_known [of s n] map_of_eq_None_iff [of "cy_node_versions s" n] by auto

lemma missing_set:
  assumes "sync_wf s"
  shows "(n, v) \<in> set (as_msgs (missing_after s peer)) \<longleftrightarrow>
    v = clock_of s n \<and> version_or_zero peer n < v"
proof -
  have "(n, v) \<in> set (as_msgs (missing_after s peer)) \<longleftrightarrow>
      version_or_zero peer n < v \<and> ((n, v) \<in> set (cy_node_versions s) \<or>
        (n = cy_node_id s \<and> v = cy_local_version s))"
  proof -
    let ?f = "\<lambda>(n, k). \<lparr>mv_node_id = n, mv_version = k\<rparr>"
    have "as_msgs (map ?f xs) = xs" for xs by (induction xs) (auto simp: as_msgs_def)
    moreover have "set (as_msgs (sort_key version_key xs)) = set (as_msgs xs)" for xs
      by (simp add: as_msgs_def)
    moreover have "as_msgs (xs @ ys) = as_msgs xs @ as_msgs ys" for xs ys by (simp add: as_msgs_def)
    ultimately show ?thesis by (auto simp: missing_after_def) (auto simp: as_msgs_def)
  qed
  moreover have "version_or_zero peer n < v \<Longrightarrow> v \<noteq> 0"
    using not_less_zero by auto
  moreover have "n = cy_node_id s \<Longrightarrow> (n, v) \<notin> set (cy_node_versions s)"
    using assms by (force simp: sync_wf_def)
  ultimately show ?thesis using known_iff [OF assms] by (auto simp: clock_of_alt)
qed

lemma upsert_length: "length es \<le> length (upsert_version node v es)"
  by (induction es) auto

lemma conflicts_apply: "set (cy_conflicts s) \<subseteq> set (cy_conflicts (snd (apply_remote_version s node v)))"
  by (auto simp: apply_remote_version_def Let_def split: option.splits)

lemma conflicts_receive: "set (cy_conflicts s) \<subseteq> set (cy_conflicts (receive s msgs))"
proof (induction msgs arbitrary: s)
  case Nil
  then show ?case by simp
next
  case (Cons e msgs)
  then show ?case using conflicts_apply by (cases e) fastforce
qed

lemma other_state:
  assumes "sync_wf s"
  shows "(length (cy_node_versions s) > 1 \<or>
      (length (cy_node_versions s) = 1 \<and> \<not> list_ex (\<lambda>e. fst e = node) (cy_node_versions s))) \<longleftrightarrow>
    (\<exists>n. n \<noteq> node \<and> known s n \<noteq> 0)"
proof -
  have k: "known s n \<noteq> 0 \<longleftrightarrow> n \<in> fst ` set (cy_node_versions s)" for n
    using known_key [OF assms] by simp
  show ?thesis
  proof (cases "cy_node_versions s")
    case Nil
    then show ?thesis using k by simp
  next
    case (Cons e es)
    then show ?thesis
    proof (cases es)
      case Nil
      then show ?thesis using Cons k by (auto simp: image_iff)
    next
      case (Cons e' es')
      then have "fst e \<noteq> fst e'" using assms \<open>cy_node_versions s = e # es\<close> by (simp add: sync_wf_def)
      then have "\<exists>n. n \<noteq> node \<and> n \<in> fst ` set (cy_node_versions s)"
      proof -
        have "fst e \<in> fst ` set (cy_node_versions s)" "fst e' \<in> fst ` set (cy_node_versions s)"
          using Cons \<open>cy_node_versions s = e # es\<close> by simp_all
        with \<open>fst e \<noteq> fst e'\<close> show ?thesis by (metis (no_types))
      qed
      then show ?thesis using k Cons \<open>cy_node_versions s = e # es\<close> by auto
    qed
  qed
qed

lemma if_swap: "(if \<not> b then x else y) = (if b then y else x)"
  by simp

lemma send_pending_none:
  "cy_node_versions s \<noteq> [] \<Longrightarrow> (\<And>v n k. v \<in> set vs \<Longrightarrow> (n, k) \<in> set (cy_node_versions s) \<Longrightarrow> v \<le> k) \<Longrightarrow>
   send_pending send s vs t = (Inr (), t)"
proof (induction vs)
  case Nil
  then show ?case by simp
next
  case (Cons v vs)
  have "\<not> list_ex (\<lambda>(_, k). k < v) (cy_node_versions s)"
    using Cons.prems(2) by (force simp: list_ex_iff not_less)
  then show ?case using Cons by simp
qed

section \<open>Properties\<close>

text \<open>
  C23: what a node knows after a batch of versions is, for every other node, the largest version it
  knew or received: the order and the repetition of the messages do not matter.
\<close>

theorem versions_converge:
  assumes "set msgs = set msgs'"
  shows "known (receive s msgs) n = known (receive s msgs') n \<and>
    known (receive s msgs) n =
      (if n = cy_node_id s then known s n else Max (insert (known s n) {v. (n, v) \<in> set msgs}))"
  using assms by (simp add: known_receive)

text \<open>
  C24: one anti-entropy exchange is complete and minimal: what \<open>missing_after\<close> answers to a peer's
  clock brings the peer to the maximum of both clocks for every other node, and holds no version
  the peer has announced.
\<close>

theorem anti_entropy_complete:
  assumes "sync_wf a" "n \<noteq> cy_node_id b"
  shows "known (receive b (as_msgs (missing_after a (known_clock b)))) n = max (known b n) (clock_of a n) \<and>
    (\<forall>(m, v) \<in> set (as_msgs (missing_after a (known_clock b))). clock_of b m < v)"
proof -
  let ?msgs = "as_msgs (missing_after a (known_clock b))"
  have "{v. (n, v) \<in> set ?msgs} = (if clock_of b n < clock_of a n then {clock_of a n} else {})"
    using missing_set [OF assms(1)] by (auto simp: clock_of_def)
  moreover have "clock_of b n = known b n" using assms(2) by (simp add: clock_of_alt)
  moreover have "max x y = (if x < y then y else x)" for x y :: u64
    by (cases x y rule: linorder_cases) (auto simp: max_def)
  ultimately have "known (receive b ?msgs) n = max (known b n) (clock_of a n)"
    using assms(2) by (simp add: known_receive)
  moreover have "\<forall>(m, v) \<in> set ?msgs. clock_of b m < v"
    using missing_set [OF assms(1)] by (auto simp: clock_of_def)
  ultimately show ?thesis by blast
qed

text \<open>
  The verdict on a received version compares it with the known version of its node; a newer
  one is applied only where the node has no writes of its own and knows no other node, and
  otherwise it is a conflict that is kept with all earlier ones.
\<close>

theorem verdict_spec:
  assumes "sync_wf s" "node \<noteq> cy_node_id s" "v \<noteq> 0"
  shows "fst (apply_remote_version s node v) =
      (if v < known s node then Stale else if v = known s node then Duplicate
       else if cy_own_writes s = 0 \<and> (\<forall>n. n \<noteq> node \<longrightarrow> known s n = 0) then Applied else Conflict) \<and>
    set (cy_conflicts (snd (apply_remote_version s node v))) = set (cy_conflicts s) \<union>
      (if fst (apply_remote_version s node v) = Conflict
       then {\<lparr>mv_node_id = node, mv_version = v\<rparr>} else {})"
proof -
  let ?other = "cy_own_writes s > 0 \<or> length (cy_node_versions s) > 1 \<or>
    (length (cy_node_versions s) = 1 \<and> \<not> list_ex (\<lambda>e. fst e = node) (cy_node_versions s))"
  have o: "?other \<longleftrightarrow> \<not> (cy_own_writes s = 0 \<and> (\<forall>n. n \<noteq> node \<longrightarrow> known s n = 0))"
    using other_state [OF assms(1), of node] by (simp add: word_neq_0_conv [symmetric])
  have st: "(case map_of (cy_node_versions s) node of Some k \<Rightarrow> v < k | None \<Rightarrow> False) \<longleftrightarrow> v < known s node"
    by (simp add: known_def version_or_zero_def split: option.split)
  have du: "map_of (cy_node_versions s) node = Some v \<longleftrightarrow> v = known s node"
    using assms(3) by (auto simp: known_def version_or_zero_def split: option.splits)
  have v: "fst (apply_remote_version s node v) =
      (if v < known s node then Stale else if v = known s node then Duplicate
       else if ?other then Conflict else Applied)"
    unfolding apply_remote_version_def Let_def st du using assms(2,3) by (auto split: if_splits)
  moreover have "set (cy_conflicts (snd (apply_remote_version s node v))) = set (cy_conflicts s) \<union>
      (if fst (apply_remote_version s node v) = Conflict
       then {\<lparr>mv_node_id = node, mv_version = v\<rparr>} else {})"
    unfolding apply_remote_version_def Let_def st du using assms(2,3) by (auto split del: if_split split: if_splits)
  moreover have "(if ?other then Conflict else Applied) =
      (if cy_own_writes s = 0 \<and> (\<forall>n. n \<noteq> node \<longrightarrow> known s n = 0) then Applied else Conflict)"
    unfolding o by (rule if_swap)
  ultimately show ?thesis by (simp only:)
qed

text \<open>
  A round that fails while it sends has already dropped every pending delta and set the time
  of the last round, so the deltas it did not send are sent by no later round.
\<close>

theorem failed_round_drops_deltas:
  assumes "crdt_sync_round send msgs now s t = (Inl e, s', t')"
  shows "cy_pending s' = [] \<and> cy_last_sync_at s' = Some now"
  using assms by (auto simp: crdt_sync_round_def Let_def split: if_splits prod.splits sum.splits)

text \<open>
  The pending deltas are compared with the peers' own version counters: a node whose peers
  have written more than itself sends none of its deltas, only the heartbeat, whatever the peers
  know of it.
\<close>

theorem deltas_withheld:
  assumes "cy_last_sync_at s = None" "cy_node_versions s \<noteq> []"
    and "\<And>v n k. v \<in> set (cy_pending s) \<Longrightarrow> (n, k) \<in> set (cy_node_versions s) \<Longrightarrow> v \<le> k"
  shows "crdt_sync_round send [] now s t =
    (case send t (Pk_crdt (cy_node_id s) (cy_local_version s)) of (r, t') \<Rightarrow>
       (r, s\<lparr>cy_last_sync_at := Some now, cy_active := True, cy_pending := []\<rparr>, t'))"
proof -
  have "send_pending send (s\<lparr>cy_last_sync_at := Some now, cy_active := True, cy_pending := []\<rparr>)
      (cy_pending s) t = (Inr (), t)"
    using assms(2,3) by (intro send_pending_none) auto
  then show ?thesis using assms(1) by (simp add: crdt_sync_round_def)
qed

section \<open>Witnesses\<close>

definition node_a :: crdt_sync where
  "node_a = (record_change (sync_new 1))\<lparr>cy_node_versions := [(2, 100)]\<rparr>"

lemma node_a_simps: "cy_node_id node_a = 1" "cy_local_version node_a = 1" "cy_own_writes node_a = 1"
  "cy_node_versions node_a = [(2, 100)]" "cy_conflicts node_a = []" "cy_pending node_a = [1]"
  "cy_last_sync_at node_a = None"
  by (simp_all add: node_a_def record_change_def sync_new_def saturating_inc_def Let_def)

lemma node_a_wf: "sync_wf node_a"
  by (simp add: sync_wf_def node_a_simps)

lemma versions_converge_witness:
  "known (receive (sync_new 1) [(2, 5), (3, 1), (2, 9)]) 2 =
   known (receive (sync_new 1) [(2, 9), (2, 5), (3, 1), (2, 5)]) 2"
proof -
  have "set [(2, 5), (3, 1), (2, 9)] = (set [(2, 9), (2, 5), (3, 1), (2, 5)] :: (u8 \<times> u64) set)" by auto
  from versions_converge [OF this] show ?thesis by blast
qed

lemma anti_entropy_complete_witness:
  "known (receive (sync_new 3) (as_msgs (missing_after node_a (known_clock (sync_new 3))))) 2 = 100"
proof -
  have "2 \<noteq> cy_node_id (sync_new 3)" by (simp add: sync_new_def)
  from anti_entropy_complete [OF node_a_wf this]
  have "known (receive (sync_new 3) (as_msgs (missing_after node_a (known_clock (sync_new 3))))) 2 =
      max (known (sync_new 3) 2) (clock_of node_a 2)" by blast
  also have "known (sync_new 3) 2 = 0" by (simp add: known_def version_or_zero_def sync_new_def)
  also have "clock_of node_a 2 = 100"
    by (simp add: clock_of_alt node_a_simps known_def version_or_zero_def)
  finally show ?thesis by simp
qed

lemma verdict_spec_witness: "fst (apply_remote_version node_a 2 101) = Conflict"
  using verdict_spec [OF node_a_wf, of 2 101] by (simp add: known_def version_or_zero_def node_a_simps)

definition failing_round :: "(sgdb_error + unit) \<times> crdt_sync \<times> unit" where
  "failing_round = crdt_sync_round (\<lambda>t p. (Inl SE_Corrupt, t)) [] 0
     (node_a\<lparr>cy_node_versions := []\<rparr>) ()"

lemma failed_round_drops_deltas_witness:
  "fst failing_round = Inl SE_Corrupt \<and> cy_pending (fst (snd failing_round)) = []"
proof -
  have e: "fst failing_round = Inl SE_Corrupt"
    by (simp add: failing_round_def crdt_sync_round_def node_a_simps Let_def)
  then have "crdt_sync_round (\<lambda>t p. (Inl SE_Corrupt, t)) [] 0 (node_a\<lparr>cy_node_versions := []\<rparr>) () =
      (Inl SE_Corrupt, fst (snd failing_round), snd (snd failing_round))"
    by (simp add: failing_round_def prod_eq_iff)
  from failed_round_drops_deltas [OF this] e show ?thesis by simp
qed

lemma deltas_withheld_witness:
  "snd (snd (crdt_sync_round (\<lambda>t p. (Inr (), t @ [p])) [] 0 node_a [])) = [Pk_crdt 1 1]"
  by (subst deltas_withheld) (auto simp: node_a_simps)

end
