(* ===== verification/Sha256.thy ===== *)
theory Sha256
  imports Memory_Types
begin

text \<open>
  The hash functions of the audit chain (\<open>src/src/audit.rs\<close>): SHA-256 on 32-bit words, seeded
  FNV-1a on 64-bit words, and the choice between them that the chain makes through \<open>Hasher\<close>.
\<close>

section \<open>SHA-256\<close>

definition rotate_right :: "nat \<Rightarrow> u32 \<Rightarrow> u32" where
  "rotate_right n w = drop_bit n w OR push_bit (32 - n) w"

text \<open>The round constants and the initial state, in decimal.\<close>

definition SHA_K :: "u32 list" where
  "SHA_K =
    [1116352408, 1899447441, 3049323471, 3921009573, 961987163, 1508970993, 2453635748,
     2870763221, 3624381080, 310598401, 607225278, 1426881987, 1925078388, 2162078206,
     2614888103, 3248222580, 3835390401, 4022224774, 264347078, 604807628, 770255983,
     1249150122, 1555081692, 1996064986, 2554220882, 2821834349, 2952996808, 3210313671,
     3336571891, 3584528711, 113926993, 338241895, 666307205, 773529912, 1294757372,
     1396182291, 1695183700, 1986661051, 2177026350, 2456956037, 2730485921, 2820302411,
     3259730800, 3345764771, 3516065817, 3600352804, 4094571909, 275423344, 430227734,
     506948616, 659060556, 883997877, 958139571, 1322822218, 1537002063, 1747873779,
     1955562222, 2024104815, 2227730452, 2361852424, 2428436474, 2756734187, 3204031479,
     3329325298]"

definition SHA_H :: "u32 list" where
  "SHA_H = [1779033703, 3144134277, 1013904242, 2773480762,
     1359893119, 2600822924, 528734635, 1541459225]"

definition to_be_bytes :: "nat \<Rightarrow> nat \<Rightarrow> bytes" where
  "to_be_bytes n x = rev (le_enc n x)"

definition from_be_bytes :: "bytes \<Rightarrow> u32" where
  "from_be_bytes bs = of_nat (le_val (rev bs))"

text \<open>\<open>while msg.len() % 64 != 56 { msg.push(0) }\<close>.\<close>

definition pad_left :: "nat \<Rightarrow> nat" where
  "pad_left n = (56 + 64 - n mod 64) mod 64"

lemma pad_left_alt: "pad_left n = (if n mod 64 \<le> 56 then 56 - n mod 64 else 120 - n mod 64)"
proof (cases "n mod 64 \<le> 56")
  case True
  then have "56 + 64 - n mod 64 = (56 - n mod 64) + 64" by simp
  then have "pad_left n = (56 - n mod 64) mod 64" unfolding pad_left_def by (simp only: mod_add_self2)
  then show ?thesis using True by simp
next
  case False
  moreover have "n mod 64 < 64" by simp
  ultimately show ?thesis by (simp add: pad_left_def)
qed

lemma pad_left_step: "n mod 64 \<noteq> 56 \<Longrightarrow> pad_left n = Suc (pad_left (Suc n))"
proof -
  assume a: "n mod 64 \<noteq> 56"
  have "n mod 64 < 64" by simp
  then show ?thesis using a by (auto simp: pad_left_alt mod_Suc)
qed

function pad_zeros :: "bytes \<Rightarrow> bytes" where
  "pad_zeros msg = (if length msg mod 64 \<noteq> 56 then pad_zeros (msg @ [0]) else msg)"
  by auto
termination
  by (relation "measure (\<lambda>msg. pad_left (length msg))") (auto dest: pad_left_step)

declare pad_zeros.simps [simp del]

definition sha_pad :: "bytes \<Rightarrow> bytes" where
  "sha_pad data =
     pad_zeros (data @ [0x80]) @ to_be_bytes 8 (unat ((of_nat (length data) :: u64) * 8))"

fun chunks64 :: "bytes \<Rightarrow> bytes list" where
  "chunks64 msg = (if length msg < 64 then [] else take 64 msg # chunks64 (drop 64 msg))"

declare chunks64.simps [simp del]

definition sha_words :: "bytes \<Rightarrow> u32 list" where
  "sha_words chunk = map (\<lambda>i. from_be_bytes (take 4 (drop (4 * i) chunk))) [0..<16]"

definition sha_extend :: "nat \<Rightarrow> u32 list \<Rightarrow> u32 list" where
  "sha_extend i w =
     (let a = w ! (i - 15); b = w ! (i - 2);
          s0 = rotate_right 7 a XOR rotate_right 18 a XOR drop_bit 3 a;
          s1 = rotate_right 17 b XOR rotate_right 19 b XOR drop_bit 10 b
      in w @ [w ! (i - 16) + s0 + w ! (i - 7) + s1])"

definition sha_schedule :: "bytes \<Rightarrow> u32 list" where
  "sha_schedule chunk = fold sha_extend [16..<64] (sha_words chunk)"

type_synonym sha_regs = "u32 \<times> u32 \<times> u32 \<times> u32 \<times> u32 \<times> u32 \<times> u32 \<times> u32"

fun sha_round :: "u32 \<times> u32 \<Rightarrow> sha_regs \<Rightarrow> sha_regs" where
  "sha_round (k, w) (a, b, c, d, e, f, g, h) =
     (let s1 = rotate_right 6 e XOR rotate_right 11 e XOR rotate_right 25 e;
          ch = (e AND f) XOR (NOT e AND g);
          t1 = h + s1 + ch + k + w;
          s0 = rotate_right 2 a XOR rotate_right 13 a XOR rotate_right 22 a;
          maj = (a AND b) XOR (a AND c) XOR (b AND c);
          t2 = s0 + maj
      in (t1 + t2, a, b, c, d + t1, e, f, g))"

fun regs_of :: "u32 list \<Rightarrow> sha_regs" where
  "regs_of hs = (hs ! 0, hs ! 1, hs ! 2, hs ! 3, hs ! 4, hs ! 5, hs ! 6, hs ! 7)"

fun list_of_regs :: "sha_regs \<Rightarrow> u32 list" where
  "list_of_regs (a, b, c, d, e, f, g, h) = [a, b, c, d, e, f, g, h]"

definition sha_block :: "bytes \<Rightarrow> u32 list \<Rightarrow> u32 list" where
  "sha_block chunk hs =
     map2 (+) hs (list_of_regs (fold sha_round (zip SHA_K (sha_schedule chunk)) (regs_of hs)))"

definition sha256 :: "bytes \<Rightarrow> bytes" where
  "sha256 data =
     concat (map (\<lambda>v. to_be_bytes 4 (unat v)) (fold sha_block (chunks64 (sha_pad data)) SHA_H))"

section \<open>Hashers\<close>

datatype hasher = Fnv1a64 | Sha256Trunc

fun hasher_label :: "hasher \<Rightarrow> bytes" where
  "hasher_label Fnv1a64 = ascii ''fnv1a64''"
| "hasher_label Sha256Trunc = ascii ''sha256-trunc''"

definition FNV64_OFFSET :: u64 where
  "FNV64_OFFSET = 0xcbf29ce484222325"

definition fnv1a64_seeded :: "u64 \<Rightarrow> bytes \<Rightarrow> u64" where
  "fnv1a64_seeded h data = fold (\<lambda>b h. (h XOR ucast b) * 0x100000001b3) data h"

fun hash_with :: "hasher \<Rightarrow> u64 \<Rightarrow> bytes \<Rightarrow> u64" where
  "hash_with Fnv1a64 seed data = fnv1a64_seeded seed data"
| "hash_with Sha256Trunc seed data =
     of_nat (le_val (take 8 (sha256 (le_enc 8 (unat seed) @ data))))"

text \<open>The process-wide selector \<open>AUDIT_HASHER\<close> is a byte; the operations that read it take it.\<close>

definition audit_hasher :: "u8 \<Rightarrow> hasher" where
  "audit_hasher sel = (if sel = 1 then Sha256Trunc else Fnv1a64)"

fun set_audit_hasher :: "hasher \<Rightarrow> u8" where
  "set_audit_hasher Fnv1a64 = 0"
| "set_audit_hasher Sha256Trunc = 1"

definition audit_hash :: "u8 \<Rightarrow> bytes \<Rightarrow> u64" where
  "audit_hash sel data = hash_with (audit_hasher sel) FNV64_OFFSET data"

definition audit_hash_seeded :: "u8 \<Rightarrow> u64 \<Rightarrow> bytes \<Rightarrow> u64" where
  "audit_hash_seeded sel seed data = hash_with (audit_hasher sel) seed data"

section \<open>Padding\<close>

lemma pad_zeros_replicate: "pad_zeros msg = msg @ replicate (pad_left (length msg)) 0"
proof (induction msg rule: pad_zeros.induct)
  case (1 msg)
  show ?case
  proof (cases "length msg mod 64 = 56")
    case True
    then show ?thesis by (simp add: pad_zeros.simps [of msg] pad_left_alt)
  next
    case False
    then show ?thesis
      using 1 pad_left_step [OF False] by (simp add: pad_zeros.simps [of msg])
  qed
qed

lemma pad_zeros_length: "length (pad_zeros msg) mod 64 = 56"
proof -
  have "(n + pad_left n) mod 64 = 56" for n
  proof -
    have "n mod 64 < 64" by simp
    moreover have "(n + pad_left n) mod 64 = (n mod 64 + pad_left n) mod 64" by (simp add: mod_add_left_eq)
    ultimately show ?thesis by (auto simp: pad_left_alt)
  qed
  then show ?thesis by (simp add: pad_zeros_replicate)
qed

lemma sha_pad_length: "length (sha_pad data) mod 64 = 0"
proof -
  have "(length (pad_zeros (data @ [0x80])) + 8) mod 64 = 0"
    using pad_zeros_length [of "data @ [0x80]"] mod_add_left_eq [of "length (pad_zeros (data @ [0x80]))" 64 8]
    by simp
  then show ?thesis by (simp add: sha_pad_def to_be_bytes_def)
qed

text \<open>
  Padding loses nothing: below \<open>2 ^ 61\<close> bytes the last eight bytes of the padded message give the
  length of the data and its front the data.
\<close>

lemma sha_pad_inj:
  assumes "length a < 2 ^ 61" "length b < 2 ^ 61" "sha_pad a = sha_pad b"
  shows "a = b"
proof -
  let ?n = "\<lambda>d :: bytes. unat ((of_nat (length d) :: u64) * 8)"
  let ?l = "\<lambda>d :: bytes. to_be_bytes 8 (?n d)"
  have n: "?n d = length d * 8" if "length d < 2 ^ 61" for d :: bytes
  proof -
    have "(of_nat (length d) :: u64) * 8 = of_nat (length d * 8)" by simp
    moreover have "length d * 8 < 2 ^ 64" using that by simp
    ultimately show ?thesis by (simp only: unat_of_nat) simp
  qed
  have eq: "pad_zeros (a @ [0x80]) @ ?l a = pad_zeros (b @ [0x80]) @ ?l b"
    using assms(3) by (simp add: sha_pad_def)
  moreover have "length (?l a) = length (?l b)" by (simp add: to_be_bytes_def)
  ultimately have z: "pad_zeros (a @ [0x80]) = pad_zeros (b @ [0x80])" and l: "?l a = ?l b"
    by (simp_all add: append_eq_append_conv)
  have "le_enc 8 (?n a) = le_enc 8 (?n b)" using l by (simp add: to_be_bytes_def)
  then have "?n a = ?n b" using le_val_enc_small [OF unat_u64_less] by metis
  then have "length a = length b" using n assms(1,2) by simp
  then show ?thesis using z by (simp add: pad_zeros_replicate)
qed

lemma sha256_length: "length (sha256 data) = 32"
proof -
  have "length hs = 8 \<Longrightarrow> length (sha_block c hs) = 8" for c hs
  proof -
    have "length (list_of_regs r) = 8" for r by (cases r rule: list_of_regs.cases) simp
    then show "length hs = 8 \<Longrightarrow> length (sha_block c hs) = 8" by (simp add: sha_block_def)
  qed
  then have "length hs = 8 \<Longrightarrow> length (fold sha_block cs hs) = 8" for cs hs
    by (induction cs arbitrary: hs) auto
  then have "length (fold sha_block (chunks64 (sha_pad data)) SHA_H) = 8" by (simp add: SHA_H_def)
  then show ?thesis
    by (simp add: sha256_def length_concat_const [where w = 4] to_be_bytes_def)
qed

lemma audit_hasher_set [simp]: "audit_hasher (set_audit_hasher h) = h"
  by (cases h) (simp_all add: audit_hasher_def)

lemma fnv1a64_seeded_append: "fnv1a64_seeded h (a @ b) = fnv1a64_seeded (fnv1a64_seeded h a) b"
  by (simp add: fnv1a64_seeded_def)

text \<open>FNV-1a is a bijection of its state for each byte, so one changed byte always changes the hash.\<close>

lemma fnv_prime_cancel: "(x :: u64) * 0x100000001b3 = y * 0x100000001b3 \<Longrightarrow> x = y"
proof -
  have inv: "(0x100000001b3 :: u64) * 0xce965057aff6957b = 1" by simp
  assume "x * 0x100000001b3 = y * 0x100000001b3"
  then have "x * 0x100000001b3 * 0xce965057aff6957b = y * 0x100000001b3 * 0xce965057aff6957b" by (rule arg_cong)
  then show "x = y" unfolding mult.assoc inv by simp
qed

lemma word_xor_cancel: "(a :: 'a :: len word) XOR c = b XOR c \<Longrightarrow> a = b"
  by (metis xor.assoc xor_self_eq xor.right_neutral)

lemma fnv1a64_seeded_inj: "fnv1a64_seeded h ys = fnv1a64_seeded h' ys \<Longrightarrow> h = h'"
proof (induction ys arbitrary: h h')
  case Nil
  then show ?case by (simp add: fnv1a64_seeded_def)
next
  case (Cons b ys)
  have "(h XOR ucast b) * 0x100000001b3 = (h' XOR ucast b) * 0x100000001b3"
    by (rule Cons.IH) (use Cons.prems in \<open>simp add: fnv1a64_seeded_def\<close>)
  then have "h XOR ucast b = h' XOR ucast b" by (rule fnv_prime_cancel)
  then show ?case by (rule word_xor_cancel)
qed

lemma fnv_one_byte:
  assumes "a \<noteq> b"
  shows "fnv1a64_seeded h (xs @ a # ys) \<noteq> fnv1a64_seeded h (xs @ b # ys)"
proof
  assume "fnv1a64_seeded h (xs @ a # ys) = fnv1a64_seeded h (xs @ b # ys)"
  then have "fnv1a64_seeded (fnv1a64_seeded h (xs @ [a])) ys = fnv1a64_seeded (fnv1a64_seeded h (xs @ [b])) ys"
    by (simp add: fnv1a64_seeded_def)
  then have "fnv1a64_seeded h (xs @ [a]) = fnv1a64_seeded h (xs @ [b])" by (rule fnv1a64_seeded_inj)
  then have "(fnv1a64_seeded h xs XOR ucast a) * 0x100000001b3 = (fnv1a64_seeded h xs XOR ucast b) * 0x100000001b3"
    by (simp add: fnv1a64_seeded_def)
  then have "fnv1a64_seeded h xs XOR ucast a = fnv1a64_seeded h xs XOR ucast b" by (rule fnv_prime_cancel)
  then have "ucast a = (ucast b :: u64)" using word_xor_cancel xor.commute by metis
  then have "unat (ucast a :: u64) = unat (ucast b :: u64)" by (rule arg_cong)
  moreover have "unat (ucast c :: u64) = unat c" for c :: u8
  proof -
    have "unat c < 2 ^ 64" by (rule less_trans [OF unat_byte_less]) simp
    then show ?thesis by (simp add: unsigned_ucast_eq take_bit_nat_eq_self)
  qed
  ultimately show False using assms by (simp add: word_unat_eq_iff)
qed

end
