(* ===== verification/Audit_Entry.thy ===== *)
theory Audit_Entry
  imports Sha256 Memory_Doc
begin

text \<open>
  The audit entries of \<open>src/src/audit.rs\<close>: the links of the hash chain with the snapshot of the
  cognitive side-tables, their wire form (AUD1), and the storage keys \<open>sys/audit/<seq:016x>\<close>.
  The counts and lengths of an encoded entry are cast to \<open>u16\<close> and \<open>u32\<close> without a check, which
  \<open>le_enc\<close> does by dropping the high bytes.
\<close>

section \<open>Entries\<close>

definition AUDIT_MAGIC :: bytes where
  "AUDIT_MAGIC = ascii ''AUD1''"

definition AUDIT_VERSION :: u8 where
  "AUDIT_VERSION = 1"

definition AUDIT_OP_CHECKPOINT :: u8 where
  "AUDIT_OP_CHECKPOINT = 0"

definition AUDIT_OP_ROLLBACK :: u8 where
  "AUDIT_OP_ROLLBACK = 1"

definition AUDIT_OP_FORGET :: u8 where
  "AUDIT_OP_FORGET = 2"

definition AUDIT_OP_RESOLVE :: u8 where
  "AUDIT_OP_RESOLVE = 3"

record snapshot_item =
  si_sk :: bytes
  si_state :: memory_state
  si_validity :: "(u64 \<times> u64) option"
  si_meta :: bytes

record audit_entry =
  ae_seq :: u64
  ae_prev_hash :: u64
  ae_ts :: u64
  ae_op :: u8
  ae_digest :: u64
  ae_snapshot :: "snapshot_item list"

definition enc_item :: "snapshot_item \<Rightarrow> bytes" where
  "enc_item it = enc_str 2 (si_sk it) @ [state_u8 (si_state it)] @
     enc_validity (si_validity it) @ enc_str 4 (si_meta it)"

definition audit_encode :: "audit_entry \<Rightarrow> bytes" where
  "audit_encode e = AUDIT_MAGIC @ [AUDIT_VERSION] @ le_enc 8 (unat (ae_seq e)) @
     le_enc 8 (unat (ae_prev_hash e)) @ le_enc 8 (unat (ae_ts e)) @ [ae_op e] @
     le_enc 8 (unat (ae_digest e)) @ le_enc 4 (length (ae_snapshot e)) @
     concat (map enc_item (ae_snapshot e))"

definition rd_item_state :: "memory_state reader" where
  "rd_item_state =
     rbind (rd_byte ''trunc state'') (\<lambda>b. case state_from_u8 b of
       Some s \<Rightarrow> rret s | None \<Rightarrow> rfail ''bad state'')"

definition rd_item_validity :: "(u64 \<times> u64) option reader" where
  "rd_item_validity =
     rbind (rd_byte ''trunc vflag'') (\<lambda>flag.
       if flag = 0 then rret None
       else if flag = 1 then
         rbind (rd_u64 ''trunc vfrom'') (\<lambda>from. rbind (rd_u64 ''trunc vuntil'') (\<lambda>until.
         rret (Some (from, until))))
       else rfail ''bad vflag'')"

definition rd_item :: "snapshot_item reader" where
  "rd_item =
     rbind (rd_str 2 ''trunc sklen'' ''trunc sk'' ''utf8 sk'') (\<lambda>sk.
     rbind rd_item_state (\<lambda>state. rbind rd_item_validity (\<lambda>validity.
     rbind (rd_uint 4 ''trunc metalen'') (\<lambda>n. rbind (rd_take n ''trunc meta'') (\<lambda>meta.
     rret \<lparr>si_sk = sk, si_state = state, si_validity = validity, si_meta = meta\<rparr>)))))"

definition known_op :: "u8 \<Rightarrow> bool" where
  "known_op op \<longleftrightarrow> op = AUDIT_OP_CHECKPOINT \<or> op = AUDIT_OP_ROLLBACK \<or>
     op = AUDIT_OP_FORGET \<or> op = AUDIT_OP_RESOLVE"

definition rd_entry :: "audit_entry reader" where
  "rd_entry =
     rbind (rd_u64 ''trunc seq'') (\<lambda>seq. rbind (rd_u64 ''trunc prev'') (\<lambda>prev.
     rbind (rd_u64 ''trunc ts'') (\<lambda>ts. rbind (rd_byte ''trunc op'') (\<lambda>op.
     if \<not> known_op op then rfail ''bad audit op'' else
     rbind (rd_u64 ''trunc digest'') (\<lambda>digest. rbind (rd_uint 4 ''trunc nsnap'') (\<lambda>n.
     rbind (rd_many n rd_item) (\<lambda>snapshot.
     rret \<lparr>ae_seq = seq, ae_prev_hash = prev, ae_ts = ts, ae_op = op, ae_digest = digest,
           ae_snapshot = snapshot\<rparr>)))))))"

definition audit_decode :: "bytes \<Rightarrow> audit_entry result" where
  "audit_decode data =
     (if length data < 30 \<or> take 4 data \<noteq> AUDIT_MAGIC then Inl (Err ''bad audit magic'')
      else if data ! 4 \<noteq> AUDIT_VERSION then Inl (Err ''bad audit version'')
      else and_then (rd_entry data 5) (\<lambda>(e, _). Inr e))"

section \<open>Keys\<close>

definition AUDIT_PREFIX :: bytes where
  "AUDIT_PREFIX = ascii ''sys/audit/''"

definition audit_key :: "u64 \<Rightarrow> bytes" where
  "audit_key seq = AUDIT_PREFIX @ hex16 seq"

text \<open>
  \<open>u64::from_str_radix(_, 16)\<close>: one optional plus sign, then at least one hex digit, of either
  case, and no overflow; the callers here hand over sixteen bytes.
\<close>

definition hex_value :: "u8 \<Rightarrow> nat option" where
  "hex_value b =
     (if of_char CHR ''0'' \<le> b \<and> b \<le> of_char CHR ''9'' then Some (unat (b - of_char CHR ''0''))
      else if of_char CHR ''a'' \<le> b \<and> b \<le> of_char CHR ''f'' then Some (unat (b - of_char CHR ''a'') + 10)
      else if of_char CHR ''A'' \<le> b \<and> b \<le> of_char CHR ''F'' then Some (unat (b - of_char CHR ''A'') + 10)
      else None)"

fun hex_number :: "nat \<Rightarrow> bytes \<Rightarrow> nat option" where
  "hex_number acc [] = Some acc"
| "hex_number acc (b # bs) =
     (case hex_value b of None \<Rightarrow> None | Some d \<Rightarrow> hex_number (16 * acc + d) bs)"

definition from_str_radix16 :: "bytes \<Rightarrow> u64 option" where
  "from_str_radix16 s =
     (let digits = (case s of b # bs \<Rightarrow> if b = of_char CHR ''+'' then bs else s | [] \<Rightarrow> s)
      in if digits = [] then None
         else case hex_number 0 digits of
                None \<Rightarrow> None
              | Some n \<Rightarrow> if n < 2 ^ 64 then Some (of_nat n) else None)"

definition audit_seq_from_key :: "bytes \<Rightarrow> u64 option" where
  "audit_seq_from_key key =
     (if \<not> prefix AUDIT_PREFIX key then None
      else let hex = drop (length AUDIT_PREFIX) key
        in if length hex \<noteq> 16 then None
           else if \<not> utf8_valid hex then None else from_str_radix16 hex)"

section \<open>Reading back\<close>

definition item_fits :: "snapshot_item \<Rightarrow> bool" where
  "item_fits it \<longleftrightarrow> utf8_valid (si_sk it) \<and> length (si_sk it) < 256 ^ 2 \<and> length (si_meta it) < 256 ^ 4"

definition entry_fits :: "audit_entry \<Rightarrow> bool" where
  "entry_fits e \<longleftrightarrow> known_op (ae_op e) \<and> length (ae_snapshot e) < 256 ^ 4 \<and>
     list_all item_fits (ae_snapshot e)"

lemma length_AUDIT_MAGIC [simp]: "length AUDIT_MAGIC = 4"
  by (simp add: AUDIT_MAGIC_def ascii_def)

lemma reads_item_state: "reads rd_item_state [state_u8 s] s"
  unfolding rd_item_state_def
  by (rule reads_rbind_last [OF reads_rd_byte]) (simp add: reads_rret)

lemma reads_item_validity: "reads rd_item_validity (enc_validity v) v"
proof (cases v)
  case None
  have "reads rd_item_validity [0] None"
    unfolding rd_item_validity_def
    by (rule reads_rbind_last [OF reads_rd_byte]) (simp add: reads_rret)
  then show ?thesis by (simp add: None enc_validity_def)
next
  case (Some w)
  obtain a b where w: "w = (a, b)" by (cases w)
  have "reads rd_item_validity ([1] @ le_enc 8 (unat a) @ le_enc 8 (unat b)) (Some (a, b))"
    unfolding rd_item_validity_def
    by (rule reads_rbind [OF reads_rd_byte])
      (auto intro!: reads_rbind reads_rbind_last [OF _ reads_rret] reads_rd_u64)
  then show ?thesis by (simp add: Some w enc_validity_def)
qed

lemma reads_item: "item_fits it \<Longrightarrow> reads rd_item (enc_item it) it"
  unfolding rd_item_def enc_item_def enc_str_def [of 4] item_fits_def
  by (intro reads_rbind [OF reads_rd_str] reads_rbind [OF reads_item_state]
      reads_rbind [OF reads_item_validity] reads_rbind [OF reads_rd_uint]
      reads_rbind_last [OF reads_rd_take]) (simp_all, cases it, simp add: reads_rret)

lemma audit_encode_body:
  "audit_encode e = (AUDIT_MAGIC @ [AUDIT_VERSION]) @ le_enc 8 (unat (ae_seq e)) @
     le_enc 8 (unat (ae_prev_hash e)) @ le_enc 8 (unat (ae_ts e)) @ [ae_op e] @
     le_enc 8 (unat (ae_digest e)) @ le_enc 4 (length (ae_snapshot e)) @
     concat (map enc_item (ae_snapshot e))"
  by (simp add: audit_encode_def)

lemma audit_decode_encode:
  assumes "entry_fits e"
  shows "audit_decode (audit_encode e) = Inr e"
proof -
  have n: "length (ae_snapshot e) < 256 ^ 4" and op: "known_op (ae_op e)"
    and items: "list_all item_fits (ae_snapshot e)" using assms by (simp_all add: entry_fits_def)
  let ?b = "le_enc 8 (unat (ae_seq e)) @ le_enc 8 (unat (ae_prev_hash e)) @
     le_enc 8 (unat (ae_ts e)) @ [ae_op e] @ le_enc 8 (unat (ae_digest e)) @
     le_enc 4 (length (ae_snapshot e)) @ concat (map enc_item (ae_snapshot e))"
  have "reads rd_entry ?b e"
    unfolding rd_entry_def
    using items
    by (intro reads_rbind [OF reads_rd_u64] reads_rbind [OF reads_rd_byte] reads_guard [OF op]
        reads_rbind [OF reads_rd_uint [OF n]] reads_rbind_last [OF reads_rd_many [OF reads_item]])
      (auto simp: list_all_iff, cases e, simp add: reads_rret)
  from reads_after [OF this, of "AUDIT_MAGIC @ [AUDIT_VERSION]" 5]
  have "rd_entry (audit_encode e) 5 = Inr (e, 5 + length ?b)" by (simp add: audit_encode_body)
  moreover have "take 4 (audit_encode e) = AUDIT_MAGIC" "audit_encode e ! 4 = AUDIT_VERSION"
    by (simp_all add: audit_encode_body nth_append)
  moreover have "\<not> length (audit_encode e) < 30" by (simp add: audit_encode_body)
  ultimately show ?thesis by (simp add: audit_decode_def)
qed

lemma calm_rd_item [calm]: "calm_reader rd_item"
  unfolding rd_item_def rd_item_state_def rd_item_validity_def
  by (intro calm) (auto intro: calm split: option.split)

lemma calm_rd_entry [calm]: "calm_reader rd_entry"
  unfolding rd_entry_def by (intro calm)

lemma calm_audit_decode [calm]: "calm (audit_decode data)"
  unfolding audit_decode_def
  by (auto intro!: calm_and_then calm_readerD [OF calm_rd_entry] split: prod.splits)

section \<open>Keys and sequence numbers\<close>

lemma hex_value_digit: "n < 16 \<Longrightarrow> hex_value (hex_digit n) = Some n"
proof -
  assume "n < 16"
  then have "n \<in> set [0..<16]" by simp
  moreover have "\<forall>m \<in> set [0..<16]. hex_value (hex_digit m) = Some m" by code_simp
  ultimately show ?thesis by blast
qed

lemma hex_number_byte: "hex_number acc (hex_byte b @ bs) = hex_number (256 * acc + unat b) bs"
proof -
  have "unat (drop_bit 4 b) = unat b div 16" by (simp add: drop_bit_eq_div unat_div)
  moreover have "unat (b AND 0x0F) = unat b mod 16"
  proof -
    have "b AND 0x0F = take_bit 4 b" by (simp add: take_bit_eq_mask mask_eq_exp_minus_1)
    then show ?thesis by (simp add: unsigned_take_bit_eq take_bit_eq_mod unat_mod)
  qed
  ultimately show ?thesis
    using hex_byte_nibbles [of b] by (simp add: hex_byte_def hex_value_digit add.commute)
qed

lemma hex_number_bytes:
  "hex_number acc (concat (map hex_byte (rev bs))) = Some (256 ^ length bs * acc + le_val bs)"
proof (induction bs arbitrary: acc rule: rev_induct)
  case Nil
  then show ?case by simp
next
  case (snoc b bs)
  have "le_val (bs @ [b]) = le_val bs + 256 ^ length bs * unat b"
    by (induction bs) (simp_all add: algebra_simps)
  then show ?case by (simp add: hex_number_byte snoc algebra_simps)
qed

lemma hex16_number: "hex_number 0 (hex16 t) = Some (unat t)"
  using hex_number_bytes [of 0 "le_enc 8 (unat t)"] le_val_enc_small [OF unat_u64_less, of t]
  by (simp add: hex16_def)

lemma hex16_hd: "\<exists>n r. n < 16 \<and> hex16 t = hex_digit n # r"
proof -
  obtain b bs where "rev (le_enc 8 (unat t)) = b # bs"
    by (cases "rev (le_enc 8 (unat t))") (simp_all flip: length_0_conv)
  then show ?thesis using hex_byte_nibbles [of b] by (auto simp: hex16_def hex_byte_def)
qed

lemma hex16_utf8: "utf8_valid (hex16 t)"
  unfolding hex16_def by (rule utf8_valid_concat) (auto simp: hex_byte_utf8)

lemma from_str_radix16_hex16: "from_str_radix16 (hex16 t) = Some t"
proof -
  obtain n r where n: "n < 16" "hex16 t = hex_digit n # r" using hex16_hd by blast
  have "hex_digit n \<noteq> of_char CHR ''+''"
  proof
    assume "hex_digit n = of_char CHR ''+''"
    then have "hex_value (hex_digit n) = None" by (simp add: hex_value_def)
    then show False using hex_value_digit [OF n(1)] by simp
  qed
  then have "from_str_radix16 (hex16 t) =
      (case hex_number 0 (hex16 t) of None \<Rightarrow> None
        | Some n \<Rightarrow> if n < 2 ^ 64 then Some (of_nat n) else None)"
    by (simp add: from_str_radix16_def n(2))
  then show ?thesis using unsigned_less [of t] by (simp add: hex16_number)
qed

lemma length_AUDIT_PREFIX [simp]: "length AUDIT_PREFIX = 10"
  by (simp add: AUDIT_PREFIX_def ascii_def)

lemma audit_seq_of_key [simp]: "audit_seq_from_key (audit_key t) = Some t"
  by (simp add: audit_seq_from_key_def audit_key_def hex16_utf8 from_str_radix16_hex16)

lemma audit_key_prefix [simp]: "prefix AUDIT_PREFIX (audit_key t)"
  by (simp add: audit_key_def)

lemma AUDIT_PREFIX_utf8 [simp]: "utf8_valid AUDIT_PREFIX"
  by (rule utf8_valid_ascii) (auto simp: AUDIT_PREFIX_def ascii_def)

lemma audit_key_utf8: "utf8_valid (audit_key t)"
  by (simp add: audit_key_def utf8_valid_append hex16_utf8)

lemma length_audit_key [simp]: "length (audit_key t) = 26"
  by (simp add: audit_key_def)

lemma audit_key_less: "audit_key a < audit_key b \<longleftrightarrow> a < b"
  by (simp add: audit_key_def lex_append hex16_less)

text \<open>
  Whatever fits its length fields comes back from an audit entry's wire form, every truncation
  or foreign byte is an error value, never a panic, and a sequence number is recovered from its key,
  the keys being in the order of the numbers.
\<close>

theorem audit_entry_roundtrip:
  "(entry_fits e \<longrightarrow> audit_decode (audit_encode e) = Inr e) \<and> calm (audit_decode data) \<and>
   audit_seq_from_key (audit_key t) = Some t \<and> (audit_key t < audit_key u \<longleftrightarrow> t < u)"
  by (simp add: audit_decode_encode calm_audit_decode audit_key_less)

lemma audit_entry_roundtrip_witness:
  "audit_decode (audit_encode \<lparr>ae_seq = 7, ae_prev_hash = 0, ae_ts = 9, ae_op = AUDIT_OP_FORGET,
     ae_digest = 5, ae_snapshot = [\<lparr>si_sk = ascii ''md/L4/x'', si_state = Superseded,
       si_validity = Some (1, 2), si_meta = [3]\<rparr>]\<rparr>) =
   Inr \<lparr>ae_seq = 7, ae_prev_hash = 0, ae_ts = 9, ae_op = AUDIT_OP_FORGET,
     ae_digest = 5, ae_snapshot = [\<lparr>si_sk = ascii ''md/L4/x'', si_state = Superseded,
       si_validity = Some (1, 2), si_meta = [3]\<rparr>]\<rparr>"
  (is "audit_decode (audit_encode ?e) = Inr ?e")
proof -
  have "entry_fits ?e"
    by (simp add: entry_fits_def item_fits_def known_op_def ascii_def utf8_valid.simps(2))
  then show ?thesis using audit_entry_roundtrip [of ?e] by blast
qed

end
