(* ===== verification/Backend.thy ===== *)
theory Backend
  imports File_Storage Tickv_File
begin

text \<open>
  A \<open>Box<dyn Storage>\<close> as the engine and the ledgers hold one: the operations they call, the laws all
  backends share, and the three backends of the crate (RAM map, log file, TKLV volume).
\<close>

text \<open>A \<open>dyn Storage\<close>: the operations of the trait that the engine calls.\<close>

record 's backend =
  be_put :: "'s \<Rightarrow> bytes \<Rightarrow> bytes \<Rightarrow> 's outcome"
  be_get :: "'s \<Rightarrow> bytes \<Rightarrow> bytes option"
  be_scan :: "'s \<Rightarrow> bytes \<Rightarrow> (bytes \<times> bytes) list"
  be_del :: "'s \<Rightarrow> bytes \<Rightarrow> 's outcome"

text \<open>
  The laws of a backend, seen through the map it stands for; \<open>means\<close> keeps every value that is not
  empty.
\<close>

locale backend_store = kv_store inv view "be_put b" "be_get b" "be_scan b" "be_del b" fits means
  for inv :: "'s \<Rightarrow> bool" and view and b :: "'s backend" and fits means +
  assumes means_some: "v \<noteq> [] \<Longrightarrow> means v = Some v"
begin

lemma scan_wf: "inv s \<Longrightarrow> bt_wf (be_scan b s p)"
  using scan_sorted by (simp add: bt_wf_def)

lemma scan_view:
  assumes "inv s" "utf8_valid p"
  shows "bt_get (be_scan b s p) k = (if prefix p k then view s k else None)"
proof -
  have "bt_get (be_scan b s p) k = Some v \<longleftrightarrow> view s k = Some v \<and> prefix p k" for v
    using bt_get_iff [OF scan_wf [OF assms(1)], of p k v] scan_set [OF assms] by simp
  then show ?thesis by (cases "view s k") (metis option.exhaust)+
qed

lemma scan_eqI:
  assumes "inv s" "inv s'" "utf8_valid p" "\<And>k. prefix p k \<Longrightarrow> view s' k = view s k"
  shows "be_scan b s' p = be_scan b s p"
  using assms by (intro bt_eqI) (auto simp: scan_wf scan_view fun_eq_iff)

lemma scan_put:
  assumes "inv s" "fits k v" "v \<noteq> []" "utf8_valid p" "prefix p k"
  shows "be_scan b (snd (be_put b s k v)) p = bt_insert k v (be_scan b s p)"
proof -
  note r = put_result [OF assms(1,2)]
  show ?thesis
    using assms(5) r(3) scan_wf [OF assms(1)] scan_wf [OF r(2)]
    by (intro bt_eqI)
      (auto simp: fun_eq_iff means_some [OF assms(3)] scan_view [OF r(2) assms(4)] scan_view [OF assms(1,4)])
qed

lemma scan_other:
  assumes "inv s" "inv s'" "utf8_valid p" "view s' = (view s)(k := x)" "\<not> prefix p k"
  shows "be_scan b s' p = be_scan b s p"
  using assms by (intro scan_eqI) auto

end

section \<open>The backends\<close>

definition ram_backend :: "in_memory backend" where
  "ram_backend = \<lparr>be_put = in_memory_put, be_get = in_memory_get, be_scan = in_memory_scan,
     be_del = in_memory_delete\<rparr>"

definition file_backend :: "file_storage backend" where
  "file_backend = \<lparr>be_put = fs_put Append_ok, be_get = fs_get, be_scan = fs_scan,
     be_del = fs_delete Append_ok\<rparr>"

definition tickv_backend :: "tickv_file backend" where
  "tickv_backend = \<lparr>be_put = tv_put Inval_ok Append_ok, be_get = tv_get, be_scan = tv_scan_prefix,
     be_del = tv_delete Inval_ok Append_ok\<rparr>"

interpretation ram_store: backend_store "\<lambda>s. bt_wf (im_map s)" "\<lambda>s. bt_get (im_map s)" ram_backend
  "\<lambda>_ _. True" Some
  using mem.kv_store_axioms
  by (simp add: backend_store_def backend_store_axioms_def ram_backend_def)

interpretation file_store: backend_store fs_inv "\<lambda>s. bt_get (fs_map s)" file_backend fs_fits fs_means
  using flog.kv_store_axioms
  by (simp add: backend_store_def backend_store_axioms_def file_backend_def fs_means_def)

interpretation tickv_store: backend_store tv_inv "\<lambda>s. bt_get (tv_map s)" tickv_backend tv_fits fs_means
  using tvol.kv_store_axioms
  by (simp add: backend_store_def backend_store_axioms_def tickv_backend_def fs_means_def)

end
