(* ===== verification/Side_Tables.thy ===== *)
theory Side_Tables
  imports Backend Crdt_Wire
begin

text \<open>
  The side-tables that \<open>src/src/engine.rs\<close> keeps beside the documents, under \<open>sys/\<close>: logical state,
  validity window, expiry, event, metadata, the reverse index of versions and the conflicts.  Each
  operation here is one that touches the storage only; \<open>set_state\<close> and \<open>set_validity\<close> of the engine
  first promote a document held in RAM and are completed in the theory of the engine.
\<close>

section \<open>Keys\<close>

definition state_key :: "bytes \<Rightarrow> bytes" where
  "state_key sk = ascii ''sys/state/'' @ sk"

definition validity_key :: "bytes \<Rightarrow> bytes" where
  "validity_key sk = ascii ''sys/validity/'' @ sk"

definition ttl_key :: "bytes \<Rightarrow> bytes" where
  "ttl_key sk = ascii ''sys/ttl/'' @ sk"

definition event_key :: "bytes \<Rightarrow> bytes" where
  "event_key sk = ascii ''sys/event/'' @ sk"

definition META_PREFIX :: bytes where
  "META_PREFIX = ascii ''sys/meta/''"

definition meta_key :: "bytes \<Rightarrow> bytes" where
  "meta_key sk = META_PREFIX @ sk"

definition version_row_key :: "bytes \<Rightarrow> bytes" where
  "version_row_key vid = ascii ''sys/version/'' @ vid"

definition conflict_key :: "bytes \<Rightarrow> bytes" where
  "conflict_key cid = ascii ''sys/conflict/'' @ cid"

lemmas side_keys = state_key_def validity_key_def ttl_key_def event_key_def meta_key_def META_PREFIX_def
  version_row_key_def conflict_key_def

section \<open>State and validity\<close>

definition get_state :: "'s backend \<Rightarrow> 's \<Rightarrow> bytes \<Rightarrow> memory_state" where
  "get_state b s sk =
     (case be_get b s (state_key sk) of
        Some [x] \<Rightarrow> unwrap_or (state_from_u8 x) Active
      | _ \<Rightarrow> Active)"

text \<open>The write of \<open>set_state\<close>: the default state is stored as no entry, and only an entry is deleted.\<close>

definition store_state :: "'s backend \<Rightarrow> 's \<Rightarrow> bytes \<Rightarrow> memory_state \<Rightarrow> 's outcome" where
  "store_state b s sk st =
     (if st = Active
      then (case be_get b s (state_key sk) of
              Some _ \<Rightarrow> be_del b s (state_key sk)
            | None \<Rightarrow> (Inr (), s))
      else be_put b s (state_key sk) [state_u8 st])"

definition validity_window :: "'s backend \<Rightarrow> 's \<Rightarrow> bytes \<Rightarrow> (u64 \<times> u64) option" where
  "validity_window b s sk =
     (case be_get b s (validity_key sk) of
        Some w \<Rightarrow> if length w = 16 then Some (of_nat (le_val (take 8 w)), of_nat (le_val (drop 8 w))) else None
      | None \<Rightarrow> None)"

definition validity_at :: "'s backend \<Rightarrow> 's \<Rightarrow> bytes \<Rightarrow> u64 \<Rightarrow> bool" where
  "validity_at b s sk now =
     (case be_get b s (validity_key sk) of
        Some w \<Rightarrow>
          if length w = 16
          then of_nat (le_val (take 8 w)) \<le> now \<and> now < of_nat (le_val (drop 8 w))
          else True
      | None \<Rightarrow> True)"

definition store_validity :: "'s backend \<Rightarrow> 's \<Rightarrow> bytes \<Rightarrow> u64 \<Rightarrow> u64 \<Rightarrow> 's outcome" where
  "store_validity b s sk from until =
     (if until \<le> from then be_del b s (validity_key sk)
      else be_put b s (validity_key sk) (le_enc 8 (unat from) @ le_enc 8 (unat until)))"

section \<open>Expiry and events\<close>

definition set_ttl :: "'s backend \<Rightarrow> 's \<Rightarrow> bytes \<Rightarrow> u64 \<Rightarrow> 's outcome" where
  "set_ttl b s sk expires_at =
     (if expires_at = 0 then be_del b s (ttl_key sk)
      else be_put b s (ttl_key sk) (le_enc 8 (unat expires_at)))"

definition ttl_of :: "'s backend \<Rightarrow> 's \<Rightarrow> bytes \<Rightarrow> u64 option" where
  "ttl_of b s sk =
     (case be_get b s (ttl_key sk) of
        Some w \<Rightarrow> if length w = 8 then Some (of_nat (le_val w)) else None
      | None \<Rightarrow> None)"

definition ttl_expired :: "'s backend \<Rightarrow> 's \<Rightarrow> bytes \<Rightarrow> u64 \<Rightarrow> bool" where
  "ttl_expired b s sk now = (case ttl_of b s sk of Some e \<Rightarrow> e \<noteq> 0 \<and> e \<le> now | None \<Rightarrow> False)"

definition set_event :: "'s backend \<Rightarrow> 's \<Rightarrow> bytes \<Rightarrow> bytes \<Rightarrow> u64 \<Rightarrow> 's outcome" where
  "set_event b s sk stk event_end =
     (if stk = [] then be_del b s (event_key sk)
      else if length stk > MAX_KLEN then (Inl (SE_Invalid ''state_key exceeds MAX_KLEN''), s)
      else be_put b s (event_key sk) (le_enc 2 (length stk) @ stk @ le_enc 8 (unat event_end)))"

definition event_of :: "'s backend \<Rightarrow> 's \<Rightarrow> bytes \<Rightarrow> (bytes \<times> u64) option" where
  "event_of b s sk =
     (case be_get b s (event_key sk) of
        None \<Rightarrow> None
      | Some w \<Rightarrow>
          if length w < 10 then None
          else let slen = le_val (take 2 w); stk = take slen (drop 2 w) in
            if length w \<noteq> 2 + slen + 8 then None
            else if utf8_valid stk then Some (stk, of_nat (le_val (drop (2 + slen) w)))
            else None)"

section \<open>Metadata and versions\<close>

definition read_meta :: "'s backend \<Rightarrow> 's \<Rightarrow> bytes \<Rightarrow> memory_meta option" where
  "read_meta b s sk =
     (case be_get b s (meta_key sk) of
        Some w \<Rightarrow> (case meta_decode w of Inr m \<Rightarrow> Some m | Inl _ \<Rightarrow> None)
      | None \<Rightarrow> None)"

definition encode_version_entry :: "bytes \<Rightarrow> memory_meta \<Rightarrow> bytes" where
  "encode_version_entry sk m = le_enc 2 (length sk) @ sk @ meta_encode m"

definition decode_version_entry :: "bytes \<Rightarrow> (bytes \<times> memory_meta) option" where
  "decode_version_entry data =
     (case rd_le 2 data 0 of
        None \<Rightarrow> None
      | Some sklen \<Rightarrow>
          if 2 + sklen > length data then None
          else let sk = take sklen (drop 2 data) in
            if \<not> utf8_valid sk then None
            else case meta_decode (drop (2 + sklen) data) of Inr m \<Rightarrow> Some (sk, m) | Inl _ \<Rightarrow> None)"

definition version_record :: "'s backend \<Rightarrow> 's \<Rightarrow> bytes \<Rightarrow> (bytes \<times> memory_meta) option" where
  "version_record b s vid =
     (case be_get b s (version_row_key vid) of Some w \<Rightarrow> decode_version_entry w | None \<Rightarrow> None)"

definition scan_versions :: "'s backend \<Rightarrow> 's \<Rightarrow> (bytes \<times> bytes \<times> memory_meta) list" where
  "scan_versions b s =
     sort_key fst (List.map_filter (\<lambda>(k, w).
       case decode_version_entry w of
         Some (sk, m) \<Rightarrow> Some (utf8_lossy (drop 12 k), sk, m)
       | None \<Rightarrow> None) (be_scan b s (ascii ''sys/version/'')))"

text \<open>
  The scope of a companion under \<open>md/L2/\<close> is the scope of the fact of the same name, looked up in the
  order of \<open>FACT_LAYER_PREFIXES\<close>.
\<close>

definition FACT_LAYER_PREFIXES :: "bytes list" where
  "FACT_LAYER_PREFIXES = [ascii ''md/L4/'', ascii ''md/L5/'', ascii ''md/L3/'']"

definition key_is_fact :: "bytes \<Rightarrow> bool" where
  "key_is_fact sk = list_ex (\<lambda>p. prefix p sk) FACT_LAYER_PREFIXES"

fun first_some :: "('a \<Rightarrow> 'b option) \<Rightarrow> 'a list \<Rightarrow> 'b option" where
  "first_some f [] = None"
| "first_some f (x # xs) = (case f x of Some y \<Rightarrow> Some y | None \<Rightarrow> first_some f xs)"

definition resolve_scope_meta :: "'s backend \<Rightarrow> 's \<Rightarrow> (memory_meta \<Rightarrow> 'a option) \<Rightarrow> bytes \<Rightarrow> 'a option" where
  "resolve_scope_meta b s extract sk =
     first_some (\<lambda>k. Option.bind (read_meta b s k) extract)
       (sk # (if prefix (ascii ''md/L2/'') sk then map (\<lambda>p. p @ drop 6 sk) FACT_LAYER_PREFIXES else []))"

definition effective_scope :: "'s backend \<Rightarrow> 's \<Rightarrow> bytes \<Rightarrow> bytes" where
  "effective_scope b s sk =
     unwrap_or (resolve_scope_meta b s (\<lambda>m. if mm_scope m \<noteq> [] then Some (mm_scope m) else None) sk) []"

definition effective_scope_dims :: "'s backend \<Rightarrow> 's \<Rightarrow> bytes \<Rightarrow> scope_dims" where
  "effective_scope_dims b s sk =
     unwrap_or (resolve_scope_meta b s (\<lambda>m.
       if \<not> dims_is_global (mm_scope_dims m) then Some (mm_scope_dims m)
       else if mm_scope m \<noteq> []
       then Some \<lparr>sd_user = mm_scope m, sd_agent = [], sd_app = [], sd_run = []\<rparr>
       else None) sk) dims_new"

section \<open>Conflicts\<close>

definition put_conflict :: "'s backend \<Rightarrow> 's \<Rightarrow> conflict_record \<Rightarrow> 's outcome" where
  "put_conflict b s c =
     (case conflict_try_encode c of
        Inl (Err m) \<Rightarrow> (Inl (SE_Invalid m), s)
      | Inl Panic \<Rightarrow> (Inl (SE_Invalid []), s)
      | Inr w \<Rightarrow> be_put b s (conflict_key (cr_conflict_id c)) w)"

definition get_conflict :: "'s backend \<Rightarrow> 's \<Rightarrow> bytes \<Rightarrow> conflict_record option" where
  "get_conflict b s cid =
     (case be_get b s (conflict_key cid) of
        Some w \<Rightarrow> (case conflict_decode w of Inr c \<Rightarrow> Some c | Inl _ \<Rightarrow> None)
      | None \<Rightarrow> None)"

definition delete_conflict :: "'s backend \<Rightarrow> 's \<Rightarrow> bytes \<Rightarrow> 's outcome" where
  "delete_conflict b s cid = be_del b s (conflict_key cid)"

definition list_conflicts :: "'s backend \<Rightarrow> 's \<Rightarrow> conflict_record list" where
  "list_conflicts b s =
     sort_key cr_conflict_id (List.map_filter (\<lambda>(_, w).
       case conflict_decode w of Inr c \<Rightarrow> Some c | Inl _ \<Rightarrow> None) (be_scan b s (ascii ''sys/conflict/'')))"

end
