(* ===== verification/Audit_Ledger.thy ===== *)
theory Audit_Ledger
  imports Audit_Entry Side_Tables Crdt_Sync
begin

text \<open>
  The audit ledger that \<open>Sgdb\<close> (\<open>src/src/sgdb.rs\<close>) keeps under \<open>sys/audit/\<close>: the chain of
  checkpoints, forgets, resolutions and rollback markers, and \<open>audit_verify\<close>, which walks it.
  The operations run over any backend of the \<open>Storage\<close> trait; their laws are proved once, in a
  locale, and interpreted for the RAM map, the log file and the TKLV volume.
\<close>

section \<open>Operations\<close>

definition last_step :: "bytes \<times> bytes \<Rightarrow> u64 option \<Rightarrow> u64 option" where
  "last_step = (\<lambda>(k, _) acc. case audit_seq_from_key k of
     None \<Rightarrow> acc
   | Some q \<Rightarrow> Some (case acc of Some l \<Rightarrow> max l q | None \<Rightarrow> q))"

definition audit_last_seq :: "'s backend \<Rightarrow> 's \<Rightarrow> u64 option" where
  "audit_last_seq b s = fold last_step (be_scan b s AUDIT_PREFIX) None"

definition next_seq :: "u64 option \<Rightarrow> u64" where
  "next_seq l = (case l of Some l \<Rightarrow> saturating_inc l | None \<Rightarrow> 0)"

definition link_hash :: "u8 \<Rightarrow> 's backend \<Rightarrow> 's \<Rightarrow> u64 option \<Rightarrow> u64" where
  "link_hash sel b s l =
     (case l of
        Some l \<Rightarrow> (case be_get b s (audit_key l) of Some w \<Rightarrow> audit_hash sel w | None \<Rightarrow> 0)
      | None \<Rightarrow> 0)"

definition put_entry :: "'s backend \<Rightarrow> 's \<Rightarrow> audit_entry \<Rightarrow> (sgdb_error + u64) \<times> 's" where
  "put_entry b s e =
     (case be_put b s (audit_key (ae_seq e)) (audit_encode e) of
        (Inl er, s') \<Rightarrow> (Inl er, s')
      | (Inr _, s') \<Rightarrow> (Inr (ae_seq e), s'))"

definition snapshot_row :: "'s backend \<Rightarrow> 's \<Rightarrow> bytes \<times> bytes \<Rightarrow> snapshot_item" where
  "snapshot_row b s = (\<lambda>(mk, w). let sk = utf8_lossy (drop 9 mk)
     in \<lparr>si_sk = sk, si_state = get_state b s sk, si_validity = validity_window b s sk, si_meta = w\<rparr>)"

definition state_snapshot :: "'s backend \<Rightarrow> 's \<Rightarrow> snapshot_item list" where
  "state_snapshot b s = sort_key si_sk (map (snapshot_row b s) (be_scan b s META_PREFIX))"

definition digest_prefixes :: "bytes list" where
  "digest_prefixes = [ascii ''md/'', META_PREFIX, ascii ''sys/state/'', ascii ''sys/validity/'']"

definition digest_pair :: "u8 \<Rightarrow> bytes \<times> bytes \<Rightarrow> u64 \<Rightarrow> u64" where
  "digest_pair sel = (\<lambda>(k, v) h. audit_hash_seeded sel h (le_enc 4 (length k) @ k @ v))"

definition state_digest :: "u8 \<Rightarrow> 's backend \<Rightarrow> 's \<Rightarrow> u64" where
  "state_digest sel b s =
     fold (digest_pair sel) (sort_key fst (concat (map (be_scan b s) digest_prefixes))) 0xcbf29ce484222325"

definition checkpoint_entry :: "u8 \<Rightarrow> 's backend \<Rightarrow> 's \<Rightarrow> u64 \<Rightarrow> audit_entry" where
  "checkpoint_entry sel b s now =
     (let digest = state_digest sel b s; snapshot = state_snapshot b s; last = audit_last_seq b s
      in \<lparr>ae_seq = next_seq last, ae_prev_hash = link_hash sel b s last, ae_ts = now,
          ae_op = AUDIT_OP_CHECKPOINT, ae_digest = digest, ae_snapshot = snapshot\<rparr>)"

definition audit_checkpoint :: "u8 \<Rightarrow> 's backend \<Rightarrow> 's \<Rightarrow> u64 \<Rightarrow> (sgdb_error + u64) \<times> 's" where
  "audit_checkpoint sel b s now = put_entry b s (checkpoint_entry sel b s now)"

definition forget_entry :: "u8 \<Rightarrow> 's backend \<Rightarrow> 's \<Rightarrow> bytes \<Rightarrow> u64 \<Rightarrow> bytes \<Rightarrow> audit_entry" where
  "forget_entry sel b s sk ts reason =
     (let last = audit_last_seq b s
      in \<lparr>ae_seq = next_seq last, ae_prev_hash = link_hash sel b s last, ae_ts = ts,
          ae_op = AUDIT_OP_FORGET, ae_digest = audit_hash sel reason,
          ae_snapshot = [\<lparr>si_sk = sk, si_state = Superseded, si_validity = None, si_meta = reason\<rparr>]\<rparr>)"

definition audit_forget ::
  "u8 \<Rightarrow> 's backend \<Rightarrow> 's \<Rightarrow> bytes \<Rightarrow> u64 \<Rightarrow> bytes \<Rightarrow> (sgdb_error + u64) \<times> 's" where
  "audit_forget sel b s sk ts reason = put_entry b s (forget_entry sel b s sk ts reason)"

definition resolve_entry ::
  "u8 \<Rightarrow> 's backend \<Rightarrow> 's \<Rightarrow> bytes \<Rightarrow> bytes \<Rightarrow> u64 \<Rightarrow> bytes \<Rightarrow> audit_entry" where
  "resolve_entry sel b s conflict_id winner_vid ts reason =
     (let last = audit_last_seq b s
      in \<lparr>ae_seq = next_seq last, ae_prev_hash = link_hash sel b s last, ae_ts = ts,
          ae_op = AUDIT_OP_RESOLVE, ae_digest = audit_hash sel reason,
          ae_snapshot = [\<lparr>si_sk = conflict_id, si_state = Active, si_validity = None,
                          si_meta = winner_vid\<rparr>]\<rparr>)"

definition audit_resolve ::
  "u8 \<Rightarrow> 's backend \<Rightarrow> 's \<Rightarrow> bytes \<Rightarrow> bytes \<Rightarrow> u64 \<Rightarrow> bytes \<Rightarrow> (sgdb_error + u64) \<times> 's" where
  "audit_resolve sel b s conflict_id winner_vid ts reason =
     put_entry b s (resolve_entry sel b s conflict_id winner_vid ts reason)"

text \<open>
  The last step of \<open>rollback_to(seq)\<close>, after the side-tables have been restored and the indices
  rebuilt: the marker goes to \<open>seq + 1\<close>, not behind the last entry.
\<close>

definition rollback_entry :: "u8 \<Rightarrow> 's backend \<Rightarrow> 's \<Rightarrow> u64 \<Rightarrow> u64 \<Rightarrow> audit_entry" where
  "rollback_entry sel b s seq ts =
     \<lparr>ae_seq = saturating_inc seq, ae_prev_hash = link_hash sel b s (Some seq), ae_ts = ts,
      ae_op = AUDIT_OP_ROLLBACK, ae_digest = state_digest sel b s, ae_snapshot = []\<rparr>"

definition rollback_marker :: "u8 \<Rightarrow> 's backend \<Rightarrow> 's \<Rightarrow> u64 \<Rightarrow> u64 \<Rightarrow> (sgdb_error + u64) \<times> 's" where
  "rollback_marker sel b s seq ts = put_entry b s (rollback_entry sel b s seq ts)"

text \<open>
  \<open>audit_entries\<close> walks the numbers, skips what does not decode, and adds one to a \<open>u64\<close>: with a
  last number of \<open>u64::MAX\<close> the addition overflows.
\<close>

function entries_loop ::
  "'s backend \<Rightarrow> 's \<Rightarrow> u64 \<Rightarrow> nat \<Rightarrow> u64 \<Rightarrow> audit_entry list \<Rightarrow> audit_entry list result" where
  "entries_loop b s final limit seq out =
     (if seq \<le> final \<and> (limit = 0 \<or> length out < limit) then
        let out' = (case be_get b s (audit_key seq) of
              Some w \<Rightarrow> (case audit_decode w of Inr e \<Rightarrow> out @ [e] | Inl _ \<Rightarrow> out)
            | None \<Rightarrow> out)
        in if seq = u64_max then Inl Panic else entries_loop b s final limit (seq + 1) out'
      else Inr out)"
  by auto
termination
proof (relation "measure (\<lambda>(b, s, final, limit, seq, out). Suc (unat final) - unat seq)")
  fix b :: "'s backend" and s final limit seq out x
  assume "seq \<le> final \<and> (limit = 0 \<or> length out < limit)" "seq \<noteq> u64_max"
  then have "unat seq \<le> unat final" "unat (seq + 1) = Suc (unat seq)"
    by (simp_all add: word_le_nat_alt u64_unat_succ)
  then show "((b, s, final, limit, seq + 1, x), b, s, final, limit, seq, out)
      \<in> measure (\<lambda>(b, s, final, limit, seq, out). Suc (unat final) - unat seq)" by simp
qed simp

declare entries_loop.simps [simp del]

definition audit_entries :: "'s backend \<Rightarrow> 's \<Rightarrow> u64 \<Rightarrow> nat \<Rightarrow> audit_entry list result" where
  "audit_entries b s since limit =
     entries_loop b s (unwrap_or (audit_last_seq b s) 0) limit since []"

definition audit_for_key :: "'s backend \<Rightarrow> 's \<Rightarrow> bytes \<Rightarrow> audit_entry list result" where
  "audit_for_key b s key =
     and_then (audit_entries b s 0 0) (\<lambda>es.
       Inr (filter (\<lambda>e. list_ex (\<lambda>it. si_sk it = key \<or> suffix (ascii ''/'' @ key) (si_sk it))
         (ae_snapshot e)) es))"

section \<open>Verification of the chain\<close>

record audit_report =
  ar_entries :: nat
  ar_chain_intact :: bool
  ar_digest_matches_last :: bool
  ar_last_seq :: "u64 option"

definition ledger_row :: "bytes \<times> bytes \<Rightarrow> (u64 \<times> bytes) list" where
  "ledger_row = (\<lambda>(k, w). case audit_seq_from_key k of Some q \<Rightarrow> [(q, w)] | None \<Rightarrow> [])"

definition ledger_rows :: "'s backend \<Rightarrow> 's \<Rightarrow> (u64 \<times> bytes) list" where
  "ledger_rows b s = sort_key fst (concat (map ledger_row (be_scan b s AUDIT_PREFIX)))"

definition expected_prev :: "u8 \<Rightarrow> bytes option \<Rightarrow> u64" where
  "expected_prev sel prev = (case prev of Some w \<Rightarrow> audit_hash sel w | None \<Rightarrow> 0)"

definition verify_step ::
  "u8 \<Rightarrow> u64 \<times> bytes \<Rightarrow> bool \<times> u64 option \<times> bytes option \<Rightarrow> bool \<times> u64 option \<times> bytes option" where
  "verify_step sel = (\<lambda>(seq, w) (intact, ckpt, prev).
     case audit_decode w of
       Inl _ \<Rightarrow> (False, ckpt, Some w)
     | Inr e \<Rightarrow> (intact \<and> ae_seq e = seq \<and> ae_prev_hash e = expected_prev sel prev,
         (if ae_op e = AUDIT_OP_CHECKPOINT then Some (ae_digest e) else ckpt), Some w))"

definition audit_verify :: "u8 \<Rightarrow> 's backend \<Rightarrow> 's \<Rightarrow> audit_report" where
  "audit_verify sel b s =
     (let rows = ledger_rows b s;
          (intact, ckpt, _) = fold (verify_step sel) rows (True, None, None);
          current = state_digest sel b s
      in \<lparr>ar_entries = length rows, ar_chain_intact = intact,
          ar_digest_matches_last = (case ckpt of Some d \<Rightarrow> d = current | None \<Rightarrow> False),
          ar_last_seq = (if rows = [] then None else Some (fst (last rows)))\<rparr>)"

section \<open>The chain as a predicate\<close>

fun chain_ok :: "u8 \<Rightarrow> bytes option \<Rightarrow> (u64 \<times> bytes) list \<Rightarrow> bool" where
  "chain_ok sel prev [] = True"
| "chain_ok sel prev ((q, w) # rows) =
     ((case audit_decode w of
         Inr e \<Rightarrow> ae_seq e = q \<and> ae_prev_hash e = expected_prev sel prev
       | Inl _ \<Rightarrow> False) \<and> chain_ok sel (Some w) rows)"

definition last_bytes :: "bytes option \<Rightarrow> (u64 \<times> bytes) list \<Rightarrow> bytes option" where
  "last_bytes prev rows = (if rows = [] then prev else Some (snd (last rows)))"

lemma verify_fold:
  "fst (fold (verify_step sel) rows (intact, ckpt, prev)) \<longleftrightarrow> intact \<and> chain_ok sel prev rows"
proof (induction rows arbitrary: intact ckpt prev)
  case Nil
  then show ?case by simp
next
  case (Cons r rows)
  obtain q w where "r = (q, w)" by (cases r)
  with Cons show ?case by (auto simp: verify_step_def split: sum.split)
qed

lemma intact_chain: "ar_chain_intact (audit_verify sel b s) \<longleftrightarrow> chain_ok sel None (ledger_rows b s)"
  using verify_fold [of sel "ledger_rows b s" True None None]
  by (cases "fold (verify_step sel) (ledger_rows b s) (True, None, None)")
    (simp add: audit_verify_def Let_def)

lemma report_rows: "ar_entries (audit_verify sel b s) = length (ledger_rows b s)"
  by (simp add: audit_verify_def Let_def split: prod.split)

lemma chain_ok_append:
  "chain_ok sel prev (xs @ ys) \<longleftrightarrow> chain_ok sel prev xs \<and> chain_ok sel (last_bytes prev xs) ys"
proof (induction xs arbitrary: prev)
  case Nil
  then show ?case by (simp add: last_bytes_def)
next
  case (Cons x xs)
  obtain q w where x: "x = (q, w)" by (cases x)
  have "last_bytes prev (x # xs) = last_bytes (Some w) xs" by (simp add: last_bytes_def x)
  then show ?case using Cons by (simp add: x)
qed

text \<open>
  Two intact chains of one length with the same last link are the same chain, unless two different
  links have one hash.
\<close>

lemma chain_determined:
  "chain_ok sel None xs \<Longrightarrow> chain_ok sel None ys \<Longrightarrow> length xs = length ys \<Longrightarrow>
   last_bytes None xs = last_bytes None ys \<Longrightarrow>
   (\<And>i. i < length xs \<Longrightarrow> audit_hash sel (snd (xs ! i)) = audit_hash sel (snd (ys ! i)) \<Longrightarrow>
     snd (xs ! i) = snd (ys ! i)) \<Longrightarrow>
   xs = ys"
proof (induction xs arbitrary: ys rule: rev_induct)
  case Nil
  then show ?case by simp
next
  case (snoc x xs)
  obtain zs y where ys: "ys = zs @ [y]" using snoc.prems(3) by (cases ys rule: rev_cases) auto
  obtain q w q' w' where x: "x = (q, w)" and y: "y = (q', w')" by (cases x, cases y)
  have len: "length xs = length zs" using snoc.prems(3) ys by simp
  have w: "w' = w" using snoc.prems(4) by (simp add: last_bytes_def x y ys)
  have cx: "chain_ok sel None xs" and cy: "chain_ok sel None zs"
    using snoc.prems(1,2) by (simp_all add: chain_ok_append ys)
  obtain e where e: "audit_decode w = Inr e" "ae_seq e = q" "ae_seq e = q'"
      "ae_prev_hash e = expected_prev sel (last_bytes None xs)"
      "ae_prev_hash e = expected_prev sel (last_bytes None zs)"
    using snoc.prems(1,2) by (auto simp: chain_ok_append ys x y w split: sum.splits)
  have "last_bytes None xs = last_bytes None zs"
  proof (cases "xs = []")
    case True
    then show ?thesis using len by simp
  next
    case False
    moreover from this len have "zs \<noteq> []" by auto
    ultimately show ?thesis
      using e(4,5) snoc.prems(5) [of "length xs - 1"] len
      by (simp add: last_bytes_def expected_prev_def last_conv_nth nth_append ys)
  qed
  moreover have "audit_hash sel (snd (xs ! i)) = audit_hash sel (snd (zs ! i)) \<Longrightarrow> snd (xs ! i) = snd (zs ! i)"
    if "i < length xs" for i
    using snoc.prems(5) [of i] that len by (simp add: ys nth_append)
  ultimately have "xs = zs" by (intro snoc.IH cx cy len)
  then show ?case using e(2,3) by (simp add: ys x y w)
qed

text \<open>Replacing a link by one with another hash breaks the chain at the next link.\<close>

lemma replaced_link_breaks:
  assumes "chain_ok sel None (xs @ (q, old) # (q2, nxt) # ys)" "audit_hash sel new \<noteq> audit_hash sel old"
  shows "\<not> chain_ok sel None (xs @ (q, new) # (q2, nxt) # ys)"
  using assms by (auto simp: chain_ok_append expected_prev_def split: sum.splits)

section \<open>The ledger over a store\<close>

text \<open>
  The numbers under \<open>sys/audit/\<close> are canonical when each stands at its own key: the operations
  write no other key, but the parser also reads upper-case digits.
\<close>

definition canonical_ledger :: "'s backend \<Rightarrow> 's \<Rightarrow> bool" where
  "canonical_ledger b s \<longleftrightarrow>
     (\<forall>(k, w) \<in> set (be_scan b s AUDIT_PREFIX). \<forall>q. audit_seq_from_key k = Some q \<longrightarrow> k = audit_key q)"

definition intact_ledger :: "u8 \<Rightarrow> 's backend \<Rightarrow> 's \<Rightarrow> bool" where
  "intact_ledger sel b s \<longleftrightarrow> canonical_ledger b s \<and> ar_chain_intact (audit_verify sel b s)"

inductive ledger_step :: "u8 \<Rightarrow> 's backend \<Rightarrow> (bytes \<Rightarrow> bytes \<Rightarrow> bool) \<Rightarrow> 's \<Rightarrow> 's \<Rightarrow> bool"
  for sel b fits where
  checkpoint: "ledger_step sel b fits s (snd (audit_checkpoint sel b s now))"
    if "audit_last_seq b s \<noteq> Some u64_max" "entry_fits (checkpoint_entry sel b s now)"
      "fits (audit_key (ae_seq (checkpoint_entry sel b s now))) (audit_encode (checkpoint_entry sel b s now))"
| forget: "ledger_step sel b fits s (snd (audit_forget sel b s sk ts reason))"
    if "audit_last_seq b s \<noteq> Some u64_max" "entry_fits (forget_entry sel b s sk ts reason)"
      "fits (audit_key (ae_seq (forget_entry sel b s sk ts reason))) (audit_encode (forget_entry sel b s sk ts reason))"
| resolve: "ledger_step sel b fits s (snd (audit_resolve sel b s cid winner ts reason))"
    if "audit_last_seq b s \<noteq> Some u64_max" "entry_fits (resolve_entry sel b s cid winner ts reason)"
      "fits (audit_key (ae_seq (resolve_entry sel b s cid winner ts reason)))
         (audit_encode (resolve_entry sel b s cid winner ts reason))"
| other_put: "ledger_step sel b fits s (snd (be_put b s k v))"
    if "\<not> prefix AUDIT_PREFIX k" "fits k v"
| other_del: "ledger_step sel b fits s (snd (be_del b s k))"
    if "\<not> prefix AUDIT_PREFIX k" "fits k []"

inductive ledger_run :: "u8 \<Rightarrow> 's backend \<Rightarrow> (bytes \<Rightarrow> bytes \<Rightarrow> bool) \<Rightarrow> 's \<Rightarrow> 's \<Rightarrow> bool"
  for sel b fits s where
  start: "ledger_run sel b fits s s"
| more: "ledger_run sel b fits s s1 \<Longrightarrow> ledger_step sel b fits s1 s2 \<Longrightarrow> ledger_run sel b fits s s2"

lemma insort_key_before: "f x < f y \<Longrightarrow> insort_key f x (zs @ [y]) = insort_key f x zs @ [y]"
  by (induction zs) auto

lemma insort_key_last: "(\<And>x. x \<in> set zs \<Longrightarrow> f x < f y) \<Longrightarrow> insort_key f y zs = zs @ [y]"
proof (induction zs)
  case Nil
  then show ?case by simp
next
  case (Cons z zs)
  have "f z < f y" by (rule Cons.prems) simp
  then have "\<not> f y \<le> f z" by simp
  then show ?case using Cons by simp
qed

lemma sort_key_last:
  "(\<And>x. x \<in> set (xs @ ys) \<Longrightarrow> f x < f y) \<Longrightarrow> sort_key f (xs @ y # ys) = sort_key f (xs @ ys) @ [y]"
proof (induction xs)
  case Nil
  then show ?case using insort_key_last [of "sort_key f ys" f y] by simp
next
  case (Cons x xs)
  then show ?case using insort_key_before [of f x y "sort_key f (xs @ ys)"] by simp
qed

lemma bt_insert_split:
  "bt_wf m \<Longrightarrow> bt_get m k = None \<Longrightarrow> \<exists>xs ys. m = xs @ ys \<and> bt_insert k v m = xs @ (k, v) # ys"
proof (induction m)
  case Nil
  then show ?case by simp
next
  case (Cons e m)
  obtain a c where e: "e = (a, c)" by (cases e)
  show ?case
  proof (cases "a < k")
    case True
    with Cons e obtain xs ys where "m = xs @ ys" "bt_insert k v m = xs @ (k, v) # ys"
      by (auto simp: bt_wf_Cons split: if_splits)
    then have "e # m = (e # xs) @ ys" "bt_insert k v (e # m) = (e # xs) @ (k, v) # ys"
      using True e by simp_all
    then show ?thesis by blast
  next
    case False
    then have "bt_insert k v (e # m) = [] @ (k, v) # (e # m)" using Cons.prems(2) e by auto
    then show ?thesis by (metis append_Nil)
  qed
qed

lemma bt_insert_replace:
  "bt_wf m \<Longrightarrow> k \<in> fst ` set m \<Longrightarrow> bt_insert k w m = map (\<lambda>(a, v). (a, if a = k then w else v)) m"
proof (induction m)
  case Nil
  then show ?case by simp
next
  case (Cons e m)
  obtain a c where e: "e = (a, c)" by (cases e)
  have up: "\<And>e'. e' \<in> set m \<Longrightarrow> a < fst e'" "bt_wf m" using Cons.prems(1) e by (auto simp: bt_wf_Cons)
  show ?case
  proof (cases "a = k")
    case True
    have "map (\<lambda>(a, v). (a, if a = k then w else v)) m = m"
      using up(1) True by (intro map_idI) force
    then show ?thesis using True e by simp
  next
    case False
    then have "k \<in> fst ` set m" using Cons.prems(2) e by simp
    moreover from this have "a < k" using up(1) by auto
    ultimately show ?thesis using Cons.IH up(2) False e by simp
  qed
qed

lemma insort_key_map_fst:
  "(\<And>x. fst (f x) = fst x) \<Longrightarrow> insort_key fst (f x) (map f xs) = map f (insort_key fst x xs)"
  by (induction xs) auto

lemma sort_key_map_fst:
  "(\<And>x. fst (f x) = fst x) \<Longrightarrow> sort_key fst (map f xs) = map f (sort_key fst xs)"
  by (induction xs) (auto simp: insort_key_map_fst)

text \<open>The largest number of the rows.\<close>

lemma last_fold:
  "fold last_step rs acc = None \<longleftrightarrow> acc = None \<and> concat (map ledger_row rs) = []"
  "fold last_step rs acc = Some l \<Longrightarrow>
     (\<forall>q w. (q, w) \<in> set (concat (map ledger_row rs)) \<longrightarrow> q \<le> l) \<and> (\<forall>a. acc = Some a \<longrightarrow> a \<le> l) \<and>
     (acc = Some l \<or> (\<exists>w. (l, w) \<in> set (concat (map ledger_row rs))))"
proof (induction rs arbitrary: acc)
  case Nil
  { case 1 then show ?case by simp next case 2 then show ?case by simp }
next
  case (Cons r rs)
  { case 1
    then show ?case using Cons.IH(1) [of "last_step r acc"]
      by (auto simp: last_step_def ledger_row_def split: option.splits prod.splits) }
  { case 2
    then have "fold last_step rs (last_step r acc) = Some l" by simp
    from Cons.IH(2) [OF this] show ?case
      by (cases r; cases acc)
        (auto simp: last_step_def ledger_row_def max_def split: option.splits if_splits) }
qed

lemma sort_key_Nil: "sort_key f xs = [] \<longleftrightarrow> xs = []"
  by (metis length_0_conv length_sort)

lemma sorted_le_last:
  assumes "sorted (map f xs)" "x \<in> set xs"
  shows "f x \<le> f (last xs)"
proof -
  have xs: "xs = butlast xs @ [last xs]" using assms(2) by (cases xs) auto
  have "sorted (map f (butlast xs) @ [f (last xs)])" using assms(1) by (subst (asm) xs) simp
  moreover have "x \<in> set (butlast xs) \<or> x = last xs" using assms(2) by (subst (asm) xs) auto
  ultimately show ?thesis by (auto simp: sorted_append)
qed

definition map_digest :: "u8 \<Rightarrow> store \<Rightarrow> u64" where
  "map_digest sel m =
     fold (digest_pair sel) (sort_key fst (concat (map (\<lambda>p. filter (\<lambda>e. prefix p (fst e)) m) digest_prefixes)))
       0xcbf29ce484222325"

locale ledger_store = backend_store inv view b fits means
  for inv :: "'s \<Rightarrow> bool" and view and b :: "'s backend" and fits means +
  assumes fits_audit: "fits (audit_key q) []"
begin

lemma last_seq_rows:
  "audit_last_seq b s = None \<longleftrightarrow> ledger_rows b s = []"
  "audit_last_seq b s = Some l \<Longrightarrow> (\<exists>w. (l, w) \<in> set (ledger_rows b s)) \<and>
     (\<forall>(q, w) \<in> set (ledger_rows b s). q \<le> l)"
proof -
  show "audit_last_seq b s = None \<longleftrightarrow> ledger_rows b s = []"
    by (simp only: audit_last_seq_def ledger_rows_def last_fold(1) sort_key_Nil simp_thms)
  assume "audit_last_seq b s = Some l"
  then show "(\<exists>w. (l, w) \<in> set (ledger_rows b s)) \<and> (\<forall>(q, w) \<in> set (ledger_rows b s). q \<le> l)"
    using last_fold(2) [of "be_scan b s AUDIT_PREFIX" None l]
    by (auto simp: audit_last_seq_def ledger_rows_def)
qed

lemma rows_below_next:
  assumes "audit_last_seq b s \<noteq> Some u64_max" "(q, w) \<in> set (ledger_rows b s)"
  shows "q < next_seq (audit_last_seq b s)"
proof (cases "audit_last_seq b s")
  case None
  then show ?thesis using assms(2) last_seq_rows(1) [of s] by simp
next
  case (Some l)
  then have "q \<le> l" using last_seq_rows(2) [OF Some] assms(2) by auto
  moreover have "l < saturating_inc l" using Some assms(1) by (simp add: saturating_inc_def u64_less_succ)
  ultimately show ?thesis by (simp add: Some next_seq_def)
qed

lemma row_at_key:
  assumes "inv s" "canonical_ledger b s" "(q, w) \<in> set (ledger_rows b s)"
  shows "view s (audit_key q) = Some w"
proof -
  from assms(3) obtain k where k: "(k, w) \<in> set (be_scan b s AUDIT_PREFIX)" "audit_seq_from_key k = Some q"
    by (auto simp: ledger_rows_def ledger_row_def split: option.splits)
  then have "k = audit_key q" using assms(2) by (auto simp: canonical_ledger_def)
  then show ?thesis using k(1) scan_set [OF assms(1) AUDIT_PREFIX_utf8] by auto
qed

lemma rows_after_append:
  assumes "inv s" "audit_last_seq b s \<noteq> Some u64_max" "q = next_seq (audit_last_seq b s)"
    and "fits (audit_key q) w" "w \<noteq> []"
  shows "ledger_rows b (snd (be_put b s (audit_key q) w)) = ledger_rows b s @ [(q, w)]"
proof -
  let ?m = "be_scan b s AUDIT_PREFIX"
  have wf: "bt_wf ?m" using scan_sorted [OF assms(1)] by (simp add: bt_wf_def)
  have none: "bt_get ?m (audit_key q) = None"
  proof (rule ccontr)
    assume "bt_get ?m (audit_key q) \<noteq> None"
    then obtain v where "(audit_key q, v) \<in> set ?m" using bt_get_iff [OF wf] by auto
    then have "(q, v) \<in> set (ledger_rows b s)" by (force simp: ledger_rows_def ledger_row_def)
    then show False using rows_below_next [OF assms(2)] assms(3) by blast
  qed
  obtain xs ys where m: "?m = xs @ ys" "bt_insert (audit_key q) w ?m = xs @ (audit_key q, w) # ys"
    using bt_insert_split [OF wf none] by blast
  have "fst r < q" if "r \<in> set (concat (map ledger_row xs) @ concat (map ledger_row ys))" for r
  proof -
    have "r \<in> set (ledger_rows b s)" using that by (simp add: ledger_rows_def m(1))
    then show ?thesis using rows_below_next [OF assms(2), of "fst r" "snd r"] assms(3) by simp
  qed
  then have "sort_key fst (concat (map ledger_row xs) @ (q, w) # concat (map ledger_row ys)) =
      sort_key fst (concat (map ledger_row xs) @ concat (map ledger_row ys)) @ [(q, w)]"
    by (intro sort_key_last) simp
  then show ?thesis
    using scan_put [OF assms(1,4,5) AUDIT_PREFIX_utf8 audit_key_prefix] m
    by (simp add: ledger_rows_def) (simp add: ledger_row_def)
qed

lemma link_is_last:
  assumes "inv s" "canonical_ledger b s"
  shows "link_hash sel b s (audit_last_seq b s) = expected_prev sel (last_bytes None (ledger_rows b s))"
proof (cases "audit_last_seq b s")
  case None
  then show ?thesis using last_seq_rows(1) [of s] by (simp add: link_hash_def expected_prev_def last_bytes_def)
next
  case (Some l)
  obtain v where v: "(l, v) \<in> set (ledger_rows b s)" and top: "\<And>q w. (q, w) \<in> set (ledger_rows b s) \<Longrightarrow> q \<le> l"
    using last_seq_rows(2) [OF Some] by auto
  have ne: "ledger_rows b s \<noteq> []" using v by auto
  obtain q' w' where last: "last (ledger_rows b s) = (q', w')" by (cases "last (ledger_rows b s)")
  then have mem: "(q', w') \<in> set (ledger_rows b s)" using ne last_in_set by metis
  have "l \<le> q'"
    using sorted_le_last [of fst "ledger_rows b s" "(l, v)"] v last by (simp add: ledger_rows_def)
  then have "q' = l" using top [OF mem] by simp
  then have "view s (audit_key l) = Some w'" using row_at_key [OF assms(1,2) mem] by simp
  then have "be_get b s (audit_key l) = Some w'" using get_view [OF assms(1) fits_audit] by simp
  then show ?thesis
    using Some last ne by (simp add: link_hash_def expected_prev_def last_bytes_def)
qed

lemma append_keeps:
  assumes "inv s" "intact_ledger sel b s" "audit_last_seq b s \<noteq> Some u64_max"
    and e: "ae_seq e = next_seq (audit_last_seq b s)" "ae_prev_hash e = link_hash sel b s (audit_last_seq b s)"
    and "entry_fits e" "fits (audit_key (ae_seq e)) (audit_encode e)"
  shows "fst (put_entry b s e) = Inr (ae_seq e) \<and> inv (snd (put_entry b s e)) \<and>
    ledger_rows b (snd (put_entry b s e)) = ledger_rows b s @ [(ae_seq e, audit_encode e)] \<and>
    intact_ledger sel b (snd (put_entry b s e))"
proof -
  let ?k = "audit_key (ae_seq e)" and ?w = "audit_encode e"
  have ne: "?w \<noteq> []" by (simp add: audit_encode_def)
  obtain s' where s': "be_put b s ?k ?w = (Inr (), s')" "inv s'" "view s' = (view s)(?k := Some ?w)"
    using put_ok [OF assms(1,7)] means_some [OF ne] by auto
  have put: "put_entry b s e = (Inr (ae_seq e), s')" by (simp add: put_entry_def s'(1))
  have canon: "canonical_ledger b s" and chain: "chain_ok sel None (ledger_rows b s)"
    using assms(2) by (simp_all add: intact_ledger_def intact_chain)
  have rows: "ledger_rows b s' = ledger_rows b s @ [(ae_seq e, ?w)]"
    using rows_after_append [OF assms(1,3) e(1) assms(7) ne] s'(1) by simp
  have "canonical_ledger b s'"
    using canon by (auto simp: canonical_ledger_def scan_set [OF s'(2) AUDIT_PREFIX_utf8]
        scan_set [OF assms(1) AUDIT_PREFIX_utf8] s'(3) split: if_splits)
  moreover have "chain_ok sel None (ledger_rows b s')"
    unfolding rows chain_ok_append
    using chain link_is_last [OF assms(1) canon, of sel] e(2) by (simp add: audit_decode_encode [OF assms(6)])
  ultimately show ?thesis using rows s'(2) put by (simp add: intact_ledger_def intact_chain)
qed

lemma other_keeps:
  assumes "inv s" "inv s'" "view s' = (view s)(k := x)" "\<not> prefix AUDIT_PREFIX k"
  shows "intact_ledger sel b s' = intact_ledger sel b s"
proof -
  have "be_scan b s' AUDIT_PREFIX = be_scan b s AUDIT_PREFIX"
    using scan_other [OF assms(1,2) AUDIT_PREFIX_utf8 assms(3,4)] .
  then show ?thesis by (simp add: intact_ledger_def intact_chain canonical_ledger_def ledger_rows_def)
qed

lemma step_keeps:
  assumes "ledger_step sel b fits s s'" "inv s" "intact_ledger sel b s"
  shows "inv s' \<and> intact_ledger sel b s'"
  using assms(1)
proof cases
  case (checkpoint now)
  then show ?thesis
    using append_keeps [OF assms(2,3), of "checkpoint_entry sel b s now"]
    by (simp add: audit_checkpoint_def checkpoint_entry_def Let_def)
next
  case (forget sk ts reason)
  then show ?thesis
    using append_keeps [OF assms(2,3), of "forget_entry sel b s sk ts reason"]
    by (simp add: audit_forget_def forget_entry_def Let_def)
next
  case (resolve cid winner ts reason)
  then show ?thesis
    using append_keeps [OF assms(2,3), of "resolve_entry sel b s cid winner ts reason"]
    by (simp add: audit_resolve_def resolve_entry_def Let_def)
next
  case (other_put k v)
  then show ?thesis
    using put_result [OF assms(2) other_put(3)] other_keeps [OF assms(2)] assms(3) by metis
next
  case (other_del k)
  then show ?thesis
    using del_result [OF assms(2) other_del(3)] other_keeps [OF assms(2)] assms(3) by metis
qed

lemma run_keeps:
  "ledger_run sel b fits s s' \<Longrightarrow> inv s \<Longrightarrow> intact_ledger sel b s \<Longrightarrow> inv s' \<and> intact_ledger sel b s'"
  by (induction rule: ledger_run.induct) (auto dest: step_keeps)

lemma empty_intact: "inv s \<Longrightarrow> be_scan b s AUDIT_PREFIX = [] \<Longrightarrow> intact_ledger sel b s"
  by (simp add: intact_ledger_def intact_chain canonical_ledger_def ledger_rows_def)

text \<open>An entry put at an existing number takes the place of the old one.\<close>

lemma rows_distinct:
  assumes "inv s" "canonical_ledger b s"
  shows "distinct (map fst (ledger_rows b s))"
proof -
  have gen: "distinct (map fst m) \<Longrightarrow> (\<And>k w q. (k, w) \<in> set m \<Longrightarrow> audit_seq_from_key k = Some q \<Longrightarrow> k = audit_key q) \<Longrightarrow>
      distinct (map fst (concat (map ledger_row m)))" for m :: "(bytes \<times> bytes) list"
  proof (induction m)
    case Nil
    then show ?case by simp
  next
    case (Cons e m)
    obtain k w where e: "e = (k, w)" by (cases e)
    have "q \<notin> fst ` set (concat (map ledger_row m))" if "audit_seq_from_key k = Some q" for q
    proof
      assume "q \<in> fst ` set (concat (map ledger_row m))"
      then obtain k' w' where "(k', w') \<in> set m" "audit_seq_from_key k' = Some q"
        by (auto simp: ledger_row_def split: option.splits)
      then have "k' = k" using Cons.prems(2) [of k' w' q] Cons.prems(2) [of k w q] that e by simp
      then show False using Cons.prems(1) \<open>(k', w') \<in> set m\<close> e by force
    qed
    moreover have "distinct (map fst (concat (map ledger_row m)))"
      using Cons.prems by (intro Cons.IH) auto
    moreover have "ledger_row e = (case audit_seq_from_key k of Some q \<Rightarrow> [(q, w)] | None \<Rightarrow> [])"
      by (simp add: e ledger_row_def)
    ultimately show ?case by (cases "audit_seq_from_key k") simp_all
  qed
  have "distinct (map fst (concat (map ledger_row (be_scan b s AUDIT_PREFIX))))"
    using scan_distinct [OF assms(1)] assms(2) by (intro gen) (auto simp: canonical_ledger_def)
  then show ?thesis
    unfolding ledger_rows_def by (metis distinct_map distinct_sort set_sort)
qed

lemma rows_after_replace:
  assumes "inv s" "canonical_ledger b s" "(q, old) \<in> set (ledger_rows b s)" "fits (audit_key q) w" "w \<noteq> []"
  shows "ledger_rows b (snd (be_put b s (audit_key q) w)) =
    map (\<lambda>(p, v). (p, if p = q then w else v)) (ledger_rows b s)"
proof -
  let ?f = "\<lambda>(p :: u64, v). (p, if p = q then w else v)"
    and ?g = "\<lambda>(k, v). (k, if k = audit_key q then w else v)"
  let ?m = "be_scan b s AUDIT_PREFIX"
  have "(audit_key q, old) \<in> set ?m"
    using row_at_key [OF assms(1-3)] scan_set [OF assms(1) AUDIT_PREFIX_utf8] by simp
  then have "bt_insert (audit_key q) w ?m = map ?g ?m"
    by (intro bt_insert_replace scan_wf [OF assms(1)]) force
  then have scan: "be_scan b (snd (be_put b s (audit_key q) w)) AUDIT_PREFIX = map ?g ?m"
    using scan_put [OF assms(1,4,5) AUDIT_PREFIX_utf8 audit_key_prefix] by simp
  have row: "ledger_row (?g e) = map ?f (ledger_row e)" if "e \<in> set ?m" for e
  proof -
    obtain k v where e: "e = (k, v)" by (cases e)
    show ?thesis
    proof (cases "audit_seq_from_key k")
      case None
      then show ?thesis by (simp add: e ledger_row_def)
    next
      case (Some p)
      then have k: "k = audit_key p" using assms(2) that unfolding e canonical_ledger_def by blast
      have "audit_key p = audit_key q \<longleftrightarrow> p = q" by (metis audit_seq_of_key option.inject)
      then show ?thesis unfolding e k by (simp add: ledger_row_def)
    qed
  qed
  have "map ledger_row (map ?g ?m) = map (map ?f) (map ledger_row ?m)"
    unfolding map_map comp_def by (rule map_cong [OF refl]) (rule row)
  then have rows: "concat (map ledger_row (map ?g ?m)) = map ?f (concat (map ledger_row ?m))"
    by (simp only: map_concat)
  have "fst (?f x) = fst x" for x by (cases x) simp
  from sort_key_map_fst [of ?f, OF this] show ?thesis
    unfolding ledger_rows_def scan rows .
qed

lemma replace_breaks:
  assumes "inv s" "intact_ledger sel b s" "ledger_rows b s = xs @ (q, old) # (q2, nxt) # ys"
    and "fits (audit_key q) w" "w \<noteq> []" "audit_hash sel w \<noteq> audit_hash sel old"
  shows "\<not> ar_chain_intact (audit_verify sel b (snd (be_put b s (audit_key q) w))) \<and>
    ledger_rows b (snd (be_put b s (audit_key q) w)) = xs @ (q, w) # (q2, nxt) # ys"
proof -
  have c: "canonical_ledger b s" and ok: "chain_ok sel None (xs @ (q, old) # (q2, nxt) # ys)"
    using assms(2,3) by (simp_all add: intact_ledger_def intact_chain)
  have d: "q \<notin> fst ` set xs" "q2 \<noteq> q" "q \<notin> fst ` set ys"
    using rows_distinct [OF assms(1) c] by (auto simp: assms(3))
  have same: "map (\<lambda>(p, v). (p, if p = q then w else v)) zs = zs" if "q \<notin> fst ` set zs" for zs :: "(u64 \<times> bytes) list"
    using that by (intro map_idI) force
  have rows: "ledger_rows b (snd (be_put b s (audit_key q) w)) = xs @ (q, w) # (q2, nxt) # ys"
    using rows_after_replace [OF assms(1) c _ assms(4,5), of old] d
    by (simp add: assms(3) same)
  then show ?thesis
    using replaced_link_breaks [OF ok assms(6)] by (simp add: intact_chain)
qed

text \<open>What the digest covers is the map the store stands for, whatever its layout.\<close>

lemma digest_reference:
  assumes "inv s" "bt_wf m" "bt_get m = view s"
  shows "state_digest sel b s = map_digest sel m"
proof -
  have u: "utf8_valid p" if "p \<in> set digest_prefixes" for p
    using that by (intro utf8_valid_ascii) (auto simp: digest_prefixes_def META_PREFIX_def ascii_def)
  have "be_scan b s p = filter (\<lambda>e. prefix p (fst e)) m" if "p \<in> set digest_prefixes" for p
    by (intro bt_eqI scan_wf assms(1) bt_wf_filter assms(2))
      (auto simp: fun_eq_iff scan_view [OF assms(1) u [OF that]] bt_get_filter_key assms(3))
  then have m: "map (be_scan b s) digest_prefixes = map (\<lambda>p. filter (\<lambda>e. prefix p (fst e)) m) digest_prefixes"
    by simp
  show ?thesis unfolding state_digest_def map_digest_def m ..
qed

end

section \<open>The three ledgers\<close>

interpretation ram_ledger: ledger_store "\<lambda>s. bt_wf (im_map s)" "\<lambda>s. bt_get (im_map s)" ram_backend
  "\<lambda>_ _. True" Some
  by unfold_locales simp

interpretation file_ledger: ledger_store fs_inv "\<lambda>s. bt_get (fs_map s)" file_backend fs_fits fs_means
  by unfold_locales (simp add: fs_fits_def op_fits_def MAX_KLEN_def)

lemma tv_fits_audit: "tv_fits (audit_key q) []"
proof -
  have "length (audit_key q) \<noteq> length CKPT_KEY" by (simp add: CKPT_KEY_def ascii_def)
  then have "audit_key q \<noteq> CKPT_KEY" by metis
  then show ?thesis by (simp add: tv_fits_def op_fits_def MAX_KLEN_def audit_key_utf8)
qed

interpretation tickv_ledger: ledger_store tv_inv "\<lambda>s. bt_get (tv_map s)" tickv_backend tv_fits fs_means
  by unfold_locales (rule tv_fits_audit)

section \<open>Reading the entries\<close>

definition entry_at :: "'s backend \<Rightarrow> 's \<Rightarrow> u64 \<Rightarrow> audit_entry list" where
  "entry_at b s seq =
     (case be_get b s (audit_key seq) of
        Some w \<Rightarrow> (case audit_decode w of Inr e \<Rightarrow> [e] | Inl _ \<Rightarrow> [])
      | None \<Rightarrow> [])"

lemma entries_loop_all:
  "final \<noteq> u64_max \<Longrightarrow> entries_loop b s final 0 seq out =
     Inr (out @ concat (map (\<lambda>n. entry_at b s (of_nat n)) [unat seq ..< Suc (unat final)]))"
proof (induction b s final "0 :: nat" seq out rule: entries_loop.induct)
  case (1 b s final seq out)
  show ?case
  proof (cases "seq \<le> final")
    case True
    then have ne: "seq \<noteq> u64_max" using 1(2) by (metis word_n1_ge order.antisym)
    have le: "unat seq < Suc (unat final)" using True by (simp add: word_le_nat_alt)
    have out: "(case be_get b s (audit_key seq) of None \<Rightarrow> out
        | Some w \<Rightarrow> (case audit_decode w of Inl a \<Rightarrow> out | Inr e \<Rightarrow> out @ [e])) = out @ entry_at b s seq"
      by (simp add: entry_at_def split: option.split sum.split)
    have "entries_loop b s final 0 seq out = entries_loop b s final 0 (seq + 1) (out @ entry_at b s seq)"
      using True ne by (simp add: entries_loop.simps [of b s final 0 seq] out)
    also have "\<dots> = Inr ((out @ entry_at b s seq) @
        concat (map (\<lambda>n. entry_at b s (of_nat n)) [unat (seq + 1) ..< Suc (unat final)]))"
      using 1 True ne by (simp add: out Let_def)
    finally show ?thesis
      unfolding upt_conv_Cons [OF le] u64_unat_succ [OF ne] by simp
  next
    case False
    then have "[unat seq ..< Suc (unat final)] = []" by (simp add: word_le_nat_alt)
    then show ?thesis using False by (simp add: entries_loop.simps [of b s final 0 seq])
  qed
qed

section \<open>Properties\<close>

text \<open>
  C12: whatever sequence of checkpoints, forgets, resolutions and other writes a file store has
  seen since it was empty, \<open>audit_verify\<close> finds its chain intact, and reports the same after the
  file is closed and opened again.
\<close>

theorem audit_chain_stays_intact:
  assumes "ledger_run sel file_backend fs_fits (fs_open []) s"
  shows "ar_chain_intact (audit_verify sel file_backend s) \<and>
    audit_verify sel file_backend (fs_open (fs_disk s)) = audit_verify sel file_backend s"
proof -
  have "be_scan file_backend (fs_open []) AUDIT_PREFIX = []"
    by (simp add: file_backend_def fs_scan_def fs_open_empty)
  then have i: "fs_inv s" "intact_ledger sel file_backend s"
    using file_ledger.run_keeps [OF assms fs_inv_empty file_ledger.empty_intact [OF fs_inv_empty]]
    by blast+
  have "be_scan file_backend (s\<lparr>fs_file := False\<rparr>) = be_scan file_backend s"
    by (simp add: file_backend_def fs_scan_def fun_eq_iff)
  then have "audit_verify sel file_backend (s\<lparr>fs_file := False\<rparr>) = audit_verify sel file_backend s"
    by (simp add: audit_verify_def ledger_rows_def state_digest_def)
  then show ?thesis using i(2) by (simp add: fs_open_inv [OF i(1)] intact_ledger_def)
qed

text \<open>
  A forget on a TKLV volume with an intact chain leaves its evidence: one entry behind all the
  others, with the next number, that decodes to the forgotten key and the reason, in a chain that
  is still intact.
\<close>

theorem forget_leaves_evidence:
  assumes "tv_inv s" "intact_ledger sel tickv_backend s" "audit_last_seq tickv_backend s \<noteq> Some u64_max"
    and "entry_fits (forget_entry sel tickv_backend s sk ts reason)"
    and "tv_fits (audit_key (next_seq (audit_last_seq tickv_backend s)))
      (audit_encode (forget_entry sel tickv_backend s sk ts reason))"
  shows "\<exists>s' w e. audit_forget sel tickv_backend s sk ts reason =
      (Inr (next_seq (audit_last_seq tickv_backend s)), s') \<and> tv_inv s' \<and>
    ledger_rows tickv_backend s' =
      ledger_rows tickv_backend s @ [(next_seq (audit_last_seq tickv_backend s), w)] \<and>
    audit_decode w = Inr e \<and> ae_op e = AUDIT_OP_FORGET \<and> map si_sk (ae_snapshot e) = [sk] \<and>
    map si_meta (ae_snapshot e) = [reason] \<and> ar_chain_intact (audit_verify sel tickv_backend s')"
proof -
  let ?e = "forget_entry sel tickv_backend s sk ts reason"
  have e: "ae_seq ?e = next_seq (audit_last_seq tickv_backend s)"
    "ae_prev_hash ?e = link_hash sel tickv_backend s (audit_last_seq tickv_backend s)"
    "ae_op ?e = AUDIT_OP_FORGET" "map si_sk (ae_snapshot ?e) = [sk]" "map si_meta (ae_snapshot ?e) = [reason]"
    by (simp_all add: forget_entry_def Let_def)
  have "tv_fits (audit_key (ae_seq ?e)) (audit_encode ?e)" using assms(5) e(1) by simp
  from tickv_ledger.append_keeps [OF assms(1-3) e(1,2) assms(4) this]
  show ?thesis
    using audit_decode_encode [OF assms(4)] e
    by (cases "put_entry tickv_backend s ?e") (fastforce simp: audit_forget_def intact_ledger_def)
qed

text \<open>
  C13: tamper evidence: take a ledger that verifies, and another one with as many entries and the same
  last entry.  If they are not the same ledger, in the number or in the bytes of any entry, the other
  one does not verify, unless an entry was replaced by a different one with the same hash.  (Entries
  cut off the end are not detected: a prefix of an intact chain is intact.)
\<close>

theorem tampering_is_detected:
  assumes "ar_chain_intact (audit_verify sel b s)"
    and "length (ledger_rows b s') = length (ledger_rows b s)" "last (ledger_rows b s') = last (ledger_rows b s)"
    and "ledger_rows b s' \<noteq> ledger_rows b s"
    and "\<And>i. i < length (ledger_rows b s) \<Longrightarrow> snd (ledger_rows b s ! i) \<noteq> snd (ledger_rows b s' ! i) \<Longrightarrow>
      audit_hash sel (snd (ledger_rows b s ! i)) \<noteq> audit_hash sel (snd (ledger_rows b s' ! i))"
  shows "\<not> ar_chain_intact (audit_verify sel b s')"
proof
  assume "ar_chain_intact (audit_verify sel b s')"
  moreover have "last_bytes None (ledger_rows b s) = last_bytes None (ledger_rows b s')"
    using assms(2,3) by (auto simp: last_bytes_def)
  ultimately have "ledger_rows b s = ledger_rows b s'"
    using assms(1,2,5) by (intro chain_determined [of sel]) (auto simp: intact_chain)
  then show False using assms(4) by simp
qed

text \<open>
  C26: \<open>rollback_to\<close> does not append its marker, it writes it at the number after the checkpoint:
  where the ledger goes on past that number, the entry there, a forget for instance, is replaced,
  and the chain no longer verifies.
\<close>

theorem rollback_breaks_the_chain:
  assumes "bt_wf (im_map s)" "intact_ledger sel ram_backend s"
    and "ledger_rows ram_backend s = xs @ (saturating_inc seq, old) # (q2, nxt) # ys"
    and "audit_hash sel (audit_encode (rollback_entry sel ram_backend s seq ts)) \<noteq> audit_hash sel old"
  shows "\<exists>s'. rollback_marker sel ram_backend s seq ts = (Inr (saturating_inc seq), s') \<and>
    \<not> ar_chain_intact (audit_verify sel ram_backend s') \<and>
    ledger_rows ram_backend s' =
      xs @ (saturating_inc seq, audit_encode (rollback_entry sel ram_backend s seq ts)) # (q2, nxt) # ys"
proof -
  let ?e = "rollback_entry sel ram_backend s seq ts"
  have q: "ae_seq ?e = saturating_inc seq" by (simp add: rollback_entry_def)
  have "audit_encode ?e \<noteq> []" by (simp add: audit_encode_def)
  note broken = ram_ledger.replace_breaks [OF assms(1-3) TrueI this assms(4)]
  obtain s' where put: "be_put ram_backend s (audit_key (saturating_inc seq)) (audit_encode ?e) = (Inr (), s')"
    by (simp add: ram_backend_def in_memory_put_def)
  then show ?thesis
    using broken by (intro exI [of _ s']) (simp add: rollback_marker_def put_entry_def q)
qed

text \<open>
  C32: \<open>audit_entries\<close> without a limit comes back with the readable entries of every number from the
  first asked for to the last of the ledger, in order; only a ledger that ends at \<open>u64::MAX\<close> makes
  its counter overflow.
\<close>

theorem audit_entries_total:
  assumes "audit_last_seq b s \<noteq> Some u64_max"
  shows "audit_entries b s since 0 = Inr (concat (map (\<lambda>n. entry_at b s (of_nat n))
    [unat since ..< Suc (unat (unwrap_or (audit_last_seq b s) 0))]))"
proof -
  have "unwrap_or (audit_last_seq b s) 0 \<noteq> u64_max"
    using assms by (cases "audit_last_seq b s") (simp_all add: unwrap_or_def)
  from entries_loop_all [OF this, of b s since "[]"] show ?thesis
    unfolding audit_entries_def append_Nil .
qed

text \<open>
  The digest of the memory state is that of the entries alone: a RAM map, a log file and a TKLV
  volume that hold the same entries have the same digest.
\<close>

theorem digests_agree:
  assumes "bt_wf (im_map r)" "fs_inv f" "tv_inv t" "fs_map f = im_map r" "tv_map t = im_map r"
  shows "state_digest sel file_backend f = state_digest sel ram_backend r \<and>
    state_digest sel tickv_backend t = state_digest sel ram_backend r"
  using ram_ledger.digest_reference [OF assms(1,1)] file_ledger.digest_reference [OF assms(2,1)]
    tickv_ledger.digest_reference [OF assms(3,1)] assms(4,5) by simp

text \<open>
  With the default hasher the digest does not separate its rows, since the lengths of the
  values are not hashed: a document whose value ends in the framing of another one has the digest of
  the two documents.
\<close>

theorem digest_merges_rows:
  assumes "audit_hasher sel = Fnv1a64" "prefix (ascii ''md/'') k1" "prefix (ascii ''md/'') k2" "k1 < k2"
  shows "state_digest sel ram_backend \<lparr>im_map = [(k1, v1 @ le_enc 4 (length k2) @ k2 @ v2)]\<rparr> =
    state_digest sel ram_backend \<lparr>im_map = [(k1, v1), (k2, v2)]\<rparr>"
proof -
  have p: "\<not> prefix p k" if "prefix (ascii ''md/'') k" "p \<in> set (tl digest_prefixes)" for p k
    using that by (auto simp: digest_prefixes_def META_PREFIX_def ascii_def prefix_def)
  have d: "digest_prefixes = ascii ''md/'' # tl digest_prefixes" by (simp add: digest_prefixes_def)
  have rows: "concat (map (\<lambda>p. filter (\<lambda>e. prefix p (fst e)) m) digest_prefixes) = m"
    if "\<And>k v. (k, v) \<in> set m \<Longrightarrow> prefix (ascii ''md/'') k" for m :: store
  proof -
    have "filter (\<lambda>e. prefix p (fst e)) m = []" if "p \<in> set (tl digest_prefixes)" for p
      using that p \<open>\<And>k v. (k, v) \<in> set m \<Longrightarrow> prefix (ascii ''md/'') k\<close> by (force simp: filter_empty_conv)
    then have "concat (map (\<lambda>p. filter (\<lambda>e. prefix p (fst e)) m) (tl digest_prefixes)) = []" by simp
    moreover have "filter (\<lambda>e. prefix (ascii ''md/'') (fst e)) m = m"
      using \<open>\<And>k v. (k, v) \<in> set m \<Longrightarrow> prefix (ascii ''md/'') k\<close> by (force simp: filter_id_conv)
    ultimately show ?thesis by (subst d) simp
  qed
  have dig: "map_digest sel m = fold (digest_pair sel) (sort_key fst m) 0xcbf29ce484222325"
    if "\<And>k v. (k, v) \<in> set m \<Longrightarrow> prefix (ascii ''md/'') k" for m :: store
    unfolding map_digest_def by (simp only: rows [OF that])
  have wf: "bt_wf [(k1, v1), (k2, v2)]" "bt_wf [(k1, v)]" for v :: bytes
    using assms(4) by (simp_all add: bt_wf_Cons)
  have "map_digest sel [(k1, v1 @ le_enc 4 (length k2) @ k2 @ v2)] = map_digest sel [(k1, v1), (k2, v2)]"
  proof -
    let ?one = "[(k1, v1 @ le_enc 4 (length k2) @ k2 @ v2)]" and ?two = "[(k1, v1), (k2, v2)]"
    have d1: "map_digest sel ?one = fold (digest_pair sel) (sort_key fst ?one) 0xcbf29ce484222325"
      by (rule dig) (use assms(2,3) in auto)
    have d2: "map_digest sel ?two = fold (digest_pair sel) (sort_key fst ?two) 0xcbf29ce484222325"
      by (rule dig) (use assms(2,3) in auto)
    show ?thesis
      unfolding d1 d2 using assms(1) less_imp_le [OF assms(4)]
      by (simp add: digest_pair_def audit_hash_seeded_def flip: fnv1a64_seeded_append)
  qed
  moreover have "state_digest sel ram_backend \<lparr>im_map = m\<rparr> = map_digest sel m" if "bt_wf m" for m
    using ram_ledger.digest_reference [of "\<lparr>im_map = m\<rparr>" m] that by simp
  ultimately show ?thesis using wf by simp
qed

section \<open>Witnesses\<close>

text \<open>Three checkpoints of an empty store, all at time 5.\<close>

definition checkpointed :: "nat \<Rightarrow> in_memory" where
  "checkpointed n = ((\<lambda>s. snd (audit_checkpoint 0 ram_backend s 5)) ^^ n) in_memory_new"

lemma ram_put_entry: "put_entry ram_backend s e =
  (Inr (ae_seq e), s\<lparr>im_map := bt_insert (audit_key (ae_seq e)) (audit_encode e) (im_map s)\<rparr>)"
  by (simp add: put_entry_def ram_backend_def in_memory_put_def)

definition only_audit :: "in_memory \<Rightarrow> bool" where
  "only_audit s \<longleftrightarrow> bt_wf (im_map s) \<and> intact_ledger 0 ram_backend s \<and>
     (\<forall>(k, v) \<in> set (im_map s). prefix AUDIT_PREFIX k)"

lemma only_audit_state:
  assumes "only_audit s"
  shows "state_digest 0 ram_backend s = 0xcbf29ce484222325" "state_snapshot ram_backend s = []"
proof -
  have "\<not> prefix p k" if "p \<in> set digest_prefixes" "prefix AUDIT_PREFIX k" for p k
    using that by (auto simp: digest_prefixes_def META_PREFIX_def AUDIT_PREFIX_def ascii_def prefix_def)
  then have n: "be_scan ram_backend s p = []" if "p \<in> set digest_prefixes" for p
    using that assms by (force simp: ram_backend_def in_memory_scan_def only_audit_def filter_empty_conv)
  then have c: "concat (map (be_scan ram_backend s) digest_prefixes) = []" by simp
  show "state_digest 0 ram_backend s = 0xcbf29ce484222325" unfolding state_digest_def c by simp
  show "state_snapshot ram_backend s = []" using n [of META_PREFIX] by (simp add: state_snapshot_def digest_prefixes_def)
qed

lemma checkpoint_step:
  assumes "only_audit s" "audit_last_seq ram_backend s \<noteq> Some u64_max"
  defines "e \<equiv> \<lparr>ae_seq = next_seq (audit_last_seq ram_backend s),
      ae_prev_hash = link_hash 0 ram_backend s (audit_last_seq ram_backend s), ae_ts = 5,
      ae_op = AUDIT_OP_CHECKPOINT, ae_digest = 0xcbf29ce484222325, ae_snapshot = []\<rparr>"
  shows "only_audit (snd (audit_checkpoint 0 ram_backend s 5)) \<and>
    ledger_rows ram_backend (snd (audit_checkpoint 0 ram_backend s 5)) =
      ledger_rows ram_backend s @ [(ae_seq e, audit_encode e)]"
proof -
  have i: "bt_wf (im_map s)" "intact_ledger 0 ram_backend s" using assms(1) by (auto simp: only_audit_def)
  have e: "checkpoint_entry 0 ram_backend s 5 = e"
    by (simp add: checkpoint_entry_def e_def Let_def only_audit_state [OF assms(1)])
  have "entry_fits e" by (simp add: e_def entry_fits_def known_op_def)
  moreover have "ae_seq e = next_seq (audit_last_seq ram_backend s)"
    "ae_prev_hash e = link_hash 0 ram_backend s (audit_last_seq ram_backend s)" by (simp_all add: e_def)
  ultimately have k: "intact_ledger 0 ram_backend (snd (put_entry ram_backend s e))"
    "ledger_rows ram_backend (snd (put_entry ram_backend s e)) =
       ledger_rows ram_backend s @ [(ae_seq e, audit_encode e)]"
    using ram_ledger.append_keeps [OF i assms(2), of e] by blast+
  have "only_audit (snd (put_entry ram_backend s e))"
    using assms(1) k(1) set_bt_insert [of "audit_key (ae_seq e)" "audit_encode e" "im_map s"]
    by (auto simp: only_audit_def ram_put_entry)
  then show ?thesis using k(2) by (simp add: audit_checkpoint_def e)
qed

lemma ram_last_seq:
  assumes "only_audit s" "ledger_rows ram_backend s = xs @ [(l, w)]" "\<And>q v. (q, v) \<in> set xs \<Longrightarrow> q < l"
  shows "audit_last_seq ram_backend s = Some l"
proof (cases "audit_last_seq ram_backend s")
  case None
  then show ?thesis using assms(1,2) ram_ledger.last_seq_rows(1) [of s] by simp
next
  case (Some m)
  then obtain v where "(m, v) \<in> set (ledger_rows ram_backend s)" and "l \<le> m"
    using ram_ledger.last_seq_rows(2) [OF Some] assms(2) by auto
  then have "m = l" using assms(2) assms(3) [of m v] by auto
  then show ?thesis using Some by simp
qed

lemma ram_link:
  assumes "only_audit s" "(q, w) \<in> set (ledger_rows ram_backend s)"
  shows "link_hash 0 ram_backend s (Some q) = audit_hash 0 w"
proof -
  have "bt_wf (im_map s)" "canonical_ledger ram_backend s"
    using assms(1) by (simp_all add: only_audit_def intact_ledger_def)
  from ram_ledger.row_at_key [OF this assms(2)]
  have "be_get ram_backend s (audit_key q) = Some w" by (simp add: ram_backend_def in_memory_get_def)
  then show ?thesis by (simp add: link_hash_def)
qed

definition empty_checkpoint :: "u64 \<Rightarrow> u64 \<Rightarrow> audit_entry" where
  "empty_checkpoint seq prev = \<lparr>ae_seq = seq, ae_prev_hash = prev, ae_ts = 5, ae_op = AUDIT_OP_CHECKPOINT,
     ae_digest = 0xcbf29ce484222325, ae_snapshot = []\<rparr>"

lemma checkpoint_next:
  assumes "only_audit s" "ledger_rows ram_backend s = xs @ [(l, w)]" "\<And>q v. (q, v) \<in> set xs \<Longrightarrow> q < l"
    and "l \<noteq> u64_max"
  defines "s' \<equiv> snd (audit_checkpoint 0 ram_backend s 5)"
  shows "only_audit s' \<and> ledger_rows ram_backend s' = ledger_rows ram_backend s @
    [(l + 1, audit_encode (empty_checkpoint (l + 1) (audit_hash 0 w)))]"
proof -
  have l: "audit_last_seq ram_backend s = Some l" using assms(1-3) by (rule ram_last_seq)
  have "link_hash 0 ram_backend s (Some l) = audit_hash 0 w"
    using assms(2) by (intro ram_link [OF assms(1)]) simp
  then show ?thesis
    using checkpoint_step [OF assms(1)] assms(4)
    by (simp add: l s'_def next_seq_def saturating_inc_def empty_checkpoint_def)
qed

lemma checkpointed_rows: "\<exists>w0 w2. only_audit (checkpointed 3) \<and> ledger_rows ram_backend (checkpointed 3) =
  [(0, w0), (1, audit_encode (empty_checkpoint 1 (audit_hash 0 w0))), (2, w2)]"
proof -
  have e0: "only_audit (checkpointed 0)" "ledger_rows ram_backend (checkpointed 0) = []"
    by (simp_all add: checkpointed_def only_audit_def in_memory_new_def ram_backend_def in_memory_scan_def
        ledger_rows_def intact_ledger_def intact_chain canonical_ledger_def)
  then have l0: "audit_last_seq ram_backend (checkpointed 0) = None"
    using ram_ledger.last_seq_rows(1) by blast
  have s: "checkpointed (Suc n) = snd (audit_checkpoint 0 ram_backend (checkpointed n) 5)" for n
    by (simp add: checkpointed_def)
  from checkpoint_step [OF e0(1)] l0 e0(2) obtain w0 where c1: "only_audit (checkpointed (Suc 0))"
    "ledger_rows ram_backend (checkpointed (Suc 0)) = [] @ [(0, w0)]"
    by (simp add: s next_seq_def)
  from checkpoint_next [OF c1] have c2: "only_audit (checkpointed (Suc (Suc 0)))"
    "ledger_rows ram_backend (checkpointed (Suc (Suc 0))) =
       [(0, w0)] @ [(1, audit_encode (empty_checkpoint 1 (audit_hash 0 w0)))]"
    by (simp_all add: s [of "Suc 0"] c1(2))
  from checkpoint_next [OF c2] obtain w2 where "only_audit (checkpointed (Suc (Suc (Suc 0))))"
    "ledger_rows ram_backend (checkpointed (Suc (Suc (Suc 0)))) =
       [(0, w0), (1, audit_encode (empty_checkpoint 1 (audit_hash 0 w0))), (2, w2)]"
    by (simp add: s [of "Suc (Suc 0)"] c2(2))
  then show ?thesis by (metis numeral_3_eq_3)
qed

lemma rollback_breaks_the_chain_witness:
  "ar_chain_intact (audit_verify 0 ram_backend (checkpointed 3)) \<and>
   \<not> ar_chain_intact (audit_verify 0 ram_backend (snd (rollback_marker 0 ram_backend (checkpointed 3) 0 5)))"
proof -
  obtain w0 w2 where o: "only_audit (checkpointed 3)" and rows: "ledger_rows ram_backend (checkpointed 3) =
      [(0, w0), (1, audit_encode (empty_checkpoint 1 (audit_hash 0 w0))), (2, w2)]"
    using checkpointed_rows by blast
  have i: "bt_wf (im_map (checkpointed 3))" "intact_ledger 0 ram_backend (checkpointed 3)"
    using o by (simp_all add: only_audit_def)
  have link: "link_hash 0 ram_backend (checkpointed 3) (Some 0) = audit_hash 0 w0"
    by (rule ram_link [OF o]) (simp add: rows)
  let ?h = "AUDIT_MAGIC @ [AUDIT_VERSION] @ le_enc 8 (unat (1 :: u64)) @
     le_enc 8 (unat (audit_hash 0 w0)) @ le_enc 8 (unat (5 :: u64))"
    and ?t = "le_enc 8 (unat (0xcbf29ce484222325 :: u64)) @ le_enc 4 0"
  have a: "audit_encode (rollback_entry 0 ram_backend (checkpointed 3) 0 5) = ?h @ AUDIT_OP_ROLLBACK # ?t"
    by (simp add: rollback_entry_def audit_encode_def link only_audit_state [OF o] saturating_inc_def)
  have b: "audit_encode (empty_checkpoint 1 (audit_hash 0 w0)) = ?h @ AUDIT_OP_CHECKPOINT # ?t"
    by (simp add: empty_checkpoint_def audit_encode_def)
  have "fnv1a64_seeded FNV64_OFFSET (?h @ AUDIT_OP_ROLLBACK # ?t) \<noteq>
      fnv1a64_seeded FNV64_OFFSET (?h @ AUDIT_OP_CHECKPOINT # ?t)"
    by (rule fnv_one_byte) (simp add: AUDIT_OP_ROLLBACK_def AUDIT_OP_CHECKPOINT_def)
  then have "audit_hash 0 (audit_encode (rollback_entry 0 ram_backend (checkpointed 3) 0 5)) \<noteq>
      audit_hash 0 (audit_encode (empty_checkpoint 1 (audit_hash 0 w0)))"
    unfolding a b by (simp only: audit_hash_def audit_hasher_def hash_with.simps) simp
  from rollback_breaks_the_chain [OF i _ this, of "[(0, w0)]" 2 w2 "[]"] rows
  show ?thesis using i(2) by (auto simp: saturating_inc_def intact_ledger_def)
qed

lemma digest_merges_rows_witness:
  "state_digest 0 ram_backend \<lparr>im_map = [(ascii ''md/L3/a'', [1] @ le_enc 4 (length (ascii ''md/L3/b'')) @ ascii ''md/L3/b'' @ [2])]\<rparr> =
   state_digest 0 ram_backend \<lparr>im_map = [(ascii ''md/L3/a'', [1]), (ascii ''md/L3/b'', [2])]\<rparr>"
  by (rule digest_merges_rows) (simp_all add: audit_hasher_def ascii_def)

lemma audit_chain_stays_intact_witness:
  "ar_chain_intact (audit_verify 1 file_backend (snd (audit_forget 1 file_backend (fs_open []) (ascii ''md/L3/a'') 7 [9])))"
proof -
  let ?e = "forget_entry 1 file_backend (fs_open []) (ascii ''md/L3/a'') 7 [9]"
  have n: "audit_last_seq file_backend (fs_open []) = None"
    by (simp add: audit_last_seq_def file_backend_def fs_scan_def fs_open_empty)
  have e: "entry_fits ?e"
    by (simp add: forget_entry_def Let_def entry_fits_def item_fits_def known_op_def ascii_def utf8_valid.simps(2))
  have f: "fs_fits (audit_key (ae_seq ?e)) (audit_encode ?e)"
    by (simp add: fs_fits_def op_fits_def MAX_KLEN_def MAX_VLEN_def audit_encode_def forget_entry_def Let_def
        enc_item_def enc_str_def enc_validity_def ascii_def)
  have "ledger_run 1 file_backend fs_fits (fs_open []) (snd (audit_forget 1 file_backend (fs_open []) (ascii ''md/L3/a'') 7 [9]))"
    by (rule ledger_run.more [OF ledger_run.start ledger_step.forget]) (use n e f in simp_all)
  then show ?thesis using audit_chain_stays_intact by blast
qed

text \<open>The second of three checkpoints, made at time 5, is rewritten to say that it was made at time 6.\<close>

definition tampered :: in_memory where
  "tampered = snd (be_put ram_backend (checkpointed 3) (audit_key 1) (audit_encode
     ((empty_checkpoint 1 (link_hash 0 ram_backend (checkpointed 3) (Some 0)))\<lparr>ae_ts := 6\<rparr>)))"

lemma tampering_is_detected_witness:
  "ar_chain_intact (audit_verify 0 ram_backend (checkpointed 3)) \<and> ledger_rows ram_backend tampered \<noteq> ledger_rows ram_backend (checkpointed 3) \<and>
   length (ledger_rows ram_backend tampered) = 3 \<and> \<not> ar_chain_intact (audit_verify 0 ram_backend tampered)"
proof -
  obtain w0 w2 where o: "only_audit (checkpointed 3)" and rows: "ledger_rows ram_backend (checkpointed 3) =
      [(0, w0), (1, audit_encode (empty_checkpoint 1 (audit_hash 0 w0))), (2, w2)]"
    using checkpointed_rows by blast
  let ?good = "audit_encode (empty_checkpoint 1 (audit_hash 0 w0))"
    and ?bad = "audit_encode ((empty_checkpoint 1 (audit_hash 0 w0))\<lparr>ae_ts := 6\<rparr>)"
  have i: "bt_wf (im_map (checkpointed 3))" "intact_ledger 0 ram_backend (checkpointed 3)"
    using o by (simp_all add: only_audit_def)
  have link: "link_hash 0 ram_backend (checkpointed 3) (Some 0) = audit_hash 0 w0"
    by (rule ram_link [OF o]) (simp add: rows)
  let ?h = "AUDIT_MAGIC @ [AUDIT_VERSION] @ le_enc 8 (unat (1 :: u64)) @ le_enc 8 (unat (audit_hash 0 w0))"
    and ?t = "replicate 7 0 @ AUDIT_OP_CHECKPOINT # le_enc 8 (unat (0xcbf29ce484222325 :: u64)) @ le_enc 4 0"
  have times: "le_enc 8 5 = 5 # replicate 7 0" "le_enc 8 6 = 6 # replicate 7 0" by code_simp+
  have a: "?bad = ?h @ 6 # ?t" and b: "?good = ?h @ 5 # ?t"
    by (simp_all add: empty_checkpoint_def audit_encode_def times)
  have "fnv1a64_seeded FNV64_OFFSET (?h @ 5 # ?t) \<noteq> fnv1a64_seeded FNV64_OFFSET (?h @ 6 # ?t)"
    by (rule fnv_one_byte) simp
  then have hash: "audit_hash 0 ?good \<noteq> audit_hash 0 ?bad"
    unfolding a b by (simp only: audit_hash_def audit_hasher_def hash_with.simps) simp
  have "?bad \<noteq> []" by (simp add: audit_encode_def)
  then have new: "ledger_rows ram_backend tampered = [(0, w0), (1, ?bad), (2, w2)]"
    using ram_ledger.replace_breaks [OF i, of "[(0, w0)]" 1 ?good 2 w2 "[]" ?bad] rows hash
    by (simp add: tampered_def link)
  have differ: "?good \<noteq> ?bad" using hash by metis
  have "ar_chain_intact (audit_verify 0 ram_backend (checkpointed 3))" using i(2) by (simp add: intact_ledger_def)
  moreover have "\<not> ar_chain_intact (audit_verify 0 ram_backend tampered)"
  proof (rule tampering_is_detected [OF calculation])
    fix i assume "i < length (ledger_rows ram_backend (checkpointed 3))"
      "snd (ledger_rows ram_backend (checkpointed 3) ! i) \<noteq> snd (ledger_rows ram_backend tampered ! i)"
    then have "i = 1" unfolding rows new by (auto simp: less_Suc_eq)
    then show "audit_hash 0 (snd (ledger_rows ram_backend (checkpointed 3) ! i)) \<noteq>
        audit_hash 0 (snd (ledger_rows ram_backend tampered ! i))"
      unfolding rows new using hash by simp
  qed (simp_all only: rows new, use differ in auto)
  ultimately show ?thesis unfolding rows new using differ by simp
qed

lemma digests_agree_witness:
  "state_digest 0 file_backend (fs_open []) = state_digest 0 ram_backend in_memory_new"
  using digests_agree [of in_memory_new "fs_open []" "tv_open []" 0] fs_inv_empty
    tv_reachable_inv [OF tv_reachable.init]
  by (simp add: in_memory_new_def fs_open_empty tv_empty_map)

lemma forget_leaves_evidence_witness:
  "\<exists>s' w e. audit_forget 0 tickv_backend (tv_open []) (ascii ''md/L3/a'') 7 [9] = (Inr 0, s') \<and>
     ledger_rows tickv_backend s' = [(0, w)] \<and> audit_decode w = Inr e \<and>
     map si_sk (ae_snapshot e) = [ascii ''md/L3/a'']"
proof -
  let ?s = "tv_open []"
  let ?e = "forget_entry 0 tickv_backend ?s (ascii ''md/L3/a'') 7 [9]"
  have i: "tv_inv ?s" by (rule tv_reachable_inv [OF tv_reachable.init])
  have z: "be_scan tickv_backend ?s AUDIT_PREFIX = []"
    by (simp add: tickv_backend_def tv_scan_prefix_def tv_empty_map)
  then have n: "audit_last_seq tickv_backend ?s = None" "ledger_rows tickv_backend ?s = []"
    by (simp_all add: audit_last_seq_def ledger_rows_def)
  have e: "entry_fits ?e"
    by (simp add: forget_entry_def Let_def entry_fits_def item_fits_def known_op_def ascii_def utf8_valid.simps(2))
  have l: "length (audit_encode ?e) \<le> MAX_VLEN"
    by (simp add: MAX_VLEN_def audit_encode_def forget_entry_def Let_def enc_item_def enc_str_def
        enc_validity_def ascii_def)
  have f: "tv_fits (audit_key (next_seq (audit_last_seq tickv_backend ?s))) (audit_encode ?e)"
    using tv_fits_audit l by (simp add: tv_fits_def op_fits_def)
  show ?thesis
    using forget_leaves_evidence [OF i tickv_ledger.empty_intact [OF i z] _ e f]
    by (fastforce simp: n next_seq_def)
qed

lemma audit_entries_total_witness: "audit_entries ram_backend in_memory_new 0 0 = Inr []"
proof -
  have n: "audit_last_seq ram_backend in_memory_new = None"
    by (simp add: audit_last_seq_def ram_backend_def in_memory_scan_def in_memory_new_def)
  then show ?thesis
    using audit_entries_total [of ram_backend in_memory_new 0]
    by (simp add: unwrap_or_def entry_at_def ram_backend_def in_memory_get_def in_memory_new_def)
qed

end
