(* ===== verification/Art_Node.thy ===== *)
theory Art_Node
  imports Sgdb_Prelude
begin

text \<open>
  The nodes of the adaptive radix tree (\<open>src/src/art.rs\<close>): leaves and inner nodes of four widths,
  each a map from a byte to a child behind a compressed prefix.  The arrays are lists of their
  fixed length, the slots beyond the count \<open>n\<close> are unused.  The lemmas show that the four widths,
  growing and shrinking between them, are one finite map from bytes to children.
\<close>

section \<open>Nodes\<close>

datatype node =
    Leaf bytes u64
  | Inner4 bytes "u8 list" "node option list" nat
  | Inner16 bytes "u8 list" "node option list" nat
  | Inner48 bytes "u8 list" "node option list" nat
  | Inner256 bytes "node option list" nat

fun node_prefix :: "node \<Rightarrow> bytes" where
  "node_prefix (Leaf k v) = []"
| "node_prefix (Inner4 p keys ch n) = p"
| "node_prefix (Inner16 p keys ch n) = p"
| "node_prefix (Inner48 p keys ch n) = p"
| "node_prefix (Inner256 p ch n) = p"

fun with_prefix :: "bytes \<Rightarrow> node \<Rightarrow> node" where
  "with_prefix q (Leaf k v) = Leaf k v"
| "with_prefix q (Inner4 p keys ch n) = Inner4 q keys ch n"
| "with_prefix q (Inner16 p keys ch n) = Inner16 q keys ch n"
| "with_prefix q (Inner48 p keys ch n) = Inner48 q keys ch n"
| "with_prefix q (Inner256 p ch n) = Inner256 q ch n"

fun count :: "node \<Rightarrow> nat" where
  "count (Leaf k v) = 0"
| "count (Inner4 p keys ch n) = n"
| "count (Inner16 p keys ch n) = n"
| "count (Inner48 p keys ch n) = n"
| "count (Inner256 p ch n) = n"

fun kids :: "node \<Rightarrow> node option list" where
  "kids (Leaf k v) = []"
| "kids (Inner4 p keys ch n) = ch"
| "kids (Inner16 p keys ch n) = ch"
| "kids (Inner48 p keys ch n) = ch"
| "kids (Inner256 p ch n) = ch"

text \<open>An element of a children array; the invariant keeps every index in its range.\<close>

definition slot_of :: "'a option list \<Rightarrow> nat \<Rightarrow> 'a option" where
  "slot_of ch i = (if i < length ch then ch ! i else None)"

section \<open>Searching a node\<close>

definition find_byte :: "u8 list \<Rightarrow> nat \<Rightarrow> u8 \<Rightarrow> nat option" where
  "find_byte keys n b = position (\<lambda>k. k = b) (take n keys)"

text \<open>
  The SSE2 search of a 16-way node: \<open>_mm_cmpeq_epi8\<close> and \<open>_mm_movemask_epi8\<close> give a word with bit
  \<open>i\<close> set where \<open>keys[i] == byte\<close>; the bits of unused slots are masked off and the lowest one
  counts.
\<close>

definition movemask :: "u8 list \<Rightarrow> u8 \<Rightarrow> u32" where
  "movemask keys b = fold (\<lambda>i w. if keys ! i = b then Bit_Operations.set_bit i w else w) [0..<16] 0"

definition trailing_zeros :: "u32 \<Rightarrow> nat" where
  "trailing_zeros w = (case position (bit w) [0..<32] of Some i \<Rightarrow> i | None \<Rightarrow> 32)"

definition find_child_byte16_sse :: "u8 list \<Rightarrow> nat \<Rightarrow> u8 \<Rightarrow> nat option" where
  "find_child_byte16_sse keys n b =
     (let mask = push_bit n 1 - 1; bitfield = Bit_Operations.and (movemask keys b) mask
      in if bitfield = 0 then None else Some (trailing_zeros bitfield))"

definition find_child_byte16 :: "bool \<Rightarrow> u8 list \<Rightarrow> nat \<Rightarrow> u8 \<Rightarrow> nat option" where
  "find_child_byte16 avx2 keys n b =
     (if n = 0 then None
      else if avx2 then find_child_byte16_sse keys n b
      else find_byte keys n b)"

text \<open>The child under a byte, as \<open>get\<close> looks it up.\<close>

fun child_of :: "bool \<Rightarrow> node \<Rightarrow> u8 \<Rightarrow> node option" where
  "child_of avx2 (Leaf k v) b = None"
| "child_of avx2 (Inner4 p keys ch n) b =
     (case find_byte keys n b of Some i \<Rightarrow> slot_of ch i | None \<Rightarrow> None)"
| "child_of avx2 (Inner16 p keys ch n) b =
     (case find_child_byte16 avx2 keys n b of Some i \<Rightarrow> slot_of ch i | None \<Rightarrow> None)"
| "child_of avx2 (Inner48 p keys ch n) b =
     (if keys ! unat b = 0 then None else slot_of ch (unat (keys ! unat b) - 1))"
| "child_of avx2 (Inner256 p ch n) b = slot_of ch (unat b)"

text \<open>The slot that \<open>insert_rec\<close> and \<open>delete_rec\<close> descend into.\<close>

fun find_slot :: "node \<Rightarrow> u8 \<Rightarrow> nat option" where
  "find_slot (Leaf k v) b = None"
| "find_slot (Inner4 p keys ch n) b = find_byte keys n b"
| "find_slot (Inner16 p keys ch n) b = find_byte keys n b"
| "find_slot (Inner48 p keys ch n) b =
     (if keys ! unat b \<noteq> 0 then Some (unat (keys ! unat b) - 1) else None)"
| "find_slot (Inner256 p ch n) b = (if slot_of ch (unat b) \<noteq> None then Some (unat b) else None)"

fun put_slot :: "node \<Rightarrow> nat \<Rightarrow> node \<Rightarrow> node" where
  "put_slot (Leaf k v) i c = Leaf k v"
| "put_slot (Inner4 p keys ch n) i c = Inner4 p keys (ch[i := Some c]) n"
| "put_slot (Inner16 p keys ch n) i c = Inner16 p keys (ch[i := Some c]) n"
| "put_slot (Inner48 p keys ch n) i c = Inner48 p keys (ch[i := Some c]) n"
| "put_slot (Inner256 p ch n) i c = Inner256 p (ch[i := Some c]) n"

section \<open>Adding a child\<close>

definition grow16 :: "bytes \<Rightarrow> u8 list \<Rightarrow> node option list \<Rightarrow> u8 \<Rightarrow> node \<Rightarrow> node" where
  "grow16 p keys ch b c =
     Inner16 p (take 4 keys @ b # replicate 11 0) (take 4 ch @ Some c # replicate 11 None) 5"

definition grow48 :: "bytes \<Rightarrow> u8 list \<Rightarrow> node option list \<Rightarrow> u8 \<Rightarrow> node \<Rightarrow> node" where
  "grow48 p keys ch b c =
     Inner48 p ((fold (\<lambda>i k48. k48[unat (keys ! i) := of_nat i + 1]) [0..<16] (replicate 256 0))[unat b := 17])
       (take 16 ch @ Some c # replicate 31 None) 17"

definition grow256 :: "bytes \<Rightarrow> u8 list \<Rightarrow> node option list \<Rightarrow> u8 \<Rightarrow> node \<Rightarrow> node" where
  "grow256 p keys ch b c =
     Inner256 p ((map (\<lambda>byte. let i = keys ! byte in if i \<noteq> 0 then slot_of ch (unat i - 1) else None)
       [0..<256])[unat b := Some c]) 49"

fun add_child :: "node \<Rightarrow> u8 \<Rightarrow> node \<Rightarrow> node" where
  "add_child (Leaf k v) b c = Leaf k v"
| "add_child (Inner4 p keys ch n) b c =
     (if n < 4 then Inner4 p (keys[n := b]) (ch[n := Some c]) (n + 1) else grow16 p keys ch b c)"
| "add_child (Inner16 p keys ch n) b c =
     (if n < 16 then Inner16 p (keys[n := b]) (ch[n := Some c]) (n + 1) else grow48 p keys ch b c)"
| "add_child (Inner48 p keys ch n) b c =
     (if n < 48 then Inner48 p (keys[unat b := of_nat (n + 1)]) (ch[n := Some c]) (n + 1)
      else grow256 p keys ch b c)"
| "add_child (Inner256 p ch n) b c = Inner256 p (ch[unat b := Some c]) (n + 1)"

section \<open>Removing a child\<close>

text \<open>The loop that closes the gap: each later key and child moves one slot down.\<close>

definition close_gap :: "nat \<Rightarrow> nat \<Rightarrow> 'a list \<Rightarrow> 'a list" where
  "close_gap i n xs = fold (\<lambda>j ys. ys[j := ys ! (j + 1)]) [i..<n - 1] xs"

fun drop_child :: "node \<Rightarrow> u8 \<Rightarrow> nat \<Rightarrow> node" where
  "drop_child (Leaf k v) b i = Leaf k v"
| "drop_child (Inner4 p keys ch n) b i =
     Inner4 p (close_gap i n keys) ((close_gap i n ch)[n - 1 := None]) (n - 1)"
| "drop_child (Inner16 p keys ch n) b i =
     Inner16 p (close_gap i n keys) ((close_gap i n ch)[n - 1 := None]) (n - 1)"
| "drop_child (Inner48 p keys ch n) b i =
     (let final = n - 1;
          ch1 = (if i \<noteq> final then ch[i := ch ! final] else ch);
          keys1 = (if i \<noteq> final then
              (case position (\<lambda>k. k = of_nat final + 1) keys of
                 Some lb \<Rightarrow> keys[lb := keys ! unat b] | None \<Rightarrow> keys)
            else keys)
      in Inner48 p (keys1[unat b := 0]) (ch1[final := None]) (n - 1))"
| "drop_child (Inner256 p ch n) b i = Inner256 p (ch[i := None]) (n - 1)"

text \<open>\<open>256 \<rightarrow> 48 \<rightarrow> 16 \<rightarrow> 4\<close>, the children in byte order.\<close>

definition shrink4 :: "bytes \<Rightarrow> u8 list \<Rightarrow> node option list \<Rightarrow> nat \<Rightarrow> node" where
  "shrink4 p keys ch n =
     Inner4 p (take n keys @ replicate (4 - n) 0) (take n ch @ replicate (4 - n) None) n"

definition used_bytes48 :: "u8 list \<Rightarrow> nat list" where
  "used_bytes48 keys = filter (\<lambda>byte. keys ! byte \<noteq> 0) [0..<256]"

definition shrink16 :: "bytes \<Rightarrow> u8 list \<Rightarrow> node option list \<Rightarrow> node" where
  "shrink16 p keys ch =
     (let bs = used_bytes48 keys; m = length bs
      in Inner16 p (map of_nat bs @ replicate (16 - m) 0)
           (map (\<lambda>byte. slot_of ch (unat (keys ! byte) - 1)) bs @ replicate (16 - m) None) m)"

definition used_bytes256 :: "node option list \<Rightarrow> nat list" where
  "used_bytes256 ch = filter (\<lambda>byte. ch ! byte \<noteq> None) [0..<256]"

definition shrink48 :: "bytes \<Rightarrow> node option list \<Rightarrow> node" where
  "shrink48 p ch =
     (let bs = used_bytes256 ch; m = length bs
      in Inner48 p (fold (\<lambda>j k48. k48[bs ! j := of_nat j + 1]) [0..<m] (replicate 256 0))
           (map (\<lambda>byte. ch ! byte) bs @ replicate (48 - m) None) m)"

text \<open>What an inner node becomes after a deletion below it: nothing, a narrower node, or itself.\<close>

fun settle :: "node \<Rightarrow> node option" where
  "settle (Leaf k v) = Some (Leaf k v)"
| "settle (Inner4 p keys ch n) = (if n = 0 then None else Some (Inner4 p keys ch n))"
| "settle (Inner16 p keys ch n) =
     (if n = 0 then None else if n \<le> 4 then Some (shrink4 p keys ch n) else Some (Inner16 p keys ch n))"
| "settle (Inner48 p keys ch n) =
     (if n = 0 then None else if n \<le> 16 then Some (shrink16 p keys ch) else Some (Inner48 p keys ch n))"
| "settle (Inner256 p ch n) =
     (if n = 0 then None else if n \<le> 48 then Some (shrink48 p ch) else Some (Inner256 p ch n))"

text \<open>The narrow nodes return unchanged when the byte is not there, the wide ones go on to shrink.\<close>

fun after_miss :: "node \<Rightarrow> node option" where
  "after_miss (Inner48 p keys ch n) = settle (Inner48 p keys ch n)"
| "after_miss (Inner256 p ch n) = settle (Inner256 p ch n)"
| "after_miss nd = Some nd"

section \<open>Traversal\<close>

text \<open>The children in the order in which a scan visits them, with their bytes.\<close>

definition pairs_of :: "(u8 \<times> node option) list \<Rightarrow> (u8 \<times> node) list" where
  "pairs_of xs = concat (map (\<lambda>(b, c). case c of Some c \<Rightarrow> [(b, c)] | None \<Rightarrow> []) xs)"

fun entries :: "node \<Rightarrow> (u8 \<times> node) list" where
  "entries (Leaf k v) = []"
| "entries (Inner4 p keys ch n) = pairs_of (map (\<lambda>i. (keys ! i, slot_of ch i)) [0..<n])"
| "entries (Inner16 p keys ch n) = pairs_of (map (\<lambda>i. (keys ! i, slot_of ch i)) [0..<n])"
| "entries (Inner48 p keys ch n) =
     pairs_of (map (\<lambda>byte. (of_nat byte, slot_of ch (unat (keys ! byte) - 1))) (used_bytes48 keys))"
| "entries (Inner256 p ch n) = pairs_of (map (\<lambda>byte. (of_nat byte, slot_of ch byte)) [0..<256])"

section \<open>The SSE2 search is the search\<close>

lemma position_Some_iff:
  "position P xs = Some i \<longleftrightarrow> i < length xs \<and> P (xs ! i) \<and> (\<forall>j < i. \<not> P (xs ! j))"
proof (induction xs arbitrary: i)
  case Nil
  then show ?case by simp
next
  case (Cons x xs)
  show ?case
  proof (cases i)
    case 0
    then show ?thesis by (auto split: if_splits)
  next
    case (Suc k)
    then show ?thesis using Cons.IH [of k] by (auto simp: less_Suc_eq_0_disj)
  qed
qed

lemma find_byte_Some:
  "n \<le> length keys \<Longrightarrow> find_byte keys n b = Some i \<longleftrightarrow> i < n \<and> keys ! i = b \<and> (\<forall>j < i. keys ! j \<noteq> b)"
  by (auto simp: find_byte_def position_Some_iff)

lemma find_byte_None: "n \<le> length keys \<Longrightarrow> find_byte keys n b = None \<longleftrightarrow> (\<forall>i < n. keys ! i \<noteq> b)"
  unfolding find_byte_def position_None_iff all_set_conv_all_nth by auto

lemma bit_fold_set:
  "bit (fold (\<lambda>i w. if P i then Bit_Operations.set_bit i w else w) is (w :: u32)) j \<longleftrightarrow>
     bit w j \<or> (j \<in> set is \<and> P j \<and> j < 32)"
proof (induction "is" arbitrary: w)
  case Nil
  then show ?case by simp
next
  case (Cons i "is")
  then show ?case by (auto simp: bit_set_bit_iff)
qed

lemma bit_movemask: "bit (movemask keys b) j \<longleftrightarrow> j < 16 \<and> keys ! j = b"
  by (auto simp: movemask_def bit_fold_set)

lemma bit_low_mask: "n \<le> 16 \<Longrightarrow> bit (2 ^ n - 1 :: u32) j \<longleftrightarrow> j < n"
  unfolding mask_eq_exp_minus_1 [symmetric] by (auto simp: bit_mask_iff)

lemma sse_is_scan:
  assumes "length keys = 16" "n \<le> 16"
  shows "find_child_byte16_sse keys n b = find_byte keys n b"
proof -
  let ?w = "Bit_Operations.and (movemask keys b) (2 ^ n - 1)"
  have bit: "bit ?w j \<longleftrightarrow> j < n \<and> keys ! j = b" for j
    using assms(2) by (auto simp: bit_and_iff bit_movemask bit_low_mask)
  show ?thesis
  proof (cases "find_byte keys n b")
    case None
    then have "\<not> bit ?w j" for j using find_byte_None [of n keys b] assms bit [of j] by auto
    then have "?w = 0" by (simp add: bit_eq_iff)
    then show ?thesis using None by (simp add: find_child_byte16_sse_def push_bit_eq_mult)
  next
    case (Some i)
    then have i: "i < n" "keys ! i = b" "\<forall>j < i. keys ! j \<noteq> b" using find_byte_Some [of n keys b i] assms by auto
    then have "bit ?w i" using bit by simp
    then have "?w \<noteq> 0" by auto
    moreover have "position (bit ?w) [0..<32] = Some i"
      unfolding position_Some_iff using i bit assms(2) by simp
    ultimately show ?thesis using Some by (simp add: find_child_byte16_sse_def trailing_zeros_def push_bit_eq_mult)
  qed
qed

section \<open>One map from bytes to children\<close>

definition narrow_ok :: "nat \<Rightarrow> u8 list \<Rightarrow> node option list \<Rightarrow> nat \<Rightarrow> bool" where
  "narrow_ok cap keys ch n \<longleftrightarrow> length keys = cap \<and> length ch = cap \<and> n \<le> cap \<and>
     distinct (take n keys) \<and> None \<notin> set (take n ch)"

definition ok48 :: "u8 list \<Rightarrow> node option list \<Rightarrow> nat \<Rightarrow> bool" where
  "ok48 keys ch n \<longleftrightarrow> length keys = 256 \<and> length ch = 48 \<and> n \<le> 48 \<and>
     (\<forall>b < 256. unat (keys ! b) \<le> n) \<and>
     (\<forall>b < 256. \<forall>c < 256. keys ! b = keys ! c \<and> keys ! b \<noteq> 0 \<longrightarrow> b = c) \<and>
     (\<forall>i < n. \<exists>b < 256. unat (keys ! b) = Suc i) \<and> (\<forall>i < n. ch ! i \<noteq> None)"

definition ok256 :: "node option list \<Rightarrow> nat \<Rightarrow> bool" where
  "ok256 ch n \<longleftrightarrow> length ch = 256 \<and> n = length (used_bytes256 ch)"

fun node_ok :: "node \<Rightarrow> bool" where
  "node_ok (Leaf k v) = True"
| "node_ok (Inner4 p keys ch n) = narrow_ok 4 keys ch n"
| "node_ok (Inner16 p keys ch n) = narrow_ok 16 keys ch n"
| "node_ok (Inner48 p keys ch n) = ok48 keys ch n"
| "node_ok (Inner256 p ch n) = ok256 ch n"

fun inner :: "node \<Rightarrow> bool" where
  "inner (Leaf k v) = False"
| "inner nd = True"

abbreviation child :: "node \<Rightarrow> u8 \<Rightarrow> node option" where
  "child \<equiv> child_of False"

lemma child_of_avx2: "node_ok nd \<Longrightarrow> child_of avx2 nd b = child nd b"
  by (cases nd) (auto simp: find_child_byte16_def sse_is_scan narrow_ok_def)

definition narrow_child :: "u8 list \<Rightarrow> node option list \<Rightarrow> nat \<Rightarrow> u8 \<Rightarrow> node option" where
  "narrow_child keys ch n b = (case find_byte keys n b of Some i \<Rightarrow> slot_of ch i | None \<Rightarrow> None)"

lemma child_simps [simp]:
  "child (Inner4 p keys ch n) = narrow_child keys ch n"
  "child (Inner16 p keys ch n) = narrow_child keys ch n"
proof -
  have "find_byte keys 0 b = None" for b by (simp add: find_byte_def)
  then show "child (Inner4 p keys ch n) = narrow_child keys ch n"
    "child (Inner16 p keys ch n) = narrow_child keys ch n"
    by (auto simp: fun_eq_iff narrow_child_def find_child_byte16_def)
qed

text \<open>A narrow node is the association list of its used slots.\<close>

definition narrow_list :: "u8 list \<Rightarrow> node option list \<Rightarrow> nat \<Rightarrow> (u8 \<times> node) list" where
  "narrow_list keys ch n = zip (take n keys) (map the (take n ch))"

lemma narrow_map: "narrow_ok cap keys ch n \<Longrightarrow> narrow_child keys ch n = map_of (narrow_list keys ch n)"
proof
  fix b assume a: "narrow_ok cap keys ch n"
  have some: "ch ! i \<noteq> None" if "i < n" for i
    using a that by (auto simp: narrow_ok_def in_set_conv_nth)
  show "narrow_child keys ch n b = map_of (narrow_list keys ch n) b"
  proof (cases "find_byte keys n b")
    case None
    then show ?thesis using a
      by (simp add: narrow_child_def narrow_list_def position_zip find_byte_def narrow_ok_def)
  next
    case (Some i)
    then have "i < n" using a find_byte_Some [of n keys b i] by (auto simp: narrow_ok_def)
    then show ?thesis using Some a some [of i]
      by (auto simp: narrow_child_def narrow_list_def position_zip find_byte_def narrow_ok_def slot_of_def)
  qed
qed

lemma narrow_list_fst: "narrow_ok cap keys ch n \<Longrightarrow> map fst (narrow_list keys ch n) = take n keys"
  by (simp add: narrow_list_def narrow_ok_def)

lemma narrow_None: "narrow_ok cap keys ch n \<Longrightarrow> narrow_child keys ch n b = None \<longleftrightarrow> b \<notin> set (take n keys)"
proof -
  assume a: "narrow_ok cap keys ch n"
  have "set (take n keys) = fst ` set (narrow_list keys ch n)" using narrow_list_fst [OF a] by (metis set_map)
  then show ?thesis by (simp add: narrow_map [OF a] map_of_eq_None_iff)
qed

text \<open>Only the used slots matter.\<close>

lemma narrow_same:
  assumes "narrow_ok cap keys ch n" "length keys' = cap'" "length ch' = cap'" "n \<le> cap'"
    and "take n keys' = take n keys" "take n ch' = take n ch"
  shows "narrow_ok cap' keys' ch' n \<and> narrow_child keys' ch' n = narrow_child keys ch n"
proof -
  have ok: "narrow_ok cap' keys' ch' n" using assms by (simp add: narrow_ok_def)
  then show ?thesis using assms by (simp add: narrow_map [OF ok] narrow_map [OF assms(1)] narrow_list_def)
qed

lemma narrow_add:
  assumes "narrow_ok cap keys ch n" "length keys' = cap'" "length ch' = cap'" "Suc n \<le> cap'"
    and "take (Suc n) keys' = take n keys @ [b]" "take (Suc n) ch' = take n ch @ [Some c]"
    and "narrow_child keys ch n b = None"
  shows "narrow_ok cap' keys' ch' (Suc n) \<and>
    narrow_child keys' ch' (Suc n) = (narrow_child keys ch n)(b \<mapsto> c)"
proof -
  have b: "b \<notin> set (take n keys)" using narrow_None [OF assms(1)] assms(7) by simp
  have ok: "narrow_ok cap' keys' ch' (Suc n)" using assms b by (simp add: narrow_ok_def)
  have "narrow_list keys' ch' (Suc n) = narrow_list keys ch n @ [(b, c)]"
    using assms(1,5,6) by (simp add: narrow_list_def narrow_ok_def)
  moreover have "map_of (narrow_list keys ch n) b = None"
    using assms(7) by (simp add: narrow_map [OF assms(1)])
  ultimately have "narrow_child keys' ch' (Suc n) = (map_of (narrow_list keys ch n))(b \<mapsto> c)"
    unfolding narrow_map [OF ok] by (auto simp: map_add_def fun_eq_iff split: option.split)
  then show ?thesis using ok by (simp add: narrow_map [OF assms(1)])
qed

lemma map_of_zip_update:
  "distinct ks \<Longrightarrow> length ks = length cs \<Longrightarrow> i < length ks \<Longrightarrow>
   map_of (zip ks (cs[i := c])) = (map_of (zip ks cs))(ks ! i \<mapsto> c)"
proof (induction ks cs arbitrary: i rule: list_induct2')
  case (4 k ks x cs)
  then show ?case by (cases i) (auto simp: fun_eq_iff)
qed simp_all

lemma map_of_zip_remove:
  "distinct ks \<Longrightarrow> length ks = length cs \<Longrightarrow> i < length ks \<Longrightarrow>
   map_of (zip (take i ks @ drop (Suc i) ks) (take i cs @ drop (Suc i) cs)) = (map_of (zip ks cs))(ks ! i := None)"
proof (induction ks cs arbitrary: i rule: list_induct2')
  case (4 k ks x cs)
  show ?case
  proof (cases i)
    case 0
    then have "k \<notin> set ks" using 4 by simp
    then have "map_of (zip ks cs) k = None" by (auto simp: map_of_eq_None_iff dest: set_zip_leftD)
    then show ?thesis using 0 by (auto simp: fun_eq_iff)
  next
    case (Suc j)
    then show ?thesis using 4 by (auto simp: fun_eq_iff)
  qed
qed simp_all

lemma narrow_find:
  assumes "narrow_ok cap keys ch n" "find_byte keys n b = Some i"
  shows "i < n \<and> keys ! i = b \<and> (\<exists>c. ch ! i = Some c \<and> slot_of ch i = Some c \<and> narrow_child keys ch n b = Some c)"
proof -
  have i: "i < n" "keys ! i = b" using assms find_byte_Some [of n keys b i] by (auto simp: narrow_ok_def)
  then have "ch ! i \<noteq> None" using assms(1) by (auto simp: narrow_ok_def in_set_conv_nth)
  then show ?thesis using i assms by (auto simp: narrow_child_def slot_of_def narrow_ok_def)
qed

lemma narrow_put:
  assumes "narrow_ok cap keys ch n" "find_byte keys n b = Some i"
  shows "narrow_ok cap keys (ch[i := Some c]) n \<and>
    narrow_child keys (ch[i := Some c]) n = (narrow_child keys ch n)(b \<mapsto> c)"
proof -
  note i = narrow_find [OF assms]
  have ok: "narrow_ok cap keys (ch[i := Some c]) n"
    using assms(1) i set_update_subset_insert [of "take n ch" i "Some c"]
    by (auto simp: narrow_ok_def take_update_swap)
  have "narrow_list keys (ch[i := Some c]) n = zip (take n keys) ((map the (take n ch))[i := c])"
    by (simp add: narrow_list_def take_update_swap map_update)
  then show ?thesis
    using ok i assms(1) map_of_zip_update [of "take n keys" "map the (take n ch)" i c]
    by (simp add: narrow_map [OF ok] narrow_map [OF assms(1)]) (simp add: narrow_list_def narrow_ok_def)
qed

lemma close_gap_steps:
  "i \<le> m \<Longrightarrow> m < length xs \<Longrightarrow> fold (\<lambda>j ys. ys[j := ys ! (j + 1)]) [i..<m] xs =
     take i xs @ drop (Suc i) (take (Suc m) xs) @ drop m xs"
proof (induction m rule: dec_induct)
  case base
  then show ?case by simp
next
  case (step m)
  obtain as where as: "as = take i xs @ drop (Suc i) (take (Suc m) xs)" by blast
  have l: "length as = m" using step by (simp add: as)
  have dm: "drop m xs = xs ! m # xs ! Suc m # drop (Suc (Suc m)) xs"
    using step by (simp add: Cons_nth_drop_Suc)
  have "(as @ drop m xs) ! (m + 1) = xs ! Suc m"
    using nth_append_length_plus [of as "drop m xs" 1] unfolding l dm by simp
  then have "(as @ drop m xs)[m := (as @ drop m xs) ! (m + 1)] = as @ xs ! Suc m # xs ! Suc m # drop (Suc (Suc m)) xs"
    using l by (simp add: list_update_append) (simp add: dm)
  also have "\<dots> = (as @ [xs ! Suc m]) @ drop (Suc m) xs"
    using step by (simp add: Cons_nth_drop_Suc)
  also have "as @ [xs ! Suc m] = take i xs @ drop (Suc i) (take (Suc (Suc m)) xs)"
    using step by (simp add: as take_Suc_conv_app_nth [of "Suc m"])
  finally show ?case using step by (simp add: as)
qed

lemma close_gap:
  assumes "i < n" "n \<le> length xs"
  shows "length (close_gap i n xs) = length xs" "take (n - 1) (close_gap i n xs) = take i (take n xs) @ drop (Suc i) (take n xs)"
proof -
  have e: "close_gap i n xs = take i xs @ drop (Suc i) (take n xs) @ drop (n - 1) xs"
    using close_gap_steps [of i "n - 1" xs] assms by (simp add: close_gap_def)
  show "length (close_gap i n xs) = length xs" using assms unfolding e by simp
  show "take (n - 1) (close_gap i n xs) = take i (take n xs) @ drop (Suc i) (take n xs)"
    using assms unfolding e by (cases "i = n - 1") (auto simp: min_def)
qed

lemma narrow_drop:
  assumes "narrow_ok cap keys ch n" "find_byte keys n b = Some i"
  shows "narrow_ok cap (close_gap i n keys) ((close_gap i n ch)[n - 1 := None]) (n - 1) \<and>
    narrow_child (close_gap i n keys) ((close_gap i n ch)[n - 1 := None]) (n - 1) =
      (narrow_child keys ch n)(b := None)"
proof -
  note i = narrow_find [OF assms]
  have len: "n \<le> length keys" "n \<le> length ch" using assms(1) by (auto simp: narrow_ok_def)
  let ?ks = "take n keys" and ?cs = "take n ch"
  have ks: "take (n - 1) (close_gap i n keys) = take i ?ks @ drop (Suc i) ?ks"
    using close_gap(2) len i by blast
  have cs: "take (n - 1) ((close_gap i n ch)[n - 1 := None]) = take i ?cs @ drop (Suc i) ?cs"
    using close_gap(2) [of i n ch] len i by simp
  have d: "distinct (take i ?ks @ drop (Suc i) ?ks)"
    using assms(1) set_take_disj_set_drop_if_distinct [of ?ks i "Suc i"]
      distinct_take [of ?ks i] distinct_drop [of ?ks "Suc i"]
    by (simp add: narrow_ok_def del: take_take)
  have "set (take i ?cs @ drop (Suc i) ?cs) \<subseteq> set ?cs"
    using set_take_subset [of i ?cs] set_drop_subset [of "Suc i" ?cs] by (simp del: take_take)
  then have ok: "narrow_ok cap (close_gap i n keys) ((close_gap i n ch)[n - 1 := None]) (n - 1)"
    using assms(1) d i close_gap(1) [of i n keys] close_gap(1) [of i n ch] len
    unfolding narrow_ok_def ks cs by auto
  have e: "narrow_list (close_gap i n keys) ((close_gap i n ch)[n - 1 := None]) (n - 1) =
      zip (take i ?ks @ drop (Suc i) ?ks) (take i (map the ?cs) @ drop (Suc i) (map the ?cs))"
    unfolding narrow_list_def ks cs by (simp add: take_map drop_map)
  have "map_of (zip (take i ?ks @ drop (Suc i) ?ks) (take i (map the ?cs) @ drop (Suc i) (map the ?cs))) =
      (map_of (narrow_list keys ch n))(b := None)"
    unfolding narrow_list_def using i assms(1)
    by (subst map_of_zip_remove) (simp_all add: narrow_ok_def)
  then show ?thesis
    using ok unfolding narrow_map [OF ok] narrow_map [OF assms(1)] e by blast
qed

section \<open>The 48-way node\<close>

definition child48 :: "u8 list \<Rightarrow> node option list \<Rightarrow> u8 \<Rightarrow> node option" where
  "child48 keys ch b = (if keys ! unat b = 0 then None else slot_of ch (unat (keys ! unat b) - 1))"

lemma child_48 [simp]: "child (Inner48 p keys ch n) = child48 keys ch"
  by (auto simp: fun_eq_iff child48_def)

lemma unat_of_byte [simp]: "b < 256 \<Longrightarrow> unat (of_nat b :: u8) = b"
  by (simp add: unat_of_nat)

lemma byte_nonzero: "(x :: u8) \<noteq> 0 \<longleftrightarrow> 0 < unat x"
  by (simp add: unat_gt_0)

lemma byte_eq_Suc: "i < 255 \<Longrightarrow> (x :: u8) = of_nat i + 1 \<longleftrightarrow> unat x = Suc i"
proof -
  assume "i < 255"
  then have "unat (of_nat (Suc i) :: u8) = Suc i" by (intro unat_of_byte) simp
  then show ?thesis by (metis of_nat_Suc add.commute word_unat_eq_iff)
qed

lemma ok48_slot:
  assumes "ok48 keys ch n" "keys ! unat b \<noteq> 0"
  shows "unat (keys ! unat b) - 1 < n \<and>
    (\<exists>c. slot_of ch (unat (keys ! unat b) - 1) = Some c \<and> child48 keys ch b = Some c)"
proof -
  have b: "unat b < 256" by simp
  then have "unat (keys ! unat b) \<le> n" using assms(1) by (simp add: ok48_def)
  moreover have "0 < unat (keys ! unat b)" using assms(2) by (simp add: byte_nonzero)
  ultimately have "unat (keys ! unat b) - 1 < n" by simp
  then show ?thesis using assms by (auto simp: ok48_def child48_def slot_of_def)
qed

lemma ok48_None: "ok48 keys ch n \<Longrightarrow> child48 keys ch b = None \<longleftrightarrow> keys ! unat b = 0"
  using ok48_slot [of keys ch n b] by (auto simp: child48_def)

lemma ok48D_inj: "ok48 keys ch n \<Longrightarrow> a < 256 \<Longrightarrow> d < 256 \<Longrightarrow> keys ! a = keys ! d \<Longrightarrow> keys ! a \<noteq> 0 \<Longrightarrow> a = d"
  unfolding ok48_def by blast

lemma ok48_inj:
  assumes "ok48 keys ch n" "keys ! unat a \<noteq> 0" "unat (keys ! unat a) - 1 = unat (keys ! unat b) - 1" "keys ! unat b \<noteq> 0"
  shows "a = (b :: u8)"
proof -
  have "unat (keys ! unat a) = unat (keys ! unat b)" using assms(2-4) by (simp add: byte_nonzero)
  then have "keys ! unat a = keys ! unat b" by (simp add: word_unat_eq_iff)
  then have "unat a = unat b" using assms(1,2) unat_byte_less [of a] unat_byte_less [of b] unfolding ok48_def by blast
  then show ?thesis by (simp add: word_unat_eq_iff)
qed

lemma put48:
  assumes "ok48 keys ch n" "keys ! unat b \<noteq> 0"
  defines "i \<equiv> unat (keys ! unat b) - 1"
  shows "ok48 keys (ch[i := Some c]) n \<and> child48 keys (ch[i := Some c]) = (child48 keys ch)(b \<mapsto> c)"
proof -
  have i: "i < n" "i < 48" using ok48_slot [OF assms(1,2)] assms(1) by (auto simp: i_def ok48_def)
  have "child48 keys (ch[i := Some c]) a = ((child48 keys ch)(b \<mapsto> c)) a" for a
  proof (cases "a = b")
    case True
    then show ?thesis using assms(1,2) i by (simp add: child48_def slot_of_def i_def ok48_def)
  next
    case False
    show ?thesis
    proof (cases "keys ! unat a = 0")
      case True
      then show ?thesis using False by (simp add: child48_def)
    next
      case nz: False
      then have "unat (keys ! unat a) - 1 \<noteq> i" using ok48_inj [OF assms(1) nz _ assms(2)] False by (auto simp: i_def)
      then show ?thesis using nz False by (simp add: child48_def slot_of_def)
    qed
  qed
  moreover have "ok48 keys (ch[i := Some c]) n"
    unfolding ok48_def
  proof (intro conjI allI impI)
    show "ch[i := Some c] ! k \<noteq> None" if "k < n" for k
      using assms(1) that i by (cases "k = i") (auto simp: ok48_def)
    show "a = d" if "a < 256" "d < 256" "keys ! a = keys ! d \<and> keys ! a \<noteq> 0" for a d
      using that ok48D_inj [OF assms(1)] by blast
  qed (use assms(1) in \<open>simp_all add: ok48_def\<close>)
  ultimately show ?thesis by (simp add: fun_eq_iff)
qed

lemma add48:
  assumes "ok48 keys ch n" "keys ! unat b = 0" "n < 48"
  shows "ok48 (keys[unat b := of_nat (n + 1)]) (ch[n := Some c]) (n + 1) \<and>
    child48 (keys[unat b := of_nat (n + 1)]) (ch[n := Some c]) = (child48 keys ch)(b \<mapsto> c)"
proof -
  have b: "unat b < 256" by simp
  have new: "unat (of_nat (n + 1) :: u8) = Suc n" using assms(3) unat_of_byte [of "Suc n"] by simp
  have len: "length keys = 256" "length ch = 48" using assms(1) by (simp_all add: ok48_def)
  have old: "unat (keys ! a) \<le> n" if "a < 256" for a using assms(1) that by (simp add: ok48_def)
  have ok: "ok48 (keys[unat b := of_nat (n + 1)]) (ch[n := Some c]) (n + 1)"
    unfolding ok48_def
  proof (intro conjI allI impI)
    fix a assume a: "a < (256 :: nat)"
    show "unat (keys[unat b := of_nat (n + 1)] ! a) \<le> n + 1"
      using old [OF a] new len by (simp add: nth_list_update)
    fix d assume d: "d < (256 :: nat)"
      and e: "keys[unat b := of_nat (n + 1)] ! a = keys[unat b := of_nat (n + 1)] ! d \<and> keys[unat b := of_nat (n + 1)] ! a \<noteq> 0"
    have ne: "keys ! a \<noteq> of_nat (n + 1)" "keys ! d \<noteq> of_nat (n + 1)"
      using old [OF a] old [OF d] new by (metis Suc_n_not_le_n)+
    have at: "keys[unat b := of_nat (n + 1)] ! x = (if x = unat b then of_nat (n + 1) else keys ! x)"
      if "x < 256" for x using that len by (cases "x = unat b") simp_all
    consider "a = unat b" "d = unat b" | "a = unat b" "d \<noteq> unat b" | "a \<noteq> unat b" "d = unat b"
      | "a \<noteq> unat b" "d \<noteq> unat b" by blast
    then show "a = d"
    proof cases
      case 4
      have "keys ! a = keys ! d" using conjunct1 [OF e] 4 unfolding at [OF a] at [OF d] by simp
      moreover have "keys ! a \<noteq> 0" using conjunct2 [OF e] 4 unfolding at [OF a] by simp
      ultimately show ?thesis by (rule ok48D_inj [OF assms(1) a d])
    qed (use e at [OF a] at [OF d] ne in auto)
  next
    fix i assume i: "i < n + 1"
    show "\<exists>a < 256. unat (keys[unat b := of_nat (n + 1)] ! a) = Suc i"
    proof (cases "i = n")
      case True
      then show ?thesis using b new len by (intro exI [of _ "unat b"]) simp
    next
      case False
      then have "i < n" using i by simp
      then obtain a where a: "a < 256" "unat (keys ! a) = Suc i" using assms(1) unfolding ok48_def by blast
      then have "a \<noteq> unat b" using assms(2) by auto
      then show ?thesis using a by (intro exI [of _ a]) simp
    qed
    show "ch[n := Some c] ! i \<noteq> None"
      using assms(1,3) i by (cases "i = n") (simp_all add: ok48_def)
  qed (use assms in \<open>simp_all add: ok48_def\<close>)
  have "child48 (keys[unat b := of_nat (n + 1)]) (ch[n := Some c]) a = ((child48 keys ch)(b \<mapsto> c)) a" for a
  proof (cases "a = b")
    case True
    have "keys[unat b := of_nat (n + 1)] ! unat b = of_nat (n + 1)" using len b by simp
    moreover have "(of_nat (n + 1) :: u8) \<noteq> 0" using new by (auto simp: byte_nonzero)
    ultimately show ?thesis using True assms(3) new len by (simp add: child48_def slot_of_def del: of_nat_add)
  next
    case False
    then have "unat a \<noteq> unat b" by (simp add: word_unat_eq_iff)
    then have k: "keys[unat b := of_nat (n + 1)] ! unat a = keys ! unat a" by simp
    show ?thesis
    proof (cases "keys ! unat a = 0")
      case True
      then show ?thesis using False k by (simp add: child48_def)
    next
      case nz: False
      then have "unat (keys ! unat a) - 1 < n" using ok48_slot [OF assms(1)] by blast
      then show ?thesis using False k nz by (simp add: child48_def slot_of_def)
    qed
  qed
  then show ?thesis using ok by (simp add: fun_eq_iff)
qed

text \<open>Removing: the last child moves into the hole, its byte is renumbered.\<close>

definition drop48_keys :: "u8 list \<Rightarrow> nat \<Rightarrow> u8 \<Rightarrow> u8 list" where
  "drop48_keys keys n b =
     (let i = unat (keys ! unat b) - 1; final = n - 1
      in (if i \<noteq> final then
            (case position (\<lambda>k. k = of_nat final + 1) keys of
               Some lb \<Rightarrow> keys[lb := keys ! unat b] | None \<Rightarrow> keys)
          else keys)[unat b := 0])"

definition drop48_kids :: "node option list \<Rightarrow> nat \<Rightarrow> nat \<Rightarrow> node option list" where
  "drop48_kids ch n i = (if i \<noteq> n - 1 then ch[i := ch ! (n - 1)] else ch)[n - 1 := None]"

lemma drop_child_48:
  "i = unat (keys ! unat b) - 1 \<Longrightarrow>
   drop_child (Inner48 p keys ch n) b i = Inner48 p (drop48_keys keys n b) (drop48_kids ch n i) (n - 1)"
  by (simp add: drop48_keys_def drop48_kids_def Let_def)

lemma drop48_keys_nth:
  assumes ok: "ok48 keys ch n" and b: "keys ! unat b \<noteq> 0" and a: "a < 256"
  shows "unat (drop48_keys keys n b ! a) =
    (if a = unat b then 0 else if unat (keys ! a) = n then unat (keys ! unat b) else unat (keys ! a))"
proof -
  have len: "length keys = 256" and n: "0 < n" "n \<le> 48" using ok ok48_slot [OF ok b] by (auto simp: ok48_def)
  have lb: "position (\<lambda>k. k = of_nat (n - 1) + 1) keys = Some l \<Longrightarrow> l < 256 \<and> unat (keys ! l) = n" for l
    using byte_eq_Suc [of "n - 1" "keys ! l"] n len by (auto simp: position_Some_iff)
  show ?thesis
  proof (cases "unat (keys ! unat b) - 1 = n - 1")
    case True
    then have bn: "unat (keys ! unat b) = n" using b n byte_nonzero [of "keys ! unat b"] by simp
    have "a = unat b" if "unat (keys ! a) = n"
      using ok48D_inj [OF ok a, of "unat b"] that bn n by (auto simp: word_unat_eq_iff)
    then show ?thesis using True a len by (auto simp: drop48_keys_def nth_list_update)
  next
    case False
    obtain l0 where l0: "l0 < 256" "unat (keys ! l0) = Suc (n - 1)" using ok n unfolding ok48_def by (metis diff_less zero_less_one)
    have "position (\<lambda>k. k = of_nat (n - 1) + 1) keys \<noteq> None"
      using l0 len n byte_eq_Suc [of "n - 1" "keys ! l0"] nth_mem [of l0 keys] by (auto simp: position_None_iff)
    then obtain l where l: "position (\<lambda>k. k = of_nat (n - 1) + 1) keys = Some l" by auto
    note l' = lb [OF l]
    have "a = l" if "unat (keys ! a) = n"
      using ok48D_inj [OF ok a, of l] that l' n by (auto simp: word_unat_eq_iff)
    moreover have "drop48_keys keys n b = keys[l := keys ! unat b, unat b := 0]"
      using False l by (simp add: drop48_keys_def)
    ultimately show ?thesis using a len l' by (auto simp: nth_list_update)
  qed
qed

lemma drop48_kids_nth:
  "length ch = 48 \<Longrightarrow> i < n \<Longrightarrow> j < n - 1 \<Longrightarrow> n \<le> 48 \<Longrightarrow> drop48_kids ch n i ! j = (if j = i then ch ! (n - 1) else ch ! j)"
  by (auto simp: drop48_kids_def nth_list_update)

lemma drop48:
  assumes ok: "ok48 keys ch n" and b: "keys ! unat b \<noteq> 0"
  defines "i \<equiv> unat (keys ! unat b) - 1"
  shows "ok48 (drop48_keys keys n b) (drop48_kids ch n i) (n - 1) \<and>
    child48 (drop48_keys keys n b) (drop48_kids ch n i) = (child48 keys ch)(b := None)"
proof -
  let ?f = "\<lambda>a. unat (keys ! a)" and ?g = "\<lambda>a. unat (drop48_keys keys n b ! a)"
  have i: "i < n" using ok48_slot [OF ok b] by (simp add: i_def)
  have len: "length keys = 256" "length ch = 48" "n \<le> 48" using ok by (simp_all add: ok48_def)
  have fb: "?f (unat b) = Suc i" using b byte_nonzero [of "keys ! unat b"] by (simp add: i_def)
  have g: "?g a = (if a = unat b then 0 else if ?f a = n then Suc i else ?f a)" if "a < 256" for a
    using drop48_keys_nth [OF ok b that] fb by simp
  have le: "?f a \<le> n" if "a < 256" for a using ok that by (simp add: ok48_def)
  have inj: "a = d" if "a < 256" "d < 256" "?f a = ?f d" "?f a \<noteq> 0" for a d
    using ok48D_inj [OF ok that(1,2)] that(3,4) by (auto simp: word_unat_eq_iff)
  have sur: "\<exists>a < 256. ?f a = Suc j" if "j < n" for j using ok that by (simp add: ok48_def)
  have lens: "length (drop48_keys keys n b) = 256" "length (drop48_kids ch n i) = 48"
    using len by (auto simp: drop48_keys_def drop48_kids_def Let_def split: option.split)
  have ok': "ok48 (drop48_keys keys n b) (drop48_kids ch n i) (n - 1)"
    unfolding ok48_def
  proof (intro conjI allI impI)
    fix a assume a: "a < (256 :: nat)"
    show "?g a \<le> n - 1"
    proof (cases "a \<noteq> unat b \<and> ?f a = n")
      case True
      then have "Suc i \<noteq> n" using inj [OF a, of "unat b"] fb i by auto
      then show ?thesis using g [OF a] True i by simp
    next
      case False
      then show ?thesis using g [OF a] le [OF a] by auto
    qed
    fix d assume d: "d < (256 :: nat)"
      and e: "drop48_keys keys n b ! a = drop48_keys keys n b ! d \<and> drop48_keys keys n b ! a \<noteq> 0"
    have e1: "?g a = ?g d" "?g a \<noteq> 0" using e by (auto simp: word_unat_eq_iff)
    have ub: "unat b < 256" by simp
    have nb: "a \<noteq> unat b" "d \<noteq> unat b" using e1 g [OF a] g [OF d] by auto
    have "?f x \<noteq> Suc i" if "x < 256" "x \<noteq> unat b" for x using inj [OF that(1) ub] fb that(2) by auto
    then show "a = d"
      using e1 nb a d g [OF a] g [OF d] inj [OF a d] i by (auto split: if_splits)
  next
    fix j assume j: "j < n - 1"
    show "\<exists>a < 256. ?g a = Suc j"
    proof (cases "j = i")
      case True
      obtain a where a: "a < 256" "?f a = Suc (n - 1)" using sur [of "n - 1"] i by auto
      then have "a \<noteq> unat b" "?f a = n" using fb True j by auto
      then show ?thesis using a(1) g [OF a(1)] True by auto
    next
      case False
      have "j < n" using j by simp
      then obtain a where a: "a < 256" "?f a = Suc j" using sur [of j] by blast
      then have "a \<noteq> unat b" "?f a \<noteq> n" using fb False j by auto
      then show ?thesis using a g [OF a(1)] by auto
    qed
    show "drop48_kids ch n i ! j \<noteq> None"
      using drop48_kids_nth [OF len(2) i j len(3)] ok i j by (simp add: ok48_def)
  qed (use lens len in simp_all)
  have "child48 (drop48_keys keys n b) (drop48_kids ch n i) a = ((child48 keys ch)(b := None)) a" for a
  proof -
    have a: "unat a < 256" by simp
    have ga: "(drop48_keys keys n b ! unat a = 0) = (?g (unat a) = 0)" by (simp add: word_unat_eq_iff)
    have fa: "(keys ! unat a = 0) = (?f (unat a) = 0)" by (simp add: word_unat_eq_iff)
    show ?thesis
    proof (cases "a = b \<or> ?f (unat a) = 0")
      case True
      then show ?thesis using g [OF a] ga fa i by (auto simp: child48_def)
    next
      case False
      then have ab: "unat a \<noteq> unat b" by (simp add: word_unat_eq_iff)
      have c: "child48 keys ch a = slot_of ch (?f (unat a) - 1)" using False fa by (simp add: child48_def)
      show ?thesis
      proof (cases "?f (unat a) = n")
        case True
        then have "Suc i \<noteq> n" using inj [OF a, of "unat b"] fb i ab by auto
        then have "i < n - 1" using i by simp
        moreover have "n - 1 < 48" using len(3) i by simp
        ultimately show ?thesis
          using g [OF a] ga ab True c False drop48_kids_nth [OF len(2) i, of i] len lens i
          by (simp add: child48_def slot_of_def)
      next
        case nn: False
        then have "?f (unat a) - 1 < n - 1" "?f (unat a) - 1 \<noteq> i"
          using le [OF a] False inj [OF a, of "unat b"] fb ab by auto
        moreover have "?f (unat a) - 1 < 48" using calculation(1) len(3) by simp
        ultimately show ?thesis
          using g [OF a] ga ab nn c False drop48_kids_nth [OF len(2) i, of "?f (unat a) - 1"] len lens
          by (simp add: child48_def slot_of_def)
      qed
    qed
  qed
  then show ?thesis using ok' by (simp add: fun_eq_iff)
qed

text \<open>Rebuilding an index: child \<open>j\<close> is stored for the byte \<open>f j\<close>.\<close>

lemma fold_update_length [simp]: "length (fold (\<lambda>j ys. ys[f j := g j]) js xs) = length xs"
  by (induction js arbitrary: xs) simp_all

lemma fold_update_other:
  "(\<And>j. j \<in> set js \<Longrightarrow> f j \<noteq> a) \<Longrightarrow> fold (\<lambda>j ys. ys[f j := g j]) js xs ! a = xs ! a"
  by (induction js arbitrary: xs) simp_all

lemma fold_update_at:
  "inj_on f {..<m} \<Longrightarrow> j < m \<Longrightarrow> f j < length xs \<Longrightarrow>
   fold (\<lambda>j ys. ys[f j := g j]) [0..<m] xs ! f j = g j"
proof (induction m)
  case (Suc m)
  show ?case
  proof (cases "j = m")
    case True
    then show ?thesis using Suc by simp
  next
    case False
    then have j: "j < m" using Suc by simp
    then have "f j \<noteq> f m" using Suc(2) by (auto dest: inj_onD)
    moreover have "inj_on f {..<m}" using Suc(2) by (auto simp: inj_on_def)
    ultimately show ?thesis using Suc j by simp
  qed
qed simp

definition index48 :: "(nat \<Rightarrow> nat) \<Rightarrow> nat \<Rightarrow> u8 list" where
  "index48 f m = fold (\<lambda>j k48. k48[f j := of_nat j + 1]) [0..<m] (replicate 256 0)"

lemma index48_at:
  assumes "inj_on f {..<m}" "\<And>j. j < m \<Longrightarrow> f j < 256" "m \<le> 48"
  shows "j < m \<Longrightarrow> unat (index48 f m ! f j) = Suc j"
proof -
  assume j: "j < m"
  have "index48 f m ! f j = of_nat j + 1"
    unfolding index48_def using j assms by (intro fold_update_at) simp_all
  then show ?thesis using byte_eq_Suc [of j "index48 f m ! f j"] j assms(3) by simp
qed

lemma index48_other: "a \<notin> f ` {..<m} \<Longrightarrow> a < 256 \<Longrightarrow> index48 f m ! a = 0"
  unfolding index48_def by (subst fold_update_other) auto

lemma index48_ok:
  assumes inj: "inj_on f {..<m}" and f: "\<And>j. j < m \<Longrightarrow> f j < 256" and m: "m \<le> 48"
    and cs: "length cs = 48" "\<And>j. j < m \<Longrightarrow> cs ! j \<noteq> None"
  shows "ok48 (index48 f m) cs m"
    "j < m \<Longrightarrow> f j = unat b \<Longrightarrow> child48 (index48 f m) cs b = cs ! j"
    "unat b \<notin> f ` {..<m} \<Longrightarrow> child48 (index48 f m) cs b = None"
proof -
  have at: "unat (index48 f m ! f j) = Suc j" if "j < m" for j by (rule index48_at [OF inj f m that])
  have len: "length (index48 f m) = 256" by (simp add: index48_def)
  have cases: "a \<in> f ` {..<m} \<or> index48 f m ! a = 0" if "a < 256" for a using index48_other that by blast
  show "ok48 (index48 f m) cs m"
    unfolding ok48_def
  proof (intro conjI allI impI)
    fix a assume a: "a < (256 :: nat)"
    show "unat (index48 f m ! a) \<le> m"
    proof (cases "a \<in> f ` {..<m}")
      case True
      then obtain j where "j < m" "a = f j" by blast
      then show ?thesis by (simp add: at)
    next
      case False
      then show ?thesis using cases [OF a] by simp
    qed
    fix d assume d: "d < (256 :: nat)" and e: "index48 f m ! a = index48 f m ! d \<and> index48 f m ! a \<noteq> 0"
    then have "a \<in> f ` {..<m}" "d \<in> f ` {..<m}" using cases [OF a] cases [OF d] by metis+
    then obtain i j where ij: "i < m" "a = f i" "j < m" "d = f j" by blast
    then have "Suc i = Suc j" using conjunct1 [OF e] at [of i] at [of j] by metis
    then show "a = d" using ij by simp
  next
    fix i assume "i < m"
    then show "\<exists>b < 256. unat (index48 f m ! b) = Suc i" using at f by blast
  qed (use len cs m in simp_all)
  show "child48 (index48 f m) cs b = cs ! j" if "j < m" "f j = unat b"
  proof -
    have u: "unat (index48 f m ! unat b) = Suc j" using at [OF that(1)] that(2) by simp
    then have "index48 f m ! unat b \<noteq> 0" by (simp add: byte_nonzero)
    then show ?thesis using u that(1) cs(1) m by (simp add: child48_def slot_of_def)
  qed
  show "child48 (index48 f m) cs b = None" if "unat b \<notin> f ` {..<m}"
    using index48_other [OF that] by (simp add: child48_def)
qed

lemma narrow_child_nth:
  assumes "narrow_ok cap keys ch n"
  shows "i < n \<Longrightarrow> keys ! i = b \<Longrightarrow> narrow_child keys ch n b = ch ! i"
    "b \<notin> set (take n keys) \<Longrightarrow> narrow_child keys ch n b = None"
proof -
  assume i: "i < n" "keys ! i = b"
  have "find_byte keys n b = Some i"
  proof -
    have "keys ! j \<noteq> b" if "j < i" for j
      using assms that i nth_eq_iff_index_eq [of "take n keys" j i] by (auto simp: narrow_ok_def)
    then show ?thesis using i assms by (subst find_byte_Some) (auto simp: narrow_ok_def)
  qed
  then show "narrow_child keys ch n b = ch ! i" using i assms by (simp add: narrow_child_def slot_of_def narrow_ok_def)
qed (simp add: narrow_None [OF assms])

lemma grow48:
  assumes ok: "narrow_ok 16 keys ch 16" and b: "narrow_child keys ch 16 b = None"
  shows "\<exists>k48 c48. grow48 p keys ch b c = Inner48 p k48 c48 17 \<and> ok48 k48 c48 17 \<and>
    child48 k48 c48 = (narrow_child keys ch 16)(b \<mapsto> c)"
proof -
  let ?f = "\<lambda>i. unat (keys ! i)" and ?cs = "take 16 ch @ replicate 32 None"
  have len: "length keys = 16" "length ch = 16" "distinct keys" "None \<notin> set ch"
  proof -
    show l: "length keys = 16" "length ch = 16" using ok by (simp_all add: narrow_ok_def)
    show "distinct keys" "None \<notin> set ch" using ok by (simp_all add: narrow_ok_def l)
  qed
  have inj: "inj_on ?f {..<16}"
    using len by (auto simp: inj_on_def word_unat_eq_iff [symmetric] nth_eq_iff_index_eq)
  have cs: "?cs ! j \<noteq> None" if "j < 16" for j using that len by (auto simp: nth_append in_set_conv_nth)
  have f: "?f j < 256" for j by simp
  note mk = index48_ok [OF inj, of ?cs]
  have ok48: "ok48 (index48 ?f 16) ?cs 16" using mk(1) len cs by simp
  have old: "child48 (index48 ?f 16) ?cs = narrow_child keys ch 16"
  proof
    fix a
    show "child48 (index48 ?f 16) ?cs a = narrow_child keys ch 16 a"
    proof (cases "a \<in> set keys")
      case True
      then obtain i where i: "i < 16" "keys ! i = a" using len by (auto simp: in_set_conv_nth)
      then show ?thesis
        using mk(2) [of i a] narrow_child_nth(1) [OF ok i] len cs by (simp add: nth_append)
    next
      case False
      then have "unat a \<notin> ?f ` {..<16}" using len by (auto simp: word_unat_eq_iff [symmetric])
      then show ?thesis using mk(3) [of a] narrow_child_nth(2) [OF ok] len cs False by simp
    qed
  qed
  have ne: "keys ! i \<noteq> b" if "i < 16" for i
    using narrow_child_nth(1) [OF ok that, of b] b nth_mem [of i ch] that len by metis
  have "unat b \<notin> ?f ` {..<16}" by (auto simp: word_unat_eq_iff [symmetric] dest: ne)
  then have "index48 ?f 16 ! unat b = 0" by (intro index48_other) simp_all
  note add = add48 [OF ok48 this, of c, unfolded old]
  have "?cs[16 := Some c] = take 16 ch @ Some c # replicate 31 None"
    using len by (simp add: list_update_append numeral_eq_Suc)
  moreover have "(of_nat (16 + 1) :: u8) = 17" by simp
  ultimately show ?thesis using add by (auto simp: grow48_def index48_def)
qed

section \<open>The 256-way node\<close>

lemma child_256: "ok256 ch n \<Longrightarrow> child (Inner256 p ch n) b = ch ! unat b"
  by (simp add: ok256_def slot_of_def)

lemma used256_card: "length (used_bytes256 ch) = card {x. x < 256 \<and> ch ! x \<noteq> None}"
proof -
  have "distinct (used_bytes256 ch)" by (simp add: used_bytes256_def)
  moreover have "set (used_bytes256 ch) = {x. x < 256 \<and> ch ! x \<noteq> None}" by (auto simp: used_bytes256_def)
  ultimately show ?thesis by (metis distinct_card)
qed

lemma used48_card: "length (used_bytes48 keys) = card {x. x < 256 \<and> keys ! x \<noteq> 0}"
proof -
  have "distinct (used_bytes48 keys)" by (simp add: used_bytes48_def)
  moreover have "set (used_bytes48 keys) = {x. x < 256 \<and> keys ! x \<noteq> 0}" by (auto simp: used_bytes48_def)
  ultimately show ?thesis by (metis distinct_card)
qed

lemma used48_length:
  assumes "ok48 keys ch n"
  shows "length (used_bytes48 keys) = n"
proof -
  let ?S = "{x. x < 256 \<and> keys ! x \<noteq> 0}" and ?f = "\<lambda>x. unat (keys ! x) - 1"
  have inj: "inj_on ?f ?S"
  proof (rule inj_onI)
    fix x y assume x: "x \<in> ?S" "y \<in> ?S" "?f x = ?f y"
    then have "0 < unat (keys ! x)" "0 < unat (keys ! y)" "?f x = ?f y" by (simp_all add: byte_nonzero)
    then have "unat (keys ! x) = unat (keys ! y)" by arith
    then show "x = y" using ok48D_inj [OF assms, of x y] x by (simp add: word_unat_eq_iff)
  qed
  have "?f ` ?S = {..<n}"
  proof
    show "?f ` ?S \<subseteq> {..<n}"
    proof
      fix i assume "i \<in> ?f ` ?S"
      then obtain x where "x < 256" "keys ! x \<noteq> 0" "i = ?f x" by blast
      moreover from this have "unat (keys ! x) \<le> n" "0 < unat (keys ! x)" using assms by (simp_all add: ok48_def byte_nonzero)
      ultimately show "i \<in> {..<n}" by simp
    qed
    show "{..<n} \<subseteq> ?f ` ?S"
    proof
      fix i assume "i \<in> {..<n}"
      then obtain x where x: "x < 256" "unat (keys ! x) = Suc i" using assms unfolding ok48_def by blast
      then have "keys ! x \<noteq> 0" by auto
      then show "i \<in> ?f ` ?S" using x by (intro image_eqI [of _ _ x]) simp_all
    qed
  qed
  then show ?thesis unfolding used48_card card_image [OF inj, symmetric] by simp
qed

lemma put256:
  fixes b :: u8
  assumes "ok256 ch n"
  shows "ch ! unat b \<noteq> None \<Longrightarrow> ok256 (ch[unat b := Some c]) n"
    "ch ! unat b = None \<Longrightarrow> ok256 (ch[unat b := Some c]) (n + 1)"
    "ch ! unat b \<noteq> None \<Longrightarrow> ok256 (ch[unat b := None]) (n - 1)"
proof -
  let ?S = "\<lambda>ch. {x. x < 256 \<and> ch ! x \<noteq> (None :: node option)}"
  have b: "unat b < 256" by simp
  have len: "length ch = 256" and n: "n = card (?S ch)" using assms by (simp_all add: ok256_def used256_card)
  have fin: "finite (?S ch)" by simp
  have ins: "?S (ch[unat b := Some c]) = insert (unat b) (?S ch)"
    using len b by (auto simp: nth_list_update)
  have del: "?S (ch[unat b := None]) = ?S ch - {unat b}"
    using len b by (auto simp: nth_list_update)
  show "ok256 (ch[unat b := Some c]) n" if "ch ! unat b \<noteq> None"
  proof -
    have "insert (unat b) (?S ch) = ?S ch" using that b by auto
    then show ?thesis using ins len n by (simp add: ok256_def used256_card)
  qed
  show "ok256 (ch[unat b := Some c]) (n + 1)" if "ch ! unat b = None"
    unfolding ok256_def used256_card ins using that len n fin by simp
  show "ok256 (ch[unat b := None]) (n - 1)" if "ch ! unat b \<noteq> None"
    unfolding ok256_def used256_card del using that len n fin b by simp
qed

lemma child256_update:
  assumes "ok256 ch n"
  shows "child (Inner256 p (ch[unat b := x]) m) = (child (Inner256 p ch n))(b := x)"
proof
  fix a
  show "child (Inner256 p (ch[unat b := x]) m) a = ((child (Inner256 p ch n))(b := x)) a"
    using assms by (cases "a = b") (auto simp: ok256_def slot_of_def word_unat_eq_iff)
qed

lemma grow256:
  assumes ok: "ok48 keys ch 48" and b: "child48 keys ch b = None"
  shows "\<exists>c256. grow256 p keys ch b c = Inner256 p c256 49 \<and> ok256 c256 49 \<and>
    child (Inner256 p c256 49) = (child48 keys ch)(b \<mapsto> c)"
proof -
  let ?c = "map (\<lambda>byte. let i = keys ! byte in if i \<noteq> 0 then slot_of ch (unat i - 1) else None) [0..<256]"
  have at: "?c ! unat a = child48 keys ch a" for a by (simp add: child48_def Let_def)
  have "{x. x < 256 \<and> ?c ! x \<noteq> None} = {x. x < 256 \<and> keys ! x \<noteq> 0}"
  proof (rule Collect_cong, rule conj_cong)
    fix x :: nat assume x: "x < 256"
    then show "?c ! x \<noteq> None \<longleftrightarrow> keys ! x \<noteq> 0" using at [of "of_nat x"] ok48_None [OF ok, of "of_nat x"] by auto
  qed simp
  then have ok256: "ok256 ?c 48"
    unfolding ok256_def used256_card using used48_length [OF ok] by (simp add: used48_card)
  have "child (Inner256 p ?c 48) = child48 keys ch"
    using at child_256 [OF ok256, of p] by (simp add: fun_eq_iff)
  moreover have "?c ! unat b = None" using at b by simp
  ultimately show ?thesis
    using put256(2) [OF ok256, of b c] child256_update [OF ok256, of p b "Some c" 49]
    unfolding grow256_def by simp
qed

section \<open>Shrinking\<close>

lemma zip_bytes:
  "map_of (map (\<lambda>x. (of_nat x :: u8, h x)) bs) b = (if unat b \<in> set bs then Some (h (unat b)) else None)"
  if "set bs \<subseteq> {..<256}"
  using that
proof (induction bs)
  case (Cons x bs)
  have "(b = of_nat x) = (unat b = x)"
    using Cons.prems unat_of_byte [of x] by (auto simp: word_unat_eq_iff simp del: of_nat_unat)
  then show ?case using Cons by auto
qed simp

lemma distinct_bytes: "distinct bs \<Longrightarrow> set bs \<subseteq> {..<256} \<Longrightarrow> distinct (map (of_nat :: nat \<Rightarrow> u8) bs)"
proof -
  assume a: "distinct bs" "set bs \<subseteq> {..<256}"
  have "inj_on (of_nat :: nat \<Rightarrow> u8) (set bs)"
  proof (rule inj_onI)
    fix x y assume "x \<in> set bs" "y \<in> set bs" and e: "(of_nat x :: u8) = of_nat y"
    then have "x < 256" "y < 256" using a(2) by auto
    then show "x = y" using arg_cong [OF e, of unat] by simp
  qed
  then show ?thesis using a(1) by (simp add: distinct_map)
qed

lemma shrink16:
  assumes ok: "ok48 keys ch n" and n: "n \<le> 16"
  shows "\<exists>k16 c16. shrink16 p keys ch = Inner16 p k16 c16 n \<and> narrow_ok 16 k16 c16 n \<and>
    narrow_child k16 c16 n = child48 keys ch"
proof -
  let ?bs = "used_bytes48 keys" and ?s = "\<lambda>byte. slot_of ch (unat (keys ! byte) - 1)"
  let ?k = "map of_nat ?bs @ replicate (16 - n) 0 :: u8 list" and ?c = "map ?s ?bs @ replicate (16 - n) None"
  have len: "length ?bs = n" by (rule used48_length [OF ok])
  have bs: "set ?bs \<subseteq> {..<256}" "distinct ?bs" by (auto simp: used_bytes48_def)
  have some: "?s x = child48 keys ch (of_nat x) \<and> ?s x \<noteq> None" if "x \<in> set ?bs" for x
    using that ok48_None [OF ok, of "of_nat x"] by (auto simp: used_bytes48_def child48_def)
  have "None \<notin> set (map ?s ?bs)" unfolding set_map image_iff using some by metis
  then have ok16: "narrow_ok 16 ?k ?c n"
    using len n distinct_bytes [OF bs(2,1)] by (simp add: narrow_ok_def)
  have "narrow_list ?k ?c n = map (\<lambda>x. (of_nat x, the (?s x))) ?bs"
    using len by (simp add: narrow_list_def zip_map_map zip_same_conv_map)
  then have "narrow_child ?k ?c n b = child48 keys ch b" for b
    unfolding narrow_map [OF ok16] using zip_bytes [OF bs(1), of "\<lambda>x. the (?s x)" b] some [of "unat b"] ok48_None [OF ok, of b]
    by (auto simp: used_bytes48_def)
  then show ?thesis using ok16 len by (auto simp: shrink16_def Let_def fun_eq_iff)
qed

lemma shrink48:
  assumes ok: "ok256 ch n" and n: "n \<le> 48"
  shows "\<exists>k48 c48. shrink48 p ch = Inner48 p k48 c48 n \<and> ok48 k48 c48 n \<and>
    child48 k48 c48 = child (Inner256 p ch n)"
proof -
  let ?bs = "used_bytes256 ch" and ?c = "map (\<lambda>byte. ch ! byte) (used_bytes256 ch) @ replicate (48 - n) None"
  let ?f = "\<lambda>j. ?bs ! j"
  have len: "length ?bs = n" using ok by (simp add: ok256_def)
  have bs: "set ?bs = {x. x < 256 \<and> ch ! x \<noteq> None}" "distinct ?bs" by (auto simp: used_bytes256_def)
  have f: "?f j < 256" "ch ! ?f j \<noteq> None" if "j < n" for j using nth_mem [of j ?bs] that len bs by auto
  have inj: "inj_on ?f {..<n}" using bs(2) len by (auto simp: inj_on_def nth_eq_iff_index_eq)
  have c: "?c ! j = ch ! ?f j" if "j < n" for j using that len by (simp add: nth_append)
  have lc: "length ?c = 48" using len n by simp
  have cn: "?c ! j \<noteq> None" if "j < n" for j using c f that by simp
  note mk = index48_ok [OF inj f(1) n lc cn]
  have "child48 (index48 ?f n) ?c b = child (Inner256 p ch n) b" for b
  proof (cases "ch ! unat b = None")
    case True
    then have "unat b \<notin> ?f ` {..<n}" using f(2) by (metis imageE lessThan_iff)
    then show ?thesis using mk(3) True child_256 [OF ok] by simp
  next
    case False
    then have "unat b \<in> set ?bs" using bs by simp
    then obtain j where "j < n" "?f j = unat b" using len by (auto simp: in_set_conv_nth)
    then show ?thesis using mk(2) c child_256 [OF ok] by simp
  qed
  then show ?thesis using mk(1) len by (auto simp: shrink48_def Let_def index48_def fun_eq_iff)
qed

section \<open>Every width is one map\<close>

named_theorems node_facts

lemma find_slot_Some [node_facts]:
  assumes "node_ok nd" "find_slot nd b = Some i"
  shows "\<exists>c. slot_of (kids nd) i = Some c \<and> child nd b = Some c"
proof (cases nd)
  case (Inner48 p keys ch n)
  then show ?thesis using assms ok48_slot [of keys ch n b] by (auto split: if_splits)
qed (use assms in \<open>auto dest: narrow_find split: if_splits\<close>)

lemma find_slot_None [node_facts]: "node_ok nd \<Longrightarrow> find_slot nd b = None \<longleftrightarrow> child nd b = None"
proof (cases nd)
  case (Inner48 p keys ch n)
  assume "node_ok nd"
  then show ?thesis using Inner48 ok48_None [of keys ch n b] by simp
next
  case (Inner4 p keys ch n)
  assume "node_ok nd"
  then show ?thesis using Inner4 narrow_find [of 4 keys ch n b]
    by (cases "find_byte keys n b") (auto simp: narrow_child_def)
next
  case (Inner16 p keys ch n)
  assume "node_ok nd"
  then show ?thesis using Inner16 narrow_find [of 16 keys ch n b]
    by (cases "find_byte keys n b") (auto simp: narrow_child_def)
qed auto

lemma put_slot_facts:
  assumes ok: "node_ok nd" and f: "find_slot nd b = Some i"
  shows "node_ok (put_slot nd i c) \<and> child (put_slot nd i c) = (child nd)(b \<mapsto> c) \<and>
    node_prefix (put_slot nd i c) = node_prefix nd \<and> inner (put_slot nd i c)"
proof (cases nd)
  case (Inner48 p keys ch n)
  then show ?thesis using assms put48 [of keys ch n b c] by (auto split: if_splits)
next
  case (Inner256 p ch n)
  then have "i = unat b" "ch ! unat b \<noteq> None" using f ok by (auto simp: ok256_def slot_of_def split: if_splits)
  then show ?thesis
    using Inner256 ok put256(1) [of ch n b c] child256_update [of ch n p b "Some c" n] by simp
qed (use assms narrow_put in auto)

lemma add_child_facts:
  assumes ok: "node_ok nd" and "inner nd" and b: "child nd b = None"
  shows "node_ok (add_child nd b c) \<and> child (add_child nd b c) = (child nd)(b \<mapsto> c) \<and>
    node_prefix (add_child nd b c) = node_prefix nd \<and> inner (add_child nd b c)"
proof (cases nd)
  case (Inner4 p keys ch n)
  have ok4: "narrow_ok 4 keys ch n" and b4: "narrow_child keys ch n b = None" using ok b Inner4 by simp_all
  then have len: "length keys = 4" "length ch = 4" "n \<le> 4" by (simp_all add: narrow_ok_def)
  show ?thesis
  proof (cases "n < 4")
    case True
    have "take (Suc n) (keys[n := b]) = take n keys @ [b]" "take (Suc n) (ch[n := Some c]) = take n ch @ [Some c]"
      using True len by (simp_all add: take_Suc_conv_app_nth)
    then show ?thesis
      using Inner4 True narrow_add [OF ok4 _ _ _ _ _ b4, of "keys[n := b]" 4 "ch[n := Some c]" c] len by simp
  next
    case False
    then have n: "n = 4" using len by simp
    let ?k = "take 4 keys @ b # replicate 11 0" and ?c = "take 4 ch @ Some c # replicate 11 None"
    have "narrow_ok 16 ?k ?c (Suc n) \<and> narrow_child ?k ?c (Suc n) = (narrow_child keys ch n)(b \<mapsto> c)"
      using len n by (intro narrow_add [OF ok4 _ _ _ _ _ b4]) simp_all
    then show ?thesis using Inner4 n by (simp add: grow16_def)
  qed
next
  case (Inner16 p keys ch n)
  have ok16: "narrow_ok 16 keys ch n" and b16: "narrow_child keys ch n b = None" using ok b Inner16 by simp_all
  then have len: "length keys = 16" "length ch = 16" "n \<le> 16" by (simp_all add: narrow_ok_def)
  show ?thesis
  proof (cases "n < 16")
    case True
    have "take (Suc n) (keys[n := b]) = take n keys @ [b]" "take (Suc n) (ch[n := Some c]) = take n ch @ [Some c]"
      using True len by (simp_all add: take_Suc_conv_app_nth)
    then show ?thesis
      using Inner16 True narrow_add [OF ok16 _ _ _ _ _ b16, of "keys[n := b]" 16 "ch[n := Some c]" c] len by simp
  next
    case False
    then have "n = 16" using len by simp
    then show ?thesis using Inner16 grow48 [of keys ch b p c] ok16 b16 by auto
  qed
next
  case (Inner48 p keys ch n)
  have ok48: "ok48 keys ch n" and b48: "child48 keys ch b = None" using ok b Inner48 by simp_all
  show ?thesis
  proof (cases "n < 48")
    case True
    have "keys ! unat b = 0" using b48 ok48_None [OF ok48] by simp
    then show ?thesis using Inner48 True add48 [OF ok48 _ True, of b c] by simp
  next
    case False
    then have "n = 48" using ok48 by (simp add: ok48_def)
    then show ?thesis using Inner48 grow256 [of keys ch b p c] ok48 b48 by auto
  qed
next
  case (Inner256 p ch n)
  have ok256: "ok256 ch n" using ok Inner256 by simp
  then have "ch ! unat b = None" using b Inner256 child_256 by metis
  then show ?thesis
    using Inner256 put256(2) [OF ok256] child256_update [OF ok256, of p b "Some c" "n + 1"] by simp
qed (use assms in simp)

lemma drop_child_facts:
  assumes ok: "node_ok nd" and f: "find_slot nd b = Some i"
  shows "node_ok (drop_child nd b i) \<and> child (drop_child nd b i) = (child nd)(b := None) \<and>
    node_prefix (drop_child nd b i) = node_prefix nd \<and> inner (drop_child nd b i)"
proof (cases nd)
  case (Inner48 p keys ch n)
  then have "keys ! unat b \<noteq> 0" "i = unat (keys ! unat b) - 1" "ok48 keys ch n"
    using ok f by (auto split: if_splits)
  then show ?thesis unfolding Inner48 using drop48 [of keys ch n b] drop_child_48 [of i keys b p ch n] by simp
next
  case (Inner256 p ch n)
  then have "i = unat b" "ch ! unat b \<noteq> None" using f ok by (auto simp: ok256_def slot_of_def split: if_splits)
  then show ?thesis
    using Inner256 ok put256(3) [of ch n b] child256_update [of ch n p b None "n - 1"] by simp
qed (use assms narrow_drop in auto)

text \<open>The count says when no child is left.\<close>

lemma narrow_empty: "narrow_ok cap keys ch n \<Longrightarrow> narrow_child keys ch n = Map.empty \<longleftrightarrow> n = 0"
proof -
  assume ok: "narrow_ok cap keys ch n"
  have "(\<forall>b. narrow_child keys ch n b = None) \<longleftrightarrow> set (take n keys) = {}" using narrow_None [OF ok] by auto
  also have "\<dots> \<longleftrightarrow> n = 0" using ok by (auto simp: narrow_ok_def)
  finally show ?thesis by (simp add: fun_eq_iff)
qed

lemma used_empty:
  assumes "\<And>b :: u8. f b = None \<longleftrightarrow> \<not> P (unat b)" "n = length (filter P [0..<256])"
  shows "f = Map.empty \<longleftrightarrow> n = 0"
proof -
  have "(\<forall>b. f b = None) \<longleftrightarrow> (\<forall>x < 256. \<not> P x)"
  proof
    assume a: "\<forall>b. f b = None"
    show "\<forall>x < 256. \<not> P x"
    proof (intro allI impI)
      fix x :: nat assume "x < 256"
      then show "\<not> P x" using a assms(1) [of "of_nat x"] by simp
    qed
  qed (use assms(1) in auto)
  then show ?thesis using assms(2) by (auto simp: fun_eq_iff filter_empty_conv)
qed

lemma child_empty: "node_ok nd \<Longrightarrow> inner nd \<Longrightarrow> child nd = Map.empty \<longleftrightarrow> count nd = 0"
proof (cases nd)
  case (Inner48 p keys ch n)
  assume ok: "node_ok nd"
  show ?thesis unfolding Inner48 child_48 count.simps
    using ok Inner48 ok48_None [of keys ch n] used48_length [of keys ch n]
    by (intro used_empty [where P = "\<lambda>x. keys ! x \<noteq> 0"]) (auto simp: used_bytes48_def)
next
  case (Inner256 p ch n)
  assume ok: "node_ok nd"
  show ?thesis unfolding Inner256 count.simps
    using ok Inner256
    by (intro used_empty [where P = "\<lambda>x. ch ! x \<noteq> None"]) (auto simp: ok256_def slot_of_def used_bytes256_def)
qed (use narrow_empty in auto)

lemma settle_facts:
  assumes ok: "node_ok nd" and inn: "inner nd"
  shows "(settle nd = None \<longleftrightarrow> child nd = Map.empty) \<and>
    (\<forall>nd'. settle nd = Some nd' \<longrightarrow>
       node_ok nd' \<and> child nd' = child nd \<and> node_prefix nd' = node_prefix nd \<and> inner nd')"
proof -
  have none: "settle nd = None \<longleftrightarrow> child nd = Map.empty"
    unfolding child_empty [OF assms] using inn by (cases nd) auto
  show ?thesis
  proof (rule conjI [OF none], intro allI impI, cases nd)
    case (Inner16 p keys ch n)
    fix nd' assume s: "settle nd = Some nd'"
    show "node_ok nd' \<and> child nd' = child nd \<and> node_prefix nd' = node_prefix nd \<and> inner nd'"
    proof (cases "n \<le> 4")
      case True
      have ok16: "narrow_ok 16 keys ch n" using ok Inner16 by simp
      have "narrow_ok 4 (take n keys @ replicate (4 - n) 0) (take n ch @ replicate (4 - n) None) n \<and>
        narrow_child (take n keys @ replicate (4 - n) 0) (take n ch @ replicate (4 - n) None) n = narrow_child keys ch n"
        using ok16 True by (intro narrow_same [OF ok16]) (simp_all add: narrow_ok_def)
      then show ?thesis using s Inner16 True by (auto simp: shrink4_def split: if_splits)
    qed (use s ok Inner16 in \<open>auto split: if_splits\<close>)
  next
    case (Inner48 p keys ch n)
    fix nd' assume s: "settle nd = Some nd'"
    show "node_ok nd' \<and> child nd' = child nd \<and> node_prefix nd' = node_prefix nd \<and> inner nd'"
      using s ok Inner48 shrink16 [of keys ch n p] by (auto split: if_splits)
  next
    case (Inner256 p ch n)
    fix nd' assume s: "settle nd = Some nd'"
    show "node_ok nd' \<and> child nd' = child nd \<and> node_prefix nd' = node_prefix nd \<and> inner nd'"
      using s ok Inner256 shrink48 [of ch n p] by (auto split: if_splits)
  qed (use ok inn in \<open>auto split: if_splits\<close>)
qed

lemma with_prefix_facts [simp]:
  "node_ok (with_prefix q nd) = node_ok nd" "child (with_prefix q nd) = child nd"
  "inner (with_prefix q nd) = inner nd" "inner nd \<Longrightarrow> node_prefix (with_prefix q nd) = q"
  by (cases nd; simp add: fun_eq_iff)+

section \<open>A traversal sees the map\<close>

lemma pairs_of_Some:
  "(\<And>x. x \<in> set xs \<Longrightarrow> f x = Some (h x)) \<Longrightarrow> pairs_of (map (\<lambda>x. (g x, f x)) xs) = map (\<lambda>x. (g x, h x)) xs"
  by (induction xs) (simp_all add: pairs_of_def)

lemma pairs_of_filter: "pairs_of (map (\<lambda>x. (g x, f x)) xs) = pairs_of (map (\<lambda>x. (g x, f x)) (filter (\<lambda>x. f x \<noteq> None) xs))"
  by (induction xs) (auto simp: pairs_of_def)

lemma entries_bytes:
  fixes f :: "u8 \<Rightarrow> node option"
  assumes "\<And>x. x \<in> set bs \<Longrightarrow> s x = f (of_nat x) \<and> s x \<noteq> None" "\<And>b. f b \<noteq> None \<longleftrightarrow> unat b \<in> set bs"
    and bs: "set bs \<subseteq> {..<256}" "distinct bs"
  shows "map_of (pairs_of (map (\<lambda>x. (of_nat x, s x)) bs)) = f \<and> distinct (map fst (pairs_of (map (\<lambda>x. (of_nat x, s x)) bs)))"
proof -
  have e: "pairs_of (map (\<lambda>x. (of_nat x, s x)) bs) = map (\<lambda>x. (of_nat x :: u8, the (s x))) bs"
    using assms(1) by (intro pairs_of_Some) (metis option.exhaust_sel)
  have "map_of (map (\<lambda>x. (of_nat x, the (s x))) bs) b = f b" for b
    using zip_bytes [OF bs(1), of "\<lambda>x. the (s x)" b] assms(1) [of "unat b"] assms(2) [of b] by auto
  moreover have "map fst (map (\<lambda>x. (of_nat x :: u8, the (s x))) bs) = map of_nat bs" by simp
  ultimately show ?thesis unfolding e using distinct_bytes [OF bs(2,1)] by (simp add: fun_eq_iff comp_def)
qed

lemma narrow_entries:
  assumes ok: "narrow_ok cap keys ch n"
  shows "pairs_of (map (\<lambda>i. (keys ! i, slot_of ch i)) [0..<n]) = narrow_list keys ch n"
proof -
  have some: "slot_of ch i = Some (the (ch ! i))" if "i \<in> set [0..<n]" for i
  proof -
    have "ch ! i \<noteq> None" using ok that by (auto simp: narrow_ok_def in_set_conv_nth)
    then show ?thesis using ok that by (auto simp: slot_of_def narrow_ok_def)
  qed
  have "pairs_of (map (\<lambda>i. (keys ! i, slot_of ch i)) [0..<n]) = map (\<lambda>i. (keys ! i, the (ch ! i))) [0..<n]"
    by (rule pairs_of_Some) (rule some)
  also have "\<dots> = narrow_list keys ch n"
    using ok by (auto simp: narrow_list_def narrow_ok_def intro!: nth_equalityI)
  finally show ?thesis .
qed

lemma entries_facts: "node_ok nd \<Longrightarrow> map_of (entries nd) = child nd \<and> distinct (map fst (entries nd))"
proof (cases nd)
  case (Inner4 p keys ch n)
  assume "node_ok nd"
  then have ok: "narrow_ok 4 keys ch n" using Inner4 by simp
  then show ?thesis
    using Inner4 narrow_map [OF ok] narrow_list_fst [OF ok] narrow_entries [OF ok] by (simp add: narrow_ok_def)
next
  case (Inner16 p keys ch n)
  assume "node_ok nd"
  then have ok: "narrow_ok 16 keys ch n" using Inner16 by simp
  then show ?thesis
    using Inner16 narrow_map [OF ok] narrow_list_fst [OF ok] narrow_entries [OF ok] by (simp add: narrow_ok_def)
next
  case (Inner48 p keys ch n)
  assume "node_ok nd"
  then have ok: "ok48 keys ch n" using Inner48 by simp
  show ?thesis unfolding Inner48 entries.simps child_48
  proof (rule entries_bytes)
    fix x assume "x \<in> set (used_bytes48 keys)"
    then have x: "x < 256" "keys ! x \<noteq> 0" by (auto simp: used_bytes48_def)
    then show "slot_of ch (unat (keys ! x) - 1) = child48 keys ch (of_nat x) \<and> slot_of ch (unat (keys ! x) - 1) \<noteq> None"
      using ok48_slot [OF ok, of "of_nat x"] by auto
  qed (use ok48_None [OF ok] in \<open>auto simp: used_bytes48_def\<close>)
next
  case (Inner256 p ch n)
  assume "node_ok nd"
  then have len: "length ch = 256" using Inner256 by (simp add: ok256_def)
  let ?bs = "filter (\<lambda>x. slot_of ch x \<noteq> None) [0..<256]"
  show ?thesis unfolding Inner256 entries.simps pairs_of_filter [of _ _ "[0..<256]"]
    by (rule entries_bytes) (auto simp: len slot_of_def)
qed (simp add: fun_eq_iff)

end
