(* ===== verification/Art.thy ===== *)
theory Art
  imports Art_Node "HOL-Library.Product_Lexorder"
begin

text \<open>
  The adaptive radix tree itself (\<open>ArtIndex\<close> in \<open>src/src/art.rs\<close>): lookup, insertion, deletion,
  the guard against prefix keys and the prefix scan.  A \<open>&str\<close> key is its bytes.  The lemmas show
  that under the guard's contract the tree is a finite map that the operations update, and what the
  scan and the guard say of it.
\<close>

section \<open>Operations\<close>

text \<open>
  The source takes \<open>kb[depth..]\<close> of a \<open>depth\<close> that never passes the end: it moves to \<open>d + 1\<close> only
  after \<open>d < kb.len()\<close>.
\<close>

function get_rec :: "bool \<Rightarrow> bytes \<Rightarrow> nat \<Rightarrow> node \<Rightarrow> u64 option" where
  "get_rec avx2 kb depth nd =
     (case nd of
        Leaf lk val \<Rightarrow> if lk = kb then Some val else None
      | _ \<Rightarrow>
          if \<not> prefix (node_prefix nd) (drop depth kb) then None
          else
            (let d = depth + length (node_prefix nd)
             in if length kb \<le> d then None
                else (case child_of avx2 nd (kb ! d) of
                    None \<Rightarrow> None
                  | Some c \<Rightarrow> get_rec avx2 kb (d + 1) c)))"
  by pat_completeness auto
termination by (relation "measure (\<lambda>(avx2, kb, depth, nd). length kb - depth)") auto

declare get_rec.simps [simp del]

definition common_prefix :: "bytes \<Rightarrow> bytes \<Rightarrow> nat" where
  "common_prefix a b = length (takeWhile (\<lambda>(x, y). x = y) (zip a b))"

text \<open>A new 4-way node with two children.\<close>

definition pair4 :: "bytes \<Rightarrow> u8 \<Rightarrow> node \<Rightarrow> u8 \<Rightarrow> node \<Rightarrow> node" where
  "pair4 p b1 c1 b2 c2 = Inner4 p [b1, b2, 0, 0] [Some c1, Some c2, None, None] 2"

definition insert_leaf :: "bytes \<Rightarrow> u64 \<Rightarrow> bytes \<Rightarrow> nat \<Rightarrow> u64 \<Rightarrow> nat \<Rightarrow> (node \<times> nat) result" where
  "insert_leaf lk old_v key depth val len =
     (if lk = key then Inr (Leaf key val, len)
      else
        (let cp = common_prefix (drop (min depth (length lk)) lk) (drop (min depth (length key)) key)
         in and_then (slice_at lk depth (depth + cp)) (\<lambda>p.
              let d2 = depth + cp;
                  b1 = (if d2 < length lk then lk ! d2 else 0);
                  b2 = (if d2 < length key then key ! d2 else 0)
              in Inr (pair4 p b1 (Leaf lk old_v) b2 (Leaf key val), len + 1))))"

definition split_node :: "node \<Rightarrow> bytes \<Rightarrow> nat \<Rightarrow> u64 \<Rightarrow> nat \<Rightarrow> (node \<times> nat) result" where
  "split_node nd key depth val len =
     and_then (slice_at key depth (length key)) (\<lambda>kr.
       let np = node_prefix nd; cp = common_prefix np kr
       in if length np \<le> cp \<or> length kr \<le> cp then Inr (nd, len)
          else Inr (pair4 (take cp np) (np ! cp) (with_prefix (drop (cp + 1) np) nd)
                 (kr ! cp) (Leaf key val), len + 1))"

text \<open>\<open>len\<close> is the counter of the index, threaded through; an empty slot would be an \<open>unwrap\<close> panic.\<close>

function insert_rec :: "node \<Rightarrow> bytes \<Rightarrow> nat \<Rightarrow> u64 \<Rightarrow> nat \<Rightarrow> (node \<times> nat) result" where
  "insert_rec nd key depth val len =
     (case nd of
        Leaf lk old_v \<Rightarrow> insert_leaf lk old_v key depth val len
      | _ \<Rightarrow>
          (let p = node_prefix nd; d2 = depth + length p
           in if d2 \<le> length key \<and> prefix p (drop depth key) then
                if length key \<le> d2 then Inr (nd, len)
                else
                  (case find_slot nd (key ! d2) of
                     Some i \<Rightarrow>
                       (case slot_of (kids nd) i of
                          None \<Rightarrow> Inl Panic
                        | Some c \<Rightarrow>
                            and_then (insert_rec c key (d2 + 1) val len) (\<lambda>(c', len').
                              Inr (put_slot nd i c', len')))
                   | None \<Rightarrow> Inr (add_child nd (key ! d2) (Leaf key val), len + 1))
              else split_node nd key depth val len))"
  by pat_completeness auto
termination by (relation "measure (\<lambda>(nd, key, depth, val, len). length key - depth)") auto

declare insert_rec.simps [simp del]

function delete_rec :: "node \<Rightarrow> bytes \<Rightarrow> nat \<Rightarrow> nat \<Rightarrow> node option \<times> nat" where
  "delete_rec nd key depth len =
     (case nd of
        Leaf lk v \<Rightarrow> if lk = key then (None, len - 1) else (Some (Leaf lk v), len)
      | _ \<Rightarrow>
          (let p = node_prefix nd; d2 = depth + length p
           in if \<not> prefix p (drop (min depth (length key)) key) \<or> length key \<le> d2 then (Some nd, len)
              else
                (case find_slot nd (key ! d2) of
                   None \<Rightarrow> (after_miss nd, len)
                 | Some i \<Rightarrow>
                     (case slot_of (kids nd) i of
                        None \<Rightarrow> (settle nd, len)
                      | Some c \<Rightarrow>
                          (case delete_rec c key (d2 + 1) len of
                             (Some c2, len') \<Rightarrow> (settle (put_slot nd i c2), len')
                           | (None, len') \<Rightarrow> (settle (drop_child nd (key ! d2) i), len'))))))"
  by pat_completeness auto
termination by (relation "measure (\<lambda>(nd, key, depth, len). length key - depth)") auto

declare delete_rec.simps [simp del]

function conflict_rec :: "bool \<Rightarrow> bytes \<Rightarrow> nat \<Rightarrow> node \<Rightarrow> bool" where
  "conflict_rec avx2 kb depth nd =
     (case nd of
        Leaf lk val \<Rightarrow>
          if lk = kb then False
          else (let m = min (length lk) (length kb) in take m lk = take m kb)
      | _ \<Rightarrow>
          if \<not> prefix (node_prefix nd) (drop depth kb) then
            if depth < length kb \<and> length kb - depth < length (node_prefix nd)
            then prefix (drop depth kb) (node_prefix nd) else False
          else
            (let d = depth + length (node_prefix nd)
             in if length kb \<le> d then True
                else (case child_of avx2 nd (kb ! d) of
                    None \<Rightarrow> False
                  | Some c \<Rightarrow> conflict_rec avx2 kb (d + 1) c)))"
  by pat_completeness auto
termination by (relation "measure (\<lambda>(avx2, kb, depth, nd). length kb - depth)") auto

declare conflict_rec.simps [simp del]

subsection \<open>The scan\<close>

definition path_matches :: "bytes \<Rightarrow> bytes \<Rightarrow> nat \<Rightarrow> bool" where
  "path_matches np pre depth =
     (let sp = drop (min depth (length pre)) pre; n = min (length np) (length sp)
      in take n sp = take n np)"

lemma size_pairs_of:
  "(b, c) \<in> set (pairs_of xs) \<Longrightarrow> (\<And>b x. (b, x) \<in> set xs \<Longrightarrow> x = None \<or> x \<in> set ch) \<Longrightarrow>
   size c < size_list (size_option size) ch"
proof -
  assume "(b, c) \<in> set (pairs_of xs)" and xs: "\<And>b x. (b, x) \<in> set xs \<Longrightarrow> x = None \<or> x \<in> set ch"
  then have "(b, Some c) \<in> set xs" by (auto simp: pairs_of_def split: option.splits)
  then have "Some c \<in> set ch" using xs by blast
  then have "size_option size (Some c) \<le> size_list (size_option size) ch"
    by (intro size_list_estimation') auto
  then show ?thesis by simp
qed

lemma slot_of_mem: "slot_of ch i = None \<or> slot_of ch i \<in> set ch"
  by (auto simp: slot_of_def)

lemma entries_size: "(b, c) \<in> set (entries nd) \<Longrightarrow> size c < size nd"
proof (cases nd)
  case (Inner4 p keys ch n)
  assume "(b, c) \<in> set (entries nd)"
  then have "size c < size_list (size_option size) ch" unfolding Inner4 entries.simps
    by (rule size_pairs_of) (use slot_of_mem in auto)
  then show ?thesis by (simp add: Inner4)
next
  case (Inner16 p keys ch n)
  assume "(b, c) \<in> set (entries nd)"
  then have "size c < size_list (size_option size) ch" unfolding Inner16 entries.simps
    by (rule size_pairs_of) (use slot_of_mem in auto)
  then show ?thesis by (simp add: Inner16)
next
  case (Inner48 p keys ch n)
  assume "(b, c) \<in> set (entries nd)"
  then have "size c < size_list (size_option size) ch" unfolding Inner48 entries.simps
    by (rule size_pairs_of) (use slot_of_mem in auto)
  then show ?thesis by (simp add: Inner48)
next
  case (Inner256 p ch n)
  assume "(b, c) \<in> set (entries nd)"
  then have "size c < size_list (size_option size) ch" unfolding Inner256 entries.simps
    by (rule size_pairs_of) (use slot_of_mem in auto)
  then show ?thesis by (simp add: Inner256)
qed simp

text \<open>\<open>visited\<close> and \<open>out\<close> are threaded through the loop over the children.\<close>

function collect_prefix ::
    "node \<Rightarrow> bytes \<Rightarrow> nat \<Rightarrow> nat \<times> (bytes \<times> u64) list \<Rightarrow> nat \<times> (bytes \<times> u64) list" where
  "collect_prefix nd pre depth acc =
     (case nd of
        Leaf key val \<Rightarrow>
          (fst acc + 1, if prefix pre key \<and> utf8_valid key then snd acc @ [(key, val)] else snd acc)
      | _ \<Rightarrow>
          if \<not> path_matches (node_prefix nd) pre depth then (fst acc + 1, snd acc)
          else
            (let d2 = depth + length (node_prefix nd)
             in fold (\<lambda>(b, c) acc.
                    if length pre \<le> d2 \<or> b = pre ! d2 then collect_prefix c pre (d2 + 1) acc else acc)
                  (entries nd) (fst acc + 1, snd acc)))"
  by pat_completeness auto
termination by (relation "measure (\<lambda>(nd, pre, depth, acc). size nd)") (auto dest: entries_size simp del: entries.simps node.size)

declare collect_prefix.simps [simp del]

subsection \<open>The index\<close>

record art =
  art_root :: "node option"
  art_len :: nat

definition art_new :: art where
  "art_new = \<lparr>art_root = None, art_len = 0\<rparr>"

definition art_clear :: "art \<Rightarrow> art" where
  "art_clear t = t\<lparr>art_root := None, art_len := 0\<rparr>"

definition art_insert :: "art \<Rightarrow> bytes \<Rightarrow> u64 \<Rightarrow> art result" where
  "art_insert t key val =
     (case art_root t of
        None \<Rightarrow> Inr (t\<lparr>art_root := Some (Leaf key val), art_len := 1\<rparr>)
      | Some root \<Rightarrow>
          and_then (insert_rec root key 0 val (art_len t)) (\<lambda>(nd, len).
            Inr (t\<lparr>art_root := Some nd, art_len := len\<rparr>)))"

definition art_delete :: "art \<Rightarrow> bytes \<Rightarrow> art \<times> bool" where
  "art_delete t key =
     (let before = art_len t;
          t' = (case art_root t of
                  None \<Rightarrow> t
                | Some root \<Rightarrow>
                    (case delete_rec root key 0 (art_len t) of (r, len) \<Rightarrow> t\<lparr>art_root := r, art_len := len\<rparr>))
      in (t', art_len t' < before))"

definition art_get :: "bool \<Rightarrow> art \<Rightarrow> bytes \<Rightarrow> u64 option" where
  "art_get avx2 t key = (case art_root t of None \<Rightarrow> None | Some root \<Rightarrow> get_rec avx2 key 0 root)"

definition has_prefix_conflict :: "bool \<Rightarrow> art \<Rightarrow> bytes \<Rightarrow> bool" where
  "has_prefix_conflict avx2 t key =
     (case art_root t of None \<Rightarrow> False | Some root \<Rightarrow> conflict_rec avx2 key 0 root)"

definition scan_prefix_stats :: "art \<Rightarrow> bytes \<Rightarrow> (bytes \<times> u64) list \<times> nat" where
  "scan_prefix_stats t pre =
     (case art_root t of
        None \<Rightarrow> ([], 0)
      | Some root \<Rightarrow> (case collect_prefix root pre 0 (0, []) of (visited, out) \<Rightarrow> (out, visited)))"

definition scan_prefix :: "art \<Rightarrow> bytes \<Rightarrow> (bytes \<times> u64) list" where
  "scan_prefix t pre = fst (scan_prefix_stats t pre)"

definition scan_prefix_page :: "art \<Rightarrow> bytes \<Rightarrow> nat \<Rightarrow> nat \<Rightarrow> (bytes \<times> u64) list" where
  "scan_prefix_page t pre offset limit =
     (let all = sort (scan_prefix t pre)
      in if length all \<le> offset then [] else take limit (drop offset all))"

section \<open>The tree as a set of keys\<close>

lemma case_inner:
  "inner nd \<Longrightarrow> (case nd of Leaf k v \<Rightarrow> f k v | _ \<Rightarrow> x) = x"
  by (cases nd) auto

inductive stored :: "node \<Rightarrow> bytes \<Rightarrow> u64 \<Rightarrow> bool" where
  leaf: "stored (Leaf k v) k v"
| below: "child nd b = Some c \<Longrightarrow> stored c k v \<Longrightarrow> stored nd k v"

text \<open>
  A well-formed tree below a path: the path to a leaf is a prefix of its key, an inner node has a
  child, every child is well-formed below the extended path.
\<close>

inductive art_ok :: "bytes \<Rightarrow> node \<Rightarrow> bool" where
  leaf: "prefix path k \<Longrightarrow> art_ok path (Leaf k v)"
| node: "node_ok nd \<Longrightarrow> inner nd \<Longrightarrow> child nd \<noteq> Map.empty \<Longrightarrow>
    (\<And>b c. child nd b = Some c \<Longrightarrow> art_ok (path @ node_prefix nd @ [b]) c) \<Longrightarrow> art_ok path nd"

inductive_simps stored_leaf [simp]: "stored (Leaf l w) k v"

lemma stored_inner: "inner nd \<Longrightarrow> stored nd k v \<longleftrightarrow> (\<exists>b c. child nd b = Some c \<and> stored c k v)"
  by (subst stored.simps) auto

lemma stored_path: "art_ok path nd \<Longrightarrow> stored nd k v \<Longrightarrow> prefix path k"
proof (induction rule: art_ok.induct)
  case (node nd path)
  then obtain b c where "child nd b = Some c" "stored c k v" by (auto simp: stored_inner)
  then have "prefix (path @ node_prefix nd @ [b]) k" using node.IH by blast
  then show ?case by (meson prefix_order.dual_order.trans prefixI)
qed simp

lemma stored_edge:
  assumes "art_ok (path @ np @ [b]) c" "stored c k v"
  shows "prefix (path @ np) k \<and> length path + length np < length k \<and> k ! (length path + length np) = b"
proof -
  obtain r where "k = (path @ np @ [b]) @ r" using stored_path [OF assms] by (auto simp: prefix_def)
  then show ?thesis by (auto simp: nth_append)
qed

lemma some_stored: "art_ok path nd \<Longrightarrow> \<exists>k v. stored nd k v"
proof (induction rule: art_ok.induct)
  case (node nd path)
  then obtain b c where "child nd b = Some c" by (metis option.exhaust_sel ext)
  then show ?case using node by (blast intro: stored.below)
qed (blast intro: stored.leaf)

lemma get_leaf: "get_rec avx2 kb depth (Leaf lk v) = (if lk = kb then Some v else None)"
  by (simp add: get_rec.simps)

lemma get_inner:
  "inner nd \<Longrightarrow> get_rec avx2 kb depth nd =
     (if \<not> prefix (node_prefix nd) (drop depth kb) then None
      else (let d = depth + length (node_prefix nd)
            in if length kb \<le> d then None
               else (case child_of avx2 nd (kb ! d) of None \<Rightarrow> None | Some c \<Rightarrow> get_rec avx2 kb (d + 1) c)))"
  by (subst get_rec.simps) (simp add: case_inner)

lemma prefix_split: "prefix path kb \<Longrightarrow> prefix np (drop (length path) kb) \<longleftrightarrow> prefix (path @ np) kb"
  by (auto simp: prefix_def)

lemma prefix_step:
  "prefix (path @ np) kb \<Longrightarrow> length path + length np < length kb \<Longrightarrow>
   prefix (path @ np @ [kb ! (length path + length np)]) kb"
  by (metis append.assoc append_one_prefix length_append)

lemma get_stored:
  "art_ok path nd \<Longrightarrow> prefix path kb \<Longrightarrow> get_rec avx2 kb (length path) nd = Some v \<longleftrightarrow> stored nd kb v"
proof (induction rule: art_ok.induct)
  case (leaf path k w)
  then show ?case by (auto simp: get_leaf)
next
  case (node nd path)
  let ?np = "node_prefix nd" and ?d = "length path + length (node_prefix nd)"
  note edge = stored_edge [OF node.hyps(4)]
  have away: "\<not> stored nd kb v" if "\<not> (prefix (path @ ?np) kb \<and> ?d < length kb)"
    using edge that node.hyps(2) by (auto simp: stored_inner)
  show ?case
  proof (cases "prefix (path @ ?np) kb \<and> ?d < length kb")
    case False
    then have "get_rec avx2 kb (length path) nd = None"
      unfolding get_inner [OF node.hyps(2)] prefix_split [OF node.prems] Let_def by auto
    then show ?thesis using away [OF False] by simp
  next
    case True
    have get: "get_rec avx2 kb (length path) nd =
        (case child nd (kb ! ?d) of None \<Rightarrow> None | Some c \<Rightarrow> get_rec avx2 kb (?d + 1) c)"
      unfolding get_inner [OF node.hyps(2)] prefix_split [OF node.prems] Let_def child_of_avx2 [OF node.hyps(1), of avx2]
      using True by simp
    have here: "stored nd kb v \<longleftrightarrow> (\<exists>c. child nd (kb ! ?d) = Some c \<and> stored c kb v)"
      using edge node.hyps(2) by (auto simp: stored_inner)
    show ?thesis
    proof (cases "child nd (kb ! ?d)")
      case (Some c)
      have "prefix (path @ ?np @ [kb ! ?d]) kb" using prefix_step True by blast
      then have "get_rec avx2 kb (length (path @ ?np @ [kb ! ?d])) c = Some v \<longleftrightarrow> stored c kb v"
        by (rule node.IH [OF Some])
      then show ?thesis using get here Some by (simp add: add.assoc)
    qed (use get here in simp)
  qed
qed

lemma stored_unique: "art_ok path nd \<Longrightarrow> stored nd k v \<Longrightarrow> stored nd k w \<Longrightarrow> v = w"
  using get_stored [of path nd k] stored_path [of path nd k v] by (metis option.inject)

section \<open>Insertion\<close>

lemma pair4_facts:
  assumes "b1 \<noteq> b2"
  shows "node_ok (pair4 p b1 c1 b2 c2) \<and> inner (pair4 p b1 c1 b2 c2) \<and> node_prefix (pair4 p b1 c1 b2 c2) = p \<and>
    child (pair4 p b1 c1 b2 c2) = [b1 \<mapsto> c1, b2 \<mapsto> c2]"
proof -
  have "narrow_ok 4 [b1, b2, 0, 0] [Some c1, Some c2, None, None] 2"
    using assms by (simp add: narrow_ok_def numeral_2_eq_2)
  moreover from this have "narrow_child [b1, b2, 0, 0] [Some c1, Some c2, None, None] 2 = [b1 \<mapsto> c1, b2 \<mapsto> c2]"
    using assms by (auto simp: narrow_map narrow_list_def numeral_2_eq_2 fun_eq_iff)
  ultimately show ?thesis by (simp add: pair4_def)
qed

lemma pair4_ok:
  assumes b: "b1 \<noteq> b2" and ok: "art_ok (path @ p @ [b1]) c1" "art_ok (path @ p @ [b2]) c2"
  shows "art_ok path (pair4 p b1 c1 b2 c2) \<and>
    (\<forall>k v. stored (pair4 p b1 c1 b2 c2) k v \<longleftrightarrow> stored c1 k v \<or> stored c2 k v)"
proof
  let ?n = "pair4 p b1 c1 b2 c2"
  note n = pair4_facts [OF b, of p c1 c2]
  have ch: "child ?n b = (if b = b1 then Some c1 else if b = b2 then Some c2 else None)" for b
    using n b by simp
  show "art_ok path ?n"
  proof (rule art_ok.node)
    show "child ?n \<noteq> Map.empty" using ch [of b1] by auto
    show "art_ok (path @ node_prefix ?n @ [b]) c" if "child ?n b = Some c" for b c
      using that n ok unfolding ch by (auto split: if_splits)
  qed (use n in simp_all)
  show "\<forall>k v. stored ?n k v \<longleftrightarrow> stored c1 k v \<or> stored c2 k v"
  proof (intro allI iffI)
    fix k v
    assume "stored ?n k v"
    then show "stored c1 k v \<or> stored c2 k v" using n unfolding stored_inner [OF n [THEN conjunct2, THEN conjunct1]] ch
      by (auto split: if_splits)
  next
    fix k v
    assume "stored c1 k v \<or> stored c2 k v"
    then show "stored ?n k v" using ch [of b1] ch [of b2] b by (auto intro: stored.below)
  qed
qed

lemma common_prefix_facts:
  "common_prefix a b \<le> length a \<and> common_prefix a b \<le> length b \<and>
   take (common_prefix a b) a = take (common_prefix a b) b \<and>
   (common_prefix a b < length a \<longrightarrow> common_prefix a b < length b \<longrightarrow> a ! common_prefix a b \<noteq> b ! common_prefix a b)"
proof (induction a b rule: list_induct2')
  case (4 x xs y ys)
  then show ?case by (cases "x = y") (simp_all add: common_prefix_def)
qed (simp_all add: common_prefix_def)

lemma common_prefix_all: "length a \<le> common_prefix a b \<longleftrightarrow> prefix a b"
proof -
  have "common_prefix a b = length a" if "prefix a b"
    using that by (induction a b rule: list_induct2') (auto simp: common_prefix_def)
  moreover have "prefix a b" if "length a \<le> common_prefix a b"
    using common_prefix_facts [of a b] that by (metis le_antisym take_all_iff take_is_prefix)
  ultimately show ?thesis by auto
qed

definition apart :: "bytes \<Rightarrow> bytes \<Rightarrow> bool" where
  "apart k key \<longleftrightarrow> k = key \<or> \<not> prefix k key \<and> \<not> prefix key k"

definition prefix_free :: "node \<Rightarrow> bytes \<Rightarrow> bool" where
  "prefix_free nd key \<longleftrightarrow> (\<forall>k v. stored nd k v \<longrightarrow> apart k key)"

text \<open>What an insertion below a path has to deliver.\<close>

definition inserted :: "bytes \<Rightarrow> node \<Rightarrow> bytes \<Rightarrow> u64 \<Rightarrow> nat \<Rightarrow> node \<times> nat \<Rightarrow> bool" where
  "inserted path nd key val len r \<longleftrightarrow>
     art_ok path (fst r) \<and>
     (\<forall>k w. stored (fst r) k w \<longleftrightarrow> (if k = key then w = val else stored nd k w)) \<and>
     snd r = (if \<exists>w. stored nd key w then len else len + 1)"

lemma insert_leaf_ok:
  assumes "prefix path lk" "prefix path key" "apart lk key"
  shows "\<exists>r. insert_leaf lk w key (length path) val len = Inr r \<and> inserted path (Leaf lk w) key val len r"
proof (cases "lk = key")
  case True
  then have "inserted path (Leaf lk w) key val len (Leaf key val, len)"
    using assms by (auto simp: inserted_def intro: art_ok.leaf)
  then show ?thesis using True by (simp add: insert_leaf_def)
next
  case False
  obtain a b where a: "lk = path @ a" and b: "key = path @ b" using assms(1,2) by (auto simp: prefix_def)
  let ?cp = "common_prefix a b"
  have np: "\<not> prefix a b" "\<not> prefix b a" using assms(3) False a b by (auto simp: apart_def)
  have lt: "?cp < length a" using np(1) common_prefix_all [of a b] by simp
  have lt2: "?cp < length b"
  proof (rule ccontr)
    assume "\<not> ?cp < length b"
    then have "b = take ?cp a" using common_prefix_facts [of a b] by (metis le_antisym not_le take_all_iff)
    then show False using np(2) take_is_prefix by metis
  qed
  have ne: "a ! ?cp \<noteq> b ! ?cp" and tk: "take ?cp a = take ?cp b" using common_prefix_facts [of a b] lt lt2 by auto
  let ?n = "pair4 (take ?cp a) (a ! ?cp) (Leaf lk w) (b ! ?cp) (Leaf key val)"
  have run: "insert_leaf lk w key (length path) val len = Inr (?n, len + 1)"
    using False lt lt2 by (simp add: insert_leaf_def a b slice_at_def Let_def nth_append)
  have "prefix (take ?cp a @ [a ! ?cp]) a" "prefix (take ?cp a @ [b ! ?cp]) b"
    using lt lt2 take_is_prefix [of "Suc ?cp"] unfolding tk by (metis take_Suc_conv_app_nth tk)+
  then have "art_ok (path @ take ?cp a @ [a ! ?cp]) (Leaf lk w)" "art_ok (path @ take ?cp a @ [b ! ?cp]) (Leaf key val)"
    unfolding a b by (auto intro!: art_ok.leaf)
  then have "inserted path (Leaf lk w) key val len (?n, len + 1)"
    using pair4_ok [OF ne, of path "take ?cp a"] False by (auto simp: inserted_def)
  then show ?thesis using run by blast
qed

lemma art_ok_inner:
  "art_ok path nd \<Longrightarrow> inner nd \<Longrightarrow>
   node_ok nd \<and> child nd \<noteq> Map.empty \<and> (\<forall>b c. child nd b = Some c \<longrightarrow> art_ok (path @ node_prefix nd @ [b]) c)"
  by (erule art_ok.cases) auto

text \<open>A node whose prefix moves up by its path is well-formed below the longer path.\<close>

lemma art_ok_with_prefix:
  assumes "art_ok path nd" "inner nd" "path' @ q = path @ node_prefix nd"
  shows "art_ok path' (with_prefix q nd) \<and> (\<forall>k v. stored (with_prefix q nd) k v \<longleftrightarrow> stored nd k v)"
proof
  note facts = art_ok_inner [OF assms(1,2)]
  have e: "path' @ q @ r = path @ node_prefix nd @ r" for r using assms(3) by (metis append.assoc)
  show "art_ok path' (with_prefix q nd)"
    by (rule art_ok.node) (use facts assms(2) e in \<open>auto simp: e\<close>)
  show "\<forall>k v. stored (with_prefix q nd) k v \<longleftrightarrow> stored nd k v"
    using assms(2) by (simp add: stored_inner)
qed

lemma split_node_ok:
  assumes ok: "art_ok path nd" and inn: "inner nd" and key: "prefix path key"
    and free: "prefix_free nd key" and off: "\<not> prefix (path @ node_prefix nd) key"
  shows "\<exists>r. split_node nd key (length path) val len = Inr r \<and> inserted path nd key val len r"
proof -
  obtain b where b: "key = path @ b" using key by (auto simp: prefix_def)
  let ?np = "node_prefix nd" and ?cp = "common_prefix (node_prefix nd) b"
  obtain k w where k: "stored nd k w" using some_stored [OF ok] by blast
  have below: "prefix (path @ ?np) k" if "stored nd k w" for k w
    using that inn art_ok_inner [OF ok inn] unfolding stored_inner [OF inn] by (metis stored_edge)
  have lt: "?cp < length ?np" using off b common_prefix_all [of ?np b] by simp
  have lt2: "?cp < length b"
  proof (rule ccontr)
    assume "\<not> ?cp < length b"
    then have "b = take ?cp ?np" using common_prefix_facts [of ?np b] by (metis le_antisym not_le take_all_iff)
    then have "prefix b ?np" using take_is_prefix by metis
    then have "prefix key k" unfolding b using below [OF k] by (meson prefix_order.trans same_prefix_prefix)
    then have "k = key" using free k by (auto simp: prefix_free_def apart_def)
    then show False using off below [OF k] by simp
  qed
  have ne: "?np ! ?cp \<noteq> b ! ?cp" and tk: "take ?cp ?np = take ?cp b" using common_prefix_facts [of ?np b] lt lt2 by auto
  let ?old = "with_prefix (drop (?cp + 1) ?np) nd"
  let ?n = "pair4 (take ?cp ?np) (?np ! ?cp) ?old (b ! ?cp) (Leaf key val)"
  have run: "split_node nd key (length path) val len = Inr (?n, len + 1)"
    using lt lt2 by (simp add: split_node_def b slice_at_def Let_def)
  have "take ?cp ?np @ ?np ! ?cp # drop (?cp + 1) ?np = ?np" using lt by (metis id_take_nth_drop Suc_eq_plus1)
  then have "(path @ take ?cp ?np @ [?np ! ?cp]) @ drop (?cp + 1) ?np = path @ ?np" by simp
  note old = art_ok_with_prefix [OF ok inn this]
  have "prefix (take ?cp ?np @ [b ! ?cp]) b"
    using lt2 take_is_prefix [of "Suc ?cp" b] unfolding tk by (metis take_Suc_conv_app_nth tk)
  then have "art_ok (path @ take ?cp ?np @ [b ! ?cp]) (Leaf key val)"
    unfolding b by (auto intro!: art_ok.leaf)
  note new = pair4_ok [OF ne conjunct1 [OF old] this]
  have "\<not> stored nd key w" for w using below [of key] off by blast
  then have "inserted path nd key val len (?n, len + 1)"
    using new old by (auto simp: inserted_def)
  then show ?thesis using run by blast
qed

lemma insert_inner:
  "inner nd \<Longrightarrow> insert_rec nd key depth val len =
     (let p = node_prefix nd; d2 = depth + length p
      in if d2 \<le> length key \<and> prefix p (drop depth key) then
           if length key \<le> d2 then Inr (nd, len)
           else (case find_slot nd (key ! d2) of
               Some i \<Rightarrow>
                 (case slot_of (kids nd) i of
                    None \<Rightarrow> Inl Panic
                  | Some c \<Rightarrow> and_then (insert_rec c key (d2 + 1) val len) (\<lambda>(c', len'). Inr (put_slot nd i c', len')))
             | None \<Rightarrow> Inr (add_child nd (key ! d2) (Leaf key val), len + 1))
         else split_node nd key depth val len)"
  by (subst insert_rec.simps) (simp add: case_inner)

text \<open>Replacing or adding one child keeps the rest.\<close>

lemma child_update_ok:
  assumes ok: "art_ok path nd" and inn: "inner nd"
    and nd': "node_ok nd'" "child nd' = (child nd)(b \<mapsto> c)" "node_prefix nd' = node_prefix nd" "inner nd'"
    and c: "art_ok (path @ node_prefix nd @ [b]) c"
  shows "art_ok path nd' \<and>
    (\<forall>k v. stored nd' k v \<longleftrightarrow> stored c k v \<or> (\<exists>a d. a \<noteq> b \<and> child nd a = Some d \<and> stored d k v))"
proof
  show "art_ok path nd'"
  proof (rule art_ok.node)
    show "child nd' \<noteq> Map.empty" using nd'(2) by (metis fun_upd_same option.distinct(1))
    show "art_ok (path @ node_prefix nd' @ [a]) d" if "child nd' a = Some d" for a d
      using that nd'(2,3) c art_ok_inner [OF ok inn] by (auto split: if_splits)
  qed (use nd' in simp_all)
  show "\<forall>k v. stored nd' k v \<longleftrightarrow> stored c k v \<or> (\<exists>a d. a \<noteq> b \<and> child nd a = Some d \<and> stored d k v)"
    unfolding stored_inner [OF nd'(4)] nd'(2) by (auto split: if_splits)
qed

lemma insert_rec_ok:
  "art_ok path nd \<Longrightarrow> prefix path key \<Longrightarrow> prefix_free nd key \<Longrightarrow>
   \<exists>r. insert_rec nd key (length path) val len = Inr r \<and> inserted path nd key val len r"
proof (induction rule: art_ok.induct)
  case (leaf path k w)
  then show ?case using insert_leaf_ok [of path k key w val len] by (simp add: insert_rec.simps prefix_free_def)
next
  case (node nd path)
  let ?np = "node_prefix nd" and ?d = "length path + length (node_prefix nd)"
  have ok: "art_ok path nd" using node.hyps by (rule art_ok.node)
  note inn = node.hyps(2) and edge = stored_edge [OF node.hyps(4)]
  show ?case
  proof (cases "prefix (path @ ?np) key")
    case False
    then have "insert_rec nd key (length path) val len = split_node nd key (length path) val len"
      unfolding insert_inner [OF inn] Let_def prefix_split [OF node.prems(1)] by simp
    then show ?thesis using split_node_ok [OF ok inn node.prems False] by simp
  next
    case True
    obtain k w where k: "stored nd k w" using some_stored [OF ok] by blast
    then have "prefix (path @ ?np) k" "?d < length k" using edge inn by (auto simp: stored_inner)
    have d: "?d < length key"
    proof (rule ccontr)
      assume "\<not> ?d < length key"
      then have "key = path @ ?np" using True by (auto simp: prefix_def)
      then show False using k node.prems(2) \<open>prefix (path @ ?np) k\<close> \<open>?d < length k\<close>
        by (auto simp: prefix_free_def apart_def)
    qed
    let ?b = "key ! ?d"
    have path: "prefix (path @ ?np @ [?b]) key" by (rule prefix_step [OF True d])
    let ?rest = "\<lambda>k v. \<exists>a e. a \<noteq> ?b \<and> child nd a = Some e \<and> stored e k v"
    have here: "stored nd k v \<longleftrightarrow> (\<exists>c. child nd ?b = Some c \<and> stored c k v) \<or> ?rest k v" for k v
      unfolding stored_inner [OF inn] by metis
    have other: "\<not> ?rest key v" for v using edge by blast
    have run: "insert_rec nd key (length path) val len =
        (case find_slot nd ?b of
           Some i \<Rightarrow>
             (case slot_of (kids nd) i of
                None \<Rightarrow> Inl Panic
              | Some c \<Rightarrow> and_then (insert_rec c key (?d + 1) val len) (\<lambda>(c', len'). Inr (put_slot nd i c', len')))
         | None \<Rightarrow> Inr (add_child nd ?b (Leaf key val), len + 1))"
      unfolding insert_inner [OF inn] Let_def prefix_split [OF node.prems(1)] using True d by simp
    show ?thesis
    proof (cases "find_slot nd ?b")
      case None
      then have free: "child nd ?b = None" using find_slot_None [OF node.hyps(1)] by simp
      note add = add_child_facts [OF node.hyps(1) inn free, of "Leaf key val"]
      have "art_ok (path @ ?np @ [?b]) (Leaf key val)" using path by (rule art_ok.leaf)
      then have "inserted path nd key val len (add_child nd ?b (Leaf key val), len + 1)"
        using child_update_ok [OF ok inn, of "add_child nd ?b (Leaf key val)" ?b "Leaf key val"] add
        unfolding inserted_def here free by simp (use other in blast)
      then show ?thesis using run None by simp
    next
      case (Some i)
      obtain c where c: "slot_of (kids nd) i = Some c" "child nd ?b = Some c"
        using find_slot_Some [OF node.hyps(1) Some] by blast
      have "prefix_free c key" using node.prems(2) c(2) by (auto simp: prefix_free_def intro: stored.below)
      then obtain r where r: "insert_rec c key (length (path @ ?np @ [?b])) val len = Inr r"
        and ins: "inserted (path @ ?np @ [?b]) c key val len r"
        using node.IH [OF c(2) path] by blast
      obtain c' len' where r': "r = (c', len')" by (cases r)
      note put = put_slot_facts [OF node.hyps(1) Some, of c']
      have "inserted path nd key val len (put_slot nd i c', len')"
        using child_update_ok [OF ok inn, of "put_slot nd i c'" ?b c'] put ins
        unfolding inserted_def r' here c(2) by simp (use other in blast)
      then show ?thesis using run Some c r r' by (simp add: add.assoc)
    qed
  qed
qed

section \<open>Deletion\<close>

lemma delete_inner:
  "inner nd \<Longrightarrow> delete_rec nd key depth len =
     (let p = node_prefix nd; d2 = depth + length p
      in if \<not> prefix p (drop (min depth (length key)) key) \<or> length key \<le> d2 then (Some nd, len)
         else
           (case find_slot nd (key ! d2) of
              None \<Rightarrow> (after_miss nd, len)
            | Some i \<Rightarrow>
                (case slot_of (kids nd) i of
                   None \<Rightarrow> (settle nd, len)
                 | Some c \<Rightarrow>
                     (case delete_rec c key (d2 + 1) len of
                        (Some c2, len') \<Rightarrow> (settle (put_slot nd i c2), len')
                      | (None, len') \<Rightarrow> (settle (drop_child nd (key ! d2) i), len')))))"
  by (subst delete_rec.simps) (simp add: case_inner)

definition deleted :: "bytes \<Rightarrow> node \<Rightarrow> bytes \<Rightarrow> nat \<Rightarrow> node option \<times> nat \<Rightarrow> bool" where
  "deleted path nd key len r \<longleftrightarrow>
     (case fst r of
        None \<Rightarrow> \<forall>k v. stored nd k v \<longrightarrow> k = key
      | Some nd' \<Rightarrow> art_ok path nd' \<and> (\<forall>k v. stored nd' k v \<longleftrightarrow> k \<noteq> key \<and> stored nd k v)) \<and>
     snd r = (if \<exists>w. stored nd key w then len - 1 else len)"

text \<open>A node with the same children below the same path holds the same keys.\<close>

lemma same_children_ok:
  assumes "art_ok path nd" "inner nd" "node_ok nd'" "child nd' = child nd" "node_prefix nd' = node_prefix nd" "inner nd'"
  shows "art_ok path nd' \<and> (\<forall>k v. stored nd' k v \<longleftrightarrow> stored nd k v)"
proof
  note facts = art_ok_inner [OF assms(1,2)]
  show "art_ok path nd'" by (rule art_ok.node) (use facts assms in auto)
  show "\<forall>k v. stored nd' k v \<longleftrightarrow> stored nd k v" by (simp add: stored_inner assms)
qed

lemma settle_ok:
  assumes "art_ok path nd" "inner nd"
  shows "\<exists>nd'. settle nd = Some nd' \<and> art_ok path nd' \<and> (\<forall>k v. stored nd' k v \<longleftrightarrow> stored nd k v)"
proof -
  note facts = art_ok_inner [OF assms]
  then have "settle nd \<noteq> None" using settle_facts [of nd] assms(2) by blast
  then obtain nd' where nd': "settle nd = Some nd'" by blast
  then have "node_ok nd' \<and> child nd' = child nd \<and> node_prefix nd' = node_prefix nd \<and> inner nd'"
    using settle_facts [of nd] facts assms(2) by blast
  then show ?thesis using same_children_ok [OF assms, of nd'] nd' by blast
qed

lemma after_miss_ok:
  assumes "art_ok path nd" "inner nd"
  shows "\<exists>nd'. after_miss nd = Some nd' \<and> art_ok path nd' \<and> (\<forall>k v. stored nd' k v \<longleftrightarrow> stored nd k v)"
proof -
  have "after_miss nd = settle nd \<or> after_miss nd = Some nd" using assms(2) by (cases nd) auto
  then show ?thesis using settle_ok [OF assms] assms(1) by auto
qed

lemma child_remove_ok:
  assumes ok: "art_ok path nd" and inn: "inner nd"
    and nd': "node_ok nd'" "child nd' = (child nd)(b := None)" "node_prefix nd' = node_prefix nd" "inner nd'"
  shows "(child nd' \<noteq> Map.empty \<longrightarrow> art_ok path nd') \<and>
    (\<forall>k v. stored nd' k v \<longleftrightarrow> (\<exists>a d. a \<noteq> b \<and> child nd a = Some d \<and> stored d k v))"
proof
  show "child nd' \<noteq> Map.empty \<longrightarrow> art_ok path nd'"
  proof
    assume ne: "child nd' \<noteq> Map.empty"
    show "art_ok path nd'"
    proof (rule art_ok.node)
      show "art_ok (path @ node_prefix nd' @ [a]) d" if "child nd' a = Some d" for a d
        using that nd'(2,3) art_ok_inner [OF ok inn] by (auto split: if_splits)
    qed (use nd' ne in simp_all)
  qed
  show "\<forall>k v. stored nd' k v \<longleftrightarrow> (\<exists>a d. a \<noteq> b \<and> child nd a = Some d \<and> stored d k v)"
    unfolding stored_inner [OF nd'(4)] nd'(2) by (auto split: if_splits)
qed

lemma delete_rec_ok:
  "art_ok path nd \<Longrightarrow> prefix path key \<Longrightarrow> deleted path nd key len (delete_rec nd key (length path) len)"
proof (induction rule: art_ok.induct)
  case (leaf path k w)
  then show ?case by (auto simp: delete_rec.simps deleted_def intro: art_ok.leaf)
next
  case (node nd path)
  let ?np = "node_prefix nd" and ?d = "length path + length (node_prefix nd)"
  have ok: "art_ok path nd" using node.hyps by (rule art_ok.node)
  note inn = node.hyps(2) and edge = stored_edge [OF node.hyps(4)]
  have mn: "min (length path) (length key) = length path" using node.prems by (simp add: prefix_length_le)
  show ?case
  proof (cases "prefix (path @ ?np) key \<and> ?d < length key")
    case False
    then have "delete_rec nd key (length path) len = (Some nd, len)"
      unfolding delete_inner [OF inn] Let_def mn prefix_split [OF node.prems] by auto
    moreover have "\<not> stored nd key w" for w
      using edge False unfolding stored_inner [OF inn] by blast
    ultimately show ?thesis using ok by (auto simp: deleted_def)
  next
    case True
    let ?b = "key ! ?d"
    have path: "prefix (path @ ?np @ [?b]) key" using prefix_step True by blast
    let ?rest = "\<lambda>k v. \<exists>a e. a \<noteq> ?b \<and> child nd a = Some e \<and> stored e k v"
    have here: "stored nd k v \<longleftrightarrow> (\<exists>c. child nd ?b = Some c \<and> stored c k v) \<or> ?rest k v" for k v
      unfolding stored_inner [OF inn] by metis
    have other: "\<not> ?rest key v" for v using edge by blast
    have run: "delete_rec nd key (length path) len =
        (case find_slot nd ?b of
           None \<Rightarrow> (after_miss nd, len)
         | Some i \<Rightarrow>
             (case slot_of (kids nd) i of
                None \<Rightarrow> (settle nd, len)
              | Some c \<Rightarrow>
                  (case delete_rec c key (?d + 1) len of
                     (Some c2, len') \<Rightarrow> (settle (put_slot nd i c2), len')
                   | (None, len') \<Rightarrow> (settle (drop_child nd ?b i), len'))))"
      unfolding delete_inner [OF inn] Let_def mn prefix_split [OF node.prems] using True by simp
    show ?thesis
    proof (cases "find_slot nd ?b")
      case None
      then have free: "child nd ?b = None" using find_slot_None [OF node.hyps(1)] by simp
      then have "\<not> stored nd key w" for w using here other by simp
      moreover from this have "k \<noteq> key" if "stored nd k w" for k w using that by blast
      ultimately show ?thesis using run None after_miss_ok [OF ok inn] by (auto simp: deleted_def)
    next
      case (Some i)
      obtain c where c: "slot_of (kids nd) i = Some c" "child nd ?b = Some c"
        using find_slot_Some [OF node.hyps(1) Some] by blast
      obtain r len' where r: "delete_rec c key (?d + 1) len = (r, len')" by fastforce
      have del: "deleted (path @ ?np @ [?b]) c key len (r, len')"
        using node.IH [OF c(2) path] r by (simp add: add.assoc)
      have len': "len' = (if \<exists>w. stored nd key w then len - 1 else len)"
      proof -
        have "(\<exists>w. stored nd key w) \<longleftrightarrow> (\<exists>w. stored c key w)" unfolding here c(2) using other by blast
        then show ?thesis using del by (simp add: deleted_def)
      qed
      show ?thesis
      proof (cases r)
        case None
        let ?n = "drop_child nd ?b i"
        note n = drop_child_facts [OF node.hyps(1) Some]
        have rm: "(child ?n \<noteq> Map.empty \<longrightarrow> art_ok path ?n) \<and> (\<forall>k v. stored ?n k v \<longleftrightarrow> ?rest k v)"
          using child_remove_ok [OF ok inn, of ?n ?b] n by blast
        have gone: "stored c k v \<Longrightarrow> k = key" for k v using del None by (auto simp: deleted_def)
        have st: "?rest k v \<longleftrightarrow> k \<noteq> key \<and> stored nd k v" for k v
        proof
          show "k \<noteq> key \<and> stored nd k v" if "?rest k v" using that other unfolding here by blast
          show "?rest k v" if "k \<noteq> key \<and> stored nd k v"
            using that gone unfolding here c(2) by blast
        qed
        show ?thesis
        proof (cases "child ?n = Map.empty")
          case True
          then have "settle ?n = None" using settle_facts [of ?n] n by blast
          have "\<not> ?rest k v" for k v using rm True n by (auto simp: stored_inner)
          then have "stored nd k v \<longrightarrow> k = key" for k v using st by blast
          then show ?thesis using run Some c r None \<open>settle ?n = None\<close> len' by (simp add: deleted_def)
        next
          case False
          then obtain nd' where "settle ?n = Some nd'" "art_ok path nd'" "\<forall>k v. stored nd' k v \<longleftrightarrow> stored ?n k v"
            using settle_ok [of path ?n] rm n by blast
          then show ?thesis using run Some c r None st len' rm by (simp add: deleted_def)
        qed
      next
        case (Some c2)
        let ?n = "put_slot nd i c2"
        note n = put_slot_facts [OF node.hyps(1) \<open>find_slot nd ?b = Some i\<close>, of c2]
        have c2: "art_ok (path @ ?np @ [?b]) c2" "stored c2 k v \<longleftrightarrow> k \<noteq> key \<and> stored c k v" for k v
          using del Some by (auto simp: deleted_def)
        have up: "art_ok path ?n \<and> (\<forall>k v. stored ?n k v \<longleftrightarrow> stored c2 k v \<or> ?rest k v)"
          using child_update_ok [OF ok inn, of ?n ?b c2] n c2(1) by blast
        have st: "stored c2 k v \<or> ?rest k v \<longleftrightarrow> k \<noteq> key \<and> stored nd k v" for k v
          unfolding c2(2) here c(2) using other by blast
        obtain nd' where "settle ?n = Some nd'" "art_ok path nd'" "\<forall>k v. stored nd' k v \<longleftrightarrow> stored ?n k v"
          using settle_ok [of path ?n] up n by blast
        then show ?thesis using run \<open>find_slot nd ?b = Some i\<close> c r Some st len' up by (simp add: deleted_def)
      qed
    qed
  qed
qed

section \<open>The index is a finite map\<close>

definition art_map :: "art \<Rightarrow> bytes \<Rightarrow> u64 option" where
  "art_map t = art_get False t"

definition art_inv :: "art \<Rightarrow> bool" where
  "art_inv t \<longleftrightarrow>
     (case art_root t of None \<Rightarrow> True | Some nd \<Rightarrow> art_ok [] nd) \<and>
     finite (dom (art_map t)) \<and> art_len t = card (dom (art_map t)) \<and> (\<forall>k \<in> dom (art_map t). utf8_valid k)"

definition keys_apart :: "art \<Rightarrow> bytes \<Rightarrow> bool" where
  "keys_apart t key \<longleftrightarrow> (\<forall>k \<in> dom (art_map t). apart k key)"

lemma get_stored_top: "art_ok [] nd \<Longrightarrow> get_rec avx2 kb 0 nd = Some v \<longleftrightarrow> stored nd kb v"
  using get_stored [of "[]" nd kb avx2 v] by simp

lemma art_map_stored: "art_root t = Some nd \<Longrightarrow> art_ok [] nd \<Longrightarrow> art_map t k = Some v \<longleftrightarrow> stored nd k v"
  by (simp add: art_map_def art_get_def get_stored_top)

lemma art_map_empty: "art_root t = None \<Longrightarrow> art_map t = Map.empty"
  by (simp add: art_map_def art_get_def fun_eq_iff)

lemma art_get_map: "art_inv t \<Longrightarrow> art_get avx2 t = art_map t"
proof (cases "art_root t")
  case (Some nd)
  assume "art_inv t"
  then have "art_ok [] nd" using Some by (simp add: art_inv_def)
  then have "get_rec avx2 k 0 nd = get_rec False k 0 nd" for k
    using get_stored_top by (metis option.exhaust)
  then show ?thesis using Some by (simp add: art_map_def art_get_def fun_eq_iff)
qed (simp add: art_map_def art_get_def fun_eq_iff)

lemma art_dom: "art_root t = Some nd \<Longrightarrow> art_ok [] nd \<Longrightarrow> k \<in> dom (art_map t) \<longleftrightarrow> (\<exists>v. stored nd k v)"
  using art_map_stored by (auto simp: dom_def)

lemma art_new_inv: "art_inv art_new \<and> art_map art_new = Map.empty"
  by (simp add: art_inv_def art_new_def art_map_empty)

lemma art_clear_inv: "art_inv (art_clear t) \<and> art_map (art_clear t) = Map.empty"
  by (simp add: art_inv_def art_clear_def art_map_empty)

lemma art_insert_ok:
  assumes inv: "art_inv t" and free: "keys_apart t key" and key: "utf8_valid key"
  shows "\<exists>t'. art_insert t key val = Inr t' \<and> art_inv t' \<and> art_map t' = (art_map t)(key \<mapsto> val)"
proof -
  have len: "card (insert key (dom (art_map t))) = (if key \<in> dom (art_map t) then art_len t else art_len t + 1)"
    using inv by (simp add: art_inv_def insert_absorb)
  show ?thesis
  proof (cases "art_root t")
    case None
    let ?t = "t\<lparr>art_root := Some (Leaf key val), art_len := 1\<rparr>"
    have "art_map ?t = (art_map t)(key \<mapsto> val)"
      using art_map_empty [OF None] by (auto simp: fun_eq_iff art_map_def art_get_def get_leaf)
    then have "art_inv ?t \<and> art_map ?t = (art_map t)(key \<mapsto> val)"
      using art_map_empty [OF None] key by (simp add: art_inv_def art_ok.leaf)
    then show ?thesis using None by (simp add: art_insert_def)
  next
    case (Some nd)
    then have ok: "art_ok [] nd" using inv by (simp add: art_inv_def)
    have "prefix_free nd key" using free art_dom [OF Some ok] by (auto simp: prefix_free_def keys_apart_def)
    then obtain r where run: "insert_rec nd key 0 val (art_len t) = Inr r" and ins: "inserted [] nd key val (art_len t) r"
      using insert_rec_ok [OF ok, of key val "art_len t"] by auto
    obtain nd' len' where r: "r = (nd', len')" by (cases r)
    let ?t = "t\<lparr>art_root := Some nd', art_len := len'\<rparr>"
    have ok': "art_ok [] nd'" and st: "\<And>k w. stored nd' k w \<longleftrightarrow> (if k = key then w = val else stored nd k w)"
      using ins r by (auto simp: inserted_def)
    have m: "art_map ?t = (art_map t)(key \<mapsto> val)"
    proof
      fix k
      have "art_map ?t k = Some w \<longleftrightarrow> ((art_map t)(key \<mapsto> val)) k = Some w" for w
        using art_map_stored [of ?t nd'] ok' st art_map_stored [OF Some ok] by auto
      then show "art_map ?t k = ((art_map t)(key \<mapsto> val)) k" by (metis option.exhaust)
    qed
    have "len' = (if key \<in> dom (art_map t) then art_len t else art_len t + 1)"
      using ins r art_dom [OF Some ok] by (simp add: inserted_def)
    then have "art_inv ?t" using inv ok' m len key by (auto simp: art_inv_def)
    then show ?thesis using run r m Some by (simp add: art_insert_def)
  qed
qed

lemma art_delete_ok:
  assumes inv: "art_inv t"
  shows "art_inv (fst (art_delete t key)) \<and> art_map (fst (art_delete t key)) = (art_map t)(key := None) \<and>
    (snd (art_delete t key) \<longleftrightarrow> key \<in> dom (art_map t))"
proof (cases "art_root t")
  case None
  then show ?thesis using inv art_map_empty [OF None] by (simp add: art_delete_def fun_eq_iff dom_def)
next
  case (Some nd)
  then have ok: "art_ok [] nd" using inv by (simp add: art_inv_def)
  obtain r len' where run: "delete_rec nd key 0 (art_len t) = (r, len')" by fastforce
  have del: "deleted [] nd key (art_len t) (r, len')" using delete_rec_ok [OF ok, of key "art_len t"] run by simp
  let ?t = "t\<lparr>art_root := r, art_len := len'\<rparr>"
  have st: "art_map ?t k = Some w \<longleftrightarrow> k \<noteq> key \<and> stored nd k w" for k w
  proof (cases r)
    case None
    then show ?thesis using del art_map_empty [of ?t] by (auto simp: deleted_def)
  next
    case (Some nd')
    then show ?thesis using del art_map_stored [of ?t nd'] by (auto simp: deleted_def)
  qed
  have m: "art_map ?t = (art_map t)(key := None)"
  proof
    fix k
    have "art_map ?t k = Some w \<longleftrightarrow> ((art_map t)(key := None)) k = Some w" for w
      using st art_map_stored [OF Some ok] by auto
    then show "art_map ?t k = ((art_map t)(key := None)) k" by (metis option.exhaust)
  qed
  have len': "len' = (if key \<in> dom (art_map t) then art_len t - 1 else art_len t)"
    using del art_dom [OF Some ok] by (simp add: deleted_def)
  have c: "card (dom (art_map t) - {key}) = len'" using inv len' by (simp add: art_inv_def)
  have "art_inv ?t" using inv m c del by (auto simp: art_inv_def deleted_def split: option.splits)
  moreover have "len' < art_len t \<longleftrightarrow> key \<in> dom (art_map t)"
  proof -
    have "key \<in> dom (art_map t) \<Longrightarrow> 0 < art_len t" using inv by (auto simp: art_inv_def card_gt_0_iff)
    then show ?thesis using len' by auto
  qed
  ultimately show ?thesis using Some run m by (simp add: art_delete_def)
qed

section \<open>The scan\<close>

lemma collect_leaf:
  "collect_prefix (Leaf key val) pre depth acc =
     (fst acc + 1, if prefix pre key \<and> utf8_valid key then snd acc @ [(key, val)] else snd acc)"
  by (simp add: collect_prefix.simps)

lemma collect_inner:
  "inner nd \<Longrightarrow> collect_prefix nd pre depth acc =
     (if \<not> path_matches (node_prefix nd) pre depth then (fst acc + 1, snd acc)
      else (let d2 = depth + length (node_prefix nd)
            in fold (\<lambda>(b, c) acc.
                  if length pre \<le> d2 \<or> b = pre ! d2 then collect_prefix c pre (d2 + 1) acc else acc)
                (entries nd) (fst acc + 1, snd acc)))"
  by (subst collect_prefix.simps) (simp add: case_inner)

definition comparable :: "bytes \<Rightarrow> bytes \<Rightarrow> bool" where
  "comparable a b \<longleftrightarrow> prefix a b \<or> prefix b a"

lemma path_matches_comparable:
  assumes "comparable path pre"
  shows "path_matches np pre (length path) \<longleftrightarrow> comparable (path @ np) pre"
proof (cases "prefix path pre")
  case True
  then obtain r where r: "pre = path @ r" by (auto simp: prefix_def)
  have "take n r = take n np \<longleftrightarrow> prefix np r \<or> prefix r np" if "n = min (length np) (length r)" for n
    unfolding that by (cases "length np \<le> length r") (auto simp: prefix_def min_def intro: exI [of _ "drop (length np) r"] exI [of _ "drop (length r) np"] dest: sym; metis append_take_drop_id)+
  then show ?thesis by (simp add: path_matches_def comparable_def r Let_def)
next
  case False
  then have p: "prefix pre path" using assms by (simp add: comparable_def)
  then have "length pre \<le> length path" by (rule prefix_length_le)
  then show ?thesis using p by (auto simp: path_matches_def comparable_def intro: prefix_prefix)
qed

lemma comparable_step:
  assumes "comparable p pre"
  shows "length pre \<le> length p \<or> b = pre ! length p \<longleftrightarrow> comparable (p @ [b]) pre"
proof (cases "length pre \<le> length p")
  case True
  then have "prefix pre p" using assms by (auto simp: comparable_def prefix_def)
  then show ?thesis using True by (auto simp: comparable_def intro: prefix_prefix)
next
  case False
  then have "prefix p pre" using assms by (auto simp: comparable_def dest: prefix_length_le)
  then obtain r where r: "pre = p @ r" "r \<noteq> []" using False by (auto simp: prefix_def)
  then show ?thesis by (cases r) (auto simp: comparable_def nth_append)
qed

lemma comparable_append: "comparable (p @ q) pre \<Longrightarrow> comparable p pre"
  unfolding comparable_def by (meson append_prefixD prefixI prefix_same_cases)

definition matches :: "bytes \<Rightarrow> node \<Rightarrow> (bytes \<times> u64) set" where
  "matches pre nd = {(k, v). stored nd k v \<and> prefix pre k \<and> utf8_valid k}"

definition collects :: "bytes \<Rightarrow> node \<Rightarrow> (nat \<times> (bytes \<times> u64) list \<Rightarrow> nat \<times> (bytes \<times> u64) list) \<Rightarrow> bool" where
  "collects pre nd f \<longleftrightarrow>
     (\<forall>acc. \<exists>new. snd (f acc) = snd acc @ new \<and> set new = matches pre nd \<and> distinct (map fst new))"

lemma collects_children:
  assumes es: "distinct (map fst es)" "\<And>b c. (b, c) \<in> set es \<Longrightarrow> art_ok (path @ np @ [b]) c"
    and rec: "\<And>b c. (b, c) \<in> set es \<Longrightarrow> comparable (path @ np @ [b]) pre \<Longrightarrow> collects pre c (g c)"
    and cmp: "comparable (path @ np) pre" and d: "d = length (path @ np)"
  shows "\<exists>new. snd (fold (\<lambda>(b, c) acc. if length pre \<le> d \<or> b = pre ! d then g c acc else acc) es acc) = snd acc @ new \<and>
    set new = (\<Union>(b, c) \<in> set es. matches pre c) \<and> distinct (map fst new)"
  using es rec
proof (induction es arbitrary: acc)
  case Nil
  then show ?case by simp
next
  case (Cons e es)
  obtain b c where e: "e = (b, c)" by (cases e)
  let ?f = "\<lambda>(b, c) acc. if length pre \<le> d \<or> b = pre ! d then g c acc else acc"
  have bc: "art_ok (path @ np @ [b]) c" using Cons.prems(2) e by simp
  have "\<exists>new. snd (?f (b, c) acc) = snd acc @ new \<and> set new = matches pre c \<and> distinct (map fst new)"
  proof (cases "length pre \<le> d \<or> b = pre ! d")
    case True
    then have "comparable (path @ np @ [b]) pre" using comparable_step [OF cmp, of b] d by simp
    then have "collects pre c (g c)" using Cons.prems(3) [of b c] e by simp
    then have "\<exists>new. snd (g c acc) = snd acc @ new \<and> set new = matches pre c \<and> distinct (map fst new)"
      unfolding collects_def by blast
    then show ?thesis using True by simp
  next
    case False
    have "\<not> prefix pre k" if "stored c k v" for k v
    proof
      assume "prefix pre k"
      moreover have "prefix (path @ np @ [b]) k" by (rule stored_path [OF bc that])
      ultimately have "comparable (path @ np @ [b]) pre" by (auto simp: comparable_def dest: prefix_same_cases)
      then show False using comparable_step [OF cmp, of b] False d by simp
    qed
    then show ?thesis using False by (auto simp: matches_def)
  qed
  then obtain n1 where n1: "snd (?f (b, c) acc) = snd acc @ n1" "set n1 = matches pre c" "distinct (map fst n1)" by blast
  obtain n2 where n2: "snd (fold ?f es (?f (b, c) acc)) = snd (?f (b, c) acc) @ n2"
    "set n2 = (\<Union>(b, c) \<in> set es. matches pre c)" "distinct (map fst n2)"
  proof -
    have "distinct (map fst es)" using Cons.prems(1) by simp
    moreover have "art_ok (path @ np @ [b]) c" if "(b, c) \<in> set es" for b c using Cons.prems(2) that by simp
    moreover have "collects pre c (g c)" if "(b, c) \<in> set es" "comparable (path @ np @ [b]) pre" for b c
      using Cons.prems(3) [of b c] that by simp
    ultimately have "\<exists>new. snd (fold ?f es (?f (b, c) acc)) = snd (?f (b, c) acc) @ new \<and>
        set new = (\<Union>(b, c) \<in> set es. matches pre c) \<and> distinct (map fst new)"
      by (rule Cons.IH)
    then show ?thesis using that by blast
  qed
  have "k \<notin> fst ` set n2" if k1: "k \<in> fst ` set n1" for k
  proof
    assume "k \<in> fst ` set n2"
    then obtain b' c' v' where c': "(b', c') \<in> set es" "stored c' k v'" using n2(2) by (auto simp: matches_def)
    then have "art_ok (path @ np @ [b']) c'" using Cons.prems(2) by simp
    note k' = stored_edge [OF this c'(2)]
    obtain v where "stored c k v" using k1 n1(2) by (auto simp: matches_def)
    note k = stored_edge [OF bc this]
    have "b' \<noteq> b" using c'(1) Cons.prems(1) e by force
    then show False using k k' by simp
  qed
  then have "distinct (map fst (n1 @ n2))" using n1(3) n2(3) by auto
  moreover have "snd (fold ?f (e # es) acc) = snd acc @ (n1 @ n2)" using n1(1) n2(1) e by simp
  moreover have "set (n1 @ n2) = (\<Union>(b, c) \<in> set (e # es). matches pre c)" using n1(2) n2(2) e by simp
  ultimately show ?case by blast
qed

lemma collect_ok: "art_ok path nd \<Longrightarrow> comparable path pre \<Longrightarrow> collects pre nd (collect_prefix nd pre (length path))"
proof (induction rule: art_ok.induct)
  case (leaf path k v)
  then show ?case by (auto simp: collects_def collect_leaf matches_def)
next
  case (node nd path)
  let ?np = "node_prefix nd"
  have ok: "art_ok path nd" using node.hyps by (rule art_ok.node)
  note inn = node.hyps(2)
  have m: "map_of (entries nd) = child nd" "distinct (map fst (entries nd))" using entries_facts [OF node.hyps(1)] by auto
  have mem: "(b, c) \<in> set (entries nd) \<longleftrightarrow> child nd b = Some c" for b c
    using m by (metis map_of_eq_Some_iff)
  have all: "matches pre nd = (\<Union>(b, c) \<in> set (entries nd). matches pre c)"
    unfolding matches_def stored_inner [OF inn] using mem by blast
  show ?case
  proof (cases "comparable (path @ ?np) pre")
    case False
    have "matches pre nd = {}"
    proof -
      have "\<not> (stored nd k v \<and> prefix pre k)" for k v
      proof
        assume k: "stored nd k v \<and> prefix pre k"
        then have "prefix (path @ ?np) k" using stored_edge [OF node.hyps(4)] by (auto simp: stored_inner [OF inn])
        then show False using False k by (auto simp: comparable_def dest: prefix_same_cases)
      qed
      then show ?thesis by (auto simp: matches_def)
    qed
    then show ?thesis using False
      by (simp add: collects_def collect_inner [OF inn] path_matches_comparable [OF node.prems])
  next
    case True
    let ?d = "length path + length ?np"
    have run: "collect_prefix nd pre (length path) acc =
        fold (\<lambda>(b, c) acc. if length pre \<le> ?d \<or> b = pre ! ?d then collect_prefix c pre (?d + 1) acc else acc)
          (entries nd) (fst acc + 1, snd acc)" for acc
      unfolding collect_inner [OF inn] path_matches_comparable [OF node.prems] Let_def using True by simp
    have rec: "collects pre c (collect_prefix c pre (?d + 1))" if "(b, c) \<in> set (entries nd)" "comparable (path @ ?np @ [b]) pre" for b c
      using node.IH [OF iffD1 [OF mem that(1)] that(2)] by (simp add: add.assoc)
    have art: "art_ok (path @ ?np @ [b]) c" if "(b, c) \<in> set (entries nd)" for b c
      using node.hyps(4) that mem by blast
    show ?thesis
      unfolding collects_def run all
    proof
      fix acc :: "nat \<times> (bytes \<times> u64) list"
      let ?f = "\<lambda>(b, c) acc. if length pre \<le> ?d \<or> b = pre ! ?d then collect_prefix c pre (?d + 1) acc else acc"
      have "\<exists>new. snd (fold ?f (entries nd) (fst acc + 1, snd acc)) = snd (fst acc + 1, snd acc) @ new \<and>
          set new = (\<Union>(b, c) \<in> set (entries nd). matches pre c) \<and> distinct (map fst new)"
        by (rule collects_children [where g = "\<lambda>c. collect_prefix c pre (?d + 1)"])
          (use m(2) art rec True in simp_all)
      then show "\<exists>new. snd (fold ?f (entries nd) (fst acc + 1, snd acc)) = snd acc @ new \<and>
          set new = (\<Union>(b, c) \<in> set (entries nd). matches pre c) \<and> distinct (map fst new)"
        unfolding snd_conv .
    qed
  qed
qed

lemma scan_ok:
  assumes "art_inv t"
  shows "set (scan_prefix t pre) = {(k, v). art_map t k = Some v \<and> prefix pre k} \<and> distinct (map fst (scan_prefix t pre))"
proof (cases "art_root t")
  case None
  then show ?thesis by (simp add: scan_prefix_def scan_prefix_stats_def art_map_empty)
next
  case (Some nd)
  then have ok: "art_ok [] nd" using assms by (simp add: art_inv_def)
  have utf: "utf8_valid k" if "stored nd k v" for k v
    using assms that art_map_stored [OF Some ok] by (auto simp: art_inv_def dom_def)
  have "collects pre nd (collect_prefix nd pre 0)" using collect_ok [OF ok, of pre] by (simp add: comparable_def)
  then obtain new where new: "snd (collect_prefix nd pre 0 (0, [])) = new" "set new = matches pre nd" "distinct (map fst new)"
    unfolding collects_def by (metis append_Nil snd_conv)
  moreover have "scan_prefix t pre = new" using Some new(1) by (simp add: scan_prefix_def scan_prefix_stats_def case_prod_unfold)
  moreover have "matches pre nd = {(k, v). art_map t k = Some v \<and> prefix pre k}"
    using utf art_map_stored [OF Some ok] by (auto simp: matches_def)
  ultimately show ?thesis by simp
qed

section \<open>The guard\<close>

lemma conflict_leaf:
  "conflict_rec avx2 kb depth (Leaf lk val) \<longleftrightarrow> lk \<noteq> kb \<and> (prefix lk kb \<or> prefix kb lk)"
proof -
  have "take m lk = take m kb \<longleftrightarrow> prefix lk kb \<or> prefix kb lk" if "m = min (length lk) (length kb)" for m
    unfolding that
    by (cases "length lk \<le> length kb")
      (auto simp: prefix_def min_def intro: exI [of _ "drop (length lk) kb"] exI [of _ "drop (length kb) lk"] dest: sym;
       metis append_take_drop_id)+
  then show ?thesis by (auto simp: conflict_rec.simps Let_def)
qed

lemma conflict_inner:
  "inner nd \<Longrightarrow> conflict_rec avx2 kb depth nd =
     (if \<not> prefix (node_prefix nd) (drop depth kb) then
        if depth < length kb \<and> length kb - depth < length (node_prefix nd)
        then prefix (drop depth kb) (node_prefix nd) else False
      else
        (let d = depth + length (node_prefix nd)
         in if length kb \<le> d then True
            else (case child_of avx2 nd (kb ! d) of None \<Rightarrow> False | Some c \<Rightarrow> conflict_rec avx2 kb (d + 1) c)))"
  by (subst conflict_rec.simps) (simp add: case_inner)

lemma conflict_sound:
  "art_ok path nd \<Longrightarrow> prefix path key \<Longrightarrow> conflict_rec avx2 key (length path) nd \<Longrightarrow>
   \<exists>k v. stored nd k v \<and> \<not> apart k key"
proof (induction rule: art_ok.induct)
  case (leaf path k v)
  then show ?case by (auto simp: conflict_leaf apart_def)
next
  case (node nd path)
  let ?np = "node_prefix nd" and ?d = "length path + length (node_prefix nd)"
  have ok: "art_ok path nd" using node.hyps by (rule art_ok.node)
  note inn = node.hyps(2) and edge = stored_edge [OF node.hyps(4)]
  obtain k v where k: "stored nd k v" using some_stored [OF ok] by blast
  then have kp: "prefix (path @ ?np) k" "?d < length k" using edge by (auto simp: stored_inner [OF inn])
  have here: ?case if "prefix key (path @ ?np)"
  proof -
    have "prefix key k" using that kp(1) by (rule prefix_order.trans)
    moreover have "length key < length k" using prefix_length_le [OF that] kp(2) by simp
    ultimately show ?thesis using k by (auto simp: apart_def dest: prefix_length_le)
  qed
  show ?case
  proof (cases "prefix (path @ ?np) key \<and> ?d < length key")
    case False
    have "prefix key (path @ ?np)"
    proof (cases "prefix (path @ ?np) key")
      case True
      then have "key = path @ ?np" using False by (auto simp: prefix_def)
      then show ?thesis by simp
    next
      case off: False
      then have "prefix (drop (length path) key) ?np"
        using node.prems(2) unfolding conflict_inner [OF inn] prefix_split [OF node.prems(1)] by (auto split: if_splits)
      then show ?thesis using node.prems(1) by (auto simp: prefix_def)
    qed
    then show ?thesis by (rule here)
  next
    case True
    let ?b = "key ! ?d"
    have path: "prefix (path @ ?np @ [?b]) key" using prefix_step True by blast
    have "\<exists>c. child nd ?b = Some c \<and> conflict_rec avx2 key (?d + 1) c"
      using node.prems(2) True
      unfolding conflict_inner [OF inn] prefix_split [OF node.prems(1)] Let_def child_of_avx2 [OF node.hyps(1), of avx2]
      by (auto split: option.splits)
    then obtain c where c: "child nd ?b = Some c" "conflict_rec avx2 key (?d + 1) c" by blast
    then show ?thesis using node.IH [OF c(1) path] by (auto simp: add.assoc intro: stored.below)
  qed
qed

lemma put_slot_same: "slot_of (kids nd) i = Some c \<Longrightarrow> put_slot nd i c = nd"
proof -
  assume a: "slot_of (kids nd) i = Some c"
  have "ch[i := Some c] = ch" if "slot_of ch i = Some c" for ch
    using that by (metis list_update_id slot_of_def option.distinct(1))
  then show ?thesis using a by (cases nd) auto
qed

text \<open>Where the guard is silent, an insertion finds no conflict, or it changes nothing.\<close>

lemma conflict_complete:
  "art_ok path nd \<Longrightarrow> prefix path key \<Longrightarrow> \<not> conflict_rec avx2 key (length path) nd \<Longrightarrow>
   prefix_free nd key \<or>
   insert_rec nd key (length path) val len = Inr (nd, len) \<and> (\<exists>k v. stored nd k v \<and> strict_prefix key k)"
proof (induction rule: art_ok.induct)
  case (leaf path k v)
  then show ?case by (auto simp: conflict_leaf prefix_free_def apart_def)
next
  case (node nd path)
  let ?np = "node_prefix nd" and ?d = "length path + length (node_prefix nd)"
  have ok: "art_ok path nd" using node.hyps by (rule art_ok.node)
  note inn = node.hyps(2) and edge = stored_edge [OF node.hyps(4)]
  have below: "prefix (path @ ?np) k \<and> ?d < length k" if "stored nd k v" for k v
    using edge that by (auto simp: stored_inner [OF inn])
  show ?case
  proof (cases "prefix (path @ ?np) key")
    case False
    show ?thesis
    proof (cases "prefix_free nd key")
      case conflict: False
      then obtain k v where k: "stored nd k v" "\<not> apart k key" by (auto simp: prefix_free_def)
      note kp = below [OF k(1)]
      have "\<not> prefix k key" using kp False by (meson prefix_order.trans)
      then have key: "prefix key k" "key \<noteq> k" using k(2) by (auto simp: apart_def)
      then have "prefix key (path @ ?np)" using kp False prefix_same_cases by blast
      then obtain b where b: "key = path @ b" "prefix b ?np" using node.prems(1) by (auto simp: prefix_def)
      have "b \<noteq> ?np" using False b by auto
      then have lt: "length b < length ?np" using b(2) by (metis prefix_length_less strict_prefixI)
      then have "b = []"
        using node.prems(2) b False unfolding conflict_inner [OF inn] prefix_split [OF node.prems(1)] by (auto split: if_splits)
      then have "insert_rec nd key (length path) val len = Inr (nd, len)"
        using b lt unfolding insert_inner [OF inn] Let_def
        by (simp add: split_node_def slice_at_def)
      then show ?thesis using k(1) key by auto
    qed simp
  next
    case True
    have d: "?d < length key"
      using node.prems(2) True unfolding conflict_inner [OF inn] prefix_split [OF node.prems(1)] Let_def
      by (auto split: if_splits)
    let ?b = "key ! ?d"
    have path: "prefix (path @ ?np @ [?b]) key" by (rule prefix_step [OF True d])
    have rest: "apart k key" if "a \<noteq> ?b" "child nd a = Some e" "stored e k v" for a e k v
    proof -
      have "?d < length k" "k ! ?d \<noteq> ?b" using edge [OF that(2,3)] that(1) by auto
      then show ?thesis using d by (auto simp: apart_def prefix_def nth_append)
    qed
    show ?thesis
    proof (cases "find_slot nd ?b")
      case None
      then have "child nd ?b = None" using find_slot_None [OF node.hyps(1)] by simp
      then have "prefix_free nd key"
        unfolding prefix_free_def stored_inner [OF inn] by (metis option.distinct(1) rest)
      then show ?thesis ..
    next
      case (Some i)
      obtain c where c: "slot_of (kids nd) i = Some c" "child nd ?b = Some c"
        using find_slot_Some [OF node.hyps(1) Some] by blast
      have "\<not> conflict_rec avx2 key (?d + 1) c"
        using node.prems(2) True d c(2)
        unfolding conflict_inner [OF inn] prefix_split [OF node.prems(1)] Let_def child_of_avx2 [OF node.hyps(1), of avx2]
        by simp
      then have "prefix_free c key \<or> insert_rec c key (?d + 1) val len = Inr (c, len) \<and> (\<exists>k v. stored c k v \<and> strict_prefix key k)"
        using node.IH [OF c(2) path] by (simp add: add.assoc)
      moreover have "prefix_free nd key" if "prefix_free c key"
        using rest that c(2) unfolding prefix_free_def stored_inner [OF inn] by (metis option.inject)
      moreover have "insert_rec nd key (length path) val len = Inr (nd, len)"
        if "insert_rec c key (?d + 1) val len = Inr (c, len)"
        unfolding insert_inner [OF inn] Let_def prefix_split [OF node.prems(1)]
        using True d Some c(1) that put_slot_same [OF c(1)] by simp
      ultimately show ?thesis using stored.below [OF c(2)] by blast
    qed
  qed
qed

section \<open>Properties\<close>

text \<open>The SSE2 search of a 16-way node (compare, mask, count trailing zeros) and the portable
  scan return the same slot, whatever the count and whatever lies in the unused slots.\<close>

theorem sse_search_agrees:
  "length keys = 16 \<Longrightarrow> n \<le> 16 \<Longrightarrow> find_child_byte16 True keys n b = find_child_byte16 False keys n b"
  by (simp add: find_child_byte16_def sse_is_scan)

lemma sse_search_agrees_witness:
  "find_child_byte16 True (replicate 15 7 @ [9]) 16 9 = find_child_byte16 False (replicate 15 7 @ [9]) 16 9"
  by (rule sse_search_agrees) simp_all

text \<open>C17: inserting a key that no stored key is a proper prefix or extension of succeeds without a
  panic and is the update of a finite map, through every growth and prefix split; the count stays the
  number of keys, and both searches (portable and SSE2) read the new map.\<close>

theorem art_insert_updates:
  assumes "art_inv t" "keys_apart t key" "utf8_valid key"
  shows "\<exists>t'. art_insert t key val = Inr t' \<and> art_inv t' \<and>
    (\<forall>avx2. art_get avx2 t' = (art_map t)(key \<mapsto> val)) \<and>
    art_len t' = card (insert key (dom (art_map t)))"
proof -
  obtain t' where t': "art_insert t key val = Inr t'" "art_inv t'" "art_map t' = (art_map t)(key \<mapsto> val)"
    using art_insert_ok [OF assms] by blast
  then show ?thesis using art_get_map [OF t'(2)] by (auto simp: art_inv_def)
qed

text \<open>C18: deletion removes exactly the key, through every shrink and collapse of the nodes, and
  reports whether the key was there; a missing key leaves the map alone.\<close>

theorem art_delete_removes:
  "art_inv t \<Longrightarrow>
   art_inv (fst (art_delete t key)) \<and>
   (\<forall>avx2. art_get avx2 (fst (art_delete t key)) = (art_map t)(key := None)) \<and>
   (snd (art_delete t key) \<longleftrightarrow> key \<in> dom (art_map t))"
  using art_delete_ok [of t key] art_get_map [of "fst (art_delete t key)"] by simp

text \<open>The pruned scan returns every stored key with the prefix once with its value, and nothing
  else.\<close>

theorem scan_is_exact:
  "art_inv t \<Longrightarrow>
   set (scan_prefix t pre) = {(k, v). art_map t k = Some v \<and> prefix pre k} \<and>
   distinct (map fst (scan_prefix t pre))"
  by (rule scan_ok)

text \<open>A page is a slice of the sorted list of the matching entries, so pages neither overlap nor
  skip and depend on the stored map only, not on the shape of the tree.\<close>

theorem pages_are_slices:
  assumes "art_inv t"
  shows "scan_prefix_page t pre offset limit =
    take limit (drop offset (sorted_list_of_set {(k, v). art_map t k = Some v \<and> prefix pre k}))"
proof -
  note scan = scan_ok [OF assms, of pre]
  then have "distinct (scan_prefix t pre)" by (simp add: distinct_map)
  then have "sort (scan_prefix t pre) = sorted_list_of_set (set (scan_prefix t pre))"
    by (simp add: sorted_list_of_set_sort_remdups distinct_remdups_id)
  then show ?thesis using scan by (simp add: scan_prefix_page_def Let_def)
qed

lemma guarded_insert:
  assumes "art_inv t" "utf8_valid key"
  shows "(has_prefix_conflict avx2 t key \<longrightarrow> \<not> keys_apart t key) \<and>
    (\<not> has_prefix_conflict avx2 t key \<longrightarrow>
      (\<exists>t'. art_insert t key val = Inr t' \<and> art_inv t' \<and>
        (art_map t' = (art_map t)(key \<mapsto> val) \<or> t' = t \<and> (\<exists>k \<in> dom (art_map t). strict_prefix key k))))"
proof (cases "art_root t")
  case None
  then have "keys_apart t key" "\<not> has_prefix_conflict avx2 t key"
    by (simp_all add: keys_apart_def art_map_empty has_prefix_conflict_def)
  then show ?thesis using art_insert_ok [OF assms(1) _ assms(2)] by blast
next
  case (Some nd)
  then have ok: "art_ok [] nd" using assms(1) by (simp add: art_inv_def)
  note dom = art_dom [OF Some ok]
  have guard: "has_prefix_conflict avx2 t key = conflict_rec avx2 key 0 nd"
    using Some by (simp add: has_prefix_conflict_def)
  show ?thesis
  proof (intro conjI impI)
    assume "has_prefix_conflict avx2 t key"
    then show "\<not> keys_apart t key"
      using conflict_sound [OF ok, of key avx2] dom guard unfolding keys_apart_def by (metis Nil_prefix list.size(3))
  next
    assume silent: "\<not> has_prefix_conflict avx2 t key"
    have "prefix_free nd key \<or>
        insert_rec nd key 0 val (art_len t) = Inr (nd, art_len t) \<and> (\<exists>k v. stored nd k v \<and> strict_prefix key k)"
      using conflict_complete [OF ok, of key avx2 val "art_len t"] silent guard by simp
    then show "\<exists>t'. art_insert t key val = Inr t' \<and> art_inv t' \<and>
        (art_map t' = (art_map t)(key \<mapsto> val) \<or> t' = t \<and> (\<exists>k \<in> dom (art_map t). strict_prefix key k))"
    proof
      assume "prefix_free nd key"
      then have "keys_apart t key" using dom by (auto simp: keys_apart_def prefix_free_def)
      then show ?thesis using art_insert_ok [OF assms(1) _ assms(2)] by blast
    next
      assume a: "insert_rec nd key 0 val (art_len t) = Inr (nd, art_len t) \<and> (\<exists>k v. stored nd k v \<and> strict_prefix key k)"
      then have "art_insert t key val = Inr t" using Some by (simp add: art_insert_def)
      then show ?thesis using a dom assms(1) by auto
    qed
  qed
qed

text \<open>A key that passes the guard never damages the index: the insertion stores it, or (when the
  key is a proper prefix of a stored one and the guard overlooks it) leaves the index as it was.  And
  the guard never raises a false alarm.\<close>

theorem guarded_insert_is_safe:
  assumes "art_inv t" "utf8_valid key"
  shows "(has_prefix_conflict avx2 t key \<longrightarrow> \<not> keys_apart t key) \<and>
    (\<not> has_prefix_conflict avx2 t key \<longrightarrow>
      (\<exists>t'. art_insert t key val = Inr t' \<and> art_inv t' \<and>
        (art_map t' = (art_map t)(key \<mapsto> val) \<or> t' = t \<and> (\<exists>k \<in> dom (art_map t). strict_prefix key k))))"
  by (rule guarded_insert [OF assms])

text \<open>The guard misses a proper prefix that ends where a compressed edge begins: with the keys
  \<open>abcX\<close>, \<open>abcY\<close> and \<open>z\<close>, the key \<open>a\<close> is reported free of conflicts, its insertion succeeds, and the
  value is lost.\<close>

theorem guard_misses_a_prefix:
  "and_then (art_insert art_new (ascii ''abcX'') 1) (\<lambda>t.
   and_then (art_insert t (ascii ''abcY'') 2) (\<lambda>t.
   and_then (art_insert t (ascii ''z'') 3) (\<lambda>t.
   and_then (art_insert t (ascii ''a'') 4) (\<lambda>t'.
     Inr (has_prefix_conflict False t (ascii ''a''), art_get False t' (ascii ''a''), art_len t'))))) =
   Inr (False, None, 3)"
  by code_simp

lemma leaf_index:
  "art_map \<lparr>art_root = Some (Leaf k v), art_len = 1\<rparr> = [k \<mapsto> v] \<and>
   (utf8_valid k \<longrightarrow> art_inv \<lparr>art_root = Some (Leaf k v), art_len = 1\<rparr>)"
proof -
  have "art_map \<lparr>art_root = Some (Leaf k v), art_len = 1\<rparr> = [k \<mapsto> v]"
    by (auto simp: art_map_def art_get_def get_leaf fun_eq_iff)
  then show ?thesis by (simp add: art_inv_def art_ok.leaf)
qed

lemma art_insert_updates_witness:
  "\<exists>t'. art_insert \<lparr>art_root = Some (Leaf (ascii ''ab'') 1), art_len = 1\<rparr> (ascii ''ac'') 2 = Inr t' \<and>
     art_inv t' \<and> art_len t' = 2"
  using art_insert_updates [of "\<lparr>art_root = Some (Leaf (ascii ''ab'') 1), art_len = 1\<rparr>" "ascii ''ac''" 2]
    leaf_index [of "ascii ''ab''" 1]
  by (auto simp: keys_apart_def apart_def ascii_def utf8_valid.simps(2))

lemma art_delete_removes_witness:
  "snd (art_delete \<lparr>art_root = Some (Leaf (ascii ''ab'') 1), art_len = 1\<rparr> (ascii ''ab''))"
  using art_delete_removes [of "\<lparr>art_root = Some (Leaf (ascii ''ab'') 1), art_len = 1\<rparr>" "ascii ''ab''"]
    leaf_index [of "ascii ''ab''" 1]
  by (simp add: ascii_def utf8_valid.simps(2))

lemma scan_is_exact_witness:
  "set (scan_prefix \<lparr>art_root = Some (Leaf (ascii ''ab'') 1), art_len = 1\<rparr> (ascii ''a'')) = {(ascii ''ab'', 1)}"
  using scan_is_exact [of "\<lparr>art_root = Some (Leaf (ascii ''ab'') 1), art_len = 1\<rparr>" "ascii ''a''"]
    leaf_index [of "ascii ''ab''" 1]
  by (auto simp: ascii_def utf8_valid.simps(2) split: if_splits)

lemma pages_are_slices_witness:
  "scan_prefix_page \<lparr>art_root = Some (Leaf (ascii ''ab'') 1), art_len = 1\<rparr> (ascii ''b'') 0 5 = []"
proof -
  let ?t = "\<lparr>art_root = Some (Leaf (ascii ''ab'') 1), art_len = 1\<rparr>"
  have t: "art_map ?t = [ascii ''ab'' \<mapsto> 1]" "art_inv ?t"
    using leaf_index [of "ascii ''ab''" 1] by (simp_all add: ascii_def utf8_valid.simps(2))
  have none: "{(k, v). art_map ?t k = Some v \<and> prefix (ascii ''b'') k} = {}"
    unfolding t by (auto simp: ascii_def split: if_splits)
  show ?thesis using pages_are_slices [OF t(2), of "ascii ''b''" 0 5] unfolding none by simp
qed

lemma guarded_insert_is_safe_witness:
  "\<exists>t'. art_insert \<lparr>art_root = Some (Leaf (ascii ''ab'') 1), art_len = 1\<rparr> (ascii ''ac'') 2 = Inr t' \<and> art_inv t'"
proof -
  let ?t = "\<lparr>art_root = Some (Leaf (ascii ''ab'') 1), art_len = 1\<rparr>"
  have "\<not> has_prefix_conflict False ?t (ascii ''ac'')"
    by (simp add: has_prefix_conflict_def conflict_leaf ascii_def)
  moreover have "art_inv ?t" "utf8_valid (ascii ''ac'')"
    using leaf_index [of "ascii ''ab''" 1] by (simp_all add: ascii_def utf8_valid.simps(2))
  ultimately show ?thesis using guarded_insert_is_safe [of ?t "ascii ''ac''" False 2] by blast
qed

end
