(* ===== verification/Hamming.thy ===== *)
theory Hamming
  imports Sgdb_Prelude
begin

unbundle bit_operations_syntax

text \<open>
  Hamming distance (\<open>src/src/hamming_dispatch.rs\<close>): the scalar kernel, the AVX2 and the two
  AVX-512 kernels lane by lane, and the process-wide selection between them.  A SIMD register is the
  list of its 64-bit lanes.  The lemmas show that every kernel computes the same distance, so the
  selection cannot be observed, and that the distance counts the differing bits.
\<close>

section \<open>Kernels\<close>

definition count_ones :: "u64 \<Rightarrow> u32" where
  "count_ones w = of_nat (length (filter (bit w) [0..<64]))"

text \<open>The end that all kernels share: words beyond the shorter vector count all their bits.\<close>

definition longer_tail :: "u64 list \<Rightarrow> u64 list \<Rightarrow> u32 \<Rightarrow> u32" where
  "longer_tail a b d =
     (let n = min (length a) (length b); longer = (if length b < length a then a else b)
      in fold (\<lambda>w d. d + count_ones w) (drop n longer) d)"

definition hamming_scalar :: "u64 list \<Rightarrow> u64 list \<Rightarrow> u32" where
  "hamming_scalar a b =
     (let n = min (length a) (length b);
          d = fold (\<lambda>i d. d + count_ones (a ! i XOR b ! i)) [0..<n] 0
      in longer_tail a b d)"

definition load_lanes :: "nat \<Rightarrow> u64 list \<Rightarrow> nat \<Rightarrow> u64 list" where
  "load_lanes w a i = take w (drop i a)"

definition xor_lanes :: "u64 list \<Rightarrow> u64 list \<Rightarrow> u64 list" where
  "xor_lanes x y = map2 (XOR) x y"

text \<open>\<open>while i < n { d += (a[i] ^ b[i]).count_ones(); i += 1 }\<close>\<close>

function xor_tail :: "u64 list \<Rightarrow> u64 list \<Rightarrow> nat \<Rightarrow> nat \<Rightarrow> u32 \<Rightarrow> u32" where
  "xor_tail a b n i d =
     (if i < n then xor_tail a b n (i + 1) (d + count_ones (a ! i XOR b ! i)) else d)"
  by pat_completeness auto
termination by (relation "measure (\<lambda>(a, b, n, i, d). n - i)") auto

declare xor_tail.simps [simp del]

function avx2_main :: "u64 list \<Rightarrow> u64 list \<Rightarrow> nat \<Rightarrow> nat \<Rightarrow> u32 \<Rightarrow> nat \<times> u32" where
  "avx2_main a b n i d =
     (if i + 4 \<le> n then
        (let x = xor_lanes (load_lanes 4 a i) (load_lanes 4 b i);
             lo128 = take 2 x; hi128 = drop 2 x;
             d = d + count_ones (lo128 ! 0); d = d + count_ones (lo128 ! 1);
             d = d + count_ones (hi128 ! 0); d = d + count_ones (hi128 ! 1)
         in avx2_main a b n (i + 4) d)
      else (i, d))"
  by pat_completeness auto
termination by (relation "measure (\<lambda>(a, b, n, i, d). n - i)") auto

declare avx2_main.simps [simp del]

definition hamming_avx2_xor :: "u64 list \<Rightarrow> u64 list \<Rightarrow> u32" where
  "hamming_avx2_xor a b =
     (let n = min (length a) (length b); (i, d) = avx2_main a b n 0 0
      in longer_tail a b (xor_tail a b n i d))"

function vpopcnt_main :: "u64 list \<Rightarrow> u64 list \<Rightarrow> nat \<Rightarrow> nat \<Rightarrow> u32 \<Rightarrow> nat \<times> u32" where
  "vpopcnt_main a b n i d =
     (if i + 8 \<le> n then
        (let x = xor_lanes (load_lanes 8 a i) (load_lanes 8 b i);
             pc = map (\<lambda>w. of_nat (length (filter (bit w) [0..<64])) :: u64) x
         in vpopcnt_main a b n (i + 8) (fold (\<lambda>t d. d + ucast t) pc d))
      else (i, d))"
  by pat_completeness auto
termination by (relation "measure (\<lambda>(a, b, n, i, d). n - i)") auto

declare vpopcnt_main.simps [simp del]

definition hamming_avx512_vpopcnt :: "u64 list \<Rightarrow> u64 list \<Rightarrow> u32" where
  "hamming_avx512_vpopcnt a b =
     (let n = min (length a) (length b); (i, d) = vpopcnt_main a b n 0 0
      in longer_tail a b (xor_tail a b n i d))"

function avx512_main :: "u64 list \<Rightarrow> u64 list \<Rightarrow> nat \<Rightarrow> nat \<Rightarrow> u32 \<Rightarrow> nat \<times> u32" where
  "avx512_main a b n i d =
     (if i + 8 \<le> n then
        (let tmp = xor_lanes (load_lanes 8 a i) (load_lanes 8 b i)
         in avx512_main a b n (i + 8) (fold (\<lambda>t d. d + count_ones t) tmp d))
      else (i, d))"
  by pat_completeness auto
termination by (relation "measure (\<lambda>(a, b, n, i, d). n - i)") auto

declare avx512_main.simps [simp del]

definition hamming_avx512_xor :: "u64 list \<Rightarrow> u64 list \<Rightarrow> u32" where
  "hamming_avx512_xor a b =
     (let n = min (length a) (length b); (i, d) = avx512_main a b n 0 0
      in longer_tail a b (xor_tail a b n i d))"

section \<open>Selection\<close>

record cpu_caps =
  has_avx2 :: bool
  has_avx512 :: bool

datatype kernel = Scalar | Avx2_Xor | Avx512

text \<open>
  What the build and the processor fix: an x86-64 host, the detected capabilities (\<open>None\<close> without
  the feature \<open>simd-runtime\<close>), and bit 14 of CPUID leaf 7 (VPOPCNTDQ).
\<close>

record cpu =
  x86_host :: bool
  detected :: "cpu_caps option"
  has_vpop :: bool

text \<open>The process-wide atomics.\<close>

record dispatch =
  selected :: bool
  hamming_path :: kernel
  manual_caps :: u8

definition dispatch_start :: dispatch where
  "dispatch_start = \<lparr>selected = False, hamming_path = Scalar, manual_caps = 0\<rparr>"

definition cpu_caps_of :: "cpu \<Rightarrow> dispatch \<Rightarrow> cpu_caps" where
  "cpu_caps_of c s =
     (case detected c of
        Some caps \<Rightarrow> caps
      | None \<Rightarrow> \<lparr>has_avx2 = manual_caps s AND 1 \<noteq> 0, has_avx512 = manual_caps s AND 2 \<noteq> 0\<rparr>)"

definition set_cpu_caps :: "cpu_caps \<Rightarrow> dispatch \<Rightarrow> dispatch" where
  "set_cpu_caps c s =
     (let v = 0; v = (if has_avx2 c then v OR 1 else v); v = (if has_avx512 c then v OR 2 else v)
      in s\<lparr>manual_caps := v, selected := False\<rparr>)"

definition select_best_hamming_kernel :: "cpu \<Rightarrow> dispatch \<Rightarrow> dispatch" where
  "select_best_hamming_kernel c s =
     (if x86_host c then
        (let caps = cpu_caps_of c s
         in if has_avx512 caps then s\<lparr>hamming_path := Avx512\<rparr>
            else if has_avx2 caps then s\<lparr>hamming_path := Avx2_Xor\<rparr>
            else s\<lparr>hamming_path := Scalar\<rparr>)
      else s\<lparr>hamming_path := Scalar\<rparr>)"

definition ensure_selected :: "cpu \<Rightarrow> dispatch \<Rightarrow> dispatch" where
  "ensure_selected c s =
     (if \<not> selected s then select_best_hamming_kernel c (s\<lparr>selected := True\<rparr>) else s)"

definition hamming_avx2_or_fallback :: "cpu \<Rightarrow> dispatch \<Rightarrow> u64 list \<Rightarrow> u64 list \<Rightarrow> u32" where
  "hamming_avx2_or_fallback c s a b =
     (if has_avx2 (cpu_caps_of c s) then hamming_avx2_xor a b else hamming_scalar a b)"

definition hamming_avx512_dispatch :: "cpu \<Rightarrow> u64 list \<Rightarrow> u64 list \<Rightarrow> u32" where
  "hamming_avx512_dispatch c a b =
     (if has_vpop c then hamming_avx512_vpopcnt a b else hamming_avx512_xor a b)"

definition hamming_avx512_or_fallback :: "cpu \<Rightarrow> dispatch \<Rightarrow> u64 list \<Rightarrow> u64 list \<Rightarrow> u32" where
  "hamming_avx512_or_fallback c s a b =
     (if has_avx512 (cpu_caps_of c s) then hamming_avx512_dispatch c a b
      else if has_avx2 (cpu_caps_of c s) then hamming_avx2_xor a b
      else hamming_scalar a b)"

definition active_kernel :: "cpu \<Rightarrow> dispatch \<Rightarrow> (u64 list \<Rightarrow> u64 list \<Rightarrow> u32) \<times> dispatch" where
  "active_kernel c s =
     (let s = ensure_selected c s
      in (case hamming_path s of
            Avx512 \<Rightarrow> if x86_host c then hamming_avx512_or_fallback c s else hamming_scalar
          | Avx2_Xor \<Rightarrow> if x86_host c then hamming_avx2_or_fallback c s else hamming_scalar
          | Scalar \<Rightarrow> hamming_scalar, s))"

definition hamming :: "cpu \<Rightarrow> dispatch \<Rightarrow> u64 list \<Rightarrow> u64 list \<Rightarrow> u32 \<times> dispatch" where
  "hamming c s a b = (case active_kernel c s of (f, s') \<Rightarrow> (f a b, s'))"

section \<open>Every kernel is the scalar one\<close>

definition xor_sum :: "u64 list \<Rightarrow> u64 list \<Rightarrow> nat \<Rightarrow> nat \<Rightarrow> u32" where
  "xor_sum a b i n = (\<Sum>j \<leftarrow> [i..<n]. count_ones (a ! j XOR b ! j))"

lemma fold_plus: "fold (\<lambda>x d. d + f x) xs (d :: u32) = d + (\<Sum>x \<leftarrow> xs. f x)"
  by (induction xs arbitrary: d) (simp_all add: add.assoc)

lemma xor_tail_sum: "xor_tail a b n i d = d + xor_sum a b i n"
proof (induction a b n i d rule: xor_tail.induct)
  case (1 a b n i d)
  show ?case
  proof (cases "i < n")
    case True
    then have "[i..<n] = i # [i + 1..<n]" by (simp add: upt_conv_Cons)
    then show ?thesis using 1 True by (subst xor_tail.simps) (simp add: xor_sum_def add.assoc)
  next
    case False
    then show ?thesis by (subst xor_tail.simps) (simp add: xor_sum_def)
  qed
qed

lemma xor_sum_split: "i \<le> m \<Longrightarrow> m \<le> n \<Longrightarrow> xor_sum a b i n = xor_sum a b i m + xor_sum a b m n"
proof -
  assume "i \<le> m" "m \<le> n"
  then have "[i..<n] = [i..<m] @ [m..<n]" by (metis upt_add_eq_append le_add_diff_inverse)
  then show ?thesis by (simp add: xor_sum_def)
qed

lemma lanes_sum:
  assumes "i + w \<le> length a" "i + w \<le> length b"
  shows "(\<Sum>x \<leftarrow> xor_lanes (load_lanes w a i) (load_lanes w b i). count_ones x) = xor_sum a b i (i + w)"
proof -
  have "xor_lanes (load_lanes w a i) (load_lanes w b i) = map (\<lambda>j. a ! j XOR b ! j) [i..<i + w]"
    using assms by (auto simp: xor_lanes_def load_lanes_def intro!: nth_equalityI)
  then show ?thesis by (simp add: xor_sum_def comp_def)
qed

lemma lanes_length:
  "i + w \<le> length a \<Longrightarrow> i + w \<le> length b \<Longrightarrow> length (xor_lanes (load_lanes w a i) (load_lanes w b i)) = w"
  by (simp add: xor_lanes_def load_lanes_def)

text \<open>A main loop that adds the distance of \<open>w\<close> words at a time.\<close>

definition main_sums :: "u64 list \<Rightarrow> u64 list \<Rightarrow> nat \<Rightarrow> nat \<Rightarrow> u32 \<Rightarrow> nat \<times> u32 \<Rightarrow> bool" where
  "main_sums a b n i d r \<longleftrightarrow> i \<le> fst r \<and> fst r \<le> max i n \<and> snd r = d + xor_sum a b i (fst r)"

lemma main_sums_step:
  assumes "main_sums a b n (i + w) (d + xor_sum a b i (i + w)) r" "i + w \<le> n"
  shows "main_sums a b n i d r"
  using assms xor_sum_split [of i "i + w" "fst r" a b] by (auto simp: main_sums_def add.assoc)

lemma main_sums_stop: "main_sums a b n i d (i, d)"
  by (simp add: main_sums_def xor_sum_def)

lemma sum_four: "length xs = 4 \<Longrightarrow> (\<Sum>x \<leftarrow> xs. f x :: u32) = f (xs ! 0) + f (xs ! 1) + f (xs ! 2) + f (xs ! 3)"
proof -
  assume "length xs = 4"
  then obtain a b c d where "xs = [a, b, c, d]" by (auto simp: length_Suc_conv numeral_eq_Suc)
  then show ?thesis by (simp add: add.assoc)
qed

lemma avx2_main_sums:
  "n \<le> length a \<Longrightarrow> n \<le> length b \<Longrightarrow> main_sums a b n i d (avx2_main a b n i d)"
proof (induction a b n i d rule: avx2_main.induct)
  case (1 a b n i d)
  show ?case
  proof (cases "i + 4 \<le> n")
    case True
    let ?x = "xor_lanes (load_lanes 4 a i) (load_lanes 4 b i)"
    have "length ?x = 4" using True 1 by (intro lanes_length) simp_all
    then have "(\<Sum>x \<leftarrow> ?x. count_ones x) = count_ones (?x ! 0) + count_ones (?x ! 1) + count_ones (?x ! 2) + count_ones (?x ! 3)"
      by (rule sum_four)
    moreover have "(\<Sum>x \<leftarrow> ?x. count_ones x) = xor_sum a b i (i + 4)" using True 1 by (intro lanes_sum) simp_all
    ultimately have s: "d + count_ones (?x ! 0) + count_ones (?x ! 1) + count_ones (?x ! 2) + count_ones (?x ! 3) =
        d + xor_sum a b i (i + 4)" by (simp add: add.assoc)
    have "avx2_main a b n i d = avx2_main a b n (i + 4) (d + xor_sum a b i (i + 4))"
      using True \<open>length ?x = 4\<close> s by (subst avx2_main.simps) (simp add: Let_def add.assoc)
    moreover have "main_sums a b n (i + 4) (d + xor_sum a b i (i + 4)) (avx2_main a b n (i + 4) (d + xor_sum a b i (i + 4)))"
      using 1 True \<open>length ?x = 4\<close> s by (simp add: Let_def add.assoc)
    ultimately show ?thesis using main_sums_step [OF _ True] by simp
  next
    case False
    then show ?thesis by (subst avx2_main.simps) (simp add: main_sums_stop)
  qed
qed

lemma ucast_small: "n < 2 ^ 32 \<Longrightarrow> (ucast (of_nat n :: u64) :: u32) = of_nat n"
  by (simp add: word_unat_eq_iff unsigned_ucast_eq unat_of_nat take_bit_eq_mod)

lemma vpopcnt_main_sums:
  "n \<le> length a \<Longrightarrow> n \<le> length b \<Longrightarrow> main_sums a b n i d (vpopcnt_main a b n i d)"
proof (induction a b n i d rule: vpopcnt_main.induct)
  case (1 a b n i d)
  show ?case
  proof (cases "i + 8 \<le> n")
    case True
    let ?x = "xor_lanes (load_lanes 8 a i) (load_lanes 8 b i)"
    let ?pc = "map (\<lambda>w. of_nat (length (filter (bit w) [0..<64])) :: u64) ?x"
    have c: "(ucast (of_nat (length (filter (bit w) [0..<64])) :: u64) :: u32) = count_ones w" for w :: u64
    proof -
      have "length (filter (bit w) [0..<64]) \<le> 64" using length_filter_le [of "bit w" "[0..<64]"] by simp
      then show ?thesis by (simp add: ucast_small count_ones_def)
    qed
    have "fold (\<lambda>t d. d + ucast t) ?pc d = d + (\<Sum>x \<leftarrow> ?x. count_ones x)"
      unfolding fold_plus map_map comp_def c ..
    also have "(\<Sum>x \<leftarrow> ?x. count_ones x) = xor_sum a b i (i + 8)" using True 1 by (intro lanes_sum) simp_all
    finally have s: "fold (\<lambda>t d. d + ucast t) ?pc d = d + xor_sum a b i (i + 8)" .
    have "vpopcnt_main a b n i d = vpopcnt_main a b n (i + 8) (d + xor_sum a b i (i + 8))"
      using True s by (subst vpopcnt_main.simps) (simp only: Let_def if_True)
    moreover have "main_sums a b n (i + 8) (d + xor_sum a b i (i + 8)) (vpopcnt_main a b n (i + 8) (d + xor_sum a b i (i + 8)))"
      using 1(1) [OF True refl refl] 1(2,3) unfolding s .
    ultimately show ?thesis using main_sums_step [OF _ True] by simp
  next
    case False
    then show ?thesis by (subst vpopcnt_main.simps) (simp add: main_sums_stop)
  qed
qed

lemma avx512_main_sums:
  "n \<le> length a \<Longrightarrow> n \<le> length b \<Longrightarrow> main_sums a b n i d (avx512_main a b n i d)"
proof (induction a b n i d rule: avx512_main.induct)
  case (1 a b n i d)
  show ?case
  proof (cases "i + 8 \<le> n")
    case True
    let ?x = "xor_lanes (load_lanes 8 a i) (load_lanes 8 b i)"
    have "(\<Sum>x \<leftarrow> ?x. count_ones x) = xor_sum a b i (i + 8)" using True 1 by (intro lanes_sum) simp_all
    then have s: "fold (\<lambda>t d. d + count_ones t) ?x d = d + xor_sum a b i (i + 8)" by (simp add: fold_plus)
    have "avx512_main a b n i d = avx512_main a b n (i + 8) (d + xor_sum a b i (i + 8))"
      using True s by (subst avx512_main.simps) (simp only: Let_def if_True)
    moreover have "main_sums a b n (i + 8) (d + xor_sum a b i (i + 8)) (avx512_main a b n (i + 8) (d + xor_sum a b i (i + 8)))"
      using 1(1) [OF True refl] 1(2,3) unfolding s .
    ultimately show ?thesis using main_sums_step [OF _ True] by simp
  next
    case False
    then show ?thesis by (subst avx512_main.simps) (simp add: main_sums_stop)
  qed
qed

lemma scalar_sum:
  "hamming_scalar a b = longer_tail a b (xor_sum a b 0 (min (length a) (length b)))"
  by (simp add: hamming_scalar_def Let_def fold_plus xor_sum_def)

lemma after_main:
  assumes "main_sums a b n 0 0 (i, d)"
  shows "xor_tail a b n i d = xor_sum a b 0 n"
  using assms xor_sum_split [of 0 i n a b] by (auto simp: main_sums_def xor_tail_sum)

named_theorems kernels \<open>every kernel is the scalar one\<close>

lemma avx2_is_scalar [kernels]: "hamming_avx2_xor a b = hamming_scalar a b"
proof -
  obtain i d where r: "avx2_main a b (min (length a) (length b)) 0 0 = (i, d)" by fastforce
  then have "main_sums a b (min (length a) (length b)) 0 0 (i, d)"
    using avx2_main_sums [of "min (length a) (length b)" a b 0 0] by simp
  then show ?thesis by (simp add: hamming_avx2_xor_def Let_def r scalar_sum after_main)
qed

lemma vpopcnt_is_scalar [kernels]: "hamming_avx512_vpopcnt a b = hamming_scalar a b"
proof -
  obtain i d where r: "vpopcnt_main a b (min (length a) (length b)) 0 0 = (i, d)" by fastforce
  then have "main_sums a b (min (length a) (length b)) 0 0 (i, d)"
    using vpopcnt_main_sums [of "min (length a) (length b)" a b 0 0] by simp
  then show ?thesis by (simp add: hamming_avx512_vpopcnt_def Let_def r scalar_sum after_main)
qed

lemma avx512_is_scalar [kernels]: "hamming_avx512_xor a b = hamming_scalar a b"
proof -
  obtain i d where r: "avx512_main a b (min (length a) (length b)) 0 0 = (i, d)" by fastforce
  then have "main_sums a b (min (length a) (length b)) 0 0 (i, d)"
    using avx512_main_sums [of "min (length a) (length b)" a b 0 0] by simp
  then show ?thesis by (simp add: hamming_avx512_xor_def Let_def r scalar_sum after_main)
qed

lemma hamming_scalar_any: "fst (hamming c s a b) = hamming_scalar a b"
proof -
  have "fst (active_kernel c s) a b = hamming_scalar a b"
    by (cases "hamming_path (ensure_selected c s)")
      (simp_all add: active_kernel_def Let_def hamming_avx512_or_fallback_def hamming_avx2_or_fallback_def
        hamming_avx512_dispatch_def kernels)
  then show ?thesis by (simp add: hamming_def case_prod_unfold)
qed

text \<open>Whatever the processor, the injected capabilities and the state of the lazy selection (stale
  ones included), the dispatched distance is the scalar one.\<close>

theorem dispatch_is_scalar: "fst (hamming c s a b) = hamming_scalar a b"
  by (rule hamming_scalar_any)

section \<open>The distance counts differing bits\<close>

text \<open>A vector of words as a string of bits that ends in zeros.\<close>

definition vec_bit :: "u64 list \<Rightarrow> nat \<Rightarrow> bool" where
  "vec_bit a i \<longleftrightarrow> i div 64 < length a \<and> bit (a ! (i div 64)) (i mod 64)"

definition word_at :: "u64 list \<Rightarrow> nat \<Rightarrow> u64" where
  "word_at a j = (if j < length a then a ! j else 0)"

lemma vec_bit_word: "k < 64 \<Longrightarrow> vec_bit a (64 * j + k) = bit (word_at a j) k"
  by (simp add: vec_bit_def word_at_def)

lemma scalar_words:
  "hamming_scalar a b = (\<Sum>j \<leftarrow> [0..<max (length a) (length b)]. count_ones (word_at a j XOR word_at b j))"
proof -
  let ?n = "min (length a) (length b)" and ?m = "max (length a) (length b)"
  let ?l = "if length b < length a then a else b"
  have "[0..<?m] = [0..<?n] @ [?n..<?m]"
    using upt_add_eq_append [of 0 ?n "?m - ?n"] by simp
  moreover have "(\<Sum>j \<leftarrow> [0..<?n]. count_ones (word_at a j XOR word_at b j)) = xor_sum a b 0 ?n"
    unfolding xor_sum_def by (rule arg_cong [where f = sum_list]) (simp add: word_at_def)
  moreover have "(\<Sum>j \<leftarrow> [?n..<?m]. count_ones (word_at a j XOR word_at b j)) = (\<Sum>w \<leftarrow> drop ?n ?l. count_ones w)"
  proof -
    have d: "drop ?n ?l = map ((!) ?l) [?n..<?m]" by (rule nth_equalityI) auto
    have "word_at a j XOR word_at b j = ?l ! j" if "j \<in> set [?n..<?m]" for j
      using that by (auto simp: word_at_def)
    then have "map (\<lambda>j. count_ones (word_at a j XOR word_at b j)) [?n..<?m] = map (\<lambda>j. count_ones (?l ! j)) [?n..<?m]"
      by (intro map_cong) simp_all
    then show ?thesis unfolding d map_map comp_def by (rule arg_cong)
  qed
  ultimately show ?thesis by (simp add: scalar_sum longer_tail_def Let_def fold_plus)
qed

lemma count_blocks:
  "(\<Sum>j \<leftarrow> [0..<m]. of_nat (length (filter (\<lambda>k. P (64 * j + k)) [0..<64])) :: u32) =
   of_nat (length (filter P [0..<64 * m]))"
proof (induction m)
  case (Suc m)
  have "[0..<64 * Suc m] = [0..<64 * m] @ map (\<lambda>k. 64 * m + k) [0..<64]"
    using upt_add_eq_append [of 0 "64 * m" 64] map_add_upt [of "64 * m" 64, symmetric]
    by (simp add: add.commute)
  then have "length (filter P [0..<64 * Suc m]) =
      length (filter P [0..<64 * m]) + length (filter (\<lambda>k. P (64 * m + k)) [0..<64])"
    by (simp add: filter_map comp_def)
  then show ?case using Suc by simp
qed simp

lemma hamming_bits:
  "fst (hamming c s a b) =
     of_nat (length (filter (\<lambda>i. vec_bit a i \<noteq> vec_bit b i) [0..<64 * max (length a) (length b)])) \<and>
   fst (hamming c s a b) = fst (hamming c s b a)"
proof -
  have "hamming_scalar a b =
      of_nat (length (filter (\<lambda>i. vec_bit a i \<noteq> vec_bit b i) [0..<64 * max (length a) (length b)]))" for a b
  proof -
    have "filter (bit (word_at a j XOR word_at b j)) [0..<64] =
        filter (\<lambda>k. vec_bit a (64 * j + k) \<noteq> vec_bit b (64 * j + k)) [0..<64]" for j
      by (rule filter_cong) (auto simp: bit_xor_iff vec_bit_word)
    then show ?thesis 
      unfolding scalar_words count_ones_def
      by (simp only: count_blocks [of "\<lambda>i. vec_bit a i \<noteq> vec_bit b i"])
  qed
  moreover have "filter (\<lambda>i. vec_bit a i \<noteq> vec_bit b i) is = filter (\<lambda>i. vec_bit b i \<noteq> vec_bit a i) is" for "is"
    by (rule filter_cong) auto
  ultimately show ?thesis by (simp add: hamming_scalar_any max.commute)
qed

text \<open>The distance of two vectors is the number of bit positions where they differ, the shorter
  one padded with zeros (modulo the width of the counter); so it is symmetric.\<close>

theorem hamming_counts_bits:
  "fst (hamming c s a b) =
     of_nat (length (filter (\<lambda>i. vec_bit a i \<noteq> vec_bit b i) [0..<64 * max (length a) (length b)])) \<and>
   fst (hamming c s a b) = fst (hamming c s b a)"
  by (rule hamming_bits)

end
