(* ===== verification/Bq.thy ===== *)
theory Bq
  imports Hamming Storage "HOL-Library.Product_Lexorder" "HOL-Library.Multiset"
begin

unbundle bit_operations_syntax

text \<open>
  Binary quantisation (\<open>src/src/bq.rs\<close>): vectors of \<open>f32\<close> become sign bits, the flat index keeps
  them in one array of words, \<open>top_k\<close> ranks by Hamming distance (a full sort or a bounded heap), and
  the multi-index hash proposes candidates.  An \<open>f32\<close> is its bit pattern; comparisons are the IEEE
  ones, sums of floats are not modelled.
\<close>

section \<open>Floats as patterns\<close>

definition f32_nan :: "u32 \<Rightarrow> bool" where
  "f32_nan x \<longleftrightarrow> 0x7F800000 < x AND 0x7FFFFFFF"

definition f32_finite :: "u32 \<Rightarrow> bool" where
  "f32_finite x \<longleftrightarrow> x AND 0x7F800000 \<noteq> 0x7F800000"

text \<open>Ordered like the number: the magnitude, negated under the sign bit; both zeros are 0.\<close>

definition f32_key :: "u32 \<Rightarrow> int" where
  "f32_key x = (if bit x 31 then - uint (x AND 0x7FFFFFFF) else uint (x AND 0x7FFFFFFF))"

definition f32_gt :: "u32 \<Rightarrow> u32 \<Rightarrow> bool" where
  "f32_gt x y \<longleftrightarrow> \<not> f32_nan x \<and> \<not> f32_nan y \<and> f32_key y < f32_key x"

section \<open>Quantisation\<close>

definition MAX_EMBEDDING_DIM :: nat where
  "MAX_EMBEDDING_DIM = 4096"

definition check_embedding :: "u32 list \<Rightarrow> sgdb_error + unit" where
  "check_embedding v =
     (if v = [] then Inl (SE_Invalid ''empty embedding'')
      else if MAX_EMBEDDING_DIM < length v then Inl (SE_Invalid ''embedding exceeds MAX_EMBEDDING_DIM'')
      else if list_ex (\<lambda>x. \<not> f32_finite x) v then Inl (SE_Invalid ''embedding contains NaN/Inf'')
      else Inr ())"

text \<open>\<open>n.div_ceil(64)\<close>\<close>

definition words_for :: "nat \<Rightarrow> nat" where
  "words_for n = (n + 63) div 64"

definition set_bits :: "(nat \<Rightarrow> bool) \<Rightarrow> nat \<Rightarrow> u64 list" where
  "set_bits P n =
     fold (\<lambda>i out. if P i then out[i div 64 := out ! (i div 64) OR push_bit (i mod 64) 1] else out)
       [0..<n] (replicate (words_for n) 0)"

definition quantize_f32 :: "u32 list \<Rightarrow> u64 list" where
  "quantize_f32 v = set_bits (\<lambda>i. f32_gt (v ! i) 0) (length v)"

definition quantize_f32_minus_mean :: "u32 list \<Rightarrow> u32 list \<Rightarrow> u64 list" where
  "quantize_f32_minus_mean query mean =
     set_bits (\<lambda>i. f32_gt (query ! i) (if i < length mean then mean ! i else 0)) (length query)"

definition quantize_f32_1024 :: "u32 list \<Rightarrow> u64 list" where
  "quantize_f32_1024 v =
     (let q = quantize_f32 v; n = min (length q) 16 in take n q @ replicate (16 - n) 0)"

section \<open>The flat index\<close>

record bq =
  bq_ids :: "u64 list"
  bq_flat :: "u64 list"
  words_per_vec :: nat

definition bq_new :: bq where
  "bq_new = \<lparr>bq_ids = [], bq_flat = [], words_per_vec = 0\<rparr>"

definition bq_clear :: "bq \<Rightarrow> bq" where
  "bq_clear ix = ix\<lparr>bq_ids := [], bq_flat := [], words_per_vec := 0\<rparr>"

definition fit_words :: "nat \<Rightarrow> u64 list \<Rightarrow> u64 list" where
  "fit_words w bits = (if w \<le> length bits then take w bits else bits @ replicate (w - length bits) 0)"

definition bq_insert :: "bq \<Rightarrow> u64 \<Rightarrow> u64 list \<Rightarrow> bq" where
  "bq_insert ix did bits =
     (let w = (if words_per_vec ix = 0 then max (length bits) 1 else words_per_vec ix)
      in \<lparr>bq_ids = bq_ids ix @ [did], bq_flat = bq_flat ix @ fit_words w bits, words_per_vec = w\<rparr>)"

definition insert_f32 :: "bq \<Rightarrow> u64 \<Rightarrow> u32 list \<Rightarrow> bq" where
  "insert_f32 ix did v = bq_insert ix did (quantize_f32 v)"

definition insert_1024 :: "bq \<Rightarrow> u64 \<Rightarrow> u64 list \<Rightarrow> bq" where
  "insert_1024 ix did bits =
     (let w = (if words_per_vec ix = 0 then 16 else words_per_vec ix)
      in \<lparr>bq_ids = bq_ids ix @ [did],
          bq_flat = bq_flat ix @ (if w \<le> 16 then take w bits else bits @ replicate (w - 16) 0),
          words_per_vec = w\<rparr>)"

fun map_result :: "('a \<Rightarrow> 'b result) \<Rightarrow> 'a list \<Rightarrow> 'b list result" where
  "map_result f [] = Inr []"
| "map_result f (x # xs) = and_then (f x) (\<lambda>y. and_then (map_result f xs) (\<lambda>ys. Inr (y # ys)))"

definition vec_at :: "bq \<Rightarrow> nat \<Rightarrow> nat \<Rightarrow> u64 list result" where
  "vec_at ix w i = slice_at (bq_flat ix) (i * w) (i * w + w)"

definition retain :: "bq \<Rightarrow> (u64 \<Rightarrow> bool) \<Rightarrow> (bq \<times> nat) result" where
  "retain ix keep =
     (let w = max (words_per_vec ix) 1;
          kept = filter (\<lambda>i. keep (bq_ids ix ! i)) [0..<length (bq_ids ix)]
      in and_then (map_result (vec_at ix w) kept) (\<lambda>vs.
           Inr (ix\<lparr>bq_ids := map ((!) (bq_ids ix)) kept, bq_flat := concat vs\<rparr>,
                length (bq_ids ix) - length kept)))"

text \<open>A candidate as \<open>Cand\<close> orders it: by distance, then by id.\<close>

type_synonym cand = "u32 \<times> u64"

definition score :: "cpu \<Rightarrow> dispatch \<Rightarrow> u64 list \<Rightarrow> u64 \<Rightarrow> u64 list \<Rightarrow> cand" where
  "score c s query did v = (fst (hamming c s query v), did)"

text \<open>
  \<open>BinaryHeap<Cand>\<close>: the order of its array is not observable, so a heap is the ascending list of its
  elements; the root is the greatest.
\<close>

definition heap_push :: "cand \<Rightarrow> cand list \<Rightarrow> cand list" where
  "heap_push x h = insort x h"

definition heap_step :: "nat \<Rightarrow> cand \<Rightarrow> cand list \<Rightarrow> cand list" where
  "heap_step k x h =
     (if length h < k then heap_push x h
      else if h = [] then h
      else if x < List.last h then heap_push x (butlast h) else h)"

definition top_k :: "cpu \<Rightarrow> dispatch \<Rightarrow> bq \<Rightarrow> u64 list \<Rightarrow> nat \<Rightarrow> (u64 \<times> u32) list result" where
  "top_k c s ix query k =
     (let w = words_per_vec ix; n = length (bq_ids ix)
      in if w = 0 \<or> bq_ids ix = [] \<or> k = 0 then Inr []
         else
           (let k = min k n
            in and_then (map_result (vec_at ix w) [0..<n]) (\<lambda>vs.
                 let cands = map2 (score c s query) (bq_ids ix) vs
                 in Inr (map (\<lambda>(d, did). (did, d))
                      (if n \<le> k then sort cands else fold (heap_step k) cands [])))))"

definition top_k_f32 :: "cpu \<Rightarrow> dispatch \<Rightarrow> bq \<Rightarrow> u32 list \<Rightarrow> nat \<Rightarrow> (u64 \<times> u32) list result" where
  "top_k_f32 c s ix query k = top_k c s ix (quantize_f32 query) k"

definition top_k_f32_minus_mean ::
    "cpu \<Rightarrow> dispatch \<Rightarrow> bq \<Rightarrow> u32 list \<Rightarrow> u32 list \<Rightarrow> nat \<Rightarrow> (u64 \<times> u32) list result" where
  "top_k_f32_minus_mean c s ix query mean k = top_k c s ix (quantize_f32_minus_mean query mean) k"

section \<open>Multi-index hashing\<close>

definition hash_words :: "u64 list \<Rightarrow> u64" where
  "hash_words ws =
     fold (\<lambda>w h. fold (\<lambda>b h. (h XOR ucast b) * 0x100000001b3) (le_enc 8 (unat w)) h) ws 0xcbf29ce484222325"

record mih =
  mih_blocks :: nat
  block_words :: nat
  mih_words :: nat
  buckets :: "(u64 \<times> nat list) list list"

definition push_bucket :: "u64 \<Rightarrow> nat \<Rightarrow> (u64 \<times> nat list) list \<Rightarrow> (u64 \<times> nat list) list" where
  "push_bucket key i m = bt_insert key ((case bt_get m key of Some ps \<Rightarrow> ps | None \<Rightarrow> []) @ [i]) m"

text \<open>The words of block \<open>j\<close> of a vector of width \<open>w\<close>; blocks past the width are empty.\<close>

definition block_of :: "nat \<Rightarrow> nat \<Rightarrow> u64 list \<Rightarrow> nat \<Rightarrow> u64 list" where
  "block_of bw w v j =
     (let lo = min (j * bw) w; hi = min ((j + 1) * bw) w in take (hi - lo) (drop lo v))"

definition add_position :: "nat \<Rightarrow> nat \<Rightarrow> nat \<Rightarrow> u64 list \<Rightarrow> (u64 \<times> nat list) list list \<Rightarrow> (u64 \<times> nat list) list list" where
  "add_position bw w i v bs =
     map (\<lambda>(j, b). if w \<le> min (j * bw) w then b else push_bucket (hash_words (block_of bw w v j)) i b)
       (List.enumerate 0 bs)"

definition mih_build :: "bq \<Rightarrow> nat \<Rightarrow> mih result" where
  "mih_build src blocks =
     (let blocks = max blocks 1; w = max (words_per_vec src) 1; bw = (w + (blocks - 1)) div blocks
      in and_then (map_result (vec_at src w) [0..<length (bq_ids src)]) (\<lambda>vs.
           Inr \<lparr>mih_blocks = blocks, block_words = bw, mih_words = w,
                buckets = fold (\<lambda>(i, v). add_position bw w i v) (List.enumerate 0 vs) (replicate blocks [])\<rparr>))"

definition probe_keys :: "u64 list \<Rightarrow> nat \<Rightarrow> u64 list" where
  "probe_keys block probes =
     hash_words block #
       (if 0 < probes \<and> block \<noteq> [] then
          map (\<lambda>b. hash_words (block[0 := block ! 0 XOR push_bit b 1])) [0..<min probes 64]
        else [])"

definition probe_hits :: "mih \<Rightarrow> nat \<Rightarrow> u64 list \<Rightarrow> nat \<Rightarrow> nat list" where
  "probe_hits m j block probes =
     concat (map (\<lambda>k. case bt_get (buckets m ! j) k of Some ps \<Rightarrow> ps | None \<Rightarrow> []) (probe_keys block probes))"

text \<open>The positions of all probed buckets, as the \<open>BTreeSet\<close> lists them.\<close>

definition mih_candidates :: "mih \<Rightarrow> u64 list \<Rightarrow> nat \<Rightarrow> nat list" where
  "mih_candidates m query probes =
     sort (remdups (concat (map (\<lambda>j.
       let lo = j * block_words m; hi = min (lo + block_words m) (length query)
       in probe_hits m j (take (hi - lo) (drop lo query)) probes)
       (takeWhile (\<lambda>j. j * block_words m < length query) [0..<mih_blocks m]))))"

definition mih_top_k ::
    "cpu \<Rightarrow> dispatch \<Rightarrow> mih \<Rightarrow> bq \<Rightarrow> u64 list \<Rightarrow> nat \<Rightarrow> nat \<Rightarrow> (u64 \<times> u32) list result" where
  "mih_top_k c s m src query k probes =
     (if k = 0 then Inr []
      else
        (let cand = mih_candidates m query probes
         in and_then (map_result (\<lambda>pos.
              and_then (slice_at (bq_flat src) (pos * mih_words m) (pos * mih_words m + mih_words m)) (\<lambda>v.
              and_then (index_at (bq_ids src) pos) (\<lambda>did. Inr (score c s query did v)))) cand) (\<lambda>cands.
              Inr (take k (map (\<lambda>(d, did). (did, d)) (sort cands))))))"

section \<open>Quantised vectors\<close>

lemma length_set_bits_fold:
  "length (fold (\<lambda>i out. if P i then out[i div 64 := out ! (i div 64) OR push_bit (i mod 64) 1] else out) is (xs :: u64 list)) = length xs"
  by (induction "is" arbitrary: xs) simp_all

lemma length_set_bits [simp]: "length (set_bits P n) = words_for n"
  by (simp add: set_bits_def length_set_bits_fold)

lemma words_for_less: "i < n \<Longrightarrow> i div 64 < words_for n"
  by (simp add: words_for_def)

lemma vec_bit_set:
  assumes "j div 64 < length out"
  shows "vec_bit (out[j div 64 := out ! (j div 64) OR push_bit (j mod 64) 1]) i \<longleftrightarrow> i = j \<or> vec_bit out i"
proof (cases "i div 64 = j div 64")
  case True
  have "i mod 64 = j mod 64 \<longleftrightarrow> i = j" using True by (metis mult_div_mod_eq)
  then show ?thesis using True assms by (auto simp: vec_bit_def bit_or_iff bit_push_bit_iff bit_exp_iff)
next
  case False
  then show ?thesis by (auto simp: vec_bit_def)
qed

lemma vec_bit_fold:
  assumes "m \<le> n"
  shows "vec_bit (fold (\<lambda>i out. if P i then out[i div 64 := out ! (i div 64) OR push_bit (i mod 64) 1] else out)
    [0..<m] (replicate (words_for n) 0)) i \<longleftrightarrow> i < m \<and> P i"
  using assms
proof (induction m)
  case 0
  then show ?case by (simp add: vec_bit_def)
next
  case (Suc m)
  then show ?case
    using vec_bit_set [of m] words_for_less [of m n] length_set_bits_fold [of P "[0..<m]" "replicate (words_for n) 0"]
    by (auto simp: less_Suc_eq)
qed

lemma vec_bit_set_bits: "vec_bit (set_bits P n) i \<longleftrightarrow> i < n \<and> P i"
  unfolding set_bits_def by (rule vec_bit_fold) simp

lemma words_for_covers: "n \<le> 64 * words_for n"
  by (simp add: words_for_def)

text \<open>The Hamming distance of two quantised vectors counts the dimensions where one is positive and
  the other is not, whichever kernel computes it; a NaN counts as not positive.\<close>

theorem quantized_distance_counts_signs:
  assumes "length u = length v"
  shows "fst (hamming c s (quantize_f32 u) (quantize_f32 v)) =
    of_nat (length (filter (\<lambda>i. f32_gt (u ! i) 0 \<noteq> f32_gt (v ! i) 0) [0..<length v]))"
proof -
  let ?n = "length v" and ?m = "64 * words_for (length v)"
  have "[0..<?m] = [0..<?n] @ [?n..<?m]" using upt_add_eq_append [of 0 ?n "?m - ?n"] words_for_covers [of ?n] by simp
  moreover have "filter (\<lambda>i. vec_bit (quantize_f32 u) i \<noteq> vec_bit (quantize_f32 v) i) [?n..<?m] = []"
    using assms by (auto simp: filter_empty_conv quantize_f32_def vec_bit_set_bits)
  moreover have "filter (\<lambda>i. vec_bit (quantize_f32 u) i \<noteq> vec_bit (quantize_f32 v) i) [0..<?n] =
      filter (\<lambda>i. f32_gt (u ! i) 0 \<noteq> f32_gt (v ! i) 0) [0..<?n]"
    using assms by (intro filter_cong) (auto simp: quantize_f32_def vec_bit_set_bits)
  ultimately have "filter (\<lambda>i. vec_bit (quantize_f32 u) i \<noteq> vec_bit (quantize_f32 v) i) [0..<?m] =
      filter (\<lambda>i. f32_gt (u ! i) 0 \<noteq> f32_gt (v ! i) 0) [0..<?n]" by simp
  then show ?thesis using hamming_bits [of c s "quantize_f32 u" "quantize_f32 v"] assms by (simp add: quantize_f32_def)
qed

section \<open>The index as a list of vectors\<close>

definition bq_inv :: "bq \<Rightarrow> bool" where
  "bq_inv ix \<longleftrightarrow> length (bq_flat ix) = length (bq_ids ix) * words_per_vec ix \<and> (words_per_vec ix = 0 \<longrightarrow> bq_ids ix = [])"

definition vec_of :: "bq \<Rightarrow> nat \<Rightarrow> u64 list" where
  "vec_of ix i = take (words_per_vec ix) (drop (i * words_per_vec ix) (bq_flat ix))"

definition bq_pairs :: "bq \<Rightarrow> (u64 \<times> u64 list) list" where
  "bq_pairs ix = map (\<lambda>i. (bq_ids ix ! i, vec_of ix i)) [0..<length (bq_ids ix)]"

lemma map_result_Inr: "(\<And>x. x \<in> set xs \<Longrightarrow> f x = Inr (g x)) \<Longrightarrow> map_result f xs = Inr (map g xs)"
  by (induction xs) simp_all

lemma vec_at_ok: "bq_inv ix \<Longrightarrow> i < length (bq_ids ix) \<Longrightarrow> vec_at ix (words_per_vec ix) i = Inr (vec_of ix i)"
proof -
  assume a: "bq_inv ix" "i < length (bq_ids ix)"
  have "i * words_per_vec ix + words_per_vec ix = Suc i * words_per_vec ix" by simp
  also have "\<dots> \<le> length (bq_ids ix) * words_per_vec ix" using a(2) by (intro mult_le_mono1) simp
  finally show ?thesis using a by (simp add: vec_at_def slice_at_def vec_of_def bq_inv_def)
qed

lemma length_vec_of: "bq_inv ix \<Longrightarrow> i < length (bq_ids ix) \<Longrightarrow> length (vec_of ix i) = words_per_vec ix"
  using vec_at_ok [of ix i] slice_at_Inr by (fastforce simp: vec_at_def)

lemma map_fst_bq_pairs [simp]: "map fst (bq_pairs ix) = bq_ids ix"
  by (simp add: bq_pairs_def comp_def map_nth)

lemma bq_new_inv: "bq_inv bq_new" "bq_pairs bq_new = []"
  by (simp_all add: bq_inv_def bq_new_def bq_pairs_def)

definition row_width :: "bq \<Rightarrow> u64 list \<Rightarrow> nat" where
  "row_width ix bits = (if words_per_vec ix = 0 then max (length bits) 1 else words_per_vec ix)"

lemma length_fit_words [simp]: "length (fit_words w bits) = w"
  by (simp add: fit_words_def)

lemma append_row:
  assumes inv: "bq_inv ix" and w: "w = words_per_vec ix \<or> words_per_vec ix = 0 \<and> 0 < w" and v: "length v = w"
    and ix': "ix' = \<lparr>bq_ids = bq_ids ix @ [i], bq_flat = bq_flat ix @ v, words_per_vec = w\<rparr>" and pos: "0 < w"
  shows "bq_inv ix' \<and> bq_pairs ix' = bq_pairs ix @ [(i, v)]"
proof
  have len: "length (bq_flat ix) = length (bq_ids ix) * w" using inv w by (auto simp: bq_inv_def)
  show "bq_inv ix'" using len v pos by (simp add: ix' bq_inv_def)
  have old: "vec_of ix' j = vec_of ix j" if "j < length (bq_ids ix)" for j
  proof -
    have "words_per_vec ix = w" using inv w that by (auto simp: bq_inv_def)
    moreover have "j * w + w \<le> length (bq_flat ix)"
      using that len mult_le_mono1 [of "Suc j" "length (bq_ids ix)" w] by simp
    ultimately show ?thesis by (simp add: vec_of_def ix')
  qed
  moreover have "vec_of ix' (length (bq_ids ix)) = v" using len v by (simp add: vec_of_def ix')
  ultimately show "bq_pairs ix' = bq_pairs ix @ [(i, v)]" by (simp add: bq_pairs_def ix' nth_append)
qed

lemma insert_ok:
  assumes "bq_inv ix"
  shows "bq_inv (bq_insert ix i bits) \<and> bq_pairs (bq_insert ix i bits) = bq_pairs ix @ [(i, fit_words (row_width ix bits) bits)]"
  by (rule append_row [OF assms, where w = "row_width ix bits"]) (auto simp: bq_insert_def row_width_def Let_def)

lemma insert_1024_ok:
  assumes "bq_inv ix" "length bits = 16"
  shows "bq_inv (insert_1024 ix i bits) \<and>
    bq_pairs (insert_1024 ix i bits) = bq_pairs ix @ [(i, fit_words (row_width ix bits) bits)]"
  using assms(2)
  by (intro append_row [OF assms(1), where w = "row_width ix bits"])
    (auto simp: insert_1024_def row_width_def fit_words_def Let_def)

section \<open>Ranking\<close>

lemma take_insort:
  "sorted xs \<Longrightarrow> m < length xs \<Longrightarrow>
   take (Suc m) (insort x xs) = (if x < xs ! m then insort x (take m xs) else take (Suc m) xs)"
proof (induction xs arbitrary: m)
  case (Cons y ys)
  have eq: "insort x (y # ys) = y # insort x ys" if "x = y"
  proof -
    have a: "insort x ys = x # ys" using Cons.prems(1) that by (intro insort_is_Cons) simp
    show ?thesis unfolding a using that by simp
  qed
  show ?case
  proof (cases m)
    case 0
    then show ?thesis by auto
  next
    case (Suc m')
    then have m': "m' < length ys" and s: "sorted ys" using Cons.prems by simp_all
    note IH = Cons.IH [OF s m']
    have y: "y \<le> ys ! m'" using Cons.prems(1) m' by simp
    show ?thesis
    proof (cases "x < y")
      case True
      then show ?thesis using Suc y by auto
    next
      case False
      then have "insort x (y # ys) = y # insort x ys" using eq by (metis insort_key.simps(2) linorder_le_less_linear order_le_less)
      moreover have "insort x (y # take m' ys) = y # insort x (take m' ys)" if "x < ys ! m'"
      proof (cases "x = y")
        case True
        then show ?thesis using that s Cons.prems(1) by (cases m'; cases ys) auto
      qed (use False in auto)
      ultimately show ?thesis using IH Suc by auto
    qed
  qed
qed simp

lemma sort_snoc: "sort (xs @ [x]) = insort x (sort xs)"
  by (rule properties_for_sort) (simp_all add: sorted_insort)

lemma heap_is_take_sort: "0 < k \<Longrightarrow> fold (heap_step k) xs [] = take k (sort xs)"
proof (induction xs rule: rev_induct)
  case (snoc x xs)
  let ?L = "sort xs"
  show ?case
  proof (cases "length xs < k")
    case True
    then show ?thesis using snoc by (simp add: heap_step_def heap_push_def sort_snoc)
  next
    case False
    then obtain m where m: "k = Suc m" "m < length ?L" using snoc.prems by (cases k) auto
    have ne: "take k ?L \<noteq> []" using m by (metis length_0_conv length_greater_0_conv not_less_zero take_eq_Nil nat.distinct(1))
    have l: "List.last (take k ?L) = ?L ! m" using m last_conv_nth [OF ne] by simp
    have b: "butlast (take k ?L) = take m ?L" using m by (simp add: butlast_take)
    have "length (take k ?L) = k" using m by simp
    then show ?thesis
      using snoc m take_insort [OF sorted_sort m(2), of x] l b ne
      by (simp add: sort_snoc heap_step_def heap_push_def)
  qed
qed simp

definition ranking :: "u64 list \<Rightarrow> (u64 \<times> u64 list) list \<Rightarrow> (u64 \<times> u32) list" where
  "ranking query ps = map (\<lambda>(d, i). (i, d)) (sort (map (\<lambda>(i, v). (hamming_scalar query v, i)) ps))"

lemma top_k_ranking:
  assumes "bq_inv ix"
  shows "top_k c s ix query k = Inr (take k (ranking query (bq_pairs ix)))"
proof (cases "words_per_vec ix = 0 \<or> bq_ids ix = [] \<or> k = 0")
  case True
  then have "bq_pairs ix = [] \<or> k = 0" using assms by (auto simp: bq_inv_def bq_pairs_def)
  then show ?thesis using True by (auto simp: top_k_def ranking_def)
next
  case False
  let ?n = "length (bq_ids ix)" and ?cs = "map (\<lambda>(i, v). (hamming_scalar query v, i)) (bq_pairs ix)"
  have vs: "map_result (vec_at ix (words_per_vec ix)) [0..<?n] = Inr (map (vec_of ix) [0..<?n])"
    by (rule map_result_Inr) (simp add: vec_at_ok [OF assms])
  have cs: "map2 (score c s query) (bq_ids ix) (map (vec_of ix) [0..<?n]) = ?cs"
    by (rule nth_equalityI) (simp_all add: bq_pairs_def score_def hamming_scalar_any)
  have "length ?cs = ?n" by (simp add: bq_pairs_def)
  then have "(if ?n \<le> min k ?n then sort ?cs else fold (heap_step (min k ?n)) ?cs []) = take k (sort ?cs)"
    using False heap_is_take_sort [of "min k ?n" ?cs] by auto
  then show ?thesis using False 
    unfolding top_k_def Let_def vs and_then.simps cs if_not_P [OF False] ranking_def take_map by simp
qed

text \<open>C27: over a well-formed index \<open>top_k\<close> never slices out of range, and both its paths (full sort and
  bounded heap) return the first \<open>k\<close> entries ordered by distance and id, whichever kernel runs.\<close>

theorem top_k_is_exact:
  "bq_inv ix \<Longrightarrow> top_k c s ix query k = Inr (take k (ranking query (bq_pairs ix)))"
  by (rule top_k_ranking)

section \<open>Reclaiming orphans\<close>

lemma retain_ok:
  assumes inv: "bq_inv ix"
  shows "\<exists>ix' n. retain ix keep = Inr (ix', n) \<and> bq_inv ix' \<and>
    bq_pairs ix' = filter (\<lambda>(i, v). keep i) (bq_pairs ix) \<and> n + length (bq_ids ix') = length (bq_ids ix)"
proof (cases "words_per_vec ix = 0")
  case True
  then have "bq_ids ix = []" "bq_flat ix = []" using inv by (auto simp: bq_inv_def)
  then show ?thesis using True by (simp add: retain_def bq_inv_def bq_pairs_def)
next
  case False
  let ?w = "words_per_vec ix" and ?n = "length (bq_ids ix)"
  let ?kept = "filter (\<lambda>i. keep (bq_ids ix ! i)) [0..<?n]"
  have w: "max ?w 1 = ?w" using False by simp
  have vs: "map_result (vec_at ix ?w) ?kept = Inr (map (vec_of ix) ?kept)"
    by (rule map_result_Inr) (simp add: vec_at_ok [OF inv])
  let ?ix = "ix\<lparr>bq_ids := map ((!) (bq_ids ix)) ?kept, bq_flat := concat (map (vec_of ix) ?kept)\<rparr>"
  have run: "retain ix keep = Inr (?ix, ?n - length ?kept)"
    unfolding retain_def Let_def w vs and_then.simps by (simp add: vs)
  have lens: "length (vec_of ix i) = ?w" if "i \<in> set ?kept" for i using that length_vec_of [OF inv] by simp
  have "length (concat (map (vec_of ix) ?kept)) = ?w * length ?kept" by (rule length_concat_const) (rule lens)
  then have inv': "bq_inv ?ix" using False by (simp add: bq_inv_def)
  have "vec_of ?ix j = vec_of ix (?kept ! j)" if "j < length ?kept" for j
    using concat_chunk [of j ?kept "vec_of ix" ?w "[]"] that lens by (simp add: vec_of_def)
  then have "bq_pairs ?ix = map (\<lambda>j. (bq_ids ix ! (?kept ! j), vec_of ix (?kept ! j))) [0..<length ?kept]"
    by (simp add: bq_pairs_def)
  also have "\<dots> = map (\<lambda>i. (bq_ids ix ! i, vec_of ix i)) (map ((!) ?kept) [0..<length ?kept])"
    by (simp add: comp_def)
  also have "\<dots> = map (\<lambda>i. (bq_ids ix ! i, vec_of ix i)) ?kept" unfolding map_nth ..
  also have "\<dots> = filter (\<lambda>(i, v). keep i) (bq_pairs ix)"
    by (simp add: bq_pairs_def filter_map comp_def)
  finally have pairs: "bq_pairs ?ix = filter (\<lambda>(i, v). keep i) (bq_pairs ix)" .
  have "length ?kept \<le> ?n" using length_filter_le [of _ "[0..<?n]"] by (metis diff_zero length_upt)
  then show ?thesis using run inv' pairs by (intro exI [of _ ?ix] exI [of _ "?n - length ?kept"]) simp
qed

lemma ranking_filter:
  "ranking query (filter (\<lambda>(i, v). keep i) ps) = filter (\<lambda>(i, d). keep i) (ranking query ps)"
proof -
  have a: "map (\<lambda>(i, v). (hamming_scalar query v, i)) (filter (\<lambda>(i, v). keep i) ps) =
      filter (\<lambda>(d, i). keep i) (map (\<lambda>(i, v). (hamming_scalar query v, i)) ps)"
    by (induction ps) auto
  show ?thesis unfolding ranking_def a filter_sort [symmetric]
    by (simp add: filter_map comp_def case_prod_unfold)
qed

text \<open>C28: reclaiming orphans keeps the index well-formed and drops exactly the entries of dead ids: a
  later query ranks the live entries as before, without the dead ones.\<close>

theorem reclaim_keeps_live_ranking:
  assumes "bq_inv ix"
  shows "\<exists>ix' n. retain ix keep = Inr (ix', n) \<and> bq_inv ix' \<and> n + length (bq_ids ix') = length (bq_ids ix) \<and>
    top_k c s ix' query k = Inr (take k (filter (\<lambda>(i, d). keep i) (ranking query (bq_pairs ix))))"
proof -
  obtain ix' n where r: "retain ix keep = Inr (ix', n)" "bq_inv ix'"
    "bq_pairs ix' = filter (\<lambda>(i, v). keep i) (bq_pairs ix)" "n + length (bq_ids ix') = length (bq_ids ix)"
    using retain_ok [OF assms] by blast
  show ?thesis
    by (intro exI [of _ ix'] exI [of _ n])
      (use r in \<open>simp add: top_k_ranking ranking_filter\<close>)
qed

section \<open>Multi-index hashing finds equal blocks\<close>

definition bucket_at :: "(u64 \<times> nat list) list list \<Rightarrow> nat \<Rightarrow> u64 \<Rightarrow> nat set" where
  "bucket_at bs j key = (case bt_get (bs ! j) key of Some ps \<Rightarrow> set ps | None \<Rightarrow> {})"

definition buckets_ok :: "nat \<Rightarrow> (u64 \<times> nat list) list list \<Rightarrow> bool" where
  "buckets_ok n bs \<longleftrightarrow> length bs = n \<and> (\<forall>b \<in> set bs. bt_wf b)"

lemma push_bucket_get:
  "bt_wf m \<Longrightarrow> bt_get (push_bucket key i m) k = (if k = key
     then Some ((case bt_get m key of Some ps \<Rightarrow> ps | None \<Rightarrow> []) @ [i]) else bt_get m k)"
  by (simp add: push_bucket_def)

lemma add_position_nth:
  "j < length bs \<Longrightarrow> add_position bw w i v bs ! j =
     (if w \<le> j * bw then bs ! j else push_bucket (hash_words (block_of bw w v j)) i (bs ! j))"
  by (auto simp: add_position_def nth_enumerate_eq)

lemma add_position_ok:
  assumes "buckets_ok n bs"
  shows "buckets_ok n (add_position bw w i v bs) \<and>
    (\<forall>j < n. \<forall>key. bucket_at (add_position bw w i v bs) j key =
      bucket_at bs j key \<union> (if j * bw < w \<and> key = hash_words (block_of bw w v j) then {i} else {}))"
proof
  have wf: "bt_wf (bs ! j)" if "j < n" for j using assms that by (auto simp: buckets_ok_def)
  have len: "length (add_position bw w i v bs) = n" using assms by (simp add: add_position_def buckets_ok_def)
  have "bt_wf (add_position bw w i v bs ! j)" if "j < n" for j
    using add_position_nth [of j bs] wf [OF that] assms that by (simp add: buckets_ok_def push_bucket_def)
  then show "buckets_ok n (add_position bw w i v bs)" using len by (auto simp: buckets_ok_def in_set_conv_nth)
  show "\<forall>j < n. \<forall>key. bucket_at (add_position bw w i v bs) j key =
      bucket_at bs j key \<union> (if j * bw < w \<and> key = hash_words (block_of bw w v j) then {i} else {})"
  proof (intro allI impI)
    fix j key assume j: "j < n"
    then have "j < length bs" using assms by (simp add: buckets_ok_def)
    then show "bucket_at (add_position bw w i v bs) j key =
        bucket_at bs j key \<union> (if j * bw < w \<and> key = hash_words (block_of bw w v j) then {i} else {})"
      using wf [OF j] by (auto simp: bucket_at_def add_position_nth push_bucket_get split: option.splits)
  qed
qed

lemma build_buckets:
  assumes "buckets_ok n bs"
  shows "buckets_ok n (fold (\<lambda>(i, v). add_position bw w i v) ivs bs) \<and>
    (\<forall>j < n. \<forall>key. bucket_at (fold (\<lambda>(i, v). add_position bw w i v) ivs bs) j key =
      bucket_at bs j key \<union> {i. \<exists>v. (i, v) \<in> set ivs \<and> j * bw < w \<and> key = hash_words (block_of bw w v j)})"
  using assms
proof (induction ivs arbitrary: bs)
  case (Cons iv ivs)
  obtain i v where iv: "iv = (i, v)" by (cases iv)
  note step = add_position_ok [OF Cons.prems, of bw w i v]
  show ?case using Cons.IH [OF conjunct1 [OF step]] conjunct2 [OF step] by (auto simp: iv split: if_splits)
qed simp

lemma mih_build_ok:
  assumes inv: "bq_inv src" and w: "0 < words_per_vec src"
  shows "\<exists>m. mih_build src blocks = Inr m \<and> mih_blocks m = max blocks 1 \<and> mih_words m = words_per_vec src \<and>
    0 < block_words m \<and>
    (\<forall>j < mih_blocks m. \<forall>key. bucket_at (buckets m) j key =
      {i. i < length (bq_ids src) \<and> j * block_words m < words_per_vec src \<and>
          key = hash_words (block_of (block_words m) (words_per_vec src) (vec_of src i) j)})"
proof -
  let ?w = "words_per_vec src" and ?n = "length (bq_ids src)" and ?b = "max blocks 1"
  let ?bw = "(?w + (?b - 1)) div ?b"
  have vs: "map_result (vec_at src ?w) [0..<?n] = Inr (map (vec_of src) [0..<?n])"
    by (rule map_result_Inr) (simp add: vec_at_ok [OF inv])
  let ?ivs = "List.enumerate 0 (map (vec_of src) [0..<?n])"
  have mem: "(i, v) \<in> set ?ivs \<longleftrightarrow> i < ?n \<and> v = vec_of src i" for i v
    by (auto simp: in_set_enumerate_eq)
  have ok: "buckets_ok ?b (replicate ?b [])" by (auto simp: buckets_ok_def)
  have emp: "bucket_at (replicate ?b []) j key = {}" if "j < ?b" for j key using that by (simp add: bucket_at_def)
  have "x \<le> ?w + (x - 1)" for x using w by arith
  then have "?b \<le> ?w + (?b - 1)" .
  then have pos: "0 < ?bw" by (simp add: div_greater_zero_iff)
  have mw: "max ?w 1 = ?w" using w by simp
  let ?m = "\<lparr>mih_blocks = ?b, block_words = ?bw, mih_words = ?w,
    buckets = fold (\<lambda>(i, v). add_position ?bw ?w i v) ?ivs (replicate ?b [])\<rparr>"
  have run: "mih_build src blocks = Inr ?m" unfolding mih_build_def Let_def mw vs and_then.simps ..
  have "bucket_at (buckets ?m) j key = {i. i < ?n \<and> j * ?bw < ?w \<and> key = hash_words (block_of ?bw ?w (vec_of src i) j)}"
    if "j < ?b" for j key
    using conjunct2 [OF build_buckets [OF ok, of ?bw ?w ?ivs]] that emp [OF that] by (simp add: mem)
  then show ?thesis using run pos by (intro exI [of _ ?m]) simp
qed

lemma set_probe_hits: "set (probe_hits m j block probes) = (\<Union>k \<in> set (probe_keys block probes). bucket_at (buckets m) j k)"
proof -
  have "set (concat (map (\<lambda>k. case bt_get b k of Some ps \<Rightarrow> ps | None \<Rightarrow> []) ks)) =
      (\<Union>k \<in> set ks. case bt_get b k of Some ps \<Rightarrow> set ps | None \<Rightarrow> {})" for b :: "(u64 \<times> nat list) list" and ks
    by (induction ks) (auto split: option.split)
  then show ?thesis by (simp add: probe_hits_def bucket_at_def)
qed

lemma takeWhile_upt: "(\<And>i j. i \<le> j \<Longrightarrow> P j \<Longrightarrow> P i) \<Longrightarrow> takeWhile P [0..<n] = filter P [0..<n]"
proof (induction n)
  case (Suc n)
  show ?case
  proof (cases "P n")
    case True
    then have "P i" if "i \<le> n" for i using Suc.prems that by blast
    then show ?thesis by (simp add: takeWhile_eq_all_conv filter_id_conv)
  next
    case False
    then show ?thesis using Suc.IH [OF Suc.prems] by (simp add: takeWhile_append)
  qed
qed simp

text \<open>Multi-index hashing over a well-formed index and a query of its width: no slice goes out of
  range, the result is the exact ranking of the proposed candidates, and every stored vector that equals
  the query on one of the blocks (in particular an exact match) is among them.\<close>

theorem mih_finds_equal_blocks:
  assumes inv: "bq_inv src" and w: "0 < words_per_vec src" and q: "length query = words_per_vec src"
  shows "\<exists>m. mih_build src blocks = Inr m \<and>
    (\<forall>i < length (bq_ids src). \<forall>j < mih_blocks m. j * block_words m < words_per_vec src \<longrightarrow>
       block_of (block_words m) (words_per_vec src) (vec_of src i) j =
       block_of (block_words m) (words_per_vec src) query j \<longrightarrow>
       i \<in> set (mih_candidates m query probes)) \<and>
    mih_top_k c s m src query k probes =
      Inr (take k (ranking query (map (\<lambda>i. bq_pairs src ! i) (mih_candidates m query probes))))"
proof -
  obtain m where m: "mih_build src blocks = Inr m" "mih_blocks m = max blocks 1" "mih_words m = words_per_vec src"
    "0 < block_words m" and bk: "\<And>j key. j < mih_blocks m \<Longrightarrow> bucket_at (buckets m) j key =
      {i. i < length (bq_ids src) \<and> j * block_words m < words_per_vec src \<and>
          key = hash_words (block_of (block_words m) (words_per_vec src) (vec_of src i) j)}"
    using mih_build_ok [OF inv w, of blocks] by blast
  let ?bw = "block_words m" and ?w = "words_per_vec src" and ?n = "length (bq_ids src)"
  let ?js = "takeWhile (\<lambda>j. j * ?bw < ?w) [0..<mih_blocks m]"
  have js: "?js = filter (\<lambda>j. j * ?bw < ?w) [0..<mih_blocks m]"
    by (rule takeWhile_upt) (meson mult_le_mono1 order_le_less_trans)
  have blk: "take (min (j * ?bw + ?bw) (length query) - j * ?bw) (drop (j * ?bw) query) = block_of ?bw ?w query j"
    if "j * ?bw < ?w" for j using that q by (simp add: block_of_def Let_def add.commute)
  have cand: "i \<in> set (mih_candidates m query probes) \<longleftrightarrow>
      (\<exists>j < mih_blocks m. j * ?bw < ?w \<and> (\<exists>key \<in> set (probe_keys (block_of ?bw ?w query j) probes). i \<in> bucket_at (buckets m) j key))" for i
  proof -
    have "map (\<lambda>j. probe_hits m j (take (min (j * ?bw + ?bw) (length query) - j * ?bw) (drop (j * ?bw) query)) probes) ?js =
        map (\<lambda>j. probe_hits m j (block_of ?bw ?w query j) probes) ?js"
      by (rule map_cong) (simp_all add: js blk)
    then have "set (mih_candidates m query probes) = (\<Union>j \<in> set ?js. set (probe_hits m j (block_of ?bw ?w query j) probes))"
      by (simp add: mih_candidates_def Let_def q)
    then have "set (mih_candidates m query probes) =
        (\<Union>j \<in> set ?js. \<Union>k \<in> set (probe_keys (block_of ?bw ?w query j) probes). bucket_at (buckets m) j k)"
      by (simp add: set_probe_hits)
    then show ?thesis by (auto simp: js)
  qed
  have range: "i < ?n" if "i \<in> set (mih_candidates m query probes)" for i
    using that bk by (auto simp: cand)
  have found: "i \<in> set (mih_candidates m query probes)"
    if "i < ?n" "j < mih_blocks m" "j * ?bw < ?w" "block_of ?bw ?w (vec_of src i) j = block_of ?bw ?w query j" for i j
  proof -
    have "hash_words (block_of ?bw ?w query j) \<in> set (probe_keys (block_of ?bw ?w query j) probes)"
      by (simp add: probe_keys_def)
    moreover have "i \<in> bucket_at (buckets m) j (hash_words (block_of ?bw ?w query j))"
      using that bk by simp
    ultimately show ?thesis using that(2,3) cand by blast
  qed
  have fetch: "and_then (slice_at (bq_flat src) (pos * mih_words m) (pos * mih_words m + mih_words m)) (\<lambda>v.
      and_then (index_at (bq_ids src) pos) (\<lambda>did. Inr (score c s query did v))) =
      Inr (hamming_scalar query (vec_of src pos), bq_ids src ! pos)" if "pos < ?n" for pos
    using vec_at_ok [OF inv that] that m(3) by (simp add: vec_at_def index_at_def score_def hamming_scalar_any)
  have "mih_top_k c s m src query k probes =
      Inr (take k (ranking query (map (\<lambda>i. bq_pairs src ! i) (mih_candidates m query probes))))"
  proof -
    have "map_result (\<lambda>pos. and_then (slice_at (bq_flat src) (pos * mih_words m) (pos * mih_words m + mih_words m)) (\<lambda>v.
        and_then (index_at (bq_ids src) pos) (\<lambda>did. Inr (score c s query did v)))) (mih_candidates m query probes) =
        Inr (map (\<lambda>pos. (hamming_scalar query (vec_of src pos), bq_ids src ! pos)) (mih_candidates m query probes))"
      by (rule map_result_Inr) (rule fetch [OF range])
    moreover have "map (\<lambda>pos. (hamming_scalar query (vec_of src pos), bq_ids src ! pos)) (mih_candidates m query probes) =
        map (\<lambda>(i, v). (hamming_scalar query v, i)) (map (\<lambda>i. bq_pairs src ! i) (mih_candidates m query probes))"
      using range by (auto simp: bq_pairs_def)
    ultimately show ?thesis by (simp add: mih_top_k_def Let_def ranking_def take_map)
  qed
  then show ?thesis using m(1) found by blast
qed

definition plain_cpu :: cpu where
  "plain_cpu = \<lparr>x86_host = False, detected = None, has_vpop = False\<rparr>"

lemma quantized_distance_counts_signs_witness:
  "fst (hamming plain_cpu dispatch_start (quantize_f32 [0x3F800000, 0xBF800000]) (quantize_f32 [0x3F800000, 0x3F800000])) =
   of_nat (length (filter (\<lambda>i. f32_gt ([0x3F800000, 0xBF800000] ! i) 0 \<noteq> f32_gt ([0x3F800000, 0x3F800000] ! i) 0) [0..<2]))"
  using quantized_distance_counts_signs [of "[0x3F800000, 0xBF800000]" "[0x3F800000, 0x3F800000]" plain_cpu dispatch_start]
  by (simp add: numeral_2_eq_2)

definition two_rows :: bq where
  "two_rows = bq_insert (bq_insert bq_new 7 [5]) 3 [4, 9]"

lemma two_rows_inv: "bq_inv two_rows" "bq_pairs two_rows = [(7, [5]), (3, [4])]" "words_per_vec two_rows = 1"
  by (simp_all add: two_rows_def bq_insert_def bq_new_def bq_inv_def bq_pairs_def vec_of_def fit_words_def Let_def)

lemma top_k_is_exact_witness: "top_k plain_cpu dispatch_start two_rows [5] 1 = Inr [(7, 0)]"
proof -
  have "take 1 (ranking [5] [(7, [5]), (3, [4])]) = [(7, 0)]" by code_simp
  then show ?thesis
    using top_k_is_exact [OF two_rows_inv(1), of plain_cpu dispatch_start "[5]" 1] by (simp only: two_rows_inv(2))
qed

lemma reclaim_keeps_live_ranking_witness: "\<exists>ix' n. retain two_rows (\<lambda>i. i = 3) = Inr (ix', n) \<and> bq_inv ix'"
  using reclaim_keeps_live_ranking [OF two_rows_inv(1), of "\<lambda>i. i = 3"] by blast

lemma mih_finds_equal_blocks_witness:
  "\<exists>m. mih_build two_rows 1 = Inr m \<and> 0 \<in> set (mih_candidates m [5] 0)"
proof -
  have v: "vec_of two_rows 0 = [5]" "length (bq_ids two_rows) = 2"
    by (simp_all add: two_rows_def bq_insert_def bq_new_def vec_of_def fit_words_def Let_def)
  obtain m where m: "mih_build two_rows 1 = Inr m" "mih_blocks m = max 1 1"
    using mih_build_ok [OF two_rows_inv(1), of 1] two_rows_inv(3) by auto
  then show ?thesis
    using mih_finds_equal_blocks [OF two_rows_inv(1), of "[5]" 1 0] two_rows_inv(3) v by fastforce
qed

end
