(* ===== verification/Lexical.thy ===== *)
theory Lexical
  imports Memory_Types Btree
begin

unbundle bit_operations_syntax

text \<open>
  The lexical index (\<open>src/src/lexical.rs\<close>) and the canonical hash of derived state
  (\<open>src/src/fingerprint.rs\<close>): tokens, postings, upsert and removal, snapshot and restore.  The
  scores of \<open>search\<close> are \<open>f32\<close> logarithms and are not modelled.  \<open>char::is_alphanumeric\<close> outside
  ASCII is a table of the standard library: the predicate \<open>alnum\<close> on the bytes of such a character.
\<close>

section \<open>Fingerprints\<close>

definition FP_SEED :: u64 where
  "FP_SEED = 0xcbf29ce484222325"

definition fp_mix :: "u64 \<Rightarrow> bytes \<Rightarrow> u64" where
  "fp_mix h bs = fold (\<lambda>b h. (h XOR ucast b) * 0x100000001b3) bs h"

definition fp_mix_u64 :: "u64 \<Rightarrow> u64 \<Rightarrow> u64" where
  "fp_mix_u64 h v = fp_mix h (le_enc 8 (unat v))"

definition fp_mix_str :: "u64 \<Rightarrow> bytes \<Rightarrow> u64" where
  "fp_mix_str h s = fp_mix (fp_mix_u64 h (of_nat (length s))) s"

section \<open>Tokens\<close>

text \<open>\<open>str::chars\<close>, each character as its bytes.\<close>

definition char_len :: "u8 \<Rightarrow> nat" where
  "char_len b = (if b < 0x80 then 1 else if b < 0xE0 then 2 else if b < 0xF0 then 3 else 4)"

function chars_of :: "bytes \<Rightarrow> bytes list" where
  "chars_of [] = []"
| "chars_of (b # bs) = (b # take (char_len b - 1) bs) # chars_of (drop (char_len b - 1) bs)"
  by pat_completeness auto
termination by (relation "measure length") auto

definition ascii_alnum :: "u8 \<Rightarrow> bool" where
  "ascii_alnum b \<longleftrightarrow> 0x30 \<le> b \<and> b \<le> 0x39 \<or> 0x41 \<le> b \<and> b \<le> 0x5A \<or> 0x61 \<le> b \<and> b \<le> 0x7A"

definition is_alphanumeric :: "(bytes \<Rightarrow> bool) \<Rightarrow> bytes \<Rightarrow> bool" where
  "is_alphanumeric alnum c = (case c of [b] \<Rightarrow> ascii_alnum b | _ \<Rightarrow> alnum c)"

definition to_ascii_lowercase :: "bytes \<Rightarrow> bytes" where
  "to_ascii_lowercase c = (case c of [b] \<Rightarrow> [if 0x41 \<le> b \<and> b \<le> 0x5A then b + 0x20 else b] | _ \<Rightarrow> c)"

definition token_step :: "(bytes \<Rightarrow> bool) \<Rightarrow> bytes \<Rightarrow> bytes list \<times> bytes \<Rightarrow> bytes list \<times> bytes" where
  "token_step alnum c = (\<lambda>(out, cur).
     if is_alphanumeric alnum c then (out, cur @ to_ascii_lowercase c)
     else if cur \<noteq> [] then (out @ [cur], [])
     else (out, cur))"

definition tokenize :: "(bytes \<Rightarrow> bool) \<Rightarrow> bytes \<Rightarrow> bytes list" where
  "tokenize alnum text =
     (case fold (token_step alnum) (chars_of text) ([], []) of (out, cur) \<Rightarrow>
        if cur \<noteq> [] then out @ [cur] else out)"

section \<open>The index\<close>

record lexical =
  lx_postings :: "(bytes \<times> (bytes \<times> u32) list) list"
  lx_doc_len :: "(bytes \<times> u32) list"
  lx_n_docs :: u32

definition lx_new :: lexical where
  "lx_new = \<lparr>lx_postings = [], lx_doc_len = [], lx_n_docs = 0\<rparr>"

definition drop_posting :: "bytes \<Rightarrow> (bytes \<times> (bytes \<times> u32) list) list \<Rightarrow> (bytes \<times> (bytes \<times> u32) list) list" where
  "drop_posting key ps =
     (let ps = map (\<lambda>(t, pl). (t, bt_remove key pl)) ps;
          gone = map fst (filter (\<lambda>(t, pl). pl = []) ps)
      in fold bt_remove gone ps)"

definition lx_remove :: "lexical \<Rightarrow> bytes \<Rightarrow> lexical" where
  "lx_remove ix key =
     (case bt_get (lx_doc_len ix) key of
        None \<Rightarrow> ix
      | Some _ \<Rightarrow>
          ix\<lparr>lx_doc_len := bt_remove key (lx_doc_len ix),
             lx_n_docs := (if lx_n_docs ix = 0 then 0 else lx_n_docs ix - 1),
             lx_postings := drop_posting key (lx_postings ix)\<rparr>)"

definition count_terms :: "bytes list \<Rightarrow> (bytes \<times> u32) list" where
  "count_terms toks = fold (\<lambda>t tf. bt_insert t (unwrap_or (bt_get tf t) 0 + 1) tf) toks []"

definition add_postings ::
    "bytes \<Rightarrow> (bytes \<times> u32) list \<Rightarrow> (bytes \<times> (bytes \<times> u32) list) list \<Rightarrow> (bytes \<times> (bytes \<times> u32) list) list" where
  "add_postings key tf ps =
     fold (\<lambda>(t, f) ps. bt_insert t (bt_insert key f (unwrap_or (bt_get ps t) [])) ps) tf ps"

definition lx_add :: "(bytes \<Rightarrow> bool) \<Rightarrow> lexical \<Rightarrow> bytes \<Rightarrow> bytes \<Rightarrow> lexical" where
  "lx_add alnum ix key text =
     (let ix = (if bt_get (lx_doc_len ix) key \<noteq> None then lx_remove ix key else ix);
          toks = tokenize alnum text
      in if toks = [] then ix
         else ix\<lparr>lx_n_docs := (if lx_n_docs ix = - 1 then - 1 else lx_n_docs ix + 1),
                 lx_doc_len := bt_insert key (of_nat (length toks)) (lx_doc_len ix),
                 lx_postings := add_postings key (count_terms toks) (lx_postings ix)\<rparr>)"

definition restore_postings :: "lexical \<Rightarrow> bytes \<Rightarrow> (bytes \<times> u32) list \<Rightarrow> lexical" where
  "restore_postings ix term docs =
     (if docs \<noteq> [] then ix\<lparr>lx_postings := bt_insert term docs (lx_postings ix)\<rparr> else ix)"

definition restore_doc_len :: "lexical \<Rightarrow> bytes \<Rightarrow> u32 \<Rightarrow> lexical" where
  "restore_doc_len ix doc len = ix\<lparr>lx_doc_len := bt_insert doc len (lx_doc_len ix)\<rparr>"

definition restore_n_docs :: "lexical \<Rightarrow> u32 \<Rightarrow> lexical" where
  "restore_n_docs ix n = ix\<lparr>lx_n_docs := n\<rparr>"

definition snapshot_postings :: "lexical \<Rightarrow> (bytes \<times> (bytes \<times> u32) list) list" where
  "snapshot_postings ix = lx_postings ix"

definition snapshot_doc_len :: "lexical \<Rightarrow> (bytes \<times> u32) list" where
  "snapshot_doc_len ix = lx_doc_len ix"

definition fp_mix_into :: "lexical \<Rightarrow> u64 \<Rightarrow> u64" where
  "fp_mix_into ix h =
     (let h = fp_mix_u64 h (ucast (lx_n_docs ix));
          h = fp_mix_u64 h (of_nat (length (lx_postings ix)))
      in fold (\<lambda>(t, docs) h.
           let h = fp_mix_str h t; h = fp_mix_u64 h (of_nat (length docs))
           in fold (\<lambda>(d, tf) h. fp_mix_u64 (fp_mix_str h d) (ucast tf)) docs h)
         (lx_postings ix) h)"

section \<open>The index of a map from keys to texts\<close>

definition tf_at :: "lexical \<Rightarrow> bytes \<Rightarrow> bytes \<Rightarrow> u32 option" where
  "tf_at ix t key = (case bt_get (lx_postings ix) t of None \<Rightarrow> None | Some pl \<Rightarrow> bt_get pl key)"

definition postings_wf :: "(bytes \<times> (bytes \<times> u32) list) list \<Rightarrow> bool" where
  "postings_wf ps \<longleftrightarrow> bt_wf ps \<and> (\<forall>(t, pl) \<in> set ps. bt_wf pl \<and> pl \<noteq> [])"

definition term_count :: "bytes list \<Rightarrow> bytes \<Rightarrow> u32 option" where
  "term_count toks t = (if t \<in> set toks then Some (of_nat (count_list toks t)) else None)"

text \<open>
  The index stands for the tokens of each indexed key: frequencies, lengths and the number of
  documents are those of the map.
\<close>

definition indexes :: "lexical \<Rightarrow> (bytes \<Rightarrow> bytes list option) \<Rightarrow> bool" where
  "indexes ix docs \<longleftrightarrow>
     postings_wf (lx_postings ix) \<and> bt_wf (lx_doc_len ix) \<and>
     (\<forall>key. bt_get (lx_doc_len ix) key = map_option (\<lambda>toks. of_nat (length toks)) (docs key)) \<and>
     (\<forall>t key. tf_at ix t key = Option.bind (docs key) (\<lambda>toks. term_count toks t)) \<and>
     (\<forall>key. docs key \<noteq> Some []) \<and>
     finite (dom docs) \<and> unat (lx_n_docs ix) = card (dom docs)"

lemma postings_get: "postings_wf ps \<Longrightarrow> bt_get ps t = Some pl \<Longrightarrow> bt_wf pl \<and> pl \<noteq> []"
  by (auto simp: postings_wf_def dest!: map_of_SomeD)

lemma postings_eqI:
  assumes "postings_wf ps" "postings_wf ps'"
    and "\<And>t key. (case bt_get ps t of None \<Rightarrow> None | Some pl \<Rightarrow> bt_get pl key) =
      (case bt_get ps' t of None \<Rightarrow> None | Some pl \<Rightarrow> bt_get pl key)"
  shows "ps = ps'"
proof (rule bt_eqI)
  show "bt_wf ps" "bt_wf ps'" using assms(1,2) by (simp_all add: postings_wf_def)
  show "bt_get ps = bt_get ps'"
  proof
    fix t
    have some: "\<exists>key v. bt_get pl key = Some v" if "pl \<noteq> []" for pl :: "(bytes \<times> u32) list"
      using that by (cases pl) auto
    show "bt_get ps t = bt_get ps' t"
    proof (cases "bt_get ps t"; cases "bt_get ps' t")
      fix pl pl' assume a: "bt_get ps t = Some pl" "bt_get ps' t = Some pl'"
      then have "bt_get pl = bt_get pl'" using assms(3) [where t = t] by (simp add: fun_eq_iff)
      then show ?thesis using postings_get [OF assms(1) a(1)] postings_get [OF assms(2) a(2)] a bt_eqI [of pl pl'] by simp
    next
      fix pl assume a: "bt_get ps t = Some pl" "bt_get ps' t = None"
      then show ?thesis using some [of pl] postings_get [OF assms(1) a(1)] assms(3) [where t = t] by auto
    next
      fix pl assume a: "bt_get ps t = None" "bt_get ps' t = Some pl"
      then show ?thesis using some [of pl] postings_get [OF assms(2) a(2)] assms(3) [where t = t] by fastforce
    qed simp
  qed
qed

lemma indexes_unique:
  assumes "indexes ix docs" "indexes ix' docs"
  shows "ix = ix'"
proof -
  have "lx_postings ix = lx_postings ix'"
    using assms by (intro postings_eqI) (auto simp: indexes_def tf_at_def)
  moreover have "lx_doc_len ix = lx_doc_len ix'"
    using assms by (intro bt_eqI) (auto simp: indexes_def fun_eq_iff)
  moreover have "lx_n_docs ix = lx_n_docs ix'"
    using assms by (simp add: indexes_def word_unat_eq_iff)
  ultimately show ?thesis by simp
qed

lemma indexes_new: "indexes lx_new Map.empty"
  by (simp add: indexes_def lx_new_def postings_wf_def tf_at_def)

subsection \<open>Removal\<close>

lemma fold_bt_remove: "fold bt_remove ks m = filter (\<lambda>e. fst e \<notin> set ks) m"
proof (induction ks arbitrary: m)
  case (Cons k ks)
  then show ?case by (simp add: bt_remove_def conj_commute)
qed simp

lemma drop_posting_filter:
  assumes "bt_wf ps"
  shows "drop_posting key ps = filter (\<lambda>(t, pl). pl \<noteq> []) (map (\<lambda>(t, pl). (t, bt_remove key pl)) ps)"
proof -
  let ?ps = "map (\<lambda>(t, pl). (t, bt_remove key pl)) ps"
  have d: "distinct (map fst ?ps)" using bt_wf_distinct [OF assms] by (simp add: comp_def case_prod_unfold)
  have live: "t \<notin> set (map fst (filter (\<lambda>(t, pl). pl = []) ?ps)) \<longleftrightarrow> pl \<noteq> []" if "(t, pl) \<in> set ?ps" for t pl
  proof
    assume "pl \<noteq> []"
    show "t \<notin> set (map fst (filter (\<lambda>(t, pl). pl = []) ?ps))"
    proof
      assume "t \<in> set (map fst (filter (\<lambda>(t, pl). pl = []) ?ps))"
      then have "(t, []) \<in> set ?ps" by (auto simp: image_iff)
      then show False using eq_key_imp_eq_value [OF d that] \<open>pl \<noteq> []\<close> by blast
    qed
  next
    assume a: "t \<notin> set (map fst (filter (\<lambda>(t, pl). pl = []) ?ps))"
    show "pl \<noteq> []"
    proof
      assume "pl = []"
      then have "(t, pl) \<in> set (filter (\<lambda>(t, pl). pl = []) ?ps)" using that by simp
      then have "fst (t, pl) \<in> set (map fst (filter (\<lambda>(t, pl). pl = []) ?ps))"
        unfolding set_map by (rule imageI)
      then show False using a by simp
    qed
  qed
  have "(fst e \<notin> set (map fst (filter (\<lambda>(t, pl). pl = []) ?ps))) = (case e of (t, pl) \<Rightarrow> pl \<noteq> [])" if "e \<in> set ?ps" for e
    using live [of "fst e" "snd e"] that by (simp only: prod.collapse case_prod_unfold)
  then show ?thesis unfolding drop_posting_def Let_def fold_bt_remove by (intro filter_cong refl)
qed

lemma bt_wf_map_snd: "bt_wf (map (\<lambda>(t, x). (t, f x)) m) = bt_wf m"
  by (simp add: bt_wf_def comp_def case_prod_unfold)

lemma drop_posting_ok:
  assumes "postings_wf ps"
  shows "postings_wf (drop_posting key ps) \<and>
    (case bt_get (drop_posting key ps) t of None \<Rightarrow> None | Some pl \<Rightarrow> bt_get pl k) =
    (if k = key then None else case bt_get ps t of None \<Rightarrow> None | Some pl \<Rightarrow> bt_get pl k)"
proof
  have wf: "bt_wf ps" using assms by (simp add: postings_wf_def)
  note drop = drop_posting_filter [OF wf, of key]
  have wf': "bt_wf (drop_posting key ps)" using wf by (simp add: drop bt_wf_map_snd)
  show "postings_wf (drop_posting key ps)"
    using wf' assms by (auto simp: postings_wf_def drop)
  have mem: "(t, pl) \<in> set (drop_posting key ps) \<longleftrightarrow> (\<exists>pl0. (t, pl0) \<in> set ps \<and> pl = bt_remove key pl0 \<and> pl \<noteq> [])" for t pl
    by (auto simp: drop)
  show "(case bt_get (drop_posting key ps) t of None \<Rightarrow> None | Some pl \<Rightarrow> bt_get pl k) =
      (if k = key then None else case bt_get ps t of None \<Rightarrow> None | Some pl \<Rightarrow> bt_get pl k)"
  proof (cases "bt_get ps t")
    case None
    then have "bt_get (drop_posting key ps) t = None"
      using mem bt_get_iff [OF wf] bt_get_iff [OF wf'] by (metis not_None_eq)
    then show ?thesis using None by simp
  next
    case (Some pl)
    show ?thesis
    proof (cases "bt_remove key pl = []")
      case True
      then have "bt_get (drop_posting key ps) t = None"
        using mem bt_get_iff [OF wf] bt_get_iff [OF wf'] Some by (metis not_None_eq option.inject)
      moreover have "((bt_get pl)(key := None)) k = None" using True by (metis bt_get_remove map_of.simps(1))
      ultimately show ?thesis using Some by (simp split: if_splits)
    next
      case False
      then have "bt_get (drop_posting key ps) t = Some (bt_remove key pl)"
        using mem bt_get_iff [OF wf] bt_get_iff [OF wf'] Some by metis
      then show ?thesis using Some by simp
    qed
  qed
qed

lemma remove_ok:
  assumes "indexes ix docs"
  shows "indexes (lx_remove ix key) (docs(key := None))"
proof (cases "docs key")
  case None
  moreover have "lx_remove ix key = ix" using assms None by (simp add: indexes_def lx_remove_def)
  moreover have "docs(key := None) = docs" using None by auto
  ultimately show ?thesis using assms by simp
next
  case (Some toks)
  let ?ix = "lx_remove ix key"
  have run: "lx_doc_len ?ix = bt_remove key (lx_doc_len ix)" "lx_postings ?ix = drop_posting key (lx_postings ix)"
    "lx_n_docs ?ix = (if lx_n_docs ix = 0 then 0 else lx_n_docs ix - 1)"
    using assms Some by (simp_all add: indexes_def lx_remove_def)
  have wf: "postings_wf (lx_postings ix)" and fin: "finite (dom docs)" and n: "unat (lx_n_docs ix) = card (dom docs)"
    using assms by (simp_all add: indexes_def)
  have "0 < card (dom docs)" using fin Some by (auto simp: card_gt_0_iff)
  then have "lx_n_docs ix \<noteq> 0" using n by auto
  then have "unat (lx_n_docs ix - 1) = card (dom docs) - 1" using n by (simp add: unat_minus_one)
  moreover have "card (dom docs - {key}) = card (dom docs) - 1" using Some by (simp add: dom_def)
  ultimately have n': "unat (lx_n_docs ?ix) = card (dom (docs(key := None)))"
    using run(3) \<open>lx_n_docs ix \<noteq> 0\<close> by simp
  note drop = drop_posting_ok [OF wf, of key]
  have tf: "tf_at ?ix t k = (if k = key then None else tf_at ix t k)" for t k
    using drop by (simp add: tf_at_def run)
  show ?thesis
    using assms n' drop tf by (simp add: indexes_def run)
qed

subsection \<open>Upsert\<close>

lemma u32_unat_succ: "(n :: u32) \<noteq> - 1 \<Longrightarrow> unat (n + 1) = unat n + 1"
  using unatSuc [of n] by (metis Suc_eq_plus1 add.commute add_eq_0_iff2 equation_minus_iff minus_equation_iff)

lemma count_fold:
  "bt_wf acc \<Longrightarrow>
   bt_wf (fold (\<lambda>t tf. bt_insert t (unwrap_or (bt_get tf t) 0 + 1) tf) toks acc) \<and>
   bt_get (fold (\<lambda>t tf. bt_insert t (unwrap_or (bt_get tf t) 0 + 1) tf) toks acc) t =
     (if t \<in> set toks then Some (unwrap_or (bt_get acc t) 0 + of_nat (count_list toks t) :: u32) else bt_get acc t)"
proof (induction toks arbitrary: acc)
  case (Cons x toks)
  have wf: "bt_wf (bt_insert x (unwrap_or (bt_get acc x) 0 + 1) acc)" using Cons.prems by simp
  show ?case using Cons.IH [OF wf] Cons.prems
    by (auto simp: unwrap_or_def algebra_simps count_list_0_iff split: option.splits)
qed simp

lemma count_terms_ok: "bt_wf (count_terms toks) \<and> bt_get (count_terms toks) t = term_count toks t"
  using count_fold [of "[]" toks t] by (simp add: count_terms_def term_count_def unwrap_or_def)

definition posting_at :: "(bytes \<times> (bytes \<times> u32) list) list \<Rightarrow> bytes \<Rightarrow> bytes \<Rightarrow> u32 option" where
  "posting_at ps t k = (case bt_get ps t of None \<Rightarrow> None | Some pl \<Rightarrow> bt_get pl k)"

lemma bt_insert_nonempty [simp]: "bt_insert k v m \<noteq> []"
  by (cases m) auto

lemma add_posting_ok:
  fixes t0 key :: bytes and f :: u32
  assumes "postings_wf ps"
  defines "ps' \<equiv> bt_insert t0 (bt_insert key f (unwrap_or (bt_get ps t0) [])) ps"
  shows "postings_wf ps' \<and> posting_at ps' t k = (if t = t0 \<and> k = key then Some f else posting_at ps t k)"
proof
  have wf: "bt_wf ps" using assms by (simp add: postings_wf_def)
  have pl: "bt_wf (unwrap_or (bt_get ps t0) [])"
    using postings_get [OF assms(1)] by (cases "bt_get ps t0") (auto simp: unwrap_or_def)
  show "postings_wf ps'"
  proof -
    have "bt_wf pl' \<and> pl' \<noteq> []" if "(t', pl') \<in> set ps'" for t' pl'
    proof -
      have "(t', pl') = (t0, bt_insert key f (unwrap_or (bt_get ps t0) [])) \<or> (t', pl') \<in> set ps"
        using subsetD [OF set_bt_insert that [unfolded ps'_def]] by simp
      then show ?thesis using pl assms(1) by (elim disjE) (auto simp: postings_wf_def)
    qed
    then show ?thesis using wf by (auto simp: postings_wf_def ps'_def)
  qed
  show "posting_at ps' t k = (if t = t0 \<and> k = key then Some f else posting_at ps t k)"
    using wf pl by (cases "bt_get ps t0") (simp_all add: posting_at_def ps'_def unwrap_or_def)
qed

lemma add_postings_ok:
  "postings_wf ps \<Longrightarrow> distinct (map fst tf) \<Longrightarrow>
   postings_wf (add_postings key tf ps) \<and>
   posting_at (add_postings key tf ps) t k =
     (if k = key \<and> bt_get tf t \<noteq> None then bt_get tf t else posting_at ps t k)"
proof (induction tf arbitrary: ps)
  case Nil
  then show ?case by (simp add: add_postings_def)
next
  case (Cons e tf)
  obtain t0 f where e: "e = (t0, f)" by (cases e)
  note step = add_posting_ok [OF Cons.prems(1), of t0 key f t k]
  have "t0 \<notin> fst ` set tf" "distinct (map fst tf)" using Cons.prems(2) e by simp_all
  then have "bt_get tf t0 = None" by (metis map_of_eq_None_iff)
  then show ?case
    using Cons.IH [OF conjunct1 [OF step] \<open>distinct (map fst tf)\<close>] step
    by (auto simp: e add_postings_def)
qed

lemma add_ok:
  assumes ix: "indexes ix docs" and room: "card (dom docs) < 2 ^ 32 - 1"
  shows "indexes (lx_add alnum ix key text)
    (docs(key := (if tokenize alnum text = [] then None else Some (tokenize alnum text))))"
proof -
  let ?toks = "tokenize alnum text"
  define ix0 where "ix0 = (if bt_get (lx_doc_len ix) key \<noteq> None then lx_remove ix key else ix)"
  let ?docs = "docs(key := None)"
  have del: "indexes ix0 ?docs"
  proof (cases "docs key")
    case None
    then have "bt_get (lx_doc_len ix) key = None" "docs(key := None) = docs" using ix by (auto simp: indexes_def)
    then show ?thesis using ix by (simp add: ix0_def)
  next
    case (Some toks)
    then have "bt_get (lx_doc_len ix) key \<noteq> None" using ix by (simp add: indexes_def)
    then show ?thesis using remove_ok [OF ix, of key] by (simp add: ix0_def)
  qed
  show ?thesis
  proof (cases "?toks = []")
    case True
    then have "lx_add alnum ix key text = ix0" by (simp add: lx_add_def ix0_def)
    then show ?thesis using del True by simp
  next
    case False
    let ?new = "lx_add alnum ix key text"
    have run: "lx_postings ?new = add_postings key (count_terms ?toks) (lx_postings ix0)"
      "lx_doc_len ?new = bt_insert key (of_nat (length ?toks)) (lx_doc_len ix0)"
      "lx_n_docs ?new = (if lx_n_docs ix0 = - 1 then - 1 else lx_n_docs ix0 + 1)"
      using False unfolding lx_add_def Let_def ix0_def [symmetric] by simp_all
    have fin: "finite (dom ?docs)" and n: "unat (lx_n_docs ix0) = card (dom ?docs)"
      and wf: "postings_wf (lx_postings ix0)" "bt_wf (lx_doc_len ix0)"
      and dl: "\<And>k. bt_get (lx_doc_len ix0) k = map_option (\<lambda>toks. of_nat (length toks)) (?docs k)"
      and tf: "\<And>t k. tf_at ix0 t k = Option.bind (?docs k) (\<lambda>toks. term_count toks t)"
      and ne: "\<And>k. ?docs k \<noteq> Some []"
      using del unfolding indexes_def by blast+
    have "finite (dom docs)" using ix by (simp add: indexes_def)
    then have "card (dom ?docs) \<le> card (dom docs)" by (intro card_mono) auto
    then have lt: "unat (lx_n_docs ix0) < 2 ^ 32 - 1" using n room by simp
    then have max: "lx_n_docs ix0 \<noteq> - 1" by (auto simp: unsigned_minus_1_eq_mask mask_eq_exp_minus_1)
    have "unat (lx_n_docs ix0 + 1) = unat (lx_n_docs ix0) + 1" by (rule u32_unat_succ [OF max])
    with max have n': "unat (lx_n_docs ?new) = card (dom ?docs) + 1" using run(3) n by simp
    have dom: "dom (docs(key \<mapsto> ?toks)) = insert key (dom ?docs)" by auto
    have "card (dom (docs(key \<mapsto> ?toks))) = card (dom ?docs) + 1"
      unfolding dom using fin by (subst card_insert_disjoint) auto
    note c = n' [folded this]
    have d: "distinct (map fst (count_terms ?toks))" using count_terms_ok bt_wf_distinct by blast
    note add = add_postings_ok [OF wf(1) d, of key]
    have tf': "tf_at ?new t k = Option.bind ((docs(key \<mapsto> ?toks)) k) (\<lambda>toks. term_count toks t)" for t k
    proof -
      have "tf_at ?new t k = posting_at (lx_postings ?new) t k" by (simp add: tf_at_def posting_at_def)
      also have "\<dots> = (if k = key \<and> term_count ?toks t \<noteq> None then term_count ?toks t else tf_at ix0 t k)"
        using conjunct2 [OF add, of t k] count_terms_ok [of ?toks t] by (auto simp: run tf_at_def posting_at_def)
      finally show ?thesis using tf [of t k] by (auto simp: term_count_def)
    qed
    have "indexes ?new (docs(key \<mapsto> ?toks))"
      unfolding indexes_def
    proof (intro conjI allI)
      show "postings_wf (lx_postings ?new)" using add run by simp
      show "bt_wf (lx_doc_len ?new)" using wf run by simp
      show "bt_get (lx_doc_len ?new) k = map_option (\<lambda>toks. of_nat (length toks)) ((docs(key \<mapsto> ?toks)) k)" for k
        using wf dl [of k] run by simp
      show "(docs(key \<mapsto> ?toks)) k \<noteq> Some []" for k using ne [of k] False by (cases "k = key") auto
      show "finite (dom (docs(key \<mapsto> ?toks)))" unfolding dom using fin by simp
    qed (rule tf' c)+
    then show ?thesis using False by simp
  qed
qed

section \<open>Sessions, rebuilds and snapshots\<close>

text \<open>A session adds and removes documents; \<open>texts_of\<close> is the map it leaves.\<close>

definition lx_step :: "(bytes \<Rightarrow> bool) \<Rightarrow> bytes \<times> bytes option \<Rightarrow> lexical \<Rightarrow> lexical" where
  "lx_step alnum = (\<lambda>(key, op) ix. case op of Some text \<Rightarrow> lx_add alnum ix key text | None \<Rightarrow> lx_remove ix key)"

definition texts_of :: "(bytes \<Rightarrow> bool) \<Rightarrow> (bytes \<times> bytes option) list \<Rightarrow> bytes \<Rightarrow> bytes list option" where
  "texts_of alnum ops = fold (\<lambda>(key, op) docs. docs(key :=
     (case op of None \<Rightarrow> None
      | Some text \<Rightarrow> if tokenize alnum text = [] then None else Some (tokenize alnum text)))) ops Map.empty"

lemma session_indexes:
  "indexes ix docs \<Longrightarrow> card (dom docs) + length ops < 2 ^ 32 \<Longrightarrow>
   indexes (fold (lx_step alnum) ops ix) (fold (\<lambda>(key, op) docs. docs(key :=
     (case op of None \<Rightarrow> None
      | Some text \<Rightarrow> if tokenize alnum text = [] then None else Some (tokenize alnum text)))) ops docs)"
proof (induction ops arbitrary: ix docs)
  case (Cons e ops)
  obtain key op where e: "e = (key, op)" by (cases e)
  let ?v = "case op of None \<Rightarrow> None
      | Some text \<Rightarrow> if tokenize alnum text = [] then None else Some (tokenize alnum text)"
  have fin: "finite (dom docs)" using Cons.prems(1) by (simp add: indexes_def)
  have "card (dom (docs(key := ?v))) \<le> card (insert key (dom docs))"
    using fin by (intro card_mono) auto
  also have "\<dots> \<le> Suc (card (dom docs))" using fin by (simp add: card_insert_if)
  finally have room: "card (dom (docs(key := ?v))) + length ops < 2 ^ 32" using Cons.prems(2) by simp
  have "card (dom docs) < 2 ^ 32 - 1" using Cons.prems(2) by simp
  then have "indexes (lx_step alnum e ix) (docs(key := ?v))"
    using add_ok [OF Cons.prems(1)] remove_ok [OF Cons.prems(1)]
    by (cases op) (simp_all add: e lx_step_def)
  from Cons.IH [OF this room] show ?case by (simp add: e)
qed simp

lemma session_from_new:
  "length ops < 2 ^ 32 \<Longrightarrow> indexes (fold (lx_step alnum) ops lx_new) (texts_of alnum ops)"
  unfolding texts_of_def by (rule session_indexes [OF indexes_new]) simp

text \<open>C29: Lexical index: a session of adds, overwrites and removes that leaves the same texts as
  another one (a rebuild from the stored documents, say) leaves the same index and the same
  fingerprint, and every frequency in it counts the term in the current text of the key.\<close>

theorem session_index_is_rebuilt_index:
  assumes "length ops < 2 ^ 32" "length rebuild < 2 ^ 32"
    and "texts_of alnum ops = texts_of alnum rebuild"
  shows "fold (lx_step alnum) ops lx_new = fold (lx_step alnum) rebuild lx_new
    \<and> fp_mix_into (fold (lx_step alnum) ops lx_new) FP_SEED = fp_mix_into (fold (lx_step alnum) rebuild lx_new) FP_SEED
    \<and> tf_at (fold (lx_step alnum) ops lx_new) t key =
       Option.bind (texts_of alnum ops key) (\<lambda>toks. term_count toks t)"
proof -
  note a = session_from_new [OF assms(1), of alnum] and b = session_from_new [OF assms(2), of alnum]
  have "fold (lx_step alnum) ops lx_new = fold (lx_step alnum) rebuild lx_new"
    using indexes_unique [OF a] b assms(3) by simp
  then show ?thesis using a by (simp add: indexes_def)
qed

theorem session_index_is_rebuilt_index_witness:
  "fold (lx_step (\<lambda>_. False)) [([1], Some [0x41, 0x20, 0x42]), ([2], Some [0x43]), ([1], Some [0x43]), ([2], None)] lx_new
     = fold (lx_step (\<lambda>_. False)) [([1], Some [0x43])] lx_new"
proof -
  have "texts_of (\<lambda>_. False) [([1], Some [0x41, 0x20, 0x42]), ([2], Some [0x43]), ([1], Some [0x43]), ([2], None)]
      = texts_of (\<lambda>_. False) [([1], Some [0x43])]"
    by (rule ext) (simp add: texts_of_def)
  from session_index_is_rebuilt_index [OF _ _ this, THEN conjunct1] show ?thesis by simp
qed

definition lx_restore :: "(bytes \<times> (bytes \<times> u32) list) list \<Rightarrow> (bytes \<times> u32) list \<Rightarrow> u32 \<Rightarrow> lexical" where
  "lx_restore ps dl n =
     restore_n_docs
       (fold (\<lambda>(d, len) ix. restore_doc_len ix d len) dl
         (fold (\<lambda>(t, docs) ix. restore_postings ix t docs) ps lx_new)) n"

lemma fold_restore_postings:
  "\<forall>(t, pl) \<in> set ps. pl \<noteq> [] \<Longrightarrow>
   fold (\<lambda>(t, docs) ix. restore_postings ix t docs) ps ix
     = ix\<lparr>lx_postings := fold (\<lambda>(t, docs). bt_insert t docs) ps (lx_postings ix)\<rparr>"
  by (induction ps arbitrary: ix) (auto simp: restore_postings_def)

lemma fold_restore_doc_len:
  "fold (\<lambda>(d, len) ix. restore_doc_len ix d len) dl ix
     = ix\<lparr>lx_doc_len := fold (\<lambda>(d, len). bt_insert d len) dl (lx_doc_len ix)\<rparr>"
  by (induction dl arbitrary: ix) (auto simp: restore_doc_len_def)

text \<open>Lexical index: a snapshot of the postings, the lengths and the number of documents of a
  session restores the very index.\<close>

theorem lexical_snapshot_roundtrip:
  assumes "length ops < 2 ^ 32"
  shows "(let ix = fold (lx_step alnum) ops lx_new
     in lx_restore (snapshot_postings ix) (snapshot_doc_len ix) (lx_n_docs ix) = ix)"
proof -
  let ?ix = "fold (lx_step alnum) ops lx_new"
  have ok: "postings_wf (lx_postings ?ix)" "bt_wf (lx_doc_len ?ix)"
    using session_from_new [OF assms, of alnum] by (simp_all add: indexes_def)
  have "fold (\<lambda>(t, docs). bt_insert t docs) (lx_postings ?ix) [] = lx_postings ?ix"
    using bt_rebuild [of "[]" "lx_postings ?ix"] ok by (simp add: postings_wf_def)
  moreover have "fold (\<lambda>(d, len). bt_insert d len) (lx_doc_len ?ix) [] = lx_doc_len ?ix"
    using bt_rebuild [of "[]" "lx_doc_len ?ix"] ok by simp
  moreover have "\<forall>(t, pl) \<in> set (lx_postings ?ix). pl \<noteq> []" using ok(1) by (auto simp: postings_wf_def)
  ultimately show ?thesis
    by (simp add: Let_def lx_restore_def snapshot_postings_def snapshot_doc_len_def restore_n_docs_def
      fold_restore_postings fold_restore_doc_len lx_new_def)
qed

theorem lexical_snapshot_roundtrip_witness:
  "(let ix = fold (lx_step (\<lambda>_. False)) [([1], Some [0x41, 0x20, 0x42]), ([2], Some [0x43])] lx_new
     in lx_restore (snapshot_postings ix) (snapshot_doc_len ix) (lx_n_docs ix) = ix)"
  by (rule lexical_snapshot_roundtrip) simp

end
