(* ===== verification/Idx_Snapshot.thy ===== *)
theory Idx_Snapshot
  imports Memory_Doc Bq Lexical Audit_Entry
begin

text \<open>
  The snapshot of the derived indexes (\<open>src/src/idx_snapshot.rs\<close>): the record \<open>IndexSnapshot\<close>,
  its wire format IDX1 with the bounds-checked decoder, and the pages of IDX2, a header and
  chunks under keys of fixed width.
\<close>

section \<open>Data\<close>

record index_snapshot =
  is_art_keys :: "bytes list"
  is_entity_index :: "(bytes \<times> bytes list) list"
  is_indexed_dims :: "nat list"
  is_corpus_counts :: "(nat \<times> u64) list"
  is_bq_words_per_vec :: u32
  is_bq_live :: u64
  is_fingerprint :: u64
  is_written_at :: u64
  is_lexical_postings :: "(bytes \<times> (bytes \<times> u32) list) list"
  is_lexical_doc_len :: "(bytes \<times> u32) list"
  is_lexical_n_docs :: u32
  is_bq_entries :: "(bytes \<times> u64 list) list"

definition IDX_MAGIC :: bytes where
  "IDX_MAGIC = ascii ''IDX1''"

definition IDX_VERSION :: u8 where
  "IDX_VERSION = 1"

section \<open>Encoding\<close>

text \<open>A vector behind its length as \<open>u32\<close>.\<close>

definition enc_list :: "('a \<Rightarrow> bytes) \<Rightarrow> 'a list \<Rightarrow> bytes" where
  "enc_list enc xs = le_enc 4 (length xs) @ concat (map enc xs)"

definition enc_count :: "nat \<times> u64 \<Rightarrow> bytes" where
  "enc_count = (\<lambda>(d, c). le_enc 4 d @ le_enc 8 (unat c))"

definition enc_entity :: "bytes \<times> bytes list \<Rightarrow> bytes" where
  "enc_entity = (\<lambda>(ent, skeys). enc_str 2 ent @ enc_list (enc_str 2) skeys)"

text \<open>A frequency: a byte, and the full integer behind it when it is above 255.\<close>

definition enc_tf :: "u32 \<Rightarrow> bytes" where
  "enc_tf tf = [ucast (min tf 255)] @ (if tf > 255 then le_enc 4 (unat tf) else [])"

definition enc_posting :: "bytes \<times> u32 \<Rightarrow> bytes" where
  "enc_posting = (\<lambda>(doc, tf). enc_str 2 doc @ enc_tf tf)"

definition enc_term :: "bytes \<times> (bytes \<times> u32) list \<Rightarrow> bytes" where
  "enc_term = (\<lambda>(term, docs). enc_str 2 term @ enc_list enc_posting docs)"

definition enc_doc_len :: "bytes \<times> u32 \<Rightarrow> bytes" where
  "enc_doc_len = (\<lambda>(doc, l). enc_str 2 doc @ le_enc 4 (unat l))"

definition enc_bq_entry :: "bytes \<times> u64 list \<Rightarrow> bytes" where
  "enc_bq_entry = (\<lambda>(sk, words).
     enc_str 2 sk @ le_enc 2 (length words) @ concat (map (\<lambda>w. le_enc 8 (unat w)) words))"

definition idx_body :: "index_snapshot \<Rightarrow> bytes" where
  "idx_body s =
     le_enc 8 (unat (is_fingerprint s)) @ le_enc 8 (unat (is_written_at s)) @
     le_enc 4 (unat (is_bq_words_per_vec s)) @ le_enc 8 (unat (is_bq_live s)) @
     enc_list (le_enc 4) (is_indexed_dims s) @
     enc_list enc_count (is_corpus_counts s) @
     enc_list (enc_str 2) (is_art_keys s) @
     enc_list enc_entity (is_entity_index s) @
     enc_list enc_term (is_lexical_postings s) @
     enc_list enc_doc_len (is_lexical_doc_len s) @
     le_enc 4 (unat (is_lexical_n_docs s)) @
     enc_list enc_bq_entry (is_bq_entries s)"

definition idx_encode :: "index_snapshot \<Rightarrow> bytes" where
  "idx_encode s = IDX_MAGIC @ [IDX_VERSION] @ idx_body s"

section \<open>Decoding\<close>

abbreviation rd_u32 :: "string \<Rightarrow> u32 reader" where
  "rd_u32 \<equiv> rd_f32"

definition rd_list :: "string \<Rightarrow> 'a reader \<Rightarrow> 'a list reader" where
  "rd_list m r = rbind (rd_uint 4 m) (\<lambda>n. rd_many n r)"

definition rd_list_upto :: "nat \<Rightarrow> string \<Rightarrow> string \<Rightarrow> 'a reader \<Rightarrow> 'a list reader" where
  "rd_list_upto limit m_over m r =
     rbind (rd_uint 4 m) (\<lambda>n. if n > limit then rfail m_over else rd_many n r)"

definition rd_key :: "string \<Rightarrow> string \<Rightarrow> string \<Rightarrow> string \<Rightarrow> bytes reader" where
  "rd_key m_len m_over m_trunc m_utf8 =
     rbind (rd_uint 2 m_len) (\<lambda>n.
       if n > MAX_KLEN then rfail m_over
       else rbind (rd_take n m_trunc) (\<lambda>s data off. and_then (from_utf8 s m_utf8) (\<lambda>s. Inr (s, off))))"

definition rd_count :: "(nat \<times> u64) reader" where
  "rd_count = rbind (rd_uint 4 ''trunc cdim'') (\<lambda>d. rbind (rd_u64 ''trunc ccount'') (\<lambda>c. rret (d, c)))"

definition rd_entity :: "(bytes \<times> bytes list) reader" where
  "rd_entity =
     rbind (rd_str 2 ''trunc elen'' ''trunc ent'' ''utf8 ent'') (\<lambda>ent.
     rbind (rd_list ''trunc nsk'' (rd_key ''trunc slen'' ''slen over limit'' ''trunc skey'' ''utf8 skey'')) (\<lambda>skeys.
     rret (ent, skeys)))"

definition rd_tf :: "u32 reader" where
  "rd_tf = rbind (rd_byte ''trunc tf'') (\<lambda>b. if b = 255 then rd_u32 ''trunc tf_full'' else rret (ucast b))"

definition rd_posting :: "(bytes \<times> u32) reader" where
  "rd_posting =
     rbind (rd_str 2 ''trunc dlen'' ''trunc ldoc'' ''utf8 ldoc'') (\<lambda>doc. rbind rd_tf (\<lambda>tf. rret (doc, tf)))"

definition rd_term :: "(bytes \<times> (bytes \<times> u32) list) reader" where
  "rd_term =
     rbind (rd_str 2 ''trunc tlen'' ''trunc term'' ''utf8 term'') (\<lambda>term.
     rbind (rd_list ''trunc ndocs'' rd_posting) (\<lambda>docs. rret (term, docs)))"

definition rd_doc_len :: "(bytes \<times> u32) reader" where
  "rd_doc_len =
     rbind (rd_str 2 ''trunc dllen'' ''trunc ldoc_len'' ''utf8 ldoc_len'') (\<lambda>doc.
     rbind (rd_u32 ''trunc doclen'') (\<lambda>l. rret (doc, l)))"

definition rd_bq_entry :: "(bytes \<times> u64 list) reader" where
  "rd_bq_entry =
     rbind (rd_key ''trunc bq_slen'' ''bq slen over limit'' ''trunc bq_sk'' ''utf8 bq_sk'') (\<lambda>sk.
     rbind (rd_uint 2 ''trunc bq_nw'') (\<lambda>nw.
       if nw > words_for MAX_EMBEDDING_DIM then rfail ''bq nw over limit''
       else rbind (rd_many nw (rd_u64 ''trunc bq_word'')) (\<lambda>words. rret (sk, words))))"

text \<open>Dimensions and counts name the same era.\<close>

definition dims_agree :: "nat list \<Rightarrow> (nat \<times> u64) list \<Rightarrow> unit result" where
  "dims_agree dims counts =
     (if length dims \<noteq> length counts then Inl (Err ''dims/counts mismatch'')
      else if \<exists>(d, _) \<in> set counts. d \<notin> set dims then Inl (Err ''count dim not in dims'')
      else Inr ())"

definition rd_idx_body :: "index_snapshot reader" where
  "rd_idx_body =
     rbind (rd_u64 ''trunc fp'') (\<lambda>fp. rbind (rd_u64 ''trunc ts'') (\<lambda>written_at.
     rbind (rd_u32 ''trunc wpv'') (\<lambda>wpv. rbind (rd_u64 ''trunc live'') (\<lambda>live.
     rbind (rd_list_upto MAX_EMBEDDING_DIM ''ndims over limit'' ''trunc ndims'' (rd_uint 4 ''trunc dim'')) (\<lambda>dims.
     rbind (rd_list_upto MAX_EMBEDDING_DIM ''ncounts over limit'' ''trunc ncounts'' rd_count) (\<lambda>counts.
     rbind (rd_list_upto (MAX_KLEN * 1024) ''nkeys over limit'' ''trunc nkeys''
       (rd_key ''trunc klen'' ''klen over limit'' ''trunc key'' ''utf8 key'')) (\<lambda>keys.
     rbind (rd_list ''trunc nents'' rd_entity) (\<lambda>ents.
     rbind (rd_list ''trunc nterms'' rd_term) (\<lambda>terms.
     rbind (rd_list ''trunc ndl'' rd_doc_len) (\<lambda>dls.
     rbind (rd_u32 ''trunc ndocs_lex'') (\<lambda>n_docs.
     rbind (rd_list ''trunc nbq'' rd_bq_entry) (\<lambda>bqs data off.
       and_then (dims_agree dims counts) (\<lambda>_.
       Inr (\<lparr>is_art_keys = keys, is_entity_index = ents, is_indexed_dims = dims,
              is_corpus_counts = counts, is_bq_words_per_vec = wpv, is_bq_live = live,
              is_fingerprint = fp, is_written_at = written_at, is_lexical_postings = terms,
              is_lexical_doc_len = dls, is_lexical_n_docs = n_docs, is_bq_entries = bqs\<rparr>, off))))))))))))))"

definition idx_decode :: "bytes \<Rightarrow> index_snapshot result" where
  "idx_decode data =
     (if length data < 25 \<or> take 4 data \<noteq> IDX_MAGIC then Inl (Err ''bad idx magic'')
      else if data ! 4 \<noteq> IDX_VERSION then Inl (Err ''bad idx version'')
      else and_then (rd_idx_body data 5) (\<lambda>(s, _). Inr s))"

section \<open>What the format can carry\<close>

definition wire_key :: "bytes \<Rightarrow> bool" where
  "wire_key s \<longleftrightarrow> utf8_valid s \<and> length s \<le> MAX_KLEN"

definition short :: "'a list \<Rightarrow> bool" where
  "short xs \<longleftrightarrow> length xs < 256 ^ 4"

definition idx_fits :: "index_snapshot \<Rightarrow> bool" where
  "idx_fits s \<longleftrightarrow>
     length (is_indexed_dims s) \<le> MAX_EMBEDDING_DIM \<and> (\<forall>d \<in> set (is_indexed_dims s). d < 256 ^ 4) \<and>
     length (is_corpus_counts s) = length (is_indexed_dims s) \<and>
     (\<forall>(d, c) \<in> set (is_corpus_counts s). d \<in> set (is_indexed_dims s)) \<and>
     length (is_art_keys s) \<le> MAX_KLEN * 1024 \<and> (\<forall>k \<in> set (is_art_keys s). wire_key k) \<and>
     short (is_entity_index s) \<and>
     (\<forall>(e, ks) \<in> set (is_entity_index s). wire_str e \<and> short ks \<and> (\<forall>k \<in> set ks. wire_key k)) \<and>
     short (is_lexical_postings s) \<and>
     (\<forall>(t, ds) \<in> set (is_lexical_postings s). wire_str t \<and> short ds \<and> (\<forall>(d, tf) \<in> set ds. wire_str d)) \<and>
     short (is_lexical_doc_len s) \<and> (\<forall>(d, l) \<in> set (is_lexical_doc_len s). wire_str d) \<and>
     short (is_bq_entries s) \<and>
     (\<forall>(k, ws) \<in> set (is_bq_entries s). wire_key k \<and> length ws \<le> words_for MAX_EMBEDDING_DIM)"

text \<open>The frequency whose byte is the escape but that has no integer behind it.\<close>

definition no_tf_255 :: "index_snapshot \<Rightarrow> bool" where
  "no_tf_255 s \<longleftrightarrow> (\<forall>(t, ds) \<in> set (is_lexical_postings s). \<forall>(d, tf) \<in> set ds. tf \<noteq> 255)"

lemma reads_rd_list [codec]:
  "short xs \<Longrightarrow> (\<And>x. x \<in> set xs \<Longrightarrow> reads r (enc x) x) \<Longrightarrow> reads (rd_list m r) (enc_list enc xs) xs"
  unfolding rd_list_def enc_list_def
  by (intro reads_rbind [OF reads_rd_uint] reads_rd_many) (simp_all add: short_def)

lemma reads_rd_list_upto [codec]:
  assumes "length xs \<le> limit" "limit < 256 ^ 4" "\<And>x. x \<in> set xs \<Longrightarrow> reads r (enc x) x"
  shows "reads (rd_list_upto limit m1 m2 r) (enc_list enc xs) xs"
  unfolding rd_list_upto_def enc_list_def
proof (rule reads_rbind [OF reads_rd_uint])
  show "length xs < 256 ^ 4" using assms(1,2) by simp
  show "reads (if length xs > limit then rfail m1 else rd_many (length xs) r) (concat (map enc xs)) xs"
    using assms reads_rd_many [of xs r enc] by simp
qed

lemma reads_rd_key [codec]:
  assumes "wire_key s"
  shows "reads (rd_key m1 m2 m3 m4) (enc_str 2 s) s"
  unfolding rd_key_def enc_str_def
proof (rule reads_rbind [OF reads_rd_uint])
  show "length s < 256 ^ 2" using assms by (simp add: wire_key_def MAX_KLEN_def)
  have "reads (rbind (rd_take (length s) m3) (\<lambda>s data off. and_then (from_utf8 s m4) (\<lambda>s. Inr (s, off)))) s s"
    by (rule reads_rbind_last [OF reads_rd_take]) (use assms in \<open>simp add: reads_def wire_key_def\<close>)
  then show "reads (if length s > MAX_KLEN then rfail m2
      else rbind (rd_take (length s) m3) (\<lambda>s data off. and_then (from_utf8 s m4) (\<lambda>s. Inr (s, off)))) s s"
    using assms by (simp add: wire_key_def)
qed

lemma reads_rd_count [codec]: "d < 256 ^ 4 \<Longrightarrow> reads rd_count (enc_count (d, c)) (d, c)"
  unfolding rd_count_def enc_count_def prod.case
  by (intro reads_rbind [OF reads_rd_uint] reads_rbind_last [OF reads_rd_u64] reads_rret)

lemma reads_rd_entity [codec]:
  "wire_str e \<Longrightarrow> short ks \<Longrightarrow> (\<And>k. k \<in> set ks \<Longrightarrow> wire_key k) \<Longrightarrow> reads rd_entity (enc_entity (e, ks)) (e, ks)"
  unfolding rd_entity_def enc_entity_def prod.case
  by (intro reads_rbind [OF reads_wire_str] reads_rbind_last [OF reads_rd_list] reads_rret reads_rd_key)

lemma reads_rd_tf [codec]:
  assumes "tf \<noteq> 255"
  shows "reads rd_tf (enc_tf tf) tf"
proof (cases "tf > 255")
  case True
  then have "min tf 255 = 255" by (simp add: min.absorb2)
  then have "ucast (min tf 255) = (255 :: u8)" by simp
  with True show ?thesis
    unfolding rd_tf_def enc_tf_def using reads_rbind [OF reads_rd_byte, of "\<lambda>b. if b = 255 then rd_u32 ''trunc tf_full'' else rret (ucast b)" 255] reads_rd_f32
    by simp
next
  case False
  then have small: "unat tf < 255" using assms by (simp add: word_less_nat_alt word_unat_eq_iff)
  have b: "unat (ucast tf :: u8) = unat tf" using small by (simp add: unsigned_ucast_eq take_bit_nat_eq_self)
  then have "(ucast tf :: u8) \<noteq> 255" using small by (auto simp: word_unat_eq_iff)
  moreover have "ucast (ucast tf :: u8) = tf" using b by (simp add: word_unat_eq_iff unsigned_ucast_eq unsigned_take_bit_eq take_bit_nat_eq_self)
  moreover have "min tf 255 = tf" using False by (intro min.absorb1) (simp add: not_less)
  ultimately have "enc_tf tf = [ucast tf]"
    and r: "reads (if (ucast tf :: u8) = 255 then rd_u32 ''trunc tf_full'' else rret (ucast (ucast tf :: u8))) [] tf"
    using False by (simp_all add: enc_tf_def reads_rret)
  then show ?thesis unfolding rd_tf_def using reads_rbind_last [where r = "rd_byte ''trunc tf''" and v = "ucast tf", OF reads_rd_byte] r by simp
qed

lemma reads_rd_posting [codec]: "wire_str d \<Longrightarrow> tf \<noteq> 255 \<Longrightarrow> reads rd_posting (enc_posting (d, tf)) (d, tf)"
  unfolding rd_posting_def enc_posting_def prod.case
  by (intro reads_rbind [OF reads_wire_str] reads_rbind_last [OF reads_rd_tf] reads_rret)

lemma reads_rd_term [codec]:
  "wire_str t \<Longrightarrow> short ds \<Longrightarrow> (\<And>d tf. (d, tf) \<in> set ds \<Longrightarrow> wire_str d \<and> tf \<noteq> 255) \<Longrightarrow>
   reads rd_term (enc_term (t, ds)) (t, ds)"
  unfolding rd_term_def enc_term_def prod.case
  by (intro reads_rbind [OF reads_wire_str] reads_rbind_last [OF reads_rd_list] reads_rret)
    (auto intro: reads_rd_posting)

lemma reads_rd_doc_len [codec]: "wire_str d \<Longrightarrow> reads rd_doc_len (enc_doc_len (d, l)) (d, l)"
  unfolding rd_doc_len_def enc_doc_len_def prod.case
  by (intro reads_rbind [OF reads_wire_str] reads_rbind_last [OF reads_rd_f32] reads_rret)

lemma reads_rd_bq_entry [codec]:
  assumes "wire_key k" "length ws \<le> words_for MAX_EMBEDDING_DIM"
  shows "reads rd_bq_entry (enc_bq_entry (k, ws)) (k, ws)"
  unfolding rd_bq_entry_def enc_bq_entry_def prod.case
proof (intro reads_rbind [OF reads_rd_key [OF assms(1)]] reads_rbind [OF reads_rd_uint])
  show "length ws < 256 ^ 2" using assms(2) by (simp add: words_for_def MAX_EMBEDDING_DIM_def)
  have "reads (rbind (rd_many (length ws) (rd_u64 ''trunc bq_word'')) (\<lambda>words. rret (k, words)))
      (concat (map (\<lambda>w. le_enc 8 (unat w)) ws)) (k, ws)"
    by (intro reads_rbind_last [OF reads_rd_many] reads_rd_u64 reads_rret)
  then show "reads (if length ws > words_for MAX_EMBEDDING_DIM then rfail ''bq nw over limit''
      else rbind (rd_many (length ws) (rd_u64 ''trunc bq_word'')) (\<lambda>words. rret (k, words)))
      (concat (map (\<lambda>w. le_enc 8 (unat w)) ws)) (k, ws)"
    using assms(2) by simp
qed

lemma reads_dims:
  "idx_fits s \<Longrightarrow>
   reads (rd_list_upto MAX_EMBEDDING_DIM m1 m2 (rd_uint 4 m3)) (enc_list (le_enc 4) (is_indexed_dims s)) (is_indexed_dims s)"
  by (intro reads_rd_list_upto reads_rd_uint) (auto simp: idx_fits_def MAX_EMBEDDING_DIM_def)

lemma reads_counts:
  "idx_fits s \<Longrightarrow>
   reads (rd_list_upto MAX_EMBEDDING_DIM m1 m2 rd_count) (enc_list enc_count (is_corpus_counts s)) (is_corpus_counts s)"
  using reads_rd_count by (intro reads_rd_list_upto) (auto simp: idx_fits_def MAX_EMBEDDING_DIM_def)

lemma reads_keys:
  "idx_fits s \<Longrightarrow>
   reads (rd_list_upto (MAX_KLEN * 1024) m1 m2 (rd_key m3 m4 m5 m6)) (enc_list (enc_str 2) (is_art_keys s)) (is_art_keys s)"
  by (intro reads_rd_list_upto reads_rd_key) (auto simp: idx_fits_def MAX_KLEN_def)

lemma reads_entity_index:
  "idx_fits s \<Longrightarrow> reads (rd_list m rd_entity) (enc_list enc_entity (is_entity_index s)) (is_entity_index s)"
  using reads_rd_entity by (intro reads_rd_list) (auto simp: idx_fits_def)

lemma reads_rd_idx_body:
  assumes "idx_fits s" "no_tf_255 s"
  shows "reads rd_idx_body (idx_body s) s"
proof -
  have ok: "dims_agree (is_indexed_dims s) (is_corpus_counts s) = Inr ()"
    using assms(1) by (auto simp: idx_fits_def dims_agree_def)
  have fin: "reads (\<lambda>data off. and_then (dims_agree (is_indexed_dims s) (is_corpus_counts s)) (\<lambda>_.
       Inr (\<lparr>is_art_keys = is_art_keys s, is_entity_index = is_entity_index s,
              is_indexed_dims = is_indexed_dims s, is_corpus_counts = is_corpus_counts s,
              is_bq_words_per_vec = is_bq_words_per_vec s, is_bq_live = is_bq_live s,
              is_fingerprint = is_fingerprint s, is_written_at = is_written_at s,
              is_lexical_postings = is_lexical_postings s, is_lexical_doc_len = is_lexical_doc_len s,
              is_lexical_n_docs = is_lexical_n_docs s, is_bq_entries = is_bq_entries s\<rparr>, off))) [] s"
    using ok by (simp add: reads_def)
  note d = reads_dims [OF assms(1)] and c = reads_counts [OF assms(1)] and k = reads_keys [OF assms(1)]
    and e = reads_entity_index [OF assms(1)]
  have t: "reads (rd_list m rd_term) (enc_list enc_term (is_lexical_postings s)) (is_lexical_postings s)" for m
  proof (rule reads_rd_list)
    show "short (is_lexical_postings s)" using assms(1) by (simp add: idx_fits_def)
    fix x assume x: "x \<in> set (is_lexical_postings s)"
    obtain t ds where td: "x = (t, ds)" by (cases x)
    have "wire_str t" "short ds" "\<forall>(d, tf) \<in> set ds. wire_str d"
      using assms(1) x td unfolding idx_fits_def by blast+
    moreover have "\<forall>(d, tf) \<in> set ds. tf \<noteq> 255" using assms(2) x td unfolding no_tf_255_def by blast
    ultimately show "reads rd_term (enc_term x) x" unfolding td by (intro reads_rd_term) blast+
  qed
  have l: "reads (rd_list m rd_doc_len) (enc_list enc_doc_len (is_lexical_doc_len s)) (is_lexical_doc_len s)" for m
    using assms(1) reads_rd_doc_len by (intro reads_rd_list) (auto simp: idx_fits_def)
  have b: "reads (rd_list m rd_bq_entry) (enc_list enc_bq_entry (is_bq_entries s)) (is_bq_entries s)" for m
    using assms(1) reads_rd_bq_entry by (intro reads_rd_list) (auto simp: idx_fits_def)
  show ?thesis
    unfolding rd_idx_body_def idx_body_def
    by (intro reads_rbind [OF reads_rd_u64] reads_rbind [OF reads_rd_f32] reads_rbind [OF d] reads_rbind [OF c]
        reads_rbind [OF k] reads_rbind [OF e] reads_rbind [OF t] reads_rbind [OF l] reads_rbind_last [OF b] fin)
qed

lemma calm_rd_list [calm]: "calm_reader r \<Longrightarrow> calm_reader (rd_list m r)"
  unfolding rd_list_def by (intro calm)

lemma calm_rd_list_upto [calm]: "calm_reader r \<Longrightarrow> calm_reader (rd_list_upto limit m1 m2 r)"
  unfolding rd_list_upto_def by (intro calm)

lemma calm_rd_key [calm]: "calm_reader (rd_key m1 m2 m3 m4)"
  unfolding rd_key_def by (intro calm)

lemma calm_rd_item_readers [calm]:
  "calm_reader rd_count" "calm_reader rd_entity" "calm_reader rd_tf" "calm_reader rd_posting"
  "calm_reader rd_term" "calm_reader rd_doc_len" "calm_reader rd_bq_entry"
  unfolding rd_count_def rd_entity_def rd_tf_def rd_posting_def rd_term_def rd_doc_len_def rd_bq_entry_def
  by (intro calm)+

lemma calm_dims_tail [calm]:
  "calm_reader (\<lambda>data off. and_then (dims_agree dims counts) (\<lambda>_. Inr (s, off)))"
  by (auto simp: calm_reader_def dims_agree_def)

lemma calm_rd_idx_body: "calm_reader rd_idx_body"
  unfolding rd_idx_body_def by (intro calm)

lemma steady_rd_list [steady]: "steady_reader r \<Longrightarrow> steady_reader (rd_list m r)"
  unfolding rd_list_def by (intro steady)

lemma steady_rd_list_upto [steady]: "steady_reader r \<Longrightarrow> steady_reader (rd_list_upto limit m1 m2 r)"
  unfolding rd_list_upto_def by (intro steady)

lemma steady_rd_key [steady]: "steady_reader (rd_key m1 m2 m3 m4)"
  unfolding rd_key_def by (intro steady)

lemma steady_rd_item_readers [steady]:
  "steady_reader rd_count" "steady_reader rd_entity" "steady_reader rd_tf" "steady_reader rd_posting"
  "steady_reader rd_term" "steady_reader rd_doc_len" "steady_reader rd_bq_entry"
  unfolding rd_count_def rd_entity_def rd_tf_def rd_posting_def rd_term_def rd_doc_len_def rd_bq_entry_def
  by (intro steady)+

lemma steady_dims_tail [steady]:
  "steady_reader (\<lambda>data off. and_then (dims_agree dims counts) (\<lambda>_. Inr (s, off)))"
  by (simp add: steady_reader_def)

lemma steady_rd_idx_body: "steady_reader rd_idx_body"
  unfolding rd_idx_body_def by (intro steady)

section \<open>Properties of IDX1\<close>

definition idx_header :: bytes where
  "idx_header = IDX_MAGIC @ [IDX_VERSION]"

lemma idx_header_len [simp]: "length idx_header = 5"
  by (simp add: idx_header_def IDX_MAGIC_def ascii_def)

lemma idx_encode_header: "idx_encode s = idx_header @ idx_body s"
  by (simp add: idx_encode_def idx_header_def)

lemma idx_decode_body:
  assumes "20 \<le> length w"
  shows "idx_decode (idx_header @ w) = and_then (rd_idx_body (idx_header @ w) 5) (\<lambda>(s, _). Inr s)"
proof -
  have "take 4 (idx_header @ w) = IDX_MAGIC" "(idx_header @ w) ! 4 = IDX_VERSION"
    by (simp_all add: idx_header_def IDX_MAGIC_def ascii_def nth_append)
  then show ?thesis using assms by (simp add: idx_decode_def)
qed

lemma idx_body_len: "20 \<le> length (idx_body s)"
  by (simp add: idx_body_def)

lemma idx_prefix_error:
  assumes "idx_fits s" "no_tf_255 s" and p: "idx_encode s = p @ q" "q \<noteq> []"
  shows "\<exists>m. idx_decode p = Inl (Err m)"
proof (cases "25 \<le> length p")
  case False
  then show ?thesis by (simp add: idx_decode_def)
next
  case True
  have "idx_header @ idx_body s = p @ q" using p(1) by (simp add: idx_encode_header)
  then obtain w where "p = idx_header @ w"
    using True by (auto simp: append_eq_append_conv2 dest: arg_cong [where f = length])
  then have w: "p = idx_header @ w" "20 \<le> length w" using True by simp_all
  obtain m where "rd_idx_body p 5 = Inl (Err m)"
    using proper_prefix_rejected [OF reads_rd_idx_body [OF assms(1,2)] calm_rd_idx_body steady_rd_idx_body, of 5 idx_header p q] p w
    by (auto simp: idx_encode_header)
  then show ?thesis using idx_decode_body [OF w(2)] w(1) by simp
qed

text \<open>IDX1: the decoder returns the snapshot that was encoded, when it has no frequency of 255,
  rejects every proper prefix of it with an error, and panics on no input.\<close>

theorem idx_snapshot_roundtrip:
  assumes "idx_fits s" "no_tf_255 s"
  shows "idx_decode (idx_encode s) = Inr s
    \<and> (\<forall>p q. idx_encode s = p @ q \<longrightarrow> q \<noteq> [] \<longrightarrow> (\<exists>m. idx_decode p = Inl (Err m)))
    \<and> idx_decode data \<noteq> Inl Panic"
proof (intro conjI allI impI)
  have "rd_idx_body (idx_header @ idx_body s) 5 = Inr (s, 5 + length (idx_body s))"
    by (rule reads_after [OF reads_rd_idx_body [OF assms]]) simp
  then show "idx_decode (idx_encode s) = Inr s"
    by (simp add: idx_encode_header idx_decode_body [OF idx_body_len])
  show "\<exists>m. idx_decode p = Inl (Err m)" if "idx_encode s = p @ q" "q \<noteq> []" for p q
    using idx_prefix_error [OF assms] that by blast
  have "calm (idx_decode data)"
    using calm_readerD [OF calm_rd_idx_body, of 5 data]
    by (auto simp: idx_decode_def intro!: calm_and_then)
  then show "idx_decode data \<noteq> Inl Panic" by (simp add: calm_def)
qed

definition sample_snapshot :: "u32 \<Rightarrow> index_snapshot" where
  "sample_snapshot tf =
     \<lparr>is_art_keys = [[0x6D]], is_entity_index = [([0x65], [[0x6D]])], is_indexed_dims = [64],
      is_corpus_counts = [(64, 1)], is_bq_words_per_vec = 1, is_bq_live = 1, is_fingerprint = 7,
      is_written_at = 9, is_lexical_postings = [([0x74], [([0x6D], tf)])],
      is_lexical_doc_len = [([0x6D], tf)], is_lexical_n_docs = 1, is_bq_entries = [([0x6D], [5])]\<rparr>"

lemma sample_fits: "idx_fits (sample_snapshot tf)"
  by (simp add: idx_fits_def sample_snapshot_def MAX_EMBEDDING_DIM_def MAX_KLEN_def wire_key_def wire_str_def
    short_def words_for_def utf8_valid.simps(2))

theorem idx_snapshot_roundtrip_witness:
  "idx_decode (idx_encode (sample_snapshot 256)) = Inr (sample_snapshot 256)"
  by (rule idx_snapshot_roundtrip [THEN conjunct1, OF sample_fits])
    (simp add: no_tf_255_def sample_snapshot_def)

lemma rbind_reads:
  "rbind r f data off = Inr y \<Longrightarrow> reads r w v \<Longrightarrow> holds_at data off (w @ w') \<Longrightarrow>
   f v data (off + length w) = Inr y \<and> holds_at data (off + length w) w'"
  by (simp add: readsD rbind_def holds_at_append_iff)

text \<open>The fields in front of the postings.\<close>

definition idx_front :: "index_snapshot \<Rightarrow> bytes" where
  "idx_front s =
     le_enc 8 (unat (is_fingerprint s)) @ le_enc 8 (unat (is_written_at s)) @
     le_enc 4 (unat (is_bq_words_per_vec s)) @ le_enc 8 (unat (is_bq_live s)) @
     enc_list (le_enc 4) (is_indexed_dims s) @ enc_list enc_count (is_corpus_counts s) @
     enc_list (enc_str 2) (is_art_keys s) @ enc_list enc_entity (is_entity_index s)"

lemma decoded_postings:
  assumes fits: "idx_fits s" and w: "reads (rd_list ''trunc nterms'' rd_term) w terms"
    and h: "holds_at data 5 (idx_front s @ w)" and run: "rd_idx_body data 5 = Inr (s', off)"
  shows "is_lexical_postings s' = terms"
proof -
  note fp = rbind_reads [OF run [unfolded rd_idx_body_def] reads_rd_u64 h [unfolded idx_front_def append_assoc]]
  note ts = rbind_reads [OF conjunct1 [OF fp] reads_rd_u64 conjunct2 [OF fp]]
  note wpv = rbind_reads [OF conjunct1 [OF ts] reads_rd_f32 conjunct2 [OF ts]]
  note live = rbind_reads [OF conjunct1 [OF wpv] reads_rd_u64 conjunct2 [OF wpv]]
  note dims = rbind_reads [OF conjunct1 [OF live] reads_dims [OF fits] conjunct2 [OF live]]
  note counts = rbind_reads [OF conjunct1 [OF dims] reads_counts [OF fits] conjunct2 [OF dims]]
  note keys = rbind_reads [OF conjunct1 [OF counts] reads_keys [OF fits] conjunct2 [OF counts]]
  note ents = rbind_reads [OF conjunct1 [OF keys] reads_entity_index [OF fits] conjunct2 [OF keys]]
  note terms = rbind_reads [OF conjunct1 [OF ents] w, of "[]"]
  show ?thesis using terms ents by (auto simp: rbind_def and_then_Inr_iff)
qed

text \<open>IDX1: a document that holds a term exactly 255 times makes the snapshot unreadable for
  itself: the byte 255 is written without the integer that the decoder then reads, so the decoder
  takes the next four bytes of the stream for the frequency.\<close>

theorem tf_255_desynchronises:
  "enc_tf 255 = [255]
   \<and> rd_tf (pre @ enc_tf 255 @ w) (length pre) =
      (if 4 \<le> length w then Inr (of_nat (le_val (take 4 w)), length pre + 5) else Inl (Err ''trunc tf_full''))
   \<and> idx_decode (idx_encode (sample_snapshot 255)) \<noteq> Inr (sample_snapshot 255)"
proof (intro conjI)
  show e: "enc_tf 255 = [255]" by (simp add: enc_tf_def)
  show "rd_tf (pre @ enc_tf 255 @ w) (length pre) =
      (if 4 \<le> length w then Inr (of_nat (le_val (take 4 w)), length pre + 5) else Inl (Err ''trunc tf_full''))"
    by (simp add: e rd_tf_def rbind_def rd_byte_def get_at_def nth_append rd_f32_def rd_uint_def rd_le_def rret_def)
  let ?s = "sample_snapshot 255"
  let ?w = "le_enc 4 1 @ enc_str 2 [0x74] @ le_enc 4 1 @ enc_str 2 [0x6D] @ [255] @ le_enc 4 1"
  have one: "reads rd_tf ([255] @ le_enc 4 (unat (1 :: u32))) 1"
    unfolding rd_tf_def by (rule reads_rbind [OF reads_rd_byte]) (simp only: if_True refl reads_rd_f32)
  have w: "reads (rd_list ''trunc nterms'' rd_term) ?w [([0x74], [([0x6D], 1)])]"
  proof -
    have p: "reads rd_posting (enc_str 2 [0x6D] @ [255] @ le_enc 4 1) ([0x6D], 1)"
      unfolding rd_posting_def using one
      by (intro reads_rbind [OF reads_wire_str] reads_rbind_last [where r = rd_tf]) (auto simp: wire_str_def utf8_valid.simps(2) intro: reads_rret)
    have ps: "reads (rd_list ''trunc ndocs'' rd_posting) (enc_list (\<lambda>_. enc_str 2 [0x6D] @ [255] @ le_enc 4 1) [([0x6D :: u8], 1 :: u32)]) [([0x6D], 1)]"
      using p by (intro reads_rd_list) (simp_all add: short_def)
    have "reads rd_term (enc_str 2 [0x74] @ enc_list (\<lambda>_. enc_str 2 [0x6D] @ [255] @ le_enc 4 1) [([0x6D :: u8], 1 :: u32)]) ([0x74], [([0x6D], 1)])"
      unfolding rd_term_def
      by (intro reads_rbind [OF reads_wire_str] reads_rbind_last [OF ps] reads_rret) (simp add: wire_str_def utf8_valid.simps(2))
    then have "reads (rd_list ''trunc nterms'' rd_term)
        (enc_list (\<lambda>_. enc_str 2 [0x74] @ enc_list (\<lambda>_. enc_str 2 [0x6D] @ [255] @ le_enc 4 1) [([0x6D :: u8], 1 :: u32)]) [([0x74 :: u8], [([0x6D :: u8], 1 :: u32)])])
        [([0x74], [([0x6D], 1)])]"
      by (intro reads_rd_list) (simp_all add: short_def)
    then show ?thesis by (simp add: enc_list_def)
  qed
  have data: "idx_encode ?s = idx_header @ (idx_front ?s @ ?w) @
      (le_enc 2 1 @ [0x6D] @ le_enc 4 255 @ le_enc 4 1 @ enc_list enc_bq_entry (is_bq_entries ?s))"
    by (simp add: idx_encode_header idx_body_def idx_front_def sample_snapshot_def enc_list_def enc_term_def enc_posting_def
      enc_doc_len_def enc_str_def e)
  have h: "holds_at (idx_encode ?s) 5 (idx_front ?s @ ?w)"
    unfolding data by (rule holds_atI [where pre = idx_header]) simp_all
  show "idx_decode (idx_encode ?s) \<noteq> Inr ?s"
  proof
    assume "idx_decode (idx_encode ?s) = Inr ?s"
    then obtain off where "rd_idx_body (idx_encode ?s) 5 = Inr (?s, off)"
      by (auto simp: idx_encode_header idx_decode_body [OF idx_body_len] and_then_Inr_iff)
    from decoded_postings [OF sample_fits w h this] show False by (simp add: sample_snapshot_def)
  qed
qed

section \<open>Pages (IDX2)\<close>

definition IDX2_MAGIC :: bytes where
  "IDX2_MAGIC = ascii ''IDX2''"

definition IDX2_VERSION :: u8 where
  "IDX2_VERSION = 1"

definition IDX2_CHUNK_LEN :: nat where
  "IDX2_CHUNK_LEN = 256 * 1024"

definition IDX2_MAX_PARTS :: nat where
  "IDX2_MAX_PARTS = 64 * 1024"

record idx2_header =
  ih_fingerprint :: u64
  ih_written_at :: u64
  ih_total_len :: u32
  ih_chunk_len :: u32
  ih_n_parts :: u32

fun hex_digits :: "nat \<Rightarrow> bytes" where
  "hex_digits n = (if n < 16 then [hex_digit n] else hex_digits (n div 16) @ [hex_digit (n mod 16)])"

declare hex_digits.simps [simp del]

text \<open>\<open>{:04x}\<close> pads to four digits and cuts nothing.\<close>

definition idx2_part_key :: "nat \<Rightarrow> bytes" where
  "idx2_part_key part = ascii ''sys/idx/snapshot/p/'' @
     replicate (4 - length (hex_digits part)) (hex_digit 0) @ hex_digits part"

definition div_ceil :: "nat \<Rightarrow> nat \<Rightarrow> nat" where
  "div_ceil a b = (a + b - 1) div b"

definition idx2_encode :: "idx2_header \<Rightarrow> bytes" where
  "idx2_encode h = IDX2_MAGIC @ [IDX2_VERSION] @ le_enc 8 (unat (ih_fingerprint h)) @
     le_enc 8 (unat (ih_written_at h)) @ le_enc 4 (unat (ih_total_len h)) @
     le_enc 4 (unat (ih_chunk_len h)) @ le_enc 4 (unat (ih_n_parts h))"

definition idx2_decode :: "bytes \<Rightarrow> idx2_header option" where
  "idx2_decode data =
     (if length data < 32 \<or> take 4 data \<noteq> IDX2_MAGIC \<or> data ! 4 \<noteq> IDX2_VERSION then None
      else case (rd_le 8 data 5, rd_le 8 data 13, rd_le 4 data 21, rd_le 4 data 25, rd_le 4 data 29) of
        (Some fp, Some wa, Some len, Some chunk, Some parts) \<Rightarrow>
          if chunk = 0 \<or> parts = 0 \<or> parts > IDX2_MAX_PARTS then None
          else if div_ceil len chunk \<noteq> parts then None
          else Some \<lparr>ih_fingerprint = of_nat fp, ih_written_at = of_nat wa, ih_total_len = of_nat len,
                     ih_chunk_len = of_nat chunk, ih_n_parts = of_nat parts\<rparr>
      | _ \<Rightarrow> None)"

fun cut :: "nat \<Rightarrow> nat \<Rightarrow> bytes \<Rightarrow> bytes list" where
  "cut 0 chunk_len blob = []"
| "cut (Suc n) chunk_len blob = take chunk_len blob # cut n chunk_len (drop chunk_len blob)"

definition idx2_split :: "bytes \<Rightarrow> u64 \<Rightarrow> nat \<Rightarrow> idx2_header \<times> bytes list" where
  "idx2_split blob written_at chunk_len =
     (let chunk_len = (if chunk_len = 0 then IDX2_CHUNK_LEN else chunk_len);
          n_parts = max (div_ceil (length blob) chunk_len) 1;
          header = \<lparr>ih_fingerprint = of_nat (unwrap_or (rd_le 8 blob 5) 0), ih_written_at = written_at,
                    ih_total_len = of_nat (length blob), ih_chunk_len = of_nat chunk_len,
                    ih_n_parts = of_nat n_parts\<rparr>
      in (header, cut n_parts chunk_len blob))"

fun join_parts :: "idx2_header \<Rightarrow> nat \<Rightarrow> bytes option list \<Rightarrow> bytes \<Rightarrow> bytes option" where
  "join_parts h i [] out = Some out"
| "join_parts h i (None # ps) out = None"
| "join_parts h i (Some p # ps) out =
     (let expect = min (unat (ih_total_len h) - i * unat (ih_chunk_len h)) (unat (ih_chunk_len h))
      in if length p \<noteq> expect then None else join_parts h (i + 1) ps (out @ p))"

definition idx2_join :: "idx2_header \<Rightarrow> bytes option list \<Rightarrow> bytes option" where
  "idx2_join h parts =
     (if length parts \<noteq> unat (ih_n_parts h) then None
      else case join_parts h 0 parts [] of
        None \<Rightarrow> None
      | Some out \<Rightarrow> if length out \<noteq> unat (ih_total_len h) then None else Some out)"

lemma cut_length [simp]: "length (cut n c blob) = n"
  by (induction n c blob rule: cut.induct) auto

lemma cut_pieces: "p \<in> set (cut n c blob) \<Longrightarrow> length p \<le> c"
  by (induction n c blob rule: cut.induct) auto

lemma join_cut:
  assumes "unat (ih_chunk_len h) = c" "unat (ih_total_len h) = length blob"
  shows "join_parts h i (map Some (cut n c (drop (i * c) blob))) out = Some (out @ take (n * c) (drop (i * c) blob))"
proof (induction n arbitrary: i out)
  case (Suc n)
  have d: "drop c (drop (i * c) blob) = drop ((i + 1) * c) blob" by (simp add: add.commute)
  have t: "take (Suc n * c) xs = take c xs @ take (n * c) (drop c xs)" for xs :: bytes
    by (simp add: take_add)
  show ?case
    using Suc.IH [of "i + 1" "out @ take c (drop (i * c) blob)"] assms
    by (simp only: cut.simps list.map join_parts.simps Let_def d t length_take length_drop)
      (simp add: min.commute)
qed simp

lemma join_missing: "None \<in> set ps \<Longrightarrow> join_parts h i ps out = None"
  by (induction h i ps out rule: join_parts.induct) (auto simp: Let_def)

lemma div_ceil_mult: "0 < c \<Longrightarrow> n \<le> div_ceil n c * c"
proof -
  assume c: "0 < c"
  have "n + c - 1 < Suc ((n + c - 1) div c) * c" using c by (simp add: dividend_less_div_times)
  then show ?thesis using c by (simp add: div_ceil_def)
qed

lemma div_ceil_le: "0 < c \<Longrightarrow> div_ceil n c \<le> n"
proof (cases "n = 0")
  case True
  then show "0 < c \<Longrightarrow> ?thesis" by (simp add: div_ceil_def)
next
  case False
  assume c: "0 < c"
  have "n + c - 1 \<le> n * c" using False c by (cases n; cases c) simp_all
  then have "(n + c - 1) div c \<le> n * c div c" by (rule div_le_mono)
  then show ?thesis using c by (simp add: div_ceil_def)
qed

lemma idx2_header_roundtrip:
  assumes "ih_chunk_len h \<noteq> 0" "0 < unat (ih_n_parts h)" "unat (ih_n_parts h) \<le> IDX2_MAX_PARTS"
    and "div_ceil (unat (ih_total_len h)) (unat (ih_chunk_len h)) = unat (ih_n_parts h)"
  shows "idx2_decode (idx2_encode h) = Some h"
proof -
  let ?pre = "IDX2_MAGIC @ [IDX2_VERSION]"
  have l: "length IDX2_MAGIC = 4" by (simp add: IDX2_MAGIC_def ascii_def)
  have h5: "holds_at (idx2_encode h) 5 (le_enc 8 (unat (ih_fingerprint h)) @
     le_enc 8 (unat (ih_written_at h)) @ le_enc 4 (unat (ih_total_len h)) @
     le_enc 4 (unat (ih_chunk_len h)) @ le_enc 4 (unat (ih_n_parts h)))"
    unfolding idx2_encode_def by (rule holds_atI [where pre = ?pre and suf = "[]"]) (simp_all add: l)
  then have h: "holds_at (idx2_encode h) 5 (le_enc 8 (unat (ih_fingerprint h)))"
    "holds_at (idx2_encode h) 13 (le_enc 8 (unat (ih_written_at h)))"
    "holds_at (idx2_encode h) 21 (le_enc 4 (unat (ih_total_len h)))"
    "holds_at (idx2_encode h) 25 (le_enc 4 (unat (ih_chunk_len h)))"
    "holds_at (idx2_encode h) 29 (le_enc 4 (unat (ih_n_parts h)))"
    by (simp_all add: holds_at_append_iff)
  have g: "\<not> (length (idx2_encode h) < 32 \<or> take 4 (idx2_encode h) \<noteq> IDX2_MAGIC \<or> idx2_encode h ! 4 \<noteq> IDX2_VERSION)"
    by (simp add: idx2_encode_def IDX2_MAGIC_def ascii_def nth_append)
  note r = rd_le_holds [OF h(1) unat_u64_less] rd_le_holds [OF h(2) unat_u64_less] rd_le_holds [OF h(3) unat_u32_less]
    rd_le_holds [OF h(4) unat_u32_less] rd_le_holds [OF h(5) unat_u32_less]
  have "unat (ih_chunk_len h) \<noteq> 0" using assms(1) by (simp add: word_unat_eq_iff)
  then show ?thesis using g assms(2-4) unfolding idx2_decode_def by (simp add: r)
qed

subsection \<open>Keys of the pages\<close>

lemma hex_digits_length: "n < 16 ^ Suc k \<Longrightarrow> length (hex_digits n) \<le> Suc k"
proof (induction k arbitrary: n)
  case 0
  then show ?case by (simp add: hex_digits.simps)
next
  case (Suc k)
  have "n div 16 < 16 ^ Suc k" using Suc.prems by (simp add: less_mult_imp_div_less mult.commute)
  then show ?case using Suc.IH [of "n div 16"] by (subst hex_digits.simps) simp
qed

lemma hex_number_append:
  "hex_number acc (xs @ ys) = (case hex_number acc xs of None \<Rightarrow> None | Some a \<Rightarrow> hex_number a ys)"
  by (induction acc xs rule: hex_number.induct) (auto split: option.splits)

lemma hex_number_digits: "hex_number 0 (hex_digits n) = Some n"
proof (induction n rule: hex_digits.induct)
  case (1 n)
  then show ?case
    by (subst hex_digits.simps) (simp add: hex_number_append hex_value_digit)
qed

lemma hex_number_zeros: "hex_number 0 (replicate k (hex_digit 0) @ ds) = hex_number 0 ds"
  by (induction k) (simp_all add: hex_value_digit)

lemma part_key_inj: "idx2_part_key i = idx2_part_key j \<Longrightarrow> i = j"
proof -
  assume "idx2_part_key i = idx2_part_key j"
  then have "hex_number 0 (replicate (4 - length (hex_digits i)) (hex_digit 0) @ hex_digits i)
      = hex_number 0 (replicate (4 - length (hex_digits j)) (hex_digit 0) @ hex_digits j)"
    by (simp add: idx2_part_key_def)
  then show ?thesis by (simp add: hex_number_zeros hex_number_digits)
qed

lemma part_key_length: "i < IDX2_MAX_PARTS \<Longrightarrow> length (idx2_part_key i) = length (ascii ''sys/idx/snapshot/p/'') + 4"
  using hex_digits_length [of i 3] by (simp add: idx2_part_key_def IDX2_MAX_PARTS_def)

text \<open>IDX2: a blob cut into pages is joined back to itself, any missing page is noticed, no page
  is longer than a chunk, the header of a page list within the limit is read back, and the keys of the
  pages are distinct and of one length, so that no key is a prefix of another in the radix tree.\<close>

theorem idx2_pages_roundtrip:
  assumes "length blob < 2 ^ 32" "chunk_len < 2 ^ 32" "blob \<noteq> []"
    and "idx2_split blob written_at chunk_len = (h, parts)"
  shows "idx2_join h (map Some parts) = Some blob
    \<and> (\<forall>i < length parts. idx2_join h ((map Some parts)[i := None]) = None)
    \<and> (\<forall>p \<in> set parts. length p \<le> unat (ih_chunk_len h))
    \<and> (length parts \<le> IDX2_MAX_PARTS \<longrightarrow> idx2_decode (idx2_encode h) = Some h)
    \<and> (\<forall>i j. i < IDX2_MAX_PARTS \<longrightarrow> j < IDX2_MAX_PARTS \<longrightarrow>
         length (idx2_part_key i) = length (idx2_part_key j) \<and> (idx2_part_key i = idx2_part_key j \<longleftrightarrow> i = j))"
proof -
  define c where "c = (if chunk_len = 0 then IDX2_CHUNK_LEN else chunk_len)"
  define n where "n = max (div_ceil (length blob) c) 1"
  have c: "0 < c" "c < 2 ^ 32" using assms(2) by (simp_all add: c_def IDX2_CHUNK_LEN_def)
  have "0 < length blob" using assms(3) by simp
  then have "n \<le> length blob" using div_ceil_le [OF c(1), of "length blob"] unfolding n_def by (intro max.boundedI) (simp_all add: Suc_le_eq)
  then have n: "n < 2 ^ 32" using assms(1) by simp
  have "0 < div_ceil (length blob) c"
    using div_ceil_mult [OF c(1), of "length blob"] \<open>0 < length blob\<close> by (cases "div_ceil (length blob) c") simp_all
  then have ceil: "div_ceil (length blob) c = n" by (simp add: n_def)
  have split: "h = \<lparr>ih_fingerprint = of_nat (unwrap_or (rd_le 8 blob 5) 0), ih_written_at = written_at,
      ih_total_len = of_nat (length blob), ih_chunk_len = of_nat c, ih_n_parts = of_nat n\<rparr>" "parts = cut n c blob"
    using assms(4) unfolding idx2_split_def Let_def c_def [symmetric] n_def [symmetric] by simp_all
  then have h: "unat (ih_chunk_len h) = c" "unat (ih_total_len h) = length blob" "unat (ih_n_parts h) = n"
    and parts: "parts = cut n c blob"
    using c n assms(1) by (simp_all add: take_bit_nat_eq_self unsigned_of_nat)
  have cover: "length blob \<le> n * c" using div_ceil_mult [OF c(1), of "length blob"] ceil by simp
  have "join_parts h 0 (map Some parts) [] = Some blob"
    using join_cut [OF h(1,2), of 0 n "[]"] cover by (simp add: parts)
  then have join: "idx2_join h (map Some parts) = Some blob" by (simp add: idx2_join_def h parts)
  have gone: "idx2_join h ((map Some parts)[i := None]) = None" if "i < length parts" for i
    using join_missing [of "(map Some parts)[i := None]" h 0 "[]"] set_update_memI [of i "map Some parts" None] that
    by (simp add: idx2_join_def)
  have head: "idx2_decode (idx2_encode h) = Some h" if "length parts \<le> IDX2_MAX_PARTS"
    using that ceil c h parts \<open>0 < div_ceil (length blob) c\<close>
    by (intro idx2_header_roundtrip) (auto simp: word_unat_eq_iff)
  show ?thesis
    using join gone head cut_pieces part_key_inj part_key_length by (auto simp: parts h)
qed

theorem idx2_pages_roundtrip_witness:
  "idx2_join (fst (idx2_split [1, 2, 3, 4, 5] 9 2)) (map Some (snd (idx2_split [1, 2, 3, 4, 5] 9 2))) = Some [1, 2, 3, 4, 5]"
  by (rule conjunct1 [OF idx2_pages_roundtrip [of _ 2 9]]) simp_all

end
