(* ===== verification/Engine.thy ===== *)
theory Engine
  imports Side_Tables Crdt_Sync Art Idx_Snapshot "HOL-Library.Product_Lexorder"
begin

text \<open>
  \<open>AiosDatabaseEngine\<close> of \<open>src/src/engine.rs\<close>: the storage, the RAM tier of the layers L0 and L1, and
  the derived indexes (radix tree, binary quantisation, lexical, entities, clocks) that every
  operation keeps in step with the storage.  An operation is a step on the record \<open>engine\<close> that ends
  with a value, an \<open>SgdbError\<close> or a panic of the radix tree; what it has done before an error stays
  done.  The process-wide counter \<open>NEXT_ID\<close> is a field, the sums of \<open>f64\<close> behind \<open>corpus_mean\<close> are
  left out (their counts are modelled), and the metrics counters wrap.
\<close>

section \<open>State\<close>

record 's engine =
  en_art :: art
  en_bq :: bq
  en_lexical :: lexical
  en_entity_index :: "(bytes \<times> bytes list) list"
  en_node_id :: u8
  en_puts :: u64
  en_gets :: u64
  en_indexed_dims :: "nat list"
  en_corpus_counts :: "(nat \<times> u64) list"
  en_ram :: "(bytes \<times> bytes) list"
  en_ram_puts :: u64
  en_id_to_sk :: "(u64 \<times> bytes) list"
  en_sk_ids :: "(bytes \<times> u64 list) list"
  en_clock_index :: "((u8 \<times> u64) \<times> bytes list) list"
  en_sk_clocks :: "(bytes \<times> (u8 \<times> u64) list) list"
  en_watermark :: u64
  en_next_id :: u64
  en_storage :: 's

text \<open>What the engine runs on: the backend, the alphanumeric characters, the CPU.\<close>

record 's host =
  ho_backend :: "'s backend"
  ho_put_many :: "'s \<Rightarrow> (bytes \<times> bytes) list \<Rightarrow> 's outcome"
  ho_alnum :: "bytes \<Rightarrow> bool"
  ho_avx2 :: bool

definition engine_new :: "u8 \<Rightarrow> u64 \<Rightarrow> 's \<Rightarrow> 's engine" where
  "engine_new node_id next_id storage =
     \<lparr>en_art = art_new, en_bq = bq_new, en_lexical = lx_new, en_entity_index = [],
      en_node_id = node_id, en_puts = 0, en_gets = 0, en_indexed_dims = [], en_corpus_counts = [],
      en_ram = [], en_ram_puts = 0, en_id_to_sk = [], en_sk_ids = [], en_clock_index = [],
      en_sk_clocks = [], en_watermark = 0, en_next_id = next_id, en_storage = storage\<rparr>"

section \<open>Operations as steps\<close>

datatype stop = Sgdb sgdb_error | Panics

type_synonym ('s, 'a) op = "'s engine \<Rightarrow> (stop + 'a) \<times> 's engine"

definition oret :: "'a \<Rightarrow> ('s, 'a) op" where
  "oret x s = (Inr x, s)"

definition ofail :: "sgdb_error \<Rightarrow> ('s, 'a) op" where
  "ofail e s = (Inl (Sgdb e), s)"

definition obind :: "('s, 'a) op \<Rightarrow> ('a \<Rightarrow> ('s, 'b) op) \<Rightarrow> ('s, 'b) op" where
  "obind m f s = (case m s of (Inl e, s') \<Rightarrow> (Inl e, s') | (Inr x, s') \<Rightarrow> f x s')"

definition othen :: "('s, unit) op \<Rightarrow> ('s, 'b) op \<Rightarrow> ('s, 'b) op" where
  "othen m n = obind m (\<lambda>_. n)"

definition oget :: "('s engine \<Rightarrow> 'a) \<Rightarrow> ('s, 'a) op" where
  "oget g s = (Inr (g s), s)"

definition omod :: "('s engine \<Rightarrow> 's engine) \<Rightarrow> ('s, unit) op" where
  "omod g s = (Inr (), g s)"

fun oseq :: "('a \<Rightarrow> ('s, unit) op) \<Rightarrow> 'a list \<Rightarrow> ('s, unit) op" where
  "oseq f [] s = (Inr (), s)"
| "oseq f (x # xs) s = (case f x s of (Inl e, s') \<Rightarrow> (Inl e, s') | (Inr _, s') \<Rightarrow> oseq f xs s')"

text \<open>A storage operation, and an insertion into the radix tree.\<close>

definition on_storage :: "('s \<Rightarrow> 's outcome) \<Rightarrow> ('s, unit) op" where
  "on_storage f s =
     (case f (en_storage s) of (r, st) \<Rightarrow> (map_sum Sgdb id r, s\<lparr>en_storage := st\<rparr>))"

definition sto_put :: "'s host \<Rightarrow> bytes \<Rightarrow> bytes \<Rightarrow> ('s, unit) op" where
  "sto_put h k v = on_storage (\<lambda>st. be_put (ho_backend h) st k v)"

definition sto_del :: "'s host \<Rightarrow> bytes \<Rightarrow> ('s, unit) op" where
  "sto_del h k = on_storage (\<lambda>st. be_del (ho_backend h) st k)"

definition sto_get :: "'s host \<Rightarrow> 's engine \<Rightarrow> bytes \<Rightarrow> bytes option" where
  "sto_get h s k = be_get (ho_backend h) (en_storage s) k"

definition art_put :: "bytes \<Rightarrow> u64 \<Rightarrow> ('s, unit) op" where
  "art_put k v s =
     (case art_insert (en_art s) k v of
        Inl _ \<Rightarrow> (Inl Panics, s)
      | Inr t \<Rightarrow> (Inr (), s\<lparr>en_art := t\<rparr>))"

definition fresh_id :: "('s, u64) op" where
  "fresh_id s = (Inr (en_next_id s), s\<lparr>en_next_id := en_next_id s + 1\<rparr>)"

section \<open>Keys\<close>

text \<open>\<open>str::split\<close> at a byte.\<close>

fun split_at :: "u8 \<Rightarrow> bytes \<Rightarrow> bytes list" where
  "split_at c [] = [[]]"
| "split_at c (b # bs) =
     (if b = c then [] # split_at c bs
      else case split_at c bs of p # ps \<Rightarrow> (b # p) # ps | [] \<Rightarrow> [[b]])"

text \<open>The choke of every write: the key of the document, and both keys of a relation.\<close>

definition key_problem :: "string \<Rightarrow> string \<Rightarrow> string \<Rightarrow> string \<Rightarrow> bytes \<Rightarrow> sgdb_error option" where
  "key_problem m_len m_hash m_dots m_ctl key =
     (if key = [] \<or> length key > 4096 then Some (SE_Invalid m_len)
      else if of_char CHR ''#'' \<in> set key \<or> 0 \<in> set key then Some (SE_Invalid m_hash)
      else if list_ex (\<lambda>p. p = ascii ''.'' \<or> p = ascii ''..'') (split_at (of_char CHR ''/'') key)
      then Some (SE_Invalid m_dots)
      else if list_ex (\<lambda>b. b < 0x20 \<or> b = 0x7F) key then Some (SE_Invalid m_ctl)
      else None)"

definition doc_key_problem :: "bytes \<Rightarrow> sgdb_error option" where
  "doc_key_problem = key_problem ''key length'' ''key contains # or NUL'' ''key contains . or ..''
     ''key contains control''"

definition rel_key_problem :: "bytes \<Rightarrow> sgdb_error option" where
  "rel_key_problem = key_problem ''relation key length'' ''relation key contains reserved '#' or NUL''
     ''relation key contains . or ..'' ''relation key contains control''"

definition guard_key :: "sgdb_error option \<Rightarrow> ('s, unit) op" where
  "guard_key p = (case p of None \<Rightarrow> oret () | Some e \<Rightarrow> ofail e)"

definition is_ram_layer :: "memory_layer \<Rightarrow> bool" where
  "is_ram_layer l \<longleftrightarrow> l = L0Sensory \<or> l = L1Working"

section \<open>RAM tier\<close>

definition materialize_ram_doc :: "'s host \<Rightarrow> bytes \<Rightarrow> ('s, unit) op" where
  "materialize_ram_doc h sk = obind (oget (\<lambda>s. bt_get (en_ram s) sk)) (\<lambda>blob.
     case blob of
       None \<Rightarrow> oret ()
     | Some w \<Rightarrow> othen (omod (\<lambda>s. s\<lparr>en_ram := bt_remove sk (en_ram s)\<rparr>)) (sto_put h sk w))"

definition checkpoint_l0l1 :: "'s host \<Rightarrow> ('s, nat) op" where
  "checkpoint_l0l1 h = obind (oget en_ram) (\<lambda>items.
     othen (on_storage (\<lambda>st. ho_put_many h st items)) (oret (length items)))"

definition prune_ram_l0l1 :: "('s, nat) op" where
  "prune_ram_l0l1 = obind (oget en_ram) (\<lambda>ram. othen (omod (\<lambda>s. s\<lparr>en_ram := []\<rparr>)) (oret (length ram)))"

definition doc_exists :: "'s host \<Rightarrow> 's engine \<Rightarrow> bytes \<Rightarrow> bool" where
  "doc_exists h s sk \<longleftrightarrow> bt_get (en_ram s) sk \<noteq> None \<or> sto_get h s sk \<noteq> None"

section \<open>Reading a document\<close>

definition attach_meta :: "'s host \<Rightarrow> 's engine \<Rightarrow> bytes \<Rightarrow> memory_doc \<Rightarrow> memory_doc" where
  "attach_meta h s sk doc =
     (case read_meta (ho_backend h) (en_storage s) sk of
        None \<Rightarrow> doc
      | Some m \<Rightarrow>
          doc\<lparr>md_clock := vc_merge (md_clock doc)
                 (fold (\<lambda>(n, c) oc. set_counter oc n c) (mm_clock_overflow m) vc_new),
              md_meta := Some m\<rparr>)"

text \<open>The document of a key as \<open>get_by_storage_key\<close> reads it: RAM first, then the storage.\<close>

definition doc_blob :: "'s host \<Rightarrow> 's engine \<Rightarrow> bytes \<Rightarrow> bytes option" where
  "doc_blob h s sk = (case bt_get (en_ram s) sk of Some w \<Rightarrow> Some w | None \<Rightarrow> sto_get h s sk)"

definition get_by_storage_key :: "'s host \<Rightarrow> bytes \<Rightarrow> ('s, memory_doc option) op" where
  "get_by_storage_key h sk =
     othen (omod (\<lambda>s. s\<lparr>en_gets := en_gets s + 1\<rparr>)) (obind (oget (\<lambda>s. s)) (\<lambda>s.
       case doc_blob h s sk of
         None \<Rightarrow> oret None
       | Some w \<Rightarrow>
           (case doc_decode w of
              Inl _ \<Rightarrow> ofail SE_Corrupt
            | Inr doc \<Rightarrow> oret (Some (attach_meta h s sk doc)))))"

definition layer_key :: "memory_layer \<Rightarrow> bytes \<Rightarrow> bytes" where
  "layer_key layer key = ascii ''md/'' @ layer_as_str layer @ ascii ''/'' @ key"

definition engine_get :: "'s host \<Rightarrow> memory_layer \<Rightarrow> bytes \<Rightarrow> ('s, memory_doc option) op" where
  "engine_get h layer key = get_by_storage_key h (layer_key layer key)"

definition get_view_bytes :: "'s host \<Rightarrow> memory_layer \<Rightarrow> bytes \<Rightarrow> ('s, bytes option) op" where
  "get_view_bytes h layer key =
     othen (omod (\<lambda>s. s\<lparr>en_gets := en_gets s + 1\<rparr>)) (obind (oget (\<lambda>s. s)) (\<lambda>s.
       case doc_blob h s (layer_key layer key) of
         None \<Rightarrow> oret None
       | Some w \<Rightarrow> (case view_parse w of Inl _ \<Rightarrow> ofail SE_Corrupt | Inr _ \<Rightarrow> oret (Some w))))"

definition text_step :: "'s host \<Rightarrow> bytes \<Rightarrow> (bytes \<times> bytes) list \<times> 's engine \<Rightarrow> (bytes \<times> bytes) list \<times> 's engine" where
  "text_step h sk = (\<lambda>(out, s).
     if bt_get out sk \<noteq> None then (out, s)
     else (bt_insert sk
             (case sto_get h s sk of
                Some w \<Rightarrow> (case doc_decode w of Inr d \<Rightarrow> utf8_lossy (md_payload d) | Inl _ \<Rightarrow> [])
              | None \<Rightarrow> []) out,
           s\<lparr>en_gets := en_gets s + 1\<rparr>))"

definition get_texts_batch :: "'s host \<Rightarrow> bytes list \<Rightarrow> 's engine \<Rightarrow> (bytes \<times> bytes) list \<times> 's engine" where
  "get_texts_batch h keys s = fold (text_step h) keys ([], s)"

section \<open>Counts of embeddings\<close>

definition f32_at :: "bytes \<Rightarrow> nat \<Rightarrow> u32" where
  "f32_at payload i = of_nat (le_val (take 4 (drop (4 * i) payload)))"

definition payload_floats_truncated :: "bytes \<Rightarrow> u32 list option" where
  "payload_floats_truncated payload =
     (let n = length payload div 4 in if n = 0 then None else Some (map (f32_at payload) [0..<n]))"

definition payload_floats :: "bytes \<Rightarrow> u32 list option" where
  "payload_floats payload =
     (if length payload < 4 \<or> length payload mod 4 \<noteq> 0 then None
      else let n = length payload div 4 in
        if n > MAX_EMBEDDING_DIM then None else Some (map (f32_at payload) [0..<n]))"

text \<open>\<open>corpus_add\<close> and \<open>unnote_vec\<close> on the counts.\<close>

definition corpus_add :: "u32 list \<Rightarrow> (nat \<times> u64) list \<Rightarrow> (nat \<times> u64) list" where
  "corpus_add v m =
     (if v = [] \<or> list_ex (\<lambda>x. \<not> f32_finite x) v then m
      else bt_insert (length v) (saturating_inc (unwrap_or (bt_get m (length v)) 0)) m)"

definition corpus_sub :: "u32 list \<Rightarrow> (nat \<times> u64) list \<Rightarrow> (nat \<times> u64) list" where
  "corpus_sub v m =
     (if v = [] \<or> list_ex (\<lambda>x. \<not> f32_finite x) v then m
      else case bt_get m (length v) of
        None \<Rightarrow> m
      | Some c \<Rightarrow>
          let c' = (if c = 0 then 0 else c - 1)
          in if c' = 0 then bt_remove (length v) m else bt_insert (length v) c' m)"

definition note_vec :: "u32 list option \<Rightarrow> 's engine \<Rightarrow> 's engine" where
  "note_vec v s = (case v of None \<Rightarrow> s | Some v \<Rightarrow> s\<lparr>en_corpus_counts := corpus_add v (en_corpus_counts s)\<rparr>)"

definition unnote_vec :: "u32 list option \<Rightarrow> 's engine \<Rightarrow> 's engine" where
  "unnote_vec v s = (case v of None \<Rightarrow> s | Some v \<Rightarrow> s\<lparr>en_corpus_counts := corpus_sub v (en_corpus_counts s)\<rparr>)"

text \<open>The vector that a document contributes to the corpus.\<close>

definition corpus_vec :: "memory_doc \<Rightarrow> u32 list option" where
  "corpus_vec doc =
     (if \<not> carries_embedding (md_layer doc) then None
      else case md_bitvec doc of
        Some _ \<Rightarrow> if 4 \<le> length (md_payload doc) then payload_floats (md_payload doc) else None
      | None \<Rightarrow> payload_floats_truncated (md_payload doc))"

definition recompute_corpus_counts :: "'s host \<Rightarrow> 's engine \<Rightarrow> (nat \<times> u64) list" where
  "recompute_corpus_counts h s =
     fold (\<lambda>(_, w) m. case doc_decode w of
         Inl _ \<Rightarrow> m
       | Inr doc \<Rightarrow> (case corpus_vec doc of None \<Rightarrow> m | Some v \<Rightarrow> corpus_add v m))
       (be_scan (ho_backend h) (en_storage s) (ascii ''md/'')) []"

definition corpus_counts_drift :: "'s host \<Rightarrow> 's engine \<Rightarrow> nat list" where
  "corpus_counts_drift h s =
     (let reference = recompute_corpus_counts h s; kept = en_corpus_counts s
      in remdups (sort (map fst (filter (\<lambda>(dim, c). bt_get kept dim \<noteq> Some c) reference) @
           map fst (filter (\<lambda>(dim, _). bt_get reference dim = None) kept))))"

section \<open>Entities\<close>

definition reindex_entity :: "bytes \<Rightarrow> bytes \<Rightarrow> (bytes \<times> bytes list) list \<Rightarrow> (bytes \<times> bytes list) list" where
  "reindex_entity sk e ix =
     (if e = [] then ix
      else let ks = unwrap_or (bt_get ix e) []
           in bt_insert e (if sk \<in> set ks then ks else ks @ [sk]) ix)"

definition forget_entities :: "bytes \<Rightarrow> (bytes \<times> bytes list) list \<Rightarrow> (bytes \<times> bytes list) list" where
  "forget_entities sk ix =
     filter (\<lambda>(_, ks). ks \<noteq> []) (map (\<lambda>(e, ks). (e, filter (\<lambda>k. k \<noteq> sk) ks)) ix)"

definition reindex_entities :: "bytes \<Rightarrow> memory_meta \<Rightarrow> 's engine \<Rightarrow> 's engine" where
  "reindex_entities sk m s =
     s\<lparr>en_entity_index := fold (reindex_entity sk) (mm_entities m) (forget_entities sk (en_entity_index s))\<rparr>"

definition remove_entity :: "bytes \<Rightarrow> bytes \<Rightarrow> (bytes \<times> bytes list) list \<Rightarrow> (bytes \<times> bytes list) list" where
  "remove_entity sk e ix =
     (case bt_get ix e of
        None \<Rightarrow> ix
      | Some ks \<Rightarrow>
          let ks' = filter (\<lambda>k. k \<noteq> sk) ks
          in if ks' = [] then bt_remove e ix else bt_insert e ks' ix)"

definition remove_entities_exact :: "bytes \<Rightarrow> bytes list \<Rightarrow> 's engine \<Rightarrow> 's engine" where
  "remove_entities_exact sk es s = s\<lparr>en_entity_index := fold (remove_entity sk) es (en_entity_index s)\<rparr>"

section \<open>Metadata\<close>

definition write_meta :: "'s host \<Rightarrow> bytes \<Rightarrow> memory_meta \<Rightarrow> ('s, unit) op" where
  "write_meta h sk m =
     othen (materialize_ram_doc h sk)
     (othen (sto_put h (meta_key sk) (meta_encode m))
     (omod (reindex_entities sk m)))"

definition add_parent :: "bytes \<Rightarrow> memory_meta \<Rightarrow> memory_meta" where
  "add_parent p m = (if p \<in> set (mm_parent_ids m) then m else m\<lparr>mm_parent_ids := mm_parent_ids m @ [p]\<rparr>)"

definition MAX_PARENT_IDS :: nat where
  "MAX_PARENT_IDS = 64"

text \<open>The loop that drops the oldest parent until the window fits.\<close>

definition parent_window :: "bytes list \<Rightarrow> bytes list" where
  "parent_window ps = drop (length ps - MAX_PARENT_IDS) ps"

definition bump_version :: "bytes \<Rightarrow> memory_meta \<Rightarrow> memory_meta" where
  "bump_version new_vid m =
     (if new_vid = mm_version_id m then m
      else (if mm_version_id m \<in> set (mm_parent_ids m) then m
            else m\<lparr>mm_parent_ids := parent_window (mm_parent_ids m @ [mm_version_id m])\<rparr>)
           \<lparr>mm_version_id := new_vid\<rparr>)"

definition take_over :: "memory_meta \<Rightarrow> memory_meta \<Rightarrow> memory_meta" where
  "take_over d m =
     fold add_parent (mm_parent_ids d)
       (m\<lparr>mm_confidence := mm_confidence d, mm_importance := mm_importance d\<rparr>)"

definition first_meta :: "u8 \<Rightarrow> u64 \<Rightarrow> memory_layer \<Rightarrow> bytes \<Rightarrow> memory_meta" where
  "first_meta source tick layer mid =
     \<lparr>mm_memory_id = mid, mm_version_id = mid, mm_source = source, mm_confidence = 0x3F800000,
      mm_importance = default_importance layer, mm_created_tick = tick, mm_parent_ids = [],
      mm_clock_overflow = [], mm_last_reinforced = 0, mm_scope = [], mm_entities = [],
      mm_content_type = None, mm_scope_dims = dims_new, mm_model_id = [], mm_authority = 0\<rparr>"

text \<open>The rule of identity: what the metadata of a key becomes with a write.\<close>

definition next_meta :: "u8 \<Rightarrow> memory_meta option \<Rightarrow> memory_doc \<Rightarrow> bool \<Rightarrow> memory_meta" where
  "next_meta node existing doc bump =
     (let tick = counter_of (md_clock doc) node;
          mid = generate_memory_id node tick (md_layer doc) (md_key doc)
      in case (existing, md_meta doc) of
           (Some e, d) \<Rightarrow>
             if bump then (case d of Some dd \<Rightarrow> take_over dd (bump_version mid e) | None \<Rightarrow> bump_version mid e)
             else (case d of Some dd \<Rightarrow> take_over dd e | None \<Rightarrow> e)
         | (None, Some d) \<Rightarrow> d
         | (None, None) \<Rightarrow> first_meta node tick (md_layer doc) mid)"

definition persist_meta :: "'s host \<Rightarrow> bytes \<Rightarrow> memory_doc \<Rightarrow> bool \<Rightarrow> ('s, unit) op" where
  "persist_meta h sk doc bump = obind (oget (\<lambda>s. s)) (\<lambda>s.
     let m = (next_meta (en_node_id s) (read_meta (ho_backend h) (en_storage s) sk) doc bump)
               \<lparr>mm_clock_overflow := vc_overflow (md_clock doc)\<rparr>
     in othen (sto_put h (version_row_key (mm_version_id m)) (encode_version_entry sk m))
        (othen (sto_put h (meta_key sk) (meta_encode m))
        (omod (reindex_entities sk m))))"

definition NO_MEMORY :: string where
  "NO_MEMORY = ''no memory at key (use the full canonical storage key, e.g. md/L4/<key> - remember returns it)''"

definition ensure_meta :: "'s host \<Rightarrow> bytes \<Rightarrow> ('s, memory_meta) op" where
  "ensure_meta h sk = obind (oget (\<lambda>s. s)) (\<lambda>s.
     case read_meta (ho_backend h) (en_storage s) sk of
       Some m \<Rightarrow> oret m
     | None \<Rightarrow>
         if \<not> doc_exists h s sk then ofail (SE_Invalid NO_MEMORY)
         else obind (get_by_storage_key h sk) (\<lambda>d.
           case d of
             None \<Rightarrow> ofail (SE_Invalid NO_MEMORY)
           | Some doc \<Rightarrow>
               let tick = counter_of (md_clock doc) (en_node_id s);
                   mid = generate_memory_id (en_node_id s) tick (md_layer doc) (md_key doc);
                   m = (first_meta (en_node_id s) tick (md_layer doc) mid)
                         \<lparr>mm_clock_overflow := vc_overflow (md_clock doc)\<rparr>
               in othen (sto_put h (version_row_key (mm_version_id m)) (encode_version_entry sk m))
                  (othen (write_meta h sk m) (oret m))))"

definition add_parents :: "'s host \<Rightarrow> bytes \<Rightarrow> bytes list \<Rightarrow> ('s, unit) op" where
  "add_parents h sk ps = obind (ensure_meta h sk) (\<lambda>m. write_meta h sk (fold add_parent ps m))"

section \<open>Indexing a document\<close>

definition push_id :: "bytes \<Rightarrow> u64 \<Rightarrow> (bytes \<times> u64 list) list \<Rightarrow> (bytes \<times> u64 list) list" where
  "push_id sk did m = bt_insert sk (unwrap_or (bt_get m sk) [] @ [did]) m"

definition clock_entry :: "bytes \<Rightarrow> u8 \<times> u64 \<Rightarrow> ((u8 \<times> u64) \<times> bytes list) list \<Rightarrow> ((u8 \<times> u64) \<times> bytes list) list" where
  "clock_entry sk nc m =
     (let ks = unwrap_or (bt_get m nc) [] in bt_insert nc (if sk \<in> set ks then ks else ks @ [sk]) m)"

definition index_ids :: "u64 \<Rightarrow> memory_doc \<Rightarrow> bytes \<Rightarrow> 's engine \<Rightarrow> 's engine" where
  "index_ids did doc sk s =
     s\<lparr>en_id_to_sk := bt_insert did sk (en_id_to_sk s),
       en_sk_ids := push_id sk did (en_sk_ids s),
       en_sk_clocks := bt_insert sk (vc_entries (md_clock doc)) (en_sk_clocks s),
       en_clock_index := fold (clock_entry sk) (vc_entries (md_clock doc)) (en_clock_index s)\<rparr>"

definition index_text :: "(bytes \<Rightarrow> bool) \<Rightarrow> memory_doc \<Rightarrow> bytes \<Rightarrow> 's engine \<Rightarrow> 's engine" where
  "index_text alnum doc sk s =
     (if (md_layer doc = L2EpisodicShort \<or> md_layer doc = L3EpisodicLong) \<and> utf8_valid (md_payload doc)
      then s\<lparr>en_lexical := lx_add alnum (en_lexical s) sk (md_payload doc)\<rparr> else s)"

definition index_vector :: "u64 \<Rightarrow> memory_doc \<Rightarrow> 's engine \<Rightarrow> 's engine" where
  "index_vector did doc s =
     (if \<not> carries_embedding (md_layer doc) then s
      else case md_bitvec doc of
        Some bv \<Rightarrow>
          let s = s\<lparr>en_bq := bq_insert (en_bq s) did bv\<rparr>
          in if 4 \<le> length (md_payload doc)
             then note_vec (payload_floats (md_payload doc))
                    (s\<lparr>en_indexed_dims := insort_insert (length (md_payload doc) div 4) (en_indexed_dims s)\<rparr>)
             else s
      | None \<Rightarrow>
          (case payload_floats_truncated (md_payload doc) of
             Some f \<Rightarrow> note_vec (Some f) (s\<lparr>en_bq := insert_f32 (en_bq s) did f\<rparr>)
           | None \<Rightarrow> s))"

definition index_doc :: "'s host \<Rightarrow> u64 \<Rightarrow> memory_doc \<Rightarrow> bytes \<Rightarrow> ('s, unit) op" where
  "index_doc h did doc sk =
     othen (omod (\<lambda>s. index_vector did doc (index_text (ho_alnum h) doc sk (index_ids did doc sk s))))
     (art_put sk did)"

section \<open>Writing a document\<close>

text \<open>The clock of an author moves past everything this engine has written.\<close>

definition author_clock :: "u8 \<Rightarrow> u64 \<Rightarrow> vector_clock \<Rightarrow> vector_clock" where
  "author_clock node watermark vc =
     (let vc = vc_tick vc node
      in if counter_of vc node \<le> watermark then set_counter vc node (saturating_inc watermark) else vc)"

definition tick_author :: "memory_doc \<Rightarrow> bool \<Rightarrow> ('s, memory_doc) op" where
  "tick_author doc tick_local s =
     (if tick_local
      then let vc = author_clock (en_node_id s) (en_watermark s) (md_clock doc)
           in (Inr (doc\<lparr>md_clock := vc\<rparr>), s\<lparr>en_watermark := counter_of vc (en_node_id s)\<rparr>)
      else (Inr doc, s))"

definition PREFIX_KEY :: string where
  "PREFIX_KEY = ''storage key is a prefix of an existing key (ART requires non-prefix keys)''"

definition unnote_old :: "'s host \<Rightarrow> memory_layer \<Rightarrow> bytes \<Rightarrow> 's engine \<Rightarrow> 's engine" where
  "unnote_old h layer sk s =
     (if \<not> carries_embedding layer then s
      else case sto_get h s sk of
        None \<Rightarrow> s
      | Some w \<Rightarrow>
          (case doc_decode w of
             Inr old \<Rightarrow> unnote_vec (payload_floats (md_payload old)) s
           | Inl _ \<Rightarrow> s))"

definition store_blob :: "'s host \<Rightarrow> memory_layer \<Rightarrow> bytes \<Rightarrow> bytes \<Rightarrow> ('s, unit) op" where
  "store_blob h layer sk blob =
     (if is_ram_layer layer
      then omod (\<lambda>s. s\<lparr>en_ram := bt_insert sk blob (en_ram s), en_ram_puts := saturating_inc (en_ram_puts s)\<rparr>)
      else sto_put h sk blob)"

definition put_inner :: "'s host \<Rightarrow> memory_doc \<Rightarrow> bool \<Rightarrow> ('s, u64) op" where
  "put_inner h doc tick_local =
     othen (guard_key (doc_key_problem (md_key doc)))
     (obind (tick_author doc tick_local) (\<lambda>doc.
      obind fresh_id (\<lambda>did.
      obind (oget (\<lambda>s. has_prefix_conflict (ho_avx2 h) (en_art s) (storage_key doc))) (\<lambda>conflict.
      if conflict then ofail (SE_Invalid PREFIX_KEY)
      else
        let sk = storage_key doc; blob = doc_encode doc in
        othen (omod (unnote_old h (md_layer doc) sk))
        (othen (store_blob h (md_layer doc) sk blob)
        (othen (persist_meta h sk doc tick_local)
        (othen (index_doc h did doc sk)
        (othen (omod (\<lambda>s. s\<lparr>en_puts := en_puts s + 1\<rparr>)) (oret did)))))))))"

definition engine_put :: "'s host \<Rightarrow> memory_doc \<Rightarrow> ('s, u64) op" where
  "engine_put h doc = put_inner h doc True"

definition put_operational :: "'s host \<Rightarrow> memory_doc \<Rightarrow> ('s, u64) op" where
  "put_operational h doc = put_inner h doc False"

definition put_companion :: "'s host \<Rightarrow> memory_doc \<Rightarrow> ('s, u64) op" where
  "put_companion h doc = obind (oget (\<lambda>s. s)) (\<lambda>s.
     put_inner h (doc\<lparr>md_clock := set_counter (md_clock doc) (en_node_id s) (en_watermark s)\<rparr>) False)"

definition remember_text :: "'s host \<Rightarrow> memory_layer \<Rightarrow> bytes \<Rightarrow> bytes \<Rightarrow> ('s, u64) op" where
  "remember_text h layer key text = engine_put h (doc_new layer key text)"

section \<open>State and validity\<close>

definition set_state :: "'s host \<Rightarrow> bytes \<Rightarrow> memory_state \<Rightarrow> ('s, unit) op" where
  "set_state h sk st =
     obind (if st \<noteq> Active then obind (get_by_storage_key h sk) (\<lambda>d. oret (d \<noteq> None)) else oret True) (\<lambda>found.
     if \<not> found then ofail (SE_Invalid ''set_state: no memory at key'')
     else
       othen (materialize_ram_doc h sk)
       (on_storage (\<lambda>st'. store_state (ho_backend h) st' sk st)))"

definition set_validity :: "'s host \<Rightarrow> bytes \<Rightarrow> u64 \<Rightarrow> u64 \<Rightarrow> ('s, unit) op" where
  "set_validity h sk from until =
     othen (materialize_ram_doc h sk)
     (on_storage (\<lambda>st. store_validity (ho_backend h) st sk from until))"

definition invalidate :: "'s host \<Rightarrow> bytes \<Rightarrow> u64 \<Rightarrow> ('s, unit) op" where
  "invalidate h sk now = obind (oget (\<lambda>s. validity_window (ho_backend h) (en_storage s) sk)) (\<lambda>w.
     set_validity h sk (case w of Some (from, _) \<Rightarrow> from | None \<Rightarrow> 0) now)"

end
