(* ===== verification/Engine_Ops.thy ===== *)
theory Engine_Ops
  imports Engine
begin

text \<open>
  The operations of \<open>src/src/engine.rs\<close> that work across the storage and the indexes: relations,
  physical deletion, the rebuild, replication records, the queries by clock, the fingerprint of the
  derived state and its snapshot.
\<close>

fun ofold :: "('a \<Rightarrow> 'b \<Rightarrow> ('s, 'b) op) \<Rightarrow> 'a list \<Rightarrow> 'b \<Rightarrow> ('s, 'b) op" where
  "ofold f [] acc s = (Inr acc, s)"
| "ofold f (x # xs) acc s = (case f x acc s of (Inl e, s') \<Rightarrow> (Inl e, s') | (Inr acc', s') \<Rightarrow> ofold f xs acc' s')"

definition art_del :: "bytes \<Rightarrow> ('s, unit) op" where
  "art_del k = omod (\<lambda>s. s\<lparr>en_art := fst (art_delete (en_art s) k)\<rparr>)"

section \<open>Relations\<close>

definition rel_storage_key :: "relation_kind \<Rightarrow> bytes \<Rightarrow> bytes \<Rightarrow> bytes" where
  "rel_storage_key kind a b = ascii ''sys/rel/'' @ relation_as_str kind @ ascii ''/'' @ a @ ascii ''#'' @ b"

definition rel_art_key :: "bool \<Rightarrow> relation_kind \<Rightarrow> bytes \<Rightarrow> bytes \<Rightarrow> bytes" where
  "rel_art_key back kind x y =
     (if back then ascii ''rev/'' else ascii ''rel/'') @ relation_as_str kind @ ascii ''/'' @ x @ ascii ''#'' @ y"

text \<open>\<open>str::strip_prefix\<close> and \<open>str::split_once\<close>.\<close>

definition strip_prefix :: "bytes \<Rightarrow> bytes \<Rightarrow> bytes option" where
  "strip_prefix p s = (if prefix p s then Some (drop (length p) s) else None)"

definition split_once :: "u8 \<Rightarrow> bytes \<Rightarrow> (bytes \<times> bytes) option" where
  "split_once c s =
     (if c \<in> set s then Some (takeWhile (\<lambda>b. b \<noteq> c) s, tl (dropWhile (\<lambda>b. b \<noteq> c) s)) else None)"

definition parse_rel_storage_key :: "bytes \<Rightarrow> (relation_kind \<times> bytes \<times> bytes) option" where
  "parse_rel_storage_key s =
     Option.bind (strip_prefix (ascii ''sys/rel/'') s) (\<lambda>rest.
     Option.bind (split_once (of_char CHR ''/'') rest) (\<lambda>(kind_str, pair).
     Option.bind (relation_from_str kind_str) (\<lambda>kind.
     Option.bind (split_once (of_char CHR ''#'') pair) (\<lambda>(a, b).
     Some (kind, a, b)))))"

definition PREFIX_REL :: string where
  "PREFIX_REL = ''relation key is a prefix of an existing key (ART requires non-prefix keys)''"

definition associate :: "'s host \<Rightarrow> bytes \<Rightarrow> relation_kind \<Rightarrow> bytes \<Rightarrow> ('s, unit) op" where
  "associate h a rel b =
     othen (guard_key (rel_key_problem a))
     (othen (guard_key (rel_key_problem b))
     (obind (oget en_art) (\<lambda>t.
      let fwd = rel_art_key False rel a b; bwd = rel_art_key True rel b a in
      if has_prefix_conflict (ho_avx2 h) t fwd \<or> has_prefix_conflict (ho_avx2 h) t bwd
      then ofail (SE_Invalid PREFIX_REL)
      else
        othen (sto_put h (rel_storage_key rel a b) [0])
        (othen (art_put fwd 0) (art_put bwd 0)))))"

definition rel_prefix :: "bool \<Rightarrow> relation_kind \<Rightarrow> bytes \<Rightarrow> bytes" where
  "rel_prefix back kind key =
     (if back then ascii ''rev/'' else ascii ''rel/'') @ relation_as_str kind @ ascii ''/'' @ key @ ascii ''#''"

definition targets :: "art \<Rightarrow> bytes \<Rightarrow> bytes list" where
  "targets t p = List.map_filter (\<lambda>(k, _). strip_prefix p k) (scan_prefix t p)"

definition relations_outgoing :: "'s engine \<Rightarrow> relation_kind \<Rightarrow> bytes \<Rightarrow> bytes list" where
  "relations_outgoing s kind key = sort (targets (en_art s) (rel_prefix False kind key))"

definition related_to :: "'s engine \<Rightarrow> bytes \<Rightarrow> (relation_kind \<times> bytes) list" where
  "related_to s key =
     sort_key (\<lambda>(k, t). (relation_u8 k, t))
       (concat (map (\<lambda>kind.
          map (Pair kind) (targets (en_art s) (rel_prefix False kind key)) @
          map (Pair kind) (targets (en_art s) (rel_prefix True kind key))) ALL_RELATIONS))"

definition remove_outgoing :: "'s host \<Rightarrow> bytes \<Rightarrow> relation_kind \<Rightarrow> bytes \<Rightarrow> ('s, unit) op" where
  "remove_outgoing h key kind k =
     (case strip_prefix (rel_prefix False kind key) k of
        Some b \<Rightarrow>
          othen (sto_del h (rel_storage_key kind key b)) (othen (art_del k) (art_del (rel_art_key True kind b key)))
      | None \<Rightarrow> art_del k)"

definition remove_incoming :: "'s host \<Rightarrow> bytes \<Rightarrow> relation_kind \<Rightarrow> bytes \<Rightarrow> ('s, unit) op" where
  "remove_incoming h key kind k =
     (case strip_prefix (rel_prefix True kind key) k of
        Some a \<Rightarrow>
          othen (sto_del h (rel_storage_key kind a key)) (othen (art_del k) (art_del (rel_art_key False kind a key)))
      | None \<Rightarrow> art_del k)"

definition remove_kind :: "'s host \<Rightarrow> bytes \<Rightarrow> relation_kind \<Rightarrow> ('s, unit) op" where
  "remove_kind h key kind =
     othen (obind (oget (\<lambda>s. map fst (scan_prefix (en_art s) (rel_prefix False kind key))))
             (oseq (remove_outgoing h key kind)))
           (obind (oget (\<lambda>s. map fst (scan_prefix (en_art s) (rel_prefix True kind key))))
             (oseq (remove_incoming h key kind)))"

definition remove_relations_for :: "'s host \<Rightarrow> bytes \<Rightarrow> ('s, unit) op" where
  "remove_relations_for h key = oseq (remove_kind h key) ALL_RELATIONS"

definition relation_problem :: "'s host \<Rightarrow> 's engine \<Rightarrow> bytes \<times> bytes \<Rightarrow> (bytes \<times> string) option" where
  "relation_problem h s = (\<lambda>(kb, vb). let sk = utf8_lossy kb in
     case parse_rel_storage_key sk of
       None \<Rightarrow> Some (sk, ''malformed relation key'')
     | Some (kind, a, b) \<Rightarrow>
         if a = [] \<or> b = [] then Some (sk, ''malformed relation key'')
         else if (case vb of [] \<Rightarrow> True | x # _ \<Rightarrow> x \<noteq> 0) then Some (sk, ''unknown relation encoding'')
         else if art_get (ho_avx2 h) (en_art s) (rel_art_key False kind a b) = None \<or>
                 art_get (ho_avx2 h) (en_art s) (rel_art_key True kind b a) = None
         then Some (sk, ''relation missing derived ART entry'')
         else None)"

definition validate_relations :: "'s host \<Rightarrow> 's engine \<Rightarrow> (bytes \<times> string) list" where
  "validate_relations h s =
     List.map_filter (relation_problem h s) (be_scan (ho_backend h) (en_storage s) (ascii ''sys/rel/''))"

section \<open>Deletion\<close>

definition key_carries_embedding :: "bytes \<Rightarrow> bool" where
  "key_carries_embedding sk \<longleftrightarrow> prefix (ascii ''md/L4/'') sk \<or> prefix (ascii ''md/L5/'') sk"

definition unnote_dead :: "bytes \<Rightarrow> bytes option \<Rightarrow> 's engine \<Rightarrow> 's engine" where
  "unnote_dead sk old s =
     (case old of
        None \<Rightarrow> s
      | Some w \<Rightarrow>
          if key_carries_embedding sk
          then (case doc_decode w of Inr d \<Rightarrow> unnote_vec (payload_floats (md_payload d)) s | Inl _ \<Rightarrow> s)
          else s)"

definition drop_clock_key :: "bytes \<Rightarrow> u8 \<times> u64 \<Rightarrow> ((u8 \<times> u64) \<times> bytes list) list \<Rightarrow> ((u8 \<times> u64) \<times> bytes list) list" where
  "drop_clock_key sk nc m =
     (case bt_get m nc of
        None \<Rightarrow> m
      | Some ks \<Rightarrow>
          let ks' = filter (\<lambda>k. k \<noteq> sk) ks
          in if ks' = [] then bt_remove nc m else bt_insert nc ks' m)"

text \<open>The ids and the clock entries of a dead key, through the reverse indexes.\<close>

definition unlink_key :: "bytes \<Rightarrow> 's engine \<Rightarrow> 's engine" where
  "unlink_key sk s =
     (let dead = unwrap_or (bt_get (en_sk_ids s) sk) [];
          entries = unwrap_or (bt_get (en_sk_clocks s) sk) []
      in s\<lparr>en_sk_ids := bt_remove sk (en_sk_ids s),
           en_id_to_sk := fold bt_remove dead (en_id_to_sk s),
           en_sk_clocks := bt_remove sk (en_sk_clocks s),
           en_clock_index := fold (drop_clock_key sk) entries (en_clock_index s)\<rparr>)"

definition delete_meta_rows :: "'s host \<Rightarrow> bytes \<Rightarrow> ('s, unit) op" where
  "delete_meta_rows h sk = obind (oget (\<lambda>s. read_meta (ho_backend h) (en_storage s) sk)) (\<lambda>m.
     othen (case m of Some m \<Rightarrow> sto_del h (version_row_key (mm_version_id m)) | None \<Rightarrow> oret ())
     (othen (omod (remove_entities_exact sk (case m of Some m \<Rightarrow> mm_entities m | None \<Rightarrow> [])))
     (sto_del h (meta_key sk))))"

definition engine_delete :: "'s host \<Rightarrow> bytes \<Rightarrow> ('s, bool) op" where
  "engine_delete h sk = obind (oget (\<lambda>s. s)) (\<lambda>s.
     let old = sto_get h s sk; existed = (bt_get (en_ram s) sk \<noteq> None \<or> old \<noteq> None) in
     othen (omod (unnote_dead sk old))
     (othen (sto_del h sk)
     (othen (omod (\<lambda>s. s\<lparr>en_ram := bt_remove sk (en_ram s)\<rparr>))
     (othen (sto_del h (state_key sk))
     (othen (sto_del h (validity_key sk))
     (othen (sto_del h (ttl_key sk))
     (othen (sto_del h (event_key sk))
     (othen (delete_meta_rows h sk)
     (othen (art_del sk)
     (othen (omod (\<lambda>s. s\<lparr>en_lexical := lx_remove (en_lexical s) sk\<rparr>))
     (othen (remove_relations_for h sk)
     (othen (omod (unlink_key sk))
     (oret existed)))))))))))))"

section \<open>Rebuild\<close>

definition raise_watermark :: "u64 \<Rightarrow> 's engine \<Rightarrow> 's engine" where
  "raise_watermark c s = (if c > en_watermark s then s\<lparr>en_watermark := c\<rparr> else s)"

definition reindex_row :: "'s host \<Rightarrow> bytes \<times> bytes \<Rightarrow> nat \<Rightarrow> ('s, nat) op" where
  "reindex_row h = (\<lambda>(sk, w) n.
     case doc_decode w of
       Inl _ \<Rightarrow> oret n
     | Inr doc \<Rightarrow>
         obind fresh_id (\<lambda>did.
         othen (index_doc h did doc sk)
         (othen (omod (\<lambda>s. raise_watermark (counter_of (md_clock doc) (en_node_id s)) s))
         (oret (n + 1)))))"

definition storage_row :: "'s host \<Rightarrow> bytes \<times> bytes \<Rightarrow> nat \<Rightarrow> ('s, nat) op" where
  "storage_row h = (\<lambda>(k, w) n. let sk = utf8_lossy k in
     obind (oget (\<lambda>s. bt_get (en_ram s) sk)) (\<lambda>r.
       case r of Some _ \<Rightarrow> oret n | None \<Rightarrow> reindex_row h (sk, w) n))"

definition meta_row :: "'s host \<Rightarrow> bytes \<times> bytes \<Rightarrow> ('s, unit) op" where
  "meta_row h = (\<lambda>(mk, w).
     case meta_decode w of
       Inl _ \<Rightarrow> oret ()
     | Inr m \<Rightarrow>
         let sk = utf8_lossy (drop 9 mk) in
         othen (omod (\<lambda>s. fold (\<lambda>(n, c) s. if n = en_node_id s then raise_watermark c s else s) (mm_clock_overflow m) s))
         (othen (sto_put h (version_row_key (mm_version_id m)) (encode_version_entry sk m))
         (omod (reindex_entities sk m))))"

definition relation_row :: "bytes \<times> bytes \<Rightarrow> ('s, unit) op" where
  "relation_row = (\<lambda>(k, _).
     case parse_rel_storage_key (utf8_lossy k) of
       None \<Rightarrow> oret ()
     | Some (kind, a, b) \<Rightarrow>
         othen (art_put (rel_art_key False kind a b) 0) (art_put (rel_art_key True kind b a) 0))"

definition clear_indices :: "'s engine \<Rightarrow> 's engine" where
  "clear_indices s =
     s\<lparr>en_art := art_clear (en_art s), en_bq := bq_clear (en_bq s), en_lexical := lx_new,
       en_entity_index := [], en_id_to_sk := [], en_clock_index := [], en_sk_clocks := [],
       en_sk_ids := [], en_indexed_dims := [], en_corpus_counts := []\<rparr>"

definition scan_rows :: "'s host \<Rightarrow> string \<Rightarrow> ('s, (bytes \<times> bytes) list) op" where
  "scan_rows h p = oget (\<lambda>s. be_scan (ho_backend h) (en_storage s) (ascii p))"

definition rebuild_indices :: "'s host \<Rightarrow> ('s, nat) op" where
  "rebuild_indices h =
     othen (omod (\<lambda>s. (clear_indices s)\<lparr>en_watermark := 0\<rparr>))
     (obind (oget en_ram) (\<lambda>ram.
      obind (ofold (reindex_row h) ram 0) (\<lambda>n.
      obind (scan_rows h ''md/'') (\<lambda>rows.
      obind (ofold (storage_row h) rows n) (\<lambda>n.
      obind (scan_rows h ''sys/meta/'') (\<lambda>metas.
      othen (oseq (meta_row h) metas)
      (obind (scan_rows h ''sys/rel/'') (\<lambda>rels.
      othen (oseq relation_row rels)
      (oret n)))))))))"

section \<open>Replication records\<close>

definition export_record :: "'s host \<Rightarrow> bytes \<Rightarrow> ('s, memory_record option) op" where
  "export_record h sk = obind (get_by_storage_key h sk) (\<lambda>d.
     case d of
       None \<Rightarrow> oret None
     | Some doc \<Rightarrow> oget (\<lambda>s. Some \<lparr>mr_doc = doc, mr_state = get_state (ho_backend h) (en_storage s) sk,
         mr_validity = validity_window (ho_backend h) (en_storage s) sk\<rparr>))"

text \<open>The author of a document without metadata: the highest counter, the lowest node among equals.\<close>

definition author_step :: "u8 \<times> u64 \<Rightarrow> u8 \<times> u64 \<Rightarrow> u8 \<times> u64" where
  "author_step = (\<lambda>(n, c) (author, maxc). if c > maxc \<or> c = maxc \<and> n < author then (n, c) else (author, maxc))"

definition meta_for_import :: "memory_doc \<Rightarrow> memory_meta" where
  "meta_for_import doc =
     (case fold author_step (vc_entries (md_clock doc)) (0, 0) of (author, maxc) \<Rightarrow>
        let m = (first_meta author maxc (md_layer doc) (generate_memory_id author maxc (md_layer doc) (md_key doc)))
              \<lparr>mm_clock_overflow := vc_overflow (md_clock doc)\<rparr>
        in case md_meta doc of
             None \<Rightarrow> m
           | Some d \<Rightarrow> m\<lparr>mm_scope := mm_scope d, mm_entities := mm_entities d, mm_content_type := mm_content_type d,
               mm_scope_dims := mm_scope_dims d, mm_model_id := mm_model_id d, mm_authority := mm_authority d\<rparr>)"

definition import_record :: "'s host \<Rightarrow> memory_record \<Rightarrow> ('s, u64) op" where
  "import_record h rec =
     (let doc = (if md_meta (mr_doc rec) = None
                 then (mr_doc rec)\<lparr>md_meta := Some (meta_for_import (mr_doc rec))\<rparr> else mr_doc rec);
          sk = storage_key doc
      in obind (put_inner h doc False) (\<lambda>did.
         othen (set_state h sk (mr_state rec))
         (othen (case mr_validity rec of
                   Some (from, until) \<Rightarrow> set_validity h sk from until
                 | None \<Rightarrow> set_validity h sk 0 0)
         (oret did))))"

section \<open>Queries\<close>

definition storage_key_of :: "'s engine \<Rightarrow> u64 \<Rightarrow> bytes option" where
  "storage_key_of s did = bt_get (en_id_to_sk s) did"

definition keys_for_clock :: "'s engine \<Rightarrow> u8 \<Rightarrow> u64 \<Rightarrow> bytes list" where
  "keys_for_clock s node counter = unwrap_or (bt_get (en_clock_index s) (node, counter)) []"

text \<open>\<open>range((node, since + 1)..=(node, u64::MAX))\<close>: the addition overflows at the last counter.\<close>

definition keys_since_clock :: "'s engine \<Rightarrow> u8 \<Rightarrow> u64 \<Rightarrow> bytes list result" where
  "keys_since_clock s node since =
     (if since = u64_max then Inl Panic
      else Inr (concat (map snd (filter (\<lambda>((n, c), _). n = node \<and> since + 1 \<le> c) (en_clock_index s)))))"

definition reclaim_bq_orphans :: "nat \<Rightarrow> 's engine \<Rightarrow> (stop + nat) \<times> 's engine" where
  "reclaim_bq_orphans threshold s =
     (let live = length (filter (\<lambda>d. bt_get (en_id_to_sk s) d \<noteq> None) (bq_ids (en_bq s)));
          orphans = length (bq_ids (en_bq s)) - live
      in if orphans = 0 then (Inr 0, s)
         else if threshold > 0 \<and> orphans < threshold then (Inr 0, s)
         else case retain (en_bq s) (\<lambda>d. bt_get (en_id_to_sk s) d \<noteq> None) of
           Inl _ \<Rightarrow> (Inl Panics, s)
         | Inr (ix, n) \<Rightarrow> (Inr n, s\<lparr>en_bq := ix\<rparr>))"

text \<open>The merge of the two candidate lists: the smaller distance of an id wins.\<close>

definition merge_candidate :: "u64 \<times> u32 \<Rightarrow> (u64 \<times> u32) list \<Rightarrow> (u64 \<times> u32) list" where
  "merge_candidate = (\<lambda>(did, d) m.
     bt_insert did (case bt_get m did of Some e \<Rightarrow> if d < e then d else e | None \<Rightarrow> d) m)"

definition dual_top_k :: "cpu \<Rightarrow> dispatch \<Rightarrow> bq \<Rightarrow> u32 list option \<Rightarrow> u32 list \<Rightarrow> nat \<Rightarrow> (u64 \<times> u32) list result" where
  "dual_top_k c s ix mean query k =
     and_then (top_k_f32 c s ix query k) (\<lambda>plain.
       case mean of
         None \<Rightarrow> Inr plain
       | Some m \<Rightarrow>
           and_then (top_k_f32_minus_mean c s ix query m k) (\<lambda>centered.
             if centered = [] then Inr plain
             else Inr (take (max (k * 2) 1)
               (sort_key (\<lambda>(did, d). (d, did)) (fold merge_candidate (plain @ centered) [])))))"

section \<open>Fingerprint\<close>

definition bq_row :: "bq \<Rightarrow> nat \<Rightarrow> u64 list" where
  "bq_row ix i =
     (let w = words_per_vec ix; off = min (i * w) (length (bq_flat ix)); fin = min (off + w) (length (bq_flat ix))
      in take (fin - off) (drop off (bq_flat ix)))"

text \<open>The vectors whose id still resolves to a storage key.\<close>

definition live_vectors :: "'s engine \<Rightarrow> (bytes \<times> u64 list) list" where
  "live_vectors s =
     List.map_filter (\<lambda>(i, did). case bt_get (en_id_to_sk s) did of
         Some sk \<Rightarrow> Some (sk, bq_row (en_bq s) i) | None \<Rightarrow> None)
       (List.enumerate 0 (bq_ids (en_bq s)))"

definition fp_list :: "('a \<Rightarrow> u64 \<Rightarrow> u64) \<Rightarrow> 'a list \<Rightarrow> u64 \<Rightarrow> u64" where
  "fp_list mix xs h = fold mix xs (fp_mix_u64 h (of_nat (length xs)))"

definition index_fingerprint :: "'s engine \<Rightarrow> u64" where
  "index_fingerprint s =
     (let h = fp_list (\<lambda>k h. fp_mix_str h k) (sort (map fst (scan_prefix (en_art s) []))) FP_SEED;
          h = fp_mix_u64 h (of_nat (words_per_vec (en_bq s)));
          h = fp_list (\<lambda>(sk, ws) h. fold (\<lambda>w h. fp_mix_u64 h w) ws (fp_mix_str h sk))
                (sort_key fst (live_vectors s)) h;
          h = fp_list (\<lambda>d h. fp_mix_u64 h (of_nat d)) (en_indexed_dims s) h;
          h = fp_mix_into (en_lexical s) h;
          h = fp_list (\<lambda>(e, ks) h. fp_list (\<lambda>k h. fp_mix_str h k) (sort ks) (fp_mix_str h e)) (en_entity_index s) h
      in fp_list (\<lambda>(d, c) h. fp_mix_u64 (fp_mix_u64 h (of_nat d)) c) (en_corpus_counts s) h)"

section \<open>Snapshot and fast mount\<close>

definition IDX_SNAPSHOT_KEY :: bytes where
  "IDX_SNAPSHOT_KEY = ascii ''sys/idx/snapshot''"

definition collect_index_snapshot :: "'s engine \<Rightarrow> index_snapshot" where
  "collect_index_snapshot s =
     \<lparr>is_art_keys = map fst (scan_prefix (en_art s) []),
      is_entity_index = map (\<lambda>(e, ks). (e, sort ks)) (en_entity_index s),
      is_indexed_dims = en_indexed_dims s,
      is_corpus_counts = en_corpus_counts s,
      is_bq_words_per_vec = of_nat (words_per_vec (en_bq s)),
      is_bq_live = of_nat (length (filter (\<lambda>d. bt_get (en_id_to_sk s) d \<noteq> None) (bq_ids (en_bq s)))),
      is_fingerprint = index_fingerprint s,
      is_written_at = 0,
      is_lexical_postings = snapshot_postings (en_lexical s),
      is_lexical_doc_len = snapshot_doc_len (en_lexical s),
      is_lexical_n_docs = lx_n_docs (en_lexical s),
      is_bq_entries = live_vectors s\<rparr>"

definition persist_index_snapshot :: "'s host \<Rightarrow> u64 \<Rightarrow> ('s, unit) op" where
  "persist_index_snapshot h now = obind (oget (\<lambda>s. idx_encode ((collect_index_snapshot s)\<lparr>is_written_at := now\<rparr>))) (\<lambda>blob.
     case idx2_split blob now IDX2_CHUNK_LEN of (header, parts) \<Rightarrow>
       othen (sto_put h IDX_SNAPSHOT_KEY (idx2_encode header))
       (oseq (\<lambda>(i, p). sto_put h (idx2_part_key i) p) (List.enumerate 0 parts)))"

text \<open>The blob behind the snapshot key: the pages of an IDX2 header, or the bytes themselves.\<close>

definition snapshot_blob :: "'s host \<Rightarrow> 's engine \<Rightarrow> bytes option" where
  "snapshot_blob h s =
     (case sto_get h s IDX_SNAPSHOT_KEY of
        None \<Rightarrow> None
      | Some raw \<Rightarrow>
          if 4 \<le> length raw \<and> take 4 raw = IDX2_MAGIC
          then (case idx2_decode raw of
                  None \<Rightarrow> None
                | Some header \<Rightarrow>
                    idx2_join header (map (\<lambda>i. sto_get h s (idx2_part_key i)) [0..<unat (ih_n_parts header)]))
          else Some raw)"

definition mount_key :: "bytes \<Rightarrow> ('s, unit) op" where
  "mount_key sk = obind fresh_id (\<lambda>did.
     othen (art_put sk did) (omod (\<lambda>s. s\<lparr>en_id_to_sk := bt_insert did sk (en_id_to_sk s)\<rparr>)))"

definition mount_vector :: "bytes \<times> u64 list \<Rightarrow> ('s, unit) op" where
  "mount_vector = (\<lambda>(sk, words). obind fresh_id (\<lambda>did.
     omod (\<lambda>s. s\<lparr>en_bq := bq_insert (en_bq s) did words,
                 en_id_to_sk := (case bt_get (en_id_to_sk s) did of
                   Some _ \<Rightarrow> en_id_to_sk s | None \<Rightarrow> bt_insert did sk (en_id_to_sk s))\<rparr>)))"

definition mount_tables :: "'s host \<Rightarrow> index_snapshot \<Rightarrow> 's engine \<Rightarrow> 's engine" where
  "mount_tables h snap s =
     (let s = s\<lparr>en_entity_index := fold (\<lambda>(e, ks). bt_insert e ks) (is_entity_index snap) (en_entity_index s),
                en_indexed_dims := fold insort_insert (is_indexed_dims snap) (en_indexed_dims s),
                en_corpus_counts := fold (\<lambda>(d, c). bt_insert d c) (is_corpus_counts snap) (en_corpus_counts s)\<rparr>;
          s = (if is_corpus_counts snap \<noteq> [] then s\<lparr>en_corpus_counts := recompute_corpus_counts h s\<rparr> else s)
      in s\<lparr>en_bq := (en_bq s)\<lparr>words_per_vec := unat (is_bq_words_per_vec snap)\<rparr>\<rparr>)"

definition mount_lexical :: "index_snapshot \<Rightarrow> 's engine \<Rightarrow> 's engine" where
  "mount_lexical snap s =
     s\<lparr>en_lexical := restore_n_docs
        (fold (\<lambda>(d, l) ix. restore_doc_len ix d l) (is_lexical_doc_len snap)
          (fold (\<lambda>(t, docs) ix. restore_postings ix t (fold (\<lambda>(d, tf). bt_insert d tf) docs []))
            (is_lexical_postings snap) (en_lexical s)))
        (is_lexical_n_docs snap)\<rparr>"

definition try_mount_index_snapshot :: "'s host \<Rightarrow> ('s, nat option) op" where
  "try_mount_index_snapshot h = obind (oget (snapshot_blob h)) (\<lambda>blob.
     case blob of
       None \<Rightarrow> oret None
     | Some raw \<Rightarrow>
         (case idx_decode raw of
            Inl _ \<Rightarrow> oret None
          | Inr snap \<Rightarrow>
              othen (omod clear_indices)
              (othen (oseq mount_key (is_art_keys snap))
              (othen (omod (mount_tables h snap))
              (othen (oseq mount_vector (is_bq_entries snap))
              (othen (omod (mount_lexical snap))
              (obind (oget index_fingerprint) (\<lambda>fp.
                 if fp \<noteq> is_fingerprint snap
                 then othen (omod (\<lambda>s. s\<lparr>en_art := art_clear (en_art s), en_entity_index := [],
                        en_id_to_sk := [], en_indexed_dims := [], en_corpus_counts := []\<rparr>)) (oret None)
                 else oret (Some (length (is_art_keys snap)))))))))))"

end
