(* ===== verification/Engine_Spec.thy ===== *)
theory Engine_Spec
  imports Engine_Ops
begin

text \<open>
  Total correctness of engine operations: \<open>does m s P\<close> says that the operation ends with a value and
  that the value and the state after it satisfy \<open>P\<close>.  The rules walk an operation from left to
  right; those for the storage hold in the locale \<open>engine_store\<close>, over any backend.
\<close>

definition does :: "('s, 'a) op \<Rightarrow> 's engine \<Rightarrow> ('a \<Rightarrow> 's engine \<Rightarrow> bool) \<Rightarrow> bool" where
  "does m s P \<longleftrightarrow> (case m s of (Inr x, s') \<Rightarrow> P x s' | (Inl _, _) \<Rightarrow> False)"

named_theorems walk \<open>rules that walk through an operation\<close>

lemma doesE: "does m s P \<Longrightarrow> (\<And>x s'. m s = (Inr x, s') \<Longrightarrow> P x s' \<Longrightarrow> thesis) \<Longrightarrow> thesis"
  by (auto simp: does_def split: prod.splits sum.splits)

lemma does_mono: "does m s P \<Longrightarrow> (\<And>x s'. P x s' \<Longrightarrow> Q x s') \<Longrightarrow> does m s Q"
  by (auto simp: does_def split: prod.splits sum.splits)

lemma does_ret [walk]: "P x s \<Longrightarrow> does (oret x) s P"
  by (simp add: does_def oret_def)

lemma does_bind [walk]: "does m s (\<lambda>x s'. does (f x) s' P) \<Longrightarrow> does (obind m f) s P"
  by (auto simp: does_def obind_def split: prod.splits sum.splits)

lemma does_then [walk]: "does m s (\<lambda>_ s'. does n s' P) \<Longrightarrow> does (othen m n) s P"
  unfolding othen_def by (rule does_bind)

lemma does_get [walk]: "P (g s) s \<Longrightarrow> does (oget g) s P"
  by (simp add: does_def oget_def)

lemma does_mod [walk]: "P () (g s) \<Longrightarrow> does (omod g) s P"
  by (simp add: does_def omod_def)

lemma does_fresh [walk]: "P (en_next_id s) (s\<lparr>en_next_id := en_next_id s + 1\<rparr>) \<Longrightarrow> does fresh_id s P"
  by (simp add: does_def fresh_id_def)

lemma does_guard [walk]: "p = None \<Longrightarrow> P () s \<Longrightarrow> does (guard_key p) s P"
  by (simp add: guard_key_def does_ret)

lemma does_art_del [walk]: "P () (s\<lparr>en_art := fst (art_delete (en_art s) k)\<rparr>) \<Longrightarrow> does (art_del k) s P"
  unfolding art_del_def by (rule does_mod)

lemma does_art_put:
  "art_insert (en_art s) k v = Inr t \<Longrightarrow> P () (s\<lparr>en_art := t\<rparr>) \<Longrightarrow> does (art_put k v) s P"
  by (simp add: does_def art_put_def)

lemma does_seq:
  assumes "I xs s" "\<And>x xs s. I (x # xs) s \<Longrightarrow> does (f x) s (\<lambda>_. I xs)" "\<And>s. I [] s \<Longrightarrow> P () s"
  shows "does (oseq f xs) s P"
  using assms(1)
proof (induction xs arbitrary: s)
  case Nil
  then show ?case using assms(3) by (simp add: does_def)
next
  case (Cons x xs)
  obtain s' where "f x s = (Inr (), s')" "I xs s'" using assms(2) [OF Cons.prems] by (auto elim: doesE)
  then show ?case using Cons.IH by (simp add: does_def)
qed

locale engine_store = backend_store inv view "ho_backend h" fits means
  for inv :: "'s \<Rightarrow> bool" and view and h :: "'s host" and fits means
begin

lemma does_put [walk]:
  assumes "inv (en_storage s)" "fits k v"
    and "\<And>st. inv st \<Longrightarrow> view st = (view (en_storage s))(k := means v) \<Longrightarrow> P () (s\<lparr>en_storage := st\<rparr>)"
  shows "does (sto_put h k v) s P"
  using put_ok [OF assms(1,2)] assms(3) by (auto simp: does_def sto_put_def on_storage_def)

lemma does_del [walk]:
  assumes "inv (en_storage s)" "fits k []"
    and "\<And>st. inv st \<Longrightarrow> view st = (view (en_storage s))(k := None) \<Longrightarrow> P () (s\<lparr>en_storage := st\<rparr>)"
  shows "does (sto_del h k) s P"
  using del_ok [OF assms(1,2)] assms(3) by (auto simp: does_def sto_del_def on_storage_def)

lemma sto_get_view: "inv (en_storage s) \<Longrightarrow> fits k [] \<Longrightarrow> sto_get h s k = view (en_storage s) k"
  by (simp add: sto_get_def get_view)

end

end
