(* ===== verification/Engine_Put.thy ===== *)
theory Engine_Put
  imports Engine_Spec
begin

text \<open>
  Writing and reading documents: a write is an update of the map from storage keys to documents, over
  any backend; a rejected write leaves storage and indexes alone; the clock of an author only grows.
\<close>

section \<open>The invariant\<close>

text \<open>Documents in RAM are of the layers L0 and L1.\<close>

definition ram_keys :: "(bytes \<times> bytes) list \<Rightarrow> bool" where
  "ram_keys m \<longleftrightarrow> bt_wf m \<and> (\<forall>k \<in> dom (bt_get m). prefix (ascii ''md/L0/'') k \<or> prefix (ascii ''md/L1/'') k)"

definition en_inv :: "('s \<Rightarrow> bool) \<Rightarrow> 's engine \<Rightarrow> bool" where
  "en_inv good s \<longleftrightarrow> good (en_storage s) \<and> art_inv (en_art s) \<and> ram_keys (en_ram s)"

lemma layer_ascii: "b \<in> set (layer_as_str l) \<Longrightarrow> b < 0x80"
  by (cases l) (auto simp: ascii_def)

lemma storage_key_utf8: "utf8_valid (md_key d) \<Longrightarrow> utf8_valid (storage_key d)"
proof -
  assume "utf8_valid (md_key d)"
  moreover have "utf8_valid (ascii ''md/'')" "utf8_valid (ascii ''/'')" "utf8_valid (layer_as_str (md_layer d))"
    by (rule utf8_valid_ascii; auto simp: ascii_def dest: layer_ascii)+
  ultimately show ?thesis unfolding storage_key_def by (intro utf8_valid_append)
qed

lemma storage_key_ram: "is_ram_layer (md_layer d) \<longleftrightarrow>
    prefix (ascii ''md/L0/'') (storage_key d) \<or> prefix (ascii ''md/L1/'') (storage_key d)"
  by (cases "md_layer d") (simp_all add: is_ram_layer_def storage_key_def ascii_def)

text \<open>The document after the tick, and the metadata that the write stores.\<close>

definition ticked :: "'s engine \<Rightarrow> memory_doc \<Rightarrow> bool \<Rightarrow> memory_doc" where
  "ticked s doc tick_local =
     (if tick_local then doc\<lparr>md_clock := author_clock (en_node_id s) (en_watermark s) (md_clock doc)\<rparr> else doc)"

definition stored_meta :: "'s host \<Rightarrow> 's engine \<Rightarrow> bytes \<Rightarrow> memory_doc \<Rightarrow> bool \<Rightarrow> memory_meta" where
  "stored_meta h s sk doc bump =
     (next_meta (en_node_id s) (read_meta (ho_backend h) (en_storage s) sk) doc bump)
       \<lparr>mm_clock_overflow := vc_overflow (md_clock doc)\<rparr>"

lemma ticked_simps [simp]:
  "md_key (ticked s doc t) = md_key doc" "md_layer (ticked s doc t) = md_layer doc"
  "md_payload (ticked s doc t) = md_payload doc" "md_bitvec (ticked s doc t) = md_bitvec doc"
  "md_meta (ticked s doc t) = md_meta doc" "storage_key (ticked s doc t) = storage_key doc"
  by (simp_all add: ticked_def storage_key_def)

text \<open>Indexing touches neither storage nor RAM.\<close>

definition same_store :: "'s engine \<Rightarrow> 's engine \<Rightarrow> bool" where
  "same_store s s' \<longleftrightarrow> en_storage s' = en_storage s \<and> en_ram s' = en_ram s \<and> en_art s' = en_art s \<and>
     en_node_id s' = en_node_id s \<and> en_watermark s' = en_watermark s \<and> en_next_id s' = en_next_id s"

lemma same_store_refl [simp]: "same_store s s"
  by (simp add: same_store_def)

lemma same_store_note [simp]:
  "same_store s (note_vec v s') = same_store s s'" "same_store s (unnote_vec v s') = same_store s s'"
  by (cases v; simp add: same_store_def note_vec_def unnote_vec_def)+

lemma same_store_unnote_old [simp]: "same_store s (unnote_old h l k s') = same_store s s'"
  by (auto simp: unnote_old_def split: option.splits sum.splits)

lemma same_store_index [simp]:
  "same_store s (index_ids did doc sk s') = same_store s s'"
  "same_store s (index_text alnum doc sk s') = same_store s s'"
  by (simp_all add: same_store_def index_ids_def index_text_def)

lemma same_store_vector [simp]: "same_store s (index_vector did doc s') = same_store s s'"
proof -
  have bq: "same_store s (s'\<lparr>en_bq := x\<rparr>) = same_store s s'" "same_store s (s'\<lparr>en_bq := x, en_indexed_dims := y\<rparr>) = same_store s s'" for x y
    by (simp_all add: same_store_def)
  show ?thesis by (auto simp: index_vector_def Let_def bq split: option.splits)
qed

lemma same_store_entities [simp]: "same_store s (reindex_entities sk m s') = same_store s s'"
  by (simp add: same_store_def reindex_entities_def)

lemma does_index_doc:
  assumes "art_inv (en_art s)" "utf8_valid sk" "\<not> has_prefix_conflict avx2 (en_art s) sk"
    and "\<And>s'. en_storage s' = en_storage s \<Longrightarrow> en_ram s' = en_ram s \<Longrightarrow> art_inv (en_art s') \<Longrightarrow>
      en_node_id s' = en_node_id s \<Longrightarrow> en_watermark s' = en_watermark s \<Longrightarrow> P () s'"
  shows "does (index_doc h did doc sk) s P"
proof -
  let ?s = "index_vector did doc (index_text (ho_alnum h) doc sk (index_ids did doc sk s))"
  have same: "same_store s ?s" by simp
  obtain t where t: "art_insert (en_art s) sk did = Inr t" "art_inv t"
    using guarded_insert [OF assms(1,2), of avx2 did] assms(3) by blast
  show ?thesis
    unfolding index_doc_def
    by (intro walk does_art_put [of _ _ _ t]) (use same t in \<open>auto simp: same_store_def intro!: assms(4)\<close>)
qed

section \<open>A write is an update of the map of documents\<close>

text \<open>The rows that a write puts into the storage are within the limits of the backend.\<close>

definition write_fits :: "(bytes \<Rightarrow> bytes \<Rightarrow> bool) \<Rightarrow> 's host \<Rightarrow> 's engine \<Rightarrow> memory_doc \<Rightarrow> bool \<Rightarrow> bool" where
  "write_fits fits h s doc tick_local \<longleftrightarrow>
     (let d = ticked s doc tick_local; sk = storage_key doc; m = stored_meta h s sk d tick_local
      in (\<not> is_ram_layer (md_layer doc) \<longrightarrow> fits sk (doc_encode d)) \<and>
         fits (version_row_key (mm_version_id m)) (encode_version_entry sk m) \<and>
         fits (meta_key sk) (meta_encode m))"

lemma ram_keys_insert:
  "ram_keys m \<Longrightarrow> prefix (ascii ''md/L0/'') k \<or> prefix (ascii ''md/L1/'') k \<Longrightarrow> ram_keys (bt_insert k v m)"
  by (auto simp: ram_keys_def)

lemma doc_encode_nonempty [simp]: "doc_encode d \<noteq> []"
  by (simp add: doc_encode_def MAGIC_def ascii_def)

lemma md_not_side [simp]:
  "prefix (ascii ''md/'') k \<Longrightarrow> k \<noteq> version_row_key v" "prefix (ascii ''md/'') k \<Longrightarrow> k \<noteq> meta_key x"
  by (auto simp: side_keys ascii_def prefix_def)

lemma side_not_md [simp]: "version_row_key v \<noteq> meta_key x"
  by (auto simp: side_keys ascii_def)

lemma storage_key_md [simp]: "prefix (ascii ''md/'') (storage_key d)"
  by (simp add: storage_key_def)

lemma does_run: "m s = (Inr x, s') \<Longrightarrow> P x s' \<Longrightarrow> does m s P"
  by (simp add: does_def)

lemma tick_author_run:
  "tick_author doc t s = (Inr (ticked s doc t), s\<lparr>en_watermark :=
     (if t then counter_of (md_clock (ticked s doc t)) (en_node_id s) else en_watermark s)\<rparr>)"
  by (simp add: tick_author_def ticked_def Let_def)

context engine_store
begin

lemma doc_blob_view:
  "inv (en_storage s) \<Longrightarrow> fits k [] \<Longrightarrow>
   doc_blob h s k = (case bt_get (en_ram s) k of Some w \<Rightarrow> Some w | None \<Rightarrow> view (en_storage s) k)"
  by (simp add: doc_blob_def sto_get_view split: option.split)

lemma read_meta_view:
  "inv st \<Longrightarrow> fits (meta_key sk) [] \<Longrightarrow>
   read_meta (ho_backend h) st sk =
     (case view st (meta_key sk) of
        Some w \<Rightarrow> (case meta_decode w of Inr m \<Rightarrow> Some m | Inl _ \<Rightarrow> None) | None \<Rightarrow> None)"
  by (simp add: read_meta_def get_view)

lemma does_store_blob:
  assumes inv: "inv (en_storage s)" "ram_keys (en_ram s)"
    and fit: "\<not> is_ram_layer layer \<Longrightarrow> fits sk blob" and blob: "blob \<noteq> []"
    and layer: "is_ram_layer layer \<longleftrightarrow> prefix (ascii ''md/L0/'') sk \<or> prefix (ascii ''md/L1/'') sk"
    and md: "prefix (ascii ''md/'') sk"
    and post: "\<And>s'. inv (en_storage s') \<Longrightarrow> ram_keys (en_ram s') \<Longrightarrow> en_art s' = en_art s \<Longrightarrow>
      en_node_id s' = en_node_id s \<Longrightarrow> en_watermark s' = en_watermark s \<Longrightarrow>
      (\<And>k. prefix (ascii ''md/'') k \<Longrightarrow> fits k [] \<Longrightarrow>
         doc_blob h s' k = (if k = sk then Some blob else doc_blob h s k)) \<Longrightarrow>
      (\<And>k. \<not> prefix (ascii ''md/'') k \<Longrightarrow> view (en_storage s') k = view (en_storage s) k) \<Longrightarrow> P () s'"
  shows "does (store_blob h layer sk blob) s P"
proof (cases "is_ram_layer layer")
  case True
  then show ?thesis
    using inv layer unfolding store_blob_def
    by (auto intro!: does_mod post ram_keys_insert simp: doc_blob_view ram_keys_def split: option.split)
next
  case False
  have none: "bt_get (en_ram s) sk = None" using inv(2) layer False by (auto simp: ram_keys_def)
  have "does (sto_put h sk blob) s P"
  proof (rule does_put [OF inv(1) fit [OF False]])
    fix st assume st: "inv st" "view st = (view (en_storage s))(sk := means blob)"
    show "P () (s\<lparr>en_storage := st\<rparr>)"
      using st inv none md means_some [OF blob]
      by (intro post) (auto simp: doc_blob_view split: option.splits)
  qed
  then show ?thesis using False by (simp add: store_blob_def)
qed

lemma does_persist_meta:
  assumes inv: "inv (en_storage s)"
    and fit: "fits (version_row_key (mm_version_id (stored_meta h s sk doc bump)))
        (encode_version_entry sk (stored_meta h s sk doc bump))"
      "fits (meta_key sk) (meta_encode (stored_meta h s sk doc bump))"
    and post: "\<And>s'. inv (en_storage s') \<Longrightarrow> en_ram s' = en_ram s \<Longrightarrow> en_art s' = en_art s \<Longrightarrow>
      en_node_id s' = en_node_id s \<Longrightarrow> en_watermark s' = en_watermark s \<Longrightarrow>
      view (en_storage s') (meta_key sk) = means (meta_encode (stored_meta h s sk doc bump)) \<Longrightarrow>
      (\<And>k. prefix (ascii ''md/'') k \<Longrightarrow> view (en_storage s') k = view (en_storage s) k) \<Longrightarrow> P () s'"
  shows "does (persist_meta h sk doc bump) s P"
  unfolding persist_meta_def Let_def stored_meta_def [symmetric]
  using inv fit by (intro walk) (auto simp: reindex_entities_def intro!: post)

lemma does_put_inner:
  assumes ok: "en_inv inv s" and key: "doc_key_problem (md_key doc) = None" "utf8_valid (md_key doc)"
    and free: "\<not> has_prefix_conflict (ho_avx2 h) (en_art s) (storage_key doc)"
    and fit: "write_fits fits h s doc tick_local"
  shows "does (put_inner h doc tick_local) s (\<lambda>did s'. did = en_next_id s \<and> en_inv inv s' \<and>
    en_watermark s' = (if tick_local then counter_of (md_clock (ticked s doc tick_local)) (en_node_id s) else en_watermark s) \<and>
    view (en_storage s') (meta_key (storage_key doc)) =
      means (meta_encode (stored_meta h s (storage_key doc) (ticked s doc tick_local) tick_local)) \<and>
    (\<forall>k. prefix (ascii ''md/'') k \<longrightarrow> fits k [] \<longrightarrow>
       doc_blob h s' k = (if k = storage_key doc then Some (doc_encode (ticked s doc tick_local)) else doc_blob h s k)))"
    (is "does _ _ ?Q")
proof -
  let ?sk = "storage_key doc" and ?d = "ticked s doc tick_local"
  let ?w = "if tick_local then counter_of (md_clock ?d) (en_node_id s) else en_watermark s"
  have inv: "inv (en_storage s)" "art_inv (en_art s)" "ram_keys (en_ram s)" using ok by (simp_all add: en_inv_def)
  have sk: "utf8_valid ?sk" using storage_key_utf8 [OF key(2)] .
  have fits_blob: "\<not> is_ram_layer (md_layer doc) \<Longrightarrow> fits ?sk (doc_encode ?d)"
    and fits_meta: "fits (version_row_key (mm_version_id (stored_meta h s ?sk ?d tick_local)))
        (encode_version_entry ?sk (stored_meta h s ?sk ?d tick_local))"
      "fits (meta_key ?sk) (meta_encode (stored_meta h s ?sk ?d tick_local))"
    using fit by (simp_all add: write_fits_def Let_def)
  define s1 where "s1 = s\<lparr>en_watermark := ?w, en_next_id := en_next_id s + 1\<rparr>"
  define s2 where "s2 = unnote_old h (md_layer doc) ?sk s1"
  have "same_store s1 s2" by (simp add: s2_def)
  then have s2: "en_storage s2 = en_storage s" "en_ram s2 = en_ram s" "en_art s2 = en_art s" "en_node_id s2 = en_node_id s"
    "en_watermark s2 = ?w" by (simp_all add: same_store_def s1_def)
  have blob2: "doc_blob h s2 k = doc_blob h s k" for k
    by (simp add: doc_blob_def sto_get_def s2 split: option.split)
  have store: "does (store_blob h (md_layer doc) ?sk (doc_encode ?d)) s2 (\<lambda>_ s3. inv (en_storage s3) \<and>
      ram_keys (en_ram s3) \<and> en_art s3 = en_art s \<and> en_node_id s3 = en_node_id s \<and> en_watermark s3 = ?w \<and>
      (\<forall>k. prefix (ascii ''md/'') k \<longrightarrow> fits k [] \<longrightarrow>
         doc_blob h s3 k = (if k = ?sk then Some (doc_encode ?d) else doc_blob h s k)) \<and>
      (\<forall>k. \<not> prefix (ascii ''md/'') k \<longrightarrow> view (en_storage s3) k = view (en_storage s) k))"
    using inv fits_blob storage_key_ram [of doc] by (intro does_store_blob) (auto simp: s2 blob2)
  have after: "does (othen (persist_meta h ?sk ?d tick_local) (othen (index_doc h (en_next_id s) ?d ?sk)
      (othen (omod (\<lambda>s. s\<lparr>en_puts := en_puts s + 1\<rparr>)) (oret (en_next_id s))))) s3 ?Q"
    if s3: "inv (en_storage s3)" "ram_keys (en_ram s3)" "en_art s3 = en_art s" "en_node_id s3 = en_node_id s"
      "en_watermark s3 = ?w"
      "\<forall>k. prefix (ascii ''md/'') k \<longrightarrow> fits k [] \<longrightarrow>
         doc_blob h s3 k = (if k = ?sk then Some (doc_encode ?d) else doc_blob h s k)"
      "\<forall>k. \<not> prefix (ascii ''md/'') k \<longrightarrow> view (en_storage s3) k = view (en_storage s) k" for s3
  proof -
    have "\<not> prefix (ascii ''md/'') (meta_key ?sk)" by (simp add: side_keys ascii_def prefix_def)
    then have "read_meta (ho_backend h) (en_storage s3) ?sk = read_meta (ho_backend h) (en_storage s) ?sk"
      using s3 inv(1) fits_key [OF fits_meta(2)] by (simp add: read_meta_view)
    then have m: "stored_meta h s3 ?sk ?d tick_local = stored_meta h s ?sk ?d tick_local"
      by (simp add: stored_meta_def s3)
    show ?thesis
    proof (rule does_then, rule does_persist_meta)
      show "inv (en_storage s3)" by (rule s3(1))
      show "fits (version_row_key (mm_version_id (stored_meta h s3 ?sk ?d tick_local)))
          (encode_version_entry ?sk (stored_meta h s3 ?sk ?d tick_local))"
        "fits (meta_key ?sk) (meta_encode (stored_meta h s3 ?sk ?d tick_local))"
        unfolding m by (rule fits_meta)+
      fix s4 :: "'s engine" assume s4: "inv (en_storage s4)" "en_ram s4 = en_ram s3" "en_art s4 = en_art s3"
        "en_node_id s4 = en_node_id s3" "en_watermark s4 = en_watermark s3"
        "view (en_storage s4) (meta_key ?sk) = means (meta_encode (stored_meta h s3 ?sk ?d tick_local))"
        "\<And>k. prefix (ascii ''md/'') k \<Longrightarrow> view (en_storage s4) k = view (en_storage s3) k"
      show "does (othen (index_doc h (en_next_id s) ?d ?sk)
          (othen (omod (\<lambda>s. s\<lparr>en_puts := en_puts s + 1\<rparr>)) (oret (en_next_id s)))) s4 ?Q"
      proof (rule does_then, rule does_index_doc [of _ _ "ho_avx2 h"])
        show "art_inv (en_art s4)" "\<not> has_prefix_conflict (ho_avx2 h) (en_art s4) ?sk"
          using inv(2) free by (simp_all add: s4 s3)
        show "utf8_valid ?sk" by (rule sk)
        fix s5 :: "'s engine" assume s5: "en_storage s5 = en_storage s4" "en_ram s5 = en_ram s4" "art_inv (en_art s5)"
          "en_node_id s5 = en_node_id s4" "en_watermark s5 = en_watermark s4"
        have blob: "doc_blob h s5 k = doc_blob h s3 k" if "prefix (ascii ''md/'') k" "fits k []" for k
          using that s4 s3(1) by (simp add: doc_blob_view s5 split: option.split)
        have "?Q (en_next_id s) (s5\<lparr>en_puts := en_puts s5 + 1\<rparr>)"
        proof (intro conjI allI impI)
          show "en_inv inv (s5\<lparr>en_puts := en_puts s5 + 1\<rparr>)" using s5 s4(1,2) s3(2) by (simp add: en_inv_def)
          show "en_watermark (s5\<lparr>en_puts := en_puts s5 + 1\<rparr>) = ?w" by (simp add: s5 s4(5) s3(5))
          show "view (en_storage (s5\<lparr>en_puts := en_puts s5 + 1\<rparr>)) (meta_key ?sk) =
              means (meta_encode (stored_meta h s ?sk ?d tick_local))"
            using s4(6) by (simp add: s5 m)
          fix k assume k: "prefix (ascii ''md/'') k" "fits k []"
          have "doc_blob h (s5\<lparr>en_puts := en_puts s5 + 1\<rparr>) k = doc_blob h s5 k"
            by (simp add: doc_blob_def sto_get_def split: option.split)
          then show "doc_blob h (s5\<lparr>en_puts := en_puts s5 + 1\<rparr>) k =
              (if k = ?sk then Some (doc_encode ?d) else doc_blob h s k)"
            using blob [OF k] s3(6) k by simp
        qed simp
        then show "does (othen (omod (\<lambda>s. s\<lparr>en_puts := en_puts s + 1\<rparr>)) (oret (en_next_id s))) s5 ?Q"
          by (intro does_then does_mod does_ret)
      qed
    qed
  qed
  have tail: "does (othen (omod (unnote_old h (md_layer doc) ?sk))
      (othen (store_blob h (md_layer doc) ?sk (doc_encode ?d))
      (othen (persist_meta h ?sk ?d tick_local) (othen (index_doc h (en_next_id s) ?d ?sk)
      (othen (omod (\<lambda>s. s\<lparr>en_puts := en_puts s + 1\<rparr>)) (oret (en_next_id s))))))) s1 ?Q"
    by (rule does_then, rule does_mod, fold s2_def, rule does_then, rule does_mono [OF store]) (use after in blast)
  have "put_inner h doc tick_local s = othen (omod (unnote_old h (md_layer doc) ?sk))
      (othen (store_blob h (md_layer doc) ?sk (doc_encode ?d))
      (othen (persist_meta h ?sk ?d tick_local) (othen (index_doc h (en_next_id s) ?d ?sk)
      (othen (omod (\<lambda>s. s\<lparr>en_puts := en_puts s + 1\<rparr>)) (oret (en_next_id s)))))) s1"
    using free by (simp add: put_inner_def key othen_def obind_def guard_key_def oret_def tick_author_run fresh_id_def
      oget_def Let_def s1_def)
  then show ?thesis using tail by (simp add: does_def)
qed

end

section \<open>Hosts\<close>

definition ram_host :: "(bytes \<Rightarrow> bool) \<Rightarrow> bool \<Rightarrow> in_memory host" where
  "ram_host alnum avx2 = \<lparr>ho_backend = ram_backend, ho_put_many = put_many in_memory_put,
     ho_alnum = alnum, ho_avx2 = avx2\<rparr>"

definition file_host :: "(bytes \<Rightarrow> bool) \<Rightarrow> bool \<Rightarrow> file_storage host" where
  "file_host alnum avx2 = \<lparr>ho_backend = file_backend, ho_put_many = fs_put_batch Append_ok,
     ho_alnum = alnum, ho_avx2 = avx2\<rparr>"

definition tickv_host :: "(bytes \<Rightarrow> bool) \<Rightarrow> bool \<Rightarrow> tickv_file host" where
  "tickv_host alnum avx2 = \<lparr>ho_backend = tickv_backend, ho_put_many = put_many (tv_put Inval_ok Append_ok),
     ho_alnum = alnum, ho_avx2 = avx2\<rparr>"

interpretation ram_engine: engine_store "\<lambda>s. bt_wf (im_map s)" "\<lambda>s. bt_get (im_map s)" "ram_host alnum avx2"
    "\<lambda>_ _. True" Some for alnum avx2
  unfolding engine_store_def ram_host_def by (simp add: ram_store.backend_store_axioms)

interpretation file_engine: engine_store fs_inv "\<lambda>s. bt_get (fs_map s)" "file_host alnum avx2" fs_fits fs_means
    for alnum avx2
  unfolding engine_store_def file_host_def by (simp add: file_store.backend_store_axioms)

interpretation tickv_engine: engine_store tv_inv "\<lambda>s. bt_get (tv_map s)" "tickv_host alnum avx2" tv_fits fs_means
    for alnum avx2
  unfolding engine_store_def tickv_host_def by (simp add: tickv_store.backend_store_axioms)

section \<open>Properties\<close>

lemma author_clock_counter:
  assumes "vc_wf vc" "node \<noteq> no_node"
  shows "vc_wf (author_clock node w vc) \<and> w \<le> counter_of (author_clock node w vc) node \<and>
    (w \<noteq> u64_max \<longrightarrow> w < counter_of (author_clock node w vc) node) \<and>
    (\<forall>m. m \<noteq> node \<longrightarrow> counter_of (author_clock node w vc) m = counter_of vc m)"
proof -
  have t: "vc_wf (vc_tick vc node)"
    using assms by (simp add: vc_tick_def Let_def vc_wf_set_counter)
  have sat: "w \<le> saturating_inc w" "w \<noteq> u64_max \<Longrightarrow> w < saturating_inc w"
    by (auto simp: saturating_inc_def u64_less_succ less_imp_le)
  show ?thesis
    using assms t sat
    by (auto simp: author_clock_def Let_def counter_of_set_counter vc_wf_set_counter counter_of_tick not_le)
qed

lemma doc_fits_ticked:
  "doc_fits doc \<Longrightarrow> vc_wf (md_clock doc) \<Longrightarrow> en_node_id s \<noteq> no_node \<Longrightarrow> doc_fits (ticked s doc t)"
  using author_clock_counter [of "md_clock doc" "en_node_id s" "en_watermark s"]
  by (auto simp: doc_fits_def ticked_def dest: vc_wf_lengths)

lemma attach_meta_fields:
  "md_payload (attach_meta h s sk d) = md_payload d" "md_bitvec (attach_meta h s sk d) = md_bitvec d"
  "md_key (attach_meta h s sk d) = md_key d" "md_layer (attach_meta h s sk d) = md_layer d"
  by (auto simp: attach_meta_def split: option.split)

lemma layer_key_storage: "layer_key (md_layer d) (md_key d) = storage_key d"
  by (simp add: layer_key_def storage_key_def)

lemma engine_get_stored:
  assumes "doc_blob h s sk = Some (doc_encode d)" "doc_fits d"
  shows "\<exists>r s'. get_by_storage_key h sk s = (Inr (Some r), s') \<and> md_payload r = md_payload d \<and>
    md_bitvec r = md_bitvec d \<and> md_key r = md_key d \<and> md_layer r = md_layer d"
proof -
  let ?s = "s\<lparr>en_gets := en_gets s + 1\<rparr>"
  have b: "doc_blob h ?s sk = Some (doc_encode d)"
    using assms(1) by (simp add: doc_blob_def sto_get_def split: option.split_asm)
  have "doc_decode (doc_encode d) = Inr (nmd1_part d)" using doc_decode_encode [OF assms(2), of "[]"] by simp
  then have "get_by_storage_key h sk s = (Inr (Some (attach_meta h ?s sk (nmd1_part d))), ?s)"
    using b by (simp add: get_by_storage_key_def othen_def obind_def omod_def oget_def oret_def)
  then show ?thesis by (simp add: attach_meta_fields nmd1_part_def)
qed

text \<open>C1: Writing a document over any backend: a write with an admissible key succeeds, keeps the
  invariant, updates the map from storage keys to documents at its key and nowhere else, and a read by
  layer and key returns the payload, the bit vector and the identity of what was written.\<close>

theorem write_updates_documents:
  assumes "backend_store good view (ho_backend h) fits means" and "en_inv good s"
    and "doc_key_problem (md_key doc) = None" "doc_fits doc" "vc_wf (md_clock doc)" "en_node_id s \<noteq> no_node"
    and "\<not> has_prefix_conflict (ho_avx2 h) (en_art s) (storage_key doc)"
    and "write_fits fits h s doc tick_local" "fits (storage_key doc) []"
  shows "\<exists>s' d s''. put_inner h doc tick_local s = (Inr (en_next_id s), s') \<and> en_inv good s' \<and>
    (\<forall>k. prefix (ascii ''md/'') k \<longrightarrow> fits k [] \<longrightarrow>
       doc_blob h s' k = (if k = storage_key doc then Some (doc_encode (ticked s doc tick_local)) else doc_blob h s k)) \<and>
    engine_get h (md_layer doc) (md_key doc) s' = (Inr (Some d), s'') \<and>
    md_payload d = md_payload doc \<and> md_bitvec d = md_bitvec doc \<and> md_key d = md_key doc \<and> md_layer d = md_layer doc"
proof -
  have e: "engine_store good view h fits means" using assms(1) by (simp add: engine_store_def)
  have "utf8_valid (md_key doc)" using assms(4) by (simp add: doc_fits_def)
  from engine_store.does_put_inner [OF e assms(2,3) this assms(7,8)]
  obtain s' where put: "put_inner h doc tick_local s = (Inr (en_next_id s), s')" "en_inv good s'"
    "\<forall>k. prefix (ascii ''md/'') k \<longrightarrow> fits k [] \<longrightarrow>
       doc_blob h s' k = (if k = storage_key doc then Some (doc_encode (ticked s doc tick_local)) else doc_blob h s k)"
    by (auto elim!: doesE)
  then have "doc_blob h s' (storage_key doc) = Some (doc_encode (ticked s doc tick_local))"
    using assms(9) by simp
  from engine_get_stored [OF this doc_fits_ticked [OF assms(4-6)]] put show ?thesis
    by (fastforce simp: engine_get_def layer_key_storage)
qed

definition first_doc :: memory_doc where
  "first_doc = doc_new L2EpisodicShort (ascii ''a'') [1, 2, 3]"

definition empty_engine :: "in_memory engine" where
  "empty_engine = engine_new 1 1 in_memory_new"

lemma empty_engine_inv: "en_inv (\<lambda>s. bt_wf (im_map s)) empty_engine"
  by (simp add: en_inv_def empty_engine_def engine_new_def in_memory_new_def art_new_def art_inv_def ram_keys_def
    art_map_empty)

lemma first_doc_ok:
  "doc_key_problem (md_key first_doc) = None" "doc_fits first_doc" "vc_wf (md_clock first_doc)"
  "\<not> has_prefix_conflict avx2 (en_art empty_engine) (storage_key first_doc)"
  "en_node_id empty_engine \<noteq> no_node"
  by (simp_all add: first_doc_def doc_new_def doc_key_problem_def key_problem_def ascii_def doc_fits_def utf8_valid.simps(2)
    vc_wf_new empty_engine_def engine_new_def has_prefix_conflict_def art_new_def no_node_def)
    (simp add: vc_new_def)

theorem write_updates_documents_witness:
  "\<exists>s' d s''. put_inner (ram_host (\<lambda>_. False) False) first_doc True empty_engine = (Inr 1, s') \<and>
    engine_get (ram_host (\<lambda>_. False) False) L2EpisodicShort (ascii ''a'') s' = (Inr (Some d), s'') \<and>
    md_payload d = [1, 2, 3]"
proof -
  have st: "backend_store (\<lambda>s. bt_wf (im_map s)) (\<lambda>s. bt_get (im_map s)) (ho_backend (ram_host (\<lambda>_. False) False))
      (\<lambda>_ _. True) Some"
    by (simp add: ram_host_def ram_store.backend_store_axioms)
  have "write_fits (\<lambda>_ _. True) (ram_host (\<lambda>_. False) False) empty_engine first_doc True"
    by (simp add: write_fits_def Let_def)
  from write_updates_documents [OF st empty_engine_inv first_doc_ok(1-3,5,4) this]
  show ?thesis by (auto simp: first_doc_def doc_new_def empty_engine_def engine_new_def)
qed

text \<open>C21: A rejected write: with an inadmissible key the engine is exactly as before, and with a key
  that conflicts in the radix tree only the watermark and the supply of ids have moved: storage, RAM
  and every index are as before.\<close>

theorem rejected_write_changes_nothing:
  shows "(doc_key_problem (md_key doc) = Some e \<longrightarrow> put_inner h doc tick_local s = (Inl (Sgdb e), s)) \<and>
    (doc_key_problem (md_key doc) = None \<and> has_prefix_conflict (ho_avx2 h) (en_art s) (storage_key doc) \<longrightarrow>
      put_inner h doc tick_local s = (Inl (Sgdb (SE_Invalid PREFIX_KEY)),
        s\<lparr>en_watermark := (if tick_local then counter_of (md_clock (ticked s doc tick_local)) (en_node_id s)
                          else en_watermark s),
          en_next_id := en_next_id s + 1\<rparr>))"
proof -
  let ?s = "s\<lparr>en_watermark := (if tick_local then counter_of (md_clock (ticked s doc tick_local)) (en_node_id s)
       else en_watermark s), en_next_id := en_next_id s + 1\<rparr>"
  have "has_prefix_conflict (ho_avx2 h) (en_art ?s) (storage_key (ticked s doc tick_local)) =
      has_prefix_conflict (ho_avx2 h) (en_art s) (storage_key doc)" by simp
  then show ?thesis
    by (simp add: put_inner_def othen_def obind_def guard_key_def oret_def ofail_def tick_author_run fresh_id_def oget_def)
qed

theorem rejected_write_changes_nothing_witness:
  "put_inner (ram_host (\<lambda>_. False) False) (doc_new L4Semantic (ascii ''a/../b'') []) True empty_engine =
     (Inl (Sgdb (SE_Invalid ''key contains . or ..'')), empty_engine)"
proof -
  have "doc_key_problem (md_key (doc_new L4Semantic (ascii ''a/../b'') [])) = Some (SE_Invalid ''key contains . or ..'')"
    by (simp add: doc_new_def doc_key_problem_def key_problem_def ascii_def)
  then show ?thesis
    using rejected_write_changes_nothing [of "doc_new L4Semantic (ascii ''a/../b'') []" _ "ram_host (\<lambda>_. False) False" True empty_engine]
    by blast
qed

text \<open>C22: The author's clock: a local write moves the watermark of the engine strictly up (until the
  counter saturates), stamps the document with the new watermark, and leaves the counters of the other
  nodes in the document alone; the metadata keeps the identity of the memory, takes a version id made
  from the new counter, and keeps the version it replaces as a parent.\<close>

theorem local_write_advances_the_author:
  assumes "backend_store good view (ho_backend h) fits means" and "en_inv good s"
    and "doc_key_problem (md_key doc) = None" "doc_fits doc" "vc_wf (md_clock doc)" "en_node_id s \<noteq> no_node"
    and "\<not> has_prefix_conflict (ho_avx2 h) (en_art s) (storage_key doc)" "write_fits fits h s doc True"
    and "en_watermark s \<noteq> u64_max" "read_meta (ho_backend h) (en_storage s) (storage_key doc) = Some e"
  shows "\<exists>s' m. engine_put h doc s = (Inr (en_next_id s), s') \<and>
    en_watermark s < en_watermark s' \<and>
    counter_of (md_clock (ticked s doc True)) (en_node_id s) = en_watermark s' \<and>
    (\<forall>n. n \<noteq> en_node_id s \<longrightarrow> counter_of (md_clock (ticked s doc True)) n = counter_of (md_clock doc) n) \<and>
    view (en_storage s') (meta_key (storage_key doc)) = means (meta_encode m) \<and>
    mm_memory_id m = mm_memory_id e \<and> mm_source m = mm_source e \<and> mm_created_tick m = mm_created_tick e \<and>
    mm_version_id m = generate_memory_id (en_node_id s) (en_watermark s') (md_layer doc) (md_key doc) \<and>
    (mm_version_id m = mm_version_id e \<or> mm_version_id e \<in> set (mm_parent_ids m))"
proof -
  have st: "engine_store good view h fits means" using assms(1) by (simp add: engine_store_def)
  let ?d = "ticked s doc True"
  let ?m = "stored_meta h s (storage_key doc) ?d True"
  have "utf8_valid (md_key doc)" using assms(4) by (simp add: doc_fits_def)
  from engine_store.does_put_inner [OF st assms(2,3) this assms(7,8)]
  obtain s' where put: "put_inner h doc True s = (Inr (en_next_id s), s')"
    and wm: "en_watermark s' = counter_of (md_clock ?d) (en_node_id s)"
    and meta: "view (en_storage s') (meta_key (storage_key doc)) = means (meta_encode ?m)"
    by (auto elim!: doesE)
  note clock = author_clock_counter [OF assms(5,6), of "en_watermark s"]
  have id: "mm_memory_id (take_over d m) = mm_memory_id m \<and> mm_source (take_over d m) = mm_source m \<and>
      mm_created_tick (take_over d m) = mm_created_tick m \<and> mm_version_id (take_over d m) = mm_version_id m \<and>
      set (mm_parent_ids m) \<subseteq> set (mm_parent_ids (take_over d m))" for d m
  proof -
    have "mm_memory_id (fold add_parent ps m) = mm_memory_id m \<and> mm_source (fold add_parent ps m) = mm_source m \<and>
        mm_created_tick (fold add_parent ps m) = mm_created_tick m \<and> mm_version_id (fold add_parent ps m) = mm_version_id m \<and>
        set (mm_parent_ids m) \<subseteq> set (mm_parent_ids (fold add_parent ps m))" for ps m
      by (induction ps arbitrary: m) (fastforce simp: add_parent_def)+
    from this [of "mm_parent_ids d" "m\<lparr>mm_confidence := mm_confidence d, mm_importance := mm_importance d\<rparr>"]
    show ?thesis by (simp add: take_over_def)
  qed
  have bump: "mm_memory_id (bump_version v e) = mm_memory_id e" "mm_source (bump_version v e) = mm_source e"
    "mm_created_tick (bump_version v e) = mm_created_tick e" "mm_version_id (bump_version v e) = v"
    "v = mm_version_id e \<or> mm_version_id e \<in> set (mm_parent_ids (bump_version v e))" for v
    by (auto simp: bump_version_def parent_window_def MAX_PARENT_IDS_def)
  define v where "v = generate_memory_id (en_node_id s) (en_watermark s') (md_layer doc) (md_key doc)"
  have m: "?m = (case md_meta doc of Some dd \<Rightarrow> take_over dd (bump_version v e) | None \<Rightarrow> bump_version v e)
      \<lparr>mm_clock_overflow := vc_overflow (md_clock ?d)\<rparr>"
    by (cases "md_meta doc") (simp_all add: stored_meta_def next_meta_def assms(10) Let_def v_def wm)
  have "mm_memory_id ?m = mm_memory_id e \<and> mm_source ?m = mm_source e \<and> mm_created_tick ?m = mm_created_tick e \<and>
      mm_version_id ?m = v \<and> (v = mm_version_id e \<or> mm_version_id e \<in> set (mm_parent_ids ?m))"
    using id [of _ "bump_version v e"] bump [of v] unfolding m by (cases "md_meta doc") (auto dest: subsetD)
  moreover have "md_clock ?d = author_clock (en_node_id s) (en_watermark s) (md_clock doc)" by (simp add: ticked_def)
  ultimately show ?thesis
    using put wm meta clock assms(9) by (intro exI [of _ s'] exI [of _ ?m]) (simp add: engine_put_def v_def)
qed

lemma meta_read_back: "meta_fits m \<Longrightarrow> meta_decode (meta_encode m) = Inr (meta_upgrade 8 m)"
  using meta_decode_layout [of m 8 "[]"] by (simp add: meta_encode_layout META_VERSION_def)

definition engine_with_meta :: "in_memory engine" where
  "engine_with_meta = engine_new 1 1 \<lparr>im_map = [(meta_key (storage_key first_doc), meta_encode sample_meta)]\<rparr>"

theorem local_write_advances_the_author_witness:
  "\<exists>s' m. engine_put (ram_host (\<lambda>_. False) False) first_doc engine_with_meta = (Inr 1, s') \<and>
     0 < en_watermark s' \<and> mm_memory_id m = mm_memory_id sample_meta \<and>
     bt_get (im_map (en_storage s')) (meta_key (storage_key first_doc)) = Some (meta_encode m)"
proof -
  let ?h = "ram_host (\<lambda>_. False) False"
  have st: "backend_store (\<lambda>s. bt_wf (im_map s)) (\<lambda>s. bt_get (im_map s)) (ho_backend ?h) (\<lambda>_ _. True) Some"
    by (simp add: ram_host_def ram_store.backend_store_axioms)
  have inv: "en_inv (\<lambda>s. bt_wf (im_map s)) engine_with_meta"
    by (simp add: en_inv_def engine_with_meta_def engine_new_def art_new_def art_inv_def ram_keys_def art_map_empty bt_wf_def)
  have same: "en_art engine_with_meta = en_art empty_engine" "en_node_id engine_with_meta = 1" "en_watermark engine_with_meta = 0"
    "en_next_id engine_with_meta = 1" "en_node_id empty_engine = 1"
    by (simp_all add: engine_with_meta_def empty_engine_def engine_new_def)
  have fits: "write_fits (\<lambda>_ _. True) ?h engine_with_meta first_doc True" by (simp add: write_fits_def Let_def)
  have read: "read_meta (ho_backend ?h) (en_storage engine_with_meta) (storage_key first_doc) = Some (meta_upgrade 8 sample_meta)"
    by (simp add: read_meta_def engine_with_meta_def engine_new_def ram_host_def ram_backend_def in_memory_get_def
      meta_read_back [OF sample_meta_fits])
  have node: "en_node_id engine_with_meta \<noteq> no_node" using first_doc_ok(5) same by simp
  have free: "\<not> has_prefix_conflict (ho_avx2 ?h) (en_art engine_with_meta) (storage_key first_doc)"
    using first_doc_ok(4) same by simp
  have wm: "en_watermark engine_with_meta \<noteq> u64_max" using same by simp
  from local_write_advances_the_author [OF st inv first_doc_ok(1-3) node free fits wm read]
  show ?thesis by (auto simp: same meta_upgrade_def)
qed

end
