(* ===== verification/Engine_Relations.thy ===== *)
theory Engine_Relations
  imports Engine_Put
begin

text \<open>
  Relations between memories: the rows under \<open>sys/rel/\<close> and the two derived entries of the radix tree
  stand for one set of triples; \<open>associate\<close> inserts into it, the removal for a key takes out what
  involves the key, and the queries and the validation read it.
\<close>

section \<open>Keys\<close>

definition no_hash :: "bytes \<Rightarrow> bool" where
  "no_hash x \<longleftrightarrow> of_char CHR ''#'' \<notin> set x"

lemma split_once_append: "c \<notin> set x \<Longrightarrow> split_once c (x @ c # y) = Some (x, y)"
proof -
  assume "c \<notin> set x"
  then have "takeWhile (\<lambda>b. b \<noteq> c) (x @ c # y) = x" "dropWhile (\<lambda>b. b \<noteq> c) (x @ c # y) = c # y"
    by (auto simp: takeWhile_append dropWhile_append)
  then show ?thesis by (simp add: split_once_def)
qed

lemma kind_no_slash: "47 \<notin> set (relation_as_str k)"
  by (cases k) (simp_all add: ascii_def)

lemma kind_round: "relation_from_str (relation_as_str k) = Some k"
  by (cases k) (simp_all add: relation_from_str_def ALL_RELATIONS_def ascii_def)

lemma ascii_single: "ascii [c] = [of_char c]"
  by (simp add: ascii_def)

lemma strip_append [simp]: "strip_prefix p (p @ s) = Some s"
  by (simp add: strip_prefix_def)

lemma parse_rel: "no_hash a \<Longrightarrow> parse_rel_storage_key (rel_storage_key kind a b) = Some (kind, a, b)"
  by (simp add: parse_rel_storage_key_def rel_storage_key_def ascii_single split_once_append kind_no_slash kind_round no_hash_def)

lemma split_once_Some: "split_once c x = Some (y, z) \<Longrightarrow> x = y @ c # z \<and> c \<notin> set y"
proof -
  assume a: "split_once c x = Some (y, z)"
  then have c: "c \<in> set x" and yz: "y = takeWhile (\<lambda>b. b \<noteq> c) x" "z = tl (dropWhile (\<lambda>b. b \<noteq> c) x)"
    by (auto simp: split_once_def split: if_splits)
  have "dropWhile (\<lambda>b. b \<noteq> c) x = c # z"
    using c yz hd_dropWhile [of "\<lambda>b. b \<noteq> c" x] by (cases "dropWhile (\<lambda>b. b \<noteq> c) x") auto
  then show ?thesis using yz by (metis takeWhile_dropWhile_id set_takeWhileD)
qed

lemma kind_unparse: "relation_from_str ks = Some k \<Longrightarrow> ks = relation_as_str k"
  by (auto simp: relation_from_str_def find_Some_iff)

lemma parse_rel_Some:
  "parse_rel_storage_key s = Some (kind, a, b) \<Longrightarrow> s = rel_storage_key kind a b \<and> no_hash a"
  by (auto simp: parse_rel_storage_key_def strip_prefix_def bind_eq_Some_conv prefix_def rel_storage_key_def ascii_single
    no_hash_def dest!: split_once_Some kind_unparse split: if_splits)

lemma rel_key_inj:
  assumes "no_hash a" "no_hash a'"
  shows "rel_storage_key k a b = rel_storage_key k' a' b' \<longleftrightarrow> k = k' \<and> a = a' \<and> b = b'"
  using parse_rel [OF assms(1)] parse_rel [OF assms(2)] by (metis option.inject Pair_inject)

lemma art_key_storage: "rel_art_key rv k x y = rel_art_key rv k' x' y' \<longleftrightarrow> rel_storage_key k x y = rel_storage_key k' x' y'"
  by (cases rv) (simp_all add: rel_art_key_def rel_storage_key_def)

lemma art_key_inj:
  "no_hash a \<Longrightarrow> no_hash a' \<Longrightarrow> rel_art_key rv k a b = rel_art_key rv k' a' b' \<longleftrightarrow> k = k' \<and> a = a' \<and> b = b'"
  by (simp add: art_key_storage rel_key_inj)

lemma art_key_sides [simp]: "rel_art_key False k a b \<noteq> rel_art_key True k' a' b'"
  "rel_art_key True k a b \<noteq> rel_art_key False k' a' b'"
  by (simp_all add: rel_art_key_def ascii_def)

lemma art_key_prefix: "rel_art_key rv k x y = rel_prefix rv k x @ y"
  by (simp add: rel_art_key_def rel_prefix_def)

lemma rel_prefix_rel [simp]: "prefix (ascii ''rel/'') (rel_prefix False k x @ y)" "prefix (ascii ''rev/'') (rel_prefix True k x @ y)"
  by (simp_all add: rel_prefix_def)

section \<open>The set of relations\<close>

definition rels :: "(bytes \<Rightarrow> bytes option) \<Rightarrow> (relation_kind \<times> bytes \<times> bytes) set" where
  "rels m = {(k, a, b). no_hash a \<and> no_hash b \<and> m (rel_storage_key k a b) \<noteq> None}"

text \<open>
  Rows and entries in step: every entry below \<open>rel/\<close> and \<open>rev/\<close> is that of a pair of keys without the
  separator, and both entries of a pair exist just when its row does.
\<close>

definition rel_synced :: "(bytes \<Rightarrow> bytes option) \<Rightarrow> (bytes \<Rightarrow> u64 option) \<Rightarrow> bool" where
  "rel_synced m t \<longleftrightarrow>
     (\<forall>k \<in> dom t. prefix (ascii ''rel/'') k \<longrightarrow> (\<exists>kind a b. no_hash a \<and> no_hash b \<and> k = rel_art_key False kind a b)) \<and>
     (\<forall>k \<in> dom t. prefix (ascii ''rev/'') k \<longrightarrow> (\<exists>kind a b. no_hash a \<and> no_hash b \<and> k = rel_art_key True kind a b)) \<and>
     (\<forall>kind a b. no_hash a \<longrightarrow> no_hash b \<longrightarrow>
        (rel_art_key False kind a b \<in> dom t \<longleftrightarrow> (kind, a, b) \<in> rels m) \<and>
        (rel_art_key True kind b a \<in> dom t \<longleftrightarrow> (kind, a, b) \<in> rels m))"

lemma rel_synced_key:
  assumes "rel_synced m t" "no_hash x"
  shows "rel_prefix False kind x @ y \<in> dom t \<Longrightarrow> no_hash y" "rel_prefix True kind x @ y \<in> dom t \<Longrightarrow> no_hash y"
proof -
  assume "rel_prefix False kind x @ y \<in> dom t"
  then obtain k a b where "no_hash a" "no_hash b" "rel_art_key False kind x y = rel_art_key False k a b"
    using assms(1) rel_prefix_rel(1) [of kind x y] unfolding rel_synced_def art_key_prefix by meson
  then show "no_hash y" using assms(2) by (simp add: art_key_inj)
next
  assume "rel_prefix True kind x @ y \<in> dom t"
  then obtain k a b where "no_hash a" "no_hash b" "rel_art_key True kind x y = rel_art_key True k a b"
    using assms(1) rel_prefix_rel(2) [of kind x y] unfolding rel_synced_def art_key_prefix by meson
  then show "no_hash y" using assms(2) by (simp add: art_key_inj)
qed

lemma rel_synced_entry:
  assumes "rel_synced m t" "no_hash x"
  shows "rel_prefix False kind x @ y \<in> dom t \<longleftrightarrow> (kind, x, y) \<in> rels m"
    "rel_prefix True kind x @ y \<in> dom t \<longleftrightarrow> (kind, y, x) \<in> rels m"
proof -
  have s: "no_hash a \<Longrightarrow> no_hash b \<Longrightarrow>
        (rel_art_key False kind a b \<in> dom t \<longleftrightarrow> (kind, a, b) \<in> rels m) \<and>
        (rel_art_key True kind b a \<in> dom t \<longleftrightarrow> (kind, a, b) \<in> rels m)" for a b
    using assms(1) unfolding rel_synced_def by blast
  have h: "no_hash y" if "(kind, x, y) \<in> rels m \<or> (kind, y, x) \<in> rels m"
    using that by (auto simp: rels_def)
  show "rel_prefix False kind x @ y \<in> dom t \<longleftrightarrow> (kind, x, y) \<in> rels m"
    using s [of x y] h rel_synced_key(1) [OF assms, of kind y] assms(2) unfolding art_key_prefix by blast
  show "rel_prefix True kind x @ y \<in> dom t \<longleftrightarrow> (kind, y, x) \<in> rels m"
    using s [of y x] h rel_synced_key(2) [OF assms, of kind y] assms(2) unfolding art_key_prefix by blast
qed

lemma rels_upd:
  assumes "no_hash a" "no_hash b"
  shows "rels (m(rel_storage_key k a b := Some v)) = insert (k, a, b) (rels m)"
    "rels (m(rel_storage_key k a b := None)) = rels m - {(k, a, b)}"
  using assms rel_key_inj [OF assms(1)] by (auto simp: rels_def rel_key_inj split: if_splits)

lemma rel_synced_update:
  assumes sync: "rel_synced m t" and a: "no_hash a" and b: "no_hash b"
    and t: "\<And>q. q \<noteq> rel_art_key False k a b \<Longrightarrow> q \<noteq> rel_art_key True k b a \<Longrightarrow> t' q = t q"
    and r: "rels m' - {(k, a, b)} = rels m - {(k, a, b)}"
    and f: "rel_art_key False k a b \<in> dom t' \<longleftrightarrow> (k, a, b) \<in> rels m'"
    and g: "rel_art_key True k b a \<in> dom t' \<longleftrightarrow> (k, a, b) \<in> rels m'"
  shows "rel_synced m' t'"
proof -
  have old: "q \<in> dom t' \<Longrightarrow> q = rel_art_key False k a b \<or> q = rel_art_key True k b a \<or> q \<in> dom t" for q
    using t [of q] by (metis domIff)
  have side: "\<not> prefix (ascii ''rel/'') (rel_art_key True k b a)" "\<not> prefix (ascii ''rev/'') (rel_art_key False k a b)"
    by (simp_all add: rel_art_key_def ascii_def)
  have fwd: "\<exists>kind a b. no_hash a \<and> no_hash b \<and> q = rel_art_key False kind a b"
    if "q \<in> dom t'" "prefix (ascii ''rel/'') q" for q
    using old [OF that(1)] that(2) side(1) a b sync unfolding rel_synced_def by metis
  have bwd: "\<exists>kind a b. no_hash a \<and> no_hash b \<and> q = rel_art_key True kind a b"
    if "q \<in> dom t'" "prefix (ascii ''rev/'') q" for q
    using old [OF that(1)] that(2) side(2) a b sync unfolding rel_synced_def by metis
  have "(rel_art_key False kind x y \<in> dom t' \<longleftrightarrow> (kind, x, y) \<in> rels m') \<and>
      (rel_art_key True kind y x \<in> dom t' \<longleftrightarrow> (kind, x, y) \<in> rels m')" if h: "no_hash x" "no_hash y" for kind x y
  proof (cases "(kind, x, y) = (k, a, b)")
    case True
    then show ?thesis using f g by simp
  next
    case False
    then have "rel_art_key False kind x y \<noteq> rel_art_key False k a b" "rel_art_key True kind y x \<noteq> rel_art_key True k b a"
      using h a b by (simp_all add: art_key_inj) auto
    then have "t' (rel_art_key False kind x y) = t (rel_art_key False kind x y)"
      "t' (rel_art_key True kind y x) = t (rel_art_key True kind y x)"
      using t by simp_all
    moreover have "(kind, x, y) \<in> rels m' \<longleftrightarrow> (kind, x, y) \<in> rels m" using False r by blast
    ultimately show ?thesis using sync h unfolding rel_synced_def by (simp add: dom_def)
  qed
  then show ?thesis using fwd bwd unfolding rel_synced_def by blast
qed

lemma rel_synced_insert:
  assumes "rel_synced m t" "no_hash a" "no_hash b"
  shows "rel_synced (m(rel_storage_key k a b := Some v)) (t(rel_art_key False k a b := Some x, rel_art_key True k b a := Some y))"
  using assms by (intro rel_synced_update [OF assms]) (auto simp: rels_upd)

lemma rel_synced_delete:
  assumes "rel_synced m t" "no_hash a" "no_hash b"
  shows "rel_synced (m(rel_storage_key k a b := None)) (t(rel_art_key False k a b := None, rel_art_key True k b a := None))"
  using assms by (intro rel_synced_update [OF assms]) (auto simp: rels_upd)

section \<open>Operations\<close>

text \<open>Every row below \<open>sys/rel/\<close> is one that \<open>associate\<close> writes.\<close>

definition rel_rows :: "(bytes \<Rightarrow> bytes option) \<Rightarrow> bool" where
  "rel_rows m \<longleftrightarrow> (\<forall>k v. m k = Some v \<longrightarrow> prefix (ascii ''sys/rel/'') k \<longrightarrow> v = [0] \<and> utf8_valid k \<and>
     (\<exists>kind a b. no_hash a \<and> no_hash b \<and> a \<noteq> [] \<and> b \<noteq> [] \<and> k = rel_storage_key kind a b))"

lemma rel_rows_delete: "rel_rows m \<Longrightarrow> rel_rows (m(k := None))"
  by (simp add: rel_rows_def)

text \<open>An engine whose relations stand for the set \<open>R\<close>.\<close>

definition relates :: "('s \<Rightarrow> bool) \<Rightarrow> ('s \<Rightarrow> bytes \<Rightarrow> bytes option) \<Rightarrow> 's engine \<Rightarrow>
    (relation_kind \<times> bytes \<times> bytes) set \<Rightarrow> bool" where
  "relates good view s R \<longleftrightarrow> en_inv good s \<and> rel_rows (view (en_storage s)) \<and>
     rel_synced (view (en_storage s)) (art_map (en_art s)) \<and> rels (view (en_storage s)) = R"

lemma rel_key_ok: "rel_key_problem a = None \<Longrightarrow> no_hash a \<and> a \<noteq> []"
  by (auto simp: rel_key_problem_def key_problem_def no_hash_def split: if_splits)

lemma relation_ascii: "c \<in> set (relation_as_str k) \<Longrightarrow> c < 0x80"
  by (cases k) (auto simp: ascii_def)

lemma utf8_art_key: "utf8_valid a \<Longrightarrow> utf8_valid b \<Longrightarrow> utf8_valid (rel_art_key rv k a b)"
  unfolding rel_art_key_def
  by (intro utf8_valid_append; (assumption | rule utf8_valid_ascii)) (auto simp: ascii_def dest: relation_ascii split: if_splits)

lemma keys_apart_sides:
  assumes "keys_apart t (rel_art_key True k b a)" "art_map t' = (art_map t)(rel_art_key False k a b \<mapsto> v)"
  shows "keys_apart t' (rel_art_key True k b a)"
  using assms by (auto simp: keys_apart_def apart_def rel_art_key_def ascii_def prefix_def)

lemma utf8_rel_key: "utf8_valid a \<Longrightarrow> utf8_valid b \<Longrightarrow> utf8_valid (rel_storage_key k a b)"
  unfolding rel_storage_key_def
  by (intro utf8_valid_append; (assumption | rule utf8_valid_ascii)) (auto simp: ascii_def dest: relation_ascii)

lemma apart_no_conflict: "art_inv t \<Longrightarrow> utf8_valid k \<Longrightarrow> keys_apart t k \<Longrightarrow> \<not> has_prefix_conflict avx2 t k"
  using guarded_insert by blast

lemma does_art_put_apart:
  assumes "art_inv (en_art s)" "keys_apart (en_art s) k" "utf8_valid k"
    and "\<And>t. art_inv t \<Longrightarrow> art_map t = (art_map (en_art s))(k \<mapsto> v) \<Longrightarrow> P () (s\<lparr>en_art := t\<rparr>)"
  shows "does (art_put k v) s P"
  using art_insert_ok [OF assms(1-3), of v] assms(4) by (auto intro: does_art_put)

lemma rel_key_not_md [simp]: "prefix (ascii ''md/'') k \<Longrightarrow> k \<noteq> rel_storage_key kind a b"
  by (auto simp: rel_storage_key_def ascii_def prefix_def)

text \<open>Nothing outside the rows of relations has changed in storage and RAM, nor have the ids.\<close>

definition beside :: "('s \<Rightarrow> bytes \<Rightarrow> bytes option) \<Rightarrow> 's engine \<Rightarrow> 's engine \<Rightarrow> bool" where
  "beside view s s' \<longleftrightarrow> en_ram s' = en_ram s \<and> en_id_to_sk s' = en_id_to_sk s \<and> en_sk_ids s' = en_sk_ids s \<and>
     (\<forall>q. \<not> prefix (ascii ''sys/rel/'') q \<longrightarrow> view (en_storage s') q = view (en_storage s) q)"

lemma beside_refl [simp]: "beside view s s"
  by (simp add: beside_def)

lemma beside_trans: "beside view s t \<Longrightarrow> beside view t u \<Longrightarrow> beside view s u"
  by (simp add: beside_def)

lemma rel_key_prefix [simp]: "prefix (ascii ''sys/rel/'') (rel_storage_key k a b)"
  by (simp add: rel_storage_key_def)

lemma all_relations: "k \<in> set ALL_RELATIONS"
  by (cases k) (simp_all add: ALL_RELATIONS_def)

lemma scan_relations:
  assumes "relates good view s R" "no_hash key"
  shows "fst ` set (scan_prefix (en_art s) (rel_prefix False kind key)) =
      (\<lambda>b. rel_prefix False kind key @ b) ` {b. (kind, key, b) \<in> R}"
    "fst ` set (scan_prefix (en_art s) (rel_prefix True kind key)) =
      (\<lambda>a. rel_prefix True kind key @ a) ` {a. (kind, a, key) \<in> R}"
    "distinct (map fst (scan_prefix (en_art s) p))"
proof -
  have t: "art_inv (en_art s)" "rel_synced (view (en_storage s)) (art_map (en_art s))" "rels (view (en_storage s)) = R"
    using assms(1) by (simp_all add: relates_def en_inv_def)
  note entry = rel_synced_entry [OF t(2) assms(2), unfolded t(3)]
  have dom: "fst ` set (scan_prefix (en_art s) p) = (@) p ` {y. p @ y \<in> dom (art_map (en_art s))}" for p
    using scan_ok [OF t(1), of p] by (force simp: prefix_def image_iff dom_def)
  show "fst ` set (scan_prefix (en_art s) (rel_prefix False kind key)) =
      (\<lambda>b. rel_prefix False kind key @ b) ` {b. (kind, key, b) \<in> R}"
    unfolding dom entry ..
  show "fst ` set (scan_prefix (en_art s) (rel_prefix True kind key)) =
      (\<lambda>a. rel_prefix True kind key @ a) ` {a. (kind, a, key) \<in> R}"
    unfolding dom entry ..
  show "distinct (map fst (scan_prefix (en_art s) p))" using scan_ok [OF t(1), of p] by simp
qed

lemma map_filter_Nil: "List.map_filter f xs = [] \<longleftrightarrow> (\<forall>x \<in> set xs. f x = None)"
  by (induction xs) (auto simp: List.map_filter_def)

lemma targets_drop:
  assumes "art_inv t"
  shows "targets t p = map (drop (length p)) (map fst (scan_prefix t p))"
proof -
  have "prefix p (fst e)" if "e \<in> set (scan_prefix t p)" for e
    using scan_ok [OF assms, of p] that by auto
  then have "map (\<lambda>(k, _). strip_prefix p k) (scan_prefix t p) = map (\<lambda>e. Some (drop (length p) (fst e))) (scan_prefix t p)"
    by (simp add: strip_prefix_def case_prod_unfold)
  moreover have "List.map_filter g es = map (\<lambda>e. the (g e)) es" if "\<forall>e \<in> set es. g e \<noteq> None" for g :: "bytes \<times> u64 \<Rightarrow> bytes option" and es
    using that by (induction es) (auto simp: List.map_filter_def)
  ultimately show ?thesis by (simp add: targets_def case_prod_unfold comp_def)
qed

lemma targets_set:
  assumes "relates good view s R" "no_hash key"
  shows "set (targets (en_art s) (rel_prefix False kind key)) = {b. (kind, key, b) \<in> R}"
    "set (targets (en_art s) (rel_prefix True kind key)) = {a. (kind, a, key) \<in> R}"
    "distinct (targets (en_art s) p)"
proof -
  have t: "art_inv (en_art s)" using assms(1) by (simp add: relates_def en_inv_def)
  note scan = scan_relations [OF assms]
  show "set (targets (en_art s) (rel_prefix False kind key)) = {b. (kind, key, b) \<in> R}"
    "set (targets (en_art s) (rel_prefix True kind key)) = {a. (kind, a, key) \<in> R}"
    unfolding targets_drop [OF t] set_map scan image_image by auto
  have "inj_on (drop (length p)) (set (map fst (scan_prefix (en_art s) p)))"
    using scan_ok [OF t, of p] by (intro inj_onI) (auto simp: prefix_def)
  then show "distinct (targets (en_art s) p)"
    using scan(3) [of p] by (simp add: targets_drop [OF t] distinct_map del: map_map)
qed

text \<open>The queries read the set.\<close>

lemma outgoing_list:
  assumes "relates good view s R" "no_hash key"
  shows "relations_outgoing s kind key = sorted_list_of_set {b. (kind, key, b) \<in> R}"
  using sorted_list_of_set_sort_remdups [of "targets (en_art s) (rel_prefix False kind key)"] targets_set [OF assms]
  by (simp add: relations_outgoing_def distinct_remdups_id)

lemma related_set:
  assumes "relates good view s R" "no_hash key"
  shows "set (related_to s key) = {(k, x). (k, key, x) \<in> R \<or> (k, x, key) \<in> R}"
  using targets_set [OF assms] by (auto simp: related_to_def all_relations)

context engine_store
begin

lemma validate_clean:
  assumes r: "relates inv view s R"
  shows "validate_relations h s = []"
proof -
  have t: "inv (en_storage s)" "art_inv (en_art s)" "rel_rows (view (en_storage s))"
    "rel_synced (view (en_storage s)) (art_map (en_art s))"
    using r by (simp_all add: relates_def en_inv_def)
  have p: "utf8_valid (ascii ''sys/rel/'')" by (rule utf8_valid_ascii) (auto simp: ascii_def)
  have "relation_problem h s (k, v) = None" if m: "view (en_storage s) k = Some v" "prefix (ascii ''sys/rel/'') k" for k v
  proof -
    obtain kind a b where k: "v = [0]" "utf8_valid k" "no_hash a" "no_hash b" "a \<noteq> []" "b \<noteq> []" "k = rel_storage_key kind a b"
      using t(3) m unfolding rel_rows_def by blast
    then have "(kind, a, b) \<in> rels (view (en_storage s))" using m by (simp add: rels_def)
    then have "art_map (en_art s) (rel_art_key False kind a b) \<noteq> None" "art_map (en_art s) (rel_art_key True kind b a) \<noteq> None"
      using t(4) k(3,4) unfolding rel_synced_def by (metis domIff)+
    then show ?thesis using k by (simp add: relation_problem_def Let_def parse_rel art_get_map [OF t(2)])
  qed
  then show ?thesis
    unfolding validate_relations_def map_filter_Nil using scan_set [OF t(1) p] by auto
qed

lemma does_associate:
  assumes r: "relates inv view s R"
    and a: "rel_key_problem a = None" "utf8_valid a" and b: "rel_key_problem b = None" "utf8_valid b"
    and free: "keys_apart (en_art s) (rel_art_key False k a b)" "keys_apart (en_art s) (rel_art_key True k b a)"
    and fit: "fits (rel_storage_key k a b) [0]"
  shows "does (associate h a k b) s (\<lambda>_ s'. relates inv view s' (insert (k, a, b) R) \<and>
    beside view s s')"
proof -
  have i: "inv (en_storage s)" "art_inv (en_art s)" "ram_keys (en_ram s)" "rel_rows (view (en_storage s))"
    "rel_synced (view (en_storage s)) (art_map (en_art s))" "rels (view (en_storage s)) = R"
    using r by (simp_all add: relates_def en_inv_def)
  note ha = rel_key_ok [OF a(1)] and hb = rel_key_ok [OF b(1)]
  have u: "utf8_valid (rel_art_key False k a b)" "utf8_valid (rel_art_key True k b a)" "utf8_valid (rel_storage_key k a b)"
    using a b by (simp_all add: utf8_art_key utf8_rel_key)
  have rows: "rel_rows ((view (en_storage s))(rel_storage_key k a b \<mapsto> [0]))"
    using i(4) ha hb u(3) unfolding rel_rows_def by auto
  have go: "\<not> (has_prefix_conflict (ho_avx2 h) (en_art s) (rel_art_key False k a b) \<or>
      has_prefix_conflict (ho_avx2 h) (en_art s) (rel_art_key True k b a))"
    using i(2) u free by (simp add: apart_no_conflict)
  show ?thesis
    unfolding associate_def Let_def
    apply (intro walk does_guard a(1) b(1))
    apply (simp only: go if_False)
    apply (rule does_then, rule does_put [OF i(1) fit], rule does_then, rule does_art_put_apart)
    subgoal using i by simp
    subgoal using free by simp
    subgoal by (rule u)
    subgoal for st t
      using i u ha hb free keys_apart_sides [of "en_art s" k b a t] rows
      by (intro does_art_put_apart)
        (auto simp: means_some relates_def en_inv_def rels_upd rel_synced_insert beside_def)
    done
qed

lemma does_remove_outgoing:
  assumes r: "relates inv view s R" and h: "no_hash key" "no_hash b" and fit: "fits (rel_storage_key kind key b) []"
  shows "does (remove_outgoing h key kind (rel_prefix False kind key @ b)) s
    (\<lambda>_ s'. relates inv view s' (R - {(kind, key, b)}) \<and> beside view s s')"
proof -
  have i: "inv (en_storage s)" "art_inv (en_art s)" "ram_keys (en_ram s)" "rel_rows (view (en_storage s))"
    "rel_synced (view (en_storage s)) (art_map (en_art s))" "rels (view (en_storage s)) = R"
    using r by (simp_all add: relates_def en_inv_def)
  have run: "remove_outgoing h key kind (rel_prefix False kind key @ b) =
      othen (sto_del h (rel_storage_key kind key b))
        (othen (art_del (rel_art_key False kind key b)) (art_del (rel_art_key True kind b key)))"
    by (simp add: remove_outgoing_def art_key_prefix)
  show ?thesis
    unfolding run
    by (intro walk)
      (use i h fit rel_synced_delete [OF i(5) h, of kind] rel_rows_delete [OF i(4), of "rel_storage_key kind key b"] in
        \<open>auto simp: relates_def en_inv_def rels_upd art_delete_ok beside_def\<close>)
qed

lemma does_remove_incoming:
  assumes r: "relates inv view s R" and h: "no_hash a" "no_hash key" and fit: "fits (rel_storage_key kind a key) []"
  shows "does (remove_incoming h key kind (rel_prefix True kind key @ a)) s
    (\<lambda>_ s'. relates inv view s' (R - {(kind, a, key)}) \<and> beside view s s')"
proof -
  have i: "inv (en_storage s)" "art_inv (en_art s)" "ram_keys (en_ram s)" "rel_rows (view (en_storage s))"
    "rel_synced (view (en_storage s)) (art_map (en_art s))" "rels (view (en_storage s)) = R"
    using r by (simp_all add: relates_def en_inv_def)
  have run: "remove_incoming h key kind (rel_prefix True kind key @ a) =
      othen (sto_del h (rel_storage_key kind a key))
        (othen (art_del (rel_art_key True kind key a)) (art_del (rel_art_key False kind a key)))"
    by (simp add: remove_incoming_def art_key_prefix)
  have twist: "(art_map (en_art s))(rel_art_key True kind key a := None, rel_art_key False kind a key := None) =
      (art_map (en_art s))(rel_art_key False kind a key := None, rel_art_key True kind key a := None)"
    by (rule fun_upd_twist) simp
  show ?thesis
    unfolding run
    by (intro walk)
      (use i h fit twist rel_synced_delete [OF i(5) h, of kind] rel_rows_delete [OF i(4), of "rel_storage_key kind a key"] in
        \<open>auto simp: relates_def en_inv_def rels_upd art_delete_ok beside_def\<close>)
qed

text \<open>A pass over a list of entries takes out the triples they stand for.\<close>

lemma does_remove_all:
  assumes step: "\<And>k s R. k \<in> set ks \<Longrightarrow> relates inv view s R \<Longrightarrow>
      does (f k) s (\<lambda>_ s'. relates inv view s' (R - {g k}) \<and> beside view s s')"
    and r: "relates inv view s R"
  shows "does (oseq f ks) s (\<lambda>_ s'. relates inv view s' (R - g ` set ks) \<and> beside view s s')"
  using step r
proof (induction ks arbitrary: s R)
  case Nil
  then show ?case by (simp add: does_def)
next
  case (Cons k ks)
  obtain s1 where s1: "f k s = (Inr (), s1)" "relates inv view s1 (R - {g k})" "beside view s s1"
    using Cons.prems by (fastforce elim!: doesE)
  have "does (oseq f ks) s1 (\<lambda>_ s'. relates inv view s' (R - {g k} - g ` set ks) \<and> beside view s1 s')"
    using Cons.prems(1) s1(2) by (intro Cons.IH) auto
  moreover have "R - {g k} - g ` set ks = R - g ` set (k # ks)" by auto
  ultimately show ?case using s1(1,3) by (auto simp: does_def split: prod.splits sum.splits intro: beside_trans)
qed

lemma does_remove_kind:
  assumes r: "relates inv view s R" and key: "no_hash key" and fit: "\<And>k a b. (k, a, b) \<in> R \<Longrightarrow> fits (rel_storage_key k a b) []"
  shows "does (remove_kind h key kind) s (\<lambda>_ s'.
    relates inv view s' (R - {(kind, key, b) |b. True} - {(kind, a, key) |a. True}) \<and> beside view s s')"
proof -
  let ?out = "map fst (scan_prefix (en_art s) (rel_prefix False kind key))"
  let ?f = "\<lambda>k. (kind, key, drop (length (rel_prefix False kind key)) k)"
  let ?b = "\<lambda>k. (kind, drop (length (rel_prefix True kind key)) k, key)"
  have hashes: "no_hash a" "no_hash b" if "(k, a, b) \<in> R" for k a b
    using r that by (auto simp: relates_def rels_def)
  have out: "set ?out = (\<lambda>b. rel_prefix False kind key @ b) ` {b. (kind, key, b) \<in> R}"
    using scan_relations [OF r key] by simp
  have one: "does (oseq (remove_outgoing h key kind) ?out) s
      (\<lambda>_ s'. relates inv view s' (R - ?f ` set ?out) \<and> beside view s s')"
  proof (rule does_remove_all [OF _ r])
    fix k s' R' assume k: "k \<in> set ?out" and r': "relates inv view s' R'"
    then obtain b where "k = rel_prefix False kind key @ b" "(kind, key, b) \<in> R" unfolding out by blast
    then show "does (remove_outgoing h key kind k) s' (\<lambda>_ s''. relates inv view s'' (R' - {?f k}) \<and> beside view s' s'')"
      using does_remove_outgoing [OF r' key, of b kind] hashes fit by simp
  qed
  have all_out: "R - ?f ` set ?out = R - {(kind, key, b) |b. True}"
    unfolding out by (auto simp: image_image)
  have two: "does (oseq (remove_incoming h key kind) (map fst (scan_prefix (en_art s1) (rel_prefix True kind key)))) s1
      (\<lambda>_ s'. relates inv view s' (R - {(kind, key, b) |b. True} - {(kind, a, key) |a. True}) \<and> beside view s s')"
    if s1: "relates inv view s1 (R - {(kind, key, b) |b. True})" "beside view s s1" for s1
  proof -
    let ?in = "map fst (scan_prefix (en_art s1) (rel_prefix True kind key))" and ?R = "R - {(kind, key, b) |b. True}"
    have inc: "set ?in = (\<lambda>a. rel_prefix True kind key @ a) ` {a. (kind, a, key) \<in> ?R}"
      using scan_relations [OF s1(1) key] by simp
    have run: "does (oseq (remove_incoming h key kind) ?in) s1
        (\<lambda>_ s'. relates inv view s' (?R - ?b ` set ?in) \<and> beside view s1 s')"
    proof (rule does_remove_all [OF _ s1(1)])
      fix k s' R' assume k: "k \<in> set ?in" and r': "relates inv view s' R'"
      then obtain a where "k = rel_prefix True kind key @ a" "(kind, a, key) \<in> R" unfolding inc by blast
      then show "does (remove_incoming h key kind k) s' (\<lambda>_ s''. relates inv view s'' (R' - {?b k}) \<and> beside view s' s'')"
        using does_remove_incoming [OF r' _ key, of a kind] hashes fit by simp
    qed
    have "?R - ?b ` set ?in = ?R - {(kind, a, key) |a. True}"
      unfolding inc by (auto simp: image_image)
    then show ?thesis using run s1(2) by (auto elim!: does_mono intro: beside_trans)
  qed
  show ?thesis
    unfolding remove_kind_def
    by (intro walk) (rule does_mono [OF one], intro walk, use two all_out in auto)
qed

lemma does_remove_relations:
  assumes r: "relates inv view s R" and key: "no_hash key" and fit: "\<And>k a b. (k, a, b) \<in> R \<Longrightarrow> fits (rel_storage_key k a b) []"
  shows "does (remove_relations_for h key) s (\<lambda>_ s'.
    relates inv view s' {(k, a, b) \<in> R. a \<noteq> key \<and> b \<noteq> key} \<and> beside view s s')"
proof -
  have "does (oseq (remove_kind h key) ks) s (\<lambda>_ s'.
      relates inv view s' {(k, a, b) \<in> R. k \<in> set ks \<longrightarrow> a \<noteq> key \<and> b \<noteq> key} \<and> beside view s s')"
    if "relates inv view s R" "\<And>k a b. (k, a, b) \<in> R \<Longrightarrow> fits (rel_storage_key k a b) []" for ks s R
    using that
  proof (induction ks arbitrary: s R)
    case Nil
    then show ?case by (simp add: does_def)
  next
    case (Cons k ks)
    let ?R = "R - {(k, key, b) |b. True} - {(k, a, key) |a. True}"
    obtain s1 where s1: "remove_kind h key k s = (Inr (), s1)" "relates inv view s1 ?R" "beside view s s1"
      using does_remove_kind [OF Cons.prems(1) key, of k] Cons.prems(2) by (fastforce elim!: doesE)
    have "does (oseq (remove_kind h key) ks) s1 (\<lambda>_ s'.
        relates inv view s' {(k, a, b) \<in> ?R. k \<in> set ks \<longrightarrow> a \<noteq> key \<and> b \<noteq> key} \<and> beside view s1 s')"
      using s1(2) Cons.prems(2) by (intro Cons.IH) auto
    moreover have "{(k, a, b) \<in> ?R. k \<in> set ks \<longrightarrow> a \<noteq> key \<and> b \<noteq> key} =
        {(k', a, b) \<in> R. k' \<in> set (k # ks) \<longrightarrow> a \<noteq> key \<and> b \<noteq> key}" by auto
    ultimately show ?case using s1(1,3) by (auto simp: does_def split: prod.splits sum.splits intro: beside_trans)
  qed
  from this [OF r fit, of ALL_RELATIONS] show ?thesis
    unfolding remove_relations_for_def by (simp add: all_relations cong: conj_cong)
qed

end

section \<open>Properties\<close>

text \<open>C19: Relations are a set of triples, over any backend: \<open>associate\<close> of two admissible keys (whose
  entries are no prefixes of others) succeeds, adds exactly its triple and touches nothing outside the
  rows of relations; afterwards the outgoing relations of a key are the sorted list of its targets, the
  relations of a key are those in either direction, and validation has nothing to report.\<close>

theorem associate_inserts_a_triple:
  assumes "backend_store good view (ho_backend h) fits means" and "relates good view s R"
    and "rel_key_problem a = None" "utf8_valid a" "rel_key_problem b = None" "utf8_valid b"
    and "keys_apart (en_art s) (rel_art_key False k a b)" "keys_apart (en_art s) (rel_art_key True k b a)"
    and "fits (rel_storage_key k a b) [0]" and "no_hash x"
  shows "\<exists>s'. associate h a k b s = (Inr (), s') \<and> relates good view s' (insert (k, a, b) R) \<and> beside view s s' \<and>
    relations_outgoing s' kind x = sorted_list_of_set {y. (kind, x, y) \<in> insert (k, a, b) R} \<and>
    set (related_to s' x) = {(kind, y). (kind, x, y) \<in> insert (k, a, b) R \<or> (kind, y, x) \<in> insert (k, a, b) R} \<and>
    validate_relations h s' = []"
proof -
  have e: "engine_store good view h fits means" using assms(1) by (simp add: engine_store_def)
  obtain s' where s': "associate h a k b s = (Inr (), s')" "relates good view s' (insert (k, a, b) R)" "beside view s s'"
    using engine_store.does_associate [OF e assms(2-9)] by (auto elim!: doesE)
  then show ?thesis
    using outgoing_list [OF s'(2) assms(10)] related_set [OF s'(2) assms(10)] engine_store.validate_clean [OF e s'(2)]
    by blast
qed

text \<open>C20: The removal of the relations of a key takes out exactly the triples that involve it, in both
  directions and of all kinds, with their row and both entries of the radix tree: afterwards the key is
  related to nothing, the other relations are unchanged, and validation has nothing to report.\<close>

theorem remove_relations_takes_out_the_key:
  assumes "backend_store good view (ho_backend h) fits means" and "relates good view s R"
    and "no_hash key" "\<And>k a b. (k, a, b) \<in> R \<Longrightarrow> fits (rel_storage_key k a b) []"
  shows "\<exists>s'. remove_relations_for h key s = (Inr (), s') \<and> beside view s s' \<and>
    relates good view s' {(k, a, b) \<in> R. a \<noteq> key \<and> b \<noteq> key} \<and>
    related_to s' key = [] \<and> validate_relations h s' = []"
proof -
  have e: "engine_store good view h fits means" using assms(1) by (simp add: engine_store_def)
  obtain s' where s': "remove_relations_for h key s = (Inr (), s')" "beside view s s'"
    "relates good view s' {(k, a, b) \<in> R. a \<noteq> key \<and> b \<noteq> key}"
    using engine_store.does_remove_relations [OF e assms(2-4)] by (auto elim!: doesE)
  then show ?thesis
    using related_set [OF s'(3) assms(3)] engine_store.validate_clean [OF e s'(3)] by auto
qed

lemma ram_host_store: "backend_store (\<lambda>s. bt_wf (im_map s)) (\<lambda>s. bt_get (im_map s)) (ho_backend (ram_host alnum avx2))
    (\<lambda>_ _. True) Some"
  by (simp add: ram_host_def ram_store.backend_store_axioms)

lemma empty_engine_relates: "relates (\<lambda>s. bt_wf (im_map s)) (\<lambda>s. bt_get (im_map s)) empty_engine {}"
  using empty_engine_inv
  by (simp add: relates_def rel_rows_def rel_synced_def rels_def empty_engine_def engine_new_def in_memory_new_def
    art_map_empty art_new_def)

lemma sample_keys:
  "rel_key_problem (ascii ''a'') = None" "utf8_valid (ascii ''a'')" "rel_key_problem (ascii ''b'') = None" "utf8_valid (ascii ''b'')"
  "no_hash (ascii ''a'')" "no_hash (ascii ''b'')" "keys_apart (en_art empty_engine) q"
  by (simp_all add: rel_key_problem_def key_problem_def ascii_def no_hash_def utf8_valid.simps(2) keys_apart_def
    empty_engine_def engine_new_def art_new_def art_map_empty)

theorem associate_inserts_a_triple_witness:
  "\<exists>s'. associate (ram_host (\<lambda>_. False) False) (ascii ''a'') Causes (ascii ''b'') empty_engine = (Inr (), s') \<and>
     relations_outgoing s' Causes (ascii ''a'') = [ascii ''b'']"
  using associate_inserts_a_triple [OF ram_host_store empty_engine_relates sample_keys(1-4,7,7) TrueI sample_keys(5),
    of "\<lambda>_. False" False Causes Causes] by auto

lemma related_engine:
  "\<exists>s :: in_memory engine. relates (\<lambda>s. bt_wf (im_map s)) (\<lambda>s. bt_get (im_map s)) s {(Causes, ascii ''a'', ascii ''b'')}"
proof -
  have "engine_store (\<lambda>s. bt_wf (im_map s)) (\<lambda>s. bt_get (im_map s)) (ram_host (\<lambda>_. False) False) (\<lambda>_ _. True) Some"
    by (simp add: engine_store_def ram_host_store)
  from engine_store.does_associate [OF this empty_engine_relates sample_keys(1-4,7,7) TrueI, of Causes]
  show ?thesis by (auto elim!: doesE)
qed

theorem remove_relations_takes_out_the_key_witness:
  "\<exists>s s'. set (related_to s (ascii ''a'')) = {(Causes, ascii ''b'')} \<and>
     remove_relations_for (ram_host (\<lambda>_. False) False) (ascii ''a'') s = (Inr (), s') \<and> related_to s' (ascii ''a'') = []"
proof -
  obtain s :: "in_memory engine"
    where s: "relates (\<lambda>s. bt_wf (im_map s)) (\<lambda>s. bt_get (im_map s)) s {(Causes, ascii ''a'', ascii ''b'')}"
    using related_engine by blast
  have "set (related_to s (ascii ''a'')) = {(Causes, ascii ''b'')}"
    using related_set [OF s sample_keys(5)] by (auto simp: ascii_def)
  then show ?thesis
    using remove_relations_takes_out_the_key [OF ram_host_store s sample_keys(5) TrueI] by blast
qed

end
