(* ===== verification/Engine_Delete.thy ===== *)
theory Engine_Delete
  imports Engine_Relations
begin

text \<open>
  Physical deletion: which rows of the storage die with a memory, that every index forgets it, and that
  its ids resolve to nothing as long as the reverse index of ids is complete.
\<close>

section \<open>What a deletion removes\<close>

definition dead_rows :: "bytes \<Rightarrow> memory_meta option \<Rightarrow> bytes set" where
  "dead_rows sk m = {sk, state_key sk, validity_key sk, ttl_key sk, event_key sk, meta_key sk} \<union>
     (case m of Some m \<Rightarrow> {version_row_key (mm_version_id m)} | None \<Rightarrow> {})"

text \<open>The ids that resolve to a key are those listed for it.\<close>

definition ids_linked :: "'s engine \<Rightarrow> bool" where
  "ids_linked s \<longleftrightarrow> bt_wf (en_id_to_sk s) \<and> bt_wf (en_sk_ids s) \<and>
     (\<forall>did sk. bt_get (en_id_to_sk s) did = Some sk \<longleftrightarrow> did \<in> set (unwrap_or (bt_get (en_sk_ids s) sk) []))"

text \<open>The part of an engine that the relations do not read.\<close>

lemma relates_other:
  assumes r: "relates good view s R" and inv: "en_inv good s'"
    and v: "\<And>q. prefix (ascii ''sys/rel/'') q \<Longrightarrow> view (en_storage s') q = view (en_storage s) q"
    and t: "\<And>q. prefix (ascii ''rel/'') q \<or> prefix (ascii ''rev/'') q \<Longrightarrow> art_map (en_art s') q = art_map (en_art s) q"
  shows "relates good view s' R"
proof -
  let ?m = "view (en_storage s)" and ?m' = "view (en_storage s')" and ?t = "art_map (en_art s)" and ?t' = "art_map (en_art s')"
  have rows: "rel_rows ?m" and sync: "rel_synced ?m ?t" and R: "rels ?m = R" using r by (simp_all add: relates_def)
  have rels: "rels ?m' = rels ?m" using v by (simp add: rels_def)
  have keys: "prefix (ascii ''rel/'') (rel_art_key False k a b)" "prefix (ascii ''rev/'') (rel_art_key True k a b)" for k a b
    by (simp_all add: rel_art_key_def)
  have dom: "q \<in> dom ?t' \<longleftrightarrow> q \<in> dom ?t" if "prefix (ascii ''rel/'') q \<or> prefix (ascii ''rev/'') q" for q
    using t [OF that] by (simp add: domIff)
  have "rel_rows ?m'" using rows v unfolding rel_rows_def by metis
  moreover have "rel_synced ?m' ?t'"
    using sync unfolding rel_synced_def rels
    by (intro conjI ballI impI) (simp_all add: dom keys)
  ultimately show ?thesis using inv rels R by (simp add: relates_def)
qed

lemma ram_keys_remove: "ram_keys m \<Longrightarrow> ram_keys (bt_remove k m)"
  by (auto simp: ram_keys_def)

lemma md_not_rel:
  assumes "prefix (ascii ''md/'') k"
  shows "\<not> prefix (ascii ''sys/rel/'') k" "\<not> prefix (ascii ''rel/'') k" "\<not> prefix (ascii ''rev/'') k"
  using assms by (auto simp: ascii_def prefix_def)

lemma side_not_rel [simp]: "\<not> prefix (ascii ''sys/rel/'') (state_key k)" "\<not> prefix (ascii ''sys/rel/'') (validity_key k)"
  "\<not> prefix (ascii ''sys/rel/'') (ttl_key k)" "\<not> prefix (ascii ''sys/rel/'') (event_key k)"
  "\<not> prefix (ascii ''sys/rel/'') (meta_key k)" "\<not> prefix (ascii ''sys/rel/'') (version_row_key k)"
  by (simp_all add: side_keys ascii_def)

lemma dead_rows_not_rel: "prefix (ascii ''md/'') sk \<Longrightarrow> q \<in> dead_rows sk m \<Longrightarrow> \<not> prefix (ascii ''sys/rel/'') q"
  by (auto simp: dead_rows_def md_not_rel split: option.splits)

text \<open>What the indexing state of a key looks like beside storage, RAM, radix tree and ids.\<close>

definition same_ids :: "'s engine \<Rightarrow> 's engine \<Rightarrow> bool" where
  "same_ids s s' \<longleftrightarrow> en_id_to_sk s' = en_id_to_sk s \<and> en_sk_ids s' = en_sk_ids s"

lemma unnote_dead_store [simp]: "en_storage (unnote_dead sk old s) = en_storage s" "en_ram (unnote_dead sk old s) = en_ram s"
  "en_art (unnote_dead sk old s) = en_art s" "en_id_to_sk (unnote_dead sk old s) = en_id_to_sk s"
  "en_sk_ids (unnote_dead sk old s) = en_sk_ids s"
  by (auto simp: unnote_dead_def unnote_vec_def split: option.split sum.split)

lemma fold_remove:
  "bt_wf m \<Longrightarrow> bt_wf (fold bt_remove ks m) \<and> bt_get (fold bt_remove ks m) k = (if k \<in> set ks then None else bt_get m k)"
  by (induction ks arbitrary: m) auto

lemma unlink_key_store [simp]: "en_storage (unlink_key sk s) = en_storage s" "en_ram (unlink_key sk s) = en_ram s"
  "en_art (unlink_key sk s) = en_art s"
  by (simp_all add: unlink_key_def Let_def)

lemma unlink_key_ids:
  assumes "ids_linked s"
  shows "ids_linked (unlink_key sk s)"
    "bt_get (en_id_to_sk (unlink_key sk s)) did = (if bt_get (en_id_to_sk s) did = Some sk then None else bt_get (en_id_to_sk s) did)"
proof -
  have wf: "bt_wf (en_id_to_sk s)" "bt_wf (en_sk_ids s)" using assms by (simp_all add: ids_linked_def)
  have link: "bt_get (en_id_to_sk s) did = Some k \<longleftrightarrow> did \<in> set (unwrap_or (bt_get (en_sk_ids s) k) [])" for did k
    using assms by (simp add: ids_linked_def)
  have get: "bt_get (en_id_to_sk (unlink_key sk s)) did =
      (if bt_get (en_id_to_sk s) did = Some sk then None else bt_get (en_id_to_sk s) did)" for did
    using link [of did sk] fold_remove [OF wf(1)] by (simp add: unlink_key_def Let_def)
  show "bt_get (en_id_to_sk (unlink_key sk s)) did = (if bt_get (en_id_to_sk s) did = Some sk then None else bt_get (en_id_to_sk s) did)"
    by (rule get)
  have "en_sk_ids (unlink_key sk s) = bt_remove sk (en_sk_ids s)" by (simp add: unlink_key_def Let_def)
  moreover have "k = sk" if "did \<in> set (unwrap_or (bt_get (en_sk_ids s) k) [])" "did \<in> set (unwrap_or (bt_get (en_sk_ids s) sk) [])" for did k
    using that link [of did] by (metis option.inject)
  moreover have "bt_wf (en_id_to_sk (unlink_key sk s))" using fold_remove [OF wf(1)] by (simp add: unlink_key_def Let_def)
  ultimately show "ids_linked (unlink_key sk s)"
    using wf(2) get link by (auto simp: ids_linked_def unwrap_or_def)
qed

lemma index_ids_linked:
  assumes "ids_linked s" "did \<notin> dom (bt_get (en_id_to_sk s))"
  shows "ids_linked (index_ids did doc sk s)"
proof -
  have wf: "bt_wf (en_id_to_sk s)" "bt_wf (en_sk_ids s)" using assms by (simp_all add: ids_linked_def)
  have link: "bt_get (en_id_to_sk s) d = Some k \<longleftrightarrow> d \<in> set (unwrap_or (bt_get (en_sk_ids s) k) [])" for d k
    using assms by (simp add: ids_linked_def)
  have "did \<notin> set (unwrap_or (bt_get (en_sk_ids s) k) [])" for k
    using link [of did k] assms(2) by (auto simp: domIff)
  then show ?thesis
    using wf link by (auto simp: ids_linked_def index_ids_def push_id_def unwrap_or_def)
qed

context engine_store
begin

lemma does_delete_meta:
  assumes i: "inv (en_storage s)" and fit: "\<And>q. q \<in> dead_rows sk m \<Longrightarrow> fits q []"
    and m: "m = read_meta (ho_backend h) (en_storage s) sk"
    and post: "\<And>s'. inv (en_storage s') \<Longrightarrow> en_ram s' = en_ram s \<Longrightarrow> en_art s' = en_art s \<Longrightarrow> same_ids s s' \<Longrightarrow>
      (\<And>q. view (en_storage s') q = (if q = meta_key sk \<or> (\<exists>r. m = Some r \<and> q = version_row_key (mm_version_id r)) then None
         else view (en_storage s) q)) \<Longrightarrow> P () s'"
  shows "does (delete_meta_rows h sk) s P"
proof (cases m)
  case None
  show ?thesis
    unfolding delete_meta_rows_def
    apply (rule does_bind, rule does_get)
    apply (simp only: m [symmetric] None option.case)
    apply (rule does_then, rule does_ret, rule does_then, rule does_mod, rule does_del)
    subgoal using i by (simp add: remove_entities_exact_def)
    subgoal using fit by (simp add: dead_rows_def)
    subgoal by (rule post) (simp_all add: remove_entities_exact_def same_ids_def None)
    done
next
  case (Some r)
  show ?thesis
    unfolding delete_meta_rows_def
    apply (rule does_bind, rule does_get)
    apply (simp only: m [symmetric] Some option.case)
    apply (rule does_then, rule does_del [OF i], rule fit, simp add: dead_rows_def Some)
    apply (rule does_then, rule does_mod, rule does_del)
    subgoal by (simp add: remove_entities_exact_def)
    subgoal using fit by (simp add: dead_rows_def)
    subgoal by (rule post) (simp_all add: remove_entities_exact_def same_ids_def Some)
    done
qed

lemma does_delete:
  assumes r: "relates inv view s R" and key: "prefix (ascii ''md/'') sk" "no_hash sk"
    and m: "m = read_meta (ho_backend h) (en_storage s) sk"
    and fit: "\<And>q. q \<in> dead_rows sk m \<Longrightarrow> fits q []" "\<And>k a b. (k, a, b) \<in> R \<Longrightarrow> fits (rel_storage_key k a b) []"
  shows "does (engine_delete h sk) s (\<lambda>existed s'.
    existed = (doc_blob h s sk \<noteq> None) \<and> relates inv view s' {(k, a, b) \<in> R. a \<noteq> sk \<and> b \<noteq> sk} \<and>
    (\<forall>q. \<not> prefix (ascii ''sys/rel/'') q \<longrightarrow>
      view (en_storage s') q = (if q \<in> dead_rows sk m then None else view (en_storage s) q)) \<and>
    en_ram s' = bt_remove sk (en_ram s) \<and> (ids_linked s \<longrightarrow> ids_linked s' \<and> (\<forall>did. bt_get (en_id_to_sk s') did =
      (if bt_get (en_id_to_sk s) did = Some sk then None else bt_get (en_id_to_sk s) did))))"
proof -
  have i: "inv (en_storage s)" "art_inv (en_art s)" "ram_keys (en_ram s)" using r by (simp_all add: relates_def en_inv_def)
  have old: "sto_get h s sk = view (en_storage s) sk"
    using i(1) fit(1) by (intro sto_get_view) (simp_all add: dead_rows_def)
  let ?Q = "\<lambda>existed s'. existed = (doc_blob h s sk \<noteq> None) \<and> relates inv view s' {(k, a, b) \<in> R. a \<noteq> sk \<and> b \<noteq> sk} \<and>
    (\<forall>q. \<not> prefix (ascii ''sys/rel/'') q \<longrightarrow>
      view (en_storage s') q = (if q \<in> dead_rows sk m then None else view (en_storage s) q)) \<and>
    en_ram s' = bt_remove sk (en_ram s) \<and> (ids_linked s \<longrightarrow> ids_linked s' \<and> (\<forall>did. bt_get (en_id_to_sk s') did =
      (if bt_get (en_id_to_sk s) did = Some sk then None else bt_get (en_id_to_sk s) did)))"
  have tail: "does (othen (remove_relations_for h sk) (othen (omod (unlink_key sk))
      (oret (bt_get (en_ram s) sk \<noteq> None \<or> sto_get h s sk \<noteq> None)))) s2 ?Q"
    if s2: "relates inv view s2 R" "same_ids s s2" "en_ram s2 = bt_remove sk (en_ram s)"
      "\<And>q. view (en_storage s2) q = (if q \<in> dead_rows sk m then None else view (en_storage s) q)" for s2
  proof (rule does_then, rule does_mono [OF does_remove_relations [OF s2(1) key(2) fit(2)]])
    fix s3 :: "'s engine" and u assume s3: "relates inv view s3 {(k, a, b). (k, a, b) \<in> R \<and> a \<noteq> sk \<and> b \<noteq> sk} \<and> beside view s2 s3"
    have b: "en_ram s3 = bt_remove sk (en_ram s)" "en_id_to_sk s3 = en_id_to_sk s" "en_sk_ids s3 = en_sk_ids s"
      "\<And>q. \<not> prefix (ascii ''sys/rel/'') q \<Longrightarrow> view (en_storage s3) q = view (en_storage s2) q"
      using s3 s2(2,3) by (simp_all add: beside_def same_ids_def)
    have rel: "relates inv view (unlink_key sk s3) {(k, a, b). (k, a, b) \<in> R \<and> a \<noteq> sk \<and> b \<noteq> sk}"
      using s3 by (auto simp: relates_def en_inv_def)
    have "ids_linked s \<Longrightarrow> ids_linked s3" by (simp add: ids_linked_def b)
    then have ids: "ids_linked s \<longrightarrow> ids_linked (unlink_key sk s3) \<and> (\<forall>did. bt_get (en_id_to_sk (unlink_key sk s3)) did =
        (if bt_get (en_id_to_sk s) did = Some sk then None else bt_get (en_id_to_sk s) did))"
      using unlink_key_ids [of s3 sk] b(2) by simp
    have "(bt_get (en_ram s) sk \<noteq> None \<or> sto_get h s sk \<noteq> None) = (doc_blob h s sk \<noteq> None)"
      by (simp add: doc_blob_def split: option.split)
    then show "does (othen (omod (unlink_key sk)) (oret (bt_get (en_ram s) sk \<noteq> None \<or> sto_get h s sk \<noteq> None))) s3 ?Q"
      using rel b(1,4) s2(4) ids by (intro does_then does_mod does_ret) simp
  qed
  show ?thesis
    unfolding engine_delete_def Let_def
    apply (rule does_bind, rule does_get)
    apply (rule does_then, rule does_mod)
    apply (rule does_then, rule does_del)
    subgoal using i by simp
    subgoal using fit(1) by (simp add: dead_rows_def)
    apply (rule does_then, rule does_mod)
    apply (rule does_then, rule does_del)
    subgoal by simp
    subgoal using fit(1) by (simp add: dead_rows_def)
    apply (rule does_then, rule does_del)
    subgoal by simp
    subgoal using fit(1) by (simp add: dead_rows_def)
    apply (rule does_then, rule does_del)
    subgoal by simp
    subgoal using fit(1) by (simp add: dead_rows_def)
    apply (rule does_then, rule does_del)
    subgoal by simp
    subgoal using fit(1) by (simp add: dead_rows_def)
    subgoal premises prems for st1 st2 st3 st4 st5
    proof -
      let ?s5 = "unnote_dead sk (sto_get h s sk) s\<lparr>en_storage := st1,
        en_ram := bt_remove sk (en_ram (unnote_dead sk (sto_get h s sk) s\<lparr>en_storage := st1\<rparr>)),
        en_storage := st2, en_storage := st3, en_storage := st4, en_storage := st5\<rparr>"
      have v5: "view st5 = (view (en_storage s))(sk := None, state_key sk := None, validity_key sk := None,
          ttl_key sk := None, event_key sk := None)" using prems by simp
      have mk: "meta_key sk \<notin> {sk, state_key sk, validity_key sk, ttl_key sk, event_key sk}"
        using key(1) by (auto simp: side_keys ascii_def prefix_def)
      have m5: "m = read_meta (ho_backend h) (en_storage ?s5) sk"
        using m mk prems(9) i(1) fit(1) [of "meta_key sk"] by (simp add: read_meta_view dead_rows_def v5)
      show ?thesis
      proof (rule does_then, rule does_delete_meta [OF _ fit(1) m5])
        show "inv (en_storage ?s5)" using prems by simp
        fix s6 :: "'s engine" assume s6: "inv (en_storage s6)" "en_ram s6 = en_ram ?s5" "en_art s6 = en_art ?s5" "same_ids ?s5 s6"
          "\<And>q. view (en_storage s6) q = (if q = meta_key sk \<or> (\<exists>r. m = Some r \<and> q = version_row_key (mm_version_id r))
             then None else view (en_storage ?s5) q)"
        let ?s7 = "s6\<lparr>en_art := fst (art_delete (en_art s6) sk)\<rparr>"
        let ?s8 = "?s7\<lparr>en_lexical := lx_remove (en_lexical ?s7) sk\<rparr>"
        have st5: "en_storage ?s5 = st5" by simp
        have v6: "view (en_storage s6) q = (if q \<in> dead_rows sk m then None else view (en_storage s) q)" for q
        proof -
          have "view (en_storage ?s5) q = (if q \<in> {sk, state_key sk, validity_key sk, ttl_key sk, event_key sk} then None
              else view (en_storage s) q)"
            unfolding st5 v5 fun_upd_apply by simp
          moreover have "q \<in> dead_rows sk m \<longleftrightarrow> q \<in> {sk, state_key sk, validity_key sk, ttl_key sk, event_key sk} \<or>
              q = meta_key sk \<or> (\<exists>r. m = Some r \<and> q = version_row_key (mm_version_id r))"
            by (cases m) (auto simp: dead_rows_def)
          ultimately show ?thesis unfolding s6(5) by presburger
        qed
        have art6: "en_art s6 = en_art s" and ram6: "en_ram s6 = bt_remove sk (en_ram s)" using s6(2,3) by simp_all
        have "relates inv view ?s8 R"
        proof (rule relates_other [OF r])
          show "en_inv inv ?s8" using i(2,3) s6(1) art6 ram6 by (simp add: en_inv_def art_delete_ok ram_keys_remove)
          show "view (en_storage ?s8) q = view (en_storage s) q" if "prefix (ascii ''sys/rel/'') q" for q
            using dead_rows_not_rel [OF key(1)] that by (auto simp: v6)
          show "art_map (en_art ?s8) q = art_map (en_art s) q" if "prefix (ascii ''rel/'') q \<or> prefix (ascii ''rev/'') q" for q
            using md_not_rel [OF key(1)] that i(2) by (auto simp: art6 art_delete_ok)
        qed
        then have "does (othen (remove_relations_for h sk) (othen (omod (unlink_key sk))
              (oret (bt_get (en_ram s) sk \<noteq> None \<or> sto_get h s sk \<noteq> None)))) ?s8 ?Q"
          using ram6 s6(4) v6 by (intro tail) (simp_all add: same_ids_def)
        then show "does (othen (art_del sk) (othen (omod (\<lambda>s. s\<lparr>en_lexical := lx_remove (en_lexical s) sk\<rparr>))
            (othen (remove_relations_for h sk) (othen (omod (unlink_key sk))
              (oret (bt_get (en_ram s) sk \<noteq> None \<or> sto_get h s sk \<noteq> None)))))) s6 ?Q"
          by (intro does_then [of "art_del sk"] does_art_del does_then [of "omod (\<lambda>s. s\<lparr>en_lexical := lx_remove (en_lexical s) sk\<rparr>)"] does_mod)
      qed
    qed
    done
qed

end

section \<open>Validity windows\<close>

context engine_store
begin

lemma does_materialize:
  assumes ok: "en_inv inv s" and blob: "\<And>w. bt_get (en_ram s) sk = Some w \<Longrightarrow> w \<noteq> [] \<and> fits sk w"
    and post: "\<And>s'. en_inv inv s' \<Longrightarrow> (\<And>q. q \<noteq> sk \<Longrightarrow> view (en_storage s') q = view (en_storage s) q) \<Longrightarrow>
      (\<And>q. fits q [] \<Longrightarrow> doc_blob h s' q = doc_blob h s q) \<Longrightarrow> P () s'"
  shows "does (materialize_ram_doc h sk) s P"
proof (cases "bt_get (en_ram s) sk")
  case None
  then show ?thesis
    unfolding materialize_ram_doc_def by (intro does_bind does_get) (use ok in \<open>auto intro!: does_ret post\<close>)
next
  case (Some w)
  have i: "inv (en_storage s)" "ram_keys (en_ram s)" "bt_wf (en_ram s)" using ok by (simp_all add: en_inv_def ram_keys_def)
  have "does (othen (omod (\<lambda>s. s\<lparr>en_ram := bt_remove sk (en_ram s)\<rparr>)) (sto_put h sk w)) s P"
  proof (rule does_then, rule does_mod, rule does_put)
    let ?s = "s\<lparr>en_ram := bt_remove sk (en_ram s)\<rparr>"
    show "inv (en_storage ?s)" "fits sk w" using i blob [OF Some] by simp_all
    fix st assume st: "inv st" "view st = (view (en_storage ?s))(sk := means w)"
    show "P () (?s\<lparr>en_storage := st\<rparr>)"
    proof (rule post)
      show "en_inv inv (?s\<lparr>en_storage := st\<rparr>)" using ok st by (simp add: en_inv_def ram_keys_remove)
      show "view (en_storage (?s\<lparr>en_storage := st\<rparr>)) q = view (en_storage s) q" if "q \<noteq> sk" for q using st that by simp
      show "doc_blob h (?s\<lparr>en_storage := st\<rparr>) q = doc_blob h s q" if "fits q []" for q
        using st i that Some blob [OF Some] means_some [of w]
        by (cases "q = sk") (simp_all add: doc_blob_view split: option.split)
    qed
  qed
  then show ?thesis
    unfolding materialize_ram_doc_def by (intro does_bind does_get) (simp add: Some)
qed

lemma does_set_validity:
  assumes ok: "en_inv inv s" and blob: "\<And>w. bt_get (en_ram s) sk = Some w \<Longrightarrow> w \<noteq> [] \<and> fits sk w"
    and md: "prefix (ascii ''md/'') sk" and fit: "\<And>v. length v \<in> {0, 16} \<Longrightarrow> fits (validity_key sk) v"
    and post: "\<And>s'. en_inv inv s' \<Longrightarrow>
      (\<And>q. q \<noteq> sk \<Longrightarrow> q \<noteq> validity_key sk \<Longrightarrow> view (en_storage s') q = view (en_storage s) q) \<Longrightarrow>
      (\<And>q. prefix (ascii ''md/'') q \<Longrightarrow> fits q [] \<Longrightarrow> doc_blob h s' q = doc_blob h s q) \<Longrightarrow>
      view (en_storage s') (validity_key sk) =
        (if until \<le> from then None else Some (le_enc 8 (unat from) @ le_enc 8 (unat until))) \<Longrightarrow> P () s'"
  shows "does (set_validity h sk from until) s P"
  unfolding set_validity_def
proof (rule does_then, rule does_materialize [OF ok blob])
  fix s1 :: "'s engine" assume s1: "en_inv inv s1" "\<And>q. q \<noteq> sk \<Longrightarrow> view (en_storage s1) q = view (en_storage s) q"
    "\<And>q. fits q [] \<Longrightarrow> doc_blob h s1 q = doc_blob h s q"
  have i: "inv (en_storage s1)" using s1(1) by (simp add: en_inv_def)
  let ?w = "le_enc 8 (unat from) @ le_enc 8 (unat until)"
  have w: "length ?w = 16" "?w \<noteq> []" by (simp_all flip: length_0_conv)
  have other: "q \<noteq> validity_key sk" if "prefix (ascii ''md/'') q" for q
    using that by (auto simp: side_keys ascii_def prefix_def)
  have go: "P () (s1\<lparr>en_storage := st\<rparr>)" if st: "inv st"
      "view st = (view (en_storage s1))(validity_key sk := (if until \<le> from then None else Some ?w))" for st
  proof (rule post)
    show "en_inv inv (s1\<lparr>en_storage := st\<rparr>)" using s1(1) st(1) by (simp add: en_inv_def)
    show "doc_blob h (s1\<lparr>en_storage := st\<rparr>) q = doc_blob h s q" if "prefix (ascii ''md/'') q" "fits q []" for q
    proof -
      have "doc_blob h (s1\<lparr>en_storage := st\<rparr>) q = doc_blob h s1 q"
        using that st i other [OF that(1)] by (simp add: doc_blob_view split: option.split)
      then show ?thesis by (simp add: s1(3) [OF that(2)])
    qed
  qed (use st s1(2) in auto)
  show "does (on_storage (\<lambda>st. store_validity (ho_backend h) st sk from until)) s1 P"
  proof (cases "until \<le> from")
    case True
    have "does (sto_del h (validity_key sk)) s1 P" using fit [of "[]"] go True by (intro does_del [OF i]) auto
    then show ?thesis using True by (simp add: sto_del_def store_validity_def)
  next
    case False
    have "does (sto_put h (validity_key sk) ?w) s1 P"
      using fit [of ?w] w go False by (intro does_put [OF i]) (auto simp: means_some)
    then show ?thesis using False by (simp add: sto_put_def store_validity_def)
  qed
qed

end

section \<open>Properties\<close>

definition window_start :: "'s host \<Rightarrow> 's engine \<Rightarrow> bytes \<Rightarrow> u64" where
  "window_start h s sk =
     (case validity_window (ho_backend h) (en_storage s) sk of Some (from, _) \<Rightarrow> from | None \<Rightarrow> 0)"

lemma ram_keys_wf: "relates good view s R \<Longrightarrow> bt_wf (en_ram s)"
  by (simp add: relates_def en_inv_def ram_keys_def)

text \<open>C2: A deletion leaves no trace, over any backend: it reports whether the memory was there, the
  document, its state, validity, expiry, event and metadata rows and the row of its version are gone,
  every relation that involves it is gone, every id that resolved to it resolves to nothing, and all other
  rows, documents and ids are as before.\<close>

theorem delete_leaves_no_trace:
  assumes "backend_store good view (ho_backend h) fits means" and "relates good view s R" and "ids_linked s"
    and "prefix (ascii ''md/'') sk" "no_hash sk"
    and "\<And>q. q \<in> dead_rows sk (read_meta (ho_backend h) (en_storage s) sk) \<Longrightarrow> fits q []"
    and "\<And>k a b. (k, a, b) \<in> R \<Longrightarrow> fits (rel_storage_key k a b) []"
  shows "\<exists>s'. engine_delete h sk s = (Inr (doc_blob h s sk \<noteq> None), s') \<and>
    relates good view s' {(k, a, b) \<in> R. a \<noteq> sk \<and> b \<noteq> sk} \<and>
    (\<forall>q. \<not> prefix (ascii ''sys/rel/'') q \<longrightarrow> view (en_storage s') q =
      (if q \<in> dead_rows sk (read_meta (ho_backend h) (en_storage s) sk) then None else view (en_storage s) q)) \<and>
    (\<forall>k. prefix (ascii ''md/'') k \<longrightarrow> fits k [] \<longrightarrow> doc_blob h s' k = (if k = sk then None else doc_blob h s k)) \<and>
    ids_linked s' \<and> (\<forall>did. storage_key_of s' did = (if storage_key_of s did = Some sk then None else storage_key_of s did))"
proof -
  let ?m = "read_meta (ho_backend h) (en_storage s) sk"
  have e: "engine_store good view h fits means" using assms(1) by (simp add: engine_store_def)
  obtain s' where s': "engine_delete h sk s = (Inr (doc_blob h s sk \<noteq> None), s')"
    "relates good view s' {(k, a, b) \<in> R. a \<noteq> sk \<and> b \<noteq> sk}"
    "\<And>q. \<not> prefix (ascii ''sys/rel/'') q \<Longrightarrow> view (en_storage s') q = (if q \<in> dead_rows sk ?m then None else view (en_storage s) q)"
    "en_ram s' = bt_remove sk (en_ram s)" "ids_linked s'"
    "\<And>did. bt_get (en_id_to_sk s') did = (if bt_get (en_id_to_sk s) did = Some sk then None else bt_get (en_id_to_sk s) did)"
    using engine_store.does_delete [OF e assms(2,4,5) refl assms(6,7)] assms(3) by (auto elim!: doesE)
  have good: "good (en_storage s)" "good (en_storage s')" using assms(2) s'(2) by (simp_all add: relates_def en_inv_def)
  have doc: "doc_blob h s' k = (if k = sk then None else doc_blob h s k)" if k: "prefix (ascii ''md/'') k" "fits k []" for k
  proof -
    have "k \<in> dead_rows sk ?m \<longleftrightarrow> k = sk"
      using k(1) by (cases ?m) (auto simp: dead_rows_def side_keys ascii_def prefix_def)
    then show ?thesis
      using k s'(3) [of k] s'(4) ram_keys_wf [OF assms(2)] md_not_rel(1) [OF k(1)]
      by (cases "k = sk")
        (simp_all add: engine_store.doc_blob_view [OF e good(1)] engine_store.doc_blob_view [OF e good(2)] split: option.split)
  qed
  show ?thesis
  proof (intro exI [of _ s'] conjI allI impI)
    show "storage_key_of s' did = (if storage_key_of s did = Some sk then None else storage_key_of s did)" for did
      by (simp add: storage_key_of_def s'(6))
  qed (use s' doc in blast)+
qed

text \<open>C34: Invalidation closes the window of validity and keeps the document: from then on the memory is
  valid exactly from the start of its window (zero without a window) up to the instant given.  When that
  instant is not after the start, the window is deleted instead and the memory is valid at every time.\<close>

theorem invalidate_closes_the_window:
  assumes "backend_store good view (ho_backend h) fits means" and "en_inv good s"
    and "prefix (ascii ''md/'') sk" "\<And>w. bt_get (en_ram s) sk = Some w \<Longrightarrow> w \<noteq> [] \<and> fits sk w"
    and "\<And>v. length v \<in> {0, 16} \<Longrightarrow> fits (validity_key sk) v"
  shows "\<exists>s'. invalidate h sk now s = (Inr (), s') \<and> en_inv good s' \<and>
    (\<forall>t. validity_at (ho_backend h) (en_storage s') sk t \<longleftrightarrow> now \<le> window_start h s sk \<or> window_start h s sk \<le> t \<and> t < now) \<and>
    (\<forall>k. prefix (ascii ''md/'') k \<longrightarrow> fits k [] \<longrightarrow> doc_blob h s' k = doc_blob h s k)"
proof -
  let ?start = "window_start h s sk"
  have e: "engine_store good view h fits means" using assms(1) by (simp add: engine_store_def)
  have run: "invalidate h sk now s = set_validity h sk ?start now s"
    by (simp add: invalidate_def obind_def oget_def window_start_def)
  have "does (set_validity h sk ?start now) s (\<lambda>_ s'. en_inv good s' \<and>
    (\<forall>k. prefix (ascii ''md/'') k \<longrightarrow> fits k [] \<longrightarrow> doc_blob h s' k = doc_blob h s k) \<and>
    view (en_storage s') (validity_key sk) = (if now \<le> ?start then None else Some (le_enc 8 (unat ?start) @ le_enc 8 (unat now))))"
    by (rule engine_store.does_set_validity [OF e assms(2,4,3,5)]) auto
  then obtain s' where s': "set_validity h sk ?start now s = (Inr (), s')" "en_inv good s'"
    "\<forall>k. prefix (ascii ''md/'') k \<longrightarrow> fits k [] \<longrightarrow> doc_blob h s' k = doc_blob h s k"
    "view (en_storage s') (validity_key sk) = (if now \<le> ?start then None else Some (le_enc 8 (unat ?start) @ le_enc 8 (unat now)))"
    by (auto elim!: doesE)
  have "kv_store good view (be_put (ho_backend h)) (be_get (ho_backend h)) (be_scan (ho_backend h)) (be_del (ho_backend h)) fits means"
    using assms(1) by (simp add: backend_store_def)
  then have "be_get (ho_backend h) (en_storage s') (validity_key sk) = view (en_storage s') (validity_key sk)"
    using s'(2) assms(5) [of "[]"] by (simp add: kv_store.get_view en_inv_def)
  then show ?thesis
    using s' by (intro exI [of _ s']) (simp add: run validity_at_def)
qed

text \<open>Reverse indexes drift: when a memory is overwritten under a clock without one of its earlier
  (node, counter) pairs, that pair keeps naming the key even after the deletion of the memory, although
  deletion is meant to unlink every pair of the dead key.\<close>

theorem overwritten_clock_survives_deletion:
  assumes "bt_wf (en_clock_index s)" "bt_wf (en_sk_clocks s)" and "sk \<in> set (keys_for_clock s n c)" and "(n, c) \<notin> set (vc_entries (md_clock doc))"
  shows "sk \<in> set (keys_for_clock (unlink_key sk (index_ids did doc sk s)) n c)"
proof -
  have entry: "bt_wf m \<Longrightarrow> (n, c) \<noteq> nc \<Longrightarrow> bt_wf (clock_entry sk nc m) \<and> bt_get (clock_entry sk nc m) (n, c) = bt_get m (n, c)" for nc m
    by (simp add: clock_entry_def Let_def)
  have drop: "bt_wf m \<Longrightarrow> (n, c) \<noteq> nc \<Longrightarrow> bt_wf (drop_clock_key sk nc m) \<and> bt_get (drop_clock_key sk nc m) (n, c) = bt_get m (n, c)" for nc m
    by (auto simp: drop_clock_key_def Let_def split: option.split)
  have index: "bt_wf m \<Longrightarrow> (n, c) \<notin> set es \<Longrightarrow>
      bt_wf (fold (clock_entry sk) es m) \<and> bt_get (fold (clock_entry sk) es m) (n, c) = bt_get m (n, c)" for es m
    by (induction es arbitrary: m) (simp_all add: entry)
  have unlink: "bt_wf m \<Longrightarrow> (n, c) \<notin> set es \<Longrightarrow> bt_get (fold (drop_clock_key sk) es m) (n, c) = bt_get m (n, c)" for es m
    by (induction es arbitrary: m) (simp_all add: drop)
  show ?thesis
    using assms index [OF assms(1,4)] unlink [of "fold (clock_entry sk) (vc_entries (md_clock doc)) (en_clock_index s)"]
    by (simp add: keys_for_clock_def unlink_key_def index_ids_def Let_def unwrap_or_def)
qed

definition engine_with_doc :: "in_memory engine" where
  "engine_with_doc = engine_new 1 1 \<lparr>im_map = [(ascii ''md/L2/a'', [7])]\<rparr>"

lemma engine_with_doc_relates: "relates (\<lambda>s. bt_wf (im_map s)) (\<lambda>s. bt_get (im_map s)) engine_with_doc {}"
proof -
  have "\<not> prefix (ascii ''sys/rel/'') (ascii ''md/L2/a'')" "rel_storage_key k a b \<noteq> ascii ''md/L2/a''" for k a b
    by (simp_all add: ascii_def rel_storage_key_def)
  then show ?thesis
    by (simp add: relates_def rel_rows_def rel_synced_def rels_def engine_with_doc_def engine_new_def en_inv_def
      art_map_empty art_new_def art_inv_def ram_keys_def bt_wf_def)
qed

theorem delete_leaves_no_trace_witness:
  "\<exists>s'. engine_delete (ram_host (\<lambda>_. False) False) (ascii ''md/L2/a'') engine_with_doc = (Inr True, s') \<and>
     bt_get (im_map (en_storage s')) (ascii ''md/L2/a'') = None"
proof -
  let ?h = "ram_host (\<lambda>_. False) False" and ?sk = "ascii ''md/L2/a''"
  have key: "prefix (ascii ''md/'') ?sk" "no_hash ?sk" by (simp_all add: ascii_def no_hash_def)
  have ids: "ids_linked engine_with_doc"
    by (simp add: ids_linked_def engine_with_doc_def engine_new_def unwrap_or_def)
  have was: "doc_blob ?h engine_with_doc ?sk \<noteq> None"
    by (simp add: doc_blob_def sto_get_def engine_with_doc_def engine_new_def ram_host_def ram_backend_def in_memory_get_def)
  have rel: "\<not> prefix (ascii ''sys/rel/'') ?sk" "?sk \<in> dead_rows ?sk m" for m
    by (simp_all add: ascii_def dead_rows_def)
  obtain s' where run: "engine_delete ?h ?sk engine_with_doc = (Inr (doc_blob ?h engine_with_doc ?sk \<noteq> None), s')"
    and gone: "\<forall>q. \<not> prefix (ascii ''sys/rel/'') q \<longrightarrow> bt_get (im_map (en_storage s')) q =
      (if q \<in> dead_rows ?sk (read_meta (ho_backend ?h) (en_storage engine_with_doc) ?sk) then None
       else bt_get (im_map (en_storage engine_with_doc)) q)"
    using delete_leaves_no_trace [OF ram_host_store engine_with_doc_relates ids key TrueI TrueI, of "\<lambda>_. False" False] by blast
  then show ?thesis using was rel by (intro exI [of _ s']) simp
qed

theorem invalidate_closes_the_window_witness:
  "\<exists>s'. invalidate (ram_host (\<lambda>_. False) False) (ascii ''md/L2/a'') 0 engine_with_doc = (Inr (), s') \<and>
     validity_at ram_backend (en_storage s') (ascii ''md/L2/a'') 1000"
proof -
  have "en_inv (\<lambda>s. bt_wf (im_map s)) engine_with_doc" using engine_with_doc_relates by (simp add: relates_def)
  moreover have "prefix (ascii ''md/'') (ascii ''md/L2/a'')" by (simp add: ascii_def)
  moreover have "ho_backend (ram_host (\<lambda>_. False) False) = ram_backend" by (simp add: ram_host_def)
  moreover have "bt_get (en_ram engine_with_doc) sk = None" for sk by (simp add: engine_with_doc_def engine_new_def)
  ultimately show ?thesis
    using invalidate_closes_the_window [OF ram_host_store, of engine_with_doc "ascii ''md/L2/a''" "\<lambda>_. False" False 0]
    by (fastforce simp: word_le_0_iff)
qed

theorem overwritten_clock_survives_deletion_witness:
  "ascii ''k'' \<in> set (keys_for_clock (unlink_key (ascii ''k'') (index_ids 2 first_doc (ascii ''k'')
     (empty_engine\<lparr>en_clock_index := [((1, 1), [ascii ''k''])]\<rparr>))) 1 1)"
  using overwritten_clock_survives_deletion [of "empty_engine\<lparr>en_clock_index := [((1, 1), [ascii ''k''])]\<rparr>" "ascii ''k''" 1 1 first_doc 2]
  by (simp add: keys_for_clock_def empty_engine_def engine_new_def bt_wf_def unwrap_or_def first_doc_def doc_new_def
    vc_entries_def vc_new_def iter_nodes_def)

end
