(* ===== verification/Facade_Keys.thy ===== *)
theory Facade_Keys
  imports Engine_Delete
begin

text \<open>
  Strings and keys of the facade (\<open>src/src/sgdb.rs\<close>): the check of every string that a caller writes,
  the resolution of the key a caller gives, the text companion of an embedding, the texts it compares.
\<close>

text \<open>\<open>negative::normalize_query\<close> and \<open>normalize_text\<close>: the tokens, one blank between two.\<close>

definition normalize_text :: "(bytes \<Rightarrow> bool) \<Rightarrow> bytes \<Rightarrow> bytes" where
  "normalize_text alnum s = join_with (ascii '' '') (tokenize alnum s)"

text \<open>The characters rejected in a written string are ASCII, so the bytes are looked at.\<close>

definition control_byte :: "u8 \<Rightarrow> bool" where
  "control_byte b \<longleftrightarrow> b < 0x20 \<or> b = 0x7F"

definition traversal :: "bytes \<Rightarrow> bool" where
  "traversal s \<longleftrightarrow> list_ex (\<lambda>c. c = ascii ''..'' \<or> c = ascii ''.'') (split_at (of_char CHR ''/'') s)"

definition RAW_KEY :: string where
  "RAW_KEY = ''raw key must not start with md/ (the server composes md/L{N}/<key>; pass the raw key to remember, the full storage key only to curate/explain/follow-ups)''"

definition written_problem :: "bytes \<Rightarrow> sgdb_error option" where
  "written_problem s =
     (if s = [] then Some (SE_Invalid ''empty written string'')
      else if prefix (ascii ''md/'') s then Some (SE_Invalid RAW_KEY)
      else if length s > MAX_KLEN then Some (SE_Invalid ''written string exceeds MAX_KLEN'')
      else case List.find (\<lambda>b. b = of_char CHR ''#'' \<or> control_byte b) s of
        Some b \<Rightarrow> Some (SE_Invalid (if b = of_char CHR ''#'' then ''reserved '#' in written string''
                                   else ''control/NUL char in written string''))
      | None \<Rightarrow> if traversal s then Some (SE_Invalid ''path traversal component in written string'') else None)"

definition validate_written :: "bytes \<Rightarrow> ('s, unit) op" where
  "validate_written s = guard_key (written_problem s)"

section \<open>Keys\<close>

definition resolve_storage_key :: "bytes \<Rightarrow> bytes" where
  "resolve_storage_key key =
     (if prefix (ascii ''md/'') key \<or> prefix (ascii ''sys/'') key then key else ascii ''md/'' @ key)"

definition LAYER_ORDER :: "memory_layer list" where
  "LAYER_ORDER = [L4Semantic, L5Procedural, L3EpisodicLong, L2EpisodicShort, L6Reserved, L0Sensory, L1Working, L7Identity]"

definition resolve_known_key :: "bool \<Rightarrow> art \<Rightarrow> bytes \<Rightarrow> bytes" where
  "resolve_known_key avx2 t key =
     (let sk = resolve_storage_key key in
      if prefix (ascii ''sys/'') sk \<or> art_get avx2 t sk \<noteq> None then sk
      else if \<not> prefix (ascii ''md/'') key \<and> \<not> prefix (ascii ''sys/'') key
      then unwrap_or (List.find (\<lambda>k. art_get avx2 t k \<noteq> None) (map (\<lambda>l. layer_key l key) LAYER_ORDER)) sk
      else sk)"

definition known_key :: "'s host \<Rightarrow> bytes \<Rightarrow> ('s, bytes) op" where
  "known_key h key = oget (\<lambda>s. resolve_known_key (ho_avx2 h) (en_art s) key)"

text \<open>\<open>md/L4/x\<close> and \<open>md/L5/x\<close> have their text under \<open>md/L2/x\<close>.\<close>

definition companion_key :: "bytes \<Rightarrow> bytes" where
  "companion_key sk = (if \<not> key_carries_embedding sk then sk else ascii ''md/L2/'' @ drop 6 sk)"

section \<open>Texts\<close>

text \<open>\<open>clamp\<close>: at most \<open>max\<close> bytes, cut before a character, and an ellipsis.\<close>

fun char_starts :: "nat \<Rightarrow> bytes list \<Rightarrow> nat list" where
  "char_starts i [] = []"
| "char_starts i (c # cs) = i # char_starts (i + length c) cs"

definition clamp_text :: "bytes \<Rightarrow> nat \<Rightarrow> bytes" where
  "clamp_text s m =
     (if length s \<le> m then s
      else let starts = takeWhile (\<lambda>i. i \<le> m) (char_starts 0 (chars_of s));
               cut = (if starts = [] then min m (length s) else List.last starts)
           in take cut s @ [0xE2, 0x80, 0xA6])"

text \<open>\<open>str::find\<close>, and the timestamp of a key \<open>.../ts/<hex>\<close>.\<close>

fun find_sub :: "bytes \<Rightarrow> bytes \<Rightarrow> nat option" where
  "find_sub p [] = (if p = [] then Some 0 else None)"
| "find_sub p (b # bs) = (if prefix p (b # bs) then Some 0 else map_option Suc (find_sub p bs))"

definition ts_from_key :: "bytes \<Rightarrow> u64 option" where
  "ts_from_key key =
     Option.bind (case find_sub (ascii ''/ts/'') key of
         Some p \<Rightarrow> Some (drop (p + 4) key)
       | None \<Rightarrow> strip_prefix (ascii ''ts/'') key)
       (\<lambda>hex. from_str_radix16 (takeWhile (\<lambda>b. b \<noteq> of_char CHR ''/'') hex))"

end
