(* ===== verification/Triggers.thy ===== *)
theory Triggers
  imports Facade_Keys
begin

text \<open>
  Activation by path (\<open>src/src/trigger.rs\<close> and the trigger operations of \<open>src/src/sgdb.rs\<close>): rules
  kept one per pattern under \<open>sys/trigger/\<close>, the glob they match with, the namespaces a path activates.
\<close>

section \<open>Rules on the wire (TRG1)\<close>

record trigger_rule =
  tr_pattern :: bytes
  tr_namespaces :: "bytes list"

definition TRIGGER_MAGIC :: bytes where
  "TRIGGER_MAGIC = ascii ''TRG1''"

definition TRIGGER_VERSION :: u8 where
  "TRIGGER_VERSION = 1"

definition TRIGGER_PREFIX :: bytes where
  "TRIGGER_PREFIX = ascii ''sys/trigger/''"

definition trigger_encode :: "trigger_rule \<Rightarrow> bytes" where
  "trigger_encode r = TRIGGER_MAGIC @ [TRIGGER_VERSION] @ enc_str 2 (tr_pattern r) @
     le_enc 2 (length (tr_namespaces r)) @ concat (map (enc_str 2) (tr_namespaces r))"

text \<open>A namespace is read like a string; an empty one ends the decoder.\<close>

definition rd_namespace :: "bytes reader" where
  "rd_namespace =
     rbind (rd_uint 2 '''') (\<lambda>n. rbind (rd_take n '''') (\<lambda>w.
       if n = 0 then rfail '''' else (\<lambda>data off. and_then (from_utf8 w '''') (\<lambda>w. Inr (w, off)))))"

definition rd_trigger :: "trigger_rule reader" where
  "rd_trigger =
     rbind (rd_str 2 '''' '''' '''') (\<lambda>pattern. rbind (rd_uint 2 '''') (\<lambda>n.
     rbind (rd_many n rd_namespace) (\<lambda>ns.
     rret \<lparr>tr_pattern = pattern, tr_namespaces = ns\<rparr>)))"

text \<open>Readers that report only whether they failed.\<close>

definition opt_of :: "'a result \<Rightarrow> 'a option" where
  "opt_of r = (case r of Inr x \<Rightarrow> Some x | Inl _ \<Rightarrow> None)"

definition trigger_decode :: "bytes \<Rightarrow> (trigger_rule \<times> nat) option" where
  "trigger_decode data =
     (if length data < 7 \<or> take 4 data \<noteq> TRIGGER_MAGIC \<or> data ! 4 \<noteq> TRIGGER_VERSION then None
      else opt_of (rd_trigger data 5))"

definition trigger_key :: "bytes \<Rightarrow> bytes" where
  "trigger_key pattern = TRIGGER_PREFIX @ hex16 (fnv1a64 pattern)"

section \<open>Globs\<close>

text \<open>
  The matcher: a run of two or more stars tries every suffix of the text, a single star stops at the
  first slash.
\<close>

abbreviation star :: u8 where "star \<equiv> of_char CHR ''*''"
abbreviation slash :: u8 where "slash \<equiv> of_char CHR ''/''"

function glob_rec :: "bytes \<Rightarrow> bytes \<Rightarrow> bool" where
  "glob_rec [] txt \<longleftrightarrow> txt = []"
| "glob_rec (p # ps) txt \<longleftrightarrow>
     (if p = star then
        (let star_len = length (takeWhile (\<lambda>b. b = star) (p # ps));
             rest = drop star_len (p # ps);
             last_skip = (if 2 \<le> star_len then length txt else length (takeWhile (\<lambda>b. b \<noteq> slash) txt))
         in list_ex (\<lambda>skip. glob_rec rest (drop skip txt)) [0..<Suc last_skip])
      else if p = of_char CHR ''?''
      then (case txt of [] \<Rightarrow> False | t # ts \<Rightarrow> t \<noteq> slash \<and> glob_rec ps ts)
      else (case txt of [] \<Rightarrow> False | t # ts \<Rightarrow> t = p \<and> glob_rec ps ts))"
  by pat_completeness auto
termination
  by (relation "measure (\<lambda>(pat, _). length pat)") (auto simp: le_imp_less_Suc)

definition glob_match :: "bytes \<Rightarrow> bytes \<Rightarrow> bool" where
  "glob_match pattern text \<longleftrightarrow> glob_rec pattern text"

section \<open>Operations\<close>

definition pattern_problem :: "bytes \<Rightarrow> sgdb_error option" where
  "pattern_problem pattern =
     (if pattern = [] \<or> length pattern > MAX_KLEN then Some (SE_Invalid ''trigger pattern length'')
      else if list_ex control_byte pattern then Some (SE_Invalid ''control/NUL char in trigger pattern'')
      else if traversal pattern then Some (SE_Invalid ''path traversal component in trigger pattern'')
      else None)"

definition push_unique :: "'a \<Rightarrow> 'a list \<Rightarrow> 'a list" where
  "push_unique x xs = (if x \<in> set xs then xs else xs @ [x])"

definition set_trigger :: "'s host \<Rightarrow> bytes \<Rightarrow> bytes list \<Rightarrow> ('s, unit) op" where
  "set_trigger h pattern namespaces =
     (if namespaces = [] then ofail (SE_Invalid ''trigger needs at least one namespace'')
      else
        othen (oseq validate_written namespaces)
        (othen (guard_key (pattern_problem pattern))
        (sto_put h (trigger_key pattern)
          (trigger_encode \<lparr>tr_pattern = pattern, tr_namespaces = fold push_unique namespaces []\<rparr>))))"

definition forget_trigger :: "'s host \<Rightarrow> bytes \<Rightarrow> ('s, bool) op" where
  "forget_trigger h pattern =
     (if pattern = [] \<or> length pattern > MAX_KLEN then ofail (SE_Invalid ''trigger pattern length'')
      else obind (oget (\<lambda>s. sto_get h s (trigger_key pattern) \<noteq> None)) (\<lambda>existed.
        if existed then othen (sto_del h (trigger_key pattern)) (oret True) else oret False))"

definition add_rule :: "bytes \<times> bytes \<Rightarrow> trigger_rule list \<Rightarrow> trigger_rule list" where
  "add_rule = (\<lambda>(_, v) out. case trigger_decode v of
       None \<Rightarrow> out
     | Some (rule, used) \<Rightarrow>
         if tr_pattern rule = [] \<or> used \<noteq> length v then out
         else if tr_pattern rule \<in> tr_pattern ` set out then out else out @ [rule])"

definition trigger_rules :: "'s host \<Rightarrow> 's engine \<Rightarrow> trigger_rule list" where
  "trigger_rules h s =
     sort_key tr_pattern (fold add_rule (be_scan (ho_backend h) (en_storage s) TRIGGER_PREFIX) [])"

definition triggers_for_path :: "'s host \<Rightarrow> 's engine \<Rightarrow> bytes \<Rightarrow> trigger_rule list" where
  "triggers_for_path h s path = filter (\<lambda>r. glob_match (tr_pattern r) path) (trigger_rules h s)"

definition namespaces_for_path :: "'s host \<Rightarrow> 's engine \<Rightarrow> bytes \<Rightarrow> bytes list" where
  "namespaces_for_path h s path = fold push_unique (concat (map tr_namespaces (triggers_for_path h s path))) []"

section \<open>What a glob means\<close>

text \<open>The language of a pattern: one set of strings per item, concatenated.\<close>

datatype glob_item = Lit u8 | AnyOne | AnyInSegment | AnyPath

function glob_items :: "bytes \<Rightarrow> glob_item list" where
  "glob_items [] = []"
| "glob_items (p # ps) =
     (if p = star
      then (if 2 \<le> length (takeWhile (\<lambda>b. b = star) (p # ps)) then AnyPath else AnyInSegment) #
           glob_items (dropWhile (\<lambda>b. b = star) ps)
      else (if p = of_char CHR ''?'' then AnyOne else Lit p) # glob_items ps)"
  by pat_completeness auto
termination
  by (relation "measure length") (auto simp: le_imp_less_Suc length_dropWhile_le)

fun item_lang :: "glob_item \<Rightarrow> bytes set" where
  "item_lang (Lit b) = {[b]}"
| "item_lang AnyOne = {[b] |b. b \<noteq> slash}"
| "item_lang AnyInSegment = {w. slash \<notin> set w}"
| "item_lang AnyPath = UNIV"

fun glob_lang :: "glob_item list \<Rightarrow> bytes set" where
  "glob_lang [] = {[]}"
| "glob_lang (i # is) = {u @ v |u v. u \<in> item_lang i \<and> v \<in> glob_lang is}"

lemma list_ex_upt: "list_ex P [0..<Suc n] \<longleftrightarrow> (\<exists>i \<le> n. P i)"
  using less_Suc_eq_le by (fastforce simp: list_ex_iff simp del: upt_Suc)

lemma split_iff: "(\<exists>u v. w = u @ v \<and> P u \<and> v \<in> L) \<longleftrightarrow> (\<exists>i \<le> length w. P (take i w) \<and> drop i w \<in> L)"
proof
  assume "\<exists>u v. w = u @ v \<and> P u \<and> v \<in> L"
  then obtain u v where "w = u @ v" "P u" "v \<in> L" by blast
  then show "\<exists>i \<le> length w. P (take i w) \<and> drop i w \<in> L" by (intro exI [of _ "length u"]) simp
next
  assume "\<exists>i \<le> length w. P (take i w) \<and> drop i w \<in> L"
  then show "\<exists>u v. w = u @ v \<and> P u \<and> v \<in> L" by (metis append_take_drop_id)
qed

lemma take_free_iff: "i \<le> length w \<Longrightarrow> c \<notin> set (take i w) \<longleftrightarrow> i \<le> length (takeWhile (\<lambda>b. b \<noteq> c) w)"
proof (induction w arbitrary: i)
  case (Cons b w)
  then show ?case by (cases i) auto
qed simp

lemma any_path: "w \<in> {u @ v |u v. u \<in> UNIV \<and> v \<in> L} \<longleftrightarrow> (\<exists>i \<le> length w. drop i w \<in> L)"
  using split_iff [of w "\<lambda>_. True" L] by simp

lemma in_segment:
  "w \<in> {u @ v |u v. slash \<notin> set u \<and> v \<in> L} \<longleftrightarrow>
    (\<exists>i \<le> length (takeWhile (\<lambda>b. b \<noteq> slash) w). drop i w \<in> L)"
proof -
  have "w \<in> {u @ v |u v. slash \<notin> set u \<and> v \<in> L} \<longleftrightarrow> (\<exists>i \<le> length w. slash \<notin> set (take i w) \<and> drop i w \<in> L)"
    using split_iff [of w "\<lambda>u. slash \<notin> set u" L] by simp
  also have "\<dots> \<longleftrightarrow> (\<exists>i \<le> length (takeWhile (\<lambda>b. b \<noteq> slash) w). drop i w \<in> L)"
    using take_free_iff [of _ w slash] by (meson length_takeWhile_le order.trans)
  finally show ?thesis .
qed

lemma one_char: "(\<exists>u v. w = u @ v \<and> (\<exists>b. u = [b] \<and> P b) \<and> v \<in> L) \<longleftrightarrow> (\<exists>b t. w = b # t \<and> P b \<and> t \<in> L)"
  by (auto; metis append_Cons append_Nil)

lemma drop_stars: "drop (length (takeWhile P (p # ps))) (p # ps) = (if P p then dropWhile P ps else p # ps)"
  by (simp add: dropWhile_eq_drop)

lemma glob_rec_lang: "glob_rec pat w \<longleftrightarrow> w \<in> glob_lang (glob_items pat)"
proof (induction pat w rule: glob_rec.induct)
  case (1 w)
  then show ?case by simp
next
  case (2 p ps w)
  show ?case
  proof (cases "p = star")
    case True
    let ?n = "length (takeWhile (\<lambda>b. b = star) (p # ps))"
    have rest: "drop ?n (p # ps) = dropWhile (\<lambda>b. b = star) ps" using True drop_stars [of "\<lambda>b. b = star" p ps] by (simp only: refl if_True)
    have IH: "glob_rec (dropWhile (\<lambda>b. b = star) ps) (drop i w) \<longleftrightarrow>
        drop i w \<in> glob_lang (glob_items (dropWhile (\<lambda>b. b = star) ps))"
      if "i < Suc (if 2 \<le> ?n then length w else length (takeWhile (\<lambda>b. b \<noteq> slash) w))" for i
      using 2(1) [OF True refl refl refl, of i] that unfolding rest set_upt atLeastLessThan_iff by blast
    show ?thesis
    proof (cases "2 \<le> ?n")
      case wide: True
      have "glob_rec (p # ps) w \<longleftrightarrow> (\<exists>i \<le> length w. glob_rec (dropWhile (\<lambda>b. b = star) ps) (drop i w))"
        unfolding glob_rec.simps if_P [OF True] Let_def rest if_P [OF wide] list_ex_upt ..
      also have "\<dots> \<longleftrightarrow> (\<exists>i \<le> length w. drop i w \<in> glob_lang (glob_items (dropWhile (\<lambda>b. b = star) ps)))"
        using IH wide by auto
      also have "\<dots> \<longleftrightarrow> w \<in> glob_lang (glob_items (p # ps))"
        unfolding glob_items.simps if_P [OF True] if_P [OF wide] glob_lang.simps item_lang.simps any_path ..
      finally show ?thesis .
    next
      case narrow: False
      let ?k = "length (takeWhile (\<lambda>b. b \<noteq> slash) w)"
      have "glob_rec (p # ps) w \<longleftrightarrow> (\<exists>i \<le> ?k. glob_rec (dropWhile (\<lambda>b. b = star) ps) (drop i w))"
        unfolding glob_rec.simps if_P [OF True] Let_def rest if_not_P [OF narrow] list_ex_upt ..
      also have "\<dots> \<longleftrightarrow> (\<exists>i \<le> ?k. drop i w \<in> glob_lang (glob_items (dropWhile (\<lambda>b. b = star) ps)))"
        using IH narrow by auto
      also have "\<dots> \<longleftrightarrow> w \<in> glob_lang (glob_items (p # ps))"
        unfolding glob_items.simps if_P [OF True] if_not_P [OF narrow] glob_lang.simps item_lang.simps mem_Collect_eq
        using in_segment [of w] by simp
      finally show ?thesis .
    qed
  next
    case False
    then show ?thesis using 2(2,3) by (cases w) (auto simp: one_char split: if_splits)
  qed
qed

section \<open>What a glob is documented to mean\<close>

text \<open>
  The documentation speaks of characters where the matcher compares bytes.  In the language of
  characters a question mark stands for the bytes of one character, and a star for whole characters.
\<close>

definition one_char_text :: "bytes \<Rightarrow> bool" where
  "one_char_text c \<longleftrightarrow> c \<noteq> [] \<and> utf8_valid c \<and> list_all cont_byte (tl c)"

fun char_item :: "glob_item \<Rightarrow> bytes set" where
  "char_item (Lit b) = {[b]}"
| "char_item AnyOne = {c. one_char_text c \<and> c \<noteq> [slash]}"
| "char_item AnyInSegment = {w. utf8_valid w \<and> slash \<notin> set w}"
| "char_item AnyPath = {w. utf8_valid w}"

fun char_lang :: "glob_item list \<Rightarrow> bytes set" where
  "char_lang [] = {[]}"
| "char_lang (i # is) = {u @ v |u v. u \<in> char_item i \<and> v \<in> char_lang is}"

text \<open>The first character of a text, and the rest.\<close>

lemma utf8_head:
  assumes "utf8_valid (b # bs)"
  obtains c r where "bs = c @ r" "list_all cont_byte c" "\<not> cont_byte b"
    "\<And>r'. utf8_valid (b # c @ r') \<longleftrightarrow> utf8_valid r'"
proof -
  have lead: "\<not> cont_byte b" if "b < 0x80 \<or> 0xC2 \<le> b"
    using that by (auto simp: cont_byte_def word_le_nat_alt word_less_nat_alt)
  have second: "cont_byte x" if "second3 b x \<or> second4 b x" for x
    using that by (auto simp: second3_def second4_def cont_byte_def word_le_nat_alt split: if_splits)
  consider "b < 0x80" | "\<not> b < 0x80" "0xC2 \<le> b \<and> b \<le> 0xDF"
    | "\<not> b < 0x80" "\<not> (0xC2 \<le> b \<and> b \<le> 0xDF)" "0xE0 \<le> b \<and> b \<le> 0xEF"
    | "\<not> b < 0x80" "\<not> (0xC2 \<le> b \<and> b \<le> 0xDF)" "\<not> (0xE0 \<le> b \<and> b \<le> 0xEF)" "0xF0 \<le> b \<and> b \<le> 0xF4"
    using assms unfolding utf8_valid.simps(2) by presburger
  then show ?thesis
  proof cases
    case 1
    show ?thesis by (rule that [of "[]" bs]) (use 1 lead in \<open>simp_all add: utf8_valid.simps(2)\<close>)
  next
    case 2
    obtain x r where r: "bs = x # r" "cont_byte x"
      using assms unfolding utf8_valid.simps(2) if_not_P [OF 2(1)] if_P [OF 2(2)] by (auto split: list.splits)
    show ?thesis
      by (rule that [of "[x]" r]) (use r 2 lead in \<open>simp_all add: utf8_valid.simps(2) [of b]\<close>)
  next
    case 3
    obtain x y r where r: "bs = x # y # r" "second3 b x" "cont_byte y"
      using assms unfolding utf8_valid.simps(2) if_not_P [OF 3(1)] if_not_P [OF 3(2)] if_P [OF 3(3)] by (auto split: list.splits)
    have "utf8_valid (b # [x, y] @ r') \<longleftrightarrow> utf8_valid r'" for r'
      unfolding utf8_valid.simps(2) [of b] append.simps if_not_P [OF 3(1)] if_not_P [OF 3(2)] if_P [OF 3(3)] using r by simp
    moreover have "0xC2 \<le> b" using 3(3) by (simp add: word_le_nat_alt)
    ultimately show ?thesis using that [of "[x, y]" r] r lead second by simp
  next
    case 4
    obtain x y z r where r: "bs = x # y # z # r" "second4 b x" "cont_byte y" "cont_byte z"
      using assms unfolding utf8_valid.simps(2) if_not_P [OF 4(1)] if_not_P [OF 4(2)] if_not_P [OF 4(3)] if_P [OF 4(4)]
      by (auto split: list.splits)
    have "utf8_valid (b # [x, y, z] @ r') \<longleftrightarrow> utf8_valid r'" for r'
      unfolding utf8_valid.simps(2) [of b] append.simps if_not_P [OF 4(1)] if_not_P [OF 4(2)] if_not_P [OF 4(3)] if_P [OF 4(4)]
      using r by simp
    moreover have "0xC2 \<le> b" using 4(4) by (simp add: word_le_nat_alt)
    ultimately show ?thesis using that [of "[x, y, z]" r] r lead second by simp
  qed
qed

text \<open>A text can be cut before any byte that is not a continuation.\<close>

lemma utf8_cut: "utf8_valid (u @ v) \<Longrightarrow> v = [] \<or> \<not> cont_byte (hd v) \<Longrightarrow> utf8_valid u \<and> utf8_valid v"
proof (induction "length u" arbitrary: u rule: less_induct)
  case less
  show ?case
  proof (cases u)
    case Nil
    then show ?thesis using less.prems by simp
  next
    case (Cons b u')
    with less.prems(1) have "utf8_valid (b # (u' @ v))" by simp
    then obtain c r where c: "u' @ v = c @ r" "list_all cont_byte c" "\<And>r'. utf8_valid (b # c @ r') \<longleftrightarrow> utf8_valid r'"
      by (rule utf8_head) blast
    from c(1) obtain us where "u' = c @ us \<and> us @ v = r \<or> u' @ us = c \<and> v = us @ r"
      by (auto simp: append_eq_append_conv2)
    then consider us where "u' = c @ us" "us @ v = r" | us where "u' @ us = c" "v = us @ r" "us \<noteq> []"
      by (cases "us = []") auto
    then show ?thesis
    proof cases
      case 1
      have "utf8_valid (us @ v)" using \<open>utf8_valid (b # (u' @ v))\<close> c(1,3) 1 by simp
      then have "utf8_valid us \<and> utf8_valid v" using less.hyps [of us] less.prems(2) Cons 1(1) by simp
      then show ?thesis using c(3) [of us] Cons 1(1) by simp
    next
      case 2
      then have "cont_byte (hd v)" "v \<noteq> []" using c(2) by (auto simp: list_all_iff hd_append)
      then show ?thesis using less.prems(2) by blast
    qed
  qed
qed

lemma lang_literals: "t \<in> glob_lang (map Lit c @ is) \<longleftrightarrow> (\<exists>t'. t = c @ t' \<and> t' \<in> glob_lang is)"
  "t \<in> char_lang (map Lit c @ is) \<longleftrightarrow> (\<exists>t'. t = c @ t' \<and> t' \<in> char_lang is)"
  by (induction c arbitrary: t) auto

lemma items_literals: "list_all cont_byte c \<Longrightarrow> glob_items (c @ r) = map Lit c @ glob_items r"
  by (induction c) (auto simp: cont_byte_def)

text \<open>On ASCII texts a character is a byte.\<close>

lemma char_lang_ascii: "list_all (\<lambda>b. b < 0x80) t \<Longrightarrow> t \<in> char_lang is \<longleftrightarrow> t \<in> glob_lang is"
proof (induction "is" arbitrary: t)
  case (Cons i "is")
  have item: "u \<in> char_item i \<longleftrightarrow> u \<in> item_lang i" if u: "list_all (\<lambda>b. b < 0x80) u" for u
  proof -
    have valid: "utf8_valid u" using u by (intro utf8_valid_ascii) (simp add: list_all_iff)
    have "one_char_text u \<longleftrightarrow> (\<exists>b. u = [b])"
    proof (cases u)
      case (Cons b w)
      then show ?thesis
        using u valid by (cases w) (auto simp: one_char_text_def cont_byte_def word_le_nat_alt word_less_nat_alt)
    qed (simp add: one_char_text_def)
    then show ?thesis using valid by (cases i) auto
  qed
  show ?case
  proof
    assume "t \<in> char_lang (i # is)"
    then obtain u v where "t = u @ v" "u \<in> char_item i" "v \<in> char_lang is" by auto
    with Cons item show "t \<in> glob_lang (i # is)" by force
  next
    assume "t \<in> glob_lang (i # is)"
    then obtain u v where "t = u @ v" "u \<in> item_lang i" "v \<in> glob_lang is" by auto
    with Cons item show "t \<in> char_lang (i # is)" by force
  qed
qed simp

text \<open>Without a question mark the two languages have the same texts.\<close>

lemma char_lang_sub: "AnyOne \<notin> set is \<Longrightarrow> t \<in> char_lang is \<Longrightarrow> t \<in> glob_lang is"
proof (induction "is" arbitrary: t)
  case (Cons i "is")
  have "char_item i \<subseteq> item_lang i" using Cons.prems(1) by (cases i) auto
  then show ?case using Cons by fastforce
qed simp

lemma glob_lang_chars:
  "AnyOne \<notin> set (glob_items pat) \<Longrightarrow> utf8_valid pat \<Longrightarrow> utf8_valid t \<Longrightarrow> t \<in> glob_lang (glob_items pat) \<Longrightarrow>
   t \<in> char_lang (glob_items pat)"
proof (induction "length pat" arbitrary: pat t rule: less_induct)
  case less
  show ?case
  proof (cases pat)
    case Nil
    then show ?thesis using less.prems by simp
  next
    case (Cons p ps)
    show ?thesis
    proof (cases "p = star")
      case True
      let ?rest = "dropWhile (\<lambda>b. b = star) ps"
      let ?i = "if 2 \<le> length (takeWhile (\<lambda>b. b = star) (p # ps)) then AnyPath else AnyInSegment"
      have items: "glob_items pat = ?i # glob_items ?rest"
        unfolding Cons glob_items.simps if_P [OF True] ..
      obtain u v where t: "t = u @ v" "u \<in> item_lang ?i" "v \<in> glob_lang (glob_items ?rest)"
        using less.prems(4) unfolding items by auto
      have "utf8_valid (dropWhile (\<lambda>b. b = star) w) = utf8_valid w" for w
        by (induction w) (auto simp: utf8_valid.simps(2) [of 42])
      then have rest: "utf8_valid ?rest" using less.prems(2) True Cons by (simp add: utf8_valid.simps(2) [of 42])
      have cut: "v = [] \<or> \<not> cont_byte (hd v)"
      proof (cases ?rest)
        case Nil
        show ?thesis using t(3) unfolding Nil by simp
      next
        case (Cons q qs)
        have "\<not> cont_byte q" using rest unfolding Cons by (rule utf8_head)
        moreover have "q \<noteq> star"
        proof -
          have "?rest \<noteq> []" unfolding Cons by simp
          from hd_dropWhile [OF this] show ?thesis unfolding Cons by simp
        qed
        moreover have "q \<noteq> of_char CHR ''?''" using less.prems(1) \<open>q \<noteq> star\<close> unfolding items Cons by (auto split: if_splits)
        ultimately show ?thesis using t(3) unfolding Cons by auto
      qed
      have valid: "utf8_valid u" "utf8_valid v" using utf8_cut [OF _ cut, of u] less.prems(3) t(1) by simp_all
      have "length ?rest < length pat" unfolding Cons using length_dropWhile_le [of "\<lambda>b. b = star" ps] by simp
      then have "v \<in> char_lang (glob_items ?rest)"
        using less.hyps [of ?rest v] less.prems(1) rest valid(2) t(3) by (simp add: items)
      moreover have "u \<in> char_item ?i" using t(2) valid(1) by (simp split: if_splits)
      ultimately show ?thesis unfolding items t(1) char_lang.simps by blast
    next
      case False
      obtain c r where c: "ps = c @ r" "list_all cont_byte c" "\<And>r'. utf8_valid (p # c @ r') \<longleftrightarrow> utf8_valid r'"
        using less.prems(2) unfolding Cons by (rule utf8_head) blast
      have "p \<noteq> of_char CHR ''?''" using less.prems(1) False unfolding Cons by auto
      then have items: "glob_items pat = map Lit (p # c) @ glob_items r"
        using False unfolding Cons c(1) by (simp add: items_literals [OF c(2)])
      obtain t' where t: "t = (p # c) @ t'" "t' \<in> glob_lang (glob_items r)"
        using less.prems(4) unfolding items lang_literals by blast
      have "utf8_valid r" "utf8_valid t'" using less.prems(2,3) c(3) unfolding Cons c(1) t(1) by simp_all
      then have "t' \<in> char_lang (glob_items r)"
        using less.hyps [of r t'] less.prems(1) t(2) unfolding items by (simp add: Cons c(1))
      then show ?thesis unfolding items lang_literals using t(1) by blast
    qed
  qed
qed

section \<open>Reading back\<close>

definition rule_fits :: "trigger_rule \<Rightarrow> bool" where
  "rule_fits r \<longleftrightarrow> utf8_valid (tr_pattern r) \<and> length (tr_pattern r) < 256 ^ 2 \<and> length (tr_namespaces r) < 256 ^ 2 \<and>
     (\<forall>n \<in> set (tr_namespaces r). n \<noteq> [] \<and> utf8_valid n \<and> length n < 256 ^ 2)"

lemma reads_namespace:
  assumes "n \<noteq> []" "utf8_valid n" "length n < 256 ^ 2"
  shows "reads rd_namespace (enc_str 2 n) n"
  unfolding rd_namespace_def enc_str_def
proof (rule reads_rbind [OF reads_rd_uint [OF assms(3)]], rule reads_rbind_last [OF reads_rd_take])
  show "reads (if length n = 0 then rfail '''' else (\<lambda>data off. and_then (from_utf8 n '''') (\<lambda>w. Inr (w, off)))) [] n"
    using assms by (simp add: reads_def)
qed

lemma trigger_decode_encode:
  assumes "rule_fits r"
  shows "trigger_decode (trigger_encode r) = Some (r, length (trigger_encode r))"
proof -
  let ?b = "enc_str 2 (tr_pattern r) @ le_enc 2 (length (tr_namespaces r)) @ concat (map (enc_str 2) (tr_namespaces r))"
  have "reads rd_trigger ?b r"
    unfolding rd_trigger_def using assms unfolding rule_fits_def
    by (intro reads_rbind [OF reads_rd_str] reads_rbind [OF reads_rd_uint]
        reads_rbind_last [OF reads_rd_many [OF reads_namespace]]) (auto, cases r, simp add: reads_rret)
  from reads_after [OF this, of "TRIGGER_MAGIC @ [TRIGGER_VERSION]" 5]
  have "rd_trigger (trigger_encode r) 5 = Inr (r, length (trigger_encode r))"
    by (simp add: trigger_encode_def TRIGGER_MAGIC_def)
  moreover have "\<not> length (trigger_encode r) < 7" "take 4 (trigger_encode r) = TRIGGER_MAGIC"
      "trigger_encode r ! 4 = TRIGGER_VERSION"
    by (simp_all add: trigger_encode_def enc_str_def TRIGGER_MAGIC_def ascii_def nth_append)
  ultimately show ?thesis by (simp add: trigger_decode_def opt_of_def)
qed

section \<open>The rules of a storage\<close>

definition trig_rows :: "(bytes \<Rightarrow> bytes option) \<Rightarrow> bool" where
  "trig_rows m \<longleftrightarrow> (\<forall>k v. m k = Some v \<longrightarrow> prefix TRIGGER_PREFIX k \<longrightarrow>
     (\<exists>r. rule_fits r \<and> tr_pattern r \<noteq> [] \<and> v = trigger_encode r \<and> k = trigger_key (tr_pattern r)))"

definition trig_set :: "(bytes \<Rightarrow> bytes option) \<Rightarrow> trigger_rule set" where
  "trig_set m = {r. rule_fits r \<and> tr_pattern r \<noteq> [] \<and> m (trigger_key (tr_pattern r)) = Some (trigger_encode r)}"

lemma trigger_encode_inj: "rule_fits r \<Longrightarrow> rule_fits r' \<Longrightarrow> trigger_encode r = trigger_encode r' \<Longrightarrow> r = r'"
  by (metis trigger_decode_encode option.inject prod.inject)

lemma trig_set_pattern: "r \<in> trig_set m \<Longrightarrow> r' \<in> trig_set m \<Longrightarrow> tr_pattern r = tr_pattern r' \<Longrightarrow> r = r'"
  using trigger_encode_inj [of r r'] by (simp add: trig_set_def)

lemma TRIGGER_PREFIX_utf8: "utf8_valid TRIGGER_PREFIX"
  by (rule utf8_valid_ascii) (auto simp: TRIGGER_PREFIX_def ascii_def)

lemma set_push_unique: "set (fold push_unique xs ys) = set ys \<union> set xs"
  by (induction xs arbitrary: ys) (auto simp: push_unique_def)

lemma fold_rules:
  assumes "\<And>k v. (k, v) \<in> set rows \<Longrightarrow> \<exists>r \<in> R. v = trigger_encode r" "R = trig_set m" "set out \<subseteq> R"
  shows "set (fold add_rule rows out) = set out \<union> {r \<in> R. \<exists>k. (k, trigger_encode r) \<in> set rows}"
  using assms(1,3)
proof (induction rows arbitrary: out)
  case Nil
  then show ?case by simp
next
  case (Cons e rows)
  obtain k v where e: "e = (k, v)" by (cases e)
  obtain r where r: "r \<in> R" "v = trigger_encode r" using Cons.prems(1) [of k v] e by auto
  have dec: "trigger_decode v = Some (r, length v)" "tr_pattern r \<noteq> []"
    using r assms(2) trigger_decode_encode [of r] by (simp_all add: trig_set_def)
  have new: "set (add_rule e out) = insert r (set out)"
  proof (cases "tr_pattern r \<in> tr_pattern ` set out")
    case True
    then obtain r' where r': "r' \<in> set out" "tr_pattern r' = tr_pattern r" by auto
    then have "r' = r" using trig_set_pattern [of r' m r] r(1) Cons.prems(2) assms(2) by blast
    then show ?thesis using dec r' True by (simp add: e add_rule_def insert_absorb)
  next
    case False
    then show ?thesis using dec by (simp add: e add_rule_def)
  qed
  have same: "r' = r" if "r' \<in> R" "trigger_encode r' = v" for r'
    using that r assms(2) trigger_encode_inj [of r' r] by (simp add: trig_set_def)
  have "set (fold add_rule rows (add_rule e out)) = set (add_rule e out) \<union> {r \<in> R. \<exists>k. (k, trigger_encode r) \<in> set rows}"
    using Cons.prems new r(1) by (intro Cons.IH) auto
  moreover have "{r \<in> R. \<exists>k. (k, trigger_encode r) \<in> set (e # rows)} = insert r {r \<in> R. \<exists>k. (k, trigger_encode r) \<in> set rows}"
    using same r by (auto simp: e)
  ultimately show ?case using new by simp
qed

context engine_store
begin

lemma rules_of_view:
  assumes "inv (en_storage s)" "trig_rows (view (en_storage s))"
  shows "set (trigger_rules h s) = trig_set (view (en_storage s))"
proof -
  let ?m = "view (en_storage s)" and ?rows = "be_scan (ho_backend h) (en_storage s) TRIGGER_PREFIX"
  have rows: "set ?rows = {(k, v). ?m k = Some v \<and> prefix TRIGGER_PREFIX k}"
    by (rule scan_set [OF assms(1) TRIGGER_PREFIX_utf8])
  have "set (fold add_rule ?rows []) = set [] \<union> {r \<in> trig_set ?m. \<exists>k. (k, trigger_encode r) \<in> set ?rows}"
  proof (rule fold_rules [OF _ refl])
    fix k v assume "(k, v) \<in> set ?rows"
    then have kv: "?m k = Some v" "prefix TRIGGER_PREFIX k" by (simp_all add: rows)
    then obtain r where "rule_fits r" "tr_pattern r \<noteq> []" "v = trigger_encode r" "k = trigger_key (tr_pattern r)"
      using assms(2) unfolding trig_rows_def by blast
    then show "\<exists>r \<in> trig_set ?m. v = trigger_encode r" using kv by (auto simp: trig_set_def)
  qed simp
  moreover have "(trigger_key (tr_pattern r), trigger_encode r) \<in> set ?rows" if "r \<in> trig_set ?m" for r
    using that by (simp add: rows trig_set_def trigger_key_def)
  ultimately show ?thesis unfolding trigger_rules_def by auto
qed

end

lemma does_validate: "(\<And>n. n \<in> set ns \<Longrightarrow> written_problem n = None) \<Longrightarrow> P () s \<Longrightarrow> does (oseq validate_written ns) s P"
  by (induction ns) (simp_all add: does_def validate_written_def guard_key_def oret_def)

lemma written_ok: "written_problem n = None \<Longrightarrow> n \<noteq> [] \<and> length n \<le> MAX_KLEN"
  by (auto simp: written_problem_def split: if_splits)

text \<open>C39: What a glob matches.  The matcher accepts exactly the language of bytes of the pattern, in which a
  question mark stands for one byte other than a slash, a star for any bytes without a slash, and a run of
  two or more stars for any bytes.  The documentation gives the pattern a language of characters; the two
  agree on every ASCII path, and on every path for a pattern without a question mark.  With a question
  mark they differ on other paths: one mark does not match a character of two bytes, which two marks do.\<close>

theorem glob_matches_bytes:
  "(glob_match pat t \<longleftrightarrow> t \<in> glob_lang (glob_items pat)) \<and>
   (list_all (\<lambda>b. b < 0x80) t \<longrightarrow> (glob_match pat t \<longleftrightarrow> t \<in> char_lang (glob_items pat))) \<and>
   (AnyOne \<notin> set (glob_items pat) \<and> utf8_valid pat \<and> utf8_valid t \<longrightarrow>
     (glob_match pat t \<longleftrightarrow> t \<in> char_lang (glob_items pat))) \<and>
   \<not> glob_match (ascii ''?'') [0xC3, 0xA9] \<and> [0xC3, 0xA9] \<in> char_lang (glob_items (ascii ''?'')) \<and>
   glob_match (ascii ''??'') [0xC3, 0xA9] \<and> [0xC3, 0xA9] \<notin> char_lang (glob_items (ascii ''??''))"
proof -
  have "glob_match pat t \<longleftrightarrow> t \<in> glob_lang (glob_items pat)" by (simp add: glob_match_def glob_rec_lang)
  moreover have "\<not> glob_match (ascii ''?'') [0xC3, 0xA9]" "glob_match (ascii ''??'') [0xC3, 0xA9]" by code_simp+
  moreover have marks: "glob_items (ascii ''?'') = [AnyOne]" "glob_items (ascii ''??'') = [AnyOne, AnyOne]" by code_simp+
  have "one_char_text [0xC3, 0xA9]" by (simp add: one_char_text_def utf8_valid.simps(2) cont_byte_def)
  then have "[0xC3, 0xA9] \<in> char_lang (glob_items (ascii ''?''))" by (simp add: marks)
  moreover have "u @ v \<noteq> [0xC3, 0xA9]" if "one_char_text u" "one_char_text v" for u v
    using that by (cases u; cases "tl u") (auto simp: one_char_text_def utf8_valid.simps(2) Cons_eq_append_conv append_eq_Cons_conv)
  then have "[0xC3, 0xA9] \<notin> char_lang (glob_items (ascii ''??''))" by (auto simp: marks) metis
  ultimately show ?thesis using char_lang_ascii char_lang_sub glob_lang_chars by blast
qed

text \<open>Setting a trigger, over any backend: the rules afterwards are the new one and those of before
  whose hashed key is a different one, so at most one rule is replaced, and every path that the pattern
  matches activates all namespaces of the new rule.\<close>

theorem set_trigger_replaces_one_rule:
  assumes "backend_store good view (ho_backend h) fits means" and "good (en_storage s)" "trig_rows (view (en_storage s))"
    and "namespaces \<noteq> []" "length namespaces < 2 ^ 16" "\<And>n. n \<in> set namespaces \<Longrightarrow> written_problem n = None \<and> utf8_valid n"
    and "pattern_problem pattern = None" "utf8_valid pattern"
    and "fits (trigger_key pattern) (trigger_encode \<lparr>tr_pattern = pattern, tr_namespaces = fold push_unique namespaces []\<rparr>)"
  shows "\<exists>s'. set_trigger h pattern namespaces s = (Inr (), s') \<and> good (en_storage s') \<and>
    trig_rows (view (en_storage s')) \<and>
    set (trigger_rules h s') = insert \<lparr>tr_pattern = pattern, tr_namespaces = fold push_unique namespaces []\<rparr>
      {r \<in> set (trigger_rules h s). trigger_key (tr_pattern r) \<noteq> trigger_key pattern} \<and>
    (\<forall>path. glob_match pattern path \<longrightarrow> set namespaces \<subseteq> set (namespaces_for_path h s' path))"
proof -
  let ?r = "\<lparr>tr_pattern = pattern, tr_namespaces = fold push_unique namespaces []\<rparr>" and ?m = "view (en_storage s)"
  have e: "engine_store good view h fits means" using assms(1) by (simp add: engine_store_def)
  have len: "length (fold push_unique xs ys) \<le> length xs + length ys" for xs ys :: "bytes list"
    by (induction xs arbitrary: ys) (fastforce simp: push_unique_def intro: order.trans)+
  have pat: "pattern \<noteq> []" "length pattern \<le> MAX_KLEN" using assms(7) by (auto simp: pattern_problem_def split: if_splits)
  have fits: "rule_fits ?r"
    unfolding rule_fits_def
  proof (intro conjI ballI)
    fix n assume "n \<in> set (tr_namespaces ?r)"
    then have "written_problem n = None" "utf8_valid n" using assms(6) [of n] by (simp_all add: set_push_unique)
    then show "n \<noteq> []" "utf8_valid n" "length n < 256 ^ 2" using written_ok [of n] by (simp_all add: MAX_KLEN_def)
  qed (use pat(2) assms(5,8) len [of namespaces "[]"] in \<open>simp_all add: MAX_KLEN_def\<close>)
  have ne: "trigger_encode ?r \<noteq> []" by (simp add: trigger_encode_def TRIGGER_MAGIC_def ascii_def)
  have "does (set_trigger h pattern namespaces) s (\<lambda>_ s'. good (en_storage s') \<and>
      view (en_storage s') = ?m(trigger_key pattern \<mapsto> trigger_encode ?r))"
    unfolding set_trigger_def if_not_P [OF assms(4)]
    using assms(2,6,7,9) backend_store.means_some [OF assms(1) ne]
    by (intro does_then does_validate does_guard engine_store.does_put [OF e]) auto
  then obtain s' where s': "set_trigger h pattern namespaces s = (Inr (), s')" "good (en_storage s')"
    and v: "view (en_storage s') = ?m(trigger_key pattern \<mapsto> trigger_encode ?r)" by (auto elim!: doesE)
  have rows: "trig_rows (view (en_storage s'))"
    using assms(3) fits pat(1) unfolding trig_rows_def v by auto
  have trig: "trig_set (view (en_storage s')) = insert ?r {r \<in> trig_set ?m. trigger_key (tr_pattern r) \<noteq> trigger_key pattern}"
  proof -
    have "r = ?r" if "rule_fits r" "trigger_encode r = trigger_encode ?r" for r
      using trigger_encode_inj [OF that(1) fits that(2)] .
    then show ?thesis using fits pat(1) by (auto simp: trig_set_def v)
  qed
  have rules: "set (trigger_rules h s') = insert ?r {r \<in> set (trigger_rules h s). trigger_key (tr_pattern r) \<noteq> trigger_key pattern}"
    using engine_store.rules_of_view [OF e assms(2,3)] engine_store.rules_of_view [OF e s'(2) rows] trig by simp
  have "set namespaces \<subseteq> set (namespaces_for_path h s' path)" if "glob_match pattern path" for path
  proof -
    have "?r \<in> set (triggers_for_path h s' path)" using that rules by (simp add: triggers_for_path_def)
    then have "set (tr_namespaces ?r) \<subseteq> set (namespaces_for_path h s' path)"
      unfolding namespaces_for_path_def set_push_unique by auto
    then show ?thesis by (simp add: set_push_unique)
  qed
  then show ?thesis using s' rows rules by blast
qed

theorem set_trigger_replaces_one_rule_witness:
  "\<exists>s'. set_trigger (ram_host (\<lambda>_. False) False) (ascii ''src/*.rs'') [ascii ''rust''] empty_engine = (Inr (), s') \<and>
     ascii ''rust'' \<in> set (namespaces_for_path (ram_host (\<lambda>_. False) False) s' (ascii ''src/a.rs''))"
proof -
  let ?h = "ram_host (\<lambda>_. False) False"
  have empty: "bt_wf (im_map (en_storage empty_engine))" "trig_rows (bt_get (im_map (en_storage empty_engine)))"
    by (simp_all add: trig_rows_def empty_engine_def engine_new_def in_memory_new_def)
  have ns: "written_problem n = None \<and> utf8_valid n" if "n \<in> set [ascii ''rust'']" for n
    using that by (simp add: written_problem_def ascii_def MAX_KLEN_def control_byte_def traversal_def utf8_valid.simps(2))
  have pattern: "pattern_problem (ascii ''src/*.rs'') = None" "utf8_valid (ascii ''src/*.rs'')"
    by (simp_all add: pattern_problem_def ascii_def MAX_KLEN_def control_byte_def traversal_def utf8_valid.simps(2))
  have match: "glob_match (ascii ''src/*.rs'') (ascii ''src/a.rs'')" by code_simp
  obtain s' where s': "set_trigger ?h (ascii ''src/*.rs'') [ascii ''rust''] empty_engine = (Inr (), s')"
    "\<forall>path. glob_match (ascii ''src/*.rs'') path \<longrightarrow> set [ascii ''rust''] \<subseteq> set (namespaces_for_path ?h s' path)"
    using set_trigger_replaces_one_rule [OF ram_host_store [of "\<lambda>_. False" False] empty, of "[ascii ''rust'']" "ascii ''src/*.rs''"] ns pattern
    by auto
  then show ?thesis using match by auto
qed

text \<open>A path with a character of two bytes and a pattern without a question mark; an ASCII path and one with.\<close>

theorem glob_matches_bytes_witness:
  "[0x2F, 0xC3, 0xA9, 0x2F, 0xC3, 0xA7] \<in> char_lang (glob_items (ascii ''/*/**'')) \<and> ascii ''src/a.rs'' \<in> char_lang (glob_items (ascii ''src/?.rs''))"
proof -
  have "glob_match (ascii ''/*/**'') [0x2F, 0xC3, 0xA9, 0x2F, 0xC3, 0xA7]" "glob_match (ascii ''src/?.rs'') (ascii ''src/a.rs'')" by code_simp+
  moreover have "AnyOne \<notin> set (glob_items (ascii ''/*/**''))" by code_simp
  moreover have "utf8_valid (ascii ''/*/**'')" "utf8_valid [0x2F, 0xC3, 0xA9, 0x2F, 0xC3, 0xA7]"
    "list_all (\<lambda>b. b < 0x80) (ascii ''src/a.rs'')"
    by (simp_all add: ascii_def utf8_valid.simps(2) cont_byte_def)
  ultimately show ?thesis
    using glob_matches_bytes [of "ascii ''/*/**''" "[0x2F, 0xC3, 0xA9, 0x2F, 0xC3, 0xA7]"]
      glob_matches_bytes [of "ascii ''src/?.rs''" "ascii ''src/a.rs''"] by blast
qed

end
