(* ===== verification/Absence.thy ===== *)
theory Absence
  imports Triggers
begin

text \<open>
  The ledger of absences (\<open>src/src/negative.rs\<close> and its operations of \<open>src/src/sgdb.rs\<close>): what was looked
  for and not found, one row per scope and normalised query under \<open>sys/negative/\<close>.
\<close>

section \<open>Entries (NDG1)\<close>

record absence_entry =
  ab_query :: bytes
  ab_scope :: bytes
  ab_probes :: u32
  ab_first_tick :: u64
  ab_last_tick :: u64

definition NEGATIVE_MAGIC :: bytes where
  "NEGATIVE_MAGIC = ascii ''NDG1''"

definition NEGATIVE_VERSION :: u8 where
  "NEGATIVE_VERSION = 1"

definition NEGATIVE_PREFIX :: bytes where
  "NEGATIVE_PREFIX = ascii ''sys/negative/''"

definition absence_default :: absence_entry where
  "absence_default = \<lparr>ab_query = [], ab_scope = [], ab_probes = 0, ab_first_tick = 0, ab_last_tick = 0\<rparr>"

definition absence_encode :: "absence_entry \<Rightarrow> bytes" where
  "absence_encode e = NEGATIVE_MAGIC @ [NEGATIVE_VERSION] @ le_enc 4 (unat (ab_probes e)) @
     le_enc 8 (unat (ab_first_tick e)) @ le_enc 8 (unat (ab_last_tick e)) @
     enc_str 2 (ab_scope e) @ enc_str 2 (ab_query e)"

definition rd_absence :: "absence_entry reader" where
  "rd_absence =
     rbind (rd_f32 '''') (\<lambda>probes. rbind (rd_u64 '''') (\<lambda>first. rbind (rd_u64 '''') (\<lambda>last.
     rbind (rd_str 2 '''' '''' '''') (\<lambda>scope. rbind (rd_str 2 '''' '''' '''') (\<lambda>query.
     rret \<lparr>ab_query = query, ab_scope = scope, ab_probes = probes, ab_first_tick = first, ab_last_tick = last\<rparr>)))))"

definition absence_decode :: "bytes \<Rightarrow> (absence_entry \<times> nat) option" where
  "absence_decode data =
     (if length data < 25 \<or> take 4 data \<noteq> NEGATIVE_MAGIC \<or> data ! 4 \<noteq> NEGATIVE_VERSION then None
      else opt_of (rd_absence data 5))"

definition negative_key :: "bytes \<Rightarrow> bytes \<Rightarrow> bytes" where
  "negative_key scope norm_query = NEGATIVE_PREFIX @ hex16 (fnv1a64 (scope @ [0x1F] @ norm_query))"

definition negative_digest :: "bytes \<Rightarrow> bytes option" where
  "negative_digest key = strip_prefix NEGATIVE_PREFIX key"

section \<open>Operations\<close>

definition absence_at :: "bytes option \<Rightarrow> absence_entry" where
  "absence_at w =
     (case w of None \<Rightarrow> absence_default
      | Some w \<Rightarrow> (case absence_decode w of Some (e, _) \<Rightarrow> e | None \<Rightarrow> absence_default))"

definition reinforced :: "bytes \<Rightarrow> bytes \<Rightarrow> u64 \<Rightarrow> absence_entry \<Rightarrow> absence_entry" where
  "reinforced norm scope now e =
     (let e = (if ab_probes e = 0 then e\<lparr>ab_first_tick := now, ab_query := norm, ab_scope := scope\<rparr> else e)
      in e\<lparr>ab_probes := (if ab_probes e = - 1 then - 1 else ab_probes e + 1), ab_last_tick := now\<rparr>)"

definition note_absence :: "'s host \<Rightarrow> bytes \<Rightarrow> bytes \<Rightarrow> u64 \<Rightarrow> ('s, u32) op" where
  "note_absence h query scope now =
     othen (if scope \<noteq> [] then validate_written scope else oret ())
     (let norm = normalize_text (ho_alnum h) query; key = negative_key scope norm in
      if norm = [] then ofail (SE_Invalid ''empty absence query'')
      else if length norm > MAX_KLEN then ofail (SE_Invalid ''absence query exceeds MAX_KLEN'')
      else obind (oget (\<lambda>s. reinforced norm scope now (absence_at (sto_get h s key)))) (\<lambda>e.
        othen (sto_put h key (absence_encode e)) (oret (ab_probes e))))"

definition forget_absence :: "'s host \<Rightarrow> bytes \<Rightarrow> bytes \<Rightarrow> ('s, bool) op" where
  "forget_absence h query scope =
     (let norm = normalize_text (ho_alnum h) query; key = negative_key scope norm in
      if norm = [] then ofail (SE_Invalid ''empty absence query'')
      else obind (oget (\<lambda>s. sto_get h s key \<noteq> None)) (\<lambda>existed.
        if existed then othen (sto_del h key) (oret True) else oret False))"

text \<open>Most recent first, then by scope and query.\<close>

definition recall_absences :: "'s host \<Rightarrow> 's engine \<Rightarrow> bytes option \<Rightarrow> nat \<Rightarrow> absence_entry list" where
  "recall_absences h s scope limit =
     take limit (sort_key (\<lambda>e. (- 1 - ab_last_tick e, ab_scope e, ab_query e))
       (List.map_filter (\<lambda>(_, w). case absence_decode w of
            None \<Rightarrow> None
          | Some (e, _) \<Rightarrow> if ab_scope e = unwrap_or scope [] then Some e else None)
         (be_scan (ho_backend h) (en_storage s) NEGATIVE_PREFIX)))"

definition absence_count :: "'s host \<Rightarrow> 's engine \<Rightarrow> nat" where
  "absence_count h s = length (be_scan (ho_backend h) (en_storage s) NEGATIVE_PREFIX)"

definition expiring_absences :: "'s host \<Rightarrow> 's engine \<Rightarrow> bytes \<Rightarrow> bytes \<Rightarrow> absence_entry list" where
  "expiring_absences h s query_text scope =
     (let norm = normalize_text (ho_alnum h) query_text in
      if norm = [] then []
      else case sto_get h s (negative_key scope norm) of
        Some w \<Rightarrow> (case absence_decode w of Some (e, _) \<Rightarrow> [e] | None \<Rightarrow> [])
      | None \<Rightarrow> [])"

definition saturating_sub :: "u64 \<Rightarrow> u64 \<Rightarrow> u64" where
  "saturating_sub a b = (if a < b then 0 else a - b)"

definition stale_absence :: "u64 \<Rightarrow> u64 \<Rightarrow> bytes \<Rightarrow> bool" where
  "stale_absence now max_age w =
     (case absence_decode w of
        None \<Rightarrow> False
      | Some (e, _) \<Rightarrow> ab_last_tick e \<noteq> 0 \<and> saturating_sub now (ab_last_tick e) > max_age)"

definition prune_step :: "'s host \<Rightarrow> u64 \<Rightarrow> u64 \<Rightarrow> nat \<Rightarrow> bytes \<times> bytes \<Rightarrow> nat \<Rightarrow> ('s, nat) op" where
  "prune_step h now max_age max_remove = (\<lambda>(key, w) removed.
     if max_remove \<noteq> 0 \<and> removed \<ge> max_remove then oret removed
     else if stale_absence now max_age w then othen (sto_del h key) (oret (removed + 1))
     else oret removed)"

definition prune_absences :: "'s host \<Rightarrow> u64 \<Rightarrow> u64 \<Rightarrow> nat \<Rightarrow> ('s, nat) op" where
  "prune_absences h now max_age max_remove =
     (if max_age = 0 then oret 0
      else obind (oget (\<lambda>s. be_scan (ho_backend h) (en_storage s) NEGATIVE_PREFIX)) (\<lambda>rows.
        ofold (prune_step h now max_age max_remove) rows 0))"

section \<open>Reading back\<close>

definition absence_fits :: "absence_entry \<Rightarrow> bool" where
  "absence_fits e \<longleftrightarrow> utf8_valid (ab_scope e) \<and> length (ab_scope e) < 256 ^ 2 \<and>
     utf8_valid (ab_query e) \<and> length (ab_query e) < 256 ^ 2"

lemma absence_decode_encode:
  assumes "absence_fits e"
  shows "absence_decode (absence_encode e) = Some (e, length (absence_encode e))"
proof -
  let ?b = "le_enc 4 (unat (ab_probes e)) @ le_enc 8 (unat (ab_first_tick e)) @ le_enc 8 (unat (ab_last_tick e)) @
     enc_str 2 (ab_scope e) @ enc_str 2 (ab_query e)"
  have "reads rd_absence ?b e"
    unfolding rd_absence_def using assms unfolding absence_fits_def
    by (intro reads_rbind [OF reads_rd_f32] reads_rbind [OF reads_rd_u64] reads_rbind [OF reads_rd_str]
        reads_rbind_last [OF reads_rd_str]) (auto, cases e, simp add: reads_rret)
  from reads_after [OF this, of "NEGATIVE_MAGIC @ [NEGATIVE_VERSION]" 5]
  have "rd_absence (absence_encode e) 5 = Inr (e, length (absence_encode e))"
    by (simp add: absence_encode_def NEGATIVE_MAGIC_def)
  moreover have "\<not> length (absence_encode e) < 25" "take 4 (absence_encode e) = NEGATIVE_MAGIC"
      "absence_encode e ! 4 = NEGATIVE_VERSION"
    by (simp_all add: absence_encode_def enc_str_def NEGATIVE_MAGIC_def ascii_def nth_append)
  ultimately show ?thesis by (simp add: absence_decode_def opt_of_def)
qed

section \<open>Normalised queries are text\<close>

lemma first_char:
  assumes "utf8_valid (b # bs)"
  shows "utf8_valid (b # take (char_len b - 1) bs) \<and> utf8_valid (drop (char_len b - 1) bs)"
proof -
  have one: ?thesis if "b < 0x80" using that assms by (simp add: char_len_def utf8_valid.simps(2))
  have two: ?thesis if b: "\<not> b < 0x80" "0xC2 \<le> b \<and> b \<le> 0xDF"
  proof -
    have n: "char_len b = 2" using b by (simp add: char_len_def word_le_nat_alt word_less_nat_alt)
    obtain c r where r: "bs = c # r" "cont_byte c" "utf8_valid r"
      using assms b unfolding utf8_valid.simps(2) if_not_P [OF b(1)] if_P [OF b(2)] by (cases bs) auto
    show ?thesis unfolding r n utf8_valid.simps(2) [of b] if_not_P [OF b(1)] if_P [OF b(2)] using r by simp
  qed
  have three: ?thesis if b: "\<not> b < 0x80" "\<not> (0xC2 \<le> b \<and> b \<le> 0xDF)" "0xE0 \<le> b \<and> b \<le> 0xEF"
  proof -
    have n: "char_len b = 3" using b by (simp add: char_len_def word_le_nat_alt word_less_nat_alt)
    obtain c d r where r: "bs = c # d # r" "second3 b c" "cont_byte d" "utf8_valid r"
      using assms unfolding utf8_valid.simps(2) if_not_P [OF b(1)] if_not_P [OF b(2)] if_P [OF b(3)]
      by (auto split: list.splits)
    show ?thesis
      unfolding r n utf8_valid.simps(2) [of b] if_not_P [OF b(1)] if_not_P [OF b(2)] if_P [OF b(3)]
      using r by (simp add: numeral_2_eq_2)
  qed
  have four: ?thesis if b: "\<not> b < 0x80" "\<not> (0xC2 \<le> b \<and> b \<le> 0xDF)" "\<not> (0xE0 \<le> b \<and> b \<le> 0xEF)" "0xF0 \<le> b \<and> b \<le> 0xF4"
  proof -
    have n: "char_len b = 4" using b by (simp add: char_len_def word_le_nat_alt word_less_nat_alt)
    obtain c d f r where r: "bs = c # d # f # r" "second4 b c" "cont_byte d" "cont_byte f" "utf8_valid r"
      using assms unfolding utf8_valid.simps(2) if_not_P [OF b(1)] if_not_P [OF b(2)] if_not_P [OF b(3)] if_P [OF b(4)]
      by (auto split: list.splits)
    show ?thesis
      unfolding r n utf8_valid.simps(2) [of b] if_not_P [OF b(1)] if_not_P [OF b(2)] if_not_P [OF b(3)] if_P [OF b(4)]
      using r by (simp add: numeral_3_eq_3)
  qed
  have "b < 0x80 \<or> (0xC2 \<le> b \<and> b \<le> 0xDF) \<or> (0xE0 \<le> b \<and> b \<le> 0xEF) \<or> (0xF0 \<le> b \<and> b \<le> 0xF4)"
    using assms unfolding utf8_valid.simps(2) by presburger
  then show ?thesis using one two three four by blast
qed

lemma chars_utf8: "utf8_valid s \<Longrightarrow> c \<in> set (chars_of s) \<Longrightarrow> utf8_valid c"
  by (induction s rule: chars_of.induct) (use first_char in auto)

lemma lowercase_utf8: "utf8_valid c \<Longrightarrow> utf8_valid (to_ascii_lowercase c)"
proof (cases c)
  case (Cons b r)
  assume c: "utf8_valid c"
  show ?thesis
  proof (cases r)
    case Nil
    have "b < 0x80" using c Cons Nil by (auto simp: utf8_valid.simps(2) split: if_splits)
    then have "(if 0x41 \<le> b \<and> b \<le> 0x5A then b + 0x20 else b) < 0x80"
      by (auto simp: word_le_nat_alt word_less_nat_alt unat_word_ariths)
    then show ?thesis using Cons Nil by (simp add: to_ascii_lowercase_def utf8_valid.simps(2))
  qed (use c Cons in \<open>simp add: to_ascii_lowercase_def\<close>)
qed (simp add: to_ascii_lowercase_def)

lemma tokens_utf8:
  assumes "utf8_valid s" "t \<in> set (tokenize alnum s)"
  shows "utf8_valid t"
proof -
  have "(\<forall>c \<in> set cs. utf8_valid c) \<Longrightarrow> (\<forall>t \<in> set out. utf8_valid t) \<Longrightarrow> utf8_valid cur \<Longrightarrow>
      (case fold (token_step alnum) cs (out, cur) of (out, cur) \<Rightarrow> (\<forall>t \<in> set out. utf8_valid t) \<and> utf8_valid cur)" for cs out cur
    by (induction cs arbitrary: out cur) (auto simp: token_step_def utf8_valid_append lowercase_utf8)
  from this [of "chars_of s" "[]" "[]"] show ?thesis
    using assms chars_utf8 [OF assms(1)] by (auto simp: tokenize_def split: prod.splits if_splits)
qed

lemma join_utf8: "utf8_valid sep \<Longrightarrow> (\<And>w. w \<in> set ws \<Longrightarrow> utf8_valid w) \<Longrightarrow> utf8_valid (join_with sep ws)"
  by (induction sep ws rule: join_with.induct) (auto intro!: utf8_valid_append)

lemma normalize_utf8: "utf8_valid s \<Longrightarrow> utf8_valid (normalize_text alnum s)"
  unfolding normalize_text_def
  by (rule join_utf8, rule utf8_valid_ascii) (auto simp: ascii_def intro: tokens_utf8)

section \<open>Properties\<close>

lemma negative_not_empty: "absence_encode e \<noteq> []"
  by (simp add: absence_encode_def NEGATIVE_MAGIC_def ascii_def)

text \<open>Absences, over any backend: noting an absent query reinforces the one row of its scope and
  normalised text (counting up without wrapping, keeping the first tick and moving the last one) and
  nothing else in the storage; the ledger then answers with exactly that row, and forgetting removes
  it, once.\<close>

theorem note_absence_reinforces_one_row:
  assumes "backend_store good view (ho_backend h) fits means" and "good (en_storage s)"
    and "utf8_valid query" "norm = normalize_text (ho_alnum h) query" "norm \<noteq> []" "length norm \<le> MAX_KLEN"
    and "scope = [] \<or> written_problem scope = None" "utf8_valid scope"
    and "old = absence_at (view (en_storage s) (negative_key scope norm))"
    and "ab_probes old \<noteq> 0 \<longrightarrow> ab_query old = norm \<and> ab_scope old = scope"
    and "fits (negative_key scope norm) (absence_encode (reinforced norm scope now old))"
  shows "\<exists>e s' s''. note_absence h query scope now s = (Inr (ab_probes e), s') \<and>
    ab_query e = norm \<and> ab_scope e = scope \<and> ab_last_tick e = now \<and>
    unat (ab_probes e) = min (unat (ab_probes old) + 1) (2 ^ 32 - 1) \<and>
    ab_first_tick e = (if ab_probes old = 0 then now else ab_first_tick old) \<and>
    view (en_storage s') = (view (en_storage s))(negative_key scope norm \<mapsto> absence_encode e) \<and>
    expiring_absences h s' query scope = [e] \<and>
    forget_absence h query scope s' = (Inr True, s'') \<and>
    view (en_storage s'') = (view (en_storage s))(negative_key scope norm := None) \<and>
    forget_absence h query scope s'' = (Inr False, s'')"
proof -
  let ?k = "negative_key scope norm" and ?e = "reinforced norm scope now old"
  have st: "engine_store good view h fits means" using assms(1) by (simp add: engine_store_def)
  have fit0: "fits ?k []"
    using kv_store.fits_key [OF backend_store.axioms(1) [OF assms(1)] assms(11)] .
  have get: "good (en_storage t) \<Longrightarrow> sto_get h t ?k = view (en_storage t) ?k" for t :: "'a engine"
    using engine_store.sto_get_view [OF st _ fit0] .
  have sc: "length scope \<le> MAX_KLEN" using assms(7) written_ok [of scope] by auto
  have e: "ab_query ?e = norm" "ab_scope ?e = scope" "ab_last_tick ?e = now"
    "ab_first_tick ?e = (if ab_probes old = 0 then now else ab_first_tick old)"
    using assms(10) by (auto simp: reinforced_def Let_def)
  have probes: "unat (ab_probes ?e) = min (unat (ab_probes old) + 1) (2 ^ 32 - 1)"
  proof (cases "ab_probes old = - 1")
    case True
    then show ?thesis by (simp add: reinforced_def Let_def unsigned_minus_1_eq_mask mask_eq_exp_minus_1)
  next
    case False
    have "unat (ab_probes old) \<noteq> unat (- 1 :: u32)" using False by (simp only: word_unat_eq_iff [symmetric] not_False_eq_True)
    moreover have "unat (ab_probes old) < 2 ^ 32" using unsigned_less [of "ab_probes old"] by simp
    ultimately have "unat (ab_probes old) < 2 ^ 32 - 1" by (simp add: unsigned_minus_1_eq_mask mask_eq_exp_minus_1)
    then show ?thesis using False by (simp add: reinforced_def Let_def unat_word_ariths)
  qed
  have "absence_fits ?e"
    using e sc assms(4,6,8) normalize_utf8 [OF assms(3)] by (simp add: absence_fits_def MAX_KLEN_def)
  note dec = absence_decode_encode [OF this]
  have guard: "P () s \<Longrightarrow> does (if scope \<noteq> [] then validate_written scope else oret ()) s P" for P
    using assms(7) by (auto simp: validate_written_def intro: does_ret does_guard)
  have "does (note_absence h query scope now) s (\<lambda>p s'. p = ab_probes ?e \<and> good (en_storage s') \<and>
      view (en_storage s') = (view (en_storage s))(?k \<mapsto> absence_encode ?e))"
    unfolding note_absence_def Let_def assms(4) [symmetric] if_not_P [OF assms(5)]
    by (rule does_then, rule guard)
      (use assms(2,6,9,11) get [OF assms(2)] backend_store.means_some [OF assms(1) negative_not_empty] in
        \<open>auto intro!: engine_store.does_put [OF st] does_then does_bind does_get does_ret\<close>)
  then obtain s' where s': "note_absence h query scope now s = (Inr (ab_probes ?e), s')" "good (en_storage s')"
    "view (en_storage s') = (view (en_storage s))(?k \<mapsto> absence_encode ?e)" by (auto elim!: doesE)
  have exp: "expiring_absences h s' query scope = [?e]"
    using assms(5) by (simp add: expiring_absences_def Let_def assms(4) [symmetric] get [OF s'(2)] s'(3) dec)
  have "does (forget_absence h query scope) s' (\<lambda>b s''. b \<and> good (en_storage s'') \<and>
      view (en_storage s'') = (view (en_storage s))(?k := None))"
    unfolding forget_absence_def Let_def assms(4) [symmetric] if_not_P [OF assms(5)]
    using get [OF s'(2)] s'(2,3) fit0
    by (auto intro!: engine_store.does_del [OF st] does_then does_bind does_get does_ret)
  then obtain s'' where s'': "forget_absence h query scope s' = (Inr True, s'')" "good (en_storage s'')"
    "view (en_storage s'') = (view (en_storage s))(?k := None)" by (auto elim!: doesE)
  have "forget_absence h query scope s'' = (Inr False, s'')"
    using assms(5) get [OF s''(2)] s''(3)
    by (simp add: forget_absence_def Let_def assms(4) [symmetric] obind_def oget_def oret_def)
  then show ?thesis using s' s'' e probes exp by blast
qed

theorem note_absence_reinforces_one_row_witness:
  "\<exists>(e :: absence_entry) s'. note_absence (ram_host (\<lambda>_. False) False) (ascii ''A, b!'') [] 5 empty_engine = (Inr (ab_probes e), s') \<and>
     unat (ab_probes e) = 1 \<and> ab_query e = ascii ''a b'' \<and> ab_first_tick e = 5"
proof -
  have norm: "ascii ''a b'' = normalize_text (ho_alnum (ram_host (\<lambda>_. False) False)) (ascii ''A, b!'')"
    by code_simp
  have query_ok: "utf8_valid (ascii ''A, b!'')" by (simp add: ascii_def utf8_valid.simps(2))
  have good: "bt_wf (im_map (en_storage empty_engine))" and ne: "ascii ''a b'' \<noteq> []" "length (ascii ''a b'') \<le> MAX_KLEN"
    by (simp_all add: empty_engine_def engine_new_def in_memory_new_def ascii_def MAX_KLEN_def)
  have old: "absence_default = absence_at (bt_get (im_map (en_storage empty_engine)) k)" for k
    by (simp add: empty_engine_def engine_new_def in_memory_new_def absence_at_def)
  have none: "ab_probes absence_default \<noteq> 0 \<longrightarrow> ab_query absence_default = ascii ''a b'' \<and> ab_scope absence_default = []"
    by (simp add: absence_default_def)
  obtain e :: absence_entry and s' where r: "note_absence (ram_host (\<lambda>_. False) False) (ascii ''A, b!'') [] 5 empty_engine = (Inr (ab_probes e), s')"
    "ab_query e = ascii ''a b''" "unat (ab_probes e) = min (unat (ab_probes absence_default) + 1) (2 ^ 32 - 1)"
    "ab_first_tick e = (if ab_probes absence_default = 0 then 5 else ab_first_tick absence_default)"
    using note_absence_reinforces_one_row [OF ram_host_store good query_ok norm ne disjI1 [OF refl] utf8_valid.simps(1) [THEN iffD2, OF TrueI] old none TrueI, of 5]
    by blast
  show ?thesis by (rule exI [of _ e], rule exI [of _ s']) (simp add: r absence_default_def)
qed

end
