(* ===== verification/Float32.thy ===== *)
theory Float32
  imports Bq
begin

text \<open>
  The \<open>f32\<close> arithmetic of the crate on the bits of the numbers: exact values in units of
  \<open>2 ^ - 149\<close>, addition rounded to the nearest with ties to even, negation, \<open>clamp(0.0, 1.0)\<close> and
  \<open>max\<close>.
\<close>

unbundle bit_operations_syntax

definition f32_negative :: "u32 \<Rightarrow> bool" where
  "f32_negative x \<longleftrightarrow> bit x 31"

definition f32_neg :: "u32 \<Rightarrow> u32" where
  "f32_neg x = x XOR 0x80000000"

definition f32_mag :: "u32 \<Rightarrow> nat" where
  "f32_mag x =
     (let b = unat (x AND 0x7FFFFFFF); e = b div 2 ^ 23; f = b mod 2 ^ 23
      in if e = 0 then f else (2 ^ 23 + f) * 2 ^ (e - 1))"

definition f32_units :: "u32 \<Rightarrow> int" where
  "f32_units x = (if f32_negative x then - int (f32_mag x) else int (f32_mag x))"

text \<open>Half of the unit in the last place rounds to the even neighbour.\<close>

definition round_even :: "nat \<Rightarrow> nat \<Rightarrow> nat" where
  "round_even m d =
     (let q = m div d; r = m mod d in if 2 * r > d \<or> 2 * r = d \<and> odd q then q + 1 else q)"

fun excess :: "nat \<Rightarrow> nat" where
  "excess m = (if m < 2 ^ 24 then 0 else Suc (excess (m div 2)))"

declare excess.simps [simp del]

text \<open>The bits of a magnitude: the exponent is the number of bits cut off, a carry moves it up.\<close>

definition f32_round :: "nat \<Rightarrow> nat" where
  "f32_round m = min 0x7F800000 (excess m * 2 ^ 23 + round_even m (2 ^ excess m))"

definition f32_of_units :: "int \<Rightarrow> u32" where
  "f32_of_units v = (if v < 0 then 0x80000000 else 0) OR of_nat (f32_round (nat \<bar>v\<bar>))"

definition F32_NAN :: u32 where
  "F32_NAN = 0x7FC00000"

definition f32_add :: "u32 \<Rightarrow> u32 \<Rightarrow> u32" where
  "f32_add x y =
     (if f32_nan x \<or> f32_nan y then F32_NAN
      else if \<not> f32_finite x then (if \<not> f32_finite y \<and> x \<noteq> y then F32_NAN else x)
      else if \<not> f32_finite y then y
      else let v = f32_units x + f32_units y in
        if v = 0 then (if f32_negative x \<and> f32_negative y then 0x80000000 else 0)
        else f32_of_units v)"

definition f32_clamp01 :: "u32 \<Rightarrow> u32" where
  "f32_clamp01 x =
     (let x = (if f32_gt 0 x then 0 else x) in if f32_gt x 0x3F800000 then 0x3F800000 else x)"

text \<open>A NaN is ignored; of two zeros the first is taken.\<close>

definition f32_max :: "u32 \<Rightarrow> u32 \<Rightarrow> u32" where
  "f32_max x y = (if f32_nan x then y else if f32_nan y then x else if f32_gt y x then y else x)"


text \<open>The comparison \<open>x <= y\<close>.\<close>

definition f32_le :: "u32 \<Rightarrow> u32 \<Rightarrow> bool" where
  "f32_le x y \<longleftrightarrow> \<not> f32_nan x \<and> \<not> f32_nan y \<and> f32_key x \<le> f32_key y"

section \<open>Clamping\<close>

lemma f32_key_consts [simp]: "f32_key 0 = 0" "f32_key 0x3F800000 = 0x3F800000"
  "\<not> f32_nan 0" "\<not> f32_nan 0x3F800000"
  by (simp_all add: f32_key_def f32_nan_def)

lemma clamp_unit: "\<not> f32_nan x \<Longrightarrow> f32_le 0 (f32_clamp01 x) \<and> f32_le (f32_clamp01 x) 0x3F800000"
  by (auto simp: f32_clamp01_def f32_le_def f32_gt_def Let_def)

lemma clamp_id: "f32_le 0 x \<Longrightarrow> f32_le x 0x3F800000 \<Longrightarrow> f32_clamp01 x = x"
  by (auto simp: f32_clamp01_def f32_le_def f32_gt_def Let_def)

lemma clamp_mono: "f32_le x y \<Longrightarrow> f32_le (f32_clamp01 x) (f32_clamp01 y)"
  by (auto simp: f32_clamp01_def f32_le_def f32_gt_def Let_def)

section \<open>Rounding\<close>

lemma excess_bounds: "m < 2 ^ (24 + excess m) \<and> (excess m = 0 \<or> 2 ^ (23 + excess m) \<le> m)"
proof (induction m rule: excess.induct)
  case (1 m)
  show ?case
  proof (cases "m < 2 ^ 24")
    case True
    then show ?thesis by (simp add: excess.simps [of m])
  next
    case False
    let ?e = "excess (m div 2)"
    have "m div 2 < 2 ^ (24 + ?e)" "?e = 0 \<or> 2 ^ (23 + ?e) \<le> m div 2" using 1 [OF False] by simp_all
    then have "m < 2 * 2 ^ (24 + ?e)" "2 ^ (24 + ?e) \<le> m" using False by (auto simp: power_add)
    moreover have "2 * 2 ^ (24 + ?e) = (2::nat) ^ (25 + ?e)" by (simp add: power_add)
    ultimately show ?thesis using False by (simp add: excess.simps [of m])
  qed
qed

lemma excess_eqI:
  assumes "m < 2 ^ (24 + e)" "e = 0 \<or> 2 ^ (23 + e) \<le> m"
  shows "excess m = e"
proof (rule ccontr)
  assume "excess m \<noteq> e"
  then consider "excess m < e" | "e < excess m" by linarith
  then show False
  proof cases
    case 1
    then have "(2::nat) ^ (24 + excess m) \<le> 2 ^ (23 + e)" by (intro power_increasing) auto
    then show False using 1 assms(2) excess_bounds [of m] by linarith
  next
    case 2
    then have "(2::nat) ^ (24 + e) \<le> 2 ^ (23 + excess m)" by (intro power_increasing) auto
    then show False using 2 assms(1) excess_bounds [of m] by linarith
  qed
qed

lemma excess_mono: assumes "m \<le> n" shows "excess m \<le> excess n"
proof (rule ccontr)
  assume "\<not> excess m \<le> excess n"
  then have "(2::nat) ^ (24 + excess n) \<le> 2 ^ (23 + excess m)" "excess m \<noteq> 0" by (auto intro!: power_increasing)
  then show False using assms excess_bounds [of m] excess_bounds [of n] by linarith
qed

lemma round_even_bounds: "m div d \<le> round_even m d" "round_even m d \<le> m div d + 1"
  by (simp_all add: round_even_def Let_def)

lemma round_even_mono:
  assumes "m \<le> n" "0 < d"
  shows "round_even m d \<le> round_even n d"
proof (cases "m div d = n div d")
  case True
  have "m = n div d * d + m mod d" by (simp flip: True)
  then have "m mod d \<le> n mod d" using assms(1) div_mult_mod_eq [of n d] by linarith
  then show ?thesis using True by (auto simp: round_even_def Let_def)
next
  case False
  then have "m div d + 1 \<le> n div d" using div_le_mono [OF assms(1), of d] by linarith
  then show ?thesis using round_even_bounds [of m d] round_even_bounds [of n d] by linarith
qed

lemma f32_round_mono:
  assumes "m \<le> n"
  shows "f32_round m \<le> f32_round n"
proof -
  let ?e = "excess m" and ?f = "excess n"
  have "?e * 2 ^ 23 + round_even m (2 ^ ?e) \<le> ?f * 2 ^ 23 + round_even n (2 ^ ?f)"
  proof (cases "?e = ?f")
    case True
    then show ?thesis using round_even_mono [OF assms, of "2 ^ ?f"] by simp
  next
    case False
    then have less: "?e < ?f" using excess_mono [OF assms] by linarith
    have "m < 2 ^ 24 * 2 ^ ?e" using excess_bounds [of m] by (simp add: power_add)
    then have "m div 2 ^ ?e < 2 ^ 24" by (simp add: less_mult_imp_div_less)
    then have "round_even m (2 ^ ?e) \<le> 2 ^ 24" using round_even_bounds(2) [of m "2 ^ ?e"] by linarith
    moreover have "2 ^ 23 * 2 ^ ?f \<le> n" using excess_bounds [of n] less by (simp add: power_add)
    then have "2 ^ 23 \<le> n div 2 ^ ?f" by (simp add: less_eq_div_iff_mult_less_eq)
    then have "2 ^ 23 \<le> round_even n (2 ^ ?f)" using round_even_bounds(1) [of n "2 ^ ?f"] by linarith
    moreover have "(?e + 1) * 2 ^ 23 \<le> ?f * (2 ^ 23 :: nat)" using less by (intro mult_right_mono) auto
    ultimately show ?thesis by simp
  qed
  then show ?thesis by (simp add: f32_round_def)
qed

lemma f32_round_mag:
  assumes "x < 0x7F800000"
  shows "f32_round (f32_mag x) = unat x"
proof -
  let ?b = "unat x"
  have lt: "?b < 0x7F800000" using assms by (simp add: word_less_nat_alt)
  have "x AND 0x7FFFFFFF = x"
  proof -
    have "unat (x AND mask 31) = unat x mod 2 ^ 31"
      by (simp add: unat_mod take_bit_eq_mod flip: take_bit_eq_mask)
    also have "\<dots> = unat x" using lt by (intro mod_less) simp
    finally have "x AND mask 31 = x" by (simp only: word_unat_eq_iff)
    moreover have "(mask 31 :: u32) = 0x7FFFFFFF" by (simp add: mask_eq_exp_minus_1)
    ultimately show ?thesis by simp
  qed
  then have mag: "f32_mag x = (let e = ?b div 2 ^ 23; f = ?b mod 2 ^ 23 in if e = 0 then f else (2 ^ 23 + f) * 2 ^ (e - 1))"
    by (simp add: f32_mag_def Let_def)
  show ?thesis
  proof (cases "?b div 2 ^ 23 = 0")
    case True
    then have "f32_mag x = ?b" "?b < 2 ^ 23" using mag by (simp_all add: div_eq_0_iff)
    then show ?thesis using excess_eqI [of ?b 0] by (simp add: f32_round_def round_even_def)
  next
    case False
    define e f where "e = ?b div 2 ^ 23 - 1" and "f = ?b mod 2 ^ 23"
    have b: "?b = (e + 1) * 2 ^ 23 + f" and f: "f < 2 ^ 23" using False by (simp_all add: e_def f_def div_mult_mod_eq)
    have m: "f32_mag x = (2 ^ 23 + f) * 2 ^ e" using mag False by (simp add: e_def f_def Let_def)
    have "excess ((2 ^ 23 + f) * 2 ^ e) = e"
      using f by (intro excess_eqI) (simp_all add: power_add)
    then show ?thesis using b lt by (simp add: m f32_round_def round_even_def)
  qed
qed


section \<open>Adding to a positive number\<close>

lemma positive_iff: "\<not> bit x 31 \<longleftrightarrow> x < 0x80000000" for x :: u32
proof -
  have "unat x < 2 ^ 32" using unsigned_less [of x] by simp
  then have "unat x div 2 ^ 31 = 0 \<or> unat x div 2 ^ 31 = 1" by (auto simp: less_mult_imp_div_less)
  moreover have "bit x 31 \<longleftrightarrow> bit (unat x) 31" by (simp add: bit_unsigned_iff)
  then have "bit x 31 \<longleftrightarrow> odd (unat x div 2 ^ 31)" by (simp only: bit_iff_odd)
  ultimately have "\<not> bit x 31 \<longleftrightarrow> unat x < 2 ^ 31" by (auto simp: div_eq_0_iff)
  then show ?thesis by (simp add: word_less_nat_alt)
qed

lemma positive_and: "x < 0x80000000 \<Longrightarrow> x AND 0x7FFFFFFF = x" for x :: u32
proof -
  assume "x < 0x80000000"
  then have "unat x mod 2 ^ 31 = unat x" by (intro mod_less) (simp add: word_less_nat_alt)
  moreover have "unat (x AND mask 31) = unat x mod 2 ^ 31"
    by (simp add: unat_mod take_bit_eq_mod flip: take_bit_eq_mask)
  ultimately have "x AND mask 31 = x" by (simp only: word_unat_eq_iff)
  moreover have "(mask 31 :: u32) = 0x7FFFFFFF" by (simp add: mask_eq_exp_minus_1)
  ultimately show ?thesis by simp
qed

lemma positive_key: "x < 0x80000000 \<Longrightarrow> f32_key x = int (unat x)"
  using positive_iff [of x] by (simp add: f32_key_def positive_and)

lemma round_le_inf: "f32_round m \<le> 0x7F800000"
  by (simp add: f32_round_def)

lemma of_round_positive: "(of_nat (f32_round m) :: u32) < 0x80000000" "unat (of_nat (f32_round m) :: u32) = f32_round m"
proof -
  show "unat (of_nat (f32_round m) :: u32) = f32_round m"
    using round_le_inf [of m] by (simp add: unat_of_nat)
  then show "(of_nat (f32_round m) :: u32) < 0x80000000"
    using round_le_inf [of m] by (simp add: word_less_nat_alt)
qed

lemma of_units_positive:
  assumes "0 \<le> v"
  shows "f32_key (f32_of_units v) = int (f32_round (nat v))" "\<not> f32_nan (f32_of_units v)"
proof -
  have "f32_of_units v = of_nat (f32_round (nat v))" using assms by (simp add: f32_of_units_def)
  then show "f32_key (f32_of_units v) = int (f32_round (nat v))" "\<not> f32_nan (f32_of_units v)"
    using of_round_positive [of "nat v"] round_le_inf [of "nat v"]
    by (simp_all add: positive_key f32_nan_def positive_and word_less_nat_alt)
qed

lemma finite_positive:
  assumes "x < 0x80000000" "f32_finite x"
  shows "x < 0x7F800000" "\<not> f32_nan x"
proof -
  have "\<not> 0x7F800000 \<le> x"
  proof
    assume "0x7F800000 \<le> x"
    then have lo: "0x7F800000 \<le> unat x" and hi: "unat x < 0x80000000" using assms(1) by (simp_all add: word_le_nat_alt word_less_nat_alt)
    have "unat x div 2 ^ 23 = 255" using lo hi by (intro div_nat_eqI) simp_all
    then have "unat (x div 2 ^ 23) = unat (mask 8 :: u32)" by (simp add: unat_div mask_eq_exp_minus_1)
    then have d: "drop_bit 23 x = mask 8" by (simp only: word_unat_eq_iff drop_bit_eq_div)
    have c: "(0x7F800000 :: u32) = push_bit 23 (mask 8)" by (simp add: push_bit_eq_mult mask_eq_exp_minus_1)
    have "bit x i" if "bit (push_bit 23 (mask 8) :: u32) i" for i
    proof -
      have "23 \<le> i" "i - 23 < 8" "i < 32" using that by (auto simp: bit_push_bit_iff bit_mask_iff)
      then have "bit (drop_bit 23 x) (i - 23)" by (simp add: d bit_mask_iff)
      then show ?thesis using \<open>23 \<le> i\<close> by (simp add: bit_drop_bit_eq)
    qed
    then have "x AND 0x7F800000 = 0x7F800000" unfolding c by (intro bit_word_eqI) (auto simp: bit_and_iff)
    then show False using assms(2) by (simp add: f32_finite_def)
  qed
  then show "x < 0x7F800000" by simp
  then show "\<not> f32_nan x" using assms(1) by (simp add: f32_nan_def positive_and word_less_nat_alt)
qed

lemma key_round: "x < 0x7F800000 \<Longrightarrow> f32_key x = int (f32_round (f32_mag x))"
  using positive_key [of x] by (simp add: f32_round_mag word_less_nat_alt)

text \<open>Adding a positive number never goes down, adding a negative one never up.\<close>

lemma units_positive: "x < 0x80000000 \<Longrightarrow> f32_units x = int (f32_mag x)"
  using positive_iff [of x] by (simp add: f32_units_def f32_negative_def)

lemma zero_units: "x < 0x7F800000 \<Longrightarrow> f32_mag x = 0 \<Longrightarrow> x = 0"
  using f32_round_mag [of x] by (simp add: f32_round_def excess.simps round_even_def word_unat_eq_iff)

lemma add_up:
  assumes "x < 0x80000000" "f32_finite x" "d < 0x80000000" "f32_finite d"
  shows "f32_le x (f32_add x d)"
proof -
  note x = finite_positive [OF assms(1,2)] and d = finite_positive [OF assms(3,4)]
  let ?v = "f32_units x + f32_units d"
  have v: "?v = int (f32_mag x + f32_mag d)" using assms by (simp add: units_positive)
  have nn: "\<not> f32_negative x" "\<not> f32_negative d" using assms positive_iff by (simp_all add: f32_negative_def)
  show ?thesis
  proof (cases "?v = 0")
    case True
    then have "x = 0" using v zero_units [OF x(1)] by simp
    then show ?thesis using True x d assms nn by (simp add: f32_add_def f32_le_def)
  next
    case False
    then have add: "f32_add x d = f32_of_units ?v" using x(2) d(2) assms by (simp add: f32_add_def)
    have "f32_round (f32_mag x) \<le> f32_round (f32_mag x + f32_mag d)" by (rule f32_round_mono) simp
    moreover have "nat ?v = f32_mag x + f32_mag d" unfolding v by (rule nat_int)
    ultimately have "f32_key x \<le> f32_key (f32_of_units ?v)"
      using of_units_positive(1) [of ?v] v by (simp add: key_round [OF x(1)])
    then show ?thesis using of_units_positive(2) [of ?v] x v by (simp add: add f32_le_def)
  qed
qed


text \<open>The reinforcement of a weight: the sum cut back to the unit interval.\<close>

definition f32_bump :: "u32 \<Rightarrow> u32 \<Rightarrow> u32" where
  "f32_bump x d = f32_clamp01 (f32_add x d)"

lemma of_units_negative:
  assumes "v < 0"
  shows "f32_key (f32_of_units v) \<le> 0" "\<not> f32_nan (f32_of_units v)"
proof -
  let ?r = "of_nat (f32_round (nat \<bar>v\<bar>)) :: u32"
  have low: "(0x80000000 OR ?r) AND 0x7FFFFFFF = ?r"
    using positive_and [OF of_round_positive(1)] by (simp add: bit.conj_disj_distrib2)
  have "bit (0x80000000 :: u32) 31" using positive_iff [of "0x80000000"] by simp
  then have "bit (0x80000000 OR ?r) 31" by (simp add: bit_or_iff)
  moreover have "f32_of_units v = 0x80000000 OR ?r" using assms by (simp add: f32_of_units_def)
  ultimately show "f32_key (f32_of_units v) \<le> 0" "\<not> f32_nan (f32_of_units v)"
    using of_round_positive(2) [of "nat \<bar>v\<bar>"] round_le_inf [of "nat \<bar>v\<bar>"]
    unfolding f32_key_def f32_nan_def by (simp_all only: low) (simp_all add: word_less_nat_alt)
qed

lemma add_down:
  assumes "x < 0x80000000" "f32_finite x" "f32_negative d" "f32_finite d" "\<not> f32_nan d"
  shows "f32_le (f32_add x d) x"
proof -
  note x = finite_positive [OF assms(1,2)]
  let ?v = "f32_units x + f32_units d"
  have v: "?v = int (f32_mag x) - int (f32_mag d)" using assms by (simp add: units_positive) (simp add: f32_units_def)
  have nn: "\<not> f32_negative x" using assms positive_iff by (simp add: f32_negative_def)
  note key = key_round [OF x(1)]
  have add: "?v \<noteq> 0 \<Longrightarrow> f32_add x d = f32_of_units ?v" using x(2) assms by (simp add: f32_add_def)
  consider "?v = 0" | "?v < 0" | "0 < ?v" by linarith
  then show ?thesis
  proof cases
    case 1
    then show ?thesis using x assms nn key by (simp add: f32_add_def f32_le_def)
  next
    case 2
    then show ?thesis using of_units_negative [OF 2] x key add by (simp add: f32_le_def)
  next
    case 3
    then have "nat ?v \<le> f32_mag x" using v by simp
    then have "f32_round (nat ?v) \<le> f32_round (f32_mag x)" by (rule f32_round_mono)
    then show ?thesis using of_units_positive [of ?v] 3 x key add by (simp add: f32_le_def)
  qed
qed

lemma neg_positive: "x < 0x80000000 \<Longrightarrow> f32_negative (f32_neg x)"
  using positive_iff [of x] positive_iff [of "0x80000000"]
  by (simp add: f32_negative_def f32_neg_def bit_xor_iff)

lemma neg_finite: "f32_finite (f32_neg x) = f32_finite x"
  by (simp add: f32_finite_def f32_neg_def bit.conj_xor_distrib2)

lemma neg_nan: "f32_nan (f32_neg x) = f32_nan x"
  by (simp add: f32_nan_def f32_neg_def bit.conj_xor_distrib2)

text \<open>
  The weights under use: a weight of the unit interval stays there, goes up under a positive amount and
  down under a negative one.
\<close>

lemma add_number: "f32_finite x \<Longrightarrow> f32_finite d \<Longrightarrow> \<not> f32_nan x \<Longrightarrow> \<not> f32_nan d \<Longrightarrow> \<not> f32_nan (f32_add x d)"
  using of_units_positive(2) [of "f32_units x + f32_units d"] of_units_negative(2) [of "f32_units x + f32_units d"]
  by (cases "0 \<le> f32_units x + f32_units d") (auto simp: f32_add_def f32_nan_def Let_def)

lemma f32_le_trans: "f32_le x y \<Longrightarrow> f32_le y z \<Longrightarrow> f32_le x z"
  by (simp add: f32_le_def)

lemma small_finite: "x < 0x7F800000 \<Longrightarrow> f32_finite x"
  using word_and_le1 [of x "0x7F800000"] word_and_le2 [of x "0x7F800000"] by (auto simp: f32_finite_def)

lemma unit_weight:
  assumes "x \<le> 0x3F800000"
  shows "x < 0x80000000" "f32_finite x" "\<not> f32_nan x" "f32_clamp01 x = x" "f32_le x x"
proof -
  have lt: "x < 0x7F800000" using assms by (simp add: word_less_nat_alt word_le_nat_alt)
  show pos: "x < 0x80000000" using lt by (simp add: word_less_nat_alt)
  show fin: "f32_finite x" by (rule small_finite [OF lt])
  show nan: "\<not> f32_nan x" by (rule finite_positive(2) [OF pos fin])
  have "unat x \<le> 0x3F800000" using assms by (simp add: word_le_nat_alt)
  then have "0 \<le> f32_key x" "f32_key x \<le> 0x3F800000" unfolding positive_key [OF pos] by linarith+
  then show "f32_clamp01 x = x" "f32_le x x" using nan by (auto intro!: clamp_id simp: f32_le_def)
qed

lemma bump_unit: "x \<le> 0x3F800000 \<Longrightarrow> f32_finite d \<Longrightarrow> \<not> f32_nan d \<Longrightarrow>
    f32_le 0 (f32_bump x d) \<and> f32_le (f32_bump x d) 0x3F800000"
  unfolding f32_bump_def using unit_weight [of x] by (intro clamp_unit add_number)

lemma bump_up: "x \<le> 0x3F800000 \<Longrightarrow> d < 0x80000000 \<Longrightarrow> f32_finite d \<Longrightarrow> f32_le x (f32_bump x d)"
  using clamp_mono [OF add_up [of x d]] unit_weight [of x] by (simp add: f32_bump_def)

lemma bump_down: "x \<le> 0x3F800000 \<Longrightarrow> d < 0x80000000 \<Longrightarrow> f32_finite d \<Longrightarrow> f32_le (f32_bump x (f32_neg d)) x"
  using clamp_mono [OF add_down [of x "f32_neg d"]] unit_weight [of x] finite_positive [of d]
  by (simp add: f32_bump_def neg_positive neg_finite neg_nan)

end
