(* ===== verification/Facade_Meta.thy ===== *)
theory Facade_Meta
  imports Absence Float32 Audit_Ledger
begin

text \<open>
  What the facade (\<open>src/src/sgdb.rs\<close>) does with one memory: its state, its metadata and its weights,
  its line of versions, its forgetting, its transfer to another layer and its fusion with another.  A
  key of the caller is resolved first, everything after works on the storage key.
\<close>

definition with_key :: "'s host \<Rightarrow> bytes \<Rightarrow> (bytes \<Rightarrow> ('s, 'a) op) \<Rightarrow> ('s, 'a) op" where
  "with_key h key f = obind (known_key h key) f"

definition meta_at :: "'s host \<Rightarrow> 's engine \<Rightarrow> bytes \<Rightarrow> memory_meta option" where
  "meta_at h s sk = read_meta (ho_backend h) (en_storage s) sk"

text \<open>\<open>ensure_meta\<close>, a change, \<open>write_meta\<close>.\<close>

definition update_meta :: "'s host \<Rightarrow> bytes \<Rightarrow> (memory_meta \<Rightarrow> memory_meta) \<Rightarrow> ('s, unit) op" where
  "update_meta h sk f = obind (ensure_meta h sk) (\<lambda>m. write_meta h sk (f m))"

definition unless_written :: "bytes \<Rightarrow> ('s, unit) op" where
  "unless_written s = (if s \<noteq> [] then validate_written s else oret ())"

section \<open>State, identity, metadata\<close>

definition get_state_of :: "'s host \<Rightarrow> bytes \<Rightarrow> ('s, memory_state) op" where
  "get_state_of h key = with_key h key (\<lambda>sk. oget (\<lambda>s. get_state (ho_backend h) (en_storage s) sk))"

definition set_state_of :: "'s host \<Rightarrow> bytes \<Rightarrow> memory_state \<Rightarrow> ('s, unit) op" where
  "set_state_of h key st = with_key h key (\<lambda>sk. set_state h sk st)"

definition meta_of :: "'s host \<Rightarrow> bytes \<Rightarrow> ('s, memory_meta option) op" where
  "meta_of h key = with_key h key (\<lambda>sk. oget (\<lambda>s. meta_at h s sk))"

definition meta_field :: "'s host \<Rightarrow> (memory_meta \<Rightarrow> 'a) \<Rightarrow> bytes \<Rightarrow> ('s, 'a option) op" where
  "meta_field h f key = with_key h key (\<lambda>sk. oget (\<lambda>s. map_option f (meta_at h s sk)))"

definition memory_id_of :: "'s host \<Rightarrow> bytes \<Rightarrow> ('s, bytes option) op" where
  "memory_id_of h = meta_field h mm_memory_id"

definition version_of :: "'s host \<Rightarrow> bytes \<Rightarrow> ('s, bytes option) op" where
  "version_of h = meta_field h mm_version_id"

definition set_importance :: "'s host \<Rightarrow> bytes \<Rightarrow> u32 \<Rightarrow> ('s, unit) op" where
  "set_importance h key x =
     (if \<not> f32_finite x then ofail (SE_Invalid ''importance must be finite'')
      else with_key h key (\<lambda>sk. update_meta h sk (\<lambda>m. m\<lparr>mm_importance := f32_clamp01 x\<rparr>)))"

definition set_confidence :: "'s host \<Rightarrow> bytes \<Rightarrow> u32 \<Rightarrow> ('s, unit) op" where
  "set_confidence h key x =
     (if \<not> f32_finite x then ofail (SE_Invalid ''confidence must be finite'')
      else with_key h key (\<lambda>sk. update_meta h sk (\<lambda>m. m\<lparr>mm_confidence := f32_clamp01 x\<rparr>)))"

definition set_scope :: "'s host \<Rightarrow> bytes \<Rightarrow> bytes \<Rightarrow> ('s, unit) op" where
  "set_scope h key scope =
     othen (unless_written scope)
     (with_key h key (\<lambda>sk. update_meta h sk (\<lambda>m.
        m\<lparr>mm_scope := scope, mm_scope_dims := (mm_scope_dims m)\<lparr>sd_user := scope\<rparr>\<rparr>)))"

definition scope_of :: "'s host \<Rightarrow> bytes \<Rightarrow> ('s, bytes) op" where
  "scope_of h key = obind (meta_field h mm_scope key) (\<lambda>x. oret (unwrap_or x []))"

definition set_scope_dims :: "'s host \<Rightarrow> bytes \<Rightarrow> scope_dims \<Rightarrow> ('s, unit) op" where
  "set_scope_dims h key d =
     othen (oseq unless_written [sd_user d, sd_agent d, sd_app d, sd_run d])
     (with_key h key (\<lambda>sk. update_meta h sk (\<lambda>m. m\<lparr>mm_scope_dims := d, mm_scope := sd_user d\<rparr>)))"

definition scope_dims_of :: "'s host \<Rightarrow> bytes \<Rightarrow> ('s, scope_dims) op" where
  "scope_dims_of h key = obind (meta_field h mm_scope_dims key) (\<lambda>x. oret (unwrap_or x dims_new))"

definition set_model_id :: "'s host \<Rightarrow> bytes \<Rightarrow> bytes \<Rightarrow> ('s, unit) op" where
  "set_model_id h key model =
     othen (unless_written model) (with_key h key (\<lambda>sk. update_meta h sk (\<lambda>m. m\<lparr>mm_model_id := model\<rparr>)))"

definition model_id_of :: "'s host \<Rightarrow> bytes \<Rightarrow> ('s, bytes) op" where
  "model_id_of h key = obind (meta_field h mm_model_id key) (\<lambda>x. oret (unwrap_or x []))"

definition set_entities :: "'s host \<Rightarrow> bytes \<Rightarrow> bytes list \<Rightarrow> ('s, unit) op" where
  "set_entities h key es =
     othen (oseq validate_written es) (with_key h key (\<lambda>sk. update_meta h sk (\<lambda>m. m\<lparr>mm_entities := es\<rparr>)))"

definition entities_of :: "'s host \<Rightarrow> bytes \<Rightarrow> ('s, bytes list) op" where
  "entities_of h key = obind (meta_field h mm_entities key) (\<lambda>x. oret (unwrap_or x []))"

definition STABLE_LABELS :: "bytes list" where
  "STABLE_LABELS = map ascii [''text'', ''json'', ''code'', ''embedding'', ''binary'']"

text \<open>The declared type goes to the text companion of an embedding, too.\<close>

definition set_content_type :: "'s host \<Rightarrow> bytes \<Rightarrow> bytes \<Rightarrow> ('s, unit) op" where
  "set_content_type h key ct =
     (if ct \<notin> set STABLE_LABELS then ofail (SE_Invalid ''unknown content_type label (use text|json|code|embedding|binary)'')
      else with_key h key (\<lambda>sk.
        othen (update_meta h sk (\<lambda>m. m\<lparr>mm_content_type := Some ct\<rparr>))
        (if \<not> key_carries_embedding sk then oret ()
         else (\<lambda>s. case get_by_storage_key h (companion_key sk) s of
             (Inr (Some _), s') \<Rightarrow> update_meta h (companion_key sk) (\<lambda>m. m\<lparr>mm_content_type := Some ct\<rparr>) s'
           | (_, s') \<Rightarrow> (Inr (), s')))))"

definition content_type_of :: "'s host \<Rightarrow> bytes \<Rightarrow> ('s, bytes option) op" where
  "content_type_of h key = obind (meta_field h mm_content_type key) (\<lambda>x. oret (unwrap_or x None))"

definition set_authority :: "'s host \<Rightarrow> bytes \<Rightarrow> u8 \<Rightarrow> ('s, unit) op" where
  "set_authority h key a = with_key h key (\<lambda>sk. obind (get_by_storage_key h sk) (\<lambda>d.
     if d = None then ofail (SE_Invalid ''no memory at key (authority)'')
     else update_meta h sk (\<lambda>m. m\<lparr>mm_authority := a\<rparr>)))"

definition authority_of :: "'s host \<Rightarrow> bytes \<Rightarrow> ('s, u8) op" where
  "authority_of h key = obind (meta_field h mm_authority key) (\<lambda>x. oret (unwrap_or x 0))"

definition add_parents_of :: "'s host \<Rightarrow> bytes \<Rightarrow> bytes list \<Rightarrow> ('s, unit) op" where
  "add_parents_of h key ps = with_key h key (\<lambda>sk. add_parents h sk ps)"

text \<open>The text of a memory: its own payload, or that of its companion.\<close>

definition text_of :: "'s host \<Rightarrow> bytes \<Rightarrow> ('s, bytes) op" where
  "text_of h key = with_key h key (\<lambda>sk. obind (get_by_storage_key h sk) (\<lambda>d.
     case d of
       Some doc \<Rightarrow>
         if md_layer doc \<in> {L2EpisodicShort, L3EpisodicLong, L1Working} then oret (utf8_lossy (md_payload doc))
         else if companion_key sk = sk then oret []
         else obind (get_by_storage_key h (companion_key sk)) (\<lambda>c.
           oret (case c of Some doc \<Rightarrow> utf8_lossy (md_payload doc) | None \<Rightarrow> []))
     | None \<Rightarrow>
         if companion_key sk = sk then oret []
         else obind (get_by_storage_key h (companion_key sk)) (\<lambda>c.
           oret (case c of Some doc \<Rightarrow> utf8_lossy (md_payload doc) | None \<Rightarrow> []))))"

section \<open>Use\<close>

definition reinforce :: "'s host \<Rightarrow> bytes \<Rightarrow> u32 \<Rightarrow> ('s, unit) op" where
  "reinforce h key delta =
     (if \<not> f32_finite delta then ofail (SE_Invalid ''reinforce delta must be finite'')
      else with_key h key (\<lambda>sk. obind (ensure_meta h sk) (\<lambda>m. obind (oget en_watermark) (\<lambda>t.
        write_meta h sk (m\<lparr>mm_importance := f32_bump (mm_importance m) delta, mm_last_reinforced := t\<rparr>)))))"

definition feedback :: "'s host \<Rightarrow> bytes \<Rightarrow> bool \<Rightarrow> u32 \<Rightarrow> ('s, unit) op" where
  "feedback h key positive amount =
     (if \<not> f32_finite amount then ofail (SE_Invalid ''feedback amount must be finite'')
      else with_key h key (\<lambda>sk. obind (ensure_meta h sk) (\<lambda>m. obind (oget en_watermark) (\<lambda>t.
        let d = (if positive then amount else f32_neg amount)
        in write_meta h sk (m\<lparr>mm_importance := f32_bump (mm_importance m) d,
             mm_confidence := f32_bump (mm_confidence m) d, mm_last_reinforced := t\<rparr>)))))"

section \<open>Versions\<close>

text \<open>Both memories exist or nothing changes.\<close>

definition must_exist :: "'s host \<Rightarrow> bytes \<Rightarrow> string \<Rightarrow> ('s, unit) op" where
  "must_exist h sk msg = obind (get_by_storage_key h sk) (\<lambda>d.
     if d = None then ofail (SE_Invalid msg) else oret ())"

definition NO_SUCCESSOR :: string where
  "NO_SUCCESSOR = ''supersede: no memory at new key (write the successor with remember FIRST, then supersede)''"

definition link_versions :: "'s host \<Rightarrow> bytes \<Rightarrow> bytes \<Rightarrow> ('s, unit) op" where
  "link_versions h old_sk new_sk = obind (oget (\<lambda>s. (meta_at h s old_sk, meta_at h s new_sk))) (\<lambda>ms.
     case ms of
       (Some om, Some nm) \<Rightarrow> write_meta h new_sk (add_parent (mm_version_id om) nm)
     | _ \<Rightarrow> oret ())"

definition supersede_rows :: "'s host \<Rightarrow> bytes \<Rightarrow> bytes \<Rightarrow> ('s, unit) op" where
  "supersede_rows h old_sk new_sk =
     othen (set_state h old_sk Superseded)
     (othen (set_state h new_sk Active)
     (link_versions h old_sk new_sk))"

definition supersede :: "'s host \<Rightarrow> bytes \<Rightarrow> bytes \<Rightarrow> ('s, unit) op" where
  "supersede h old new = with_key h old (\<lambda>old_sk. with_key h new (\<lambda>new_sk.
     othen (must_exist h old_sk ''supersede: no memory at old key'')
     (othen (must_exist h new_sk NO_SUCCESSOR)
     (supersede_rows h old_sk new_sk))))"

record lineage_entry =
  le_version_id :: bytes
  le_memory_id :: bytes
  le_storage_key :: bytes
  le_source :: u8
  le_created_tick :: u64
  le_parent_ids :: "bytes list"

definition lineage_entry_of :: "memory_meta \<Rightarrow> bytes \<Rightarrow> lineage_entry" where
  "lineage_entry_of m sk =
     \<lparr>le_version_id = mm_version_id m, le_memory_id = mm_memory_id m, le_storage_key = sk,
      le_source = mm_source m, le_created_tick = mm_created_tick m, le_parent_ids = mm_parent_ids m\<rparr>"

text \<open>
  The walk back along the last parent of each version.  Nothing bounds it but the versions seen, so it
  is a partial function; that it ends is a theorem.
\<close>

definition parent_of :: "'s backend \<Rightarrow> 's \<Rightarrow> memory_meta \<Rightarrow> (memory_meta \<times> bytes) option" where
  "parent_of b st m =
     (if mm_parent_ids m = [] then None
      else case version_record b st (last (mm_parent_ids m)) of
        Some (pk, pm) \<Rightarrow> Some (pm, pk)
      | None \<Rightarrow> None)"

partial_function (option) lineage_walk ::
  "'s backend \<Rightarrow> 's \<Rightarrow> bytes list \<Rightarrow> (memory_meta \<times> bytes) option \<Rightarrow> lineage_entry list option" where
  "lineage_walk b st visited cur =
     (case cur of
        None \<Rightarrow> Some []
      | Some (m, ck) \<Rightarrow>
          if mm_version_id m \<in> set visited then Some []
          else Option.bind (lineage_walk b st (mm_version_id m # visited) (parent_of b st m))
                 (\<lambda>es. Some (lineage_entry_of m ck # es)))"

definition lineage :: "'s host \<Rightarrow> 's engine \<Rightarrow> bytes \<Rightarrow> lineage_entry list option" where
  "lineage h s key =
     (let sk = resolve_known_key (ho_avx2 h) (en_art s) key
      in lineage_walk (ho_backend h) (en_storage s) [] (map_option (\<lambda>m. (m, sk)) (meta_at h s sk)))"

record explanation =
  ex_key :: bytes
  ex_layer :: memory_layer
  ex_state :: memory_state
  ex_memory_id :: bytes
  ex_version_id :: bytes
  ex_source :: u8
  ex_confidence :: u32
  ex_importance :: u32
  ex_created_tick :: u64
  ex_last_reinforced :: u64
  ex_parents :: "bytes list"
  ex_validity :: "(u64 \<times> u64) option"
  ex_children :: "bytes list"

definition explain :: "'s host \<Rightarrow> bytes \<Rightarrow> ('s, explanation) op" where
  "explain h key = with_key h key (\<lambda>sk. obind (ensure_meta h sk) (\<lambda>m. obind (get_by_storage_key h sk) (\<lambda>d.
     case d of
       None \<Rightarrow> ofail (SE_Invalid ''no memory at key'')
     | Some doc \<Rightarrow> oget (\<lambda>s.
         \<lparr>ex_key = sk, ex_layer = md_layer doc, ex_state = get_state (ho_backend h) (en_storage s) sk,
          ex_memory_id = mm_memory_id m, ex_version_id = mm_version_id m, ex_source = mm_source m,
          ex_confidence = mm_confidence m, ex_importance = mm_importance m,
          ex_created_tick = mm_created_tick m, ex_last_reinforced = mm_last_reinforced m,
          ex_parents = mm_parent_ids m, ex_validity = validity_window (ho_backend h) (en_storage s) sk,
          ex_children = sort (map fst (filter (\<lambda>(_, _, vm). mm_version_id m \<in> set (mm_parent_ids vm))
            (scan_versions (ho_backend h) (en_storage s))))\<rparr>))))"

section \<open>Forgetting\<close>

definition forget :: "'s host \<Rightarrow> bytes \<Rightarrow> ('s, unit) op" where
  "forget h key = with_key h key (\<lambda>sk. set_state h sk Archived)"

definition DEFAULT_BQ_ORPHAN_THRESHOLD :: nat where
  "DEFAULT_BQ_ORPHAN_THRESHOLD = 64"

text \<open>A deletion that found its document repacks the vectors once enough are orphans.\<close>

definition delete_memory :: "'s host \<Rightarrow> bytes \<Rightarrow> ('s, bool) op" where
  "delete_memory h key = with_key h key (\<lambda>sk. obind (engine_delete h sk) (\<lambda>existed.
     if existed then obind (reclaim_bq_orphans DEFAULT_BQ_ORPHAN_THRESHOLD) (\<lambda>_. oret True) else oret False))"

record forget_outcome =
  fo_existed :: bool
  fo_tombstoned :: bool
  fo_deleted :: bool
  fo_audit_seq :: "u64 option"

text \<open>An operation of the ledger as a step of the engine.\<close>

definition on_ledger :: "('s \<Rightarrow> (sgdb_error + 'a) \<times> 's) \<Rightarrow> ('s, 'a) op" where
  "on_ledger f s = (case f (en_storage s) of (r, st) \<Rightarrow> (map_sum Sgdb id r, s\<lparr>en_storage := st\<rparr>))"

definition forget_purge :: "u8 \<Rightarrow> 's host \<Rightarrow> bytes \<Rightarrow> bytes \<Rightarrow> ('s, forget_outcome) op" where
  "forget_purge sel h key reason = with_key h key (\<lambda>sk. obind (get_by_storage_key h sk) (\<lambda>d.
     if d = None
     then oret \<lparr>fo_existed = False, fo_tombstoned = False, fo_deleted = False, fo_audit_seq = None\<rparr>
     else
       othen (set_state h sk Superseded)
       (obind (delete_memory h sk) (\<lambda>deleted.
        obind (oget en_watermark) (\<lambda>t.
        obind (on_ledger (\<lambda>st. audit_forget sel (ho_backend h) st sk t reason)) (\<lambda>seq.
        oret \<lparr>fo_existed = True, fo_tombstoned = True, fo_deleted = deleted, fo_audit_seq = Some seq\<rparr>))))))"

section \<open>Transfer and fusion\<close>

definition version_label :: "memory_doc \<Rightarrow> bytes" where
  "version_label doc = (case md_meta doc of Some m \<Rightarrow> mm_version_id m | None \<Rightarrow> ascii ''pre-v0.6'')"

definition transfer_to :: "'s host \<Rightarrow> bytes \<Rightarrow> memory_layer \<Rightarrow> ('s, bytes) op" where
  "transfer_to h key to_layer = with_key h key (\<lambda>sk. obind (export_record h sk) (\<lambda>r.
     case r of
       None \<Rightarrow> ofail (SE_Invalid ''no memory at key'')
     | Some rec \<Rightarrow>
         let doc = mr_doc rec; new_sk = layer_key to_layer (md_key doc) in
         if md_layer doc = to_layer then oret sk
         else
           obind (engine_put h (doc_new to_layer (md_key doc) (md_payload doc))) (\<lambda>_.
           othen (add_parents h new_sk [version_label doc])
           (othen (associate h new_sk DerivedFrom sk)
           (othen (set_state h sk Archived)
           (oret new_sk))))))"

definition weight_or_zero :: "(memory_meta \<Rightarrow> u32) \<Rightarrow> memory_doc \<Rightarrow> u32" where
  "weight_or_zero f doc = (case md_meta doc of Some m \<Rightarrow> f m | None \<Rightarrow> 0)"

definition merge_memories :: "'s host \<Rightarrow> bytes \<Rightarrow> bytes \<Rightarrow> bytes \<Rightarrow> ('s, bytes) op" where
  "merge_memories h a b target = with_key h a (\<lambda>sk_a. with_key h b (\<lambda>sk_b.
     obind (export_record h sk_a) (\<lambda>ra. case ra of
       None \<Rightarrow> ofail (SE_Invalid ''no memory at key a'')
     | Some ra \<Rightarrow> obind (export_record h sk_b) (\<lambda>rb. case rb of
       None \<Rightarrow> ofail (SE_Invalid ''no memory at key b'')
     | Some rb \<Rightarrow>
         let da = mr_doc ra; db = mr_doc rb;
             layer = (if layer_u8 (md_layer da) \<ge> layer_u8 (md_layer db) then md_layer da else md_layer db);
             key = (if target = [] then md_key da @ ascii ''--'' @ md_key db else target);
             new_sk = layer_key layer key
         in obind (engine_put h (doc_new layer key (md_payload da @ [0x1F] @ md_payload db))) (\<lambda>_.
            othen (add_parents h new_sk [version_label da, version_label db])
            (othen (update_meta h new_sk (\<lambda>m.
              m\<lparr>mm_importance := f32_max (weight_or_zero mm_importance da) (weight_or_zero mm_importance db),
                mm_confidence := f32_max (weight_or_zero mm_confidence da) (weight_or_zero mm_confidence db)\<rparr>))
            (oret new_sk)))))))"

end
