(* ===== verification/Engine_Steps.thy ===== *)
theory Engine_Steps
  imports Engine_Ops
begin

text \<open>
  What an operation does to the engine as a relation between the state before and the state after,
  whether it ends with a value or with an error.  A relation that is reflexive and transitive is kept
  along every composition of operations; the locale carries the rules.
\<close>

definition along :: "('s engine \<Rightarrow> 's engine \<Rightarrow> bool) \<Rightarrow> ('s, 'a) op \<Rightarrow> bool" where
  "along R m \<longleftrightarrow> (\<forall>s. R s (snd (m s)))"

lemma alongI: "(\<And>s. R s (snd (m s))) \<Longrightarrow> along R m"
  by (simp add: along_def)

lemma alongD: "along R m \<Longrightarrow> R s (snd (m s))"
  by (simp add: along_def)

lemma along_run: "along R m \<Longrightarrow> m s = (r, s') \<Longrightarrow> R s s'"
  unfolding along_def by (metis snd_conv)

lemma along_mono: "along R m \<Longrightarrow> (\<And>s t. R s t \<Longrightarrow> Q s t) \<Longrightarrow> along Q m"
  by (simp add: along_def)

lemma along_mod: "(\<And>s. R s (g s)) \<Longrightarrow> along R (omod g)"
  by (simp add: along_def omod_def)

locale step_preorder =
  fixes R :: "'s engine \<Rightarrow> 's engine \<Rightarrow> bool"
  assumes same: "R s s"
    and further: "R s t \<Longrightarrow> R t u \<Longrightarrow> R s u"
begin

lemma along_pure: "along R (oret x)" "along R (ofail e)" "along R (oget g)" "along R (guard_key p)"
  by (auto intro!: alongI same simp: oret_def ofail_def oget_def guard_key_def split: option.split)

lemma along_bind:
  assumes "along R m" "\<And>x. along R (f x)"
  shows "along R (obind m f)"
proof (rule alongI)
  fix s
  obtain r s' where m: "m s = (r, s')" by fastforce
  then have "R s s'" by (rule along_run [OF assms(1)])
  then show "R s (snd (obind m f s))"
    using m by (auto simp: obind_def intro: further alongD [OF assms(2)] split: sum.split)
qed

lemma along_then: "along R m \<Longrightarrow> along R n \<Longrightarrow> along R (othen m n)"
  unfolding othen_def by (intro along_bind)

lemma along_seq: "(\<And>x. along R (f x)) \<Longrightarrow> along R (oseq f xs)"
proof (induction xs)
  case (Cons x xs)
  have "oseq f (x # xs) = obind (f x) (\<lambda>_. oseq f xs)" by (simp add: fun_eq_iff obind_def)
  then show ?case using Cons by (simp add: along_bind)
qed (simp add: along_def same)

lemma along_branch: "along R m \<Longrightarrow> along R n \<Longrightarrow> along R (if c then m else n)"
  "along R m \<Longrightarrow> (\<And>x. along R (f x)) \<Longrightarrow> along R (case y of None \<Rightarrow> m | Some x \<Rightarrow> f x)"
  "(\<And>a b. along R (g a b)) \<Longrightarrow> along R (case p of (a, b) \<Rightarrow> g a b)"
  by (auto split: option.split prod.split)

lemma along_fold_set: "(\<And>x acc. x \<in> set xs \<Longrightarrow> along R (f x acc)) \<Longrightarrow> along R (ofold f xs acc)"
proof (induction xs arbitrary: acc)
  case (Cons x xs)
  have "ofold f (x # xs) acc = obind (f x acc) (ofold f xs)" by (simp add: fun_eq_iff obind_def)
  then show ?case using Cons by (simp add: along_bind)
qed (simp add: along_def same)

lemma along_fold: "(\<And>x acc. along R (f x acc)) \<Longrightarrow> along R (ofold f xs acc)"
  by (rule along_fold_set)

text \<open>What is read from the state is known to the rest.\<close>

lemma along_read: "(\<And>s. along R (f (g s))) \<Longrightarrow> along R (obind (oget g) f)"
  by (rule alongI) (simp add: obind_def oget_def alongD)

text \<open>A reading whose error is taken for absence.\<close>

lemma along_try:
  assumes "along R m" "\<And>x. along R (f x)"
  shows "along R (\<lambda>s. case m s of (Inr (Some x), s') \<Rightarrow> f x s' | (_, s') \<Rightarrow> (Inr y, s'))"
proof (rule alongI)
  fix s
  obtain r s' where m: "m s = (r, s')" by fastforce
  then have "R s s'" by (rule along_run [OF assms(1)])
  then show "R s (snd (case m s of (Inr (Some x), s') \<Rightarrow> f x s' | (_, s') \<Rightarrow> (Inr y, s')))"
    using m by (auto intro: further alongD [OF assms(2)] split: sum.split option.split)
qed

lemmas along_rules = along_pure along_bind along_then along_seq along_fold along_branch

end

end
