(* ===== verification/Facade_Spec.thy ===== *)
theory Facade_Spec
  imports Facade_Meta Engine_Steps
begin

text \<open>
  What the steps of the facade do to the storage: the rows they write, and the parts of the engine they
  leave alone.
\<close>

section \<open>What a metadata operation leaves alone\<close>

definition keeps :: "'s engine \<Rightarrow> 's engine \<Rightarrow> bool" where
  "keeps s s' \<longleftrightarrow> en_art s' = en_art s \<and> en_bq s' = en_bq s \<and> en_id_to_sk s' = en_id_to_sk s \<and>
     en_sk_ids s' = en_sk_ids s \<and> en_watermark s' = en_watermark s \<and> en_node_id s' = en_node_id s \<and>
     set (en_ram s') \<subseteq> set (en_ram s)"

named_theorems kept \<open>operations that keep the indexes of documents\<close>

abbreviation keeping :: "('s, 'a) op \<Rightarrow> bool" where
  "keeping \<equiv> along keeps"

lemma keeps_trans: "keeps s s' \<Longrightarrow> keeps s' s'' \<Longrightarrow> keeps s s''"
  by (auto simp: keeps_def)

interpretation keep: step_preorder keeps
  by unfold_locales (simp add: keeps_def, erule keeps_trans)

declare keep.along_rules [kept]

lemma set_bt_remove: "set (bt_remove k m) \<subseteq> set m"
  by (auto simp: bt_remove_def)

lemma keeping_storage [kept]: "keeping (on_storage f)"
  by (auto intro!: alongI simp: keeps_def on_storage_def split: prod.split)

lemma keeping_sto [kept]: "keeping (sto_put h k v)" "keeping (sto_del h k)"
  unfolding sto_put_def sto_del_def by (rule kept)+

lemma keeping_materialize [kept]: "keeping (materialize_ram_doc h sk)"
  unfolding materialize_ram_doc_def
  by (intro kept along_mod) (auto simp: keeps_def dest: subsetD [OF set_bt_remove])

lemma keeping_get [kept]: "keeping (get_by_storage_key h sk)"
  unfolding get_by_storage_key_def
  by (intro kept along_mod alongI) (auto simp: keeps_def oret_def ofail_def split: option.split sum.split)

lemma keeping_set_state [kept]: "keeping (set_state h sk st)"
  unfolding set_state_def by (intro kept)

lemma keeping_write_meta [kept]: "keeping (write_meta h sk m)"
  unfolding write_meta_def
  by (intro kept along_mod) (simp add: keeps_def reindex_entities_def)

lemma keeping_ensure [kept]: "keeping (ensure_meta h sk)"
  unfolding ensure_meta_def by (auto intro!: kept split: option.split simp: Let_def)

lemma does_keeping: "keeping m \<Longrightarrow> does m s (\<lambda>x s'. keeps s s' \<longrightarrow> P x s') \<Longrightarrow> does m s P"
  by (auto simp: does_def split: prod.splits sum.splits dest: along_run)

section \<open>Reading\<close>

definition readable :: "'s host \<Rightarrow> 's engine \<Rightarrow> bytes \<Rightarrow> bool" where
  "readable h s sk \<longleftrightarrow> (\<forall>w. doc_blob h s sk = Some w \<longrightarrow> (\<exists>d. doc_decode w = Inr d))"

definition counted :: "'s engine \<Rightarrow> 's engine" where
  "counted s = s\<lparr>en_gets := en_gets s + 1\<rparr>"

lemma blob_counted [simp]: "doc_blob h (s\<lparr>en_gets := n\<rparr>) sk = doc_blob h s sk"
  by (simp add: doc_blob_def sto_get_def split: option.split)

lemma counted_simps [simp]: "en_storage (counted s) = en_storage s" "en_ram (counted s) = en_ram s"
  "en_art (counted s) = en_art s" "en_inv good (counted s) = en_inv good s" "doc_blob h (counted s) sk = doc_blob h s sk"
  "keeps s (counted s)" "relates good view (counted s) R = relates good view s R"
  by (simp_all add: counted_def en_inv_def keeps_def relates_def)

lemma get_run:
  assumes "readable h s sk"
  obtains d where "get_by_storage_key h sk s = (Inr d, counted s)" "d = None \<longleftrightarrow> doc_blob h s sk = None"
proof (cases "doc_blob h s sk")
  case None
  then have "get_by_storage_key h sk s = (Inr None, counted s)"
    by (simp add: get_by_storage_key_def othen_def obind_def omod_def oget_def oret_def counted_def)
  then show thesis by (rule that) (simp add: None)
next
  case (Some w)
  then obtain d where d: "doc_decode w = Inr d" using assms by (auto simp: readable_def)
  have "get_by_storage_key h sk s = (Inr (Some (attach_meta h (counted s) sk d)), counted s)"
    unfolding get_by_storage_key_def othen_def obind_def omod_def oget_def counted_def prod.case sum.case
      blob_counted Some option.case d oret_def by (rule refl)
  then show thesis by (rule that) (simp add: Some)
qed

lemma does_get_doc:
  assumes "readable h s sk" "\<And>d. (d = None \<longleftrightarrow> doc_blob h s sk = None) \<Longrightarrow> P d (counted s)"
  shows "does (get_by_storage_key h sk) s P"
  using get_run [OF assms(1)] assms(2) by (metis does_run)

lemma get_doc_stored:
  assumes "doc_blob h s sk = Some w" "doc_decode w = Inr d"
  shows "get_by_storage_key h sk s = (Inr (Some (attach_meta h s sk d)), counted s)"
proof -
  have "attach_meta h (counted s) sk d = attach_meta h s sk d" by (simp add: attach_meta_def)
  then show ?thesis
    using assms by (simp add: get_by_storage_key_def othen_def obind_def omod_def oget_def oret_def counted_def)
qed

lemma get_doc_absent: "doc_blob h s sk = None \<Longrightarrow> get_by_storage_key h sk s = (Inr None, counted s)"
  by (simp add: get_by_storage_key_def othen_def obind_def omod_def oget_def oret_def counted_def)

lemma get_no_write: "get_by_storage_key h sk s = (r, s') \<Longrightarrow> s' = counted s"
  by (auto simp: get_by_storage_key_def othen_def obind_def omod_def oget_def oret_def ofail_def counted_def
      split: option.splits sum.splits)

lemma resolve_md: "prefix (ascii ''md/'') key \<Longrightarrow> resolve_known_key a t key = key"
  by (simp add: resolve_known_key_def resolve_storage_key_def Let_def)

lemma does_with_key:
  "does (f (resolve_known_key (ho_avx2 h) (en_art s) key)) s P \<Longrightarrow> does (with_key h key f) s P"
  unfolding with_key_def known_key_def by (intro does_bind does_get)

section \<open>Records that survive their encoding\<close>

definition meta_clean :: "memory_meta \<Rightarrow> bool" where
  "meta_clean m \<longleftrightarrow> meta_fits m \<and> mm_content_type m \<noteq> Some [] \<and> (mm_scope m \<noteq> [] \<longrightarrow> \<not> dims_is_global (mm_scope_dims m))"

lemma meta_clean_back: "meta_clean m \<Longrightarrow> meta_decode (meta_encode m) = Inr m"
  by (auto simp: meta_clean_def meta_read_back meta_upgrade_def legacy_dims_def)


section \<open>Rows\<close>

text \<open>Documents in RAM that the storage can take.\<close>

definition ram_fits :: "(bytes \<Rightarrow> bytes \<Rightarrow> bool) \<Rightarrow> 's engine \<Rightarrow> bool" where
  "ram_fits fits s \<longleftrightarrow> (\<forall>(k, w) \<in> set (en_ram s). w \<noteq> [] \<and> fits k w)"

lemma ram_fits_keeps: "keeps s s' \<Longrightarrow> ram_fits fits s \<Longrightarrow> ram_fits fits s'"
  by (auto simp: keeps_def ram_fits_def)

lemma ram_fitsD: "ram_fits fits s \<Longrightarrow> bt_get (en_ram s) sk = Some w \<Longrightarrow> w \<noteq> [] \<and> fits sk w"
  by (auto simp: ram_fits_def dest!: map_of_SomeD)

text \<open>The rows of one memory that a metadata operation can touch.\<close>

context engine_store
begin

lemma does_set_state_at:
  assumes ok: "en_inv inv s" and ram: "\<And>w. bt_get (en_ram s) sk = Some w \<Longrightarrow> w \<noteq> [] \<and> fits sk w"
    and md: "prefix (ascii ''md/'') sk" and fit: "\<And>v. length v \<le> 1 \<Longrightarrow> fits (state_key sk) v"
    and there: "st \<noteq> Active \<Longrightarrow> readable h s sk \<and> doc_blob h s sk \<noteq> None"
    and post: "\<And>s'. en_inv inv s' \<Longrightarrow> keeps s s' \<Longrightarrow>
      (\<And>q. q \<noteq> sk \<Longrightarrow> q \<noteq> state_key sk \<Longrightarrow> view (en_storage s') q = view (en_storage s) q) \<Longrightarrow>
      (\<And>q. prefix (ascii ''md/'') q \<Longrightarrow> fits q [] \<Longrightarrow> doc_blob h s' q = doc_blob h s q) \<Longrightarrow>
      view (en_storage s') (state_key sk) = (if st = Active then None else Some [state_u8 st]) \<Longrightarrow> P () s'"
  shows "does (set_state h sk st) s P"
proof (rule does_keeping [OF keeping_set_state])
  let ?P = "\<lambda>x s'. keeps s s' \<longrightarrow> P x s'"
  have tail: "does (othen (materialize_ram_doc h sk) (on_storage (\<lambda>st'. store_state (ho_backend h) st' sk st))) s0 ?P"
    if s0: "s0 = s \<or> s0 = counted s" for s0
  proof (rule does_then, rule does_materialize)
    show "en_inv inv s0" using s0 ok by auto
    show "w \<noteq> [] \<and> fits sk w" if "bt_get (en_ram s0) sk = Some w" for w using ram s0 that by auto
    fix s1 :: "'s engine" assume s1: "en_inv inv s1" "\<And>q. q \<noteq> sk \<Longrightarrow> view (en_storage s1) q = view (en_storage s0) q"
      "\<And>q. fits q [] \<Longrightarrow> doc_blob h s1 q = doc_blob h s0 q"
    have i: "inv (en_storage s1)" using s1(1) by (simp add: en_inv_def)
    have other: "q \<noteq> state_key sk" if "prefix (ascii ''md/'') q" for q
      using that by (auto simp: side_keys ascii_def prefix_def)
    have get: "be_get (ho_backend h) (en_storage s1) (state_key sk) = view (en_storage s1) (state_key sk)"
      using i fit [of "[]"] by (simp add: get_view)
    have go: "?P () (s1\<lparr>en_storage := x\<rparr>)" if x: "inv x"
      "view x = (view (en_storage s1))(state_key sk := (if st = Active then None else Some [state_u8 st]))" for x
    proof
      assume "keeps s (s1\<lparr>en_storage := x\<rparr>)"
      then show "P () (s1\<lparr>en_storage := x\<rparr>)"
      proof (rule post [rotated])
        show "en_inv inv (s1\<lparr>en_storage := x\<rparr>)" using s1(1) x(1) by (simp add: en_inv_def)
        show "doc_blob h (s1\<lparr>en_storage := x\<rparr>) q = doc_blob h s q" if "prefix (ascii ''md/'') q" "fits q []" for q
        proof -
          have "doc_blob h (s1\<lparr>en_storage := x\<rparr>) q = doc_blob h s1 q"
            using that x i other [OF that(1)] by (simp add: doc_blob_view split: option.split)
          then show ?thesis using s0 by (auto simp: s1(3) [OF that(2)])
        qed
      qed (use x s1(2) s0 in auto)
    qed
    show "does (on_storage (\<lambda>st'. store_state (ho_backend h) st' sk st)) s1 ?P"
    proof (cases "st = Active")
      case False
      have "does (sto_put h (state_key sk) [state_u8 st]) s1 ?P"
        using False go fit by (intro does_put [OF i]) (auto simp: means_some)
      then show ?thesis using False by (simp add: sto_put_def store_state_def)
    next
      case True
      show ?thesis
      proof (cases "view (en_storage s1) (state_key sk)")
        case None
        have "?P () (s1\<lparr>en_storage := en_storage s1\<rparr>)" using go [OF i] None True by (simp add: fun_upd_idem)
        then show ?thesis using True get None by (simp add: does_def on_storage_def store_state_def)
      next
        case (Some w)
        have "does (sto_del h (state_key sk)) s1 ?P" using True go fit by (intro does_del [OF i]) auto
        then show ?thesis using True get Some by (simp add: does_def on_storage_def sto_del_def store_state_def)
      qed
    qed
  qed
  show "does (set_state h sk st) s ?P"
    unfolding set_state_def
  proof (rule does_bind)
    show "does (if st \<noteq> Active then obind (get_by_storage_key h sk) (\<lambda>d. oret (d \<noteq> None)) else oret True) s
      (\<lambda>found s'. does (if \<not> found then ofail (SE_Invalid ''set_state: no memory at key'')
         else othen (materialize_ram_doc h sk) (on_storage (\<lambda>st'. store_state (ho_backend h) st' sk st))) s' ?P)"
    proof (cases "st = Active")
      case True
      then show ?thesis using tail [of s] by (simp add: does_ret)
    next
      case False
      have "does (obind (get_by_storage_key h sk) (\<lambda>d. oret (d \<noteq> None))) s
        (\<lambda>found s'. found \<and> s' = counted s)"
        using there [OF False] by (intro does_bind does_get_doc does_ret) auto
      then show ?thesis using tail [of "counted s"] False by (auto elim!: does_mono)
    qed
  qed
qed

lemma does_set_state:
  assumes "en_inv inv s" "ram_fits fits s" "prefix (ascii ''md/'') sk" "\<And>v. length v \<le> 1 \<Longrightarrow> fits (state_key sk) v"
    and "st \<noteq> Active \<Longrightarrow> readable h s sk \<and> doc_blob h s sk \<noteq> None"
    and "\<And>s'. en_inv inv s' \<Longrightarrow> keeps s s' \<Longrightarrow>
      (\<And>q. q \<noteq> sk \<Longrightarrow> q \<noteq> state_key sk \<Longrightarrow> view (en_storage s') q = view (en_storage s) q) \<Longrightarrow>
      (\<And>q. prefix (ascii ''md/'') q \<Longrightarrow> fits q [] \<Longrightarrow> doc_blob h s' q = doc_blob h s q) \<Longrightarrow>
      view (en_storage s') (state_key sk) = (if st = Active then None else Some [state_u8 st]) \<Longrightarrow> P () s'"
  shows "does (set_state h sk st) s P"
  by (rule does_set_state_at [where P = P]) (use assms ram_fitsD [OF assms(2)] in auto)

lemma does_write_meta_at:
  assumes ok: "en_inv inv s" and ram: "\<And>w. bt_get (en_ram s) sk = Some w \<Longrightarrow> w \<noteq> [] \<and> fits sk w"
    and md: "prefix (ascii ''md/'') sk" and fit: "fits (meta_key sk) (meta_encode m)"
    and clean: "meta_clean m"
    and post: "\<And>s'. en_inv inv s' \<Longrightarrow> keeps s s' \<Longrightarrow>
      (\<And>q. q \<noteq> sk \<Longrightarrow> q \<noteq> meta_key sk \<Longrightarrow> view (en_storage s') q = view (en_storage s) q) \<Longrightarrow>
      (\<And>q. prefix (ascii ''md/'') q \<Longrightarrow> fits q [] \<Longrightarrow> doc_blob h s' q = doc_blob h s q) \<Longrightarrow>
      meta_at h s' sk = Some m \<Longrightarrow> P () s'"
  shows "does (write_meta h sk m) s P"
proof (rule does_keeping [OF keeping_write_meta])
  let ?P = "\<lambda>x s'. keeps s s' \<longrightarrow> P x s'"
  show "does (write_meta h sk m) s ?P"
    unfolding write_meta_def
  proof (rule does_then, rule does_materialize [OF ok ram])
    fix s1 :: "'s engine" assume s1: "en_inv inv s1" "\<And>q. q \<noteq> sk \<Longrightarrow> view (en_storage s1) q = view (en_storage s) q"
      "\<And>q. fits q [] \<Longrightarrow> doc_blob h s1 q = doc_blob h s q"
    have i: "inv (en_storage s1)" using s1(1) by (simp add: en_inv_def)
    have ne: "meta_encode m \<noteq> []" by (simp add: meta_encode_def META_MAGIC_def ascii_def)
    have other: "q \<noteq> meta_key sk" if "prefix (ascii ''md/'') q" for q
      using that by (auto simp: side_keys ascii_def prefix_def)
    show "does (othen (sto_put h (meta_key sk) (meta_encode m)) (omod (reindex_entities sk m))) s1 ?P"
    proof (rule does_then, rule does_put [OF i fit], rule does_mod, rule impI)
      fix x assume x: "inv x" "view x = (view (en_storage s1))(meta_key sk := means (meta_encode m))"
      let ?s = "reindex_entities sk m (s1\<lparr>en_storage := x\<rparr>)"
      have st [simp]: "en_storage ?s = x" "en_ram ?s = en_ram s1" "en_art ?s = en_art s1"
        by (simp_all add: reindex_entities_def)
      assume "keeps s ?s"
      then show "P () ?s"
      proof (rule post [rotated])
        show "en_inv inv ?s" using s1(1) x(1) by (simp add: en_inv_def)
        show "meta_at h ?s sk = Some m"
          using x fits_key [OF fit] meta_clean_back [OF clean] by (simp add: meta_at_def read_meta_view means_some [OF ne])
        show "doc_blob h ?s q = doc_blob h s q" if "prefix (ascii ''md/'') q" "fits q []" for q
        proof -
          have "doc_blob h ?s q = doc_blob h s1 q"
            using that x i other [OF that(1)] by (simp add: doc_blob_view split: option.split)
          then show ?thesis by (simp add: s1(3) [OF that(2)])
        qed
      qed (use x s1(2) in auto)
    qed
  qed
qed

lemma does_write_meta:
  assumes "en_inv inv s" "ram_fits fits s" "prefix (ascii ''md/'') sk" "fits (meta_key sk) (meta_encode m)" "meta_clean m"
    and "\<And>s'. en_inv inv s' \<Longrightarrow> keeps s s' \<Longrightarrow>
      (\<And>q. q \<noteq> sk \<Longrightarrow> q \<noteq> meta_key sk \<Longrightarrow> view (en_storage s') q = view (en_storage s) q) \<Longrightarrow>
      (\<And>q. prefix (ascii ''md/'') q \<Longrightarrow> fits q [] \<Longrightarrow> doc_blob h s' q = doc_blob h s q) \<Longrightarrow>
      meta_at h s' sk = Some m \<Longrightarrow> P () s'"
  shows "does (write_meta h sk m) s P"
  by (rule does_write_meta_at [where P = P]) (use assms ram_fitsD [OF assms(2)] in auto)

lemma does_update_meta:
  assumes "en_inv inv s" "ram_fits fits s"
    and "prefix (ascii ''md/'') sk" "meta_at h s sk = Some m" "fits (meta_key sk) (meta_encode (f m))" "meta_clean (f m)"
    and "\<And>s'. en_inv inv s' \<Longrightarrow> keeps s s' \<Longrightarrow>
      (\<And>q. q \<noteq> sk \<Longrightarrow> q \<noteq> meta_key sk \<Longrightarrow> view (en_storage s') q = view (en_storage s) q) \<Longrightarrow>
      (\<And>q. prefix (ascii ''md/'') q \<Longrightarrow> fits q [] \<Longrightarrow> doc_blob h s' q = doc_blob h s q) \<Longrightarrow>
      meta_at h s' sk = Some (f m) \<Longrightarrow> P () s'"
  shows "does (update_meta h sk f) s P"
proof -
  have "ensure_meta h sk s = (Inr m, s)"
    using assms(4) by (simp add: ensure_meta_def meta_at_def obind_def oget_def oret_def)
  then have "update_meta h sk f s = write_meta h sk (f m) s" by (simp add: update_meta_def obind_def)
  moreover have "does (write_meta h sk (f m)) s P" by (rule does_write_meta [where m = "f m" and P = P]) (fact assms)+
  ultimately show ?thesis by (simp add: does_def)
qed

end

end
