(* ===== verification/Facade_Lineage.thy ===== *)
theory Facade_Lineage
  imports Facade_Spec
begin

text \<open>
  The walk along the parents of a memory ends and lists a chain of distinct versions, whatever the rows
  of the version index hold.
\<close>

text \<open>The versions that a walk can meet beside its first one.\<close>

definition known_versions :: "'s backend \<Rightarrow> 's \<Rightarrow> bytes set" where
  "known_versions b st = {mm_version_id m |w sk m. w \<in> ran (be_get b st) \<and> decode_version_entry w = Some (sk, m)}"

lemma finite_known:
  assumes "finite (ran (be_get b st))"
  shows "finite (known_versions b st)"
proof -
  have "known_versions b st \<subseteq> (\<lambda>w. mm_version_id (snd (the (decode_version_entry w)))) ` ran (be_get b st)"
    by (force simp: known_versions_def)
  then show ?thesis using assms by (rule finite_surj [rotated])
qed

lemma parent_known: "parent_of b st m = Some (pm, pk) \<Longrightarrow> mm_version_id pm \<in> known_versions b st"
  by (auto simp: parent_of_def version_record_def known_versions_def ran_def split: if_splits option.splits)

text \<open>A chain: each entry was read from the row of the last parent of the one before.\<close>

fun linked_back :: "'s backend \<Rightarrow> 's \<Rightarrow> lineage_entry list \<Rightarrow> bool" where
  "linked_back b st (e # e' # es) \<longleftrightarrow>
     le_parent_ids e \<noteq> [] \<and>
     (\<exists>m. version_record b st (last (le_parent_ids e)) = Some (le_storage_key e', m) \<and>
          e' = lineage_entry_of m (le_storage_key e')) \<and> linked_back b st (e' # es)"
| "linked_back b st _ \<longleftrightarrow> True"

lemma lineage_walk_total:
  assumes "finite V" "known_versions b st \<subseteq> V" "\<And>m ck. cur = Some (m, ck) \<Longrightarrow> mm_version_id m \<in> V"
  shows "\<exists>es. lineage_walk b st visited cur = Some es \<and> distinct (map le_version_id es) \<and>
    set (map le_version_id es) \<subseteq> V - set visited \<and> linked_back b st es \<and>
    (es \<noteq> [] \<longrightarrow> (\<exists>m ck. cur = Some (m, ck) \<and> hd es = lineage_entry_of m ck)) \<and>
    (cur \<noteq> None \<and> visited = [] \<longrightarrow> es \<noteq> [])"
  using assms(3)
proof (induction "card (V - set visited)" arbitrary: visited cur rule: less_induct)
  case less
  show ?case
  proof (cases cur)
    case None
    then show ?thesis by (simp add: lineage_walk.simps [of b st visited])
  next
    case (Some mc)
    then obtain m ck where cur: "cur = Some (m, ck)" by (cases mc) auto
    show ?thesis
    proof (cases "mm_version_id m \<in> set visited")
      case True
      then show ?thesis using cur by (auto simp: lineage_walk.simps [of b st visited])
    next
      case False
      have v: "mm_version_id m \<in> V" using less.prems cur by simp
      have "V - set (mm_version_id m # visited) \<subset> V - set visited" using v False by auto
      then have "card (V - set (mm_version_id m # visited)) < card (V - set visited)"
        using assms(1) by (intro psubset_card_mono) auto
      moreover have "mm_version_id pm \<in> V" if "parent_of b st m = Some (pm, pk)" for pm pk
        using parent_known [OF that] assms(2) by auto
      ultimately obtain es where es: "lineage_walk b st (mm_version_id m # visited) (parent_of b st m) = Some es"
        "distinct (map le_version_id es)" "set (map le_version_id es) \<subseteq> V - set (mm_version_id m # visited)"
        "linked_back b st es" "es \<noteq> [] \<longrightarrow> (\<exists>pm pk. parent_of b st m = Some (pm, pk) \<and> hd es = lineage_entry_of pm pk)"
        using less.hyps [of "mm_version_id m # visited" "parent_of b st m"] by blast
      have walk: "lineage_walk b st visited cur = Some (lineage_entry_of m ck # es)"
        using es(1) False by (simp add: lineage_walk.simps [of b st visited] cur)
      have link: "linked_back b st (lineage_entry_of m ck # es)"
      proof (cases es)
        case (Cons e es')
        then obtain pm pk where p: "parent_of b st m = Some (pm, pk)" "e = lineage_entry_of pm pk" using es(5) by auto
        then have "mm_parent_ids m \<noteq> []" "version_record b st (last (mm_parent_ids m)) = Some (pk, pm)"
          by (auto simp: parent_of_def split: if_splits option.splits)
        then show ?thesis using es(4) Cons p(2) by (auto simp: lineage_entry_of_def)
      qed simp
      show ?thesis
        using walk link es(2,3) v False cur by (intro exI [of _ "lineage_entry_of m ck # es"]) (auto simp: lineage_entry_of_def)
    qed
  qed
qed

lemma ran_finite:
  "finite (ran (be_get ram_backend r))" "finite (ran (be_get file_backend f))" "finite (ran (be_get tickv_backend t))"
proof -
  have "ran (be_get ram_backend r) \<subseteq> snd ` set (im_map r)" "ran (be_get file_backend f) \<subseteq> snd ` set (fs_map f)"
    "ran (be_get tickv_backend t) \<subseteq> snd ` set (tv_map t)"
    by (auto simp: ran_def ram_backend_def file_backend_def tickv_backend_def in_memory_get_def fs_get_def tv_get_def
      dest!: map_of_SomeD intro: rev_image_eqI)
  then show "finite (ran (be_get ram_backend r))" "finite (ran (be_get file_backend f))" "finite (ran (be_get tickv_backend t))"
    by (meson finite_imageI finite_set finite_subset)+
qed

text \<open>C37: The lineage of a memory always ends, over any backend that holds finitely many values: it is
  empty exactly when the memory has no metadata, begins with the current version, lists no version twice
  and goes from each version to the one that the index keeps for its last parent, also when the rows of
  the index form a cycle.\<close>

theorem lineage_ends:
  assumes "finite (ran (be_get (ho_backend h) (en_storage s)))"
  shows "\<exists>es. lineage h s key = Some es \<and> distinct (map le_version_id es) \<and>
    linked_back (ho_backend h) (en_storage s) es \<and>
    (case meta_at h s (resolve_known_key (ho_avx2 h) (en_art s) key) of
       None \<Rightarrow> es = []
     | Some m \<Rightarrow> es \<noteq> [] \<and> hd es = lineage_entry_of m (resolve_known_key (ho_avx2 h) (en_art s) key))"
proof -
  let ?b = "ho_backend h" and ?sk = "resolve_known_key (ho_avx2 h) (en_art s) key"
  let ?cur = "map_option (\<lambda>m. (m, ?sk)) (meta_at h s ?sk)"
  define V where "V = known_versions ?b (en_storage s) \<union> (case meta_at h s ?sk of Some m \<Rightarrow> {mm_version_id m} | None \<Rightarrow> {})"
  have "finite V" using finite_known [OF assms] by (simp add: V_def split: option.split)
  moreover have "known_versions ?b (en_storage s) \<subseteq> V" by (simp add: V_def)
  moreover have "mm_version_id m \<in> V" if "?cur = Some (m, ck)" for m ck using that by (auto simp: V_def)
  ultimately obtain es where es: "lineage_walk ?b (en_storage s) [] ?cur = Some es" "distinct (map le_version_id es)"
    "linked_back ?b (en_storage s) es" "es \<noteq> [] \<longrightarrow> (\<exists>m ck. ?cur = Some (m, ck) \<and> hd es = lineage_entry_of m ck)"
    "?cur \<noteq> None \<longrightarrow> es \<noteq> []"
    using lineage_walk_total [of V ?b "en_storage s" ?cur "[]"] by auto
  then show ?thesis
    by (intro exI [of _ es]) (auto simp: lineage_def Let_def split: option.split)
qed

theorem lineage_ends_witness:
  "\<exists>e es. lineage (ram_host (\<lambda>_. False) False) engine_with_meta (storage_key first_doc) = Some (e # es) \<and>
     le_version_id e = mm_version_id sample_meta"
proof -
  let ?h = "ram_host (\<lambda>_. False) False"
  have fin: "finite (ran (be_get (ho_backend ?h) (en_storage engine_with_meta)))"
    by (simp add: ram_host_def ran_finite)
  have key: "resolve_known_key (ho_avx2 ?h) (en_art engine_with_meta) (storage_key first_doc) = storage_key first_doc"
    by (simp add: resolve_md)
  have m: "meta_at ?h engine_with_meta (storage_key first_doc) = Some (meta_upgrade 8 sample_meta)"
    by (simp add: meta_at_def read_meta_def engine_with_meta_def engine_new_def ram_host_def ram_backend_def in_memory_get_def
      meta_read_back [OF sample_meta_fits])
  obtain es where es: "lineage ?h engine_with_meta (storage_key first_doc) = Some es" "es \<noteq> []"
    "hd es = lineage_entry_of (meta_upgrade 8 sample_meta) (storage_key first_doc)"
    using lineage_ends [OF fin, of "storage_key first_doc"] unfolding key m by auto
  then show ?thesis by (cases es) (auto simp: lineage_entry_of_def meta_upgrade_def)
qed

end
