(* ===== verification/Facade_State.thy ===== *)
theory Facade_State
  imports Facade_Lineage
begin

text \<open>
  Supersession, scope, weights and purge of a memory: what the caller can rely on afterwards.
\<close>

lemma state_byte [simp]: "state_from_u8 (state_u8 st) = Some st"
  by (cases st) (simp_all add: state_from_u8_def)

text \<open>The metadata of the successor: the version of the old memory becomes a parent where both have metadata.\<close>

definition linked_meta :: "memory_meta option \<Rightarrow> memory_meta option \<Rightarrow> memory_meta option" where
  "linked_meta old_meta new_meta = (case (old_meta, new_meta) of
     (Some om, Some nm) \<Rightarrow> Some (add_parent (mm_version_id om) nm) | _ \<Rightarrow> new_meta)"

text \<open>The rows of a memory that the storage can take.\<close>

definition rows_fit :: "(bytes \<Rightarrow> bytes \<Rightarrow> bool) \<Rightarrow> bytes \<Rightarrow> bool" where
  "rows_fit fits sk \<longleftrightarrow> prefix (ascii ''md/'') sk \<and> fits sk [] \<and> fits (meta_key sk) [] \<and>
     (\<forall>v. length v \<le> 1 \<longrightarrow> fits (state_key sk) v)"

lemma state_meta_distinct [simp]:
  "state_key a \<noteq> meta_key b" "meta_key b \<noteq> state_key a"
  "state_key a = state_key b \<longleftrightarrow> a = b" "meta_key a = meta_key b \<longleftrightarrow> a = b"
  by (auto simp: side_keys ascii_def)

lemma rows_not_md: "prefix (ascii ''md/'') sk \<Longrightarrow> state_key a \<noteq> sk \<and> meta_key a \<noteq> sk"
  by (auto simp: side_keys ascii_def prefix_def)

context engine_store
begin

lemma get_state_view:
  "inv st \<Longrightarrow> rows_fit fits sk \<Longrightarrow> get_state (ho_backend h) st sk =
    (case view st (state_key sk) of Some [x] \<Rightarrow> unwrap_or (state_from_u8 x) Active | _ \<Rightarrow> Active)"
  by (simp add: get_state_def get_view rows_fit_def)

lemma meta_at_cong:
  assumes "inv (en_storage s)" "inv (en_storage s')" "rows_fit fits sk"
    and "view (en_storage s') (meta_key sk) = view (en_storage s) (meta_key sk)"
  shows "meta_at h s' sk = meta_at h s sk"
  using assms by (simp add: meta_at_def read_meta_view rows_fit_def)

end

lemma readable_counted [simp]: "readable h (counted s) sk = readable h s sk"
  by (simp add: readable_def)

context engine_store
begin

lemma does_link:
  assumes ok: "en_inv inv s" "ram_fits fits s" and rows: "rows_fit fits new_sk"
    and m: "\<And>om nm. meta_at h s old_sk = Some om \<Longrightarrow> meta_at h s new_sk = Some nm \<Longrightarrow>
      meta_clean (add_parent (mm_version_id om) nm) \<and> fits (meta_key new_sk) (meta_encode (add_parent (mm_version_id om) nm))"
  shows "does (link_versions h old_sk new_sk) s (\<lambda>_ s'. en_inv inv s' \<and>
    (\<forall>q. q \<noteq> new_sk \<longrightarrow> q \<noteq> meta_key new_sk \<longrightarrow> view (en_storage s') q = view (en_storage s) q) \<and>
    meta_at h s' new_sk = linked_meta (meta_at h s old_sk) (meta_at h s new_sk) \<and>
    (\<forall>k. prefix (ascii ''md/'') k \<longrightarrow> fits k [] \<longrightarrow> doc_blob h s' k = doc_blob h s k))"
    (is "does _ _ ?P")
proof (cases "\<exists>om nm. meta_at h s old_sk = Some om \<and> meta_at h s new_sk = Some nm")
  case False
  then have "link_versions h old_sk new_sk s = (Inr (), s)" "linked_meta (meta_at h s old_sk) (meta_at h s new_sk) = meta_at h s new_sk"
    by (auto simp: link_versions_def linked_meta_def obind_def oget_def oret_def split: option.split)
  then show ?thesis using ok(1) by (simp add: does_def)
next
  case True
  then obtain om nm where metas: "meta_at h s old_sk = Some om" "meta_at h s new_sk = Some nm" by blast
  show ?thesis
    unfolding link_versions_def
  proof (rule does_bind, rule does_get, unfold metas prod.case option.case, rule does_write_meta [OF ok])
    show "prefix (ascii ''md/'') new_sk" using rows by (simp add: rows_fit_def)
  qed (use m [OF metas] in \<open>auto simp: linked_meta_def\<close>)
qed

lemma does_supersede_rows:
  assumes ok: "en_inv inv s" "ram_fits fits s" and rows: "rows_fit fits old_sk" "rows_fit fits new_sk"
    and old: "readable h s old_sk" "doc_blob h s old_sk \<noteq> None"
    and m: "\<And>om nm. meta_at h s old_sk = Some om \<Longrightarrow> meta_at h s new_sk = Some nm \<Longrightarrow>
      meta_clean (add_parent (mm_version_id om) nm) \<and> fits (meta_key new_sk) (meta_encode (add_parent (mm_version_id om) nm))"
  defines "P \<equiv> \<lambda>s'. en_inv inv s' \<and>
    view (en_storage s') (state_key old_sk) = (if old_sk = new_sk then None else Some [state_u8 Superseded]) \<and>
    view (en_storage s') (state_key new_sk) = None \<and>
    meta_at h s' new_sk = linked_meta (meta_at h s old_sk) (meta_at h s new_sk) \<and>
    (\<forall>q. q \<notin> {old_sk, new_sk, state_key old_sk, state_key new_sk, meta_key new_sk} \<longrightarrow>
      view (en_storage s') q = view (en_storage s) q) \<and>
    (\<forall>k. prefix (ascii ''md/'') k \<longrightarrow> fits k [] \<longrightarrow> doc_blob h s' k = doc_blob h s k)"
  shows "does (supersede_rows h old_sk new_sk) s (\<lambda>_. P)"
  unfolding supersede_rows_def
proof (rule does_then, rule does_set_state [OF ok])
  have md: "prefix (ascii ''md/'') old_sk" "prefix (ascii ''md/'') new_sk" using rows by (simp_all add: rows_fit_def)
  have good0: "inv (en_storage s)" using ok(1) by (simp add: en_inv_def)
  fix s1 :: "'s engine" assume s1: "en_inv inv s1" "keeps s s1"
    "\<And>q. q \<noteq> old_sk \<Longrightarrow> q \<noteq> state_key old_sk \<Longrightarrow> view (en_storage s1) q = view (en_storage s) q"
    "\<And>q. prefix (ascii ''md/'') q \<Longrightarrow> fits q [] \<Longrightarrow> doc_blob h s1 q = doc_blob h s q"
    "view (en_storage s1) (state_key old_sk) = (if Superseded = Active then None else Some [state_u8 Superseded])"
  note ram1 = ram_fits_keeps [OF s1(2) ok(2)]
  show "does (othen (set_state h new_sk Active) (link_versions h old_sk new_sk)) s1 (\<lambda>_. P)"
  proof (rule does_then, rule does_set_state [OF s1(1) ram1 md(2)])
    fix s2 :: "'s engine" assume s2: "en_inv inv s2" "keeps s1 s2"
      "\<And>q. q \<noteq> new_sk \<Longrightarrow> q \<noteq> state_key new_sk \<Longrightarrow> view (en_storage s2) q = view (en_storage s1) q"
      "\<And>q. prefix (ascii ''md/'') q \<Longrightarrow> fits q [] \<Longrightarrow> doc_blob h s2 q = doc_blob h s1 q"
      "view (en_storage s2) (state_key new_sk) = (if Active = Active then None else Some [state_u8 Active])"
    have good2: "inv (en_storage s2)" using s2(1) by (simp add: en_inv_def)
    have same: "view (en_storage s2) (meta_key k) = view (en_storage s) (meta_key k)" for k
      using s1(3) s2(3) rows_not_md [OF md(1)] rows_not_md [OF md(2)] by simp
    have metas2: "meta_at h s2 old_sk = meta_at h s old_sk" "meta_at h s2 new_sk = meta_at h s new_sk"
      using meta_at_cong [OF good0 good2 rows(1) same] meta_at_cong [OF good0 good2 rows(2) same] by simp_all
    have old2: "old_sk \<noteq> new_sk \<Longrightarrow> view (en_storage s2) (state_key old_sk) = view (en_storage s1) (state_key old_sk)"
      using s2(3) rows_not_md [OF md(2)] by simp
    have notmd: "state_key k \<noteq> new_sk" for k using rows_not_md [OF md(2)] by blast
    show "does (link_versions h old_sk new_sk) s2 (\<lambda>_. P)"
    proof (rule does_mono [OF does_link [OF s2(1) ram_fits_keeps [OF s2(2) ram1] rows(2)]])
      show "meta_clean (add_parent (mm_version_id om) nm) \<and> fits (meta_key new_sk) (meta_encode (add_parent (mm_version_id om) nm))"
        if "meta_at h s2 old_sk = Some om" "meta_at h s2 new_sk = Some nm" for om nm
        using m that by (simp add: metas2)
    qed (use s1(3-5) s2(3-5) old2 notmd in \<open>simp add: P_def metas2\<close>)
  qed (use rows in \<open>auto simp: rows_fit_def\<close>)
qed (use rows old in \<open>auto simp: rows_fit_def\<close>)

end

lemma must_exist_run:
  assumes "readable h s sk"
  shows "must_exist h sk msg s =
    (if doc_blob h s sk = None then (Inl (Sgdb (SE_Invalid msg)), counted s) else (Inr (), counted s))"
proof -
  obtain d where "get_by_storage_key h sk s = (Inr d, counted s)" "d = None \<longleftrightarrow> doc_blob h s sk = None"
    by (rule get_run [OF assms])
  then show ?thesis by (auto simp: must_exist_def obind_def oret_def ofail_def)
qed

text \<open>C16: Supersession is all or nothing.  When one of the two memories is missing, the call fails and
  storage and RAM are untouched.  Otherwise, on a storage that takes the rows written, the old memory is
  superseded and the new one active; where both have metadata, the current version of the old one is a
  parent of the new one, whose other metadata stay, and without metadata of either nothing is linked.  No
  document changes, and no other row of the storage: only the state rows of the two, the metadata row of
  the new one and the rows of their documents, moved there from RAM, are written, so that the state of
  every other memory and the metadata of every memory but the new one stay.  A memory that supersedes
  itself ends active, with its own version among its parents.\<close>

theorem supersede_all_or_nothing:
  assumes "backend_store good view (ho_backend h) fits means" and "en_inv good s" "ram_fits fits s"
    and "old_sk = resolve_known_key (ho_avx2 h) (en_art s) old" "new_sk = resolve_known_key (ho_avx2 h) (en_art s) new"
    and "readable h s old_sk" "readable h s new_sk"
  shows "(doc_blob h s old_sk = None \<or> doc_blob h s new_sk = None \<longrightarrow>
      (\<exists>msg s'. supersede h old new s = (Inl (Sgdb (SE_Invalid msg)), s') \<and>
        en_storage s' = en_storage s \<and> en_ram s' = en_ram s)) \<and>
    (doc_blob h s old_sk \<noteq> None \<and> doc_blob h s new_sk \<noteq> None \<and> rows_fit fits old_sk \<and> rows_fit fits new_sk \<and>
      (\<forall>om nm. meta_at h s old_sk = Some om \<and> meta_at h s new_sk = Some nm \<longrightarrow>
        meta_clean (add_parent (mm_version_id om) nm) \<and> fits (meta_key new_sk) (meta_encode (add_parent (mm_version_id om) nm))) \<longrightarrow>
      (\<exists>s'. supersede h old new s = (Inr (), s') \<and> en_inv good s' \<and>
        get_state (ho_backend h) (en_storage s') old_sk = (if old_sk = new_sk then Active else Superseded) \<and>
        get_state (ho_backend h) (en_storage s') new_sk = Active \<and>
        meta_at h s' new_sk = linked_meta (meta_at h s old_sk) (meta_at h s new_sk) \<and>
        (\<forall>k. prefix (ascii ''md/'') k \<longrightarrow> fits k [] \<longrightarrow> doc_blob h s' k = doc_blob h s k) \<and>
        (\<forall>q. q \<notin> {old_sk, new_sk, state_key old_sk, state_key new_sk, meta_key new_sk} \<longrightarrow>
          view (en_storage s') q = view (en_storage s) q) \<and>
        (\<forall>k. rows_fit fits k \<longrightarrow> k \<notin> {old_sk, new_sk} \<longrightarrow>
          get_state (ho_backend h) (en_storage s') k = get_state (ho_backend h) (en_storage s) k) \<and>
        (\<forall>k. rows_fit fits k \<longrightarrow> k \<noteq> new_sk \<longrightarrow> meta_at h s' k = meta_at h s k)))"
    (is "(?missing \<longrightarrow> ?refused) \<and> (?there \<longrightarrow> ?done)")
proof (intro conjI impI)
  have e: "engine_store good view h fits means" using assms(1) by (simp add: engine_store_def)
  have run: "supersede h old new s = othen (must_exist h old_sk ''supersede: no memory at old key'')
     (othen (must_exist h new_sk NO_SUCCESSOR) (supersede_rows h old_sk new_sk)) s"
    by (simp add: supersede_def with_key_def known_key_def obind_def oget_def assms(4,5))
  show ?refused if ?missing
    using that assms(6,7) by (auto simp: run othen_def obind_def must_exist_run)
  assume there: ?there
  then have rows: "rows_fit fits old_sk" "rows_fit fits new_sk" by blast+
  let ?s0 = "counted (counted s)"
  have start: "supersede h old new s = supersede_rows h old_sk new_sk ?s0"
    using there assms(6,7) by (auto simp: run othen_def obind_def must_exist_run)
  have "does (supersede_rows h old_sk new_sk) ?s0 (\<lambda>_ s'. en_inv good s' \<and>
    view (en_storage s') (state_key old_sk) = (if old_sk = new_sk then None else Some [state_u8 Superseded]) \<and>
    view (en_storage s') (state_key new_sk) = None \<and>
    meta_at h s' new_sk = linked_meta (meta_at h ?s0 old_sk) (meta_at h ?s0 new_sk) \<and>
    (\<forall>q. q \<notin> {old_sk, new_sk, state_key old_sk, state_key new_sk, meta_key new_sk} \<longrightarrow>
      view (en_storage s') q = view (en_storage ?s0) q) \<and>
    (\<forall>k. prefix (ascii ''md/'') k \<longrightarrow> fits k [] \<longrightarrow> doc_blob h s' k = doc_blob h ?s0 k))"
    using assms there
    by (intro engine_store.does_supersede_rows [OF e]) (simp_all add: ram_fits_def meta_at_def)
  then obtain s' where s': "supersede_rows h old_sk new_sk ?s0 = (Inr (), s')" "en_inv good s'"
    "view (en_storage s') (state_key old_sk) = (if old_sk = new_sk then None else Some [state_u8 Superseded])"
    "view (en_storage s') (state_key new_sk) = None"
    "meta_at h s' new_sk = linked_meta (meta_at h s old_sk) (meta_at h s new_sk)"
    "\<forall>q. q \<notin> {old_sk, new_sk, state_key old_sk, state_key new_sk, meta_key new_sk} \<longrightarrow>
      view (en_storage s') q = view (en_storage s) q"
    "\<forall>k. prefix (ascii ''md/'') k \<longrightarrow> fits k [] \<longrightarrow> doc_blob h s' k = doc_blob h s k"
    by (auto simp: meta_at_def elim!: doesE)
  have good: "good (en_storage s)" "good (en_storage s')" using assms(2) s'(2) by (simp_all add: en_inv_def)
  have states: "get_state (ho_backend h) (en_storage s') old_sk = (if old_sk = new_sk then Active else Superseded)"
    "get_state (ho_backend h) (en_storage s') new_sk = Active"
    using engine_store.get_state_view [OF e good(2) rows(1)] engine_store.get_state_view [OF e good(2) rows(2)] s'(3,4) state_byte [of Superseded]
    by (simp_all add: unwrap_or_def)
  have md: "prefix (ascii ''md/'') old_sk" "prefix (ascii ''md/'') new_sk" using rows by (simp_all add: rows_fit_def)
  have other: "get_state (ho_backend h) (en_storage s') k = get_state (ho_backend h) (en_storage s) k"
    if k: "rows_fit fits k" "k \<notin> {old_sk, new_sk}" for k
    using k(2) s'(6) rows_not_md [OF md(1)] rows_not_md [OF md(2)]
    by (simp add: engine_store.get_state_view [OF e good(1) k(1)] engine_store.get_state_view [OF e good(2) k(1)])
  have metas: "meta_at h s' k = meta_at h s k" if k: "rows_fit fits k" "k \<noteq> new_sk" for k
    using k(2) s'(6) rows_not_md [OF md(1)] rows_not_md [OF md(2)]
    by (intro engine_store.meta_at_cong [OF e good k(1)]) simp
  show ?done using s' start states other metas by (intro exI [of _ s']) simp
qed

definition pair_engine :: "in_memory engine" where
  "pair_engine = engine_new 1 1 \<lparr>im_map =
     [(ascii ''md/L2/a'', doc_encode (doc_new L2EpisodicShort (ascii ''a'') [])),
      (ascii ''md/L2/b'', doc_encode (doc_new L2EpisodicShort (ascii ''b'') [])),
      (meta_key (ascii ''md/L2/a''), meta_encode sample_meta),
      (meta_key (ascii ''md/L2/b''), meta_encode sample_meta)]\<rparr>"

definition pair_meta :: memory_meta where
  "pair_meta = meta_upgrade 8 sample_meta"

lemma pair_clean: "meta_clean (add_parent (mm_version_id pair_meta) pair_meta)"
  by (simp add: meta_clean_def pair_meta_def meta_upgrade_def meta_fits_def sample_meta_def wire_str_def dims_new_def
    legacy_dims_def dims_is_global_def add_parent_def ascii_def utf8_valid.simps)

lemma pair_doc: "doc_decode (doc_encode (doc_new L2EpisodicShort [c] [])) = Inr (doc_new L2EpisodicShort [c] [])" if "c < 0x80"
proof -
  have "doc_fits (doc_new L2EpisodicShort [c] [])"
    using that by (simp add: doc_fits_def doc_new_def utf8_valid.simps vc_new_def)
  from doc_decode_encode [OF this, of "[]"] show ?thesis by (simp add: nmd1_part_def doc_new_def vc_new_def)
qed

lemma pair_engine_ok:
  "en_inv (\<lambda>s. bt_wf (im_map s)) pair_engine" "ram_fits (\<lambda>_ _. True) pair_engine"
  "meta_at (ram_host (\<lambda>_. False) False) pair_engine (ascii ''md/L2/a'') = Some pair_meta"
  "meta_at (ram_host (\<lambda>_. False) False) pair_engine (ascii ''md/L2/b'') = Some pair_meta"
  "doc_blob (ram_host (\<lambda>_. False) False) pair_engine (ascii ''md/L2/a'') = Some (doc_encode (doc_new L2EpisodicShort (ascii ''a'') []))"
  "doc_blob (ram_host (\<lambda>_. False) False) pair_engine (ascii ''md/L2/b'') = Some (doc_encode (doc_new L2EpisodicShort (ascii ''b'') []))"
proof -
  have wf: "bt_wf (im_map (en_storage pair_engine))"
    by (simp add: pair_engine_def engine_new_def bt_wf_def side_keys ascii_def)
  show "en_inv (\<lambda>s. bt_wf (im_map s)) pair_engine" using wf
    by (simp add: en_inv_def) (simp add: pair_engine_def engine_new_def art_new_def art_inv_def ram_keys_def art_map_empty bt_wf_def)
  show "ram_fits (\<lambda>_ _. True) pair_engine" by (simp add: ram_fits_def pair_engine_def engine_new_def)
qed (simp_all add: meta_at_def read_meta_def pair_engine_def engine_new_def ram_host_def ram_backend_def in_memory_get_def
      meta_read_back [OF sample_meta_fits] pair_meta_def doc_blob_def sto_get_def side_keys ascii_def)

theorem supersede_all_or_nothing_witness:
  "\<exists>s'. supersede (ram_host (\<lambda>_. False) False) (ascii ''md/L2/a'') (ascii ''md/L2/b'') pair_engine = (Inr (), s') \<and>
     get_state ram_backend (en_storage s') (ascii ''md/L2/a'') = Superseded \<and>
     get_state ram_backend (en_storage s') (ascii ''md/L2/b'') = Active \<and>
     meta_at (ram_host (\<lambda>_. False) False) s' (ascii ''md/L2/b'') = Some (add_parent (mm_version_id pair_meta) pair_meta) \<and>
     meta_at (ram_host (\<lambda>_. False) False) s' (ascii ''md/L2/a'') = Some pair_meta"
proof -
  let ?h = "ram_host (\<lambda>_. False) False" and ?a = "ascii ''md/L2/a''" and ?b = "ascii ''md/L2/b''"
  have key: "k = resolve_known_key (ho_avx2 ?h) (en_art pair_engine) k" if "prefix (ascii ''md/'') k" for k
    using that by (simp add: resolve_md)
  have p: "prefix (ascii ''md/'') ?a" "prefix (ascii ''md/'') ?b" by (simp_all add: ascii_def)
  have rows: "rows_fit (\<lambda>_ _. True) ?a" "rows_fit (\<lambda>_ _. True) ?b" using p by (simp_all add: rows_fit_def)
  have dec: "readable ?h pair_engine ?a" "readable ?h pair_engine ?b"
    unfolding readable_def pair_engine_ok
    using pair_doc [of "of_char CHR ''a''"] pair_doc [of "of_char CHR ''b''"] by (simp_all add: ascii_def)
  have "?a \<noteq> ?b" "ho_backend ?h = ram_backend" by (simp_all add: ascii_def ram_host_def)
  then show ?thesis
    using supersede_all_or_nothing [OF ram_host_store [of "\<lambda>_. False" False] pair_engine_ok(1,2) key [OF p(1)] key [OF p(2)] dec]
      rows pair_clean pair_engine_ok(3-6) by (auto simp: linked_meta_def)
qed

end
