(* ===== verification/Facade_Weights.thy ===== *)
theory Facade_Weights
  imports Facade_State
begin

text \<open>
  Weights under use, and the scope of a memory: every change of metadata through the facade rewrites
  one row and nothing else.
\<close>

lemma ensure_run: "meta_at h s sk = Some m \<Longrightarrow> ensure_meta h sk s = (Inr m, s)"
  by (simp add: ensure_meta_def meta_at_def obind_def oget_def oret_def)

context engine_store
begin

lemma meta_rows_kept:
  assumes "inv (en_storage s)" "inv (en_storage s')" "prefix (ascii ''md/'') sk"
    and "\<And>q. q \<noteq> sk \<Longrightarrow> q \<noteq> meta_key sk \<Longrightarrow> view (en_storage s') q = view (en_storage s) q"
    and "rows_fit fits k" "k \<noteq> sk"
  shows "meta_at h s' k = meta_at h s k"
  using assms(4) [of "meta_key k"] rows_not_md [OF assms(3)] assms(6) by (intro meta_at_cong assms) auto

lemma does_reweigh:
  assumes ok: "en_inv inv s" "ram_fits fits s" and rows: "rows_fit fits sk"
    and new: "meta_clean m'" "fits (meta_key sk) (meta_encode m')"
  shows "\<exists>s'. write_meta h sk m' s = (Inr (), s') \<and> en_inv inv s' \<and> meta_at h s' sk = Some m' \<and> keeps s s' \<and>
    (\<forall>k. rows_fit fits k \<longrightarrow> k \<noteq> sk \<longrightarrow> meta_at h s' k = meta_at h s k) \<and>
    (\<forall>k. prefix (ascii ''md/'') k \<longrightarrow> fits k [] \<longrightarrow> doc_blob h s' k = doc_blob h s k)"
proof -
  have md: "prefix (ascii ''md/'') sk" using rows by (simp add: rows_fit_def)
  have i: "inv (en_storage s)" using ok(1) by (simp add: en_inv_def)
  have "does (write_meta h sk m') s (\<lambda>_ s'. en_inv inv s' \<and> meta_at h s' sk = Some m' \<and> keeps s s' \<and>
    (\<forall>k. rows_fit fits k \<longrightarrow> k \<noteq> sk \<longrightarrow> meta_at h s' k = meta_at h s k) \<and>
    (\<forall>k. prefix (ascii ''md/'') k \<longrightarrow> fits k [] \<longrightarrow> doc_blob h s' k = doc_blob h s k))"
  proof (rule does_write_meta [OF ok md new(2,1)], intro conjI allI impI)
    fix s' :: "'s engine" and k
    assume "en_inv inv s'" "\<And>q. q \<noteq> sk \<Longrightarrow> q \<noteq> meta_key sk \<Longrightarrow> view (en_storage s') q = view (en_storage s) q"
      "rows_fit fits k" "k \<noteq> sk"
    then show "meta_at h s' k = meta_at h s k" using meta_rows_kept [OF i _ md] by (simp add: en_inv_def)
  qed simp_all
  then show ?thesis by (auto elim!: doesE)
qed

end

lemma clean_weights:
  "meta_clean (m\<lparr>mm_importance := x, mm_confidence := y, mm_last_reinforced := t\<rparr>) = meta_clean m"
  by (simp add: meta_clean_def meta_fits_def)

text \<open>C36: Feedback keeps the weights in the unit interval, over any backend: an amount that is not
  finite is refused and changes nothing; otherwise the importance and the confidence of the memory move in
  the direction of the feedback and stay between zero and one, the moment of the reinforcement is the own
  counter, which does not tick, and no other metadata, no metadata of another memory and no document change.\<close>

theorem feedback_keeps_weights:
  assumes "backend_store good view (ho_backend h) fits means" and "en_inv good s" "ram_fits fits s"
    and "sk = resolve_known_key (ho_avx2 h) (en_art s) key" "rows_fit fits sk"
    and "meta_at h s sk = Some m" "meta_clean m" "mm_importance m \<le> 0x3F800000" "mm_confidence m \<le> 0x3F800000"
    and "\<And>m'. meta_clean m' \<Longrightarrow> length (meta_encode m') = length (meta_encode m) \<Longrightarrow> fits (meta_key sk) (meta_encode m')"
    and "amount < 0x80000000"
  shows "if \<not> f32_finite amount
    then feedback h key positive amount s = (Inl (Sgdb (SE_Invalid ''feedback amount must be finite'')), s)
    else \<exists>s' imp conf. feedback h key positive amount s = (Inr (), s') \<and> en_inv good s' \<and>
      meta_at h s' sk = Some (m\<lparr>mm_importance := imp, mm_confidence := conf, mm_last_reinforced := en_watermark s\<rparr>) \<and>
      (\<forall>w \<in> {imp, conf}. f32_le 0 w \<and> f32_le w 0x3F800000) \<and>
      (if positive then f32_le (mm_importance m) imp \<and> f32_le (mm_confidence m) conf
       else f32_le imp (mm_importance m) \<and> f32_le conf (mm_confidence m)) \<and>
      en_watermark s' = en_watermark s \<and>
      (\<forall>k. rows_fit fits k \<longrightarrow> k \<noteq> sk \<longrightarrow> meta_at h s' k = meta_at h s k) \<and>
      (\<forall>k. prefix (ascii ''md/'') k \<longrightarrow> fits k [] \<longrightarrow> doc_blob h s' k = doc_blob h s k)"
proof (cases "f32_finite amount")
  case False
  then show ?thesis by (simp add: feedback_def ofail_def)
next
  case True
  have e: "engine_store good view h fits means" using assms(1) by (simp add: engine_store_def)
  let ?d = "if positive then amount else f32_neg amount"
  let ?f = "\<lambda>m. m\<lparr>mm_importance := f32_bump (mm_importance m) ?d, mm_confidence := f32_bump (mm_confidence m) ?d,
      mm_last_reinforced := en_watermark s\<rparr>"
  have d: "f32_finite ?d" "\<not> f32_nan ?d"
    using True finite_positive [OF assms(11) True] by (simp_all add: neg_finite neg_nan)
  have clean: "meta_clean (?f m)" using assms(7) by (simp add: clean_weights)
  have "length (meta_encode (?f m)) = length (meta_encode m)"
    by (simp add: meta_encode_layout meta_layout_def meta_body_v1_def)
  then have fit: "fits (meta_key sk) (meta_encode (?f m))" by (rule assms(10) [OF clean])
  obtain s' where s': "write_meta h sk (?f m) s = (Inr (), s')" "en_inv good s'" "meta_at h s' sk = Some (?f m)" "keeps s s'"
    "\<forall>k. rows_fit fits k \<longrightarrow> k \<noteq> sk \<longrightarrow> meta_at h s' k = meta_at h s k"
    "\<forall>k. prefix (ascii ''md/'') k \<longrightarrow> fits k [] \<longrightarrow> doc_blob h s' k = doc_blob h s k"
    using engine_store.does_reweigh [OF e assms(2,3,5) clean fit] by blast
  have run: "feedback h key positive amount s = (Inr (), s')"
    using True s'(1)
    by (simp add: feedback_def with_key_def known_key_def obind_def oget_def assms(4) [symmetric]
      ensure_run [OF assms(6)] Let_def)
  have moves: "if positive then f32_le x (f32_bump x ?d) else f32_le (f32_bump x ?d) x" if "x \<le> 0x3F800000" for x
    using bump_up [OF that assms(11) True] bump_down [OF that assms(11) True] by simp
  have nf: "\<not> \<not> f32_finite amount" using True by simp
  show ?thesis
    unfolding if_not_P [OF nf]
    using run s' bump_unit [OF assms(8) d] bump_unit [OF assms(9) d] moves [OF assms(8)] moves [OF assms(9)]
    by (intro exI [of _ s'] exI [of _ "f32_bump (mm_importance m) ?d"] exI [of _ "f32_bump (mm_confidence m) ?d"])
      (auto simp: keeps_def)
qed

theorem feedback_keeps_weights_witness:
  "\<exists>s' m. feedback (ram_host (\<lambda>_. False) False) (ascii ''md/L2/a'') True 0x3DCCCCCD pair_engine = (Inr (), s') \<and>
     meta_at (ram_host (\<lambda>_. False) False) s' (ascii ''md/L2/a'') = Some m \<and> f32_le (mm_importance m) 0x3F800000"
proof -
  let ?h = "ram_host (\<lambda>_. False) False" and ?a = "ascii ''md/L2/a''"
  have key: "?a = resolve_known_key (ho_avx2 ?h) (en_art pair_engine) ?a" by (simp add: resolve_md ascii_def)
  have rows: "rows_fit (\<lambda>_ _. True) ?a" by (simp add: rows_fit_def ascii_def)
  have clean: "meta_clean pair_meta" and w: "mm_importance pair_meta \<le> 0x3F800000" "mm_confidence pair_meta \<le> 0x3F800000"
    by (simp_all add: meta_clean_def pair_meta_def meta_upgrade_def meta_fits_def sample_meta_def wire_str_def dims_new_def
      legacy_dims_def dims_is_global_def ascii_def utf8_valid.simps)
  have fin: "f32_finite 0x3DCCCCCD" by (rule small_finite) simp
  show ?thesis
    using feedback_keeps_weights [OF ram_host_store [of "\<lambda>_. False" False] pair_engine_ok(1,2) key rows pair_engine_ok(3) clean w,
      of "0x3DCCCCCD" True] fin by auto
qed

end
