(* ===== verification/Facade_Purge.thy ===== *)
theory Facade_Purge
  imports Facade_State
begin

text \<open>
  The purge of a memory: tombstone, deletion, evidence.
\<close>

section \<open>Operations that keep the vectors\<close>

definition keeping_bq :: "('s, 'a) op \<Rightarrow> bool" where
  "keeping_bq m \<longleftrightarrow> (\<forall>s. en_bq (snd (m s)) = en_bq s \<and> en_watermark (snd (m s)) = en_watermark s)"

named_theorems vectors \<open>operations that keep the vectors and the watermark\<close>

lemma kbq_basic [vectors]: "keeping_bq (oret x)" "keeping_bq (ofail e)" "keeping_bq (oget g)" "keeping_bq (on_storage f)"
  by (auto simp: keeping_bq_def oret_def ofail_def oget_def on_storage_def split: prod.split)

lemma kbq_mod [vectors]: "(\<And>s. en_bq (g s) = en_bq s \<and> en_watermark (g s) = en_watermark s) \<Longrightarrow> keeping_bq (omod g)"
  by (simp add: keeping_bq_def omod_def)

lemma kbq_bind [vectors]: "keeping_bq m \<Longrightarrow> (\<And>x. keeping_bq (f x)) \<Longrightarrow> keeping_bq (obind m f)"
  unfolding keeping_bq_def obind_def by (auto split: prod.split sum.split) (metis snd_conv)+

lemma kbq_then [vectors]: "keeping_bq m \<Longrightarrow> keeping_bq n \<Longrightarrow> keeping_bq (othen m n)"
  unfolding othen_def by (intro kbq_bind)

lemma kbq_sto [vectors]: "keeping_bq (sto_put h k v)" "keeping_bq (sto_del h k)" "keeping_bq (art_del k)"
  unfolding sto_put_def sto_del_def art_del_def by (auto intro!: vectors)

lemma kbq_seq [vectors]: "(\<And>x. keeping_bq (f x)) \<Longrightarrow> keeping_bq (oseq f xs)"
proof (induction xs)
  case Nil
  then show ?case by (simp add: keeping_bq_def)
next
  case (Cons x xs)
  have "oseq f (x # xs) = obind (f x) (\<lambda>_. oseq f xs)" by (simp add: fun_eq_iff obind_def)
  then show ?case using Cons by (simp add: kbq_bind)
qed

lemma kbq_delete: "keeping_bq (engine_delete h sk)"
proof -
  have dead: "en_bq (unnote_dead sk old s) = en_bq s \<and> en_watermark (unnote_dead sk old s) = en_watermark s" for old and s :: "'a engine"
    by (auto simp: unnote_dead_def unnote_vec_def split: option.split sum.split)
  have rel: "keeping_bq (remove_relations_for h sk)" for h :: "'a host"
    unfolding remove_relations_for_def remove_kind_def remove_outgoing_def remove_incoming_def
    by (auto intro!: vectors split: prod.split option.split simp: Let_def)
  have meta: "keeping_bq (delete_meta_rows h sk)" for h :: "'a host"
    unfolding delete_meta_rows_def by (auto intro!: vectors simp: remove_entities_exact_def split: option.split)
  show ?thesis
    unfolding engine_delete_def Let_def
    by (intro vectors rel meta) (simp_all add: dead unlink_key_def Let_def)
qed

lemma kbq_run: "keeping_bq m \<Longrightarrow> m s = (r, s') \<Longrightarrow> en_bq s' = en_bq s \<and> en_watermark s' = en_watermark s"
  unfolding keeping_bq_def by (metis snd_conv)

section \<open>Deletion through the facade\<close>

context engine_store
begin

lemma does_delete_memory:
  assumes r: "relates inv view s R" and key: "prefix (ascii ''md/'') sk" "no_hash sk"
    and fit: "\<And>q. q \<in> dead_rows sk (read_meta (ho_backend h) (en_storage s) sk) \<Longrightarrow> fits q []"
      "\<And>k a b. (k, a, b) \<in> R \<Longrightarrow> fits (rel_storage_key k a b) []"
    and bq: "bq_inv (en_bq s)" and there: "doc_blob h s sk \<noteq> None"
  shows "does (delete_memory h sk) s (\<lambda>existed s'. existed \<and> relates inv view s' {(k, a, b) \<in> R. a \<noteq> sk \<and> b \<noteq> sk} \<and>
    (\<forall>q. \<not> prefix (ascii ''sys/rel/'') q \<longrightarrow>
      view (en_storage s') q = (if q \<in> dead_rows sk (read_meta (ho_backend h) (en_storage s) sk) then None else view (en_storage s) q)) \<and>
    en_ram s' = bt_remove sk (en_ram s) \<and> en_watermark s' = en_watermark s)"
proof -
  let ?m = "read_meta (ho_backend h) (en_storage s) sk" and ?R = "{(k, a, b) \<in> R. a \<noteq> sk \<and> b \<noteq> sk}"
  obtain s1 where s1: "engine_delete h sk s = (Inr True, s1)" "relates inv view s1 ?R"
    "\<And>q. \<not> prefix (ascii ''sys/rel/'') q \<Longrightarrow> view (en_storage s1) q = (if q \<in> dead_rows sk ?m then None else view (en_storage s) q)"
    "en_ram s1 = bt_remove sk (en_ram s)"
    using does_delete [OF r key refl fit] there by (auto elim!: doesE)
  have kept: "en_bq s1 = en_bq s" "en_watermark s1 = en_watermark s" using kbq_run [OF kbq_delete s1(1)] by simp_all
  obtain ix m where ix: "retain (en_bq s1) (\<lambda>d. bt_get (en_id_to_sk s1) d \<noteq> None) = Inr (ix, m)"
    using retain_ok [of "en_bq s1" "\<lambda>d. bt_get (en_id_to_sk s1) d \<noteq> None"] bq kept(1) by auto
  have here: "(Inr n, s1) = (Inr n, s1\<lparr>en_bq := en_bq s1\<rparr>)" for n :: nat by simp
  have "\<exists>n x. reclaim_bq_orphans DEFAULT_BQ_ORPHAN_THRESHOLD s1 = (Inr n, s1\<lparr>en_bq := x\<rparr>)"
    unfolding reclaim_bq_orphans_def Let_def ix sum.case prod.case using here by (metis (no_types))
  then obtain n x where n: "reclaim_bq_orphans DEFAULT_BQ_ORPHAN_THRESHOLD s1 = (Inr n, s1\<lparr>en_bq := x\<rparr>)" by blast
  have run: "delete_memory h sk s = (Inr True, s1\<lparr>en_bq := x\<rparr>)"
    by (simp add: delete_memory_def with_key_def known_key_def obind_def oget_def oret_def resolve_md [OF key(1)] s1(1) n)
  have "relates inv view (s1\<lparr>en_bq := x\<rparr>) ?R" using s1(2) by (simp add: relates_def en_inv_def)
  then show ?thesis using run s1 kept by (simp add: does_def)
qed

end

section \<open>Purge\<close>

definition purge_evidence :: "u8 \<Rightarrow> 's host \<Rightarrow> 's \<Rightarrow> bytes \<Rightarrow> u64 \<Rightarrow> bytes \<Rightarrow> audit_entry" where
  "purge_evidence sel h st sk t reason = forget_entry sel (ho_backend h) st sk t reason"

lemma audit_key_other:
  assumes "prefix (ascii ''md/'') sk"
  shows "audit_key n \<noteq> sk" "audit_key n \<noteq> state_key k" "\<not> prefix (ascii ''sys/rel/'') (audit_key n)"
  using assms by (auto simp: audit_key_def AUDIT_PREFIX_def side_keys ascii_def prefix_def)

context engine_store
begin

lemma does_evidence:
  assumes r: "relates inv view s R"
    and fit: "fits (audit_key (ae_seq e)) (audit_encode e)" and e: "e = forget_entry sel (ho_backend h) (en_storage s) sk t reason"
    and post: "\<And>s'. relates inv view s' R \<Longrightarrow> view (en_storage s') = (view (en_storage s))(audit_key (ae_seq e) \<mapsto> audit_encode e) \<Longrightarrow>
      en_ram s' = en_ram s \<Longrightarrow> P (ae_seq e) s'"
  shows "does (on_ledger (\<lambda>st. audit_forget sel (ho_backend h) st sk t reason)) s P"
proof -
  have i: "inv (en_storage s)" using r by (simp add: relates_def en_inv_def)
  have ne: "audit_encode e \<noteq> []" by (simp add: audit_encode_def AUDIT_MAGIC_def ascii_def)
  obtain st where st: "be_put (ho_backend h) (en_storage s) (audit_key (ae_seq e)) (audit_encode e) = (Inr (), st)" "inv st"
    "view st = (view (en_storage s))(audit_key (ae_seq e) \<mapsto> audit_encode e)"
    using put_ok [OF i fit] means_some [OF ne] by auto
  have "audit_forget sel (ho_backend h) (en_storage s) sk t reason = (Inr (ae_seq e), st)"
    using st(1) by (simp add: audit_forget_def put_entry_def e)
  then have run: "on_ledger (\<lambda>st. audit_forget sel (ho_backend h) st sk t reason) s = (Inr (ae_seq e), s\<lparr>en_storage := st\<rparr>)"
    by (simp add: on_ledger_def)
  have other: "q \<noteq> audit_key (ae_seq e)" if "prefix (ascii ''sys/rel/'') q" for q
    using that by (auto simp: audit_key_def AUDIT_PREFIX_def ascii_def prefix_def)
  have "relates inv view (s\<lparr>en_storage := st\<rparr>) R"
    by (rule relates_other [OF r]) (use r st other in \<open>simp_all add: relates_def en_inv_def\<close>)
  then show ?thesis using run st(3) by (simp add: does_def post)
qed

end

text \<open>C35: A purge removes the memory and leaves the evidence, but no tombstone.  Without a document
  nothing changes.  Otherwise the call succeeds, the document and its relations are gone, the ledger has a
  forget entry with the key and the reason, all other documents stay; and the state row that was to keep
  the mesh from bringing the memory back is deleted with the rest, so its state reads as active again.\<close>

theorem purge_loses_the_tombstone:
  assumes "backend_store good view (ho_backend h) fits means" and "relates good view s R" "ram_fits fits s" "bq_inv (en_bq s)"
    and "sk = resolve_known_key (ho_avx2 h) (en_art s) key" "rows_fit fits sk" "no_hash sk" "readable h s sk"
    and "\<And>q. q \<in> dead_rows sk (meta_at h s sk) \<Longrightarrow> fits q []"
    and "\<And>k a b. (k, a, b) \<in> R \<Longrightarrow> fits (rel_storage_key k a b) []"
    and "\<And>st. fits (audit_key (ae_seq (purge_evidence sel h st sk (en_watermark s) reason)))
      (audit_encode (purge_evidence sel h st sk (en_watermark s) reason))"
  shows "if doc_blob h s sk = None
    then \<exists>s' (out :: forget_outcome). forget_purge sel h key reason s = (Inr out, s') \<and> \<not> fo_existed out \<and> en_storage s' = en_storage s
    else \<exists>s' (out :: forget_outcome) st. forget_purge sel h key reason s = (Inr out, s') \<and> fo_deleted out \<and>
      (let e = purge_evidence sel h st sk (en_watermark s) reason in
        fo_audit_seq out = Some (ae_seq e) \<and> view (en_storage s') (audit_key (ae_seq e)) = Some (audit_encode e)) \<and>
      relates good view s' {(k, a, b) \<in> R. a \<noteq> sk \<and> b \<noteq> sk} \<and>
      (\<forall>k. prefix (ascii ''md/'') k \<longrightarrow> fits k [] \<longrightarrow> doc_blob h s' k = (if k = sk then None else doc_blob h s k)) \<and>
      get_state (ho_backend h) (en_storage s') sk = Active"
proof (cases "doc_blob h s sk = None")
  case True
  obtain d where "get_by_storage_key h sk s = (Inr d, counted s)" "d = None"
    by (rule get_run [OF assms(8)]) (use True in auto)
  then have "forget_purge sel h key reason s =
      (Inr \<lparr>fo_existed = False, fo_tombstoned = False, fo_deleted = False, fo_audit_seq = None\<rparr>, counted s)"
    by (simp add: forget_purge_def with_key_def known_key_def obind_def oget_def oret_def assms(5))
  then show ?thesis unfolding if_P [OF True]
    by (intro exI [of _ "counted s"] exI conjI) (assumption, simp_all)
next
  case False
  have e: "engine_store good view h fits means" using assms(1) by (simp add: engine_store_def)
  let ?m = "meta_at h s sk" and ?t = "en_watermark s" and ?R = "{(k, a, b) \<in> R. a \<noteq> sk \<and> b \<noteq> sk}"
  have md: "prefix (ascii ''md/'') sk" using assms(6) by (simp add: rows_fit_def)
  have good0: "good (en_storage s)" and ok: "en_inv good s" using assms(2) by (simp_all add: relates_def en_inv_def)
  obtain d where d: "get_by_storage_key h sk s = (Inr d, counted s)" "d \<noteq> None"
    by (rule get_run [OF assms(8)]) (use False in auto)
  have "does (set_state h sk Superseded) (counted s) (\<lambda>_ s1. relates good view s1 R \<and> keeps s s1 \<and>
    (\<forall>q. q \<noteq> sk \<longrightarrow> q \<noteq> state_key sk \<longrightarrow> view (en_storage s1) q = view (en_storage s) q) \<and>
    (\<forall>q. prefix (ascii ''md/'') q \<longrightarrow> fits q [] \<longrightarrow> doc_blob h s1 q = doc_blob h s q))"
  proof (rule engine_store.does_set_state [OF e])
    fix s1 :: "'a engine" assume s1: "en_inv good s1" "keeps (counted s) s1"
      "\<And>q. q \<noteq> sk \<Longrightarrow> q \<noteq> state_key sk \<Longrightarrow> view (en_storage s1) q = view (en_storage (counted s)) q"
      "\<And>q. prefix (ascii ''md/'') q \<Longrightarrow> fits q [] \<Longrightarrow> doc_blob h s1 q = doc_blob h (counted s) q"
    have k: "keeps s s1" by (rule keeps_trans [OF _ s1(2)]) simp
    have "view (en_storage s1) q = view (en_storage s) q" if "prefix (ascii ''sys/rel/'') q" for q
      using s1(3) [of q] that md_not_rel(1) [OF md] by (cases "q = sk"; cases "q = state_key sk") simp_all
    then have "relates good view s1 R"
      by (rule relates_other [OF assms(2) s1(1)]) (use k in \<open>auto simp: keeps_def\<close>)
    then show "relates good view s1 R \<and> keeps s s1 \<and>
      (\<forall>q. q \<noteq> sk \<longrightarrow> q \<noteq> state_key sk \<longrightarrow> view (en_storage s1) q = view (en_storage s) q) \<and>
      (\<forall>q. prefix (ascii ''md/'') q \<longrightarrow> fits q [] \<longrightarrow> doc_blob h s1 q = doc_blob h s q)" using k s1(3,4) by simp
  qed (use assms(3,6,8) ok False in \<open>auto simp: rows_fit_def ram_fits_def\<close>)
  then obtain s1 where s1: "set_state h sk Superseded (counted s) = (Inr (), s1)" "relates good view s1 R" "keeps s s1"
    "\<And>q. q \<noteq> sk \<Longrightarrow> q \<noteq> state_key sk \<Longrightarrow> view (en_storage s1) q = view (en_storage s) q"
    "\<And>q. prefix (ascii ''md/'') q \<Longrightarrow> fits q [] \<Longrightarrow> doc_blob h s1 q = doc_blob h s q" by (auto elim!: doesE)
  have good1: "good (en_storage s1)" using s1(2) by (simp add: relates_def en_inv_def)
  have m1: "read_meta (ho_backend h) (en_storage s1) sk = ?m"
    using engine_store.meta_at_cong [OF e good0 good1 assms(6)] s1(4) [of "meta_key sk"] rows_not_md [OF md] by (simp add: meta_at_def)
  have blob1: "doc_blob h s1 sk \<noteq> None" using s1(5) [OF md] False assms(6) by (simp add: rows_fit_def)
  obtain s2 where s2: "delete_memory h sk s1 = (Inr True, s2)" "relates good view s2 ?R"
    "\<And>q. \<not> prefix (ascii ''sys/rel/'') q \<Longrightarrow> view (en_storage s2) q = (if q \<in> dead_rows sk ?m then None else view (en_storage s1) q)"
    "en_ram s2 = bt_remove sk (en_ram s1)" "en_watermark s2 = ?t"
    using engine_store.does_delete_memory [OF e s1(2) md assms(7), unfolded m1, OF assms(9,10) _ blob1] assms(4) s1(3)
    by (auto simp: keeps_def elim!: doesE)
  let ?e = "purge_evidence sel h (en_storage s2) sk ?t reason"
  have "does (on_ledger (\<lambda>st. audit_forget sel (ho_backend h) st sk ?t reason)) s2 (\<lambda>n s3. n = ae_seq ?e \<and>
    relates good view s3 ?R \<and> view (en_storage s3) = (view (en_storage s2))(audit_key (ae_seq ?e) \<mapsto> audit_encode ?e) \<and> en_ram s3 = en_ram s2)"
    by (rule engine_store.does_evidence [OF e s2(2) assms(11) [of "en_storage s2"]]) (simp_all add: purge_evidence_def)
  then obtain s3 where s3: "on_ledger (\<lambda>st. audit_forget sel (ho_backend h) st sk ?t reason) s2 = (Inr (ae_seq ?e), s3)"
    "relates good view s3 ?R" "view (en_storage s3) = (view (en_storage s2))(audit_key (ae_seq ?e) \<mapsto> audit_encode ?e)" "en_ram s3 = en_ram s2"
    by (auto elim!: doesE)
  have run: "forget_purge sel h key reason s =
      (Inr \<lparr>fo_existed = True, fo_tombstoned = True, fo_deleted = True, fo_audit_seq = Some (ae_seq ?e)\<rparr>, s3)"
    using d(2) s2(5) s3(1)
    by (simp add: forget_purge_def with_key_def known_key_def obind_def othen_def oget_def oret_def assms(5) [symmetric] d(1) s1(1) s2(1))
  have good3: "good (en_storage s3)" using s3(2) by (simp add: relates_def en_inv_def)
  have row: "view (en_storage s3) q = (if q \<in> dead_rows sk ?m then None else view (en_storage s1) q)"
    if "\<not> prefix (ascii ''sys/rel/'') q" "q \<noteq> audit_key (ae_seq ?e)" for q
    using that s2(3) s3(3) by simp
  have docs: "doc_blob h s3 k = (if k = sk then None else doc_blob h s k)" if k: "prefix (ascii ''md/'') k" "fits k []" for k
  proof -
    have "k \<in> dead_rows sk ?m \<longleftrightarrow> k = sk" using k(1) by (cases ?m) (auto simp: dead_rows_def side_keys ascii_def prefix_def)
    then have "view (en_storage s3) k = (if k = sk then None else view (en_storage s1) k)"
      using row [OF md_not_rel(1) [OF k(1)]] audit_key_other(1) [OF k(1)] by metis
    then have "doc_blob h s3 k = (if k = sk then None else doc_blob h s1 k)"
      using k(2)
      by (cases "k = sk")
        (simp_all add: engine_store.doc_blob_view [OF e good3] engine_store.doc_blob_view [OF e good1] s3(4) s2(4) split: option.split)
    then show ?thesis using s1(5) [OF k] by simp
  qed
  have "view (en_storage s3) (state_key sk) = None"
    using row [of "state_key sk"] audit_key_other(2) [OF md] by (metis side_not_rel(1) dead_rows_def UnCI insertCI)
  then have "get_state (ho_backend h) (en_storage s3) sk = Active"
    by (simp add: engine_store.get_state_view [OF e good3 assms(6)])
  then show ?thesis
    unfolding if_not_P [OF False] Let_def
  proof (intro exI conjI allI impI)
    show "view (en_storage s3) (audit_key (ae_seq ?e)) = Some (audit_encode ?e)" by (simp add: s3(3))
  qed (rule run s3(2) docs | simp)+
qed

lemma pair_relates: "relates (\<lambda>s. bt_wf (im_map s)) (\<lambda>s. bt_get (im_map s)) pair_engine {}"
proof -
  have m: "\<not> prefix (ascii ''sys/rel/'') k" if "bt_get (im_map (en_storage pair_engine)) k = Some v" for k v
    using that by (auto simp: pair_engine_def engine_new_def side_keys ascii_def split: if_splits)
  have "prefix (ascii ''sys/rel/'') (rel_storage_key k a b)" for k a b by (simp add: rel_storage_key_def)
  then have none: "bt_get (im_map (en_storage pair_engine)) (rel_storage_key k a b) = None" for k a b
    using m by (metis not_Some_eq)
  have t: "art_map (en_art pair_engine) = Map.empty" by (simp add: pair_engine_def engine_new_def art_new_def art_map_empty)
  have "rels (bt_get (im_map (en_storage pair_engine))) = {}" by (simp add: rels_def none)
  then show ?thesis
    using pair_engine_ok(1) m by (auto simp: relates_def rel_rows_def rel_synced_def t)
qed

theorem purge_loses_the_tombstone_witness:
  "\<exists>s' (out :: forget_outcome). forget_purge 0 (ram_host (\<lambda>_. False) False) (ascii ''md/L2/a'') [9] pair_engine = (Inr out, s') \<and> fo_deleted out \<and>
     get_state ram_backend (en_storage s') (ascii ''md/L2/a'') = Active"
proof -
  let ?h = "ram_host (\<lambda>_. False) False" and ?a = "ascii ''md/L2/a''"
  have key: "?a = resolve_known_key (ho_avx2 ?h) (en_art pair_engine) ?a" by (simp add: resolve_md ascii_def)
  have rows: "rows_fit (\<lambda>_ _. True) ?a" by (simp add: rows_fit_def ascii_def)
  have hash: "no_hash ?a" by (simp add: no_hash_def ascii_def)
  have dec: "readable ?h pair_engine ?a"
    unfolding readable_def pair_engine_ok using pair_doc [of "of_char CHR ''a''"] by (simp add: ascii_def)
  have bq: "bq_inv (en_bq pair_engine)" by (simp add: pair_engine_def engine_new_def bq_new_def bq_inv_def)
  have "ho_backend ?h = ram_backend" by (simp add: ram_host_def)
  then show ?thesis
    using purge_loses_the_tombstone [OF ram_host_store [of "\<lambda>_. False" False] pair_relates pair_engine_ok(2) bq key rows hash dec,
      of 0 "[9]"] pair_engine_ok(5) by auto
qed

end
