(* ===== verification/Facade_Sync.thy ===== *)
theory Facade_Sync
  imports Facade_Purge
begin

text \<open>
  Replication through the facade (\<open>src/src/sgdb.rs\<close>): the merge of a remote record under the policy of
  its layer, the conflicts it leaves, their resolution, the export of what a peer lacks, and the
  application of an arbitration decision (\<open>src/src/arbitration.rs\<close>).
\<close>

section \<open>Merging a remote record\<close>

definition adopt :: "'s host \<Rightarrow> memory_record \<Rightarrow> ('s, merge_verdict) op" where
  "adopt h rec = obind (import_record h rec) (\<lambda>_. oret Applied)"

definition same_content :: "memory_doc \<Rightarrow> memory_doc \<Rightarrow> bool" where
  "same_content a b \<longleftrightarrow> vc_eq (md_clock a) (md_clock b) \<and> md_payload a = md_payload b \<and> md_bitvec a = md_bitvec b"

definition authority_in :: "memory_doc \<Rightarrow> u8" where
  "authority_in d = (case md_meta d of Some m \<Rightarrow> mm_authority m | None \<Rightarrow> 0)"

text \<open>The versions in conflict with their encoded records, ordered, one per version.\<close>

fun dedup_versions :: "(bytes \<times> bytes) list \<Rightarrow> (bytes \<times> bytes) list" where
  "dedup_versions (a # b # xs) =
     (if fst a = fst b then dedup_versions (a # xs) else a # dedup_versions (b # xs))"
| "dedup_versions xs = xs"

definition conflict_pairs :: "memory_record option \<Rightarrow> memory_record \<Rightarrow> (bytes \<times> bytes) list" where
  "conflict_pairs local rec =
     dedup_versions (sort_key fst
       ((case local of Some l \<Rightarrow> [(version_label (mr_doc l), record_encode l)] | None \<Rightarrow> []) @
        [(version_label (mr_doc rec), record_encode rec)]))"

definition author_of :: "u8 \<Rightarrow> memory_doc \<Rightarrow> u8" where
  "author_of fallback d = (case md_meta d of Some m \<Rightarrow> mm_source m | None \<Rightarrow> fallback)"

definition conflict_nodes :: "u8 \<Rightarrow> memory_record option \<Rightarrow> memory_record \<Rightarrow> u8 list" where
  "conflict_nodes node local rec =
     sort (remdups [case local of Some l \<Rightarrow> author_of node (mr_doc l) | None \<Rightarrow> node, author_of 0 (mr_doc rec)])"

definition conflict_of :: "u8 \<Rightarrow> u64 \<Rightarrow> bytes \<Rightarrow> memory_record option \<Rightarrow> memory_record \<Rightarrow> conflict_record" where
  "conflict_of node tick sk local rec =
     (let pairs = conflict_pairs local rec;
          (cid, cands) = generate_conflict_id sk (map fst pairs)
      in \<lparr>cr_conflict_id = cid, cr_subject = sk, cr_candidates = cands, cr_nodes = conflict_nodes node local rec,
          cr_created_tick = tick, cr_status = Open, cr_resolved_winner = None, cr_records = map snd pairs\<rparr>)"

definition record_conflict :: "'s host \<Rightarrow> memory_record \<Rightarrow> bytes \<Rightarrow> ('s, merge_verdict) op" where
  "record_conflict h rec sk = obind (export_record h sk) (\<lambda>local.
     obind (oget (\<lambda>s. conflict_of (en_node_id s) (en_watermark s) sk local rec)) (\<lambda>c.
     othen (on_storage (\<lambda>st. put_conflict (ho_backend h) st c))
     (oret Conflict)))"

definition merge_over :: "'s host \<Rightarrow> memory_record \<Rightarrow> bytes \<Rightarrow> memory_doc \<Rightarrow> ('s, merge_verdict) op" where
  "merge_over h rec sk local =
     (let doc = mr_doc rec in
      if same_content doc local
      then obind (oget (\<lambda>s. get_state (ho_backend h) (en_storage s) sk = mr_state rec \<and>
                            validity_window (ho_backend h) (en_storage s) sk = mr_validity rec)) (\<lambda>same.
        if same then oret Duplicate else adopt h rec)
      else if happens_before (md_clock doc) (md_clock local) then oret Stale
      else if happens_before (md_clock local) (md_clock doc)
      then (if authority_in local > authority_in doc then oret Rejected_by_authority else adopt h rec)
      else record_conflict h rec sk)"

definition merge_remote :: "'s host \<Rightarrow> memory_record \<Rightarrow> ('s, merge_verdict) op" where
  "merge_remote h rec =
     (if \<not> accepts_remote (for_layer (md_layer (mr_doc rec))) then oret Rejected
      else obind (get_by_storage_key h (storage_key (mr_doc rec))) (\<lambda>d.
        case d of
          None \<Rightarrow> adopt h rec
        | Some local \<Rightarrow> merge_over h rec (storage_key (mr_doc rec)) local))"

section \<open>Export\<close>

definition export_of :: "'s host \<Rightarrow> bytes \<Rightarrow> ('s, memory_record option) op" where
  "export_of h key = with_key h key (export_record h)"

definition lift_result :: "'a result \<Rightarrow> ('s, 'a) op" where
  "lift_result r s = (case r of Inr x \<Rightarrow> (Inr x, s) | Inl _ \<Rightarrow> (Inl Panics, s))"

fun export_loop :: "'s host \<Rightarrow> nat \<Rightarrow> bytes list \<Rightarrow> memory_record list \<Rightarrow> ('s, memory_record list) op" where
  "export_loop h mx [] out = oret out"
| "export_loop h mx (sk # sks) out = obind (export_of h sk) (\<lambda>r.
     case r of
       None \<Rightarrow> export_loop h mx sks out
     | Some rec \<Rightarrow>
         if mx > 0 \<and> length (out @ [rec]) \<ge> mx then oret (out @ [rec])
         else export_loop h mx sks (out @ [rec]))"

definition export_delta :: "'s host \<Rightarrow> u8 \<Rightarrow> u64 \<Rightarrow> nat \<Rightarrow> ('s, memory_record list) op" where
  "export_delta h node since mx =
     obind (oget (\<lambda>s. keys_since_clock s node since)) (\<lambda>r. obind (lift_result r) (\<lambda>ks. export_loop h mx ks []))"

section \<open>Conflicts\<close>

definition conflicts_open :: "'s backend \<Rightarrow> 's \<Rightarrow> conflict_record list" where
  "conflicts_open b st = filter (\<lambda>c. cr_status c = Open) (list_conflicts b st)"

record resolve_outcome =
  ro_already_resolved :: bool
  ro_imported :: bool
  ro_superseded :: "bytes list"

definition losers :: "conflict_record \<Rightarrow> nat \<Rightarrow> bytes list" where
  "losers c winner = map ((!) (cr_candidates c)) (filter (\<lambda>i. i \<noteq> winner) [0..<length (cr_candidates c)])"

definition add_loser :: "bytes \<Rightarrow> bytes list \<times> bytes list \<Rightarrow> bytes list \<times> bytes list" where
  "add_loser v = (\<lambda>(ps, gone). if v \<in> set ps then (ps, gone) else (ps @ [v], gone @ [v]))"

text \<open>The winner becomes the current version of its slot, the losers its parents.\<close>

definition crown :: "'s host \<Rightarrow> conflict_record \<Rightarrow> bytes \<Rightarrow> nat \<Rightarrow> memory_record \<Rightarrow> ('s, bytes list) op" where
  "crown h c winner_vid i rec =
     obind (import_record h rec) (\<lambda>_.
     obind (ensure_meta h (storage_key (mr_doc rec))) (\<lambda>m.
       case fold add_loser (losers c i) (mm_parent_ids m, []) of (ps, gone) \<Rightarrow>
         othen (write_meta h (storage_key (mr_doc rec)) (m\<lparr>mm_version_id := winner_vid, mm_parent_ids := ps\<rparr>))
         (oret gone)))"

definition winner_record :: "conflict_record \<Rightarrow> nat \<Rightarrow> memory_record option" where
  "winner_record c i =
     (if i < length (cr_records c) then (case record_decode (cr_records c ! i) of Inr rec \<Rightarrow> Some rec | Inl _ \<Rightarrow> None)
      else None)"

definition resolve_conflict :: "'s host \<Rightarrow> bytes \<Rightarrow> bytes \<Rightarrow> ('s, resolve_outcome) op" where
  "resolve_conflict h cid winner_vid = obind (oget (\<lambda>s. get_conflict (ho_backend h) (en_storage s) cid)) (\<lambda>c.
     case c of
       None \<Rightarrow> ofail (SE_Invalid ''conflict not found'')
     | Some c \<Rightarrow>
         if cr_status c = Resolved
         then oret \<lparr>ro_already_resolved = True, ro_imported = False, ro_superseded = []\<rparr>
         else case position (\<lambda>v. v = winner_vid) (cr_candidates c) of
           None \<Rightarrow> ofail (SE_Invalid ''winner not a candidate'')
         | Some i \<Rightarrow>
             obind (case winner_record c i of
                 None \<Rightarrow> oret (False, [])
               | Some rec \<Rightarrow> obind (crown h c winner_vid i rec) (\<lambda>gone. oret (True, gone))) (\<lambda>(imported, gone).
             othen (on_storage (\<lambda>st. put_conflict (ho_backend h) st
                 (c\<lparr>cr_status := Resolved, cr_resolved_winner := Some winner_vid\<rparr>)))
             (oret \<lparr>ro_already_resolved = False, ro_imported = imported, ro_superseded = gone\<rparr>)))"

definition dismiss_conflict :: "'s host \<Rightarrow> bytes \<Rightarrow> ('s, unit) op" where
  "dismiss_conflict h cid = on_storage (\<lambda>st. delete_conflict (ho_backend h) st cid)"

section \<open>Arbitration\<close>

datatype arbitration_action = Prefer | Invalidate_other | Merge_both | Escalate

record arbitration_decision =
  ad_action :: arbitration_action
  ad_winner :: "bytes option"
  ad_invalidated :: "bytes option"
  ad_merged_key :: "bytes option"

definition conflict_or_fail :: "'s host \<Rightarrow> bytes \<Rightarrow> ('s, conflict_record) op" where
  "conflict_or_fail h cid = obind (oget (\<lambda>s. get_conflict (ho_backend h) (en_storage s) cid)) (\<lambda>c.
     case c of Some c \<Rightarrow> oret c | None \<Rightarrow> ofail (SE_Invalid ''conflict not found''))"

definition merge_candidates :: "'s host \<Rightarrow> bytes \<Rightarrow> bytes \<Rightarrow> bytes \<Rightarrow> bytes \<Rightarrow> ('s, unit) op" where
  "merge_candidates h cid a b target =
     obind (resolve_conflict h cid a) (\<lambda>_. obind (merge_memories h a b target) (\<lambda>_. oret ()))"

definition apply_decision :: "'s host \<Rightarrow> bytes \<Rightarrow> arbitration_decision \<Rightarrow> ('s, unit) op" where
  "apply_decision h cid d =
     (case ad_action d of
        Prefer \<Rightarrow> (case ad_winner d of
            Some vid \<Rightarrow> obind (resolve_conflict h cid vid) (\<lambda>_. oret ()) | None \<Rightarrow> oret ())
      | Invalidate_other \<Rightarrow> (case ad_invalidated d of
            Some vid \<Rightarrow> obind (conflict_or_fail h cid) (\<lambda>c.
              case List.find (\<lambda>v. v \<noteq> vid) (cr_candidates c) of
                None \<Rightarrow> ofail (SE_Invalid ''no valid alternative'')
              | Some w \<Rightarrow> obind (resolve_conflict h cid w) (\<lambda>_. oret ()))
          | None \<Rightarrow> oret ())
      | Merge_both \<Rightarrow> (case ad_merged_key d of
            Some target \<Rightarrow> obind (conflict_or_fail h cid) (\<lambda>c.
              case cr_candidates c of a # b # _ \<Rightarrow> merge_candidates h cid a b target | _ \<Rightarrow> oret ())
          | None \<Rightarrow> oret ())
      | Escalate \<Rightarrow> oret ())"

end
