(* ===== verification/Merge_Laws.thy ===== *)
theory Merge_Laws
  imports Facade_Sync
begin

text \<open>
  What replication through the facade guarantees: what an import leaves behind, the verdicts of a merge,
  what a conflict keeps, and what a resolution does.
\<close>

section \<open>What an import leaves behind\<close>

text \<open>The document as the receiver stores it.\<close>

definition imported :: "memory_record \<Rightarrow> memory_doc" where
  "imported rec = (if md_meta (mr_doc rec) = None
     then (mr_doc rec)\<lparr>md_meta := Some (meta_for_import (mr_doc rec))\<rparr> else mr_doc rec)"

lemma imported_simps [simp]: "storage_key (imported rec) = storage_key (mr_doc rec)" "md_key (imported rec) = md_key (mr_doc rec)"
  "md_layer (imported rec) = md_layer (mr_doc rec)" "doc_encode (imported rec) = doc_encode (mr_doc rec)"
  by (simp_all add: imported_def storage_key_def doc_encode_def)

text \<open>The rows of one memory that an import writes.\<close>

definition import_fits :: "(bytes \<Rightarrow> bytes \<Rightarrow> bool) \<Rightarrow> 's host \<Rightarrow> 's engine \<Rightarrow> memory_record \<Rightarrow> bool" where
  "import_fits fits h s rec \<longleftrightarrow> write_fits fits h s (imported rec) False \<and> rows_fit fits (storage_key (mr_doc rec)) \<and>
     (\<forall>v. length v \<in> {0, 16} \<longrightarrow> fits (validity_key (storage_key (mr_doc rec))) v)"

definition admissible :: "'s host \<Rightarrow> 's engine \<Rightarrow> memory_record \<Rightarrow> bool" where
  "admissible h s rec \<longleftrightarrow> doc_key_problem (md_key (mr_doc rec)) = None \<and> doc_fits (mr_doc rec) \<and>
     \<not> has_prefix_conflict (ho_avx2 h) (en_art s) (storage_key (mr_doc rec)) \<and> \<not> is_ram_layer (md_layer (mr_doc rec))"

text \<open>A window that is empty or closed before it opens is no window.\<close>

definition open_window :: "(u64 \<times> u64) option \<Rightarrow> (u64 \<times> u64) option" where
  "open_window w = (case w of Some (from, until) \<Rightarrow> if until \<le> from then None else w | None \<Rightarrow> None)"

lemma state_not_validity [simp]: "state_key a \<noteq> validity_key b" "meta_key a \<noteq> validity_key b"
  by (simp_all add: side_keys ascii_def)

lemma u64_bytes: "le_val (le_enc 8 (unat (x :: u64))) = unat x"
  using unsigned_less [of x] by (intro le_val_enc_small) simp

context engine_store
begin

lemma does_import:
  assumes ok: "en_inv inv s" and adm: "admissible h s rec" and fit: "import_fits fits h s rec"
    and sk: "sk = storage_key (mr_doc rec)"
  shows "does (import_record h rec) s (\<lambda>_ s'. en_inv inv s' \<and>
    (\<forall>k. prefix (ascii ''md/'') k \<longrightarrow> fits k [] \<longrightarrow>
      doc_blob h s' k = (if k = sk then Some (doc_encode (mr_doc rec)) else doc_blob h s k)) \<and>
    get_state (ho_backend h) (en_storage s') sk = mr_state rec \<and>
    validity_window (ho_backend h) (en_storage s') sk = open_window (mr_validity rec) \<and>
    (meta_clean (stored_meta h s sk (imported rec) False) \<longrightarrow>
      meta_at h s' sk = Some (stored_meta h s sk (imported rec) False)))"
    (is "does _ _ ?Q")
proof -
  have md: "prefix (ascii ''md/'') sk" "fits sk []" "rows_fit fits sk" and rows: "\<And>v. length v \<le> 1 \<Longrightarrow> fits (state_key sk) v"
    "\<And>v. length v \<in> {0, 16} \<Longrightarrow> fits (validity_key sk) v" and wf: "write_fits fits h s (imported rec) False"
    using fit by (auto simp: import_fits_def rows_fit_def sk)
  have key: "doc_key_problem (md_key (imported rec)) = None" "utf8_valid (md_key (imported rec))"
    "\<not> has_prefix_conflict (ho_avx2 h) (en_art s) (storage_key (imported rec))"
    and df: "doc_fits (mr_doc rec)" and far: "\<not> is_ram_layer (md_layer (mr_doc rec))"
    using adm by (simp_all add: admissible_def doc_fits_def)
  let ?row = "means (meta_encode (stored_meta h s sk (imported rec) False))"
  have meta: "meta_at h s1 sk = Some m" if "inv (en_storage s1)" "view (en_storage s1) (meta_key sk) = means (meta_encode m)"
      "meta_clean m" for s1 m
  proof -
    have "meta_encode m \<noteq> []" by (simp add: meta_encode_def META_MAGIC_def ascii_def)
    then show ?thesis
      using that md(3) by (simp add: meta_at_def read_meta_view rows_fit_def means_some meta_clean_back)
  qed
  have no_ram: "bt_get (en_ram s1) sk = None" if "en_inv inv s1" for s1
    using that far storage_key_ram [of "mr_doc rec"] by (auto simp: en_inv_def ram_keys_def sk)
  have tail: "does (set_validity h sk from until) s2 (\<lambda>_. ?Q x)"
    if s2: "en_inv inv s2" "\<forall>k. prefix (ascii ''md/'') k \<longrightarrow> fits k [] \<longrightarrow>
        doc_blob h s2 k = (if k = sk then Some (doc_encode (mr_doc rec)) else doc_blob h s k)"
      "view (en_storage s2) (state_key sk) = (if mr_state rec = Active then None else Some [state_u8 (mr_state rec)])"
      "view (en_storage s2) (meta_key sk) = ?row"
      and w: "(if until \<le> from then None else Some (from, until)) = open_window (mr_validity rec)" for s2 "from" until and x :: u64
  proof (rule does_set_validity [OF s2(1) _ md(1) rows(2)])
    fix s3 :: "'s engine" assume s3: "en_inv inv s3"
      "\<And>q. q \<noteq> sk \<Longrightarrow> q \<noteq> validity_key sk \<Longrightarrow> view (en_storage s3) q = view (en_storage s2) q"
      "\<And>q. prefix (ascii ''md/'') q \<Longrightarrow> fits q [] \<Longrightarrow> doc_blob h s3 q = doc_blob h s2 q"
      "view (en_storage s3) (validity_key sk) =
        (if until \<le> from then None else Some (le_enc 8 (unat from) @ le_enc 8 (unat until)))"
    have i: "inv (en_storage s3)" using s3(1) by (simp add: en_inv_def)
    have "view (en_storage s3) (state_key sk) = view (en_storage s2) (state_key sk)"
      using s3(2) rows_not_md [OF md(1)] by simp
    then have "get_state (ho_backend h) (en_storage s3) sk = mr_state rec"
      unfolding get_state_view [OF i md(3)] s2(3) by (simp add: unwrap_or_def)
    moreover have "validity_window (ho_backend h) (en_storage s3) sk = open_window (mr_validity rec)"
      using i rows(2) [of "[]"] w [symmetric]
      by (simp add: validity_window_def get_view s3(4) u64_bytes)
    moreover have "view (en_storage s3) (meta_key sk) = ?row"
      using s3(2) [of "meta_key sk"] s2(4) rows_not_md [OF md(1), of sk] by simp
    ultimately show "?Q x s3" using s3(1,3) s2(2) meta [OF i] by simp
  qed (use no_ram [OF s2(1)] in simp)
  have "does (set_state h sk (mr_state rec)) s1 (\<lambda>_ s2. does (othen (case mr_validity rec of
        Some (from, until) \<Rightarrow> set_validity h sk from until | None \<Rightarrow> set_validity h sk 0 0) (oret (x :: u64))) s2 ?Q)"
    if s1: "en_inv inv s1" "\<forall>k. prefix (ascii ''md/'') k \<longrightarrow> fits k [] \<longrightarrow>
        doc_blob h s1 k = (if k = sk then Some (doc_encode (mr_doc rec)) else doc_blob h s k)"
      "view (en_storage s1) (meta_key sk) = ?row" for s1 x
  proof (rule does_set_state_at [OF s1(1) _ md(1) rows(1)])
    have "doc_blob h s1 sk = Some (doc_encode (mr_doc rec))" using s1(2) md by simp
    then show "readable h s1 sk \<and> doc_blob h s1 sk \<noteq> None"
      using doc_decode_encode [OF df, of "[]"] by (simp add: readable_def)
    fix s2 :: "'s engine" assume s2: "en_inv inv s2"
      "\<And>q. q \<noteq> sk \<Longrightarrow> q \<noteq> state_key sk \<Longrightarrow> view (en_storage s2) q = view (en_storage s1) q"
      "\<And>q. prefix (ascii ''md/'') q \<Longrightarrow> fits q [] \<Longrightarrow> doc_blob h s2 q = doc_blob h s1 q"
      "view (en_storage s2) (state_key sk) = (if mr_state rec = Active then None else Some [state_u8 (mr_state rec)])"
    have b: "\<forall>k. prefix (ascii ''md/'') k \<longrightarrow> fits k [] \<longrightarrow>
        doc_blob h s2 k = (if k = sk then Some (doc_encode (mr_doc rec)) else doc_blob h s k)"
      using s1(2) s2(3) by simp
    have r: "view (en_storage s2) (meta_key sk) = ?row"
      using s2(2) [of "meta_key sk"] s1(3) rows_not_md [OF md(1), of sk] by simp
    show "does (othen (case mr_validity rec of
        Some (from, until) \<Rightarrow> set_validity h sk from until | None \<Rightarrow> set_validity h sk 0 0) (oret x)) s2 ?Q"
      by (cases "mr_validity rec")
        (auto intro!: does_then does_ret does_mono [OF tail [OF s2(1) b s2(4) r]] simp: open_window_def)
  qed (use no_ram [OF s1(1)] in simp)
  then show ?thesis
    unfolding import_record_def Let_def imported_def [symmetric] imported_simps sk [symmetric]
    by (intro does_bind does_then does_mono [OF does_put_inner [OF ok key wf]]) (simp_all add: sk ticked_def)
qed

end

section \<open>Verdicts\<close>

lemma import_counted [simp]: "import_fits fits h (counted s) rec = import_fits fits h s rec"
  "admissible h (counted s) rec = admissible h s rec"
  by (simp_all add: import_fits_def admissible_def write_fits_def ticked_def stored_meta_def counted_def)

text \<open>C11: A merge that is not applied and reports no conflict has changed nothing, neither storage nor
  index, whatever the record and the backend: only the count of reads may have moved.\<close>

theorem refused_merge_changes_nothing:
  assumes "merge_remote h rec s = (Inr v, s')" and "v \<noteq> Applied" "v \<noteq> Conflict"
  shows "s' = s \<or> s' = counted s"
proof -
  have adopt: "v = Applied" if "adopt h rec t = (Inr v, t')" for t t'
    using that by (auto simp: adopt_def obind_def oret_def split: prod.splits sum.splits)
  have rec: "v = Conflict" if "record_conflict h rec sk t = (Inr v, t')" for sk t t'
    using that by (auto simp: record_conflict_def othen_def obind_def oret_def split: prod.splits sum.splits)
  have over: "t' = t" if "merge_over h rec sk d t = (Inr v, t')" for sk d t t'
    using that adopt [of t t'] rec [of sk t t'] assms(2,3)
    by (auto simp: merge_over_def Let_def obind_def oget_def oret_def split: if_splits)
  show ?thesis
    using assms(1) assms(2) adopt over
    by (auto simp: merge_remote_def obind_def oret_def split: if_splits prod.splits sum.splits option.splits
        dest!: get_no_write)
qed

text \<open>The remote record overtakes the local document: its clock is later and no authority is lost.\<close>

definition overtakes :: "memory_record \<Rightarrow> memory_doc \<Rightarrow> bool" where
  "overtakes rec local \<longleftrightarrow> \<not> same_content (mr_doc rec) local \<and>
     \<not> happens_before (md_clock (mr_doc rec)) (md_clock local) \<and>
     happens_before (md_clock local) (md_clock (mr_doc rec)) \<and> authority_in local \<le> authority_in (mr_doc rec)"

text \<open>C9: A newer record is adopted, over any backend that takes its rows: where the key is free, or the
  remote clock is later than the local one and the local memory has no higher authority, the merge
  applies; the document at the key is the remote one, state and window are those of the record, and every
  other document stays.\<close>

theorem newer_record_is_adopted:
  assumes "backend_store good view (ho_backend h) fits means" and "en_inv good s"
    and "accepts_remote (for_layer (md_layer (mr_doc rec)))" "admissible h s rec" "import_fits fits h s rec"
    and "sk = storage_key (mr_doc rec)"
    and "\<And>w. doc_blob h s sk = Some w \<Longrightarrow> \<exists>d. doc_decode w = Inr d \<and> overtakes rec (attach_meta h s sk d)"
  shows "\<exists>s'. merge_remote h rec s = (Inr Applied, s') \<and> en_inv good s' \<and>
    (\<forall>k. prefix (ascii ''md/'') k \<longrightarrow> fits k [] \<longrightarrow>
      doc_blob h s' k = (if k = sk then Some (doc_encode (mr_doc rec)) else doc_blob h s k)) \<and>
    get_state (ho_backend h) (en_storage s') sk = mr_state rec \<and>
    validity_window (ho_backend h) (en_storage s') sk = open_window (mr_validity rec)"
proof -
  have e: "engine_store good view h fits means" using assms(1) by (simp add: engine_store_def)
  obtain n s' where s': "import_record h rec (counted s) = (Inr n, s')" "en_inv good s'"
    "\<forall>k. prefix (ascii ''md/'') k \<longrightarrow> fits k [] \<longrightarrow>
      doc_blob h s' k = (if k = sk then Some (doc_encode (mr_doc rec)) else doc_blob h (counted s) k)"
    "get_state (ho_backend h) (en_storage s') sk = mr_state rec"
    "validity_window (ho_backend h) (en_storage s') sk = open_window (mr_validity rec)"
    using engine_store.does_import [OF e, of "counted s" rec sk] assms(2,4-6) by (auto elim!: doesE)
  have adopt: "adopt h rec (counted s) = (Inr Applied, s')" using s'(1) by (simp add: adopt_def obind_def oret_def)
  have "merge_remote h rec s = (Inr Applied, s')"
  proof (cases "doc_blob h s sk")
    case None
    then show ?thesis using assms(3) adopt by (simp add: merge_remote_def obind_def get_doc_absent flip: assms(6))
  next
    case (Some w)
    obtain d where d: "doc_decode w = Inr d" "overtakes rec (attach_meta h s sk d)" using assms(7) [OF Some] by blast
    have "merge_over h rec sk (attach_meta h s sk d) (counted s) = (Inr Applied, s')"
      using d(2) adopt by (auto simp: merge_over_def overtakes_def Let_def)
    then show ?thesis using assms(3) by (simp add: merge_remote_def obind_def get_doc_stored [OF Some d(1)] flip: assms(6))
  qed
  then show ?thesis using s' by auto
qed

section \<open>Conflicts keep both sides\<close>

lemma dedup_versions_keys: "map fst (dedup_versions xs) = remdups_adj (map fst xs)"
  by (induction xs rule: dedup_versions.induct) simp_all

lemma dedup_versions_set: "set (dedup_versions xs) \<subseteq> set xs"
  by (induction xs rule: dedup_versions.induct) auto

lemma dedup_versions_id: "distinct (map fst xs) \<Longrightarrow> dedup_versions xs = xs"
  by (induction xs rule: dedup_versions.induct) auto

lemma conflict_pairs_canonical: "canonical (map fst (conflict_pairs local rec)) = map fst (conflict_pairs local rec)"
proof -
  have "sorted (map fst (sort_key fst xs))" for xs :: "(bytes \<times> bytes) list" by (rule sorted_sort_key)
  then show ?thesis
    by (simp add: conflict_pairs_def canonical_def dedup_versions_keys sorted_remdups_adj sorted_sort_id
        remdups_adj_distinct sorted_remdups_adj_distinct del: sorted_sort_key)
qed

lemma conflict_pairs_set: "set (conflict_pairs (Some l) rec) \<subseteq>
    {(version_label (mr_doc l), record_encode l), (version_label (mr_doc rec), record_encode rec)}"
  unfolding conflict_pairs_def by (rule subset_trans [OF dedup_versions_set]) simp

lemma conflict_pairs_both:
  assumes "version_label (mr_doc l) \<noteq> version_label (mr_doc rec)"
  shows "set (conflict_pairs (Some l) rec) =
    {(version_label (mr_doc l), record_encode l), (version_label (mr_doc rec), record_encode rec)}"
proof -
  let ?xs = "[(version_label (mr_doc l), record_encode l), (version_label (mr_doc rec), record_encode rec)]"
  have "distinct (map fst (sort_key fst ?xs))"
    using assms by (simp add: distinct_map inj_on_def)
  then show ?thesis unfolding conflict_pairs_def by (auto simp: dedup_versions_id)
qed

lemma conflict_of_fields:
  "cr_candidates (conflict_of node t sk local rec) = map fst (conflict_pairs local rec)"
  "cr_records (conflict_of node t sk local rec) = map snd (conflict_pairs local rec)"
  "cr_status (conflict_of node t sk local rec) = Open" "cr_subject (conflict_of node t sk local rec) = sk"
  using conflict_pairs_canonical [of local rec]
  by (simp_all add: conflict_of_def Let_def generate_conflict_id_def case_prod_unfold)

lemma conflict_key_other:
  assumes "prefix (ascii ''md/'') k"
  shows "conflict_key cid \<noteq> k"
  using assms by (auto simp: conflict_key_def ascii_def prefix_def)

text \<open>The record that the engine exports for a document it holds.\<close>

definition local_record :: "'s host \<Rightarrow> 's engine \<Rightarrow> bytes \<Rightarrow> memory_doc \<Rightarrow> memory_record" where
  "local_record h s sk d = \<lparr>mr_doc = attach_meta h s sk d, mr_state = get_state (ho_backend h) (en_storage s) sk,
     mr_validity = validity_window (ho_backend h) (en_storage s) sk\<rparr>"

lemma export_stored:
  assumes "doc_blob h s sk = Some w" "doc_decode w = Inr d"
  shows "export_record h sk s = (Inr (Some (local_record h s sk d)), counted s)"
  by (simp add: export_record_def obind_def oget_def local_record_def get_doc_stored [OF assms])

context engine_store
begin

lemma does_put_conflict:
  assumes ok: "en_inv inv s" and row: "conflict_try_encode c = Inr w" "conflict_strings c"
    and fit: "fits (conflict_key (cr_conflict_id c)) w"
    and post: "\<And>s'. en_inv inv s' \<Longrightarrow> keeps s s' \<Longrightarrow> get_conflict (ho_backend h) (en_storage s') (cr_conflict_id c) = Some c \<Longrightarrow>
      (\<And>q. q \<noteq> conflict_key (cr_conflict_id c) \<Longrightarrow> view (en_storage s') q = view (en_storage s) q) \<Longrightarrow>
      (\<And>q. prefix (ascii ''md/'') q \<Longrightarrow> fits q [] \<Longrightarrow> doc_blob h s' q = doc_blob h s q) \<Longrightarrow> P () s'"
  shows "does (on_storage (\<lambda>st. put_conflict (ho_backend h) st c)) s P"
proof -
  have i: "inv (en_storage s)" using ok by (simp add: en_inv_def)
  have ne: "w \<noteq> []" using conflict_decode_encode [OF row] by (auto simp: conflict_decode_def)
  have "does (sto_put h (conflict_key (cr_conflict_id c)) w) s P"
  proof (rule does_put [OF i fit], rule post)
    fix st assume st: "inv st" "view st = (view (en_storage s))(conflict_key (cr_conflict_id c) := means w)"
    let ?s = "s\<lparr>en_storage := st\<rparr>"
    show "en_inv inv ?s" using ok st by (simp add: en_inv_def)
    show "keeps s ?s" by (simp add: keeps_def)
    show "get_conflict (ho_backend h) (en_storage ?s) (cr_conflict_id c) = Some c"
      using st fits_key [OF fit] conflict_decode_encode [OF row] by (simp add: get_conflict_def get_view means_some [OF ne])
    show "view (en_storage ?s) q = view (en_storage s) q" if "q \<noteq> conflict_key (cr_conflict_id c)" for q
      using st that by simp
    show "doc_blob h ?s q = doc_blob h s q" if "prefix (ascii ''md/'') q" "fits q []" for q
      using that st i conflict_key_other [OF that(1)] by (simp add: doc_blob_view split: option.split) metis
  qed
  then show ?thesis by (simp add: sto_put_def put_conflict_def row(1))
qed

end

text \<open>C8: Concurrent versions are both kept, over any backend that takes the row: no document changes,
  neither does any other row; the conflict is stored as open, also where the same conflict was resolved
  before, and reads back with the two versions beside their full records.  Two versions with one and the
  same version id leave one record only.\<close>

theorem concurrent_merge_keeps_both:
  assumes "backend_store good view (ho_backend h) fits means" and "en_inv good s"
    and "accepts_remote (for_layer (md_layer (mr_doc rec)))" and "sk = storage_key (mr_doc rec)"
    and "doc_blob h s sk = Some w" "doc_decode w = Inr d" and "l = local_record h s sk d"
    and "\<not> same_content (mr_doc rec) (mr_doc l)"
    and "\<not> happens_before (md_clock (mr_doc rec)) (md_clock (mr_doc l))"
    and "\<not> happens_before (md_clock (mr_doc l)) (md_clock (mr_doc rec))"
    and "c = conflict_of (en_node_id s) (en_watermark s) sk (Some l) rec"
    and "conflict_try_encode c = Inr row" "conflict_strings c" "fits (conflict_key (cr_conflict_id c)) row"
  shows "\<exists>s'. merge_remote h rec s = (Inr Conflict, s') \<and> en_inv good s' \<and>
    (\<forall>k. prefix (ascii ''md/'') k \<longrightarrow> fits k [] \<longrightarrow> doc_blob h s' k = doc_blob h s k) \<and>
    (\<forall>q. q \<noteq> conflict_key (cr_conflict_id c) \<longrightarrow> view (en_storage s') q = view (en_storage s) q) \<and>
    get_conflict (ho_backend h) (en_storage s') (cr_conflict_id c) = Some c \<and> cr_status c = Open \<and> cr_subject c = sk \<and>
    (let both = {(version_label (mr_doc l), record_encode l), (version_label (mr_doc rec), record_encode rec)};
         kept = set (zip (cr_candidates c) (cr_records c))
     in kept \<subseteq> both \<and> length (cr_candidates c) = length (cr_records c) \<and>
        (version_label (mr_doc l) \<noteq> version_label (mr_doc rec) \<longrightarrow> kept = both))"
proof -
  have e: "engine_store good view h fits means" using assms(1) by (simp add: engine_store_def)
  have pairs: "zip (cr_candidates c) (cr_records c) = conflict_pairs (Some l) rec"
    "length (cr_candidates c) = length (cr_records c)" "cr_status c = Open" "cr_subject c = sk"
    unfolding assms(11) conflict_of_fields by (simp_all add: zip_map_fst_snd)
  have both: "mr_doc l = attach_meta h s sk d" by (simp add: assms(7) local_record_def)
  have again: "export_record h sk (counted s) = (Inr (Some l), counted (counted s))"
    using export_stored [of h "counted s" sk w d] assms(5-7) by (simp add: local_record_def attach_meta_def)
  have c: "conflict_of (en_node_id (counted (counted s))) (en_watermark (counted (counted s))) sk (Some l) rec = c"
    by (simp add: assms(11) counted_def)
  have "does (on_storage (\<lambda>st. put_conflict (ho_backend h) st c)) (counted (counted s)) (\<lambda>_ s'. en_inv good s' \<and>
    (\<forall>k. prefix (ascii ''md/'') k \<longrightarrow> fits k [] \<longrightarrow> doc_blob h s' k = doc_blob h s k) \<and>
    (\<forall>q. q \<noteq> conflict_key (cr_conflict_id c) \<longrightarrow> view (en_storage s') q = view (en_storage s) q) \<and>
    get_conflict (ho_backend h) (en_storage s') (cr_conflict_id c) = Some c)"
    by (rule engine_store.does_put_conflict [OF e _ assms(12,13,14)]) (use assms(2) in simp_all)
  then obtain s' where s': "on_storage (\<lambda>st. put_conflict (ho_backend h) st c) (counted (counted s)) = (Inr (), s')"
    "en_inv good s'" "\<forall>k. prefix (ascii ''md/'') k \<longrightarrow> fits k [] \<longrightarrow> doc_blob h s' k = doc_blob h s k"
    "\<forall>q. q \<noteq> conflict_key (cr_conflict_id c) \<longrightarrow> view (en_storage s') q = view (en_storage s) q"
    "get_conflict (ho_backend h) (en_storage s') (cr_conflict_id c) = Some c" by (auto elim!: doesE)
  have "merge_over h rec sk (attach_meta h s sk d) (counted s) = (Inr Conflict, s')"
    using assms(8-10) s'(1)
    by (simp add: merge_over_def both Let_def record_conflict_def obind_def othen_def oget_def oret_def again c)
  then have "merge_remote h rec s = (Inr Conflict, s')"
    using assms(3) by (simp add: merge_remote_def obind_def get_doc_stored [OF assms(5,6)] flip: assms(4))
  then show ?thesis
    using s' pairs conflict_pairs_set [of l rec] conflict_pairs_both [of l rec] unfolding Let_def
    by (intro exI [of _ s'] conjI) simp_all
qed

section \<open>Resolution\<close>

lemma add_losers:
  "set (fst (fold add_loser vs (ps, gone))) = set ps \<union> set vs \<and>
   set (snd (fold add_loser vs (ps, gone))) = set gone \<union> (set vs - set ps)"
  by (induction vs arbitrary: ps gone) (auto simp: add_loser_def)

lemma losers_set:
  assumes "i < length (cr_candidates c)" "distinct (cr_candidates c)"
  shows "set (losers c i) = set (cr_candidates c) - {cr_candidates c ! i}"
  using assms by (auto simp: losers_def in_set_conv_nth nth_eq_iff_index_eq)

text \<open>The metadata of the winner once it is the current version.\<close>

definition crowned :: "conflict_record \<Rightarrow> nat \<Rightarrow> bytes \<Rightarrow> memory_meta \<Rightarrow> memory_meta" where
  "crowned c i winner_vid m =
     m\<lparr>mm_version_id := winner_vid, mm_parent_ids := fst (fold add_loser (losers c i) (mm_parent_ids m, []))\<rparr>"

definition resolved_by :: "conflict_record \<Rightarrow> bytes \<Rightarrow> conflict_record" where
  "resolved_by c winner_vid = c\<lparr>cr_status := Resolved, cr_resolved_winner := Some winner_vid\<rparr>"

lemma resolved_by_id [simp]: "cr_conflict_id (resolved_by c v) = cr_conflict_id c" "cr_status (resolved_by c v) = Resolved"
  by (simp_all add: resolved_by_def)

lemma resolve_again:
  "get_conflict (ho_backend h) (en_storage s) cid = Some c \<Longrightarrow> cr_status c = Resolved \<Longrightarrow>
   resolve_conflict h cid v s = (Inr \<lparr>ro_already_resolved = True, ro_imported = False, ro_superseded = []\<rparr>, s)"
  by (simp add: resolve_conflict_def obind_def oget_def oret_def)

context engine_store
begin

lemma does_crown:
  assumes ok: "en_inv inv s" and adm: "admissible h s rec" and fit: "import_fits fits h s rec"
    and sk: "sk = storage_key (mr_doc rec)" and m: "m = stored_meta h s sk (imported rec) False" "meta_clean m"
    and m': "meta_clean (crowned c i vid m)" "fits (meta_key sk) (meta_encode (crowned c i vid m))"
  shows "does (crown h c vid i rec) s (\<lambda>gone s'. en_inv inv s' \<and> set gone = set (losers c i) - set (mm_parent_ids m) \<and>
    (\<forall>k. prefix (ascii ''md/'') k \<longrightarrow> fits k [] \<longrightarrow>
      doc_blob h s' k = (if k = sk then Some (doc_encode (mr_doc rec)) else doc_blob h s k)) \<and>
    get_state (ho_backend h) (en_storage s') sk = mr_state rec \<and> meta_at h s' sk = Some (crowned c i vid m))"
    (is "does _ _ ?Q")
  unfolding crown_def sk [symmetric]
proof (rule does_bind, rule does_mono [OF does_import [OF ok adm fit sk]], elim conjE)
  fix n :: u64 and s1 :: "'s engine"
  assume s1: "en_inv inv s1" "get_state (ho_backend h) (en_storage s1) sk = mr_state rec"
    "\<forall>k. prefix (ascii ''md/'') k \<longrightarrow> fits k [] \<longrightarrow>
      doc_blob h s1 k = (if k = sk then Some (doc_encode (mr_doc rec)) else doc_blob h s k)"
    "meta_clean (stored_meta h s sk (imported rec) False) \<longrightarrow> meta_at h s1 sk = Some (stored_meta h s sk (imported rec) False)"
  have rows: "rows_fit fits sk" and md: "prefix (ascii ''md/'') sk"
    using fit by (simp_all add: import_fits_def rows_fit_def sk)
  have i1: "inv (en_storage s1)" using s1(1) by (simp add: en_inv_def)
  have ram: "bt_get (en_ram s1) sk = None"
    using s1(1) adm storage_key_ram [of "mr_doc rec"] by (auto simp: en_inv_def ram_keys_def sk admissible_def)
  have ensure: "ensure_meta h sk s1 = (Inr m, s1)"
    using s1(4) m by (simp add: ensure_meta_def meta_at_def obind_def oget_def oret_def)
  let ?f = "fold add_loser (losers c i) (mm_parent_ids m, [])"
  have new: "m\<lparr>mm_version_id := vid, mm_parent_ids := fst ?f\<rparr> = crowned c i vid m" by (simp add: crowned_def)
  have "does (write_meta h sk (crowned c i vid m)) s1 (\<lambda>_ s2. ?Q (snd ?f) s2)"
  proof (rule does_write_meta_at [OF s1(1) _ md m'(2,1)])
    fix s2 :: "'s engine" assume s2: "en_inv inv s2" "meta_at h s2 sk = Some (crowned c i vid m)"
      "\<And>q. q \<noteq> sk \<Longrightarrow> q \<noteq> meta_key sk \<Longrightarrow> view (en_storage s2) q = view (en_storage s1) q"
      "\<And>q. prefix (ascii ''md/'') q \<Longrightarrow> fits q [] \<Longrightarrow> doc_blob h s2 q = doc_blob h s1 q"
    have i2: "inv (en_storage s2)" using s2(1) by (simp add: en_inv_def)
    have "get_state (ho_backend h) (en_storage s2) sk = get_state (ho_backend h) (en_storage s1) sk"
      using s2(3) [of "state_key sk"] rows_not_md [OF md, of sk] by (simp add: get_state_view [OF i1 rows] get_state_view [OF i2 rows])
    then show "?Q (snd ?f) s2" using s1(2,3) s2(1,2,4) add_losers [of "losers c i" "mm_parent_ids m" "[]"] by simp
  qed (use ram in simp)
  then have "does (othen (write_meta h sk (crowned c i vid m)) (oret (snd ?f))) s1 ?Q"
    by (intro does_then) (auto elim!: does_mono intro!: does_ret)
  then show "does (obind (ensure_meta h sk) (\<lambda>m. case fold add_loser (losers c i) (mm_parent_ids m, []) of (ps, gone) \<Rightarrow>
      othen (write_meta h sk (m\<lparr>mm_version_id := vid, mm_parent_ids := ps\<rparr>)) (oret gone))) s1 ?Q"
    by (simp add: does_def obind_def [of "ensure_meta h sk"] ensure case_prod_unfold new)
qed

end

text \<open>C10: What a resolution does with the winner.  The record chosen is always imported, also where it is the
  one the slot already holds: it becomes the document of its slot and the slot gets the state the record
  was exported with, which need not be \<open>Active\<close>.  The documentation of \<open>resolve_conflict\<close> says otherwise on
  both counts: that only a winner from elsewhere is imported, and that it is \<open>Active\<close> afterwards.  The winner
  is the current version there and every other candidate one of its parents; the call reports those that
  were not parents before; no other document changes; the conflict is resolved, and a second resolution,
  for whatever winner, changes nothing.\<close>

theorem resolution_adopts_the_winners_state:
  assumes "backend_store good view (ho_backend h) fits means" and "en_inv good s"
    and "get_conflict (ho_backend h) (en_storage s) cid = Some c" "cr_status c = Open" "cr_conflict_id c = cid"
    and "position (\<lambda>v. v = vid) (cr_candidates c) = Some i" "distinct (cr_candidates c)" "winner_record c i = Some rec"
    and "admissible h s rec" "import_fits fits h s rec" "sk = storage_key (mr_doc rec)"
    and "m = stored_meta h s sk (imported rec) False" "meta_clean m"
    and "meta_clean (crowned c i vid m)" "fits (meta_key sk) (meta_encode (crowned c i vid m))"
    and "conflict_try_encode (resolved_by c vid) = Inr row" "conflict_strings (resolved_by c vid)" "fits (conflict_key cid) row"
  shows "\<exists>s' (out :: resolve_outcome). resolve_conflict h cid vid s = (Inr out, s') \<and> en_inv good s' \<and> ro_imported out \<and>
    (\<forall>k. prefix (ascii ''md/'') k \<longrightarrow> fits k [] \<longrightarrow>
      doc_blob h s' k = (if k = sk then Some (doc_encode (mr_doc rec)) else doc_blob h s k)) \<and>
    get_state (ho_backend h) (en_storage s') sk = mr_state rec \<and>
    (\<exists>m'. meta_at h s' sk = Some m' \<and> mm_version_id m' = vid \<and>
      set (mm_parent_ids m') = set (mm_parent_ids m) \<union> (set (cr_candidates c) - {vid})) \<and>
    set (ro_superseded out) = set (cr_candidates c) - {vid} - set (mm_parent_ids m) \<and>
    get_conflict (ho_backend h) (en_storage s') cid = Some (resolved_by c vid) \<and>
    (\<forall>v. \<exists>again :: resolve_outcome. resolve_conflict h cid v s' = (Inr again, s') \<and> ro_already_resolved again)"
proof -
  have e: "engine_store good view h fits means" using assms(1) by (simp add: engine_store_def)
  have rows: "rows_fit fits sk" and md: "prefix (ascii ''md/'') sk"
    using assms(10,11) by (simp_all add: import_fits_def rows_fit_def)
  obtain gone s1 where s1: "crown h c vid i rec s = (Inr gone, s1)" "en_inv good s1"
    "set gone = set (losers c i) - set (mm_parent_ids m)"
    "\<forall>k. prefix (ascii ''md/'') k \<longrightarrow> fits k [] \<longrightarrow>
      doc_blob h s1 k = (if k = sk then Some (doc_encode (mr_doc rec)) else doc_blob h s k)"
    "get_state (ho_backend h) (en_storage s1) sk = mr_state rec" "meta_at h s1 sk = Some (crowned c i vid m)"
    using engine_store.does_crown [OF e assms(2,9,10,11,12,13,14,15)] by (auto elim!: doesE)
  have good1: "good (en_storage s1)" using s1(2) by (simp add: en_inv_def)
  have apart: "conflict_key cid \<noteq> state_key sk" "conflict_key cid \<noteq> meta_key sk"
    by (simp_all add: conflict_key_def side_keys ascii_def)
  have "does (on_storage (\<lambda>st. put_conflict (ho_backend h) st (resolved_by c vid))) s1 (\<lambda>_ s'. en_inv good s' \<and>
    get_state (ho_backend h) (en_storage s') sk = mr_state rec \<and> meta_at h s' sk = Some (crowned c i vid m) \<and>
    get_conflict (ho_backend h) (en_storage s') cid = Some (resolved_by c vid) \<and>
    (\<forall>k. prefix (ascii ''md/'') k \<longrightarrow> fits k [] \<longrightarrow> doc_blob h s' k = doc_blob h s1 k))"
  proof (rule engine_store.does_put_conflict [OF e s1(2) assms(16,17)])
    fix s' :: "'a engine" assume s': "en_inv good s'"
      "get_conflict (ho_backend h) (en_storage s') (cr_conflict_id (resolved_by c vid)) = Some (resolved_by c vid)"
      "\<And>q. q \<noteq> conflict_key (cr_conflict_id (resolved_by c vid)) \<Longrightarrow> view (en_storage s') q = view (en_storage s1) q"
      "\<And>q. prefix (ascii ''md/'') q \<Longrightarrow> fits q [] \<Longrightarrow> doc_blob h s' q = doc_blob h s1 q"
    have good': "good (en_storage s')" using s'(1) by (simp add: en_inv_def)
    have "view (en_storage s') (state_key sk) = view (en_storage s1) (state_key sk)"
      "view (en_storage s') (meta_key sk) = view (en_storage s1) (meta_key sk)"
      using s'(3) apart assms(5) by (metis resolved_by_id(1))+
    then show "en_inv good s' \<and>
      get_state (ho_backend h) (en_storage s') sk = mr_state rec \<and> meta_at h s' sk = Some (crowned c i vid m) \<and>
      get_conflict (ho_backend h) (en_storage s') cid = Some (resolved_by c vid) \<and>
      (\<forall>k. prefix (ascii ''md/'') k \<longrightarrow> fits k [] \<longrightarrow> doc_blob h s' k = doc_blob h s1 k)"
      using s' s1(5,6) assms(5) engine_store.meta_at_cong [OF e good1 good' rows]
        engine_store.get_state_view [OF e good1 rows] engine_store.get_state_view [OF e good' rows] by simp
  qed (use assms(5,18) in simp)
  then obtain s' where s': "on_storage (\<lambda>st. put_conflict (ho_backend h) st (resolved_by c vid)) s1 = (Inr (), s')"
    "en_inv good s'" "get_state (ho_backend h) (en_storage s') sk = mr_state rec"
    "meta_at h s' sk = Some (crowned c i vid m)" "get_conflict (ho_backend h) (en_storage s') cid = Some (resolved_by c vid)"
    "\<forall>k. prefix (ascii ''md/'') k \<longrightarrow> fits k [] \<longrightarrow> doc_blob h s' k = doc_blob h s1 k" by (auto elim!: doesE)
  have run: "resolve_conflict h cid vid s = (Inr \<lparr>ro_already_resolved = False, ro_imported = True, ro_superseded = gone\<rparr>, s')"
    using s1(1) s'(1) assms(4) unfolding resolve_conflict_def resolved_by_def
    by (simp add: obind_def othen_def oget_def oret_def assms(3,6,8))
  have los: "set (losers c i) = set (cr_candidates c) - {vid}"
    using losers_set [OF _ assms(7)] position_Some [OF assms(6)] by simp
  have parents: "set (mm_parent_ids (crowned c i vid m)) = set (mm_parent_ids m) \<union> (set (cr_candidates c) - {vid})"
    "mm_version_id (crowned c i vid m) = vid"
    using add_losers [of "losers c i" "mm_parent_ids m" "[]"] los by (simp_all add: crowned_def)
  show ?thesis
    using run s' s1(3,4) los parents resolve_again [OF s'(5)]
    by (intro exI [of _ s'] exI [of _ "\<lparr>ro_already_resolved = False, ro_imported = True, ro_superseded = gone\<rparr>"] conjI) auto
qed


section \<open>Witnesses\<close>

definition foreign_record :: memory_record where
  "foreign_record = \<lparr>mr_doc = (doc_new L2EpisodicShort (ascii ''a'') [7])\<lparr>md_clock := vc_tick vc_new 2\<rparr>,
     mr_state = Active, mr_validity = None\<rparr>"

lemma foreign_key: "storage_key (mr_doc foreign_record) = ascii ''md/L2/a''"
  by (simp add: foreign_record_def storage_key_def doc_new_def ascii_def)

lemma foreign_ok:
  "accepts_remote (for_layer (md_layer (mr_doc foreign_record)))"
  "en_art s = art_new \<Longrightarrow> admissible h s foreign_record" "import_fits (\<lambda>_ _. True) h s foreign_record"
proof -
  have clock: "length (vc_nodes (vc_tick vc_new 2)) = 8" "length (vc_counts (vc_tick vc_new 2)) = 8" by code_simp+
  show "accepts_remote (for_layer (md_layer (mr_doc foreign_record)))"
    by (simp add: foreign_record_def doc_new_def accepts_remote_def)
  show "admissible h s foreign_record" if "en_art s = art_new"
    using that
    by (simp add: admissible_def foreign_key has_prefix_conflict_def art_new_def is_ram_layer_def)
      (simp add: foreign_record_def doc_new_def doc_key_problem_def key_problem_def ascii_def doc_fits_def utf8_valid.simps(2) clock)
  show "import_fits (\<lambda>_ _. True) h s foreign_record"
    by (simp add: import_fits_def write_fits_def Let_def rows_fit_def foreign_key ascii_def)
qed

theorem refused_merge_changes_nothing_witness:
  "\<exists>s' :: in_memory engine. merge_remote (ram_host (\<lambda>_. False) False) (foreign_record\<lparr>mr_doc := doc_new L0Sensory [1] []\<rparr>) empty_engine =
     (Inr Rejected, s') \<and> (s' = empty_engine \<or> s' = counted empty_engine)"
proof -
  have run: "merge_remote (ram_host (\<lambda>_. False) False) (foreign_record\<lparr>mr_doc := doc_new L0Sensory [1] []\<rparr>) empty_engine =
      (Inr Rejected, empty_engine)"
    by (simp add: merge_remote_def doc_new_def accepts_remote_def oret_def)
  show ?thesis using refused_merge_changes_nothing [OF run] run by simp
qed

theorem newer_record_is_adopted_witness:
  "\<exists>s'. merge_remote (ram_host (\<lambda>_. False) False) foreign_record empty_engine = (Inr Applied, s') \<and>
     doc_blob (ram_host (\<lambda>_. False) False) s' (ascii ''md/L2/a'') = Some (doc_encode (mr_doc foreign_record))"
proof -
  let ?h = "ram_host (\<lambda>_. False) False"
  have blob: "doc_blob ?h empty_engine (ascii ''md/L2/a'') = None"
    by (simp add: empty_engine_def engine_new_def doc_blob_def sto_get_def ram_host_def ram_backend_def in_memory_get_def in_memory_new_def)
  have art: "en_art empty_engine = art_new" by (simp add: empty_engine_def engine_new_def)
  from newer_record_is_adopted [OF ram_host_store [of "\<lambda>_. False" False] empty_engine_inv foreign_ok(1)
      foreign_ok(2) [OF art] foreign_ok(3) foreign_key [symmetric]] blob
  show ?thesis by (auto simp: ascii_def)
qed

lemma conflict_id_plain: "length (fst (generate_conflict_id sk cs)) = 32 \<and> utf8_valid (fst (generate_conflict_id sk cs))"
  by (auto simp: generate_conflict_id_def Let_def case_prod_unfold length_concat_const [where w = 2] hex_byte_def
      intro!: utf8_valid_append utf8_valid_concat utf8_valid_ascii hex_digit_ascii hex_byte_nibbles)

lemma push_strs_ok: "\<forall>s \<in> set ss. length s \<le> 65535 \<Longrightarrow> \<exists>w. push_strs ss = Inr w"
  by (induction ss) (auto simp: push_str_def)

definition plain :: "bytes \<Rightarrow> bool" where
  "plain s \<longleftrightarrow> length s \<le> 65535 \<and> utf8_valid s"

lemma conflict_of_encodes:
  assumes "plain sk" "plain (version_label (mr_doc l))" "plain (version_label (mr_doc rec))"
    and "length (record_encode l) \<le> 4294967295" "length (record_encode rec) \<le> 4294967295"
  shows "\<exists>row. conflict_try_encode (conflict_of node t sk (Some l) rec) = Inr row"
    "conflict_strings (conflict_of node t sk (Some l) rec)"
proof -
  let ?c = "conflict_of node t sk (Some l) rec" and ?p = "conflict_pairs (Some l) rec"
  have p: "\<forall>x \<in> set ?p. plain (fst x) \<and> length (snd x) \<le> 4294967295"
    using conflict_pairs_set [of l rec] assms by auto
  have "length (dedup_versions xs) \<le> length xs" for xs by (induction xs rule: dedup_versions.induct) auto
  from this [of "sort_key fst [(version_label (mr_doc l), record_encode l), (version_label (mr_doc rec), record_encode rec)]"]
  have len: "length ?p \<le> 2" by (simp add: conflict_pairs_def)
  have id: "plain (cr_conflict_id ?c)"
    using conflict_id_plain by (simp add: conflict_of_def Let_def case_prod_unfold plain_def)
  have nodes: "length (cr_nodes ?c) \<le> 2" by (simp add: conflict_of_def Let_def case_prod_unfold conflict_nodes_def)
  have none: "cr_resolved_winner ?c = None" by (simp add: conflict_of_def Let_def case_prod_unfold)
  obtain ws where "push_strs (cr_candidates ?c) = Inr ws"
    using push_strs_ok [of "cr_candidates ?c"] p by (auto simp: conflict_of_fields plain_def)
  then show "\<exists>row. conflict_try_encode ?c = Inr row"
    using id nodes len p assms(1) none
    by (auto simp: conflict_try_encode_def conflict_of_fields push_str_def plain_def list_ex_iff)
  show "conflict_strings ?c"
    using id p assms(1) none by (auto simp: conflict_strings_def conflict_of_fields plain_def list_all_iff)
qed

definition local_pair :: memory_record where
  "local_pair = \<lparr>mr_doc = (doc_new L2EpisodicShort (ascii ''a'') [])
     \<lparr>md_clock := vc_merge vc_new (set_counter vc_new 9 4), md_meta := Some pair_meta\<rparr>, mr_state = Active, mr_validity = None\<rparr>"

lemma local_pair: "local_record (ram_host (\<lambda>_. False) False) pair_engine (ascii ''md/L2/a'')
    (doc_new L2EpisodicShort (ascii ''a'') []) = local_pair"
proof -
  let ?k = "ascii ''md/L2/a''" and ?st = "en_storage pair_engine"
  have rows: "in_memory_get ?st (state_key ?k) = None" "in_memory_get ?st (validity_key ?k) = None"
    by (simp_all add: pair_engine_def engine_new_def in_memory_get_def side_keys ascii_def)
  have "attach_meta (ram_host (\<lambda>_. False) False) pair_engine ?k (doc_new L2EpisodicShort (ascii ''a'') []) = mr_doc local_pair"
    using pair_engine_ok(3) by (simp add: attach_meta_def meta_at_def local_pair_def)
      (simp add: pair_meta_def sample_meta_def meta_upgrade_def doc_new_def)
  then show ?thesis
    using rows by (simp add: local_record_def local_pair_def get_state_def validity_window_def ram_host_def ram_backend_def)
qed

theorem concurrent_merge_keeps_both_witness:
  "\<exists>s' cid c. merge_remote (ram_host (\<lambda>_. False) False) foreign_record pair_engine = (Inr Conflict, s') \<and>
     get_conflict (ho_backend (ram_host (\<lambda>_. False) False)) (en_storage s') cid = Some c \<and> cr_status c = Open \<and>
     doc_blob (ram_host (\<lambda>_. False) False) s' (ascii ''md/L2/a'') =
       doc_blob (ram_host (\<lambda>_. False) False) pair_engine (ascii ''md/L2/a'')"
proof -
  let ?h = "ram_host (\<lambda>_. False) False" and ?k = "ascii ''md/L2/a''"
  let ?d = "doc_new L2EpisodicShort (ascii ''a'') []"
  let ?c = "conflict_of (en_node_id pair_engine) (en_watermark pair_engine) ?k (Some local_pair) foreign_record"
  have dec: "doc_decode (doc_encode ?d) = Inr ?d" using pair_doc [of "of_char CHR ''a''"] by (simp add: ascii_def)
  have clock_sizes: "length (vc_encode (vc_tick vc_new 2)) = 72"
    "length (vc_encode (vc_merge vc_new (set_counter vc_new 9 4))) = 72" by code_simp+
  have apart: "vc_concurrent (vc_tick vc_new 2) (vc_merge vc_new (set_counter vc_new 9 4))" by code_simp
  have clocks: "\<not> same_content (mr_doc foreign_record) (mr_doc local_pair)"
    "\<not> happens_before (md_clock (mr_doc foreign_record)) (md_clock (mr_doc local_pair))"
    "\<not> happens_before (md_clock (mr_doc local_pair)) (md_clock (mr_doc foreign_record))"
    using apart by (simp_all add: vc_concurrent_def same_content_def foreign_record_def local_pair_def doc_new_def)
  have "plain ?k" "plain (version_label (mr_doc local_pair))" "plain (version_label (mr_doc foreign_record))"
    by (simp_all add: plain_def version_label_def local_pair_def foreign_record_def doc_new_def pair_meta_def meta_upgrade_def
      sample_meta_def ascii_def utf8_valid.simps)
  moreover have "length (record_encode local_pair) \<le> 4294967295" "length (record_encode foreign_record) \<le> 4294967295"
    by (simp_all add: record_encode_def enc_meta_def enc_validity_def doc_encode_def local_pair_def foreign_record_def doc_new_def
      enc_str_def enc_bitvec_def meta_encode_def META_MAGIC_def meta_body_v1_def meta_body_v8_def enc_content_type_def enc_dims_def
      pair_meta_def meta_upgrade_def sample_meta_def enc_over_def legacy_dims_def dims_new_def ascii_def clock_sizes)
  ultimately obtain row where row: "conflict_try_encode ?c = Inr row" "conflict_strings ?c"
    using conflict_of_encodes [of ?k local_pair foreign_record] by blast
  from concurrent_merge_keeps_both [OF ram_host_store [of "\<lambda>_. False" False] pair_engine_ok(1) foreign_ok(1) foreign_key [symmetric]
      pair_engine_ok(5) dec local_pair [symmetric] clocks refl row]
  show ?thesis by (fastforce simp: ascii_def)
qed

text \<open>A winner whose memory was already decayed where it comes from.\<close>

definition decayed_record :: memory_record where
  "decayed_record = foreign_record\<lparr>mr_state := Decayed\<rparr>"

lemma decayed_doc: "mr_doc decayed_record = mr_doc foreign_record"
  by (simp add: decayed_record_def)

lemma decayed_key: "storage_key (mr_doc decayed_record) = ascii ''md/L2/a''"
  by (simp add: decayed_doc foreign_key)

lemma decayed_ok:
  "en_art s = art_new \<Longrightarrow> admissible h s decayed_record" "import_fits (\<lambda>_ _. True) h s decayed_record"
proof -
  have "imported decayed_record = imported foreign_record" by (simp add: imported_def decayed_doc)
  then show "en_art s = art_new \<Longrightarrow> admissible h s decayed_record" "import_fits (\<lambda>_ _. True) h s decayed_record"
    using foreign_ok(2,3) [where s = s and h = h] by (simp_all add: admissible_def import_fits_def decayed_doc)
qed

definition duel :: conflict_record where
  "duel = \<lparr>cr_conflict_id = ascii ''c1'', cr_subject = ascii ''md/L2/a'', cr_candidates = [ascii ''v1'', ascii ''v2''],
     cr_nodes = [1, 2], cr_created_tick = 1, cr_status = Open, cr_resolved_winner = None,
     cr_records = [record_encode decayed_record, []]\<rparr>"

definition duel_engine :: "in_memory engine" where
  "duel_engine = empty_engine\<lparr>en_storage :=
     \<lparr>im_map = [(conflict_key (ascii ''c1''), case conflict_try_encode duel of Inr w \<Rightarrow> w | Inl _ \<Rightarrow> [])]\<rparr>\<rparr>"

lemma decayed_length: "length (record_encode decayed_record) \<le> 4294967295"
proof -
  have "length (vc_encode (vc_tick vc_new 2)) = 72" by code_simp
  then show ?thesis
    by (simp add: record_encode_def enc_meta_def enc_validity_def doc_encode_def decayed_record_def foreign_record_def doc_new_def
      enc_str_def enc_bitvec_def ascii_def)
qed

lemma duel_encodes: "\<exists>w. conflict_try_encode (duel\<lparr>cr_status := st, cr_resolved_winner := x\<rparr>) = Inr w"
    "conflict_strings (duel\<lparr>cr_status := st, cr_resolved_winner := x\<rparr>)" if "x = None \<or> x = Some (ascii ''v1'')"
  using that decayed_length
  by (auto simp: conflict_try_encode_def duel_def push_str_def ascii_def conflict_strings_def utf8_valid.simps)

lemma duel_stored: "get_conflict (ho_backend (ram_host (\<lambda>_. False) False)) (en_storage duel_engine) (ascii ''c1'') = Some duel"
proof -
  have same: "duel\<lparr>cr_status := Open, cr_resolved_winner := None\<rparr> = duel" by (simp add: duel_def)
  obtain w where w: "conflict_try_encode duel = Inr w" using duel_encodes(1) [of None Open] unfolding same by auto
  have "conflict_strings duel" using duel_encodes(2) [of None Open] unfolding same by simp
  from conflict_decode_encode [OF w this] show ?thesis
    by (simp add: get_conflict_def duel_engine_def ram_host_def ram_backend_def in_memory_get_def w)
qed

lemma duel_winner: "winner_record duel 0 = Some decayed_record"
proof -
  have "length (vc_nodes (vc_tick vc_new 2)) = 8" "length (vc_counts (vc_tick vc_new 2)) = 8" "vc_overflow (vc_tick vc_new 2) = []"
    by code_simp+
  then have "record_fits decayed_record" "mdr1_part decayed_record = decayed_record"
    by (simp_all add: record_fits_def mdr1_part_def nmd1_part_def decayed_record_def foreign_record_def doc_new_def doc_fits_def ascii_def utf8_valid.simps)
  then show ?thesis using record_decode_encode [of decayed_record] by (simp add: winner_record_def duel_def)
qed

lemma decayed_meta:
  "stored_meta (ram_host (\<lambda>_. False) False) duel_engine (ascii ''md/L2/a'') (imported decayed_record) False =
     meta_for_import (mr_doc decayed_record)"
  "meta_clean (meta_for_import (mr_doc decayed_record))"
  "meta_clean (crowned duel 0 (ascii ''v1'') (meta_for_import (mr_doc decayed_record)))"
proof -
  have over: "vc_overflow (vc_tick vc_new 2) = []" by code_simp
  have none: "read_meta (ho_backend (ram_host (\<lambda>_. False) False)) (en_storage duel_engine) (ascii ''md/L2/a'') = None"
    by (simp add: read_meta_def duel_engine_def ram_host_def ram_backend_def in_memory_get_def conflict_key_def side_keys ascii_def)
  show "stored_meta (ram_host (\<lambda>_. False) False) duel_engine (ascii ''md/L2/a'') (imported decayed_record) False =
      meta_for_import (mr_doc decayed_record)"
    unfolding stored_meta_def none
    by (simp add: next_meta_def imported_def Let_def)
      (simp add: decayed_record_def foreign_record_def doc_new_def meta_for_import_def Let_def case_prod_unfold over)
  obtain a t where m: "meta_for_import (mr_doc decayed_record) =
      first_meta a t L2EpisodicShort (generate_memory_id a t L2EpisodicShort (ascii ''a''))"
    by (simp add: decayed_record_def foreign_record_def doc_new_def meta_for_import_def Let_def case_prod_unfold over first_meta_def)
  show "meta_clean (meta_for_import (mr_doc decayed_record))"
    "meta_clean (crowned duel 0 (ascii ''v1'') (meta_for_import (mr_doc decayed_record)))"
    unfolding m using memory_id_shape [of a t L2EpisodicShort "ascii ''a''"]
    by (simp_all add: meta_clean_def meta_fits_def first_meta_def wire_str_def dims_new_def dims_is_global_def
      crowned_def losers_def duel_def add_loser_def ascii_def utf8_valid.simps upt_rec)
qed

theorem resolution_adopts_the_winners_state_witness:
  "\<exists>s' (out :: resolve_outcome) m.
     resolve_conflict (ram_host (\<lambda>_. False) False) (ascii ''c1'') (ascii ''v1'') duel_engine = (Inr out, s') \<and>
     get_state ram_backend (en_storage s') (ascii ''md/L2/a'') = Decayed \<and> set (ro_superseded out) = {ascii ''v2''} \<and>
     meta_at (ram_host (\<lambda>_. False) False) s' (ascii ''md/L2/a'') = Some m \<and> mm_version_id m = ascii ''v1'' \<and>
     ascii ''v2'' \<in> set (mm_parent_ids m)"
proof -
  let ?h = "ram_host (\<lambda>_. False) False"
  have ok: "en_inv (\<lambda>s. bt_wf (im_map s)) duel_engine"
    using empty_engine_inv by (simp add: duel_engine_def en_inv_def bt_wf_def)
  have duel: "cr_status duel = Open" "cr_conflict_id duel = ascii ''c1''"
    "position (\<lambda>v. v = ascii ''v1'') (cr_candidates duel) = Some 0" "distinct (cr_candidates duel)"
    by (simp_all add: duel_def ascii_def)
  have art: "en_art duel_engine = art_new" by (simp add: duel_engine_def empty_engine_def engine_new_def)
  obtain w where row: "conflict_try_encode (resolved_by duel (ascii ''v1'')) = Inr w" "conflict_strings (resolved_by duel (ascii ''v1''))"
    using duel_encodes [of "Some (ascii ''v1'')" Resolved] unfolding resolved_by_def by auto
  have parents: "mm_parent_ids (meta_for_import (mr_doc decayed_record)) = []"
    by (simp add: meta_for_import_def decayed_record_def foreign_record_def doc_new_def first_meta_def case_prod_unfold Let_def)
  have cands: "set (cr_candidates duel) - {ascii ''v1''} = {ascii ''v2''}" by (auto simp: duel_def ascii_def)
  note won = resolution_adopts_the_winners_state [OF ram_host_store [of "\<lambda>_. False" False] ok duel_stored duel duel_winner
      decayed_ok(1) [OF art] decayed_ok(2) decayed_key [symmetric] decayed_meta(1) [symmetric] decayed_meta(2,3) TrueI row TrueI,
      unfolded cands parents]
  then obtain s' m and out :: resolve_outcome where "resolve_conflict ?h (ascii ''c1'') (ascii ''v1'') duel_engine = (Inr out, s')"
    "get_state (ho_backend ?h) (en_storage s') (ascii ''md/L2/a'') = mr_state decayed_record"
    "set (ro_superseded out) = {ascii ''v2''} - set []" "meta_at ?h s' (ascii ''md/L2/a'') = Some m"
    "mm_version_id m = ascii ''v1''" "set (mm_parent_ids m) = set [] \<union> {ascii ''v2''}" by (elim exE conjE)
  note got = this
  have "ascii ''v2'' \<in> set (mm_parent_ids m)" unfolding got(6) by blast
  moreover have "set (ro_superseded out) = {ascii ''v2''}" unfolding got(3) by simp
  moreover have "get_state ram_backend (en_storage s') (ascii ''md/L2/a'') = Decayed"
    using got(2) by (simp add: ram_host_def decayed_record_def)
  ultimately show ?thesis using got(1,4,5) by blast
qed

end
