(* ===== verification/Facade_Sweeps.thy ===== *)
theory Facade_Sweeps
  imports Facade_Purge
begin

text \<open>
  Time in the facade (\<open>src/src/sgdb.rs\<close>, \<open>src/src/staleness.rs\<close>): windows of validity, expiry, events
  and their timeline, the report of stale memories, the collection of garbage.  A sweep reads the rows
  of a side-table once and then works through them.
\<close>

section \<open>Validity, expiry, events of one memory\<close>

definition set_validity_of :: "'s host \<Rightarrow> bytes \<Rightarrow> u64 \<Rightarrow> u64 \<Rightarrow> ('s, unit) op" where
  "set_validity_of h key from until = with_key h key (\<lambda>sk. set_validity h sk from until)"

definition validity_at_of :: "'s host \<Rightarrow> bytes \<Rightarrow> u64 \<Rightarrow> ('s, bool) op" where
  "validity_at_of h key now = with_key h key (\<lambda>sk. oget (\<lambda>s. validity_at (ho_backend h) (en_storage s) sk now))"

definition invalidate_memory :: "'s host \<Rightarrow> bytes \<Rightarrow> u64 \<Rightarrow> ('s, unit) op" where
  "invalidate_memory h key now = with_key h key (\<lambda>sk. invalidate h sk now)"

definition validity_window_of :: "'s host \<Rightarrow> bytes \<Rightarrow> ('s, (u64 \<times> u64) option) op" where
  "validity_window_of h key = with_key h key (\<lambda>sk. oget (\<lambda>s. validity_window (ho_backend h) (en_storage s) sk))"

definition created_tick_of :: "'s host \<Rightarrow> bytes \<Rightarrow> ('s, u64 option) op" where
  "created_tick_of h = meta_field h mm_created_tick"

definition set_ttl_of :: "'s host \<Rightarrow> bytes \<Rightarrow> u64 \<Rightarrow> ('s, unit) op" where
  "set_ttl_of h key expires_at = with_key h key (\<lambda>sk.
     othen (must_exist h sk NO_MEMORY) (on_storage (\<lambda>st. set_ttl (ho_backend h) st sk expires_at)))"

definition ttl_of_key :: "'s host \<Rightarrow> bytes \<Rightarrow> ('s, u64 option) op" where
  "ttl_of_key h key = with_key h key (\<lambda>sk. oget (\<lambda>s. ttl_of (ho_backend h) (en_storage s) sk))"

definition set_event_of :: "'s host \<Rightarrow> bytes \<Rightarrow> bytes \<Rightarrow> u64 \<Rightarrow> ('s, unit) op" where
  "set_event_of h key stk event_end = with_key h key (\<lambda>sk.
     othen (must_exist h sk NO_MEMORY)
     (othen (unless_written stk)
     (on_storage (\<lambda>st. set_event (ho_backend h) st sk stk event_end))))"

definition event_of_key :: "'s host \<Rightarrow> bytes \<Rightarrow> ('s, (bytes \<times> u64) option) op" where
  "event_of_key h key = with_key h key (\<lambda>sk. oget (\<lambda>s. event_of (ho_backend h) (en_storage s) sk))"

definition close_event :: "'s host \<Rightarrow> bytes \<Rightarrow> u64 \<Rightarrow> ('s, unit) op" where
  "close_event h key now = with_key h key (\<lambda>sk. obind (oget (\<lambda>s. event_of (ho_backend h) (en_storage s) sk)) (\<lambda>e.
     case e of
       None \<Rightarrow> ofail (SE_Invalid ''no event on key (set_event first)'')
     | Some (stk, _) \<Rightarrow> on_storage (\<lambda>st. set_event (ho_backend h) st sk stk now)))"

section \<open>Sweeps\<close>

text \<open>Closed windows: the memory becomes invalidated, unless it is already out of use.\<close>

definition expire_row :: "'s host \<Rightarrow> u64 \<Rightarrow> bytes \<times> bytes \<Rightarrow> nat \<Rightarrow> ('s, nat) op" where
  "expire_row h now = (\<lambda>(vk, w) n.
     if length w \<noteq> 16 then oret n
     else if of_nat (le_val (drop 8 w)) > now then oret n
     else let sk = utf8_lossy (drop 13 vk) in
       obind (get_by_storage_key h sk) (\<lambda>d.
       if d = None then oret n
       else obind (oget (\<lambda>s. get_state (ho_backend h) (en_storage s) sk)) (\<lambda>st.
         if st = Invalidated \<or> st = Archived \<or> st = Decayed then oret n
         else othen (set_state h sk Invalidated) (oret (n + 1)))))"

definition expire_old :: "'s host \<Rightarrow> u64 \<Rightarrow> ('s, nat) op" where
  "expire_old h now = obind (scan_rows h ''sys/validity/'') (\<lambda>rows. ofold (expire_row h now) rows 0)"

text \<open>Expired memories are deleted; of a row without a document only the row goes, errors ignored.\<close>

definition try_del :: "'s host \<Rightarrow> bytes \<Rightarrow> ('s, unit) op" where
  "try_del h k s = (case sto_del h k s of (_, s') \<Rightarrow> (Inr (), s'))"

definition ttl_row :: "'s host \<Rightarrow> u64 \<Rightarrow> bytes \<times> bytes \<Rightarrow> nat \<Rightarrow> ('s, nat) op" where
  "ttl_row h now = (\<lambda>(tk, w) n.
     if length w \<noteq> 8 then oret n
     else let e = of_nat (le_val w) :: u64 in
       if e = 0 \<or> e > now then oret n
       else let sk = utf8_lossy (drop 8 tk) in
         obind (delete_memory h sk) (\<lambda>gone.
         if gone then oret (n + 1) else othen (try_del h (ttl_key sk)) (oret n)))"

definition expire_ttl :: "'s host \<Rightarrow> u64 \<Rightarrow> ('s, nat) op" where
  "expire_ttl h now = obind (scan_rows h ''sys/ttl/'') (\<lambda>rows. ofold (ttl_row h now) rows 0)"

record gc_config =
  gc_collect_decayed :: bool
  gc_collect_archived :: bool
  gc_min_age_ticks :: u64
  gc_max_per_pass :: nat

definition gc_default :: gc_config where
  "gc_default = \<lparr>gc_collect_decayed = False, gc_collect_archived = False, gc_min_age_ticks = 2592000000,
     gc_max_per_pass = 64\<rparr>"

record gc_report =
  gr_invalidated :: nat
  gr_ttl_collected :: nat
  gr_state_collected :: nat

definition gc_takes :: "gc_config \<Rightarrow> memory_state \<Rightarrow> bool" where
  "gc_takes cfg st = (case st of Decayed \<Rightarrow> gc_collect_decayed cfg | Archived \<Rightarrow> gc_collect_archived cfg | _ \<Rightarrow> False)"

definition old_enough :: "u64 \<Rightarrow> gc_config \<Rightarrow> memory_meta option \<Rightarrow> bool" where
  "old_enough now cfg m = (case m of Some m \<Rightarrow> saturating_sub now (mm_created_tick m) \<ge> gc_min_age_ticks cfg | None \<Rightarrow> False)"

text \<open>The walk that picks the victims; the limit is looked at after a row of a memory to be taken.\<close>

fun gc_victims :: "'s host \<Rightarrow> 's engine \<Rightarrow> u64 \<Rightarrow> gc_config \<Rightarrow> (bytes \<times> bytes) list \<Rightarrow> bytes list \<Rightarrow> bytes list" where
  "gc_victims h s now cfg [] vs = vs"
| "gc_victims h s now cfg ((mk, _) # rows) vs =
     (case strip_prefix META_PREFIX mk of
        None \<Rightarrow> gc_victims h s now cfg rows vs
      | Some k \<Rightarrow>
          let sk = utf8_lossy k in
          if \<not> prefix (ascii ''md/'') sk \<or> \<not> gc_takes cfg (get_state (ho_backend h) (en_storage s) sk)
          then gc_victims h s now cfg rows vs
          else let vs' = (if old_enough now cfg (meta_at h s sk) then vs @ [sk] else vs) in
            if length vs' \<ge> gc_max_per_pass cfg then vs' else gc_victims h s now cfg rows vs')"

definition gc_delete :: "'s host \<Rightarrow> bytes \<Rightarrow> nat \<Rightarrow> ('s, nat) op" where
  "gc_delete h sk n = obind (delete_memory h sk) (\<lambda>gone. oret (if gone then n + 1 else n))"

definition collect_garbage :: "'s host \<Rightarrow> u64 \<Rightarrow> gc_config \<Rightarrow> ('s, gc_report) op" where
  "collect_garbage h now cfg =
     obind (expire_old h now) (\<lambda>inv.
     obind (expire_ttl h now) (\<lambda>ttl.
     obind (if gc_collect_decayed cfg \<or> gc_collect_archived cfg
            then obind (scan_rows h ''sys/meta/'') (\<lambda>rows. obind (oget (\<lambda>s. gc_victims h s now cfg rows [])) (\<lambda>vs.
              ofold (gc_delete h) vs 0))
            else oret 0) (\<lambda>n.
     oret \<lparr>gr_invalidated = inv, gr_ttl_collected = ttl, gr_state_collected = n\<rparr>)))"

section \<open>Timeline\<close>

definition timeline_row :: "'s host \<Rightarrow> bytes \<Rightarrow> bytes \<times> bytes \<Rightarrow> (u64 \<times> bytes \<times> (u64 \<times> u64) option) list \<Rightarrow>
    ('s, (u64 \<times> bytes \<times> (u64 \<times> u64) option) list) op" where
  "timeline_row h stk = (\<lambda>(ek, w) out.
     let slen = le_val (take 2 w); label = take slen (drop 2 w) in
     if length w < 10 \<or> length w \<noteq> 2 + slen + 8 \<or> \<not> utf8_valid label \<or> label \<noteq> stk then oret out
     else let sk = utf8_lossy (drop 10 ek) in
       obind (get_by_storage_key h sk) (\<lambda>d.
       if d = None then oret out
       else oget (\<lambda>s. let win = validity_window (ho_backend h) (en_storage s) sk in
         out @ [(case win of Some (f, _) \<Rightarrow> f | None \<Rightarrow> 0, sk, win)])))"

definition recall_timeline :: "'s host \<Rightarrow> bytes \<Rightarrow> nat \<Rightarrow> ('s, (bytes \<times> (u64 \<times> u64) option) list) op" where
  "recall_timeline h stk limit = obind (scan_rows h ''sys/event/'') (\<lambda>rows.
     obind (ofold (timeline_row h stk) rows []) (\<lambda>out.
     oret (map (\<lambda>(_, sk, win). (sk, win)) (take (max limit 1) (sort_key (\<lambda>(f, sk, _). (f, sk)) out)))))"

section \<open>Staleness\<close>

datatype staleness_level = Fresh | Aging | Stale_level | Expired

fun level_rank :: "staleness_level \<Rightarrow> nat" where
  "level_rank Fresh = 0"
| "level_rank Aging = 1"
| "level_rank Stale_level = 2"
| "level_rank Expired = 3"

fun level_as_str :: "staleness_level \<Rightarrow> bytes" where
  "level_as_str Fresh = ascii ''fresh''"
| "level_as_str Aging = ascii ''aging''"
| "level_as_str Stale_level = ascii ''stale''"
| "level_as_str Expired = ascii ''expired''"

datatype staleness_reason = Ttl_expired | Is_decayed | Is_invalidated | Contradiction | Is_aging

fun reason_as_str :: "staleness_reason \<Rightarrow> bytes" where
  "reason_as_str Ttl_expired = ascii ''ttl_expired''"
| "reason_as_str Is_decayed = ascii ''decayed''"
| "reason_as_str Is_invalidated = ascii ''invalidated''"
| "reason_as_str Contradiction = ascii ''contradiction''"
| "reason_as_str Is_aging = ascii ''aging''"

fun recommendation_for :: "staleness_level \<Rightarrow> string" where
  "recommendation_for Fresh = ''keep''"
| "recommendation_for Aging = ''monitor_or_reinforce''"
| "recommendation_for Stale_level = ''review_supersede_or_forget''"
| "recommendation_for Expired = ''expire_ttl_or_delete''"

definition AGING_AFTER :: u64 where
  "AGING_AFTER = 604800000"

record staleness_hit =
  sh_key :: bytes
  sh_level :: staleness_level
  sh_reasons :: "staleness_reason list"
  sh_age :: u64
  sh_expires_at :: "u64 option"

text \<open>The level and the reasons of one memory, in the order the code finds them.\<close>

definition last_use :: "memory_meta option \<Rightarrow> u64" where
  "last_use m = (case m of
     Some m \<Rightarrow> if mm_last_reinforced m \<noteq> 0 then mm_last_reinforced m else mm_created_tick m | None \<Rightarrow> 0)"

definition raise_to_stale :: "staleness_level \<Rightarrow> staleness_level" where
  "raise_to_stale l = (if level_rank l < 2 then Stale_level else l)"

definition wall_vs_tick :: "u64 \<Rightarrow> u64 \<Rightarrow> bool" where
  "wall_vs_tick now t \<longleftrightarrow> now > 1000000000000 \<and> t < 1000000000"

definition classify :: "u64 \<Rightarrow> u64 \<Rightarrow> u64 option \<Rightarrow> memory_state \<Rightarrow> bool \<Rightarrow> u64 \<Rightarrow>
    staleness_level \<times> staleness_reason list" where
  "classify aging_after now ttl st contradicted t =
     (let (level, rs) = (case ttl of Some e \<Rightarrow> if e \<noteq> 0 \<and> e \<le> now then (Expired, [Ttl_expired]) else (Fresh, [])
                       | None \<Rightarrow> (Fresh, []));
          (level, rs) = (case st of Decayed \<Rightarrow> (raise_to_stale level, rs @ [Is_decayed])
                       | Invalidated \<Rightarrow> (raise_to_stale level, rs @ [Is_invalidated])
                       | _ \<Rightarrow> (level, rs));
          (level, rs) = (if contradicted then (raise_to_stale level, rs @ [Contradiction]) else (level, rs))
      in if level = Fresh \<and> aging_after > 0 \<and> saturating_sub now t > aging_after \<and> \<not> wall_vs_tick now t
         then (Aging, rs @ [Is_aging]) else (level, rs))"

definition staleness_row :: "'s host \<Rightarrow> u64 \<Rightarrow> bytes option \<Rightarrow> u64 \<Rightarrow> bytes \<times> bytes \<Rightarrow> staleness_hit list \<Rightarrow>
    ('s, staleness_hit list) op" where
  "staleness_row h now scope aging_after = (\<lambda>(k, _) out.
     let sk = utf8_lossy k in
     if \<not> key_is_fact sk then oret out
     else obind (get_by_storage_key h sk) (\<lambda>d.
       if d = None then oret out
       else oget (\<lambda>s.
         let b = ho_backend h; st = en_storage s; ttl = ttl_of b st sk; t = last_use (meta_at h s sk);
             (level, rs) = classify aging_after now ttl (get_state b st sk) (relations_outgoing s Contradicts sk \<noteq> []) t
         in if (case scope of Some want \<Rightarrow> effective_scope b st sk \<noteq> want | None \<Rightarrow> False) \<or> level = Fresh then out
            else out @ [\<lparr>sh_key = sk, sh_level = level, sh_reasons = rs, sh_age = saturating_sub now t,
                          sh_expires_at = (case ttl of Some e \<Rightarrow> if e \<noteq> 0 then Some e else None | None \<Rightarrow> None)\<rparr>])))"

definition staleness_report :: "'s host \<Rightarrow> u64 \<Rightarrow> nat \<Rightarrow> bytes option \<Rightarrow> u64 \<Rightarrow> ('s, staleness_hit list) op" where
  "staleness_report h now limit scope aging_after = obind (scan_rows h ''md/'') (\<lambda>rows.
     obind (ofold (staleness_row h now scope aging_after) rows []) (\<lambda>out.
     let ranked = sort_key (\<lambda>x. (3 - level_rank (sh_level x), sh_key x)) out
     in oret (if limit > 0 \<and> length ranked > limit then take limit ranked else ranked)))"

end
