(* ===== verification/Sweep_Laws.thy ===== *)
theory Sweep_Laws
  imports Facade_Sweeps
begin

text \<open>
  What the sweeps guarantee: closed windows take memories out of use and nothing else, the report of
  stale memories gives the most severe reason.
\<close>

section \<open>Closed windows\<close>

definition out_of_use :: "memory_state \<Rightarrow> bool" where
  "out_of_use st \<longleftrightarrow> st = Invalidated \<or> st = Archived \<or> st = Decayed"

definition due :: "u64 \<Rightarrow> (bytes \<times> bytes) list \<Rightarrow> bytes set" where
  "due now rows = {sk. \<exists>(vk, w) \<in> set rows. sk = utf8_lossy (drop 13 vk) \<and> length w = 16 \<and> \<not> of_nat (le_val (drop 8 w)) > now}"

lemma due_Cons: "due now ((vk, w) # rows) =
    (if length w = 16 \<and> \<not> of_nat (le_val (drop 8 w)) > now then insert (utf8_lossy (drop 13 vk)) (due now rows) else due now rows)"
  by (auto simp: due_def)

text \<open>The state of a memory after the sweep.\<close>

definition swept :: "u64 \<Rightarrow> (bytes \<times> bytes) list \<Rightarrow> 's host \<Rightarrow> 's engine \<Rightarrow> bytes \<Rightarrow> memory_state" where
  "swept now rows h s k =
     (let st = get_state (ho_backend h) (en_storage s) k
      in if k \<in> due now rows \<and> doc_blob h s k \<noteq> None \<and> \<not> out_of_use st then Invalidated else st)"

lemma windows_apart: "prefix (ascii ''sys/validity/'') q \<Longrightarrow> q \<noteq> state_key k \<and> (prefix (ascii ''md/'') k \<longrightarrow> q \<noteq> k)"
  by (auto simp: side_keys ascii_def prefix_def)

context engine_store
begin

definition sweeps_to :: "u64 \<Rightarrow> (bytes \<times> bytes) list \<Rightarrow> 's engine \<Rightarrow> nat \<Rightarrow> nat \<Rightarrow> 's engine \<Rightarrow> bool" where
  "sweeps_to now rows s n n' s' \<longleftrightarrow> en_inv inv s' \<and> ram_fits fits s' \<and>
     (\<forall>k. prefix (ascii ''md/'') k \<longrightarrow> fits k [] \<longrightarrow> doc_blob h s' k = doc_blob h s k) \<and>
     (\<forall>k. rows_fit fits k \<longrightarrow> get_state (ho_backend h) (en_storage s') k = swept now rows h s k) \<and>
     (\<forall>q. prefix (ascii ''sys/validity/'') q \<longrightarrow> view (en_storage s') q = view (en_storage s) q) \<and>
     ((\<forall>k \<in> due now rows. doc_blob h s k = None \<or> out_of_use (get_state (ho_backend h) (en_storage s) k)) \<longrightarrow> n' = n)"

lemma does_expire_row:
  assumes ok: "en_inv inv s" "ram_fits fits s"
    and row: "rows_fit fits (utf8_lossy (drop 13 vk))" "readable h s (utf8_lossy (drop 13 vk))"
  shows "does (expire_row h now (vk, w) n) s (\<lambda>n' s'. sweeps_to now [(vk, w)] s n n' s')"
proof -
  let ?sk = "utf8_lossy (drop 13 vk)" and ?due = "length w = 16 \<and> \<not> of_nat (le_val (drop 8 w)) > now"
  have md: "prefix (ascii ''md/'') ?sk" and fit: "fits ?sk []" "\<And>v. length v \<le> 1 \<Longrightarrow> fits (state_key ?sk) v"
    using row(1) by (simp_all add: rows_fit_def)
  have i: "inv (en_storage s)" using ok by (simp add: en_inv_def)
  have same: "sweeps_to now [(vk, w)] s n n s0"
    if "s0 = s \<or> s0 = counted s" "\<not> ?due \<or> doc_blob h s ?sk = None \<or> out_of_use (get_state (ho_backend h) (en_storage s) ?sk)" for s0
    using that ok by (auto simp: sweeps_to_def swept_def due_def Let_def ram_fits_def)
  show ?thesis
  proof (cases ?due)
    case False
    then show ?thesis using same [of s] by (auto simp: expire_row_def does_def oret_def)
  next
    case True
    obtain d where d: "get_by_storage_key h ?sk s = (Inr d, counted s)" "d = None \<longleftrightarrow> doc_blob h s ?sk = None"
      by (rule get_run [OF row(2)])
    let ?st = "get_state (ho_backend h) (en_storage s) ?sk"
    show ?thesis
    proof (cases "d = None \<or> out_of_use ?st")
      case True
      then have "expire_row h now (vk, w) n s = (Inr n, counted s)"
        using \<open>?due\<close> d(1) by (auto simp: expire_row_def Let_def obind_def oget_def oret_def out_of_use_def)
      then show ?thesis using same [of "counted s"] True d(2) by (simp add: does_def)
    next
      case False
      have "does (set_state h ?sk Invalidated) (counted s) (\<lambda>_ s'. sweeps_to now [(vk, w)] s n (n + 1) s')"
      proof (rule does_set_state [OF _ _ md fit(2)])
        show "en_inv inv (counted s)" "ram_fits fits (counted s)" using ok by (simp_all add: ram_fits_def)
        show "readable h (counted s) ?sk \<and> doc_blob h (counted s) ?sk \<noteq> None" using row(2) False d(2) by simp
        fix s' :: "'s engine" assume s': "en_inv inv s'" "keeps (counted s) s'"
          "\<And>q. q \<noteq> ?sk \<Longrightarrow> q \<noteq> state_key ?sk \<Longrightarrow> view (en_storage s') q = view (en_storage (counted s)) q"
          "\<And>q. prefix (ascii ''md/'') q \<Longrightarrow> fits q [] \<Longrightarrow> doc_blob h s' q = doc_blob h (counted s) q"
          "view (en_storage s') (state_key ?sk) = (if Invalidated = Active then None else Some [state_u8 Invalidated])"
        have i': "inv (en_storage s')" using s'(1) by (simp add: en_inv_def)
        have "get_state (ho_backend h) (en_storage s') k = swept now [(vk, w)] h s k" if "rows_fit fits k" for k
        proof (cases "k = ?sk")
          case True
          then show ?thesis
            using s'(5) False d(2) \<open>?due\<close>
            by (simp add: swept_def Let_def due_Cons get_state_view [OF i' row(1)] unwrap_or_def state_from_u8_def)
        next
          case other: False
          have "view (en_storage s') (state_key k) = view (en_storage s) (state_key k)"
            using s'(3) [of "state_key k"] other rows_not_md [OF md, of k] by simp
          then show ?thesis
            using other by (simp add: get_state_view [OF i' that] get_state_view [OF i that] swept_def due_Cons Let_def due_def)
        qed
        moreover have "ram_fits fits s'" by (rule ram_fits_keeps [OF s'(2)]) (use ok(2) in \<open>simp add: ram_fits_def\<close>)
        moreover have "view (en_storage s') q = view (en_storage s) q" if "prefix (ascii ''sys/validity/'') q" for q
          using s'(3) [of q] windows_apart [OF that] md by simp
        ultimately show "sweeps_to now [(vk, w)] s n (n + 1) s'"
          using s'(1,4) False d(2) \<open>?due\<close> by (auto simp: sweeps_to_def due_Cons due_def)
      qed
      then have "does (othen (set_state h ?sk Invalidated) (oret (n + 1))) (counted s) (\<lambda>n' s'. sweeps_to now [(vk, w)] s n n' s')"
        by (intro does_then) (auto elim!: does_mono intro!: does_ret)
      moreover have "expire_row h now (vk, w) n s = othen (set_state h ?sk Invalidated) (oret (n + 1)) (counted s)"
        using False \<open>?due\<close> d(1) by (simp add: expire_row_def Let_def obind_def [of "get_by_storage_key h ?sk"] out_of_use_def)
          (auto simp: obind_def oget_def)
      ultimately show ?thesis by (simp add: does_def)
    qed
  qed
qed

lemma sweeps_to_trans:
  assumes "sweeps_to now [(vk, w)] s n n1 s1" "sweeps_to now rows s1 n1 n' s'"
    and "rows_fit fits (utf8_lossy (drop 13 vk))" "\<forall>(vk, w) \<in> set rows. rows_fit fits (utf8_lossy (drop 13 vk))"
  shows "sweeps_to now ((vk, w) # rows) s n n' s'"
proof -
  have dues: "rows_fit fits k" if "k \<in> due now ((vk, w) # rows)" for k
    using that assms(3,4) by (auto simp: due_def)
  have kept: "doc_blob h s1 k = doc_blob h s k" if "rows_fit fits k" for k
    using that assms(1) by (simp add: sweeps_to_def rows_fit_def)
  have st: "get_state (ho_backend h) (en_storage s1) k = swept now [(vk, w)] h s k" if "rows_fit fits k" for k
    using that assms(1) by (simp add: sweeps_to_def)
  have one: "due now ((vk, w) # rows) = due now [(vk, w)] \<union> due now rows" by (auto simp: due_def)
  have "swept now rows h s1 k = swept now ((vk, w) # rows) h s k" if "rows_fit fits k" for k
    using kept [OF that] st [OF that] unfolding swept_def Let_def one by (auto simp: out_of_use_def)
  moreover have "n' = n" if idle: "\<forall>k \<in> due now ((vk, w) # rows). doc_blob h s k = None \<or> out_of_use (get_state (ho_backend h) (en_storage s) k)"
  proof -
    have "n1 = n" using assms(1) idle by (simp add: sweeps_to_def one)
    moreover have "doc_blob h s1 k = None \<or> out_of_use (get_state (ho_backend h) (en_storage s1) k)" if "k \<in> due now rows" for k
      using that idle kept [of k] st [of k] dues [of k] unfolding swept_def Let_def one by auto
    ultimately show ?thesis using assms(2) by (simp add: sweeps_to_def)
  qed
  ultimately show ?thesis using assms(1,2) by (simp add: sweeps_to_def)
qed

lemma does_expire_rows:
  assumes "en_inv inv s" "ram_fits fits s"
    and "\<forall>(vk, w) \<in> set rows. rows_fit fits (utf8_lossy (drop 13 vk)) \<and> readable h s (utf8_lossy (drop 13 vk))"
  shows "does (ofold (expire_row h now) rows n) s (\<lambda>n' s'. sweeps_to now rows s n n' s')"
  using assms
proof (induction rows arbitrary: s n)
  case Nil
  then show ?case by (simp add: does_def sweeps_to_def swept_def Let_def due_def)
next
  case (Cons row rows)
  obtain vk w where row: "row = (vk, w)" by (cases row)
  have here: "rows_fit fits (utf8_lossy (drop 13 vk))" "readable h s (utf8_lossy (drop 13 vk))"
    using Cons.prems(3) by (simp_all add: row)
  obtain n1 s1 where s1: "expire_row h now (vk, w) n s = (Inr n1, s1)" "sweeps_to now [(vk, w)] s n n1 s1"
    by (rule doesE [OF does_expire_row [OF Cons.prems(1,2) here, of now w n]]) (rule that)
  have "readable h s1 k = readable h s k" if "rows_fit fits k" for k
    using s1(2) that by (simp add: sweeps_to_def readable_def rows_fit_def)
  then have "\<forall>(vk, w) \<in> set rows. rows_fit fits (utf8_lossy (drop 13 vk)) \<and> readable h s1 (utf8_lossy (drop 13 vk))"
    using Cons.prems(3) by auto
  moreover have "en_inv inv s1" "ram_fits fits s1" using s1(2) by (simp_all add: sweeps_to_def)
  ultimately have "does (ofold (expire_row h now) rows n1) s1 (\<lambda>n' s'. sweeps_to now rows s1 n1 n' s')"
    using Cons.IH by blast
  then show ?case
    using s1(1) sweeps_to_trans [OF s1(2) _ here(1)] Cons.prems(3)
    by (auto simp: does_def row case_prod_unfold split: sum.splits)
qed

end

lemma window_row:
  assumes "length w = 16"
  shows "of_nat (le_val (drop 8 w)) = snd (of_nat (le_val (take 8 w)) :: u64, of_nat (le_val (drop 8 w)) :: u64)"
  by simp

text \<open>The window of a memory is closed at a moment.\<close>

definition closed_window :: "'s host \<Rightarrow> 's engine \<Rightarrow> u64 \<Rightarrow> bytes \<Rightarrow> bool" where
  "closed_window h s now k \<longleftrightarrow>
     (case validity_window (ho_backend h) (en_storage s) k of Some (_, until) \<Rightarrow> until \<le> now | None \<Rightarrow> False)"

definition windows :: "'s host \<Rightarrow> 's engine \<Rightarrow> (bytes \<times> bytes) list" where
  "windows h s = be_scan (ho_backend h) (en_storage s) (ascii ''sys/validity/'')"

context engine_store
begin

lemma due_windows:
  assumes "inv (en_storage s)" "\<forall>(vk, w) \<in> set (windows h s). utf8_valid (drop 13 vk)" "utf8_valid k" "fits (validity_key k) []"
  shows "k \<in> due now (windows h s) \<longleftrightarrow> closed_window h s now k"
proof -
  have u: "utf8_valid (ascii ''sys/validity/'')" by (rule utf8_valid_ascii) (auto simp: ascii_def)
  have rows: "(vk, w) \<in> set (windows h s) \<longleftrightarrow> view (en_storage s) vk = Some w \<and> prefix (ascii ''sys/validity/'') vk" for vk w
    using scan_set [OF assms(1) u] by (simp add: windows_def)
  have key: "vk = validity_key (drop 13 vk)" if "prefix (ascii ''sys/validity/'') vk" for vk
    using that by (auto simp: prefix_def validity_key_def ascii_def)
  have drop: "drop 13 (validity_key k) = k" "prefix (ascii ''sys/validity/'') (validity_key k)"
    by (simp_all add: validity_key_def ascii_def prefix_def)
  have "k \<in> due now (windows h s) \<longleftrightarrow>
      (\<exists>w. view (en_storage s) (validity_key k) = Some w \<and> length w = 16 \<and> \<not> of_nat (le_val (drop 8 w)) > now)"
  proof
    assume "k \<in> due now (windows h s)"
    then obtain vk w where vk: "(vk, w) \<in> set (windows h s)" "k = utf8_lossy (drop 13 vk)" "length w = 16"
      "\<not> of_nat (le_val (drop 8 w)) > now" by (auto simp: due_def)
    then have "k = drop 13 vk" using assms(2) by auto
    then have "vk = validity_key k" using vk(1) rows key by metis
    then show "\<exists>w. view (en_storage s) (validity_key k) = Some w \<and> length w = 16 \<and> \<not> of_nat (le_val (drop 8 w)) > now"
      using vk rows by blast
  next
    assume "\<exists>w. view (en_storage s) (validity_key k) = Some w \<and> length w = 16 \<and> \<not> of_nat (le_val (drop 8 w)) > now"
    then obtain w where w: "(validity_key k, w) \<in> set (windows h s)" "length w = 16" "\<not> of_nat (le_val (drop 8 w)) > now"
      using rows drop(2) by blast
    then show "k \<in> due now (windows h s)" using assms(3) drop(1) by (force simp: due_def)
  qed
  then show ?thesis
    using assms(1,4) by (auto simp: closed_window_def validity_window_def get_view not_less split: option.splits)
qed

end

text \<open>C31: Forgetting by time, over any backend: the sweep ends; a stored memory in use whose window is
  closed becomes invalidated, the state of every other memory stays, no document is deleted or changed;
  and a second pass at the same moment finds nothing to do.\<close>

theorem expire_old_closes_windows:
  assumes "backend_store good view (ho_backend h) fits means" and "en_inv good s" "ram_fits fits s"
    and "\<forall>(vk, w) \<in> set (windows h s). utf8_valid (drop 13 vk) \<and> rows_fit fits (drop 13 vk) \<and> readable h s (drop 13 vk)"
  shows "\<exists>n s'. expire_old h now s = (Inr n, s') \<and> en_inv good s' \<and>
    (\<forall>k. prefix (ascii ''md/'') k \<longrightarrow> fits k [] \<longrightarrow> doc_blob h s' k = doc_blob h s k) \<and>
    (\<forall>k. rows_fit fits k \<longrightarrow> utf8_valid k \<longrightarrow> fits (validity_key k) [] \<longrightarrow>
      (let st = get_state (ho_backend h) (en_storage s) k in
       get_state (ho_backend h) (en_storage s') k =
         (if closed_window h s now k \<and> doc_blob h s k \<noteq> None \<and> \<not> out_of_use st then Invalidated else st))) \<and>
    (\<exists>s''. expire_old h now s' = (Inr 0, s''))"
proof -
  have e: "engine_store good view h fits means" using assms(1) by (simp add: engine_store_def)
  have good: "good (en_storage s)" using assms(2) by (simp add: en_inv_def)
  let ?rows = "windows h s"
  have rows: "\<forall>(vk, w) \<in> set ?rows. rows_fit fits (utf8_lossy (drop 13 vk)) \<and> readable h s (utf8_lossy (drop 13 vk))"
    using assms(4) by auto
  have run: "expire_old h now t = ofold (expire_row h now) (windows h t) 0 t" for t
    by (simp add: expire_old_def scan_rows_def obind_def oget_def windows_def)
  obtain n s' where s': "expire_old h now s = (Inr n, s')" "engine_store.sweeps_to good view h fits now ?rows s 0 n s'"
    by (rule doesE [OF engine_store.does_expire_rows [OF e assms(2,3) rows, of now 0]]) (use that in \<open>simp add: run\<close>)
  note swept = s'(2) [unfolded engine_store.sweeps_to_def [OF e]]
  have good': "good (en_storage s')" using swept by (simp add: en_inv_def)
  have "windows h s' = ?rows"
    unfolding windows_def
    by (rule backend_store.scan_eqI [OF assms(1) good good'])
      (use swept in \<open>auto intro!: utf8_valid_ascii simp: ascii_def\<close>)
  moreover have "readable h s' k = readable h s k" if "rows_fit fits k" for k
    using swept that by (simp add: readable_def rows_fit_def)
  ultimately have rows': "\<forall>(vk, w) \<in> set (windows h s'). rows_fit fits (utf8_lossy (drop 13 vk)) \<and> readable h s' (utf8_lossy (drop 13 vk))"
    using rows by auto
  obtain n2 s'' where s'': "expire_old h now s' = (Inr n2, s'')"
    "engine_store.sweeps_to good view h fits now (windows h s') s' 0 n2 s''"
    by (rule doesE [OF engine_store.does_expire_rows [OF e _ _ rows', of now 0]])
      (use swept that in \<open>simp_all add: run\<close>)
  have "doc_blob h s' k = None \<or> out_of_use (get_state (ho_backend h) (en_storage s') k)" if "k \<in> due now (windows h s')" for k
  proof -
    have k: "rows_fit fits k" "k \<in> due now ?rows" using that rows \<open>windows h s' = ?rows\<close> by (auto simp: due_def)
    then have "doc_blob h s' k = doc_blob h s k" using swept by (simp add: rows_fit_def)
    then show ?thesis using swept k by (auto simp: swept_def Let_def out_of_use_def)
  qed
  then have "n2 = 0" using s''(2) by (simp add: engine_store.sweeps_to_def [OF e])
  then have again: "expire_old h now s' = (Inr 0, s'')" using s''(1) by simp
  have st: "get_state (ho_backend h) (en_storage s') k =
      (if closed_window h s now k \<and> doc_blob h s k \<noteq> None \<and> \<not> out_of_use (get_state (ho_backend h) (en_storage s) k)
       then Invalidated else get_state (ho_backend h) (en_storage s) k)"
    if "rows_fit fits k" "utf8_valid k" "fits (validity_key k) []" for k
    using swept that engine_store.due_windows [OF e good _ that(2,3), of now] assms(4)
    by (auto simp: swept_def Let_def)
  show ?thesis
    unfolding Let_def
    by (intro exI [of _ n] exI [of _ s'] exI [of _ s''] conjI allI impI) (use s'(1) swept again st in simp_all)
qed

section \<open>Stale memories\<close>

fun severity :: "staleness_reason \<Rightarrow> nat" where
  "severity Ttl_expired = 3"
| "severity Is_decayed = 2"
| "severity Is_invalidated = 2"
| "severity Contradiction = 2"
| "severity Is_aging = 1"

lemma classify_worst:
  assumes "classify aging_after now ttl st contradicted t = (l, rs)"
  shows "level_rank l = Max (insert 0 (severity ` set rs))"
  using assms by (auto simp: classify_def Let_def raise_to_stale_def split: option.splits if_splits memory_state.splits)

definition ranked_hit :: "staleness_hit \<Rightarrow> bool" where
  "ranked_hit x \<longleftrightarrow> key_is_fact (sh_key x) \<and> sh_level x \<noteq> Fresh \<and>
     level_rank (sh_level x) = Max (severity ` set (sh_reasons x)) \<and> sh_reasons x \<noteq> []"

lemma staleness_row_kept:
  assumes "staleness_row h now scope aging_after row out s = (Inr out', s')" "\<forall>x \<in> set out. ranked_hit x"
  shows "en_storage s' = en_storage s \<and> en_ram s' = en_ram s \<and> (\<forall>x \<in> set out'. ranked_hit x)"
proof -
  let ?sk = "utf8_lossy (fst row)"
  have hit: "ranked_hit \<lparr>sh_key = ?sk, sh_level = l, sh_reasons = rs, sh_age = a, sh_expires_at = e\<rparr>"
    if "key_is_fact ?sk" "classify aging_after now ttl st c t = (l, rs)" "l \<noteq> Fresh" for l rs a e ttl st c t
  proof -
    have r: "level_rank l = Max (insert 0 (severity ` set rs))" by (rule classify_worst [OF that(2)])
    have "level_rank l \<noteq> 0" using that(3) by (cases l) simp_all
    then have "rs \<noteq> []" using r by auto
    then have "Max (insert 0 (severity ` set rs)) = Max (severity ` set rs)" by simp
    then show ?thesis using that r \<open>rs \<noteq> []\<close> by (simp add: ranked_hit_def)
  qed
  obtain x where get: "get_by_storage_key h ?sk s = (x, counted s)"
    using get_no_write [of h ?sk s] by (metis surj_pair)
  show ?thesis
    using assms
    by (auto simp: staleness_row_def case_prod_unfold Let_def obind_def oget_def oret_def hit get split: if_splits prod.splits sum.splits)
qed

lemma staleness_rows_kept:
  "ofold (staleness_row h now scope aging_after) rows out s = (Inr out', s') \<Longrightarrow> \<forall>x \<in> set out. ranked_hit x \<Longrightarrow>
   en_storage s' = en_storage s \<and> en_ram s' = en_ram s \<and> (\<forall>x \<in> set out'. ranked_hit x)"
proof (induction rows arbitrary: out s)
  case (Cons row rows)
  then obtain out1 s1 where one: "staleness_row h now scope aging_after row out s = (Inr out1, s1)"
    "ofold (staleness_row h now scope aging_after) rows out1 s1 = (Inr out', s')"
    by (auto split: prod.splits sum.splits)
  show ?case using staleness_row_kept [OF one(1) Cons.prems(2)] Cons.IH [OF one(2)] by simp
qed simp

text \<open>C33: The report of stale memories is a reading: it changes neither storage nor RAM.  It lists facts
  only, none of them fresh, each with the most severe of its reasons as its level, the most severe first
  and by key among equals, cut at the limit.\<close>

theorem staleness_report_is_ranked:
  assumes "staleness_report h now limit scope aging_after s = (Inr hits, s')"
  shows "en_storage s' = en_storage s \<and> en_ram s' = en_ram s \<and>
    (\<forall>x \<in> set hits. key_is_fact (sh_key x) \<and> sh_level x \<noteq> Fresh \<and>
      level_rank (sh_level x) = Max (severity ` set (sh_reasons x)) \<and> sh_reasons x \<noteq> []) \<and>
    sorted_wrt (\<lambda>x y. level_rank (sh_level x) > level_rank (sh_level y) \<or>
      level_rank (sh_level x) = level_rank (sh_level y) \<and> sh_key x \<le> sh_key y) hits \<and>
    (limit > 0 \<longrightarrow> length hits \<le> limit)"
proof -
  let ?rank = "\<lambda>x. (3 - level_rank (sh_level x), sh_key x)"
  obtain rows out where out: "ofold (staleness_row h now scope aging_after) rows [] s = (Inr out, s')"
    "hits = (if limit > 0 \<and> length (sort_key ?rank out) > limit then take limit (sort_key ?rank out) else sort_key ?rank out)"
    using assms by (auto simp: staleness_report_def scan_rows_def obind_def oget_def oret_def Let_def split: prod.splits sum.splits)
  have bound: "level_rank l \<le> 3" for l by (cases l) simp_all
  have rank: "a > b \<or> a = b \<and> k \<le> k'" if "(3 - a, k) \<le> (3 - b, k')" "a \<le> 3" "b \<le> 3" for a b :: nat and k k' :: bytes
    using that by auto
  have "sorted_wrt (\<lambda>x y. ?rank x \<le> ?rank y) (sort_key ?rank out)"
    using sorted_sort_key [of ?rank out] by (simp only: sorted_map)
  then have "sorted_wrt (\<lambda>x y. ?rank x \<le> ?rank y) hits" by (simp add: out(2) sorted_wrt_take)
  then have "sorted_wrt (\<lambda>x y. level_rank (sh_level x) > level_rank (sh_level y) \<or>
      level_rank (sh_level x) = level_rank (sh_level y) \<and> sh_key x \<le> sh_key y) hits"
    by (rule sorted_wrt_mono_rel [rotated]) (use bound rank in blast)
  moreover have "set hits \<subseteq> set out" using set_take_subset [of limit "sort_key ?rank out"] by (auto simp: out(2))
  ultimately show ?thesis
    using staleness_rows_kept [OF out(1)] out(2) by (auto simp: ranked_hit_def)
qed

section \<open>Witnesses\<close>

definition aged_engine :: "in_memory engine" where
  "aged_engine = pair_engine\<lparr>en_storage := \<lparr>im_map = im_map (en_storage pair_engine) @
     [(validity_key (ascii ''md/L2/a''), le_enc 8 0 @ le_enc 8 5)]\<rparr>\<rparr>"

lemma aged_engine_ok:
  "en_inv (\<lambda>s. bt_wf (im_map s)) aged_engine" "ram_fits (\<lambda>_ _. True) aged_engine"
  "windows (ram_host (\<lambda>_. False) False) aged_engine = [(validity_key (ascii ''md/L2/a''), le_enc 8 0 @ le_enc 8 5)]"
  "doc_blob (ram_host (\<lambda>_. False) False) aged_engine (ascii ''md/L2/a'') = Some (doc_encode (doc_new L2EpisodicShort (ascii ''a'') []))"
  "closed_window (ram_host (\<lambda>_. False) False) aged_engine 7 (ascii ''md/L2/a'')"
  "get_state (ho_backend (ram_host (\<lambda>_. False) False)) (en_storage aged_engine) (ascii ''md/L2/a'') = Active"
proof -
  have map: "im_map (en_storage aged_engine) =
     [(ascii ''md/L2/a'', doc_encode (doc_new L2EpisodicShort (ascii ''a'') [])),
      (ascii ''md/L2/b'', doc_encode (doc_new L2EpisodicShort (ascii ''b'') [])),
      (meta_key (ascii ''md/L2/a''), meta_encode sample_meta),
      (meta_key (ascii ''md/L2/b''), meta_encode sample_meta),
      (validity_key (ascii ''md/L2/a''), le_enc 8 0 @ le_enc 8 5)]"
    by (simp add: aged_engine_def pair_engine_def engine_new_def)
  have ram: "en_ram aged_engine = []" by (simp add: aged_engine_def pair_engine_def engine_new_def)
  show "en_inv (\<lambda>s. bt_wf (im_map s)) aged_engine"
    using pair_engine_ok(1) by (simp add: en_inv_def map bt_wf_def) (simp add: aged_engine_def side_keys ascii_def)
  show "ram_fits (\<lambda>_ _. True) aged_engine" using pair_engine_ok(2) by (simp add: ram_fits_def aged_engine_def)
  show "windows (ram_host (\<lambda>_. False) False) aged_engine = [(validity_key (ascii ''md/L2/a''), le_enc 8 0 @ le_enc 8 5)]"
    by (simp add: windows_def ram_host_def ram_backend_def in_memory_scan_def map side_keys ascii_def)
  show "doc_blob (ram_host (\<lambda>_. False) False) aged_engine (ascii ''md/L2/a'') = Some (doc_encode (doc_new L2EpisodicShort (ascii ''a'') []))"
    by (simp add: doc_blob_def sto_get_def ram_host_def ram_backend_def in_memory_get_def map ram)
  show "closed_window (ram_host (\<lambda>_. False) False) aged_engine 7 (ascii ''md/L2/a'')"
    by (simp add: closed_window_def validity_window_def ram_host_def ram_backend_def in_memory_get_def map side_keys ascii_def)
  show "get_state (ho_backend (ram_host (\<lambda>_. False) False)) (en_storage aged_engine) (ascii ''md/L2/a'') = Active"
    by (simp add: get_state_def ram_host_def ram_backend_def in_memory_get_def map side_keys ascii_def)
qed

theorem expire_old_closes_windows_witness:
  "\<exists>n s'. expire_old (ram_host (\<lambda>_. False) False) 7 aged_engine = (Inr n, s') \<and>
     get_state (ho_backend (ram_host (\<lambda>_. False) False)) (en_storage s') (ascii ''md/L2/a'') = Invalidated"
proof -
  let ?h = "ram_host (\<lambda>_. False) False" and ?a = "ascii ''md/L2/a''"
  have a: "utf8_valid ?a" "rows_fit (\<lambda>_ _. True) ?a" "drop 13 (validity_key ?a) = ?a"
    by (auto intro!: utf8_valid_ascii simp: ascii_def rows_fit_def side_keys)
  have "readable ?h aged_engine ?a"
    using pair_doc [of "of_char CHR ''a''"] by (simp add: readable_def aged_engine_ok(4)) (simp add: ascii_def)
  then have "\<forall>(vk, w) \<in> set (windows ?h aged_engine). utf8_valid (drop 13 vk) \<and> rows_fit (\<lambda>_ _. True) (drop 13 vk) \<and> readable ?h aged_engine (drop 13 vk)"
    using a by (simp add: aged_engine_ok(3))
  from expire_old_closes_windows [OF ram_host_store [of "\<lambda>_. False" False] aged_engine_ok(1,2) this, of 7]
  obtain n s' where s': "expire_old ?h 7 aged_engine = (Inr n, s')"
    "\<forall>k. rows_fit (\<lambda>_ _. True) k \<longrightarrow> utf8_valid k \<longrightarrow> True \<longrightarrow> (let st = get_state (ho_backend ?h) (en_storage aged_engine) k in
       get_state (ho_backend ?h) (en_storage s') k =
         (if closed_window ?h aged_engine 7 k \<and> doc_blob ?h aged_engine k \<noteq> None \<and> \<not> out_of_use st then Invalidated else st))"
    by (elim exE conjE)
  then show ?thesis using a aged_engine_ok(4-6) by (auto simp: Let_def out_of_use_def)
qed

definition decayed_engine :: "in_memory engine" where
  "decayed_engine = engine_new 1 1 \<lparr>im_map =
     [(ascii ''md/L3/a'', doc_encode (doc_new L2EpisodicShort (ascii ''a'') [])),
      (state_key (ascii ''md/L3/a''), [state_u8 Decayed])]\<rparr>"

theorem staleness_report_is_ranked_witness:
  "\<exists>(hits :: staleness_hit list) s'. staleness_report (ram_host (\<lambda>_. False) False) 7 0 None AGING_AFTER decayed_engine = (Inr hits, s') \<and>
     map sh_level hits = [Stale_level] \<and> en_storage s' = en_storage decayed_engine"
proof -
  let ?h = "ram_host (\<lambda>_. False) False" and ?a = "ascii ''md/L3/a''"
  have blob: "doc_blob ?h decayed_engine ?a = Some (doc_encode (doc_new L2EpisodicShort (ascii ''a'') []))"
    by (simp add: doc_blob_def sto_get_def ram_host_def ram_backend_def in_memory_get_def decayed_engine_def engine_new_def)
  have dec: "doc_decode (doc_encode (doc_new L2EpisodicShort (ascii ''a'') [])) = Inr (doc_new L2EpisodicShort (ascii ''a'') [])"
    using pair_doc [of "of_char CHR ''a''"] by (simp add: ascii_def)
  have lossy: "utf8_lossy ?a = ?a" by (rule utf8_lossy_valid, rule utf8_valid_ascii) (auto simp: ascii_def)
  have rows: "be_scan (ho_backend ?h) (en_storage decayed_engine) (ascii ''md/'') =
      [(?a, doc_encode (doc_new L2EpisodicShort (ascii ''a'') []))]"
    by (simp add: ram_host_def ram_backend_def in_memory_scan_def decayed_engine_def engine_new_def side_keys ascii_def)
  have st: "get_state (ho_backend ?h) (en_storage decayed_engine) ?a = Decayed" "ttl_of (ho_backend ?h) (en_storage decayed_engine) ?a = None"
    by (simp_all add: get_state_def ttl_of_def unwrap_or_def ram_host_def ram_backend_def in_memory_get_def decayed_engine_def engine_new_def
      side_keys ascii_def state_from_u8_def)
  have fact: "key_is_fact ?a" by (simp add: key_is_fact_def FACT_LAYER_PREFIXES_def ascii_def)
  obtain s' and hits :: "staleness_hit list" where run: "staleness_report ?h 7 0 None AGING_AFTER decayed_engine = (Inr hits, s')" "map sh_level hits = [Stale_level]"
    by (simp add: staleness_report_def scan_rows_def obind_def oget_def oret_def rows staleness_row_def lossy fact get_doc_stored [OF blob dec]
      st classify_def raise_to_stale_def Let_def)
  then show ?thesis using staleness_report_is_ranked [OF run(1)] by (intro exI [of _ hits] exI [of _ s']) simp
qed

end
