(* ===== verification/Facade_Write.thy ===== *)
theory Facade_Write
  imports Facade_Meta
begin

text \<open>
  Writing through the facade (\<open>src/src/sgdb.rs\<close>): embeddings with their text companion, texts, turns of a
  conversation, operational data, and the labels that a write carries.  The first embedding fixes the
  dimension of the corpus, its era; the guard of the era stands before every write of an embedding.

  The hint of retrieval in the outcome of a write is a sentence for a reader and is left out.
\<close>

section \<open>The guard of the era\<close>

definition ERA_MISMATCH :: string where
  "ERA_MISMATCH = ''embedding dim does not match the indexed corpus era (BQ width-lock would truncate it silently); run era_report() for the migration plan + cost estimate, or write to a fresh DB (new era)''"

definition check_era_dims :: "nat \<Rightarrow> ('s, unit) op" where
  "check_era_dims dim = obind (oget en_indexed_dims) (\<lambda>dims.
     if dims \<noteq> [] \<and> dim \<notin> set dims then ofail (SE_Invalid ERA_MISMATCH) else oret ())"

definition checked_embedding :: "u32 list \<Rightarrow> ('s, unit) op" where
  "checked_embedding emb = (case check_embedding emb of Inl e \<Rightarrow> ofail e | Inr _ \<Rightarrow> check_era_dims (length emb))"

text \<open>\<open>f32::to_le_bytes\<close> over the embedding.\<close>

definition embedding_payload :: "u32 list \<Rightarrow> bytes" where
  "embedding_payload emb = concat (map (\<lambda>x. le_enc 4 (unat x)) emb)"

definition embedding_doc :: "memory_layer \<Rightarrow> bytes \<Rightarrow> u32 list \<Rightarrow> memory_doc" where
  "embedding_doc layer key emb =
     (doc_new layer key (embedding_payload emb))\<lparr>md_bitvec := Some (quantize_f32 emb)\<rparr>"

section \<open>Labels\<close>

record remember_options =
  ro_scope :: "bytes option"
  ro_entities :: "bytes list"
  ro_content_type :: "bytes option"
  ro_scope_dims :: "scope_dims option"
  ro_model_id :: "bytes option"
  ro_index_key :: bool

record remember_outcome =
  rm_storage_key :: bytes
  rm_companion_key :: bytes
  rm_scope :: bytes
  rm_entities :: "bytes list"
  rm_content_type :: "bytes option"
  rm_scope_dims :: scope_dims
  rm_model_id :: bytes

definition set_default_scope :: "bytes option \<Rightarrow> bytes option" where
  "set_default_scope scope = (case scope of Some s \<Rightarrow> if s = [] then None else Some s | None \<Rightarrow> None)"

text \<open>The scope asked for, else the default of the database; the legacy scope fills the free user dimension.\<close>

definition written_scope :: "bytes option \<Rightarrow> remember_options \<Rightarrow> bytes" where
  "written_scope default_scope opts =
     (case ro_scope opts of
        Some s \<Rightarrow> if s \<noteq> [] then s else unwrap_or default_scope []
      | None \<Rightarrow> unwrap_or default_scope [])"

definition written_dims :: "bytes option \<Rightarrow> remember_options \<Rightarrow> scope_dims" where
  "written_dims default_scope opts =
     (let scope = written_scope default_scope opts; d = unwrap_or (ro_scope_dims opts) dims_new
      in if sd_user d = [] \<and> scope \<noteq> [] then d\<lparr>sd_user := scope\<rparr> else d)"

definition only_if :: "bool \<Rightarrow> ('s, unit) op \<Rightarrow> ('s, unit) op" where
  "only_if c m = (if c then m else oret ())"

definition finish_remember ::
    "'s host \<Rightarrow> bytes option \<Rightarrow> bytes \<Rightarrow> bytes \<Rightarrow> remember_options \<Rightarrow> ('s, remember_outcome) op" where
  "finish_remember h default_scope sk companion opts =
     (let scope = written_scope default_scope opts;
          dims = written_dims default_scope opts;
          model = unwrap_or (ro_model_id opts) []
      in othen (only_if (scope \<noteq> []) (set_scope h sk scope))
         (othen (only_if (\<not> dims_is_global dims) (set_scope_dims h sk dims))
         (othen (only_if (ro_entities opts \<noteq> []) (set_entities h sk (ro_entities opts)))
         (othen (case ro_content_type opts of
                   Some ct \<Rightarrow> only_if (ct \<noteq> []) (set_content_type h sk ct) | None \<Rightarrow> oret ())
         (othen (only_if (model \<noteq> []) (set_model_id h sk model))
         (othen (only_if (ro_index_key opts) (omod (\<lambda>s. s\<lparr>en_lexical := lx_add (ho_alnum h) (en_lexical s) sk sk\<rparr>)))
         (oret \<lparr>rm_storage_key = sk, rm_companion_key = companion, rm_scope = scope,
           rm_entities = ro_entities opts, rm_content_type = ro_content_type opts,
           rm_scope_dims = dims, rm_model_id = model\<rparr>)))))))"

section \<open>Documents\<close>

definition facade_put :: "'s host \<Rightarrow> memory_doc \<Rightarrow> ('s, u64) op" where
  "facade_put h doc = othen (validate_written (md_key doc)) (engine_put h doc)"

definition facade_put_operational :: "'s host \<Rightarrow> memory_doc \<Rightarrow> ('s, u64) op" where
  "facade_put_operational h doc = othen (validate_written (md_key doc)) (put_operational h doc)"

definition put_quiet :: "('s, u64) op \<Rightarrow> ('s, unit) op" where
  "put_quiet m = obind m (\<lambda>_. oret ())"

definition remember_fact :: "'s host \<Rightarrow> bytes \<Rightarrow> u64 \<Rightarrow> ('s, unit) op" where
  "remember_fact h f now = put_quiet (engine_put h (doc_new L3EpisodicLong (sortable_ts_key now) f))"

definition remember_exchange :: "'s host \<Rightarrow> bytes \<Rightarrow> bytes \<Rightarrow> ('s, unit) op" where
  "remember_exchange h user response =
     othen (put_quiet (engine_put h (doc_new L1Working (ascii ''last_user'') user)))
     (put_quiet (engine_put h (doc_new L2EpisodicShort (ascii ''last_asst'') response)))"

definition remember_episodic :: "'s host \<Rightarrow> bytes \<Rightarrow> bytes \<Rightarrow> u64 \<Rightarrow> ('s, bytes \<times> bytes) op" where
  "remember_episodic h user response now =
     (let u = sortable_ts_key now @ ascii ''/u''; a = sortable_ts_key now @ ascii ''/a''
      in othen (put_quiet (remember_text h L2EpisodicShort u user))
         (othen (put_quiet (remember_text h L2EpisodicShort a response))
         (oret (ascii ''md/L2/'' @ u, ascii ''md/L2/'' @ a))))"

section \<open>Embeddings and texts\<close>

text \<open>The vector first, then its text under the counter of the same write.\<close>

definition remember_semantic :: "'s host \<Rightarrow> bytes \<Rightarrow> bytes \<Rightarrow> u32 list \<Rightarrow> ('s, unit) op" where
  "remember_semantic h key txt emb =
     othen (validate_written key)
     (othen (checked_embedding emb)
     (othen (put_quiet (engine_put h (embedding_doc L4Semantic key emb)))
     (put_quiet (put_companion h (doc_new L2EpisodicShort key txt)))))"

definition remember_exchange_full ::
    "'s host \<Rightarrow> bytes \<Rightarrow> bytes \<Rightarrow> u32 list \<Rightarrow> u32 list \<Rightarrow> u64 \<Rightarrow> ('s, unit) op" where
  "remember_exchange_full h user response emb_u emb_a now =
     (let u = sortable_ts_key now @ ascii ''/u''; a = sortable_ts_key now @ ascii ''/a''
      in othen (remember_exchange h user response)
         (othen (put_quiet (remember_text h L2EpisodicShort u user))
         (othen (put_quiet (remember_text h L2EpisodicShort a response))
         (othen (remember_semantic h u user emb_u)
         (remember_semantic h a response emb_a)))))"

definition remember_semantic_with ::
    "'s host \<Rightarrow> bytes option \<Rightarrow> bytes \<Rightarrow> bytes \<Rightarrow> u32 list \<Rightarrow> remember_options \<Rightarrow> ('s, remember_outcome) op" where
  "remember_semantic_with h default_scope key txt emb opts =
     othen (remember_semantic h key txt emb)
     (finish_remember h default_scope (ascii ''md/L4/'' @ key) (ascii ''md/L2/'' @ key) opts)"

definition remember_text_with ::
    "'s host \<Rightarrow> bytes option \<Rightarrow> bytes \<Rightarrow> bytes \<Rightarrow> remember_options \<Rightarrow> ('s, remember_outcome) op" where
  "remember_text_with h default_scope key txt opts =
     othen (validate_written key)
     (othen (put_quiet (engine_put h (doc_new L3EpisodicLong key txt)))
     (finish_remember h default_scope (ascii ''md/L3/'' @ key) (ascii ''md/L3/'' @ key) opts))"

definition NEEDS_EMBEDDING :: string where
  "NEEDS_EMBEDDING = ''L4/L5 exigem embedding explicito: sem bitvec o payload seria reinterpretado como f32 e poluiria o BQ''"

definition NO_EMBEDDING :: string where
  "NO_EMBEDDING = ''embedding so vale em L4/L5: as outras camadas tem o payload como datum''"

definition operational_doc :: "memory_layer \<Rightarrow> bytes \<Rightarrow> bytes \<Rightarrow> u32 list option \<Rightarrow> ('s, memory_doc) op" where
  "operational_doc layer key txt emb =
     (if carries_embedding layer
      then case emb of
          None \<Rightarrow> ofail (SE_Invalid NEEDS_EMBEDDING)
        | Some e \<Rightarrow>
            if e = [] then ofail (SE_Invalid NEEDS_EMBEDDING)
            else othen (checked_embedding e) (oret (embedding_doc layer key e))
      else if emb \<noteq> None then ofail (SE_Invalid NO_EMBEDDING)
      else oret (doc_new layer key txt))"

definition remember_operational ::
    "'s host \<Rightarrow> bytes option \<Rightarrow> memory_layer \<Rightarrow> bytes \<Rightarrow> bytes \<Rightarrow> u32 list option \<Rightarrow> remember_options \<Rightarrow>
     ('s, remember_outcome) op" where
  "remember_operational h default_scope layer key txt emb opts =
     othen (validate_written key)
     (obind (operational_doc layer key txt emb) (\<lambda>doc.
      othen (put_quiet (put_operational h doc))
      (if carries_embedding layer \<and> txt \<noteq> []
       then othen (put_quiet (put_companion h (doc_new L2EpisodicShort key txt)))
            (finish_remember h default_scope (storage_key doc) (ascii ''md/L2/'' @ key) opts)
       else finish_remember h default_scope (storage_key doc) (storage_key doc) opts)))"

text \<open>The agent doctrine: its text is compiled into the crate, here it is an argument.\<close>

definition DOCTRINE_KEY :: bytes where
  "DOCTRINE_KEY = ascii ''nsgdb/doctrine''"

definition doctrine_options :: remember_options where
  "doctrine_options = \<lparr>ro_scope = Some DOCTRINE_KEY, ro_entities = [ascii ''doc/protocol'', ascii ''nsgdb/usage''],
     ro_content_type = Some (ascii ''text''), ro_scope_dims = None, ro_model_id = None, ro_index_key = False\<rparr>"

definition attempt :: "('s, 'a) op \<Rightarrow> ('s, unit) op" where
  "attempt m s = (case m s of (Inl Panics, s') \<Rightarrow> (Inl Panics, s') | (_, s') \<Rightarrow> (Inr (), s'))"

definition relabel_doctrine :: "'s host \<Rightarrow> ('s, bool) op" where
  "relabel_doctrine h =
     (let sk = ascii ''md/L4/'' @ DOCTRINE_KEY
      in othen (attempt (set_scope h sk DOCTRINE_KEY))
         (othen (attempt (set_entities h sk (ro_entities doctrine_options)))
         (othen (attempt (set_content_type h sk (ascii ''text'')))
         (oret False))))"

text \<open>A read that fails counts as a doctrine that is not there.\<close>

definition stored_doctrine :: "'s host \<Rightarrow> ('s, memory_doc option) op" where
  "stored_doctrine h s =
     (case engine_get h L2EpisodicShort DOCTRINE_KEY s of
        (Inl Panics, s') \<Rightarrow> (Inl Panics, s') | (Inl (Sgdb _), s') \<Rightarrow> (Inr None, s') | (Inr d, s') \<Rightarrow> (Inr d, s'))"

definition ensure_doctrine :: "'s host \<Rightarrow> bytes option \<Rightarrow> bytes \<Rightarrow> u32 list \<Rightarrow> ('s, bool) op" where
  "ensure_doctrine h default_scope txt emb = obind (stored_doctrine h) (\<lambda>d.
     if (case d of Some doc \<Rightarrow> md_payload doc = txt | None \<Rightarrow> False) then relabel_doctrine h
     else obind (remember_semantic_with h default_scope DOCTRINE_KEY txt emb doctrine_options) (\<lambda>_. oret True))"

section \<open>Relations between memories\<close>

definition associate_keys :: "'s host \<Rightarrow> bytes \<Rightarrow> relation_kind \<Rightarrow> bytes \<Rightarrow> ('s, unit) op" where
  "associate_keys h a rel b = associate h (resolve_storage_key a) rel (resolve_storage_key b)"

definition GHOST :: "string \<Rightarrow> string" where
  "GHOST side = ''associate_checked: no memory at key '' @ side @ '' (use the full canonical storage key, e.g. md/L4/<key>)''"

definition associate_checked :: "'s host \<Rightarrow> bytes \<Rightarrow> relation_kind \<Rightarrow> bytes \<Rightarrow> ('s, unit) op" where
  "associate_checked h a rel b = with_key h a (\<lambda>a. with_key h b (\<lambda>b. obind (oget en_art) (\<lambda>t.
     if art_get (ho_avx2 h) t a = None then ofail (SE_Invalid (GHOST ''a''))
     else if art_get (ho_avx2 h) t b = None then ofail (SE_Invalid (GHOST ''b''))
     else associate h a rel b)))"

text \<open>The keys under a prefix, a page of them, their number.\<close>

definition facade_scan_prefix :: "'s engine \<Rightarrow> bytes \<Rightarrow> (bytes \<times> u64) list" where
  "facade_scan_prefix s p = scan_prefix (en_art s) p"

definition count_prefix :: "'s engine \<Rightarrow> bytes \<Rightarrow> nat" where
  "count_prefix s p = length (scan_prefix (en_art s) p)"

definition recall_degraded_reason :: "'s engine \<Rightarrow> string option" where
  "recall_degraded_reason s =
     (if en_indexed_dims s \<noteq> [] \<and> bq_ids (en_bq s) = [] then Some ''bq_unmounted''
      else if 1 < length (en_indexed_dims s) then Some ''mixed_eras''
      else None)"

end
