(* ===== verification/Lifecycle.thy ===== *)
theory Lifecycle
  imports Facade_Write Facade_Sync Facade_Sweeps
begin

text \<open>
  The lifecycle of \<open>src/src/lifecycle.rs\<close>: a tick promotes memories from layer to layer, lets weights
  decay and archives what was superseded.  The clock is an argument.  The product of \<open>f32\<close> that the
  decay needs is exact before it is rounded, like the sum.
\<close>

section \<open>Product of weights\<close>

definition f32_product_bits :: "nat \<Rightarrow> nat" where
  "f32_product_bits p =
     (let e = excess (p div 2 ^ 149) in min 0x7F800000 (e * 2 ^ 23 + round_even p (2 ^ (149 + e))))"

definition f32_mul :: "u32 \<Rightarrow> u32 \<Rightarrow> u32" where
  "f32_mul x y =
     (let sign = (if f32_negative x \<noteq> f32_negative y then 0x80000000 else 0) :: u32
      in if f32_nan x \<or> f32_nan y then F32_NAN
         else if \<not> f32_finite x \<or> \<not> f32_finite y
         then (if f32_mag x = 0 \<or> f32_mag y = 0 then F32_NAN else sign OR 0x7F800000)
         else sign OR of_nat (f32_product_bits (f32_mag x * f32_mag y)))"

section \<open>Policy and report\<close>

record lifecycle_config =
  lc_l1_commit_after_ticks :: u64
  lc_l2_to_l3_importance :: u32
  lc_l2_to_l3_min_age_ticks :: u64
  lc_l3_to_l4_importance :: u32
  lc_l3_to_l4_min_age_ticks :: u64
  lc_decay_per_tick :: u32
  lc_decayed_below :: u32
  lc_archive_superseded_after_ticks :: "u64 option"

text \<open>The weights 0.5, 0.8 and 0.1 by their bits.\<close>

definition lifecycle_default :: lifecycle_config where
  "lifecycle_default =
     \<lparr>lc_l1_commit_after_ticks = 1, lc_l2_to_l3_importance = 0x3F000000, lc_l2_to_l3_min_age_ticks = 2,
      lc_l3_to_l4_importance = 0x3F4CCCCD, lc_l3_to_l4_min_age_ticks = 3, lc_decay_per_tick = 0,
      lc_decayed_below = 0x3DCCCCCD, lc_archive_superseded_after_ticks = None\<rparr>"

record lifecycle_report =
  lr_tick :: u64
  lr_committed :: "bytes list"
  lr_promoted :: "bytes list"
  lr_semanticized :: "bytes list"
  lr_archived :: "bytes list"
  lr_decayed :: "bytes list"
  lr_transitions :: u64

record memory_lifecycle =
  ml_config :: lifecycle_config
  ml_tick :: u64

definition lifecycle_new :: "lifecycle_config \<Rightarrow> memory_lifecycle" where
  "lifecycle_new cfg = \<lparr>ml_config = cfg, ml_tick = 0\<rparr>"

section \<open>Promotion\<close>

text \<open>The copy on the target layer, its descent, and the new state of its origin, in this order.\<close>

definition promote :: "'s host \<Rightarrow> memory_record \<Rightarrow> bytes \<Rightarrow> memory_layer \<Rightarrow> memory_state \<Rightarrow> ('s, bytes) op" where
  "promote h rec origin_sk to_layer origin_state =
     (let doc = mr_doc rec; new_sk = layer_key to_layer (md_key doc)
      in obind (facade_put h (doc_new to_layer (md_key doc) (md_payload doc))) (\<lambda>_.
         othen (add_parents_of h new_sk [version_label doc])
         (othen (associate_keys h new_sk DerivedFrom origin_sk)
         (othen (set_state_of h origin_sk origin_state)
         (oret new_sk)))))"

definition record_age :: "u64 \<Rightarrow> memory_record \<Rightarrow> u64" where
  "record_age now rec =
     saturating_sub now (case md_meta (mr_doc rec) of Some m \<Rightarrow> mm_created_tick m | None \<Rightarrow> 0)"

definition record_importance :: "memory_record \<Rightarrow> u32" where
  "record_importance rec = (case md_meta (mr_doc rec) of Some m \<Rightarrow> mm_importance m | None \<Rightarrow> 0)"

text \<open>\<open>ripe\<close> is the test of a phase on the record of an active memory.\<close>

definition promote_row ::
    "'s host \<Rightarrow> (memory_record \<Rightarrow> bool) \<Rightarrow> memory_layer \<Rightarrow> memory_state \<Rightarrow> bytes \<Rightarrow> bytes list \<Rightarrow> ('s, bytes list) op" where
  "promote_row h ripe to_layer origin_state sk done = obind (get_state_of h sk) (\<lambda>st.
     if st \<noteq> Active then oret done
     else obind (export_of h sk) (\<lambda>r.
       case r of
         None \<Rightarrow> oret done
       | Some rec \<Rightarrow>
           if \<not> ripe rec then oret done
           else obind (promote h rec sk to_layer origin_state) (\<lambda>new_sk. oret (done @ [new_sk]))))"

definition layer_keys :: "'s engine \<Rightarrow> string \<Rightarrow> bytes list" where
  "layer_keys s p = map fst (facade_scan_prefix s (ascii p))"

definition promote_phase ::
    "'s host \<Rightarrow> string \<Rightarrow> (memory_record \<Rightarrow> bool) \<Rightarrow> memory_layer \<Rightarrow> memory_state \<Rightarrow> ('s, bytes list) op" where
  "promote_phase h p ripe to_layer origin_state = obind (oget (\<lambda>s. layer_keys s p)) (\<lambda>keys.
     ofold (promote_row h ripe to_layer origin_state) keys [])"

definition ripe_l1 :: "lifecycle_config \<Rightarrow> u64 \<Rightarrow> memory_record \<Rightarrow> bool" where
  "ripe_l1 cfg now rec \<longleftrightarrow> \<not> record_age now rec < lc_l1_commit_after_ticks cfg"

definition ripe_l2 :: "lifecycle_config \<Rightarrow> u64 \<Rightarrow> memory_record \<Rightarrow> bool" where
  "ripe_l2 cfg now rec \<longleftrightarrow> \<not> (f32_gt (lc_l2_to_l3_importance cfg) (record_importance rec) \<or>
     record_age now rec < lc_l2_to_l3_min_age_ticks cfg)"

definition ripe_l3 :: "lifecycle_config \<Rightarrow> u64 \<Rightarrow> memory_record \<Rightarrow> bool" where
  "ripe_l3 cfg now rec \<longleftrightarrow> \<not> (f32_gt (lc_l3_to_l4_importance cfg) (record_importance rec) \<or>
     record_age now rec < lc_l3_to_l4_min_age_ticks cfg)"

section \<open>Decay and archive\<close>

definition decayed_weight :: "lifecycle_config \<Rightarrow> u32 \<Rightarrow> u32" where
  "decayed_weight cfg imp = f32_max (f32_mul imp (f32_add 0x3F800000 (f32_neg (lc_decay_per_tick cfg)))) 0"

definition decay_row :: "'s host \<Rightarrow> lifecycle_config \<Rightarrow> bytes \<Rightarrow> bytes list \<Rightarrow> ('s, bytes list) op" where
  "decay_row h cfg sk done = obind (get_state_of h sk) (\<lambda>st.
     if st \<noteq> Active then oret done
     else obind (meta_of h sk) (\<lambda>m.
       case m of
         None \<Rightarrow> oret done
       | Some m \<Rightarrow>
           let imp = decayed_weight cfg (mm_importance m)
           in othen (set_importance h sk imp)
              (if f32_gt (lc_decayed_below cfg) imp
               then othen (set_state_of h sk Decayed) (oret (done @ [sk]))
               else oret done)))"

definition decay_phase :: "'s host \<Rightarrow> lifecycle_config \<Rightarrow> ('s, bytes list) op" where
  "decay_phase h cfg =
     (if \<not> f32_gt (lc_decay_per_tick cfg) 0 then oret []
      else ofold (\<lambda>p done. obind (oget (\<lambda>s. layer_keys s p)) (\<lambda>keys. ofold (decay_row h cfg) keys done))
        [''md/L2/'', ''md/L3/'', ''md/L4/'', ''md/L5/''] [])"

definition archive_row :: "'s host \<Rightarrow> u64 \<Rightarrow> u64 \<Rightarrow> bytes \<Rightarrow> bytes list \<Rightarrow> ('s, bytes list) op" where
  "archive_row h now after sk done = obind (get_state_of h sk) (\<lambda>st.
     if st \<noteq> Superseded then oret done
     else obind (meta_of h sk) (\<lambda>m.
       let age = (case m of Some m \<Rightarrow> saturating_sub now (mm_created_tick m) | None \<Rightarrow> 0)
       in if age \<ge> after then othen (set_state_of h sk Archived) (oret (done @ [sk])) else oret done))"

definition archive_phase :: "'s host \<Rightarrow> lifecycle_config \<Rightarrow> u64 \<Rightarrow> ('s, bytes list) op" where
  "archive_phase h cfg now =
     (case lc_archive_superseded_after_ticks cfg of
        None \<Rightarrow> oret []
      | Some after \<Rightarrow> obind (oget (\<lambda>s. layer_keys s ''md/'')) (\<lambda>keys. ofold (archive_row h now after) keys []))"

section \<open>The tick\<close>

text \<open>The counter of ticks moves before anything can fail.\<close>

definition next_tick :: "memory_lifecycle \<Rightarrow> memory_lifecycle" where
  "next_tick lc = lc\<lparr>ml_tick := saturating_inc (ml_tick lc)\<rparr>"

definition tick_pass :: "'s host \<Rightarrow> lifecycle_config \<Rightarrow> u64 \<Rightarrow> u64 \<Rightarrow> ('s, lifecycle_report) op" where
  "tick_pass h cfg t now =
     obind (promote_phase h ''md/L1/'' (ripe_l1 cfg now) L2EpisodicShort Archived) (\<lambda>committed.
     obind (promote_phase h ''md/L2/'' (ripe_l2 cfg now) L3EpisodicLong Archived) (\<lambda>promoted.
     obind (promote_phase h ''md/L3/'' (ripe_l3 cfg now) L4Semantic Superseded) (\<lambda>semanticized.
     obind (decay_phase h cfg) (\<lambda>decayed.
     obind (archive_phase h cfg now) (\<lambda>archived.
     oret \<lparr>lr_tick = t, lr_committed = committed, lr_promoted = promoted, lr_semanticized = semanticized,
       lr_archived = archived, lr_decayed = decayed,
       lr_transitions = of_nat (length committed + length promoted + length semanticized +
         length archived + length decayed)\<rparr>)))))"

definition lifecycle_tick ::
    "'s host \<Rightarrow> memory_lifecycle \<Rightarrow> u64 \<Rightarrow> 's engine \<Rightarrow> ((stop + lifecycle_report) \<times> memory_lifecycle) \<times> 's engine" where
  "lifecycle_tick h lc now s =
     (case tick_pass h (ml_config lc) (ml_tick (next_tick lc)) now s of (r, s') \<Rightarrow> ((r, next_tick lc), s'))"

end
