(* ===== verification/Facade_Calls.thy ===== *)
theory Facade_Calls
  imports Engine_Steps Lifecycle Triggers
begin

text \<open>
  The calls of the facade as data, what each performs, and the states that sequences of calls reach.
\<close>

section \<open>Calls of the facade\<close>

text \<open>
  Every call of the model that writes, but the dropping of the RAM tier and the rows that a host
  writes or removes by hand.  Of the readings one is listed: the others leave storage and RAM alone, too.
\<close>

datatype facade_call =
    Do_remember memory_layer bytes bytes
  | Do_put memory_doc
  | Do_put_operational memory_doc
  | Do_put_companion memory_doc
  | Do_get bytes
  | Do_set_state bytes memory_state
  | Do_importance bytes u32
  | Do_confidence bytes u32
  | Do_scope bytes bytes
  | Do_scope_dims bytes scope_dims
  | Do_model bytes bytes
  | Do_entities bytes "bytes list"
  | Do_content_type bytes bytes
  | Do_authority bytes u8
  | Do_parents bytes "bytes list"
  | Do_reinforce bytes u32
  | Do_feedback bytes bool u32
  | Do_supersede bytes bytes
  | Do_forget bytes
  | Do_transfer bytes memory_layer
  | Do_merge bytes bytes bytes
  | Do_associate bytes relation_kind bytes
  | Do_associate_checked bytes relation_kind bytes
  | Do_validity bytes u64 u64
  | Do_invalidate bytes u64
  | Do_ttl bytes u64
  | Do_event bytes bytes u64
  | Do_close_event bytes u64
  | Do_expire_old u64
  | Do_merge_remote memory_record
  | Do_import memory_record
  | Do_resolve bytes bytes
  | Do_dismiss bytes
  | Do_decide bytes arbitration_decision
  | Do_note_absence bytes bytes u64
  | Do_forget_absence bytes bytes
  | Do_trigger bytes "bytes list"
  | Do_forget_trigger bytes
  | Do_fact bytes u64
  | Do_exchange bytes bytes
  | Do_exchange_full bytes bytes "u32 list" "u32 list" u64
  | Do_episodic bytes bytes u64
  | Do_embedding bytes bytes "u32 list"
  | Do_semantic "bytes option" bytes bytes "u32 list" remember_options
  | Do_text "bytes option" bytes bytes remember_options
  | Do_operational "bytes option" memory_layer bytes bytes "u32 list option" remember_options
  | Do_doctrine "bytes option" bytes "u32 list"
  | Do_delete bytes
  | Do_purge u8 bytes bytes
  | Do_expire_ttl u64
  | Do_collect u64 gc_config
  | Do_tick memory_lifecycle u64

definition quiet :: "('s, 'a) op \<Rightarrow> ('s, unit) op" where
  "quiet m = obind m (\<lambda>_. oret ())"

fun perform :: "'s host \<Rightarrow> facade_call \<Rightarrow> ('s, unit) op" where
  "perform h (Do_remember l k t) = quiet (remember_text h l k t)"
| "perform h (Do_put d) = quiet (facade_put h d)"
| "perform h (Do_put_operational d) = quiet (facade_put_operational h d)"
| "perform h (Do_put_companion d) = quiet (put_companion h d)"
| "perform h (Do_get k) = quiet (get_by_storage_key h k)"
| "perform h (Do_set_state k st) = set_state_of h k st"
| "perform h (Do_importance k x) = set_importance h k x"
| "perform h (Do_confidence k x) = set_confidence h k x"
| "perform h (Do_scope k x) = set_scope h k x"
| "perform h (Do_scope_dims k x) = set_scope_dims h k x"
| "perform h (Do_model k x) = set_model_id h k x"
| "perform h (Do_entities k es) = set_entities h k es"
| "perform h (Do_content_type k ct) = set_content_type h k ct"
| "perform h (Do_authority k a) = set_authority h k a"
| "perform h (Do_parents k ps) = add_parents_of h k ps"
| "perform h (Do_reinforce k x) = reinforce h k x"
| "perform h (Do_feedback k p x) = feedback h k p x"
| "perform h (Do_supersede a b) = supersede h a b"
| "perform h (Do_forget k) = forget h k"
| "perform h (Do_transfer k l) = quiet (transfer_to h k l)"
| "perform h (Do_merge a b k) = quiet (merge_memories h a b k)"
| "perform h (Do_associate a r b) = associate_keys h a r b"
| "perform h (Do_associate_checked a r b) = associate_checked h a r b"
| "perform h (Do_validity k f u) = set_validity_of h k f u"
| "perform h (Do_invalidate k t) = invalidate_memory h k t"
| "perform h (Do_ttl k t) = set_ttl_of h k t"
| "perform h (Do_event k e t) = set_event_of h k e t"
| "perform h (Do_close_event k t) = close_event h k t"
| "perform h (Do_expire_old t) = quiet (expire_old h t)"
| "perform h (Do_merge_remote r) = quiet (merge_remote h r)"
| "perform h (Do_import r) = quiet (import_record h r)"
| "perform h (Do_resolve c v) = quiet (resolve_conflict h c v)"
| "perform h (Do_dismiss c) = dismiss_conflict h c"
| "perform h (Do_decide c d) = apply_decision h c d"
| "perform h (Do_note_absence q sc t) = quiet (note_absence h q sc t)"
| "perform h (Do_forget_absence q sc) = quiet (forget_absence h q sc)"
| "perform h (Do_trigger p ns) = set_trigger h p ns"
| "perform h (Do_forget_trigger p) = quiet (forget_trigger h p)"
| "perform h (Do_fact f t) = remember_fact h f t"
| "perform h (Do_exchange u r) = remember_exchange h u r"
| "perform h (Do_exchange_full u r eu er t) = remember_exchange_full h u r eu er t"
| "perform h (Do_episodic u r t) = quiet (remember_episodic h u r t)"
| "perform h (Do_embedding k x e) = remember_semantic h k x e"
| "perform h (Do_semantic sc k x e opts) = quiet (remember_semantic_with h sc k x e opts)"
| "perform h (Do_text sc k x opts) = quiet (remember_text_with h sc k x opts)"
| "perform h (Do_operational sc l k x e opts) = quiet (remember_operational h sc l k x e opts)"
| "perform h (Do_doctrine sc x e) = quiet (ensure_doctrine h sc x e)"
| "perform h (Do_delete k) = quiet (delete_memory h k)"
| "perform h (Do_purge sel k why) = quiet (forget_purge sel h k why)"
| "perform h (Do_expire_ttl t) = quiet (expire_ttl h t)"
| "perform h (Do_collect t cfg) = quiet (collect_garbage h t cfg)"
| "perform h (Do_tick lc t) = quiet (tick_pass h (ml_config lc) (ml_tick (next_tick lc)) t)"

text \<open>The calls that can delete a document.\<close>

fun removes :: "facade_call \<Rightarrow> bool" where
  "removes (Do_delete k) = True"
| "removes (Do_purge sel k why) = True"
| "removes (Do_expire_ttl t) = True"
| "removes (Do_collect t cfg) = True"
| "removes _ = False"

section \<open>Relations kept along writes\<close>

context step_preorder
begin

lemma along_attempt: "along R m \<Longrightarrow> along R (attempt m)"
  by (rule alongI) (auto simp: attempt_def dest: along_run split: prod.split sum.split stop.split)

lemma along_only_if: "along R m \<Longrightarrow> along R (only_if c m)"
  by (simp add: only_if_def along_pure)

lemma along_stored_doctrine:
  assumes "along R (engine_get h L2EpisodicShort DOCTRINE_KEY)"
  shows "along R (stored_doctrine h)"
  by (rule alongI) (auto simp: stored_doctrine_def dest: along_run [OF assms] split: prod.split sum.split stop.split)

lemma along_quiet: "along R m \<Longrightarrow> along R (quiet m)" "along R n \<Longrightarrow> along R (put_quiet n)"
  by (auto simp: quiet_def put_quiet_def intro!: along_rules)

lemmas along_writes = along_attempt along_only_if along_stored_doctrine along_quiet

end

section \<open>Reachable states\<close>

text \<open>
  The engines that a sequence of calls of some kind leads to.  A call that fails leaves what it had
  done, and the next one goes on from there.
\<close>

inductive calls :: "(facade_call \<Rightarrow> bool) \<Rightarrow> 's host \<Rightarrow> 's engine \<Rightarrow> 's engine \<Rightarrow> bool" for allowed h s where
  start: "calls allowed h s s"
| call: "calls allowed h s t \<Longrightarrow> allowed c \<Longrightarrow> perform h c t = (r, u) \<Longrightarrow> calls allowed h s u"

inductive_cases callsE: "calls allowed h s t"

text \<open>What every allowed call keeps, every reachable state has.\<close>

lemma calls_invariant:
  assumes "calls allowed h s t" "I s" "\<And>c t. allowed c \<Longrightarrow> I t \<Longrightarrow> I (snd (perform h c t))"
  shows "I t"
  using assms(1,2)
proof (induction rule: calls.induct)
  case (call t c r u)
  then show ?case using assms(3) [of c t] by simp
qed

end
