(* ===== verification/Add_Only.thy ===== *)
theory Add_Only
  imports Facade_Calls Merge_Laws Sweep_Laws
begin

text \<open>
  The database forgets by marking: over a backend that takes every row, no call of the facade but
  deletion, purge and the two collectors removes a document, however the calls are interleaved and
  wherever one of them fails.
\<close>

section \<open>Operations that spare the documents\<close>

definition is_doc :: "bytes \<Rightarrow> bool" where
  "is_doc k \<longleftrightarrow> prefix (ascii ''md/'') k"

lemma side_not_doc [simp]:
  "\<not> is_doc (state_key sk)" "\<not> is_doc (validity_key sk)" "\<not> is_doc (ttl_key sk)" "\<not> is_doc (event_key sk)"
  "\<not> is_doc (meta_key sk)" "\<not> is_doc (version_row_key v)" "\<not> is_doc (conflict_key c)" "\<not> is_doc (rel_storage_key r a b)"
  "\<not> is_doc (trigger_key p)" "\<not> is_doc (negative_key q n)"
  by (simp_all add: is_doc_def side_keys version_row_key_def conflict_key_def rel_storage_key_def trigger_key_def
    TRIGGER_PREFIX_def negative_key_def NEGATIVE_PREFIX_def ascii_def)

definition sound :: "('s \<Rightarrow> bool) \<Rightarrow> 's engine \<Rightarrow> bool" where
  "sound good s \<longleftrightarrow> good (en_storage s) \<and> ram_keys (en_ram s) \<and> (\<forall>(k, w) \<in> set (en_ram s). w \<noteq> [])"

definition spares_docs :: "('s \<Rightarrow> bool) \<Rightarrow> 's host \<Rightarrow> 's engine \<Rightarrow> 's engine \<Rightarrow> bool" where
  "spares_docs good h s t \<longleftrightarrow> (sound good s \<longrightarrow> sound good t \<and> (\<forall>k. is_doc k \<longrightarrow> doc_blob h s k \<noteq> None \<longrightarrow> doc_blob h t k \<noteq> None))"

abbreviation sparing :: "('s \<Rightarrow> bool) \<Rightarrow> 's host \<Rightarrow> ('s, 'a) op \<Rightarrow> bool" where
  "sparing good h \<equiv> along (spares_docs good h)"

interpretation spare: step_preorder "spares_docs good h" for good h
  by unfold_locales (auto simp: spares_docs_def)

definition sparing_storage :: "('s \<Rightarrow> bool) \<Rightarrow> 's host \<Rightarrow> ('s \<Rightarrow> 's) \<Rightarrow> bool" where
  "sparing_storage good h f \<longleftrightarrow> (\<forall>st. good st \<longrightarrow> good (f st) \<and>
     (\<forall>k. is_doc k \<longrightarrow> be_get (ho_backend h) st k \<noteq> None \<longrightarrow> be_get (ho_backend h) (f st) k \<noteq> None))"

text \<open>What does not touch storage and RAM.\<close>

definition same_docs :: "'s engine \<Rightarrow> 's engine \<Rightarrow> bool" where
  "same_docs s s' \<longleftrightarrow> en_storage s' = en_storage s \<and> en_ram s' = en_ram s"

named_theorems spares \<open>operations that spare the documents\<close>

declare spare.along_rules [spares]

lemma sparingI:
  "(\<And>s. sound good s \<Longrightarrow> sound good (snd (m s)) \<and>
      (\<forall>k. is_doc k \<longrightarrow> doc_blob h s k \<noteq> None \<longrightarrow> doc_blob h (snd (m s)) k \<noteq> None)) \<Longrightarrow> sparing good h m"
  by (intro alongI) (simp add: spares_docs_def)

lemma spares_same: "same_docs s t \<Longrightarrow> spares_docs good h s t"
  by (simp add: spares_docs_def same_docs_def sound_def doc_blob_def sto_get_def split: option.split)

lemma spare_basic [spares]: "sparing good h (art_put k v)" "sparing good h (art_del k)" "sparing good h fresh_id"
  "sparing good h (tick_author d t)" "sparing good h (get_by_storage_key h sk)"
  by (auto intro!: alongI spares_same simp: same_docs_def oret_def ofail_def oget_def art_put_def art_del_def omod_def
    fresh_id_def tick_author_def Let_def get_by_storage_key_def othen_def obind_def split: option.split sum.split)

lemma spare_mod [spares]: "(\<And>s. same_docs s (g s)) \<Longrightarrow> sparing good h (omod g)"
  by (intro along_mod spares_same)

text \<open>A backend that takes every row.\<close>

locale total_store = engine_store good view h "\<lambda>_ _. True" means
  for good :: "'s \<Rightarrow> bool" and view and h :: "'s host" and means
begin

lemma on_storage_snd: "snd (on_storage f s) = s\<lparr>en_storage := snd (f (en_storage s))\<rparr>"
  by (simp add: on_storage_def split: prod.split)

lemma spare_on_storage: "sparing_storage good h (\<lambda>st. snd (f st)) \<Longrightarrow> sparing good h (on_storage f)"
  by (rule sparingI) (auto simp: sparing_storage_def on_storage_snd sound_def doc_blob_def sto_get_def split: option.split)

lemma storage_put: "\<not> is_doc k \<or> v \<noteq> [] \<Longrightarrow> sparing_storage good h (\<lambda>st. snd (be_put (ho_backend h) st k v))"
  unfolding sparing_storage_def using put_result(2,3) [OF _ TrueI] means_some [of v] by (auto simp: get_view)

lemma storage_del: "\<not> is_doc k \<Longrightarrow> sparing_storage good h (\<lambda>st. snd (be_del (ho_backend h) st k))"
  unfolding sparing_storage_def using del_result(2,3) [OF _ TrueI] by (auto simp: get_view)

lemma storage_id: "sparing_storage good h (\<lambda>st. st)"
  by (simp add: sparing_storage_def)

lemma storage_if: "sparing_storage good h f \<Longrightarrow> sparing_storage good h g \<Longrightarrow> sparing_storage good h (\<lambda>st. if c st then f st else g st)"
  by (simp add: sparing_storage_def)

lemma spare_put [spares]: "\<not> is_doc k \<or> v \<noteq> [] \<Longrightarrow> sparing good h (sto_put h k v)"
  unfolding sto_put_def by (intro spare_on_storage storage_put)

lemma spare_del [spares]: "\<not> is_doc k \<Longrightarrow> sparing good h (sto_del h k)"
  unfolding sto_del_def by (intro spare_on_storage storage_del)


lemma spare_materialize [spares]: "sparing good h (materialize_ram_doc h sk)"
proof (rule sparingI)
  fix s assume s: "sound good s"
  show "sound good (snd (materialize_ram_doc h sk s)) \<and>
    (\<forall>k. is_doc k \<longrightarrow> doc_blob h s k \<noteq> None \<longrightarrow> doc_blob h (snd (materialize_ram_doc h sk s)) k \<noteq> None)"
  proof (cases "bt_get (en_ram s) sk")
    case None
    then show ?thesis using s by (simp add: materialize_ram_doc_def obind_def oget_def oret_def)
  next
    case (Some w)
    have good: "good (en_storage s)" "bt_wf (en_ram s)" and w: "w \<noteq> []"
      using s Some by (auto simp: sound_def ram_keys_def dest!: map_of_SomeD)
    note put = put_result [OF good(1) TrueI, of sk w]
    have run: "snd (materialize_ram_doc h sk s) =
        s\<lparr>en_ram := bt_remove sk (en_ram s), en_storage := snd (be_put (ho_backend h) (en_storage s) sk w)\<rparr>"
      by (simp add: materialize_ram_doc_def obind_def oget_def othen_def omod_def sto_put_def on_storage_def Some split: prod.split)
    show ?thesis
      unfolding run using s put good Some means_some [OF w] set_bt_remove [of sk "en_ram s"]
      by (auto simp: sound_def ram_keys_remove doc_blob_def sto_get_def get_view split: option.splits if_splits)
  qed
qed

lemma spare_store_blob [spares]:
  assumes "is_ram_layer layer \<longrightarrow> prefix (ascii ''md/L0/'') sk \<or> prefix (ascii ''md/L1/'') sk" "blob \<noteq> []"
  shows "sparing good h (store_blob h layer sk blob)"
proof (cases "is_ram_layer layer")
  case True
  show ?thesis
  proof (rule sparingI)
    fix s assume s: "sound good s"
    let ?m = "bt_insert sk blob (en_ram s)"
    have run: "snd (store_blob h layer sk blob s) = s\<lparr>en_ram := ?m, en_ram_puts := saturating_inc (en_ram_puts s)\<rparr>"
      using True by (simp add: store_blob_def omod_def)
    have "sound good (s\<lparr>en_ram := ?m, en_ram_puts := saturating_inc (en_ram_puts s)\<rparr>)"
      using s assms True set_bt_insert [of sk blob "en_ram s"] by (auto simp: sound_def ram_keys_insert)
    then show "sound good (snd (store_blob h layer sk blob s)) \<and>
      (\<forall>k. is_doc k \<longrightarrow> doc_blob h s k \<noteq> None \<longrightarrow> doc_blob h (snd (store_blob h layer sk blob s)) k \<noteq> None)"
      unfolding run using s by (auto simp: doc_blob_def sound_def ram_keys_def sto_get_def split: option.split)
  qed
next
  case False
  then show ?thesis using assms(2) by (auto simp: store_blob_def intro!: spares)
qed

lemma spare_index_doc [spares]: "sparing good h (index_doc h did doc sk)"
  unfolding index_doc_def
  by (intro spares) (auto simp: same_docs_def index_vector_def index_text_def index_ids_def note_vec_def Let_def split: option.split)

lemma spare_put_inner [spares]: "sparing good h (put_inner h doc t)"
proof -
  have old: "same_docs s (unnote_old h l sk s)" for l sk s
    by (auto simp: same_docs_def unnote_old_def unnote_vec_def split: option.split sum.split)
  have blob: "doc_encode d \<noteq> []" for d by (simp add: doc_encode_def MAGIC_def ascii_def)
  show ?thesis
    unfolding put_inner_def Let_def persist_meta_def
    by (intro spares old; simp add: blob same_docs_def reindex_entities_def storage_key_ram)
qed

lemma spare_write_meta [spares]: "sparing good h (write_meta h sk m)"
  unfolding write_meta_def by (intro spares) (simp_all add: same_docs_def reindex_entities_def)

lemma spare_ensure_meta [spares]: "sparing good h (ensure_meta h sk)"
  unfolding ensure_meta_def Let_def by (intro spares; simp add: same_docs_def)

lemma spare_set_state [spares]: "sparing good h (set_state h sk st)"
  unfolding set_state_def
  by (intro spares spare_on_storage)
    (auto simp: store_state_def sparing_storage_def put_result [OF _ TrueI] del_result [OF _ TrueI] get_view means_some
      split: option.split)

lemma spare_set_validity [spares]: "sparing good h (set_validity h sk a b)"
  unfolding set_validity_def store_validity_def
  by (cases "b \<le> a") (auto intro!: spares spare_on_storage storage_del storage_put)

end

section \<open>The calls of the facade\<close>

declare spare.along_writes [spares]

lemma spare_known [spares]: "(\<And>sk. sparing good h (f sk)) \<Longrightarrow> sparing good h (with_key h key f)"
  unfolding with_key_def known_key_def by (intro spares)

lemma spare_validate [spares]: "sparing good h (validate_written x)" "sparing good h (unless_written x)"
  unfolding unless_written_def validate_written_def by (intro spares)+

lemma spare_must_exist [spares]: "sparing good h (must_exist h sk msg)"
  unfolding must_exist_def by (intro spares)

lemma spare_export [spares]: "sparing good h (export_record h sk)"
  unfolding export_record_def by (intro spares)

context total_store
begin

lemma spare_update_meta [spares]: "sparing good h (update_meta h sk f)"
  unfolding update_meta_def by (intro spares)

lemma spare_add_parents [spares]: "sparing good h (add_parents h sk ps)"
  unfolding add_parents_def by (intro spares)

lemma spare_associate [spares]: "sparing good h (associate h a r b)"
  unfolding associate_def Let_def by (intro spares) simp_all

lemma spare_put_conflict [spares]: "sparing good h (on_storage (\<lambda>st. put_conflict (ho_backend h) st c))"
proof (cases "conflict_try_encode c")
  case (Inl a)
  have "sparing good h (on_storage (\<lambda>st. (Inl e, st)))" for e
    by (intro spare_on_storage) (simp add: sparing_storage_def)
  then show ?thesis using Inl by (cases a) (simp_all add: put_conflict_def)
next
  case (Inr w)
  have "sparing good h (on_storage (\<lambda>st. be_put (ho_backend h) st (conflict_key (cr_conflict_id c)) w))"
    by (intro spare_on_storage storage_put) simp
  then show ?thesis using Inr by (simp add: put_conflict_def)
qed

lemma spare_import [spares]: "sparing good h (import_record h rec)"
  unfolding import_record_def Let_def by (intro spares)

lemma spare_engine_put [spares]: "sparing good h (engine_put h d)"
  unfolding engine_put_def by (intro spares)

lemma spare_resolve [spares]: "sparing good h (resolve_conflict h c v)"
  unfolding resolve_conflict_def crown_def by (intro spares)

lemma spare_merge [spares]: "sparing good h (merge_memories h a b k)"
  unfolding merge_memories_def Let_def by (intro spares)

lemma spare_conflict_or_fail [spares]: "sparing good h (conflict_or_fail h c)"
  unfolding conflict_or_fail_def by (intro spares)

lemma spare_list2: "sparing good h m \<Longrightarrow> (\<And>a b r. sparing good h (f a b r)) \<Longrightarrow>
    sparing good h (case xs of a # b # r \<Rightarrow> f a b r | _ \<Rightarrow> m)"
  by (auto split: list.split)

lemma spare_decide [spares]: "sparing good h (apply_decision h c d)"
proof -
  have "sparing good h (merge_candidates h c a b t)" for a b t unfolding merge_candidates_def by (intro spares)
  then show ?thesis
    unfolding apply_decision_def by (cases "ad_action d") (auto intro!: spares split: list.split)
qed

lemma spare_content_type [spares]: "sparing good h (set_content_type h k ct)"
  unfolding set_content_type_def by (intro spares spare.along_try)

lemma spare_storage_rows [spares]:
  "sparing good h (on_storage (\<lambda>st. set_ttl (ho_backend h) st sk t))"
  "sparing good h (on_storage (\<lambda>st. set_event (ho_backend h) st sk e t))"
  unfolding set_ttl_def set_event_def
  by (cases "t = 0"; auto intro!: spare_on_storage storage_del storage_put storage_id)
    (cases "e = []"; cases "length e > MAX_KLEN"; auto intro!: spare_on_storage storage_del storage_put storage_id)

lemma spare_delete_conflict [spares]: "sparing good h (on_storage (\<lambda>st. delete_conflict (ho_backend h) st c))"
  unfolding delete_conflict_def by (intro spare_on_storage storage_del) simp

lemma spare_weights [spares]: "sparing good h (set_importance h k x)" "sparing good h (set_confidence h k x)"
  "sparing good h (reinforce h k x)" "sparing good h (feedback h k p x)" "sparing good h (set_authority h k a)"
  unfolding set_importance_def set_confidence_def reinforce_def feedback_def set_authority_def Let_def by (intro spares)+

lemma spare_labels [spares]: "sparing good h (set_scope h k y)" "sparing good h (set_scope_dims h k ds)"
  "sparing good h (set_model_id h k y)" "sparing good h (set_entities h k es)" "sparing good h (add_parents_of h k ps)"
  "sparing good h (set_state_of h k st)" "sparing good h (forget h k)"
  unfolding set_scope_def set_scope_dims_def set_model_id_def set_entities_def add_parents_of_def set_state_of_def forget_def
  by (intro spares)+

lemma spare_versions [spares]: "sparing good h (supersede h a b)" "sparing good h (transfer_to h a l)"
  unfolding supersede_def supersede_rows_def link_versions_def transfer_to_def Let_def by (intro spares)+

lemma spare_expire_row [spares]: "sparing good h (expire_row h t row n)"
  by (cases row) (auto simp: expire_row_def Let_def intro!: spares)

lemma spare_times [spares]: "sparing good h (set_validity_of h k f u)" "sparing good h (invalidate_memory h k t)"
  "sparing good h (set_ttl_of h k t)" "sparing good h (set_event_of h k e t)" "sparing good h (close_event h k t)"
  "sparing good h (expire_old h t)"
  unfolding set_validity_of_def invalidate_memory_def invalidate_def set_ttl_of_def set_event_of_def close_event_def
    expire_old_def scan_rows_def
  by (intro spares)+

lemma spare_remote [spares]: "sparing good h (merge_remote h rec)" "sparing good h (dismiss_conflict h c)"
  unfolding merge_remote_def merge_over_def adopt_def record_conflict_def dismiss_conflict_def Let_def by (intro spares)+

lemma spare_notes [spares]: "sparing good h (note_absence h q sc t)" "sparing good h (forget_absence h q sc)"
  "sparing good h (set_trigger h p ns)" "sparing good h (forget_trigger h p)"
  unfolding note_absence_def forget_absence_def set_trigger_def forget_trigger_def Let_def by (intro spares; simp)+

lemma spare_get_layer [spares]: "sparing good h (engine_get h l k)"
  unfolding engine_get_def by (intro spares)

lemma spare_finish [spares]: "sparing good h (finish_remember h d sk c opts)"
  unfolding finish_remember_def Let_def by (intro spares) (simp add: same_docs_def)

lemma spare_era [spares]: "sparing good h (checked_embedding e)"
  unfolding checked_embedding_def check_era_dims_def by (auto intro!: spares split: sum.split)

lemma spare_writes [spares]: "sparing good h (remember_semantic h k x e)" "sparing good h (remember_exchange h u r)"
  "sparing good h (operational_doc l k x eo)"
  unfolding remember_semantic_def remember_exchange_def operational_doc_def put_companion_def
  by (intro spares)+

lemma spare_semantic_with [spares]: "sparing good h (remember_semantic_with h d k x e opts)"
  unfolding remember_semantic_with_def by (intro spares)

lemma spare_doctrine [spares]: "sparing good h (ensure_doctrine h d x e)"
  unfolding ensure_doctrine_def Let_def relabel_doctrine_def by (intro spares)

lemma spare_tick [spares]: "sparing good h (tick_pass h cfg t now)"
proof -
  have promote: "sparing good h (promote_phase h p ripe l st)" for p ripe l st
    unfolding promote_phase_def promote_row_def promote_def get_state_of_def export_of_def facade_put_def add_parents_of_def
      associate_keys_def set_state_of_def Let_def
    by (intro spares)
  have decay: "sparing good h (decay_phase h cfg)" "sparing good h (archive_phase h cfg now)"
    unfolding decay_phase_def decay_row_def archive_phase_def archive_row_def get_state_of_def meta_of_def set_state_of_def Let_def
    by (intro spares)+
  show ?thesis unfolding tick_pass_def by (intro spares promote decay)
qed

lemma spare_perform: "\<not> removes c \<Longrightarrow> sparing good h (perform h c)"
  by (cases c) (simp_all only: perform.simps removes.simps facade_put_def facade_put_operational_def remember_text_def
      put_operational_def put_companion_def dismiss_conflict_def remember_fact_def remember_exchange_full_def
      remember_episodic_def remember_text_with_def remember_operational_def associate_keys_def
      associate_checked_def Let_def not_True_eq_False,
    (intro spares)+)

end

interpretation ram_total: total_store "\<lambda>s. bt_wf (im_map s)" "\<lambda>s. bt_get (im_map s)" "ram_host alnum avx2" Some
    for alnum avx2
  unfolding total_store_def by (rule ram_engine.engine_store_axioms)




end
