(* ===== verification/Garbage_Laws.thy ===== *)
theory Garbage_Laws
  imports Add_Only
begin

text \<open>
  What a collection takes away: memories whose time to live has run out, and a bounded number of
  decayed or archived ones that are old enough; every other document stays as it is.
\<close>

section \<open>Victims\<close>

lemma gc_victims_bound:
  "length vs < gc_max_per_pass cfg \<or> vs = [] \<Longrightarrow> length (gc_victims h s now cfg rows vs) \<le> max 1 (gc_max_per_pass cfg)"
proof (induction rows arbitrary: vs)
  case Nil
  then show ?case by auto
next
  case (Cons row rows)
  obtain mk w where row: "row = (mk, w)" by (cases row)
  show ?case
  proof (cases "strip_prefix META_PREFIX mk")
    case None
    then show ?thesis using Cons by (simp add: row)
  next
    case (Some k)
    let ?sk = "utf8_lossy k"
    let ?vs = "if old_enough now cfg (meta_at h s ?sk) then vs @ [?sk] else vs"
    have "length ?vs \<le> max 1 (gc_max_per_pass cfg)" using Cons.prems by auto
    moreover have "length (gc_victims h s now cfg rows ?vs) \<le> max 1 (gc_max_per_pass cfg)" if "length ?vs < gc_max_per_pass cfg"
      using Cons.IH [of ?vs] that by blast
    ultimately show ?thesis using Cons.IH [OF Cons.prems] by (simp add: row Some Let_def not_le)
  qed
qed

definition garbage :: "'s host \<Rightarrow> 's engine \<Rightarrow> u64 \<Rightarrow> gc_config \<Rightarrow> bytes \<Rightarrow> bool" where
  "garbage h s now cfg sk \<longleftrightarrow> prefix (ascii ''md/'') sk \<and>
     (let st = get_state (ho_backend h) (en_storage s) sk in
        st = Decayed \<and> gc_collect_decayed cfg \<or> st = Archived \<and> gc_collect_archived cfg) \<and>
     (\<exists>m. meta_at h s sk = Some m \<and> saturating_sub now (mm_created_tick m) \<ge> gc_min_age_ticks cfg)"

lemma gc_victims_garbage:
  "sk \<in> set (gc_victims h s now cfg rows vs) \<Longrightarrow> sk \<in> set vs \<or> garbage h s now cfg sk"
proof (induction rows arbitrary: vs)
  case (Cons row rows)
  obtain mk w where row: "row = (mk, w)" by (cases row)
  show ?case
  proof (cases "strip_prefix META_PREFIX mk")
    case None
    then show ?thesis using Cons by (simp add: row)
  next
    case (Some k)
    let ?sk = "utf8_lossy k"
    let ?vs = "if old_enough now cfg (meta_at h s ?sk) then vs @ [?sk] else vs"
    let ?take = "prefix (ascii ''md/'') ?sk \<and> gc_takes cfg (get_state (ho_backend h) (en_storage s) ?sk)"
    have "garbage h s now cfg ?sk" if "?take" "old_enough now cfg (meta_at h s ?sk)"
      using that by (auto simp: garbage_def gc_takes_def old_enough_def Let_def split: memory_state.splits option.splits)
    then have new: "x \<in> set vs \<or> garbage h s now cfg x" if "?take" "x \<in> set ?vs" for x using that by (auto split: if_splits)
    show ?thesis
    proof (cases ?take)
      case False
      then have "gc_victims h s now cfg (row # rows) vs = gc_victims h s now cfg rows vs" by (auto simp: row Some Let_def)
      then show ?thesis using Cons by simp
    next
      case True
      then have "gc_victims h s now cfg (row # rows) vs =
          (if length ?vs \<ge> gc_max_per_pass cfg then ?vs else gc_victims h s now cfg rows ?vs)"
        by (simp add: row Some Let_def)
      with Cons.prems have "sk \<in> set ?vs \<or> sk \<in> set (gc_victims h s now cfg rows ?vs)" by (auto split: if_splits)
      then have "sk \<in> set ?vs \<or> garbage h s now cfg sk" using Cons.IH [of ?vs] by blast
      then show ?thesis using new [OF True] by blast
    qed
  qed
qed simp

section \<open>Rows that may go\<close>

text \<open>
  Of the keys in a set, documents may change and side rows may be deleted; a state row may become
  invalidated, but not one that says archived or decayed.
\<close>

definition may_become :: "bytes set \<Rightarrow> bytes \<Rightarrow> bytes option \<Rightarrow> bytes option \<Rightarrow> bool" where
  "may_become T k x y \<longleftrightarrow> x = y \<or> k \<in> T \<and> (is_doc k \<or> y = None) \<or>
     k \<in> range state_key \<and> y = Some [state_u8 Invalidated] \<and> (k \<in> T \<or> x \<notin> {Some [state_u8 Archived], Some [state_u8 Decayed]})"

definition settles :: "bytes set \<Rightarrow> ('s \<Rightarrow> bool) \<Rightarrow> 's host \<Rightarrow> 's engine \<Rightarrow> 's engine \<Rightarrow> bool" where
  "settles T good h s t \<longleftrightarrow> (sound good s \<longrightarrow> sound good t \<and> (\<forall>k. may_become T k (doc_blob h s k) (doc_blob h t k)))"

abbreviation settling :: "bytes set \<Rightarrow> ('s \<Rightarrow> bool) \<Rightarrow> 's host \<Rightarrow> ('s, 'a) op \<Rightarrow> bool" where
  "settling T good h \<equiv> along (settles T good h)"

text \<open>The side rows that a deletion of some memories may touch: no state and no metadata of another one.\<close>

definition rows_of :: "bytes set \<Rightarrow> bytes set" where
  "rows_of D = {k. \<not> is_doc k \<and> (\<forall>q. q \<notin> D \<longrightarrow> k \<noteq> state_key q \<and> k \<noteq> meta_key q)}"

abbreviation sides :: "bytes set \<Rightarrow> bytes set" where
  "sides D \<equiv> D \<union> rows_of D"

lemma rows_of_keys [simp]: "state_key k \<in> rows_of D \<longleftrightarrow> k \<in> D" "meta_key k \<in> rows_of D \<longleftrightarrow> k \<in> D"
  "validity_key k \<in> rows_of D" "ttl_key k \<in> rows_of D" "event_key k \<in> rows_of D" "version_row_key v \<in> rows_of D"
  "rel_storage_key r a b \<in> rows_of D" "is_doc k \<Longrightarrow> k \<notin> rows_of D"
  by (auto simp: rows_of_def side_keys version_row_key_def rel_storage_key_def is_doc_def ascii_def)

lemma rows_of_mono: "D \<subseteq> E \<Longrightarrow> rows_of D \<subseteq> rows_of E"
  by (auto simp: rows_of_def)

text \<open>The memory of a row of \<open>sys/ttl/\<close> that has run out.\<close>

definition ttl_due :: "u64 \<Rightarrow> bytes \<times> bytes \<Rightarrow> bytes set" where
  "ttl_due now = (\<lambda>(tk, w). if length w = 8 \<and> of_nat (le_val w) \<noteq> (0 :: u64) \<and> of_nat (le_val w) \<le> now
     then {utf8_lossy (drop 8 tk)} else {})"

text \<open>The rows of \<open>sys/ttl/\<close>.\<close>

definition ttl_rows :: "'s host \<Rightarrow> 's engine \<Rightarrow> (bytes \<times> bytes) list" where
  "ttl_rows h s = be_scan (ho_backend h) (en_storage s) (ascii ''sys/ttl/'')"

definition named_documents :: "(bytes \<times> bytes) list \<Rightarrow> bool" where
  "named_documents rows \<longleftrightarrow> (\<forall>(tk, w) \<in> set rows. utf8_valid (drop 8 tk) \<and> is_doc (drop 8 tk))"

lemma may_become_trans: "may_become T k x y \<Longrightarrow> may_become T k y z \<Longrightarrow> may_become T k x z"
  by (cases "k \<in> T") (auto simp: may_become_def state_from_u8_def)

lemma may_become_same [simp]: "may_become T k x x"
  by (simp add: may_become_def)

interpretation settle: step_preorder "settles T good h" for T good h
  by unfold_locales (auto simp: settles_def intro: may_become_trans)

lemma settles_mono: "settles T good h s t \<Longrightarrow> T \<subseteq> T' \<Longrightarrow> settles T' good h s t"
  by (auto simp: settles_def may_become_def)

lemma settled_kept: "settles T good h s t \<Longrightarrow> sound good s \<Longrightarrow> is_doc k \<Longrightarrow> k \<notin> T \<Longrightarrow> doc_blob h t k = doc_blob h s k"
  by (force simp: settles_def may_become_def)

named_theorems settled \<open>operations that keep what is not garbage\<close>

declare settle.along_rules [settled]

lemma settlingI:
  "(\<And>s. sound good s \<Longrightarrow> sound good (snd (m s)) \<and> (\<forall>k. may_become T k (doc_blob h s k) (doc_blob h (snd (m s)) k))) \<Longrightarrow>
   settling T good h m"
  by (intro alongI) (simp add: settles_def)

lemma same_docs_blob: "same_docs s t \<Longrightarrow> doc_blob h t k = doc_blob h s k"
  by (simp add: same_docs_def doc_blob_def sto_get_def split: option.split)

lemma settles_same: "same_docs s t \<Longrightarrow> settles T good h s t"
  using same_docs_blob [of s t h] by (simp add: settles_def) (simp add: sound_def same_docs_def)

lemma settle_basic [settled]: "settling T good h (art_del k)" "settling T good h (get_by_storage_key h sk)"
    "settling T good h (reclaim_bq_orphans n)"
  by (auto intro!: alongI settles_same simp: same_docs_def oret_def ofail_def oget_def art_del_def omod_def Let_def
    get_by_storage_key_def othen_def obind_def reclaim_bq_orphans_def split: option.split sum.split)

lemma settle_mod [settled]: "(\<And>s. same_docs s (g s)) \<Longrightarrow> settling T good h (omod g)"
  by (intro along_mod settles_same)

lemma settle_known [settled]: "(\<And>sk. settling T good h (f sk)) \<Longrightarrow> settling T good h (with_key h key f)"
  unfolding with_key_def known_key_def by (intro settled)

lemma with_key_doc: "is_doc sk \<Longrightarrow> with_key h sk f = f sk"
  by (simp add: with_key_def known_key_def fun_eq_iff obind_def oget_def resolve_md is_doc_def)

lemma same_docs_unnote: "same_docs s (unnote_dead sk old s)"
  by (auto simp: same_docs_def unnote_dead_def unnote_vec_def split: option.split sum.split)

context total_store
begin

lemma settle_on_storage:
  assumes "\<And>st k. good st \<Longrightarrow> good (snd (f st)) \<and> may_become T k (be_get (ho_backend h) st k) (be_get (ho_backend h) (snd (f st)) k)"
  shows "settling T good h (on_storage f)"
  by (rule settlingI) (use assms in \<open>auto simp: on_storage_snd sound_def doc_blob_def sto_get_def split: option.split\<close>)

lemma settle_del [settled]: "k \<in> T \<Longrightarrow> settling T good h (sto_del h k)"
  unfolding sto_del_def
  by (rule settle_on_storage) (use del_result(2,3) [OF _ TrueI] in \<open>auto simp: get_view may_become_def\<close>)

lemma settle_materialize [settled]: "settling T good h (materialize_ram_doc h sk)"
proof (rule settlingI)
  fix s assume s: "sound good s"
  show "sound good (snd (materialize_ram_doc h sk s)) \<and>
    (\<forall>k. may_become T k (doc_blob h s k) (doc_blob h (snd (materialize_ram_doc h sk s)) k))"
  proof (cases "bt_get (en_ram s) sk")
    case None
    then show ?thesis using s by (simp add: materialize_ram_doc_def obind_def oget_def oret_def)
  next
    case (Some w)
    have good: "good (en_storage s)" "bt_wf (en_ram s)" and w: "w \<noteq> []"
      using s Some by (auto simp: sound_def ram_keys_def dest!: map_of_SomeD)
    note put = put_result [OF good(1) TrueI, of sk w]
    have run: "snd (materialize_ram_doc h sk s) =
        s\<lparr>en_ram := bt_remove sk (en_ram s), en_storage := snd (be_put (ho_backend h) (en_storage s) sk w)\<rparr>"
      by (simp add: materialize_ram_doc_def obind_def oget_def othen_def omod_def sto_put_def on_storage_def Some split: prod.split)
    have "doc_blob h (snd (materialize_ram_doc h sk s)) k = doc_blob h s k" for k
      unfolding run using put good Some means_some [OF w]
      by (auto simp: doc_blob_def sto_get_def get_view split: option.split)
    moreover have "sound good (snd (materialize_ram_doc h sk s))"
      unfolding run using s put set_bt_remove [of sk "en_ram s"] by (auto simp: sound_def ram_keys_remove)
    ultimately show ?thesis by simp
  qed
qed

lemma settle_relations [settled]: "settling (rows_of D) good h (remove_relations_for h sk)"
proof -
  have "settling (rows_of D) good h (remove_outgoing h a kind k)" "settling (rows_of D) good h (remove_incoming h a kind k)" for a kind k
    unfolding remove_outgoing_def remove_incoming_def by (intro settled; simp)+
  then show ?thesis unfolding remove_relations_for_def remove_kind_def by (intro settled)
qed

lemma settle_meta_rows [settled]: "sk \<in> D \<Longrightarrow> settling (rows_of D) good h (delete_meta_rows h sk)"
  unfolding delete_meta_rows_def
  by (intro settled) (auto simp: same_docs_def remove_entities_exact_def Let_def split: option.split)

lemma side_blob: "sound good s \<Longrightarrow> \<not> is_doc k \<Longrightarrow> doc_blob h s k = be_get (ho_backend h) (en_storage s) k"
proof -
  assume s: "sound good s" "\<not> is_doc k"
  have "bt_get (en_ram s) k = None"
  proof (cases "bt_get (en_ram s) k")
    case (Some w)
    then have "prefix (ascii ''md/L0/'') k \<or> prefix (ascii ''md/L1/'') k" using s(1) by (auto simp: sound_def ram_keys_def)
    then have "is_doc k" by (auto simp: is_doc_def prefix_def ascii_def)
    then show ?thesis using s(2) by blast
  qed
  then show ?thesis by (simp add: doc_blob_def sto_get_def)
qed

lemma settled_side: "settles T good h s t \<Longrightarrow> sound good s \<Longrightarrow> \<not> is_doc k \<Longrightarrow>
    may_become T k (be_get (ho_backend h) (en_storage s) k) (be_get (ho_backend h) (en_storage t) k)"
  using side_blob [of s k] side_blob [of t k] by (metis settles_def)

text \<open>The part of a deletion behind the document itself.\<close>

definition delete_sides :: "bytes \<Rightarrow> bool \<Rightarrow> ('s, bool) op" where
  "delete_sides sk existed =
     othen (sto_del h (state_key sk))
     (othen (sto_del h (validity_key sk))
     (othen (sto_del h (ttl_key sk))
     (othen (sto_del h (event_key sk))
     (othen (delete_meta_rows h sk)
     (othen (art_del sk)
     (othen (omod (\<lambda>s. s\<lparr>en_lexical := lx_remove (en_lexical s) sk\<rparr>))
     (othen (remove_relations_for h sk)
     (othen (omod (unlink_key sk))
     (oret existed)))))))))"

lemma settle_delete_sides: "sk \<in> D \<Longrightarrow> settling (rows_of D) good h (delete_sides sk existed)"
  unfolding delete_sides_def by (intro settled) (simp_all add: same_docs_def unlink_key_def Let_def)

lemma delete_sides_answer: "delete_sides sk existed s = (Inr b, s') \<Longrightarrow> b = existed"
  by (auto simp: delete_sides_def othen_def obind_def oret_def split: prod.splits sum.splits)

text \<open>A deletion: the document goes, whatever happens to its rows.\<close>

lemma delete_run:
  assumes "sound good s" "is_doc sk"
  obtains t where "engine_delete h sk s = delete_sides sk (doc_blob h s sk \<noteq> None) t"
    "settles (sides {sk}) good h s t" "sound good t" "doc_blob h t sk = None"
proof -
  let ?s1 = "unnote_dead sk (sto_get h s sk) s"
  have s1: "en_storage ?s1 = en_storage s" "en_ram ?s1 = en_ram s"
    using same_docs_unnote [of s sk "sto_get h s sk"] by (simp_all add: same_docs_def)
  have good: "good (en_storage s)" "bt_wf (en_ram s)" using assms(1) by (simp_all add: sound_def ram_keys_def)
  obtain st where st: "be_del (ho_backend h) (en_storage s) sk = (Inr (), st)" "good st" "view st = (view (en_storage s))(sk := None)"
    using del_ok [OF good(1) TrueI] by blast
  let ?t = "?s1\<lparr>en_storage := st, en_ram := bt_remove sk (en_ram ?s1)\<rparr>"
  have existed: "(bt_get (en_ram s) sk \<noteq> None \<or> sto_get h s sk \<noteq> None) = (doc_blob h s sk \<noteq> None)"
    by (auto simp: doc_blob_def split: option.split)
  have "engine_delete h sk = obind (oget (\<lambda>s. s)) (\<lambda>s. othen (omod (unnote_dead sk (sto_get h s sk)))
      (othen (sto_del h sk) (othen (omod (\<lambda>s. s\<lparr>en_ram := bt_remove sk (en_ram s)\<rparr>))
      (delete_sides sk (bt_get (en_ram s) sk \<noteq> None \<or> sto_get h s sk \<noteq> None)))))"
    unfolding engine_delete_def delete_sides_def Let_def ..
  then have "engine_delete h sk s = delete_sides sk (doc_blob h s sk \<noteq> None) ?t"
    using existed [simplified] by (simp add: obind_def oget_def othen_def omod_def sto_del_def on_storage_def st(1) s1)
  moreover have blob: "doc_blob h ?t k = (if k = sk then None else doc_blob h s k)" for k
    using st good by (auto simp: doc_blob_def sto_get_def get_view s1 split: option.split)
  moreover have "sound good ?t"
    using assms(1) st(2) set_bt_remove [of sk "en_ram s"] by (auto simp: sound_def s1 ram_keys_remove)
  ultimately show ?thesis using that [of ?t] assms(2) by (simp add: settles_def may_become_def)
qed

lemma settle_delete [settled]: "is_doc sk \<Longrightarrow> sk \<in> D \<Longrightarrow> settling (sides D) good h (delete_memory h sk)"
proof -
  assume sk: "is_doc sk" "sk \<in> D"
  have "settling (sides D) good h (engine_delete h sk)"
  proof (rule alongI)
    fix s
    show "settles (sides D) good h s (snd (engine_delete h sk s))"
    proof (cases "sound good s")
      case True
      obtain t where t: "engine_delete h sk s = delete_sides sk (doc_blob h s sk \<noteq> None) t"
        "settles (sides {sk}) good h s t" by (rule delete_run [OF True sk(1)])
      have "settles (sides D) good h s t" using t(2) sk(2) rows_of_mono [of "{sk}" D] by (auto intro: settles_mono)
      moreover have "settles (sides D) good h t (snd (delete_sides sk x t))" for x
        by (rule settles_mono [OF alongD [OF settle_delete_sides [OF sk(2)]]]) simp
      ultimately show ?thesis unfolding t(1) by (rule settle.further)
    qed (simp add: settles_def)
  qed
  then show ?thesis unfolding delete_memory_def with_key_doc [OF sk(1)] by (intro settled)
qed

text \<open>
  Steps that take away a set of documents and count those that were there; everything else settles.
\<close>

definition clears :: "bytes set \<Rightarrow> nat \<Rightarrow> nat \<Rightarrow> 's engine \<Rightarrow> 's engine \<Rightarrow> bool" where
  "clears D n n' s t \<longleftrightarrow> (sound good s \<longrightarrow> settles (sides D) good h s t \<and> (\<forall>k \<in> D. doc_blob h t k = None) \<and>
     n' = n + card {k \<in> D. doc_blob h s k \<noteq> None})"

lemma settled_doc: "settles (sides D) good h s t \<Longrightarrow> sound good s \<Longrightarrow> is_doc k \<Longrightarrow> k \<notin> D \<Longrightarrow> doc_blob h t k = doc_blob h s k"
  by (rule settled_kept [of "sides D"]) auto

lemma clears_further:
  assumes "clears D n m s t" "clears E m k t u" "finite D" "finite E" "D \<subseteq> Collect is_doc" "E \<subseteq> Collect is_doc"
  shows "clears (D \<union> E) n k s u"
  unfolding clears_def
proof (intro impI)
  assume s: "sound good s"
  then have st: "settles (sides D) good h s t" "\<forall>k \<in> D. doc_blob h t k = None" "m = n + card {k \<in> D. doc_blob h s k \<noteq> None}"
    using assms(1) by (simp_all add: clears_def)
  have t: "sound good t" using st(1) s by (simp add: settles_def)
  then have tu: "settles (sides E) good h t u" "\<forall>k \<in> E. doc_blob h u k = None" "k = m + card {k \<in> E. doc_blob h t k \<noteq> None}"
    using assms(2) by (simp_all add: clears_def)
  have "settles (sides (D \<union> E)) good h s u"
    by (rule settle.further [OF settles_mono [OF st(1)] settles_mono [OF tu(1)]])
      (use rows_of_mono [of D "D \<union> E"] rows_of_mono [of E "D \<union> E"] in auto)
  moreover have "doc_blob h u x = None" if "x \<in> D \<union> E" for x
    using that tu(2) st(2) settled_doc [OF tu(1) t, of x] assms(5) by (cases "x \<in> E") auto
  moreover have "{x \<in> D \<union> E. doc_blob h s x \<noteq> None} = {x \<in> D. doc_blob h s x \<noteq> None} \<union> {x \<in> E. doc_blob h t x \<noteq> None}"
    using settled_doc [OF st(1) s] st(2) assms(6) by fastforce
  moreover have "{x \<in> D. doc_blob h s x \<noteq> None} \<inter> {x \<in> E. doc_blob h t x \<noteq> None} = {}" using st(2) by auto
  ultimately show "settles (sides (D \<union> E)) good h s u \<and> (\<forall>x \<in> D \<union> E. doc_blob h u x = None) \<and>
      k = n + card {x \<in> D \<union> E. doc_blob h s x \<noteq> None}"
    using st(3) tu(3) assms(3,4) by (simp add: card_Un_disjoint)
qed

lemma clears_fold:
  assumes "\<And>x n s n' t. x \<in> set xs \<Longrightarrow> f x n s = (Inr n', t) \<Longrightarrow> clears (g x) n n' s t"
    and "\<And>x. x \<in> set xs \<Longrightarrow> finite (g x) \<and> g x \<subseteq> Collect is_doc"
    and "ofold f xs n s = (Inr n', t)"
  shows "clears (\<Union>x \<in> set xs. g x) n n' s t"
  using assms
proof (induction xs arbitrary: n s)
  case Nil
  then show ?case by (simp add: clears_def settle.same)
next
  case (Cons x xs)
  obtain m u where u: "f x n s = (Inr m, u)" "ofold f xs m u = (Inr n', t)"
    using Cons.prems(3) by (auto split: prod.splits sum.splits)
  have "clears (g x) n m s u" using Cons.prems(1) u(1) by simp
  moreover have "clears (\<Union>x \<in> set xs. g x) m n' u t" using Cons u(2) by simp
  ultimately have "clears (g x \<union> (\<Union>x \<in> set xs. g x)) n n' s t" using Cons.prems(2) by (intro clears_further) auto
  then show ?case by simp
qed

lemma delete_memory_clears:
  assumes "is_doc sk" "delete_memory h sk s = (Inr gone, t)" "sound good s"
  shows "gone = (doc_blob h s sk \<noteq> None) \<and> doc_blob h t sk = None \<and> settles (sides {sk}) good h s t"
proof -
  obtain u where u: "engine_delete h sk s = delete_sides sk (doc_blob h s sk \<noteq> None) u"
    "settles (sides {sk}) good h s u" "sound good u" "doc_blob h u sk = None"
    by (rule delete_run [OF assms(3,1)])
  obtain b v where v: "engine_delete h sk s = (Inr b, v)"
    "(if b then obind (reclaim_bq_orphans DEFAULT_BQ_ORPHAN_THRESHOLD) (\<lambda>_. oret True) else oret False) v = (Inr gone, t)"
    using assms(2) unfolding delete_memory_def with_key_doc [OF assms(1)]
    by (auto simp: obind_def [of "engine_delete h sk"] split: prod.splits sum.splits)
  have b: "b = (doc_blob h s sk \<noteq> None)" using delete_sides_answer v(1) u(1) by metis
  have "settles (rows_of {sk}) good h u v" using alongD [OF settle_delete_sides [of sk "{sk}" b], of u] v(1) u(1) b by simp
  then have uv: "sound good v" "doc_blob h v sk = None" "settles (sides {sk}) good h u v"
    using u(3,4) settled_kept [of "rows_of {sk}" good h u v sk] assms(1) settles_mono [of "rows_of {sk}" good h u v "sides {sk}"]
    by (auto simp: settles_def)
  have "gone = b \<and> same_docs v t"
    using v(2) by (auto simp: obind_def oret_def reclaim_bq_orphans_def Let_def same_docs_def split: if_splits sum.splits prod.splits)
  then show ?thesis
    using b uv settle.further [OF u(2) settle.further [OF uv(3) settles_same]] same_docs_blob [of v t h sk] by simp
qed

lemma gc_delete_clears:
  assumes "is_doc sk" "gc_delete h sk n s = (Inr n', t)"
  shows "clears {sk} n n' s t"
proof -
  obtain gone where "delete_memory h sk s = (Inr gone, t)" "n' = (if gone then n + 1 else n)"
    using assms(2) by (auto simp: gc_delete_def obind_def oret_def split: prod.splits sum.splits)
  moreover have "card {k \<in> {sk}. doc_blob h s k \<noteq> None} = (if doc_blob h s sk \<noteq> None then 1 else 0)"
    by (cases "doc_blob h s sk = None") (simp_all add: Collect_conv_if)
  ultimately show ?thesis using delete_memory_clears [OF assms(1)] by (simp add: clears_def)
qed

lemma settle_gc_delete [settled]: "is_doc sk \<Longrightarrow> sk \<in> D \<Longrightarrow> settling (sides D) good h (gc_delete h sk n)"
  unfolding gc_delete_def by (intro settled)

text \<open>The sweep of closed windows invalidates what is in use.\<close>

lemma settles_storage:
  assumes "sound good s" "good st" "\<And>k. may_become T k (be_get (ho_backend h) (en_storage s) k) (be_get (ho_backend h) st k)"
  shows "settles T good h s (s\<lparr>en_storage := st\<rparr>)"
  using assms by (auto simp: settles_def sound_def doc_blob_def sto_get_def split: option.split)

lemma settle_invalidate:
  assumes "\<not> out_of_use (get_state (ho_backend h) (en_storage s) sk)"
  shows "settles {} good h s (snd (set_state h sk Invalidated s))"
proof (cases "sound good s")
  case True
  let ?no = "{Some [state_u8 Archived], Some [state_u8 Decayed]}"
  let ?get = "\<lambda>s. be_get (ho_backend h) (en_storage s) (state_key sk)"
  let ?store = "on_storage (\<lambda>st. store_state (ho_backend h) st sk Invalidated)"
  obtain x s1 where get: "get_by_storage_key h sk s = (x, s1)" by fastforce
  have s1: "en_storage s1 = en_storage s" "settles {} good h s s1" "sound good s1"
    using get_no_write [OF get] alongD [OF settle_basic(2) [of "{}" good h sk], of s] get True by (auto simp: settles_def counted_def)
  obtain y s2 where mat: "materialize_ram_doc h sk s1 = (y, s2)" by fastforce
  have s2: "settles {} good h s1 s2" "sound good s2"
    using alongD [OF settle_materialize [of "{}" sk], of s1] mat s1(3) by (auto simp: settles_def)
  have "?get s1 \<notin> ?no" using assms by (auto simp: s1(1) get_state_def out_of_use_def unwrap_or_def state_from_u8_def)
  moreover have "may_become {} (state_key sk) (?get s1) (?get s2)" by (rule settled_side [OF s2(1) s1(3)]) simp
  ultimately have free: "?get s2 \<notin> ?no" by (auto simp: may_become_def)
  let ?st = "snd (store_state (ho_backend h) (en_storage s2) sk Invalidated)"
  have good: "good (en_storage s2)" using s2(2) by (simp add: sound_def)
  note put = put_result [OF good TrueI, of "state_key sk" "[state_u8 Invalidated]"]
  have "settles {} good h s2 (s2\<lparr>en_storage := ?st\<rparr>)"
    by (rule settles_storage [OF s2(2)])
      (use put good free means_some [of "[state_u8 Invalidated]"] in \<open>auto simp: store_state_def get_view may_become_def\<close>)
  then have s3: "settles {} good h s2 (snd (?store s2))" by (simp add: on_storage_snd)
  have "snd (set_state h sk Invalidated s) \<in> {s1, s2, snd (?store s2)}"
    by (auto simp: set_state_def obind_def othen_def get mat oret_def ofail_def split: sum.split prod.split)
  moreover have s: "settles {} good h s s2" by (rule settle.further [OF s1(2) s2(1)])
  moreover have "settles {} good h s (snd (?store s2))" by (rule settle.further [OF s s3])
  ultimately show ?thesis using s1(2) by auto
qed (simp add: settles_def)

lemma settle_expire_row: "settling {} good h (expire_row h now row n)"
proof (rule alongI)
  fix s
  obtain vk w where row: "row = (vk, w)" by (cases row)
  let ?sk = "utf8_lossy (drop 13 vk)"
  obtain x s1 where get: "get_by_storage_key h ?sk s = (x, s1)" by fastforce
  have s1: "settles {} good h s s1" using alongD [OF settle_basic(2) [of "{}" good h ?sk], of s] get by simp
  let ?t = "snd (expire_row h now row n s)"
  have "?t \<in> {s, s1} \<or> \<not> out_of_use (get_state (ho_backend h) (en_storage s1) ?sk) \<and> ?t = snd (set_state h ?sk Invalidated s1)"
    by (auto simp: row expire_row_def Let_def obind_def othen_def oget_def oret_def get out_of_use_def split: sum.split prod.split)
  then show "settles {} good h s ?t"
    using s1 settle.same [of "{}" good h s] settle.further [OF s1 settle_invalidate] by auto
qed

lemma settle_expire_old: "settling {} good h (expire_old h now)"
  unfolding expire_old_def scan_rows_def by (intro settled settle_expire_row)

lemma try_del_settles: "try_del h k s = (x, t) \<Longrightarrow> k \<in> T \<Longrightarrow> settles T good h s t"
  using alongD [OF settle_del [of k T], of s] by (auto simp: try_del_def split: prod.splits)

lemma ttl_row_idle: "ttl_due now row = {} \<Longrightarrow> ttl_row h now row n = oret n"
  by (cases row) (auto simp: ttl_due_def ttl_row_def Let_def fun_eq_iff oret_def split: if_splits)

lemma ttl_row_due:
  assumes "ttl_due now (tk, w) \<noteq> {}"
  shows "ttl_row h now (tk, w) n = obind (delete_memory h (utf8_lossy (drop 8 tk))) (\<lambda>gone.
    if gone then oret (n + 1) else othen (try_del h (ttl_key (utf8_lossy (drop 8 tk)))) (oret n))"
  using assms by (auto simp: ttl_due_def ttl_row_def Let_def split: if_splits)

lemma ttl_row_clears:
  assumes "is_doc (utf8_lossy (drop 8 (fst row)))" "ttl_row h now row n s = (Inr n', t)"
  shows "clears (ttl_due now row) n n' s t"
proof (cases "ttl_due now row = {}")
  case True
  then show ?thesis using assms(2) by (simp add: ttl_row_idle oret_def clears_def settle.same)
next
  case False
  obtain tk w where row: "row = (tk, w)" by (cases row)
  let ?sk = "utf8_lossy (drop 8 tk)"
  have sk: "is_doc ?sk" using assms(1) by (simp add: row)
  have due: "ttl_due now row = {?sk}" using False by (simp add: row ttl_due_def split: if_splits)
  obtain gone u where u: "delete_memory h ?sk s = (Inr gone, u)"
    "(if gone then oret (n + 1) else othen (try_del h (ttl_key ?sk)) (oret n)) u = (Inr n', t)"
    using assms(2) False unfolding row by (auto simp: ttl_row_due obind_def [of "delete_memory h ?sk"] split: prod.splits sum.splits)
  have ut: "n' = (if gone then n + 1 else n) \<and> settles (sides {}) good h u t"
  proof (cases gone)
    case True
    then show ?thesis using u(2) by (simp add: oret_def settle.same)
  next
    case False
    obtain x v where v: "try_del h (ttl_key ?sk) u = (x, v)" by fastforce
    then have "x = Inr ()" by (auto simp: try_del_def split: prod.splits)
    then have "n' = n" "t = v" using u(2) False v by (simp_all add: othen_def obind_def oret_def)
    then show ?thesis using False try_del_settles [OF v, of "sides {}"] by simp
  qed
  show ?thesis
    unfolding due clears_def
  proof (intro impI conjI ballI)
    assume s: "sound good s"
    from delete_memory_clears [OF sk u(1) s] have d: "gone = (doc_blob h s ?sk \<noteq> None)" "doc_blob h u ?sk = None"
      "settles (sides {?sk}) good h s u" by blast+
    have good: "sound good u" using d(3) s by (simp add: settles_def)
    show "settles (sides {?sk}) good h s t"
      using settle.further [OF d(3) settles_mono [OF conjunct2 [OF ut]]] rows_of_mono [of "{}" "{?sk}"] by auto
    show "doc_blob h t k = None" if "k \<in> {?sk}" for k
      using settled_doc [of "{}" u t ?sk] ut good sk d(2) that by simp
    show "n' = n + card {k \<in> {?sk}. doc_blob h s k \<noteq> None}" using ut d(1) by (simp add: Collect_conv_if)
  qed
qed

lemma settle_ttl_row: "is_doc (utf8_lossy (drop 8 (fst row))) \<Longrightarrow> ttl_due now row \<subseteq> D \<Longrightarrow> settling (sides D) good h (ttl_row h now row n)"
proof (cases "ttl_due now row = {}")
  case True
  then show ?thesis by (simp add: ttl_row_idle settle.along_pure)
next
  case False
  obtain tk w where row: "row = (tk, w)" by (cases row)
  assume sk: "is_doc (utf8_lossy (drop 8 (fst row)))" "ttl_due now row \<subseteq> D"
  have "utf8_lossy (drop 8 tk) \<in> D" using sk(2) False by (auto simp: row ttl_due_def split: if_splits)
  moreover have "settling (sides D) good h (try_del h (ttl_key k))" for k
    using try_del_settles [of "ttl_key k"] by (intro alongI) (metis UnI2 prod.collapse rows_of_keys(4))
  ultimately show ?thesis
    using sk(1) False unfolding row ttl_row_due [OF False [unfolded row]] by (intro settled) simp_all
qed

lemma ttl_rows_settled:
  assumes "settles {} good h s t" "sound good s"
  shows "ttl_rows h t = ttl_rows h s" "ttl_expired (ho_backend h) (en_storage t) k now = ttl_expired (ho_backend h) (en_storage s) k now"
proof -
  have good: "good (en_storage s)" "good (en_storage t)" using assms by (auto simp: settles_def sound_def)
  have same: "be_get (ho_backend h) (en_storage t) q = be_get (ho_backend h) (en_storage s) q" if "prefix (ascii ''sys/ttl/'') q" for q
  proof -
    have "\<not> is_doc q" "q \<notin> range state_key" using that by (auto simp: is_doc_def prefix_def side_keys ascii_def)
    then show ?thesis using settled_side [OF assms, of q] by (auto simp: may_become_def)
  qed
  show "ttl_rows h t = ttl_rows h s"
    unfolding ttl_rows_def
    by (rule scan_eqI [OF good]) (use same good in \<open>auto intro!: utf8_valid_ascii simp: ascii_def get_view\<close>)
  have "prefix (ascii ''sys/ttl/'') (ttl_key k)" by (simp add: ttl_key_def)
  then show "ttl_expired (ho_backend h) (en_storage t) k now = ttl_expired (ho_backend h) (en_storage s) k now"
    by (simp add: ttl_expired_def ttl_of_def same)
qed

lemma expired_rows:
  assumes "sound good s" "named_documents (ttl_rows h s)"
  shows "(\<Union>row \<in> set (ttl_rows h s). ttl_due now row) = {k. ttl_expired (ho_backend h) (en_storage s) k now}"
proof -
  have good: "good (en_storage s)" using assms(1) by (simp add: sound_def)
  have u: "utf8_valid (ascii ''sys/ttl/'')" by (rule utf8_valid_ascii) (auto simp: ascii_def)
  have rows: "(tk, w) \<in> set (ttl_rows h s) \<longleftrightarrow> be_get (ho_backend h) (en_storage s) tk = Some w \<and> prefix (ascii ''sys/ttl/'') tk" for tk w
    using scan_set [OF good u] good by (auto simp: ttl_rows_def get_view)
  have key: "drop 8 (ttl_key k) = k" "prefix (ascii ''sys/ttl/'') (ttl_key k)" for k by (simp_all add: ttl_key_def ascii_def prefix_def)
  have whole: "tk = ttl_key (drop 8 tk)" if "prefix (ascii ''sys/ttl/'') tk" for tk
    using that by (auto simp: prefix_def ttl_key_def ascii_def)
  have lossy: "utf8_lossy (drop 8 tk) = drop 8 tk" if "(tk, w) \<in> set (ttl_rows h s)" for tk w
    using assms(2) that by (auto simp: named_documents_def)
  show ?thesis
  proof (intro set_eqI iffI)
    fix k assume "k \<in> (\<Union>row \<in> set (ttl_rows h s). ttl_due now row)"
    then obtain tk w where row: "(tk, w) \<in> set (ttl_rows h s)" "k \<in> ttl_due now (tk, w)" by auto
    then have "k = drop 8 tk" using lossy by (auto simp: ttl_due_def split: if_splits)
    then have "be_get (ho_backend h) (en_storage s) (ttl_key k) = Some w" using row(1) rows whole by metis
    then show "k \<in> {k. ttl_expired (ho_backend h) (en_storage s) k now}"
      using row(2) by (auto simp: ttl_expired_def ttl_of_def ttl_due_def split: if_splits)
  next
    fix k assume "k \<in> {k. ttl_expired (ho_backend h) (en_storage s) k now}"
    then obtain w where w: "be_get (ho_backend h) (en_storage s) (ttl_key k) = Some w" "length w = 8"
      "of_nat (le_val w) \<noteq> (0 :: u64)" "of_nat (le_val w) \<le> now"
      by (auto simp: ttl_expired_def ttl_of_def split: option.splits if_splits)
    then have row: "(ttl_key k, w) \<in> set (ttl_rows h s)" using rows key(2) by blast
    then have "k \<in> ttl_due now (ttl_key k, w)" using w lossy [OF row] key(1) by (simp add: ttl_due_def)
    then show "k \<in> (\<Union>row \<in> set (ttl_rows h s). ttl_due now row)" using row by blast
  qed
qed

lemma garbage_before:
  assumes "settles (sides D) good h s t" "sound good s" "garbage h t now cfg k"
  shows "garbage h s now cfg k"
proof -
  let ?get = "\<lambda>s q. be_get (ho_backend h) (en_storage s) q"
  have st: "may_become (sides D) (state_key k) (?get s (state_key k)) (?get t (state_key k))"
    and me: "may_become (sides D) (meta_key k) (?get s (meta_key k)) (?get t (meta_key k))"
    by (intro settled_side [OF assms(1,2)]; simp)+
  have "get_state (ho_backend h) (en_storage t) k \<noteq> Active \<and> get_state (ho_backend h) (en_storage t) k \<noteq> Invalidated" "meta_at h t k \<noteq> None"
    using assms(3) by (auto simp: garbage_def Let_def)
  then have "?get t (state_key k) \<noteq> None \<and> ?get t (state_key k) \<noteq> Some [state_u8 Invalidated]" "?get t (meta_key k) \<noteq> None"
    by (auto simp: get_state_def meta_at_def read_meta_def unwrap_or_def state_from_u8_def split: option.splits)
  then have "?get t (state_key k) = ?get s (state_key k)" "?get t (meta_key k) = ?get s (meta_key k)"
    using st me by (auto simp: may_become_def)
  then show ?thesis using assms(3) by (simp add: garbage_def get_state_def meta_at_def read_meta_def)
qed

lemma settled_rows:
  assumes "settles (sides D) good h s t" "sound good s" "D \<subseteq> Collect is_doc" "k \<notin> D"
  shows "meta_at h t k = meta_at h s k"
    "get_state (ho_backend h) (en_storage t) k = get_state (ho_backend h) (en_storage s) k \<or>
     get_state (ho_backend h) (en_storage t) k = Invalidated \<and>
       get_state (ho_backend h) (en_storage s) k \<notin> {Archived, Decayed}"
proof -
  let ?get = "\<lambda>s q. be_get (ho_backend h) (en_storage s) q"
  have out: "state_key k \<notin> sides D" "meta_key k \<notin> sides D" using assms(3,4) by auto
  have st: "may_become (sides D) (state_key k) (?get s (state_key k)) (?get t (state_key k))"
    and me: "may_become (sides D) (meta_key k) (?get s (meta_key k)) (?get t (meta_key k))"
    by (intro settled_side [OF assms(1,2)]; simp)+
  show "meta_at h t k = meta_at h s k"
    using me out(2) by (auto simp: may_become_def meta_at_def read_meta_def)
  have "get_state (ho_backend h) (en_storage s) k \<notin> {Archived, Decayed}"
    if "?get s (state_key k) \<notin> {Some [state_u8 Archived], Some [state_u8 Decayed]}"
    using that by (auto simp: get_state_def unwrap_or_def state_from_u8_def split: option.splits list.splits if_splits)
  then show "get_state (ho_backend h) (en_storage t) k = get_state (ho_backend h) (en_storage s) k \<or>
     get_state (ho_backend h) (en_storage t) k = Invalidated \<and> get_state (ho_backend h) (en_storage s) k \<notin> {Archived, Decayed}"
    using st out(1) by (auto simp: may_become_def get_state_def unwrap_or_def state_from_u8_def)
qed

lemma garbage_stays:
  assumes "settles (sides D) good h s t" "sound good s" "D \<subseteq> Collect is_doc" "k \<notin> D" "garbage h s now cfg k"
  shows "garbage h t now cfg k"
  using settled_rows [OF assms(1-4)] assms(5) by (auto simp: garbage_def Let_def)

text \<open>A walk that stays below its limit picks all garbage.\<close>

lemma gc_victims_all:
  "length (gc_victims h s now cfg rows vs) < gc_max_per_pass cfg \<Longrightarrow>
   set vs \<subseteq> set (gc_victims h s now cfg rows vs) \<and>
   (\<forall>(mk, w) \<in> set rows. \<forall>k. strip_prefix META_PREFIX mk = Some k \<longrightarrow> garbage h s now cfg (utf8_lossy k) \<longrightarrow>
     utf8_lossy k \<in> set (gc_victims h s now cfg rows vs))"
proof (induction rows arbitrary: vs)
  case (Cons row rows)
  obtain mk w where row: "row = (mk, w)" by (cases row)
  show ?case
  proof (cases "strip_prefix META_PREFIX mk")
    case None
    then show ?thesis using Cons by (simp add: row)
  next
    case (Some k)
    let ?sk = "utf8_lossy k"
    let ?take = "prefix (ascii ''md/'') ?sk \<and> gc_takes cfg (get_state (ho_backend h) (en_storage s) ?sk)"
    let ?vs = "if old_enough now cfg (meta_at h s ?sk) then vs @ [?sk] else vs"
    show ?thesis
    proof (cases ?take)
      case False
      then have skip: "gc_victims h s now cfg (row # rows) vs = gc_victims h s now cfg rows vs" by (auto simp: row Some Let_def)
      have "\<not> garbage h s now cfg ?sk"
        using False by (auto simp: garbage_def gc_takes_def Let_def split: memory_state.splits)
      then show ?thesis using Cons.IH [of vs] Cons.prems unfolding skip by (simp add: row Some)
    next
      case True
      then have walk: "gc_victims h s now cfg (row # rows) vs =
          (if length ?vs \<ge> gc_max_per_pass cfg then ?vs else gc_victims h s now cfg rows ?vs)"
        by (simp add: row Some Let_def)
      with Cons.prems have on: "gc_victims h s now cfg (row # rows) vs = gc_victims h s now cfg rows ?vs"
        by (auto split: if_splits)
      have "?sk \<in> set ?vs" if "garbage h s now cfg ?sk" using that by (auto simp: garbage_def old_enough_def)
      then show ?thesis using Cons.IH [of ?vs] Cons.prems unfolding on by (auto simp: row Some split: if_splits)
    qed
  qed
qed simp

lemma all_garbage_picked:
  assumes "good (en_storage u)" "garbage h u now cfg k" "utf8_valid k"
    and "length (gc_victims h u now cfg (be_scan (ho_backend h) (en_storage u) META_PREFIX) []) < gc_max_per_pass cfg"
  shows "k \<in> set (gc_victims h u now cfg (be_scan (ho_backend h) (en_storage u) META_PREFIX) [])"
proof -
  have "utf8_valid META_PREFIX" by (rule utf8_valid_ascii) (auto simp: META_PREFIX_def ascii_def)
  moreover obtain w where "be_get (ho_backend h) (en_storage u) (meta_key k) = Some w"
    using assms(2) by (auto simp: garbage_def meta_at_def read_meta_def split: option.splits)
  moreover have "strip_prefix META_PREFIX (meta_key k) = Some k" "prefix META_PREFIX (meta_key k)"
    by (simp_all add: meta_key_def META_PREFIX_def strip_prefix_def)
  ultimately have "(meta_key k, w) \<in> set (be_scan (ho_backend h) (en_storage u) META_PREFIX)"
    using scan_set [OF assms(1)] assms(1) by (simp add: get_view)
  then show ?thesis
    using gc_victims_all [OF assms(4)] assms(2,3) \<open>strip_prefix META_PREFIX (meta_key k) = Some k\<close> by fastforce
qed

text \<open>A collection, taken apart: it ends in one of its phases.\<close>

lemma collect_cases:
  assumes "collect_garbage h now cfg s = (x, s')"
  obtains (first) e where "expire_old h now s = (Inl e, s')" "x = Inl e"
  | (second) a t e where "expire_old h now s = (Inr a, t)" "ofold (ttl_row h now) (ttl_rows h t) 0 t = (Inl e, s')" "x = Inl e"
  | (third) a t n u y vs where "expire_old h now s = (Inr a, t)" "ofold (ttl_row h now) (ttl_rows h t) 0 t = (Inr n, u)"
      "vs = (if gc_collect_decayed cfg \<or> gc_collect_archived cfg
         then gc_victims h u now cfg (be_scan (ho_backend h) (en_storage u) META_PREFIX) [] else [])"
      "ofold (gc_delete h) vs 0 u = (y, s')"
      "\<And>r. x = Inr r \<Longrightarrow> y = Inr (gr_state_collected r) \<and> n = gr_ttl_collected r"
proof -
  obtain x1 t where t: "expire_old h now s = (x1, t)" by fastforce
  show ?thesis
  proof (cases x1)
    case (Inl e)
    then show ?thesis using assms t first by (simp add: collect_garbage_def obind_def)
  next
    case (Inr a)
    obtain x2 u where u: "ofold (ttl_row h now) (ttl_rows h t) 0 t = (x2, u)" by fastforce
    then have ttl: "expire_ttl h now t = (x2, u)" by (simp add: expire_ttl_def scan_rows_def obind_def oget_def ttl_rows_def)
    show ?thesis
    proof (cases x2)
      case (Inl e)
      then show ?thesis using assms t \<open>x1 = Inr a\<close> ttl u second by (simp add: collect_garbage_def obind_def)
    next
      case (Inr n)
      let ?on = "gc_collect_decayed cfg \<or> gc_collect_archived cfg"
      let ?rows = "be_scan (ho_backend h) (en_storage u) (ascii ''sys/meta/'')"
      let ?vs = "if ?on then gc_victims h u now cfg ?rows [] else []"
      obtain y v where v: "ofold (gc_delete h) ?vs 0 u = (y, v)" by fastforce
      have "collect_garbage h now cfg s = (case y of Inl e \<Rightarrow> (Inl e, v)
          | Inr m \<Rightarrow> (Inr \<lparr>gr_invalidated = a, gr_ttl_collected = n, gr_state_collected = m\<rparr>, v))"
        using t ttl v \<open>x1 = Inr a\<close> Inr
        by (cases ?on) (simp_all add: collect_garbage_def scan_rows_def obind_def oget_def oret_def split: sum.split)
      then have ends: "v = s'" "\<And>r. x = Inr r \<Longrightarrow> y = Inr (gr_state_collected r) \<and> n = gr_ttl_collected r"
        using assms by (cases y; auto)+
      show ?thesis
      proof (rule third)
        show "expire_old h now s = (Inr a, t)" using t \<open>x1 = Inr a\<close> by simp
        show "ofold (ttl_row h now) (ttl_rows h t) 0 t = (Inr n, u)" using u Inr by simp
        show "?vs = (if ?on then gc_victims h u now cfg (be_scan (ho_backend h) (en_storage u) META_PREFIX) [] else [])"
          unfolding META_PREFIX_def ..
        show "ofold (gc_delete h) ?vs 0 u = (y, s')" using v ends(1) by simp
      qed (rule ends(2))
    qed
  qed
qed

lemma clears_docs:
  assumes "clears D n n' s t" "sound good s" "is_doc k"
  shows "doc_blob h t k = (if k \<in> D then None else doc_blob h s k)"
  using assms settled_doc [of D s t k] by (auto simp: clears_def)

lemma due_docs:
  assumes "named_documents rows" "row \<in> set rows"
  shows "is_doc (utf8_lossy (drop 8 (fst row)))" "finite (ttl_due now row) \<and> ttl_due now row \<subseteq> Collect is_doc"
  using assms by (auto simp: named_documents_def ttl_due_def split: if_splits)

lemma victims_docs: "sk \<in> set (gc_victims h u now cfg rows []) \<Longrightarrow> is_doc sk \<and> garbage h u now cfg sk"
  using gc_victims_garbage [of sk h u now cfg rows "[]"] by (simp add: garbage_def is_doc_def)

text \<open>The two phases that delete, each from a sound state.\<close>

lemma ttl_phase:
  assumes "sound good s" "named_documents (ttl_rows h s)" "ofold (ttl_row h now) (ttl_rows h s) 0 s = (x, t)"
  defines "D \<equiv> {k. ttl_expired (ho_backend h) (en_storage s) k now}"
  shows "settles (sides D) good h s t" "finite D" "D \<subseteq> Collect is_doc" "x = Inr n \<Longrightarrow> clears D 0 n s t"
proof -
  have D: "D = (\<Union>row \<in> set (ttl_rows h s). ttl_due now row)" unfolding D_def expired_rows [OF assms(1,2)] ..
  have "settling (sides D) good h (ofold (ttl_row h now) (ttl_rows h s) 0)"
    by (intro settle.along_fold_set settle_ttl_row due_docs(1) [OF assms(2)]) (auto simp: D)
  then show "settles (sides D) good h s t" using assms(3) by (metis along_run)
  show "finite D" "D \<subseteq> Collect is_doc" using due_docs(2) [OF assms(2)] unfolding D by blast+
  show "clears D 0 n s t" if "x = Inr n"
    using clears_fold [of "ttl_rows h s" "ttl_row h now" "ttl_due now" 0 s n t] assms(3) that
      ttl_row_clears [OF due_docs(1) [OF assms(2)]] due_docs(2) [OF assms(2)] unfolding D by blast
qed

lemma victim_phase:
  assumes "\<And>k. k \<in> set vs \<Longrightarrow> is_doc k" "ofold (gc_delete h) vs 0 s = (x, t)"
  shows "settles (sides (set vs)) good h s t" "x = Inr n \<Longrightarrow> clears (set vs) 0 n s t"
proof -
  have "settling (sides (set vs)) good h (ofold (gc_delete h) vs 0)"
    by (intro settle.along_fold_set settle_gc_delete) (use assms(1) in auto)
  then show "settles (sides (set vs)) good h s t" using assms(2) by (metis along_run)
  show "clears (set vs) 0 n s t" if "x = Inr n"
    using clears_fold [of vs "gc_delete h" "\<lambda>k. {k}" 0 s n t] assms that gc_delete_clears by simp
qed

end

text \<open>C32: A collection takes away garbage only, only so much, and all of it when there is no more.  Over any
  backend that takes every row, from a sound state whose expiry rows name documents, and whatever the
  outcome of the pass: the documents that go are those whose time to live has run out and at most
  \<open>max_per_pass\<close> others (one where that limit is zero), each of them decayed or archived, as the
  configuration allows, and old enough before the pass; with both kinds switched off there are none.
  Every other document stays as it is, with its metadata and its state, which is only changed to invalidated,
  and not if it was archived or decayed.  When the pass ends well, the documents of both kinds are gone and
  the report counts exactly those that were there, and if fewer than \<open>max_per_pass\<close> were picked, they are
  all the garbage there was.\<close>

theorem garbage_is_bounded:
  assumes "backend_store good view (ho_backend h) (\<lambda>_ _. True) means" and "sound good s"
    and "named_documents (ttl_rows h s)" and "collect_garbage h now cfg s = (x, s')"
  shows "\<exists>vs. length vs \<le> max 1 (gc_max_per_pass cfg) \<and> (\<forall>k \<in> set vs. garbage h s now cfg k) \<and> sound good s' \<and>
    (\<forall>k. is_doc k \<longrightarrow> k \<notin> set vs \<longrightarrow> \<not> ttl_expired (ho_backend h) (en_storage s) k now \<longrightarrow>
      doc_blob h s' k = doc_blob h s k \<and> meta_at h s' k = meta_at h s k \<and>
      (get_state (ho_backend h) (en_storage s') k = get_state (ho_backend h) (en_storage s) k \<or>
       get_state (ho_backend h) (en_storage s') k = Invalidated \<and>
         get_state (ho_backend h) (en_storage s) k \<notin> {Archived, Decayed})) \<and>
    (\<forall>r. x = Inr r \<longrightarrow>
      (\<forall>k. is_doc k \<longrightarrow> k \<in> set vs \<or> ttl_expired (ho_backend h) (en_storage s) k now \<longrightarrow> doc_blob h s' k = None) \<and>
      gr_ttl_collected r = card {k. ttl_expired (ho_backend h) (en_storage s) k now \<and> doc_blob h s k \<noteq> None} \<and>
      gr_state_collected r =
        card {k \<in> set vs. \<not> ttl_expired (ho_backend h) (en_storage s) k now \<and> doc_blob h s k \<noteq> None} \<and>
      (length vs < gc_max_per_pass cfg \<longrightarrow>
        (\<forall>k. utf8_valid k \<longrightarrow> garbage h s now cfg k \<longrightarrow> \<not> ttl_expired (ho_backend h) (en_storage s) k now \<longrightarrow> k \<in> set vs)))"
proof -
  have t: "total_store good view h means" using assms(1) by (simp add: total_store_def engine_store_def)
  note settled_doc = total_store.settled_doc [OF t]
  let ?D = "{k. ttl_expired (ho_backend h) (en_storage s) k now}"
  have opened: "sound good t1 \<and> named_documents (ttl_rows h t1) \<and> settles (sides {}) good h s t1 \<and>
      {k. ttl_expired (ho_backend h) (en_storage t1) k now} = ?D \<and> (\<forall>k. is_doc k \<longrightarrow> doc_blob h t1 k = doc_blob h s k)"
    if "expire_old h now s = (y, t1)" for y t1
  proof -
    have st: "settles {} good h s t1" using alongD [OF total_store.settle_expire_old [OF t, of now], of s] that by simp
    then have "settles (sides {}) good h s t1" by (rule settles_mono) simp
    then show ?thesis
      using st assms(2,3) total_store.ttl_rows_settled [OF t st assms(2)] settled_doc [of "{}" s t1] by (auto simp: settles_def)
  qed
  note settled_rows = total_store.settled_rows [OF t _ assms(2)]
  show ?thesis
    using assms(4)
  proof (cases rule: total_store.collect_cases [OF t, consumes 1, case_names first second third])
    case (first e)
    then show ?thesis using opened [OF first(1)] settled_rows [of "{}" s'] by (intro exI [of _ "[]"]) simp
  next
    case (second a t1 e)
    note o = opened [OF second(1)]
    have ttl: "settles (sides ?D) good h t1 s'" "?D \<subseteq> Collect is_doc"
      using total_store.ttl_phase(1,3) [OF t _ _ second(2)] o by simp_all
    have "settles (sides ?D) good h s s'"
      by (rule settle.further [OF settles_mono ttl(1)]) (use o rows_of_mono [of "{}" ?D] in auto)
    then have "sound good s'" "\<And>k. is_doc k \<Longrightarrow> k \<notin> ?D \<Longrightarrow> doc_blob h s' k = doc_blob h s k" and rows: "settles (sides ?D) good h s s'"
      using settled_doc [of ?D s s'] assms(2) by (auto simp: settles_def)
    then show ?thesis using second(3) settled_rows [OF rows ttl(2)] by (intro exI [of _ "[]"]) simp
  next
    case (third a t1 n u y vs)
    note o = opened [OF third(1)]
    have ttl: "settles (sides ?D) good h t1 u" "finite ?D" "?D \<subseteq> Collect is_doc" "total_store.clears good h ?D 0 n t1 u"
      using total_store.ttl_phase [OF t _ _ third(2)] o by simp_all
    have su: "settles (sides ?D) good h s u"
      by (rule settle.further [OF settles_mono ttl(1)]) (use o rows_of_mono [of "{}" ?D] in auto)
    have u: "sound good u" using su assms(2) by (simp add: settles_def)
    have docs: "is_doc k" "garbage h u now cfg k" if "k \<in> set vs" for k
      using that third(3) total_store.victims_docs [OF t] by (auto split: if_splits)
    note gone = total_store.victim_phase [OF t docs(1) third(4)]
    have us: "settles (sides (set vs)) good h u s'" using gone(1) by simp
    have at_u: "doc_blob h u k = (if k \<in> ?D then None else doc_blob h s k)" if "is_doc k" for k
      using total_store.clears_docs [OF t ttl(4) _ that] o that by simp
    show ?thesis
    proof (rule exI [of _ vs], intro conjI allI impI ballI)
      have "length (gc_victims h u now cfg rows []) \<le> max 1 (gc_max_per_pass cfg)" for rows
        by (rule gc_victims_bound) simp
      then show "length vs \<le> max 1 (gc_max_per_pass cfg)" using third(3) by simp
      show "garbage h s now cfg k" if "k \<in> set vs" for k
        by (rule total_store.garbage_before [OF t su assms(2) docs(2) [OF that]])
      show "sound good s'" using us u by (simp add: settles_def)
      fix k assume k: "is_doc k" "k \<notin> set vs" "\<not> ttl_expired (ho_backend h) (en_storage s) k now"
      show "doc_blob h s' k = doc_blob h s k" using settled_doc [OF us u k(1,2)] at_u [OF k(1)] k(3) by simp
      have "settles (sides (?D \<union> set vs)) good h s s'"
        by (rule settle.further [OF settles_mono [OF su] settles_mono [OF us]])
          (use rows_of_mono [of ?D "?D \<union> set vs"] rows_of_mono [of "set vs" "?D \<union> set vs"] in auto)
      from settled_rows [OF this, of k] show "meta_at h s' k = meta_at h s k"
        "get_state (ho_backend h) (en_storage s') k = get_state (ho_backend h) (en_storage s) k \<or>
         get_state (ho_backend h) (en_storage s') k = Invalidated \<and> get_state (ho_backend h) (en_storage s) k \<notin> {Archived, Decayed}"
        using ttl(3) docs(1) k by auto
    next
      fix r assume r: "x = Inr r"
      from third(5) [OF r] have y: "y = Inr (gr_state_collected r)" "n = gr_ttl_collected r" by simp_all
      have c: "total_store.clears good h (set vs) 0 (gr_state_collected r) u s'" using gone(2) y(1) by simp
      show "doc_blob h s' k = None" if "is_doc k" "k \<in> set vs \<or> ttl_expired (ho_backend h) (en_storage s) k now" for k
        using total_store.clears_docs [OF t c u that(1)] at_u [OF that(1)] that(2) by (cases "k \<in> set vs") simp_all
      have "{k \<in> ?D. doc_blob h t1 k \<noteq> None} = {k. ttl_expired (ho_backend h) (en_storage s) k now \<and> doc_blob h s k \<noteq> None}"
        using o ttl(3) by auto
      then show "gr_ttl_collected r = card {k. ttl_expired (ho_backend h) (en_storage s) k now \<and> doc_blob h s k \<noteq> None}"
        using ttl(4) o y(2) by (simp add: total_store.clears_def [OF t])
      have "{k \<in> set vs. doc_blob h u k \<noteq> None} =
          {k \<in> set vs. \<not> ttl_expired (ho_backend h) (en_storage s) k now \<and> doc_blob h s k \<noteq> None}"
        using at_u docs(1) by (auto split: if_splits)
      then show "gr_state_collected r =
          card {k \<in> set vs. \<not> ttl_expired (ho_backend h) (en_storage s) k now \<and> doc_blob h s k \<noteq> None}"
        using c u by (simp add: total_store.clears_def [OF t])
      fix k assume few: "length vs < gc_max_per_pass cfg" and k: "utf8_valid k" "garbage h s now cfg k"
        "\<not> ttl_expired (ho_backend h) (en_storage s) k now"
      have "garbage h u now cfg k" using total_store.garbage_stays [OF t su assms(2) ttl(3) _ k(2)] k(3) by simp
      moreover have "gc_collect_decayed cfg \<or> gc_collect_archived cfg" using k(2) by (auto simp: garbage_def Let_def)
      ultimately show "k \<in> set vs"
        using total_store.all_garbage_picked [OF t _ _ k(1), of u now cfg] few u third(3) by (simp add: sound_def)
    qed
  qed
qed

section \<open>Witness\<close>

text \<open>
  Three memories: a decayed one, one in use, and one whose time to live has run out.  With empty indexes
  no operation of a collection fails.
\<close>

definition succeeds :: "('s engine \<Rightarrow> bool) \<Rightarrow> ('s, 'a) op \<Rightarrow> bool" where
  "succeeds P m \<longleftrightarrow> (\<forall>s. P s \<longrightarrow> (\<exists>x t. m s = (Inr x, t) \<and> P t))"

lemma succeeds_pure: "succeeds P (oret x)" "succeeds P (oget g)" "(\<And>s. P s \<Longrightarrow> P (f s)) \<Longrightarrow> succeeds P (omod f)"
  by (auto simp: succeeds_def oret_def oget_def omod_def)

lemma succeeds_bind: "succeeds P m \<Longrightarrow> (\<And>x. succeeds P (f x)) \<Longrightarrow> succeeds P (obind m f)"
  by (fastforce simp: succeeds_def obind_def)

lemma succeeds_then: "succeeds P m \<Longrightarrow> succeeds P n \<Longrightarrow> succeeds P (othen m n)"
  unfolding othen_def by (rule succeeds_bind)

lemma succeeds_fold: "(\<And>x acc. succeeds P (f x acc)) \<Longrightarrow> succeeds P (ofold f xs acc)"
proof (induction xs arbitrary: acc)
  case (Cons x xs)
  have "ofold f (x # xs) acc = obind (f x acc) (ofold f xs)" by (simp add: fun_eq_iff obind_def)
  then show ?case using Cons by (simp add: succeeds_bind)
qed (simp add: succeeds_def)

lemma succeeds_seq: "(\<And>x. succeeds P (f x)) \<Longrightarrow> succeeds P (oseq f xs)"
proof (induction xs)
  case (Cons x xs)
  have "oseq f (x # xs) = obind (f x) (\<lambda>_. oseq f xs)" by (simp add: fun_eq_iff obind_def)
  then show ?case using Cons by (simp add: succeeds_bind)
qed (simp add: succeeds_def)

lemmas succeeding = succeeds_pure succeeds_bind succeeds_then

definition bare :: "in_memory engine \<Rightarrow> bool" where
  "bare s \<longleftrightarrow> en_art s = art_new \<and> bq_ids (en_bq s) = []"

lemma bare_delete: "succeeds bare (engine_delete (ram_host alnum avx2) sk)"
proof -
  have del: "succeeds bare (sto_del (ram_host alnum avx2) k)" for k
    by (auto simp: succeeds_def sto_del_def on_storage_def ram_host_def ram_backend_def in_memory_delete_def bare_def)
  have art: "succeeds bare (art_del k)" for k
    by (auto simp: succeeds_def art_del_def omod_def bare_def art_delete_def art_new_def)
  have rels: "succeeds bare (remove_relations_for (ram_host alnum avx2) k)" for k
  proof -
    have "succeeds bare (remove_kind (ram_host alnum avx2) k kind)" for kind
      by (auto simp: succeeds_def remove_kind_def othen_def obind_def oget_def bare_def scan_prefix_def scan_prefix_stats_def art_new_def)
    then show ?thesis unfolding remove_relations_for_def by (rule succeeds_seq)
  qed
  have "succeeds bare (delete_meta_rows (ram_host alnum avx2) k)" for k
    unfolding delete_meta_rows_def by (auto intro!: succeeding del simp: bare_def remove_entities_exact_def split: option.split)
  then show ?thesis
    unfolding engine_delete_def Let_def
    by (intro succeeding del art rels) (auto simp: bare_def unnote_dead_def unnote_vec_def unlink_key_def Let_def split: option.split sum.split)
qed

lemma bare_sweeps: "succeeds bare (ofold (gc_delete (ram_host alnum avx2)) vs n)" "succeeds bare (expire_ttl (ram_host alnum avx2) now)"
proof -
  have "succeeds bare (reclaim_bq_orphans n)" for n by (simp add: succeeds_def reclaim_bq_orphans_def bare_def)
  then have del: "succeeds bare (delete_memory (ram_host alnum avx2) k)" for k
    unfolding delete_memory_def with_key_def known_key_def by (auto intro!: succeeding bare_delete)
  show "succeeds bare (ofold (gc_delete (ram_host alnum avx2)) vs n)"
    unfolding gc_delete_def by (intro succeeds_fold succeeding del)
  have "succeeds bare (try_del (ram_host alnum avx2) k)" for k
    by (auto simp: succeeds_def try_del_def sto_del_def on_storage_def ram_host_def ram_backend_def in_memory_delete_def bare_def)
  then have "succeeds bare (ttl_row (ram_host alnum avx2) now row n)" for row n
    by (cases row) (auto simp: ttl_row_def Let_def intro!: succeeding del)
  then show "succeeds bare (expire_ttl (ram_host alnum avx2) now)"
    unfolding expire_ttl_def scan_rows_def by (intro succeeds_fold succeeding)
qed

definition littered :: "in_memory engine" where
  "littered = engine_new 1 1 \<lparr>im_map =
     [(ascii ''md/L2/a'', [1]), (ascii ''md/L2/b'', [2]), (ascii ''md/L2/c'', [3]),
      (meta_key (ascii ''md/L2/a''), meta_encode sample_meta),
      (state_key (ascii ''md/L2/a''), [state_u8 Decayed]), (ttl_key (ascii ''md/L2/c''), le_enc 8 5)]\<rparr>"

definition collecting :: gc_config where
  "collecting = \<lparr>gc_collect_decayed = True, gc_collect_archived = False, gc_min_age_ticks = 10, gc_max_per_pass = 1\<rparr>"

lemma littered_ok:
  "sound (\<lambda>s. bt_wf (im_map s)) littered" "bare littered"
  "ttl_rows (ram_host alnum avx2) littered = [(ttl_key (ascii ''md/L2/c''), le_enc 8 5)]"
  "be_scan ram_backend (en_storage littered) (ascii ''sys/validity/'') = []"
  "doc_blob (ram_host alnum avx2) littered (ascii ''md/L2/a'') = Some [1]"
  "doc_blob (ram_host alnum avx2) littered (ascii ''md/L2/b'') = Some [2]"
  "doc_blob (ram_host alnum avx2) littered (ascii ''md/L2/c'') = Some [3]"
  "meta_at (ram_host alnum avx2) littered (ascii ''md/L2/a'') = Some pair_meta"
proof -
  have "bt_wf (im_map (en_storage littered))" by (simp add: littered_def engine_new_def bt_wf_def side_keys ascii_def)
  then show "sound (\<lambda>s. bt_wf (im_map s)) littered"
    by (simp add: sound_def) (simp add: littered_def engine_new_def ram_keys_def bt_wf_def)
  show "bare littered" by (simp add: bare_def littered_def engine_new_def bq_new_def)
qed (simp_all add: ttl_rows_def ram_host_def ram_backend_def in_memory_scan_def littered_def engine_new_def side_keys ascii_def
    doc_blob_def sto_get_def in_memory_get_def meta_at_def read_meta_def meta_read_back [OF sample_meta_fits] pair_meta_def)

lemma littered_garbage:
  "garbage (ram_host alnum avx2) littered 100 collecting k \<longleftrightarrow> k = ascii ''md/L2/a''"
  "ttl_expired (ho_backend (ram_host alnum avx2)) (en_storage littered) k 100 \<longleftrightarrow> k = ascii ''md/L2/c''"
proof -
  have get: "be_get (ho_backend (ram_host alnum avx2)) (en_storage littered) = bt_get (im_map (en_storage littered))"
    by (simp add: fun_eq_iff ram_host_def ram_backend_def in_memory_get_def)
  have keys: "bt_get (im_map (en_storage littered)) (state_key k) = (if k = ascii ''md/L2/a'' then Some [state_u8 Decayed] else None)"
    "bt_get (im_map (en_storage littered)) (ttl_key k) = (if k = ascii ''md/L2/c'' then Some (le_enc 8 5) else None)"
    by (auto simp: littered_def engine_new_def side_keys ascii_def)
  have "get_state (ho_backend (ram_host alnum avx2)) (en_storage littered) k = (if k = ascii ''md/L2/a'' then Decayed else Active)"
    unfolding get_state_def get keys by (simp add: unwrap_or_def state_from_u8_def)
  moreover have "saturating_sub 100 (mm_created_tick pair_meta) \<ge> 10"
    by (simp add: pair_meta_def sample_meta_def meta_upgrade_def saturating_sub_def)
  ultimately show "garbage (ram_host alnum avx2) littered 100 collecting k \<longleftrightarrow> k = ascii ''md/L2/a''"
    using littered_ok(8) [of alnum avx2] by (auto simp: garbage_def collecting_def) (simp add: ascii_def)
  have "le_val (le_enc 8 5) = 5" by code_simp
  then show "ttl_expired (ho_backend (ram_host alnum avx2)) (en_storage littered) k 100 \<longleftrightarrow> k = ascii ''md/L2/c''"
    by (simp add: ttl_expired_def ttl_of_def get keys)
qed

theorem garbage_is_bounded_witness:
  "\<exists>(r :: gc_report) s'. collect_garbage (ram_host (\<lambda>_. False) False) 100 collecting littered = (Inr r, s') \<and>
     gr_ttl_collected r = 1 \<and> gr_state_collected r = 1 \<and>
     doc_blob (ram_host (\<lambda>_. False) False) s' (ascii ''md/L2/a'') = None \<and>
     doc_blob (ram_host (\<lambda>_. False) False) s' (ascii ''md/L2/b'') = Some [2] \<and>
     doc_blob (ram_host (\<lambda>_. False) False) s' (ascii ''md/L2/c'') = None"
proof -
  let ?h = "ram_host (\<lambda>_. False) False" and ?a = "ascii ''md/L2/a''" and ?b = "ascii ''md/L2/b''" and ?c = "ascii ''md/L2/c''"
  have names: "is_doc ?a" "is_doc ?b" "is_doc ?c" "?a \<noteq> ?b" "?a \<noteq> ?c" "?b \<noteq> ?c" "utf8_valid ?a" "utf8_valid ?c"
    by (auto intro!: utf8_valid_ascii simp: is_doc_def ascii_def)
  have "drop 8 (ttl_key ?c) = ?c" by (simp add: ttl_key_def ascii_def)
  then have rows: "named_documents (ttl_rows ?h littered)" using names by (simp add: littered_ok(3) named_documents_def)
  have old: "expire_old ?h 100 littered = (Inr 0, littered)"
    using littered_ok(4) by (simp add: expire_old_def scan_rows_def obind_def oget_def ram_host_def)
  obtain n u where u: "expire_ttl ?h 100 littered = (Inr n, u)" "bare u"
    using bare_sweeps(2) littered_ok(2) unfolding succeeds_def by blast
  obtain m s' where "ofold (gc_delete ?h) (gc_victims ?h u 100 collecting (be_scan (ho_backend ?h) (en_storage u) (ascii ''sys/meta/'')) []) 0 u = (Inr m, s')"
    using bare_sweeps(1) u(2) unfolding succeeds_def by blast
  then obtain r where run: "collect_garbage ?h 100 collecting littered = (Inr (r :: gc_report), s')"
    using old u(1) by (simp add: collect_garbage_def obind_def scan_rows_def oget_def oret_def collecting_def)
  note won = garbage_is_bounded [OF ram_host_store [of "\<lambda>_. False" False] littered_ok(1) rows run, unfolded littered_garbage]
  then obtain vs where vs: "length vs \<le> max 1 (gc_max_per_pass collecting)" "\<forall>k \<in> set vs. k = ?a"
    and kept: "\<forall>k. is_doc k \<longrightarrow> k \<notin> set vs \<longrightarrow> \<not> k = ?c \<longrightarrow>
      doc_blob ?h s' k = doc_blob ?h littered k \<and> meta_at ?h s' k = meta_at ?h littered k \<and>
      (get_state (ho_backend ?h) (en_storage s') k = get_state (ho_backend ?h) (en_storage littered) k \<or>
       get_state (ho_backend ?h) (en_storage s') k = Invalidated \<and>
         get_state (ho_backend ?h) (en_storage littered) k \<notin> {Archived, Decayed})"
    and report: "\<forall>ra :: gc_report. Inr r = (Inr ra :: stop + gc_report) \<longrightarrow>
      (\<forall>k. is_doc k \<longrightarrow> k \<in> set vs \<or> k = ?c \<longrightarrow> doc_blob ?h s' k = None) \<and>
      gr_ttl_collected ra = card {k. k = ?c \<and> doc_blob ?h littered k \<noteq> None} \<and>
      gr_state_collected ra = card {k \<in> set vs. \<not> k = ?c \<and> doc_blob ?h littered k \<noteq> None} \<and>
      (length vs < gc_max_per_pass collecting \<longrightarrow> (\<forall>k. utf8_valid k \<longrightarrow> k = ?a \<longrightarrow> \<not> k = ?c \<longrightarrow> k \<in> set vs))"
    by (elim exE conjE)
  note told = report [THEN spec, THEN mp, OF refl]
  note gone = told [THEN conjunct1, rule_format] and counts = told [THEN conjunct2, THEN conjunct1]
    told [THEN conjunct2, THEN conjunct2, THEN conjunct1]
  have "vs \<noteq> []"
    using told [THEN conjunct2, THEN conjunct2, THEN conjunct2] names(5,7) by (auto simp: collecting_def)
  then have v: "set vs = {?a}" using vs(2) by (cases vs) auto
  have "{k. k = ?c \<and> doc_blob ?h littered k \<noteq> None} = {?c}" "{k \<in> set vs. k \<noteq> ?c \<and> doc_blob ?h littered k \<noteq> None} = {?a}"
    using littered_ok(5,7) names(5) by (auto simp: v)
  then show ?thesis using run counts kept gone names littered_ok(6) v by (intro exI [of _ r] exI [of _ s']) simp
qed

end
