(* ===== verification/Era_Laws.thy ===== *)
theory Era_Laws
  imports Facade_Calls
begin

text \<open>
  One era at a time: as long as embeddings are written through the guarded calls, all vectors of the
  index have one width, so that none was cut or filled up when it went in.
\<close>

section \<open>Operations that leave the vectors alone\<close>

definition same_vectors :: "'s engine \<Rightarrow> 's engine \<Rightarrow> bool" where
  "same_vectors s s' \<longleftrightarrow> en_bq s' = en_bq s \<and> en_indexed_dims s' = en_indexed_dims s"

abbreviation leaves_vectors :: "('s, 'a) op \<Rightarrow> bool" where
  "leaves_vectors \<equiv> along same_vectors"

named_theorems calms \<open>operations that leave the vectors alone\<close>

interpretation vec_kept: step_preorder same_vectors
  by unfold_locales (simp_all add: same_vectors_def)

declare vec_kept.along_rules [calms] vec_kept.along_writes [calms]

lemma calm_basic [calms]: "leaves_vectors (on_storage f)" "leaves_vectors (on_ledger g')"
  "leaves_vectors (sto_put h k v)" "leaves_vectors (sto_del h k)" "leaves_vectors (try_del h k)"
  "leaves_vectors (art_put k w)" "leaves_vectors (art_del k)" "leaves_vectors fresh_id" "leaves_vectors (tick_author d t)"
  by (auto intro!: alongI simp: same_vectors_def on_storage_def on_ledger_def sto_put_def sto_del_def
    try_del_def art_put_def art_del_def omod_def fresh_id_def tick_author_def Let_def
    split: prod.split sum.split option.split)

lemma calm_mod [calms]: "(\<And>s. same_vectors s (g s)) \<Longrightarrow> leaves_vectors (omod g)"
  by (rule along_mod)

lemma calm_reads [calms]: "leaves_vectors (get_by_storage_key h sk)" "leaves_vectors (engine_get h l k)" "leaves_vectors (export_record h sk)"
  "leaves_vectors (materialize_ram_doc h sk)" "leaves_vectors (validate_written x)" "leaves_vectors (unless_written x)" "leaves_vectors (must_exist h sk msg)"
  unfolding engine_get_def export_record_def get_by_storage_key_def materialize_ram_doc_def validate_written_def
    unless_written_def must_exist_def
  by (intro calms alongI; auto simp: same_vectors_def oret_def ofail_def split: option.split sum.split)+

lemma calm_known [calms]: "(\<And>sk. leaves_vectors (f sk)) \<Longrightarrow> leaves_vectors (with_key h key f)"
  unfolding with_key_def known_key_def by (intro calms)

lemma calm_meta [calms]: "leaves_vectors (write_meta h sk m)" "leaves_vectors (ensure_meta h sk)" "leaves_vectors (set_state h sk st)" "leaves_vectors (set_validity h sk t1 t2)"
  "leaves_vectors (associate h a r b)"
proof -
  show w: "leaves_vectors (write_meta h sk m)" for m
    unfolding write_meta_def by (intro calms) (simp add: same_vectors_def reindex_entities_def)
  show "leaves_vectors (ensure_meta h sk)"
    unfolding ensure_meta_def Let_def by (intro calms w)
  show "leaves_vectors (set_state h sk st)" "leaves_vectors (set_validity h sk t1 t2)" "leaves_vectors (associate h a r b)"
    unfolding set_state_def set_validity_def associate_def Let_def by (intro calms)+
qed

lemma calm_update [calms]: "leaves_vectors (update_meta h sk f)" "leaves_vectors (add_parents h sk ps)"
  unfolding update_meta_def add_parents_def by (intro calms)+

lemma calm_tick:
  fixes f :: "memory_doc \<Rightarrow> ('s, 'a) op"
  assumes "\<And>d. md_layer d = md_layer doc \<Longrightarrow> leaves_vectors (f d)"
  shows "leaves_vectors (obind (tick_author doc t) f)"
proof (rule alongI)
  fix s :: "'s engine"
  have "same_vectors s' (snd (f (ticked s doc t) s'))" for s' :: "'s engine" using assms [of "ticked s doc t"] by (simp add: along_def)
  then show "same_vectors s (snd (obind (tick_author doc t) f s))"
    by (simp add: obind_def tick_author_run same_vectors_def)
qed

lemma calm_put_text [calms]:
  assumes "\<not> carries_embedding (md_layer doc)"
  shows "leaves_vectors (put_inner h doc t)"
proof -
  have index: "same_vectors s (index_vector did d (index_text al d sk (index_ids did d sk s)))"
    if "md_layer d = md_layer doc" for did d sk al s
    using assms that by (simp add: same_vectors_def index_vector_def index_text_def index_ids_def)
  show ?thesis
    unfolding put_inner_def Let_def persist_meta_def index_doc_def store_blob_def
    by (rule vec_kept.along_then [OF vec_kept.along_pure(4)], rule calm_tick, intro calms index)
      (use assms in \<open>simp_all add: same_vectors_def unnote_old_def reindex_entities_def\<close>)
qed

section \<open>Writing an embedding\<close>

text \<open>The vector goes into the index as a whole, with its dimension, or nothing happens to the index.\<close>

definition vector_added :: "u64 \<Rightarrow> u32 list \<Rightarrow> 's engine \<Rightarrow> 's engine \<Rightarrow> bool" where
  "vector_added did emb s t \<longleftrightarrow> en_bq t = bq_insert (en_bq s) did (quantize_f32 emb) \<and>
     en_indexed_dims t = insort_insert (length emb) (en_indexed_dims s)"

lemma vector_added_after: "same_vectors s t \<Longrightarrow> vector_added did emb t u \<Longrightarrow> vector_added did emb s u"
  "vector_added did emb s t \<Longrightarrow> same_vectors t u \<Longrightarrow> vector_added did emb s u"
  by (simp_all add: vector_added_def same_vectors_def)

lemma obind_cases:
  assumes "obind m f s = (r, u)"
  obtains (stopped) e where "m s = (Inl e, u)" "r = Inl e" | (went) x s' where "m s = (Inr x, s')" "f x s' = (r, u)"
  using assms by (auto simp: obind_def split: prod.splits sum.splits)

lemma othen_cases:
  assumes "othen m n s = (r, u)"
  obtains (stopped) e where "m s = (Inl e, u)" "r = Inl e" | (went) s' where "m s = (Inr (), s')" "n s' = (r, u)"
  using assms unfolding othen_def by (auto elim: obind_cases)

lemma index_embedding:
  assumes "md_payload d = embedding_payload emb" "md_bitvec d = Some (quantize_f32 emb)" "carries_embedding (md_layer d)" "emb \<noteq> []"
    and "index_doc h did d sk s = (r, u)"
  shows "vector_added did emb s u"
proof -
  have len: "length (concat (map (\<lambda>x. le_enc 4 (unat x)) es)) = 4 * length es" for es :: "u32 list"
    by (induction es) simp_all
  have pay: "length (md_payload d) = 4 * length emb" using assms(1) by (simp add: embedding_payload_def len)
  moreover have "4 \<le> 4 * length emb" using assms(4) by (cases emb) auto
  ultimately have "vector_added did emb s (index_vector did d (index_text al d sk (index_ids did d sk s)))" for al
    using assms(2,3) by (simp add: vector_added_def index_vector_def index_text_def index_ids_def note_vec_def Let_def split: option.split)
  moreover have "art_put sk did (index_vector did d (index_text (ho_alnum h) d sk (index_ids did d sk s))) = (r, u)"
    using assms(5) by (auto simp: index_doc_def omod_def elim: othen_cases)
  then have "same_vectors (index_vector did d (index_text (ho_alnum h) d sk (index_ids did d sk s))) u"
    by (rule along_run [OF calm_basic(6)])
  ultimately show ?thesis by (rule vector_added_after(2))
qed

lemma othen_assoc: "othen m (othen n (othen k l)) = othen (othen m (othen n k)) l"
  by (simp add: fun_eq_iff othen_def obind_def split: prod.split sum.split)

lemma put_inner_run:
  assumes "doc_key_problem (md_key doc) = None" "\<not> has_prefix_conflict (ho_avx2 h) (en_art s) (storage_key doc)"
  shows "put_inner h doc t s = othen (omod (unnote_old h (md_layer doc) (storage_key doc)))
      (othen (store_blob h (md_layer doc) (storage_key doc) (doc_encode (ticked s doc t)))
      (othen (persist_meta h (storage_key doc) (ticked s doc t) t)
      (othen (index_doc h (en_next_id s) (ticked s doc t) (storage_key doc))
      (othen (omod (\<lambda>s. s\<lparr>en_puts := en_puts s + 1\<rparr>)) (oret (en_next_id s))))))
      (s\<lparr>en_watermark := (if t then counter_of (md_clock (ticked s doc t)) (en_node_id s) else en_watermark s),
         en_next_id := en_next_id s + 1\<rparr>)"
  using assms
  by (simp add: put_inner_def guard_key_def Let_def othen_def [of "oret ()"] obind_def [of "oret ()"] oret_def [of "()"]
    obind_def [of "tick_author doc t"] tick_author_run obind_def [of fresh_id] fresh_id_def
    obind_def [of "oget _"] oget_def)

lemma put_embedding:
  assumes layer: "carries_embedding layer" and emb: "emb \<noteq> []"
    and run: "put_inner h (embedding_doc layer key emb) t s = (r, u)"
  shows "(same_vectors s u \<or> vector_added (en_next_id s) emb s u) \<and> (\<forall>did. r = Inr did \<longrightarrow> vector_added (en_next_id s) emb s u)"
proof -
  let ?d = "ticked s (embedding_doc layer key emb) t" and ?sk = "storage_key (embedding_doc layer key emb)"
  let ?did = "en_next_id s"
  let ?s1 = "s\<lparr>en_watermark := (if t then counter_of (md_clock ?d) (en_node_id s) else en_watermark s), en_next_id := ?did + 1\<rparr>"
  have same: "same_vectors s ?s1" by (simp add: same_vectors_def)
  have doc: "md_payload ?d = embedding_payload emb" "md_bitvec ?d = Some (quantize_f32 emb)" "carries_embedding (md_layer ?d)"
    "storage_key ?d = ?sk"
    using layer by (simp_all add: embedding_doc_def doc_new_def)
  have store: "same_vectors a b" if "othen (omod (unnote_old h (md_layer ?d) ?sk)) (othen (store_blob h (md_layer ?d) ?sk (doc_encode ?d))
      (persist_meta h ?sk ?d t)) a = (q, b)" for a q and b :: "'a engine"
  proof (rule along_run [where R = same_vectors, rotated])
    show "leaves_vectors (othen (omod (unnote_old h (md_layer ?d) ?sk)) (othen (store_blob h (md_layer ?d) ?sk (doc_encode ?d))
      (persist_meta h ?sk ?d t)))"
      unfolding store_blob_def persist_meta_def Let_def
      by (intro calms) (auto simp: same_vectors_def unnote_old_def unnote_vec_def reindex_entities_def split: option.split sum.split)
  qed (fact that)
  let ?head = "othen (omod (unnote_old h (md_layer ?d) ?sk)) (othen (store_blob h (md_layer ?d) ?sk (doc_encode ?d)) (persist_meta h ?sk ?d t))"
  let ?tail = "othen (index_doc h ?did ?d ?sk) (othen (omod (\<lambda>s. s\<lparr>en_puts := en_puts s + 1\<rparr>)) (oret ?did))"
  have tail: "vector_added ?did emb a u" if "?tail a = (r, u)" for a
    using that by (auto elim!: othen_cases simp: omod_def oret_def
        intro: vector_added_after(2) [OF index_embedding [OF doc(1-3) emb]] index_embedding [OF doc(1-3) emb])
      (auto simp: same_vectors_def vector_added_def dest!: index_embedding [OF doc(1-3) emb])
  show ?thesis
  proof (cases "doc_key_problem (md_key (embedding_doc layer key emb)) \<noteq> None \<or> has_prefix_conflict (ho_avx2 h) (en_art s) ?sk")
    case True
    then show ?thesis
      using run by (cases "doc_key_problem (md_key (embedding_doc layer key emb))")
        (auto simp: put_inner_def othen_def obind_def guard_key_def tick_author_run fresh_id_def oget_def ofail_def oret_def
          same_vectors_def)
  next
    case False
    then have "othen ?head ?tail ?s1 = (r, u)"
      using run put_inner_run [of "embedding_doc layer key emb" h s t]
      by (simp add: othen_assoc [of "omod (unnote_old h _ _)" "store_blob h _ _ _" "persist_meta h _ _ _"])
    then show ?thesis
    proof (cases rule: othen_cases)
      case (stopped e)
      then show ?thesis using store [of ?s1 "Inl e" u] same by (simp add: same_vectors_def)
    next
      case (went s')
      then have "vector_added ?did emb s u"
        using vector_added_after(1) [OF same vector_added_after(1) [OF store tail]] by simp
      then show ?thesis by simp
    qed
  qed
qed

section \<open>One era\<close>

definition one_era :: "'s engine \<Rightarrow> bool" where
  "one_era s \<longleftrightarrow> bq_inv (en_bq s) \<and>
     (case en_indexed_dims s of
        [] \<Rightarrow> words_per_vec (en_bq s) = 0
      | [d] \<Rightarrow> 0 < d \<and> words_per_vec (en_bq s) = words_for d
      | _ \<Rightarrow> False)"

definition era_step :: "'s engine \<Rightarrow> 's engine \<Rightarrow> bool" where
  "era_step s t \<longleftrightarrow> (one_era s \<longrightarrow> one_era t)"

named_theorems eras \<open>operations that stay within one era\<close>

interpretation era: step_preorder era_step
  by unfold_locales (simp_all add: era_step_def)

declare era.along_rules [eras] era.along_writes [eras]

lemma same_vectors_era: "same_vectors s t \<Longrightarrow> era_step s t"
  by (simp add: era_step_def same_vectors_def one_era_def cong: list.case_cong)

lemma era_calm: "leaves_vectors m \<Longrightarrow> along era_step m"
  by (erule along_mono) (rule same_vectors_era)

text \<open>What the guard of the era lets through.\<close>

definition admitted :: "u32 list \<Rightarrow> 's engine \<Rightarrow> bool" where
  "admitted emb s \<longleftrightarrow> emb \<noteq> [] \<and> (en_indexed_dims s = [] \<or> length emb \<in> set (en_indexed_dims s))"

lemma checked_embedding_cases:
  assumes "checked_embedding emb s = (r, u)"
  shows "u = s \<and> (r = Inr () \<longrightarrow> admitted emb s)"
  using assms by (auto simp: checked_embedding_def check_embedding_def check_era_dims_def admitted_def obind_def oget_def oret_def
    ofail_def split: sum.splits if_splits)

lemma one_era_dims: "one_era s \<Longrightarrow> en_indexed_dims s = [] \<or> (\<exists>d. en_indexed_dims s = [d] \<and> 0 < d \<and> words_per_vec (en_bq s) = words_for d)"
  by (auto simp: one_era_def split: list.splits)

lemma words_for_pos: "0 < n \<Longrightarrow> 0 < words_for n"
  by (simp add: words_for_def)

lemma vector_added_era:
  assumes "one_era s" "admitted emb s" "vector_added did emb s t"
  shows "one_era t" "en_indexed_dims t = [length emb]" "bq_pairs (en_bq t) = bq_pairs (en_bq s) @ [(did, quantize_f32 emb)]"
    "words_per_vec (en_bq t) = length (quantize_f32 emb)"
proof -
  have len: "length (quantize_f32 emb) = words_for (length emb)" "0 < words_for (length emb)"
    using assms(2) by (simp_all add: quantize_f32_def admitted_def words_for_pos)
  have dims: "en_indexed_dims s = [] \<and> words_per_vec (en_bq s) = 0 \<or>
      en_indexed_dims s = [length emb] \<and> words_per_vec (en_bq s) = words_for (length emb)"
    using assms(1,2) one_era_dims [OF assms(1)] by (auto simp: admitted_def one_era_def)
  have ix: "bq_inv (en_bq s)" using assms(1) by (simp add: one_era_def)
  note ins = insert_ok [OF ix, of did "quantize_f32 emb"]
  show d: "en_indexed_dims t = [length emb]"
    using assms(3) dims by (auto simp: vector_added_def insort_insert_key_def)
  show w: "words_per_vec (en_bq t) = length (quantize_f32 emb)"
    using assms(3) dims len by (auto simp: vector_added_def bq_insert_def Let_def max_def)
  have "bq_inv (en_bq t)" using assms(3) ins by (simp add: vector_added_def)
  then show "one_era t" using assms(2) d w len by (simp add: one_era_def admitted_def)
  show "bq_pairs (en_bq t) = bq_pairs (en_bq s) @ [(did, quantize_f32 emb)]"
    using assms(3) dims len ins by (auto simp: vector_added_def fit_words_def row_width_def max_def)
qed

section \<open>The calls\<close>

lemma era_put_embedding:
  assumes "carries_embedding layer" "admitted emb s"
  shows "era_step s (snd (put_inner h (embedding_doc layer key emb) t s))"
proof -
  obtain r u where run: "put_inner h (embedding_doc layer key emb) t s = (r, u)" by fastforce
  have "emb \<noteq> []" using assms(2) by (simp add: admitted_def)
  from put_embedding [OF assms(1) this run] have "same_vectors s u \<or> vector_added (en_next_id s) emb s u" by simp
  then have "era_step s u"
    using vector_added_era(1) [OF _ assms(2)] same_vectors_era [of s u] by (auto simp: era_step_def)
  then show ?thesis by (simp add: run)
qed

lemma era_checked_put [eras]:
  fixes n :: "('s, 'a) op"
  assumes "carries_embedding layer" "along era_step n"
  shows "along era_step (othen (checked_embedding emb) (othen (put_quiet (put_inner h (embedding_doc layer key emb) t)) n))"
proof (rule alongI)
  fix s :: "'s engine"
  let ?m = "othen (put_quiet (put_inner h (embedding_doc layer key emb) t)) n"
  obtain r u where c: "checked_embedding emb s = (r, u)" by fastforce
  show "era_step s (snd (othen (checked_embedding emb) ?m s))"
  proof (cases r)
    case (Inl e)
    then show ?thesis using checked_embedding_cases [OF c] by (simp add: othen_def obind_def c era.same)
  next
    case (Inr y)
    then have a: "admitted emb s" "u = s" using checked_embedding_cases [OF c] by simp_all
    have "era_step s (snd (put_quiet (put_inner h (embedding_doc layer key emb) t) s))"
      using era_put_embedding [OF assms(1) a(1), of h key t] by (auto simp: put_quiet_def obind_def oret_def split: prod.split sum.split)
    moreover have "era_step s' (snd (n s'))" for s' :: "'s engine" using assms(2) by (rule alongD)
    ultimately have "era_step s (snd (?m s))"
      by (auto simp: othen_def [of "put_quiet _"] obind_def [of "put_quiet _"] intro: era.further split: prod.split sum.split)
    then show ?thesis by (simp add: othen_def [of "checked_embedding _"] obind_def [of "checked_embedding _"] c Inr a(2))
  qed
qed

lemma calm_doc_new [calms]: "\<not> carries_embedding l \<Longrightarrow> leaves_vectors (engine_put h (doc_new l k x))"
  "\<not> carries_embedding l \<Longrightarrow> leaves_vectors (put_companion h (doc_new l k x))"
  unfolding engine_put_def put_companion_def by (auto intro!: calms simp: doc_new_def)

lemma not_embedding [simp]: "\<not> carries_embedding L0Sensory" "\<not> carries_embedding L1Working" "\<not> carries_embedding L2EpisodicShort"
  "\<not> carries_embedding L3EpisodicLong" "carries_embedding L4Semantic"
  by (simp_all add: carries_embedding_def)

lemma calm_labels [calms]: "leaves_vectors (set_scope h k y)" "leaves_vectors (set_scope_dims h k ds)" "leaves_vectors (set_model_id h k y)"
  "leaves_vectors (set_entities h k es)" "leaves_vectors (set_content_type h k y)" "leaves_vectors (set_importance h k w)" "leaves_vectors (set_confidence h k w)"
  "leaves_vectors (reinforce h k w)" "leaves_vectors (feedback h k b w)" "leaves_vectors (set_authority h k a)" "leaves_vectors (add_parents_of h k es)"
  "leaves_vectors (set_state_of h k st)" "leaves_vectors (forget h k)"
  unfolding set_scope_def set_scope_dims_def set_model_id_def set_entities_def set_content_type_def set_importance_def
    set_confidence_def reinforce_def feedback_def set_authority_def Let_def add_parents_of_def set_state_of_def forget_def
  by (intro calms vec_kept.along_try)+

lemma calm_finish [calms]: "leaves_vectors (finish_remember h d sk c opts)"
  unfolding finish_remember_def Let_def by (intro calms) (simp add: same_vectors_def)

lemma era_semantic [eras]: "along era_step (remember_semantic h k x emb)"
  unfolding remember_semantic_def engine_put_def
  by (intro eras era_calm [OF calm_put_text]) (auto intro!: era_calm calms)

lemma era_semantic_with [eras]: "along era_step (remember_semantic_with h d k x emb opts)"
  unfolding remember_semantic_with_def by (intro eras era_calm [OF calm_finish])

lemma calm_exchange [calms]: "leaves_vectors (remember_exchange h u r)" "leaves_vectors (remember_fact h x now)" "leaves_vectors (remember_episodic h u r now)"
  "leaves_vectors (remember_text_with h d k x opts)"
  unfolding remember_exchange_def remember_fact_def remember_episodic_def remember_text_with_def remember_text_def Let_def
  by (intro calms; simp)+

lemma era_exchange_full [eras]: "along era_step (remember_exchange_full h u r eu er now)"
  unfolding remember_exchange_full_def Let_def remember_text_def
  by (intro eras) (intro era_calm calms; simp)+

lemma obind_simps: "obind (ofail e) f = ofail e" "obind (oret x) f = f x" "obind (othen m (oret d)) f = othen m (f d)"
  by (simp_all add: fun_eq_iff obind_def ofail_def oret_def othen_def split: prod.split sum.split)

lemma era_operational [eras]: "along era_step (remember_operational h d l k x e opts)"
proof -
  let ?go = "\<lambda>doc. othen (put_quiet (put_operational h doc))
      (if carries_embedding l \<and> x \<noteq> []
       then othen (put_quiet (put_companion h (doc_new L2EpisodicShort k x)))
            (finish_remember h d (storage_key doc) (ascii ''md/L2/'' @ k) opts)
       else finish_remember h d (storage_key doc) (storage_key doc) opts)"
  have rest: "leaves_vectors (if carries_embedding l \<and> x \<noteq> []
       then othen (put_quiet (put_companion h (doc_new L2EpisodicShort k x)))
            (finish_remember h d (storage_key doc) (ascii ''md/L2/'' @ k) opts)
       else finish_remember h d (storage_key doc) (storage_key doc) opts)" for doc
    by (intro calms) simp
  have "along era_step (obind (operational_doc l k x e) ?go)"
  proof (cases "carries_embedding l")
    case True
    have "along era_step (othen (checked_embedding w) (?go (embedding_doc l k w)))" for w
      unfolding put_operational_def by (intro era_checked_put True era_calm rest)
    then show ?thesis
      using True by (auto simp: operational_doc_def obind_simps intro!: eras split: option.split)
  next
    case False
    have "along era_step (?go (doc_new l k x))"
      unfolding put_operational_def by (intro eras era_calm rest calm_put_text) (use False in \<open>simp add: doc_new_def\<close>)
    then show ?thesis
      using False by (auto simp: operational_doc_def obind_simps intro!: eras split: option.split)
  qed
  then show ?thesis
    unfolding remember_operational_def by (intro era.along_then era_calm [OF calm_reads(5)])
qed

lemma era_doctrine [eras]: "along era_step (ensure_doctrine h d x e)"
  unfolding ensure_doctrine_def relabel_doctrine_def Let_def
  by (intro eras) (intro era_calm calms)+

lemma calm_delete [calms]: "leaves_vectors (engine_delete h sk)"
  unfolding engine_delete_def delete_meta_rows_def remove_relations_for_def remove_kind_def remove_outgoing_def remove_incoming_def Let_def
  by (intro calms) (auto simp: same_vectors_def unnote_dead_def unnote_vec_def remove_entities_exact_def unlink_key_def Let_def
    split: option.split sum.split)

lemma retain_keeps_width:
  assumes "bq_inv ix" "retain ix keep = Inr (ix', m)"
  shows "bq_inv ix' \<and> words_per_vec ix' = words_per_vec ix"
  using retain_ok [OF assms(1), of keep] assms(2) by (auto simp: retain_def Let_def and_then_Inr_iff)

lemma era_reclaim [eras]: "along era_step (reclaim_bq_orphans n)"
proof (rule alongI)
  fix s :: "'s engine"
  let ?keep = "\<lambda>d. bt_get (en_id_to_sk s) d \<noteq> None"
  have "snd (reclaim_bq_orphans n s) = s \<or>
      (\<exists>ix m. retain (en_bq s) ?keep = Inr (ix, m) \<and> snd (reclaim_bq_orphans n s) = s\<lparr>en_bq := ix\<rparr>)"
    by (auto simp: reclaim_bq_orphans_def Let_def split: sum.split)
  then show "era_step s (snd (reclaim_bq_orphans n s))"
  proof
    assume "\<exists>ix m. retain (en_bq s) ?keep = Inr (ix, m) \<and> snd (reclaim_bq_orphans n s) = s\<lparr>en_bq := ix\<rparr>"
    then obtain ix m where "retain (en_bq s) ?keep = Inr (ix, m)" "snd (reclaim_bq_orphans n s) = s\<lparr>en_bq := ix\<rparr>" by blast
    then show ?thesis
      using retain_keeps_width [of "en_bq s" ?keep ix m] by (simp add: era_step_def one_era_def cong: list.case_cong)
  qed (simp add: era.same)
qed

lemma era_delete [eras]: "along era_step (delete_memory h k)"
  unfolding delete_memory_def with_key_def known_key_def by (intro eras era_calm [OF calm_delete])

lemma era_purge [eras]: "along era_step (forget_purge sel h k why)"
  unfolding forget_purge_def with_key_def known_key_def by (intro eras) (intro era_calm calms)+

lemma calm_expire_old [calms]: "leaves_vectors (expire_old h now)"
proof -
  have "leaves_vectors (expire_row h now row n)" for row n
    by (cases row) (auto simp: expire_row_def Let_def intro!: calms)
  then show ?thesis unfolding expire_old_def scan_rows_def by (intro calms)
qed

lemma era_collect [eras]: "along era_step (expire_ttl h now)" "along era_step (collect_garbage h now cfg)"
proof -
  have row: "along era_step (ttl_row h now row n)" for row n
    by (cases row) (auto simp: ttl_row_def Let_def intro!: eras era_calm [OF calm_basic(5)])
  show ttl: "along era_step (expire_ttl h now)" unfolding expire_ttl_def scan_rows_def by (intro eras row)
  show "along era_step (collect_garbage h now cfg)"
    unfolding collect_garbage_def scan_rows_def gc_delete_def by (intro eras era_calm [OF calm_expire_old] ttl)
qed

lemma calm_curation [calms]: "leaves_vectors (supersede h a b)" "leaves_vectors (set_validity_of h k t1 t2)" "leaves_vectors (invalidate_memory h k t1)"
  "leaves_vectors (set_ttl_of h k t1)" "leaves_vectors (set_event_of h k e t1)" "leaves_vectors (close_event h k t1)" "leaves_vectors (associate_keys h a r b)"
  "leaves_vectors (associate_checked h a r b)" "leaves_vectors (dismiss_conflict h c)" "leaves_vectors (note_absence h q sc t1)"
  "leaves_vectors (forget_absence h q sc)" "leaves_vectors (set_trigger h p ns)" "leaves_vectors (forget_trigger h p)"
  unfolding supersede_def supersede_rows_def link_versions_def set_validity_of_def invalidate_memory_def invalidate_def
    set_ttl_of_def set_event_of_def close_event_def associate_keys_def associate_checked_def dismiss_conflict_def
    note_absence_def forget_absence_def set_trigger_def forget_trigger_def Let_def
  by (intro calms; simp)+

text \<open>
  The calls that write a vector without the guard: raw documents of a layer of embeddings, whatever
  replication brings, the transfer and the fusion of memories, and the tick, which promotes to such a layer.
\<close>

fun unguarded :: "facade_call \<Rightarrow> bool" where
  "unguarded (Do_remember l k x) = carries_embedding l"
| "unguarded (Do_put d) = carries_embedding (md_layer d)"
| "unguarded (Do_put_operational d) = carries_embedding (md_layer d)"
| "unguarded (Do_put_companion d) = carries_embedding (md_layer d)"
| "unguarded (Do_transfer k l) = carries_embedding l"
| "unguarded (Do_merge a b k) = True"
| "unguarded (Do_merge_remote r) = carries_embedding (md_layer (mr_doc r))"
| "unguarded (Do_import r) = carries_embedding (md_layer (mr_doc r))"
| "unguarded (Do_resolve c v) = True"
| "unguarded (Do_decide c d) = True"
| "unguarded (Do_tick lc t) = True"
| "unguarded _ = False"

lemma calm_import: "\<not> carries_embedding (md_layer (mr_doc r)) \<Longrightarrow> leaves_vectors (import_record h r)"
  unfolding import_record_def Let_def by (intro calms) auto

lemma calm_merge_remote: "\<not> carries_embedding (md_layer (mr_doc r)) \<Longrightarrow> leaves_vectors (merge_remote h r)"
  unfolding merge_remote_def merge_over_def adopt_def record_conflict_def Let_def by (intro calms calm_import)

lemma calm_transfer: "\<not> carries_embedding l \<Longrightarrow> leaves_vectors (transfer_to h k l)"
  unfolding transfer_to_def Let_def by (intro calms)

lemma calm_raw: assumes "\<not> carries_embedding (md_layer d)"
  shows "leaves_vectors (facade_put h d)" "leaves_vectors (facade_put_operational h d)" "leaves_vectors (put_companion h d)"
  unfolding facade_put_def facade_put_operational_def engine_put_def put_operational_def put_companion_def
  by (intro calms; simp add: assms)+

lemma calm_remember: "\<not> carries_embedding l \<Longrightarrow> leaves_vectors (remember_text h l k x)"
  unfolding remember_text_def by (intro calms)

lemma era_perform: "\<not> unguarded c \<Longrightarrow> along era_step (perform h c)"
  by (cases c) (simp_all only: perform.simps unguarded.simps not_True_eq_False,
    (intro eras era_calm calms calm_import calm_merge_remote calm_transfer calm_raw calm_remember; assumption)+)

end
