(* ===== verification/Write_Laws.thy ===== *)
theory Write_Laws
  imports Era_Laws Engine_Relations
begin

text \<open>
  What a write of an embedding leaves behind: the vector and its text, under one counter, and nothing
  else changed.
\<close>

section \<open>The payload of an embedding\<close>

lemma length_embedding_payload [simp]: "length (embedding_payload emb) = 4 * length emb"
  unfolding embedding_payload_def by (induction emb) simp_all

lemma embedding_payload_nth: "i < length emb \<Longrightarrow> f32_at (embedding_payload emb) i = emb ! i"
proof (induction emb arbitrary: i)
  case (Cons x xs)
  have split: "embedding_payload (x # xs) = le_enc 4 (unat x) @ embedding_payload xs" by (simp add: embedding_payload_def)
  show ?case
  proof (cases i)
    case 0
    then show ?thesis by (simp add: f32_at_def split)
  next
    case (Suc j)
    then have "f32_at (embedding_payload (x # xs)) i = f32_at (embedding_payload xs) j" by (simp add: f32_at_def split)
    then show ?thesis using Cons Suc by simp
  qed
qed simp

lemma embedding_reads_back:
  assumes "check_embedding emb = Inr ()"
  shows "payload_floats (embedding_payload emb) = Some emb"
proof -
  have "emb \<noteq> []" "length emb \<le> MAX_EMBEDDING_DIM" using assms by (auto simp: check_embedding_def split: if_splits)
  moreover have "map (f32_at (embedding_payload emb)) [0..<length emb] = emb"
    by (intro nth_equalityI) (simp_all add: embedding_payload_nth)
  ultimately show ?thesis by (cases emb) (simp_all add: payload_floats_def Let_def)
qed

section \<open>Keys\<close>

lemma written_key_ok: "written_problem key = None \<Longrightarrow> doc_key_problem key = None"
  by (auto simp: written_problem_def doc_key_problem_def key_problem_def traversal_def control_byte_def MAX_KLEN_def list_ex_iff
    find_None_iff split: if_splits option.splits)

section \<open>The radix tree after a write\<close>

definition same_art :: "'s engine \<Rightarrow> 's engine \<Rightarrow> bool" where
  "same_art s t \<longleftrightarrow> en_art t = en_art s \<and> en_node_id t = en_node_id s"

interpretation art_kept: step_preorder same_art
  by unfold_locales (simp_all add: same_art_def)

lemma othen_done: "othen m n s = (Inr x, u) \<Longrightarrow> \<exists>s'. m s = (Inr (), s') \<and> n s' = (Inr x, u)"
  by (erule othen_cases) auto

lemma put_inner_art:
  assumes "put_inner h doc t s = (Inr did, u)" "doc_key_problem (md_key doc) = None"
    "\<not> has_prefix_conflict (ho_avx2 h) (en_art s) (storage_key doc)"
  shows "art_insert (en_art s) (storage_key doc) did = Inr (en_art u) \<and> en_node_id u = en_node_id s"
proof -
  let ?d = "ticked s doc t" and ?sk = "storage_key doc" and ?did = "en_next_id s"
  let ?s1 = "s\<lparr>en_watermark := (if t then counter_of (md_clock ?d) (en_node_id s) else en_watermark s), en_next_id := ?did + 1\<rparr>"
  let ?head = "othen (omod (unnote_old h (md_layer doc) ?sk)) (othen (store_blob h (md_layer doc) ?sk (doc_encode ?d)) (persist_meta h ?sk ?d t))"
  have head: "along same_art ?head"
    unfolding store_blob_def persist_meta_def Let_def sto_put_def
    by (intro art_kept.along_rules along_mod)
      (auto intro!: alongI simp: same_art_def unnote_old_def unnote_vec_def reindex_entities_def on_storage_def
        split: option.split sum.split prod.split)
  have "othen ?head (othen (index_doc h ?did ?d ?sk) (othen (omod (\<lambda>s. s\<lparr>en_puts := en_puts s + 1\<rparr>)) (oret ?did))) ?s1 = (Inr did, u)"
    using assms put_inner_run [of doc h s t]
    by (simp add: othen_assoc [of "omod (unnote_old h _ _)" "store_blob h _ _ _" "persist_meta h _ _ _"])
  from othen_done [OF this] obtain s2 where s2run: "?head ?s1 = (Inr (), s2)"
    "othen (index_doc h ?did ?d ?sk) (othen (omod (\<lambda>s. s\<lparr>en_puts := en_puts s + 1\<rparr>)) (oret ?did)) s2 = (Inr did, u)" by blast
  from othen_done [OF this(2)] obtain s3 where "index_doc h ?did ?d ?sk s2 = (Inr (), s3)"
    "othen (omod (\<lambda>s. s\<lparr>en_puts := en_puts s + 1\<rparr>)) (oret ?did) s3 = (Inr did, u)" by blast
  with s2run(1) have run: "?head ?s1 = (Inr (), s2)" "index_doc h ?did ?d ?sk s2 = (Inr (), s3)"
    "u = s3\<lparr>en_puts := en_puts s3 + 1\<rparr>" "did = ?did"
    by (simp_all add: othen_def obind_def omod_def oret_def)
  have s2: "en_art s2 = en_art s" "en_node_id s2 = en_node_id s" using along_run [OF head run(1)] by (simp_all add: same_art_def)
  let ?x = "index_vector ?did ?d (index_text (ho_alnum h) ?d ?sk (index_ids ?did ?d ?sk s2))"
  have "same_store s2 ?x" by simp
  then have "en_art ?x = en_art s2" "en_node_id ?x = en_node_id s2" by (simp_all add: same_store_def)
  moreover have "art_put ?sk ?did ?x = (Inr (), s3)" using othen_done [OF run(2) [unfolded index_doc_def]] by (simp add: omod_def)
  ultimately show ?thesis using s2 run(3,4) by (auto simp: art_put_def split: sum.splits)
qed

section \<open>One write of an embedding\<close>

lemma companion_apart:
  assumes "keys_apart t (layer_key L2EpisodicShort key)" "art_map t' = (art_map t)(layer_key L4Semantic key \<mapsto> v)"
  shows "keys_apart t' (layer_key L2EpisodicShort key)"
  using assms by (auto simp: keys_apart_def apart_def layer_key_def ascii_def prefix_def)

lemma layer_key_utf8: "utf8_valid key \<Longrightarrow> utf8_valid (layer_key l key)"
  using storage_key_utf8 [of "doc_new l key []"] by (simp add: doc_new_def layer_key_def storage_key_def)

lemma semantic_keys: "storage_key (embedding_doc l key emb) = layer_key l key" "storage_key (doc_new l key x) = layer_key l key"
  "storage_key (d\<lparr>md_clock := vc\<rparr>) = storage_key d"
  by (simp_all add: storage_key_def layer_key_def embedding_doc_def doc_new_def)

definition companion_doc :: "'s engine \<Rightarrow> bytes \<Rightarrow> bytes \<Rightarrow> memory_doc" where
  "companion_doc s key txt =
     (doc_new L2EpisodicShort key txt)\<lparr>md_clock := set_counter vc_new (en_node_id s) (en_watermark s)\<rparr>"

lemma remember_semantic_writes:
  fixes s :: "'s engine"
  assumes store: "backend_store good view (ho_backend h) (\<lambda>_ _. True) means" and ok: "en_inv good s"
    and key: "written_problem key = None" "utf8_valid key"
    and emb: "check_embedding emb = Inr ()" "en_indexed_dims s = [] \<or> length emb \<in> set (en_indexed_dims s)"
    and free: "keys_apart (en_art s) (layer_key L4Semantic key)" "keys_apart (en_art s) (layer_key L2EpisodicShort key)"
  shows "\<exists>u (v :: 's engine). remember_semantic h key txt emb s = (Inr (), u) \<and> en_inv good u \<and> en_node_id v = en_node_id s \<and>
    en_watermark u = en_watermark v \<and>
    en_watermark v = counter_of (md_clock (ticked s (embedding_doc L4Semantic key emb) True)) (en_node_id s) \<and>
    (\<forall>k. prefix (ascii ''md/'') k \<longrightarrow> doc_blob h u k =
       (if k = layer_key L2EpisodicShort key then Some (doc_encode (companion_doc v key txt))
        else if k = layer_key L4Semantic key then Some (doc_encode (ticked s (embedding_doc L4Semantic key emb) True))
        else doc_blob h s k))"
proof -
  have e: "engine_store good view h (\<lambda>_ _. True) means" using store by (simp add: engine_store_def)
  let ?d = "embedding_doc L4Semantic key emb"
  have inv: "art_inv (en_art s)" using ok by (simp add: en_inv_def)
  have k4: "doc_key_problem (md_key ?d) = None" "utf8_valid (md_key ?d)" "md_key ?d = key"
    using key written_key_ok by (simp_all add: embedding_doc_def doc_new_def)
  have f4: "\<not> has_prefix_conflict (ho_avx2 h) (en_art s) (storage_key ?d)"
    unfolding semantic_keys by (rule apart_no_conflict [OF inv layer_key_utf8 [OF key(2)] free(1)])
  have fit: "write_fits (\<lambda>_ _. True) h s' d t" for s' d t by (simp add: write_fits_def Let_def)
  obtain v where v: "put_inner h ?d True s = (Inr (en_next_id s), v)" "en_inv good v"
    "en_watermark v = counter_of (md_clock (ticked s ?d True)) (en_node_id s)"
    "\<And>k. prefix (ascii ''md/'') k \<Longrightarrow> doc_blob h v k = (if k = layer_key L4Semantic key then Some (doc_encode (ticked s ?d True)) else doc_blob h s k)"
    using engine_store.does_put_inner [OF e ok k4(1,2) f4 fit, of True] by (auto elim!: doesE simp: semantic_keys)
  have art: "art_insert (en_art s) (layer_key L4Semantic key) (en_next_id s) = Inr (en_art v)" "en_node_id v = en_node_id s"
    using put_inner_art [OF v(1) k4(1) f4] by (simp_all add: semantic_keys)
  have map: "art_map (en_art v) = (art_map (en_art s))(layer_key L4Semantic key \<mapsto> en_next_id s)"
    using art_insert_ok [OF inv free(1) layer_key_utf8 [OF key(2)], of "en_next_id s"] art(1) by auto
  let ?c = "companion_doc v key txt"
  have k2: "doc_key_problem (md_key ?c) = None" "utf8_valid (md_key ?c)" "storage_key ?c = layer_key L2EpisodicShort key"
    using key written_key_ok by (simp_all add: companion_doc_def doc_new_def storage_key_def layer_key_def)
  have "art_inv (en_art v)" using v(2) by (simp add: en_inv_def)
  then have f2: "\<not> has_prefix_conflict (ho_avx2 h) (en_art v) (storage_key ?c)"
    unfolding k2(3) by (rule apart_no_conflict [OF _ layer_key_utf8 [OF key(2)] companion_apart [OF free(2) map]])
  obtain u where u: "put_inner h ?c False v = (Inr (en_next_id v), u)" "en_inv good u" "en_watermark u = en_watermark v"
    "\<And>k. prefix (ascii ''md/'') k \<Longrightarrow> doc_blob h u k = (if k = layer_key L2EpisodicShort key then Some (doc_encode ?c) else doc_blob h v k)"
    using engine_store.does_put_inner [OF e v(2) k2(1,2) f2 fit, of False] by (auto elim!: doesE simp: k2(3) ticked_def)
  have comp: "put_companion h (doc_new L2EpisodicShort key txt) v = put_inner h ?c False v"
    by (simp add: put_companion_def companion_doc_def obind_def oget_def doc_new_def)
  have run: "remember_semantic h key txt emb s = (Inr (), u)"
    using v(1) u(1) key(1) emb comp
    by (auto simp: remember_semantic_def validate_written_def guard_key_def checked_embedding_def check_era_dims_def engine_put_def
      put_quiet_def othen_def obind_def oget_def oret_def)
  show ?thesis
    by (rule exI [of _ u], rule exI [of _ v]) (use run u(2,3) v(3,4) u(4) art(2) in simp)
qed

section \<open>Properties\<close>

lemma embedding_doc_fits:
  assumes "check_embedding emb = Inr ()" "utf8_valid key" "length key \<le> 4096"
  shows "doc_fits (embedding_doc l key emb)"
proof -
  have "length emb \<le> MAX_EMBEDDING_DIM" using assms(1) by (auto simp: check_embedding_def split: if_splits)
  then show ?thesis
    using assms(2,3) by (simp add: doc_fits_def embedding_doc_def doc_new_def vc_new_def quantize_f32_def words_for_def MAX_EMBEDDING_DIM_def)
qed

text \<open>C7: Remembering an embedding over a backend that takes every row: with an admissible key, an embedding
  of the era and free keys the call succeeds; the vector reads back number by number with its bits, the
  text reads back under the companion key, both carry the one counter that this write has added to the
  clock, and every other document is as before.\<close>

theorem remember_semantic_keeps_vector_and_text:
  fixes s :: "'s engine"
  assumes "backend_store good view (ho_backend h) (\<lambda>_ _. True) means" and "en_inv good s"
    and "written_problem key = None" "utf8_valid key" "length txt < 2 ^ 32" "en_node_id s \<noteq> no_node"
    and "check_embedding emb = Inr ()" "en_indexed_dims s = [] \<or> length emb \<in> set (en_indexed_dims s)"
    and "keys_apart (en_art s) (layer_key L4Semantic key)" "keys_apart (en_art s) (layer_key L2EpisodicShort key)"
  shows "\<exists>u d4 d2 vec comp s1 s2. remember_semantic h key txt emb s = (Inr (), u) \<and> en_inv good u \<and>
    engine_get h L4Semantic key u = (Inr (Some vec), s1) \<and> payload_floats (md_payload vec) = Some emb \<and>
    md_bitvec vec = Some (quantize_f32 emb) \<and>
    engine_get h L2EpisodicShort key u = (Inr (Some comp), s2) \<and> md_payload comp = txt \<and>
    doc_blob h u (layer_key L4Semantic key) = Some (doc_encode d4) \<and>
    doc_blob h u (layer_key L2EpisodicShort key) = Some (doc_encode d2) \<and>
    counter_of (md_clock d4) (en_node_id s) = en_watermark u \<and> counter_of (md_clock d2) (en_node_id s) = en_watermark u \<and>
    (en_watermark s \<noteq> u64_max \<longrightarrow> en_watermark s < en_watermark u) \<and>
    (\<forall>k. prefix (ascii ''md/'') k \<and> k \<notin> {layer_key L4Semantic key, layer_key L2EpisodicShort key} \<longrightarrow>
       doc_blob h u k = doc_blob h s k)"
proof -
  let ?d = "ticked s (embedding_doc L4Semantic key emb) True"
  obtain u and v :: "'s engine" where u: "remember_semantic h key txt emb s = (Inr (), u)" "en_inv good u" "en_node_id v = en_node_id s"
    "en_watermark u = en_watermark v" "en_watermark v = counter_of (md_clock ?d) (en_node_id s)"
    and blobs: "\<And>k. prefix (ascii ''md/'') k \<Longrightarrow> doc_blob h u k =
       (if k = layer_key L2EpisodicShort key then Some (doc_encode (companion_doc v key txt))
        else if k = layer_key L4Semantic key then Some (doc_encode ?d) else doc_blob h s k)"
    using remember_semantic_writes [OF assms(1-4,7-10)] by blast
  have md: "prefix (ascii ''md/'') (layer_key l key)" "layer_key L4Semantic key \<noteq> layer_key L2EpisodicShort key" for l
    by (simp_all add: layer_key_def ascii_def)
  have len: "length key \<le> 4096" using assms(3) by (auto simp: written_problem_def MAX_KLEN_def split: if_splits)
  have new: "vc_wf (md_clock (embedding_doc L4Semantic key emb))" by (simp add: embedding_doc_def doc_new_def vc_wf_new)
  have b4: "doc_blob h u (layer_key L4Semantic key) = Some (doc_encode ?d)"
    and b2: "doc_blob h u (layer_key L2EpisodicShort key) = Some (doc_encode (companion_doc v key txt))"
    using blobs md by auto
  have fits4: "doc_fits ?d" using embedding_doc_fits [OF assms(7,4) len] new assms(6) by (rule doc_fits_ticked)
  have wf2: "vc_wf (md_clock (companion_doc v key txt))"
    using assms(6) u(3) by (simp add: companion_doc_def doc_new_def vc_wf_set_counter vc_wf_new)
  then have fits2: "doc_fits (companion_doc v key txt)"
    using assms(4,5) len by (auto simp: doc_fits_def companion_doc_def doc_new_def dest: vc_wf_lengths)
  obtain vec s1 where r4: "get_by_storage_key h (layer_key L4Semantic key) u = (Inr (Some vec), s1)"
    "md_payload vec = md_payload ?d" "md_bitvec vec = md_bitvec ?d" using engine_get_stored [OF b4 fits4] by blast
  obtain comp s2 where r2: "get_by_storage_key h (layer_key L2EpisodicShort key) u = (Inr (Some comp), s2)"
    "md_payload comp = md_payload (companion_doc v key txt)" using engine_get_stored [OF b2 fits2] by blast
  have c2: "counter_of (md_clock (companion_doc v key txt)) (en_node_id s) = en_watermark u"
    using counter_of_set_counter [OF vc_wf_new assms(6), of "en_watermark v"] u(3,4) by (simp add: companion_doc_def doc_new_def)
  have up: "en_watermark s \<noteq> u64_max \<longrightarrow> en_watermark s < en_watermark u"
    using author_clock_counter [OF new assms(6), of "en_watermark s"] u(4,5) by (simp add: ticked_def)
  have "payload_floats (md_payload vec) = Some emb" "md_bitvec vec = Some (quantize_f32 emb)" "md_payload comp = txt"
    using r4(2,3) r2(2) embedding_reads_back [OF assms(7)] by (simp_all add: embedding_doc_def companion_doc_def doc_new_def)
  moreover have "doc_blob h u k = doc_blob h s k"
    if "prefix (ascii ''md/'') k" "k \<notin> {layer_key L4Semantic key, layer_key L2EpisodicShort key}" for k
    using blobs [OF that(1)] that(2) by simp
  ultimately show ?thesis
    using u(1,2) r4(1) r2(1) b4 b2 c2 up u(4,5) unfolding engine_get_def by metis
qed

theorem remember_semantic_keeps_vector_and_text_witness:
  "\<exists>u vec s1. remember_semantic (ram_host (\<lambda>_. False) False) (ascii ''a'') (ascii ''hi'') [0x3F800000] empty_engine = (Inr (), u) \<and>
     engine_get (ram_host (\<lambda>_. False) False) L4Semantic (ascii ''a'') u = (Inr (Some vec), s1) \<and>
     payload_floats (md_payload vec) = Some [0x3F800000]"
proof -
  have key: "written_problem (ascii ''a'') = None" "utf8_valid (ascii ''a'')" "length (ascii ''hi'') < 2 ^ 32"
    by (simp_all add: written_problem_def ascii_def MAX_KLEN_def traversal_def control_byte_def utf8_valid.simps(2))
  have emb: "check_embedding [0x3F800000] = Inr ()" by (simp add: check_embedding_def MAX_EMBEDDING_DIM_def f32_finite_def)
  have apart: "keys_apart (en_art empty_engine) k" for k
    by (simp add: keys_apart_def empty_engine_def engine_new_def art_new_inv)
  have dims: "en_indexed_dims empty_engine = [] \<or> length [0x3F800000 :: u32] \<in> set (en_indexed_dims empty_engine)"
    by (simp add: empty_engine_def engine_new_def)
  show ?thesis
    using remember_semantic_keeps_vector_and_text [OF ram_host_store [of "\<lambda>_. False" False] empty_engine_inv key first_doc_ok(5) emb dims apart apart]
    by blast
qed

lemma remember_semantic_adds:
  assumes "one_era s" "remember_semantic h key txt emb s = (Inr (), u)"
  shows "en_indexed_dims u = [length emb] \<and> words_per_vec (en_bq u) = length (quantize_f32 emb) \<and>
    bq_pairs (en_bq u) = bq_pairs (en_bq s) @ [(en_next_id s, quantize_f32 emb)]"
proof -
  have check: "m s = (Inr (), s') \<Longrightarrow> s' = s" if "m = validate_written key \<or> m = checked_embedding emb" for m s'
    using that checked_embedding_cases [of emb s]
    by (auto simp: validate_written_def guard_key_def oret_def ofail_def split: option.splits)
  from othen_done [OF assms(2) [unfolded remember_semantic_def]] check obtain
    "othen (checked_embedding emb) (othen (put_quiet (engine_put h (embedding_doc L4Semantic key emb)))
       (put_quiet (put_companion h (doc_new L2EpisodicShort key txt)))) s = (Inr (), u)" by blast
  from othen_done [OF this] check have checked: "checked_embedding emb s = (Inr (), s)"
    and rest: "othen (put_quiet (engine_put h (embedding_doc L4Semantic key emb)))
       (put_quiet (put_companion h (doc_new L2EpisodicShort key txt))) s = (Inr (), u)" by blast+
  then have a: "admitted emb s" using checked_embedding_cases by blast
  from othen_done [OF rest] obtain v where
    v: "put_quiet (engine_put h (embedding_doc L4Semantic key emb)) s = (Inr (), v)"
    "put_quiet (put_companion h (doc_new L2EpisodicShort key txt)) v = (Inr (), u)" by blast
  from v(1) obtain did where "put_inner h (embedding_doc L4Semantic key emb) True s = (Inr did, v)"
    by (auto simp: put_quiet_def engine_put_def oret_def elim!: obind_cases)
  then have "vector_added (en_next_id s) emb s v"
    using put_embedding [of L4Semantic emb h key True s "Inr did" v] a by (simp add: admitted_def)
  note added = vector_added_era [OF assms(1) a this]
  have "leaves_vectors (put_quiet (put_companion h (doc_new L2EpisodicShort key txt)))" by (intro calms) simp
  from along_run [OF this v(2)] show ?thesis using added by (simp add: same_vectors_def)
qed

text \<open>C6: One era at a time.  Whatever calls are made, deletions and collections included, as long as none writes a
  vector without the guard: the rows of the vector index keep the width of the one indexed dimension; a
  write that succeeds appends the bits of the embedding uncut; and an embedding of another dimension is
  refused before anything is written.\<close>

theorem guarded_writes_keep_one_era:
  assumes "calls (\<lambda>c. \<not> unguarded c) h s t" and "one_era s"
  shows "one_era t \<and>
    (\<forall>key txt emb u. remember_semantic h key txt emb t = (Inr (), u) \<longrightarrow>
       en_indexed_dims u = [length emb] \<and> words_per_vec (en_bq u) = length (quantize_f32 emb) \<and>
       bq_pairs (en_bq u) = bq_pairs (en_bq t) @ [(en_next_id t, quantize_f32 emb)]) \<and>
    (\<forall>key txt emb. en_indexed_dims t \<noteq> [] \<and> en_indexed_dims t \<noteq> [length emb] \<longrightarrow>
       (\<exists>e. remember_semantic h key txt emb t = (Inl (Sgdb e), t)))"
proof -
  have "era_step s t"
    by (rule calls_invariant [OF assms(1)]) (auto intro: era.same era.further alongD [OF era_perform])
  then have t: "one_era t" using assms(2) by (simp add: era_step_def)
  have "\<exists>e. remember_semantic h key txt emb t = (Inl (Sgdb e), t)"
    if "en_indexed_dims t \<noteq> []" "en_indexed_dims t \<noteq> [length emb]" for key "txt" emb
  proof -
    have "length emb \<notin> set (en_indexed_dims t)" using that one_era_dims [OF t] by auto
    then show ?thesis
      using that(1) by (auto simp: remember_semantic_def validate_written_def guard_key_def checked_embedding_def check_era_dims_def
        othen_def obind_def oret_def ofail_def oget_def split: option.split sum.split)
  qed
  then show ?thesis using t remember_semantic_adds [OF t] by blast
qed

theorem guarded_writes_keep_one_era_witness:
  "\<exists>t. calls (\<lambda>c. \<not> unguarded c) (ram_host (\<lambda>_. False) False) empty_engine t \<and> en_indexed_dims t = [1] \<and>
     (\<exists>e. remember_semantic (ram_host (\<lambda>_. False) False) (ascii ''b'') (ascii ''yo'') [0, 0] t = (Inl (Sgdb e), t))"
proof -
  let ?h = "ram_host (\<lambda>_. False) False"
  have key: "written_problem (ascii ''a'') = None" "utf8_valid (ascii ''a'')"
    by (simp_all add: written_problem_def ascii_def MAX_KLEN_def traversal_def control_byte_def utf8_valid.simps(2))
  have emb: "check_embedding [0x3F800000] = Inr ()" by (simp add: check_embedding_def MAX_EMBEDDING_DIM_def f32_finite_def)
  have apart: "keys_apart (en_art empty_engine) k" for k
    by (simp add: keys_apart_def empty_engine_def engine_new_def art_new_inv)
  have dims: "en_indexed_dims empty_engine = [] \<or> length [0x3F800000 :: u32] \<in> set (en_indexed_dims empty_engine)"
    by (simp add: empty_engine_def engine_new_def)
  have era: "one_era empty_engine" by (simp add: one_era_def empty_engine_def engine_new_def bq_new_inv) (simp add: bq_new_def)
  obtain t where t: "remember_semantic ?h (ascii ''a'') (ascii ''hi'') [0x3F800000] empty_engine = (Inr (), t)"
    using remember_semantic_writes [OF ram_host_store [of "\<lambda>_. False" False] empty_engine_inv key emb dims apart apart] by blast
  have reach: "calls (\<lambda>c. \<not> unguarded c) ?h empty_engine t"
    by (rule calls.call [OF calls.start, of _ "Do_embedding (ascii ''a'') (ascii ''hi'') [0x3F800000]"]) (simp_all add: t)
  have dims1: "en_indexed_dims t = [1]" using remember_semantic_adds [OF era t] by simp
  have "length [0 :: u32, 0] \<noteq> 1" by simp
  with dims1 have other: "en_indexed_dims t \<noteq> [] \<and> en_indexed_dims t \<noteq> [length [0 :: u32, 0]]" by simp
  note law = guarded_writes_keep_one_era [OF reach era, THEN conjunct2, THEN conjunct2, rule_format, OF other]
  show ?thesis by (rule exI [of _ t], intro conjI reach dims1 law)
qed

end
