(* ===== verification/Trust.thy ===== *)
theory Trust
  imports Sha256
begin

unbundle bit_operations_syntax

text \<open>
  The trust seam (\<open>src/src/trust.rs\<close>): a bounded registry of peers, what a host may take for a trusted
  source, and the demonstration signer, a keyed FNV-1a hash that is not cryptographic.
\<close>

datatype auth_status = Unauthenticated | Authenticated | Revoked

datatype trust_level = Untrusted | Trusted | HighlyTrusted

text \<open>The derived order of the levels.\<close>

fun trust_rank :: "trust_level \<Rightarrow> nat" where
  "trust_rank Untrusted = 0"
| "trust_rank Trusted = 1"
| "trust_rank HighlyTrusted = 2"

instantiation trust_level :: linorder
begin

definition less_eq_trust_level :: "trust_level \<Rightarrow> trust_level \<Rightarrow> bool" where
  "less_eq_trust_level a b \<longleftrightarrow> trust_rank a \<le> trust_rank b"

definition less_trust_level :: "trust_level \<Rightarrow> trust_level \<Rightarrow> bool" where
  "less_trust_level a b \<longleftrightarrow> trust_rank a < trust_rank b"

instance
proof
  fix a b :: trust_level
  show "a \<le> b \<Longrightarrow> b \<le> a \<Longrightarrow> a = b"
    by (cases a; cases b) (simp_all add: less_eq_trust_level_def)
qed (auto simp: less_eq_trust_level_def less_trust_level_def)

end

record peer =
  pe_node_id :: u8
  pe_identity :: bytes
  pe_auth :: auth_status
  pe_trust :: trust_level
  pe_capabilities :: "bytes list"

record trust_store =
  ts_peers :: "peer list"
  ts_max_peers :: nat

definition DEFAULT_MAX_PEERS :: nat where
  "DEFAULT_MAX_PEERS = 64"

definition trust_new :: trust_store where
  "trust_new = \<lparr>ts_peers = [], ts_max_peers = DEFAULT_MAX_PEERS\<rparr>"

text \<open>\<open>iter_mut().find(..)\<close> and an assignment: the first peer of a node.\<close>

fun update_peer :: "u8 \<Rightarrow> (peer \<Rightarrow> peer) \<Rightarrow> peer list \<Rightarrow> peer list option" where
  "update_peer n f [] = None"
| "update_peer n f (p # ps) =
     (if pe_node_id p = n then Some (f p # ps) else map_option ((#) p) (update_peer n f ps))"

definition trust_upsert :: "trust_store \<Rightarrow> peer \<Rightarrow> bool \<times> trust_store" where
  "trust_upsert t p =
     (case update_peer (pe_node_id p) (\<lambda>_. p) (ts_peers t) of
        Some ps \<Rightarrow> (True, t\<lparr>ts_peers := ps\<rparr>)
      | None \<Rightarrow>
          if length (ts_peers t) \<ge> ts_max_peers t then (False, t)
          else (True, t\<lparr>ts_peers := ts_peers t @ [p]\<rparr>))"

definition trust_get :: "trust_store \<Rightarrow> u8 \<Rightarrow> peer option" where
  "trust_get t n = List.find (\<lambda>p. pe_node_id p = n) (ts_peers t)"

definition trusted_peers :: "trust_store \<Rightarrow> trust_level \<Rightarrow> peer list" where
  "trusted_peers t low = filter (\<lambda>p. pe_auth p = Authenticated \<and> low \<le> pe_trust p) (ts_peers t)"

definition is_trusted :: "trust_store \<Rightarrow> u8 \<Rightarrow> trust_level \<Rightarrow> bool" where
  "is_trusted t n low =
     (case trust_get t n of Some p \<Rightarrow> pe_auth p = Authenticated \<and> low \<le> pe_trust p | None \<Rightarrow> False)"

definition trust_revoke :: "trust_store \<Rightarrow> u8 \<Rightarrow> trust_store" where
  "trust_revoke t n =
     (case update_peer n (\<lambda>p. p\<lparr>pe_auth := Revoked\<rparr>) (ts_peers t) of
        Some ps \<Rightarrow> t\<lparr>ts_peers := ps\<rparr> | None \<Rightarrow> t)"

definition set_trust :: "trust_store \<Rightarrow> u8 \<Rightarrow> trust_level \<Rightarrow> bool \<times> trust_store" where
  "set_trust t n level =
     (case update_peer n (\<lambda>p. p\<lparr>pe_trust := level\<rparr>) (ts_peers t) of
        Some ps \<Rightarrow> (True, t\<lparr>ts_peers := ps\<rparr>) | None \<Rightarrow> (False, t))"

section \<open>The demonstration signer\<close>

definition SIGN_OFFSET :: u64 where
  "SIGN_OFFSET = 0xcbf29ce484222325"

definition sign_step :: "u8 \<Rightarrow> u64 \<Rightarrow> u64" where
  "sign_step b h = (h XOR ucast b) * 0x100000001b3"

definition fnv_sign :: "u64 \<Rightarrow> bytes \<Rightarrow> bytes" where
  "fnv_sign key payload =
     (let h = fold sign_step payload SIGN_OFFSET;
          h = fold (\<lambda>i. sign_step (ucast (drop_bit (i * 8) key))) [0..<8] h
      in le_enc 8 (unat h))"

definition fnv_verify :: "u64 \<Rightarrow> bytes \<Rightarrow> bytes \<Rightarrow> bool" where
  "fnv_verify key payload auth \<longleftrightarrow> length auth = 8 \<and> auth = fnv_sign key payload"

section \<open>The registry\<close>

definition trust_ok :: "trust_store \<Rightarrow> bool" where
  "trust_ok t \<longleftrightarrow> distinct (map pe_node_id (ts_peers t)) \<and> length (ts_peers t) \<le> ts_max_peers t"

lemma find_node_None: "List.find (\<lambda>p. pe_node_id p = n) ps = None \<longleftrightarrow> n \<notin> pe_node_id ` set ps"
  by (induction ps) auto

lemma update_peer_None: "update_peer n f ps = None \<longleftrightarrow> n \<notin> pe_node_id ` set ps"
  by (induction ps) auto

lemma update_peer_ids:
  assumes "update_peer n f ps = Some qs" "\<And>p. pe_node_id p = n \<Longrightarrow> pe_node_id (f p) = n"
  shows "map pe_node_id qs = map pe_node_id ps \<and> length qs = length ps"
  using assms(1)
proof (induction ps arbitrary: qs)
  case (Cons p ps)
  then show ?case using assms(2) [of p] by (cases "pe_node_id p = n") auto
qed simp

lemma update_peer_find:
  assumes "update_peer n f ps = Some qs" "\<And>p. pe_node_id p = n \<Longrightarrow> pe_node_id (f p) = n"
  shows "List.find (\<lambda>p. pe_node_id p = m) qs =
      (if m = n then map_option f (List.find (\<lambda>p. pe_node_id p = n) ps) else List.find (\<lambda>p. pe_node_id p = m) ps)"
  using assms(1)
proof (induction ps arbitrary: qs)
  case (Cons p ps)
  then show ?case using assms(2) [of p] by (cases "pe_node_id p = n") auto
qed simp

lemma find_append: "List.find P (xs @ ys) = (case List.find P xs of Some x \<Rightarrow> Some x | None \<Rightarrow> List.find P ys)"
  by (induction xs) auto

lemma trust_keep:
  assumes "trust_ok t" "update_peer n f (ts_peers t) = Some qs" "\<And>p. pe_node_id p = n \<Longrightarrow> pe_node_id (f p) = n"
  shows "trust_ok (t\<lparr>ts_peers := qs\<rparr>)"
  using assms(1) update_peer_ids [OF assms(2,3)] by (simp add: trust_ok_def)

lemma upsert_ok: "trust_ok t \<Longrightarrow> trust_ok (snd (trust_upsert t p))"
proof (cases "update_peer (pe_node_id p) (\<lambda>_. p) (ts_peers t)")
  case None
  assume "trust_ok t"
  then have "trust_ok t" "pe_node_id p \<notin> pe_node_id ` set (ts_peers t)"
    using update_peer_None [of "pe_node_id p" "\<lambda>_. p" "ts_peers t"] None by simp_all
  then show ?thesis using None by (simp add: trust_upsert_def trust_ok_def)
next
  case (Some qs)
  assume "trust_ok t"
  then show ?thesis using Some trust_keep [OF _ Some] by (simp add: trust_upsert_def)
qed

lemma revoke_ok: "trust_ok t \<Longrightarrow> trust_ok (trust_revoke t n)"
  using trust_keep [of t n "\<lambda>p. p\<lparr>pe_auth := Revoked\<rparr>"] by (auto simp: trust_revoke_def split: option.split)

lemma set_trust_ok: "trust_ok t \<Longrightarrow> trust_ok (snd (set_trust t n level))"
  using trust_keep [of t n "\<lambda>p. p\<lparr>pe_trust := level\<rparr>"] by (auto simp: set_trust_def split: option.split)

lemma upsert_get:
  "trust_get (snd (trust_upsert t p)) m = (if m = pe_node_id p \<and> fst (trust_upsert t p) then Some p else trust_get t m)"
proof (cases "update_peer (pe_node_id p) (\<lambda>_. p) (ts_peers t)")
  case None
  then have "List.find (\<lambda>q. pe_node_id q = pe_node_id p) (ts_peers t) = None" by (simp add: find_node_None update_peer_None)
  then show ?thesis using None by (auto simp: trust_upsert_def trust_get_def find_append split: option.split)
next
  case (Some qs)
  then have "List.find (\<lambda>q. pe_node_id q = pe_node_id p) (ts_peers t) \<noteq> None"
    unfolding find_node_None using update_peer_None [of "pe_node_id p" "\<lambda>_. p" "ts_peers t"] by simp
  then show ?thesis using Some update_peer_find [OF Some, of m] by (auto simp: trust_upsert_def trust_get_def)
qed

lemma upsert_accepts:
  "fst (trust_upsert t p) \<longleftrightarrow> trust_get t (pe_node_id p) \<noteq> None \<or> length (ts_peers t) < ts_max_peers t"
  using update_peer_None [of "pe_node_id p" "\<lambda>_. p" "ts_peers t"] find_node_None [of "pe_node_id p" "ts_peers t"]
  by (auto simp: trust_upsert_def trust_get_def not_le split: option.split)

lemma revoke_get: "trust_get (trust_revoke t n) m =
    (if m = n then map_option (\<lambda>p. p\<lparr>pe_auth := Revoked\<rparr>) (trust_get t n) else trust_get t m)"
proof (cases "update_peer n (\<lambda>p. p\<lparr>pe_auth := Revoked\<rparr>) (ts_peers t)")
  case None
  then have "List.find (\<lambda>p. pe_node_id p = n) (ts_peers t) = None" by (simp add: find_node_None update_peer_None)
  then show ?thesis using None by (simp add: trust_revoke_def trust_get_def)
next
  case (Some qs)
  then show ?thesis using update_peer_find [OF Some, of m] by (simp add: trust_revoke_def trust_get_def)
qed

lemma set_trust_get: "trust_get (snd (set_trust t n level)) m =
    (if m = n then map_option (\<lambda>p. p\<lparr>pe_trust := level\<rparr>) (trust_get t n) else trust_get t m)"
proof (cases "update_peer n (\<lambda>p. p\<lparr>pe_trust := level\<rparr>) (ts_peers t)")
  case None
  then have "List.find (\<lambda>p. pe_node_id p = n) (ts_peers t) = None" by (simp add: find_node_None update_peer_None)
  then show ?thesis using None by (simp add: set_trust_def trust_get_def)
next
  case (Some qs)
  then show ?thesis using update_peer_find [OF Some, of m] by (simp add: set_trust_def trust_get_def)
qed

section \<open>Properties\<close>

text \<open>C40: The registry of peers: every operation keeps at most one entry per node and the bound on the
  number of peers; an upsert is refused just when the node is new and the registry full, and is otherwise
  what is read back; a revoked peer is trusted at no level, whatever its level is set to afterwards, and
  revoking it changes the standing of no other.\<close>

theorem trust_registry_is_bounded:
  assumes "trust_ok t"
  shows "trust_ok (snd (trust_upsert t p)) \<and> trust_ok (trust_revoke t n) \<and> trust_ok (snd (set_trust t n level)) \<and>
    (fst (trust_upsert t p) \<longleftrightarrow> trust_get t (pe_node_id p) \<noteq> None \<or> length (ts_peers t) < ts_max_peers t) \<and>
    trust_get (snd (trust_upsert t p)) m =
      (if m = pe_node_id p \<and> fst (trust_upsert t p) then Some p else trust_get t m) \<and>
    \<not> is_trusted (snd (set_trust (trust_revoke t n) n level)) n low \<and>
    (m \<noteq> n \<longrightarrow> is_trusted (trust_revoke t n) m low = is_trusted t m low)"
proof (intro conjI impI)
  show "trust_ok (snd (trust_upsert t p))" "trust_ok (trust_revoke t n)" "trust_ok (snd (set_trust t n level))"
    using assms by (rule upsert_ok revoke_ok set_trust_ok)+
  show "\<not> is_trusted (snd (set_trust (trust_revoke t n) n level)) n low"
    by (cases "trust_get t n") (simp_all add: is_trusted_def set_trust_get revoke_get)
  show "is_trusted (trust_revoke t n) m low = is_trusted t m low" if "m \<noteq> n"
    using that by (simp add: is_trusted_def revoke_get)
qed (rule upsert_accepts upsert_get)+

theorem trust_registry_is_bounded_witness:
  "fst (trust_upsert trust_new \<lparr>pe_node_id = 7, pe_identity = [], pe_auth = Authenticated, pe_trust = Trusted,
     pe_capabilities = []\<rparr>)"
proof -
  have "trust_ok trust_new" by (simp add: trust_ok_def trust_new_def)
  from trust_registry_is_bounded [OF this] show ?thesis by (simp add: trust_new_def DEFAULT_MAX_PEERS_def)
qed

lemma fold_sign: "fold sign_step bs h = fnv1a64_seeded h bs"
proof -
  have "sign_step = (\<lambda>b h. (h XOR ucast b) * 0x100000001b3)" by (simp add: sign_step_def fun_eq_iff)
  then show ?thesis by (simp add: fnv1a64_seeded_def)
qed

lemma fnv_sign_hash:
  "fnv_sign key payload = le_enc 8 (unat (fnv1a64_seeded (fnv1a64_seeded SIGN_OFFSET payload)
     (map (\<lambda>i. ucast (drop_bit (i * 8) key)) [0..<8])))"
proof -
  have "fold (\<lambda>i. sign_step (ucast (drop_bit (i * 8) key))) js h =
      fnv1a64_seeded h (map (\<lambda>i. ucast (drop_bit (i * 8) key)) js)" for js h
    by (simp add: fold_map comp_def flip: fold_sign)
  then show ?thesis by (simp add: fnv_sign_def Let_def fold_sign)
qed

text \<open>The demonstration signer: a signature verifies for the payload it was made for, and for no
  payload that differs from it in one byte, under the same key; a signature of another length never
  verifies.\<close>

theorem signature_detects_one_byte:
  "fnv_verify key payload (fnv_sign key payload) \<and>
   (a \<noteq> b \<longrightarrow> \<not> fnv_verify key (xs @ b # ys) (fnv_sign key (xs @ a # ys))) \<and>
   (length auth \<noteq> 8 \<longrightarrow> \<not> fnv_verify key payload auth)"
proof -
  have inj: "le_enc 8 (unat h) = le_enc 8 (unat h') \<Longrightarrow> h = h'" for h h' :: u64
    using of_nat_le_val_enc(1) [of h] of_nat_le_val_enc(1) [of h'] by metis
  have "\<not> fnv_verify key (xs @ b # ys) (fnv_sign key (xs @ a # ys))" if "a \<noteq> b"
  proof
    assume "fnv_verify key (xs @ b # ys) (fnv_sign key (xs @ a # ys))"
    then have "fnv_sign key (xs @ a # ys) = fnv_sign key (xs @ b # ys)" by (simp add: fnv_verify_def)
    then have "fnv1a64_seeded SIGN_OFFSET (xs @ a # ys) = fnv1a64_seeded SIGN_OFFSET (xs @ b # ys)"
      unfolding fnv_sign_hash by (rule fnv1a64_seeded_inj [OF inj])
    then show False using fnv_one_byte [OF that] by blast
  qed
  moreover have "length (fnv_sign key payload) = 8" by (simp add: fnv_sign_hash del: upt_rec_numeral)
  ultimately show ?thesis unfolding fnv_verify_def by blast
qed

theorem signature_detects_one_byte_witness:
  "\<not> fnv_verify 5 [1, 3] (fnv_sign 5 [1, 2])"
  using signature_detects_one_byte [of 5 "[]" 2 3 "[1]" "[]" "[]"] by simp

end
