(* ===== verification/Spec2Isabelle.thy ===== *)
theory Spec2Isabelle
  imports Memory_Doc File_Storage Tickv_File Crdt_Sync Audit_Ledger Art Bq Lexical Idx_Snapshot Facade_Weights Merge_Laws Sweep_Laws Garbage_Laws Add_Only Write_Laws Trust
begin

text \<open>
  neural-sgdb is a database of memories for agents, written in Rust: documents in layers (\<open>md/L0\<close> to
  \<open>md/L7\<close>) in a key-value storage, indexes derived from them, and a facade that writes, curates, ages
  and replicates memories.  This library models the crate \<open>src/src\<close> from the bytes on disk up to the
  facade and proves what each part promises.  Every definition is executable on concrete input, every
  error, early return and panic of the code is a branch of the model, and integers have the width of
  the code (\<open>u8\<close> to \<open>u64\<close> as words; \<open>usize\<close> as \<open>nat\<close>).

  \<^bold>\<open>Foundations.\<close>  \<open>Sgdb_Prelude\<close>: machine types, Rust's \<open>Result\<close> with a panic as a value, little-endian
  numbers, UTF-8.  \<open>Wire\<close>: readers that walk a buffer and fail as the decoders do.  \<open>Btree\<close>: Rust's
  ordered maps and sets as sorted association lists.

  \<^bold>\<open>Data\<close> (\<open>memory_doc.rs\<close>).  \<open>Vector_Clock\<close>: \<open>VectorClock\<close> with its eight slots and overflow, its causal
  order and its merge as a join.  \<open>Memory_Types\<close>, \<open>Memory_Meta\<close>, \<open>Memory_Doc\<close>: layers, states, relations,
  scopes, metadata (MDM1), documents (NMD1) and replication records (MDR1), with encoders, all
  branches of the decoders, and round trips.

  \<^bold>\<open>Storage\<close> (\<open>storage.rs\<close>, \<open>tickv.rs\<close>).  \<open>Storage\<close>: errors, the trait and the RAM backends.  \<open>Crc32\<close>,
  \<open>File_Storage\<close>: the append log as a list of bytes, its recovery, its compaction.  \<open>Tickv\<close>,
  \<open>Tickv_File\<close>: TKLV volumes with their scan, the mount from a checkpoint, and the store over them.  Each
  system call that can fail is an argument of the operation, a crash cuts a write at any byte.  Shown:
  every file that the steps given there reach recovers to the map of the running store, by either way of
  mounting; the steps of a TKLV volume leave out the deletion of keys longer than \<open>MAX_KLEN\<close>, which
  the code does not check and which can plant a record (\<open>delete_injects_record\<close>).  \<open>Backend\<close>
  is what the engine sees of a storage, with the locale \<open>backend_store\<close> interpreted on all three.

  \<^bold>\<open>Indexes\<close> (\<open>art.rs\<close>, \<open>bq.rs\<close>, \<open>hamming_dispatch.rs\<close>, \<open>lexical.rs\<close>, \<open>fingerprint.rs\<close>,
  \<open>idx_snapshot.rs\<close>).  \<open>Art_Node\<close>, \<open>Art\<close>: the radix tree, its node shapes array by array, as a map from keys.
  \<open>Hamming\<close>, \<open>Bq\<close>: the four kernels lane by lane, exact top-k with either heap path, multi-index hashing.
  \<open>Lexical\<close>: postings of a map from keys to texts.  \<open>Idx_Snapshot\<close>: the snapshot of the indexes and its
  pages.

  \<^bold>\<open>Replication and audit\<close> (\<open>crdt.rs\<close>, \<open>conflict.rs\<close>, \<open>audit.rs\<close>, \<open>trust.rs\<close>).  \<open>Crdt_Wire\<close>, \<open>Crdt_Sync\<close>: wire
  formats, merge verdicts, anti-entropy and the sync round over a transport given as a function.
  \<open>Sha256\<close>, \<open>Audit_Entry\<close>, \<open>Audit_Ledger\<close>: the hashes, the entries and the chain over any storage.
  \<open>Trust\<close>: the registry of peers.

  \<^bold>\<open>Engine\<close> (\<open>engine.rs\<close>, \<open>ctype.rs\<close>).  \<open>Side_Tables\<close>: the rows under \<open>sys/\<close>.  \<open>Engine\<close>, \<open>Engine_Ops\<close>: the state of
  \<open>AiosDatabaseEngine\<close> and its operations as steps that end with a value, an error or a panic and keep
  what they had done.  \<open>Engine_Spec\<close> gives total correctness of a step (\<open>does\<close>) and the locale
  \<open>engine_store\<close>, an engine over any backend that keeps the laws of a map within its limits;
  \<open>Engine_Steps\<close> the locale \<open>step_preorder\<close>, what a composition of steps keeps whether or not it fails.
  \<open>Engine_Put\<close>, \<open>Engine_Relations\<close>, \<open>Engine_Delete\<close>: a write updates the map of documents at one key, relations
  are a set of triples, a deletion leaves no trace.

  \<^bold>\<open>Facade\<close> (\<open>sgdb.rs\<close>, \<open>trigger.rs\<close>, \<open>negative.rs\<close>, \<open>staleness.rs\<close>, part of \<open>arbitration.rs\<close>, \<open>doctrine.rs\<close>,
  \<open>lifecycle.rs\<close>).
  \<open>Facade_Keys\<close>, \<open>Triggers\<close>, \<open>Absence\<close>: keys, rules by path, the ledger of absences.  \<open>Float32\<close>: the \<open>f32\<close>
  operations of the weights on bits.  \<open>Facade_Meta\<close> with \<open>Facade_Spec\<close>, \<open>Facade_Lineage\<close>, \<open>Facade_State\<close>,
  \<open>Facade_Weights\<close>, \<open>Facade_Purge\<close>: curation of one memory.  \<open>Facade_Sync\<close>, \<open>Merge_Laws\<close>: merge of remote
  records, conflicts, resolution.  \<open>Facade_Sweeps\<close>, \<open>Sweep_Laws\<close>: windows, expiry, garbage, staleness;
  \<open>Garbage_Laws\<close>: exactly what a collection takes away.  \<open>Lifecycle\<close>: the ticks that promote, let weights
  decay, with the product of \<open>f32\<close>, and archive.
  \<open>Facade_Write\<close>, \<open>Write_Laws\<close>, \<open>Era_Laws\<close>: embeddings with their texts, and the one width of the vector
  index.  \<open>Facade_Calls\<close>: the calls as data and the states that sequences of calls reach, for \<open>Add_Only\<close>
  (documents are marked, not removed) and \<open>Era_Laws\<close>.

  \<^bold>\<open>Interfaces.\<close>  \<open>kv_store\<close> and \<open>bounded_store\<close> (a storage as a map, with limits), \<open>backend_store\<close>,
  \<open>ledger_store\<close>, \<open>engine_store\<close>, \<open>total_store\<close> (a backend that takes every row), \<open>causal_clock\<close> and
  \<open>step_preorder\<close> are the locales; each is interpreted on the model's own definitions where these are
  proved.  A theorem over any backend names the laws as \<open>backend_store good view b fits means\<close>: \<open>good\<close>
  the invariant of the backend, \<open>view\<close> its map, \<open>fits\<close> the rows it takes, \<open>means\<close> what reading a stored
  value gives (the append logs take an empty value for a deletion).

  \<^bold>\<open>Bounds and termination.\<close>  No definition has fuel.  Loops recurse on their data, or on a measure that is
  proved to fall; the walk along parents, which nothing in the code bounds, is a partial function whose
  end is a theorem (\<open>lineage_ends\<close>).  Counters saturate or wrap as in the code; a theorem that needs room
  in a counter or a length says so as a hypothesis.

  \<^bold>\<open>Parameters.\<close>  The alphanumeric characters of Unicode (a predicate on the bytes of a character), the
  features of the CPU, the transport of a sync round, the text of the doctrine, the failures of system
  calls.  Strings are their UTF-8 bytes.

  \<^bold>\<open>Not modelled.\<close>  The scores of recall (\<open>recall\<close>, \<open>recall_lexical\<close>, hybrid and weighted recall,
  \<open>rag_context\<close>, \<open>rabitq.rs\<close>, \<open>ann.rs\<close>, \<open>math.rs\<close>), \<open>decay_importance\<close> and \<open>consolidate\<close>, \<open>quantize_f32_centered\<close> and the
  sums of \<open>corpus_mean\<close>: \<open>f64\<close> arithmetic, quotients, roots, logarithms and exponentials, for which
  real numbers would not be the code.  Counters of metrics, messages for a reader, sockets, the wall clock, examples,
  bindings and connectors.  The restoring half of \<open>rollback_to\<close>, the reports \<open>validate\<close>, \<open>hygiene\<close> and
  \<open>health\<close>, and the distribution of scopes are left for later.
\<close>

end
